(* ===== verification/Kernel_Prelude.thy ===== *)
theory Kernel_Prelude
  imports Main "HOL-Library.Word" "HOL-Library.Monad_Syntax"
begin

text \<open>
  Shared vocabulary of the development: the machine types of the i386 port, the error numbers of
  \<^verbatim>\<open>include/linux/errno.h\<close>, user-space memory as the \<^verbatim>\<open>get_fs_*\<close>/\<^verbatim>\<open>put_fs_*\<close> accessors of
  \<^verbatim>\<open>include/asm/segment.h\<close> see it, the address check \<^verbatim>\<open>verify_area\<close>, and the list, option and word
  lemmas that several components use.

  Conventions of the whole development.  An \<^verbatim>\<open>unsigned long\<close> is a \<^verbatim>\<open>32 word\<close>, an \<^verbatim>\<open>unsigned short\<close>
  a \<^verbatim>\<open>16 word\<close>; a signed \<^verbatim>\<open>int\<close> or \<^verbatim>\<open>long\<close> is an \<^verbatim>\<open>int\<close>, with the wrap-around written out
  (function \<^verbatim>\<open>swrap\<close>) where the code's result depends on it.  A system call returns its C return
  value (\<^verbatim>\<open>-errno\<close> on failure) and the new state.  A function that may dereference NULL, panic or
  not return has an \<^verbatim>\<open>option\<close> result, \<^verbatim>\<open>None\<close> being that failure.
\<close>

unbundle bit_operations_syntax

type_synonym u8 = "8 word"
type_synonym u16 = "16 word"
type_synonym u32 = "32 word"

named_theorems frame_simps \<open>fields an operation leaves alone\<close>
named_theorems word_mask_simps \<open>bit masks as sets of bit positions\<close>

section \<open>Error numbers\<close>

abbreviation (input) EPERM :: int where "EPERM \<equiv> 1"
abbreviation (input) ENOENT :: int where "ENOENT \<equiv> 2"
abbreviation (input) ESRCH :: int where "ESRCH \<equiv> 3"
abbreviation (input) EINTR :: int where "EINTR \<equiv> 4"
abbreviation (input) E2BIG :: int where "E2BIG \<equiv> 7"
abbreviation (input) EBADF :: int where "EBADF \<equiv> 9"
abbreviation (input) ECHILD :: int where "ECHILD \<equiv> 10"
abbreviation (input) EAGAIN :: int where "EAGAIN \<equiv> 11"
abbreviation (input) ENOMEM :: int where "ENOMEM \<equiv> 12"
abbreviation (input) EACCES :: int where "EACCES \<equiv> 13"
abbreviation (input) EFAULT :: int where "EFAULT \<equiv> 14"
abbreviation (input) EBUSY :: int where "EBUSY \<equiv> 16"
abbreviation (input) EEXIST :: int where "EEXIST \<equiv> 17"
abbreviation (input) EINVAL :: int where "EINVAL \<equiv> 22"
abbreviation (input) EFBIG :: int where "EFBIG \<equiv> 27"
abbreviation (input) ENOSPC :: int where "ENOSPC \<equiv> 28"
abbreviation (input) ESPIPE :: int where "ESPIPE \<equiv> 29"
abbreviation (input) EPIPE :: int where "EPIPE \<equiv> 32"
abbreviation (input) ERANGE :: int where "ERANGE \<equiv> 34"
abbreviation (input) ENOLCK :: int where "ENOLCK \<equiv> 37"
abbreviation (input) ENOSYS :: int where "ENOSYS \<equiv> 38"
abbreviation (input) ENOMSG :: int where "ENOMSG \<equiv> 42"
abbreviation (input) EIDRM :: int where "EIDRM \<equiv> 43"
abbreviation (input) ERESTARTSYS :: int where "ERESTARTSYS \<equiv> 512"
abbreviation (input) ERESTARTNOINTR :: int where "ERESTARTNOINTR \<equiv> 513"
abbreviation (input) ERESTARTNOHAND :: int where "ERESTARTNOHAND \<equiv> 514"

section \<open>Machine integers\<close>

text \<open>\<^verbatim>\<open>swrap\<close> is the value a 32-bit signed variable holds after storing a mathematical result in it
  (two's complement, as on the i386); \<^verbatim>\<open>to_u32\<close> and \<^verbatim>\<open>to_s32\<close> are the casts between
  \<^verbatim>\<open>unsigned long\<close> and \<^verbatim>\<open>long\<close>.\<close>

definition swrap :: "int \<Rightarrow> int" where
  "swrap i = (i + 2 ^ 31) mod 2 ^ 32 - 2 ^ 31"

definition to_u32 :: "int \<Rightarrow> u32" where
  "to_u32 i = word_of_int i"

definition to_s32 :: "u32 \<Rightarrow> int" where
  "to_s32 w = sint w"

definition fits_s32 :: "int \<Rightarrow> bool" where
  "fits_s32 i \<longleftrightarrow> - (2 ^ 31) \<le> i \<and> i < 2 ^ 31"

lemma swrap_id [simp]: "fits_s32 i \<Longrightarrow> swrap i = i"
  by (simp add: swrap_def fits_s32_def)

lemma fits_s32_swrap [simp]: "fits_s32 (swrap i)"
proof -
  have "0 \<le> (i + 2 ^ 31) mod 2 ^ 32" "(i + 2 ^ 31) mod 2 ^ 32 < (2::int) ^ 32"
    by simp_all
  then show ?thesis
    by (simp add: swrap_def fits_s32_def)
qed

lemma to_s32_to_u32: "fits_s32 i \<Longrightarrow> to_s32 (to_u32 i) = i"
  by (simp add: to_s32_def to_u32_def fits_s32_def int_word_sint)

lemma fits_to_s32: "fits_s32 (to_s32 w)"
  using sint_range_size [of w] by (simp add: fits_s32_def to_s32_def word_size)

text \<open>C's truncating division and remainder.\<close>

definition cdiv :: "int \<Rightarrow> int \<Rightarrow> int" where
  "cdiv a b = sgn a * sgn b * (\<bar>a\<bar> div \<bar>b\<bar>)"

definition cmod :: "int \<Rightarrow> int \<Rightarrow> int" where
  "cmod a b = a - cdiv a b * b"

lemma cdiv_nonneg [simp]: "0 \<le> a \<Longrightarrow> 0 < b \<Longrightarrow> cdiv a b = a div b"
  by (auto simp: cdiv_def sgn_if)

lemma cmod_nonneg [simp]: "0 \<le> a \<Longrightarrow> 0 < b \<Longrightarrow> cmod a b = a mod b"
  by (simp add: cmod_def minus_div_mult_eq_mod)

section \<open>User memory\<close>

text \<open>The user segment is a byte array; multi-byte accesses are little-endian.\<close>

type_synonym umem = "u32 \<Rightarrow> u8"

definition get_fs_byte :: "umem \<Rightarrow> u32 \<Rightarrow> u8" where
  "get_fs_byte m a = m a"

definition get_fs_word :: "umem \<Rightarrow> u32 \<Rightarrow> u16" where
  "get_fs_word m a = ucast (m a) OR push_bit 8 (ucast (m (a + 1)))"

definition get_fs_long :: "umem \<Rightarrow> u32 \<Rightarrow> u32" where
  "get_fs_long m a = ucast (m a) OR push_bit 8 (ucast (m (a + 1)))
     OR push_bit 16 (ucast (m (a + 2))) OR push_bit 24 (ucast (m (a + 3)))"

definition put_fs_byte :: "u8 \<Rightarrow> u32 \<Rightarrow> umem \<Rightarrow> umem" where
  "put_fs_byte v a m = m(a := v)"

definition put_fs_word :: "u16 \<Rightarrow> u32 \<Rightarrow> umem \<Rightarrow> umem" where
  "put_fs_word v a m = m(a := ucast v, a + 1 := ucast (drop_bit 8 v))"

definition put_fs_long :: "u32 \<Rightarrow> u32 \<Rightarrow> umem \<Rightarrow> umem" where
  "put_fs_long v a m = m(a := ucast v, a + 1 := ucast (drop_bit 8 v),
     a + 2 := ucast (drop_bit 16 v), a + 3 := ucast (drop_bit 24 v))"

text \<open>Four consecutive addresses are distinct, also across the wrap at the end of the segment.\<close>

lemma addr_offset_neq [simp]:
  "a + 1 \<noteq> a" "a + 2 \<noteq> a" "a + 3 \<noteq> a" "a \<noteq> a + 1" "a \<noteq> a + 2" "a \<noteq> a + 3"
  "a + 1 \<noteq> a + 2" "a + 1 \<noteq> a + 3" "a + 2 \<noteq> a + 3"
  "a + 2 \<noteq> a + 1" "a + 3 \<noteq> a + 1" "a + 3 \<noteq> a + 2" for a :: u32
  by simp_all

lemma get_put_fs_long [simp]: "get_fs_long (put_fs_long v a m) a = v"
proof -
  have "get_fs_long (put_fs_long v a m) a =
      ucast (ucast v :: u8) OR push_bit 8 (ucast (ucast (drop_bit 8 v) :: u8))
      OR push_bit 16 (ucast (ucast (drop_bit 16 v) :: u8)) OR push_bit 24 (ucast (ucast (drop_bit 24 v) :: u8))"
    by (simp add: get_fs_long_def put_fs_long_def)
  also have "\<dots> = v"
  proof (rule bit_word_eqI)
    fix n :: nat
    assume "n < LENGTH(32)"
    then show "bit (ucast (ucast v :: u8) OR push_bit 8 (ucast (ucast (drop_bit 8 v) :: u8))
        OR push_bit 16 (ucast (ucast (drop_bit 16 v) :: u8))
        OR push_bit 24 (ucast (ucast (drop_bit 24 v) :: u8)) :: u32) n = bit v n"
      by (cases "24 \<le> n"; cases "16 \<le> n") (auto simp: bit_simps)
  qed
  finally show ?thesis .
qed

lemma get_put_fs_word [simp]: "get_fs_word (put_fs_word v a m) a = v"
proof -
  have "get_fs_word (put_fs_word v a m) a =
      ucast (ucast v :: u8) OR push_bit 8 (ucast (ucast (drop_bit 8 v) :: u8))"
    by (simp add: get_fs_word_def put_fs_word_def)
  also have "\<dots> = v"
    by (rule bit_word_eqI) (auto simp: bit_simps)
  finally show ?thesis .
qed

text \<open>A loop of \<^verbatim>\<open>put_fs_long\<close> over consecutive longs, as when a structure is copied out.\<close>

fun put_longs :: "u32 list \<Rightarrow> u32 \<Rightarrow> umem \<Rightarrow> umem" where
  "put_longs [] dest m = m"
| "put_longs (l # ls) dest m = put_longs ls (dest + 4) (put_fs_long l dest m)"

lemma put_fs_long_other: "4 \<le> unat (b - a) \<Longrightarrow> put_fs_long v a m b = m b" for a b :: u32
  by (auto simp: put_fs_long_def)

lemma unat_diff4:
  fixes a b :: u32
  assumes "4 \<le> unat (b - a)"
  shows "unat (b - (a + 4)) = unat (b - a) - 4"
proof -
  have "(4 :: u32) \<le> b - a" using assms by (simp add: word_le_nat_alt)
  then show ?thesis using unat_sub [of 4 "b - a"] unfolding diff_diff_eq by simp
qed

lemma put_longs_other:
  "4 * length ls \<le> unat (b - a) \<Longrightarrow> put_longs ls a m b = m b"
proof (induction ls arbitrary: a m)
  case (Cons l ls)
  have "4 * length ls \<le> unat (b - (a + 4))" using Cons.prems by (simp add: unat_diff4)
  then show ?case using Cons.IH [of "a + 4" "put_fs_long l a m"] Cons.prems by (simp add: put_fs_long_other)
qed simp

lemma get_fs_long_cong:
  "m' a = m a \<Longrightarrow> m' (a + 1) = m (a + 1) \<Longrightarrow> m' (a + 2) = m (a + 2) \<Longrightarrow> m' (a + 3) = m (a + 3)
    \<Longrightarrow> get_fs_long m' a = get_fs_long m a"
  by (simp add: get_fs_long_def)

lemma get_put_longs:
  assumes "k < length ls" and "length ls < 2 ^ 29"
  shows "get_fs_long (put_longs ls a m) (a + 4 * of_nat k) = ls ! k"
  using assms
proof (induction ls arbitrary: a m k)
  case (Cons l ls)
  show ?case
  proof (cases k)
    case 0
    have far: "4 * length ls \<le> unat (a - (a + 4))" "4 * length ls \<le> unat (a + 1 - (a + 4))"
      "4 * length ls \<le> unat (a + 2 - (a + 4))" "4 * length ls \<le> unat (a + 3 - (a + 4))"
      using Cons.prems by (simp_all add: unsigned_minus_1_eq_mask mask_eq_exp_minus_1)
    have "get_fs_long (put_longs ls (a + 4) (put_fs_long l a m)) a = get_fs_long (put_fs_long l a m) a"
      by (rule get_fs_long_cong) (rule put_longs_other, rule far)+
    then show ?thesis using 0 by simp
  next
    case (Suc j)
    then show ?thesis using Cons.IH [of j "a + 4" "put_fs_long l a m"] Cons.prems by (simp add: algebra_simps)
  qed
qed simp

text \<open>\<^verbatim>\<open>verify_area\<close> of \<^verbatim>\<open>include/linux/mm.h\<close>.  Its last branch calls \<^verbatim>\<open>__verify_write\<close>, which breaks
  copy-on-write sharing in the page tables and always returns 0.\<close>

datatype verify_type = VERIFY_READ | VERIFY_WRITE

abbreviation (input) TASK_SIZE :: u32 where "TASK_SIZE \<equiv> 0xc0000000"

definition verify_area :: "verify_type \<Rightarrow> u32 \<Rightarrow> u32 \<Rightarrow> int" where
  "verify_area vt addr sz =
     (if TASK_SIZE \<le> addr then - EFAULT
      else if sz > TASK_SIZE - addr then - EFAULT
      else 0)"

lemma verify_area_user_range:
  assumes "verify_area vt addr sz = 0"
  shows "unat addr + unat sz \<le> unat TASK_SIZE" and "addr < TASK_SIZE"
proof -
  from assms have a: "addr < TASK_SIZE" and s: "sz \<le> TASK_SIZE - addr"
    by (auto simp: verify_area_def not_le not_less split: if_splits)
  from a show "addr < TASK_SIZE" .
  from a have "unat (TASK_SIZE - addr) = unat TASK_SIZE - unat addr"
    by (intro unat_sub) simp
  with s have "unat sz \<le> unat TASK_SIZE - unat addr"
    by (simp add: word_le_nat_alt)
  moreover from a have "unat addr < unat TASK_SIZE"
    by (simp add: word_less_nat_alt)
  ultimately show "unat addr + unat sz \<le> unat TASK_SIZE" by linarith
qed

section \<open>Lists and folds\<close>

lemma foldl_inv:
  assumes "P s" and "\<And>s x. x \<in> set xs \<Longrightarrow> P s \<Longrightarrow> P (f s x)"
  shows "P (foldl f s xs)"
  using assms by (induction xs arbitrary: s) auto

lemma foldl_frame:
  assumes "\<And>s x. g (f s x) = g s"
  shows "g (foldl f s xs) = g s"
  by (induction xs arbitrary: s) (simp_all add: assms)

lemma takeWhile_dropWhile_split:
  "xs = takeWhile P xs @ dropWhile P xs"
  by simp

lemma option_bind_SomeE:
  assumes "Option.bind m f = Some y"
  obtains x where "m = Some x" "f x = Some y"
  using assms by (cases m) auto

lemma last_notin_butlast: "distinct xs \<Longrightarrow> xs \<noteq> [] \<Longrightarrow> last xs \<notin> set (butlast xs)"
  by (induction xs) (auto split: if_splits)

lemma find_exists:
  assumes "x \<in> set xs" and "P x"
  obtains y where "find P xs = Some y" "y \<in> set xs" "P y"
proof -
  have "find P xs \<noteq> None" using assms by (auto simp: find_None_iff)
  then obtain y where y: "find P xs = Some y" by auto
  moreover from y have "y \<in> set xs" "P y" by (auto simp: find_Some_iff)
  ultimately show ?thesis using that by blast
qed

section \<open>Bit masks\<close>

lemma and_not_bit [word_mask_simps]:
  "bit (w AND NOT m) n \<longleftrightarrow> bit w n \<and> \<not> bit m n" for w m :: "'a::len word"
  by (auto simp: bit_simps dest: bit_imp_le_length)

lemma or_bit [word_mask_simps]:
  "bit (w OR m) n \<longleftrightarrow> bit w n \<or> bit m n" for w m :: "'a::len word"
  by (simp add: bit_simps)

lemma and_bit [word_mask_simps]:
  "bit (w AND m) n \<longleftrightarrow> bit w n \<and> bit m n" for w m :: "'a::len word"
  by (simp add: bit_simps)

section \<open>Histories\<close>

text \<open>A component that several processes use is a relation \<^verbatim>\<open>step\<close> between states, labelled with what the step does as seen
  from outside.  A history is a sequence of steps, and the interface \<^verbatim>\<open>component\<close> is an invariant that all steps keep.\<close>

inductive history :: "('s \<Rightarrow> 'e \<Rightarrow> 's \<Rightarrow> bool) \<Rightarrow> 's \<Rightarrow> 'e list \<Rightarrow> 's \<Rightarrow> bool"
  for step where
  history_nil: "history step s [] s"
| history_cons: "step s e s' \<Longrightarrow> history step s' es s'' \<Longrightarrow> history step s (e # es) s''"

inductive_simps history_Nil [simp]: "history step s [] s'"
inductive_simps history_Cons: "history step s (e # es) s'"

lemma history_append: "history step s es s' \<Longrightarrow> history step s' fs s'' \<Longrightarrow> history step s (es @ fs) s''"
  by (induction rule: history.induct) (auto intro: history.intros)

locale component =
  fixes invar :: "'s \<Rightarrow> bool" and step :: "'s \<Rightarrow> 'e \<Rightarrow> 's \<Rightarrow> bool"
  assumes step_invar: "step s e s' \<Longrightarrow> invar s \<Longrightarrow> invar s'"
begin

lemma history_invar: "history step s es s' \<Longrightarrow> invar s \<Longrightarrow> invar s'"
  by (induction rule: history.induct) (auto dest: step_invar)

end

end
