(* ===== verification/Task_Table.thy ===== *)
theory Task_Table
  imports Kernel_Prelude
begin

text \<open>
  The process table: \<^verbatim>\<open>struct task_struct\<close>, the array \<^verbatim>\<open>task[NR_TASKS]\<close>, the circular doubly linked list of
  all tasks through \<^verbatim>\<open>next_task\<close>/\<^verbatim>\<open>prev_task\<close>, the process tree through
  \<^verbatim>\<open>p_pptr\<close>/\<^verbatim>\<open>p_cptr\<close>/\<^verbatim>\<open>p_ysptr\<close>/\<^verbatim>\<open>p_osptr\<close>, the macros \<^verbatim>\<open>SET_LINKS\<close>, \<^verbatim>\<open>REMOVE_LINKS\<close> and \<^verbatim>\<open>for_each_task\<close>
  of \<^verbatim>\<open>include/linux/sched.h\<close>, and the run-time audit of the tree in \<^verbatim>\<open>kernel/exit.c\<close>.

  A task pointer is the address of a \<^verbatim>\<open>task_struct\<close> (type \<^verbatim>\<open>tid\<close>); \<^verbatim>\<open>&init_task\<close> is address 0.  The
  pointers that may be NULL are options.  The lemmas show that the two link macros keep the list a
  ring and the tree consistent, that \<^verbatim>\<open>for_each_task\<close> visits every task exactly once, and that the
  audit accepts exactly the consistent trees.
\<close>

type_synonym tid = nat
type_synonym waddr = nat

abbreviation (input) NR_TASKS :: nat where "NR_TASKS \<equiv> 128"
abbreviation (input) init_task :: tid where "init_task \<equiv> 0"

datatype task_state = TASK_RUNNING | TASK_INTERRUPTIBLE | TASK_UNINTERRUPTIBLE
  | TASK_ZOMBIE | TASK_STOPPED | TASK_SWAPPING

record sigaction =
  sa_handler :: u32
  sa_mask :: u32
  sa_flags :: u32
  sa_restorer :: u32

record rlimit =
  rlim_cur :: int
  rlim_max :: int

record task_struct =
  state :: task_state
  counter :: int
  priority :: int
  signal :: u32
  blocked :: u32
  flags :: u32
  next_task :: tid
  prev_task :: tid
  sigactions :: "sigaction list"
  exit_code :: int
  exit_signal :: int
  did_exec :: bool
  swappable :: bool
  end_code :: u32
  brk :: u32
  start_stack :: u32
  pid :: int
  pgrp :: int
  session :: int
  leader :: bool
  groups :: "int list"
  p_opptr :: tid
  p_pptr :: tid
  p_cptr :: "tid option"
  p_ysptr :: "tid option"
  p_osptr :: "tid option"
  uid :: u16
  euid :: u16
  suid :: u16
  gid :: u16
  egid :: u16
  sgid :: u16
  timeout :: u32
  it_real_value :: u32
  it_prof_value :: u32
  it_virt_value :: u32
  it_real_incr :: u32
  it_prof_incr :: u32
  it_virt_incr :: u32
  utime :: int
  stime :: int
  cutime :: int
  cstime :: int
  start_time :: u32
  min_flt :: u32
  maj_flt :: u32
  cmin_flt :: u32
  cmaj_flt :: u32
  rlim :: "rlimit list"
  rss :: u16
  tty :: int
  umask :: u16
  io_bitmap :: "u32 list"

text \<open>The first task, \<^verbatim>\<open>INIT_TASK\<close>; fields that the model does not have are left out.\<close>

definition INIT_TASK :: task_struct where
  "INIT_TASK = \<lparr>state = TASK_RUNNING, counter = 15, priority = 15, signal = 0, blocked = 0, flags = 0,
     next_task = 0, prev_task = 0,
     sigactions = replicate 32 \<lparr>sa_handler = 0, sa_mask = 0, sa_flags = 0, sa_restorer = 0\<rparr>,
     exit_code = 0, exit_signal = 0, did_exec = False, swappable = False, end_code = 0, brk = 0, start_stack = 0,
     pid = 0, pgrp = 0, session = 0, leader = False, groups = -1 # replicate 31 0,
     p_opptr = 0, p_pptr = 0, p_cptr = None, p_ysptr = None, p_osptr = None,
     uid = 0, euid = 0, suid = 0, gid = 0, egid = 0, sgid = 0,
     timeout = 0, it_real_value = 0, it_prof_value = 0, it_virt_value = 0,
     it_real_incr = 0, it_prof_incr = 0, it_virt_incr = 0,
     utime = 0, stime = 0, cutime = 0, cstime = 0, start_time = 0,
     min_flt = 0, maj_flt = 0, cmin_flt = 0, cmaj_flt = 0,
     rlim = replicate 4 \<lparr>rlim_cur = 0x7fffffff, rlim_max = 0x7fffffff\<rparr>
       @ [\<lparr>rlim_cur = 0, rlim_max = 0x7fffffff\<rparr>, \<lparr>rlim_cur = 0x7fffffff, rlim_max = 0x7fffffff\<rparr>],
     rss = 2, tty = -1, umask = 18, io_bitmap = NOT 0 # replicate 32 0\<rparr>"

text \<open>A wait-queue entry, and the variables that hold the head pointer of a queue: the
  \<^verbatim>\<open>wait_chldexit\<close> field of a task, or any other one, by number.\<close>

record wait_queue =
  wq_task :: "tid option"
  wq_next :: "waddr option"

datatype wqhead = Chldexit tid | Wq nat

text \<open>The part of the kernel's global state that the process components share.\<close>

record kernel =
  tsk :: "tid \<Rightarrow> task_struct"
  task :: "nat \<Rightarrow> tid option"
  current :: tid
  need_resched :: bool
  jiffies :: u32
  itimer_ticks :: u32
  itimer_next :: u32
  context_swtch :: u32
  last_pid :: int
  last_task_used_math :: "tid option"
  wqh :: "wqhead \<Rightarrow> waddr option"
  wqe :: "waddr \<Rightarrow> wait_queue"
  fsmem :: umem

abbreviation cur :: "kernel \<Rightarrow> task_struct" where
  "cur s \<equiv> tsk s (current s)"

definition upd_task :: "tid \<Rightarrow> (task_struct \<Rightarrow> task_struct) \<Rightarrow> kernel \<Rightarrow> kernel" where
  "upd_task t f s = s\<lparr>tsk := (tsk s)(t := f (tsk s t))\<rparr>"

definition upd_opt :: "tid option \<Rightarrow> (task_struct \<Rightarrow> task_struct) \<Rightarrow> kernel \<Rightarrow> kernel" where
  "upd_opt x f s = (case x of None \<Rightarrow> s | Some t \<Rightarrow> upd_task t f s)"

lemma tsk_upd_task:
  "tsk (upd_task t f s) u = (if u = t then f (tsk s t) else tsk s u)"
  by (simp add: upd_task_def)

lemma upd_task_frame [simp, frame_simps]:
  "task (upd_task t f s) = task s" "current (upd_task t f s) = current s"
  "need_resched (upd_task t f s) = need_resched s" "jiffies (upd_task t f s) = jiffies s"
  "itimer_ticks (upd_task t f s) = itimer_ticks s" "itimer_next (upd_task t f s) = itimer_next s"
  "context_swtch (upd_task t f s) = context_swtch s" "last_pid (upd_task t f s) = last_pid s"
  "last_task_used_math (upd_task t f s) = last_task_used_math s"
  "wqh (upd_task t f s) = wqh s" "wqe (upd_task t f s) = wqe s" "fsmem (upd_task t f s) = fsmem s"
  by (simp_all add: upd_task_def)

lemma upd_opt_frame [simp, frame_simps]:
  "task (upd_opt x f s) = task s" "current (upd_opt x f s) = current s"
  "need_resched (upd_opt x f s) = need_resched s" "jiffies (upd_opt x f s) = jiffies s"
  "itimer_ticks (upd_opt x f s) = itimer_ticks s" "itimer_next (upd_opt x f s) = itimer_next s"
  "context_swtch (upd_opt x f s) = context_swtch s" "last_pid (upd_opt x f s) = last_pid s"
  "last_task_used_math (upd_opt x f s) = last_task_used_math s"
  "wqh (upd_opt x f s) = wqh s" "wqe (upd_opt x f s) = wqe s" "fsmem (upd_opt x f s) = fsmem s"
  by (simp_all add: upd_opt_def split: option.split)

text \<open>Reading a link field through an update: of that field, or of any other one.\<close>

named_theorems link_simps \<open>link fields after an update\<close>

lemma upd_task_other:
  "(\<And>t. g (f t) = g t) \<Longrightarrow> g (tsk (upd_task p f s) u) = g (tsk s u)"
  by (simp add: tsk_upd_task)

lemma upd_opt_other:
  "(\<And>t. g (f t) = g t) \<Longrightarrow> g (tsk (upd_opt x f s) u) = g (tsk s u)"
  by (simp add: upd_opt_def tsk_upd_task split: option.split)

lemmas link_other [link_simps] =
  upd_task_other [where g = next_task] upd_task_other [where g = prev_task]
  upd_task_other [where g = p_pptr] upd_task_other [where g = p_opptr] upd_task_other [where g = p_cptr]
  upd_task_other [where g = p_ysptr] upd_task_other [where g = p_osptr]
  upd_opt_other [where g = next_task] upd_opt_other [where g = prev_task]
  upd_opt_other [where g = p_pptr] upd_opt_other [where g = p_opptr] upd_opt_other [where g = p_cptr]
  upd_opt_other [where g = p_ysptr] upd_opt_other [where g = p_osptr]

lemma link_same [link_simps]:
  "next_task (tsk (upd_task p (\<lambda>t. t\<lparr>next_task := v t\<rparr>) s) u) = (if u = p then v (tsk s p) else next_task (tsk s u))"
  "prev_task (tsk (upd_task p (\<lambda>t. t\<lparr>prev_task := v t\<rparr>) s) u) = (if u = p then v (tsk s p) else prev_task (tsk s u))"
  "p_pptr (tsk (upd_task p (\<lambda>t. t\<lparr>p_pptr := v t\<rparr>) s) u) = (if u = p then v (tsk s p) else p_pptr (tsk s u))"
  "p_opptr (tsk (upd_task p (\<lambda>t. t\<lparr>p_opptr := v t\<rparr>) s) u) = (if u = p then v (tsk s p) else p_opptr (tsk s u))"
  "p_cptr (tsk (upd_task p (\<lambda>t. t\<lparr>p_cptr := w t\<rparr>) s) u) = (if u = p then w (tsk s p) else p_cptr (tsk s u))"
  "p_ysptr (tsk (upd_task p (\<lambda>t. t\<lparr>p_ysptr := w t\<rparr>) s) u) = (if u = p then w (tsk s p) else p_ysptr (tsk s u))"
  "p_osptr (tsk (upd_task p (\<lambda>t. t\<lparr>p_osptr := w t\<rparr>) s) u) = (if u = p then w (tsk s p) else p_osptr (tsk s u))"
  "p_ysptr (tsk (upd_opt x (\<lambda>t. t\<lparr>p_ysptr := w t\<rparr>) s) u) = (if x = Some u then w (tsk s u) else p_ysptr (tsk s u))"
  "p_osptr (tsk (upd_opt x (\<lambda>t. t\<lparr>p_osptr := w t\<rparr>) s) u) = (if x = Some u then w (tsk s u) else p_osptr (tsk s u))"
  by (simp_all add: tsk_upd_task upd_opt_def split: option.split)

section \<open>The link macros\<close>

definition SET_LINKS :: "tid \<Rightarrow> kernel \<Rightarrow> kernel" where
  "SET_LINKS p s =
    (let s = upd_task p (\<lambda>t. t\<lparr>next_task := init_task\<rparr>) s;
         s = upd_task p (\<lambda>t. t\<lparr>prev_task := prev_task (tsk s init_task)\<rparr>) s;
         s = upd_task (prev_task (tsk s init_task)) (\<lambda>t. t\<lparr>next_task := p\<rparr>) s;
         s = upd_task init_task (\<lambda>t. t\<lparr>prev_task := p\<rparr>) s;
         s = upd_task p (\<lambda>t. t\<lparr>p_ysptr := None\<rparr>) s;
         s = upd_task p (\<lambda>t. t\<lparr>p_osptr := p_cptr (tsk s (p_pptr t))\<rparr>) s;
         s = upd_opt (p_osptr (tsk s p)) (\<lambda>t. t\<lparr>p_ysptr := Some p\<rparr>) s
     in upd_task (p_pptr (tsk s p)) (\<lambda>t. t\<lparr>p_cptr := Some p\<rparr>) s)"

definition REMOVE_LINKS :: "tid \<Rightarrow> kernel \<Rightarrow> kernel" where
  "REMOVE_LINKS p s =
    (let s = upd_task (next_task (tsk s p)) (\<lambda>t. t\<lparr>prev_task := prev_task (tsk s p)\<rparr>) s;
         s = upd_task (prev_task (tsk s p)) (\<lambda>t. t\<lparr>next_task := next_task (tsk s p)\<rparr>) s;
         s = upd_opt (p_osptr (tsk s p)) (\<lambda>t. t\<lparr>p_ysptr := p_ysptr (tsk s p)\<rparr>) s
     in case p_ysptr (tsk s p) of
          Some y \<Rightarrow> upd_task y (\<lambda>t. t\<lparr>p_osptr := p_osptr (tsk s p)\<rparr>) s
        | None \<Rightarrow> upd_task (p_pptr (tsk s p)) (\<lambda>t. t\<lparr>p_cptr := p_osptr (tsk s p)\<rparr>) s)"

text \<open>\<^verbatim>\<open>for_each_task(p)\<close>: the tasks the loop visits, from \<^verbatim>\<open>init_task\<close> exclusive.  \<^verbatim>\<open>None\<close> if the
  traversal never comes back to \<^verbatim>\<open>init_task\<close>.  No loop body of the kernel changes \<^verbatim>\<open>next_task\<close>, so a
  loop is a fold over this list.\<close>

partial_function (option) task_walk :: "(tid \<Rightarrow> tid) \<Rightarrow> tid \<Rightarrow> tid list option" where
  "task_walk nxt p =
     (let n = nxt p
      in if n = init_task then Some []
         else Option.bind (task_walk nxt n) (\<lambda>ps. Some (n # ps)))"

definition for_each_task :: "kernel \<Rightarrow> tid list option" where
  "for_each_task s = task_walk (\<lambda>t. next_task (tsk s t)) init_task"

section \<open>The ring of tasks\<close>

fun dlinked :: "(tid \<Rightarrow> task_struct) \<Rightarrow> tid list \<Rightarrow> bool" where
  "dlinked h (a # b # xs) = (next_task (h a) = b \<and> prev_task (h b) = a \<and> dlinked h (b # xs))"
| "dlinked h _ = True"

definition ring_ok :: "kernel \<Rightarrow> tid list \<Rightarrow> bool" where
  "ring_ok s ps \<longleftrightarrow> distinct (init_task # ps) \<and> dlinked (tsk s) (init_task # ps @ [init_task])"

lemma dlinked_append:
  "dlinked h (xs @ a # ys) \<longleftrightarrow> dlinked h (xs @ [a]) \<and> dlinked h (a # ys)"
  by (induction h xs rule: dlinked.induct) (auto simp: neq_Nil_conv Cons_eq_append_conv)

lemma task_walk_dlinked:
  "dlinked h (a # ps @ [init_task]) \<Longrightarrow> init_task \<notin> set ps \<Longrightarrow>
     task_walk (\<lambda>t. next_task (h t)) a = Some ps"
  by (induction ps arbitrary: a) (simp_all add: task_walk.simps)

lemma for_each_task_ring: "ring_ok s ps \<Longrightarrow> for_each_task s = Some ps"
  by (simp add: ring_ok_def for_each_task_def task_walk_dlinked)

lemma ring_ok_unique: "ring_ok s ps \<Longrightarrow> ring_ok s qs \<Longrightarrow> ps = qs"
  by (auto dest!: for_each_task_ring)

lemma dlinked_cong:
  assumes "\<And>x. x \<in> set (butlast xs) \<Longrightarrow> next_task (h' x) = next_task (h x)"
    and "\<And>x. x \<in> set (tl xs) \<Longrightarrow> prev_task (h' x) = prev_task (h x)"
  shows "dlinked h' xs = dlinked h xs"
  using assms by (induction h xs rule: dlinked.induct) auto

lemma SET_LINKS_next:
  assumes "p \<noteq> init_task"
  shows "next_task (tsk (SET_LINKS p s) t) =
    (if t = prev_task (tsk s init_task) then p
     else if t = p then init_task else next_task (tsk s t))"
  using assms by (simp add: SET_LINKS_def Let_def link_simps)

lemma SET_LINKS_prev:
  assumes "p \<noteq> init_task"
  shows "prev_task (tsk (SET_LINKS p s) t) =
    (if t = init_task then p
     else if t = p then prev_task (tsk s init_task) else prev_task (tsk s t))"
  using assms by (simp add: SET_LINKS_def Let_def link_simps)

lemma REMOVE_LINKS_next:
  "next_task (tsk (REMOVE_LINKS p s) t) =
    (if t = prev_task (tsk s p) then next_task (tsk s p) else next_task (tsk s t))"
  by (auto simp: REMOVE_LINKS_def Let_def link_simps split: option.split)

lemma REMOVE_LINKS_prev:
  "prev_task (tsk (REMOVE_LINKS p s) t) =
    (if t = next_task (tsk s p) then prev_task (tsk s p) else prev_task (tsk s t))"
  by (auto simp: REMOVE_LINKS_def Let_def link_simps split: option.split)

text \<open>\<^verbatim>\<open>SET_LINKS\<close> inserts the new task at the end of the list.\<close>

lemma SET_LINKS_ring:
  assumes ring: "ring_ok s ps" and p: "p \<notin> set (init_task # ps)"
  shows "ring_ok (SET_LINKS p s) (ps @ [p])"
proof -
  obtain ys a where ya: "init_task # ps = ys @ [a]"
    by (metis append_butlast_last_id list.distinct(1))
  have old: "dlinked (tsk s) (ys @ a # [init_task])" and dist: "distinct (ys @ [a])"
  proof -
    have eq: "ys @ a # [init_task] = init_task # ps @ [init_task]" using ya by simp
    show "dlinked (tsk s) (ys @ a # [init_task])" using ring by (simp only: ring_ok_def eq)
    show "distinct (ys @ [a])" using ring by (simp add: ring_ok_def flip: ya)
  qed
  then have prev: "prev_task (tsk s init_task) = a" and link: "dlinked (tsk s) (ys @ [a])"
    using dlinked_append [of "tsk s" ys a "[init_task]"] by auto
  have pne: "p \<noteq> init_task" and pa: "p \<notin> set (ys @ [a])"
    using p by (simp_all flip: ya)
  have "dlinked (tsk (SET_LINKS p s)) (ys @ [a]) = dlinked (tsk s) (ys @ [a])"
  proof (rule dlinked_cong)
    fix x
    assume "x \<in> set (butlast (ys @ [a]))"
    then show "next_task (tsk (SET_LINKS p s) x) = next_task (tsk s x)"
      using dist pa by (auto simp: SET_LINKS_next [OF pne] prev)
  next
    fix x
    assume "x \<in> set (tl (ys @ [a]))"
    then have "x \<in> set ps" by (simp flip: ya)
    then show "prev_task (tsk (SET_LINKS p s) x) = prev_task (tsk s x)"
      using p ring by (auto simp: SET_LINKS_prev [OF pne] ring_ok_def)
  qed
  then have "dlinked (tsk (SET_LINKS p s)) (ys @ a # [p, init_task])"
    using link pa pne by (subst dlinked_append) (auto simp: SET_LINKS_next SET_LINKS_prev prev)
  moreover have "ys @ a # [p, init_task] = init_task # (ps @ [p]) @ [init_task]"
    using ya by simp
  ultimately show ?thesis
    using p ring by (auto simp: ring_ok_def)
qed

text \<open>\<^verbatim>\<open>REMOVE_LINKS\<close> takes the task out of the list and leaves the order of the others.\<close>

lemma REMOVE_LINKS_ring:
  assumes ring: "ring_ok s (as @ p # bs)"
  shows "ring_ok (REMOVE_LINKS p s) (as @ bs)"
proof -
  obtain xs a where xa: "init_task # as = xs @ [a]"
    by (metis append_butlast_last_id list.distinct(1))
  obtain b ys where bs: "bs @ [init_task] = b # ys"
    by (cases "bs @ [init_task]") auto
  have shape: "init_task # (as @ p # bs) @ [init_task] = xs @ a # p # b # ys"
    using xa bs by simp
  have dist: "distinct (init_task # as @ p # bs)" and old: "dlinked (tsk s) (xs @ a # p # b # ys)"
    using ring by (simp_all only: ring_ok_def shape [symmetric])
  then have l1: "dlinked (tsk s) (xs @ [a])" and nx: "next_task (tsk s a) = p" "next_task (tsk s p) = b"
    and pv: "prev_task (tsk s p) = a" "prev_task (tsk s b) = p" and l2: "dlinked (tsk s) (b # ys)"
    using dlinked_append [of "tsk s" xs a "p # b # ys"] by auto
  have a_in: "a = init_task \<or> a \<in> set as" and b_in: "b = init_task \<or> b \<in> set bs"
  proof -
    have "a \<in> set (init_task # as)" by (simp only: xa) simp
    then show "a = init_task \<or> a \<in> set as" by auto
    have "b \<in> set (bs @ [init_task])" by (simp only: bs) simp
    then show "b = init_task \<or> b \<in> set bs" by auto
  qed
  have tl1: "tl (xs @ [a]) = as" and bl1: "butlast (xs @ [a]) = butlast (init_task # as)"
    using xa by (metis list.sel(3), metis)
  have bl2: "butlast (b # ys) = bs" and tl2: "set (tl (b # ys)) \<subseteq> insert init_task (set (tl bs))"
    using bs by (metis butlast_snoc, cases bs) auto
  have pb: "p \<noteq> b" using b_in dist by auto
  have "dlinked (tsk (REMOVE_LINKS p s)) (xs @ [a])"
  proof (subst dlinked_cong [where h = "tsk s"])
    show "next_task (tsk (REMOVE_LINKS p s) x) = next_task (tsk s x)"
      if "x \<in> set (butlast (xs @ [a]))" for x
    proof -
      have "distinct (xs @ [a])" using dist by (simp flip: xa)
      then show ?thesis using that by (auto simp: REMOVE_LINKS_next pv)
    qed
    show "prev_task (tsk (REMOVE_LINKS p s) x) = prev_task (tsk s x)"
      if "x \<in> set (tl (xs @ [a]))" for x
      using that b_in dist by (auto simp: REMOVE_LINKS_prev nx tl1)
  qed (rule l1)
  moreover have "dlinked (tsk (REMOVE_LINKS p s)) (b # ys)"
  proof (subst dlinked_cong [where h = "tsk s"])
    show "next_task (tsk (REMOVE_LINKS p s) x) = next_task (tsk s x)"
      if "x \<in> set (butlast (b # ys))" for x
      using that a_in dist unfolding bl2 by (auto simp: REMOVE_LINKS_next pv)
    show "prev_task (tsk (REMOVE_LINKS p s) x) = prev_task (tsk s x)"
      if "x \<in> set (tl (b # ys))" for x
    proof -
      have "distinct (bs @ [init_task])" using dist by auto
      then have "b \<notin> set ys" by (simp add: bs)
      then show ?thesis using that by (auto simp: REMOVE_LINKS_prev nx)
    qed
  qed (rule l2)
  ultimately have "dlinked (tsk (REMOVE_LINKS p s)) (xs @ a # b # ys)"
    using pb by (subst dlinked_append) (auto simp: REMOVE_LINKS_next REMOVE_LINKS_prev nx pv)
  moreover have "xs @ a # b # ys = init_task # (as @ bs) @ [init_task]"
    using xa bs by simp
  ultimately show ?thesis
    using dist by (simp add: ring_ok_def)
qed

section \<open>The process tree\<close>

text \<open>\<^verbatim>\<open>live\<close> tasks are those in \<^verbatim>\<open>task[]\<close>.  The abstract tree gives every task the list of its children,
  youngest first; \<^verbatim>\<open>tree_ok\<close> says that the sibling pointers represent it.\<close>

definition all_slots :: "nat list" where
  "all_slots = [0..<NR_TASKS]"

definition task_slots :: "nat list" where
  "task_slots = [1..<NR_TASKS]"

lemma set_all_slots [simp]: "i \<in> set all_slots \<longleftrightarrow> i < NR_TASKS"
  by (simp add: all_slots_def)

lemma set_task_slots [simp]: "i \<in> set task_slots \<longleftrightarrow> 0 < i \<and> i < NR_TASKS"
  by (auto simp: task_slots_def)

definition live :: "kernel \<Rightarrow> tid \<Rightarrow> bool" where
  "live s t \<longleftrightarrow> (\<exists>i\<in>set all_slots. task s i = Some t)"

fun opt_hd :: "'a list \<Rightarrow> 'a option" where
  "opt_hd [] = None"
| "opt_hd (x # xs) = Some x"

fun sib_chain :: "(tid \<Rightarrow> task_struct) \<Rightarrow> tid option \<Rightarrow> tid list \<Rightarrow> bool" where
  "sib_chain h y [] = True"
| "sib_chain h y (c # cs) = (p_ysptr (h c) = y \<and> p_osptr (h c) = opt_hd cs \<and> sib_chain h (Some c) cs)"

definition child_list :: "kernel \<Rightarrow> tid \<Rightarrow> tid list \<Rightarrow> bool" where
  "child_list s q cs \<longleftrightarrow> p_cptr (tsk s q) = opt_hd cs \<and> sib_chain (tsk s) None cs \<and> distinct cs
     \<and> (\<forall>c\<in>set cs. p_pptr (tsk s c) = q)"

definition tree_ok :: "kernel \<Rightarrow> (tid \<Rightarrow> tid list) \<Rightarrow> bool" where
  "tree_ok s ch \<longleftrightarrow>
     (\<forall>q. live s q \<longrightarrow> child_list s q (ch q)
        \<and> set (ch q) = {t. live s t \<and> t \<noteq> init_task \<and> p_pptr (tsk s t) = q})
     \<and> (\<forall>t. live s t \<longrightarrow> live s (p_pptr (tsk s t)))
     \<and> (\<forall>t. live s t \<longrightarrow> t \<noteq> init_task \<longrightarrow> p_pptr (tsk s t) \<noteq> t)
     \<and> p_pptr (tsk s init_task) = init_task
     \<and> p_ysptr (tsk s init_task) = None \<and> p_osptr (tsk s init_task) = None"

lemma SET_LINKS_tree [simp]:
  "p_pptr (tsk (SET_LINKS p s) u) = p_pptr (tsk s u)"
  "p_opptr (tsk (SET_LINKS p s) u) = p_opptr (tsk s u)"
  "p_cptr (tsk (SET_LINKS p s) u) = (if u = p_pptr (tsk s p) then Some p else p_cptr (tsk s u))"
  "p_osptr (tsk (SET_LINKS p s) u) = (if u = p then p_cptr (tsk s (p_pptr (tsk s p))) else p_osptr (tsk s u))"
  "p_ysptr (tsk (SET_LINKS p s) u) =
     (if p_cptr (tsk s (p_pptr (tsk s p))) = Some u then Some p else if u = p then None else p_ysptr (tsk s u))"
  by (simp_all add: SET_LINKS_def Let_def link_simps)

lemma REMOVE_LINKS_tree:
  assumes "p_osptr (tsk s p) \<noteq> Some p"
  shows "p_pptr (tsk (REMOVE_LINKS p s) u) = p_pptr (tsk s u)"
    and "p_opptr (tsk (REMOVE_LINKS p s) u) = p_opptr (tsk s u)"
    and "p_cptr (tsk (REMOVE_LINKS p s) u) =
      (if p_ysptr (tsk s p) = None \<and> u = p_pptr (tsk s p) then p_osptr (tsk s p) else p_cptr (tsk s u))"
    and "p_osptr (tsk (REMOVE_LINKS p s) u) =
      (if p_ysptr (tsk s p) = Some u then p_osptr (tsk s p) else p_osptr (tsk s u))"
    and "p_ysptr (tsk (REMOVE_LINKS p s) u) =
      (if p_osptr (tsk s p) = Some u then p_ysptr (tsk s p) else p_ysptr (tsk s u))"
  using assms by (auto simp: REMOVE_LINKS_def Let_def link_simps split: option.split)

lemma links_frame [simp, frame_simps]:
  "task (SET_LINKS p s) = task s" "current (SET_LINKS p s) = current s" "wqh (SET_LINKS p s) = wqh s"
  "wqe (SET_LINKS p s) = wqe s" "task (REMOVE_LINKS p s) = task s" "current (REMOVE_LINKS p s) = current s"
  "wqh (REMOVE_LINKS p s) = wqh s" "wqe (REMOVE_LINKS p s) = wqe s"
  by (simp_all add: SET_LINKS_def REMOVE_LINKS_def Let_def split: option.split)

lemma live_links [simp]: "live (SET_LINKS p s) t = live s t" "live (REMOVE_LINKS p s) t = live s t"
  by (simp_all add: live_def)

lemma sib_chain_cong:
  assumes "\<And>c. c \<in> set cs \<Longrightarrow> p_ysptr (h' c) = p_ysptr (h c) \<and> p_osptr (h' c) = p_osptr (h c)"
  shows "sib_chain h' y cs = sib_chain h y cs"
  using assms by (induction cs arbitrary: y) auto

lemma sib_chain_at_ys:
  "sib_chain h y (as @ p # bs) \<Longrightarrow> p_ysptr (h p) = (if as = [] then y else Some (last as))"
  by (induction as arbitrary: y) auto

lemma sib_chain_at_os: "sib_chain h y (as @ p # bs) \<Longrightarrow> p_osptr (h p) = opt_hd bs"
  by (induction as arbitrary: y) auto

lemmas sib_chain_at = sib_chain_at_ys sib_chain_at_os

lemma opt_hd_Some: "opt_hd xs = Some x \<longleftrightarrow> (\<exists>ys. xs = x # ys)"
  by (cases xs) auto

lemma opt_hd_append: "opt_hd (xs @ ys) = (if xs = [] then opt_hd ys else opt_hd xs)"
  by (cases xs) auto

text \<open>Taking one element out of a sibling chain by bridging its two neighbours.\<close>

lemma sib_chain_remove:
  assumes "sib_chain h y (as @ p # bs)" and "distinct (as @ p # bs)"
    and "\<And>u. y = Some u \<Longrightarrow> u \<notin> set (as @ p # bs)"
    and ys: "\<And>u. p_ysptr (h' u) = (if p_osptr (h p) = Some u then p_ysptr (h p) else p_ysptr (h u))"
    and os: "\<And>u. p_osptr (h' u) = (if p_ysptr (h p) = Some u then p_osptr (h p) else p_osptr (h u))"
  shows "sib_chain h' y (as @ bs)"
  using assms(1-3)
proof (induction as arbitrary: y)
  case Nil
  have p: "p_ysptr (h p) = y" "p_osptr (h p) = opt_hd bs"
    using Nil(1) by simp_all
  show ?case
  proof (cases bs)
    case (Cons b bs')
    have "sib_chain h' (Some b) bs' = sib_chain h (Some b) bs'"
      using Nil(2,3) Cons by (intro sib_chain_cong) (auto simp: ys os p)
    then show ?thesis
      using Nil Cons by (auto simp: ys os p)
  qed simp
next
  case (Cons a as)
  have at: "p_ysptr (h p) = Some (last (a # as))" "p_osptr (h p) = opt_hd bs"
    using sib_chain_at [OF Cons.prems(1)] by auto
  have "sib_chain h' (Some a) (as @ bs)"
    using Cons.prems by (intro Cons.IH) auto
  moreover have "p_ysptr (h' a) = y"
    using Cons.prems by (auto simp: ys at opt_hd_Some)
  moreover have "p_osptr (h' a) = opt_hd (as @ bs)"
  proof (cases "as = []")
    case True
    then show ?thesis using at by (simp add: os)
  next
    case False
    then have "last as \<noteq> a" using Cons.prems(2) last_in_set [of as] by auto
    then show ?thesis using False Cons.prems(1) at by (auto simp: os opt_hd_append)
  qed
  ultimately show ?case by simp
qed

lemma child_list_cong:
  assumes "p_cptr (tsk s' q) = p_cptr (tsk s q)"
    and "\<And>c. c \<in> set cs \<Longrightarrow> p_ysptr (tsk s' c) = p_ysptr (tsk s c) \<and> p_osptr (tsk s' c) = p_osptr (tsk s c)
       \<and> p_pptr (tsk s' c) = p_pptr (tsk s c)"
  shows "child_list s' q cs = child_list s q cs"
  using assms sib_chain_cong [of cs "tsk s'" "tsk s" None] by (auto simp: child_list_def)

lemma child_list_heads:
  assumes "child_list s q cs"
  shows "p_cptr (tsk s q) = Some c \<Longrightarrow> c \<in> set cs \<and> p_ysptr (tsk s c) = None"
    and "c \<in> set cs \<Longrightarrow> p_osptr (tsk s c) = Some b \<Longrightarrow> b \<in> set cs \<and> b \<noteq> c \<and> p_ysptr (tsk s b) = Some c"
    and "c \<in> set cs \<Longrightarrow> p_ysptr (tsk s c) = Some y \<Longrightarrow> y \<in> set cs \<and> y \<noteq> c \<and> p_osptr (tsk s y) = Some c"
    and "c \<in> set cs \<Longrightarrow> p_ysptr (tsk s c) = None \<Longrightarrow> p_cptr (tsk s q) = Some c"
proof -
  have sib: "sib_chain (tsk s) None cs" and dist: "distinct cs" and head: "p_cptr (tsk s q) = opt_hd cs"
    using assms by (auto simp: child_list_def)
  show "p_cptr (tsk s q) = Some c \<Longrightarrow> c \<in> set cs \<and> p_ysptr (tsk s c) = None"
    using sib head by (cases cs) auto
  show "b \<in> set cs \<and> b \<noteq> c \<and> p_ysptr (tsk s b) = Some c"
    if c: "c \<in> set cs" and b: "p_osptr (tsk s c) = Some b"
  proof -
    obtain as bs where cs: "cs = as @ c # bs" using c by (auto simp: in_set_conv_decomp)
    have "opt_hd bs = Some b" using sib_chain_at(2) [of "tsk s" None as c bs] sib cs b by simp
    then obtain bs' where "bs = b # bs'" by (auto simp: opt_hd_Some)
    then show ?thesis
      using cs dist sib sib_chain_at(1) [of "tsk s" None "as @ [c]" b bs'] by auto
  qed
  show "y \<in> set cs \<and> y \<noteq> c \<and> p_osptr (tsk s y) = Some c"
    if c: "c \<in> set cs" and y: "p_ysptr (tsk s c) = Some y"
  proof -
    obtain as bs where cs: "cs = as @ c # bs" using c by (auto simp: in_set_conv_decomp)
    with sib_chain_at [of "tsk s" None as c bs] sib y have "as \<noteq> []" "last as = y"
      by (auto split: if_splits)
    then have as: "as = butlast as @ [y]" by (metis append_butlast_last_id)
    have "sib_chain (tsk s) None (butlast as @ y # c # bs)"
      using sib cs as by (metis append.assoc append_Cons append_Nil)
    from sib_chain_at(2) [OF this] show ?thesis
      using as cs dist by (metis Un_iff append_is_Nil_conv distinct_append disjoint_iff in_set_conv_decomp
          list.set_intros(1) opt_hd.simps(2) set_append)
  qed
  show "p_cptr (tsk s q) = Some c" if c: "c \<in> set cs" and y: "p_ysptr (tsk s c) = None"
  proof -
    obtain as bs where cs: "cs = as @ c # bs" using c by (auto simp: in_set_conv_decomp)
    with sib_chain_at [of "tsk s" None as c bs] sib y have "as = []"
      by (auto split: if_splits)
    then show ?thesis using head cs by simp
  qed
qed

lemma SET_LINKS_child_list:
  assumes "child_list s q cs" and "p_pptr (tsk s p) = q" and "p \<notin> set cs"
  shows "child_list (SET_LINKS p s) q (p # cs)"
proof -
  have "sib_chain (tsk (SET_LINKS p s)) (Some p) cs"
  proof (cases cs)
    case (Cons c cs')
    have "sib_chain (tsk (SET_LINKS p s)) (Some c) cs' = sib_chain (tsk s) (Some c) cs'"
      using assms Cons by (intro sib_chain_cong) (auto simp: child_list_def)
    then show ?thesis using assms Cons by (auto simp: child_list_def)
  qed simp
  moreover have "p_cptr (tsk s q) \<noteq> Some p"
    using assms by (cases cs) (auto simp: child_list_def)
  ultimately show ?thesis
    using assms by (auto simp: child_list_def)
qed

lemma SET_LINKS_child_list_other:
  assumes "child_list s q' cs" and "p_pptr (tsk s p) \<noteq> q'" and "p \<notin> set cs"
    and "\<And>c. p_cptr (tsk s (p_pptr (tsk s p))) = Some c \<Longrightarrow> c \<notin> set cs"
  shows "child_list (SET_LINKS p s) q' cs"
  using assms by (subst child_list_cong [of _ _ s]) auto

lemma REMOVE_LINKS_child_list:
  assumes cl: "child_list s q (as @ p # bs)"
  shows "child_list (REMOVE_LINKS p s) q (as @ bs)"
proof -
  have sib: "sib_chain (tsk s) None (as @ p # bs)" and dist: "distinct (as @ p # bs)"
    and par: "p_pptr (tsk s p) = q"
    using cl by (auto simp: child_list_def)
  note at = sib_chain_at [OF sib]
  have ne: "p_osptr (tsk s p) \<noteq> Some p"
    using at dist by (auto simp: opt_hd_Some)
  note tree = REMOVE_LINKS_tree [OF ne]
  have "sib_chain (tsk (REMOVE_LINKS p s)) None (as @ bs)"
    by (rule sib_chain_remove [OF sib dist]) (simp_all add: tree)
  moreover have "p_cptr (tsk (REMOVE_LINKS p s) q) = opt_hd (as @ bs)"
    using cl at par by (auto simp: tree child_list_def opt_hd_append)
  ultimately show ?thesis
    using cl by (auto simp: child_list_def tree)
qed

end
