(* ===== verification/Process_Tree.thy ===== *)
theory Process_Tree
  imports Task_Table
begin

text \<open>
  The process table as a whole: the invariant that ties \<^verbatim>\<open>task[]\<close>, the ring of tasks and the process
  tree together, the operations of \<^verbatim>\<open>kernel/exit.c\<close> that only change links (\<^verbatim>\<open>release\<close>,
  \<^verbatim>\<open>forget_original_parent\<close>, the reparenting done by \<^verbatim>\<open>sys_wait4\<close> and by \<^verbatim>\<open>do_exit\<close>), and the debugging
  audit \<^verbatim>\<open>audit_ptree\<close>.  Every operation keeps the invariant, and the audit prints no warning in a
  state where it holds.
\<close>

section \<open>The invariant of the process table\<close>

definition slots_ok :: "kernel \<Rightarrow> bool" where
  "slots_ok s \<longleftrightarrow> task s 0 = Some init_task
     \<and> (\<forall>i<NR_TASKS. \<forall>j<NR_TASKS. task s i \<noteq> None \<longrightarrow> task s i = task s j \<longrightarrow> i = j)"

definition ptable_ok :: "kernel \<Rightarrow> tid list \<Rightarrow> (tid \<Rightarrow> tid list) \<Rightarrow> bool" where
  "ptable_ok s ps ch \<longleftrightarrow> slots_ok s \<and> ring_ok s ps \<and> set ps = {t. live s t \<and> t \<noteq> init_task} \<and> tree_ok s ch"

lemma slots_ok_task: "task s' = task s \<Longrightarrow> slots_ok s' = slots_ok s"
  by (simp only: slots_ok_def)

lemma slots_live_init: "slots_ok s \<Longrightarrow> live s init_task"
  by (auto simp: slots_ok_def live_def)

lemma live_iff: "live s t \<longleftrightarrow> (\<exists>i<NR_TASKS. task s i = Some t)"
  by (auto simp: live_def)

lemma live_insert:
  assumes "i < NR_TASKS" and "task s i = None"
  shows "live (s\<lparr>task := (task s)(i := Some p)\<rparr>) t \<longleftrightarrow> t = p \<or> live s t"
proof -
  have "live (s\<lparr>task := (task s)(i := Some p)\<rparr>) t \<longleftrightarrow> (\<exists>j<NR_TASKS. (if j = i then Some p else task s j) = Some t)"
    by (simp add: live_iff fun_upd_apply)
  also have "\<dots> \<longleftrightarrow> t = p \<or> live s t"
    using assms by (metis live_iff option.distinct(1) option.inject)
  finally show ?thesis .
qed

lemma live_delete:
  assumes "slots_ok s" and "i < NR_TASKS" and "task s i = Some p"
  shows "live (s\<lparr>task := (task s)(i := None)\<rparr>) t \<longleftrightarrow> t \<noteq> p \<and> live s t"
proof -
  have "live (s\<lparr>task := (task s)(i := None)\<rparr>) t \<longleftrightarrow> (\<exists>j<NR_TASKS. j \<noteq> i \<and> task s j = Some t)"
    by (auto simp: live_iff fun_upd_apply split: if_splits)
  also have "\<dots> \<longleftrightarrow> t \<noteq> p \<and> live s t"
    using assms unfolding slots_ok_def live_iff by (metis option.distinct(1) option.inject)
  finally show ?thesis .
qed

text \<open>The tree does not depend on the fields other than the links, nor on dead tasks.\<close>

lemma tree_ok_cong:
  assumes "tree_ok s ch" and "\<And>t. live s' t = live s t"
    and "\<And>t. live s t \<Longrightarrow> p_pptr (tsk s' t) = p_pptr (tsk s t) \<and> p_cptr (tsk s' t) = p_cptr (tsk s t)
      \<and> p_ysptr (tsk s' t) = p_ysptr (tsk s t) \<and> p_osptr (tsk s' t) = p_osptr (tsk s t)"
    and "live s init_task"
  shows "tree_ok s' ch"
proof -
  have "child_list s' q (ch q)" if q: "live s q" for q
  proof -
    have "child_list s q (ch q)" and "\<forall>t\<in>set (ch q). live s t"
      using assms(1) q by (auto simp: tree_ok_def)
    then show ?thesis using assms(3) q by (subst child_list_cong [of _ _ s]) auto
  qed
  then show ?thesis
    using assms unfolding tree_ok_def by (auto simp: set_eq_iff)
qed

section \<open>Linking and unlinking a task\<close>

lemma tree_ok_child: "tree_ok s ch \<Longrightarrow> live s q \<Longrightarrow> child_list s q (ch q)"
  by (simp add: tree_ok_def)

lemma tree_ok_set:
  "tree_ok s ch \<Longrightarrow> live s q \<Longrightarrow> t \<in> set (ch q) \<longleftrightarrow> live s t \<and> t \<noteq> init_task \<and> p_pptr (tsk s t) = q"
  by (auto simp: tree_ok_def)

lemma tree_ok_init:
  "tree_ok s ch \<Longrightarrow> p_ysptr (tsk s init_task) = None \<and> p_osptr (tsk s init_task) = None"
  by (simp add: tree_ok_def)

text \<open>A task that is not yet in the tree becomes the youngest child of its parent.\<close>

lemma SET_LINKS_tree_ok:
  assumes tree: "tree_ok s ch" and init: "live s init_task" and new: "\<not> live s p"
    and par: "live s (p_pptr (tsk s p))" and leaf: "p_cptr (tsk s p) = None"
    and s1: "tsk s1 = tsk s" "\<And>t. live s1 t \<longleftrightarrow> t = p \<or> live s t"
  shows "tree_ok (SET_LINKS p s1) (ch(p_pptr (tsk s p) := p # ch (p_pptr (tsk s p)), p := []))"
proof -
  let ?q = "p_pptr (tsk s p)"
  let ?ch = "ch(?q := p # ch ?q, p := [])"
  have pq: "p \<noteq> ?q" using new par by auto
  have p0: "p \<noteq> init_task" using new init by metis
  have mem: "t \<in> set (ch q') \<longleftrightarrow> live s t \<and> t \<noteq> init_task \<and> p_pptr (tsk s t) = q'" if "live s q'" for q' t
    by (rule tree_ok_set [OF tree that])
  have cl: "child_list s1 q' (ch q')" if "live s q'" for q'
    using tree_ok_child [OF tree that] s1 by (subst child_list_cong [of _ _ s]) auto
  have cptr: "c \<in> set (ch ?q)" if "p_cptr (tsk s1 ?q) = Some c" for c
    using child_list_heads(1) [OF cl [OF par] that] by simp
  have "child_list (SET_LINKS p s1) q' (?ch q')" if "q' = p \<or> live s q'" for q'
  proof (cases "q' = p")
    case True
    then show ?thesis using leaf pq by (simp add: child_list_def s1)
  next
    case False
    with that have q': "live s q'" by simp
    show ?thesis
    proof (cases "q' = ?q")
      case True
      with False cl [OF q'] mem [OF q', of p] new show ?thesis
        by (auto intro!: SET_LINKS_child_list simp: s1)
    next
      case other: False
      have "c \<notin> set (ch q')" if "p_cptr (tsk s1 ?q) = Some c" for c
        using cptr [OF that] mem [OF par, of c] mem [OF q', of c] other by auto
      then show ?thesis
        using False other cl [OF q'] mem [OF q', of p] new
        by (auto intro!: SET_LINKS_child_list_other simp: s1)
    qed
  qed
  moreover have "set (?ch q') = {t. (t = p \<or> live s t) \<and> t \<noteq> init_task \<and> p_pptr (tsk s t) = q'}"
    if "q' = p \<or> live s q'" for q'
    using that mem pq p0 par tree new by (auto simp: tree_ok_def)
  moreover have "p_cptr (tsk s ?q) \<noteq> Some init_task"
    using cptr mem [OF par, of init_task] by (auto simp: s1)
  ultimately show ?thesis
    using tree par pq p0 by (auto simp: tree_ok_def s1)
qed

text \<open>A task without children is taken out of its parent's list of children.\<close>

lemma REMOVE_LINKS_tree_ok:
  assumes tree: "tree_ok s ch" and p: "live s p" "p \<noteq> init_task" and leaf: "ch p = []"
    and s1: "tsk s1 = tsk s" "\<And>t. live s1 t \<longleftrightarrow> t \<noteq> p \<and> live s t"
  shows "tree_ok (REMOVE_LINKS p s1) (ch(p_pptr (tsk s p) := remove1 p (ch (p_pptr (tsk s p)))))"
proof -
  let ?q = "p_pptr (tsk s p)"
  have q: "live s ?q" "?q \<noteq> p" using tree p by (auto simp: tree_ok_def)
  have mem: "t \<in> set (ch q') \<longleftrightarrow> live s t \<and> t \<noteq> init_task \<and> p_pptr (tsk s t) = q'" if "live s q'" for q' t
    by (rule tree_ok_set [OF tree that])
  have cl: "child_list s1 q' (ch q')" if "live s q'" for q'
    using tree_ok_child [OF tree that] s1 by (subst child_list_cong [of _ _ s]) auto
  have pin: "p \<in> set (ch ?q)" using mem [OF q(1), of p] p by simp
  then obtain as bs where split: "ch ?q = as @ p # bs" "p \<notin> set as"
    by (meson split_list_first)
  have dist: "distinct (ch ?q)" using tree_ok_child [OF tree q(1)] by (simp add: child_list_def)
  have ne: "p_osptr (tsk s1 p) \<noteq> Some p"
    using child_list_heads(2) [OF cl [OF q(1)] pin] by auto
  note links = REMOVE_LINKS_tree [OF ne]
  have sib: "x \<in> set (ch ?q)" if "p_osptr (tsk s1 p) = Some x \<or> p_ysptr (tsk s1 p) = Some x" for x
    using that child_list_heads(2,3) [OF cl [OF q(1)] pin] by auto
  have "child_list (REMOVE_LINKS p s1) q' ((ch(?q := remove1 p (ch ?q))) q')"
    if q': "q' \<noteq> p" "live s q'" for q'
  proof (cases "q' = ?q")
    case True
    then show ?thesis
      using cl [OF q(1)] split REMOVE_LINKS_child_list [of s1 ?q as p bs] by (simp add: remove1_append)
  next
    case False
    have "x \<notin> set (ch q')" if "p_osptr (tsk s1 p) = Some x \<or> p_ysptr (tsk s1 p) = Some x" for x
      using sib [OF that] mem [OF q(1), of x] mem [OF q'(2), of x] False by auto
    then have "child_list (REMOVE_LINKS p s1) q' (ch q') = child_list s1 q' (ch q')"
      using False by (intro child_list_cong) (auto simp: links s1)
    then show ?thesis using False cl [OF q'(2)] by simp
  qed
  moreover have "set ((ch(?q := remove1 p (ch ?q))) q') = {t. (t \<noteq> p \<and> live s t) \<and> t \<noteq> init_task \<and> p_pptr (tsk s t) = q'}"
    if q': "q' \<noteq> p" "live s q'" for q'
  proof -
    have "set (ch q') = {t. live s t \<and> t \<noteq> init_task \<and> p_pptr (tsk s t) = q'}"
      using tree q'(2) by (simp add: tree_ok_def)
    then show ?thesis using dist by (cases "q' = ?q") auto
  qed
  moreover have "p_pptr (tsk s t) \<noteq> p" if "live s t" for t
    using mem [OF p(1), of t] leaf that p(2) tree by (cases "t = init_task") (auto simp: tree_ok_def)
  moreover have "p_osptr (tsk s p) \<noteq> Some init_task \<and> p_ysptr (tsk s p) \<noteq> Some init_task"
    using sib [of init_task] mem [OF q(1), of init_task] unfolding s1(1) by blast
  ultimately show ?thesis
    using tree p by (auto simp: tree_ok_def links s1)
qed

section \<open>Releasing a task\<close>

text \<open>\<^verbatim>\<open>release\<close>: \<^verbatim>\<open>None\<close> is the panic for a task that is not in \<^verbatim>\<open>task[]\<close>.  The two pages it frees belong to
  the page allocator.\<close>

definition release :: "tid option \<Rightarrow> kernel \<Rightarrow> kernel option" where
  "release po s =
     (case po of None \<Rightarrow> Some s
      | Some p \<Rightarrow>
          if p = current s then Some s
          else (case find (\<lambda>i. task s i = Some p) task_slots of
                  Some i \<Rightarrow> Some (REMOVE_LINKS p (s\<lparr>task := (task s)(i := None)\<rparr>))
                | None \<Rightarrow> None))"

lemma find_slot:
  assumes "slots_ok s" and "live s p" and "p \<noteq> init_task"
  obtains i where "0 < i" "i < NR_TASKS" "task s i = Some p"
    "find (\<lambda>i. task s i = Some p) task_slots = Some i"
proof -
  from assms obtain j where j: "j < NR_TASKS" "task s j = Some p" by (auto simp: live_iff)
  have "task s 0 = Some init_task" using assms(1) by (simp add: slots_ok_def)
  with j assms(3) have "j \<noteq> 0" by (cases j) simp_all
  then have "j \<in> set task_slots" using j by simp
  then obtain i where "find (\<lambda>i. task s i = Some p) task_slots = Some i"
    "i \<in> set task_slots" "task s i = Some p"
    by (rule find_exists) (rule j(2))
  then show ?thesis by (intro that) simp_all
qed

lemma slots_ok_delete: "slots_ok s \<Longrightarrow> 0 < i \<Longrightarrow> slots_ok (s\<lparr>task := (task s)(i := None)\<rparr>)"
  by (auto simp: slots_ok_def)

lemma ring_ok_task_irrelevant [simp]: "ring_ok (s\<lparr>task := f\<rparr>) ps = ring_ok s ps"
  by (simp add: ring_ok_def)

lemma slots_ok_links [simp]:
  "slots_ok (SET_LINKS p s) = slots_ok s" "slots_ok (REMOVE_LINKS p s) = slots_ok s"
  by (simp_all add: slots_ok_def)

text \<open>Taking a childless task out of the array and unlinking it removes it, and only it, from the array,
  the ring and the tree.\<close>

lemma unlink_ptable:
  assumes ok: "ptable_ok s ps ch" and p: "p \<noteq> init_task" and leaf: "ch p = []"
    and i: "0 < i" "i < NR_TASKS" "task s i = Some p"
  defines "s' \<equiv> REMOVE_LINKS p (s\<lparr>task := (task s)(i := None)\<rparr>)"
  shows "live s' t \<longleftrightarrow> t \<noteq> p \<and> live s t"
    and "ptable_ok s' (remove1 p ps) (ch(p_pptr (tsk s p) := remove1 p (ch (p_pptr (tsk s p)))))"
proof -
  have slots: "slots_ok s" and ring: "ring_ok s ps" and tree: "tree_ok s ch"
    and set: "set ps = {t. live s t \<and> t \<noteq> init_task}"
    using ok by (auto simp: ptable_ok_def)
  let ?s1 = "s\<lparr>task := (task s)(i := None)\<rparr>"
  have live1: "live ?s1 t \<longleftrightarrow> t \<noteq> p \<and> live s t" for t
    by (rule live_delete [OF slots i(2,3)])
  then show "live s' t \<longleftrightarrow> t \<noteq> p \<and> live s t" by (simp add: s'_def)
  have lp: "live s p" using i by (auto simp: live_iff)
  then have "p \<in> set ps" using p set by simp
  then obtain as bs where ps: "ps = as @ p # bs" "p \<notin> set as"
    by (meson split_list_first)
  have "ring_ok s' (remove1 p ps)"
    unfolding s'_def using ring ps by (simp add: remove1_append REMOVE_LINKS_ring)
  moreover have "set (remove1 p ps) = {t. live s' t \<and> t \<noteq> init_task}"
    unfolding s'_def using ring set live1 by (auto simp: ring_ok_def)
  moreover have "tree_ok s' (ch(p_pptr (tsk s p) := remove1 p (ch (p_pptr (tsk s p)))))"
    unfolding s'_def by (rule REMOVE_LINKS_tree_ok [OF tree lp p leaf]) (simp_all add: live1)
  moreover have "slots_ok s'" unfolding s'_def using slots i(1) slots_ok_delete by simp
  ultimately show "ptable_ok s' (remove1 p ps) (ch(p_pptr (tsk s p) := remove1 p (ch (p_pptr (tsk s p)))))"
    by (simp add: ptable_ok_def)
qed

lemma release_ptable_ok:
  assumes ok: "ptable_ok s ps ch" and p: "live s p" "p \<noteq> init_task" "p \<noteq> current s" and leaf: "ch p = []"
  shows "\<exists>s'. release (Some p) s = Some s' \<and> (\<forall>t. live s' t \<longleftrightarrow> t \<noteq> p \<and> live s t)
    \<and> ptable_ok s' (remove1 p ps) (ch(p_pptr (tsk s p) := remove1 p (ch (p_pptr (tsk s p)))))"
proof -
  have slots: "slots_ok s" using ok by (simp add: ptable_ok_def)
  obtain i where i: "0 < i" "i < NR_TASKS" "task s i = Some p"
    "find (\<lambda>i. task s i = Some p) task_slots = Some i"
    using find_slot [OF slots p(1,2)] .
  have "release (Some p) s = Some (REMOVE_LINKS p (s\<lparr>task := (task s)(i := None)\<rparr>))"
    using p(3) i(4) by (simp add: release_def)
  then show ?thesis using unlink_ptable [OF ok p(2) leaf i(1-3)] by blast
qed

lemma slots_ok_insert:
  assumes slots: "slots_ok s" and i: "task s i = None" and new: "\<not> live s p"
  shows "slots_ok (s\<lparr>task := (task s)(i := Some p)\<rparr>)"
proof -
  have i0: "i \<noteq> 0" using i slots by (metis option.distinct(1) slots_ok_def)
  have "a = b"
    if ab: "a < NR_TASKS" "b < NR_TASKS" "((task s)(i := Some p)) a \<noteq> None"
      "((task s)(i := Some p)) a = ((task s)(i := Some p)) b" for a b
  proof -
    have np: "task s a \<noteq> Some p" "task s b \<noteq> Some p" using new ab(1,2) by (auto simp: live_iff)
    show ?thesis
    proof (cases "a = i \<or> b = i")
      case True
      then show ?thesis using ab(4) np by (auto split: if_splits)
    next
      case False
      then have "task s a \<noteq> None" "task s a = task s b" using ab by simp_all
      then show ?thesis using slots ab(1,2) unfolding slots_ok_def by blast
    qed
  qed
  moreover have "((task s)(i := Some p)) 0 = Some init_task" using slots i0 by (simp add: slots_ok_def)
  moreover have "task (s\<lparr>task := (task s)(i := Some p)\<rparr>) = (task s)(i := Some p)" by simp
  ultimately show ?thesis unfolding slots_ok_def by (metis (no_types, lifting))
qed

text \<open>Entering a new task into a free slot and linking it in.\<close>

lemma link_ptable:
  assumes ok: "ptable_ok s ps ch" and new: "\<not> live s p" and par: "live s (p_pptr t)" and leaf: "p_cptr t = None"
    and i: "i < NR_TASKS" "task s i = None"
  defines "s' \<equiv> SET_LINKS p (s\<lparr>task := (task s)(i := Some p), tsk := (tsk s)(p := t)\<rparr>)"
  shows "ptable_ok s' (ps @ [p]) (ch(p_pptr t := p # ch (p_pptr t), p := []))"
    and "live s' u \<longleftrightarrow> u = p \<or> live s u"
proof -
  have slots: "slots_ok s" and ring: "ring_ok s ps" and tree: "tree_ok s ch"
    and set: "set ps = {t. live s t \<and> t \<noteq> init_task}"
    using ok by (auto simp: ptable_ok_def)
  have init: "live s init_task" by (rule slots_live_init [OF slots])
  let ?a = "s\<lparr>tsk := (tsk s)(p := t)\<rparr>"
  let ?s1 = "s\<lparr>task := (task s)(i := Some p), tsk := (tsk s)(p := t)\<rparr>"
  have liveA: "live ?a u = live s u" for u by (simp add: live_def)
  have liveB: "live ?s1 u \<longleftrightarrow> u = p \<or> live s u" for u
    using live_insert [OF i, of p u] by (simp add: live_def)
  then show "live s' u \<longleftrightarrow> u = p \<or> live s u" by (simp add: s'_def)
  have "tree_ok ?a ch"
    by (rule tree_ok_cong [OF tree liveA _ init]) (use new in auto)
  moreover have pA: "p_pptr (tsk ?a p) = p_pptr t" "p_cptr (tsk ?a p) = None" using leaf by simp_all
  ultimately have t1: "tree_ok s' (ch(p_pptr t := p # ch (p_pptr t), p := []))"
    using SET_LINKS_tree_ok [of ?a ch p ?s1] init new par unfolding liveA liveB s'_def by simp
  have p: "p \<notin> set (init_task # ps)" using new set init by (metis (no_types, lifting) mem_Collect_eq set_ConsD)
  have "dlinked (tsk ?s1) (init_task # ps @ [init_task]) = dlinked (tsk s) (init_task # ps @ [init_task])"
    using p by (intro dlinked_cong) (auto dest!: in_set_butlastD split: if_splits)
  then have "ring_ok ?s1 ps" using ring by (simp add: ring_ok_def)
  then have r1: "ring_ok s' (ps @ [p])" unfolding s'_def using SET_LINKS_ring p by blast
  have lv: "live s' u \<longleftrightarrow> u = p \<or> live s u" for u using liveB by (simp add: s'_def)
  have p0: "p \<noteq> init_task" using p by auto
  have s1: "slots_ok s'"
  proof -
    have "task s' = task (s\<lparr>task := (task s)(i := Some p)\<rparr>)" by (simp add: s'_def)
    from slots_ok_task [OF this] show ?thesis using slots_ok_insert [OF slots i(2) new] by blast
  qed
  have "set (ps @ [p]) = {t. live s' t \<and> t \<noteq> init_task}"
    using set p0 unfolding lv by auto
  then show "ptable_ok s' (ps @ [p]) (ch(p_pptr t := p # ch (p_pptr t), p := []))"
    using t1 r1 s1 by (simp add: ptable_ok_def)
qed

section \<open>A small process table\<close>

text \<open>Four tasks in a line of descent: the idle task, \<^verbatim>\<open>init\<close>, a shell, and a child of the shell that has
  exited.  The witnesses below use it.\<close>

definition demo_task :: "tid \<Rightarrow> task_struct" where
  "demo_task t = INIT_TASK\<lparr>pid := int t, pgrp := (if t < 2 then 0 else 2), session := (if t < 2 then 0 else 2),
     exit_signal := 17, state := (if t = 3 then TASK_ZOMBIE else TASK_RUNNING), uid := (if t < 2 then 0 else 7),
     euid := (if t < 2 then 0 else 7),
     next_task := (if t < 3 then t + 1 else 0), prev_task := (if t = 0 then 3 else t - 1),
     p_opptr := t - 1, p_pptr := t - 1, p_cptr := (if t < 3 then Some (t + 1) else None)\<rparr>"

definition demo_kernel :: kernel where
  "demo_kernel = \<lparr>tsk = demo_task, task = (\<lambda>i. if i < 4 then Some i else None), current = 2,
     need_resched = False, jiffies = 0, itimer_ticks = 0, itimer_next = 0, context_swtch = 0, last_pid = 3,
     last_task_used_math = None, wqh = (\<lambda>q. None), wqe = (\<lambda>w. \<lparr>wq_task = None, wq_next = None\<rparr>),
     fsmem = (\<lambda>a. 0)\<rparr>"

definition demo_children :: "tid \<Rightarrow> tid list" where
  "demo_children t = (if t < 3 then [t + 1] else [])"

lemma demo_live: "live demo_kernel t \<longleftrightarrow> t < 4"
  by (auto simp: live_iff demo_kernel_def)

lemma demo_ptable: "ptable_ok demo_kernel [1, 2, 3] demo_children"
proof -
  have "tree_ok demo_kernel demo_children"
    unfolding tree_ok_def demo_live
    by (auto simp: demo_kernel_def demo_task_def demo_children_def child_list_def INIT_TASK_def)
  moreover have "slots_ok demo_kernel"
    by (simp add: slots_ok_def demo_kernel_def)
  moreover have "ring_ok demo_kernel [1, 2, 3]"
    by (simp add: ring_ok_def demo_kernel_def demo_task_def)
  moreover have "set [1, 2, 3] = {t. live demo_kernel t \<and> t \<noteq> init_task}"
    unfolding demo_live by auto
  ultimately show ?thesis by (simp add: ptable_ok_def)
qed

section \<open>The audit of the process tree\<close>

datatype audit_warning =
    Parent_bad int | Child_bad int | Ys_bad int | Os_bad int
  | Parent_self int | Child_self int | Ys_self int | Os_self int
  | Os_parent int int int | Os_mismatch int int
  | Ys_parent int int int | Ys_mismatch int int
  | Child_parent int int | Child_ys int int

definition bad_task_ptr :: "kernel \<Rightarrow> tid option \<Rightarrow> bool" where
  "bad_task_ptr s p = (case p of None \<Rightarrow> False | Some t \<Rightarrow> \<not> list_ex (\<lambda>i. task s i = Some t) all_slots)"

definition warn :: "bool \<Rightarrow> audit_warning \<Rightarrow> audit_warning list" where
  "warn b w = (if b then [w] else [])"

text \<open>One iteration of the loop of \<^verbatim>\<open>audit_ptree\<close>.  The warning about a younger sibling with another
  parent prints fields of the \<^emph>\<open>older\<close> sibling; when that pointer is NULL the kernel oopses (\<^verbatim>\<open>None\<close>).\<close>

definition audit_task :: "kernel \<Rightarrow> tid \<Rightarrow> audit_warning list option" where
  "audit_task s p =
    (let t = tsk s p;
         w1 = warn (bad_task_ptr s (Some (p_pptr t))) (Parent_bad (pid t))
            @ warn (bad_task_ptr s (p_cptr t)) (Child_bad (pid t))
            @ warn (bad_task_ptr s (p_ysptr t)) (Ys_bad (pid t))
            @ warn (bad_task_ptr s (p_osptr t)) (Os_bad (pid t))
            @ warn (p_pptr t = p) (Parent_self (pid t))
            @ warn (p_cptr t = Some p) (Child_self (pid t))
            @ warn (p_ysptr t = Some p) (Ys_self (pid t))
            @ warn (p_osptr t = Some p) (Os_self (pid t));
         w2 = (case p_osptr t of None \<Rightarrow> []
               | Some b \<Rightarrow> warn (p_pptr t \<noteq> p_pptr (tsk s b))
                            (Os_parent (pid t) (pid (tsk s b)) (pid (tsk s (p_pptr (tsk s b)))))
                 @ warn (p_ysptr (tsk s b) \<noteq> Some p) (Os_mismatch (pid t) (pid (tsk s b))))
     in do {
       w3 \<leftarrow> (case p_ysptr t of None \<Rightarrow> Some []
               | Some y \<Rightarrow> do {
                   w \<leftarrow> (if p_pptr t \<noteq> p_pptr (tsk s y)
                         then (case p_osptr t of None \<Rightarrow> None
                               | Some b \<Rightarrow> Some [Ys_parent (pid t) (pid (tsk s b)) (pid (tsk s (p_pptr (tsk s b))))])
                         else Some []);
                   Some (w @ warn (p_osptr (tsk s y) \<noteq> Some p) (Ys_mismatch (pid t) (pid (tsk s y)))) });
       let w4 = (case p_cptr t of None \<Rightarrow> []
                 | Some c \<Rightarrow> warn (p_pptr (tsk s c) \<noteq> p) (Child_parent (pid t) (pid (tsk s c)))
                   @ warn (p_ysptr (tsk s c) \<noteq> None) (Child_ys (pid t) (pid (tsk s c))));
       Some (w1 @ w2 @ w3 @ w4) })"

fun audit_slots :: "kernel \<Rightarrow> nat list \<Rightarrow> audit_warning list option" where
  "audit_slots s [] = Some []"
| "audit_slots s (i # is) =
     (case task s i of None \<Rightarrow> audit_slots s is
      | Some p \<Rightarrow> do { w \<leftarrow> audit_task s p; ws \<leftarrow> audit_slots s is; Some (w @ ws) })"

definition audit_ptree :: "kernel \<Rightarrow> audit_warning list option" where
  "audit_ptree s = audit_slots s task_slots"

lemma bad_task_ptr_live: "bad_task_ptr s p \<longleftrightarrow> (\<exists>t. p = Some t \<and> \<not> live s t)"
  by (cases p) (auto simp: bad_task_ptr_def live_def list_ex_iff)

text \<open>What the audit checks of one task.\<close>

definition links_consistent :: "kernel \<Rightarrow> tid \<Rightarrow> bool" where
  "links_consistent s p \<longleftrightarrow>
     live s (p_pptr (tsk s p)) \<and> p_pptr (tsk s p) \<noteq> p
   \<and> (\<forall>c. p_cptr (tsk s p) = Some c \<longrightarrow> live s c \<and> c \<noteq> p \<and> p_pptr (tsk s c) = p \<and> p_ysptr (tsk s c) = None)
   \<and> (\<forall>b. p_osptr (tsk s p) = Some b \<longrightarrow> live s b \<and> b \<noteq> p \<and> p_pptr (tsk s b) = p_pptr (tsk s p) \<and> p_ysptr (tsk s b) = Some p)
   \<and> (\<forall>y. p_ysptr (tsk s p) = Some y \<longrightarrow> live s y \<and> y \<noteq> p \<and> p_pptr (tsk s y) = p_pptr (tsk s p) \<and> p_osptr (tsk s y) = Some p)"

lemma audit_task_silent: "audit_task s p = Some [] \<longleftrightarrow> links_consistent s p"
  unfolding audit_task_def links_consistent_def Let_def
  by (cases "p_osptr (tsk s p)"; cases "p_ysptr (tsk s p)"; cases "p_cptr (tsk s p)")
     (auto simp: warn_def bad_task_ptr_live split: if_splits)

lemma audit_slots_silent:
  "audit_slots s is = Some [] \<longleftrightarrow> (\<forall>i\<in>set is. \<forall>p. task s i = Some p \<longrightarrow> audit_task s p = Some [])"
  by (induction "is") (auto split: option.splits Option.bind_splits)

lemma tree_ok_consistent:
  assumes tree: "tree_ok s ch" and p: "live s p" "p \<noteq> init_task"
  shows "links_consistent s p"
proof -
  let ?q = "p_pptr (tsk s p)"
  have q: "live s ?q" "?q \<noteq> p" using tree p by (auto simp: tree_ok_def)
  have pin: "p \<in> set (ch ?q)" using tree_ok_set [OF tree q(1)] p by simp
  note heads = child_list_heads [OF tree_ok_child [OF tree q(1)]]
  have sib: "live s x \<and> p_pptr (tsk s x) = ?q" if "x \<in> set (ch ?q)" for x
    using tree_ok_set [OF tree q(1)] that by auto
  have "live s c \<and> c \<noteq> p \<and> p_pptr (tsk s c) = p \<and> p_ysptr (tsk s c) = None"
    if c: "p_cptr (tsk s p) = Some c" for c
    using child_list_heads(1) [OF tree_ok_child [OF tree p(1)] c] tree_ok_set [OF tree p(1), of c] tree
    by (auto simp: tree_ok_def)
  then show ?thesis
    using q sib heads(2,3) [OF pin] unfolding links_consistent_def by metis
qed

section \<open>Operations that leave the links alone\<close>

text \<open>Most kernel functions change task fields other than the links.  \<^verbatim>\<open>same_links\<close> relates their
  states; everything above depends on the links only.\<close>

definition same_links :: "kernel \<Rightarrow> kernel \<Rightarrow> bool" where
  "same_links s s' \<longleftrightarrow> task s' = task s \<and> current s' = current s
     \<and> (\<forall>t. next_task (tsk s' t) = next_task (tsk s t) \<and> prev_task (tsk s' t) = prev_task (tsk s t)
         \<and> p_pptr (tsk s' t) = p_pptr (tsk s t) \<and> p_cptr (tsk s' t) = p_cptr (tsk s t)
         \<and> p_ysptr (tsk s' t) = p_ysptr (tsk s t) \<and> p_osptr (tsk s' t) = p_osptr (tsk s t)
         \<and> pid (tsk s' t) = pid (tsk s t))"

lemma same_links_refl [simp, intro]: "same_links s s"
  by (simp add: same_links_def)

lemma same_links_trans: "same_links s s' \<Longrightarrow> same_links s' s'' \<Longrightarrow> same_links s s''"
  by (simp add: same_links_def)

lemma same_links_upd_task:
  assumes "\<And>t. next_task (f t) = next_task t \<and> prev_task (f t) = prev_task t \<and> p_pptr (f t) = p_pptr t
    \<and> p_cptr (f t) = p_cptr t \<and> p_ysptr (f t) = p_ysptr t \<and> p_osptr (f t) = p_osptr t \<and> pid (f t) = pid t"
  shows "same_links s (upd_task p f s)"
  using assms by (simp add: same_links_def tsk_upd_task)

lemma for_each_task_same_links: "same_links s s' \<Longrightarrow> for_each_task s' = for_each_task s"
  by (simp add: for_each_task_def same_links_def)

lemma live_same_links: "same_links s s' \<Longrightarrow> live s' t = live s t"
  by (simp add: live_def same_links_def)

lemma ring_ok_same_links: "same_links s s' \<Longrightarrow> ring_ok s' ps = ring_ok s ps"
  using dlinked_cong [of _ "tsk s'" "tsk s"] by (simp add: ring_ok_def same_links_def)

lemma tree_ok_same_links: "same_links s s' \<Longrightarrow> tree_ok s' ch = tree_ok s ch"
  unfolding tree_ok_def
  using live_same_links [of s s'] child_list_cong [of s' _ s] by (auto simp: same_links_def)

lemma slots_ok_same_links: "same_links s s' \<Longrightarrow> slots_ok s' = slots_ok s"
  by (simp add: slots_ok_def same_links_def)

lemma ptable_ok_same_links: "same_links s s' \<Longrightarrow> ptable_ok s' ps ch = ptable_ok s ps ch"
  by (simp add: ptable_ok_def slots_ok_same_links ring_ok_same_links tree_ok_same_links live_same_links)

lemma ptable_ok_tasks: "ptable_ok s ps ch \<Longrightarrow> for_each_task s = Some ps"
  by (auto simp: ptable_ok_def intro: for_each_task_ring)

text \<open>The interface of such an operation, applied along a list (a \<^verbatim>\<open>for_each_task\<close> loop, a wait queue).\<close>

locale link_preserving =
  fixes step :: "kernel \<Rightarrow> 'a \<Rightarrow> kernel"
  assumes step_links: "same_links s (step s x)"
begin

lemma fold_links: "same_links s (foldl step s xs)"
  by (induction xs arbitrary: s) (auto intro: same_links_trans step_links)

lemma fold_ptable: "ptable_ok (foldl step s xs) ps ch = ptable_ok s ps ch"
  by (rule ptable_ok_same_links [OF fold_links])

lemma fold_tasks: "for_each_task (foldl step s xs) = for_each_task s"
  by (rule for_each_task_same_links [OF fold_links])

lemma fold_current: "current (foldl step s xs) = current s"
  using fold_links [of s xs] by (simp add: same_links_def)

end

end
