(* ===== verification/Wait_Queue.thy ===== *)
theory Wait_Queue
  imports Process_Tree
begin

text \<open>
  Wait queues: \<^verbatim>\<open>add_wait_queue\<close> and \<^verbatim>\<open>remove_wait_queue\<close> of \<^verbatim>\<open>include/linux/sched.h\<close>, \<^verbatim>\<open>wake_up\<close> and
  \<^verbatim>\<open>wake_up_interruptible\<close> of \<^verbatim>\<open>kernel/sched.c\<close>, on the circular singly linked lists the kernel uses.
  The abstraction of a queue is the list of its entries from the head on; the lemmas show that the
  two pointer operations implement insertion and removal on it, that both wake-up loops end, and
  exactly which tasks they make runnable.
\<close>

definition set_wq_next :: "waddr \<Rightarrow> waddr option \<Rightarrow> kernel \<Rightarrow> kernel" where
  "set_wq_next w n s = s\<lparr>wqe := (wqe s)(w := (wqe s w)\<lparr>wq_next := n\<rparr>)\<rparr>"

definition set_wq_head :: "wqhead \<Rightarrow> waddr option \<Rightarrow> kernel \<Rightarrow> kernel" where
  "set_wq_head q w s = s\<lparr>wqh := (wqh s)(q := w)\<rparr>"

lemma set_wq_simps [simp]:
  "wqe (set_wq_next w n s) v = (if v = w then (wqe s w)\<lparr>wq_next := n\<rparr> else wqe s v)"
  "wqh (set_wq_next w n s) = wqh s" "wqe (set_wq_head q h s) = wqe s"
  "wqh (set_wq_head q h s) r = (if r = q then h else wqh s r)"
  "tsk (set_wq_next w n s) = tsk s" "tsk (set_wq_head q h s) = tsk s"
  "task (set_wq_next w n s) = task s" "task (set_wq_head q h s) = task s"
  "current (set_wq_next w n s) = current s" "current (set_wq_head q h s) = current s"
  by (simp_all add: set_wq_next_def set_wq_head_def)

section \<open>The operations\<close>

definition add_wait_queue :: "wqhead \<Rightarrow> waddr \<Rightarrow> kernel \<Rightarrow> kernel" where
  "add_wait_queue p wait s =
     (case wqh s p of
        None \<Rightarrow> set_wq_head p (Some wait) (set_wq_next wait (Some wait) s)
      | Some h \<Rightarrow>
          let s = set_wq_next wait (wq_next (wqe s h)) s
          in set_wq_next h (Some wait) s)"

text \<open>The search loop of \<^verbatim>\<open>remove_wait_queue\<close>: the entry before \<^verbatim>\<open>wait\<close>.  A NULL \<^verbatim>\<open>next\<close> pointer on the way
  or an endless search is \<^verbatim>\<open>None\<close>.\<close>

partial_function (option) wq_pred :: "kernel \<Rightarrow> waddr \<Rightarrow> waddr \<Rightarrow> waddr option" where
  "wq_pred s wait tmp =
     (case wq_next (wqe s tmp) of
        None \<Rightarrow> None
      | Some n \<Rightarrow> if n = wait then Some tmp else wq_pred s wait n)"

definition remove_wait_queue :: "wqhead \<Rightarrow> waddr \<Rightarrow> kernel \<Rightarrow> kernel option" where
  "remove_wait_queue p wait s =
     (let nx = wq_next (wqe s wait);
          s1 = (if wqh s p = Some wait then set_wq_head p nx s else s)
      in if wqh s p = Some wait \<and> nx = Some wait
         then Some (set_wq_next wait None (set_wq_head p None s1))
         else do {
           tmp \<leftarrow> wq_pred s1 wait wait;
           Some (set_wq_next wait None (set_wq_next tmp nx s1)) })"

text \<open>The body of the wake-up loops for one entry, and the loop, which also stops at a NULL
  \<^verbatim>\<open>next\<close> pointer (after printing a diagnostic).\<close>

definition wake_entry :: "task_state set \<Rightarrow> kernel \<Rightarrow> waddr \<Rightarrow> kernel" where
  "wake_entry sts s tmp =
     (case wq_task (wqe s tmp) of
        None \<Rightarrow> s
      | Some p \<Rightarrow>
          if state (tsk s p) \<in> sts
          then let s = upd_task p (\<lambda>t. t\<lparr>state := TASK_RUNNING\<rparr>) s
               in if counter (tsk s p) > counter (cur s) then s\<lparr>need_resched := True\<rparr> else s
          else s)"

partial_function (option) wake_walk :: "task_state set \<Rightarrow> wqhead \<Rightarrow> waddr \<Rightarrow> kernel \<Rightarrow> kernel option" where
  "wake_walk sts q tmp s0 =
     (let s = wake_entry sts s0 tmp
      in case wq_next (wqe s tmp) of
           None \<Rightarrow> Some s
         | Some n \<Rightarrow> if wqh s q = Some n then Some s else wake_walk sts q n s)"

definition wake_up :: "wqhead \<Rightarrow> kernel \<Rightarrow> kernel option" where
  "wake_up q s = (case wqh s q of None \<Rightarrow> Some s
     | Some tmp \<Rightarrow> wake_walk {TASK_UNINTERRUPTIBLE, TASK_INTERRUPTIBLE} q tmp s)"

definition wake_up_interruptible :: "wqhead \<Rightarrow> kernel \<Rightarrow> kernel option" where
  "wake_up_interruptible q s = (case wqh s q of None \<Rightarrow> Some s
     | Some tmp \<Rightarrow> wake_walk {TASK_INTERRUPTIBLE} q tmp s)"

section \<open>The ring of entries\<close>

fun wlinked :: "(waddr \<Rightarrow> wait_queue) \<Rightarrow> waddr list \<Rightarrow> bool" where
  "wlinked h (a # b # xs) = (wq_next (h a) = Some b \<and> wlinked h (b # xs))"
| "wlinked h _ = True"

definition wq_ring :: "kernel \<Rightarrow> wqhead \<Rightarrow> waddr list \<Rightarrow> bool" where
  "wq_ring s q ws \<longleftrightarrow> distinct ws \<and> wqh s q = opt_hd ws \<and> wlinked (wqe s) (ws @ take 1 ws)"

lemma wlinked_append: "wlinked h (xs @ a # ys) \<longleftrightarrow> wlinked h (xs @ [a]) \<and> wlinked h (a # ys)"
  by (induction h xs rule: wlinked.induct) (auto simp: neq_Nil_conv Cons_eq_append_conv)

lemma wlinked_cong:
  "(\<And>x. x \<in> set (butlast xs) \<Longrightarrow> wq_next (h' x) = wq_next (h x)) \<Longrightarrow> wlinked h' xs = wlinked h xs"
  by (induction h xs rule: wlinked.induct) auto

lemma wlinked_tl: "wlinked h (x # xs) \<Longrightarrow> wlinked h xs"
  by (cases xs) auto

lemma wlinked_prefix: "wlinked h (xs @ ys) \<Longrightarrow> wlinked h xs"
  by (induction h xs rule: wlinked.induct) auto

lemma wlinked_snoc:
  "wlinked h xs \<Longrightarrow> xs \<noteq> [] \<Longrightarrow> wq_next (h (last xs)) = Some b \<Longrightarrow> wlinked h (xs @ [b])"
  by (induction h xs rule: wlinked.induct) auto

lemma add_wait_queue_ring:
  assumes ring: "wq_ring s q ws" and w: "w \<notin> set ws"
  shows "wq_ring (add_wait_queue q w s) q (case ws of [] \<Rightarrow> [w] | h # hs \<Rightarrow> h # w # hs)"
proof (cases ws)
  case Nil
  then show ?thesis using ring by (simp add: wq_ring_def add_wait_queue_def)
next
  case (Cons h hs)
  let ?s = "add_wait_queue q w s"
  obtain b bs where hd: "hs @ [h] = b # bs" by (cases "hs @ [h]") auto
  have link: "wq_next (wqe s h) = Some b" "wlinked (wqe s) (b # bs)" and head: "wqh s q = Some h"
    using ring Cons hd by (auto simp: wq_ring_def)
  have "butlast (b # bs) = hs" using hd by (metis butlast_snoc)
  then have "wlinked (wqe ?s) (b # bs)"
    using link w Cons ring
    by (subst wlinked_cong [of _ _ "wqe s"]) (auto simp: add_wait_queue_def head wq_ring_def Let_def)
  then show ?thesis
    using ring w Cons link hd head by (auto simp: wq_ring_def add_wait_queue_def Let_def)
qed

lemma wq_pred_path:
  assumes "wlinked (wqe s) (a # xs @ [w])" and "w \<notin> set xs"
  shows "wq_pred s w a = Some (last (a # xs))"
  using assms by (induction xs arbitrary: a) (simp_all add: wq_pred.simps)

text \<open>A ring may be cut open at any of its entries.\<close>

lemma wq_ring_rotate:
  assumes "wlinked h ((as @ w # bs) @ take 1 (as @ w # bs))"
  shows "wlinked h (w # (bs @ as) @ [w])"
proof (cases as)
  case (Cons a as')
  then have l: "wlinked h (a # as' @ w # bs @ [a])" using assms by simp
  have "wlinked h ((a # as') @ [w])" "wlinked h (w # bs @ [a])"
    using wlinked_append [of h "a # as'" w "bs @ [a]"] l by auto
  then show ?thesis
    using Cons wlinked_append [of h "w # bs" a "as' @ [w]"] by simp
qed (use assms in simp)

lemma remove_wait_queue_ring:
  assumes ring: "wq_ring s q (as @ w # bs)"
  shows "\<exists>s'. remove_wait_queue q w s = Some s' \<and> wq_ring s' q (as @ bs) \<and> wq_next (wqe s' w) = None"
proof (cases "as @ bs = []")
  case True
  then show ?thesis using ring by (auto simp: wq_ring_def remove_wait_queue_def Let_def)
next
  case False
  let ?xs = "bs @ as"
  have dist: "distinct (as @ w # bs)" and head: "wqh s q = opt_hd (as @ w # bs)"
    using ring by (auto simp: wq_ring_def)
  have cut: "wlinked (wqe s) (w # ?xs @ [w])"
    using ring wq_ring_rotate by (auto simp: wq_ring_def)
  from False obtain b ys where xs: "?xs = b # ys" by (cases ?xs) auto
  have "w \<notin> set ?xs" using dist by auto
  moreover have "b \<in> set ?xs" by (simp only: xs) simp
  ultimately have nx: "wq_next (wqe s w) = Some b" "b \<noteq> w" "w \<notin> set ?xs"
    using cut xs by auto
  let ?s1 = "if wqh s q = Some w then set_wq_head q (Some b) s else s"
  let ?s' = "set_wq_next w None (set_wq_next (last ?xs) (Some b) ?s1)"
  have eqe: "wqe ?s1 = wqe s" by simp
  have "wq_pred ?s1 w w = Some (last (w # ?xs))"
    using cut nx by (intro wq_pred_path) (simp_all add: eqe)
  then have rem: "remove_wait_queue q w s = Some ?s'"
    using nx False by (auto simp: remove_wait_queue_def Let_def)
  have lw: "last ?xs \<noteq> w" using nx(3) False last_in_set [of ?xs] by (metis append_is_Nil_conv)
  have "wlinked (wqe ?s') ?xs"
  proof -
    have "wlinked (wqe s) ?xs"
      by (rule wlinked_prefix [OF wlinked_tl [OF cut]])
    moreover have "last ?xs \<notin> set (butlast ?xs)"
      using dist False by (intro last_notin_butlast) auto
    ultimately show ?thesis
      using nx(3) lw by (subst wlinked_cong [of _ _ "wqe s"]) (auto simp: in_set_butlastD dest: in_set_butlastD)
  qed
  moreover have "wq_next (wqe ?s' (last ?xs)) = Some b" using lw by simp
  ultimately have "wlinked (wqe ?s') (?xs @ [b])"
    using False by (intro wlinked_snoc) auto
  then have closed: "wlinked (wqe ?s') (?xs @ take 1 ?xs)"
    by (simp only: xs) simp
  have "wlinked (wqe ?s') ((as @ bs) @ take 1 (as @ bs))"
  proof (cases as)
    case (Cons a as')
    then show ?thesis using wq_ring_rotate [of "wqe ?s'" bs a as'] closed by simp
  qed (use closed in simp)
  moreover have "wqh ?s' q = opt_hd (as @ bs)"
    using head nx xs False dist by (cases as) (auto simp: opt_hd_append)
  ultimately show ?thesis
    using rem dist by (auto simp: wq_ring_def)
qed

section \<open>Waking up\<close>

lemma wake_entry_frame [simp, frame_simps]:
  "wqe (wake_entry sts s w) = wqe s" "wqh (wake_entry sts s w) = wqh s"
  "task (wake_entry sts s w) = task s" "current (wake_entry sts s w) = current s"
  "counter (tsk (wake_entry sts s w) t) = counter (tsk s t)"
  "jiffies (wake_entry sts s w) = jiffies s" "fsmem (wake_entry sts s w) = fsmem s"
  by (simp_all add: wake_entry_def Let_def tsk_upd_task split: option.split)

lemma same_links_need_resched [simp]: "same_links s (s'\<lparr>need_resched := b\<rparr>) = same_links s s'"
  by (simp add: same_links_def)

interpretation wake: link_preserving "wake_entry sts" for sts
proof
  show "same_links s (wake_entry sts s x)" for s x
    by (auto simp: wake_entry_def Let_def intro!: same_links_upd_task split: option.split)
qed

lemma wake_walk_path:
  assumes "wlinked (wqe s) (a # xs @ [h])" and "wqh s q = Some h" and "h \<notin> set xs"
  shows "wake_walk sts q a s = Some (foldl (wake_entry sts) s (a # xs))"
  using assms
proof (induction xs arbitrary: a s)
  case Nil
  then show ?case by (simp add: wake_walk.simps [of sts q a s] Let_def)
next
  case (Cons b xs)
  then have "wake_walk sts q a s = wake_walk sts q b (wake_entry sts s a)"
    by (simp add: wake_walk.simps [of sts q a s] Let_def)
  with Cons show ?case by simp
qed

lemma wake_walk_ring:
  assumes "wq_ring s q (h # hs)"
  shows "wake_walk sts q h s = Some (foldl (wake_entry sts) s (h # hs))"
  using assms by (intro wake_walk_path) (auto simp: wq_ring_def)

lemma wake_up_ring:
  "wq_ring s q ws \<Longrightarrow>
    wake_up q s = Some (foldl (wake_entry {TASK_UNINTERRUPTIBLE, TASK_INTERRUPTIBLE}) s ws)"
  by (cases ws) (use wake_walk_ring [of s q] in \<open>auto simp: wake_up_def wq_ring_def\<close>)

lemma wake_up_interruptible_ring:
  "wq_ring s q ws \<Longrightarrow> wake_up_interruptible q s = Some (foldl (wake_entry {TASK_INTERRUPTIBLE}) s ws)"
  by (cases ws) (use wake_walk_ring [of s q] in \<open>auto simp: wake_up_interruptible_def wq_ring_def\<close>)

lemma wake_entry_state:
  "state (tsk (wake_entry sts s w) t) =
     (if wq_task (wqe s w) = Some t \<and> state (tsk s t) \<in> sts then TASK_RUNNING else state (tsk s t))"
  by (auto simp: wake_entry_def Let_def tsk_upd_task split: option.split)

lemma fold_wake_state:
  assumes "TASK_RUNNING \<notin> sts"
  shows "state (tsk (foldl (wake_entry sts) s ws) t) =
     (if (\<exists>w\<in>set ws. wq_task (wqe s w) = Some t) \<and> state (tsk s t) \<in> sts then TASK_RUNNING else state (tsk s t))"
  using assms by (induction ws arbitrary: s) (auto simp: wake_entry_state)

lemma fold_wake_resched:
  assumes "TASK_RUNNING \<notin> sts"
  shows "need_resched (foldl (wake_entry sts) s ws) \<longleftrightarrow> need_resched s \<or>
     (\<exists>w\<in>set ws. \<exists>t. wq_task (wqe s w) = Some t \<and> state (tsk s t) \<in> sts \<and> counter (tsk s t) > counter (cur s))"
  using assms
proof (induction ws arbitrary: s)
  case (Cons w ws)
  have "need_resched (wake_entry sts s w) \<longleftrightarrow> need_resched s \<or>
     (\<exists>t. wq_task (wqe s w) = Some t \<and> state (tsk s t) \<in> sts \<and> counter (tsk s t) > counter (cur s))"
    by (auto simp: wake_entry_def Let_def tsk_upd_task split: option.split)
  with Cons.IH [of "wake_entry sts s w", OF Cons.prems] Cons.prems show ?case
    by (simp add: wake_entry_state) blast
qed simp

text \<open>The tasks that wait on a queue.\<close>

definition waiters :: "kernel \<Rightarrow> waddr list \<Rightarrow> tid set" where
  "waiters s ws = {t. \<exists>w\<in>set ws. wq_task (wqe s w) = Some t}"

end
