(* ===== verification/Signals.thy ===== *)
theory Signals
  imports Wait_Queue
begin

text \<open>
  Signals: \<^verbatim>\<open>generate\<close>, \<^verbatim>\<open>send_sig\<close>, \<^verbatim>\<open>notify_parent\<close> and the \<^verbatim>\<open>kill\<close> family of \<^verbatim>\<open>kernel/exit.c\<close>.  A set of signals is the 32-bit mask of the source; signal \<^verbatim>\<open>n\<close> is
  bit \<^verbatim>\<open>n - 1\<close>.  The lemmas give the permission rule of \<^verbatim>\<open>send_sig\<close>, the exclusion between SIGCONT and
  the stop signals, and who a signal to a process group reaches.
\<close>

abbreviation (input) SIGHUP :: nat where "SIGHUP \<equiv> 1"
abbreviation (input) SIGINT :: nat where "SIGINT \<equiv> 2"
abbreviation (input) SIGQUIT :: nat where "SIGQUIT \<equiv> 3"
abbreviation (input) SIGILL :: nat where "SIGILL \<equiv> 4"
abbreviation (input) SIGTRAP :: nat where "SIGTRAP \<equiv> 5"
abbreviation (input) SIGIOT :: nat where "SIGIOT \<equiv> 6"
abbreviation (input) SIGFPE :: nat where "SIGFPE \<equiv> 8"
abbreviation (input) SIGKILL :: nat where "SIGKILL \<equiv> 9"
abbreviation (input) SIGSEGV :: nat where "SIGSEGV \<equiv> 11"
abbreviation (input) SIGPIPE :: nat where "SIGPIPE \<equiv> 13"
abbreviation (input) SIGALRM :: nat where "SIGALRM \<equiv> 14"
abbreviation (input) SIGCHLD :: nat where "SIGCHLD \<equiv> 17"
abbreviation (input) SIGCONT :: nat where "SIGCONT \<equiv> 18"
abbreviation (input) SIGSTOP :: nat where "SIGSTOP \<equiv> 19"
abbreviation (input) SIGTSTP :: nat where "SIGTSTP \<equiv> 20"
abbreviation (input) SIGTTIN :: nat where "SIGTTIN \<equiv> 21"
abbreviation (input) SIGTTOU :: nat where "SIGTTOU \<equiv> 22"
abbreviation (input) SIGVTALRM :: nat where "SIGVTALRM \<equiv> 26"
abbreviation (input) SIGPROF :: nat where "SIGPROF \<equiv> 27"
abbreviation (input) SIGWINCH :: nat where "SIGWINCH \<equiv> 28"

abbreviation (input) SIG_DFL :: u32 where "SIG_DFL \<equiv> 0"
abbreviation (input) SIG_IGN :: u32 where "SIG_IGN \<equiv> 1"
abbreviation (input) SA_NOCLDSTOP :: u32 where "SA_NOCLDSTOP \<equiv> 1"
abbreviation (input) SA_RESTART :: u32 where "SA_RESTART \<equiv> 0x10000000"
abbreviation (input) SA_NOMASK :: u32 where "SA_NOMASK \<equiv> 0x40000000"
abbreviation (input) SA_ONESHOT :: u32 where "SA_ONESHOT \<equiv> 0x80000000"
abbreviation (input) PF_PTRACED :: u32 where "PF_PTRACED \<equiv> 0x10"
abbreviation (input) PF_TRACESYS :: u32 where "PF_TRACESYS \<equiv> 0x20"

text \<open>The macros \<^verbatim>\<open>_S(nr)\<close> and \<^verbatim>\<open>_BLOCKABLE\<close>, and \<^verbatim>\<open>suser()\<close> of \<^verbatim>\<open>include/linux/kernel.h\<close>.\<close>

definition S_mask :: "nat \<Rightarrow> u32" where
  "S_mask nr = push_bit (nr - 1) 1"

definition BLOCKABLE :: u32 where
  "BLOCKABLE = NOT (S_mask SIGKILL OR S_mask SIGSTOP)"

definition suser :: "kernel \<Rightarrow> bool" where
  "suser s \<longleftrightarrow> euid (cur s) = 0"

definition signal_pending :: "task_struct \<Rightarrow> bool" where
  "signal_pending t \<longleftrightarrow> signal t AND NOT (blocked t) \<noteq> 0"

lemma bit_S_mask [word_mask_simps]: "bit (S_mask nr) n \<longleftrightarrow> n = nr - 1 \<and> n < 32"
  by (auto simp: S_mask_def bit_simps)

lemma bit_BLOCKABLE [word_mask_simps]: "bit BLOCKABLE n \<longleftrightarrow> n < 32 \<and> n \<noteq> 8 \<and> n \<noteq> 18"
  by (auto simp: BLOCKABLE_def bit_simps bit_S_mask)

section \<open>Sending\<close>

definition generate :: "nat \<Rightarrow> tid \<Rightarrow> kernel \<Rightarrow> bool \<times> kernel" where
  "generate sig p s =
    (let t = tsk s p; mask = S_mask sig; sa = sigactions t ! (sig - 1);
         set = upd_task p (\<lambda>t. t\<lparr>signal := signal t OR mask\<rparr>) s
     in if flags t AND PF_PTRACED \<noteq> 0 then (True, set)
        else if sa_handler sa = SIG_IGN \<and> sig \<noteq> SIGCHLD then (False, s)
        else if sa_handler sa = SIG_DFL \<and> (sig = SIGCONT \<or> sig = SIGCHLD \<or> sig = SIGWINCH) then (False, s)
        else (True, set))"

definition send_sig :: "nat \<Rightarrow> tid option \<Rightarrow> bool \<Rightarrow> kernel \<Rightarrow> int \<times> kernel" where
  "send_sig sig po priv s =
    (case po of None \<Rightarrow> (- EINVAL, s)
     | Some p \<Rightarrow>
       if sig > 32 then (- EINVAL, s)
       else if \<not> priv \<and> (sig \<noteq> SIGCONT \<or> session (cur s) \<noteq> session (tsk s p))
            \<and> euid (cur s) \<noteq> euid (tsk s p) \<and> uid (cur s) \<noteq> uid (tsk s p) \<and> \<not> suser s
       then (- EPERM, s)
       else if sig = 0 then (0, s)
       else
         let s = (if sig = SIGKILL \<or> sig = SIGCONT
                  then upd_task p (\<lambda>t. t\<lparr>state := (if state t = TASK_STOPPED then TASK_RUNNING else state t),
                         exit_code := 0,
                         signal := signal t AND NOT (S_mask SIGSTOP OR S_mask SIGTSTP
                                                     OR S_mask SIGTTIN OR S_mask SIGTTOU)\<rparr>) s
                  else s);
             s = (if SIGSTOP \<le> sig \<and> sig \<le> SIGTTOU
                  then upd_task p (\<lambda>t. t\<lparr>signal := signal t AND NOT (S_mask SIGCONT)\<rparr>) s
                  else s)
         in (0, snd (generate sig p s)))"

definition notify_parent :: "tid \<Rightarrow> kernel \<Rightarrow> kernel option" where
  "notify_parent t s =
    (let par = p_pptr (tsk s t);
         s = (if Some par = task s 1 then upd_task t (\<lambda>x. x\<lparr>exit_signal := int SIGCHLD\<rparr>) s else s);
         s = snd (send_sig (unat (to_u32 (exit_signal (tsk s t)))) (Some par) True s)
     in wake_up_interruptible (Chldexit par) s)"

text \<open>The loops of \<^verbatim>\<open>kill_pg\<close> and \<^verbatim>\<open>kill_sl\<close> keep the error of the last failed delivery and count the
  successful ones.\<close>

definition kill_step :: "(task_struct \<Rightarrow> bool) \<Rightarrow> nat \<Rightarrow> bool \<Rightarrow> int \<times> nat \<times> kernel \<Rightarrow> tid \<Rightarrow> int \<times> nat \<times> kernel" where
  "kill_step sel sig priv acc p =
    (case acc of (retval, found, s) \<Rightarrow>
       if sel (tsk s p)
       then (case send_sig sig (Some p) priv s of (err, s') \<Rightarrow>
               if err \<noteq> 0 then (err, found, s') else (retval, Suc found, s'))
       else (retval, found, s))"

definition kill_loop :: "(task_struct \<Rightarrow> bool) \<Rightarrow> nat \<Rightarrow> bool \<Rightarrow> kernel \<Rightarrow> (int \<times> kernel) option" where
  "kill_loop sel sig priv s =
     do { ps \<leftarrow> for_each_task s;
          Some (case foldl (kill_step sel sig priv) (- ESRCH, 0, s) ps of
                  (retval, found, s') \<Rightarrow> (if found \<noteq> 0 then 0 else retval, s')) }"

definition kill_pg :: "int \<Rightarrow> int \<Rightarrow> bool \<Rightarrow> kernel \<Rightarrow> (int \<times> kernel) option" where
  "kill_pg pg sig priv s =
     (if sig < 0 \<or> sig > 32 \<or> pg \<le> 0 then Some (- EINVAL, s)
      else kill_loop (\<lambda>t. pgrp t = pg) (nat sig) priv s)"

definition kill_sl :: "int \<Rightarrow> int \<Rightarrow> bool \<Rightarrow> kernel \<Rightarrow> (int \<times> kernel) option" where
  "kill_sl sess sig priv s =
     (if sig < 0 \<or> sig > 32 \<or> sess \<le> 0 then Some (- EINVAL, s)
      else kill_loop (\<lambda>t. session t = sess \<and> leader t) (nat sig) priv s)"

definition kill_proc :: "int \<Rightarrow> int \<Rightarrow> bool \<Rightarrow> kernel \<Rightarrow> (int \<times> kernel) option" where
  "kill_proc pd sig priv s =
     (if sig < 0 \<or> sig > 32 then Some (- EINVAL, s)
      else do { ps \<leftarrow> for_each_task s;
                Some (case find (\<lambda>p. pid (tsk s p) = pd) ps of
                        Some p \<Rightarrow> send_sig (nat sig) (Some p) priv s
                      | None \<Rightarrow> (- ESRCH, s)) })"

definition kill_all_step :: "nat \<Rightarrow> int \<times> nat \<times> kernel \<Rightarrow> tid \<Rightarrow> int \<times> nat \<times> kernel" where
  "kill_all_step sig acc p =
    (case acc of (retval, count, s) \<Rightarrow>
       if pid (tsk s p) > 1 \<and> p \<noteq> current s
       then (case send_sig sig (Some p) False s of (err, s') \<Rightarrow>
               (if err \<noteq> - EPERM then err else retval, Suc count, s'))
       else (retval, count, s))"

definition sys_kill :: "int \<Rightarrow> int \<Rightarrow> kernel \<Rightarrow> (int \<times> kernel) option" where
  "sys_kill pd sig s =
     (if pd = 0 then kill_pg (pgrp (cur s)) sig False s
      else if pd = -1 then
        do { ps \<leftarrow> for_each_task s;
             Some (case foldl (kill_all_step (unat (to_u32 sig))) (0, 0, s) ps of
                     (retval, count, s') \<Rightarrow> (if count \<noteq> 0 then retval else - ESRCH, s')) }
      else if pd < 0 then kill_pg (- pd) sig False s
      else kill_proc pd sig False s)"

section \<open>What sending a signal does\<close>

text \<open>\<^verbatim>\<open>denied\<close> is the permission rule and \<^verbatim>\<open>deliver\<close> the effect on the receiving task; \<^verbatim>\<open>send_sig\<close> is their
  composition.\<close>

definition denied :: "nat \<Rightarrow> tid \<Rightarrow> bool \<Rightarrow> kernel \<Rightarrow> bool" where
  "denied sig p priv s \<longleftrightarrow> \<not> priv \<and> (sig \<noteq> SIGCONT \<or> session (cur s) \<noteq> session (tsk s p))
     \<and> euid (cur s) \<noteq> euid (tsk s p) \<and> uid (cur s) \<noteq> uid (tsk s p) \<and> \<not> suser s"

abbreviation (input) STOP_SIGS :: "nat set" where
  "STOP_SIGS \<equiv> {SIGSTOP, SIGTSTP, SIGTTIN, SIGTTOU}"

definition pending :: "task_struct \<Rightarrow> nat \<Rightarrow> bool" where
  "pending t sig \<longleftrightarrow> bit (signal t) (sig - 1)"

definition discards :: "task_struct \<Rightarrow> nat \<Rightarrow> bool" where
  "discards t sig \<longleftrightarrow> flags t AND PF_PTRACED = 0 \<and>
     (sa_handler (sigactions t ! (sig - 1)) = SIG_IGN \<and> sig \<noteq> SIGCHLD
      \<or> sa_handler (sigactions t ! (sig - 1)) = SIG_DFL \<and> sig \<in> {SIGCONT, SIGCHLD, SIGWINCH})"

definition deliver :: "nat \<Rightarrow> task_struct \<Rightarrow> task_struct" where
  "deliver sig t = (if sig = 0 then t else
     let t = (if sig = SIGKILL \<or> sig = SIGCONT
              then t\<lparr>state := (if state t = TASK_STOPPED then TASK_RUNNING else state t), exit_code := 0,
                     signal := signal t AND NOT (S_mask SIGSTOP OR S_mask SIGTSTP OR S_mask SIGTTIN OR S_mask SIGTTOU)\<rparr>
              else t);
         t = (if SIGSTOP \<le> sig \<and> sig \<le> SIGTTOU then t\<lparr>signal := signal t AND NOT (S_mask SIGCONT)\<rparr> else t)
     in if discards t sig then t else t\<lparr>signal := signal t OR S_mask sig\<rparr>)"

lemma upd_task_id [simp]: "upd_task p (\<lambda>t. t) s = s"
  by (simp add: upd_task_def)

lemma upd_task_comp: "upd_task p f (upd_task p g s) = upd_task p (\<lambda>t. f (g t)) s"
  by (simp add: upd_task_def)

lemma upd_task_cong: "f (tsk s p) = g (tsk s p) \<Longrightarrow> upd_task p f s = upd_task p g s"
  by (simp add: upd_task_def)

lemma upd_task_if: "(if b then upd_task p f s else s) = upd_task p (\<lambda>t. if b then f t else t) s"
  by simp

lemma generate_eq:
  "snd (generate sig p s) = (if discards (tsk s p) sig then s else upd_task p (\<lambda>t. t\<lparr>signal := signal t OR S_mask sig\<rparr>) s)"
  by (auto simp: generate_def discards_def Let_def)

lemma send_sig_eq:
  assumes "sig \<le> 32"
  shows "send_sig sig (Some p) priv s =
    (if denied sig p priv s then (- EPERM, s) else (0, upd_task p (deliver sig) s))"
proof (cases "sig = 0")
  case True
  then have "deliver sig = (\<lambda>t. t)" by (simp add: deliver_def fun_eq_iff)
  then show ?thesis using True by (simp add: send_sig_def denied_def)
next
  case False
  let ?k = "\<lambda>t::task_struct. if sig = SIGKILL \<or> sig = SIGCONT
      then t\<lparr>state := (if state t = TASK_STOPPED then TASK_RUNNING else state t), exit_code := 0,
             signal := signal t AND NOT (S_mask SIGSTOP OR S_mask SIGTSTP OR S_mask SIGTTIN OR S_mask SIGTTOU)\<rparr>
      else t"
  let ?c = "\<lambda>t::task_struct. if SIGSTOP \<le> sig \<and> sig \<le> SIGTTOU then t\<lparr>signal := signal t AND NOT (S_mask SIGCONT)\<rparr> else t"
  let ?g = "\<lambda>t::task_struct. if discards t sig then t else t\<lparr>signal := signal t OR S_mask sig\<rparr>"
  have gen: "snd (generate sig p s) = upd_task p ?g s" for s
    unfolding generate_eq by (auto simp: upd_task_def)
  have steps: "(if sig = SIGKILL \<or> sig = SIGCONT then upd_task p f s else s)
      = upd_task p (\<lambda>t. if sig = SIGKILL \<or> sig = SIGCONT then f t else t) s"
    "(if SIGSTOP \<le> sig \<and> sig \<le> SIGTTOU then upd_task p f s else s)
      = upd_task p (\<lambda>t. if SIGSTOP \<le> sig \<and> sig \<le> SIGTTOU then f t else t) s" for f s
    by (rule upd_task_if)+
  have comp: "upd_task p ?g (upd_task p ?c (upd_task p ?k s)) = upd_task p (deliver sig) s"
    by (simp only: upd_task_comp) (rule upd_task_cong, simp only: deliver_def Let_def False if_False)
  show ?thesis
    using assms False unfolding send_sig_def denied_def option.case Let_def gen steps comp by simp
qed

lemma deliver_frame [simp, frame_simps]:
  "next_task (deliver sig t) = next_task t" "prev_task (deliver sig t) = prev_task t"
  "p_pptr (deliver sig t) = p_pptr t" "p_cptr (deliver sig t) = p_cptr t" "p_opptr (deliver sig t) = p_opptr t"
  "p_ysptr (deliver sig t) = p_ysptr t" "p_osptr (deliver sig t) = p_osptr t" "pid (deliver sig t) = pid t"
  "pgrp (deliver sig t) = pgrp t" "session (deliver sig t) = session t" "leader (deliver sig t) = leader t"
  "uid (deliver sig t) = uid t" "euid (deliver sig t) = euid t" "blocked (deliver sig t) = blocked t"
  "flags (deliver sig t) = flags t" "sigactions (deliver sig t) = sigactions t" "counter (deliver sig t) = counter t"
  "priority (deliver sig t) = priority t" "exit_signal (deliver sig t) = exit_signal t"
  by (simp_all add: deliver_def Let_def)

lemma deliver_state:
  "state (deliver sig t) = (if (sig = SIGKILL \<or> sig = SIGCONT) \<and> state t = TASK_STOPPED then TASK_RUNNING else state t)"
  by (simp add: deliver_def Let_def)

lemma discards_frame [simp]:
  "discards (t\<lparr>state := x\<rparr>) sig = discards t sig" "discards (t\<lparr>exit_code := y\<rparr>) sig = discards t sig"
  "discards (t\<lparr>signal := z\<rparr>) sig = discards t sig"
  by (simp_all add: discards_def)

lemma bit_deliver:
  assumes "0 < sig"
  shows "bit (signal (deliver sig t)) k \<longleftrightarrow>
    (bit (signal t) k \<and> \<not> ((sig = SIGKILL \<or> sig = SIGCONT) \<and> (k = 18 \<or> k = 19 \<or> k = 20 \<or> k = 21))
      \<and> \<not> ((SIGSTOP \<le> sig \<and> sig \<le> SIGTTOU) \<and> k = 17))
    \<or> (\<not> discards t sig \<and> k = sig - 1 \<and> k < 32)"
proof -
  have sig: "signal (deliver sig t) =
     (((signal t AND (if sig = SIGKILL \<or> sig = SIGCONT
         then NOT (S_mask SIGSTOP OR S_mask SIGTSTP OR S_mask SIGTTIN OR S_mask SIGTTOU) else NOT 0))
       AND (if SIGSTOP \<le> sig \<and> sig \<le> SIGTTOU then NOT (S_mask SIGCONT) else NOT 0))
      OR (if discards t sig then 0 else S_mask sig))"
    using assms by (simp add: deliver_def Let_def)
  have b: "bit (signal t) k \<Longrightarrow> k < 32" using bit_imp_le_length [of "signal t" k] by simp
  show ?thesis
    unfolding sig or_bit and_bit
    by (cases "sig = SIGKILL \<or> sig = SIGCONT"; cases "SIGSTOP \<le> sig \<and> sig \<le> SIGTTOU"; cases "discards t sig")
      (use b in \<open>auto simp: bit_simps bit_S_mask\<close>)
qed

lemma deliver_pending:
  assumes "0 < sig" "sig \<le> 32" "0 < n"
  shows "pending (deliver sig t) n \<longleftrightarrow>
    (n = sig \<and> \<not> discards t sig)
    \<or> (pending t n \<and> \<not> (sig \<in> {SIGKILL, SIGCONT} \<and> n \<in> STOP_SIGS) \<and> \<not> (sig \<in> STOP_SIGS \<and> n = SIGCONT))"
proof -
  have k: "n - 1 = sig - 1 \<and> n - 1 < 32 \<longleftrightarrow> n = sig" using assms by auto
  have stop: "(n - 1 = 18 \<or> n - 1 = 19 \<or> n - 1 = 20 \<or> n - 1 = 21) \<longleftrightarrow> n \<in> STOP_SIGS"
    and cont: "n - 1 = 17 \<longleftrightarrow> n = SIGCONT"
    and ssig: "(SIGSTOP \<le> sig \<and> sig \<le> SIGTTOU) \<longleftrightarrow> sig \<in> STOP_SIGS"
    and kc: "(sig = SIGKILL \<or> sig = SIGCONT) \<longleftrightarrow> sig \<in> {SIGKILL, SIGCONT}"
    using assms(3) by auto
  show ?thesis
    unfolding pending_def bit_deliver [OF assms(1)] stop cont ssig kc k by blast
qed

lemma send_sig_bad: "sig > 32 \<Longrightarrow> send_sig sig (Some p) priv s = (- EINVAL, s)" "send_sig sig None priv s = (- EINVAL, s)"
  by (simp_all add: send_sig_def)

lemma send_sig_links: "same_links s (snd (send_sig sig po priv s))"
  by (cases po; cases "sig > 32") (auto simp: send_sig_bad send_sig_eq intro!: same_links_upd_task)

interpretation sending: link_preserving "\<lambda>s x. snd (send_sig sig (Some x) priv s)" for sig priv
  by unfold_locales (rule send_sig_links)

lemma denied_deliver [simp]: "denied sig q priv (upd_task p (deliver sig') s) = denied sig q priv s"
  by (simp add: denied_def suser_def tsk_upd_task)

section \<open>Signalling a group\<close>

definition delivered :: "(task_struct \<Rightarrow> bool) \<Rightarrow> nat \<Rightarrow> bool \<Rightarrow> tid list \<Rightarrow> kernel \<Rightarrow> kernel" where
  "delivered sel sig priv ps s =
     s\<lparr>tsk := \<lambda>t. if t \<in> set ps \<and> sel (tsk s t) \<and> \<not> denied sig t priv s then deliver sig (tsk s t) else tsk s t\<rparr>"

lemma delivered_Nil [simp]: "delivered sel sig priv [] s = s"
  by (simp add: delivered_def)

lemma delivered_Cons:
  assumes "p \<notin> set ps" and "\<And>t. sel (deliver sig t) = sel t"
  shows "delivered sel sig priv (p # ps) s =
    delivered sel sig priv ps (if sel (tsk s p) \<and> \<not> denied sig p priv s then upd_task p (deliver sig) s else s)"
proof (cases "sel (tsk s p) \<and> \<not> denied sig p priv s")
  case True
  let ?s = "upd_task p (deliver sig) s"
  have over: "?s\<lparr>tsk := f\<rparr> = s\<lparr>tsk := f\<rparr>" for f by (simp add: upd_task_def)
  have "delivered sel sig priv ps ?s = s\<lparr>tsk := \<lambda>t. if t \<in> set ps \<and> sel (tsk ?s t) \<and> \<not> denied sig t priv s
      then deliver sig (tsk ?s t) else tsk ?s t\<rparr>"
    unfolding delivered_def denied_deliver over ..
  also have "\<dots> = delivered sel sig priv (p # ps) s"
    unfolding delivered_def
    by (rule arg_cong [where f = "\<lambda>f. s\<lparr>tsk := f\<rparr>"]) (use True assms in \<open>auto simp: fun_eq_iff tsk_upd_task\<close>)
  finally show ?thesis using True by simp
next
  case False
  have "delivered sel sig priv (p # ps) s = delivered sel sig priv ps s"
    unfolding delivered_def
    by (rule arg_cong [where f = "\<lambda>f. s\<lparr>tsk := f\<rparr>"]) (use False in \<open>auto simp: fun_eq_iff\<close>)
  then show ?thesis using False by (simp only: if_False)
qed

lemma kill_fold:
  assumes "sig \<le> 32" and "distinct ps" and sel: "\<And>t. sel (deliver sig t) = sel t"
  shows "foldl (kill_step sel sig priv) (r, n, s) ps =
    (if \<exists>p\<in>set ps. sel (tsk s p) \<and> denied sig p priv s then - EPERM else r,
     n + length (filter (\<lambda>p. sel (tsk s p) \<and> \<not> denied sig p priv s) ps),
     delivered sel sig priv ps s)"
  using assms(2)
proof (induction ps arbitrary: r n s)
  case Nil
  then show ?case by simp
next
  case (Cons p ps)
  show ?case
  proof (cases "sel (tsk s p) \<and> \<not> denied sig p priv s")
    case True
    let ?s = "upd_task p (deliver sig) s"
    have same: "sel (tsk ?s q) = sel (tsk s q)" for q by (simp add: tsk_upd_task sel)
    have "kill_step sel sig priv (r, n, s) p = (r, Suc n, ?s)"
      using True assms(1) by (simp add: kill_step_def send_sig_eq)
    then show ?thesis
      using True Cons by (simp add: same delivered_Cons [where sel = sel, OF _ sel])
  next
    case False
    then show ?thesis
      using assms(1) Cons by (auto simp: kill_step_def send_sig_eq delivered_Cons [where sel = sel, OF _ sel])
  qed
qed

lemma kill_loop_eq:
  assumes "ring_ok s ps" and "sig \<le> 32" and "\<And>t. sel (deliver sig t) = sel t"
  shows "kill_loop sel sig priv s =
    Some (if \<exists>p\<in>set ps. sel (tsk s p) \<and> \<not> denied sig p priv s then 0
          else if \<exists>p\<in>set ps. sel (tsk s p) then - EPERM else - ESRCH,
          delivered sel sig priv ps s)"
proof -
  have d: "distinct ps" using assms(1) by (simp add: ring_ok_def)
  show ?thesis
    using for_each_task_ring [OF assms(1)] kill_fold [where sel = sel, OF assms(2) d assms(3), of priv "- ESRCH" 0 s]
    by (auto simp: kill_loop_def filter_empty_conv)
qed

lemma delivered_links: "same_links s (delivered sel sig priv ps s)"
  by (simp add: same_links_def delivered_def)

text \<open>Signalling and waking change neither links nor queues, and a zombie stays a zombie.\<close>

definition quiet :: "kernel \<Rightarrow> kernel \<Rightarrow> bool" where
  "quiet s s' \<longleftrightarrow> same_links s s' \<and> wqh s' = wqh s \<and> wqe s' = wqe s
     \<and> (\<forall>t. state (tsk s t) = TASK_ZOMBIE \<longrightarrow> state (tsk s' t) = TASK_ZOMBIE)"

lemma quiet_refl [simp, intro]: "quiet s s"
  by (simp add: quiet_def)

lemma quiet_trans: "quiet s s' \<Longrightarrow> quiet s' s'' \<Longrightarrow> quiet s s''"
  by (auto simp: quiet_def intro: same_links_trans)

lemma quiet_links: "quiet s s' \<Longrightarrow> same_links s s'"
  by (simp add: quiet_def)

lemma quiet_send_sig: "quiet s (snd (send_sig sig po priv s))"
  by (cases po; cases "sig > 32")
    (auto simp: quiet_def send_sig_bad send_sig_eq tsk_upd_task deliver_state intro!: same_links_upd_task)

lemma quiet_wake: "TASK_ZOMBIE \<notin> sts \<Longrightarrow> quiet s (foldl (wake_entry sts) s ws)"
proof (induction ws arbitrary: s)
  case (Cons w ws)
  have "quiet s (wake_entry sts s w)"
    using Cons.prems wake.step_links by (auto simp: quiet_def wake_entry_state)
  then show ?case using quiet_trans [OF _ Cons.IH [OF Cons.prems]] by simp
qed simp

lemma quiet_delivered: "quiet s (delivered sel sig priv ps s)"
  using delivered_links by (auto simp: quiet_def delivered_def deliver_state)

lemma kill_loop_some:
  assumes "ring_ok s ps" and "sig \<le> 32" and "\<And>t. sel (deliver sig t) = sel t"
  shows "\<exists>r s'. kill_loop sel sig priv s = Some (r, s') \<and> quiet s s'"
  using kill_loop_eq [where sel = sel, OF assms, of priv] quiet_delivered [of s sel sig priv ps] by auto

lemma kill_pg_some:
  assumes "ring_ok s ps"
  shows "\<exists>r s'. kill_pg pg sig priv s = Some (r, s') \<and> quiet s s'"
proof (cases "sig < 0 \<or> sig > 32 \<or> pg \<le> 0")
  case False
  then show ?thesis
    using kill_loop_some [where sel = "\<lambda>t. pgrp t = pg", OF assms, of "nat sig" priv] by (auto simp: kill_pg_def)
qed (simp add: kill_pg_def)

text \<open>\<^verbatim>\<open>notify_parent\<close> returns whenever the parent's queue of waiting processes is well formed.\<close>

lemma notify_parent_some:
  assumes ring: "wq_ring s (Chldexit (p_pptr (tsk s t))) ws"
  shows "\<exists>s'. notify_parent t s = Some s' \<and> quiet s s'"
proof -
  let ?q = "p_pptr (tsk s t)"
  let ?s1 = "if Some ?q = task s 1 then upd_task t (\<lambda>x. x\<lparr>exit_signal := int SIGCHLD\<rparr>) s else s"
  let ?s2 = "snd (send_sig (unat (to_u32 (exit_signal (tsk ?s1 t)))) (Some ?q) True ?s1)"
  let ?s3 = "foldl (wake_entry {TASK_INTERRUPTIBLE}) ?s2 ws"
  have q1: "quiet s ?s1" by (auto simp: quiet_def tsk_upd_task intro!: same_links_upd_task)
  have q2: "quiet s ?s2" by (rule quiet_trans [OF q1 quiet_send_sig])
  have "wq_ring ?s2 (Chldexit ?q) ws" using ring q2 unfolding wq_ring_def quiet_def by metis
  then have "notify_parent t s = Some ?s3"
    unfolding notify_parent_def Let_def by (rule wake_up_interruptible_ring)
  moreover have "quiet s ?s3"
    by (rule quiet_trans [OF q2 quiet_wake]) simp
  ultimately show ?thesis by blast
qed

end
