(* ===== verification/Exit_Wait.thy ===== *)
theory Exit_Wait
  imports Signals
begin

text \<open>
  Process termination: \<^verbatim>\<open>kernel/exit.c\<close> from \<^verbatim>\<open>session_of_pgrp\<close> to \<^verbatim>\<open>sys_exit\<close>.  \<^verbatim>\<open>do_exit\<close> is modelled up to its final call of
  \<^verbatim>\<open>schedule()\<close>; what it asks of the other subsystems (semaphores, shared memory, page tables, files,
  inodes, the controlling terminal) are the parameters \<^verbatim>\<open>drop_ipc_files\<close>, \<^verbatim>\<open>drop_fs_mm\<close> and
  \<^verbatim>\<open>disassociate_ctty\<close>.  The \<^verbatim>\<open>wait\<close> family is in the theory \<^verbatim>\<open>Wait_Calls\<close>.
\<close>

section \<open>Process groups and sessions\<close>

fun session_scan :: "kernel \<Rightarrow> int \<Rightarrow> int \<Rightarrow> tid list \<Rightarrow> int" where
  "session_scan s pg fallback [] = fallback"
| "session_scan s pg fallback (p # ps) =
     (if session (tsk s p) \<le> 0 then session_scan s pg fallback ps
      else if pgrp (tsk s p) = pg then session (tsk s p)
      else session_scan s pg (if pid (tsk s p) = pg then session (tsk s p) else fallback) ps)"

definition session_of_pgrp :: "int \<Rightarrow> kernel \<Rightarrow> int option" where
  "session_of_pgrp pg s = do { ps \<leftarrow> for_each_task s; Some (session_scan s pg (-1) ps) }"

definition is_orphaned_pgrp :: "int \<Rightarrow> kernel \<Rightarrow> bool option" where
  "is_orphaned_pgrp pg s =
     do { ps \<leftarrow> for_each_task s;
          Some (list_all (\<lambda>p. (pgrp (tsk s p) \<noteq> pg \<or> state (tsk s p) = TASK_ZOMBIE
                                \<or> pid (tsk s (p_pptr (tsk s p))) = 1)
                    \<or> \<not> (pgrp (tsk s (p_pptr (tsk s p))) \<noteq> pg
                         \<and> session (tsk s (p_pptr (tsk s p))) = session (tsk s p))) ps) }"

definition has_stopped_jobs :: "int \<Rightarrow> kernel \<Rightarrow> bool option" where
  "has_stopped_jobs pg s =
     do { ps \<leftarrow> for_each_task s;
          Some (list_ex (\<lambda>p. pgrp (tsk s p) = pg \<and> state (tsk s p) = TASK_STOPPED) ps) }"

section \<open>Exiting\<close>

text \<open>The task that inherits orphans: \<^verbatim>\<open>task[1]\<close>, or \<^verbatim>\<open>task[0]\<close> when there is none.\<close>

definition reaper_or_init :: "kernel \<Rightarrow> tid" where
  "reaper_or_init s = (case task s 1 of Some t \<Rightarrow> t | None \<Rightarrow> the (task s 0))"

definition forget_step :: "tid \<Rightarrow> kernel \<Rightarrow> tid \<Rightarrow> kernel" where
  "forget_step father s p =
     (if p_opptr (tsk s p) = father
      then upd_task p (\<lambda>t. t\<lparr>p_opptr := reaper_or_init s\<rparr>) s else s)"

definition forget_original_parent :: "tid \<Rightarrow> kernel \<Rightarrow> kernel option" where
  "forget_original_parent father s =
     do { ps \<leftarrow> for_each_task s; Some (foldl (forget_step father) s ps) }"

text \<open>The check made twice by \<^verbatim>\<open>do_exit\<close>: a process group that just became orphaned and has stopped
  members gets SIGHUP and SIGCONT.  The first two conditions are the caller's.\<close>

definition orphan_check :: "bool \<Rightarrow> int \<Rightarrow> kernel \<Rightarrow> kernel option" where
  "orphan_check cond pg s =
     (if \<not> cond then Some s
      else do { orphaned \<leftarrow> is_orphaned_pgrp pg s;
                if \<not> orphaned then Some s
                else do { stopped \<leftarrow> has_stopped_jobs pg s;
                          if \<not> stopped then Some s
                          else do { r1 \<leftarrow> kill_pg pg (int SIGHUP) True s;
                                    r2 \<leftarrow> kill_pg pg (int SIGCONT) True (snd r1);
                                    Some (snd r2) } } })"

text \<open>The body of the reparenting loop.  \<^verbatim>\<open>None\<close> where the new parent has no child: the code then writes
  through the NULL pointer \<^verbatim>\<open>p->p_osptr\<close>.\<close>

definition new_parent :: "kernel \<Rightarrow> tid" where
  "new_parent s = (if task s 1 \<noteq> None \<and> task s 1 \<noteq> Some (current s) then the (task s 1) else the (task s 0))"

definition reparent_links :: "tid \<Rightarrow> kernel \<Rightarrow> kernel option" where
  "reparent_links p s =
    (let s = upd_task (current s) (\<lambda>t. t\<lparr>p_cptr := p_osptr (tsk s p)\<rparr>) s;
         s = upd_task p (\<lambda>t. t\<lparr>p_ysptr := None\<rparr>) s;
         s = upd_task p (\<lambda>t. t\<lparr>flags := flags t AND NOT (PF_PTRACED OR PF_TRACESYS)\<rparr>) s;
         s = upd_task p (\<lambda>t. t\<lparr>p_pptr := new_parent s\<rparr>) s;
         s = upd_task p (\<lambda>t. t\<lparr>p_osptr := p_cptr (tsk s (p_pptr (tsk s p)))\<rparr>) s
     in case p_osptr (tsk s p) of
          None \<Rightarrow> None
        | Some b \<Rightarrow>
            let s = upd_task b (\<lambda>t. t\<lparr>p_ysptr := Some p\<rparr>) s
            in Some (upd_task (p_pptr (tsk s p)) (\<lambda>t. t\<lparr>p_cptr := Some p\<rparr>) s))"

definition reparent_step :: "tid \<Rightarrow> kernel \<Rightarrow> kernel option" where
  "reparent_step p s =
     do { s \<leftarrow> reparent_links p s;
          s \<leftarrow> (if state (tsk s p) = TASK_ZOMBIE then notify_parent p s else Some s);
          orphan_check (pgrp (tsk s p) \<noteq> pgrp (cur s) \<and> session (tsk s p) = session (cur s)) (pgrp (tsk s p)) s }"

partial_function (option) reparent_loop :: "kernel \<Rightarrow> kernel option" where
  "reparent_loop s =
     (case p_cptr (cur s) of
        None \<Rightarrow> Some s
      | Some p \<Rightarrow> Option.bind (reparent_step p s) reparent_loop)"

definition do_exit ::
  "(kernel \<Rightarrow> kernel) \<Rightarrow> (kernel \<Rightarrow> kernel) \<Rightarrow> (kernel \<Rightarrow> kernel) \<Rightarrow> int \<Rightarrow> kernel \<Rightarrow> (audit_warning list \<times> kernel) option" where
  "do_exit drop_ipc_files drop_fs_mm disassociate_ctty code s =
     do { s \<leftarrow> forget_original_parent (current s) (drop_ipc_files s);
          let s = drop_fs_mm s;
          let s = upd_task (current s) (\<lambda>t. t\<lparr>state := TASK_ZOMBIE, exit_code := code, rss := 0\<rparr>) s;
          let par = tsk s (p_pptr (cur s));
          s \<leftarrow> orphan_check (pgrp par \<noteq> pgrp (cur s) \<and> session par = session (cur s)) (pgrp (cur s)) s;
          s \<leftarrow> notify_parent (current s) s;
          s \<leftarrow> reparent_loop s;
          let s = (if leader (cur s) then disassociate_ctty s else s);
          let s = (if last_task_used_math s = Some (current s) then s\<lparr>last_task_used_math := None\<rparr> else s);
          ws \<leftarrow> audit_ptree s;
          Some (ws, s) }"

text \<open>\<^verbatim>\<open>sys_exit\<close>: the exit status is the low byte of the argument, in the second byte of the code.\<close>

definition exit_status :: "int \<Rightarrow> int" where
  "exit_status error_code = push_bit 8 (error_code AND 0xff)"

definition sys_exit :: "(kernel \<Rightarrow> kernel) \<Rightarrow> (kernel \<Rightarrow> kernel) \<Rightarrow> (kernel \<Rightarrow> kernel) \<Rightarrow> int \<Rightarrow> kernel \<Rightarrow> (audit_warning list \<times> kernel) option" where
  "sys_exit drop_ipc_files drop_fs_mm disassociate_ctty error_code s =
     do_exit drop_ipc_files drop_fs_mm disassociate_ctty (exit_status error_code) s"

section \<open>Reparenting keeps the tree\<close>

text \<open>While the loop runs, the youngest remaining child of the exiting task still has its stale
  \<^verbatim>\<open>p_ysptr\<close>; the tree is otherwise consistent.\<close>

definition moving_ok :: "kernel \<Rightarrow> tid \<Rightarrow> (tid \<Rightarrow> tid list) \<Rightarrow> bool" where
  "moving_ok s c ch \<longleftrightarrow>
     (\<forall>q. live s q \<longrightarrow> p_cptr (tsk s q) = opt_hd (ch q) \<and> distinct (ch q)
        \<and> (if q = c then \<exists>y. sib_chain (tsk s) y (ch q) else sib_chain (tsk s) None (ch q))
        \<and> set (ch q) = {t. live s t \<and> t \<noteq> init_task \<and> p_pptr (tsk s t) = q})
     \<and> (\<forall>t. live s t \<longrightarrow> live s (p_pptr (tsk s t)))
     \<and> (\<forall>t. live s t \<longrightarrow> t \<noteq> init_task \<longrightarrow> p_pptr (tsk s t) \<noteq> t)
     \<and> p_pptr (tsk s init_task) = init_task
     \<and> p_ysptr (tsk s init_task) = None \<and> p_osptr (tsk s init_task) = None"

lemma tree_ok_moving:
  assumes "tree_ok s ch"
  shows "moving_ok s c ch"
  unfolding moving_ok_def
proof (intro conjI allI impI)
  fix q
  assume q: "live s q"
  note cl = tree_ok_child [OF assms q, unfolded child_list_def]
  show "p_cptr (tsk s q) = opt_hd (ch q)" "distinct (ch q)"
    "if q = c then \<exists>y. sib_chain (tsk s) y (ch q) else sib_chain (tsk s) None (ch q)"
    using cl by auto
  show "set (ch q) = {t. live s t \<and> t \<noteq> init_task \<and> p_pptr (tsk s t) = q}"
    using assms q by (simp add: tree_ok_def)
qed (use assms in \<open>simp_all add: tree_ok_def\<close>)

lemma moving_ok_mem:
  assumes "moving_ok s c ch" and "live s q"
  shows "t \<in> set (ch q) \<longleftrightarrow> live s t \<and> t \<noteq> init_task \<and> p_pptr (tsk s t) = q"
proof -
  have "set (ch q) = {t. live s t \<and> t \<noteq> init_task \<and> p_pptr (tsk s t) = q}"
    using assms by (simp add: moving_ok_def)
  then show ?thesis by simp
qed

lemma moving_ok_done:
  assumes "moving_ok s c ch" and "ch c = []"
  shows "tree_ok s ch"
proof -
  have "child_list s q (ch q)" if "live s q" for q
  proof -
    have "\<forall>t\<in>set (ch q). p_pptr (tsk s t) = q"
      using moving_ok_mem [OF assms(1) that] by simp
    then show ?thesis
      using assms that by (cases "q = c") (simp_all add: moving_ok_def child_list_def)
  qed
  then show ?thesis using assms(1) by (simp add: tree_ok_def moving_ok_def)
qed

lemma moving_ok_same_links: "same_links s s' \<Longrightarrow> moving_ok s' c ch = moving_ok s c ch"
  using sib_chain_cong [of _ "tsk s'" "tsk s"] live_same_links [of s s']
  unfolding moving_ok_def by (simp add: same_links_def)

lemma reparent_links_eq:
  assumes "new_parent s = r" and "r \<noteq> current s" and "p_cptr (tsk s r) = Some b"
  shows "\<exists>s'. reparent_links p s = Some s'
    \<and> (\<forall>u. p_pptr (tsk s' u) = (if u = p then r else p_pptr (tsk s u))
       \<and> p_cptr (tsk s' u) = (if u = r then Some p else if u = current s then p_osptr (tsk s p) else p_cptr (tsk s u))
       \<and> p_ysptr (tsk s' u) = (if u = b then Some p else if u = p then None else p_ysptr (tsk s u))
       \<and> p_osptr (tsk s' u) = (if u = p then Some b else p_osptr (tsk s u))
       \<and> next_task (tsk s' u) = next_task (tsk s u) \<and> prev_task (tsk s' u) = prev_task (tsk s u)
       \<and> pid (tsk s' u) = pid (tsk s u) \<and> state (tsk s' u) = state (tsk s u))
    \<and> task s' = task s \<and> current s' = current s \<and> wqh s' = wqh s \<and> wqe s' = wqe s"
proof -
  have np: "new_parent (upd_task q f s) = new_parent s" for q f s by (simp add: new_parent_def)
  let ?s = "upd_task r (\<lambda>t. t\<lparr>p_cptr := Some p\<rparr>) (upd_task b (\<lambda>t. t\<lparr>p_ysptr := Some p\<rparr>)
    (upd_task p (\<lambda>t. t\<lparr>p_osptr := Some b\<rparr>) (upd_task p (\<lambda>t. t\<lparr>p_pptr := r\<rparr>)
    (upd_task p (\<lambda>t. t\<lparr>flags := flags t AND NOT (PF_PTRACED OR PF_TRACESYS)\<rparr>)
    (upd_task p (\<lambda>t. t\<lparr>p_ysptr := None\<rparr>) (upd_task (current s) (\<lambda>t. t\<lparr>p_cptr := p_osptr (tsk s p)\<rparr>) s))))))"
  have "reparent_links p s = Some ?s"
    using assms by (simp add: reparent_links_def Let_def link_simps np)
  then show ?thesis
    by (intro exI [of _ ?s]) (simp add: link_simps upd_task_other [where g = pid] upd_task_other [where g = state])
qed

lemma moving_step:
  assumes ok: "moving_ok s c ch" and c: "c = current s" "live s c" and p: "ch c = p # cs"
    and r: "new_parent s = r" "live s r" "r \<noteq> c" "r \<notin> set (ch c)" "ch r \<noteq> []"
  shows "\<exists>s'. reparent_links p s = Some s' \<and> moving_ok s' c (ch(c := cs, r := p # ch r))
    \<and> (\<forall>u. next_task (tsk s' u) = next_task (tsk s u) \<and> prev_task (tsk s' u) = prev_task (tsk s u)
       \<and> state (tsk s' u) = state (tsk s u))
    \<and> task s' = task s \<and> current s' = current s \<and> wqh s' = wqh s \<and> wqe s' = wqe s"
proof -
  obtain b bs where b: "ch r = b # bs" using r(5) by (cases "ch r") auto
  have mem: "t \<in> set (ch q) \<longleftrightarrow> live s t \<and> t \<noteq> init_task \<and> p_pptr (tsk s t) = q" if "live s q" for q t
    by (rule moving_ok_mem [OF ok that])
  have cp: "p_cptr (tsk s q) = opt_hd (ch q)" "distinct (ch q)" if "live s q" for q
    using ok that by (simp_all add: moving_ok_def)
  have bin: "p_cptr (tsk s r) = Some b" using cp(1) [OF r(2)] b by simp
  have pp: "p_pptr (tsk s p) = c" "live s p" "p \<noteq> init_task" using mem [OF c(2), of p] p by auto
  have pb: "p_pptr (tsk s b) = r" "b \<noteq> init_task" using mem [OF r(2), of b] b by auto
  have ne: "b \<noteq> p" "p \<noteq> r" using pp pb r p by auto
  have rc: "r \<noteq> current s" using r(3) c(1) by simp
  obtain s' where s': "reparent_links p s = Some s'"
    and all: "\<forall>u. p_pptr (tsk s' u) = (if u = p then r else p_pptr (tsk s u))
       \<and> p_cptr (tsk s' u) = (if u = r then Some p else if u = current s then p_osptr (tsk s p) else p_cptr (tsk s u))
       \<and> p_ysptr (tsk s' u) = (if u = b then Some p else if u = p then None else p_ysptr (tsk s u))
       \<and> p_osptr (tsk s' u) = (if u = p then Some b else p_osptr (tsk s u))
       \<and> next_task (tsk s' u) = next_task (tsk s u) \<and> prev_task (tsk s' u) = prev_task (tsk s u)
       \<and> pid (tsk s' u) = pid (tsk s u) \<and> state (tsk s' u) = state (tsk s u)"
    and g: "task s' = task s" "current s' = current s" "wqh s' = wqh s" "wqe s' = wqe s"
    using reparent_links_eq [OF r(1) rc bin, of p] by blast
  have f: "p_pptr (tsk s' u) = (if u = p then r else p_pptr (tsk s u))"
      "p_cptr (tsk s' u) = (if u = r then Some p else if u = current s then p_osptr (tsk s p) else p_cptr (tsk s u))"
      "p_ysptr (tsk s' u) = (if u = b then Some p else if u = p then None else p_ysptr (tsk s u))"
      "p_osptr (tsk s' u) = (if u = p then Some b else p_osptr (tsk s u))" for u
    using all by blast+
  have live: "live s' t = live s t" for t by (simp add: live_def g)
  have sibc: "sib_chain (tsk s) y (p # cs) \<Longrightarrow> p_osptr (tsk s p) = opt_hd cs" for y by simp
  obtain y where yc: "sib_chain (tsk s) y (p # cs)"
  proof -
    have "\<exists>y. sib_chain (tsk s) y (ch c)" using ok c(2) by (simp add: moving_ok_def)
    then show ?thesis using that by (auto simp only: p)
  qed
  have rch: "sib_chain (tsk s) None (b # bs)"
  proof -
    have "sib_chain (tsk s) None (ch r)" using ok r(2,3) by (simp add: moving_ok_def)
    then show ?thesis by (simp only: b)
  qed
  have chain_r: "sib_chain (tsk s') None (p # b # bs)"
  proof -
    have "sib_chain (tsk s') (Some b) bs = sib_chain (tsk s) (Some b) bs"
    proof (rule sib_chain_cong)
      fix x
      assume x: "x \<in> set bs"
      have "x \<noteq> b" using cp(2) [OF r(2)] b x by auto
      moreover have "x \<noteq> p" using mem [OF r(2), of x] b x pp r by auto
      ultimately show "p_ysptr (tsk s' x) = p_ysptr (tsk s x) \<and> p_osptr (tsk s' x) = p_osptr (tsk s x)"
        by (simp add: f)
    qed
    then show ?thesis using rch ne by (simp add: f)
  qed
  have chain_c: "sib_chain (tsk s') (Some p) cs"
  proof -
    have "sib_chain (tsk s') (Some p) cs = sib_chain (tsk s) (Some p) cs"
    proof (rule sib_chain_cong)
      fix x
      assume x: "x \<in> set cs"
      have "x \<noteq> p" using cp(2) [OF c(2)] p x by auto
      moreover have "x \<noteq> b" using mem [OF c(2), of x] p x pb r by auto
      ultimately show "p_ysptr (tsk s' x) = p_ysptr (tsk s x) \<and> p_osptr (tsk s' x) = p_osptr (tsk s x)"
        by (simp add: f)
    qed
    then show ?thesis using yc by simp
  qed
  have chain_o: "sib_chain (tsk s') None (ch q)" if q: "live s q" "q \<noteq> c" "q \<noteq> r" for q
  proof -
    have "sib_chain (tsk s') None (ch q) = sib_chain (tsk s) None (ch q)"
    proof (rule sib_chain_cong)
      fix x
      assume "x \<in> set (ch q)"
      then have "p_pptr (tsk s x) = q" using mem [OF q(1)] by auto
      then have "x \<noteq> p" "x \<noteq> b" using q pp pb by auto
      then show "p_ysptr (tsk s' x) = p_ysptr (tsk s x) \<and> p_osptr (tsk s' x) = p_osptr (tsk s x)"
        by (simp add: f)
    qed
    then show ?thesis using ok q by (simp add: moving_ok_def)
  qed
  let ?ch = "ch(c := cs, r := p # ch r)"
  have sets: "set (?ch q) = {t. live s t \<and> t \<noteq> init_task \<and> p_pptr (tsk s' t) = q}" if q: "live s q" for q
  proof -
    have base: "set (ch q') = {t. live s t \<and> t \<noteq> init_task \<and> p_pptr (tsk s t) = q'}" if "live s q'" for q'
      using ok that by (simp add: moving_ok_def)
    have "p \<notin> set cs" using cp(2) [OF c(2)] p by simp
    then show ?thesis
      using base [OF q] base [OF c(2)] base [OF r(2)] p pp r(3) unfolding f
      by (cases "q = c"; cases "q = r") auto
  qed
  have dists: "distinct (?ch q)" if "live s q" for q
    using cp(2) [OF that] cp(2) [OF c(2)] p mem [OF r(2), of p] pp r(2,3) cp(2) [OF r(2)] by auto
  have heads: "p_cptr (tsk s' q) = opt_hd (?ch q)" if "live s q" for q
    using cp(1) [OF that] yc c(1) r(3) by (auto simp: f)
  have "moving_ok s' c ?ch"
    unfolding moving_ok_def live
    using sets dists heads chain_r chain_c chain_o ok pp pb r(2,3) b ne
    by (auto simp: moving_ok_def f)
  then show ?thesis using s' g all by blast
qed

text \<open>Nothing else in the loop body touches the links, and all of it returns.\<close>

lemma orphan_check_some:
  assumes ring: "ring_ok s ps"
  shows "\<exists>s'. orphan_check c pg s = Some s' \<and> quiet s s'"
proof -
  note tasks = for_each_task_ring [OF ring]
  obtain r1 s1 where k1: "kill_pg pg (int SIGHUP) True s = Some (r1, s1)" "quiet s s1"
    using kill_pg_some [OF ring] by blast
  then have "ring_ok s1 ps" using ring ring_ok_same_links quiet_links by blast
  then obtain r2 s2 where k2: "kill_pg pg (int SIGCONT) True s1 = Some (r2, s2)" "quiet s1 s2"
    using kill_pg_some by blast
  then have "quiet s s2" using k1 quiet_trans by blast
  then show ?thesis
    using k1 k2 by (auto simp: orphan_check_def is_orphaned_pgrp_def has_stopped_jobs_def tasks)
qed

definition chldexit_ok :: "kernel \<Rightarrow> bool" where
  "chldexit_ok s \<longleftrightarrow> (\<forall>t. \<exists>ws. wq_ring s (Chldexit t) ws)"

lemma chldexit_ok_cong: "wqh s' = wqh s \<Longrightarrow> wqe s' = wqe s \<Longrightarrow> chldexit_ok s' = chldexit_ok s"
  by (simp add: chldexit_ok_def wq_ring_def)

lemma notify_parent_ok:
  assumes "chldexit_ok s"
  shows "\<exists>s'. notify_parent t s = Some s' \<and> quiet s s'"
  using assms notify_parent_some unfolding chldexit_ok_def by blast

lemma new_parent_cong: "task s' = task s \<Longrightarrow> current s' = current s \<Longrightarrow> new_parent s' = new_parent s"
  by (simp add: new_parent_def)

lemma reparent_step_ok:
  assumes ok: "moving_ok s c ch" and c: "c = current s" "live s c" and p: "ch c = p # cs"
    and r: "new_parent s = r" "live s r" "r \<noteq> c" "r \<notin> set (ch c)" "ch r \<noteq> []"
    and ring: "ring_ok s ps" and wq: "chldexit_ok s" and z: "state (tsk s c) = TASK_ZOMBIE"
  shows "\<exists>s'. reparent_step p s = Some s' \<and> moving_ok s' c (ch(c := cs, r := p # ch r))
    \<and> task s' = task s \<and> current s' = current s \<and> ring_ok s' ps \<and> chldexit_ok s' \<and> state (tsk s' c) = TASK_ZOMBIE"
proof -
  obtain s1 where s1: "reparent_links p s = Some s1" and m1: "moving_ok s1 c (ch(c := cs, r := p # ch r))"
    and n1: "\<forall>u. next_task (tsk s1 u) = next_task (tsk s u) \<and> prev_task (tsk s1 u) = prev_task (tsk s u)
      \<and> state (tsk s1 u) = state (tsk s u)"
    and g1: "task s1 = task s" "current s1 = current s" "wqh s1 = wqh s" "wqe s1 = wqe s"
    using moving_step [OF ok c p r] by blast
  have r1: "ring_ok s1 ps" using ring n1 dlinked_cong [of _ "tsk s1" "tsk s"] by (simp add: ring_ok_def)
  have w1: "chldexit_ok s1" using wq g1 chldexit_ok_cong by blast
  obtain s2 where s2: "(if state (tsk s1 p) = TASK_ZOMBIE then notify_parent p s1 else Some s1) = Some s2"
    and l2: "quiet s1 s2"
    using notify_parent_ok [OF w1, of p] by (cases "state (tsk s1 p) = TASK_ZOMBIE") auto
  have r2: "ring_ok s2 ps" using r1 ring_ok_same_links [OF quiet_links [OF l2]] by blast
  obtain s3 where s3: "orphan_check (pgrp (tsk s2 p) \<noteq> pgrp (cur s2) \<and> session (tsk s2 p) = session (cur s2)) (pgrp (tsk s2 p)) s2 = Some s3"
    and l3: "quiet s2 s3"
    using orphan_check_some [OF r2] by blast
  have q: "quiet s1 s3" and l: "same_links s1 s3" using l2 l3 quiet_trans quiet_links by blast+
  have "reparent_step p s = Some s3" unfolding reparent_step_def by (simp add: s1 s2 s3)
  moreover have "moving_ok s3 c (ch(c := cs, r := p # ch r))" using m1 moving_ok_same_links [OF l] by blast
  moreover have "task s3 = task s" "current s3 = current s" using l g1 by (simp_all add: same_links_def)
  moreover have "ring_ok s3 ps" using r1 ring_ok_same_links [OF l] by blast
  moreover have "chldexit_ok s3" using w1 q chldexit_ok_cong [of s3 s1] by (simp add: quiet_def)
  moreover have "state (tsk s3 c) = TASK_ZOMBIE" using z n1 q by (simp add: quiet_def)
  ultimately show ?thesis by blast
qed

text \<open>The loop ends, and moves the exiting task's children, youngest first, in front of the children
  of the new parent.\<close>

lemma reparent_loop_ok:
  assumes "moving_ok s c ch" and "c = current s" "live s c" and "ch c = cs"
    and "new_parent s = r" "live s r" "r \<noteq> c" "r \<notin> set (ch c)" "ch r \<noteq> []"
    and "ring_ok s ps" and "chldexit_ok s" and "state (tsk s c) = TASK_ZOMBIE"
  shows "\<exists>s'. reparent_loop s = Some s' \<and> tree_ok s' (ch(c := [], r := rev cs @ ch r))
    \<and> task s' = task s \<and> current s' = current s \<and> ring_ok s' ps \<and> state (tsk s' c) = TASK_ZOMBIE"
  using assms
proof (induction cs arbitrary: s ch)
  case Nil
  have "p_cptr (cur s) = None" using Nil.prems by (simp add: moving_ok_def)
  then have "reparent_loop s = Some s" by (simp add: reparent_loop.simps [of s])
  moreover have "tree_ok s ch" using moving_ok_done Nil.prems by blast
  moreover have "ch(c := [], r := rev [] @ ch r) = ch" using Nil.prems(4) by auto
  ultimately show ?case using Nil.prems by metis
next
  case (Cons p cs)
  obtain s1 where s1: "reparent_step p s = Some s1" "moving_ok s1 c (ch(c := cs, r := p # ch r))"
    "task s1 = task s" "current s1 = current s" "ring_ok s1 ps" "chldexit_ok s1" "state (tsk s1 c) = TASK_ZOMBIE"
    using reparent_step_ok [OF Cons.prems] by blast
  let ?ch = "ch(c := cs, r := p # ch r)"
  have np: "new_parent s1 = r" using new_parent_cong [of s1 s] s1 Cons.prems by simp
  have lv: "live s1 t = live s t" for t by (simp add: live_def s1)
  have side: "c = current s1" "live s1 c" "?ch c = cs" "live s1 r" "r \<notin> set (?ch c)" "?ch r \<noteq> []"
    using Cons.prems s1 lv by auto
  obtain s' where s': "reparent_loop s1 = Some s'" "tree_ok s' (?ch(c := [], r := rev cs @ ?ch r))"
    "task s' = task s1" "current s' = current s1" "ring_ok s' ps" "state (tsk s' c) = TASK_ZOMBIE"
    using Cons.IH [OF s1(2) side(1-3) np side(4) Cons.prems(7) side(5,6) s1(5-7)] by blast
  have "p_cptr (cur s) = Some p" using Cons.prems by (simp add: moving_ok_def)
  then have "reparent_loop s = Some s'" using s1(1) s'(1) by (simp add: reparent_loop.simps [of s])
  moreover have "?ch(c := [], r := rev cs @ ?ch r) = ch(c := [], r := rev (p # cs) @ ch r)"
    using Cons.prems(7) by (auto simp: fun_eq_iff)
  ultimately show ?case using s' s1 by metis
qed

section \<open>Exiting keeps the process table\<close>

lemma quiet_forget: "quiet s (foldl (forget_step father) s ps)"
proof (induction ps arbitrary: s)
  case (Cons p ps)
  have "quiet s (forget_step father s p)"
    by (auto simp: forget_step_def quiet_def tsk_upd_task intro!: same_links_upd_task)
  then show ?case using quiet_trans [OF _ Cons.IH] by simp
qed simp

lemma new_parent_live:
  assumes "slots_ok s" and "current s \<noteq> init_task"
  shows "live s (new_parent s)" and "new_parent s \<noteq> current s"
  using assms by (auto simp: slots_ok_def new_parent_def live_iff intro: exI [of _ 0] exI [of _ 1])

lemma audit_ptree_silent: "ptable_ok s ps ch \<Longrightarrow> audit_ptree s = Some []"
proof -
  assume ok: "ptable_ok s ps ch"
  have "audit_task s p = Some []" if i: "0 < i" "i < NR_TASKS" "task s i = Some p" for i p
  proof -
    have slots: "slots_ok s" using ok by (simp add: ptable_ok_def)
    have "live s p" using i live_iff by blast
    moreover have "p \<noteq> init_task"
      using slots i unfolding slots_ok_def
      by (metis less_numeral_extra(3) option.distinct(1) zero_less_numeral)
    ultimately show ?thesis
      using ok tree_ok_consistent audit_task_silent by (auto simp: ptable_ok_def)
  qed
  then show ?thesis by (auto simp: audit_ptree_def audit_slots_silent)
qed

lemma ptable_ok_retree:
  assumes "ptable_ok s ps ch" and "task s' = task s" and "ring_ok s' ps" and "tree_ok s' ch'"
  shows "ptable_ok s' ps ch'"
proof -
  have "slots_ok s' = slots_ok s" "\<And>t. live s' t = live s t"
    by (simp_all only: slots_ok_def live_def assms(2))
  then show ?thesis using assms by (simp add: ptable_ok_def)
qed

lemma same_links_math [simp]: "same_links s (s'\<lparr>last_task_used_math := b\<rparr>) = same_links s s'"
  by (simp add: same_links_def)

lemma do_exit_segments:
  assumes ok: "ptable_ok s ps ch" and c: "c = current s" "live s c" "c \<noteq> init_task" and wq: "chldexit_ok s"
    and calls: "\<And>s. quiet s (drop_ipc_files s)" "\<And>s. quiet s (drop_fs_mm s)" "\<And>s. quiet s (disassociate_ctty s)"
    and r: "r = new_parent s" "r \<notin> set (ch c)" "ch r \<noteq> []"
  shows "\<exists>s'. do_exit drop_ipc_files drop_fs_mm disassociate_ctty code s = Some ([], s')
    \<and> ptable_ok s' ps (ch(c := [], r := rev (ch c) @ ch r)) \<and> state (tsk s' c) = TASK_ZOMBIE \<and> current s' = c"
proof -
  let ?s1 = "drop_ipc_files s"
  have q1: "quiet s ?s1" by (rule calls(1))
  have for1: "for_each_task ?s1 = Some ps"
    using ptable_ok_tasks [OF ok] for_each_task_same_links [OF quiet_links [OF q1]] by simp
  let ?s2 = "foldl (forget_step (current s)) ?s1 ps"
  have cur1: "current ?s1 = current s" using q1 by (simp add: quiet_def same_links_def)
  have f1: "forget_original_parent (current s) ?s1 = Some ?s2"
    by (simp add: forget_original_parent_def for1)
  let ?s3 = "drop_fs_mm ?s2"
  have q3: "quiet s ?s3" using q1 quiet_forget calls(2) quiet_trans by blast
  let ?s4 = "upd_task (current ?s3) (\<lambda>t. t\<lparr>state := TASK_ZOMBIE, exit_code := code, rss := 0\<rparr>) ?s3"
  have q4: "quiet ?s3 ?s4" by (auto simp: quiet_def tsk_upd_task intro!: same_links_upd_task)
  have cur3: "current ?s3 = c" using q3 c by (simp add: quiet_def same_links_def)
  then have z4: "state (tsk ?s4 c) = TASK_ZOMBIE" by (simp add: tsk_upd_task)
  have l4: "quiet s ?s4" using q3 q4 quiet_trans by blast
  have ring: "ring_ok s ps" using ok by (simp add: ptable_ok_def)
  have ring4: "ring_ok ?s4 ps" using ring ring_ok_same_links [OF quiet_links [OF l4]] by blast
  let ?cond = "pgrp (tsk ?s4 (p_pptr (cur ?s4))) \<noteq> pgrp (cur ?s4) \<and> session (tsk ?s4 (p_pptr (cur ?s4))) = session (cur ?s4)"
  obtain s5 where s5: "orphan_check ?cond (pgrp (cur ?s4)) ?s4 = Some s5" and q5: "quiet ?s4 s5"
    using orphan_check_some [OF ring4] by blast
  have l5: "quiet s s5" using l4 q5 quiet_trans by blast
  have w5: "chldexit_ok s5" using wq chldexit_ok_cong [of s5 s] l5 by (simp add: quiet_def)
  obtain s6 where s6: "notify_parent (current s5) s5 = Some s6" and q6: "quiet s5 s6"
    using notify_parent_ok [OF w5] by blast
  have l6: "quiet s s6" "same_links s s6" using l5 q6 quiet_trans quiet_links by blast+
  have z6: "state (tsk s6 c) = TASK_ZOMBIE" using z4 q5 q6 by (simp add: quiet_def)
  have g6: "task s6 = task s" "current s6 = c" using l6(2) c by (simp_all add: same_links_def)
  have slots: "slots_ok s" and tree: "tree_ok s ch" using ok by (simp_all add: ptable_ok_def)
  have np: "new_parent s6 = r" using r(1) new_parent_cong [of s6 s] g6 c by simp
  have rl: "live s r" "r \<noteq> c" using new_parent_live [OF slots] c r(1) by auto
  have m6: "moving_ok s6 c ch" using tree_ok_moving [OF tree] moving_ok_same_links [OF l6(2)] by blast
  have lv6: "live s6 t = live s t" for t using live_same_links [OF l6(2)] .
  have ring6: "ring_ok s6 ps" using ring ring_ok_same_links [OF l6(2)] by blast
  have w6: "chldexit_ok s6" using wq chldexit_ok_cong [of s6 s] l6 by (simp add: quiet_def)
  obtain s7 where s7: "reparent_loop s6 = Some s7" "tree_ok s7 (ch(c := [], r := rev (ch c) @ ch r))"
    "task s7 = task s6" "current s7 = current s6" "ring_ok s7 ps" "state (tsk s7 c) = TASK_ZOMBIE"
    using reparent_loop_ok [OF m6 _ _ refl np _ rl(2) r(2,3) ring6 w6 z6] g6 lv6 rl c by auto
  have ok7: "ptable_ok s7 ps (ch(c := [], r := rev (ch c) @ ch r))"
    using ptable_ok_retree [OF ok _ s7(5,2)] s7 g6 by simp
  let ?s8 = "if leader (cur s7) then disassociate_ctty s7 else s7"
  let ?s9 = "if last_task_used_math ?s8 = Some (current ?s8) then ?s8\<lparr>last_task_used_math := None\<rparr> else ?s8"
  have q9: "quiet s7 ?s9" using calls(3) [of s7] by (auto simp: quiet_def)
  have ok9: "ptable_ok ?s9 ps (ch(c := [], r := rev (ch c) @ ch r))"
    using ok7 ptable_ok_same_links [OF quiet_links [OF q9]] by blast
  have "do_exit drop_ipc_files drop_fs_mm disassociate_ctty code s = Some ([], ?s9)"
    unfolding do_exit_def Let_def f1 bind.bind_lunit s5 s6 s7(1) audit_ptree_silent [OF ok9] by (rule refl)
  moreover have "state (tsk ?s9 c) = TASK_ZOMBIE" "current ?s9 = c"
    using q9 s7 g6 by (auto simp: quiet_def same_links_def)
  ultimately show ?thesis using ok9 by blast
qed

end
