(* ===== verification/Wait_Calls.thy ===== *)
theory Wait_Calls
  imports Exit_Wait
begin

text \<open>
  \<^verbatim>\<open>sys_wait4\<close> and \<^verbatim>\<open>sys_waitpid\<close> of \<^verbatim>\<open>kernel/exit.c\<close>, and \<^verbatim>\<open>getrusage\<close>/\<^verbatim>\<open>sys_getrusage\<close> of \<^verbatim>\<open>kernel/sys.c\<close>.
  \<^verbatim>\<open>sys_wait4\<close> is cut at its call of \<^verbatim>\<open>schedule()\<close>: \<^verbatim>\<open>sys_wait4\<close> runs to the first return or sleep, and
  \<^verbatim>\<open>wait4_resume\<close> continues after the task has run again.  The wait-queue entry on the kernel stack is
  the argument \<^verbatim>\<open>w\<close>.
\<close>

section \<open>Resource usage\<close>

abbreviation (input) HZ :: int where "HZ \<equiv> 100"
abbreviation (input) RUSAGE_SELF :: int where "RUSAGE_SELF \<equiv> 0"
abbreviation (input) RUSAGE_CHILDREN :: int where "RUSAGE_CHILDREN \<equiv> -1"
abbreviation (input) RUSAGE_BOTH :: int where "RUSAGE_BOTH \<equiv> -2"

definition CT_TO_SECS :: "int \<Rightarrow> int" where
  "CT_TO_SECS x = cdiv x HZ"

definition CT_TO_USECS :: "int \<Rightarrow> int" where
  "CT_TO_USECS x = cdiv (cmod x HZ * 1000000) HZ"

text \<open>\<^verbatim>\<open>struct rusage\<close> as the 18 longs the copy loop walks over: two times of two longs, 14 counters of
  which only \<^verbatim>\<open>ru_minflt\<close> and \<^verbatim>\<open>ru_majflt\<close> (the fifth and sixth) are filled in.\<close>

definition rusage_longs :: "int \<Rightarrow> int \<Rightarrow> u32 \<Rightarrow> u32 \<Rightarrow> u32 list" where
  "rusage_longs ut st minf majf =
     [to_u32 (CT_TO_SECS ut), to_u32 (CT_TO_USECS ut), to_u32 (CT_TO_SECS st), to_u32 (CT_TO_USECS st),
      0, 0, 0, 0, minf, majf, 0, 0, 0, 0, 0, 0, 0, 0]"

definition getrusage :: "tid \<Rightarrow> int \<Rightarrow> u32 \<Rightarrow> kernel \<Rightarrow> int \<times> kernel" where
  "getrusage p who ru s =
    (let err = verify_area VERIFY_WRITE ru 72; t = tsk s p
     in if err \<noteq> 0 then (err, s)
        else let r = (if who = RUSAGE_SELF then rusage_longs (utime t) (stime t) (min_flt t) (maj_flt t)
                      else if who = RUSAGE_CHILDREN then rusage_longs (cutime t) (cstime t) (cmin_flt t) (cmaj_flt t)
                      else rusage_longs (swrap (utime t + cutime t)) (swrap (stime t + cstime t))
                             (min_flt t + cmin_flt t) (maj_flt t + cmaj_flt t))
             in (0, s\<lparr>fsmem := put_longs r ru (fsmem s)\<rparr>))"

definition sys_getrusage :: "int \<Rightarrow> u32 \<Rightarrow> kernel \<Rightarrow> int \<times> kernel" where
  "sys_getrusage who ru s =
     (if who \<noteq> RUSAGE_SELF \<and> who \<noteq> RUSAGE_CHILDREN then (- EINVAL, s)
      else getrusage (current s) who ru s)"

section \<open>Waiting for a child\<close>

abbreviation (input) WNOHANG :: u32 where "WNOHANG \<equiv> 1"
abbreviation (input) WUNTRACED :: u32 where "WUNTRACED \<equiv> 2"
abbreviation (input) WCLONE :: u32 where "WCLONE \<equiv> 0x80000000"

text \<open>The children in the order of the scan: \<^verbatim>\<open>p_cptr\<close>, then along \<^verbatim>\<open>p_osptr\<close>.  The iterations that
  \<^verbatim>\<open>continue\<close> change nothing, so the loop is a search in this list.\<close>

partial_function (option) sib_walk :: "(tid \<Rightarrow> tid option) \<Rightarrow> tid option \<Rightarrow> tid list option" where
  "sib_walk older p =
     (case p of None \<Rightarrow> Some []
      | Some c \<Rightarrow> Option.bind (sib_walk older (older c)) (\<lambda>cs. Some (c # cs)))"

definition wait_matches :: "int \<Rightarrow> u32 \<Rightarrow> kernel \<Rightarrow> tid \<Rightarrow> bool" where
  "wait_matches pd options s p \<longleftrightarrow>
     (if pd > 0 then pid (tsk s p) = pd
      else if pd = 0 then pgrp (tsk s p) = pgrp (cur s)
      else if pd \<noteq> -1 then pgrp (tsk s p) = - pd
      else True)
   \<and> ((exit_signal (tsk s p) \<noteq> int SIGCHLD) = (options AND WCLONE \<noteq> 0))"

definition wait_stopped :: "u32 \<Rightarrow> task_struct \<Rightarrow> bool" where
  "wait_stopped options t \<longleftrightarrow> state t = TASK_STOPPED \<and> exit_code t \<noteq> 0
     \<and> (options AND WUNTRACED \<noteq> 0 \<or> flags t AND PF_PTRACED \<noteq> 0)"

definition wait_ready :: "u32 \<Rightarrow> task_struct \<Rightarrow> bool" where
  "wait_ready options t \<longleftrightarrow> wait_stopped options t \<or> state t = TASK_ZOMBIE"

definition put_status :: "u32 \<Rightarrow> int \<Rightarrow> kernel \<Rightarrow> kernel" where
  "put_status stat_addr v s = (if stat_addr \<noteq> 0 then s\<lparr>fsmem := put_fs_long (to_u32 v) stat_addr (fsmem s)\<rparr> else s)"

definition rusage_to :: "u32 \<Rightarrow> tid \<Rightarrow> kernel \<Rightarrow> kernel" where
  "rusage_to ru p s = (if ru \<noteq> 0 then snd (getrusage p RUSAGE_BOTH ru s) else s)"

text \<open>The branch for a stopped child.\<close>

definition report_stopped :: "tid \<Rightarrow> u32 \<Rightarrow> u32 \<Rightarrow> kernel \<Rightarrow> int \<times> kernel" where
  "report_stopped p stat_addr ru s =
    (let s = put_status stat_addr (swrap (push_bit 8 (exit_code (tsk s p)) OR 0x7f)) s;
         s = upd_task p (\<lambda>t. t\<lparr>exit_code := 0\<rparr>) s;
         s = rusage_to ru p s
     in (pid (tsk s p), s))"

text \<open>The branch for a zombie: its times are charged to the parent; a child that was handed to a
  debugger goes back to its original parent, any other one is released.\<close>

definition charge_child :: "tid \<Rightarrow> kernel \<Rightarrow> kernel" where
  "charge_child p s =
    (let c = tsk s p
     in upd_task (current s) (\<lambda>t. t\<lparr>cutime := swrap (cutime t + (utime c + cutime c)),
          cstime := swrap (cstime t + (stime c + cstime c)),
          cmin_flt := cmin_flt t + (min_flt c + cmin_flt c),
          cmaj_flt := cmaj_flt t + (maj_flt c + cmaj_flt c)\<rparr>) s)"

definition reap_zombie :: "tid \<Rightarrow> u32 \<Rightarrow> u32 \<Rightarrow> kernel \<Rightarrow> (int \<times> kernel) option" where
  "reap_zombie p stat_addr ru s =
    (let s = rusage_to ru p (charge_child p s);
         flag = pid (tsk s p);
         s = put_status stat_addr (exit_code (tsk s p)) s
     in do {
       s \<leftarrow> (if p_opptr (tsk s p) \<noteq> p_pptr (tsk s p)
             then let s = REMOVE_LINKS p s;
                      s = upd_task p (\<lambda>t. t\<lparr>p_pptr := p_opptr t\<rparr>) s
                  in notify_parent p (SET_LINKS p s)
             else release (Some p) s);
       _ \<leftarrow> audit_ptree s;
       Some (flag, s) })"

datatype wait_result = W_Return int | W_Sleep

text \<open>One pass from \<^verbatim>\<open>repeat\<close> to a \<^verbatim>\<open>goto end_wait4\<close> (including the code after the label) or to
  \<^verbatim>\<open>schedule()\<close>.\<close>

definition end_wait4 :: "waddr \<Rightarrow> int \<Rightarrow> kernel \<Rightarrow> (wait_result \<times> kernel) option" where
  "end_wait4 w retval s =
     do { s \<leftarrow> remove_wait_queue (Chldexit (current s)) w s; Some (W_Return retval, s) }"

definition wait4_round :: "waddr \<Rightarrow> int \<Rightarrow> u32 \<Rightarrow> u32 \<Rightarrow> u32 \<Rightarrow> kernel \<Rightarrow> (wait_result \<times> kernel) option" where
  "wait4_round w pd stat_addr options ru s =
     do { cs \<leftarrow> sib_walk (\<lambda>t. p_osptr (tsk s t)) (p_cptr (cur s));
          case find (\<lambda>p. wait_matches pd options s p \<and> wait_ready options (tsk s p)) cs of
            Some p \<Rightarrow>
              if state (tsk s p) = TASK_STOPPED
              then (case report_stopped p stat_addr ru s of (r, s) \<Rightarrow> end_wait4 w r s)
              else do { rs \<leftarrow> reap_zombie p stat_addr ru s; end_wait4 w (fst rs) (snd rs) }
          | None \<Rightarrow>
              if list_ex (wait_matches pd options s) cs
              then if options AND WNOHANG \<noteq> 0 then end_wait4 w 0 s
                   else Some (W_Sleep, upd_task (current s) (\<lambda>t. t\<lparr>state := TASK_INTERRUPTIBLE\<rparr>) s)
              else end_wait4 w (- ECHILD) s }"

definition sys_wait4 :: "waddr \<Rightarrow> int \<Rightarrow> u32 \<Rightarrow> u32 \<Rightarrow> u32 \<Rightarrow> kernel \<Rightarrow> (wait_result \<times> kernel) option" where
  "sys_wait4 w pd stat_addr options ru s =
    (let flag = (if stat_addr \<noteq> 0 then verify_area VERIFY_WRITE stat_addr 4 else 0)
     in if flag \<noteq> 0 then Some (W_Return flag, s)
        else let s = s\<lparr>wqe := (wqe s)(w := \<lparr>wq_task = Some (current s), wq_next = None\<rparr>)\<rparr>
             in wait4_round w pd stat_addr options ru (add_wait_queue (Chldexit (current s)) w s))"

definition wait4_resume :: "waddr \<Rightarrow> int \<Rightarrow> u32 \<Rightarrow> u32 \<Rightarrow> u32 \<Rightarrow> kernel \<Rightarrow> (wait_result \<times> kernel) option" where
  "wait4_resume w pd stat_addr options ru s =
    (let s = upd_task (current s) (\<lambda>t. t\<lparr>signal := signal t AND NOT (S_mask SIGCHLD)\<rparr>) s
     in if signal_pending (cur s) then end_wait4 w (- ERESTARTSYS) s
        else wait4_round w pd stat_addr options ru s)"

definition sys_waitpid :: "waddr \<Rightarrow> int \<Rightarrow> u32 \<Rightarrow> u32 \<Rightarrow> kernel \<Rightarrow> (wait_result \<times> kernel) option" where
  "sys_waitpid w pd stat_addr options s = sys_wait4 w pd stat_addr options 0 s"

section \<open>What a call returns\<close>

lemma sib_walk_chain: "sib_chain h y cs \<Longrightarrow> sib_walk (\<lambda>t. p_osptr (h t)) (opt_hd cs) = Some cs"
proof (induction cs arbitrary: y)
  case (Cons c cs)
  then have "sib_walk (\<lambda>t. p_osptr (h t)) (p_osptr (h c)) = Some cs" using Cons.IH [of "Some c"] by simp
  then show ?case by (simp add: sib_walk.simps [of _ "Some c"])
qed (simp add: sib_walk.simps)

lemma children_walk:
  assumes "tree_ok s ch" and "live s (current s)"
  shows "sib_walk (\<lambda>t. p_osptr (tsk s t)) (p_cptr (cur s)) = Some (ch (current s))"
  using tree_ok_child [OF assms] sib_walk_chain [of "tsk s" None "ch (current s)"] by (simp add: child_list_def)

lemma add_wait_queue_frame [simp, frame_simps]:
  "tsk (add_wait_queue q w s) = tsk s" "task (add_wait_queue q w s) = task s"
  "current (add_wait_queue q w s) = current s"
  by (simp_all add: add_wait_queue_def Let_def split: option.split)

lemma remove_wait_queue_frame:
  "remove_wait_queue q w s = Some s' \<Longrightarrow> tsk s' = tsk s \<and> task s' = task s \<and> current s' = current s"
  by (auto simp: remove_wait_queue_def Let_def split: if_splits Option.bind_splits)

lemma same_links_eq: "tsk s' = tsk s \<Longrightarrow> task s' = task s \<Longrightarrow> current s' = current s \<Longrightarrow> same_links s s'"
  by (simp add: same_links_def)

lemma quiet_fsmem [simp]: "quiet s (s'\<lparr>fsmem := m\<rparr>) = quiet s s'"
  by (simp add: quiet_def same_links_def)

lemma quiet_put_status: "quiet s (put_status a v s)"
  by (simp add: put_status_def)

lemma quiet_rusage: "quiet s (rusage_to ru p s)"
  by (simp add: rusage_to_def getrusage_def Let_def)

lemma quiet_charge: "quiet s (charge_child p s)"
  by (auto simp: charge_child_def Let_def quiet_def tsk_upd_task intro!: same_links_upd_task)

lemma fsmem_only [simp, frame_simps]:
  "tsk (put_status a v s) = tsk s" "tsk (rusage_to ru p s) = tsk s"
  by (simp_all add: put_status_def rusage_to_def getrusage_def Let_def)

text \<open>Leaving \<^verbatim>\<open>sys_wait4\<close> takes the entry off the queue again.\<close>

definition enqueued :: "waddr list \<Rightarrow> waddr \<Rightarrow> waddr list" where
  "enqueued ws w = (case ws of [] \<Rightarrow> [w] | h # hs \<Rightarrow> h # w # hs)"

lemma end_wait4_ok:
  assumes "wq_ring s (Chldexit (current s)) (enqueued ws w)" and "ptable_ok s ps ch"
  shows "\<exists>s'. end_wait4 w r s = Some (W_Return r, s') \<and> ptable_ok s' ps ch \<and> tsk s' = tsk s
    \<and> task s' = task s \<and> current s' = current s \<and> wq_ring s' (Chldexit (current s)) ws"
proof -
  obtain as bs where split: "enqueued ws w = as @ w # bs" "as @ bs = ws"
    by (cases ws) (auto simp: enqueued_def intro: that [of "[]"] that [of "[_]"])
  then obtain s' where s': "remove_wait_queue (Chldexit (current s)) w s = Some s'"
    "wq_ring s' (Chldexit (current s)) ws"
    using remove_wait_queue_ring [of s _ as w bs] assms(1) by auto
  then show ?thesis
    using remove_wait_queue_frame [OF s'(1)] assms(2) ptable_ok_same_links [OF same_links_eq, of s' s ps ch]
    by (auto simp: end_wait4_def)
qed

text \<open>Reaping: the zombie disappears from the table, the caller is charged for it.\<close>

lemma reap_zombie_ok:
  assumes ok: "ptable_ok s ps ch" and c: "live s (current s)"
    and p: "p \<in> set (ch (current s))" "p_opptr (tsk s p) = p_pptr (tsk s p)" "ch p = []" "p \<noteq> current s"
  shows "\<exists>s'. reap_zombie p sa ru s = Some (pid (tsk s p), s')
    \<and> ptable_ok s' (remove1 p ps) (ch(current s := remove1 p (ch (current s))))
    \<and> (\<forall>t. live s' t \<longleftrightarrow> t \<noteq> p \<and> live s t) \<and> current s' = current s \<and> wqh s' = wqh s \<and> wqe s' = wqe s"
proof -
  let ?s1 = "rusage_to ru p (charge_child p s)"
  let ?s2 = "put_status sa (exit_code (tsk ?s1 p)) ?s1"
  have q: "quiet s ?s2" by (meson quiet_charge quiet_rusage quiet_put_status quiet_trans)
  have l: "same_links s ?s2" by (rule quiet_links [OF q])
  have ok2: "ptable_ok ?s2 ps ch" using ok ptable_ok_same_links [OF l] by blast
  have tree: "tree_ok s ch" using ok by (simp add: ptable_ok_def)
  have mem: "live s p" "p \<noteq> init_task" "p_pptr (tsk s p) = current s"
    using tree_ok_set [OF tree c] p(1) by auto
  have live2: "live ?s2 t = live s t" for t by (rule live_same_links [OF l])
  have cur2: "current ?s2 = current s" and pp2: "p_pptr (tsk ?s2 p) = current s" and pid2: "pid (tsk ?s1 p) = pid (tsk s p)"
    using l mem by (simp_all add: same_links_def)
  have op2: "p_opptr (tsk ?s2 p) = p_pptr (tsk ?s2 p)"
    using p(2,4) by (simp add: charge_child_def Let_def tsk_upd_task)
  obtain s3 where s3: "release (Some p) ?s2 = Some s3" "\<forall>t. live s3 t \<longleftrightarrow> t \<noteq> p \<and> live ?s2 t"
    "ptable_ok s3 (remove1 p ps) (ch(p_pptr (tsk ?s2 p) := remove1 p (ch (p_pptr (tsk ?s2 p)))))"
    using release_ptable_ok [OF ok2 _ mem(2) _ p(3)] mem(1) p(4) live2 cur2 by auto
  have fr: "current s3 = current ?s2 \<and> wqh s3 = wqh ?s2 \<and> wqe s3 = wqe ?s2"
    using s3(1) by (auto simp: release_def split: if_splits option.splits)
  have "reap_zombie p sa ru s = Some (pid (tsk s p), s3)"
    unfolding reap_zombie_def Let_def using s3(1) op2 audit_ptree_silent [OF s3(3)] pid2 by simp
  then show ?thesis using s3(2,3) fr q unfolding pp2 live2 by (simp add: quiet_def same_links_def)
qed

definition wait_candidate :: "int \<Rightarrow> u32 \<Rightarrow> kernel \<Rightarrow> tid \<Rightarrow> bool" where
  "wait_candidate pd options s p \<longleftrightarrow> wait_matches pd options s p \<and> wait_ready options (tsk s p)"

lemma wait_matches_cong: "tsk s' = tsk s \<Longrightarrow> current s' = current s \<Longrightarrow> wait_matches pd opt s' = wait_matches pd opt s"
  by (simp add: wait_matches_def fun_eq_iff)

lemma sys_wait4_enter:
  assumes ok: "ptable_ok s ps ch" and c: "live s (current s)" and ring: "wq_ring s (Chldexit (current s)) ws"
    and w: "w \<notin> set ws" and sa: "sa = 0 \<or> verify_area VERIFY_WRITE sa 4 = 0"
  shows "\<exists>s1. sys_wait4 w pd sa opt ru s = wait4_round w pd sa opt ru s1 \<and> tsk s1 = tsk s \<and> task s1 = task s
    \<and> current s1 = current s \<and> wq_ring s1 (Chldexit (current s)) (enqueued ws w) \<and> ptable_ok s1 ps ch"
proof -
  let ?s0 = "s\<lparr>wqe := (wqe s)(w := \<lparr>wq_task = Some (current s), wq_next = None\<rparr>)\<rparr>"
  let ?s1 = "add_wait_queue (Chldexit (current s)) w ?s0"
  have "wlinked (wqe ?s0) (ws @ take 1 ws) = wlinked (wqe s) (ws @ take 1 ws)"
    using w by (intro wlinked_cong) (auto dest!: in_set_butlastD in_set_takeD)
  then have "wq_ring ?s0 (Chldexit (current s)) ws" using ring by (simp add: wq_ring_def)
  then have "wq_ring ?s1 (Chldexit (current s)) (enqueued ws w)"
    unfolding enqueued_def by (rule add_wait_queue_ring [OF _ w])
  moreover have "ptable_ok ?s1 ps ch"
    using ok ptable_ok_same_links [OF same_links_eq, of ?s1 s] by simp
  moreover have "sys_wait4 w pd sa opt ru s = wait4_round w pd sa opt ru ?s1"
    using sa by (auto simp: sys_wait4_def Let_def)
  ultimately show ?thesis by (intro exI [of _ ?s1]) simp
qed

lemma sys_wait4_reaps:
  assumes ok: "ptable_ok s ps ch" and c: "live s (current s)" and ring: "wq_ring s (Chldexit (current s)) ws"
    and w: "w \<notin> set ws" and sa: "sa = 0 \<or> verify_area VERIFY_WRITE sa 4 = 0"
    and p: "find (wait_candidate pd opt s) (ch (current s)) = Some p" "state (tsk s p) = TASK_ZOMBIE"
      "p_opptr (tsk s p) = p_pptr (tsk s p)" "ch p = []"
  shows "\<exists>s'. sys_wait4 w pd sa opt ru s = Some (W_Return (pid (tsk s p)), s')
    \<and> ptable_ok s' (remove1 p ps) (ch(current s := remove1 p (ch (current s))))
    \<and> (\<forall>t. live s' t \<longleftrightarrow> t \<noteq> p \<and> live s t) \<and> wq_ring s' (Chldexit (current s)) ws"
proof -
  obtain s1 where s1: "sys_wait4 w pd sa opt ru s = wait4_round w pd sa opt ru s1" "tsk s1 = tsk s" "task s1 = task s"
    "current s1 = current s" "wq_ring s1 (Chldexit (current s)) (enqueued ws w)" "ptable_ok s1 ps ch"
    using sys_wait4_enter [OF ok c ring w sa] by blast
  have live1: "live s1 t = live s t" for t by (simp add: live_def s1)
  have tree: "tree_ok s1 ch" using s1(6) by (simp add: ptable_ok_def)
  have c1: "live s1 (current s1)" using c s1 live1 by simp
  have pin: "p \<in> set (ch (current s))" using p(1) by (auto simp: find_Some_iff)
  have pc: "p \<noteq> current s"
    using pin tree_ok_set [OF tree c1, of p] tree s1 live1 by (auto simp: tree_ok_def)
  have walk: "sib_walk (\<lambda>t. p_osptr (tsk s1 t)) (p_cptr (cur s1)) = Some (ch (current s))"
    using children_walk [OF tree c1] s1 by simp
  have cand: "(\<lambda>p. wait_matches pd opt s1 p \<and> wait_ready opt (tsk s1 p)) = wait_candidate pd opt s"
    using wait_matches_cong [OF s1(2,4)] s1(2) by (auto simp: wait_candidate_def fun_eq_iff)
  obtain s2 where s2: "reap_zombie p sa ru s1 = Some (pid (tsk s p), s2)"
    "ptable_ok s2 (remove1 p ps) (ch(current s := remove1 p (ch (current s))))"
    "\<forall>t. live s2 t \<longleftrightarrow> t \<noteq> p \<and> live s1 t" "current s2 = current s" "wqh s2 = wqh s1" "wqe s2 = wqe s1"
    using reap_zombie_ok [OF s1(6) c1, of p sa ru] p pin pc s1 by auto
  have "wq_ring s2 (Chldexit (current s2)) (enqueued ws w)" using s1(5) s2 by (simp add: wq_ring_def)
  then obtain s' where s': "end_wait4 w (pid (tsk s p)) s2 = Some (W_Return (pid (tsk s p)), s')"
    "ptable_ok s' (remove1 p ps) (ch(current s := remove1 p (ch (current s))))"
    "task s' = task s2" "wq_ring s' (Chldexit (current s2)) ws"
    using end_wait4_ok [OF _ s2(2)] by blast
  have "wait4_round w pd sa opt ru s1 = Some (W_Return (pid (tsk s p)), s')"
    unfolding wait4_round_def walk cand using p s1 s2 s' by simp
  moreover have "live s' t \<longleftrightarrow> t \<noteq> p \<and> live s t" for t
    using s2(3) s'(3) live1 by (simp add: live_def)
  ultimately show ?thesis using s1(1) s' s2(4) by auto
qed

end
