(* ===== verification/Fork.thy ===== *)
theory Fork
  imports Wait_Calls
begin

text \<open>
  Process creation, \<^verbatim>\<open>kernel/fork.c\<close>: the choice of a process number and of a slot in \<^verbatim>\<open>task[]\<close>
  (\<^verbatim>\<open>find_empty_process\<close>) and \<^verbatim>\<open>sys_fork\<close>.  The hardware state of the child (its TSS, kernel stack and
  descriptors) and the reference counts on the files and inodes it shares with the parent are not part
  of the modelled \<^verbatim>\<open>task_struct\<close>; the results of the page allocator and of the functions that copy the
  address space are arguments.
\<close>

abbreviation (input) MAX_TASKS_PER_USER :: nat where "MAX_TASKS_PER_USER \<equiv> 64"
abbreviation (input) MIN_TASKS_LEFT_FOR_ROOT :: nat where "MIN_TASKS_LEFT_FOR_ROOT \<equiv> 4"
abbreviation (input) CSIGNAL :: u32 where "CSIGNAL \<equiv> 0xff"
abbreviation (input) COPYVM :: u32 where "COPYVM \<equiv> 0x100"

section \<open>Process numbers and slots\<close>

definition next_pid :: "int \<Rightarrow> int" where
  "next_pid l = (let l = swrap (l + 1) in if to_u32 l AND 0xffff8000 \<noteq> 0 then 1 else l)"

definition uses_pid :: "task_struct \<Rightarrow> int \<Rightarrow> bool" where
  "uses_pid t l \<longleftrightarrow> pid t = l \<or> pgrp t = l \<or> session t = l"

text \<open>The inner loop, for the slots in the order given; \<^verbatim>\<open>None\<close> is the jump to \<^verbatim>\<open>repeat\<close>.  The result is
  \<^verbatim>\<open>free_task\<close>, \<^verbatim>\<open>tasks_free\<close> and \<^verbatim>\<open>this_user_tasks\<close>.\<close>

fun scan_slots :: "kernel \<Rightarrow> nat list \<Rightarrow> int \<times> nat \<times> nat \<Rightarrow> (int \<times> nat \<times> nat) option" where
  "scan_slots s [] acc = Some acc"
| "scan_slots s (i # is) (free_task, tasks_free, user_tasks) =
     (case task s i of
        None \<Rightarrow> scan_slots s is (int i, Suc tasks_free, user_tasks)
      | Some t \<Rightarrow>
          let user_tasks = (if uid (tsk s t) = uid (cur s) then Suc user_tasks else user_tasks)
          in if uses_pid (tsk s t) (last_pid s) then None
             else scan_slots s is (free_task, tasks_free, user_tasks))"

partial_function (option) find_empty_process :: "kernel \<Rightarrow> (int \<times> kernel) option" where
  "find_empty_process s0 =
    (let s = s0\<lparr>last_pid := next_pid (last_pid s0)\<rparr>
     in case scan_slots s (rev task_slots) (- EAGAIN, 0, 0) of
          None \<Rightarrow> find_empty_process s
        | Some (free_task, tasks_free, user_tasks) \<Rightarrow>
            if (tasks_free \<le> MIN_TASKS_LEFT_FOR_ROOT \<or> user_tasks > MAX_TASKS_PER_USER) \<and> uid (cur s) \<noteq> 0
            then Some (- EAGAIN, s) else Some (free_task, s))"

section \<open>Creating a process\<close>

text \<open>The assignments between \<^verbatim>\<open>*p = *current\<close> and \<^verbatim>\<open>SET_LINKS\<close>, and those after it.\<close>

definition child_init :: "kernel \<Rightarrow> task_struct \<Rightarrow> task_struct" where
  "child_init s t = t\<lparr>did_exec := False, state := TASK_UNINTERRUPTIBLE,
     flags := flags t AND NOT (PF_PTRACED OR PF_TRACESYS), pid := last_pid s, swappable := True,
     p_opptr := current s, p_pptr := current s, p_cptr := None\<rparr>"

definition child_reset :: "kernel \<Rightarrow> task_struct \<Rightarrow> task_struct" where
  "child_reset s t = t\<lparr>signal := 0, it_real_value := 0, it_virt_value := 0, it_prof_value := 0,
     it_real_incr := 0, it_virt_incr := 0, it_prof_incr := 0, leader := False,
     utime := 0, stime := 0, cutime := 0, cstime := 0, min_flt := 0, maj_flt := 0, cmin_flt := 0, cmaj_flt := 0,
     start_time := jiffies s\<rparr>"

definition clone_flags :: "bool \<Rightarrow> u32 \<Rightarrow> u32 \<Rightarrow> u32 \<Rightarrow> u32" where
  "clone_flags is_clone ebx ecx esp =
     (if \<not> is_clone then COPYVM OR of_nat SIGCHLD
      else let child_esp = (if ebx \<noteq> 0 then ebx else esp)
           in if child_esp = esp then ecx OR COPYVM else ecx)"

text \<open>\<^verbatim>\<open>page\<close> is the page the allocator gives for the new \<^verbatim>\<open>task_struct\<close> (\<^verbatim>\<open>None\<close> if it fails), \<^verbatim>\<open>stack\<close> tells
  whether the kernel-stack page was available, and \<^verbatim>\<open>copied\<close> whether \<^verbatim>\<open>copy_vm(p) || shm_fork(current, p)\<close>
  was 0 for the clone flags.  The structure copy also copies the wait-queue head \<^verbatim>\<open>wait_chldexit\<close>.\<close>

definition sys_fork :: "tid option \<Rightarrow> bool \<Rightarrow> (u32 \<Rightarrow> bool) \<Rightarrow> bool \<Rightarrow> u32 \<Rightarrow> u32 \<Rightarrow> u32 \<Rightarrow> kernel \<Rightarrow> (int \<times> kernel) option" where
  "sys_fork page stack copied is_clone ebx ecx esp s =
    (case page of None \<Rightarrow> Some (- EAGAIN, s)
     | Some p \<Rightarrow> do {
         (nr, s) \<leftarrow> find_empty_process s;
         if nr < 0 then Some (- EAGAIN, s)
         else let s = s\<lparr>task := (task s)(nat nr := Some p)\<rparr>;
                  s = s\<lparr>tsk := (tsk s)(p := cur s), wqh := (wqh s)(Chldexit p := wqh s (Chldexit (current s)))\<rparr>;
                  s = SET_LINKS p (upd_task p (child_init s) s);
                  s = upd_task p (child_reset s) s;
                  fail = REMOVE_LINKS p (s\<lparr>task := (task s)(nat nr := None)\<rparr>)
              in if \<not> stack then Some (- EAGAIN, fail)
                 else let cf = clone_flags is_clone ebx ecx esp;
                          s = upd_task p (\<lambda>t. t\<lparr>exit_signal := uint (cf AND CSIGNAL),
                                io_bitmap := replicate 33 (NOT 0)\<rparr>) s;
                          fail = REMOVE_LINKS p (s\<lparr>task := (task s)(nat nr := None)\<rparr>)
                      in if \<not> copied cf then Some (- EAGAIN, fail)
                         else let s = upd_task p (\<lambda>t. t\<lparr>counter := drop_bit 1 (counter (cur s)), state := TASK_RUNNING\<rparr>) s
                              in Some (pid (tsk s p), s) })"

section \<open>The search for a process number ends\<close>

lemma mask15: "w AND 0xffff8000 = 0 \<longleftrightarrow> w < 0x8000" for w :: u32
proof -
  have m: "(0xffff8000 :: u32) = NOT (mask 15)" by (simp add: mask_eq_exp_minus_1)
  have "w AND NOT (mask 15) = 0 \<longleftrightarrow> take_bit 15 w = w"
    by (auto simp: bit_eq_iff bit_simps)
  also have "\<dots> \<longleftrightarrow> take_bit 15 (unat w) = unat w" by (simp add: word_unat_eq_iff unsigned_take_bit_eq)
  also have "\<dots> \<longleftrightarrow> w < 2 ^ 15" by (simp add: take_bit_nat_eq_self_iff word_less_nat_alt)
  finally show ?thesis unfolding m by simp
qed

lemma next_pid_eq: "0 \<le> l \<Longrightarrow> l \<le> 32767 \<Longrightarrow> next_pid l = (if l = 32767 then 1 else l + 1)"
proof -
  assume l: "0 \<le> l" "l \<le> 32767"
  then have s: "swrap (l + 1) = l + 1" by (simp add: fits_s32_def)
  have "uint (to_u32 (l + 1)) = l + 1" using l by (simp only: to_u32_def uint_word_of_int) simp
  then have "to_u32 (l + 1) < 0x8000 \<longleftrightarrow> l + 1 < 32768" by (simp add: word_less_def)
  then show ?thesis using l s by (simp add: next_pid_def mask15 Let_def)
qed

text \<open>A number is taken when a task in \<^verbatim>\<open>task[1..]\<close> uses it.\<close>

definition pid_taken :: "kernel \<Rightarrow> int \<Rightarrow> bool" where
  "pid_taken s l \<longleftrightarrow> (\<exists>i\<in>set task_slots. \<exists>t. task s i = Some t \<and> uses_pid (tsk s t) l)"

lemma scan_slots_None:
  "scan_slots s is acc = None \<longleftrightarrow> (\<exists>i\<in>set is. \<exists>t. task s i = Some t \<and> uses_pid (tsk s t) (last_pid s))"
  by (induction s "is" acc rule: scan_slots.induct) (auto simp: Let_def split: option.splits)

text \<open>The slots that are free and those of the tasks of the caller's user, and the slot a search should find: the lowest
  free one, provided that the caller is root or leaves enough of them and has not too many tasks already.\<close>

definition free_slots :: "kernel \<Rightarrow> nat list \<Rightarrow> nat list" where
  "free_slots s is = filter (\<lambda>i. task s i = None) is"

definition user_slots :: "kernel \<Rightarrow> nat list \<Rightarrow> nat list" where
  "user_slots s is = filter (\<lambda>i. case task s i of None \<Rightarrow> False | Some t \<Rightarrow> uid (tsk s t) = uid (cur s)) is"

definition slot_found :: "kernel \<Rightarrow> int" where
  "slot_found s =
     (if free_slots s task_slots = []
       \<or> (length (free_slots s task_slots) \<le> MIN_TASKS_LEFT_FOR_ROOT
          \<or> length (user_slots s task_slots) > MAX_TASKS_PER_USER) \<and> uid (cur s) \<noteq> 0
      then - EAGAIN else int (hd (free_slots s task_slots)))"

lemma slot_found_cases: "slot_found s = - EAGAIN \<or> (\<exists>i\<in>set task_slots. slot_found s = int i \<and> task s i = None)"
proof (cases "free_slots s task_slots = []")
  case False
  then have "hd (free_slots s task_slots) \<in> set (free_slots s task_slots)" by simp
  then show ?thesis by (auto simp: slot_found_def free_slots_def)
qed (simp add: slot_found_def)

lemma scan_slots_Some:
  assumes "scan_slots s is (f, n, u) = Some r"
  shows "r = (if free_slots s is = [] then f else int (last (free_slots s is)),
              n + length (free_slots s is), u + length (user_slots s is))"
  using assms
proof (induction "is" arbitrary: f n u)
  case (Cons i "is")
  show ?case
  proof (cases "task s i")
    case None
    then show ?thesis using Cons.prems Cons.IH [of "int i" "Suc n" u] by (simp add: free_slots_def user_slots_def)
  next
    case (Some t)
    then show ?thesis
      using Cons.prems Cons.IH [of f n "if uid (tsk s t) = uid (cur s) then Suc u else u"]
      by (simp add: free_slots_def user_slots_def Let_def split: if_split_asm)
  qed
qed (simp add: free_slots_def user_slots_def)

lemma pid_free_exists: "\<exists>m\<in>{1..32767}. \<not> pid_taken s m"
proof -
  let ?used = "\<Union>i\<in>set task_slots. case task s i of None \<Rightarrow> {} | Some t \<Rightarrow> {pid (tsk s t), pgrp (tsk s t), session (tsk s t)}"
  have one: "card (case task s i of None \<Rightarrow> {} | Some t \<Rightarrow> {pid (tsk s t), pgrp (tsk s t), session (tsk s t)}) \<le> 3" for i
    by (cases "task s i") (auto simp: card_insert_if)
  have "card ?used \<le> (\<Sum>i\<in>set task_slots. 3)"
    by (rule order_trans [OF card_UN_le sum_mono]) (simp_all add: one)
  also have "\<dots> = 381" by (simp add: task_slots_def)
  finally have c: "card ?used \<le> 381" .
  have "finite ?used" by (auto split: option.split)
  then have "\<not> {1..32767} \<subseteq> ?used"
    using card_mono [of ?used "{1..32767::int}"] c by auto
  then obtain m where m: "m \<in> {1..32767}" "m \<notin> ?used" by blast
  have "\<not> pid_taken s m"
    using m(2) by (fastforce simp: pid_taken_def uses_pid_def split: option.splits)
  then show ?thesis using m(1) by blast
qed

text \<open>How many numbers the search has to try before it reaches \<^verbatim>\<open>m\<close>.\<close>

definition pid_distance :: "int \<Rightarrow> int \<Rightarrow> nat" where
  "pid_distance m l = nat (if l < m then m - l else 32767 - l + m)"

lemma pid_distance_less:
  assumes "0 \<le> l" "l \<le> 32767" "1 \<le> m" "m \<le> 32767" "next_pid l \<noteq> m"
  shows "pid_distance m (next_pid l) < pid_distance m l"
  using assms by (auto simp: next_pid_eq pid_distance_def split: if_splits)

lemma find_empty_process_total:
  assumes "0 \<le> last_pid s" "last_pid s \<le> 32767"
  shows "\<exists>l. find_empty_process s = Some (slot_found s, s\<lparr>last_pid := l\<rparr>) \<and> 1 \<le> l \<and> l \<le> 32767 \<and> \<not> pid_taken s l"
proof -
  obtain m where m: "1 \<le> m" "m \<le> 32767" "\<not> pid_taken s m" using pid_free_exists [of s] by auto
  show ?thesis
    using assms m
  proof (induction "pid_distance m (last_pid s)" arbitrary: s rule: less_induct)
    case less
    let ?l = "next_pid (last_pid s)"
    let ?s = "s\<lparr>last_pid := ?l\<rparr>"
    have range: "1 \<le> ?l" "?l \<le> 32767" using less.prems by (auto simp: next_pid_eq)
    have taken: "pid_taken (s\<lparr>last_pid := l\<rparr>) = pid_taken s" for l by (simp add: pid_taken_def fun_eq_iff)
    have slot: "free_slots (s\<lparr>last_pid := l\<rparr>) = free_slots s" "user_slots (s\<lparr>last_pid := l\<rparr>) = user_slots s"
      "slot_found (s\<lparr>last_pid := l\<rparr>) = slot_found s" for l
      by (simp_all add: slot_found_def free_slots_def user_slots_def fun_eq_iff cong: option.case_cong)
    show ?case
    proof (cases "scan_slots ?s (rev task_slots) (- EAGAIN, 0, 0)")
      case None
      then have "pid_taken s ?l" by (auto simp: scan_slots_None pid_taken_def)
      then have "?l \<noteq> m" using less.prems by auto
      then have "pid_distance m (last_pid ?s) < pid_distance m (last_pid s)"
        using less.prems pid_distance_less by simp
      from less.hyps [OF this] range less.prems
      obtain l where "find_empty_process ?s = Some (slot_found s, ?s\<lparr>last_pid := l\<rparr>)" "1 \<le> l" "l \<le> 32767" "\<not> pid_taken s l"
        by (auto simp: taken slot)
      then show ?thesis
        using None by (intro exI [of _ l]) (simp add: find_empty_process.simps [of s] Let_def)
    next
      case (Some r)
      have free: "\<not> pid_taken s ?l"
        using Some scan_slots_None [of ?s "rev task_slots" "(- EAGAIN, 0, 0)"] by (auto simp: pid_taken_def)
      have rev: "free_slots s (rev task_slots) = rev (free_slots s task_slots)"
        "user_slots s (rev task_slots) = rev (user_slots s task_slots)"
        by (simp_all add: free_slots_def user_slots_def rev_filter)
      have "find_empty_process s = Some (slot_found s, ?s)"
        using Some scan_slots_Some [OF Some]
        by (simp add: find_empty_process.simps [of s] Let_def slot rev slot_found_def last_rev)
      then show ?thesis using free range by blast
    qed
  qed
qed

section \<open>The process table after a fork\<close>

lemma pid_SET_LINKS: "pid (tsk (SET_LINKS p s) u) = pid (tsk s u)"
  by (simp add: SET_LINKS_def Let_def upd_task_other [where g = pid] upd_opt_other [where g = pid])

lemma ptable_ok_dead: "ptable_ok s ps ch \<Longrightarrow> \<not> live s p \<Longrightarrow> ptable_ok s ps (ch(p := cs))"
  by (simp add: ptable_ok_def tree_ok_def)

lemma ptable_ok_eq: "tsk s' = tsk s \<Longrightarrow> task s' = task s \<Longrightarrow> ptable_ok s' ps ch = ptable_ok s ps ch"
  using slots_ok_task [of s' s] live_def [of s] live_def [of s']
  by (simp add: ptable_ok_def ring_ok_def tree_ok_def child_list_def)

lemma fork_undo:
  assumes ok: "ptable_ok s (ps @ [p]) (ch(c := p # ch c, p := []))" and p: "p \<noteq> init_task" "p_pptr (tsk s p) = c" "p \<noteq> c"
    and i: "0 < i" "i < NR_TASKS" "task s i = Some p" "p \<notin> set ps"
  shows "ptable_ok (REMOVE_LINKS p (s\<lparr>task := (task s)(i := None)\<rparr>)) ps (ch(p := []))"
  using unlink_ptable(2) [OF ok p(1) _ i(1-3)] p i(4)
  by (simp add: remove1_append fun_upd_twist [of c p] fun_upd_idem)

text \<open>What the child of a fork inherits, and what it starts with: a number of its own, no pending signal, disarmed timers,
  no CPU time, no leadership and half of its parent's time slice.\<close>

definition inherited :: "task_struct \<Rightarrow> (u16 \<times> u16 \<times> u16 \<times> u16 \<times> u16 \<times> u16) \<times> int \<times> int \<times> int list \<times> u32 \<times> sigaction list \<times> rlimit list" where
  "inherited t = ((uid t, euid t, suid t, gid t, egid t, sgid t), pgrp t, session t, groups t, blocked t, sigactions t, rlim t)"

definition fresh_child :: "task_struct \<Rightarrow> task_struct \<Rightarrow> int \<Rightarrow> bool" where
  "fresh_child t par n \<longleftrightarrow> inherited t = inherited par \<and> pid t = n \<and> state t = TASK_RUNNING \<and> signal t = 0 \<and> \<not> leader t
     \<and> utime t = 0 \<and> stime t = 0 \<and> it_real_value t = 0 \<and> it_virt_value t = 0 \<and> it_prof_value t = 0
     \<and> counter t = drop_bit 1 (counter par)"

lemma inherited_links [simp]:
  "inherited (t\<lparr>next_task := n\<rparr>) = inherited t" "inherited (t\<lparr>prev_task := n\<rparr>) = inherited t"
  "inherited (t\<lparr>p_ysptr := x\<rparr>) = inherited t" "inherited (t\<lparr>p_osptr := x\<rparr>) = inherited t"
  "inherited (t\<lparr>p_cptr := x\<rparr>) = inherited t"
  by (simp_all add: inherited_def)

lemma inherited_SET_LINKS [simp]: "inherited (tsk (SET_LINKS p s) u) = inherited (tsk s u)"
  by (simp add: SET_LINKS_def Let_def upd_task_other [where g = inherited] upd_opt_other [where g = inherited])

lemma counter_SET_LINKS [simp]: "counter (tsk (SET_LINKS p s) u) = counter (tsk s u)"
  by (simp add: SET_LINKS_def Let_def upd_task_other [where g = counter] upd_opt_other [where g = counter])

lemma sys_fork_ptable:
  assumes ok: "ptable_ok s ps ch" and c: "live s (current s)" and l: "0 \<le> last_pid s" "last_pid s \<le> 32767"
    and p: "\<not> live s p"
  shows "\<exists>r s'. sys_fork (Some p) stack copied is_clone ebx ecx esp s = Some (r, s')
    \<and> (if slot_found s < 0 \<or> \<not> stack \<or> \<not> copied (clone_flags is_clone ebx ecx esp)
       then r = - EAGAIN \<and> ptable_ok s' ps (ch(p := []))
       else 1 \<le> r \<and> r \<le> 32767 \<and> \<not> pid_taken s r \<and> fresh_child (tsk s' p) (cur s) r
         \<and> ptable_ok s' (ps @ [p]) (ch(current s := p # ch (current s), p := [])))"
proof -
  obtain l where nr: "find_empty_process s = Some (slot_found s, s\<lparr>last_pid := l\<rparr>)" "1 \<le> l" "l \<le> 32767" "\<not> pid_taken s l"
    "slot_found s = - EAGAIN \<or> (\<exists>i\<in>set task_slots. slot_found s = int i \<and> task s i = None)"
    using find_empty_process_total [OF l] slot_found_cases by blast
  let ?s = "s\<lparr>last_pid := l\<rparr>"
  have okl: "ptable_ok ?s ps ch" using ok ptable_ok_eq [of ?s s] by simp
  have lv: "live ?s u = live s u" for u by (simp add: live_def)
  show ?thesis
  proof (cases "slot_found s < 0")
    case True
    then show ?thesis using nr okl p lv by (auto simp: sys_fork_def intro!: ptable_ok_dead)
  next
    case False
    then obtain i where i: "slot_found s = int i" "0 < i" "i < NR_TASKS" "task s i = None" using nr(5) by auto
    have pc: "p \<noteq> current s" using p c by auto
    let ?w = "(wqh s)(Chldexit p := wqh s (Chldexit (current s)))"
    let ?b = "?s\<lparr>task := (task s)(i := Some p), tsk := (tsk s)(p := cur s), wqh := ?w\<rparr>"
    let ?t = "child_init ?b (cur s)"
    let ?s1 = "SET_LINKS p (upd_task p (child_init ?b) ?b)"
    let ?a = "?s\<lparr>wqh := ?w\<rparr>"
    have eq: "upd_task p (child_init ?b) ?b = ?a\<lparr>task := (task ?a)(i := Some p), tsk := (tsk ?a)(p := ?t)\<rparr>"
      by (simp add: upd_task_def)
    have "ptable_ok ?a ps ch" using ok ptable_ok_eq [of ?a s] by simp
    moreover have "live ?a u = live s u" for u by (simp add: live_def)
    moreover have par: "p_pptr ?t = current s" "p_cptr ?t = None" by (simp_all add: child_init_def)
    ultimately have ok1: "ptable_ok ?s1 (ps @ [p]) (ch(current s := p # ch (current s), p := []))"
      and live1: "live ?s1 u \<longleftrightarrow> u = p \<or> live s u" for u
      using link_ptable [of ?a ps ch p ?t i] p c i unfolding eq by simp_all
    have q: "p \<noteq> init_task" "p \<notin> set ps"
      using ok p slots_live_init by (auto simp: ptable_ok_def)
    have task1: "task ?s1 i = Some p" "p_pptr (tsk ?s1 p) = current s" "pid (tsk ?s1 p) = l" "current ?s1 = current s"
      by (simp_all add: tsk_upd_task child_init_def pid_SET_LINKS)
    let ?s2 = "upd_task p (child_reset ?s1) ?s1"
    have l2: "same_links ?s1 ?s2" by (rule same_links_upd_task) (simp add: child_reset_def)
    let ?cf = "clone_flags is_clone ebx ecx esp"
    let ?s3 = "upd_task p (\<lambda>t. t\<lparr>exit_signal := uint (?cf AND CSIGNAL), io_bitmap := replicate 33 (NOT 0)\<rparr>) ?s2"
    have l3: "same_links ?s1 ?s3" by (rule same_links_trans [OF l2 same_links_upd_task]) simp
    let ?s4 = "upd_task p (\<lambda>t. t\<lparr>counter := drop_bit 1 (counter (cur ?s3)), state := TASK_RUNNING\<rparr>) ?s3"
    have l4: "same_links ?s1 ?s4" by (rule same_links_trans [OF l3 same_links_upd_task]) simp
    have undo: "ptable_ok (REMOVE_LINKS p (s'\<lparr>task := (task s')(i := None)\<rparr>)) ps (ch(p := []))"
      if "same_links ?s1 s'" for s'
      using fork_undo [of s' ps p ch "current s" i] ok1 ptable_ok_same_links [OF that] q pc i(2,3) task1 that
      by (simp add: same_links_def)
    have ok4: "ptable_ok ?s4 (ps @ [p]) (ch(current s := p # ch (current s), p := []))"
      using ok1 ptable_ok_same_links [OF l4] by blast
    have r4: "pid (tsk ?s4 p) = l" using l4 task1(3) by (simp add: same_links_def)
    have inh1: "inherited (tsk ?s1 p) = inherited (cur s)" "counter (tsk ?s1 (current s)) = counter (cur s)"
      using pc by (simp_all add: tsk_upd_task) (simp add: inherited_def child_init_def)
    have "inherited (tsk ?s4 p) = inherited (tsk ?s1 p)" by (simp add: tsk_upd_task inherited_def child_reset_def)
    then have st4: "fresh_child (tsk ?s4 p) (cur s) l"
      unfolding fresh_child_def using r4 inh1 pc by (simp add: tsk_upd_task child_reset_def)
    have body: "sys_fork (Some p) stack copied is_clone ebx ecx esp s =
        (if \<not> stack then Some (- EAGAIN, REMOVE_LINKS p (?s2\<lparr>task := (task ?s2)(i := None)\<rparr>))
         else if \<not> copied ?cf then Some (- EAGAIN, REMOVE_LINKS p (?s3\<lparr>task := (task ?s3)(i := None)\<rparr>))
         else Some (pid (tsk ?s4 p), ?s4))"
      unfolding sys_fork_def nr(1) Let_def using i(1) by simp
    consider "\<not> stack" | "stack" "\<not> copied ?cf" | "stack" "copied ?cf" by blast
    then show ?thesis
    proof cases
      case 1
      then show ?thesis unfolding body using undo [OF l2] by (simp only: if_True not_False_eq_True simp_thms) blast
    next
      case 2
      then show ?thesis
        unfolding body using undo [OF l3] by (simp only: if_True if_False not_False_eq_True not_True_eq_False simp_thms) blast
    next
      case 3
      then show ?thesis
        unfolding body r4 using False ok4 st4 nr(2-4)
        by (simp only: if_False not_False_eq_True not_True_eq_False simp_thms) blast
    qed
  qed
qed

end
