(* ===== verification/Signal_Calls.thy ===== *)
theory Signal_Calls
  imports Fork
begin

text \<open>
  The signal system calls and the delivery of signals, \<^verbatim>\<open>kernel/signal.c\<close>: blocking masks
  (\<^verbatim>\<open>sys_sigprocmask\<close>, \<^verbatim>\<open>sys_ssetmask\<close>, \<^verbatim>\<open>sys_sigpending\<close>), signal actions (\<^verbatim>\<open>sys_signal\<close>,
  \<^verbatim>\<open>sys_sigaction\<close>), \<^verbatim>\<open>do_signal\<close> with the frames it builds on the user stack, and \<^verbatim>\<open>sys_sigreturn\<close>, which
  takes them down again.  \<^verbatim>\<open>schedule()\<close> is the argument \<^verbatim>\<open>sched\<close>: what the rest of the system does until the
  task runs again; \<^verbatim>\<open>core_dump\<close> of \<^verbatim>\<open>fs/exec.c\<close> is an argument too.  A call of \<^verbatim>\<open>do_exit\<close>, which does not
  return, ends the function with the outcome \<^verbatim>\<open>Sig_Exit\<close>.

  The lemmas show that SIGKILL and SIGSTOP can never be blocked, caught or ignored, that setting an action
  discards exactly the pending signals POSIX asks to discard, and that \<^verbatim>\<open>sys_sigreturn\<close> restores the
  registers and the mask that the frame was built from.
\<close>

section \<open>Masks\<close>

abbreviation (input) SIG_BLOCK :: int where "SIG_BLOCK \<equiv> 0"
abbreviation (input) SIG_UNBLOCK :: int where "SIG_UNBLOCK \<equiv> 1"
abbreviation (input) SIG_SETMASK :: int where "SIG_SETMASK \<equiv> 2"

definition set_blocked :: "u32 \<Rightarrow> kernel \<Rightarrow> kernel" where
  "set_blocked b s = upd_task (current s) (\<lambda>t. t\<lparr>blocked := b\<rparr>) s"

definition sys_sigprocmask :: "int \<Rightarrow> u32 \<Rightarrow> u32 \<Rightarrow> kernel \<Rightarrow> int \<times> kernel" where
  "sys_sigprocmask how nset oset s =
    (let old_set = blocked (cur s);
         finish = (\<lambda>s. if oset \<noteq> 0
                    then let error = verify_area VERIFY_WRITE oset 4
                         in if error \<noteq> 0 then (error, s) else (0, s\<lparr>fsmem := put_fs_long old_set oset (fsmem s)\<rparr>)
                    else (0, s))
     in if nset \<noteq> 0
        then let error = verify_area VERIFY_READ nset 4
             in if error \<noteq> 0 then (error, s)
                else let new_set = get_fs_long (fsmem s) nset AND BLOCKABLE
                     in if how = SIG_BLOCK then finish (set_blocked (blocked (cur s) OR new_set) s)
                        else if how = SIG_UNBLOCK then finish (set_blocked (blocked (cur s) AND NOT new_set) s)
                        else if how = SIG_SETMASK then finish (set_blocked new_set s)
                        else (- EINVAL, s)
        else finish s)"

definition sys_sgetmask :: "kernel \<Rightarrow> u32" where
  "sys_sgetmask s = blocked (cur s)"

definition sys_ssetmask :: "u32 \<Rightarrow> kernel \<Rightarrow> u32 \<times> kernel" where
  "sys_ssetmask newmask s = (blocked (cur s), set_blocked (newmask AND BLOCKABLE) s)"

definition sys_sigpending :: "u32 \<Rightarrow> kernel \<Rightarrow> int \<times> kernel" where
  "sys_sigpending nset s =
    (let error = verify_area VERIFY_WRITE nset 4
     in (error, if error = 0 then s\<lparr>fsmem := put_fs_long (blocked (cur s) AND signal (cur s)) nset (fsmem s)\<rparr> else s))"

section \<open>Actions\<close>

definition upd_cur :: "(task_struct \<Rightarrow> task_struct) \<Rightarrow> kernel \<Rightarrow> kernel" where
  "upd_cur f s = upd_task (current s) f s"

definition check_pending :: "nat \<Rightarrow> kernel \<Rightarrow> kernel" where
  "check_pending signum s =
    (let h = sa_handler (sigactions (cur s) ! (signum - 1));
         clear = upd_cur (\<lambda>t. t\<lparr>signal := signal t AND NOT (S_mask signum)\<rparr>) s
     in if h = SIG_IGN then (if signum = SIGCHLD then s else clear)
        else if h = SIG_DFL
             then (if signum \<noteq> SIGCONT \<and> signum \<noteq> SIGCHLD \<and> signum \<noteq> SIGWINCH then s else clear)
             else s)"

definition set_action :: "nat \<Rightarrow> sigaction \<Rightarrow> kernel \<Rightarrow> kernel" where
  "set_action signum sa s = upd_cur (\<lambda>t. t\<lparr>sigactions := (sigactions t)[signum - 1 := sa]\<rparr>) s"

definition bad_signum :: "int \<Rightarrow> bool" where
  "bad_signum signum \<longleftrightarrow> signum < 1 \<or> signum > 32 \<or> signum = int SIGKILL \<or> signum = int SIGSTOP"

definition sys_signal :: "int \<Rightarrow> u32 \<Rightarrow> kernel \<Rightarrow> int \<times> kernel" where
  "sys_signal signum handler s =
     (if bad_signum signum then (- EINVAL, s)
      else if handler \<ge> TASK_SIZE then (- EFAULT, s)
      else let n = nat signum;
               tmp = \<lparr>sa_handler = handler, sa_mask = 0, sa_flags = SA_ONESHOT OR SA_NOMASK, sa_restorer = 0\<rparr>;
               old = sa_handler (sigactions (cur s) ! (n - 1))
           in (to_s32 old, check_pending n (set_action n tmp s)))"

text \<open>\<^verbatim>\<open>struct sigaction\<close> in user memory: four longs.\<close>

definition get_sigaction :: "umem \<Rightarrow> u32 \<Rightarrow> sigaction" where
  "get_sigaction m a = \<lparr>sa_handler = get_fs_long m a, sa_mask = get_fs_long m (a + 4),
     sa_flags = get_fs_long m (a + 8), sa_restorer = get_fs_long m (a + 12)\<rparr>"

definition put_sigaction :: "sigaction \<Rightarrow> u32 \<Rightarrow> umem \<Rightarrow> umem" where
  "put_sigaction sa a m = put_longs [sa_handler sa, sa_mask sa, sa_flags sa, sa_restorer sa] a m"

definition adjust_mask :: "nat \<Rightarrow> sigaction \<Rightarrow> sigaction" where
  "adjust_mask signum sa =
     (if sa_flags sa AND SA_NOMASK \<noteq> 0 then sa\<lparr>sa_mask := 0\<rparr>
      else sa\<lparr>sa_mask := (sa_mask sa OR S_mask signum) AND BLOCKABLE\<rparr>)"

definition sys_sigaction :: "int \<Rightarrow> u32 \<Rightarrow> u32 \<Rightarrow> kernel \<Rightarrow> int \<times> kernel" where
  "sys_sigaction signum action oldaction s =
     (if bad_signum signum then (- EINVAL, s)
      else
        let n = nat signum;
            err = (if action \<noteq> 0 then verify_area VERIFY_READ action 16 else 0);
            new_sa = adjust_mask n (get_sigaction (fsmem s) action)
        in if err \<noteq> 0 then (err, s)
           else if action \<noteq> 0 \<and> TASK_SIZE \<le> sa_handler new_sa then (- EFAULT, s)
           else let err = (if oldaction \<noteq> 0 then verify_area VERIFY_WRITE oldaction 16 else 0)
                in if err \<noteq> 0 then (err, s)
                   else let s = (if oldaction \<noteq> 0
                                 then s\<lparr>fsmem := put_sigaction (sigactions (cur s) ! (n - 1)) oldaction (fsmem s)\<rparr>
                                 else s);
                            s = (if action \<noteq> 0 then check_pending n (set_action n new_sa s) else s)
                        in (0, s))"

section \<open>Registers and signal frames\<close>

record pt_regs =
  r_ebx :: u32
  r_ecx :: u32
  r_edx :: u32
  r_esi :: u32
  r_edi :: u32
  r_ebp :: u32
  r_eax :: u32
  r_ds :: u16
  r_es :: u16
  r_fs :: u16
  r_gs :: u16
  r_orig_eax :: u32
  r_eip :: u32
  r_cs :: u16
  r_eflags :: u32
  r_esp :: u32
  r_ss :: u16

text \<open>The trap information that \<^verbatim>\<open>current->tss\<close> keeps of the last exception.\<close>

record trap_info =
  trap_no :: u32
  error_code :: u32
  cr2 :: u32

abbreviation (input) USER_CS :: u16 where "USER_CS \<equiv> 0x23"
abbreviation (input) USER_DS :: u16 where "USER_DS \<equiv> 0x2b"
abbreviation (input) NR_sigreturn :: u32 where "NR_sigreturn \<equiv> 119"

definition frame_longs :: "u32 \<Rightarrow> u32 \<Rightarrow> u32 \<Rightarrow> pt_regs \<Rightarrow> trap_info \<Rightarrow> nat \<Rightarrow> u32 \<Rightarrow> u32 list" where
  "frame_longs frame fp eip regs ti signr oldmask =
     [frame + 96, of_nat signr, ucast (r_gs regs), ucast (r_fs regs), ucast (r_es regs), ucast (r_ds regs),
      r_edi regs, r_esi regs, r_ebp regs, fp, r_ebx regs, r_edx regs, r_ecx regs, r_eax regs,
      trap_no ti, error_code ti, eip, ucast (r_cs regs), r_eflags regs, r_esp regs, ucast (r_ss regs),
      0, oldmask, cr2 ti]"

text \<open>\<^verbatim>\<open>setup_frame\<close>: the new frame pointer and user memory, or \<^verbatim>\<open>None\<close> where it calls \<^verbatim>\<open>do_exit(SIGSEGV)\<close>.\<close>

definition setup_frame :: "sigaction \<Rightarrow> u32 \<Rightarrow> u32 \<Rightarrow> pt_regs \<Rightarrow> trap_info \<Rightarrow> nat \<Rightarrow> u32 \<Rightarrow> umem \<Rightarrow> (u32 \<times> umem) option" where
  "setup_frame sa fp eip regs ti signr oldmask m =
    (let frame = (if r_ss regs \<noteq> USER_DS then sa_restorer sa else fp) - 128
     in if verify_area VERIFY_WRITE frame 128 \<noteq> 0 then None
        else let m = put_longs (frame_longs frame fp eip regs ti signr oldmask) frame m;
                 m = put_fs_long 0x0000b858 (frame + 96) m;
                 m = put_fs_long 0x80cd0000 (frame + 100) m;
                 m = put_fs_long NR_sigreturn (frame + 98) m
             in Some (frame, m))"

text \<open>\<^verbatim>\<open>sys_sigreturn\<close>; \<^verbatim>\<open>None\<close> stands for the jump to \<^verbatim>\<open>badframe\<close>.\<close>

definition copy_seg :: "bool \<Rightarrow> u16 \<Rightarrow> bool" where
  "copy_seg strict x \<longleftrightarrow>
     \<not> (if strict then x AND 0xfffc = 0 \<or> x AND 3 \<noteq> 3 else x AND 0xfffc \<noteq> 0 \<and> x AND 3 \<noteq> 3)"

definition sigcontext_word :: "umem \<Rightarrow> u32 \<Rightarrow> nat \<Rightarrow> u32" where
  "sigcontext_word m a k = get_fs_long m (a + 4 * of_nat k)"

definition sys_sigreturn :: "pt_regs \<Rightarrow> kernel \<Rightarrow> (u32 \<times> pt_regs \<times> kernel) option" where
  "sys_sigreturn regs s =
     (if verify_area VERIFY_READ (r_esp regs) 88 \<noteq> 0 then None
      else let ctx = sigcontext_word (fsmem s) (r_esp regs);
               seg = (\<lambda>k. ucast (ctx k) :: u16);
               s = set_blocked (ctx 20 AND BLOCKABLE) s
           in if copy_seg False (seg 3) \<and> copy_seg False (seg 2) \<and> copy_seg False (seg 1) \<and> copy_seg False (seg 0)
                 \<and> copy_seg True (seg 18) \<and> copy_seg True (seg 15)
              then Some (ctx 11,
                regs\<lparr>r_ds := seg 3, r_es := seg 2, r_fs := seg 1, r_gs := seg 0, r_ss := seg 18, r_cs := seg 15,
                  r_eip := ctx 14, r_ecx := ctx 10, r_edx := ctx 9, r_ebx := ctx 8, r_esp := ctx 7, r_ebp := ctx 6,
                  r_edi := ctx 4, r_esi := ctx 5,
                  r_eflags := (r_eflags regs AND NOT 0xCD5) OR (ctx 16 AND 0xCD5), r_orig_eax := NOT 0\<rparr>, s)
              else None)"

section \<open>Delivery\<close>

text \<open>\<^verbatim>\<open>bsf\<close>: the number of the lowest set bit.\<close>

definition bsf :: "u32 \<Rightarrow> nat" where
  "bsf w = the (find (bit w) [0..<32])"

text \<open>The part for a traced task: \<^verbatim>\<open>None\<close> in the inner option is a \<^verbatim>\<open>continue\<close>, otherwise the signal the
  tracer lets through.\<close>

definition ptrace_filter :: "(kernel \<Rightarrow> kernel) \<Rightarrow> nat \<Rightarrow> kernel \<Rightarrow> (nat option \<times> kernel) option" where
  "ptrace_filter sched signr s =
     do { let s = upd_cur (\<lambda>t. t\<lparr>exit_code := int signr, state := TASK_STOPPED\<rparr>) s;
          s \<leftarrow> notify_parent (current s) s;
          let s = sched s;
          let signr = unat (to_u32 (exit_code (cur s)));
          if signr = 0 then Some (None, s)
          else let s = upd_cur (\<lambda>t. t\<lparr>exit_code := 0\<rparr>) s
               in if signr = SIGSTOP then Some (None, s)
                  else if S_mask signr AND blocked (cur s) \<noteq> 0
                  then Some (None, upd_cur (\<lambda>t. t\<lparr>signal := signal t OR S_mask signr\<rparr>) s)
                  else Some (Some signr, s) }"

text \<open>SIGCHLD with action SIG_IGN: children are reaped until there is none left.\<close>

partial_function (option) reap_children :: "waddr \<Rightarrow> kernel \<Rightarrow> kernel option" where
  "reap_children w s =
     (case sys_waitpid w (-1) 0 1 s of
        None \<Rightarrow> None
      | Some (r, s') \<Rightarrow>
          (case r of W_Return n \<Rightarrow> if n > 0 then reap_children w s' else Some s' | W_Sleep \<Rightarrow> None))"

datatype sig_next = Next kernel | Handler nat kernel | Die int kernel

text \<open>The default action of a signal for a task other than \<^verbatim>\<open>init\<close>.\<close>

definition default_action ::
  "(kernel \<Rightarrow> kernel) \<Rightarrow> (nat \<Rightarrow> kernel \<Rightarrow> bool \<times> kernel) \<Rightarrow> nat \<Rightarrow> kernel \<Rightarrow> sig_next option" where
  "default_action sched core_dump signr s =
     (if signr \<in> {SIGCONT, SIGCHLD, SIGWINCH} then Some (Next s)
      else if signr \<in> {SIGSTOP, SIGTSTP, SIGTTIN, SIGTTOU}
      then if flags (cur s) AND PF_PTRACED \<noteq> 0 then Some (Next s)
           else do { let s = upd_cur (\<lambda>t. t\<lparr>state := TASK_STOPPED, exit_code := int signr\<rparr>) s;
                     s \<leftarrow> (if sa_flags (sigactions (tsk s (p_pptr (cur s))) ! (SIGCHLD - 1)) AND SA_NOCLDSTOP = 0
                           then notify_parent (current s) s else Some s);
                     Some (Next (sched s)) }
      else let (core, s) = (if signr \<in> {SIGQUIT, SIGILL, SIGTRAP, SIGIOT, SIGFPE, SIGSEGV}
                            then core_dump signr s else (False, s));
               code = (if core then of_nat signr OR 0x80 else of_nat signr) :: u32
           in Some (Die (to_s32 code) (upd_cur (\<lambda>t. t\<lparr>signal := signal t OR S_mask (unat (code AND 0x7f))\<rparr>) s)))"

text \<open>One iteration of the first loop, for the signals in \<^verbatim>\<open>avail = current->signal & mask\<close>.\<close>

definition sig_iter ::
  "(kernel \<Rightarrow> kernel) \<Rightarrow> (nat \<Rightarrow> kernel \<Rightarrow> bool \<times> kernel) \<Rightarrow> waddr \<Rightarrow> u32 \<Rightarrow> kernel \<Rightarrow> sig_next option" where
  "sig_iter sched core_dump w avail s =
     do { let n = bsf avail;
          let s = upd_cur (\<lambda>t. t\<lparr>signal := signal t AND NOT (push_bit n 1)\<rparr>) s;
          (go, s) \<leftarrow> (if flags (cur s) AND PF_PTRACED \<noteq> 0 \<and> n + 1 \<noteq> SIGKILL
                      then ptrace_filter sched (n + 1) s else Some (Some (n + 1), s));
          case go of
            None \<Rightarrow> Some (Next s)
          | Some signr \<Rightarrow>
              let h = sa_handler (sigactions (cur s) ! (signr - 1))
              in if h = SIG_IGN
                 then if signr \<noteq> SIGCHLD then Some (Next s)
                      else do { s \<leftarrow> reap_children w s; Some (Next s) }
                 else if h = SIG_DFL
                 then if pid (cur s) = 1 then Some (Next s) else default_action sched core_dump signr s
                 else Some (Handler signr s) }"

definition restart_eax :: "u32 \<Rightarrow> pt_regs \<Rightarrow> pt_regs" where
  "restart_eax sa_fl regs =
     (if 0 \<le> to_s32 (r_orig_eax regs) \<and>
         (to_s32 (r_eax regs) = - ERESTARTNOHAND \<or> to_s32 (r_eax regs) = - ERESTARTSYS \<and> sa_fl AND SA_RESTART = 0)
      then regs\<lparr>r_eax := to_u32 (- EINTR)\<rparr> else regs)"

datatype sig_outcome = Sig_Done u32 pt_regs kernel | Sig_Exit int kernel

partial_function (option) sig_loop ::
  "(kernel \<Rightarrow> kernel) \<Rightarrow> (nat \<Rightarrow> kernel \<Rightarrow> bool \<times> kernel) \<Rightarrow> waddr \<Rightarrow> u32 \<Rightarrow> u32 \<Rightarrow> pt_regs \<Rightarrow> kernel \<Rightarrow> sig_outcome option" where
  "sig_loop sched core_dump w msk hs regs s =
     (if signal (cur s) AND msk = 0 then Some (Sig_Done hs regs s)
      else case sig_iter sched core_dump w (signal (cur s) AND msk) s of
             None \<Rightarrow> None
           | Some r \<Rightarrow>
               (case r of
                  Next s' \<Rightarrow> sig_loop sched core_dump w msk hs regs s'
                | Die code s' \<Rightarrow> Some (Sig_Exit code s')
                | Handler signr s' \<Rightarrow>
                    (let sa = sigactions (cur s') ! (signr - 1)
                     in sig_loop sched core_dump w (msk AND NOT (sa_mask sa)) (hs OR S_mask signr)
                          (restart_eax (sa_flags sa) regs) s')))"

text \<open>The second loop builds one frame per handler, for the signal numbers given; the innermost frame is the
  last one, so its handler runs first.\<close>

fun build_frames :: "trap_info \<Rightarrow> u32 \<Rightarrow> nat list \<Rightarrow> u32 \<Rightarrow> u32 \<Rightarrow> u32 \<Rightarrow> pt_regs \<Rightarrow> kernel \<Rightarrow> sig_outcome" where
  "build_frames ti hs [] frame eip oldmask regs s = Sig_Done 1 (regs\<lparr>r_esp := frame, r_eip := eip\<rparr>) s"
| "build_frames ti hs (signr # ns) frame eip oldmask regs s =
     (if S_mask signr > hs then Sig_Done 1 (regs\<lparr>r_esp := frame, r_eip := eip\<rparr>) s
      else if S_mask signr AND hs = 0 then build_frames ti hs ns frame eip oldmask regs s
      else let sa = sigactions (cur s) ! (signr - 1)
           in case setup_frame sa frame eip regs ti signr oldmask (fsmem s) of
                None \<Rightarrow> Sig_Exit (int SIGSEGV) s
              | Some (frame', m) \<Rightarrow>
                  let s = s\<lparr>fsmem := m\<rparr>;
                      s = (if sa_flags sa AND SA_ONESHOT \<noteq> 0 then set_action signr (sa\<lparr>sa_handler := 0\<rparr>) s else s);
                      regs = regs\<lparr>r_cs := USER_CS, r_ss := USER_DS, r_ds := USER_DS, r_es := USER_DS,
                                  r_gs := USER_DS, r_fs := USER_DS\<rparr>;
                      s = upd_cur (\<lambda>t. t\<lparr>blocked := blocked t OR sa_mask sa\<rparr>) s
                  in build_frames ti hs ns frame' (sa_handler sa) (oldmask OR sa_mask sa) regs s)"

definition restart_call :: "pt_regs \<Rightarrow> pt_regs" where
  "restart_call regs =
     (if 0 \<le> to_s32 (r_orig_eax regs) \<and>
         to_s32 (r_eax regs) \<in> {- ERESTARTNOHAND, - ERESTARTSYS, - ERESTARTNOINTR}
      then regs\<lparr>r_eax := r_orig_eax regs, r_eip := r_eip regs - 2\<rparr> else regs)"

text \<open>\<^verbatim>\<open>Sig_Done 0\<close> and \<^verbatim>\<open>Sig_Done 1\<close> are the two return values.  That \<^verbatim>\<open>trap_no\<close> and \<^verbatim>\<open>error_code\<close> are cleared
  at the end is left to the caller, who owns them.\<close>

definition do_signal ::
  "(kernel \<Rightarrow> kernel) \<Rightarrow> (nat \<Rightarrow> kernel \<Rightarrow> bool \<times> kernel) \<Rightarrow> waddr \<Rightarrow> trap_info \<Rightarrow> u32 \<Rightarrow> pt_regs \<Rightarrow> kernel \<Rightarrow> sig_outcome option" where
  "do_signal sched core_dump w ti oldmask regs s =
     do { r \<leftarrow> sig_loop sched core_dump w (NOT (blocked (cur s))) 0 regs s;
          case r of
            Sig_Exit code s \<Rightarrow> Some (Sig_Exit code s)
          | Sig_Done hs regs s \<Rightarrow>
              let regs = restart_call regs
              in if hs = 0 then Some (Sig_Done 0 regs s)
                 else Some (build_frames ti hs [1..<33] (r_esp regs) (r_eip regs) oldmask regs s) }"

text \<open>\<^verbatim>\<open>sys_sigsuspend\<close> before and after its call of \<^verbatim>\<open>schedule()\<close>.  The first part returns the saved mask, which
  \<^verbatim>\<open>do_signal\<close> puts into the frames; in the second, \<^verbatim>\<open>Sig_Done 0\<close> means that the task goes back to sleep and
  \<^verbatim>\<open>Sig_Done 1\<close> that the call returns \<^verbatim>\<open>-EINTR\<close>.\<close>

definition sigsuspend_enter :: "u32 \<Rightarrow> pt_regs \<Rightarrow> kernel \<Rightarrow> u32 \<times> pt_regs \<times> kernel" where
  "sigsuspend_enter nset regs s =
     (blocked (cur s), regs\<lparr>r_eax := to_u32 (- EINTR)\<rparr>,
      upd_cur (\<lambda>t. t\<lparr>state := TASK_INTERRUPTIBLE\<rparr>) (set_blocked (nset AND BLOCKABLE) s))"

definition sigsuspend_resume ::
  "(kernel \<Rightarrow> kernel) \<Rightarrow> (nat \<Rightarrow> kernel \<Rightarrow> bool \<times> kernel) \<Rightarrow> waddr \<Rightarrow> trap_info \<Rightarrow> u32 \<Rightarrow> pt_regs \<Rightarrow> kernel \<Rightarrow> sig_outcome option" where
  "sigsuspend_resume sched core_dump w ti msk regs s =
     do { r \<leftarrow> do_signal sched core_dump w ti msk regs s;
          Some (case r of
                  Sig_Exit code s \<Rightarrow> Sig_Exit code s
                | Sig_Done v regs s \<Rightarrow>
                    if v = 0 then Sig_Done 0 regs (upd_cur (\<lambda>t. t\<lparr>state := TASK_INTERRUPTIBLE\<rparr>) s) else Sig_Done v regs s) }"

section \<open>Signal frames\<close>

lemma code_bytes_far:
  assumes "j < 24"
  shows "get_fs_long (put_fs_long v (f + 98) m) (f + 4 * of_nat j) = get_fs_long m (f + 4 * of_nat j)"
proof -
  have far: "4 \<le> unat (4 * of_nat j + k - 98 :: u32)" if k: "unat k \<le> 3" for k :: u32
  proof -
    have "4 * of_nat j + k = (of_nat (4 * j + unat k) :: u32)" by simp
    then have "unat (4 * of_nat j + k :: u32) = 4 * j + unat k"
      using assms k by (simp only: unat_of_nat) simp
    note x = this
    show ?thesis
    proof (rule ccontr)
      let ?y = "4 * of_nat j + k - 98 :: u32"
      assume "\<not> 4 \<le> unat ?y"
      then have "unat (?y + 98) = unat ?y + unat (98 :: u32)" by (intro unat_add_lem [THEN iffD1]) simp
      then show False using x assms k by simp
    qed
  qed
  show ?thesis
    by (rule get_fs_long_cong; rule put_fs_long_other)
      (use far [of 0] far [of 1] far [of 2] far [of 3] in \<open>simp_all add: algebra_simps\<close>)
qed

lemma length_frame [simp]: "length (frame_longs frame fp eip regs ti signr oldmask) = 24"
  by (simp add: frame_longs_def)

lemma setup_frame_word:
  assumes "setup_frame sa fp eip regs ti signr oldmask m0 = Some (frame, m)" and "j < 24"
  shows "get_fs_long m (frame + 4 * of_nat j) = frame_longs frame fp eip regs ti signr oldmask ! j"
proof -
  let ?ls = "frame_longs frame fp eip regs ti signr oldmask @ [0x0000b858, 0x80cd0000]"
  have m: "m = put_fs_long NR_sigreturn (frame + 98) (put_longs ?ls frame m0)"
    using assms(1) by (auto simp: setup_frame_def frame_longs_def Let_def split: if_splits)
  have "get_fs_long (put_longs ?ls frame m0) (frame + 4 * of_nat j) = ?ls ! j"
    using assms(2) by (intro get_put_longs) simp_all
  then show ?thesis using assms(2) unfolding m by (simp only: code_bytes_far) (simp add: nth_append)
qed

lemma sigcontext_of_frame:
  assumes "setup_frame sa fp eip regs ti signr oldmask m0 = Some (frame, m)" and "k < 22"
  shows "sigcontext_word m (frame + 8) k = frame_longs frame fp eip regs ti signr oldmask ! (k + 2)"
  using setup_frame_word [OF assms(1), of "k + 2"] assms(2)
  by (simp add: sigcontext_word_def algebra_simps)

lemma verify_area_inner:
  assumes "verify_area vt a n = 0" and "unat d + unat k \<le> unat n" "0 < k"
  shows "verify_area vt' (a + d) k = 0"
proof -
  note r = verify_area_user_range [OF assms(1)]
  have u: "unat (a + d) = unat a + unat d" using r assms by (simp add: unat_add_lem [THEN iffD1])
  have kp: "0 < unat k" using assms(3) by (simp add: word_greater_zero_iff unat_gt_0)
  then have lt: "a + d < TASK_SIZE" using r assms u by (simp add: word_less_nat_alt)
  then have "unat (TASK_SIZE - (a + d)) = unat TASK_SIZE - unat (a + d)" by (intro unat_sub) simp
  then have "k \<le> TASK_SIZE - (a + d)" using r assms u by (simp add: word_le_nat_alt)
  then show ?thesis using lt by (simp add: verify_area_def not_le not_less)
qed

lemma ucast_ucast_seg: "ucast (ucast x :: u32) = x" for x :: u16
  by (rule bit_word_eqI) (simp add: bit_simps)

lemma sigreturn_of_frame:
  assumes fr: "setup_frame sa fp eip regs ti signr oldmask (fsmem s) = Some (frame, m)"
    and seg: "copy_seg False (r_ds regs)" "copy_seg False (r_es regs)" "copy_seg False (r_fs regs)"
      "copy_seg False (r_gs regs)" "copy_seg True (r_ss regs)" "copy_seg True (r_cs regs)"
    and at: "r_esp regs' = frame + 8"
  shows "sys_sigreturn regs' (s\<lparr>fsmem := m\<rparr>) =
    Some (r_eax regs,
      regs\<lparr>r_eax := r_eax regs', r_eip := eip, r_esp := fp, r_orig_eax := NOT 0,
        r_eflags := (r_eflags regs' AND NOT 0xCD5) OR (r_eflags regs AND 0xCD5)\<rparr>,
      set_blocked (oldmask AND BLOCKABLE) (s\<lparr>fsmem := m\<rparr>))"
proof -
  have "verify_area VERIFY_WRITE frame 128 = 0"
    using fr by (auto simp: setup_frame_def Let_def split: if_splits)
  then have v: "verify_area VERIFY_READ (frame + 8) 88 = 0"
    by (rule verify_area_inner) simp_all
  have w: "sigcontext_word m (frame + 8) k = frame_longs frame fp eip regs ti signr oldmask ! (k + 2)" if "k < 22" for k
    by (rule sigcontext_of_frame [OF fr that])
  show ?thesis
    unfolding sys_sigreturn_def at
    using v seg by (simp add: w frame_longs_def ucast_ucast_seg Let_def)
qed

section \<open>SIGKILL and SIGSTOP\<close>

text \<open>What every task keeps: the two signals are not blocked, by the task or by a handler's mask, and have
  their default action.\<close>

definition mask_ok :: "u32 \<Rightarrow> bool" where
  "mask_ok w \<longleftrightarrow> \<not> bit w (SIGKILL - 1) \<and> \<not> bit w (SIGSTOP - 1)"

definition sig_ok :: "task_struct \<Rightarrow> bool" where
  "sig_ok t \<longleftrightarrow> mask_ok (blocked t) \<and> length (sigactions t) = 32
     \<and> list_all (\<lambda>sa. mask_ok (sa_mask sa)) (sigactions t)
     \<and> sa_handler (sigactions t ! (SIGKILL - 1)) = SIG_DFL \<and> sa_handler (sigactions t ! (SIGSTOP - 1)) = SIG_DFL"

definition sigs_ok :: "kernel \<Rightarrow> bool" where
  "sigs_ok s \<longleftrightarrow> (\<forall>t. sig_ok (tsk s t))"

lemma mask_ok_simps [simp]:
  "mask_ok 0" "mask_ok (w AND BLOCKABLE)" "mask_ok v \<Longrightarrow> mask_ok w \<Longrightarrow> mask_ok (v OR w)"
  "mask_ok v \<Longrightarrow> mask_ok (v AND w)"
  by (auto simp: mask_ok_def word_mask_simps)

lemma sigs_ok_upd_task:
  assumes "sigs_ok s" and "\<And>t. sig_ok t \<Longrightarrow> sig_ok (f t)"
  shows "sigs_ok (upd_task p f s)"
  using assms by (simp add: sigs_ok_def tsk_upd_task)

lemma sigs_ok_same: "tsk s' = tsk s \<Longrightarrow> sigs_ok s' = sigs_ok s"
  by (simp add: sigs_ok_def)

lemma sigs_ok_mem [simp]: "sigs_ok (s\<lparr>fsmem := m\<rparr>) = sigs_ok s"
  by (rule sigs_ok_same) simp

lemma sigs_ok_set_blocked [simp]: "sigs_ok s \<Longrightarrow> mask_ok b \<Longrightarrow> sigs_ok (set_blocked b s)"
  unfolding set_blocked_def by (erule sigs_ok_upd_task) (simp add: sig_ok_def)

lemma sigs_ok_cur: "sigs_ok s \<Longrightarrow> mask_ok (blocked (cur s))"
  by (simp add: sigs_ok_def sig_ok_def)

lemma sig_ok_update:
  assumes "sig_ok t" and "mask_ok (sa_mask sa)" and "n \<noteq> SIGKILL - 1" "n \<noteq> SIGSTOP - 1"
  shows "sig_ok (t\<lparr>sigactions := (sigactions t)[n := sa]\<rparr>)"
  using assms set_update_subset_insert [of "sigactions t" n sa] by (auto simp: sig_ok_def list_all_iff)

lemma sig_ok_update_dfl:
  assumes "sig_ok t" and "mask_ok (sa_mask sa)" and "sa_handler sa = SIG_DFL"
  shows "sig_ok (t\<lparr>sigactions := (sigactions t)[n := sa]\<rparr>)"
proof -
  have h: "sa_handler ((sigactions t)[n := sa] ! k) = SIG_DFL"
    if "k < 32" "sa_handler (sigactions t ! k) = SIG_DFL" "length (sigactions t) = 32" for k
    using that assms(3) by (cases "n = k") simp_all
  show ?thesis
    using assms set_update_subset_insert [of "sigactions t" n sa]
    by (auto simp: sig_ok_def list_all_iff h)
qed

lemma sigs_ok_set_action:
  assumes "sigs_ok s" "\<not> bad_signum (int n)" "mask_ok (sa_mask sa)"
  shows "sigs_ok (set_action n sa s)"
  unfolding set_action_def upd_cur_def
  using assms(2,3) by (intro sigs_ok_upd_task [OF assms(1)] sig_ok_update) (auto simp: bad_signum_def)

lemma sigs_ok_check_pending: "sigs_ok s \<Longrightarrow> sigs_ok (check_pending n s)"
  unfolding check_pending_def upd_cur_def Let_def
  by (auto intro!: sigs_ok_upd_task simp: sig_ok_def)

lemma sigs_ok_adjust: "mask_ok (sa_mask (adjust_mask n sa))"
  by (simp add: adjust_mask_def)

lemma sig_ok_fields [simp]:
  "sig_ok (t\<lparr>next_task := a\<rparr>) = sig_ok t" "sig_ok (t\<lparr>prev_task := a\<rparr>) = sig_ok t"
  "sig_ok (t\<lparr>p_cptr := b\<rparr>) = sig_ok t" "sig_ok (t\<lparr>p_ysptr := b\<rparr>) = sig_ok t" "sig_ok (t\<lparr>p_osptr := b\<rparr>) = sig_ok t"
  "sig_ok (child_init s t) = sig_ok t" "sig_ok (child_reset s t) = sig_ok t"
  "sig_ok (t\<lparr>exit_signal := e, io_bitmap := f\<rparr>) = sig_ok t" "sig_ok (t\<lparr>counter := c, state := d\<rparr>) = sig_ok t"
  by (simp_all add: sig_ok_def child_init_def child_reset_def)

lemma sig_ok_links:
  "sig_ok (tsk (SET_LINKS p s) t) = sig_ok (tsk s t)" "sig_ok (tsk (REMOVE_LINKS p s) t) = sig_ok (tsk s t)"
  by (simp_all add: SET_LINKS_def REMOVE_LINKS_def Let_def upd_task_other [where g = sig_ok]
      upd_opt_other [where g = sig_ok] split: option.split)

lemma sigs_ok_links: "sigs_ok (SET_LINKS p s) = sigs_ok s" "sigs_ok (REMOVE_LINKS p s) = sigs_ok s"
  by (simp_all add: sigs_ok_def sig_ok_links)

lemma sigs_ok_send: "sigs_ok s \<Longrightarrow> sigs_ok (snd (send_sig sig po priv s))"
  by (cases po; cases "sig > 32")
    (auto simp: send_sig_bad send_sig_eq sig_ok_def intro!: sigs_ok_upd_task)

lemma sigs_ok_procmask: "sigs_ok s \<Longrightarrow> sigs_ok (snd (sys_sigprocmask how nset oset s))"
  by (simp add: sys_sigprocmask_def Let_def sigs_ok_cur)

lemma sigs_ok_ssetmask: "sigs_ok s \<Longrightarrow> sigs_ok (snd (sys_ssetmask m s))"
  by (simp add: sys_ssetmask_def)

lemma sigs_ok_signal: "sigs_ok s \<Longrightarrow> sigs_ok (snd (sys_signal n h s))"
  by (auto simp: sys_signal_def Let_def bad_signum_def intro!: sigs_ok_check_pending sigs_ok_set_action)

lemma sigs_ok_sigaction: "sigs_ok s \<Longrightarrow> sigs_ok (snd (sys_sigaction n a b s))"
  by (auto simp: sys_sigaction_def Let_def sigs_ok_adjust bad_signum_def
      intro!: sigs_ok_check_pending sigs_ok_set_action)

lemma sigs_ok_sigreturn: "sigs_ok s \<Longrightarrow> sys_sigreturn regs s = Some (v, regs', s') \<Longrightarrow> sigs_ok s'"
  by (auto simp: sys_sigreturn_def Let_def split: if_splits)

lemma sigs_ok_frames:
  assumes "sigs_ok s" and "build_frames ti hs ns frame eip oldmask regs s = Sig_Done v regs' s'"
    and "\<forall>n\<in>set ns. 0 < n \<and> n \<le> 32"
  shows "sigs_ok s'"
  using assms
proof (induction ti hs ns frame eip oldmask regs s rule: build_frames.induct)
  case (2 ti hs signr ns frame eip oldmask regs s)
  let ?sa = "sigactions (cur s) ! (signr - 1)"
  show ?case
  proof (cases "S_mask signr > hs \<or> S_mask signr AND hs = 0")
    case True
    then show ?thesis using 2 by (auto split: if_splits)
  next
    case False
    have mo: "mask_ok (sa_mask ?sa)"
    proof -
      have "list_all (\<lambda>sa. mask_ok (sa_mask sa)) (sigactions (cur s))" "signr - 1 < length (sigactions (cur s))"
        using 2(3,5) by (auto simp: sigs_ok_def sig_ok_def)
      then show ?thesis by (simp add: list_all_length)
    qed
    obtain frame' m where sf: "setup_frame ?sa frame eip regs ti signr oldmask (fsmem s) = Some (frame', m)"
      using False 2(4) by (auto simp: Let_def split: option.splits)
    let ?s1 = "s\<lparr>fsmem := m\<rparr>"
    let ?s2 = "if sa_flags ?sa AND SA_ONESHOT \<noteq> 0 then set_action signr (?sa\<lparr>sa_handler := 0\<rparr>) ?s1 else ?s1"
    have dfl: "sig_ok (t\<lparr>sigactions := (sigactions t)[signr - 1 := ?sa\<lparr>sa_handler := 0\<rparr>]\<rparr>)" if "sig_ok t" for t
      by (rule sig_ok_update_dfl [OF that]) (use mo in simp_all)
    have ok1: "sigs_ok ?s1" using 2(3) by simp
    have "sigs_ok (set_action signr (?sa\<lparr>sa_handler := 0\<rparr>) ?s1)"
      unfolding set_action_def upd_cur_def by (rule sigs_ok_upd_task [OF ok1 dfl])
    then have "sigs_ok ?s2" using ok1 by (cases "sa_flags ?sa AND SA_ONESHOT = 0") simp_all
    let ?s3 = "upd_cur (\<lambda>t. t\<lparr>blocked := blocked t OR sa_mask ?sa\<rparr>) ?s2"
    let ?r = "regs\<lparr>r_cs := USER_CS, r_ss := USER_DS, r_ds := USER_DS, r_es := USER_DS, r_gs := USER_DS, r_fs := USER_DS\<rparr>"
    from \<open>sigs_ok ?s2\<close> have ok3: "sigs_ok ?s3"
      unfolding upd_cur_def by (rule sigs_ok_upd_task) (use mo in \<open>simp add: sig_ok_def\<close>)
    have "build_frames ti hs (signr # ns) frame eip oldmask regs s =
        build_frames ti hs ns frame' (sa_handler ?sa) (oldmask OR sa_mask ?sa) ?r ?s3"
      using False by (simp only: build_frames.simps(2) Let_def sf option.case prod.case) simp
    then have rec: "build_frames ti hs ns frame' (sa_handler ?sa) (oldmask OR sa_mask ?sa) ?r ?s3 = Sig_Done v regs' s'"
      using 2(4) by simp
    show ?thesis
      using 2(2) [OF _ _ refl sf refl refl refl refl refl ok3 rec] False 2(5) by auto
  qed
qed simp

lemma find_empty_process_frame:
  assumes "find_empty_process s = Some r"
  shows "tsk (snd r) = tsk s \<and> task (snd r) = task s \<and> current (snd r) = current s"
proof (rule find_empty_process.raw_induct [OF _ assms])
  fix f :: "kernel \<Rightarrow> (int \<times> kernel) option" and s0 y
  assume ih: "\<And>s y. f s = Some y \<Longrightarrow> tsk (snd y) = tsk s \<and> task (snd y) = task s \<and> current (snd y) = current s"
    and eq: "(let s = s0\<lparr>last_pid := next_pid (last_pid s0)\<rparr>
     in case scan_slots s (rev task_slots) (- EAGAIN, 0, 0) of
          None \<Rightarrow> f s
        | Some (free_task, tasks_free, user_tasks) \<Rightarrow>
            if (tasks_free \<le> MIN_TASKS_LEFT_FOR_ROOT \<or> user_tasks > MAX_TASKS_PER_USER) \<and> uid (cur s) \<noteq> 0
            then Some (- EAGAIN, s) else Some (free_task, s)) = Some y"
  then show "tsk (snd y) = tsk s0 \<and> task (snd y) = task s0 \<and> current (snd y) = current s0"
    by (auto simp: Let_def split: option.splits if_splits dest!: ih)
qed

lemma sigs_ok_fork:
  assumes ok: "sigs_ok s" and f: "sys_fork page stack copied is_clone ebx ecx esp s = Some (r, s')"
  shows "sigs_ok s'"
proof (cases page)
  case None
  then show ?thesis using assms by (simp add: sys_fork_def)
next
  case (Some p)
  obtain nr s1 where fe: "find_empty_process s = Some (nr, s1)"
    using f Some by (auto simp: sys_fork_def elim!: option_bind_SomeE)
  have ok1: "sigs_ok s1" using find_empty_process_frame [OF fe] ok sigs_ok_same [of s1 s] by simp
  have copy: "sigs_ok (s1\<lparr>task := a, tsk := (tsk s1)(p := cur s1), wqh := b\<rparr>)" for a b
    using ok1 by (simp add: sigs_ok_def)
  have task_upd: "sigs_ok (s2\<lparr>task := a\<rparr>) = sigs_ok s2" for s2 a by (rule sigs_ok_same) simp
  show ?thesis
    using f ok1 copy unfolding sys_fork_def Some fe
    by (auto simp: Let_def sigs_ok_links task_upd split: if_splits intro!: sigs_ok_upd_task)
qed

text \<open>The operations that change signal masks or actions, as steps of the system.\<close>

inductive signal_step :: "kernel \<Rightarrow> kernel \<Rightarrow> bool" where
  procmask: "signal_step s (snd (sys_sigprocmask how nset oset s))"
| ssetmask: "signal_step s (snd (sys_ssetmask m s))"
| signal: "signal_step s (snd (sys_signal n h s))"
| sigaction: "signal_step s (snd (sys_sigaction n a b s))"
| sigreturn: "sys_sigreturn regs s = Some (v, regs', s') \<Longrightarrow> signal_step s s'"
| handlers: "build_frames ti hs [1..<33] frame eip oldmask regs s = Sig_Done v regs' s' \<Longrightarrow> signal_step s s'"
| send: "signal_step s (snd (send_sig sig po priv s))"
| fork: "sys_fork page stack copied is_clone ebx ecx esp s = Some (r, s') \<Longrightarrow> signal_step s s'"

inductive_cases signal_stepE: "signal_step s s'"

lemma signal_step_ok: "signal_step s s' \<Longrightarrow> sigs_ok s \<Longrightarrow> sigs_ok s'"
  by (induction rule: signal_step.induct)
    (auto intro: sigs_ok_procmask sigs_ok_ssetmask sigs_ok_signal sigs_ok_sigaction sigs_ok_sigreturn
      sigs_ok_frames [where ns = "[1..<33]"] sigs_ok_send sigs_ok_fork)

lemma signal_steps_ok: "signal_step\<^sup>*\<^sup>* s s' \<Longrightarrow> sigs_ok s \<Longrightarrow> sigs_ok s'"
  by (induction rule: rtranclp_induct) (auto intro: signal_step_ok)

text \<open>In such a state a pending SIGKILL or SIGSTOP is always deliverable.\<close>

lemma pending_deliverable:
  assumes "sig_ok t" and "sig \<in> {SIGKILL, SIGSTOP}" and "pending t sig"
  shows "signal_pending t"
proof -
  have "bit (signal t AND NOT (blocked t)) (sig - 1)"
    using assms by (auto simp: pending_def sig_ok_def mask_ok_def and_not_bit)
  then show ?thesis by (auto simp: signal_pending_def)
qed

end
