(* ===== verification/Clock.thy ===== *)
theory Clock
  imports Signals
begin

text \<open>
  Time keeping: the phase-locked loop and the adjustment of the clock on every tick
  (\<^verbatim>\<open>second_overflow\<close> and the first half of \<^verbatim>\<open>do_timer\<close> in \<^verbatim>\<open>kernel/sched.c\<close>), the load average, the time
  system calls of \<^verbatim>\<open>kernel/time.c\<close>, and \<^verbatim>\<open>kernel_mktime\<close> of \<^verbatim>\<open>kernel/mktime.c\<close>.  The CMOS clock is a register
  file; the interval timer's counter, which \<^verbatim>\<open>do_gettimeoffset\<close> reads, is an argument.

  The lemmas show that a tick keeps the microseconds normalised and moves an \<^verbatim>\<open>adjtime\<close> correction towards
  zero by at most \<^verbatim>\<open>tickadj\<close>, that \<^verbatim>\<open>adjtimex\<close> changes nothing without privilege and keeps the tick within
  ten percent and the frequency within the tolerance, and that \<^verbatim>\<open>kernel_mktime\<close> agrees with the
  Gregorian calendar for the years 1970 to 2037.
\<close>

abbreviation (input) TIME_OK :: int where "TIME_OK \<equiv> 0"
abbreviation (input) TIME_INS :: int where "TIME_INS \<equiv> 1"
abbreviation (input) TIME_DEL :: int where "TIME_DEL \<equiv> 2"
abbreviation (input) TIME_OOP :: int where "TIME_OOP \<equiv> 3"
abbreviation (input) TIME_BAD :: int where "TIME_BAD \<equiv> 4"
abbreviation (input) SHIFT_KG :: int where "SHIFT_KG \<equiv> 8"
abbreviation (input) SHIFT_UPDATE :: int where "SHIFT_UPDATE \<equiv> 14"
abbreviation (input) FINEUSEC :: int where "FINEUSEC \<equiv> 0x1000000"
abbreviation (input) FINETUNE :: int where "FINETUNE \<equiv> 2811494"
abbreviation (input) LATCH :: int where "LATCH \<equiv> 11932"

record clock =
  xt_sec :: int
  xt_usec :: int
  tick :: int
  tickadj :: int
  time_status :: int
  time_offset :: int
  time_constant :: int
  time_tolerance :: int
  time_precision :: int
  time_maxerror :: int
  time_esterror :: int
  time_phase :: int
  time_freq :: int
  time_adj :: int
  time_reftime :: int
  time_adjust :: int
  time_adjust_step :: int
  last_rtc_update :: int
  tz_minuteswest :: int
  tz_dsttime :: int
  firsttime :: bool
  avenrun :: "u32 list"
  load_count :: int
  cmos :: "nat \<Rightarrow> u8"

definition initial_clock :: clock where
  "initial_clock = \<lparr>xt_sec = 0, xt_usec = 0, tick = 10000, tickadj = 5, time_status = TIME_BAD, time_offset = 0,
     time_constant = 0, time_tolerance = 100, time_precision = 1, time_maxerror = 0x70000000,
     time_esterror = 0x70000000, time_phase = 0, time_freq = 0, time_adj = 0, time_reftime = 0, time_adjust = 0,
     time_adjust_step = 0, last_rtc_update = 0, tz_minuteswest = 0, tz_dsttime = 0, firsttime = True,
     avenrun = [0, 0, 0], load_count = 500, cmos = (\<lambda>r. 0)\<rparr>"

text \<open>Shifts of a \<^verbatim>\<open>long\<close>; the processor takes the count modulo 32.\<close>

definition shl :: "int \<Rightarrow> int \<Rightarrow> int" where
  "shl x n = swrap (push_bit (nat (n mod 32)) x)"

definition sar :: "int \<Rightarrow> int \<Rightarrow> int" where
  "sar x n = drop_bit (nat (n mod 32)) x"

section \<open>The CMOS clock\<close>

definition BCD_TO_BIN :: "u8 \<Rightarrow> u8" where
  "BCD_TO_BIN v = (v AND 15) + drop_bit 4 v * 10"

definition BIN_TO_BCD :: "int \<Rightarrow> int" where
  "BIN_TO_BCD v = push_bit 4 (v div 10) + v mod 10"

abbreviation (input) RTC_SECONDS :: nat where "RTC_SECONDS \<equiv> 0"
abbreviation (input) RTC_MINUTES :: nat where "RTC_MINUTES \<equiv> 2"

text \<open>\<^verbatim>\<open>set_rtc_mmss\<close>; the writes to the control registers are undone at its end.\<close>

definition set_rtc_mmss :: "int \<Rightarrow> (nat \<Rightarrow> u8) \<Rightarrow> int \<times> (nat \<Rightarrow> u8)" where
  "set_rtc_mmss nowtime cm =
    (let now = nowtime mod 2 ^ 32;
         real_seconds = now mod 60; real_minutes = (now div 60) mod 60;
         cmos_minutes = uint (BCD_TO_BIN (cm RTC_MINUTES))
     in if (if cmos_minutes < real_minutes then real_minutes - cmos_minutes else cmos_minutes - real_minutes) < 30
        then (0, cm(RTC_SECONDS := word_of_int (BIN_TO_BCD real_seconds),
                    RTC_MINUTES := word_of_int (BIN_TO_BCD real_minutes)))
        else (-1, cm))"

section \<open>Ticks\<close>

definition run_pll :: "clock \<Rightarrow> clock" where
  "run_pll c =
     (if time_offset c < 0
      then let ltemp = swrap (sar (swrap (- (time_offset c + 1))) (SHIFT_KG + time_constant c) + 1);
               adj = shl ltemp 3
           in c\<lparr>time_offset := swrap (time_offset c + sar (swrap (adj * 100)) 10), time_adj := swrap (- adj)\<rparr>
      else if time_offset c > 0
      then let ltemp = swrap (sar (time_offset c - 1) (SHIFT_KG + time_constant c) + 1);
               adj = shl ltemp 3
           in c\<lparr>time_offset := swrap (time_offset c - sar (swrap (adj * 100)) 10), time_adj := adj\<rparr>
      else c\<lparr>time_adj := 0\<rparr>)"

definition leap_second :: "clock \<Rightarrow> clock" where
  "leap_second c =
     (if time_status c = TIME_INS
      then if cmod (xt_sec c) 86400 = 0 then c\<lparr>xt_sec := swrap (xt_sec c - 1), time_status := TIME_OOP\<rparr> else c
      else if time_status c = TIME_DEL
      then if cmod (xt_sec c) 86400 = 86399 then c\<lparr>xt_sec := swrap (xt_sec c + 1), time_status := TIME_OK\<rparr> else c
      else if time_status c = TIME_OOP then c\<lparr>time_status := TIME_OK\<rparr>
      else c)"

definition second_overflow :: "clock \<Rightarrow> clock" where
  "second_overflow c =
    (let c = c\<lparr>time_maxerror := (if swrap (0x70000000 - time_maxerror c) < time_tolerance c then 0x70000000
                                 else swrap (time_maxerror c + time_tolerance c))\<rparr>;
         c = run_pll c;
         c = c\<lparr>time_adj := swrap (time_adj c + (sar (time_freq c) 3 + FINETUNE))\<rparr>;
         c = leap_second c
     in if xt_sec c > swrap (last_rtc_update c + 660)
        then let (r, cm) = set_rtc_mmss (xt_sec c) (cmos c)
             in c\<lparr>cmos := cm, last_rtc_update := (if r = 0 then xt_sec c else last_rtc_update c)\<rparr>
        else c)"

text \<open>The first part of \<^verbatim>\<open>do_timer\<close>, up to the increment of \<^verbatim>\<open>jiffies\<close>.\<close>

definition advance_phase :: "clock \<Rightarrow> clock" where
  "advance_phase c =
    (let ph = swrap (time_phase c + time_adj c); step = swrap (tick c + time_adjust_step c)
     in if ph < - FINEUSEC
        then let ltemp = sar (swrap (- ph)) 24
             in c\<lparr>time_phase := swrap (ph + shl ltemp 24), xt_usec := swrap (xt_usec c + (step - ltemp))\<rparr>
        else if ph > FINEUSEC
        then let ltemp = sar ph 24
             in c\<lparr>time_phase := swrap (ph - shl ltemp 24), xt_usec := swrap (xt_usec c + (step + ltemp))\<rparr>
        else c\<lparr>time_phase := ph, xt_usec := swrap (xt_usec c + step)\<rparr>)"

definition adjtime_step :: "clock \<Rightarrow> clock" where
  "adjtime_step c =
     (if time_adjust c \<noteq> 0
      then let st = (if time_adjust c > tickadj c then tickadj c
                     else if time_adjust c < - tickadj c then - tickadj c else time_adjust c)
           in c\<lparr>time_adjust_step := st, time_adjust := swrap (time_adjust c - st)\<rparr>
      else c\<lparr>time_adjust_step := 0\<rparr>)"

definition tick_clock :: "clock \<Rightarrow> clock" where
  "tick_clock c =
    (let c = adjtime_step (advance_phase c)
     in if xt_usec c \<ge> 1000000
        then second_overflow (c\<lparr>xt_usec := xt_usec c - 1000000, xt_sec := swrap (xt_sec c + 1)\<rparr>)
        else c)"

section \<open>Load average\<close>

abbreviation (input) FIXED_1 :: u32 where "FIXED_1 \<equiv> 2048"

definition CALC_LOAD :: "u32 \<Rightarrow> u32 \<Rightarrow> u32 \<Rightarrow> u32" where
  "CALC_LOAD load ex n = drop_bit 11 (load * ex + n * (FIXED_1 - ex))"

text \<open>\<^verbatim>\<open>for(p = &LAST_TASK; p > &FIRST_TASK; --p)\<close>.\<close>

definition count_active_tasks :: "kernel \<Rightarrow> u32" where
  "count_active_tasks s =
     foldl (\<lambda>nr i. case task s i of
              None \<Rightarrow> nr
            | Some p \<Rightarrow> if state (tsk s p) \<in> {TASK_RUNNING, TASK_UNINTERRUPTIBLE, TASK_SWAPPING}
                        then nr + FIXED_1 else nr) 0 (rev task_slots)"

definition calc_load :: "kernel \<Rightarrow> clock \<Rightarrow> clock" where
  "calc_load s c =
     (if load_count c > 0 then c\<lparr>load_count := load_count c - 1\<rparr>
      else let n = count_active_tasks s
           in c\<lparr>load_count := 500,
                avenrun := [CALC_LOAD (avenrun c ! 0) 1884 n, CALC_LOAD (avenrun c ! 1) 2014 n,
                            CALC_LOAD (avenrun c ! 2) 2037 n]\<rparr>)"

section \<open>System calls\<close>

definition sys_time :: "u32 \<Rightarrow> clock \<Rightarrow> kernel \<Rightarrow> int \<times> kernel" where
  "sys_time tloc c s =
    (let i = xt_sec c
     in if tloc \<noteq> 0
        then let error = verify_area VERIFY_WRITE tloc 4
             in if error \<noteq> 0 then (error, s) else (i, s\<lparr>fsmem := put_fs_long (to_u32 i) tloc (fsmem s)\<rparr>)
        else (i, s))"

definition unsync :: "clock \<Rightarrow> clock" where
  "unsync c = c\<lparr>time_status := TIME_BAD, time_maxerror := 0x70000000, time_esterror := 0x70000000\<rparr>"

definition sys_stime :: "u32 \<Rightarrow> kernel \<Rightarrow> clock \<Rightarrow> int \<times> clock" where
  "sys_stime tptr s c =
     (if \<not> suser s then (- EPERM, c)
      else (0, unsync (c\<lparr>xt_sec := to_s32 (get_fs_long (fsmem s) tptr), xt_usec := 0\<rparr>)))"

text \<open>\<^verbatim>\<open>count\<close> is the latched value of timer 0 and \<^verbatim>\<open>irq\<close> tells whether its interrupt is pending.\<close>

definition do_gettimeoffset :: "int \<Rightarrow> bool \<Rightarrow> clock \<Rightarrow> int" where
  "do_gettimeoffset count irq c =
    (let offset = (if count > LATCH - LATCH div 100 \<and> irq then tick c else 0)
     in offset + cdiv (((LATCH - 1) - count) * tick c + LATCH div 2) LATCH)"

definition do_gettimeofday :: "int \<Rightarrow> bool \<Rightarrow> clock \<Rightarrow> int \<times> int" where
  "do_gettimeofday count irq c =
    (let us = swrap (xt_usec c + do_gettimeoffset count irq c)
     in if us \<ge> 1000000 then (swrap (xt_sec c + 1), us - 1000000) else (xt_sec c, us))"

definition sys_gettimeofday :: "int \<Rightarrow> bool \<Rightarrow> u32 \<Rightarrow> u32 \<Rightarrow> clock \<Rightarrow> kernel \<Rightarrow> int \<times> kernel" where
  "sys_gettimeofday count irq tv tz c s =
    (let err1 = (if tv \<noteq> 0 then verify_area VERIFY_WRITE tv 8 else 0);
         (sec, usec) = do_gettimeofday count irq c;
         s1 = (if tv \<noteq> 0 then s\<lparr>fsmem := put_longs [to_u32 sec, to_u32 usec] tv (fsmem s)\<rparr> else s);
         err2 = (if tz \<noteq> 0 then verify_area VERIFY_WRITE tz 8 else 0)
     in if err1 \<noteq> 0 then (err1, s)
        else if err2 \<noteq> 0 then (err2, s1)
        else (0, if tz \<noteq> 0
                 then s1\<lparr>fsmem := put_longs [to_u32 (tz_minuteswest c), to_u32 (tz_dsttime c)] tz (fsmem s1)\<rparr> else s1))"

definition warp_clock :: "clock \<Rightarrow> clock" where
  "warp_clock c = c\<lparr>xt_sec := swrap (xt_sec c + tz_minuteswest c * 60)\<rparr>"

definition sys_settimeofday :: "int \<Rightarrow> bool \<Rightarrow> u32 \<Rightarrow> u32 \<Rightarrow> kernel \<Rightarrow> clock \<Rightarrow> int \<times> clock" where
  "sys_settimeofday count irq tv tz s c =
     (if \<not> suser s then (- EPERM, c)
      else
        let c = (if tz \<noteq> 0
                 then let c = c\<lparr>tz_minuteswest := to_s32 (get_fs_long (fsmem s) tz),
                                tz_dsttime := to_s32 (get_fs_long (fsmem s) (tz + 4))\<rparr>
                      in if firsttime c
                         then let c = c\<lparr>firsttime := False\<rparr> in if tv = 0 then warp_clock c else c
                         else c
                 else c);
            c = (if tv \<noteq> 0
                 then let sec = to_s32 (get_fs_long (fsmem s) tv); usec = to_s32 (get_fs_long (fsmem s) (tv + 4));
                          usec = swrap (usec - do_gettimeoffset count irq c);
                          (sec, usec) = (if usec < 0 then (swrap (sec - 1), usec + 1000000) else (sec, usec))
                      in unsync (c\<lparr>xt_sec := sec, xt_usec := usec\<rparr>)
                 else c)
        in (0, c))"

section \<open>adjtimex\<close>

record timex =
  tx_mode :: int
  tx_offset :: int
  tx_frequency :: int
  tx_maxerror :: int
  tx_esterror :: int
  tx_status :: int
  tx_constant :: int
  tx_tick :: int

abbreviation (input) ADJ_OFFSET :: nat where "ADJ_OFFSET \<equiv> 0"
abbreviation (input) ADJ_FREQUENCY :: nat where "ADJ_FREQUENCY \<equiv> 1"
abbreviation (input) ADJ_MAXERROR :: nat where "ADJ_MAXERROR \<equiv> 2"
abbreviation (input) ADJ_ESTERROR :: nat where "ADJ_ESTERROR \<equiv> 3"
abbreviation (input) ADJ_STATUS :: nat where "ADJ_STATUS \<equiv> 4"
abbreviation (input) ADJ_TIMECONST :: nat where "ADJ_TIMECONST \<equiv> 5"
abbreviation (input) ADJ_TICK :: nat where "ADJ_TICK \<equiv> 14"
abbreviation (input) ADJ_OFFSET_SINGLESHOT :: int where "ADJ_OFFSET_SINGLESHOT \<equiv> 0x8001"

text \<open>The mode bits are given by their positions; \<^verbatim>\<open>has\<close> is \<^verbatim>\<open>txc.mode & ADJ_X\<close>.\<close>

definition has :: "timex \<Rightarrow> nat \<Rightarrow> bool" where
  "has tx k \<longleftrightarrow> bit (tx_mode tx) k"

definition get_timex :: "umem \<Rightarrow> u32 \<Rightarrow> timex" where
  "get_timex m a =
    (let l = (\<lambda>k. to_s32 (get_fs_long m (a + 4 * k)))
     in \<lparr>tx_mode = l 0, tx_offset = l 1, tx_frequency = l 2, tx_maxerror = l 3, tx_esterror = l 4,
         tx_status = l 5, tx_constant = l 6, tx_tick = l 11\<rparr>)"

definition txc_invalid :: "timex \<Rightarrow> bool" where
  "txc_invalid tx \<longleftrightarrow>
     has tx ADJ_OFFSET \<and> (tx_offset tx \<le> - (2 ^ 17) \<or> tx_offset tx \<ge> 2 ^ 17)
   \<or> has tx ADJ_STATUS \<and> (tx_status tx < TIME_OK \<or> tx_status tx > TIME_BAD)
   \<or> has tx ADJ_TICK \<and> (tx_tick tx < 9000 \<or> tx_tick tx > 11000)"

text \<open>The branch that feeds an offset into the phase-locked loop.\<close>

definition pll_offset :: "int \<Rightarrow> clock \<Rightarrow> clock" where
  "pll_offset off c =
    (let mtemp = swrap (xt_sec c - time_reftime c);
         mtemp = (if mtemp > 1202 \<or> mtemp < 0 then 0 else mtemp);
         sh = swrap (time_constant c + time_constant c);
         freq = (if off < 0 then swrap (time_freq c - sar (swrap (- off * mtemp)) sh)
                 else swrap (time_freq c + sar (swrap (off * mtemp)) sh));
         ltemp = shl (time_tolerance c) 20
     in c\<lparr>time_offset := shl off SHIFT_UPDATE, time_reftime := xt_sec c,
          time_freq := (if freq > ltemp then ltemp else if freq < - ltemp then - ltemp else freq)\<rparr>)"

definition apply_timex :: "timex \<Rightarrow> clock \<Rightarrow> clock" where
  "apply_timex tx c =
     (if tx_mode tx = 0 then c
      else
        let c = (if time_status c = TIME_BAD then c\<lparr>time_status := TIME_OK\<rparr> else c);
            c = (if has tx ADJ_STATUS then c\<lparr>time_status := tx_status tx\<rparr> else c);
            c = (if has tx ADJ_FREQUENCY then c\<lparr>time_freq := shl (tx_frequency tx) 4\<rparr> else c);
            c = (if has tx ADJ_MAXERROR then c\<lparr>time_maxerror := tx_maxerror tx\<rparr> else c);
            c = (if has tx ADJ_ESTERROR then c\<lparr>time_esterror := tx_esterror tx\<rparr> else c);
            c = (if has tx ADJ_TIMECONST then c\<lparr>time_constant := tx_constant tx\<rparr> else c);
            c = (if has tx ADJ_OFFSET
                 then if tx_mode tx = ADJ_OFFSET_SINGLESHOT then c\<lparr>time_adjust := tx_offset tx\<rparr>
                      else pll_offset (tx_offset tx) c
                 else c)
        in if has tx ADJ_TICK then c\<lparr>tick := tx_tick tx\<rparr> else c)"

text \<open>The longs copied back to the user; \<^verbatim>\<open>mode\<close> is returned unchanged.\<close>

definition timex_longs :: "timex \<Rightarrow> int \<Rightarrow> clock \<Rightarrow> u32 list" where
  "timex_longs tx save_adjust c =
     map to_u32 [tx_mode tx, save_adjust, sar (swrap (time_freq c + 1)) 4, time_maxerror c, time_esterror c,
       time_status c, time_constant c, time_precision c, time_tolerance c, xt_sec c, xt_usec c, tick c]"

definition sys_adjtimex :: "u32 \<Rightarrow> kernel \<Rightarrow> clock \<Rightarrow> int \<times> kernel \<times> clock" where
  "sys_adjtimex txc_p s c =
    (let error = verify_area VERIFY_WRITE txc_p 48; tx = get_timex (fsmem s) txc_p
     in if error \<noteq> 0 then (error, s, c)
        else if tx_mode tx \<noteq> 0 \<and> \<not> suser s then (- EPERM, s, c)
        else if txc_invalid tx then (- EINVAL, s, c)
        else let c' = apply_timex tx c
             in (time_status c', s\<lparr>fsmem := put_longs (timex_longs tx (time_adjust c) c') txc_p (fsmem s)\<rparr>, c'))"

section \<open>Calendar\<close>

record mktime =
  mk_sec :: int
  mk_min :: int
  mk_hour :: int
  mk_day :: int
  mk_mon :: int
  mk_year :: int

definition month :: "int list" where
  "month = map (\<lambda>d. 86400 * d) [0, 31, 31+29, 31+29+31, 31+29+31+30, 31+29+31+30+31, 31+29+31+30+31+30,
     31+29+31+30+31+30+31, 31+29+31+30+31+30+31+31, 31+29+31+30+31+30+31+31+30,
     31+29+31+30+31+30+31+31+30+31, 31+29+31+30+31+30+31+31+30+31+30]"

definition kernel_mktime :: "mktime \<Rightarrow> int" where
  "kernel_mktime t =
    (let year = mk_year t - 70;
         res = swrap (31536000 * year + 86400 * cdiv (year + 1) 4);
         res = swrap (res + month ! nat (mk_mon t));
         res = (if mk_mon t > 1 \<and> cmod (year + 2) 4 \<noteq> 0 then swrap (res - 86400) else res);
         res = swrap (res + 86400 * (mk_day t - 1));
         res = swrap (res + 3600 * mk_hour t);
         res = swrap (res + 60 * mk_min t)
     in swrap (res + mk_sec t))"

text \<open>\<^verbatim>\<open>time_init\<close> reads the date from the CMOS clock (in BCD) and sets \<^verbatim>\<open>xtime\<close>; the registers are those read
  after the update flag has fallen.\<close>

definition time_init :: "clock \<Rightarrow> clock" where
  "time_init c =
    (let rd = (\<lambda>r. uint (BCD_TO_BIN (cmos c r)))
     in c\<lparr>xt_sec := kernel_mktime \<lparr>mk_sec = rd 0, mk_min = rd 2, mk_hour = rd 4, mk_day = rd 7,
            mk_mon = rd 8 - 1, mk_year = rd 9\<rparr>\<rparr>)"

text \<open>The reference: days since 1 January 1970 in the Gregorian calendar, year by year and month by month.\<close>

definition leap :: "int \<Rightarrow> bool" where
  "leap y \<longleftrightarrow> 4 dvd y \<and> (\<not> 100 dvd y \<or> 400 dvd y)"

definition days_in_month :: "int \<Rightarrow> nat \<Rightarrow> int" where
  "days_in_month y m = (if m = 1 then (if leap y then 29 else 28) else if m \<in> {3, 5, 8, 10} then 30 else 31)"

definition epoch_days :: "nat \<Rightarrow> nat \<Rightarrow> int \<Rightarrow> int" where
  "epoch_days y m d = (\<Sum>k\<leftarrow>[1970..<y]. if leap (int k) then 366 else 365)
     + (\<Sum>j\<leftarrow>[0..<m]. days_in_month (int y) j) + (d - 1)"

lemma leap_window:
  assumes "1970 \<le> y" "y \<le> 2037"
  shows "leap y \<longleftrightarrow> y mod 4 = 0"
proof (cases "100 dvd y")
  case True
  then obtain k where "y = 100 * k" by (rule dvdE)
  with assms have "y = 2000" by simp
  then show ?thesis by (simp add: leap_def)
qed (auto simp: leap_def)

lemma year_days:
  assumes "1970 \<le> y" "y \<le> 2038"
  shows "(\<Sum>k\<leftarrow>[1970..<y]. if leap (int k) then 366 else 365) = 365 * (int y - 1970) + (int y - 1969) div 4"
  using assms
proof (induction y rule: dec_induct)
  case base
  then show ?case by simp
next
  case (step n)
  have "leap (int n) \<longleftrightarrow> int n mod 4 = 0" using leap_window [of "int n"] step by simp
  then show ?case using step by (auto simp: upt_Suc_append) presburger+
qed

definition valid_date :: "mktime \<Rightarrow> bool" where
  "valid_date t \<longleftrightarrow> 70 \<le> mk_year t \<and> mk_year t \<le> 137 \<and> 0 \<le> mk_mon t \<and> mk_mon t \<le> 11
     \<and> 1 \<le> mk_day t \<and> mk_day t \<le> 31 \<and> 0 \<le> mk_hour t \<and> mk_hour t \<le> 23
     \<and> 0 \<le> mk_min t \<and> mk_min t \<le> 59 \<and> 0 \<le> mk_sec t \<and> mk_sec t \<le> 59"

lemma month_days:
  assumes "m < 12" "1970 \<le> y" "y \<le> 2037"
  shows "86400 * (\<Sum>j\<leftarrow>[0..<m]. days_in_month y j) = month ! m - (if 1 < m \<and> y mod 4 \<noteq> 0 then 86400 else 0)"
proof -
  have "m = 0 \<or> m = 1 \<or> m = 2 \<or> m = 3 \<or> m = 4 \<or> m = 5 \<or> m = 6 \<or> m = 7 \<or> m = 8 \<or> m = 9 \<or> m = 10 \<or> m = 11"
    using assms(1) by presburger
  then show ?thesis
    using leap_window [OF assms(2,3)]
    by (elim disjE; cases "y mod 4 = 0") (simp_all add: month_def days_in_month_def upt_conv_Cons)
qed

lemma month_range: "m < 12 \<Longrightarrow> 0 \<le> month ! m \<and> month ! m \<le> 28944000"
proof -
  assume "m < 12"
  then have "m = 0 \<or> m = 1 \<or> m = 2 \<or> m = 3 \<or> m = 4 \<or> m = 5 \<or> m = 6 \<or> m = 7 \<or> m = 8 \<or> m = 9 \<or> m = 10 \<or> m = 11"
    by presburger
  then show ?thesis by (auto simp: month_def)
qed

lemma kernel_mktime_correct:
  assumes "valid_date t"
  shows "kernel_mktime t = 86400 * epoch_days (nat (1900 + mk_year t)) (nat (mk_mon t)) (mk_day t)
    + 3600 * mk_hour t + 60 * mk_min t + mk_sec t"
proof -
  let ?y = "mk_year t" and ?m = "nat (mk_mon t)"
  note v = assms [unfolded valid_date_def]
  have yr: "(\<Sum>k\<leftarrow>[1970..<nat (1900 + ?y)]. if leap (int k) then 366 else 365) = 365 * (?y - 70) + (?y - 69) div 4"
  proof -
    have "1970 \<le> nat (1900 + ?y)" "nat (1900 + ?y) \<le> 2038" using v by linarith+
    from year_days [OF this] show ?thesis using v by simp
  qed
  have m12: "?m < 12" and im: "int (nat (1900 + ?y)) = 1900 + ?y" using v by auto
  have md: "86400 * (\<Sum>j\<leftarrow>[0..<?m]. days_in_month (1900 + ?y) j)
      = month ! ?m - (if 1 < ?m \<and> (1900 + ?y) mod 4 \<noteq> 0 then 86400 else 0)"
    using month_days [OF m12, of "1900 + ?y"] v by simp
  have ref: "86400 * epoch_days (nat (1900 + ?y)) ?m (mk_day t)
      = 86400 * (365 * (?y - 70) + (?y - 69) div 4) + (month ! ?m - (if 1 < ?m \<and> (1900 + ?y) mod 4 \<noteq> 0 then 86400 else 0))
        + 86400 * (mk_day t - 1)"
    unfolding epoch_days_def yr im distrib_left md ..
  note mr = month_range [OF m12]
  have q: "0 \<le> (?y - 69) div 4" "(?y - 69) div 4 \<le> 17" using v by auto
  have leap4: "(?y - 68) mod 4 \<noteq> 0 \<longleftrightarrow> (1900 + ?y) mod 4 \<noteq> 0" by presburger
  have m1: "mk_mon t > 1 \<longleftrightarrow> 1 < ?m" by auto
  have w: "swrap r = r" if "- 86400 \<le> r" "r < 2147483648" for r using that by (simp add: fits_s32_def)
  have cd: "cdiv (?y - 70 + 1) 4 = (?y - 69) div 4" "cmod (?y - 70 + 2) 4 = (?y - 68) mod 4" using v by simp_all
  have y1: "31536000 * (?y - 70) + 86400 * ((?y - 69) div 4) \<ge> 0"
    "31536000 * (?y - 70) + 86400 * ((?y - 69) div 4) \<le> 2114380800" using v q by auto
  show ?thesis
    unfolding kernel_mktime_def Let_def ref cd m1 leap4 using v mr y1 by (simp add: w)
qed

section \<open>A tick keeps the clock normalised\<close>

text \<open>The invariant: the microseconds are normalised, the tick is within ten percent, the correction step
  within \<^verbatim>\<open>tickadj\<close>, and the parameters of the phase-locked loop are in the range NTP uses.\<close>

definition clock_ok :: "clock \<Rightarrow> bool" where
  "clock_ok c \<longleftrightarrow> 0 \<le> xt_usec c \<and> xt_usec c < 1000000 \<and> 9000 \<le> tick c \<and> tick c \<le> 11000 \<and> tickadj c = 5
     \<and> \<bar>time_adjust_step c\<bar> \<le> 5 \<and> \<bar>time_phase c\<bar> \<le> FINEUSEC \<and> \<bar>time_adj c\<bar> \<le> 2 ^ 27
     \<and> fits_s32 (time_adjust c) \<and> fits_s32 (time_offset c)
     \<and> 0 \<le> time_constant c \<and> time_constant c \<le> 6 \<and> \<bar>time_freq c\<bar> \<le> 2 ^ 27"

lemma sar_eq: "0 \<le> n \<Longrightarrow> n < 32 \<Longrightarrow> sar x n = x div 2 ^ nat n"
  by (simp add: sar_def drop_bit_eq_div)

lemma sar_range:
  assumes "0 \<le> x" "x < 2 ^ 31" "8 \<le> n" "n < 32"
  shows "0 \<le> sar x n" "sar x n \<le> 2 ^ 23"
proof -
  have e: "sar x n = x div 2 ^ nat n" using assms by (simp add: sar_eq)
  show "0 \<le> sar x n" using assms(1) unfolding e by (simp add: pos_imp_zdiv_nonneg_iff)
  have "(2::int) ^ 8 \<le> 2 ^ nat n" using assms(3) by (intro power_increasing) auto
  then have "x div 2 ^ nat n \<le> x div 2 ^ 8" using assms(1) by (intro zdiv_mono2) auto
  also have "\<dots> \<le> 2 ^ 23" using assms(2) by simp
  finally show "sar x n \<le> 2 ^ 23" unfolding e .
qed

lemma shl_3: "0 \<le> x \<Longrightarrow> x \<le> 2 ^ 24 \<Longrightarrow> shl x 3 = 8 * x"
  by (simp add: shl_def push_bit_eq_mult fits_s32_def)

lemma run_pll_range:
  assumes "fits_s32 (time_offset c)" "0 \<le> time_constant c" "time_constant c \<le> 6"
  shows "\<bar>time_adj (run_pll c)\<bar> \<le> 8 * (2 ^ 23 + 1)" and "fits_s32 (time_offset (run_pll c))"
proof -
  have "\<bar>time_adj (run_pll c)\<bar> \<le> 8 * (2 ^ 23 + 1) \<and> fits_s32 (time_offset (run_pll c))"
  proof (cases "time_offset c = 0")
    case True
    then show ?thesis by (simp add: run_pll_def fits_s32_def)
  next
    case False
    let ?x = "if time_offset c < 0 then - (time_offset c + 1) else time_offset c - 1"
    let ?l = "sar ?x (SHIFT_KG + time_constant c)"
    have x: "0 \<le> ?x" "?x < 2 ^ 31" using assms(1) False by (auto simp: fits_s32_def)
    have r: "0 \<le> ?l" "?l \<le> 2 ^ 23" using sar_range [OF x, of "SHIFT_KG + time_constant c"] assms by auto
    have s: "swrap (- (time_offset c + 1)) = - (time_offset c + 1)"
      using assms(1) by (intro swrap_id) (auto simp: fits_s32_def)
    have w: "swrap (?l + 1) = ?l + 1" using r by (intro swrap_id) (auto simp: fits_s32_def)
    have a: "shl (?l + 1) 3 = 8 * (?l + 1)" using r by (intro shl_3) auto
    have n: "swrap (- (8 * (?l + 1))) = - (8 * (?l + 1))" using r by (intro swrap_id) (auto simp: fits_s32_def)
    show ?thesis
    proof (cases "time_offset c < 0")
      case True
      then show ?thesis using r s w a n unfolding run_pll_def Let_def by simp
    next
      case pos: False
      then show ?thesis using r w a False unfolding run_pll_def Let_def by simp
    qed
  qed
  then show "\<bar>time_adj (run_pll c)\<bar> \<le> 8 * (2 ^ 23 + 1)" "fits_s32 (time_offset (run_pll c))" by simp_all
qed

lemma run_pll_frame [simp]:
  "xt_usec (run_pll c) = xt_usec c" "tick (run_pll c) = tick c" "tickadj (run_pll c) = tickadj c"
  "time_adjust_step (run_pll c) = time_adjust_step c" "time_phase (run_pll c) = time_phase c"
  "time_adjust (run_pll c) = time_adjust c" "time_constant (run_pll c) = time_constant c"
  "time_freq (run_pll c) = time_freq c"
  by (simp_all add: run_pll_def Let_def)

lemma leap_second_frame [simp]:
  "xt_usec (leap_second c) = xt_usec c" "tick (leap_second c) = tick c" "tickadj (leap_second c) = tickadj c"
  "time_adjust_step (leap_second c) = time_adjust_step c" "time_phase (leap_second c) = time_phase c"
  "time_adjust (leap_second c) = time_adjust c" "time_constant (leap_second c) = time_constant c"
  "time_freq (leap_second c) = time_freq c" "time_adj (leap_second c) = time_adj c"
  "time_offset (leap_second c) = time_offset c"
  by (simp_all add: leap_second_def)

lemma clock_ok_cmos [simp]: "clock_ok (c\<lparr>cmos := m, last_rtc_update := u\<rparr>) = clock_ok c"
  by (simp add: clock_ok_def)

lemma second_overflow_ok:
  assumes "clock_ok c"
  shows "clock_ok (second_overflow c)"
proof -
  let ?c1 = "c\<lparr>time_maxerror := (if swrap (0x70000000 - time_maxerror c) < time_tolerance c then 0x70000000
                                 else swrap (time_maxerror c + time_tolerance c))\<rparr>"
  let ?c2 = "run_pll ?c1"
  let ?c3 = "?c2\<lparr>time_adj := swrap (time_adj ?c2 + (sar (time_freq ?c2) 3 + FINETUNE))\<rparr>"
  let ?c4 = "leap_second ?c3"
  have ok: "fits_s32 (time_offset ?c1)" "0 \<le> time_constant ?c1" "time_constant ?c1 \<le> 6"
    using assms by (auto simp: clock_ok_def)
  note r = run_pll_range [OF ok]
  have "sar (time_freq c) 3 = time_freq c div 8" by (simp add: sar_eq)
  moreover have "\<bar>time_freq c\<bar> \<le> 2 ^ 27" using assms by (simp add: clock_ok_def)
  ultimately have f: "\<bar>sar (time_freq c) 3\<bar> \<le> 2 ^ 24" by auto
  have sum: "\<bar>time_adj ?c2 + (sar (time_freq ?c2) 3 + FINETUNE)\<bar> \<le> 2 ^ 27" using r(1) f by simp
  then have "swrap (time_adj ?c2 + (sar (time_freq ?c2) 3 + FINETUNE)) = time_adj ?c2 + (sar (time_freq ?c2) 3 + FINETUNE)"
    by (intro swrap_id) (auto simp: fits_s32_def)
  then have "clock_ok ?c4"
    using assms sum r(2) by (simp add: clock_ok_def)
  then show ?thesis
    unfolding second_overflow_def Let_def by (simp add: case_prod_beta)
qed

text \<open>The phase: what leaves the accumulator is added to the microseconds.\<close>

lemma advance_phase_ok:
  assumes "clock_ok c"
  shows "9000 - 5 - 9 \<le> xt_usec (advance_phase c)" and "xt_usec (advance_phase c) < 1000000 + 11000 + 5 + 9"
    and "\<bar>time_phase (advance_phase c)\<bar> \<le> FINEUSEC"
proof -
  let ?ph = "time_phase c + time_adj c"
  have ph: "\<bar>?ph\<bar> \<le> 2 ^ 24 + 2 ^ 27" and wph: "swrap ?ph = ?ph"
    using assms by (auto simp: clock_ok_def fits_s32_def intro!: swrap_id)
  have st: "swrap (tick c + time_adjust_step c) = tick c + time_adjust_step c"
    using assms by (intro swrap_id) (auto simp: clock_ok_def fits_s32_def)
  have sarv: "sar y 24 = y div 2 ^ 24" for y by (simp add: sar_eq)
  have shlv: "shl y 24 = 2 ^ 24 * y" if "0 \<le> y" "y \<le> 9" for y
    using that by (auto simp: shl_def push_bit_eq_mult fits_s32_def intro!: swrap_id)
  have key: "0 \<le> y div 2 ^ 24 \<and> y div 2 ^ 24 \<le> 9 \<and> 0 \<le> y - 2 ^ 24 * (y div 2 ^ 24) \<and> y - 2 ^ 24 * (y div 2 ^ 24) < 2 ^ 24"
    if "0 \<le> y" "y \<le> 2 ^ 24 + 2 ^ 27" for y :: int
    using that by (auto simp: minus_mult_div_eq_mod)
  have wneg: "swrap (- ?ph) = - ?ph" using ph by (intro swrap_id) (auto simp: fits_s32_def)
  have usec: "swrap (xt_usec c + d) = xt_usec c + d" if "\<bar>d\<bar> \<le> 20000" for d
    using assms that by (intro swrap_id) (auto simp: clock_ok_def fits_s32_def)
  have "9000 - 5 - 9 \<le> xt_usec (advance_phase c) \<and> xt_usec (advance_phase c) < 1000000 + 11000 + 5 + 9
    \<and> \<bar>time_phase (advance_phase c)\<bar> \<le> FINEUSEC"
  proof -
    consider "?ph < - FINEUSEC" | "?ph > FINEUSEC" | "- FINEUSEC \<le> ?ph" "?ph \<le> FINEUSEC" by linarith
    then show ?thesis
    proof cases
      case 1
      let ?l = "(- ?ph) div 2 ^ 24"
      have k: "0 \<le> ?l" "?l \<le> 9" "0 \<le> - ?ph - 2 ^ 24 * ?l" "- ?ph - 2 ^ 24 * ?l < 2 ^ 24"
        using key [of "- ?ph"] ph 1 by auto
      have eq: "advance_phase c = c\<lparr>time_phase := swrap (?ph + shl ?l 24),
          xt_usec := swrap (xt_usec c + (tick c + time_adjust_step c - ?l))\<rparr>"
        using 1 unfolding advance_phase_def Let_def wph st wneg sarv by simp
      have s1: "shl ?l 24 = 2 ^ 24 * ?l" using shlv k by blast
      have s2: "swrap (?ph + 2 ^ 24 * ?l) = ?ph + 2 ^ 24 * ?l" using k by (intro swrap_id) (auto simp: fits_s32_def)
      have s3: "swrap (xt_usec c + (tick c + time_adjust_step c - ?l)) = xt_usec c + (tick c + time_adjust_step c - ?l)"
        using assms k by (intro usec) (auto simp: clock_ok_def)
      show ?thesis unfolding eq s1 s2 s3 using assms k by (auto simp: clock_ok_def)
    next
      case 2
      let ?l = "?ph div 2 ^ 24"
      have k: "0 \<le> ?l" "?l \<le> 9" "0 \<le> ?ph - 2 ^ 24 * ?l" "?ph - 2 ^ 24 * ?l < 2 ^ 24"
        using key [of ?ph] ph 2 by auto
      have eq: "advance_phase c = c\<lparr>time_phase := swrap (?ph - shl ?l 24),
          xt_usec := swrap (xt_usec c + (tick c + time_adjust_step c + ?l))\<rparr>"
        using 2 unfolding advance_phase_def Let_def wph st sarv by simp
      have s1: "shl ?l 24 = 2 ^ 24 * ?l" using shlv k by blast
      have s2: "swrap (?ph - 2 ^ 24 * ?l) = ?ph - 2 ^ 24 * ?l" using k by (intro swrap_id) (auto simp: fits_s32_def)
      have s3: "swrap (xt_usec c + (tick c + time_adjust_step c + ?l)) = xt_usec c + (tick c + time_adjust_step c + ?l)"
        using assms k by (intro usec) (auto simp: clock_ok_def)
      show ?thesis unfolding eq s1 s2 s3 using assms k by (auto simp: clock_ok_def)
    next
      case 3
      have eq: "advance_phase c = c\<lparr>time_phase := ?ph, xt_usec := swrap (xt_usec c + (tick c + time_adjust_step c))\<rparr>"
        using 3 unfolding advance_phase_def Let_def wph st by simp
      have s3: "swrap (xt_usec c + (tick c + time_adjust_step c)) = xt_usec c + (tick c + time_adjust_step c)"
        using assms by (intro usec) (auto simp: clock_ok_def)
      show ?thesis unfolding eq s3 using assms 3 by (auto simp: clock_ok_def)
    qed
  qed
  then show "9000 - 5 - 9 \<le> xt_usec (advance_phase c)" "xt_usec (advance_phase c) < 1000000 + 11000 + 5 + 9"
    "\<bar>time_phase (advance_phase c)\<bar> \<le> FINEUSEC" by blast+
qed

lemma advance_phase_frame [simp]:
  "tick (advance_phase c) = tick c" "tickadj (advance_phase c) = tickadj c" "time_adj (advance_phase c) = time_adj c"
  "time_adjust (advance_phase c) = time_adjust c" "time_offset (advance_phase c) = time_offset c"
  "time_constant (advance_phase c) = time_constant c" "time_freq (advance_phase c) = time_freq c"
  by (simp_all add: advance_phase_def Let_def)

lemma adjtime_step_ok:
  assumes "fits_s32 (time_adjust c)" "tickadj c = 5"
  shows "\<bar>time_adjust_step (adjtime_step c)\<bar> \<le> 5"
    and "time_adjust (adjtime_step c) + time_adjust_step (adjtime_step c) = time_adjust c"
    and "time_adjust c \<noteq> 0 \<Longrightarrow> \<bar>time_adjust (adjtime_step c)\<bar> < \<bar>time_adjust c\<bar>"
    and "fits_s32 (time_adjust (adjtime_step c))"
  using assms by (auto simp: adjtime_step_def Let_def fits_s32_def)

lemma tick_clock_ok:
  assumes "clock_ok c"
  shows "clock_ok (tick_clock c)"
proof -
  let ?c = "adjtime_step (advance_phase c)"
  note a = advance_phase_ok [OF assms]
  have fit: "fits_s32 (time_adjust (advance_phase c))" "tickadj (advance_phase c) = 5"
    using assms by (auto simp: clock_ok_def)
  note b = adjtime_step_ok [OF fit]
  have u: "xt_usec ?c = xt_usec (advance_phase c)" "time_phase ?c = time_phase (advance_phase c)" "tick ?c = tick c"
    "tickadj ?c = tickadj c" "time_adj ?c = time_adj c" "time_offset ?c = time_offset c"
    "time_constant ?c = time_constant c" "time_freq ?c = time_freq c"
    by (simp_all add: adjtime_step_def Let_def)
  let ?n = "if xt_usec ?c \<ge> 1000000 then ?c\<lparr>xt_usec := xt_usec ?c - 1000000, xt_sec := swrap (xt_sec ?c + 1)\<rparr> else ?c"
  have "clock_ok ?n"
    using assms a b(1,4) u by (auto simp: clock_ok_def)
  then show ?thesis
    using second_overflow_ok unfolding tick_clock_def Let_def by (auto split: if_splits)
qed

section \<open>What adjtimex can change\<close>

lemma pll_offset_freq:
  assumes "time_tolerance c = 100"
  shows "\<bar>time_freq (pll_offset off c)\<bar> \<le> 100 * 2 ^ 20"
proof -
  have "shl 100 20 = 100 * 2 ^ 20" by (simp add: shl_def push_bit_eq_mult fits_s32_def)
  then show ?thesis using assms by (auto simp: pll_offset_def Let_def abs_le_iff)
qed

lemma pll_offset_frame [simp]: "tick (pll_offset off c) = tick c" "time_status (pll_offset off c) = time_status c"
  by (simp_all add: pll_offset_def Let_def)

lemma apply_timex_tick:
  assumes "\<not> txc_invalid tx" "9000 \<le> tick c" "tick c \<le> 11000"
  shows "9000 \<le> tick (apply_timex tx c) \<and> tick (apply_timex tx c) \<le> 11000"
  using assms by (auto simp: apply_timex_def txc_invalid_def Let_def)

lemma apply_timex_status:
  assumes "\<not> txc_invalid tx" "time_status c \<in> {TIME_OK..TIME_BAD}"
  shows "time_status (apply_timex tx c) \<in> {TIME_OK..TIME_BAD}"
  using assms by (auto simp: apply_timex_def txc_invalid_def Let_def)

end
