(* ===== verification/Timer_List.thy ===== *)
theory Timer_List
  imports Kernel_Prelude
begin

text \<open>
  The kernel timers of \<^verbatim>\<open>kernel/sched.c\<close>: the dynamic list \<^verbatim>\<open>next_timer\<close> (\<^verbatim>\<open>add_timer\<close>, \<^verbatim>\<open>del_timer\<close>), the static
  table \<^verbatim>\<open>timer_table\<close> with its bit mask \<^verbatim>\<open>timer_active\<close>, the part of the timer interrupt that counts them
  down, and the bottom half \<^verbatim>\<open>timer_bh\<close> that runs what has expired.

  The list is kept on an explicit heap of \<^verbatim>\<open>struct timer_list\<close>s.  Each entry stores the delay after its
  predecessor; the abstraction is the list of the entries with their absolute delays, and the lemmas show
  that \<^verbatim>\<open>add_timer\<close> is sorted insertion into it and \<^verbatim>\<open>del_timer\<close> removal that gives the caller the
  remaining delay back.
\<close>

type_synonym taddr = nat

record timer_list =
  t_next :: "taddr option"
  expires :: u32
  t_data :: u32
  t_function :: nat

record timer_struct =
  ts_expires :: u32
  ts_fn :: nat

record timers =
  tmr :: "taddr \<Rightarrow> timer_list"
  next_timer :: "taddr option"
  timer_active :: u32
  timer_table :: "timer_struct list"
  lost_ticks :: u32
  bh_marked :: bool

text \<open>A \<^verbatim>\<open>struct timer_list **\<close> is \<^verbatim>\<open>&next_timer\<close> (\<^verbatim>\<open>None\<close>) or the address of the \<^verbatim>\<open>next\<close> field of an entry.\<close>

definition t_load :: "taddr option \<Rightarrow> timers \<Rightarrow> taddr option" where
  "t_load p ts = (case p of None \<Rightarrow> next_timer ts | Some a \<Rightarrow> t_next (tmr ts a))"

definition upd_tmr :: "taddr \<Rightarrow> (timer_list \<Rightarrow> timer_list) \<Rightarrow> timers \<Rightarrow> timers" where
  "upd_tmr a f ts = ts\<lparr>tmr := (tmr ts)(a := f (tmr ts a))\<rparr>"

definition t_store :: "taddr option \<Rightarrow> taddr option \<Rightarrow> timers \<Rightarrow> timers" where
  "t_store p v ts = (case p of None \<Rightarrow> ts\<lparr>next_timer := v\<rparr> | Some a \<Rightarrow> upd_tmr a (\<lambda>t. t\<lparr>t_next := v\<rparr>) ts)"

section \<open>The dynamic list\<close>

partial_function (option) add_walk :: "taddr \<Rightarrow> taddr option \<Rightarrow> timers \<Rightarrow> timers option" where
  "add_walk timer p ts =
     (case t_load p ts of
        None \<Rightarrow> Some (t_store p (Some timer) ts)
      | Some q \<Rightarrow>
          if expires (tmr ts q) > expires (tmr ts timer)
          then let e = expires (tmr ts timer);
                   ts = upd_tmr q (\<lambda>t. t\<lparr>expires := expires t - e\<rparr>) ts;
                   ts = upd_tmr timer (\<lambda>t. t\<lparr>t_next := Some q\<rparr>) ts
               in Some (t_store p (Some timer) ts)
          else add_walk timer (Some q)
                 (let e = expires (tmr ts q) in upd_tmr timer (\<lambda>t. t\<lparr>expires := expires t - e\<rparr>) ts))"

definition add_timer :: "taddr option \<Rightarrow> timers \<Rightarrow> timers option" where
  "add_timer timer ts =
     (case timer of None \<Rightarrow> Some ts
      | Some a \<Rightarrow> add_walk a None (upd_tmr a (\<lambda>t. t\<lparr>t_next := None\<rparr>) ts))"

partial_function (option) del_walk :: "taddr \<Rightarrow> taddr option \<Rightarrow> u32 \<Rightarrow> timers \<Rightarrow> (bool \<times> timers) option" where
  "del_walk timer p acc ts =
     (case t_load p ts of
        None \<Rightarrow> Some (False, ts)
      | Some q \<Rightarrow>
          if q = timer
          then let nx = t_next (tmr ts timer); e = expires (tmr ts timer);
                   ts = t_store p nx ts;
                   ts = (case nx of None \<Rightarrow> ts | Some n \<Rightarrow> upd_tmr n (\<lambda>t. t\<lparr>expires := expires t + e\<rparr>) ts)
               in Some (True, upd_tmr timer (\<lambda>t. t\<lparr>expires := expires t + acc\<rparr>) ts)
          else del_walk timer (Some q) (acc + expires (tmr ts q)) ts)"

definition del_timer :: "taddr \<Rightarrow> timers \<Rightarrow> (bool \<times> timers) option" where
  "del_timer timer ts = del_walk timer None 0 ts"

section \<open>Ticking and expiry\<close>

text \<open>The static timers: one step of the loop over \<^verbatim>\<open>timer_table\<close> that the interrupt and the bottom half
  share (\<^verbatim>\<open>break\<close> past the highest active bit).\<close>

fun due_slots :: "timers \<Rightarrow> u32 \<Rightarrow> nat list \<Rightarrow> nat list" where
  "due_slots ts now [] = []"
| "due_slots ts now (i # is) =
     (if push_bit i 1 > timer_active ts then []
      else if push_bit i 1 AND timer_active ts = 0 then due_slots ts now is
      else if ts_expires (timer_table ts ! i) > now then due_slots ts now is
      else i # due_slots ts now is)"

text \<open>The timer part of \<^verbatim>\<open>do_timer\<close>, after \<^verbatim>\<open>jiffies\<close> has been advanced to \<^verbatim>\<open>now\<close>.\<close>

definition tick_timers :: "u32 \<Rightarrow> timers \<Rightarrow> timers" where
  "tick_timers now ts =
    (let ts = (if due_slots ts now [0..<32] \<noteq> [] then ts\<lparr>bh_marked := True\<rparr> else ts)
     in case next_timer ts of
          None \<Rightarrow> ts
        | Some a \<Rightarrow>
            if expires (tmr ts a) \<noteq> 0
            then let ts = upd_tmr a (\<lambda>t. t\<lparr>expires := expires t - 1\<rparr>) ts
                 in if expires (tmr ts a) = 0 then ts\<lparr>bh_marked := True\<rparr> else ts
            else ts\<lparr>lost_ticks := lost_ticks ts + 1, bh_marked := True\<rparr>)"

text \<open>The first loop of \<^verbatim>\<open>timer_bh\<close>; the functions it calls are the parameter \<^verbatim>\<open>run\<close>, which may change the
  timers (a handler may call \<^verbatim>\<open>add_timer\<close> again), and the result lists the calls in order.\<close>

partial_function (option) expire_timers ::
  "(nat \<Rightarrow> u32 \<Rightarrow> timers \<Rightarrow> timers) \<Rightarrow> timers \<Rightarrow> ((nat \<times> u32) list \<times> timers) option" where
  "expire_timers run ts =
     (case next_timer ts of
        None \<Rightarrow> Some ([], ts)
      | Some a \<Rightarrow>
          if expires (tmr ts a) = 0
          then Option.bind (expire_timers run
                 (run (t_function (tmr ts a)) (t_data (tmr ts a)) (ts\<lparr>next_timer := t_next (tmr ts a)\<rparr>)))
                 (\<lambda>r. Some ((t_function (tmr ts a), t_data (tmr ts a)) # fst r, snd r))
          else Some ([], ts))"

fun run_table :: "(nat \<Rightarrow> timers \<Rightarrow> timers) \<Rightarrow> u32 \<Rightarrow> nat list \<Rightarrow> timers \<Rightarrow> timers" where
  "run_table fn now [] ts = ts"
| "run_table fn now (i # is) ts =
     (if push_bit i 1 > timer_active ts then ts
      else if push_bit i 1 AND timer_active ts = 0 then run_table fn now is ts
      else if ts_expires (timer_table ts ! i) > now then run_table fn now is ts
      else run_table fn now is
             (fn (ts_fn (timer_table ts ! i)) (ts\<lparr>timer_active := timer_active ts AND NOT (push_bit i 1)\<rparr>)))"

definition timer_bh ::
  "(nat \<Rightarrow> u32 \<Rightarrow> timers \<Rightarrow> timers) \<Rightarrow> (nat \<Rightarrow> timers \<Rightarrow> timers) \<Rightarrow> u32 \<Rightarrow> timers \<Rightarrow> ((nat \<times> u32) list \<times> timers) option" where
  "timer_bh run fn now ts =
     do { (calls, ts) \<leftarrow> expire_timers run ts; Some (calls, run_table fn now [0..<32] ts) }"

section \<open>The list of absolute delays\<close>

fun t_chain :: "timers \<Rightarrow> taddr option \<Rightarrow> taddr list \<Rightarrow> bool" where
  "t_chain ts p [] = (p = None)"
| "t_chain ts p (a # as) = (p = Some a \<and> t_chain ts (t_next (tmr ts a)) as)"

fun deadlines :: "(taddr \<Rightarrow> u32) \<Rightarrow> nat \<Rightarrow> taddr list \<Rightarrow> (taddr \<times> nat) list" where
  "deadlines ex base [] = []"
| "deadlines ex base (a # as) = (a, base + unat (ex a)) # deadlines ex (base + unat (ex a)) as"

definition timer_queue :: "timers \<Rightarrow> taddr list \<Rightarrow> bool" where
  "timer_queue ts as \<longleftrightarrow> t_chain ts (next_timer ts) as \<and> distinct as"

definition pending_timers :: "timers \<Rightarrow> taddr list \<Rightarrow> (taddr \<times> nat) list" where
  "pending_timers ts as = deadlines (\<lambda>a. expires (tmr ts a)) 0 as"

text \<open>Insertion by deadline, after the entries with the same one.\<close>

fun insert_deadline :: "taddr \<times> nat \<Rightarrow> (taddr \<times> nat) list \<Rightarrow> (taddr \<times> nat) list" where
  "insert_deadline x [] = [x]"
| "insert_deadline x (y # ys) = (if snd y > snd x then x # y # ys else y # insert_deadline x ys)"

lemma insert_deadline_sorted: "sorted (map snd xs) \<Longrightarrow> sorted (map snd (insert_deadline x xs))"
proof (induction xs)
  case (Cons y ys)
  have "set (insert_deadline x ys) = insert x (set ys)" by (induction ys) auto
  then show ?case using Cons by auto
qed simp

lemma deadlines_sorted: "sorted (map snd (deadlines ex base as)) \<and> (\<forall>x\<in>set (deadlines ex base as). base \<le> snd x)"
  by (induction as arbitrary: base) (simp, fastforce)

lemma deadlines_cong:
  "(\<And>a. a \<in> set as \<Longrightarrow> ex' a = ex a) \<Longrightarrow> deadlines ex' base as = deadlines ex base as"
  by (induction as arbitrary: base) auto

lemma t_chain_cong:
  "(\<And>a. a \<in> set as \<Longrightarrow> t_next (tmr ts' a) = t_next (tmr ts a)) \<Longrightarrow> t_chain ts' p as = t_chain ts p as"
  by (induction as arbitrary: p) auto

lemma upd_tmr_simps [simp]:
  "tmr (upd_tmr a f ts) b = (if b = a then f (tmr ts a) else tmr ts b)" "next_timer (upd_tmr a f ts) = next_timer ts"
  by (simp_all add: upd_tmr_def)

lemma t_store_simps [simp]:
  "expires (tmr (t_store p v ts) b) = expires (tmr ts b)"
  "t_next (tmr (t_store p v ts) b) = (if p = Some b then v else t_next (tmr ts b))"
  "next_timer (t_store p v ts) = (if p = None then v else next_timer ts)"
  "p \<noteq> Some b \<Longrightarrow> tmr (t_store p v ts) b = tmr ts b"
  by (auto simp: t_store_def split: option.split)

lemma t_load_store [simp]: "t_load p (t_store p v ts) = v"
  by (simp add: t_load_def t_store_def split: option.split)

text \<open>\<^verbatim>\<open>add_walk\<close> from a position: the entries behind it get the new one among them.\<close>

definition exps :: "timers \<Rightarrow> taddr \<Rightarrow> u32" where
  "exps ts a = expires (tmr ts a)"

lemma add_walk_ok:
  assumes "t_chain ts (t_load p ts) rest" "distinct rest" "timer \<notin> set rest" "p \<noteq> Some timer"
    "\<And>a. p = Some a \<Longrightarrow> a \<notin> set rest" "t_next (tmr ts timer) = None"
  shows "\<exists>ts' xs ys. rest = xs @ ys \<and> add_walk timer p ts = Some ts'
    \<and> t_chain ts' (t_load p ts') (xs @ timer # ys)
    \<and> (\<forall>a. a \<notin> set rest \<and> a \<noteq> timer \<and> p \<noteq> Some a \<longrightarrow> tmr ts' a = tmr ts a)
    \<and> (\<forall>a. p = Some a \<longrightarrow> exps ts' a = exps ts a) \<and> (p \<noteq> None \<longrightarrow> next_timer ts' = next_timer ts)
    \<and> (\<forall>base. deadlines (exps ts') base (xs @ timer # ys)
         = insert_deadline (timer, base + unat (exps ts timer)) (deadlines (exps ts) base rest))"
  using assms
proof (induction rest arbitrary: p ts)
  case Nil
  then show ?case
    by (intro exI [of _ "t_store p (Some timer) ts"] exI [of _ "[]"])
       (auto simp: add_walk.simps [of timer p ts] exps_def)
next
  case (Cons q rest)
  let ?e = "expires (tmr ts timer)"
  have load: "t_load p ts = Some q" and chain: "t_chain ts (t_next (tmr ts q)) rest" using Cons.prems(1) by auto
  have ne: "q \<noteq> timer" "p \<noteq> Some q" "q \<notin> set rest" "timer \<notin> set rest" using Cons.prems by auto
  show ?case
  proof (cases "expires (tmr ts q) > ?e")
    case True
    let ?ts = "t_store p (Some timer) (upd_tmr timer (\<lambda>t. t\<lparr>t_next := Some q\<rparr>)
       (upd_tmr q (\<lambda>t. t\<lparr>expires := expires t - ?e\<rparr>) ts))"
    have "t_chain ?ts (t_next (tmr ts q)) rest = t_chain ts (t_next (tmr ts q)) rest"
      using Cons.prems(4,5) ne by (intro t_chain_cong) auto
    then have c: "t_chain ?ts (t_load p ?ts) ([] @ timer # q # rest)" using Cons.prems(4) ne chain by simp
    have "unat (expires (tmr ts q) - ?e) = unat (expires (tmr ts q)) - unat ?e"
      using True by (intro unat_sub) simp
    then have e: "unat ?e + unat (expires (tmr ts q) - ?e) = unat (expires (tmr ts q))"
      using True by (simp add: word_less_nat_alt)
    have "deadlines (exps ?ts) b rest = deadlines (exps ts) b rest" for b
      using ne by (intro deadlines_cong) (auto simp: exps_def)
    then have d: "deadlines (exps ?ts) b ([] @ timer # q # rest)
        = insert_deadline (timer, b + unat (exps ts timer)) (deadlines (exps ts) b (q # rest))" for b
      using True ne e by (simp add: exps_def word_less_nat_alt add.assoc)
    have step: "add_walk timer p ts = Some ?ts"
      using load True by (simp add: add_walk.simps [of timer p ts] Let_def)
    have k1: "\<forall>a. a \<notin> set (q # rest) \<and> a \<noteq> timer \<and> p \<noteq> Some a \<longrightarrow> tmr ?ts a = tmr ts a" by simp
    have k2: "\<forall>a. p = Some a \<longrightarrow> exps ?ts a = exps ts a" using Cons.prems(4) ne by (auto simp: exps_def)
    have k3: "p \<noteq> None \<longrightarrow> next_timer ?ts = next_timer ts" by simp
    have "q # rest = [] @ q # rest" by simp
    then show ?thesis using step c d k1 k2 k3 by blast
  next
    case False
    let ?ts = "upd_tmr timer (\<lambda>t. t\<lparr>expires := expires t - expires (tmr ts q)\<rparr>) ts"
    have "t_chain ?ts (t_next (tmr ts q)) rest = t_chain ts (t_next (tmr ts q)) rest"
      using ne by (intro t_chain_cong) auto
    then have c1: "t_chain ?ts (t_load (Some q) ?ts) rest" using chain ne by (simp add: t_load_def)
    have side: "distinct rest" "timer \<notin> set rest" "Some q \<noteq> Some timer" "\<And>a. Some q = Some a \<Longrightarrow> a \<notin> set rest"
      "t_next (tmr ?ts timer) = None"
      using Cons.prems ne by auto
    obtain ts' xs ys where ih: "rest = xs @ ys" "add_walk timer (Some q) ?ts = Some ts'"
      "t_chain ts' (t_load (Some q) ts') (xs @ timer # ys)"
      "\<forall>a. a \<notin> set rest \<and> a \<noteq> timer \<and> Some q \<noteq> Some a \<longrightarrow> tmr ts' a = tmr ?ts a"
      "\<forall>a. Some q = Some a \<longrightarrow> exps ts' a = exps ?ts a" "next_timer ts' = next_timer ?ts"
      "\<forall>base. deadlines (exps ts') base (xs @ timer # ys)
         = insert_deadline (timer, base + unat (exps ?ts timer)) (deadlines (exps ?ts) base rest)"
      using Cons.IH [OF c1 side] by blast
    have step: "add_walk timer p ts = Some ts'"
      using load False ih(2) by (simp add: add_walk.simps [of timer p ts] Let_def)
    have keep: "tmr ts' a = tmr ts a" if "a \<notin> set (q # rest)" "a \<noteq> timer" for a
      using ih(4) that by auto
    have "t_load p ts' = Some q"
      using load keep Cons.prems(4,5) ih(6) by (cases p) (auto simp: t_load_def)
    then have c: "t_chain ts' (t_load p ts') ((q # xs) @ timer # ys)" using ih(3) by (simp add: t_load_def)
    have le: "expires (tmr ts q) \<le> ?e" using False by simp
    have sub: "unat (expires (tmr ts q)) + unat (?e - expires (tmr ts q)) = unat ?e"
      using le unat_sub [OF le] by (simp add: word_le_nat_alt)
    have dr: "deadlines (exps ?ts) b rest = deadlines (exps ts) b rest" for b
      using ne by (intro deadlines_cong) (auto simp: exps_def)
    have eq: "exps ts' q = exps ts q" using ih(5) ne by (simp add: exps_def)
    have d: "deadlines (exps ts') b ((q # xs) @ timer # ys)
        = insert_deadline (timer, b + unat (exps ts timer)) (deadlines (exps ts) b (q # rest))" for b
      using le sub by (simp add: eq ih(7) dr) (simp add: exps_def word_le_nat_alt add.assoc)
    have "q # rest = (q # xs) @ ys" using ih(1) by simp
    moreover have "exps ts' a = exps ts a" if "p = Some a" for a
      using keep [of a] Cons.prems(4) Cons.prems(5) [OF that] that by (simp add: exps_def)
    moreover have "p \<noteq> None \<longrightarrow> next_timer ts' = next_timer ts" using ih(6) by simp
    ultimately show ?thesis using step c d keep by blast
  qed
qed

lemma add_timer_queue:
  assumes q: "timer_queue ts as" and a: "a \<notin> set as"
  shows "\<exists>ts' as'. add_timer (Some a) ts = Some ts' \<and> timer_queue ts' as' \<and> set as' = insert a (set as)
    \<and> pending_timers ts' as' = insert_deadline (a, unat (expires (tmr ts a))) (pending_timers ts as)"
proof -
  let ?ts = "upd_tmr a (\<lambda>t. t\<lparr>t_next := None\<rparr>) ts"
  have "t_chain ?ts (next_timer ts) as = t_chain ts (next_timer ts) as"
    using a by (intro t_chain_cong) auto
  then have c: "t_chain ?ts (t_load None ?ts) as" using q by (simp add: timer_queue_def t_load_def)
  obtain ts' xs ys where r: "as = xs @ ys" "add_walk a None ?ts = Some ts'" "t_chain ts' (t_load None ts') (xs @ a # ys)"
    "\<forall>base. deadlines (exps ts') base (xs @ a # ys)
         = insert_deadline (a, base + unat (exps ?ts a)) (deadlines (exps ?ts) base as)"
    using add_walk_ok [OF c _ a, of] q by (auto simp: timer_queue_def)
  have e: "exps ?ts = exps ts" by (auto simp: exps_def)
  have "pending_timers ts' (xs @ a # ys) = insert_deadline (a, unat (expires (tmr ts a))) (pending_timers ts as)"
    using r(4) [rule_format, of 0] unfolding pending_timers_def e exps_def by simp
  moreover have "timer_queue ts' (xs @ a # ys)"
    using r(1,3) q a by (auto simp: timer_queue_def t_load_def)
  ultimately show ?thesis using r(1,2) by (auto simp: add_timer_def)
qed

text \<open>Removal.  \<^verbatim>\<open>base\<close> is the deadline of the position reached.\<close>

lemma del_walk_found:
  assumes "t_chain ts (t_load p ts) (xs @ timer # ys)" "distinct (xs @ timer # ys)"
    "\<And>a. p = Some a \<Longrightarrow> a \<notin> set (xs @ timer # ys)"
    "unat acc = base"
    "\<And>x. x \<in> set (deadlines (exps ts) base (xs @ timer # ys)) \<Longrightarrow> snd x < 2 ^ 32"
  shows "\<exists>ts'. del_walk timer p acc ts = Some (True, ts') \<and> t_chain ts' (t_load p ts') (xs @ ys)
    \<and> (\<forall>a. p = Some a \<longrightarrow> exps ts' a = exps ts a) \<and> (p \<noteq> None \<longrightarrow> next_timer ts' = next_timer ts)
    \<and> (\<forall>a. a \<notin> set (xs @ timer # ys) \<and> p \<noteq> Some a \<longrightarrow> tmr ts' a = tmr ts a)
    \<and> (timer, unat (exps ts' timer)) \<in> set (deadlines (exps ts) base (xs @ timer # ys))
    \<and> deadlines (exps ts') base (xs @ ys) = filter (\<lambda>x. fst x \<noteq> timer) (deadlines (exps ts) base (xs @ timer # ys))"
  using assms
proof (induction xs arbitrary: p acc ts base)
  case Nil
  have load: "t_load p ts = Some timer" and chain: "t_chain ts (t_next (tmr ts timer)) ys"
    and dist: "timer \<notin> set ys" "distinct ys" using Nil.prems by auto
  have pne: "p \<noteq> Some timer" using Nil.prems(3) by auto
  let ?nx = "t_next (tmr ts timer)" let ?e = "expires (tmr ts timer)"
  let ?ts1 = "t_store p ?nx ts"
  let ?ts2 = "case ?nx of None \<Rightarrow> ?ts1 | Some n \<Rightarrow> upd_tmr n (\<lambda>t. t\<lparr>expires := expires t + ?e\<rparr>) ?ts1"
  let ?ts3 = "upd_tmr timer (\<lambda>t. t\<lparr>expires := expires t + acc\<rparr>) ?ts2"
  have step: "del_walk timer p acc ts = Some (True, ?ts3)"
    using load by (simp add: del_walk.simps [of timer p acc ts] Let_def)
  have nx: "t_next (tmr ?ts3 b) = (if p = Some b then ?nx else t_next (tmr ts b))" for b
    by (auto split: option.split)
  have nt: "next_timer ?ts3 = (if p = None then ?nx else next_timer ts)"
    by (auto split: option.split)
  have load3: "t_load p ?ts3 = ?nx"
    using nx nt by (cases p) (simp_all only: t_load_def option.case if_True refl)
  have pn: "p \<noteq> Some a" if "a \<in> set ys" for a using Nil.prems(3) [of a] that by auto
  have "t_chain ?ts3 ?nx ys = t_chain ts ?nx ys"
    by (rule t_chain_cong) (simp only: nx pn if_False)
  then have c: "t_chain ?ts3 (t_load p ?ts3) ([] @ ys)" using chain load3 by simp
  have ex: "exps ?ts3 b = (if b = timer then ?e + acc else if ?nx = Some b then exps ts b + ?e else exps ts b)" for b
    using chain dist by (cases ys) (auto simp: exps_def split: option.split)
  have lim: "base + unat ?e < 2 ^ 32" using Nil.prems(5) [of "(timer, base + unat ?e)"] by (simp add: exps_def)
  have et: "unat (exps ?ts3 timer) = base + unat ?e"
  proof -
    have "unat (?e + acc) = unat ?e + unat acc"
      by (rule unat_add_lem [THEN iffD1]) (use lim Nil.prems(4) in simp)
    then show ?thesis unfolding ex using Nil.prems(4) by simp
  qed
  have d: "deadlines (exps ?ts3) base ys = deadlines (exps ts) (base + unat ?e) ys"
  proof (cases ys)
    case (Cons n ns)
    have n: "?nx = Some n" "n \<noteq> timer" using chain dist Cons by auto
    have "base + unat ?e + unat (exps ts n) < 2 ^ 32" using Nil.prems(5) [of "(n, base + unat ?e + unat (exps ts n))"] Cons by (simp add: exps_def)
    then have "unat (exps ts n + ?e) = unat (exps ts n) + unat ?e"
      by (subst unat_add_lem [THEN iffD1]) simp_all
    then have "unat (exps ?ts3 n) = unat (exps ts n) + unat ?e"
      unfolding ex using n by simp
    moreover have "exps ?ts3 a = exps ts a" if "a \<in> set ns" for a
    proof -
      have "a \<noteq> timer" "a \<noteq> n" using dist Cons that by auto
      then show ?thesis unfolding ex using n(1) by simp
    qed
    then have "deadlines (exps ?ts3) b ns = deadlines (exps ts) b ns" for b by (rule deadlines_cong)
    ultimately show ?thesis using Cons by (simp add: ac_simps)
  qed simp
  have fil: "filter (\<lambda>x. fst x \<noteq> timer) (deadlines (exps ts) b ys) = deadlines (exps ts) b ys" for b
    using dist(1) by (induction ys arbitrary: b) auto
  have k1: "\<forall>a. p = Some a \<longrightarrow> exps ?ts3 a = exps ts a"
  proof (intro allI impI)
    fix a
    assume "p = Some a"
    then have "a \<noteq> timer" "?nx \<noteq> Some a" using Nil.prems(3) [of a] chain by (cases ys; auto)+
    then show "exps ?ts3 a = exps ts a" unfolding ex by simp
  qed
  have k2: "\<forall>a. a \<notin> set ([] @ timer # ys) \<and> p \<noteq> Some a \<longrightarrow> tmr ?ts3 a = tmr ts a"
    using chain by (cases ys) (auto split: option.split)
  have "p \<noteq> None \<longrightarrow> next_timer ?ts3 = next_timer ts" using nt by simp
  moreover have "(timer, unat (exps ?ts3 timer)) \<in> set (deadlines (exps ts) base ([] @ timer # ys))"
    using et by (simp add: exps_def)
  moreover have "deadlines (exps ?ts3) base ([] @ ys) = filter (\<lambda>x. fst x \<noteq> timer) (deadlines (exps ts) base ([] @ timer # ys))"
    using d fil by (simp add: exps_def)
  ultimately show ?case using step c k1 k2 by blast
next
  case (Cons q xs)
  have load: "t_load p ts = Some q" and chain: "t_chain ts (t_load (Some q) ts) (xs @ timer # ys)"
    using Cons.prems(1) by (auto simp: t_load_def)
  have ne: "q \<noteq> timer" "q \<notin> set (xs @ timer # ys)" "distinct (xs @ timer # ys)" using Cons.prems(2) by auto
  have lim: "base + unat (exps ts q) < 2 ^ 32" using Cons.prems(5) [of "(q, base + unat (exps ts q))"] by simp
  have acc: "unat (acc + exps ts q) = base + unat (exps ts q)"
    using lim Cons.prems(4) by (subst unat_add_lem [THEN iffD1]) simp_all
  obtain ts' where ih: "del_walk timer (Some q) (acc + exps ts q) ts = Some (True, ts')"
    "t_chain ts' (t_load (Some q) ts') (xs @ ys)" "exps ts' q = exps ts q" "next_timer ts' = next_timer ts"
    "\<forall>a. a \<notin> set (xs @ timer # ys) \<and> Some q \<noteq> Some a \<longrightarrow> tmr ts' a = tmr ts a"
    "(timer, unat (exps ts' timer)) \<in> set (deadlines (exps ts) (base + unat (exps ts q)) (xs @ timer # ys))"
    "deadlines (exps ts') (base + unat (exps ts q)) (xs @ ys)
       = filter (\<lambda>x. fst x \<noteq> timer) (deadlines (exps ts) (base + unat (exps ts q)) (xs @ timer # ys))"
    using Cons.IH [OF chain ne(3) _ acc] ne(2) Cons.prems(5) by auto
  have step: "del_walk timer p acc ts = Some (True, ts')"
    using load ne(1) ih(1) by (simp add: del_walk.simps [of timer p acc ts] exps_def)
  have keep: "tmr ts' a = tmr ts a" if "a \<notin> set ((q # xs) @ timer # ys)" for a
    using ih(5) that by auto
  have "t_load p ts' = Some q"
    using load keep Cons.prems(3) ih(4) by (cases p) (auto simp: t_load_def)
  then have c: "t_chain ts' (t_load p ts') ((q # xs) @ ys)" using ih(2) by (simp add: t_load_def)
  have "\<forall>a. p = Some a \<longrightarrow> exps ts' a = exps ts a"
  proof (intro allI impI)
    fix a
    assume "p = Some a"
    from keep [OF Cons.prems(3) [OF this]] show "exps ts' a = exps ts a" by (simp add: exps_def)
  qed
  moreover have "(timer, unat (exps ts' timer)) \<in> set (deadlines (exps ts) base ((q # xs) @ timer # ys))"
    using ih(6) by simp
  moreover have "deadlines (exps ts') base ((q # xs) @ ys)
      = filter (\<lambda>x. fst x \<noteq> timer) (deadlines (exps ts) base ((q # xs) @ timer # ys))"
    using ih(3,7) ne(1) by simp
  ultimately show ?case using step c ih(4) keep by blast
qed

lemma del_walk_absent:
  assumes "t_chain ts (t_load p ts) as" "timer \<notin> set as"
  shows "del_walk timer p acc ts = Some (False, ts)"
  using assms
proof (induction as arbitrary: p acc)
  case (Cons q as)
  then show ?case using Cons.IH [of "Some q"] by (simp add: del_walk.simps [of timer p] t_load_def)
qed (simp add: del_walk.simps)

lemma del_timer_queue:
  assumes q: "timer_queue ts as" and a: "a \<in> set as"
    and lim: "\<forall>x\<in>set (pending_timers ts as). snd x < 2 ^ 32"
  shows "\<exists>ts'. del_timer a ts = Some (True, ts') \<and> timer_queue ts' (remove1 a as)
    \<and> pending_timers ts' (remove1 a as) = filter (\<lambda>x. fst x \<noteq> a) (pending_timers ts as)
    \<and> (a, unat (expires (tmr ts' a))) \<in> set (pending_timers ts as)"
proof -
  obtain xs ys where split: "as = xs @ a # ys" "a \<notin> set xs" using a by (meson split_list_first)
  have x: "exps ts = (\<lambda>a. expires (tmr ts a))" for ts by (simp add: exps_def fun_eq_iff)
  have e: "pending_timers ts = deadlines (exps ts) 0" for ts by (rule ext) (simp only: pending_timers_def x)
  obtain ts' where r: "del_walk a None 0 ts = Some (True, ts')" "t_chain ts' (t_load None ts') (xs @ ys)"
    "(a, unat (exps ts' a)) \<in> set (deadlines (exps ts) 0 (xs @ a # ys))"
    "deadlines (exps ts') 0 (xs @ ys) = filter (\<lambda>x. fst x \<noteq> a) (deadlines (exps ts) 0 (xs @ a # ys))"
    using del_walk_found [of ts None xs a ys 0 0] q lim unfolding e split(1)
    by (auto simp: timer_queue_def t_load_def)
  have "remove1 a as = xs @ ys" using split by (simp add: remove1_append)
  then show ?thesis
    using r q split unfolding e by (auto simp: del_timer_def timer_queue_def t_load_def exps_def)
qed

end
