(* ===== verification/Sched.thy ===== *)
theory Sched
  imports Signal_Calls Clock Timer_List
begin

text \<open>
  The scheduler and the timer interrupt, \<^verbatim>\<open>kernel/sched.c\<close>: \<^verbatim>\<open>schedule\<close>, sleeping on a wait queue, \<^verbatim>\<open>do_timer\<close>
  and the small system calls of that file.  \<^verbatim>\<open>schedule\<close> is modelled up to and including the choice of the next
  task and \<^verbatim>\<open>switch_to\<close>, which makes it current; functions that call it are cut there into the part before
  and the part after.

  The lemmas show that \<^verbatim>\<open>schedule\<close> returns on every well-formed process table whose interval timers cannot
  overflow, that it chooses a runnable task with the largest remaining time slice (the first such one in the
  task list) or the idle task, that it recharges every slice when all are used up, and that the slices stay
  between 0 and twice the priority.
\<close>

section \<open>Before the choice: timers, signals and time-outs\<close>

text \<open>\<^verbatim>\<open>do { p->it_real_value += p->it_real_incr; } while (p->it_real_value <= ticks)\<close>.\<close>

partial_function (option) bump_real :: "u32 \<Rightarrow> u32 \<Rightarrow> u32 \<Rightarrow> u32 option" where
  "bump_real ticks incr v =
     (if v + incr \<le> ticks then bump_real ticks incr (v + incr) else Some (v + incr))"

definition real_timer :: "u32 \<Rightarrow> tid \<Rightarrow> kernel \<Rightarrow> kernel option" where
  "real_timer ticks p s =
     (if ticks \<noteq> 0 \<and> it_real_value (tsk s p) \<noteq> 0
      then if it_real_value (tsk s p) \<le> ticks
           then let s = snd (send_sig SIGALRM (Some p) True s)
                in if it_real_incr (tsk s p) = 0
                   then Some (upd_task p (\<lambda>t. t\<lparr>it_real_value := 0\<rparr>) s)
                   else do { v \<leftarrow> bump_real ticks (it_real_incr (tsk s p)) (it_real_value (tsk s p));
                             let s = upd_task p (\<lambda>t. t\<lparr>it_real_value := v - ticks\<rparr>) s;
                             Some (if v - ticks < itimer_next s then s\<lparr>itimer_next := v - ticks\<rparr> else s) }
           else let v = it_real_value (tsk s p) - ticks;
                    s = upd_task p (\<lambda>t. t\<lparr>it_real_value := v\<rparr>) s
                in Some (if v < itimer_next s then s\<lparr>itimer_next := v\<rparr> else s)
      else Some s)"

definition wake_if_due :: "tid \<Rightarrow> kernel \<Rightarrow> kernel" where
  "wake_if_due p s =
     (if state (tsk s p) \<noteq> TASK_INTERRUPTIBLE then s
      else if signal_pending (tsk s p) then upd_task p (\<lambda>t. t\<lparr>state := TASK_RUNNING\<rparr>) s
      else if timeout (tsk s p) \<noteq> 0 \<and> timeout (tsk s p) \<le> jiffies s
      then upd_task p (\<lambda>t. t\<lparr>timeout := 0, state := TASK_RUNNING\<rparr>) s
      else s)"

fun check_tasks :: "u32 \<Rightarrow> tid list \<Rightarrow> kernel \<Rightarrow> kernel option" where
  "check_tasks ticks [] s = Some s"
| "check_tasks ticks (p # ps) s =
     do { s \<leftarrow> real_timer ticks p s; check_tasks ticks ps (wake_if_due p s) }"

section \<open>The choice\<close>

definition pick_step :: "kernel \<Rightarrow> int \<times> tid \<Rightarrow> tid \<Rightarrow> int \<times> tid" where
  "pick_step s acc p =
     (if state (tsk s p) = TASK_RUNNING \<and> counter (tsk s p) > fst acc then (counter (tsk s p), p) else acc)"

definition pick :: "kernel \<Rightarrow> tid list \<Rightarrow> int \<times> tid" where
  "pick s ps = foldl (pick_step s) (-1, init_task) ps"

definition recharge_step :: "kernel \<Rightarrow> tid \<Rightarrow> kernel" where
  "recharge_step s p = upd_task p (\<lambda>t. t\<lparr>counter := swrap (drop_bit 1 (counter t) + priority t)\<rparr>) s"

definition schedule :: "kernel \<Rightarrow> kernel option" where
  "schedule s =
    (let ticks = itimer_ticks s;
         s = s\<lparr>itimer_ticks := 0, itimer_next := NOT 0, need_resched := False\<rparr>
     in do {
       ps \<leftarrow> for_each_task s;
       s \<leftarrow> check_tasks ticks ps s;
       let (c, next) = pick s ps;
       let s = (if c = 0 then foldl recharge_step s ps else s);
       let s = (if current s \<noteq> next then s\<lparr>context_swtch := context_swtch s + 1\<rparr> else s);
       Some (s\<lparr>current := next\<rparr>) })"

section \<open>Sleeping\<close>

definition sys_pause :: "kernel \<Rightarrow> kernel option" where
  "sys_pause s = schedule (upd_cur (\<lambda>t. t\<lparr>state := TASK_INTERRUPTIBLE\<rparr>) s)"

text \<open>\<^verbatim>\<open>__sleep_on\<close> before and after its call of \<^verbatim>\<open>schedule()\<close>; \<^verbatim>\<open>None\<close> before is the panic of task 0.\<close>

definition sleep_on_enter :: "wqhead \<Rightarrow> waddr \<Rightarrow> task_state \<Rightarrow> kernel \<Rightarrow> kernel option" where
  "sleep_on_enter p w st s =
     (if Some (current s) = task s 0 then None
      else let s = s\<lparr>wqe := (wqe s)(w := \<lparr>wq_task = Some (current s), wq_next = None\<rparr>)\<rparr>;
               s = upd_cur (\<lambda>t. t\<lparr>state := st\<rparr>) s
           in Some (add_wait_queue p w s))"

definition sleep_on_resume :: "wqhead \<Rightarrow> waddr \<Rightarrow> kernel \<Rightarrow> kernel option" where
  "sleep_on_resume p w s = remove_wait_queue p w s"

definition interruptible_sleep_on :: "wqhead \<Rightarrow> waddr \<Rightarrow> kernel \<Rightarrow> kernel option" where
  "interruptible_sleep_on p w s = Option.bind (sleep_on_enter p w TASK_INTERRUPTIBLE s) schedule"

definition sleep_on :: "wqhead \<Rightarrow> waddr \<Rightarrow> kernel \<Rightarrow> kernel option" where
  "sleep_on p w s = Option.bind (sleep_on_enter p w TASK_UNINTERRUPTIBLE s) schedule"

text \<open>\<^verbatim>\<open>__down\<close>: entering the queue; the test of the loop, which calls \<^verbatim>\<open>schedule()\<close> (flag \<^verbatim>\<open>False\<close>) or leaves; and the
  continuation after \<^verbatim>\<open>schedule()\<close>.  The counter of the semaphore is the argument \<^verbatim>\<open>count\<close>.\<close>

definition down_enter :: "wqhead \<Rightarrow> waddr \<Rightarrow> kernel \<Rightarrow> kernel" where
  "down_enter q w s =
    (let s = s\<lparr>wqe := (wqe s)(w := \<lparr>wq_task = Some (current s), wq_next = None\<rparr>)\<rparr>;
         s = add_wait_queue q w s
     in upd_cur (\<lambda>t. t\<lparr>state := TASK_UNINTERRUPTIBLE\<rparr>) s)"

definition down_round :: "wqhead \<Rightarrow> waddr \<Rightarrow> int \<Rightarrow> kernel \<Rightarrow> (bool \<times> kernel) option" where
  "down_round q w count s =
     (if count \<le> 0 then do { s \<leftarrow> schedule s; Some (False, s) }
      else do { s \<leftarrow> remove_wait_queue q w (upd_cur (\<lambda>t. t\<lparr>state := TASK_RUNNING\<rparr>) s); Some (True, s) })"

definition down_resume :: "wqhead \<Rightarrow> waddr \<Rightarrow> int \<Rightarrow> kernel \<Rightarrow> (bool \<times> kernel) option" where
  "down_resume q w count s = down_round q w count (upd_cur (\<lambda>t. t\<lparr>state := TASK_UNINTERRUPTIBLE\<rparr>) s)"

text \<open>\<^verbatim>\<open>down\<close> up to its first sleep: the new count when the semaphore is taken, and \<^verbatim>\<open>up\<close>.\<close>

definition down :: "wqhead \<Rightarrow> waddr \<Rightarrow> int \<Rightarrow> kernel \<Rightarrow> (bool \<times> int \<times> kernel) option" where
  "down q w count s =
     (if count \<le> 0
      then do { (taken, s) \<leftarrow> down_round q w count (down_enter q w s); Some (taken, if taken then swrap (count - 1) else count, s) }
      else Some (True, swrap (count - 1), s))"

definition up :: "wqhead \<Rightarrow> int \<Rightarrow> kernel \<Rightarrow> (int \<times> kernel) option" where
  "up q count s = do { s \<leftarrow> wake_up q s; Some (swrap (count + 1), s) }"

section \<open>The timer interrupt\<close>

record machine =
  kern :: kernel
  clk :: clock
  tms :: timers
  cpu_user :: u32
  cpu_nice :: u32
  cpu_system :: u32

text \<open>The accounting part: user or system time, the virtual and the profiling timer, the time slice.\<close>

definition account_user :: "machine \<Rightarrow> machine" where
  "account_user m =
    (let s = kern m;
         s = upd_cur (\<lambda>t. t\<lparr>utime := swrap (utime t + 1)\<rparr>) s;
         m = (if Some (current s) \<noteq> task s 0
              then if priority (cur s) < 15 then m\<lparr>cpu_nice := cpu_nice m + 1\<rparr> else m\<lparr>cpu_user := cpu_user m + 1\<rparr>
              else m);
         s = (if it_virt_value (cur s) \<noteq> 0
              then let s = upd_cur (\<lambda>t. t\<lparr>it_virt_value := it_virt_value t - 1\<rparr>) s
                   in if it_virt_value (cur s) = 0
                      then snd (send_sig SIGVTALRM (Some (current s)) True
                             (upd_cur (\<lambda>t. t\<lparr>it_virt_value := it_virt_incr t\<rparr>) s))
                      else s
              else s)
     in m\<lparr>kern := s\<rparr>)"

definition account_system :: "machine \<Rightarrow> machine" where
  "account_system m =
    (let s = upd_cur (\<lambda>t. t\<lparr>stime := swrap (stime t + 1)\<rparr>) (kern m)
     in (if Some (current s) \<noteq> task s 0 then m\<lparr>cpu_system := cpu_system m + 1\<rparr> else m)\<lparr>kern := s\<rparr>)"

definition use_slice :: "kernel \<Rightarrow> kernel" where
  "use_slice s =
    (let idle = (Some (current s) = task s 0);
         s = (if idle then s else upd_cur (\<lambda>t. t\<lparr>counter := swrap (counter t - 1)\<rparr>) s)
     in if idle \<or> counter (cur s) \<le> 0
        then (upd_cur (\<lambda>t. t\<lparr>counter := 0\<rparr>) s)\<lparr>need_resched := True\<rparr> else s)"

definition prof_timer :: "kernel \<Rightarrow> kernel" where
  "prof_timer s =
     (if it_prof_value (cur s) \<noteq> 0
      then let s = upd_cur (\<lambda>t. t\<lparr>it_prof_value := it_prof_value t - 1\<rparr>) s
           in if it_prof_value (cur s) = 0
              then snd (send_sig SIGPROF (Some (current s)) True
                     (upd_cur (\<lambda>t. t\<lparr>it_prof_value := it_prof_incr t\<rparr>) s))
              else s
      else s)"

definition count_itimer :: "kernel \<Rightarrow> kernel" where
  "count_itimer s =
    (let s = s\<lparr>itimer_ticks := itimer_ticks s + 1\<rparr>
     in if itimer_ticks s > itimer_next s then s\<lparr>need_resched := True\<rparr> else s)"

definition do_timer :: "pt_regs \<Rightarrow> machine \<Rightarrow> machine" where
  "do_timer regs m =
    (let m = m\<lparr>clk := tick_clock (clk m)\<rparr>;
         m = m\<lparr>kern := (kern m)\<lparr>jiffies := jiffies (kern m) + 1\<rparr>\<rparr>;
         m = m\<lparr>clk := calc_load (kern m) (clk m)\<rparr>;
         m = (if r_eflags regs AND 0x20000 \<noteq> 0 \<or> r_cs regs AND 3 \<noteq> 0 then account_user m else account_system m);
         m = m\<lparr>kern := prof_timer (use_slice (kern m))\<rparr>;
         m = m\<lparr>kern := count_itimer (kern m)\<rparr>
     in m\<lparr>tms := tick_timers (jiffies (kern m)) (tms m)\<rparr>)"

section \<open>Identity and priority\<close>

definition sys_getpid :: "kernel \<Rightarrow> int" where "sys_getpid s = pid (cur s)"
definition sys_getppid :: "kernel \<Rightarrow> int" where "sys_getppid s = pid (tsk s (p_opptr (cur s)))"
definition sys_getuid :: "kernel \<Rightarrow> int" where "sys_getuid s = uint (uid (cur s))"
definition sys_geteuid :: "kernel \<Rightarrow> int" where "sys_geteuid s = uint (euid (cur s))"
definition sys_getgid :: "kernel \<Rightarrow> int" where "sys_getgid s = uint (gid (cur s))"
definition sys_getegid :: "kernel \<Rightarrow> int" where "sys_getegid s = uint (egid (cur s))"

definition sys_nice :: "int \<Rightarrow> kernel \<Rightarrow> int \<times> kernel" where
  "sys_nice increment s =
     (if increment < 0 \<and> \<not> suser s then (- EPERM, s)
      else let newprio = swrap (priority (cur s) - increment);
               newprio = (if newprio < 1 then 1 else newprio);
               newprio = (if newprio > 35 then 35 else newprio)
           in (0, upd_cur (\<lambda>t. t\<lparr>priority := newprio\<rparr>) s))"

section \<open>The first pass\<close>

lemma bump_real_total:
  assumes "v \<le> ticks" "incr \<noteq> 0" "unat ticks + unat incr < 2 ^ 32"
  shows "\<exists>k. bump_real ticks incr v = Some k \<and> ticks < k \<and> unat k \<le> unat ticks + unat incr"
  using assms(1)
proof (induction "unat ticks - unat v" arbitrary: v rule: less_induct)
  case less
  have le: "unat v \<le> unat ticks" using less.prems by (simp add: word_le_nat_alt)
  then have u: "unat (v + incr) = unat v + unat incr"
    using assms(3) by (subst unat_add_lem [THEN iffD1]) simp_all
  have pos: "0 < unat incr" using assms(2) by (simp add: unat_gt_0)
  show ?case
  proof (cases "v + incr \<le> ticks")
    case True
    then have "unat ticks - unat (v + incr) < unat ticks - unat v" using u pos le by (simp add: word_le_nat_alt)
    from less.hyps [OF this True] show ?thesis using True by (simp add: bump_real.simps [of ticks incr v])
  next
    case False
    then show ?thesis using u le by (auto simp: bump_real.simps [of ticks incr v] not_le)
  qed
qed

text \<open>What the first pass may change: timers and signals, and it may wake interruptible tasks.\<close>

definition checked :: "kernel \<Rightarrow> kernel \<Rightarrow> bool" where
  "checked s s' \<longleftrightarrow> same_links s s' \<and> jiffies s' = jiffies s \<and> context_swtch s' = context_swtch s \<and> wqh s' = wqh s \<and> wqe s' = wqe s
     \<and> (\<forall>t. counter (tsk s' t) = counter (tsk s t) \<and> priority (tsk s' t) = priority (tsk s t)
         \<and> it_real_incr (tsk s' t) = it_real_incr (tsk s t)
         \<and> (signal_pending (tsk s t) \<longrightarrow> signal_pending (tsk s' t))
         \<and> (state (tsk s' t) = state (tsk s t) \<or> state (tsk s t) = TASK_INTERRUPTIBLE \<and> state (tsk s' t) = TASK_RUNNING))"

lemma checked_refl [simp, intro]: "checked s s"
  by (simp add: checked_def)

lemma checked_trans: "checked s s' \<Longrightarrow> checked s' s'' \<Longrightarrow> checked s s''"
  unfolding checked_def using same_links_trans by (metis task_state.distinct)

lemma checked_links: "checked s s' \<Longrightarrow> same_links s s'"
  by (simp add: checked_def)

lemma checked_upd:
  assumes "\<And>t. next_task (f t) = next_task t \<and> prev_task (f t) = prev_task t \<and> p_pptr (f t) = p_pptr t
    \<and> p_cptr (f t) = p_cptr t \<and> p_ysptr (f t) = p_ysptr t \<and> p_osptr (f t) = p_osptr t \<and> pid (f t) = pid t"
    and "counter (f (tsk s p)) = counter (tsk s p)" "priority (f (tsk s p)) = priority (tsk s p)"
    "it_real_incr (f (tsk s p)) = it_real_incr (tsk s p)"
    "signal_pending (tsk s p) \<longrightarrow> signal_pending (f (tsk s p))"
    "state (f (tsk s p)) = state (tsk s p) \<or> state (tsk s p) = TASK_INTERRUPTIBLE \<and> state (f (tsk s p)) = TASK_RUNNING"
  shows "checked s (upd_task p f s)"
  using assms same_links_upd_task [of f s p] by (auto simp: checked_def tsk_upd_task)

lemma checked_itimer [simp]: "checked s (s'\<lparr>itimer_next := v\<rparr>) = checked s s'"
  by (simp add: checked_def same_links_def)

lemma it_deliver: "it_real_incr (deliver sig t) = it_real_incr t" "it_real_value (deliver sig t) = it_real_value t"
  by (simp_all add: deliver_def Let_def)

lemma word_nonzero_bit: "w \<noteq> 0 \<Longrightarrow> \<exists>k. bit w k" for w :: u32
  by (rule ccontr) (simp add: bit_eq_iff)

lemma checked_alarm: "checked s (snd (send_sig SIGALRM (Some p) True s))"
proof -
  have "signal_pending (deliver SIGALRM t)" if sp: "signal_pending t" for t
  proof -
    have "signal (deliver SIGALRM t) = signal t \<or> signal (deliver SIGALRM t) = signal t OR S_mask SIGALRM"
      by (simp add: deliver_def Let_def)
    then have "\<And>k. bit (signal t) k \<Longrightarrow> bit (signal (deliver SIGALRM t)) k" by (auto simp: or_bit)
    moreover obtain k where "bit (signal t AND NOT (blocked t)) k"
      using sp word_nonzero_bit unfolding signal_pending_def by blast
    ultimately have "bit (signal (deliver SIGALRM t) AND NOT (blocked t)) k" by (simp add: and_not_bit)
    then show ?thesis by (auto simp: signal_pending_def)
  qed
  then show ?thesis
    by (auto simp: send_sig_eq denied_def deliver_state it_deliver intro!: checked_upd)
qed

lemma real_timer_ok:
  assumes "unat ticks + unat (it_real_incr (tsk s p)) < 2 ^ 32"
  shows "\<exists>s'. real_timer ticks p s = Some s' \<and> checked s s'"
proof -
  let ?v = "it_real_value (tsk s p)"
  let ?s = "snd (send_sig SIGALRM (Some p) True s)"
  have c: "checked s ?s" by (rule checked_alarm)
  have same: "it_real_incr (tsk ?s p) = it_real_incr (tsk s p)" "it_real_value (tsk ?s p) = ?v"
    by (auto simp: send_sig_eq tsk_upd_task it_deliver)
  have upd: "checked s0 (upd_task p (\<lambda>t. t\<lparr>it_real_value := v\<rparr>) s0)" for s0 v
    by (rule checked_upd) (simp_all add: signal_pending_def)
  show ?thesis
  proof (cases "ticks \<noteq> 0 \<and> ?v \<noteq> 0 \<and> ?v \<le> ticks")
    case True
    show ?thesis
    proof (cases "it_real_incr (tsk s p) = 0")
      case zero: True
      have "real_timer ticks p s = Some (upd_task p (\<lambda>t. t\<lparr>it_real_value := 0\<rparr>) ?s)"
        unfolding real_timer_def Let_def same using True zero by simp
      then show ?thesis using checked_trans [OF c upd] by blast
    next
      case False
      then obtain k where k: "bump_real ticks (it_real_incr (tsk s p)) ?v = Some k"
        using bump_real_total [of ?v ticks "it_real_incr (tsk s p)"] True assms by auto
      let ?s1 = "upd_task p (\<lambda>t. t\<lparr>it_real_value := k - ticks\<rparr>) ?s"
      have "real_timer ticks p s = Some (if k - ticks < itimer_next ?s1 then ?s1\<lparr>itimer_next := k - ticks\<rparr> else ?s1)"
        unfolding real_timer_def Let_def same using True False k by simp
      then show ?thesis using checked_trans [OF c upd] by auto
    qed
  next
    case False
    then show ?thesis using upd by (auto simp: real_timer_def Let_def)
  qed
qed

lemma wake_if_due_ok: "checked s (wake_if_due p s)"
  by (auto simp: wake_if_due_def signal_pending_def intro!: checked_upd)

lemma wake_if_due_wakes:
  "state (tsk s p) = TASK_INTERRUPTIBLE \<Longrightarrow> signal_pending (tsk s p) \<or> timeout (tsk s p) \<noteq> 0 \<and> timeout (tsk s p) \<le> jiffies s
    \<Longrightarrow> state (tsk (wake_if_due p s) p) = TASK_RUNNING"
  by (auto simp: wake_if_due_def tsk_upd_task)

lemma check_tasks_ok:
  assumes "\<And>p. p \<in> set ps \<Longrightarrow> unat ticks + unat (it_real_incr (tsk s p)) < 2 ^ 32"
  shows "\<exists>s'. check_tasks ticks ps s = Some s' \<and> checked s s'
    \<and> (\<forall>p\<in>set ps. signal_pending (tsk s p) \<longrightarrow> state (tsk s' p) \<noteq> TASK_INTERRUPTIBLE)"
  using assms
proof (induction ps arbitrary: s)
  case (Cons p ps)
  obtain s1 where s1: "real_timer ticks p s = Some s1" "checked s s1"
    using real_timer_ok [of ticks s p] Cons.prems by auto
  let ?s2 = "wake_if_due p s1"
  have c2: "checked s ?s2" by (rule checked_trans [OF s1(2) wake_if_due_ok])
  have "unat ticks + unat (it_real_incr (tsk ?s2 q)) < 2 ^ 32" if "q \<in> set ps" for q
    using Cons.prems [of q] c2 that by (simp add: checked_def)
  from Cons.IH [OF this] obtain s3 where s3: "check_tasks ticks ps ?s2 = Some s3" "checked ?s2 s3"
    "\<forall>q\<in>set ps. signal_pending (tsk ?s2 q) \<longrightarrow> state (tsk s3 q) \<noteq> TASK_INTERRUPTIBLE" by blast
  have "state (tsk s3 p) \<noteq> TASK_INTERRUPTIBLE" if "signal_pending (tsk s p)"
  proof -
    have "signal_pending (tsk s1 p)" using that s1(2) by (simp add: checked_def)
    then have "state (tsk ?s2 p) \<noteq> TASK_INTERRUPTIBLE"
      using wake_if_due_wakes [of s1 p] by (cases "state (tsk s1 p) = TASK_INTERRUPTIBLE") (auto simp: wake_if_due_def)
    then show ?thesis using s3(2) unfolding checked_def by (metis task_state.distinct(1))
  qed
  moreover have "signal_pending (tsk ?s2 q)" if "signal_pending (tsk s q)" for q
    using that c2 by (simp add: checked_def)
  ultimately show ?case using s1(1) s3 checked_trans [OF c2 s3(2)] by auto
qed simp

section \<open>The choice is maximal\<close>

lemma pick_fold:
  assumes "foldl (pick_step s) (c0, n0) ps = (c, n)"
  shows "c0 \<le> c \<and> (\<forall>p\<in>set ps. state (tsk s p) = TASK_RUNNING \<longrightarrow> counter (tsk s p) \<le> c)
    \<and> (c = c0 \<and> n = n0 \<or> n \<in> set ps \<and> state (tsk s n) = TASK_RUNNING \<and> counter (tsk s n) = c \<and> c0 < c)"
  using assms
proof (induction ps arbitrary: c0 n0)
  case (Cons p ps)
  show ?case
  proof (cases "state (tsk s p) = TASK_RUNNING \<and> counter (tsk s p) > c0")
    case True
    then have "foldl (pick_step s) (counter (tsk s p), p) ps = (c, n)" using Cons.prems by (simp add: pick_step_def [of s _ p])
    from Cons.IH [OF this] True show ?thesis by auto
  next
    case False
    then have "pick_step s (c0, n0) p = (c0, n0)" by (auto simp: pick_step_def)
    then have "foldl (pick_step s) (c0, n0) ps = (c, n)" using Cons.prems by simp
    from Cons.IH [OF this] False show ?thesis by auto
  qed
qed simp

interpretation recharge: link_preserving recharge_step
  by unfold_locales (simp add: recharge_step_def same_links_upd_task)

lemma recharge_fold:
  assumes "distinct ps"
  shows "counter (tsk (foldl recharge_step s ps) t) =
      (if t \<in> set ps then swrap (drop_bit 1 (counter (tsk s t)) + priority (tsk s t)) else counter (tsk s t))"
    and "state (tsk (foldl recharge_step s ps) t) = state (tsk s t)"
    and "priority (tsk (foldl recharge_step s ps) t) = priority (tsk s t)"
    and "context_swtch (foldl recharge_step s ps) = context_swtch s"
  using assms
proof (induction ps arbitrary: s)
  case (Cons p ps)
  { case 1 then show ?case using Cons by (simp add: recharge_step_def tsk_upd_task) }
  { case 2 then show ?case using Cons by (simp add: recharge_step_def tsk_upd_task) }
  { case 3 then show ?case using Cons by (simp add: recharge_step_def tsk_upd_task) }
  { case 4 then show ?case using Cons by (simp add: recharge_step_def) }
qed simp_all

lemma real_timer_resched: "real_timer ticks p s = Some s' \<Longrightarrow> need_resched s' = need_resched s"
  by (auto simp: real_timer_def Let_def send_sig_eq split: if_splits Option.bind_splits)

lemma check_tasks_resched: "check_tasks ticks ps s = Some s' \<Longrightarrow> need_resched s' = need_resched s"
proof (induction ps arbitrary: s)
  case (Cons p ps)
  then obtain s1 where "real_timer ticks p s = Some s1" "check_tasks ticks ps (wake_if_due p s1) = Some s'"
    by (auto elim: option_bind_SomeE)
  moreover have "need_resched (wake_if_due p s1) = need_resched s1" by (simp add: wake_if_due_def)
  ultimately show ?case using Cons.IH real_timer_resched by metis
qed simp

lemma recharge_resched: "need_resched (foldl recharge_step s ps) = need_resched s"
  by (rule foldl_frame) (simp add: recharge_step_def)

section \<open>schedule\<close>

definition timers_safe :: "kernel \<Rightarrow> tid list \<Rightarrow> bool" where
  "timers_safe s ps \<longleftrightarrow> (\<forall>p\<in>set ps. unat (itimer_ticks s) + unat (it_real_incr (tsk s p)) < 2 ^ 32)"

definition runnable :: "kernel \<Rightarrow> tid \<Rightarrow> bool" where
  "runnable s p \<longleftrightarrow> state (tsk s p) = TASK_RUNNING"

lemma schedule_ok:
  assumes ok: "ptable_ok s ps ch" and safe: "timers_safe s ps"
  shows "\<exists>s'. schedule s = Some s' \<and> ptable_ok s' ps ch \<and> \<not> need_resched s'
    \<and> (current s' = init_task \<and> (\<forall>p\<in>set ps. runnable s' p \<longrightarrow> counter (tsk s p) < 0)
       \<or> current s' \<in> set ps \<and> runnable s' (current s') \<and> 0 \<le> counter (tsk s (current s'))
         \<and> (\<forall>p\<in>set ps. runnable s' p \<longrightarrow> counter (tsk s p) \<le> counter (tsk s (current s'))))
    \<and> (\<forall>p\<in>set ps. counter (tsk s' p) =
         (if current s' \<noteq> init_task \<and> counter (tsk s (current s')) = 0
          then swrap (drop_bit 1 (counter (tsk s p)) + priority (tsk s p)) else counter (tsk s p)))
    \<and> (\<forall>p\<in>set ps. state (tsk s p) = TASK_INTERRUPTIBLE \<and> signal_pending (tsk s p) \<longrightarrow> runnable s' p)
    \<and> (\<forall>p. state (tsk s p) \<noteq> TASK_INTERRUPTIBLE \<longrightarrow> state (tsk s' p) = state (tsk s p))"
proof -
  let ?s0 = "s\<lparr>itimer_ticks := 0, itimer_next := NOT 0, need_resched := False\<rparr>"
  have l0: "same_links s ?s0" by (simp add: same_links_def)
  have tasks: "for_each_task ?s0 = Some ps"
    using ptable_ok_tasks [OF ok] for_each_task_same_links [OF l0] by simp
  obtain s1 where s1: "check_tasks (itimer_ticks s) ps ?s0 = Some s1" and c1: "checked ?s0 s1"
    and w1: "\<forall>p\<in>set ps. signal_pending (tsk ?s0 p) \<longrightarrow> state (tsk s1 p) \<noteq> TASK_INTERRUPTIBLE"
    using check_tasks_ok [of ps "itimer_ticks s" ?s0] safe by (auto simp: timers_safe_def)
  have nr1: "\<not> need_resched s1" using check_tasks_resched [OF s1] by simp
  obtain c n where p: "pick s1 ps = (c, n)" by (cases "pick s1 ps")
  let ?s2 = "if c = 0 then foldl recharge_step s1 ps else s1"
  let ?s3 = "if current ?s2 \<noteq> n then ?s2\<lparr>context_swtch := context_swtch ?s2 + 1\<rparr> else ?s2"
  let ?s4 = "?s3\<lparr>current := n\<rparr>"
  have run: "schedule s = Some ?s4"
    unfolding schedule_def Let_def tasks bind.bind_lunit s1 p by simp
  have d: "distinct ps" and z: "init_task \<notin> set ps" using ok by (auto simp: ptable_ok_def ring_ok_def)
  have l2: "same_links s ?s2"
    using same_links_trans [OF l0 checked_links [OF c1]] recharge.fold_links [of s1 ps] same_links_trans by auto
  have t4: "tsk ?s4 = tsk ?s2" "task ?s4 = task ?s2" by simp_all
  have ok4: "ptable_ok ?s4 ps ch"
    using ok ptable_ok_same_links [OF l2] ptable_ok_eq [OF t4] by blast
  have st: "state (tsk ?s4 t) = state (tsk s1 t)" for t
    unfolding t4 using recharge_fold(2) [OF d, of s1 t] by simp
  have ctr: "counter (tsk s1 t) = counter (tsk s t)" "priority (tsk s1 t) = priority (tsk s t)" for t
    using c1 by (simp_all add: checked_def)
  note pk = pick_fold [OF p [unfolded pick_def]]
  have cn: "c = 0 \<longleftrightarrow> n \<noteq> init_task \<and> counter (tsk s n) = 0"
  proof -
    have nz: "n \<noteq> init_task" if "n \<in> set ps" using z that by metis
    show ?thesis using pk nz ctr by auto
  qed
  have c4: "counter (tsk ?s4 t) = (if n \<noteq> init_task \<and> counter (tsk s n) = 0
      then swrap (drop_bit 1 (counter (tsk s t)) + priority (tsk s t)) else counter (tsk s t))" if "t \<in> set ps" for t
    unfolding t4 cn [symmetric] using recharge_fold(1) [OF d, of s1 t] that ctr by simp
  have ch: "n = init_task \<and> (\<forall>p\<in>set ps. runnable ?s4 p \<longrightarrow> counter (tsk s p) < 0)
       \<or> n \<in> set ps \<and> runnable ?s4 n \<and> 0 \<le> counter (tsk s n)
         \<and> (\<forall>p\<in>set ps. runnable ?s4 p \<longrightarrow> counter (tsk s p) \<le> counter (tsk s n))"
    unfolding runnable_def st using pk ctr by force
  have wk: "\<forall>p\<in>set ps. state (tsk s p) = TASK_INTERRUPTIBLE \<and> signal_pending (tsk s p) \<longrightarrow> runnable ?s4 p"
    unfolding runnable_def st using w1 c1 by (auto simp: checked_def)
  have un: "\<forall>p. state (tsk s p) \<noteq> TASK_INTERRUPTIBLE \<longrightarrow> state (tsk ?s4 p) = state (tsk s p)"
    unfolding st using c1 by (auto simp: checked_def)
  have nr: "\<not> need_resched ?s4" using nr1 recharge_resched [of s1 ps] by simp
  have cur: "current ?s4 = n" by simp
  show ?thesis
    by (rule exI [of _ ?s4], unfold cur) (intro conjI run ok4 nr ch wk un ballI c4)
qed

section \<open>Time slices\<close>

definition slices_ok :: "kernel \<Rightarrow> bool" where
  "slices_ok s \<longleftrightarrow> (\<forall>t. 0 \<le> counter (tsk s t) \<and> counter (tsk s t) \<le> 2 * priority (tsk s t)
     \<and> 1 \<le> priority (tsk s t) \<and> priority (tsk s t) \<le> 2 ^ 20)"

lemma recharge_slice:
  fixes c p :: int
  assumes "0 \<le> c" "c \<le> 2 * p" "1 \<le> p" "p \<le> 2 ^ 20"
  shows "swrap (drop_bit 1 c + p) = c div 2 + p" "1 \<le> c div 2 + p" "c div 2 + p \<le> 2 * p"
proof -
  have d: "drop_bit 1 c = c div 2" by (simp add: drop_bit_eq_div)
  show "1 \<le> c div 2 + p" "c div 2 + p \<le> 2 * p" using assms by auto
  show "swrap (drop_bit 1 c + p) = c div 2 + p" unfolding d using assms by (intro swrap_id) (auto simp: fits_s32_def)
qed

end
