(* ===== verification/Process_Theorems.thy ===== *)
theory Process_Theorems
  imports Sched
begin

text \<open>
  The properties of process management: creation, exit, waiting, the process tree and its debugging check,
  wait queues and the scheduler.  Witnesses run on \<^verbatim>\<open>demo_kernel\<close>: four tasks in a line of descent, the third
  one running, the fourth a zombie.
\<close>

text \<open>C1: \<^verbatim>\<open>sys_fork\<close> on a well-formed process table always returns.  It fails with \<^verbatim>\<open>-EAGAIN\<close> and a table as
  before exactly when there is no slot for the caller, no page for the stack or no room for the address space.
  Otherwise it returns a process number between 1 and 32767 that no process, group or session uses, and the child is
  linked in: last in the task list, youngest child of the caller, runnable, with the identities, groups, masks and
  signal actions of its parent and no pending signal, armed timer or CPU time.\<close>

theorem fork_links_child:
  assumes "ptable_ok s ps ch" "live s (current s)" "0 \<le> last_pid s" "last_pid s \<le> 32767" "\<not> live s p"
  shows "\<exists>r s'. sys_fork (Some p) stack copied is_clone ebx ecx esp s = Some (r, s')
    \<and> (if slot_found s < 0 \<or> \<not> stack \<or> \<not> copied (clone_flags is_clone ebx ecx esp)
       then r = - EAGAIN \<and> ptable_ok s' ps (ch(p := []))
       else 1 \<le> r \<and> r \<le> 32767 \<and> \<not> pid_taken s r \<and> fresh_child (tsk s' p) (cur s) r
         \<and> ptable_ok s' (ps @ [p]) (ch(current s := p # ch (current s), p := [])))"
  using assms by (rule sys_fork_ptable)

lemma demo_slot_found: "slot_found demo_kernel = 4"
  by (simp add: slot_found_def free_slots_def user_slots_def task_slots_def demo_kernel_def demo_task_def INIT_TASK_def upt_rec)

theorem fork_links_child_witness:
  "\<exists>r s'. sys_fork (Some 4) True (\<lambda>_. True) False 0 0 0 demo_kernel = Some (r, s')
    \<and> 1 \<le> r \<and> r \<le> 32767 \<and> \<not> pid_taken demo_kernel r \<and> fresh_child (tsk s' 4) (cur demo_kernel) r
    \<and> ptable_ok s' ([1, 2, 3] @ [4]) (demo_children(2 := 4 # demo_children 2, 4 := []))"
proof -
  have c: "current demo_kernel = 2" "last_pid demo_kernel = 3" by (simp_all add: demo_kernel_def)
  show ?thesis
    using fork_links_child [OF demo_ptable, of 4 True "\<lambda>_. True" False 0 0 0] unfolding c
    by (simp add: demo_live demo_slot_found)
qed

text \<open>C2: \<^verbatim>\<open>do_exit\<close> of a process other than the idle task returns to its call of \<^verbatim>\<open>schedule()\<close> with a well-formed table
  in which the caller is a zombie without children: they have all become children of the reaper, the last one
  first.  The consistency check it runs prints nothing.  The reaper must not be one of these children and must have a
  child already, since the loop writes through its \<^verbatim>\<open>p_cptr\<close>; the releases of memory, files and terminal are
  functions that leave the links and queues alone.\<close>

theorem exit_reparents_children:
  assumes "ptable_ok s ps ch" "c = current s" "live s c" "c \<noteq> init_task" "chldexit_ok s"
    and "\<And>s. quiet s (drop_ipc_files s)" "\<And>s. quiet s (drop_fs_mm s)" "\<And>s. quiet s (disassociate_ctty s)"
    and "r = new_parent s" "r \<notin> set (ch c)" "ch r \<noteq> []"
  shows "\<exists>s'. do_exit drop_ipc_files drop_fs_mm disassociate_ctty code s = Some ([], s')
    \<and> ptable_ok s' ps (ch(c := [], r := rev (ch c) @ ch r)) \<and> state (tsk s' c) = TASK_ZOMBIE \<and> current s' = c"
  using assms by (rule do_exit_segments)

theorem exit_reparents_children_witness:
  "\<exists>s'. do_exit id id id 256 demo_kernel = Some ([], s')
    \<and> ptable_ok s' [1, 2, 3] (demo_children(2 := [], 1 := [3, 2])) \<and> state (tsk s' 2) = TASK_ZOMBIE \<and> current s' = 2"
proof -
  have c: "2 = current demo_kernel" "1 = new_parent demo_kernel" by (simp_all add: demo_kernel_def new_parent_def)
  have q: "chldexit_ok demo_kernel" by (auto simp: chldexit_ok_def wq_ring_def demo_kernel_def intro!: exI [of _ "[]"])
  have ch: "demo_children 2 = [3]" "demo_children 1 = [2]" by (simp_all add: demo_children_def)
  show ?thesis
    using exit_reparents_children [OF demo_ptable c(1) _ _ q, of id id id 1 256] c ch by (simp add: demo_live)
qed



text \<open>C4: the search for a process number ends, whatever numbers are in use: with at most 127 tasks some number is
  free.  The number found is used by no task as process, group or session; the slot is the lowest free one, and the
  answer is \<^verbatim>\<open>-EAGAIN\<close> exactly when there is none or when a user other than root would leave fewer than four or has
  too many tasks already.\<close>

theorem find_empty_process_ends:
  assumes "0 \<le> last_pid s" "last_pid s \<le> 32767"
  shows "\<exists>l. find_empty_process s = Some (slot_found s, s\<lparr>last_pid := l\<rparr>) \<and> 1 \<le> l \<and> l \<le> 32767 \<and> \<not> pid_taken s l"
  using assms by (rule find_empty_process_total)

theorem find_empty_process_ends_witness:
  "\<exists>l. find_empty_process demo_kernel = Some (4, demo_kernel\<lparr>last_pid := l\<rparr>) \<and> 1 \<le> l \<and> l \<le> 32767 \<and> \<not> pid_taken demo_kernel l"
  using find_empty_process_ends [of demo_kernel] by (simp add: demo_slot_found) (simp add: demo_kernel_def)





text \<open>Entering a wait queue and leaving it again restores the ring, whatever else waits there.\<close>

theorem wait_queue_round_trip:
  assumes "wq_ring s q ws" "w \<notin> set ws"
  shows "\<exists>s'. remove_wait_queue q w (add_wait_queue q w s) = Some s' \<and> wq_ring s' q ws \<and> wq_next (wqe s' w) = None"
proof (cases ws)
  case Nil
  then show ?thesis using remove_wait_queue_ring [of "add_wait_queue q w s" q "[]" w "[]"] add_wait_queue_ring [OF assms] by simp
next
  case (Cons h hs)
  then show ?thesis using remove_wait_queue_ring [of "add_wait_queue q w s" q "[h]" w hs] add_wait_queue_ring [OF assms] by simp
qed

theorem wait_queue_round_trip_witness:
  "\<exists>s'. remove_wait_queue (Wq 0) 7 (add_wait_queue (Wq 0) 7 demo_kernel) = Some s' \<and> wq_ring s' (Wq 0) [] \<and> wq_next (wqe s' 7) = None"
  using wait_queue_round_trip [of demo_kernel "Wq 0" "[]" 7] by (simp add: wq_ring_def demo_kernel_def)

text \<open>C14: \<^verbatim>\<open>wake_up\<close> makes exactly the sleeping tasks on the queue runnable, and asks for a reschedule exactly when one of
  them has a larger time slice than the running task.\<close>

theorem wake_up_wakes_sleepers:
  assumes "wq_ring s q ws"
  shows "\<exists>s'. wake_up q s = Some s'
    \<and> (\<forall>t. state (tsk s' t) =
        (if t \<in> waiters s ws \<and> state (tsk s t) \<in> {TASK_UNINTERRUPTIBLE, TASK_INTERRUPTIBLE} then TASK_RUNNING else state (tsk s t)))
    \<and> (need_resched s' \<longleftrightarrow> need_resched s \<or> (\<exists>t\<in>waiters s ws. state (tsk s t) \<in> {TASK_UNINTERRUPTIBLE, TASK_INTERRUPTIBLE}
          \<and> counter (tsk s t) > counter (cur s)))
    \<and> same_links s s' \<and> wq_ring s' q ws"
proof -
  let ?S = "{TASK_UNINTERRUPTIBLE, TASK_INTERRUPTIBLE}"
  let ?s = "foldl (wake_entry ?S) s ws"
  have frame: "wqe ?s = wqe s \<and> wqh ?s = wqh s" by (induction ws arbitrary: s) simp_all
  then have "wq_ring ?s q ws" using assms by (simp add: wq_ring_def)
  then show ?thesis
    using wake_up_ring [OF assms] fold_wake_state [of ?S s ws] fold_wake_resched [of ?S s ws] wake.fold_links [of s ?S ws]
    by (auto simp: waiters_def)
qed

theorem wake_up_wakes_sleepers_witness:
  "\<exists>s'. wake_up (Wq 0) (add_wait_queue (Wq 0) 7 demo_kernel) = Some s' \<and> wq_ring s' (Wq 0) [7]"
proof -
  have "wq_ring demo_kernel (Wq 0) []" by (simp add: wq_ring_def demo_kernel_def)
  then have "wq_ring (add_wait_queue (Wq 0) 7 demo_kernel) (Wq 0) [7]" using add_wait_queue_ring by fastforce
  then show ?thesis using wake_up_wakes_sleepers by blast
qed

text \<open>C15: time slices stay between 0 and twice the priority when the scheduler runs, also when it recharges them, and the
  recharge gives every task at least one tick.\<close>

theorem schedule_keeps_slices:
  assumes "ptable_ok s ps ch" "timers_safe s ps" "slices_ok s" "p \<in> set ps"
  shows "\<exists>s'. schedule s = Some s' \<and> 0 \<le> counter (tsk s' p) \<and> counter (tsk s' p) \<le> 2 * priority (tsk s p)
    \<and> (counter (tsk s (current s')) = 0 \<and> current s' \<noteq> init_task \<longrightarrow> 1 \<le> counter (tsk s' p))"
proof -
  let ?c = "counter (tsk s p)" and ?p = "priority (tsk s p)"
  have b: "0 \<le> ?c" "?c \<le> 2 * ?p" "1 \<le> ?p" "?p \<le> 2 ^ 20" using assms(3) unfolding slices_ok_def by blast+
  obtain s' where s': "schedule s = Some s'" "counter (tsk s' p) =
      (if current s' \<noteq> init_task \<and> counter (tsk s (current s')) = 0 then swrap (drop_bit 1 ?c + ?p) else ?c)"
    using schedule_ok [OF assms(1,2)] assms(4) by blast
  show ?thesis using s' recharge_slice [OF b] b by auto
qed

theorem schedule_keeps_slices_witness:
  "\<exists>s'. schedule demo_kernel = Some s' \<and> 0 \<le> counter (tsk s' 2) \<and> counter (tsk s' 2) \<le> 30"
proof -
  have "timers_safe demo_kernel [1, 2, 3]" "slices_ok demo_kernel" "priority (tsk demo_kernel 2) = 15"
    by (simp_all add: timers_safe_def slices_ok_def demo_kernel_def demo_task_def INIT_TASK_def)
  then show ?thesis using schedule_keeps_slices [OF demo_ptable, of 2] by auto
qed

end
