(* ===== verification/Signal_Theorems.thy ===== *)
theory Signal_Theorems
  imports Sched
begin

text \<open>
  The properties of signals: who may send them, what sending does, masks and actions, and the frame that carries a
  process through a handler and back.
\<close>




text \<open>C7: \<^verbatim>\<open>sys_sigreturn\<close> undoes \<^verbatim>\<open>setup_frame\<close>: when the handler returns with the stack pointer past the return address
  and the signal number, every register that was saved is restored, the flags in the bits a user may set, and the
  blocked mask is the saved one without SIGKILL and SIGSTOP.\<close>

theorem sigreturn_undoes_setup_frame:
  assumes "setup_frame sa fp eip regs ti signr oldmask (fsmem s) = Some (frame, m)"
    and "copy_seg False (r_ds regs)" "copy_seg False (r_es regs)" "copy_seg False (r_fs regs)"
      "copy_seg False (r_gs regs)" "copy_seg True (r_ss regs)" "copy_seg True (r_cs regs)"
    and "r_esp regs' = frame + 8"
  shows "sys_sigreturn regs' (s\<lparr>fsmem := m\<rparr>) =
    Some (r_eax regs,
      regs\<lparr>r_eax := r_eax regs', r_eip := eip, r_esp := fp, r_orig_eax := NOT 0,
        r_eflags := (r_eflags regs' AND NOT 0xCD5) OR (r_eflags regs AND 0xCD5)\<rparr>,
      set_blocked (oldmask AND BLOCKABLE) (s\<lparr>fsmem := m\<rparr>))"
  using assms by (rule sigreturn_of_frame)

definition demo_regs :: pt_regs where
  "demo_regs = \<lparr>r_ebx = 1, r_ecx = 2, r_edx = 3, r_esi = 4, r_edi = 5, r_ebp = 6, r_eax = 7, r_ds = USER_DS, r_es = USER_DS,
     r_fs = USER_DS, r_gs = USER_DS, r_orig_eax = 8, r_eip = 0x1000, r_cs = USER_CS, r_eflags = 0x202, r_esp = 0x8000,
     r_ss = USER_DS\<rparr>"

theorem sigreturn_undoes_setup_frame_witness:
  "\<exists>m. setup_frame \<lparr>sa_handler = 0x2000, sa_mask = 0, sa_flags = 0, sa_restorer = 0\<rparr> 0x8000 0x1000 demo_regs
        \<lparr>trap_no = 0, error_code = 0, cr2 = 0\<rparr> 10 0 (fsmem demo_kernel) = Some (0x7f80, m)
    \<and> sys_sigreturn (demo_regs\<lparr>r_esp := 0x7f88\<rparr>) (demo_kernel\<lparr>fsmem := m\<rparr>) =
       Some (7, demo_regs\<lparr>r_eax := 7, r_eip := 0x1000, r_esp := 0x8000, r_orig_eax := NOT 0,
                r_eflags := (0x202 AND NOT 0xCD5) OR (0x202 AND 0xCD5)\<rparr>,
             set_blocked (0 AND BLOCKABLE) (demo_kernel\<lparr>fsmem := m\<rparr>))"
proof -
  let ?sa = "\<lparr>sa_handler = 0x2000, sa_mask = 0, sa_flags = 0, sa_restorer = 0\<rparr> :: sigaction"
  let ?ti = "\<lparr>trap_no = 0, error_code = 0, cr2 = 0\<rparr> :: trap_info"
  obtain m where m: "setup_frame ?sa 0x8000 0x1000 demo_regs ?ti 10 0 (fsmem demo_kernel) = Some (0x7f80, m)"
    by (simp add: setup_frame_def demo_regs_def verify_area_def Let_def)
  have seg: "copy_seg False (r_ds demo_regs)" "copy_seg False (r_es demo_regs)" "copy_seg False (r_fs demo_regs)"
    "copy_seg False (r_gs demo_regs)" "copy_seg True (r_ss demo_regs)" "copy_seg True (r_cs demo_regs)"
    by (simp_all add: copy_seg_def demo_regs_def)
  show ?thesis
    using sigreturn_undoes_setup_frame [OF m seg, of "demo_regs\<lparr>r_esp := 0x7f88\<rparr>"] m by (auto simp: demo_regs_def)
qed

text \<open>C8: \<^verbatim>\<open>kill_pg\<close> delivers the signal to exactly the members of the group that the sender may signal, and returns 0 if
  there is one, \<^verbatim>\<open>-EPERM\<close> if the group has members but none may be signalled, and \<^verbatim>\<open>-ESRCH\<close> if it is empty.\<close>

theorem kill_pg_reaches_group:
  assumes "ring_ok s ps" "0 \<le> sig" "sig \<le> 32" "0 < pg"
  shows "kill_pg pg sig priv s =
    Some (if \<exists>p\<in>set ps. pgrp (tsk s p) = pg \<and> \<not> denied (nat sig) p priv s then 0
          else if \<exists>p\<in>set ps. pgrp (tsk s p) = pg then - EPERM else - ESRCH,
          delivered (\<lambda>t. pgrp t = pg) (nat sig) priv ps s)"
  using assms kill_loop_eq [of s ps "nat sig" "\<lambda>t. pgrp t = pg" priv] by (simp add: kill_pg_def)

theorem kill_pg_reaches_group_witness:
  "\<exists>s'. kill_pg 2 1 False demo_kernel = Some (0, s')"
proof -
  have r: "ring_ok demo_kernel [1, 2, 3]" using demo_ptable by (simp add: ptable_ok_def)
  have "pgrp (tsk demo_kernel 2) = 2" "\<not> denied 1 2 False demo_kernel"
    by (simp_all add: demo_kernel_def demo_task_def INIT_TASK_def denied_def)
  then show ?thesis using kill_pg_reaches_group [OF r, of 1 2 False] by auto
qed

text \<open>C18: \<^verbatim>\<open>send_sig\<close> refuses a signal exactly by the permission rule.  When it sends it, the pending signals of the receiver are
  the old ones and the new one, less the stop signals when the new one is SIGKILL or SIGCONT, and less SIGCONT when
  it is a stop signal; the new one is left out when the receiver ignores it.\<close>

theorem send_sig_effect:
  assumes "0 < sig" "sig \<le> 32" "send_sig sig (Some p) priv s = (r, s')"
  shows "if denied sig p priv s then r = - EPERM \<and> s' = s
    else r = 0 \<and> (\<forall>n>0. pending (tsk s' p) n \<longleftrightarrow>
          n = sig \<and> \<not> discards (tsk s p) sig
          \<or> pending (tsk s p) n \<and> \<not> (sig \<in> {SIGKILL, SIGCONT} \<and> n \<in> STOP_SIGS) \<and> \<not> (sig \<in> STOP_SIGS \<and> n = SIGCONT))
      \<and> (\<forall>t. t \<noteq> p \<longrightarrow> tsk s' t = tsk s t)"
proof (cases "denied sig p priv s")
  case True
  then show ?thesis using assms(2,3) send_sig_eq [of sig p priv s] by simp
next
  case False
  then have e: "r = 0" "s' = upd_task p (deliver sig) s" using assms(2,3) send_sig_eq [of sig p priv s] by simp_all
  have "tsk s' p = deliver sig (tsk s p)" "\<And>t. t \<noteq> p \<Longrightarrow> tsk s' t = tsk s t" by (simp_all add: e tsk_upd_task)
  then show ?thesis using False e(1) deliver_pending [OF assms(1,2), of _ "tsk s p"] by presburger
qed

theorem send_sig_effect_witness:
  "\<exists>r s'. send_sig 19 (Some 2) False demo_kernel = (r, s') \<and> r = 0 \<and> pending (tsk s' 2) 19"
proof -
  obtain r s' where e: "send_sig 19 (Some 2) False demo_kernel = (r, s')" by (cases "send_sig 19 (Some 2) False demo_kernel")
  have "\<not> denied 19 2 False demo_kernel" "\<not> discards (tsk demo_kernel 2) 19"
    by (simp_all add: demo_kernel_def demo_task_def INIT_TASK_def denied_def discards_def)
  then show ?thesis using send_sig_effect [OF _ _ e] e by auto
qed

text \<open>SIGKILL and SIGCONT sent to a zombie reset its exit code to 0, so that a parent waiting for it afterwards reads
  a successful exit: the test of the state only guards the wake-up of a stopped process.\<close>

theorem kill_loses_exit_status:
  assumes "sig \<in> {SIGKILL, SIGCONT}" "\<not> denied sig p priv s" "state (tsk s p) = TASK_ZOMBIE"
  shows "exit_code (tsk (snd (send_sig sig (Some p) priv s)) p) = 0
    \<and> state (tsk (snd (send_sig sig (Some p) priv s)) p) = TASK_ZOMBIE"
  using assms by (auto simp: send_sig_eq tsk_upd_task deliver_def Let_def)

theorem kill_loses_exit_status_witness:
  "exit_code (tsk (snd (send_sig SIGCONT (Some 3) False (upd_task 3 (\<lambda>t. t\<lparr>exit_code := 256\<rparr>) demo_kernel))) 3) = 0"
  by (rule kill_loses_exit_status [THEN conjunct1]) (simp_all add: demo_kernel_def demo_task_def INIT_TASK_def denied_def upd_task_def)

end
