(* ===== verification/Sys_Calls.thy ===== *)
theory Sys_Calls
  imports Sched
begin

text \<open>
  \<^verbatim>\<open>kernel/sys.c\<close>: priorities, user and group identities, process groups and sessions, supplementary groups,
  resource limits, the break, host name and file-creation mask.  The memory statistics that \<^verbatim>\<open>sys_brk\<close>
  consults are an argument, and its calls of \<^verbatim>\<open>do_mmap\<close> and \<^verbatim>\<open>do_munmap\<close>, whose results it ignores, are left out.

  The lemmas show that a process without privilege can only permute and drop the identities it has, never
  raise a priority, and never take a process group outside its session.  They also show a hole: the limits are
  signed, so an unprivileged process may replace its data limit by a negative number, which \<^verbatim>\<open>sys_brk\<close> reads as
  \<^verbatim>\<open>no limit\<close>.
\<close>

section \<open>Priorities\<close>

abbreviation (input) PRIO_PROCESS :: int where "PRIO_PROCESS \<equiv> 0"
abbreviation (input) PRIO_PGRP :: int where "PRIO_PGRP \<equiv> 1"
abbreviation (input) PRIO_USER :: int where "PRIO_USER \<equiv> 2"

definition proc_sel :: "kernel \<Rightarrow> tid \<Rightarrow> int \<Rightarrow> int \<Rightarrow> bool" where
  "proc_sel s p which who =
     (if which = PRIO_PROCESS then (if who = 0 \<and> p = current s then True else pid (tsk s p) = who)
      else if which = PRIO_PGRP then pgrp (tsk s p) = (if who = 0 then pgrp (cur s) else who)
      else if which = PRIO_USER then uint (uid (tsk s p)) = (if who = 0 then uint (uid (cur s)) else who)
      else False)"

definition setprio_step :: "int \<Rightarrow> int \<Rightarrow> int \<Rightarrow> int \<times> kernel \<Rightarrow> nat \<Rightarrow> int \<times> kernel" where
  "setprio_step which who prio acc i =
    (case acc of (error, s) \<Rightarrow>
      (case task s i of None \<Rightarrow> (error, s)
       | Some p \<Rightarrow>
           if \<not> proc_sel s p which who then (error, s)
           else if uid (tsk s p) \<noteq> euid (cur s) \<and> uid (tsk s p) \<noteq> uid (cur s) \<and> \<not> suser s then (EPERM, s)
           else let error = (if error = ESRCH then 0 else error)
                in if prio > priority (tsk s p) \<and> \<not> suser s then (EACCES, s)
                   else (error, upd_task p (\<lambda>t. t\<lparr>priority := prio\<rparr>) s)))"

definition sys_setpriority :: "int \<Rightarrow> int \<Rightarrow> int \<Rightarrow> kernel \<Rightarrow> int \<times> kernel" where
  "sys_setpriority which who niceval s =
     (if which > 2 \<or> which < 0 then (- EINVAL, s)
      else let prio = swrap (15 - niceval);
               prio = (if prio \<le> 0 then 1 else prio);
               (error, s) = foldl (setprio_step which who prio) (ESRCH, s) (rev task_slots)
           in (- error, s))"

definition getprio_step :: "kernel \<Rightarrow> int \<Rightarrow> int \<Rightarrow> int \<Rightarrow> nat \<Rightarrow> int" where
  "getprio_step s which who max_prio i =
     (case task s i of None \<Rightarrow> max_prio
      | Some p \<Rightarrow> if proc_sel s p which who \<and> priority (tsk s p) > max_prio then priority (tsk s p) else max_prio)"

definition sys_getpriority :: "int \<Rightarrow> int \<Rightarrow> kernel \<Rightarrow> int" where
  "sys_getpriority which who s =
     (if which > 2 \<or> which < 0 then - EINVAL
      else let m = foldl (getprio_step s which who) 0 (rev task_slots) in if m \<noteq> 0 then m else - ESRCH)"

section \<open>Identities\<close>

abbreviation (input) NO_ID :: u16 where "NO_ID \<equiv> 0xffff"

definition sys_setregid :: "u16 \<Rightarrow> u16 \<Rightarrow> kernel \<Rightarrow> int \<times> kernel" where
  "sys_setregid rgid eg s =
    (let old_rgid = gid (cur s);
         ok_r = rgid = NO_ID \<or> egid (cur s) = rgid \<or> old_rgid = rgid \<or> suser s;
         s1 = (if rgid \<noteq> NO_ID then upd_cur (\<lambda>t. t\<lparr>gid := rgid\<rparr>) s else s)
     in if \<not> ok_r then (- EPERM, s)
        else if eg \<noteq> NO_ID
        then if old_rgid = eg \<or> egid (cur s1) = eg \<or> suser s1
             then (0, upd_cur (\<lambda>t. t\<lparr>egid := eg, sgid := eg\<rparr>) s1)
             else (- EPERM, upd_cur (\<lambda>t. t\<lparr>gid := old_rgid\<rparr>) s1)
        else (0, s1))"

definition sys_setgid :: "u16 \<Rightarrow> kernel \<Rightarrow> int \<times> kernel" where
  "sys_setgid g s =
     (if suser s then (0, upd_cur (\<lambda>t. t\<lparr>gid := g, egid := g, sgid := g\<rparr>) s)
      else if g = gid (cur s) \<or> g = sgid (cur s) then (0, upd_cur (\<lambda>t. t\<lparr>egid := g\<rparr>) s)
      else (- EPERM, s))"

definition sys_setreuid :: "u16 \<Rightarrow> u16 \<Rightarrow> kernel \<Rightarrow> int \<times> kernel" where
  "sys_setreuid ruid eu s =
    (let old_ruid = uid (cur s);
         ok_r = ruid = NO_ID \<or> euid (cur s) = ruid \<or> old_ruid = ruid \<or> suser s;
         s1 = (if ruid \<noteq> NO_ID then upd_cur (\<lambda>t. t\<lparr>uid := ruid\<rparr>) s else s)
     in if \<not> ok_r then (- EPERM, s)
        else if eu \<noteq> NO_ID
        then if old_ruid = eu \<or> euid (cur s1) = eu \<or> suser s1
             then (0, upd_cur (\<lambda>t. t\<lparr>euid := eu, suid := eu\<rparr>) s1)
             else (- EPERM, upd_cur (\<lambda>t. t\<lparr>uid := old_ruid\<rparr>) s1)
        else (0, s1))"

definition sys_setuid :: "u16 \<Rightarrow> kernel \<Rightarrow> int \<times> kernel" where
  "sys_setuid u s =
     (if suser s then (0, upd_cur (\<lambda>t. t\<lparr>uid := u, euid := u, suid := u\<rparr>) s)
      else if u = uid (cur s) \<or> u = suid (cur s) then (0, upd_cur (\<lambda>t. t\<lparr>euid := u\<rparr>) s)
      else (- EPERM, s))"

definition sys_times :: "u32 \<Rightarrow> kernel \<Rightarrow> int \<times> kernel" where
  "sys_times tbuf s =
    (let error = (if tbuf \<noteq> 0 then verify_area VERIFY_WRITE tbuf 16 else 0)
     in if error \<noteq> 0 then (error, s)
        else (to_s32 (jiffies s),
              if tbuf \<noteq> 0
              then s\<lparr>fsmem := put_longs (map to_u32 [utime (cur s), stime (cur s), cutime (cur s), cstime (cur s)]) tbuf (fsmem s)\<rparr>
              else s))"

section \<open>The break\<close>

record mem_stat =
  buffermem :: int
  nr_free_pages :: int
  nr_swap_pages :: int
  high_memory :: u32

definition PAGE_ALIGN :: "u32 \<Rightarrow> u32" where
  "PAGE_ALIGN a = (a + 0xfff) AND 0xfffff000"

abbreviation (input) RLIMIT_DATA :: nat where "RLIMIT_DATA \<equiv> 2"
abbreviation (input) RLIM_INFINITY :: u32 where "RLIM_INFINITY \<equiv> 0x7fffffff"

definition set_brk :: "u32 \<Rightarrow> kernel \<Rightarrow> u32 \<times> kernel" where
  "set_brk b s = (b, upd_cur (\<lambda>t. t\<lparr>brk := b\<rparr>) s)"

definition data_limit :: "task_struct \<Rightarrow> u32" where
  "data_limit t = (let r = to_u32 (rlim_cur (rlim t ! RLIMIT_DATA)) in if r \<ge> RLIM_INFINITY then NOT 0 else r)"

definition sys_brk :: "mem_stat \<Rightarrow> u32 \<Rightarrow> kernel \<Rightarrow> u32 \<times> kernel" where
  "sys_brk ms b s =
    (let t = cur s; newbrk = PAGE_ALIGN b; oldbrk = PAGE_ALIGN (brk t)
     in if b < end_code t then (brk t, s)
        else if oldbrk = newbrk then set_brk b s
        else if b \<le> brk t then set_brk b s
        else if b - end_code t > data_limit t \<or> b \<ge> start_stack t - 16384 then (brk t, s)
        else let freepages = swrap (drop_bit 12 (buffermem ms) + nr_free_pages ms + nr_swap_pages ms
                   - uint (drop_bit 16 (high_memory ms - 0x100000)) - uint (drop_bit 12 (newbrk - oldbrk)))
             in if freepages < 0 then (brk t, s) else set_brk b s)"

section \<open>Process groups and sessions\<close>

definition sys_setpgid :: "int \<Rightarrow> int \<Rightarrow> kernel \<Rightarrow> (int \<times> kernel) option" where
  "sys_setpgid pd pgid s =
    (let pd = (if pd = 0 then pid (cur s) else pd); pgid = (if pgid = 0 then pd else pgid)
     in if pgid < 0 then Some (- EINVAL, s)
        else do {
          ps \<leftarrow> for_each_task s;
          Some (case find (\<lambda>p. pid (tsk s p) = pd) ps of
              None \<Rightarrow> (- ESRCH, s)
            | Some p \<Rightarrow>
                let child = p_pptr (tsk s p) = current s \<or> p_opptr (tsk s p) = current s
                in if child \<and> session (tsk s p) \<noteq> session (cur s) then (- EPERM, s)
                   else if child \<and> did_exec (tsk s p) then (- EACCES, s)
                   else if \<not> child \<and> p \<noteq> current s then (- ESRCH, s)
                   else if leader (tsk s p) then (- EPERM, s)
                   else if pgid \<noteq> pd \<and>
                        \<not> list_ex (\<lambda>t. pgrp (tsk s t) = pgid \<and> session (tsk s t) = session (cur s)) ps
                   then (- EPERM, s)
                   else (0, upd_task p (\<lambda>t. t\<lparr>pgrp := pgid\<rparr>) s)) })"

definition sys_getpgid :: "int \<Rightarrow> kernel \<Rightarrow> int option" where
  "sys_getpgid pd s =
     (if pd = 0 then Some (pgrp (cur s))
      else do { ps \<leftarrow> for_each_task s;
                Some (case find (\<lambda>p. pid (tsk s p) = pd) ps of Some p \<Rightarrow> pgrp (tsk s p) | None \<Rightarrow> - ESRCH) })"

definition sys_getpgrp :: "kernel \<Rightarrow> int" where
  "sys_getpgrp s = pgrp (cur s)"

definition sys_setsid :: "kernel \<Rightarrow> int \<times> kernel" where
  "sys_setsid s =
     (if leader (cur s) then (- EPERM, s)
      else let s = upd_cur (\<lambda>t. t\<lparr>leader := True, pgrp := pid t, session := pid t, tty := -1\<rparr>) s
           in (pgrp (cur s), s))"

section \<open>Supplementary groups\<close>

abbreviation (input) NGROUPS :: nat where "NGROUPS \<equiv> 32"
abbreviation (input) NOGROUP :: int where "NOGROUP \<equiv> -1"

text \<open>The copy loop of \<^verbatim>\<open>sys_getgroups\<close> over the entries from \<^verbatim>\<open>i\<close> on: the number of entries seen and the new
  memory.\<close>

fun getgroups_loop :: "int \<Rightarrow> int list \<Rightarrow> int \<Rightarrow> u32 \<Rightarrow> umem \<Rightarrow> int \<times> umem" where
  "getgroups_loop n [] i a m = (i, m)"
| "getgroups_loop n (g # gs) i a m =
     (if g = NOGROUP then (i, m)
      else if n = 0 then getgroups_loop n gs (i + 1) a m
      else if i \<ge> n then (i, m)
      else getgroups_loop n gs (i + 1) (a + 2) (put_fs_word (word_of_int g) a m))"

definition sys_getgroups :: "int \<Rightarrow> u32 \<Rightarrow> kernel \<Rightarrow> int \<times> kernel" where
  "sys_getgroups gidsetsize grouplist s =
    (let err = (if gidsetsize \<noteq> 0 then verify_area VERIFY_WRITE grouplist (2 * to_u32 gidsetsize) else 0)
     in if err \<noteq> 0 then (err, s)
        else let (i, m) = getgroups_loop gidsetsize (groups (cur s)) 0 grouplist (fsmem s)
             in (i, s\<lparr>fsmem := m\<rparr>))"

fun user_words :: "umem \<Rightarrow> u32 \<Rightarrow> nat \<Rightarrow> int list" where
  "user_words m a 0 = []"
| "user_words m a (Suc n) = uint (get_fs_word m a) # user_words m (a + 2) n"

definition store_groups :: "int list \<Rightarrow> int list \<Rightarrow> int list" where
  "store_groups gs old =
    (let new = gs @ drop (length gs) old
     in if length gs < NGROUPS then new[length gs := NOGROUP] else new)"

definition sys_setgroups :: "int \<Rightarrow> u32 \<Rightarrow> kernel \<Rightarrow> int \<times> kernel" where
  "sys_setgroups gidsetsize grouplist s =
     (if \<not> suser s then (- EPERM, s)
      else if gidsetsize > int NGROUPS then (- EINVAL, s)
      else (0, upd_cur (\<lambda>t. t\<lparr>groups := store_groups (user_words (fsmem s) grouplist (nat gidsetsize)) (groups t)\<rparr>) s))"

fun group_scan :: "int \<Rightarrow> int list \<Rightarrow> bool" where
  "group_scan g [] = False"
| "group_scan g (x # xs) = (if x = NOGROUP then False else if x = g then True else group_scan g xs)"

definition in_group_p :: "u16 \<Rightarrow> kernel \<Rightarrow> bool" where
  "in_group_p grp s = (if grp = egid (cur s) then True else group_scan (uint grp) (groups (cur s)))"

section \<open>Names, limits and the creation mask\<close>

text \<open>\<^verbatim>\<open>sys_sethostname\<close> and \<^verbatim>\<open>sys_setdomainname\<close>: the copy loop into a 65-byte field stops at a zero byte.\<close>

fun copy_name :: "umem \<Rightarrow> u32 \<Rightarrow> nat \<Rightarrow> nat \<Rightarrow> u8 list \<Rightarrow> u8 list" where
  "copy_name m a 0 i field = field[i := 0]"
| "copy_name m a (Suc n) i field =
     (if m (a + of_nat i) = 0 then field[i := 0]
      else copy_name m a n (Suc i) (field[i := m (a + of_nat i)]))"

definition set_name :: "u32 \<Rightarrow> int \<Rightarrow> kernel \<Rightarrow> u8 list \<Rightarrow> int \<times> u8 list" where
  "set_name name len s field =
     (if \<not> suser s then (- EPERM, field)
      else if len > 64 then (- EINVAL, field)
      else (0, copy_name (fsmem s) name (nat len) 0 field))"

definition sys_sethostname :: "u32 \<Rightarrow> int \<Rightarrow> kernel \<Rightarrow> u8 list \<Rightarrow> int \<times> u8 list" where
  "sys_sethostname name len s nodename = set_name name len s nodename"

definition sys_setdomainname :: "u32 \<Rightarrow> int \<Rightarrow> kernel \<Rightarrow> u8 list \<Rightarrow> int \<times> u8 list" where
  "sys_setdomainname name len s domainname = set_name name len s domainname"

definition sys_getrlimit :: "nat \<Rightarrow> u32 \<Rightarrow> kernel \<Rightarrow> int \<times> kernel" where
  "sys_getrlimit resource rl s =
     (if resource \<ge> 6 then (- EINVAL, s)
      else let error = verify_area VERIFY_WRITE rl 8; r = rlim (cur s) ! resource
           in if error \<noteq> 0 then (error, s)
              else (0, s\<lparr>fsmem := put_longs [to_u32 (rlim_cur r), to_u32 (rlim_max r)] rl (fsmem s)\<rparr>))"

definition sys_setrlimit :: "nat \<Rightarrow> u32 \<Rightarrow> kernel \<Rightarrow> int \<times> kernel" where
  "sys_setrlimit resource rl s =
     (if resource \<ge> 6 then (- EINVAL, s)
      else let old = rlim (cur s) ! resource;
               new = \<lparr>rlim_cur = to_s32 (get_fs_long (fsmem s) rl), rlim_max = to_s32 (get_fs_long (fsmem s) (rl + 4))\<rparr>
           in if (rlim_cur new > rlim_max old \<or> rlim_max new > rlim_max old) \<and> \<not> suser s then (- EPERM, s)
              else (0, upd_cur (\<lambda>t. t\<lparr>rlim := (rlim t)[resource := new]\<rparr>) s))"

definition sys_umask :: "u16 \<Rightarrow> kernel \<Rightarrow> u16 \<times> kernel" where
  "sys_umask m s = (umask (cur s), upd_cur (\<lambda>t. t\<lparr>umask := m AND 0x1ff\<rparr>) s)"

section \<open>Rebooting\<close>

datatype reboot_effect = Hard_Reset | Set_CAD bool

definition sys_reboot :: "int \<Rightarrow> int \<Rightarrow> int \<Rightarrow> kernel \<Rightarrow> int \<times> reboot_effect option" where
  "sys_reboot magic magic_too flag s =
     (if \<not> suser s then (- EPERM, None)
      else if magic mod 2 ^ 32 \<noteq> 0xfee1dead \<or> magic_too \<noteq> 672274793 then (- EINVAL, None)
      else if flag = 0x01234567 then (0, Some Hard_Reset)
      else if flag mod 2 ^ 32 = 0x89ABCDEF then (0, Some (Set_CAD True))
      else if flag = 0 then (0, Some (Set_CAD False))
      else (- EINVAL, None))"

definition ctrl_alt_del :: "bool \<Rightarrow> kernel \<Rightarrow> reboot_effect option \<times> kernel" where
  "ctrl_alt_del c_a_d s =
     (if c_a_d then (Some Hard_Reset, s) else (None, snd (send_sig SIGINT (task s 1) True s)))"

section \<open>Privileges only shrink\<close>

definition user_ids :: "task_struct \<Rightarrow> u16 set" where
  "user_ids t = {uid t, euid t, suid t}"

definition group_ids :: "task_struct \<Rightarrow> u16 set" where
  "group_ids t = {gid t, egid t, sgid t}"

lemma cur_upd_cur [simp]: "tsk (upd_cur f s) t = (if t = current s then f (cur s) else tsk s t)"
  "current (upd_cur f s) = current s" "task (upd_cur f s) = task s" "fsmem (upd_cur f s) = fsmem s"
  by (simp_all add: upd_cur_def upd_task_def)

lemma suser_upd_cur: "suser (upd_cur f s) \<longleftrightarrow> euid (f (cur s)) = 0"
  by (simp add: suser_def)

text \<open>A process changing its identities by any of the four calls, in any order and with any arguments.\<close>

inductive cred_step :: "kernel \<Rightarrow> kernel \<Rightarrow> bool" where
  setreuid: "cred_step s (snd (sys_setreuid r e s))"
| setuid: "cred_step s (snd (sys_setuid u s))"
| setregid: "cred_step s (snd (sys_setregid r e s))"
| setgid: "cred_step s (snd (sys_setgid g s))"

lemmas cred_defs = sys_setreuid_def sys_setuid_def sys_setregid_def sys_setgid_def

definition shrunk :: "kernel \<Rightarrow> kernel \<Rightarrow> bool" where
  "shrunk s s' \<longleftrightarrow> current s' = current s \<and> user_ids (cur s') \<subseteq> user_ids (cur s) \<and> group_ids (cur s') \<subseteq> group_ids (cur s)
     \<and> (\<forall>t. t \<noteq> current s \<longrightarrow> tsk s' t = tsk s t)"

lemma shrunk_trans: "shrunk s s' \<Longrightarrow> shrunk s' s'' \<Longrightarrow> shrunk s s''"
  unfolding shrunk_def by (metis (no_types, lifting) subset_trans)

lemma setreuid_shrunk: "\<not> suser s \<Longrightarrow> shrunk s (snd (sys_setreuid r e s))"
  by (auto simp: sys_setreuid_def Let_def shrunk_def user_ids_def group_ids_def suser_def)

lemma setuid_shrunk: "\<not> suser s \<Longrightarrow> shrunk s (snd (sys_setuid u s))"
  by (auto simp: sys_setuid_def shrunk_def user_ids_def group_ids_def)

lemma setregid_shrunk: "\<not> suser s \<Longrightarrow> shrunk s (snd (sys_setregid r e s))"
  by (auto simp: sys_setregid_def Let_def shrunk_def user_ids_def group_ids_def suser_def)

lemma setgid_shrunk: "\<not> suser s \<Longrightarrow> shrunk s (snd (sys_setgid g s))"
  by (auto simp: sys_setgid_def shrunk_def user_ids_def group_ids_def)

lemma cred_step_shrunk: "cred_step s s' \<Longrightarrow> \<not> suser s \<Longrightarrow> shrunk s s'"
  by (induction rule: cred_step.induct) (auto intro: setreuid_shrunk setuid_shrunk setregid_shrunk setgid_shrunk)

lemma cred_steps_ids:
  assumes "cred_step\<^sup>*\<^sup>* s s'" "0 \<notin> user_ids (cur s)"
  shows "shrunk s s'"
  using assms
proof (induction rule: rtranclp_induct)
  case base
  show ?case by (simp add: shrunk_def)
next
  case (step s1 s2)
  then have one: "shrunk s s1" by simp
  then have "0 \<notin> user_ids (cur s1)" using step.prems by (auto simp: shrunk_def)
  then have "\<not> suser s1" by (simp add: suser_def user_ids_def)
  then show ?case using shrunk_trans [OF one] cred_step_shrunk [OF step.hyps(2)] by blast
qed

section \<open>Priorities of others\<close>

definition lowered :: "kernel \<Rightarrow> kernel \<Rightarrow> bool" where
  "lowered s s' \<longleftrightarrow> current s' = current s \<and> task s' = task s \<and>
     (\<forall>p. (\<exists>n \<le> priority (tsk s p). tsk s' p = (tsk s p)\<lparr>priority := n\<rparr>)
        \<and> (tsk s' p \<noteq> tsk s p \<longrightarrow> uid (tsk s p) = euid (cur s) \<or> uid (tsk s p) = uid (cur s)))"

lemma lowered_refl: "lowered s s"
  by (auto simp: lowered_def intro!: exI [of _ "priority (tsk s p)" for p])

lemma lowered_suser: "lowered s s' \<Longrightarrow> suser s' = suser s"
proof -
  assume "lowered s s'"
  then obtain n where "current s' = current s" "cur s' = (cur s)\<lparr>priority := n\<rparr>" unfolding lowered_def by metis
  then show ?thesis by (simp add: suser_def)
qed

lemma setprio_step_lowered:
  assumes "lowered s s'" "\<not> suser s"
  shows "lowered s (snd (setprio_step which who prio (e, s') i))"
proof (cases "task s' i")
  case (Some p)
  show ?thesis
  proof (cases "snd (setprio_step which who prio (e, s') i) = s'")
    case False
    have ns: "\<not> suser s'" using assms lowered_suser by blast
    then have r: "snd (setprio_step which who prio (e, s') i) = upd_task p (\<lambda>t. t\<lparr>priority := prio\<rparr>) s'"
      "prio \<le> priority (tsk s' p)" "uid (tsk s' p) = euid (cur s') \<or> uid (tsk s' p) = uid (cur s')"
      using False Some by (auto simp: setprio_step_def Let_def split: if_splits)
    obtain n where n: "n \<le> priority (tsk s p)" "tsk s' p = (tsk s p)\<lparr>priority := n\<rparr>" using assms(1) by (auto simp: lowered_def)
    obtain m where m: "cur s' = (cur s)\<lparr>priority := m\<rparr>" using assms(1) by (auto simp: lowered_def)
    have "uid (tsk s p) = euid (cur s) \<or> uid (tsk s p) = uid (cur s)" using r(3) n(2) m by simp
    moreover have "prio \<le> priority (tsk s p)" "(tsk s' p)\<lparr>priority := prio\<rparr> = (tsk s p)\<lparr>priority := prio\<rparr>"
      using r(2) n by simp_all
    ultimately show ?thesis using assms(1) r(1) unfolding lowered_def by (auto simp: tsk_upd_task)
  qed (use assms in simp)
qed (use assms in \<open>simp add: setprio_step_def\<close>)

lemma setprio_fold_lowered:
  assumes "\<not> suser s" "lowered s (snd acc)"
  shows "lowered s (snd (foldl (setprio_step which who prio) acc is))"
  using assms(2)
proof (induction "is" arbitrary: acc)
  case (Cons i "is")
  have "lowered s (snd (setprio_step which who prio acc i))"
    using setprio_step_lowered [OF Cons.prems assms(1), of which who prio "fst acc" i] by simp
  then show ?case using Cons.IH by simp
qed simp

lemma sys_setpriority_lowered:
  assumes "\<not> suser s"
  shows "lowered s (snd (sys_setpriority which who niceval s))"
  using setprio_fold_lowered [OF assms, of "(ESRCH, s)"] lowered_refl
  by (simp add: sys_setpriority_def Let_def split: prod.split) (metis snd_conv)

section \<open>Process groups\<close>

lemma sys_setpgid_success:
  assumes "sys_setpgid pd pgid s = Some (0, s')"
  shows "\<exists>p g. s' = upd_task p (\<lambda>t. t\<lparr>pgrp := g\<rparr>) s \<and> 0 \<le> g \<and> \<not> leader (tsk s p)
    \<and> pid (tsk s p) = (if pd = 0 then pid (cur s) else pd)
    \<and> (p = current s \<or> (p_pptr (tsk s p) = current s \<or> p_opptr (tsk s p) = current s)
         \<and> session (tsk s p) = session (cur s) \<and> \<not> did_exec (tsk s p))
    \<and> (g = pid (tsk s p) \<or> (\<exists>t. pgrp (tsk s t) = g \<and> session (tsk s t) = session (cur s)))"
proof -
  let ?pd = "if pd = 0 then pid (cur s) else pd"
  let ?g = "if pgid = 0 then ?pd else pgid"
  have g: "0 \<le> ?g" using assms by (simp add: sys_setpgid_def Let_def split: if_splits)
  then obtain ps p where ps: "for_each_task s = Some ps" "find (\<lambda>p. pid (tsk s p) = ?pd) ps = Some p"
    using assms by (auto simp: sys_setpgid_def Let_def bind_eq_Some_conv split: option.splits)
  then have pd: "pid (tsk s p) = ?pd" by (auto simp: find_Some_iff)
  have r: "\<not> ((p_pptr (tsk s p) = current s \<or> p_opptr (tsk s p) = current s) \<and> (session (tsk s p) \<noteq> session (cur s) \<or> did_exec (tsk s p)))"
    "p_pptr (tsk s p) = current s \<or> p_opptr (tsk s p) = current s \<or> p = current s" "\<not> leader (tsk s p)"
    "?g \<noteq> ?pd \<longrightarrow> list_ex (\<lambda>t. pgrp (tsk s t) = ?g \<and> session (tsk s t) = session (cur s)) ps"
    "s' = upd_task p (\<lambda>t. t\<lparr>pgrp := ?g\<rparr>) s"
    using assms ps g unfolding sys_setpgid_def Let_def by (auto split: if_splits)
  have "?g = pid (tsk s p) \<or> (\<exists>t. pgrp (tsk s t) = ?g \<and> session (tsk s t) = session (cur s))"
    using r(4) pd by (auto simp: list_ex_iff)
  then show ?thesis using g pd r by blast
qed

section \<open>Supplementary groups\<close>

lemma user_words_length [simp]: "length (user_words m a n) = n"
  by (induction m a n rule: user_words.induct) auto

lemma user_words_nonneg: "g \<in> set (user_words m a n) \<Longrightarrow> 0 \<le> g"
  by (induction m a n rule: user_words.induct) auto

lemma group_scan_prefix:
  "(\<And>x. x \<in> set xs \<Longrightarrow> 0 \<le> x) \<Longrightarrow> group_scan g (xs @ ys) \<longleftrightarrow> g \<in> set xs \<or> group_scan g ys"
  by (induction xs) force+

lemma store_groups_scan:
  assumes "length old = NGROUPS" "length gs \<le> NGROUPS" "\<And>x. x \<in> set gs \<Longrightarrow> 0 \<le> x"
  shows "group_scan g (store_groups gs old) \<longleftrightarrow> g \<in> set gs"
proof (cases "length gs < NGROUPS")
  case True
  then obtain y ys where d: "drop (length gs) old = y # ys" using assms(1) by (cases "drop (length gs) old") auto
  then have "store_groups gs old = gs @ NOGROUP # ys" using True by (simp add: store_groups_def list_update_append)
  then show ?thesis using group_scan_prefix [OF assms(3)] by simp
next
  case False
  then have "store_groups gs old = gs @ []" using assms by (simp add: store_groups_def)
  then show ?thesis using group_scan_prefix [OF assms(3), of gs g "[]"] by simp
qed

lemma setgroups_membership:
  assumes "length (groups (cur s)) = NGROUPS" "sys_setgroups (int n) lst s = (0, s')"
  shows "in_group_p g s' \<longleftrightarrow> g = egid (cur s) \<or> uint g \<in> set (user_words (fsmem s) lst n)"
proof -
  have "n \<le> NGROUPS" and s': "s' = upd_cur (\<lambda>t. t\<lparr>groups := store_groups (user_words (fsmem s) lst n) (groups t)\<rparr>) s"
    using assms(2) by (auto simp: sys_setgroups_def split: if_splits)
  then show ?thesis using store_groups_scan [OF assms(1), of "user_words (fsmem s) lst n"] user_words_nonneg
    by (auto simp: in_group_p_def)
qed

section \<open>The break and its limit\<close>

lemma sys_brk_cases: "sys_brk ms b s = (brk (cur s), s) \<or> sys_brk ms b s = set_brk b s"
  by (simp add: sys_brk_def Let_def)

text \<open>A break that moves up stays within the data limit and 16 kB below the stack.\<close>

lemma sys_brk_grow:
  assumes "fst (sys_brk ms b s) = b" "brk (cur s) < b" "PAGE_ALIGN b \<noteq> PAGE_ALIGN (brk (cur s))"
  shows "b - end_code (cur s) \<le> data_limit (cur s)" "b < start_stack (cur s) - 16384" "end_code (cur s) \<le> b"
  using assms by (auto simp: sys_brk_def Let_def set_brk_def not_less not_le split: if_splits)

lemma negative_limit_unlimited:
  assumes "rlim_cur new < 0" "- (2 ^ 31) \<le> rlim_cur new" "rlim t ! RLIMIT_DATA = new"
  shows "data_limit t = NOT 0"
proof -
  have "uint (to_u32 (rlim_cur new)) = rlim_cur new + 2 ^ 32"
    using assms mod_pos_pos_trivial [of "rlim_cur new + 2 ^ 32" "2 ^ 32"] by (simp add: to_u32_def uint_word_of_int)
  then have "RLIM_INFINITY \<le> to_u32 (rlim_cur new)" using assms by (simp add: word_le_def)
  then show ?thesis using assms(3) by (simp add: data_limit_def Let_def)
qed

end
