(* ===== verification/Itimer.thy ===== *)
theory Itimer
  imports Sys_Calls
begin

text \<open>
  Interval timers: \<^verbatim>\<open>kernel/itimer.c\<close> and \<^verbatim>\<open>sys_alarm\<close> of \<^verbatim>\<open>kernel/sched.c\<close>.  The lemmas show that the conversion
  between a \<^verbatim>\<open>timeval\<close> and clock ticks rounds up and is exact on whole ticks, that setting a timer is seen by a
  later read, and how \<^verbatim>\<open>itimer_next\<close>, the count at which the timer interrupt asks for a reschedule, follows
  the armed real-time timers through \<^verbatim>\<open>setitimer\<close>, \<^verbatim>\<open>schedule\<close> and the clock tick.
\<close>

section \<open>Ticks and timevals\<close>

text \<open>A \<^verbatim>\<open>struct timeval\<close> is the pair of its \<^verbatim>\<open>tv_sec\<close> and \<^verbatim>\<open>tv_usec\<close>.\<close>

type_synonym timeval = "int \<times> int"

record itimerval =
  it_interval :: timeval
  it_value :: timeval

definition tvtojiffies :: "timeval \<Rightarrow> u32" where
  "tvtojiffies tv = to_u32 (fst tv) * 100 + to_u32 (snd tv + 9999) div 10000"

definition jiffiestotv :: "u32 \<Rightarrow> timeval" where
  "jiffiestotv j = (to_s32 (j div 100), to_s32 ((j mod 100) * 10000))"

section \<open>The system calls\<close>

abbreviation (input) ITIMER_REAL :: int where "ITIMER_REAL \<equiv> 0"
abbreviation (input) ITIMER_VIRTUAL :: int where "ITIMER_VIRTUAL \<equiv> 1"
abbreviation (input) ITIMER_PROF :: int where "ITIMER_PROF \<equiv> 2"

text \<open>\<^verbatim>\<open>_getitimer\<close>; \<^verbatim>\<open>None\<close> is \<^verbatim>\<open>-EINVAL\<close>, its only error.\<close>

definition do_getitimer :: "int \<Rightarrow> kernel \<Rightarrow> itimerval option" where
  "do_getitimer which s =
    (let t = cur s;
         get = (\<lambda>v i. Some \<lparr>it_interval = jiffiestotv i, it_value = jiffiestotv v\<rparr>)
     in if which = ITIMER_REAL then get (it_real_value t) (it_real_incr t)
        else if which = ITIMER_VIRTUAL then get (it_virt_value t) (it_virt_incr t)
        else if which = ITIMER_PROF then get (it_prof_value t) (it_prof_incr t)
        else None)"

text \<open>\<^verbatim>\<open>memcpy_tofs\<close> and \<^verbatim>\<open>memcpy_fromfs\<close> of a \<^verbatim>\<open>struct itimerval\<close>.\<close>

definition itimerval_longs :: "itimerval \<Rightarrow> u32 list" where
  "itimerval_longs v = [to_u32 (fst (it_interval v)), to_u32 (snd (it_interval v)),
                        to_u32 (fst (it_value v)), to_u32 (snd (it_value v))]"

definition get_itimerval :: "umem \<Rightarrow> u32 \<Rightarrow> itimerval" where
  "get_itimerval m a =
    (let l = (\<lambda>k. to_s32 (get_fs_long m (a + k)))
     in \<lparr>it_interval = (l 0, l 4), it_value = (l 8, l 12)\<rparr>)"

definition sys_getitimer :: "int \<Rightarrow> u32 \<Rightarrow> kernel \<Rightarrow> int \<times> kernel" where
  "sys_getitimer which value s =
     (if value = 0 then (- EFAULT, s)
      else case do_getitimer which s of
             None \<Rightarrow> (- EINVAL, s)
           | Some get_buffer \<Rightarrow>
               let error = verify_area VERIFY_WRITE value 16
               in if error \<noteq> 0 then (error, s)
                  else (0, s\<lparr>fsmem := put_longs (itimerval_longs get_buffer) value (fsmem s)\<rparr>))"

text \<open>\<^verbatim>\<open>_setitimer\<close>: the flag \<^verbatim>\<open>want_old\<close> is \<^verbatim>\<open>ovalue != NULL\<close>, the old setting is the second component.\<close>

definition arm_timer :: "int \<Rightarrow> u32 \<Rightarrow> u32 \<Rightarrow> kernel \<Rightarrow> int \<times> kernel" where
  "arm_timer which i j s =
     (if which = ITIMER_REAL
      then let k = (if j \<noteq> 0 then j + (1 + itimer_ticks s) else 0);
               s = (if j \<noteq> 0 \<and> k < itimer_next s then s\<lparr>itimer_next := k\<rparr> else s)
           in (0, upd_cur (\<lambda>t. t\<lparr>it_real_value := k, it_real_incr := i\<rparr>) s)
      else if which = ITIMER_VIRTUAL
      then (0, upd_cur (\<lambda>t. t\<lparr>it_virt_value := if j \<noteq> 0 then j + 1 else 0, it_virt_incr := i\<rparr>) s)
      else if which = ITIMER_PROF
      then (0, upd_cur (\<lambda>t. t\<lparr>it_prof_value := if j \<noteq> 0 then j + 1 else 0, it_prof_incr := i\<rparr>) s)
      else (- EINVAL, s))"

definition do_setitimer :: "int \<Rightarrow> itimerval \<Rightarrow> bool \<Rightarrow> kernel \<Rightarrow> int \<times> itimerval option \<times> kernel" where
  "do_setitimer which value want_old s =
    (let i = tvtojiffies (it_interval value); j = tvtojiffies (it_value value);
         old = do_getitimer which s
     in if want_old \<and> old = None then (- EINVAL, None, s)
        else let (k, s') = arm_timer which i j s in (k, if want_old then old else None, s'))"

definition sys_setitimer :: "int \<Rightarrow> u32 \<Rightarrow> u32 \<Rightarrow> kernel \<Rightarrow> int \<times> kernel" where
  "sys_setitimer which value ovalue s =
    (let set_buffer = (if value = 0 then \<lparr>it_interval = (0, 0), it_value = (0, 0)\<rparr> else get_itimerval (fsmem s) value);
         (error, get_buffer, s) = do_setitimer which set_buffer (ovalue \<noteq> 0) s
     in if error \<noteq> 0 \<or> ovalue = 0 then (error, s)
        else let error = verify_area VERIFY_WRITE ovalue 16
             in (error, if error = 0 then s\<lparr>fsmem := put_longs (itimerval_longs (the get_buffer)) ovalue (fsmem s)\<rparr> else s))"

definition sys_alarm :: "int \<Rightarrow> kernel \<Rightarrow> int \<times> kernel" where
  "sys_alarm seconds s =
    (let (_, old, s') = do_setitimer ITIMER_REAL \<lparr>it_interval = (0, 0), it_value = (seconds, 0)\<rparr> True s;
         (sec, usec) = it_value (the old)
     in (sec + cdiv usec 1000000, s'))"

section \<open>The conversion\<close>

lemma uint_to_u32: "0 \<le> i \<Longrightarrow> i < 2 ^ 32 \<Longrightarrow> uint (to_u32 i) = i"
  unfolding to_u32_def uint_word_of_int by simp

lemma to_s32_small: "uint w < 2 ^ 31 \<Longrightarrow> to_s32 w = uint w"
  unfolding to_s32_def sint_uint
  by (rule signed_take_bit_int_eq_self) (auto intro: order_trans [OF _ uint_ge_0])

lemma jiffiestotv_int: "jiffiestotv j = (uint j div 100, uint j mod 100 * 10000)"
proof -
  have lt: "uint j < 2 ^ 32" using uint_lt2p [of j] by simp
  have d: "uint (j div 100) = uint j div 100" by (simp add: uint_div_distrib)
  have m: "uint ((j mod 100) * 10000) = uint j mod 100 * 10000"
  proof -
    have "uint (j mod 100) = uint j mod 100" by (simp add: uint_mod_distrib)
    moreover have "uint j mod 100 * 10000 < 2 ^ 32" using pos_mod_bound [of 100 "uint j"] by simp
    ultimately show ?thesis by (simp add: uint_word_ariths)
  qed
  have "uint j div 100 < 2 ^ 31" "uint j mod 100 * 10000 < 2 ^ 31"
    using lt pos_mod_bound [of 100 "uint j"] by auto
  then show ?thesis unfolding jiffiestotv_def using to_s32_small [of "j div 100"] to_s32_small [of "(j mod 100) * 10000"] d m by simp
qed

lemma tvtojiffies_ceil:
  assumes "0 \<le> sec" "0 \<le> usec" "usec < 1000000" "sec < 42949672"
  shows "uint (tvtojiffies (sec, usec)) = sec * 100 + (usec + 9999) div 10000"
proof -
  have "uint (to_u32 sec) = sec" "uint (to_u32 (usec + 9999)) = usec + 9999"
    using assms by (auto intro!: uint_to_u32)
  moreover from this have "uint (to_u32 (usec + 9999) div 10000) = (usec + 9999) div 10000" by (simp add: uint_div_distrib)
  moreover have "(usec + 9999) div 10000 \<le> 100" "0 \<le> (usec + 9999) div 10000" using assms by auto
  ultimately show ?thesis using assms by (simp add: tvtojiffies_def uint_word_ariths)
qed

lemma tvtojiffies_of_jiffies: "tvtojiffies (jiffiestotv j) = j"
proof -
  have lt: "uint j < 2 ^ 32" using uint_lt2p [of j] by simp
  have "uint (to_u32 (uint j mod 100 * 10000 + 9999)) = uint j mod 100 * 10000 + 9999"
    using pos_mod_bound [of 100 "uint j"] by (intro uint_to_u32) auto
  then have "uint (to_u32 (uint j mod 100 * 10000 + 9999) div 10000) = uint j mod 100"
    by (simp add: uint_div_distrib)
  moreover have "uint (to_u32 (uint j div 100)) = uint j div 100"
    using lt by (intro uint_to_u32) (auto simp: pos_imp_zdiv_nonneg_iff)
  ultimately have "uint (tvtojiffies (jiffiestotv j)) = (uint j div 100 * 100 + uint j mod 100) mod 2 ^ 32"
    unfolding tvtojiffies_def jiffiestotv_int fst_conv snd_conv by (simp add: uint_word_ariths mod_simps)
  then have "uint (tvtojiffies (jiffiestotv j)) = uint j" using lt by simp
  then show ?thesis by (simp add: word_uint_eq_iff)
qed

section \<open>Reading back a setting\<close>

text \<open>What \<^verbatim>\<open>getitimer\<close> reports after \<^verbatim>\<open>setitimer\<close>: the interval rounded up to whole ticks, and one tick more than the
  value asked for (plus, for the real-time timer, the ticks not yet charged).\<close>

definition timer_slack :: "int \<Rightarrow> kernel \<Rightarrow> u32" where
  "timer_slack which s = (if which = ITIMER_REAL then 1 + itimer_ticks s else 1)"

lemma setitimer_getitimer:
  assumes "which \<in> {ITIMER_REAL, ITIMER_VIRTUAL, ITIMER_PROF}"
  shows "\<exists>s'. do_setitimer which v w s = (0, if w then do_getitimer which s else None, s')
    \<and> do_getitimer which s' = Some \<lparr>it_interval = jiffiestotv (tvtojiffies (it_interval v)),
        it_value = jiffiestotv (if tvtojiffies (it_value v) = 0 then 0 else tvtojiffies (it_value v) + timer_slack which s)\<rparr>"
proof -
  consider "which = ITIMER_REAL" | "which = ITIMER_VIRTUAL" | "which = ITIMER_PROF" using assms by auto
  then show ?thesis
    by cases (simp_all add: do_setitimer_def arm_timer_def do_getitimer_def timer_slack_def Let_def upd_cur_def upd_task_def)
qed

section \<open>No armed timer is overlooked\<close>

text \<open>Every armed real-time timer among \<^verbatim>\<open>ps\<close> is at least \<^verbatim>\<open>itimer_next\<close>.\<close>

definition timers_covered :: "kernel \<Rightarrow> tid list \<Rightarrow> bool" where
  "timers_covered s ps \<longleftrightarrow> (\<forall>p\<in>set ps. it_real_value (tsk s p) \<noteq> 0 \<longrightarrow> itimer_next s \<le> it_real_value (tsk s p))"

lemma arm_timer_covers:
  assumes "timers_covered s ps"
  shows "timers_covered (snd (arm_timer which i j s)) ps"
  using assms by (auto simp: timers_covered_def arm_timer_def Let_def upd_cur_def upd_task_def)

lemma alarm_value: "it_real_value (tsk (snd (send_sig SIGALRM (Some p) True s)) q) = it_real_value (tsk s q)"
  "itimer_next (snd (send_sig SIGALRM (Some p) True s)) = itimer_next s"
  by (auto simp: send_sig_eq tsk_upd_task it_deliver upd_task_def)

text \<open>Storing a new value and lowering \<^verbatim>\<open>itimer_next\<close> to it.\<close>

lemma lowered_covers:
  fixes v p and s0 :: kernel
  defines "s1 \<equiv> upd_task p (\<lambda>t. t\<lparr>it_real_value := v\<rparr>) s0"
  defines "s' \<equiv> if v < itimer_next s1 then s1\<lparr>itimer_next := v\<rparr> else s1"
  shows "timers_covered s' [p] \<and> itimer_next s' \<le> itimer_next s0
    \<and> (\<forall>q. q \<noteq> p \<longrightarrow> it_real_value (tsk s' q) = it_real_value (tsk s0 q))"
  by (auto simp: s'_def s1_def timers_covered_def upd_task_def not_less)

lemma real_timer_covers:
  assumes "real_timer ticks p s = Some s'" "ticks \<noteq> 0"
  shows "timers_covered s' [p] \<and> itimer_next s' \<le> itimer_next s
    \<and> (\<forall>q. q \<noteq> p \<longrightarrow> it_real_value (tsk s' q) = it_real_value (tsk s q))"
proof -
  let ?v = "it_real_value (tsk s p)" and ?s = "snd (send_sig SIGALRM (Some p) True s)"
  consider "?v = 0" | "?v \<noteq> 0" "\<not> ?v \<le> ticks" | "?v \<noteq> 0" "?v \<le> ticks" "it_real_incr (tsk ?s p) = 0"
    | "?v \<noteq> 0" "?v \<le> ticks" "it_real_incr (tsk ?s p) \<noteq> 0" by blast
  then show ?thesis
  proof cases
    case 1
    then show ?thesis using assms by (simp add: real_timer_def timers_covered_def)
  next
    case 2
    then have "s' = (let s1 = upd_task p (\<lambda>t. t\<lparr>it_real_value := ?v - ticks\<rparr>) s
        in if ?v - ticks < itimer_next s1 then s1\<lparr>itimer_next := ?v - ticks\<rparr> else s1)"
      using assms unfolding real_timer_def Let_def by simp
    then show ?thesis using lowered_covers [of "?v - ticks" p s] by (simp add: Let_def)
  next
    case 3
    then have "s' = upd_task p (\<lambda>t. t\<lparr>it_real_value := 0\<rparr>) ?s"
      using assms unfolding real_timer_def Let_def by simp
    then show ?thesis by (simp add: timers_covered_def tsk_upd_task alarm_value)
  next
    case 4
    then obtain v where "s' = (let s1 = upd_task p (\<lambda>t. t\<lparr>it_real_value := v - ticks\<rparr>) ?s
        in if v - ticks < itimer_next s1 then s1\<lparr>itimer_next := v - ticks\<rparr> else s1)"
      using assms unfolding real_timer_def Let_def
      by (cases "bump_real ticks (it_real_incr (tsk ?s p)) (it_real_value (tsk ?s p))") auto
    then show ?thesis using lowered_covers [of "v - ticks" p ?s] by (simp add: Let_def alarm_value)
  qed
qed

lemma wake_if_due_value: "it_real_value (tsk (wake_if_due p s) q) = it_real_value (tsk s q)"
  "itimer_next (wake_if_due p s) = itimer_next s"
  by (auto simp: wake_if_due_def tsk_upd_task upd_task_def)

lemma check_tasks_covers:
  assumes "check_tasks ticks ps s = Some s'" "ticks \<noteq> 0" "distinct ps"
  shows "timers_covered s' ps \<and> itimer_next s' \<le> itimer_next s
    \<and> (\<forall>q. q \<notin> set ps \<longrightarrow> it_real_value (tsk s' q) = it_real_value (tsk s q))"
  using assms
proof (induction ps arbitrary: s)
  case Nil
  then show ?case by (simp add: timers_covered_def)
next
  case (Cons p ps)
  obtain s1 where s1: "real_timer ticks p s = Some s1" "check_tasks ticks ps (wake_if_due p s1) = Some s'"
    using Cons.prems(1) by (auto simp: bind_eq_Some_conv)
  note r = real_timer_covers [OF s1(1) Cons.prems(2)]
  have ih: "timers_covered s' ps" "itimer_next s' \<le> itimer_next s1"
    "\<And>q. q \<notin> set ps \<Longrightarrow> it_real_value (tsk s' q) = it_real_value (tsk s1 q)"
    using Cons.IH [OF s1(2) Cons.prems(2)] Cons.prems(3) by (auto simp: wake_if_due_value)
  have "timers_covered s' (p # ps)"
    using ih r Cons.prems(3) by (auto simp: timers_covered_def)
  then show ?case using ih(2,3) r by auto
qed

lemma check_tasks_idle: "check_tasks 0 ps s = Some s' \<Longrightarrow>
   itimer_next s' = itimer_next s \<and> (\<forall>q. it_real_value (tsk s' q) = it_real_value (tsk s q))"
  by (induction ps arbitrary: s) (auto simp: real_timer_def wake_if_due_value)

lemma recharge_value: "it_real_value (tsk (foldl recharge_step s ps) q) = it_real_value (tsk s q)"
  "itimer_next (foldl recharge_step s ps) = itimer_next s" "itimer_ticks (foldl recharge_step s ps) = itimer_ticks s"
  by (induction ps arbitrary: s) (auto simp: recharge_step_def tsk_upd_task upd_task_def)

lemma real_timer_ticks: "real_timer ticks p s = Some s' \<Longrightarrow> itimer_ticks s' = itimer_ticks s"
  by (auto simp: real_timer_def Let_def upd_task_def send_sig_eq bind_eq_Some_conv split: if_splits)

lemma check_tasks_ticks: "check_tasks ticks ps s = Some s' \<Longrightarrow> itimer_ticks s' = itimer_ticks s"
proof (induction ps arbitrary: s)
  case (Cons p ps)
  then obtain s1 where "real_timer ticks p s = Some s1" "check_tasks ticks ps (wake_if_due p s1) = Some s'"
    by (auto simp: bind_eq_Some_conv)
  then show ?case using Cons.IH real_timer_ticks [of ticks p s s1]
    by (auto simp: wake_if_due_def upd_task_def split: if_splits)
qed simp

lemma schedule_passes:
  assumes "schedule s = Some s'" "for_each_task s = Some ps"
  obtains s1 where "check_tasks (itimer_ticks s) ps (s\<lparr>itimer_ticks := 0, itimer_next := NOT 0, need_resched := False\<rparr>) = Some s1"
    "itimer_next s' = itimer_next s1" "itimer_ticks s' = 0" "\<And>q. it_real_value (tsk s' q) = it_real_value (tsk s1 q)"
proof -
  let ?s0 = "s\<lparr>itimer_ticks := 0, itimer_next := NOT 0, need_resched := False\<rparr>"
  have "for_each_task ?s0 = Some ps" using assms(2) by (simp add: for_each_task_def)
  then obtain s1 where s1: "check_tasks (itimer_ticks s) ps ?s0 = Some s1"
    using assms(1) by (auto simp: schedule_def Let_def bind_eq_Some_conv)
  have "itimer_ticks s1 = 0" using check_tasks_ticks [OF s1] by simp
  then have "itimer_next s' = itimer_next s1 \<and> itimer_ticks s' = 0 \<and> (\<forall>q. it_real_value (tsk s' q) = it_real_value (tsk s1 q))"
    using assms(1) s1 \<open>for_each_task ?s0 = Some ps\<close> unfolding schedule_def Let_def
    by (auto simp: recharge_value split: prod.splits)
  then show ?thesis using s1 that by blast
qed

lemma schedule_covers:
  assumes "schedule s = Some s'" "for_each_task s = Some ps" "distinct ps" "itimer_ticks s \<noteq> 0"
  shows "timers_covered s' ps" "itimer_ticks s' = 0"
proof -
  obtain s1 where s1: "check_tasks (itimer_ticks s) ps (s\<lparr>itimer_ticks := 0, itimer_next := NOT 0, need_resched := False\<rparr>) = Some s1"
    "itimer_next s' = itimer_next s1" "itimer_ticks s' = 0" "\<And>q. it_real_value (tsk s' q) = it_real_value (tsk s1 q)"
    using schedule_passes [OF assms(1,2)] by blast
  then show "timers_covered s' ps" "itimer_ticks s' = 0"
    using check_tasks_covers [OF s1(1) assms(4,3)] by (auto simp: timers_covered_def)
qed

text \<open>When no tick has passed since the last call, \<^verbatim>\<open>schedule\<close> sets \<^verbatim>\<open>itimer_next\<close> to its largest value and leaves
  the timers alone, so an armed timer is no longer covered.\<close>

lemma schedule_same_tick:
  assumes "schedule s = Some s'" "for_each_task s = Some ps" "itimer_ticks s = 0"
  shows "itimer_next s' = NOT 0" "\<And>q. it_real_value (tsk s' q) = it_real_value (tsk s q)"
proof -
  obtain s1 where s1: "check_tasks (itimer_ticks s) ps (s\<lparr>itimer_ticks := 0, itimer_next := NOT 0, need_resched := False\<rparr>) = Some s1"
    "itimer_next s' = itimer_next s1" "itimer_ticks s' = 0" "\<And>q. it_real_value (tsk s' q) = it_real_value (tsk s1 q)"
    using schedule_passes [OF assms(1,2)] by blast
  show "itimer_next s' = NOT 0" "\<And>q. it_real_value (tsk s' q) = it_real_value (tsk s q)"
    using check_tasks_idle [OF s1(1) [unfolded assms(3)]] s1 by auto
qed

text \<open>A covered timer that is overdue has made the clock tick ask for a reschedule.\<close>

lemma count_itimer_asks:
  assumes "timers_covered s ps" "p \<in> set ps" "it_real_value (tsk s p) \<noteq> 0" "it_real_value (tsk s p) < itimer_ticks s + 1"
  shows "need_resched (count_itimer s)"
proof -
  have "itimer_next s < itimer_ticks s + 1" using assms by (auto simp: timers_covered_def)
  then show ?thesis by (simp add: count_itimer_def Let_def)
qed

end
