(* ===== verification/Time_Theorems.thy ===== *)
theory Time_Theorems
  imports Itimer
begin

text \<open>
  The properties of time keeping: the calendar, the clock discipline of the timer interrupt, the list of kernel
  timers and the interval timers.
\<close>

text \<open>C16: \<^verbatim>\<open>kernel_mktime\<close> is the number of seconds since 1970 of a date and time in the years 1970 to 2037, counted with
  the Gregorian calendar; no intermediate result overflows.\<close>

theorem mktime_counts_seconds:
  assumes "valid_date t"
  shows "kernel_mktime t = 86400 * epoch_days (nat (1900 + mk_year t)) (nat (mk_mon t)) (mk_day t)
    + 3600 * mk_hour t + 60 * mk_min t + mk_sec t"
  using assms by (rule kernel_mktime_correct)

theorem mktime_counts_seconds_witness:
  "kernel_mktime \<lparr>mk_sec = 56, mk_min = 34, mk_hour = 12, mk_day = 14, mk_mon = 2, mk_year = 94\<rparr>
    = 86400 * epoch_days 1994 2 14 + 3600 * 12 + 60 * 34 + 56"
  using mktime_counts_seconds [of "\<lparr>mk_sec = 56, mk_min = 34, mk_hour = 12, mk_day = 14, mk_mon = 2, mk_year = 94\<rparr>"]
  by (simp add: valid_date_def)

text \<open>C17: a tick of the clock keeps its invariant: the microseconds stay below a million, the phase below a microsecond,
  the tick within ten percent of its nominal value and the step of \<^verbatim>\<open>adjtime\<close> within five microseconds.\<close>

theorem tick_keeps_clock_ok:
  assumes "clock_ok c"
  shows "clock_ok (tick_clock c)"
  using assms by (rule tick_clock_ok)

theorem tick_keeps_clock_ok_witness: "clock_ok (tick_clock initial_clock)"
  by (rule tick_keeps_clock_ok) (simp add: clock_ok_def initial_clock_def fits_s32_def)

text \<open>C9: \<^verbatim>\<open>add_timer\<close>, which keeps only differences of expiry times, inserts the new timer into the list of absolute
  delays behind those that expire earlier or at the same time; the delay of every other timer is unchanged.\<close>

theorem add_timer_inserts_deadline:
  assumes "timer_queue ts as" "a \<notin> set as"
  shows "\<exists>ts' as'. add_timer (Some a) ts = Some ts' \<and> timer_queue ts' as' \<and> set as' = insert a (set as)
    \<and> pending_timers ts' as' = insert_deadline (a, unat (expires (tmr ts a))) (pending_timers ts as)"
  using assms by (rule add_timer_queue)

definition demo_timers :: timers where
  "demo_timers = \<lparr>tmr = (\<lambda>a. if a = 3 then \<lparr>t_next = Some 4, expires = 5, t_data = 0, t_function = 0\<rparr>
        else \<lparr>t_next = None, expires = 7, t_data = 0, t_function = 0\<rparr>),
     next_timer = Some 3, timer_active = 0, timer_table = [], lost_ticks = 0, bh_marked = False\<rparr>"

lemma demo_timer_queue: "timer_queue demo_timers [3, 4]"
  by (simp add: timer_queue_def demo_timers_def)

lemma demo_pending: "pending_timers demo_timers [3, 4] = [(3, 5), (4, 12)]"
  by (simp add: pending_timers_def demo_timers_def)

theorem add_timer_inserts_deadline_witness:
  "\<exists>ts' as'. add_timer (Some 2) demo_timers = Some ts' \<and> timer_queue ts' as' \<and> pending_timers ts' as' = [(3, 5), (2, 7), (4, 12)]"
proof -
  have "unat (expires (tmr demo_timers 2)) = 7" by (simp add: demo_timers_def)
  then show ?thesis using add_timer_inserts_deadline [OF demo_timer_queue, of 2] by (auto simp: demo_pending)
qed

text \<open>C10: \<^verbatim>\<open>del_timer\<close> on a timer in the list removes it, leaves the delays of the others unchanged and restores the absolute
  delay in the timer it removed.\<close>

theorem del_timer_removes_deadline:
  assumes "timer_queue ts as" "a \<in> set as" "\<forall>x\<in>set (pending_timers ts as). snd x < 2 ^ 32"
  shows "\<exists>ts'. del_timer a ts = Some (True, ts') \<and> timer_queue ts' (remove1 a as)
    \<and> pending_timers ts' (remove1 a as) = filter (\<lambda>x. fst x \<noteq> a) (pending_timers ts as)
    \<and> (a, unat (expires (tmr ts' a))) \<in> set (pending_timers ts as)"
  using assms by (rule del_timer_queue)

theorem del_timer_removes_deadline_witness:
  "\<exists>ts'. del_timer 4 demo_timers = Some (True, ts') \<and> timer_queue ts' [3] \<and> pending_timers ts' [3] = [(3, 5)]"
  using del_timer_removes_deadline [OF demo_timer_queue, of 4] by (auto simp: demo_pending)


text \<open>What \<^verbatim>\<open>getitimer\<close> reports right after \<^verbatim>\<open>setitimer\<close>: the interval in whole ticks and the value in whole ticks
  plus one (for the real-time timer also plus the ticks not yet charged); a value of 0 disarms the timer.\<close>

theorem getitimer_after_setitimer:
  assumes "which \<in> {ITIMER_REAL, ITIMER_VIRTUAL, ITIMER_PROF}"
  shows "\<exists>s'. do_setitimer which v want s = (0, if want then do_getitimer which s else None, s')
    \<and> do_getitimer which s' = Some \<lparr>it_interval = jiffiestotv (tvtojiffies (it_interval v)),
        it_value = jiffiestotv (if tvtojiffies (it_value v) = 0 then 0 else tvtojiffies (it_value v) + timer_slack which s)\<rparr>"
  using assms by (rule setitimer_getitimer)

theorem getitimer_after_setitimer_witness:
  "\<exists>s'. do_setitimer 1 \<lparr>it_interval = (0, 0), it_value = (1, 0)\<rparr> False demo_kernel = (0, None, s')
    \<and> do_getitimer 1 s' = Some \<lparr>it_interval = jiffiestotv 0, it_value = jiffiestotv 101\<rparr>"
  using getitimer_after_setitimer [of 1 "\<lparr>it_interval = (0, 0), it_value = (1, 0)\<rparr>" False demo_kernel]
  by (simp add: tvtojiffies_def to_u32_def timer_slack_def)

text \<open>C12: when a tick has passed since the last call, \<^verbatim>\<open>schedule\<close> leaves \<^verbatim>\<open>itimer_next\<close> at or below every armed real-time
  timer, so as soon as one of them is overdue the timer interrupt asks for a reschedule, which sends the signal.\<close>

theorem schedule_covers_real_timers:
  assumes "schedule s = Some s'" "for_each_task s = Some ps" "distinct ps" "itimer_ticks s \<noteq> 0"
  shows "timers_covered s' ps \<and> itimer_ticks s' = 0
    \<and> (\<forall>n. \<forall>p\<in>set ps. it_real_value (tsk s' p) \<noteq> 0 \<and> it_real_value (tsk s' p) < n + 1
         \<longrightarrow> need_resched (count_itimer (s'\<lparr>itimer_ticks := n\<rparr>)))"
proof -
  note c = schedule_covers [OF assms]
  have "timers_covered (s'\<lparr>itimer_ticks := n\<rparr>) ps" for n using c(1) by (simp add: timers_covered_def)
  then show ?thesis using c count_itimer_asks [of "s'\<lparr>itimer_ticks := n\<rparr>" ps for n] by simp
qed

lemma demo_schedules:
  assumes "tsk s = demo_task(2 := (demo_task 2)\<lparr>it_real_value := 5\<rparr>)" "task s = task demo_kernel" "current s = 2" "unat (itimer_ticks s) < 2 ^ 31"
  shows "\<exists>s'. schedule s = Some s'" "for_each_task s = Some [1, 2, 3]"
proof -
  have l: "same_links demo_kernel s"
    using assms by (simp add: same_links_def demo_kernel_def demo_task_def)
  then have ok: "ptable_ok s [1, 2, 3] demo_children" using demo_ptable ptable_ok_same_links by blast
  moreover have "timers_safe s [1, 2, 3]" using assms by (simp add: timers_safe_def demo_task_def INIT_TASK_def)
  ultimately show "\<exists>s'. schedule s = Some s'" using schedule_ok by blast
  show "for_each_task s = Some [1, 2, 3]" using ok for_each_task_ring by (simp add: ptable_ok_def)
qed

theorem schedule_covers_real_timers_witness:
  "\<exists>s'. schedule (demo_kernel\<lparr>tsk := demo_task(2 := (demo_task 2)\<lparr>it_real_value := 5\<rparr>), itimer_ticks := 1\<rparr>) = Some s'
    \<and> timers_covered s' [1, 2, 3]"
proof -
  let ?s = "demo_kernel\<lparr>tsk := demo_task(2 := (demo_task 2)\<lparr>it_real_value := 5\<rparr>), itimer_ticks := 1\<rparr>"
  have d: "\<exists>s'. schedule ?s = Some s'" "for_each_task ?s = Some [1, 2, 3]"
    using demo_schedules [of ?s] by (simp_all add: demo_kernel_def)
  then obtain s' where "schedule ?s = Some s'" by blast
  then show ?thesis using schedule_covers_real_timers [OF _ d(2), of s'] by auto
qed

text \<open>A call of \<^verbatim>\<open>schedule\<close> in the same tick as the previous one sets \<^verbatim>\<open>itimer_next\<close> to its largest value although
  timers are armed: until the next call the timer interrupt asks for no reschedule on their account, so the signal
  may come as late as the end of the running time slice.\<close>

theorem schedule_same_tick_forgets_timers:
  assumes "schedule s = Some s'" "for_each_task s = Some ps" "itimer_ticks s = 0"
  shows "itimer_next s' = NOT 0 \<and> (\<forall>p. it_real_value (tsk s' p) = it_real_value (tsk s p))
    \<and> (\<forall>n. need_resched (count_itimer (s'\<lparr>itimer_ticks := n, need_resched := False\<rparr>)) = False)"
  using schedule_same_tick [OF assms] by (simp add: count_itimer_def Let_def)

theorem schedule_same_tick_forgets_timers_witness:
  "\<exists>s'. schedule (demo_kernel\<lparr>tsk := demo_task(2 := (demo_task 2)\<lparr>it_real_value := 5\<rparr>), itimer_ticks := 0\<rparr>) = Some s'
    \<and> itimer_next s' = NOT 0 \<and> it_real_value (tsk s' 2) = 5"
proof -
  let ?s = "demo_kernel\<lparr>tsk := demo_task(2 := (demo_task 2)\<lparr>it_real_value := 5\<rparr>), itimer_ticks := 0\<rparr>"
  have d: "\<exists>s'. schedule ?s = Some s'" "for_each_task ?s = Some [1, 2, 3]"
    using demo_schedules [of ?s] by (simp_all add: demo_kernel_def)
  then obtain s' where "schedule ?s = Some s'" by blast
  then show ?thesis using schedule_same_tick_forgets_timers [OF _ d(2), of s'] by auto
qed

end
