(* ===== verification/Io_Resources.thy ===== *)
theory Io_Resources
  imports Sched
begin

text \<open>
  I/O ports and DMA channels: \<^verbatim>\<open>kernel/ioport.c\<close> (the bit maps of I/O permissions and of reserved ports) and
  \<^verbatim>\<open>kernel/dma.c\<close>.  The routines on bit maps work a word at a time; the lemmas show that they agree with the
  obvious definition bit by bit, that \<^verbatim>\<open>sys_ioperm\<close> opens exactly the ports it was asked for, and that a DMA
  channel has at most one owner.  A write or read outside the bit map is \<^verbatim>\<open>None\<close>.
\<close>

section \<open>Bit maps\<close>

definition bm_get :: "u32 list \<Rightarrow> nat \<Rightarrow> u32 option" where
  "bm_get bm k = (if k < length bm then Some (bm ! k) else None)"

definition bm_put :: "u32 list \<Rightarrow> nat \<Rightarrow> u32 \<Rightarrow> u32 list option" where
  "bm_put bm k w = (if k < length bm then Some (bm[k := w]) else None)"

text \<open>\<^verbatim>\<open>*bitmap_base++ |= mask\<close> or \<^verbatim>\<open>*bitmap_base++ &= ~mask\<close>.\<close>

definition bm_mask :: "u32 list \<Rightarrow> nat \<Rightarrow> u32 \<Rightarrow> bool \<Rightarrow> u32 list option" where
  "bm_mask bm k m new_value =
     do { w \<leftarrow> bm_get bm k; bm_put bm k (if new_value then w OR m else w AND NOT m) }"

text \<open>The mask of the first word.  The i386 takes the count of a shift modulo 32, which matters when \<^verbatim>\<open>length\<close> is
  negative.\<close>

definition first_mask :: "nat \<Rightarrow> int \<Rightarrow> u32" where
  "first_mask low_index len =
    (let m = push_bit low_index (NOT 0) in if len < 32 then m AND NOT (push_bit (nat (len mod 32)) (NOT 0)) else m)"

definition last_mask :: "int \<Rightarrow> u32" where
  "last_mask len = NOT (push_bit (nat len) (NOT 0))"

function fill_words :: "u32 list \<Rightarrow> nat \<Rightarrow> int \<Rightarrow> bool \<Rightarrow> u32 list option" where
  "fill_words bm k len new_value =
     (if len \<ge> 32
      then do { bm \<leftarrow> bm_put bm k (if new_value then NOT 0 else 0); fill_words bm (Suc k) (len - 32) new_value }
      else if len > 0 then bm_mask bm k (last_mask len) new_value
      else Some bm)"
  by auto
termination by (relation "measure (\<lambda>(bm, k, len, v). nat len)") auto

declare fill_words.simps [simp del]

definition set_bitmap :: "u32 list \<Rightarrow> int \<Rightarrow> int \<Rightarrow> bool \<Rightarrow> u32 list option" where
  "set_bitmap bm base extent new_value =
    (let k = nat (base div 32); low_index = nat (base mod 32); len = int low_index + extent
     in if base < 0 then None
        else if low_index \<noteq> 0
        then do { bm \<leftarrow> bm_mask bm k (first_mask low_index len) new_value;
                  fill_words bm (Suc k) (len - 32) new_value }
        else fill_words bm k len new_value)"

function scan_words :: "u32 list \<Rightarrow> nat \<Rightarrow> int \<Rightarrow> bool option" where
  "scan_words bm k len =
     (if len \<ge> 32
      then do { w \<leftarrow> bm_get bm k; if w \<noteq> 0 then Some True else scan_words bm (Suc k) (len - 32) }
      else if len > 0 then do { w \<leftarrow> bm_get bm k; Some (w AND last_mask len \<noteq> 0) }
      else Some False)"
  by auto
termination by (relation "measure (\<lambda>(bm, k, len). nat len)") auto

declare scan_words.simps [simp del]

definition check_bitmap :: "u32 list \<Rightarrow> int \<Rightarrow> int \<Rightarrow> bool option" where
  "check_bitmap bm base extent =
    (let k = nat (base div 32); low_index = nat (base mod 32); len = int low_index + extent
     in if base < 0 then None
        else if low_index \<noteq> 0
        then do { w \<leftarrow> bm_get bm k;
                  if w AND first_mask low_index len \<noteq> 0 then Some True else scan_words bm (Suc k) (len - 32) }
        else scan_words bm k len)"

section \<open>Ports\<close>

abbreviation (input) IO_PORTS :: u32 where "IO_PORTS \<equiv> 1024"

text \<open>The conversion of an argument to \<^verbatim>\<open>short\<close>.\<close>

definition to_short :: "u32 \<Rightarrow> int" where
  "to_short w = sint (ucast w :: u16)"

definition sys_ioperm :: "u32 \<Rightarrow> u32 \<Rightarrow> bool \<Rightarrow> kernel \<Rightarrow> (int \<times> kernel) option" where
  "sys_ioperm from num turn_on s =
     (if from + num \<le> from then Some (- EINVAL, s)
      else if from + num > IO_PORTS then Some (- EINVAL, s)
      else if \<not> suser s then Some (- EPERM, s)
      else do { bm \<leftarrow> set_bitmap (io_bitmap (cur s)) (to_short from) (to_short num) (\<not> turn_on);
                Some (0, upd_cur (\<lambda>t. t\<lparr>io_bitmap := bm\<rparr>) s) })"

definition sys_iopl :: "u32 \<Rightarrow> u32 \<Rightarrow> kernel \<Rightarrow> int \<times> u32" where
  "sys_iopl level eflags s =
     (if level > 3 then (- EINVAL, eflags)
      else if \<not> suser s then (- EPERM, eflags)
      else (0, (eflags AND 0xffffcfff) OR push_bit 12 level))"

definition clip :: "u32 \<Rightarrow> u32 \<Rightarrow> u32" where
  "clip from num = (if from + num > IO_PORTS then IO_PORTS - from else num)"

definition snarf_region :: "u32 \<Rightarrow> u32 \<Rightarrow> u32 list \<Rightarrow> u32 list option" where
  "snarf_region from num registrar =
     (if from > IO_PORTS then Some registrar
      else set_bitmap registrar (to_short from) (to_short (clip from num)) True)"

definition check_region :: "u32 \<Rightarrow> u32 \<Rightarrow> u32 list \<Rightarrow> bool option" where
  "check_region from num registrar =
     (if from > IO_PORTS then Some False
      else check_bitmap registrar (to_short from) (to_short (clip from num)))"

text \<open>\<^verbatim>\<open>reserve_setup\<close>: the pairs \<^verbatim>\<open>ints[1], ints[2]\<close>, \<^verbatim>\<open>ints[3], ints[4]\<close>, ... as long as the index of the first is
  below \<^verbatim>\<open>ints[0]\<close>.\<close>

fun reserve_setup :: "nat \<Rightarrow> nat \<Rightarrow> u32 list \<Rightarrow> u32 list \<Rightarrow> u32 list option" where
  "reserve_setup i n (a # b # ints) registrar =
     (if i < n then do { registrar \<leftarrow> snarf_region a b registrar; reserve_setup (i + 2) n ints registrar }
      else Some registrar)"
| "reserve_setup i n _ registrar = Some registrar"

section \<open>DMA channels\<close>

abbreviation (input) MAX_DMA_CHANNELS :: nat where "MAX_DMA_CHANNELS \<equiv> 8"

definition initial_dma :: "u32 list" where
  "initial_dma = [1, 0, 0, 0, 1, 0, 0, 0]"

definition mutex_atomic_swap :: "nat \<Rightarrow> u32 \<Rightarrow> u32 list \<Rightarrow> u32 \<times> u32 list" where
  "mutex_atomic_swap p newval mem = (mem ! p, mem[p := newval])"

definition request_dma :: "nat \<Rightarrow> u32 list \<Rightarrow> int \<times> u32 list" where
  "request_dma dmanr busy =
     (if dmanr \<ge> MAX_DMA_CHANNELS then (- EINVAL, busy)
      else let (old, busy) = mutex_atomic_swap dmanr 1 busy in (if old \<noteq> 0 then - EBUSY else 0, busy))"

definition free_dma :: "nat \<Rightarrow> u32 list \<Rightarrow> u32 list" where
  "free_dma dmanr busy = (if dmanr \<ge> MAX_DMA_CHANNELS then busy else snd (mutex_atomic_swap dmanr 0 busy))"

section \<open>The reference: one bit at a time\<close>

definition bm_bit :: "u32 list \<Rightarrow> nat \<Rightarrow> bool" where
  "bm_bit bm i \<longleftrightarrow> bit (bm ! (i div 32)) (i mod 32)"

definition bm_range :: "u32 list \<Rightarrow> nat \<Rightarrow> nat \<Rightarrow> bool \<Rightarrow> u32 list \<Rightarrow> bool" where
  "bm_range bm lo hi v bm' \<longleftrightarrow> length bm' = length bm
     \<and> (\<forall>i<32 * length bm. bm_bit bm' i = (if lo \<le> i \<and> i < hi then v else bm_bit bm i))"

lemma bm_range_trans:
  "bm_range bm a b v bm1 \<Longrightarrow> bm_range bm1 b c v bm2 \<Longrightarrow> a \<le> b \<Longrightarrow> b \<le> c \<Longrightarrow> bm_range bm a c v bm2"
  by (auto simp: bm_range_def)

lemma bm_range_empty: "bm_range bm a a v bm"
  by (auto simp: bm_range_def)

text \<open>Rewriting one word changes the bits its mask covers.\<close>

lemma bm_mask_range:
  assumes k: "k < length bm" and m: "\<And>j. j < 32 \<Longrightarrow> bit m j \<longleftrightarrow> l \<le> j \<and> j < h" and h: "h \<le> 32"
  shows "\<exists>bm'. bm_mask bm k m v = Some bm' \<and> bm_range bm (32 * k + l) (32 * k + h) v bm'"
proof -
  let ?w = "if v then bm ! k OR m else bm ! k AND NOT m"
  have "bm_bit (bm[k := ?w]) i = (if 32 * k + l \<le> i \<and> i < 32 * k + h then v else bm_bit bm i)"
    if i: "i < 32 * length bm" for i
  proof (cases "i div 32 = k")
    case True
    have split: "i = 32 * k + i mod 32" using True by (metis mult_div_mod_eq)
    then have in_range: "32 * k + l \<le> i \<and> i < 32 * k + h \<longleftrightarrow> l \<le> i mod 32 \<and> i mod 32 < h" by linarith
    have "bit ?w (i mod 32) = (if l \<le> i mod 32 \<and> i mod 32 < h then v else bit (bm ! k) (i mod 32))"
      using m [of "i mod 32"] by (auto simp: bit_simps)
    then show ?thesis unfolding in_range using True k by (simp add: bm_bit_def)
  next
    case False
    then have "\<not> (32 * k + l \<le> i \<and> i < 32 * k + h)" using h by auto
    then show ?thesis using False k by (auto simp: bm_bit_def)
  qed
  then show ?thesis using k by (auto simp: bm_mask_def bm_get_def bm_put_def bm_range_def)
qed

lemma bit_first_mask:
  assumes "0 \<le> len"
  shows "j < 32 \<Longrightarrow> bit (first_mask low len) j \<longleftrightarrow> low \<le> j \<and> j < (if len < 32 then nat len else 32)"
  using assms by (auto simp: first_mask_def Let_def bit_simps nat_mod_distrib)

lemma bit_last_mask: "j < 32 \<Longrightarrow> bit (last_mask len) j \<longleftrightarrow> 0 \<le> j \<and> j < nat len"
  by (auto simp: last_mask_def bit_simps)

lemma fill_words_range:
  assumes "int (32 * k) + len \<le> int (32 * length bm)"
  shows "\<exists>bm'. fill_words bm k len v = Some bm' \<and> bm_range bm (32 * k) (32 * k + nat len) v bm'"
  using assms
proof (induction bm k len v rule: fill_words.induct)
  case (1 bm k len v)
  consider "len \<ge> 32" | "0 < len" "len < 32" | "len \<le> 0" by linarith
  then show ?case
  proof cases
    case 1
    note big = 1
    have k: "k < length bm" using big "1.prems" by linarith
    let ?bm = "bm[k := if v then NOT 0 else 0]"
    have "\<exists>bm'. bm_mask bm k (NOT 0) v = Some bm' \<and> bm_range bm (32 * k + 0) (32 * k + 32) v bm'"
      by (rule bm_mask_range [OF k]) auto
    then have r1: "bm_range bm (32 * k) (32 * k + 32) v ?bm" using k by (auto simp: bm_mask_def bm_get_def bm_put_def split: if_splits)
    have put: "bm_put bm k (if v then NOT 0 else 0) = Some ?bm" using k by (simp add: bm_put_def)
    have le: "int (32 * Suc k) + (len - 32) \<le> int (32 * length ?bm)" using "1.prems" by simp
    obtain bm' where r2: "fill_words ?bm (Suc k) (len - 32) v = Some bm'"
      "bm_range ?bm (32 * Suc k) (32 * Suc k + nat (len - 32)) v bm'"
      using "1.IH" [OF big _ le] put by auto
    have "fill_words bm k len v = Some bm'" using big put r2(1) by (simp add: fill_words.simps [of bm k])
    moreover have e: "32 * Suc k + nat (len - 32) = 32 * k + nat len" "32 * Suc k = 32 * k + 32" using big by auto
    have "bm_range ?bm (32 * k + 32) (32 * k + nat len) v bm'" using r2(2) unfolding e(1) unfolding e(2) .
    then have "bm_range bm (32 * k) (32 * k + nat len) v bm'"
      by (rule bm_range_trans [OF r1]) (use big in auto)
    ultimately show ?thesis by blast
  next
    case 2
    then have k: "k < length bm" using "1.prems" by linarith
    have "nat len \<le> 32" using 2 by simp
    from bm_mask_range [OF k bit_last_mask this, of v] 2
    show ?thesis by (simp add: fill_words.simps [of bm k])
  next
    case 3
    then show ?thesis by (simp add: fill_words.simps [of bm k] bm_range_empty)
  qed
qed

lemma set_bitmap_range:
  assumes "0 \<le> base" "0 \<le> extent" "base + extent \<le> int (32 * length bm)"
  shows "\<exists>bm'. set_bitmap bm base extent v = Some bm' \<and> bm_range bm (nat base) (nat (base + extent)) v bm'"
proof -
  let ?k = "nat (base div 32)" and ?l = "nat (base mod 32)"
  have base: "base = int (32 * ?k + ?l)" using assms(1) by (simp add: pos_imp_zdiv_nonneg_iff)
  have nb: "nat base = 32 * ?k + ?l" using base by linarith
  have l32: "?l < 32" using pos_mod_bound [of 32 base] by simp
  show ?thesis
  proof (cases "?l = 0")
    case True
    have "int (32 * ?k) + extent \<le> int (32 * length bm)" using assms(3) base True by linarith
    from fill_words_range [OF this, of v] obtain bm' where
      "fill_words bm ?k extent v = Some bm'" "bm_range bm (32 * ?k) (32 * ?k + nat extent) v bm'" by blast
    moreover have "32 * ?k = nat base" "32 * ?k + nat extent = nat (base + extent)"
      using nb True assms base by linarith+
    ultimately show ?thesis unfolding set_bitmap_def Let_def using True assms(1) by auto
  next
    case False
    let ?len = "int ?l + extent"
    have sum: "nat base = 32 * ?k + ?l" "nat (base + extent) = 32 * ?k + ?l + nat extent"
      using nb assms by (simp_all add: nat_add_distrib)
    have len: "nat ?len = ?l + nat extent" using assms by (simp add: nat_add_distrib)
    show ?thesis
    proof -
      have "32 * ?k + ?l \<le> 32 * length bm" using assms(2,3) base by linarith
      then have k: "?k < length bm" using False by linarith
      let ?h = "if ?len < 32 then nat ?len else 32"
      have h32: "?h \<le> 32" and len0: "0 \<le> ?len" using assms(2) by auto
      obtain bm1 where b1: "bm_mask bm ?k (first_mask ?l ?len) v = Some bm1"
        "bm_range bm (32 * ?k + ?l) (32 * ?k + ?h) v bm1"
        using bm_mask_range [OF k bit_first_mask [OF len0] h32, of ?l v] by blast
      have lb: "length bm1 = length bm" using b1(2) by (simp add: bm_range_def)
      have "int (32 * ?k) + int ?l + extent \<le> int (32 * length bm1)" using assms(3) base lb by linarith
      then have "int (32 * Suc ?k) + (?len - 32) \<le> int (32 * length bm1)" by simp
      from fill_words_range [OF this, of v] obtain bm2 where
        b2: "fill_words bm1 (Suc ?k) (?len - 32) v = Some bm2"
        "bm_range bm1 (32 * Suc ?k) (32 * Suc ?k + nat (?len - 32)) v bm2" by blast
      have run: "set_bitmap bm base extent v = Some bm2"
        unfolding set_bitmap_def Let_def using False b1(1) b2(1) assms(1) by simp
      show ?thesis
      proof (cases "?len < 32")
        case True
        then have "fill_words bm1 (Suc ?k) (?len - 32) v = Some bm1" by (simp add: fill_words.simps)
        then have "bm2 = bm1" using b2(1) by simp
        moreover have "32 * ?k + ?l = nat base" "32 * ?k + ?h = nat (base + extent)"
          using True sum len by simp_all
        ultimately show ?thesis using run b1(2) by auto
      next
        case False
        then have r1: "bm_range bm (32 * ?k + ?l) (32 * ?k + 32) v bm1" using b1(2) by simp
        have "32 \<le> ?len" using False by linarith
        then have "32 + nat (?len - 32) = ?l + nat extent" unfolding len [symmetric] by linarith
        then have "32 * Suc ?k + nat (?len - 32) = nat (base + extent)"
          unfolding sum mult_Suc_right add.assoc [of "32 * ?k"] by (metis add.commute add.left_commute)
        moreover have "32 * Suc ?k = 32 * ?k + 32" by simp
        ultimately have r2: "bm_range bm1 (32 * ?k + 32) (nat (base + extent)) v bm2" using b2(2) by metis
        have "32 * ?k + 32 \<le> nat (base + extent)" using False sum by linarith
        then have "bm_range bm (32 * ?k + ?l) (nat (base + extent)) v bm2"
          using bm_range_trans [OF r1 r2] l32 by linarith
        then show ?thesis using run nb by auto
      qed
    qed
  qed
qed

text \<open>Some bit of a range is set.\<close>

definition bm_hit :: "u32 list \<Rightarrow> nat \<Rightarrow> nat \<Rightarrow> bool" where
  "bm_hit bm lo hi \<longleftrightarrow> (\<exists>i\<in>{lo..<hi}. bm_bit bm i)"

lemma bm_hit_split: "a \<le> b \<Longrightarrow> b \<le> c \<Longrightarrow> bm_hit bm a c \<longleftrightarrow> bm_hit bm a b \<or> bm_hit bm b c"
  unfolding bm_hit_def by (metis Un_iff ivl_disj_un_two(3))

lemma and_nonzero: "(w :: u32) AND m \<noteq> 0 \<longleftrightarrow> (\<exists>j<32. bit w j \<and> bit m j)"
  proof -
  have lt: "bit w j \<Longrightarrow> j < 32" for j using bit_imp_le_length [of w j] by simp
  then show ?thesis unfolding bit_eq_iff [of "w AND m" 0] by (auto simp: bit_and_iff)
qed

lemma word_hit:
  assumes h: "h \<le> 32" and m: "\<And>j. j < 32 \<Longrightarrow> bit m j \<longleftrightarrow> l \<le> j \<and> j < h"
  shows "bm ! k AND m \<noteq> 0 \<longleftrightarrow> bm_hit bm (32 * k + l) (32 * k + h)"
proof -
  have "bm_hit bm (32 * k + l) (32 * k + h) \<longleftrightarrow> (\<exists>j<32. l \<le> j \<and> j < h \<and> bm_bit bm (32 * k + j))"
  proof
    assume "bm_hit bm (32 * k + l) (32 * k + h)"
    then obtain i where i: "32 * k + l \<le> i" "i < 32 * k + h" "bm_bit bm i" by (auto simp: bm_hit_def)
    then have "i = 32 * k + (i - 32 * k)" "i - 32 * k < 32" "l \<le> i - 32 * k" "i - 32 * k < h" using h by auto
    then show "\<exists>j<32. l \<le> j \<and> j < h \<and> bm_bit bm (32 * k + j)" using i(3) by metis
  qed (auto simp: bm_hit_def)
  also have "\<dots> \<longleftrightarrow> (\<exists>j<32. bit (bm ! k) j \<and> bit m j)" using m by (auto simp: bm_bit_def)
  finally show ?thesis by (simp add: and_nonzero)
qed

lemma scan_words_hit:
  assumes "int (32 * k) + len \<le> int (32 * length bm)"
  shows "scan_words bm k len = Some (bm_hit bm (32 * k) (32 * k + nat len))"
  using assms
proof (induction bm k len rule: scan_words.induct)
  case (1 bm k len)
  consider "len \<ge> 32" | "0 < len" "len < 32" | "len \<le> 0" by linarith
  then show ?case
  proof cases
    case 1
    note big = 1
    have k: "bm_get bm k = Some (bm ! k)" using big "1.prems" by (simp add: bm_get_def)
    have w: "bm ! k \<noteq> 0 \<longleftrightarrow> bm_hit bm (32 * k) (32 * k + 32)"
      using word_hit [of 32 "NOT 0" 0 bm k] by simp
    have e: "32 * Suc k + nat (len - 32) = 32 * k + nat len" "32 * Suc k = 32 * k + 32" using big by auto
    have "scan_words bm (Suc k) (len - 32) = Some (bm_hit bm (32 * Suc k) (32 * Suc k + nat (len - 32)))"
      if "bm ! k = 0" using "1.IH" [OF big k] that "1.prems" by simp
    note rest = this [unfolded e(1), unfolded e(2)]
    have "bm_hit bm (32 * k) (32 * k + nat len)
      \<longleftrightarrow> bm_hit bm (32 * k) (32 * k + 32) \<or> bm_hit bm (32 * k + 32) (32 * k + nat len)"
      using big by (intro bm_hit_split) auto
    then have "if bm ! k = 0 then scan_words bm (Suc k) (len - 32) = Some (bm_hit bm (32 * k) (32 * k + nat len))
        else bm_hit bm (32 * k) (32 * k + nat len)"
      using w rest by auto
    then show ?thesis using k big by (auto simp: scan_words.simps [of bm k] split: if_splits)
  next
    case 2
    then have "bm_get bm k = Some (bm ! k)" using "1.prems" by (simp add: bm_get_def)
    moreover have "bm ! k AND last_mask len \<noteq> 0 \<longleftrightarrow> bm_hit bm (32 * k + 0) (32 * k + nat len)"
      using 2 by (intro word_hit bit_last_mask) auto
    ultimately show ?thesis using 2 by (simp add: scan_words.simps [of bm k])
  next
    case 3
    then show ?thesis by (simp add: scan_words.simps [of bm k] bm_hit_def)
  qed
qed

lemma check_bitmap_hit:
  assumes "0 \<le> base" "0 \<le> extent" "base + extent \<le> int (32 * length bm)"
  shows "check_bitmap bm base extent = Some (bm_hit bm (nat base) (nat (base + extent)))"
proof -
  let ?k = "nat (base div 32)" and ?l = "nat (base mod 32)" and ?len = "int (nat (base mod 32)) + extent"
  have base: "base = int (32 * ?k + ?l)" using assms(1) by (simp add: pos_imp_zdiv_nonneg_iff)
  have nb: "nat base = 32 * ?k + ?l" using base by linarith
  have sum: "nat base = 32 * ?k + ?l" "nat (base + extent) = 32 * ?k + ?l + nat extent"
    using nb assms by (simp_all add: nat_add_distrib)
  have len: "nat ?len = ?l + nat extent" using assms by (simp add: nat_add_distrib)
  have room: "int (32 * ?k) + ?len \<le> int (32 * length bm)" using assms(3) base by simp
  have next_room: "int (32 * Suc ?k) + (?len - 32) \<le> int (32 * length bm)" using room by simp
  have l32: "?l < 32" using pos_mod_bound [of 32 base] by simp
  show ?thesis
  proof (cases "?l = 0")
    case True
    then show ?thesis using scan_words_hit [OF room] assms(1) len unfolding check_bitmap_def Let_def sum by simp
  next
    case False
    have "32 * ?k + ?l \<le> 32 * length bm" using assms(2,3) base by linarith
    then have "?k < length bm" using False by linarith
    then have get: "bm_get bm ?k = Some (bm ! ?k)" by (simp add: bm_get_def)
    let ?h = "if ?len < 32 then nat ?len else 32"
    have "?h \<le> 32" "0 \<le> ?len" using assms(2) by auto
    then have first: "bm ! ?k AND first_mask ?l ?len \<noteq> 0 \<longleftrightarrow> bm_hit bm (32 * ?k + ?l) (32 * ?k + ?h)"
      by (intro word_hit bit_first_mask)
    have run: "check_bitmap bm base extent =
      Some (bm_hit bm (32 * ?k + ?l) (32 * ?k + ?h) \<or> bm_hit bm (32 * Suc ?k) (32 * Suc ?k + nat (?len - 32)))"
      unfolding check_bitmap_def Let_def using False assms(1) get first scan_words_hit [OF next_room] by simp
    show ?thesis
    proof (cases "?len < 32")
      case True
      then have "\<not> bm_hit bm (32 * Suc ?k) (32 * Suc ?k + nat (?len - 32))" by (simp add: bm_hit_def)
      then show ?thesis using run True len unfolding sum by (simp add: add.assoc)
    next
      case False
      then have "32 + nat (?len - 32) = ?l + nat extent" unfolding len [symmetric] by linarith
      then have e: "32 * Suc ?k + nat (?len - 32) = 32 * ?k + ?l + nat extent"
        unfolding mult_Suc_right add.assoc [of "32 * ?k"] by (metis add.commute add.left_commute)
      have s: "32 * Suc ?k = 32 * ?k + 32" by simp
      have "bm_hit bm (32 * ?k + ?l) (32 * ?k + ?l + nat extent) \<longleftrightarrow>
        bm_hit bm (32 * ?k + ?l) (32 * ?k + 32) \<or> bm_hit bm (32 * ?k + 32) (32 * ?k + ?l + nat extent)"
        using l32 e s by (intro bm_hit_split) linarith+
      then show ?thesis using run [unfolded e, unfolded s] False unfolding sum by simp
    qed
  qed
qed

section \<open>Ports\<close>

lemma set_bitmap_port:
  assumes "unat f + unat n \<le> 32 * length bm"
  shows "\<exists>bm'. set_bitmap bm (uint (f :: u32)) (uint (n :: u32)) v = Some bm' \<and> bm_range bm (unat f) (unat f + unat n) v bm'"
proof -
  have "int (unat f) + int (unat n) \<le> int (32 * length bm)" using assms by linarith
  from set_bitmap_range [OF _ _ this, of v] show ?thesis by (simp add: nat_add_distrib)
qed

lemma check_bitmap_port:
  assumes "unat f + unat n \<le> 32 * length bm"
  shows "check_bitmap bm (uint (f :: u32)) (uint (n :: u32)) = Some (bm_hit bm (unat f) (unat f + unat n))"
proof -
  have "int (unat f) + int (unat n) \<le> int (32 * length bm)" using assms by linarith
  from check_bitmap_hit [OF _ _ this] show ?thesis by (simp add: nat_add_distrib)
qed

lemma to_short_small: 
  assumes "unat w \<le> 1024" 
  shows "to_short w = uint w"
proof -
  have "uint w \<le> 1024" using assms by (metis of_nat_le_iff of_nat_numeral of_nat_unat)
  then have "signed_take_bit 15 (uint w) = uint w"
    using uint_ge_0 [of w] by (intro signed_take_bit_int_eq_self order_trans [OF _ uint_ge_0 [of w]]) auto
  then show ?thesis unfolding to_short_def using take_bit_int_eq_self [of "uint w" 16] \<open>uint w \<le> 1024\<close>
    by (simp add: sint_uint unsigned_ucast_eq)
qed

lemma port_range:
  assumes "\<not> from + num \<le> from" "\<not> from + num > IO_PORTS"
  shows "unat from + unat num \<le> 1024"
proof -
  have "unat (from + num) = unat from + unat num"
    using assms(1) by (metis unat_plus_simple linear)
  then show ?thesis using assms(2) by (simp add: word_le_nat_alt not_less)
qed

text \<open>\<^verbatim>\<open>sys_ioperm\<close> changes nothing when it fails; when it succeeds, the caller was the super-user and the bits of the
  ports asked for, and no others, have the new value (0 lets the process use the port).\<close>

lemma sys_ioperm_ports:
  assumes "length (io_bitmap (cur s)) = 33"
  shows "\<exists>r s'. sys_ioperm from num turn_on s = Some (r, s')
      \<and> (if from + num \<le> from \<or> from + num > IO_PORTS then r = - EINVAL \<and> s' = s
         else if \<not> suser s then r = - EPERM \<and> s' = s
         else r = 0 \<and> bm_range (io_bitmap (cur s)) (unat from) (unat from + unat num) (\<not> turn_on) (io_bitmap (cur s'))
              \<and> (\<exists>bm. s' = upd_cur (\<lambda>t. t\<lparr>io_bitmap := bm\<rparr>) s))"
proof (cases "from + num \<le> from \<or> from + num > IO_PORTS \<or> \<not> suser s")
  case True
  then show ?thesis by (auto simp: sys_ioperm_def)
next
  case False
  then have g: "\<not> from + num \<le> from" "\<not> from + num > IO_PORTS" by auto
  note p = port_range [OF g]
  have c: "to_short from = uint from" "to_short num = uint num" using p by (auto intro: to_short_small)
  obtain bm where bm: "set_bitmap (io_bitmap (cur s)) (uint from) (uint num) (\<not> turn_on) = Some bm"
    "bm_range (io_bitmap (cur s)) (unat from) (unat from + unat num) (\<not> turn_on) bm"
    using set_bitmap_port [of "from" num "io_bitmap (cur s)" "\<not> turn_on"] p assms by auto
  have "sys_ioperm from num turn_on s = Some (0, upd_cur (\<lambda>t. t\<lparr>io_bitmap := bm\<rparr>) s)"
    using False bm(1) c by (simp add: sys_ioperm_def)
  moreover have "bm_range (io_bitmap (cur s)) (unat from) (unat from + unat num) (\<not> turn_on)
      (io_bitmap (cur (upd_cur (\<lambda>t. t\<lparr>io_bitmap := bm\<rparr>) s)))"
    using bm(2) by (simp add: upd_cur_def upd_task_def)
  ultimately show ?thesis using False by auto
qed

text \<open>A region that has been reserved is found busy by every later check that meets it.\<close>

lemma snarf_check:
  assumes "length reg = 32" "unat from + unat num \<le> 1024" "unat from' + unat num' \<le> 1024"
    "max (unat from) (unat from') < min (unat from + unat num) (unat from' + unat num')"
  shows "\<exists>reg'. snarf_region from num reg = Some reg' \<and> length reg' = 32 \<and> check_region from' num' reg' = Some True"
proof -
  have w: "f \<le> IO_PORTS \<and> \<not> f + n > IO_PORTS \<and> to_short f = uint f \<and> to_short n = uint n"
    if "unat f + unat n \<le> 1024" for f n :: u32
    using that to_short_small [of f] to_short_small [of n] by (auto simp: word_le_nat_alt unat_word_ariths not_less)
  obtain reg' where r: "set_bitmap reg (uint from) (uint num) True = Some reg'"
    "bm_range reg (unat from) (unat from + unat num) True reg'"
    using set_bitmap_port [of "from" num reg True] assms(1,2) by auto
  then have len: "length reg' = 32" using assms(1) by (simp add: bm_range_def)
  let ?i = "max (unat from) (unat from')"
  have "bm_bit reg' ?i" using r(2) assms by (auto simp: bm_range_def)
  moreover have "?i \<in> {unat from'..<unat from' + unat num'}" using assms(4) by auto
  ultimately have "bm_hit reg' (unat from') (unat from' + unat num')" unfolding bm_hit_def by blast
  then have "check_region from' num' reg' = Some True"
    using w [OF assms(3), THEN conjunct1, THEN leD] w [OF assms(3)] check_bitmap_port [of from' num' reg'] assms(3) len
    by (simp add: check_region_def clip_def)
  moreover have "snarf_region from num reg = Some reg'" using w [OF assms(2), THEN conjunct1, THEN leD] w [OF assms(2)] r(1) by (simp add: snarf_region_def clip_def)
  ultimately show ?thesis using len by blast
qed

section \<open>DMA channels\<close>

text \<open>Drivers asking for and releasing channels; the list holds the channels granted and not yet freed.\<close>

inductive dma_step :: "u32 list \<times> nat list \<Rightarrow> u32 list \<times> nat list \<Rightarrow> bool" where
  grant: "request_dma n busy = (0, busy') \<Longrightarrow> dma_step (busy, held) (busy', n # held)"
| refuse: "request_dma n busy = (r, busy') \<Longrightarrow> r \<noteq> 0 \<Longrightarrow> dma_step (busy, held) (busy', held)"
| free: "n \<in> set held \<Longrightarrow> dma_step (busy, held) (free_dma n busy, remove1 n held)"

inductive_cases dma_stepE: "dma_step (busy, held) (busy', held')"

definition dma_ok :: "u32 list \<times> nat list \<Rightarrow> bool" where
  "dma_ok st \<longleftrightarrow> length (fst st) = 8 \<and> distinct (snd st) \<and> fst st ! 0 \<noteq> 0 \<and> fst st ! 4 \<noteq> 0 \<and> 0 \<notin> set (snd st) \<and> 4 \<notin> set (snd st)
     \<and> (\<forall>n\<in>set (snd st). n < 8 \<and> fst st ! n \<noteq> 0)"

lemma dma_step_ok:
  assumes "dma_step st st'" "dma_ok st"
  shows "dma_ok st'"
  using assms
proof (induction rule: dma_step.induct)
  case (grant n busy busy' held)
  then have "n < 8" "busy ! n = 0" "busy' = busy[n := 1]"
    by (auto simp: request_dma_def mutex_atomic_swap_def split: if_splits)
  moreover from this have "n \<noteq> 0" "n \<noteq> 4" "n \<notin> set held" using grant(2) unfolding dma_ok_def fst_conv snd_conv by metis+
  ultimately show ?case using grant(2) by (auto simp: dma_ok_def nth_list_update)
next
  case (refuse n busy r busy' held)
  then show ?case by (auto simp: dma_ok_def request_dma_def mutex_atomic_swap_def nth_list_update split: if_splits)
next
  case (free n held busy)
  then have "n \<noteq> 0" "n \<noteq> 4" unfolding dma_ok_def snd_conv by metis+
  with free show ?case by (auto simp: dma_ok_def free_dma_def mutex_atomic_swap_def nth_list_update)
qed

lemma dma_steps_ok: "dma_step\<^sup>*\<^sup>* st st' \<Longrightarrow> dma_ok st \<Longrightarrow> dma_ok st'"
  by (induction rule: rtranclp_induct) (auto intro: dma_step_ok)

lemma initial_dma_ok: "dma_ok (initial_dma, [])"
  by (simp add: dma_ok_def initial_dma_def)

end
