(* ===== verification/Access_Theorems.thy ===== *)
theory Access_Theorems
  imports Io_Resources Sys_Calls
begin

text \<open>
  The properties of access control and of the resources a process is given: identities, priorities, process groups,
  supplementary groups, limits, I/O ports and DMA channels.
\<close>

text \<open>C11: a process none of whose user identities is 0 can, by any sequence of \<^verbatim>\<open>setreuid\<close>, \<^verbatim>\<open>setuid\<close>, \<^verbatim>\<open>setregid\<close> and
  \<^verbatim>\<open>setgid\<close>, only permute and drop the user and group identities it has; nothing changes in any other process.\<close>

theorem identities_only_shrink:
  assumes "cred_step\<^sup>*\<^sup>* s s'" "0 \<notin> user_ids (cur s)"
  shows "shrunk s s'"
  using assms by (rule cred_steps_ids)

theorem identities_only_shrink_witness:
  "shrunk (upd_cur (\<lambda>t. t\<lparr>suid := 9\<rparr>) demo_kernel) (snd (sys_setuid 9 (upd_cur (\<lambda>t. t\<lparr>suid := 9\<rparr>) demo_kernel)))"
proof (rule identities_only_shrink)
  show "cred_step\<^sup>*\<^sup>* (upd_cur (\<lambda>t. t\<lparr>suid := 9\<rparr>) demo_kernel) (snd (sys_setuid 9 (upd_cur (\<lambda>t. t\<lparr>suid := 9\<rparr>) demo_kernel)))"
    by (rule r_into_rtranclp) (rule cred_step.setuid)
qed (simp add: user_ids_def demo_kernel_def demo_task_def)

text \<open>\<^verbatim>\<open>setpriority\<close> by a process that is not the super-user never raises a priority and touches only processes with
  its own user identity, whatever its arguments.\<close>

theorem setpriority_never_raises:
  assumes "\<not> suser s"
  shows "lowered s (snd (sys_setpriority which who niceval s))"
  using assms by (rule sys_setpriority_lowered)

theorem setpriority_never_raises_witness: "lowered demo_kernel (snd (sys_setpriority 2 0 (-20) demo_kernel))"
  by (rule setpriority_never_raises) (simp add: suser_def demo_kernel_def demo_task_def)

text \<open>A successful \<^verbatim>\<open>setpgid\<close> moves one process, the caller or a child of it in the caller's session that has not
  executed a new program, which is no session leader, to a group with its own number or one that has a member in the
  caller's session.\<close>

theorem setpgid_stays_in_session:
  assumes "sys_setpgid pd pgid s = Some (0, s')"
  shows "\<exists>p g. s' = upd_task p (\<lambda>t. t\<lparr>pgrp := g\<rparr>) s \<and> 0 \<le> g \<and> \<not> leader (tsk s p)
    \<and> pid (tsk s p) = (if pd = 0 then pid (cur s) else pd)
    \<and> (p = current s \<or> (p_pptr (tsk s p) = current s \<or> p_opptr (tsk s p) = current s)
         \<and> session (tsk s p) = session (cur s) \<and> \<not> did_exec (tsk s p))
    \<and> (g = pid (tsk s p) \<or> (\<exists>t. pgrp (tsk s t) = g \<and> session (tsk s t) = session (cur s)))"
  using assms by (rule sys_setpgid_success)

theorem setpgid_stays_in_session_witness:
  "\<exists>p g. upd_task 3 (\<lambda>t. t\<lparr>pgrp := 3\<rparr>) demo_kernel = upd_task p (\<lambda>t. t\<lparr>pgrp := g\<rparr>) demo_kernel \<and> 0 \<le> g"
proof -
  have "ring_ok demo_kernel [1, 2, 3]" using demo_ptable by (simp add: ptable_ok_def)
  then have "for_each_task demo_kernel = Some [1, 2, 3]" by (rule for_each_task_ring)
  then have "sys_setpgid 3 3 demo_kernel = Some (0, upd_task 3 (\<lambda>t. t\<lparr>pgrp := 3\<rparr>) demo_kernel)"
    by (simp add: sys_setpgid_def) (simp add: demo_kernel_def demo_task_def INIT_TASK_def)
  from setpgid_stays_in_session [OF this] show ?thesis by blast
qed

text \<open>After \<^verbatim>\<open>setgroups\<close> a process is in exactly the groups of the list it passed and in its effective group, for
  lists of every length up to the full table, and whatever the table held before.\<close>

theorem setgroups_sets_membership:
  assumes "length (groups (cur s)) = NGROUPS" "sys_setgroups (int n) lst s = (0, s')"
  shows "in_group_p g s' \<longleftrightarrow> g = egid (cur s) \<or> uint g \<in> set (user_words (fsmem s) lst n)"
  using assms by (rule setgroups_membership)

theorem setgroups_sets_membership_witness:
  "in_group_p 5 (snd (sys_setgroups 1 0 (demo_kernel\<lparr>current := 1, fsmem := (\<lambda>a. if a = 0 then 5 else 0)\<rparr>)))"
proof -
  let ?s = "demo_kernel\<lparr>current := 1, fsmem := (\<lambda>a. if a = 0 then 5 else 0)\<rparr>"
  have "length (groups (cur ?s)) = NGROUPS" by (simp add: demo_kernel_def demo_task_def INIT_TASK_def)
  moreover have "sys_setgroups (int 1) 0 ?s = (0, snd (sys_setgroups 1 0 ?s))"
    by (simp add: sys_setgroups_def suser_def demo_kernel_def demo_task_def)
  ultimately show ?thesis using setgroups_sets_membership [of ?s 1 0 "snd (sys_setgroups 1 0 ?s)" 5] by (simp add: get_fs_word_def)
qed

text \<open>The break moves up to another page only within the data limit of the process and below 16 kB under the stack.\<close>

theorem brk_grows_within_limits:
  assumes "fst (sys_brk ms b s) = b" "brk (cur s) < b" "PAGE_ALIGN b \<noteq> PAGE_ALIGN (brk (cur s))"
  shows "end_code (cur s) \<le> b \<and> b - end_code (cur s) \<le> data_limit (cur s) \<and> b < start_stack (cur s) - 16384"
  using sys_brk_grow [OF assms] by simp

theorem brk_grows_within_limits_witness:
  "0x3000 \<le> data_limit (cur (upd_cur (\<lambda>t. t\<lparr>start_stack := 0xb0000000, rlim := replicate 6 \<lparr>rlim_cur = 0x7fffffff, rlim_max = 0x7fffffff\<rparr>\<rparr>) demo_kernel))"
proof -
  let ?s = "upd_cur (\<lambda>t. t\<lparr>start_stack := 0xb0000000, rlim := replicate 6 \<lparr>rlim_cur = 0x7fffffff, rlim_max = 0x7fffffff\<rparr>\<rparr>) demo_kernel"
  let ?m = "\<lparr>buffermem = 0, nr_free_pages = 10000, nr_swap_pages = 0, high_memory = 0x100000\<rparr>"
  have "end_code (cur ?s) = 0" "brk (cur ?s) = 0" "fst (sys_brk ?m 0x3000 ?s) = 0x3000"
    by (simp_all add: demo_kernel_def demo_task_def INIT_TASK_def sys_brk_def set_brk_def PAGE_ALIGN_def data_limit_def to_u32_def swrap_def)
  then show ?thesis using brk_grows_within_limits [of ?m "0x3000" ?s] by (simp add: PAGE_ALIGN_def)
qed

text \<open>An unprivileged process can lift its data limit altogether: \<^verbatim>\<open>setrlimit\<close> compares the limits as signed numbers, so
  it accepts a soft limit of -1, and \<^verbatim>\<open>sys_brk\<close> reads that as no limit.\<close>

theorem setrlimit_accepts_negative:
  assumes "length (rlim (cur s)) = 6" "get_fs_long (fsmem s) rl = 0xffffffff"
    "to_s32 (get_fs_long (fsmem s) (rl + 4)) \<le> rlim_max (rlim (cur s) ! 2)" "0 \<le> rlim_max (rlim (cur s) ! 2)"
  shows "fst (sys_setrlimit 2 rl s) = 0 \<and> data_limit (cur (snd (sys_setrlimit 2 rl s))) = NOT 0"
proof -
  have m: "to_s32 0xffffffff = -1" by (simp add: to_s32_def)
  have "data_limit t = NOT 0" if "rlim t ! 2 = \<lparr>rlim_cur = -1, rlim_max = x\<rparr>" for t x
    using negative_limit_unlimited [of "\<lparr>rlim_cur = -1, rlim_max = x\<rparr>" t] that by simp
  then show ?thesis using assms m by (simp add: sys_setrlimit_def Let_def)
qed

theorem setrlimit_accepts_negative_witness:
  "\<not> suser (demo_kernel\<lparr>fsmem := (\<lambda>a. 0xff)\<rparr>)
    \<and> fst (sys_setrlimit 2 0x1000 (demo_kernel\<lparr>fsmem := (\<lambda>a. 0xff)\<rparr>)) = 0
    \<and> data_limit (cur (snd (sys_setrlimit 2 0x1000 (demo_kernel\<lparr>fsmem := (\<lambda>a. 0xff)\<rparr>)))) = NOT 0"
proof -
  let ?s = "demo_kernel\<lparr>fsmem := (\<lambda>a. 0xff)\<rparr>"
  have "get_fs_long (fsmem ?s) a = 0xffffffff" for a by (simp add: get_fs_long_def)
  moreover have "rlim_max (rlim (cur ?s) ! 2) = 0x7fffffff" "length (rlim (cur ?s)) = 6" "\<not> suser ?s"
    by (simp_all add: demo_kernel_def demo_task_def INIT_TASK_def suser_def nth_append)
  ultimately show ?thesis using setrlimit_accepts_negative [of ?s "0x1000"] by (simp add: to_s32_def)
qed

text \<open>\<^verbatim>\<open>ioperm\<close> changes nothing when it fails; when it succeeds, the caller was the super-user and the permission bits of the
  ports asked for, and of no others, have the new value.\<close>

theorem ioperm_opens_exactly:
  assumes "length (io_bitmap (cur s)) = 33"
  shows "\<exists>r s'. sys_ioperm fr num turn_on s = Some (r, s')
      \<and> (if fr + num \<le> fr \<or> fr + num > IO_PORTS then r = - EINVAL \<and> s' = s
         else if \<not> suser s then r = - EPERM \<and> s' = s
         else r = 0 \<and> bm_range (io_bitmap (cur s)) (unat fr) (unat fr + unat num) (\<not> turn_on) (io_bitmap (cur s'))
              \<and> (\<exists>bm. s' = upd_cur (\<lambda>t. t\<lparr>io_bitmap := bm\<rparr>) s))"
  using assms by (rule sys_ioperm_ports)

theorem ioperm_opens_exactly_witness:
  "\<exists>s'. sys_ioperm 0x3f8 8 True (demo_kernel\<lparr>current := 1\<rparr>) = Some (0, s')
    \<and> bm_range (io_bitmap (demo_task 1)) 1016 1024 False (io_bitmap (cur s'))"
proof -
  have "length (io_bitmap (cur (demo_kernel\<lparr>current := 1\<rparr>))) = 33" by (simp add: demo_kernel_def demo_task_def INIT_TASK_def)
  from ioperm_opens_exactly [OF this, of "0x3f8" 8 True] show ?thesis
    by (auto simp: demo_kernel_def suser_def demo_task_def)
qed


text \<open>A region of I/O ports that has been reserved is found busy by every later check of a region that meets it.\<close>

theorem reserved_ports_found_busy:
  assumes "length reg = 32" "unat fr + unat num \<le> 1024" "unat fr' + unat num' \<le> 1024"
    "max (unat fr) (unat fr') < min (unat fr + unat num) (unat fr' + unat num')"
  shows "\<exists>reg'. snarf_region fr num reg = Some reg' \<and> length reg' = 32 \<and> check_region fr' num' reg' = Some True"
  using assms by (rule snarf_check)

theorem reserved_ports_found_busy_witness:
  "\<exists>reg'. snarf_region 0x1f0 8 (replicate 32 0) = Some reg' \<and> length reg' = 32 \<and> check_region 0x1f7 2 reg' = Some True"
  by (rule reserved_ports_found_busy) simp_all

text \<open>In any sequence of requests and releases of DMA channels, where only channels that were granted are released, no
  channel is granted twice, and channels 0 and 4 are never granted.\<close>

theorem dma_channels_exclusive:
  assumes "dma_step\<^sup>*\<^sup>* (initial_dma, []) (busy, held)"
  shows "distinct held \<and> 0 \<notin> set held \<and> 4 \<notin> set held \<and> (\<forall>n\<in>set held. n < 8 \<and> busy ! n \<noteq> 0)"
  using dma_steps_ok [OF assms initial_dma_ok] by (simp add: dma_ok_def)

theorem dma_channels_exclusive_witness:
  "distinct [3 :: nat] \<and> (0 :: nat) \<notin> set [3] \<and> initial_dma[3 := 1] ! 3 \<noteq> 0"
proof -
  have "request_dma 3 initial_dma = (0, initial_dma[3 := 1])"
    by (simp add: request_dma_def mutex_atomic_swap_def initial_dma_def)
  then have "dma_step\<^sup>*\<^sup>* (initial_dma, []) (initial_dma[3 := 1], [3])" by (intro r_into_rtranclp dma_step.grant)
  from dma_channels_exclusive [OF this] show ?thesis by simp
qed

end
