(* ===== verification/Ipc_Sem.thy ===== *)
theory Ipc_Sem
  imports Sys_Calls
begin

text \<open>
  System V semaphores: \<^verbatim>\<open>ipc/sem.c\<close>, with \<^verbatim>\<open>ipcperms\<close> of \<^verbatim>\<open>ipc/util.c\<close>.

  The kernel's \<^verbatim>\<open>semid_ds\<close> and \<^verbatim>\<open>sem_undo\<close> structures are in two stores indexed by address, so that the two lists an
  undo structure is on (\<^verbatim>\<open>proc_next\<close> and \<^verbatim>\<open>id_next\<close>) share it, and a \<^verbatim>\<open>semid_ds\<close> outlives its removal from
  \<^verbatim>\<open>semary\<close>.  The addresses \<^verbatim>\<open>kmalloc\<close> returns are arguments, as is the time of day.  A function that sleeps is cut
  at the call of \<^verbatim>\<open>schedule()\<close>: its result says that it sleeps, and a second definition resumes it.  An access
  outside the array of semaphores is \<^verbatim>\<open>None\<close>.
\<close>

section \<open>Data\<close>

record ipc_perm =
  ip_key :: int
  ip_uid :: u16
  ip_gid :: u16
  ip_cuid :: u16
  ip_cgid :: u16
  ip_mode :: u16
  ip_seq :: u16

record sem =
  sempid :: int
  semval :: u16
  semncnt :: u16
  semzcnt :: u16

type_synonym saddr = nat
type_synonym uaddr = nat

record semid_ds =
  sem_perm :: ipc_perm
  sem_otime :: int
  sem_ctime :: int
  sem_base :: "sem list"
  sma_undo :: "uaddr option"
  sem_nsems :: u16

record sem_undo =
  proc_next :: "uaddr option"
  id_next :: "uaddr option"
  un_semid :: int
  semadj :: int
  un_num :: u16

record sembuf =
  sem_num :: u16
  sem_op :: int
  sem_flg :: u16

datatype sem_slot = IPC_UNUSED | IPC_NOID | Sma saddr

record sem_state =
  sk :: kernel
  semary :: "nat \<Rightarrow> sem_slot"
  sds :: "saddr \<Rightarrow> semid_ds"
  uns :: "uaddr \<Rightarrow> sem_undo"
  semun :: "tid \<Rightarrow> uaddr option"
  used_sems :: int
  used_semids :: int
  max_semid :: nat
  sem_seq :: u16

abbreviation (input) SEMMNI :: nat where "SEMMNI \<equiv> 128"
abbreviation (input) SEMMSL :: int where "SEMMSL \<equiv> 32"
abbreviation (input) SEMMNS :: int where "SEMMNS \<equiv> 4096"
abbreviation (input) SEMOPM :: nat where "SEMOPM \<equiv> 32"
abbreviation (input) SEMVMX :: int where "SEMVMX \<equiv> 32767"
abbreviation (input) IPC_PRIVATE :: int where "IPC_PRIVATE \<equiv> 0"
abbreviation (input) IPC_CREAT :: u32 where "IPC_CREAT \<equiv> 512"
abbreviation (input) IPC_EXCL :: u32 where "IPC_EXCL \<equiv> 1024"
abbreviation (input) IPC_NOWAIT :: u16 where "IPC_NOWAIT \<equiv> 2048"
abbreviation (input) SEM_UNDO :: u16 where "SEM_UNDO \<equiv> 4096"
abbreviation (input) S_IRWXUGO :: u32 where "S_IRWXUGO \<equiv> 511"
abbreviation (input) S_IRUGO :: u32 where "S_IRUGO \<equiv> 292"
abbreviation (input) S_IWUGO :: u32 where "S_IWUGO \<equiv> 146"

text \<open>The heads of the wait queues: \<^verbatim>\<open>sem_lock\<close>, and \<^verbatim>\<open>eventn\<close>, \<^verbatim>\<open>eventz\<close> of the structure at an address.\<close>

definition sem_lock :: wqhead where "sem_lock = Wq 0"
definition eventn :: "saddr \<Rightarrow> wqhead" where "eventn a = Wq (2 * a + 1)"
definition eventz :: "saddr \<Rightarrow> wqhead" where "eventz a = Wq (2 * a + 2)"

definition upd_sma :: "saddr \<Rightarrow> (semid_ds \<Rightarrow> semid_ds) \<Rightarrow> sem_state \<Rightarrow> sem_state" where
  "upd_sma a f st = st\<lparr>sds := (sds st)(a := f (sds st a))\<rparr>"

definition upd_un :: "uaddr \<Rightarrow> (sem_undo \<Rightarrow> sem_undo) \<Rightarrow> sem_state \<Rightarrow> sem_state" where
  "upd_un u f st = st\<lparr>uns := (uns st)(u := f (uns st u))\<rparr>"

definition sem_at :: "saddr \<Rightarrow> nat \<Rightarrow> sem_state \<Rightarrow> sem option" where
  "sem_at a n st = (if n < length (sem_base (sds st a)) then Some (sem_base (sds st a) ! n) else None)"

definition upd_sem :: "saddr \<Rightarrow> nat \<Rightarrow> (sem \<Rightarrow> sem) \<Rightarrow> sem_state \<Rightarrow> sem_state" where
  "upd_sem a n f st = upd_sma a (\<lambda>d. d\<lparr>sem_base := (sem_base d)[n := f (sem_base d ! n)]\<rparr>) st"

text \<open>\<^verbatim>\<open>if (queue) wake_up (&queue)\<close>.\<close>

definition wake_if :: "wqhead \<Rightarrow> sem_state \<Rightarrow> sem_state option" where
  "wake_if q st =
     (if wqh (sk st) q = None then Some st else do { s \<leftarrow> wake_up q (sk st); Some (st\<lparr>sk := s\<rparr>) })"

definition ipcperms :: "ipc_perm \<Rightarrow> u32 \<Rightarrow> kernel \<Rightarrow> int" where
  "ipcperms ipcp flag s =
     (if suser s then 0
      else let flag = scast (ucast flag :: u16) :: u32;
               requested_mode = signed_drop_bit 6 flag OR signed_drop_bit 3 flag OR flag;
               m = ucast (ip_mode ipcp) :: u32;
               granted_mode =
                 (if euid (cur s) = ip_cuid ipcp \<or> euid (cur s) = ip_uid ipcp then drop_bit 6 m
                  else if in_group_p (ip_cgid ipcp) s \<or> in_group_p (ip_gid ipcp) s then drop_bit 3 m
                  else m)
           in if requested_mode AND NOT granted_mode AND 7 \<noteq> 0 then -1 else 0)"

section \<open>Creating and finding a set\<close>

definition sem_init :: "sem_state \<Rightarrow> sem_state" where
  "sem_init st =
     st\<lparr>sk := set_wq_head sem_lock None (sk st), used_sems := 0, used_semids := 0, max_semid := 0, sem_seq := 0,
        semary := (\<lambda>i. if i < SEMMNI then IPC_UNUSED else semary st i)\<rparr>"

text \<open>\<^verbatim>\<open>findkey\<close> sleeps when it meets a slot that is being set up.\<close>

datatype find_result = Found nat | Not_Found | Sleeps_At nat

function findkey_from :: "int \<Rightarrow> nat \<Rightarrow> sem_state \<Rightarrow> find_result" where
  "findkey_from key i st =
     (if i \<le> max_semid st
      then case semary st i of
             IPC_NOID \<Rightarrow> Sleeps_At i
           | IPC_UNUSED \<Rightarrow> findkey_from key (Suc i) st
           | Sma a \<Rightarrow> if key = ip_key (sem_perm (sds st a)) then Found i else findkey_from key (Suc i) st
      else Not_Found)"
  by auto
termination by (relation "measure (\<lambda>(key, i, st). Suc (max_semid st) - i)") auto

declare findkey_from.simps [simp del]

text \<open>\<^verbatim>\<open>newary\<close> up to the call of \<^verbatim>\<open>kmalloc\<close>, which may sleep, and after it.\<close>

definition first_unused :: "sem_state \<Rightarrow> nat option" where
  "first_unused st = find (\<lambda>i. semary st i = IPC_UNUSED) [0..<SEMMNI]"

definition newary_reserve :: "int \<Rightarrow> sem_state \<Rightarrow> int + (nat \<times> sem_state)" where
  "newary_reserve nsems st =
     (if nsems = 0 then Inl (- EINVAL)
      else if used_sems st + nsems > SEMMNS then Inl (- ENOSPC)
      else case first_unused st of
             None \<Rightarrow> Inl (- ENOSPC)
           | Some i \<Rightarrow> Inr (i, st\<lparr>semary := (semary st)(i := IPC_NOID), used_sems := used_sems st + nsems\<rparr>))"

definition fresh_sma :: "int \<Rightarrow> int \<Rightarrow> u32 \<Rightarrow> int \<Rightarrow> sem_state \<Rightarrow> semid_ds" where
  "fresh_sma key nsems semflg now st =
    (let t = cur (sk st)
     in \<lparr>sem_perm = \<lparr>ip_key = key, ip_uid = euid t, ip_gid = egid t, ip_cuid = euid t, ip_cgid = egid t,
                     ip_mode = ucast (semflg AND S_IRWXUGO), ip_seq = sem_seq st\<rparr>,
         sem_otime = 0, sem_ctime = now,
         sem_base = replicate (nat nsems) \<lparr>sempid = 0, semval = 0, semncnt = 0, semzcnt = 0\<rparr>,
         sma_undo = None, sem_nsems = word_of_int nsems\<rparr>)"

definition newary_install :: "int \<Rightarrow> int \<Rightarrow> u32 \<Rightarrow> int \<Rightarrow> saddr option \<Rightarrow> nat \<Rightarrow> sem_state \<Rightarrow> (int \<times> sem_state) option" where
  "newary_install key nsems semflg now mem i st =
     (case mem of
        None \<Rightarrow> do { st \<leftarrow> wake_if sem_lock (st\<lparr>semary := (semary st)(i := IPC_UNUSED), used_sems := used_sems st - nsems\<rparr>);
                     Some (- ENOMEM, st) }
      | Some a \<Rightarrow>
          let st = st\<lparr>sds := (sds st)(a := fresh_sma key nsems semflg now st),
                      sk := set_wq_head (eventn a) None (set_wq_head (eventz a) None (sk st))\<rparr>;
              st = (if i > max_semid st then st\<lparr>max_semid := i\<rparr> else st);
              st = st\<lparr>used_semids := used_semids st + 1, semary := (semary st)(i := Sma a)\<rparr>
          in do { st \<leftarrow> wake_if sem_lock st; Some (uint (sem_seq st) * int SEMMNI + int i, st) })"

definition newary :: "int \<Rightarrow> int \<Rightarrow> u32 \<Rightarrow> int \<Rightarrow> saddr option \<Rightarrow> sem_state \<Rightarrow> (int \<times> sem_state) option" where
  "newary key nsems semflg now mem st =
     (case newary_reserve nsems st of
        Inl e \<Rightarrow> Some (e, st)
      | Inr (i, st) \<Rightarrow> newary_install key nsems semflg now mem i st)"

text \<open>The result of a system call: a return value, a sleep on the queue given, or a call of \<^verbatim>\<open>schedule()\<close> in the loop of
  \<^verbatim>\<open>freeary\<close>, to be continued with \<^verbatim>\<open>freeary_round\<close>.\<close>

datatype sem_result = Sem_Ret int sem_state | Sem_Sleep wqhead sem_state | Sem_Yield saddr sem_state

definition sem_ret :: "(int \<times> sem_state) option \<Rightarrow> sem_result option" where
  "sem_ret r = map_option (\<lambda>(v, st). Sem_Ret v st) r"

definition sem_sleep :: "wqhead \<Rightarrow> waddr \<Rightarrow> sem_state \<Rightarrow> sem_result option" where
  "sem_sleep q w st =
     do { s \<leftarrow> sleep_on_enter q w TASK_INTERRUPTIBLE (sk st); Some (Sem_Sleep q (st\<lparr>sk := s\<rparr>)) }"

text \<open>\<^verbatim>\<open>sys_semget\<close> with a key, from the slot \<^verbatim>\<open>i\<close> of the search on.\<close>

definition semget_from :: "int \<Rightarrow> int \<Rightarrow> u32 \<Rightarrow> int \<Rightarrow> saddr option \<Rightarrow> waddr \<Rightarrow> nat \<Rightarrow> sem_state \<Rightarrow> sem_result option" where
  "semget_from key nsems semflg now mem w i st =
     (case findkey_from key i st of
        Sleeps_At i \<Rightarrow> sem_sleep sem_lock w st
      | Not_Found \<Rightarrow>
          if semflg AND IPC_CREAT = 0 then Some (Sem_Ret (- ENOENT) st)
          else sem_ret (newary key nsems semflg now mem st)
      | Found i \<Rightarrow>
          if semflg AND IPC_CREAT \<noteq> 0 \<and> semflg AND IPC_EXCL \<noteq> 0 then Some (Sem_Ret (- EEXIST) st)
          else case semary st i of
                 Sma a \<Rightarrow>
                   if nsems > uint (sem_nsems (sds st a)) then Some (Sem_Ret (- EINVAL) st)
                   else if ipcperms (sem_perm (sds st a)) semflg (sk st) \<noteq> 0 then Some (Sem_Ret (- EACCES) st)
                   else Some (Sem_Ret (uint (ip_seq (sem_perm (sds st a))) * int SEMMNI + int i) st)
               | _ \<Rightarrow> None)"

definition sys_semget :: "int \<Rightarrow> int \<Rightarrow> u32 \<Rightarrow> int \<Rightarrow> saddr option \<Rightarrow> waddr \<Rightarrow> sem_state \<Rightarrow> sem_result option" where
  "sys_semget key nsems semflg now mem w st =
     (if nsems < 0 \<or> nsems > SEMMSL then Some (Sem_Ret (- EINVAL) st)
      else if key = IPC_PRIVATE then sem_ret (newary key nsems semflg now mem st)
      else semget_from key nsems semflg now mem w 0 st)"

text \<open>After a sleep the search goes on at the slot \<^verbatim>\<open>i\<close> where it slept.\<close>

definition semget_resume :: "int \<Rightarrow> int \<Rightarrow> u32 \<Rightarrow> int \<Rightarrow> saddr option \<Rightarrow> waddr \<Rightarrow> nat \<Rightarrow> sem_state \<Rightarrow> sem_result option" where
  "semget_resume key nsems semflg now mem w i st =
     do { s \<leftarrow> sleep_on_resume sem_lock w (sk st); semget_from key nsems semflg now mem w i (st\<lparr>sk := s\<rparr>) }"

section \<open>Removing a set\<close>

partial_function (option) undo_walk :: "(uaddr \<Rightarrow> uaddr option) \<Rightarrow> uaddr option \<Rightarrow> uaddr list option" where
  "undo_walk nxt u =
     (case u of None \<Rightarrow> Some [] | Some u \<Rightarrow> do { us \<leftarrow> undo_walk nxt (nxt u); Some (u # us) })"

definition clear_undo :: "(sem_undo \<Rightarrow> bool) \<Rightarrow> saddr \<Rightarrow> sem_state \<Rightarrow> sem_state option" where
  "clear_undo sel a st =
     do { us \<leftarrow> undo_walk (\<lambda>u. id_next (uns st u)) (sma_undo (sds st a));
          Some (foldl (\<lambda>st u. if sel (uns st u) then upd_un u (\<lambda>n. n\<lparr>semadj := 0\<rparr>) st else st) st us) }"

text \<open>\<^verbatim>\<open>while (max_semid && (semary[--max_semid] == IPC_UNUSED));\<close>\<close>

fun shrink_max :: "(nat \<Rightarrow> sem_slot) \<Rightarrow> nat \<Rightarrow> nat" where
  "shrink_max ary 0 = 0"
| "shrink_max ary (Suc m) = (if ary m = IPC_UNUSED then shrink_max ary m else m)"

text \<open>\<^verbatim>\<open>freeary\<close> before its loop.  The round of the loop returns \<^verbatim>\<open>True\<close> when the queues are empty (and the structure is
  freed) and \<^verbatim>\<open>False\<close> when it calls \<^verbatim>\<open>schedule()\<close>.\<close>

definition freeary_unlink :: "nat \<Rightarrow> saddr \<Rightarrow> sem_state \<Rightarrow> sem_state option" where
  "freeary_unlink i a st =
    (let st = upd_sma a (\<lambda>d. d\<lparr>sem_perm := (sem_perm d)\<lparr>ip_seq := ip_seq (sem_perm d) + 1\<rparr>\<rparr>) st;
         st = st\<lparr>sem_seq := sem_seq st + 1, used_sems := used_sems st - uint (sem_nsems (sds st a))\<rparr>;
         st = (if i = max_semid st then st\<lparr>max_semid := shrink_max (semary st) (max_semid st)\<rparr> else st);
         st = st\<lparr>semary := (semary st)(i := IPC_UNUSED), used_semids := used_semids st - 1\<rparr>
     in clear_undo (\<lambda>_. True) a st)"

definition freeary_round :: "saddr \<Rightarrow> sem_state \<Rightarrow> (bool \<times> sem_state) option" where
  "freeary_round a st =
     (if wqh (sk st) (eventz a) = None \<and> wqh (sk st) (eventn a) = None then Some (True, st)
      else do { st \<leftarrow> wake_if (eventz a) st; st \<leftarrow> wake_if (eventn a) st; Some (False, st) })"

definition freeary :: "nat \<Rightarrow> saddr \<Rightarrow> sem_state \<Rightarrow> (bool \<times> sem_state) option" where
  "freeary i a st = Option.bind (freeary_unlink i a st) (freeary_round a)"

section \<open>semctl\<close>

abbreviation (input) IPC_RMID :: int where "IPC_RMID \<equiv> 0"
abbreviation (input) IPC_SET :: int where "IPC_SET \<equiv> 1"
abbreviation (input) IPC_STAT :: int where "IPC_STAT \<equiv> 2"
abbreviation (input) IPC_INFO :: int where "IPC_INFO \<equiv> 3"
abbreviation (input) GETPID :: int where "GETPID \<equiv> 11"
abbreviation (input) GETVAL :: int where "GETVAL \<equiv> 12"
abbreviation (input) GETALL :: int where "GETALL \<equiv> 13"
abbreviation (input) GETNCNT :: int where "GETNCNT \<equiv> 14"
abbreviation (input) GETZCNT :: int where "GETZCNT \<equiv> 15"
abbreviation (input) SETVAL :: int where "SETVAL \<equiv> 16"
abbreviation (input) SETALL :: int where "SETALL \<equiv> 17"
abbreviation (input) SEM_STAT :: int where "SEM_STAT \<equiv> 18"
abbreviation (input) SEM_INFO :: int where "SEM_INFO \<equiv> 19"

definition sem_mem :: "(umem \<Rightarrow> umem) \<Rightarrow> sem_state \<Rightarrow> sem_state" where
  "sem_mem f st = st\<lparr>sk := (sk st)\<lparr>fsmem := f (fsmem (sk st))\<rparr>\<rparr>"

text \<open>The structures copied to the user.  The four pointers of a \<^verbatim>\<open>semid_ds\<close> (\<^verbatim>\<open>sem_base\<close>, \<^verbatim>\<open>eventn\<close>, \<^verbatim>\<open>eventz\<close>, \<^verbatim>\<open>undo\<close>)
  are copied as numbers, which are the argument \<^verbatim>\<open>ptrs\<close>.\<close>

definition two_words :: "u16 \<Rightarrow> u16 \<Rightarrow> u32" where
  "two_words lo hi = ucast lo OR push_bit 16 (ucast hi)"

definition semid_longs :: "u32 list \<Rightarrow> semid_ds \<Rightarrow> u32 list" where
  "semid_longs ptrs d =
    (let p = sem_perm d
     in [to_u32 (ip_key p), two_words (ip_uid p) (ip_gid p), two_words (ip_cuid p) (ip_cgid p),
         two_words (ip_mode p) (ip_seq p), to_u32 (sem_otime d), to_u32 (sem_ctime d)]
        @ ptrs @ [two_words (sem_nsems d) 0])"

definition seminfo_longs :: "int \<Rightarrow> sem_state \<Rightarrow> u32 list" where
  "seminfo_longs cmd st =
     map to_u32 [SEMMNS, int SEMMNI, SEMMNS, SEMMNS, SEMMSL, int SEMOPM, int SEMOPM,
       if cmd = SEM_INFO then used_semids st else 20, SEMVMX, if cmd = SEM_INFO then used_sems st else 16383]"

definition semctl_info :: "int \<Rightarrow> u32 \<Rightarrow> sem_state \<Rightarrow> int \<times> sem_state" where
  "semctl_info cmd arg st =
    (let tmp = get_fs_long (fsmem (sk st)) arg; i = verify_area VERIFY_WRITE tmp 40
     in if arg = 0 \<or> tmp = 0 then (- EFAULT, st)
        else if i \<noteq> 0 then (i, st)
        else (int (max_semid st), sem_mem (put_longs (seminfo_longs cmd st) tmp) st))"

definition semctl_stat :: "u32 list \<Rightarrow> int \<Rightarrow> u32 \<Rightarrow> sem_state \<Rightarrow> int \<times> sem_state" where
  "semctl_stat ptrs semid arg st =
    (let buf = get_fs_long (fsmem (sk st)) arg; i = verify_area VERIFY_WRITE buf 44
     in if arg = 0 \<or> buf = 0 then (- EFAULT, st)
        else if i \<noteq> 0 then (i, st)
        else if semid > int (max_semid st) then (- EINVAL, st)
        else case semary st (nat semid) of
               Sma a \<Rightarrow>
                 if ipcperms (sem_perm (sds st a)) S_IRUGO (sk st) \<noteq> 0 then (- EACCES, st)
                 else (semid + uint (ip_seq (sem_perm (sds st a))) * int SEMMNI,
                       sem_mem (put_longs (semid_longs ptrs (sds st a)) buf) st)
             | _ \<Rightarrow> (- EINVAL, st))"

text \<open>The set an identifier stands for: \<^verbatim>\<open>semary[semid % SEMMNI]\<close>, if its sequence number is that of the identifier.\<close>

definition sem_lookup :: "int \<Rightarrow> sem_state \<Rightarrow> int + (nat \<times> saddr)" where
  "sem_lookup semid st =
    (let i = nat (semid mod int SEMMNI)
     in case semary st i of
          Sma a \<Rightarrow> if uint (ip_seq (sem_perm (sds st a))) \<noteq> semid div int SEMMNI then Inl (- EIDRM) else Inr (i, a)
        | _ \<Rightarrow> Inl (- EINVAL))"

definition may_own :: "ipc_perm \<Rightarrow> kernel \<Rightarrow> bool" where
  "may_own ipcp s \<longleftrightarrow> suser s \<or> euid (cur s) = ip_cuid ipcp \<or> euid (cur s) = ip_uid ipcp"

text \<open>What the first switch leaves in the local variables: \<^verbatim>\<open>array\<close> or \<^verbatim>\<open>buf\<close>, \<^verbatim>\<open>val\<close>, \<^verbatim>\<open>sem_io\<close>, and the fields used of
  \<^verbatim>\<open>tbuf\<close>.\<close>

record semctl_locals =
  lc_ptr :: u32
  lc_val :: int
  lc_io :: "int list"
  lc_uid :: u16
  lc_gid :: u16
  lc_mode :: u16

definition no_locals :: semctl_locals where
  "no_locals = \<lparr>lc_ptr = 0, lc_val = 0, lc_io = [], lc_uid = 0, lc_gid = 0, lc_mode = 0\<rparr>"

definition semctl_get :: "int \<Rightarrow> u32 \<Rightarrow> semid_ds \<Rightarrow> sem \<Rightarrow> kernel \<Rightarrow> int + semctl_locals" where
  "semctl_get cmd arg d csem s =
     (if ipcperms (sem_perm d) S_IRUGO s \<noteq> 0 then Inl (- EACCES)
      else if cmd = GETVAL then Inl (uint (semval csem))
      else if cmd = GETPID then Inl (sempid csem)
      else if cmd = GETNCNT then Inl (uint (semncnt csem))
      else if cmd = GETZCNT then Inl (uint (semzcnt csem))
      else let array = get_fs_long (fsmem s) arg; i = verify_area VERIFY_WRITE array (ucast (sem_nsems d) * 2)
           in if arg = 0 \<or> array = 0 then Inl (- EFAULT)
              else if i \<noteq> 0 then Inl i
              else Inr (no_locals\<lparr>lc_ptr := array\<rparr>))"

definition semctl_prepare :: "int \<Rightarrow> u32 \<Rightarrow> semid_ds \<Rightarrow> sem \<Rightarrow> kernel \<Rightarrow> int + semctl_locals" where
  "semctl_prepare cmd arg d csem s =
    (let m = fsmem s; p = get_fs_long m arg
     in if cmd = GETVAL \<or> cmd = GETPID \<or> cmd = GETNCNT \<or> cmd = GETZCNT \<or> cmd = GETALL then semctl_get cmd arg d csem s
        else if cmd = SETVAL
        then if arg = 0 then Inl (- EFAULT)
             else let val = to_s32 p in if val > SEMVMX \<or> val < 0 then Inl (- ERANGE) else Inr (no_locals\<lparr>lc_val := val\<rparr>)
        else if cmd = SETALL
        then let i = verify_area VERIFY_READ p 44; io = user_words m p (unat (sem_nsems d))
             in if arg = 0 \<or> p = 0 then Inl (- EFAULT)
                else if i \<noteq> 0 then Inl i
                else if \<exists>v\<in>set io. v > SEMVMX then Inl (- ERANGE)
                else Inr (no_locals\<lparr>lc_io := io\<rparr>)
        else if cmd = IPC_STAT
        then let i = verify_area VERIFY_WRITE arg 44
             in if arg = 0 \<or> p = 0 then Inl (- EFAULT) else if i \<noteq> 0 then Inl i else Inr (no_locals\<lparr>lc_ptr := p\<rparr>)
        else if cmd = IPC_SET
        then let i = verify_area VERIFY_READ p 44
             in if arg = 0 \<or> p = 0 then Inl (- EFAULT)
                else if i \<noteq> 0 then Inl i
                else Inr (no_locals\<lparr>lc_uid := get_fs_word m (p + 4), lc_gid := get_fs_word m (p + 6),
                                   lc_mode := get_fs_word m (p + 12)\<rparr>)
        else Inr no_locals)"

text \<open>The second switch.\<close>

fun put_words :: "u16 list \<Rightarrow> u32 \<Rightarrow> umem \<Rightarrow> umem" where
  "put_words [] a m = m"
| "put_words (w # ws) a m = put_words ws (a + 2) (put_fs_word w a m)"

definition wake_both :: "saddr \<Rightarrow> sem_state \<Rightarrow> sem_state option" where
  "wake_both a st = do { st \<leftarrow> wake_if (eventn a) st; wake_if (eventz a) st }"

definition semctl_setval :: "nat \<Rightarrow> int \<Rightarrow> int \<Rightarrow> saddr \<Rightarrow> sem_state \<Rightarrow> sem_state option" where
  "semctl_setval semnum val now a st =
     do { st \<leftarrow> clear_undo (\<lambda>n. uint (un_num n) = int semnum) a st;
          let st = upd_sma a (\<lambda>d. d\<lparr>sem_ctime := now\<rparr>) st;
          wake_both a (upd_sem a semnum (\<lambda>c. c\<lparr>semval := word_of_int val\<rparr>) st) }"

definition semctl_setall :: "int list \<Rightarrow> int \<Rightarrow> saddr \<Rightarrow> sem_state \<Rightarrow> sem_state option" where
  "semctl_setall io now a st =
    (let st = upd_sma a (\<lambda>d. d\<lparr>sem_base := map (\<lambda>(c, v). c\<lparr>semval := word_of_int v\<rparr>) (zip (sem_base d) io)\<rparr>) st
     in do { st \<leftarrow> clear_undo (\<lambda>_. True) a st;
             st \<leftarrow> wake_both a st;
             Some (upd_sma a (\<lambda>d. d\<lparr>sem_ctime := now\<rparr>) st) })"

definition semctl_commit :: "u32 list \<Rightarrow> int \<Rightarrow> nat \<Rightarrow> nat \<Rightarrow> saddr \<Rightarrow> semctl_locals \<Rightarrow> int \<Rightarrow> sem_state \<Rightarrow> (int \<times> sem_state) option" where
  "semctl_commit ptrs cmd semnum i a lc now st =
    (let d = sds st a; ipcp = sem_perm d; s = sk st
     in if cmd = GETALL
        then if ipcperms ipcp S_IRUGO s \<noteq> 0 then Some (- EACCES, st)
             else Some (0, sem_mem (put_words (map semval (sem_base d)) (lc_ptr lc)) st)
        else if cmd = SETVAL
        then if ipcperms ipcp S_IWUGO s \<noteq> 0 then Some (- EACCES, st)
             else do { st \<leftarrow> semctl_setval semnum (lc_val lc) now a st; Some (0, st) }
        else if cmd = IPC_SET
        then if may_own ipcp s
             then Some (0, upd_sma a (\<lambda>d. d\<lparr>sem_perm := (sem_perm d)\<lparr>ip_uid := lc_uid lc, ip_gid := lc_gid lc,
                            ip_mode := (ip_mode ipcp AND NOT 511) OR (lc_mode lc AND 511)\<rparr>, sem_ctime := now\<rparr>) st)
             else Some (- EPERM, st)
        else if cmd = IPC_STAT
        then if ipcperms ipcp S_IRUGO s \<noteq> 0 then Some (- EACCES, st)
             else Some (0, sem_mem (put_longs (semid_longs ptrs d) (lc_ptr lc)) st)
        else if cmd = SETALL
        then if ipcperms ipcp S_IWUGO s \<noteq> 0 then Some (- EACCES, st)
             else do { st \<leftarrow> semctl_setall (lc_io lc) now a st; Some (0, st) }
        else Some (- EINVAL, st))"

definition sys_semctl :: "u32 list \<Rightarrow> int \<Rightarrow> int \<Rightarrow> int \<Rightarrow> u32 \<Rightarrow> int \<Rightarrow> sem_state \<Rightarrow> sem_result option" where
  "sys_semctl ptrs semid semnum cmd arg now st =
     (if semid < 0 \<or> semnum < 0 \<or> cmd < 0 then Some (Sem_Ret (- EINVAL) st)
      else if cmd = IPC_INFO \<or> cmd = SEM_INFO then sem_ret (Some (semctl_info cmd arg st))
      else if cmd = SEM_STAT then sem_ret (Some (semctl_stat ptrs semid arg st))
      else case sem_lookup semid st of
             Inl e \<Rightarrow> Some (Sem_Ret e st)
           | Inr (i, a) \<Rightarrow>
               let d = sds st a
               in if semnum \<ge> uint (sem_nsems d) then Some (Sem_Ret (- EINVAL) st)
                  else if cmd = IPC_RMID
                  then if may_own (sem_perm d) (sk st)
                       then do { (freed, st) \<leftarrow> freeary i a st; Some (if freed then Sem_Ret 0 st else Sem_Yield a st) }
                       else Some (Sem_Ret (- EPERM) st)
                  else do {
                    csem \<leftarrow> sem_at a (nat semnum) st;
                    case semctl_prepare cmd arg d csem (sk st) of
                      Inl r \<Rightarrow> Some (Sem_Ret r st)
                    | Inr lc \<Rightarrow>
                        case sem_lookup semid st of
                          Inl e \<Rightarrow> Some (Sem_Ret (- EIDRM) st)
                        | Inr _ \<Rightarrow> sem_ret (semctl_commit ptrs cmd (nat semnum) i a lc now st) })"

section \<open>semop\<close>

fun get_sops :: "umem \<Rightarrow> u32 \<Rightarrow> nat \<Rightarrow> sembuf list" where
  "get_sops m a 0 = []"
| "get_sops m a (Suc n) =
     \<lparr>sem_num = get_fs_word m a, sem_op = sint (get_fs_word m (a + 2)), sem_flg = get_fs_word m (a + 4)\<rparr> # get_sops m (a + 6) n"

definition wants_undo :: "sembuf \<Rightarrow> bool" where
  "wants_undo sop \<longleftrightarrow> sem_flg sop AND SEM_UNDO \<noteq> 0"

text \<open>\<^verbatim>\<open>ensure every sop with undo gets an undo structure\<close>.  The list \<^verbatim>\<open>fresh\<close> holds what \<^verbatim>\<open>kmalloc\<close> will return; when it
  is used up, \<^verbatim>\<open>kmalloc\<close> returns NULL.\<close>

definition my_undo :: "int \<Rightarrow> u16 \<Rightarrow> sem_state \<Rightarrow> uaddr option option" where
  "my_undo semid n st =
     do { us \<leftarrow> undo_walk (\<lambda>u. proc_next (uns st u)) (semun st (current (sk st)));
          Some (find (\<lambda>u. un_semid (uns st u) = semid \<and> un_num (uns st u) = n) us) }"

definition link_undo :: "int \<Rightarrow> saddr \<Rightarrow> u16 \<Rightarrow> uaddr \<Rightarrow> sem_state \<Rightarrow> sem_state" where
  "link_undo semid a n u st =
    (let c = current (sk st)
     in upd_sma a (\<lambda>d. d\<lparr>sma_undo := Some u\<rparr>)
         (st\<lparr>uns := (uns st)(u := \<lparr>proc_next = semun st c, id_next = sma_undo (sds st a), un_semid = semid,
                                  semadj = 0, un_num = n\<rparr>),
             semun := (semun st)(c := Some u)\<rparr>))"

fun add_undos :: "int \<Rightarrow> saddr \<Rightarrow> uaddr list \<Rightarrow> sembuf list \<Rightarrow> sem_state \<Rightarrow> (bool \<times> sem_state) option" where
  "add_undos semid a fresh [] st = Some (True, st)"
| "add_undos semid a fresh (sop # sops) st =
     (if \<not> wants_undo sop then add_undos semid a fresh sops st
      else do { un \<leftarrow> my_undo semid (sem_num sop) st;
                if un \<noteq> None then add_undos semid a fresh sops st
                else case fresh of
                       [] \<Rightarrow> Some (False, st)
                     | u # us \<Rightarrow> add_undos semid a us sops (link_undo semid a (sem_num sop) u st) })"

text \<open>The first pass over the operations (label \<^verbatim>\<open>slept\<close>): it stops at the first one that fails or has to wait.\<close>

datatype sem_check = Sem_Go | Sem_Err int | Sem_Wait_Zero nat | Sem_Wait_Up nat

fun check_sops :: "saddr \<Rightarrow> sembuf list \<Rightarrow> sem_state \<Rightarrow> sem_check option" where
  "check_sops a [] st = Some Sem_Go"
| "check_sops a (sop # sops) st =
     do { csem \<leftarrow> sem_at a (unat (sem_num sop)) st;
          let v = sem_op sop + uint (semval csem);
          if v > SEMVMX then Some (Sem_Err (- ERANGE))
          else if sem_op sop = 0 \<and> semval csem \<noteq> 0
          then Some (if sem_flg sop AND IPC_NOWAIT \<noteq> 0 then Sem_Err (- EAGAIN)
                     else if signal_pending (cur (sk st)) then Sem_Err (- EINTR)
                     else Sem_Wait_Zero (unat (sem_num sop)))
          else if v < 0
          then Some (if sem_flg sop AND IPC_NOWAIT \<noteq> 0 then Sem_Err (- EAGAIN)
                     else if signal_pending (cur (sk st)) then Sem_Err (- EINTR)
                     else Sem_Wait_Up (unat (sem_num sop)))
          else check_sops a sops st }"

text \<open>The second pass applies them and returns the number of semaphores that became zero.  A missing undo structure
  is only reported, by \<^verbatim>\<open>printk\<close>.\<close>

definition apply_sop :: "int \<Rightarrow> saddr \<Rightarrow> sembuf \<Rightarrow> nat \<times> sem_state \<Rightarrow> (nat \<times> sem_state) option" where
  "apply_sop semid a sop zst =
    (let (zcnt, st) = zst; n = unat (sem_num sop)
     in do { csem \<leftarrow> sem_at a n st;
             let v = semval csem + word_of_int (sem_op sop);
             let st = upd_sem a n (\<lambda>c. c\<lparr>sempid := pid (cur (sk st)), semval := v\<rparr>) st;
             let zcnt = (if v = 0 then Suc zcnt else zcnt);
             if \<not> wants_undo sop then Some (zcnt, st)
             else do { un \<leftarrow> my_undo semid (sem_num sop) st;
                       Some (zcnt, case un of None \<Rightarrow> st
                                   | Some u \<Rightarrow> upd_un u (\<lambda>x. x\<lparr>semadj := sint (word_of_int (semadj x - sem_op sop) :: u16)\<rparr>) st) } })"

fun apply_sops :: "int \<Rightarrow> saddr \<Rightarrow> sembuf list \<Rightarrow> nat \<times> sem_state \<Rightarrow> (nat \<times> sem_state) option" where
  "apply_sops semid a [] zst = Some zst"
| "apply_sops semid a (sop # sops) zst = Option.bind (apply_sop semid a sop zst) (apply_sops semid a sops)"

definition semop_round :: "int \<Rightarrow> saddr \<Rightarrow> sembuf list \<Rightarrow> waddr \<Rightarrow> int \<Rightarrow> sem_state \<Rightarrow> sem_result option" where
  "semop_round semid a sops w now st =
     (if uint (ip_seq (sem_perm (sds st a))) \<noteq> semid div int SEMMNI then Some (Sem_Ret (- EIDRM) st)
      else do {
        chk \<leftarrow> check_sops a sops st;
        case chk of
          Sem_Err e \<Rightarrow> Some (Sem_Ret e st)
        | Sem_Wait_Zero n \<Rightarrow> sem_sleep (eventz a) w (upd_sem a n (\<lambda>c. c\<lparr>semzcnt := semzcnt c + 1\<rparr>) st)
        | Sem_Wait_Up n \<Rightarrow> sem_sleep (eventn a) w (upd_sem a n (\<lambda>c. c\<lparr>semncnt := semncnt c + 1\<rparr>) st)
        | Sem_Go \<Rightarrow> do {
            (zcnt, st) \<leftarrow> apply_sops semid a sops (0, st);
            let st = upd_sma a (\<lambda>d. d\<lparr>sem_otime := now\<rparr>) st;
            st \<leftarrow> (if \<exists>sop\<in>set sops. sem_op sop > 0 then wake_if (eventn a) st else Some st);
            st \<leftarrow> (if zcnt > 0 then wake_if (eventz a) st else Some st);
            csem \<leftarrow> sem_at a (unat (sem_num (last sops))) st;
            Some (Sem_Ret (uint (semval csem)) st) } })"

definition sys_semop :: "int \<Rightarrow> u32 \<Rightarrow> nat \<Rightarrow> uaddr list \<Rightarrow> waddr \<Rightarrow> int \<Rightarrow> sem_state \<Rightarrow> sem_result option" where
  "sys_semop semid tsops nsops fresh w now st =
    (let i = nat (semid mod int SEMMNI); sops = get_sops (fsmem (sk st)) tsops nsops
     in if nsops < 1 \<or> semid < 0 then Some (Sem_Ret (- EINVAL) st)
        else if nsops > SEMOPM then Some (Sem_Ret (- E2BIG) st)
        else if tsops = 0 then Some (Sem_Ret (- EFAULT) st)
        else case semary st i of
               Sma a \<Rightarrow>
                 if \<exists>sop\<in>set sops. sem_num sop > sem_nsems (sds st a) then Some (Sem_Ret (- EFBIG) st)
                 else if ipcperms (sem_perm (sds st a)) (if \<exists>sop\<in>set sops. sem_op sop \<noteq> 0 then S_IWUGO else S_IRUGO) (sk st) \<noteq> 0
                 then Some (Sem_Ret (- EACCES) st)
                 else do { (ok, st) \<leftarrow> add_undos semid a fresh sops st;
                           if \<not> ok then Some (Sem_Ret (- ENOMEM) st) else semop_round semid a sops w now st }
             | _ \<Rightarrow> Some (Sem_Ret (- EINVAL) st))"

text \<open>After the sleep: off the queue, the count of waiters is taken back, and \<^verbatim>\<open>goto slept\<close>.\<close>

definition semop_resume :: "bool \<Rightarrow> nat \<Rightarrow> int \<Rightarrow> saddr \<Rightarrow> sembuf list \<Rightarrow> waddr \<Rightarrow> int \<Rightarrow> sem_state \<Rightarrow> sem_result option" where
  "semop_resume zero n semid a sops w now st =
     do { s \<leftarrow> sleep_on_resume (if zero then eventz a else eventn a) w (sk st);
          let st = upd_sem a n (\<lambda>c. if zero then c\<lparr>semzcnt := semzcnt c - 1\<rparr> else c\<lparr>semncnt := semncnt c - 1\<rparr>) (st\<lparr>sk := s\<rparr>);
          semop_round semid a sops w now st }"

section \<open>A process exits\<close>

text \<open>\<^verbatim>\<open>unp\<close> points to the pointer that holds the address of the structure: the head of the list or an \<^verbatim>\<open>id_next\<close>.\<close>

datatype unp = Unp_Head | Unp_Next uaddr

definition unp_get :: "saddr \<Rightarrow> unp \<Rightarrow> sem_state \<Rightarrow> uaddr option" where
  "unp_get a p st = (case p of Unp_Head \<Rightarrow> sma_undo (sds st a) | Unp_Next u \<Rightarrow> id_next (uns st u))"

definition unp_set :: "saddr \<Rightarrow> unp \<Rightarrow> uaddr option \<Rightarrow> sem_state \<Rightarrow> sem_state" where
  "unp_set a p v st =
     (case p of Unp_Head \<Rightarrow> upd_sma a (\<lambda>d. d\<lparr>sma_undo := v\<rparr>) st
              | Unp_Next u \<Rightarrow> upd_un u (\<lambda>x. x\<lparr>id_next := v\<rparr>) st)"

partial_function (option) find_unp :: "saddr \<Rightarrow> uaddr \<Rightarrow> sem_state \<Rightarrow> unp \<Rightarrow> unp option option" where
  "find_unp a u st p =
     (case unp_get a p st of
        None \<Rightarrow> Some None
      | Some un \<Rightarrow> if u = un then Some (Some p) else find_unp a u st (Unp_Next un))"

datatype undo_result = Undo_Next sem_state | Undo_Broken sem_state | Undo_Sleep saddr sem_state

definition undo_adjust :: "saddr \<Rightarrow> uaddr \<Rightarrow> waddr \<Rightarrow> int \<Rightarrow> sem_state \<Rightarrow> undo_result option" where
  "undo_adjust a u w now st =
    (let un = uns st u; n = unat (un_num un)
     in if uint (ip_seq (sem_perm (sds st a))) \<noteq> un_semid un div int SEMMNI then Some (Undo_Next st)
        else do {
          csem \<leftarrow> sem_at a n st;
          if uint (semval csem) + semadj un \<ge> 0
          then do {
            let v = semval csem + word_of_int (semadj un);
            let st = upd_sem a n (\<lambda>c. c\<lparr>semval := v, sempid := pid (cur (sk st))\<rparr>) st;
            let st = upd_sma a (\<lambda>d. d\<lparr>sem_otime := now\<rparr>) st;
            st \<leftarrow> (if semadj un > 0 then wake_if (eventn a) st else Some st);
            st \<leftarrow> (if v = 0 then wake_if (eventz a) st else Some st);
            Some (Undo_Next st) }
          else if signal_pending (cur (sk st)) then Some (Undo_Next st)
          else do {
            let st = upd_sem a n (\<lambda>c. c\<lparr>semncnt := semncnt c + 1\<rparr>) st;
            s \<leftarrow> sleep_on_enter (eventn a) w TASK_INTERRUPTIBLE (sk st);
            Some (Undo_Sleep a (st\<lparr>sk := s\<rparr>)) } })"

definition undo_one :: "uaddr \<Rightarrow> waddr \<Rightarrow> int \<Rightarrow> sem_state \<Rightarrow> undo_result option" where
  "undo_one u w now st =
    (let un = uns st u
     in case semary st (nat (un_semid un mod int SEMMNI)) of
          Sma a \<Rightarrow>
            if uint (ip_seq (sem_perm (sds st a))) \<noteq> un_semid un div int SEMMNI then Some (Undo_Next st)
            else do {
              p \<leftarrow> find_unp a u st Unp_Head;
              case p of
                None \<Rightarrow> Some (Undo_Broken st)
              | Some p \<Rightarrow>
                  let st = unp_set a p (id_next un) st
                  in if semadj un = 0 then Some (Undo_Next st) else undo_adjust a u w now st }
        | _ \<Rightarrow> Some (Undo_Next st))"

definition undo_resume :: "saddr \<Rightarrow> uaddr \<Rightarrow> waddr \<Rightarrow> int \<Rightarrow> sem_state \<Rightarrow> undo_result option" where
  "undo_resume a u w now st =
     do { s \<leftarrow> sleep_on_resume (eventn a) w (sk st);
          let st = upd_sem a (unat (un_num (uns st u))) (\<lambda>c. c\<lparr>semncnt := semncnt c - 1\<rparr>) (st\<lparr>sk := s\<rparr>);
          undo_adjust a u w now st }"

text \<open>\<^verbatim>\<open>sem_exit\<close> takes the structures off the list of the process one by one; \<^verbatim>\<open>Exit_Sleeps\<close> is a sleep while the
  structure \<^verbatim>\<open>u\<close> is handled.\<close>

datatype exit_result = Exit_Done sem_state | Exit_Sleeps saddr uaddr sem_state

definition no_semun :: "sem_state \<Rightarrow> sem_state" where
  "no_semun st = st\<lparr>semun := (semun st)(current (sk st) := None)\<rparr>"

definition pop_semun :: "uaddr \<Rightarrow> sem_state \<Rightarrow> sem_state" where
  "pop_semun u st = st\<lparr>semun := (semun st)(current (sk st) := proc_next (uns st u))\<rparr>"

partial_function (option) sem_exit :: "waddr \<Rightarrow> int \<Rightarrow> sem_state \<Rightarrow> exit_result option" where
  "sem_exit w now st =
     (case semun st (current (sk st)) of
        None \<Rightarrow> Some (Exit_Done (no_semun st))
      | Some u \<Rightarrow> Option.bind (undo_one u w now st)
          (\<lambda>r. case r of
             Undo_Next st \<Rightarrow> sem_exit w now (pop_semun u st)
           | Undo_Broken st \<Rightarrow> Some (Exit_Done (no_semun st))
           | Undo_Sleep a st \<Rightarrow> Some (Exit_Sleeps a u st)))"

end
