(* ===== verification/Object_Table.thy ===== *)
theory Object_Table
  imports Kernel_Prelude
begin

text \<open>
  A table of objects that are made, found by a key and removed.  The interface \<^verbatim>\<open>object_table\<close> states what the operations of such a table
  promise: each has the effect of one event on the map from keys to objects.  It derives that any history of operations acts as its
  events do.  The identifiers of System V IPC and the blocks of \<^verbatim>\<open>kmalloc\<close> are such tables.
\<close>

datatype ('k, 'a) id_event = Id_Made 'k 'a | Id_Gone 'k | Id_Same

fun id_effect :: "('k \<rightharpoonup> 'a) \<Rightarrow> ('k, 'a) id_event \<Rightarrow> ('k \<rightharpoonup> 'a)" where
  "id_effect m (Id_Made k a) = m(k \<mapsto> a)"
| "id_effect m (Id_Gone k) = m(k := None)"
| "id_effect m Id_Same = m"

fun about_id :: "'k \<Rightarrow> ('k, 'a) id_event \<Rightarrow> bool" where
  "about_id k (Id_Made j a) = (j = k)"
| "about_id k (Id_Gone j) = (j = k)"
| "about_id k Id_Same = False"

lemma id_effect_other: "\<not> about_id k e \<Longrightarrow> id_effect m e k = m k"
  by (cases e) auto

lemma id_effects_other: "\<forall>e\<in>set es. \<not> about_id k e \<Longrightarrow> foldl id_effect m es k = m k"
  by (induction es arbitrary: m) (auto simp: id_effect_other)

locale object_table = component table_ok step
  for table_ok :: "'s \<Rightarrow> bool" and step :: "'s \<Rightarrow> ('k, 'a) id_event \<Rightarrow> 's \<Rightarrow> bool" +
  fixes lookup :: "'s \<Rightarrow> 'k \<rightharpoonup> 'a"
  assumes step_lookup: "step s e s' \<Longrightarrow> table_ok s \<Longrightarrow> lookup s' = id_effect (lookup s) e"
begin

lemma run_refines: "history step s es s' \<Longrightarrow> table_ok s \<Longrightarrow> lookup s' = foldl id_effect (lookup s) es"
  by (induction rule: history.induct) (auto dest: step_invar simp: step_lookup)

text \<open>An identifier stays what it is while no event is about it; so a removed one is refused until it is made again.\<close>

lemma run_keeps:
  assumes "history step s es s'" "table_ok s" "\<forall>e\<in>set es. \<not> about_id k e"
  shows "lookup s' k = lookup s k"
  using run_refines [OF assms(1,2)] id_effects_other [OF assms(3)] by metis

end

end
