(* ===== verification/Ipc_Ids.thy ===== *)
theory Ipc_Ids
  imports Object_Table
begin

text \<open>
  The identifiers of System V IPC, shared by the semaphores and the message queues: a table of 128 slots, where an identifier is found in
  the slot it names when the sequence number agrees.  What making and removing a structure do to such a table.
\<close>

section \<open>Tables of slots\<close>

text \<open>The table behind the identifiers: the structure in each of the 128 slots, with its sequence number.  \<^verbatim>\<open>m\<close> is the largest
  slot that may be in use and \<^verbatim>\<open>n\<close> the number of those in use.\<close>

definition slot_view :: "(nat \<Rightarrow> 'a option) \<Rightarrow> ('a \<Rightarrow> u16) \<Rightarrow> int \<Rightarrow> 'a option" where
  "slot_view sl sq k = (case sl (nat (k mod 128)) of None \<Rightarrow> None | Some a \<Rightarrow> if uint (sq a) = k div 128 then Some a else None)"

definition id_slots_ok :: "(nat \<Rightarrow> 'a option) \<Rightarrow> nat \<Rightarrow> int \<Rightarrow> bool" where
  "id_slots_ok sl m n \<longleftrightarrow> m < 128 \<and> (\<forall>i a. sl i = Some a \<longrightarrow> i \<le> m) \<and> inj_on sl (dom sl) \<and> n = int (card (dom sl))"

lemma slots_finite: "id_slots_ok sl m n \<Longrightarrow> finite (dom sl)"
  by (rule finite_subset [of _ "{..m}"]) (auto simp: id_slots_ok_def dom_def)

lemma slots_inj: "id_slots_ok sl m n \<Longrightarrow> sl i = Some a \<Longrightarrow> sl j = Some a \<Longrightarrow> i = j"
  by (auto simp: id_slots_ok_def inj_on_def dom_def)

lemma slot_of_id: "i < 128 \<Longrightarrow> nat ((q * 128 + int i) mod 128) = i \<and> (q * 128 + int i) div 128 = q"
  by (simp add: div_mult_self3 mod_mult_self3)

lemma id_of_slot: "nat (k mod 128) = i \<Longrightarrow> k div 128 = q \<Longrightarrow> k = q * 128 + int i"
  by (metis div_mult_mod_eq int_nat_eq pos_mod_sign zero_less_numeral)

lemma slot_make:
  assumes ok: "id_slots_ok sl m n" and i: "i < 128" "sl i = None" and a: "a \<notin> ran sl" and sq: "\<And>b. b \<noteq> a \<Longrightarrow> sq' b = sq b"
  shows "id_slots_ok (sl(i \<mapsto> a)) (max m i) (n + 1)" "slot_view (sl(i \<mapsto> a)) sq' = (slot_view sl sq)(uint (sq' a) * 128 + int i \<mapsto> a)"
proof -
  have "card (dom (sl(i \<mapsto> a))) = Suc (card (dom sl))" using slots_finite [OF ok] i(2) by (simp add: domIff)
  moreover have "inj_on (sl(i \<mapsto> a)) (dom (sl(i \<mapsto> a)))"
    using ok a by (auto simp: id_slots_ok_def inj_on_def dom_def ran_def split: if_splits)
  ultimately show "id_slots_ok (sl(i \<mapsto> a)) (max m i) (n + 1)" using ok i(1) by (auto simp: id_slots_ok_def intro: max.coboundedI1)
  show "slot_view (sl(i \<mapsto> a)) sq' = (slot_view sl sq)(uint (sq' a) * 128 + int i \<mapsto> a)"
  proof
    fix k
    show "slot_view (sl(i \<mapsto> a)) sq' k = ((slot_view sl sq)(uint (sq' a) * 128 + int i \<mapsto> a)) k"
    proof (cases "nat (k mod 128) = i")
      case True
      have e: "k = uint (sq' a) * 128 + int i \<longleftrightarrow> uint (sq' a) = k div 128"
        using slot_of_id [OF i(1), of "uint (sq' a)"] id_of_slot [OF True, of "uint (sq' a)"] by metis
      show ?thesis using i(2) unfolding slot_view_def fun_upd_apply True e by simp
    next
      case False
      then have "k \<noteq> uint (sq' a) * 128 + int i" using slot_of_id [OF i(1)] by metis
      moreover have "b \<noteq> a" if "sl (nat (k mod 128)) = Some b" for b using that a by (auto simp: ran_def)
      ultimately show ?thesis using False sq by (auto simp: slot_view_def split: option.splits)
    qed
  qed
qed

lemma slot_gone:
  assumes ok: "id_slots_ok sl m n" and i: "i < 128" "sl i = Some a" and sq: "\<And>b. b \<noteq> a \<Longrightarrow> sq' b = sq b"
    and m: "m' \<le> m" "\<And>j b. j \<noteq> i \<Longrightarrow> sl j = Some b \<Longrightarrow> j \<le> m'"
  shows "id_slots_ok (sl(i := None)) m' (n - 1)" "slot_view (sl(i := None)) sq' = (slot_view sl sq)(uint (sq a) * 128 + int i := None)"
proof -
  have "i \<in> dom sl" "finite (dom sl)" using i slots_finite [OF ok] by auto
  then have "int (card (dom sl - {i})) = int (card (dom sl)) - 1"
    using card_gt_0_iff [of "dom sl"] by (auto simp: card_Diff_singleton of_nat_diff)
  moreover have "inj_on (sl(i := None)) (dom sl - {i})" using ok by (auto simp: id_slots_ok_def inj_on_def)
  ultimately show "id_slots_ok (sl(i := None)) m' (n - 1)" using ok m by (auto simp: id_slots_ok_def)
  show "slot_view (sl(i := None)) sq' = (slot_view sl sq)(uint (sq a) * 128 + int i := None)"
  proof
    fix k
    show "slot_view (sl(i := None)) sq' k = ((slot_view sl sq)(uint (sq a) * 128 + int i := None)) k"
    proof (cases "nat (k mod 128) = i")
      case True
      then show ?thesis using i id_of_slot [of k i "uint (sq a)"] by (auto simp: slot_view_def)
    next
      case False
      then have "k \<noteq> uint (sq a) * 128 + int i" using slot_of_id [OF i(1)] by metis
      moreover have "b \<noteq> a" if "sl (nat (k mod 128)) = Some b" for b using slots_inj [OF ok that] i(2) False by auto
      ultimately show ?thesis using False sq by (auto simp: slot_view_def split: option.splits)
    qed
  qed
qed

end
