(* ===== verification/Ipc_Sem_Laws.thy ===== *)
theory Ipc_Sem_Laws
  imports Ipc_Sem Ipc_Ids
begin

text \<open>
  Lemmas about \<^verbatim>\<open>ipc/sem.c\<close>: the invariant of the table of semaphore sets and its preservation by every call, so that
  the identifiers refine a map (an interpretation of \<^verbatim>\<open>object_table\<close>); the effect of \<^verbatim>\<open>semop\<close> on the values; and the undo
  of a process that exits.
\<close>

section \<open>What the calls on an existing set leave alone\<close>

definition tbl :: "sem_state \<Rightarrow> (nat \<Rightarrow> sem_slot) \<times> nat \<times> int \<times> u16 \<times> (saddr \<Rightarrow> u16 \<times> nat \<times> u16)" where
  "tbl st = (semary st, max_semid st, used_semids st, sem_seq st,
     \<lambda>a. (ip_seq (sem_perm (sds st a)), length (sem_base (sds st a)), sem_nsems (sds st a)))"

lemma tbl_fields:
  assumes "tbl st' = tbl st"
  shows "semary st' = semary st" "max_semid st' = max_semid st" "used_semids st' = used_semids st" "sem_seq st' = sem_seq st"
    "ip_seq (sem_perm (sds st' a)) = ip_seq (sem_perm (sds st a))"
    "length (sem_base (sds st' a)) = length (sem_base (sds st a))" "sem_nsems (sds st' a) = sem_nsems (sds st a)"
  using assms by (auto simp: tbl_def fun_eq_iff)

lemma tbl_updates [simp]:
  "tbl (st\<lparr>sk := s\<rparr>) = tbl st" "tbl (st\<lparr>uns := u\<rparr>) = tbl st" "tbl (st\<lparr>semun := p\<rparr>) = tbl st"
  "tbl (sem_mem f st) = tbl st" "tbl (upd_un x g st) = tbl st"
  by (simp_all add: tbl_def sem_mem_def upd_un_def)

lemma tbl_upd_sma:
  assumes "\<And>d. ip_seq (sem_perm (f d)) = ip_seq (sem_perm d)" "\<And>d. length (sem_base (f d)) = length (sem_base d)"
    "\<And>d. sem_nsems (f d) = sem_nsems d"
  shows "tbl (upd_sma a f st) = tbl st"
  using assms by (auto simp: tbl_def upd_sma_def)

lemma tbl_upd_sem [simp]: "tbl (upd_sem a n f st) = tbl st"
  by (simp add: upd_sem_def tbl_upd_sma)

lemma tbl_times [simp]:
  "tbl (upd_sma a (\<lambda>d. d\<lparr>sem_otime := now\<rparr>) st) = tbl st" "tbl (upd_sma a (\<lambda>d. d\<lparr>sem_ctime := now\<rparr>) st) = tbl st"
  "tbl (upd_sma a (\<lambda>d. d\<lparr>sma_undo := u\<rparr>) st) = tbl st"
  by (rule tbl_upd_sma; simp)+

lemma wake_if_Some: "wake_if q st = Some st' \<Longrightarrow> \<exists>s. st' = st\<lparr>sk := s\<rparr>"
  by (auto simp: wake_if_def split: if_splits bind_splits intro: exI [of _ "sk st"])

lemma tbl_wake: "wake_if q st = Some st' \<Longrightarrow> tbl st' = tbl st"
  using wake_if_Some by fastforce

lemma tbl_clear_undo: "clear_undo sel a st = Some st' \<Longrightarrow> tbl st' = tbl st"
proof -
  have "tbl (foldl (\<lambda>st u. if sel (uns st u) then upd_un u g st else st) st us) = tbl st" for g us
    by (induction us rule: rev_induct) simp_all
  then show "clear_undo sel a st = Some st' \<Longrightarrow> tbl st' = tbl st"
    by (auto simp: clear_undo_def split: bind_splits)
qed

lemma tbl_apply: "apply_sop k a sop zst = Some zst' \<Longrightarrow> tbl (snd zst') = tbl (snd zst)"
  by (auto simp: apply_sop_def Let_def split: if_splits bind_splits option.splits prod.splits)

lemma tbl_applies: "apply_sops k a sops zst = Some zst' \<Longrightarrow> tbl (snd zst') = tbl (snd zst)"
  by (induction sops arbitrary: zst) (auto split: bind_splits dest: tbl_apply)

lemma tbl_link [simp]: "tbl (link_undo k a n u st) = tbl st"
  by (simp add: link_undo_def Let_def)

lemma tbl_add_undos: "add_undos k a fresh sops st = Some (b, st') \<Longrightarrow> tbl st' = tbl st"
  by (induction k a fresh sops st rule: add_undos.induct) (auto split: if_splits bind_splits list.splits)

fun result_state :: "sem_result \<Rightarrow> sem_state" where
  "result_state (Sem_Ret r st) = st"
| "result_state (Sem_Sleep q st) = st"
| "result_state (Sem_Yield a st) = st"

lemma tbl_sleep: "sem_sleep q w st = Some r \<Longrightarrow> tbl (result_state r) = tbl st"
  by (auto simp: sem_sleep_def split: bind_splits)

lemma tbl_round: "semop_round k a sops w now st = Some r \<Longrightarrow> tbl (result_state r) = tbl st"
  unfolding semop_round_def
  by (auto split: if_splits bind_splits sem_check.splits prod.splits dest!: tbl_sleep tbl_wake tbl_applies simp: Let_def)

lemma tbl_semop: "sys_semop k p n fresh w now st = Some r \<Longrightarrow> tbl (result_state r) = tbl st"
  unfolding sys_semop_def Let_def
  by (auto split: if_splits bind_splits sem_slot.splits prod.splits dest!: tbl_add_undos tbl_round)

lemma tbl_resume: "semop_resume z n k a sops w now st = Some r \<Longrightarrow> tbl (result_state r) = tbl st"
  unfolding semop_resume_def Let_def by (auto split: bind_splits dest!: tbl_round)

lemma tbl_setall: "length io = length (sem_base (sds st a)) \<Longrightarrow> semctl_setall io now a st = Some st' \<Longrightarrow> tbl st' = tbl st"
  unfolding semctl_setall_def wake_both_def Let_def
  by (auto split: bind_splits dest!: tbl_wake tbl_clear_undo simp: tbl_def upd_sma_def fun_eq_iff)

lemma tbl_unp_set [simp]: "tbl (unp_set a p v st) = tbl st"
  by (simp add: unp_set_def split: unp.split)

fun undo_state :: "undo_result \<Rightarrow> sem_state" where
  "undo_state (Undo_Next st) = st"
| "undo_state (Undo_Broken st) = st"
| "undo_state (Undo_Sleep a st) = st"

lemma tbl_adjust: "undo_adjust a u w now st = Some r \<Longrightarrow> tbl (undo_state r) = tbl st"
  unfolding undo_adjust_def Let_def
  by (auto split: if_splits bind_splits dest!: tbl_wake)

lemma tbl_undo_one: "undo_one u w now st = Some r \<Longrightarrow> tbl (undo_state r) = tbl st"
  unfolding undo_one_def Let_def
  by (auto split: if_splits bind_splits sem_slot.splits option.splits dest!: tbl_adjust)

fun exit_state :: "exit_result \<Rightarrow> sem_state" where
  "exit_state (Exit_Done st) = st"
| "exit_state (Exit_Sleeps a u st) = st"

lemma tbl_semun [simp]: "tbl (no_semun st) = tbl st" "tbl (pop_semun u st) = tbl st"
  by (simp_all add: no_semun_def pop_semun_def)

lemma tbl_exit: "sem_exit w now st = Some r \<Longrightarrow> tbl (exit_state r) = tbl st"
proof (rule sem_exit.raw_induct [of "\<lambda>w now st r. tbl (exit_state r) = tbl st"])
  fix self :: "waddr \<Rightarrow> int \<Rightarrow> sem_state \<Rightarrow> exit_result option" and w now st r
  assume "\<And>w now st r. self w now st = Some r \<Longrightarrow> tbl (exit_state r) = tbl st"
  moreover assume "(case semun st (current (sk st)) of None \<Rightarrow> Some (Exit_Done (no_semun st))
    | Some u \<Rightarrow> Option.bind (undo_one u w now st)
        (\<lambda>r. case r of Undo_Next st \<Rightarrow> self w now (pop_semun u st)
           | Undo_Broken st \<Rightarrow> Some (Exit_Done (no_semun st))
           | Undo_Sleep a st \<Rightarrow> Some (Exit_Sleeps a u st))) = Some r"
  ultimately show "tbl (exit_state r) = tbl st"
    by (auto split: option.splits bind_splits undo_result.splits dest!: tbl_undo_one)
qed

section \<open>The table of sets\<close>

definition is_set :: "sem_state \<Rightarrow> nat \<Rightarrow> saddr \<Rightarrow> bool" where
  "is_set st i a \<longleftrightarrow> i < SEMMNI \<and> semary st i = Sma a"

text \<open>Every set lies at or below \<^verbatim>\<open>max_semid\<close>, no two slots share a structure, its array has the declared length, between
  1 and \<^verbatim>\<open>SEMMSL\<close>, and \<^verbatim>\<open>used_semids\<close> counts the sets.\<close>

definition semtab_ok :: "sem_state \<Rightarrow> bool" where
  "semtab_ok st \<longleftrightarrow> max_semid st < SEMMNI
     \<and> (\<forall>i a. is_set st i a \<longrightarrow> i \<le> max_semid st \<and> length (sem_base (sds st a)) = unat (sem_nsems (sds st a))
           \<and> 1 \<le> unat (sem_nsems (sds st a)) \<and> int (unat (sem_nsems (sds st a))) \<le> SEMMSL)
     \<and> (\<forall>i j a. is_set st i a \<longrightarrow> is_set st j a \<longrightarrow> i = j)
     \<and> used_semids st = int (card {i. \<exists>a. is_set st i a})"

definition sem_view :: "sem_state \<Rightarrow> int \<rightharpoonup> saddr" where
  "sem_view st k = (case sem_lookup k st of Inl e \<Rightarrow> None | Inr (i, a) \<Rightarrow> Some a)"

lemma id_split: "i < 128 \<Longrightarrow> (q * 128 + int i) mod 128 = int i \<and> (q * 128 + int i) div 128 = q"
  by (simp add: div_mult_self3 mod_mult_self3)

lemma sem_view_iff:
  "sem_view st k = Some a \<longleftrightarrow> (\<exists>i. is_set st i a \<and> k = uint (ip_seq (sem_perm (sds st a))) * 128 + int i)"
proof
  assume v: "sem_view st k = Some a"
  let ?i = "nat (k mod 128)"
  have "semary st ?i = Sma a" "uint (ip_seq (sem_perm (sds st a))) = k div 128"
    using v by (simp_all add: sem_view_def sem_lookup_def Let_def split: sem_slot.split_asm if_split_asm)
  moreover have "?i < 128" "int ?i = k mod 128" by simp_all
  ultimately have "is_set st ?i a \<and> k = uint (ip_seq (sem_perm (sds st a))) * 128 + int ?i"
    by (simp only: is_set_def div_mult_mod_eq simp_thms)
  then show "\<exists>i. is_set st i a \<and> k = uint (ip_seq (sem_perm (sds st a))) * 128 + int i" by blast
next
  assume "\<exists>i. is_set st i a \<and> k = uint (ip_seq (sem_perm (sds st a))) * 128 + int i"
  then obtain i where i: "i < 128" "semary st i = Sma a" and k: "k = uint (ip_seq (sem_perm (sds st a))) * 128 + int i"
    by (auto simp: is_set_def)
  then have "nat (k mod 128) = i" "k div 128 = uint (ip_seq (sem_perm (sds st a)))"
    using id_split [of i "uint (ip_seq (sem_perm (sds st a)))"] by simp_all
  then show "sem_view st k = Some a" using i by (simp add: sem_view_def sem_lookup_def)
qed

lemma is_set_tbl: "tbl st' = tbl st \<Longrightarrow> is_set st' = is_set st"
  using tbl_fields(1) [of st' st] by (simp add: is_set_def fun_eq_iff)

lemma semtab_ok_tbl: "tbl st' = tbl st \<Longrightarrow> semtab_ok st' = semtab_ok st"
  unfolding semtab_ok_def using tbl_fields [of st' st] is_set_tbl [of st' st] by presburger

lemma sem_lookup_tbl: "tbl st' = tbl st \<Longrightarrow> sem_lookup k st' = sem_lookup k st"
  unfolding sem_lookup_def using tbl_fields(1,5) [of st' st] by presburger

lemma sem_view_tbl: "tbl st' = tbl st \<Longrightarrow> sem_view st' = sem_view st"
  unfolding sem_view_def fun_eq_iff using sem_lookup_tbl [of st' st] by presburger

lemma map_eqI: "(\<And>k v. m k = Some v \<longleftrightarrow> n k = Some v) \<Longrightarrow> m = n"
  by (metis ext not_None_eq)

definition set_slots :: "sem_state \<Rightarrow> nat set" where
  "set_slots st = {i. \<exists>a. is_set st i a}"

lemma finite_set_slots [simp]: "finite (set_slots st)"
  by (rule finite_subset [of _ "{..<128}"]) (auto simp: set_slots_def is_set_def)

lemma is_set_unique: "is_set st i a \<Longrightarrow> is_set st i b \<Longrightarrow> a = b"
  by (simp add: is_set_def)

lemma lookup_is_set: "sem_lookup k st = Inr (i, a) \<Longrightarrow> is_set st i a \<and> k = uint (ip_seq (sem_perm (sds st a))) * 128 + int i"
proof -
  assume l: "sem_lookup k st = Inr (i, a)"
  then have i: "i = nat (k mod 128)" "semary st i = Sma a"
    by (simp_all add: sem_lookup_def Let_def split: sem_slot.split_asm if_split_asm)
  have "sem_view st k = Some a" using l by (simp add: sem_view_def)
  then obtain j where j: "is_set st j a" "k = uint (ip_seq (sem_perm (sds st a))) * 128 + int j"
    by (auto simp: sem_view_iff)
  then have "j = i" using i id_split [of j "uint (ip_seq (sem_perm (sds st a)))"] by (simp add: is_set_def)
  with j show ?thesis by simp
qed

lemma newary_reserve_effect:
  assumes "newary_reserve nsems st = Inr (i, st')"
  shows "i < SEMMNI" "semary st' i = IPC_NOID" "is_set st' = is_set st" "semtab_ok st' = semtab_ok st" "sem_view st' = sem_view st"
proof -
  have i: "first_unused st = Some i" and st': "st' = st\<lparr>semary := (semary st)(i := IPC_NOID), used_sems := used_sems st + nsems\<rparr>"
    using assms by (auto simp: newary_reserve_def split: if_splits option.splits)
  have u: "i < 128" "semary st i = IPC_UNUSED" using i by (auto simp: first_unused_def find_Some_iff)
  then show "i < SEMMNI" "semary st' i = IPC_NOID" using st' by simp_all
  show is_set: "is_set st' = is_set st" using u st' by (auto simp: is_set_def fun_eq_iff)
  show "semtab_ok st' = semtab_ok st" unfolding semtab_ok_def is_set by (simp add: st')
  show "sem_view st' = sem_view st" by (rule map_eqI) (simp only: sem_view_iff is_set, simp add: st')
qed

text \<open>A structure is put into a slot that has none, or taken out of its slot.\<close>

lemma table_insert:
  assumes ok: "semtab_ok st" and i: "i < SEMMNI" "\<not> (\<exists>b. is_set st i b)" and a: "\<not> (\<exists>j. is_set st j a)"
    and sets: "\<And>j b. is_set st' j b \<longleftrightarrow> (if j = i then b = a else is_set st j b)"
    and max: "max_semid st' = max (max_semid st) i" and used: "used_semids st' = used_semids st + 1"
    and sds: "\<And>b. b \<noteq> a \<Longrightarrow> sds st' b = sds st b"
    and new: "length (sem_base (sds st' a)) = unat (sem_nsems (sds st' a))"
      "1 \<le> unat (sem_nsems (sds st' a))" "int (unat (sem_nsems (sds st' a))) \<le> SEMMSL"
  shows "semtab_ok st'" "sem_view st' = (sem_view st)(uint (ip_seq (sem_perm (sds st' a))) * 128 + int i \<mapsto> a)"
proof -
  have "set_slots st' = insert i (set_slots st)" "i \<notin> set_slots st" using i(2) by (auto simp: set_slots_def sets)
  then have "card (set_slots st') = Suc (card (set_slots st))" by simp
  moreover have "j \<le> max_semid st'" if "is_set st' j b" for j b
    using that ok max by (cases "j = i") (auto simp: sets semtab_ok_def intro: max.coboundedI1)
  moreover have "max_semid st' < 128" using ok i(1) max by (simp add: semtab_ok_def)
  moreover have "j = m" if "is_set st' j b" "is_set st' m b" for j m b
    using that ok a by (auto simp: sets semtab_ok_def split: if_splits)
  moreover have "length (sem_base (sds st' b)) = unat (sem_nsems (sds st' b)) \<and> 1 \<le> unat (sem_nsems (sds st' b))
      \<and> int (unat (sem_nsems (sds st' b))) \<le> SEMMSL" if "is_set st' j b" for j b
    using that ok a new sds [of b] by (cases "b = a") (auto simp: sets semtab_ok_def split: if_splits)
  ultimately show "semtab_ok st'"
    using ok used by (auto simp: semtab_ok_def set_slots_def)
  show "sem_view st' = (sem_view st)(uint (ip_seq (sem_perm (sds st' a))) * 128 + int i \<mapsto> a)"
  proof (rule map_eqI)
    fix k b
    let ?k = "uint (ip_seq (sem_perm (sds st' a))) * 128 + int i"
    have none: "sem_view st ?k = None"
    proof (rule ccontr)
      assume "sem_view st ?k \<noteq> None"
      then obtain c j where "is_set st j c" "?k = uint (ip_seq (sem_perm (sds st c))) * 128 + int j"
        by (auto simp: sem_view_iff)
      then have "j = i"
        using i(1) id_split [of i] id_split [of j] by (metis is_set_def of_nat_eq_iff)
      then show False using i(2) \<open>is_set st j c\<close> by blast
    qed
    show "sem_view st' k = Some b \<longleftrightarrow> ((sem_view st)(?k \<mapsto> a)) k = Some b"
    proof (cases "b = a")
      case True
      then show ?thesis using a none by (auto simp: sem_view_iff sets split: if_splits)
    next
      case False
      then have "is_set st' j b = is_set st j b" for j using i(2) by (auto simp: sets)
      then have "sem_view st' k = Some b \<longleftrightarrow> sem_view st k = Some b" by (simp add: sem_view_iff sds [OF False])
      then show ?thesis using none False by auto
    qed
  qed
qed

lemma shrink_max_covers: "j < m \<Longrightarrow> ary j \<noteq> IPC_UNUSED \<Longrightarrow> j \<le> shrink_max ary m \<and> shrink_max ary m < m"
  by (induction ary m rule: shrink_max.induct) (auto simp: less_Suc_eq)

lemma shrink_max_le: "shrink_max ary m \<le> m"
  by (induction ary m rule: shrink_max.induct) auto

lemma table_delete:
  assumes ok: "semtab_ok st" and i: "is_set st i a"
    and sets: "\<And>j b. is_set st' j b \<longleftrightarrow> j \<noteq> i \<and> is_set st j b"
    and max: "max_semid st' = (if i = max_semid st then shrink_max (semary st) (max_semid st) else max_semid st)"
    and used: "used_semids st' = used_semids st - 1"
    and sds: "\<And>b. b \<noteq> a \<Longrightarrow> sds st' b = sds st b"
  shows "semtab_ok st'" "sem_view st' = (sem_view st)(uint (ip_seq (sem_perm (sds st a))) * 128 + int i := None)"
proof -
  have na: "b \<noteq> a" if "is_set st' j b" for j b using that i ok by (auto simp: sets semtab_ok_def)
  have "set_slots st' = set_slots st - {i}" "i \<in> set_slots st" using i by (auto simp: set_slots_def sets)
  then have "card (set_slots st) = Suc (card (set_slots st'))"
    using card.remove [OF finite_set_slots, of i st] by simp
  moreover have "j \<le> max_semid st'" if j: "is_set st' j b" for j b
  proof -
    have s: "j \<noteq> i" "is_set st j b" using j by (auto simp: sets)
    then have "j \<le> max_semid st" "semary st j \<noteq> IPC_UNUSED" using ok by (auto simp: semtab_ok_def) (simp add: is_set_def)
    then show ?thesis using s(1) max shrink_max_covers [of j "max_semid st" "semary st"] by auto
  qed
  moreover have "max_semid st' < 128"
    using ok max shrink_max_le [of "semary st" "max_semid st"] by (auto simp: semtab_ok_def)
  moreover have "j = m" if "is_set st' j b" "is_set st' m b" for j m b
    using that ok by (auto simp: sets semtab_ok_def)
  moreover have "length (sem_base (sds st' b)) = unat (sem_nsems (sds st' b)) \<and> 1 \<le> unat (sem_nsems (sds st' b))
      \<and> int (unat (sem_nsems (sds st' b))) \<le> SEMMSL" if "is_set st' j b" for j b
    using that ok sds [OF na [OF that]] by (auto simp: sets semtab_ok_def)
  ultimately show "semtab_ok st'"
    using ok used by (auto simp: semtab_ok_def set_slots_def)
  show "sem_view st' = (sem_view st)(uint (ip_seq (sem_perm (sds st a))) * 128 + int i := None)"
  proof (rule map_eqI)
    fix k b
    let ?k = "uint (ip_seq (sem_perm (sds st a))) * 128 + int i"
    have k: "sem_view st ?k = Some a" using i by (auto simp: sem_view_iff)
    show "sem_view st' k = Some b \<longleftrightarrow> ((sem_view st)(?k := None)) k = Some b"
    proof (cases "b = a")
      case True
      then have "sem_view st' k \<noteq> Some b" using na by (auto simp: sem_view_iff)
      moreover have "sem_view st k = Some a \<Longrightarrow> k = ?k"
        using i ok by (auto simp: sem_view_iff semtab_ok_def)
      ultimately show ?thesis using True by auto
    next
      case False
      then have "is_set st' j b = is_set st j b" for j using is_set_unique [OF i] by (auto simp: sets)
      then have "sem_view st' k = Some b \<longleftrightarrow> sem_view st k = Some b" by (simp add: sem_view_iff sds [OF False])
      then show ?thesis using k False by auto
    qed
  qed
qed

lemma newary_install_effect:
  assumes ok: "semtab_ok st" and i: "i < SEMMNI" "semary st i = IPC_NOID" and a: "\<not> (\<exists>j. is_set st j a)"
    and n: "1 \<le> nsems" "nsems \<le> SEMMSL" and r: "newary_install key nsems semflg now (Some a) i st = Some (k, st')"
  shows "semtab_ok st'" "sem_view st' = (sem_view st)(k \<mapsto> a)" "k = uint (sem_seq st) * 128 + int i"
    "sds st' a = fresh_sma key nsems semflg now st"
proof -
  let ?d = "fresh_sma key nsems semflg now st"
  have st': "sds st' = (sds st)(a := ?d)" "max_semid st' = max (max_semid st) i" "used_semids st' = used_semids st + 1"
      "semary st' = (semary st)(i := Sma a)"
    and k: "k = uint (sem_seq st) * 128 + int i"
    using r by (auto simp: newary_install_def Let_def max_def split: bind_splits if_splits dest!: wake_if_Some)
  show "k = uint (sem_seq st) * 128 + int i" by (rule k)
  show "sds st' a = ?d" by (simp add: st')
  have "uint (word_of_int nsems :: u16) = nsems" using n by (simp add: uint_word_of_int)
  then have "unat (sem_nsems ?d) = nat nsems" by (simp add: fresh_sma_def Let_def unat_eq_nat_uint)
  moreover have "length (sem_base ?d) = nat nsems" "ip_seq (sem_perm ?d) = sem_seq st"
    by (simp_all add: fresh_sma_def Let_def)
  moreover have "\<not> (\<exists>b. is_set st i b)" using i by (simp add: is_set_def)
  moreover have "is_set st' j b \<longleftrightarrow> (if j = i then b = a else is_set st j b)" for j b
    using i by (auto simp: st' is_set_def)
  ultimately show "semtab_ok st'" "sem_view st' = (sem_view st)(k \<mapsto> a)"
    using table_insert [OF ok i(1) _ a, of st'] n by (simp_all add: k st' nat_le_eq_zle)
qed

lemma freeary_effect:
  assumes ok: "semtab_ok st" and l: "sem_lookup k st = Inr (i, a)" and r: "freeary i a st = Some (b, st')"
  shows "semtab_ok st'" "sem_view st' = (sem_view st)(k := None)"
proof -
  let ?m = "if i = max_semid st then shrink_max (semary st) (max_semid st) else max_semid st"
  let ?f = "\<lambda>d. d\<lparr>sem_perm := (sem_perm d)\<lparr>ip_seq := ip_seq (sem_perm d) + 1\<rparr>\<rparr>"
  let ?u = "(upd_sma a ?f st)\<lparr>sem_seq := sem_seq st + 1, used_sems := used_sems st - uint (sem_nsems (sds st a)),
      max_semid := ?m, semary := (semary st)(i := IPC_UNUSED), used_semids := used_semids st - 1\<rparr>"
  obtain st1 where 1: "clear_undo (\<lambda>_. True) a ?u = Some st1" "freeary_round a st1 = Some (b, st')"
    using r by (auto simp: freeary_def freeary_unlink_def Let_def upd_sma_def split: bind_splits if_splits)
  have "tbl st' = tbl st1" using 1(2) by (auto simp: freeary_round_def split: if_splits bind_splits dest!: tbl_wake)
  then have t: "tbl st' = tbl ?u" using tbl_clear_undo [OF 1(1)] by simp
  have i: "is_set st i a" and k: "k = uint (ip_seq (sem_perm (sds st a))) * 128 + int i" using lookup_is_set [OF l] by auto
  have "is_set ?u j b \<longleftrightarrow> j \<noteq> i \<and> is_set st j b" for j b by (simp add: is_set_def)
  note d = table_delete [OF ok i, of ?u, OF this]
  have "semtab_ok ?u" by (rule d(1)) (simp_all add: upd_sma_def)
  moreover have "sem_view ?u = (sem_view st)(k := None)" unfolding k by (rule d(2)) (simp_all add: upd_sma_def)
  ultimately show "semtab_ok st'" "sem_view st' = (sem_view st)(k := None)"
    using semtab_ok_tbl [OF t] sem_view_tbl [OF t] by simp_all
qed

lemma length_user_words [simp]: "length (user_words m p n) = n"
  by (induction n arbitrary: p) auto

lemma tbl_commit:
  assumes "semctl_commit ptrs cmd n i a lc now st = Some (r, st')" "cmd = SETALL \<Longrightarrow> length (lc_io lc) = length (sem_base (sds st a))"
  shows "tbl st' = tbl st"
proof (cases "cmd = SETALL")
  case True
  then show ?thesis
    using assms by (auto simp: semctl_commit_def Let_def split: if_splits bind_splits dest!: tbl_setall)
next
  case False
  then show ?thesis
    using assms(1)
    by (auto simp: semctl_commit_def semctl_setval_def wake_both_def Let_def tbl_upd_sma split: if_splits bind_splits
        dest!: tbl_wake tbl_clear_undo)
qed

lemma semctl_prepare_setall: "semctl_prepare SETALL arg d c s = Inr lc \<Longrightarrow> length (lc_io lc) = unat (sem_nsems d)"
  by (auto simp: semctl_prepare_def Let_def no_locals_def split: if_splits)

lemma tbl_semctl:
  assumes ok: "semtab_ok st" and r: "sys_semctl ptrs k n cmd arg now st = Some r" and c: "cmd \<noteq> IPC_RMID"
  shows "tbl (result_state r) = tbl st"
proof (cases "k < 0 \<or> n < 0 \<or> cmd < 0 \<or> cmd = IPC_INFO \<or> cmd = SEM_INFO \<or> cmd = SEM_STAT")
  case True
  then show ?thesis
    using r by (auto simp: sys_semctl_def sem_ret_def semctl_info_def semctl_stat_def Let_def split: if_splits sem_slot.splits)
next
  case False
  show ?thesis
  proof (cases "sem_lookup k st")
    case (Inl e)
    then show ?thesis using r False by (auto simp: sys_semctl_def split: if_splits)
  next
    case (Inr ia)
    then obtain i a where l: "sem_lookup k st = Inr (i, a)" by (cases ia) auto
    have len: "length (sem_base (sds st a)) = unat (sem_nsems (sds st a))"
      using lookup_is_set [OF l] ok by (auto simp: semtab_ok_def)
    show ?thesis
      using r False c
      by (auto simp: sys_semctl_def l sem_ret_def Let_def len split: if_splits bind_splits sum.splits
          dest!: tbl_commit semctl_prepare_setall)
  qed
qed

section \<open>Any history of calls\<close>

text \<open>One step of any process: creating a set in the two halves around \<^verbatim>\<open>kmalloc\<close> (which may sleep, so that others run
  between them), removing one, operating on one, and leaving.  \<^verbatim>\<open>kmalloc\<close> never returns a structure in use.\<close>

inductive sem_step :: "sem_state \<Rightarrow> (int, saddr) id_event \<Rightarrow> sem_state \<Rightarrow> bool" where
  reserve: "newary_reserve nsems st = Inr (i, st') \<Longrightarrow> sem_step st Id_Same st'"
| install: "i < SEMMNI \<Longrightarrow> semary st i = IPC_NOID \<Longrightarrow> \<not> (\<exists>j. is_set st j a) \<Longrightarrow> 1 \<le> nsems \<Longrightarrow> nsems \<le> SEMMSL \<Longrightarrow>
    newary_install key nsems semflg now (Some a) i st = Some (k, st') \<Longrightarrow> sem_step st (Id_Made k a) st'"
| no_memory: "semary st i = IPC_NOID \<Longrightarrow> newary_install key nsems semflg now None i st = Some (k, st') \<Longrightarrow> sem_step st Id_Same st'"
| remove: "sem_lookup k st = Inr (i, a) \<Longrightarrow> freeary i a st = Some (b, st') \<Longrightarrow> sem_step st (Id_Gone k) st'"
| removing: "freeary_round a st = Some (b, st') \<Longrightarrow> sem_step st Id_Same st'"
| semctl: "cmd \<noteq> IPC_RMID \<Longrightarrow> sys_semctl ptrs k n cmd arg now st = Some r \<Longrightarrow> sem_step st Id_Same (result_state r)"
| semop: "sys_semop k p n fresh w now st = Some r \<Longrightarrow> sem_step st Id_Same (result_state r)"
| resume: "semop_resume z n k a sops w now st = Some r \<Longrightarrow> sem_step st Id_Same (result_state r)"
| leave: "sem_exit w now st = Some r \<Longrightarrow> sem_step st Id_Same (exit_state r)"
| other: "sem_step st Id_Same (st\<lparr>sk := s\<rparr>)"

lemma no_memory_effect:
  assumes "semary st i = IPC_NOID" "newary_install key nsems semflg now None i st = Some (k, st')"
  shows "semtab_ok st' = semtab_ok st" "sem_view st' = sem_view st"
proof -
  have st': "sds st' = sds st" "max_semid st' = max_semid st" "used_semids st' = used_semids st"
      "semary st' = (semary st)(i := IPC_UNUSED)"
    using assms(2) by (auto simp: newary_install_def split: bind_splits dest!: wake_if_Some)
  have s: "is_set st' = is_set st" using assms(1) by (auto simp: is_set_def st' fun_eq_iff)
  show "semtab_ok st' = semtab_ok st" unfolding semtab_ok_def s st' ..
  show "sem_view st' = sem_view st" by (rule map_eqI) (simp only: sem_view_iff s st')
qed

lemma tbl_same: "tbl st' = tbl st \<Longrightarrow> semtab_ok st \<Longrightarrow> semtab_ok st' \<and> sem_view st' = id_effect (sem_view st) Id_Same"
  using semtab_ok_tbl [of st' st] sem_view_tbl [of st' st] by simp

lemma sem_step_effect: "sem_step st e st' \<Longrightarrow> semtab_ok st \<Longrightarrow> semtab_ok st' \<and> sem_view st' = id_effect (sem_view st) e"
proof (induction rule: sem_step.induct)
  case (reserve nsems st i st')
  then show ?case using newary_reserve_effect(4,5) [OF reserve(1)] by simp
next
  case (install i st a nsems key semflg now k st')
  show ?case using newary_install_effect(1,2) [OF install(7) install(1-6)] by simp
next
  case (no_memory st i key nsems semflg now k st')
  then show ?case using no_memory_effect [OF no_memory(1,2)] by simp
next
  case (remove k st i a b st')
  show ?case using freeary_effect [OF remove(3,1,2)] by simp
next
  case (removing a st b st')
  then have "tbl st' = tbl st" by (auto simp: freeary_round_def split: if_splits bind_splits dest!: tbl_wake)
  then show ?case using removing(2) by (rule tbl_same)
next
  case (semctl cmd ptrs k n arg now st r)
  show ?case using tbl_semctl [OF semctl(3,2,1)] semctl(3) by (rule tbl_same)
next
  case (semop k p n fresh w now st r)
  show ?case using tbl_semop [OF semop(1)] semop(2) by (rule tbl_same)
next
  case (resume z n k a sops w now st r)
  show ?case using tbl_resume [OF resume(1)] resume(2) by (rule tbl_same)
next
  case (leave w now st r)
  show ?case using tbl_exit [OF leave(1)] leave(2) by (rule tbl_same)
next
  case (other st s)
  show ?case using tbl_updates(1) other by (rule tbl_same)
qed

interpretation sem_ids: object_table semtab_ok sem_step sem_view
proof
  fix st st' e
  assume s: "sem_step st e st'" "semtab_ok st"
  show "semtab_ok st'" using sem_step_effect [OF s] by blast
  show "sem_view st' = id_effect (sem_view st) e" using sem_step_effect [OF s] by blast
qed

section \<open>The effect of semop\<close>

lemma wake_if_ring:
  assumes "wq_ring (sk st) q ws"
  shows "\<exists>s. wake_if q st = Some (st\<lparr>sk := s\<rparr>) \<and> same_links (sk st) s \<and> (\<forall>p vs. wq_ring s p vs = wq_ring (sk st) p vs)"
proof (cases "wqh (sk st) q")
  case None
  then show ?thesis by (intro exI [of _ "sk st"]) (simp add: wake_if_def)
next
  case (Some h)
  let ?s = "foldl (wake_entry {TASK_UNINTERRUPTIBLE, TASK_INTERRUPTIBLE}) (sk st) ws"
  have "wqe ?s = wqe (sk st) \<and> wqh ?s = wqh (sk st)" by (induction ws rule: rev_induct) simp_all
  then have "\<forall>p vs. wq_ring ?s p vs = wq_ring (sk st) p vs" by (simp add: wq_ring_def)
  moreover have "wake_if q st = Some (st\<lparr>sk := ?s\<rparr>)" using Some wake_up_ring [OF assms] by (simp add: wake_if_def)
  ultimately show ?thesis using wake.fold_links by blast
qed

text \<open>The value of a semaphore, and what the operations of a call ask of it.\<close>

definition sem_value :: "sem_state \<Rightarrow> saddr \<Rightarrow> nat \<Rightarrow> int" where
  "sem_value st a n = uint (semval (sem_base (sds st a) ! n))"

definition enabled :: "sem_state \<Rightarrow> saddr \<Rightarrow> sembuf \<Rightarrow> bool" where
  "enabled st a sop \<longleftrightarrow>
    (let v = sem_value st a (unat (sem_num sop))
     in 0 \<le> v + sem_op sop \<and> v + sem_op sop \<le> SEMVMX \<and> (sem_op sop = 0 \<longrightarrow> v = 0))"

definition sop_delta :: "sembuf list \<Rightarrow> nat \<Rightarrow> int" where
  "sop_delta sops n = sum_list (map (\<lambda>sop. if unat (sem_num sop) = n then sem_op sop else 0) sops)"

definition in_range :: "sem_state \<Rightarrow> saddr \<Rightarrow> sembuf list \<Rightarrow> bool" where
  "in_range st a sops \<longleftrightarrow> (\<forall>sop\<in>set sops. unat (sem_num sop) < length (sem_base (sds st a)))"

lemma check_sops_total:
  assumes "in_range st a sops"
  shows "\<exists>r. check_sops a sops st = Some r \<and> (r = Sem_Go \<longleftrightarrow> (\<forall>sop\<in>set sops. enabled st a sop))
    \<and> (\<forall>n. r = Sem_Wait_Zero n \<or> r = Sem_Wait_Up n \<longrightarrow> n < length (sem_base (sds st a)))
    \<and> (\<forall>e. r = Sem_Err e \<longrightarrow> e < 0)"
  using assms
proof (induction sops)
  case (Cons sop sops)
  let ?n = "unat (sem_num sop)"
  have n: "?n < length (sem_base (sds st a))" using Cons.prems by (simp add: in_range_def)
  then have s: "sem_at a ?n st = Some (sem_base (sds st a) ! ?n)" by (simp add: sem_at_def)
  have z: "semval c \<noteq> 0 \<longleftrightarrow> uint (semval c) \<noteq> 0" for c by (simp add: uint_0_iff)
  have "in_range st a sops" using Cons.prems by (simp add: in_range_def)
  then obtain r where r: "check_sops a sops st = Some r" "r = Sem_Go \<longleftrightarrow> (\<forall>sop\<in>set sops. enabled st a sop)"
    "\<forall>n. r = Sem_Wait_Zero n \<or> r = Sem_Wait_Up n \<longrightarrow> n < length (sem_base (sds st a))" "\<forall>e. r = Sem_Err e \<longrightarrow> e < 0"
    using Cons.IH by blast
  show ?case
  proof (cases "enabled st a sop")
    case True
    then have "check_sops a (sop # sops) st = Some r"
      using s r(1) by (auto simp: enabled_def sem_value_def Let_def z add.commute)
    then show ?thesis using r(2-4) True by simp
  next
    case False
    let ?v = "sem_op sop + uint (semval (sem_base (sds st a) ! ?n))"
    consider "?v > 32767" | "?v \<le> 32767" "sem_op sop = 0" "uint (semval (sem_base (sds st a) ! ?n)) \<noteq> 0"
      | "?v < 0" "\<not> (sem_op sop = 0 \<and> uint (semval (sem_base (sds st a) ! ?n)) \<noteq> 0)"
      using False by (fastforce simp: enabled_def sem_value_def Let_def)
    then have "\<exists>r. check_sops a (sop # sops) st = Some r \<and> r \<noteq> Sem_Go \<and> (\<forall>m. r = Sem_Wait_Zero m \<or> r = Sem_Wait_Up m \<longrightarrow> m = ?n)
        \<and> (\<forall>e. r = Sem_Err e \<longrightarrow> e < 0)"
      by cases (simp_all add: s z)
    then obtain r where "check_sops a (sop # sops) st = Some r" "r \<noteq> Sem_Go"
      "\<forall>m. r = Sem_Wait_Zero m \<or> r = Sem_Wait_Up m \<longrightarrow> m = ?n" "\<forall>e. r = Sem_Err e \<longrightarrow> e < 0" by blast
    then show ?thesis using False n by (intro exI [of _ r]) (auto simp del: check_sops.simps)
  qed
qed simp

text \<open>The list of undo structures of the current process can be walked to its end.\<close>

definition undo_ok :: "sem_state \<Rightarrow> bool" where
  "undo_ok st \<longleftrightarrow> undo_walk (\<lambda>u. proc_next (uns st u)) (semun st (current (sk st))) \<noteq> None"

lemma undo_ok_semadj [simp]: "undo_ok (upd_un u (\<lambda>x. x\<lparr>semadj := f x\<rparr>) st) = undo_ok st"
proof -
  have "(\<lambda>v. proc_next (uns (upd_un u (\<lambda>x. x\<lparr>semadj := f x\<rparr>) st) v)) = (\<lambda>v. proc_next (uns st v))"
    by (simp add: upd_un_def fun_eq_iff)
  then show ?thesis by (simp add: undo_ok_def) (simp add: upd_un_def)
qed

lemma undo_ok_upd_sem [simp]: "undo_ok (upd_sem a n f st) = undo_ok st"
  by (simp add: undo_ok_def upd_sem_def upd_sma_def)

lemma my_undo_total: "undo_ok st \<Longrightarrow> my_undo k n st \<noteq> None"
  by (auto simp: undo_ok_def my_undo_def)

lemma upd_un_frame [simp]: "sk (upd_un u g st) = sk st" "sds (upd_un u g st) = sds st"
  by (simp_all add: upd_un_def)

lemma sem_value_frame [simp]:
  "sem_value (st\<lparr>sk := s\<rparr>) a n = sem_value st a n" "sem_value (upd_un u g st) a n = sem_value st a n"
  "sem_value (upd_sma a (\<lambda>d. d\<lparr>sem_otime := now\<rparr>) st) a n = sem_value st a n"
  by (simp_all add: sem_value_def upd_un_def upd_sma_def)

lemma sem_value_upd_sem:
  assumes "n < length (sem_base (sds st a))"
  shows "sem_value (upd_sem a n f st) a m = (if m = n then uint (semval (f (sem_base (sds st a) ! n))) else sem_value st a m)"
  using assms by (simp add: sem_value_def upd_sem_def upd_sma_def)

lemma apply_sop_effect:
  assumes n: "unat (sem_num sop) < length (sem_base (sds st a))" and e: "enabled st a sop" and u: "undo_ok st"
  shows "\<exists>z' st'. apply_sop k a sop (z, st) = Some (z', st') \<and> undo_ok st' \<and> sk st' = sk st
    \<and> length (sem_base (sds st' a)) = length (sem_base (sds st a))
    \<and> (\<forall>m. sem_value st' a m = sem_value st a m + (if m = unat (sem_num sop) then sem_op sop else 0))"
proof -
  let ?n = "unat (sem_num sop)"
  let ?c = "sem_base (sds st a) ! ?n"
  let ?v = "semval ?c + word_of_int (sem_op sop)"
  let ?st = "upd_sem a ?n (\<lambda>c. c\<lparr>sempid := pid (cur (sk st)), semval := ?v\<rparr>) st"
  have s: "sem_at a ?n st = Some ?c" using n by (simp add: sem_at_def)
  have r: "0 \<le> uint (semval ?c) + sem_op sop" "uint (semval ?c) + sem_op sop \<le> 32767"
    using e by (simp_all add: enabled_def sem_value_def Let_def)
  have "?v = word_of_int (uint (semval ?c) + sem_op sop)" by simp
  then have "uint ?v = uint (semval ?c) + sem_op sop" using r by (simp only: uint_word_of_int) simp
  then have val: "sem_value ?st a m = sem_value st a m + (if m = ?n then sem_op sop else 0)" for m
    using n by (simp add: sem_value_upd_sem) (simp add: sem_value_def)
  have len: "length (sem_base (sds ?st a)) = length (sem_base (sds st a))" "sk ?st = sk st"
    by (simp_all add: upd_sem_def upd_sma_def)
  obtain x where x: "my_undo k (sem_num sop) ?st = Some x" using my_undo_total [of ?st] u by fastforce
  show ?thesis
  proof (cases "wants_undo sop \<and> x \<noteq> None")
    case True
    then obtain y where "x = Some y" by blast
    let ?t = "upd_un y (\<lambda>x. x\<lparr>semadj := sint (word_of_int (semadj x - sem_op sop) :: u16)\<rparr>) ?st"
    have "apply_sop k a sop (z, st) = Some (if ?v = 0 then Suc z else z, ?t)"
      using s True x \<open>x = Some y\<close> by (simp add: apply_sop_def Let_def)
    moreover have "undo_ok ?t" "sk ?t = sk st" "length (sem_base (sds ?t a)) = length (sem_base (sds st a))"
      using u len by simp_all
    moreover have "\<forall>m. sem_value ?t a m = sem_value st a m + (if m = ?n then sem_op sop else 0)" using val by simp
    ultimately show ?thesis by blast
  next
    case False
    then have "apply_sop k a sop (z, st) = Some (if ?v = 0 then Suc z else z, ?st)"
      using s x by (auto simp: apply_sop_def Let_def)
    moreover have "undo_ok ?st" using u by simp
    ultimately show ?thesis using val len by blast
  qed
qed

lemma apply_sops_effect:
  assumes "in_range st a sops" "distinct (map sem_num sops)" "\<forall>sop\<in>set sops. enabled st a sop" "undo_ok st"
  shows "\<exists>z' st'. apply_sops k a sops (z, st) = Some (z', st') \<and> sk st' = sk st
    \<and> length (sem_base (sds st' a)) = length (sem_base (sds st a))
    \<and> (\<forall>m. sem_value st' a m = sem_value st a m + sop_delta sops m)"
  using assms
proof (induction sops arbitrary: z st)
  case (Cons sop sops)
  obtain z1 st1 where 1: "apply_sop k a sop (z, st) = Some (z1, st1)" "undo_ok st1" "sk st1 = sk st"
    "length (sem_base (sds st1 a)) = length (sem_base (sds st a))"
    "\<And>m. sem_value st1 a m = sem_value st a m + (if m = unat (sem_num sop) then sem_op sop else 0)"
    using apply_sop_effect [of sop st a k z] Cons.prems by (auto simp: in_range_def)
  have "unat (sem_num x) \<noteq> unat (sem_num sop)" if "x \<in> set sops" for x
    using that Cons.prems(2) by (metis distinct.simps(2) image_eqI list.set_map list.simps(9) word_unat_eq_iff)
  then have "\<forall>x\<in>set sops. enabled st1 a x" using Cons.prems(3) 1(5) by (simp add: enabled_def)
  moreover have "in_range st1 a sops" using Cons.prems(1) 1(4) by (simp add: in_range_def)
  ultimately obtain z2 st2 where 2: "apply_sops k a sops (z1, st1) = Some (z2, st2)" "sk st2 = sk st1"
    "length (sem_base (sds st2 a)) = length (sem_base (sds st1 a))"
    "\<forall>m. sem_value st2 a m = sem_value st1 a m + sop_delta sops m"
    using Cons.IH [of st1 z1] Cons.prems(2) 1(2) by auto
  then show ?case using 1 by (auto simp: sop_delta_def)
qed (simp add: sop_delta_def)

text \<open>\<^verbatim>\<open>semop\<close> on a set whose queues are intact: all operations are applied, or none changes a value.\<close>

lemma sem_sleep_total:
  assumes "Some (current (sk st)) \<noteq> task (sk st) 0"
  shows "\<exists>s. sem_sleep q w st = Some (Sem_Sleep q (st\<lparr>sk := s\<rparr>))"
  using assms by (auto simp: sem_sleep_def sleep_on_enter_def Let_def)

lemma semop_round_atomic:
  assumes k: "uint (ip_seq (sem_perm (sds st a))) = k div 128" and sops: "sops \<noteq> []" "in_range st a sops" "distinct (map sem_num sops)"
    and u: "undo_ok st" and q: "wq_ring (sk st) (eventn a) ns" "wq_ring (sk st) (eventz a) zs"
    and t: "Some (current (sk st)) \<noteq> task (sk st) 0"
  shows "\<exists>r. semop_round k a sops w now st = Some r
    \<and> (if \<forall>sop\<in>set sops. enabled st a sop
       then r = Sem_Ret (sem_value (result_state r) a (unat (sem_num (last sops)))) (result_state r)
         \<and> (\<forall>m. sem_value (result_state r) a m = sem_value st a m + sop_delta sops m)
       else (\<forall>m. sem_value (result_state r) a m = sem_value st a m) \<and> (\<forall>v st'. r = Sem_Ret v st' \<longrightarrow> v < 0 \<and> st' = st))"
proof (cases "\<forall>sop\<in>set sops. enabled st a sop")
  case True
  then have c: "check_sops a sops st = Some Sem_Go" using check_sops_total [OF sops(2)] by auto
  obtain z1 st1 where 1: "apply_sops k a sops (0, st) = Some (z1, st1)" "sk st1 = sk st"
    "length (sem_base (sds st1 a)) = length (sem_base (sds st a))"
    "\<forall>m. sem_value st1 a m = sem_value st a m + sop_delta sops m"
    using apply_sops_effect [OF sops(2,3) True u] by blast
  let ?st1 = "upd_sma a (\<lambda>d. d\<lparr>sem_otime := now\<rparr>) st1"
  have k1: "sk ?st1 = sk st" by (simp add: upd_sma_def 1(2))
  obtain s2 where 2: "(if \<exists>sop\<in>set sops. sem_op sop > 0 then wake_if (eventn a) ?st1 else Some ?st1) = Some (?st1\<lparr>sk := s2\<rparr>)"
    "wq_ring s2 (eventz a) zs"
  proof (cases "\<exists>sop\<in>set sops. sem_op sop > 0")
    case True
    then show ?thesis using wake_if_ring [of ?st1 "eventn a" ns] q k1 that by auto
  next
    case False
    have "?st1\<lparr>sk := sk st\<rparr> = ?st1" using k1 by simp
    then show ?thesis using False q(2) that [of "sk st"] by simp
  qed
  obtain s3 where 3: "(if z1 > 0 then wake_if (eventz a) (?st1\<lparr>sk := s2\<rparr>) else Some (?st1\<lparr>sk := s2\<rparr>)) = Some (?st1\<lparr>sk := s3\<rparr>)"
  proof (cases "z1 > 0")
    case True
    obtain s where "wake_if (eventz a) (?st1\<lparr>sk := s2\<rparr>) = Some (?st1\<lparr>sk := s2, sk := s\<rparr>)"
      using wake_if_ring [of "?st1\<lparr>sk := s2\<rparr>" "eventz a" zs] 2(2) by auto
    then show ?thesis using True that [of s] by simp
  next
    case False
    then show ?thesis using that [of s2] by simp
  qed
  have "unat (sem_num (last sops)) < length (sem_base (sds st a))" using sops(1,2) by (simp add: in_range_def)
  then have "sem_at a (unat (sem_num (last sops))) (?st1\<lparr>sk := s3\<rparr>) = Some (sem_base (sds st1 a) ! unat (sem_num (last sops)))"
    using 1(3) by (simp add: sem_at_def upd_sma_def)
  then have "semop_round k a sops w now st = Some (Sem_Ret (sem_value st1 a (unat (sem_num (last sops)))) (?st1\<lparr>sk := s3\<rparr>))"
    unfolding semop_round_def using k c 1(1) 2(1) 3 by (simp add: sem_value_def)
  then show ?thesis using True 1(4) by simp
next
  case False
  then obtain r where r: "check_sops a sops st = Some r" "r \<noteq> Sem_Go"
    "\<And>n. r = Sem_Wait_Zero n \<or> r = Sem_Wait_Up n \<Longrightarrow> n < length (sem_base (sds st a))" "\<And>e. r = Sem_Err e \<Longrightarrow> e < 0"
    using check_sops_total [OF sops(2)] by blast
  have sleep: "\<exists>s. sem_sleep p w (upd_sem a n f st) = Some (Sem_Sleep p ((upd_sem a n f st)\<lparr>sk := s\<rparr>))" for p n f
    by (rule sem_sleep_total) (use t in \<open>simp add: upd_sem_def upd_sma_def\<close>)
  show ?thesis
  proof (cases r)
    case Sem_Go
    then show ?thesis using r(2) by simp
  next
    case (Sem_Err e)
    then show ?thesis using False r(1) r(4) [of e] k unfolding if_not_P [OF False] by (simp add: semop_round_def)
  next
    case (Sem_Wait_Zero n)
    let ?f = "\<lambda>c. c\<lparr>semzcnt := semzcnt c + 1\<rparr>"
    obtain s where "sem_sleep (eventz a) w (upd_sem a n ?f st) = Some (Sem_Sleep (eventz a) ((upd_sem a n ?f st)\<lparr>sk := s\<rparr>))"
      using sleep by blast
    then show ?thesis
      using r(1) r(3) [of n] k Sem_Wait_Zero unfolding if_not_P [OF False]
      by (simp add: semop_round_def sem_value_upd_sem) (simp add: sem_value_def)
  next
    case (Sem_Wait_Up n)
    let ?f = "\<lambda>c. c\<lparr>semncnt := semncnt c + 1\<rparr>"
    obtain s where "sem_sleep (eventn a) w (upd_sem a n ?f st) = Some (Sem_Sleep (eventn a) ((upd_sem a n ?f st)\<lparr>sk := s\<rparr>))"
      using sleep by blast
    then show ?thesis
      using r(1) r(3) [of n] k Sem_Wait_Up unfolding if_not_P [OF False]
      by (simp add: semop_round_def sem_value_upd_sem) (simp add: sem_value_def)
  qed
qed

section \<open>Undo\<close>

lemma undo_walk_nil [simp]: "undo_walk nx None = Some []"
  by (simp add: undo_walk.simps)

lemma undo_walk_one: "nx u = None \<Longrightarrow> undo_walk nx (Some u) = Some [u]"
  by (simp add: undo_walk.simps [of nx "Some u"])

lemma sem_value_nonneg: "0 \<le> sem_value st a n"
  by (simp add: sem_value_def)

text \<open>The process has exactly one undo structure, for semaphore \<^verbatim>\<open>n\<close> of the set \<^verbatim>\<open>k\<close> at \<^verbatim>\<open>a\<close>; it is the first one in the list of
  the set.\<close>

definition one_undo :: "sem_state \<Rightarrow> int \<Rightarrow> saddr \<Rightarrow> u16 \<Rightarrow> uaddr \<Rightarrow> int \<Rightarrow> uaddr option \<Rightarrow> bool" where
  "one_undo st k a n u adj rest \<longleftrightarrow> semun st (current (sk st)) = Some u \<and> sma_undo (sds st a) = Some u
     \<and> uns st u = \<lparr>proc_next = None, id_next = rest, un_semid = k, semadj = adj, un_num = n\<rparr>"

lemma one_undo_my: "one_undo st k a n u adj rest \<Longrightarrow> my_undo k n st = Some (Some u) \<and> undo_ok st"
  by (auto simp: one_undo_def my_undo_def undo_ok_def undo_walk_one)

lemma add_undos_one:
  assumes "semun st (current (sk st)) = None" "wants_undo sop"
  shows "add_undos k a [u] [sop] st = Some (True, link_undo k a (sem_num sop) u st)"
    "one_undo (link_undo k a (sem_num sop) u st) k a (sem_num sop) u 0 (sma_undo (sds st a))"
  using assms by (simp_all add: my_undo_def one_undo_def link_undo_def upd_sma_def)

lemma apply_sops_one:
  assumes "one_undo st k a (sem_num sop) u 0 rest" "wants_undo sop" "unat (sem_num sop) < length (sem_base (sds st a))"
    "enabled st a sop" "sem_value st a (unat (sem_num sop)) \<le> SEMVMX"
  shows "\<exists>z st'. apply_sops k a [sop] (0, st) = Some (z, st') \<and> one_undo st' k a (sem_num sop) u (- sem_op sop) rest
    \<and> sk st' = sk st \<and> tbl st' = tbl st \<and> (\<forall>m. sem_value st' a m = sem_value st a m + (if m = unat (sem_num sop) then sem_op sop else 0))"
proof -
  let ?n = "unat (sem_num sop)"
  have u: "undo_ok st" using one_undo_my [OF assms(1)] by simp
  obtain z st' where 1: "apply_sop k a sop (0, st) = Some (z, st')" "sk st' = sk st"
    "\<forall>m. sem_value st' a m = sem_value st a m + (if m = ?n then sem_op sop else 0)"
    using apply_sop_effect [OF assms(3,4) u, of k 0] by blast
  have t: "tbl st' = tbl st" using tbl_apply [OF 1(1)] by simp
  have op: "- 32767 \<le> sem_op sop" "sem_op sop \<le> 32767"
    using assms(4,5) sem_value_nonneg [of st a ?n] by (auto simp: enabled_def Let_def)
  have adj: "sint (word_of_int (0 - sem_op sop) :: u16) = - sem_op sop"
    unfolding sint_sbintrunc' using op by (simp add: signed_take_bit_int_eq_self)
  let ?st = "upd_sem a ?n (\<lambda>c. c\<lparr>sempid := pid (cur (sk st)), semval := semval (sem_base (sds st a) ! ?n) + word_of_int (sem_op sop)\<rparr>) st"
  have o: "one_undo ?st k a (sem_num sop) u 0 rest"
    using assms(1) by (simp add: one_undo_def upd_sem_def upd_sma_def)
  have "st' = upd_un u (\<lambda>x. x\<lparr>semadj := sint (word_of_int (semadj x - sem_op sop) :: u16)\<rparr>) ?st"
    using 1(1) one_undo_my [OF o] assms(2,3) by (simp add: apply_sop_def Let_def sem_at_def)
  then have "one_undo st' k a (sem_num sop) u (- sem_op sop) rest"
    using o adj by (simp add: one_undo_def upd_un_def)
  then show ?thesis using 1 t by auto
qed

text \<open>What the rest of \<^verbatim>\<open>semop\<close> does after the values are set: the time, and the wake-ups.\<close>

lemma semop_tail:
  assumes q: "wq_ring (sk st) (eventn a) ns" "wq_ring (sk st) (eventz a) zs"
  shows "\<exists>s. Option.bind (if B then wake_if (eventn a) st else Some st) (\<lambda>st. if C then wake_if (eventz a) st else Some st) = Some (st\<lparr>sk := s\<rparr>)
    \<and> same_links (sk st) s \<and> (\<forall>p vs. wq_ring s p vs = wq_ring (sk st) p vs)"
proof -
  obtain s1 where 1: "(if B then wake_if (eventn a) st else Some st) = Some (st\<lparr>sk := s1\<rparr>)" "same_links (sk st) s1"
    "\<forall>p vs. wq_ring s1 p vs = wq_ring (sk st) p vs"
  proof (cases B)
    case True
    then show ?thesis using wake_if_ring [OF q(1)] that by auto
  next
    case False
    then show ?thesis using that [of "sk st"] by simp
  qed
  have "wq_ring (sk (st\<lparr>sk := s1\<rparr>)) (eventz a) zs" using q(2) 1(3) by simp
  from wake_if_ring [OF this]
  obtain s2 where 2: "wake_if (eventz a) (st\<lparr>sk := s1\<rparr>) = Some (st\<lparr>sk := s2\<rparr>)" "same_links s1 s2"
    "\<forall>p vs. wq_ring s2 p vs = wq_ring s1 p vs" by auto
  show ?thesis
  proof (cases C)
    case True
    then show ?thesis
      unfolding 1(1) using 1(3) 2 same_links_trans [OF 1(2) 2(2)] by (intro exI [of _ s2]) simp
  next
    case False
    then show ?thesis unfolding 1(1) using 1(2,3) by (intro exI [of _ s1]) simp
  qed
qed

text \<open>The structures and the values when only \<^verbatim>\<open>sk\<close> and the time of the last operation change.\<close>

lemma one_undo_frame:
  assumes "one_undo st k a n u adj rest" "current s = current (sk st)"
  shows "one_undo ((upd_sma a (\<lambda>d. d\<lparr>sem_otime := now\<rparr>) st)\<lparr>sk := s\<rparr>) k a n u adj rest"
  using assms by (simp add: one_undo_def upd_sma_def)

lemma semop_one:
  assumes l: "sem_lookup k st = Inr (i, a)" "0 \<le> k" and mem: "p \<noteq> 0" "get_sops (fsmem (sk st)) p 1 = [sop]"
    and n: "unat (sem_num sop) < unat (sem_nsems (sds st a))" "length (sem_base (sds st a)) = unat (sem_nsems (sds st a))"
    and perm: "ipcperms (sem_perm (sds st a)) (if sem_op sop \<noteq> 0 then S_IWUGO else S_IRUGO) (sk st) = 0"
    and undo: "semun st (current (sk st)) = None" "wants_undo sop"
    and e: "enabled st a sop" "sem_value st a (unat (sem_num sop)) \<le> SEMVMX"
    and q: "wq_ring (sk st) (eventn a) ns" "wq_ring (sk st) (eventz a) zs"
  shows "\<exists>st'. sys_semop k p 1 [u] w now st = Some (Sem_Ret (sem_value st a (unat (sem_num sop)) + sem_op sop) st')
    \<and> one_undo st' k a (sem_num sop) u (- sem_op sop) (sma_undo (sds st a)) \<and> tbl st' = tbl st
    \<and> same_links (sk st) (sk st') \<and> (\<forall>p vs. wq_ring (sk st') p vs = wq_ring (sk st) p vs)
    \<and> (\<forall>m. sem_value st' a m = sem_value st a m + (if m = unat (sem_num sop) then sem_op sop else 0))"
proof -
  let ?n = "unat (sem_num sop)" and ?l = "link_undo k a (sem_num sop) u st"
  have i: "semary st (nat (k mod 128)) = Sma a" "uint (ip_seq (sem_perm (sds st a))) = k div 128"
    using l(1) by (auto simp: sem_lookup_def Let_def split: sem_slot.splits if_splits)
  have le: "\<not> sem_num sop > sem_nsems (sds st a)" using n(1) by (simp add: word_less_nat_alt)
  have L: "sk ?l = sk st" "\<And>m. sem_value ?l a m = sem_value st a m" "length (sem_base (sds ?l a)) = length (sem_base (sds st a))"
    "ip_seq (sem_perm (sds ?l a)) = ip_seq (sem_perm (sds st a))" "enabled ?l a sop = enabled st a sop"
    by (simp_all add: link_undo_def upd_sma_def sem_value_def enabled_def Let_def)
  have call: "sys_semop k p 1 [u] w now st = semop_round k a [sop] w now ?l"
    using l(2) mem i(1) le perm add_undos_one(1) [OF undo] by (simp add: sys_semop_def Let_def)
  have c: "check_sops a [sop] ?l = Some Sem_Go"
    using check_sops_total [of ?l a "[sop]"] e(1) n L by (auto simp: in_range_def)
  obtain z st1 where 1: "apply_sops k a [sop] (0, ?l) = Some (z, st1)"
    "one_undo st1 k a (sem_num sop) u (- sem_op sop) (sma_undo (sds st a))" "sk st1 = sk st" "tbl st1 = tbl st"
    "\<And>m. sem_value st1 a m = sem_value st a m + (if m = ?n then sem_op sop else 0)"
    using apply_sops_one [OF add_undos_one(2) [OF undo, of k a u] undo(2)] n e L by auto
  let ?st1 = "upd_sma a (\<lambda>d. d\<lparr>sem_otime := now\<rparr>) st1"
  have k1: "sk ?st1 = sk st" using 1(3) by (simp add: upd_sma_def)
  obtain s where s: "Option.bind (if \<exists>sop\<in>set [sop]. sem_op sop > 0 then wake_if (eventn a) ?st1 else Some ?st1)
      (\<lambda>st. if z > 0 then wake_if (eventz a) st else Some st) = Some (?st1\<lparr>sk := s\<rparr>)"
    "same_links (sk st) s" "\<forall>p vs. wq_ring s p vs = wq_ring (sk st) p vs"
    using semop_tail [of ?st1 a ns zs "\<exists>sop\<in>set [sop]. sem_op sop > 0" "z > 0", unfolded k1, OF q] by blast
  have len: "length (sem_base (sds st1 a)) = length (sem_base (sds st a))" using tbl_fields(6) [OF 1(4)] .
  let ?r = "?st1\<lparr>sk := s\<rparr>"
  have "sem_at a ?n ?r = Some (sem_base (sds st1 a) ! ?n)" using n len by (simp add: sem_at_def upd_sma_def)
  moreover have "semop_round k a [sop] w now ?l =
      Option.bind (Option.bind (if \<exists>sop\<in>set [sop]. sem_op sop > 0 then wake_if (eventn a) ?st1 else Some ?st1)
        (\<lambda>st. if z > 0 then wake_if (eventz a) st else Some st)) (\<lambda>st. Option.bind (sem_at a ?n st) (\<lambda>c. Some (Sem_Ret (uint (semval c)) st)))"
    using i(2) L(4) c 1(1) by (simp add: semop_round_def Let_def del: check_sops.simps apply_sops.simps)
  ultimately have "semop_round k a [sop] w now ?l = Some (Sem_Ret (sem_value st1 a ?n) ?r)"
    unfolding s(1) by (simp add: sem_value_def)
  moreover have "one_undo ?r k a (sem_num sop) u (- sem_op sop) (sma_undo (sds st a))"
    using one_undo_frame [OF 1(2), of s now] s(2) 1(3) by (simp add: same_links_def)
  moreover have "tbl ?r = tbl st" using 1(4) by simp
  ultimately show ?thesis unfolding call using s(2,3) 1(5) by (intro exI [of _ ?r]) simp
qed

lemma undo_adjust_one:
  assumes o: "uns st u = \<lparr>proc_next = None, id_next = rest, un_semid = k, semadj = adj, un_num = n\<rparr>"
    and k: "uint (ip_seq (sem_perm (sds st a))) = k div 128" and n: "unat n < length (sem_base (sds st a))"
    and v: "0 \<le> sem_value st a (unat n) + adj" "sem_value st a (unat n) + adj \<le> 65535"
    and q: "wq_ring (sk st) (eventn a) ns" "wq_ring (sk st) (eventz a) zs"
  shows "\<exists>st'. undo_adjust a u w now st = Some (Undo_Next st') \<and> tbl st' = tbl st \<and> uns st' = uns st \<and> semun st' = semun st
    \<and> sma_undo (sds st' a) = sma_undo (sds st a) \<and> same_links (sk st) (sk st')
    \<and> (\<forall>m. sem_value st' a m = sem_value st a m + (if m = unat n then adj else 0))"
proof -
  let ?c = "sem_base (sds st a) ! unat n"
  let ?v = "semval ?c + word_of_int adj"
  let ?st = "upd_sma a (\<lambda>d. d\<lparr>sem_otime := now\<rparr>) (upd_sem a (unat n) (\<lambda>c. c\<lparr>semval := ?v, sempid := pid (cur (sk st))\<rparr>) st)"
  have s: "sem_at a (unat n) st = Some ?c" using n by (simp add: sem_at_def)
  have "?v = word_of_int (uint (semval ?c) + adj)" by simp
  then have "uint ?v = uint (semval ?c) + adj" using v by (simp only: uint_word_of_int) (simp add: sem_value_def)
  then have val: "sem_value ?st a m = sem_value st a m + (if m = unat n then adj else 0)" for m
    using n by (simp add: sem_value_upd_sem) (simp add: sem_value_def)
  have k1: "sk ?st = sk st" "uns ?st = uns st" "semun ?st = semun st" "sma_undo (sds ?st a) = sma_undo (sds st a)"
    by (simp_all add: upd_sma_def upd_sem_def)
  obtain t where t: "Option.bind (if adj > 0 then wake_if (eventn a) ?st else Some ?st)
      (\<lambda>st. if ?v = 0 then wake_if (eventz a) st else Some st) = Some (?st\<lparr>sk := t\<rparr>)" "same_links (sk st) t"
    using semop_tail [of ?st a ns zs "adj > 0" "?v = 0", unfolded k1(1), OF q] by blast
  have "undo_adjust a u w now st = Option.bind (Option.bind (if adj > 0 then wake_if (eventn a) ?st else Some ?st)
      (\<lambda>st. if ?v = 0 then wake_if (eventz a) st else Some st)) (\<lambda>st. Some (Undo_Next st))"
    using o k s v(1) by (simp add: undo_adjust_def Let_def sem_value_def)
  then have "undo_adjust a u w now st = Some (Undo_Next (?st\<lparr>sk := t\<rparr>))" unfolding t(1) by simp
  then show ?thesis using k1 t(2) val by (intro exI [of _ "?st\<lparr>sk := t\<rparr>"]) simp
qed

lemma sem_exit_one:
  assumes o: "one_undo st k a n u adj rest" and l: "sem_lookup k st = Inr (i, a)"
    and n: "unat n < length (sem_base (sds st a))"
    and v: "0 \<le> sem_value st a (unat n) + adj" "sem_value st a (unat n) + adj \<le> 65535"
    and q: "wq_ring (sk st) (eventn a) ns" "wq_ring (sk st) (eventz a) zs"
  shows "\<exists>st'. sem_exit w now st = Some (Exit_Done st') \<and> tbl st' = tbl st \<and> semun st' (current (sk st)) = None
    \<and> sma_undo (sds st' a) = rest \<and> (\<forall>m. sem_value st' a m = sem_value st a m + (if m = unat n then adj else 0))"
proof -
  have u: "semun st (current (sk st)) = Some u" "sma_undo (sds st a) = Some u"
    "uns st u = \<lparr>proc_next = None, id_next = rest, un_semid = k, semadj = adj, un_num = n\<rparr>"
    using o by (simp_all add: one_undo_def)
  have i: "semary st (nat (k mod 128)) = Sma a" "uint (ip_seq (sem_perm (sds st a))) = k div 128"
    using l by (auto simp: sem_lookup_def Let_def split: sem_slot.splits if_splits)
  have f: "find_unp a u st Unp_Head = Some (Some Unp_Head)"
    using u(2) by (simp add: find_unp.simps [of a u st] unp_get_def)
  let ?st = "upd_sma a (\<lambda>d. d\<lparr>sma_undo := rest\<rparr>) st"
  have s: "uns ?st = uns st" "sk ?st = sk st" "semun ?st = semun st" "\<And>m. sem_value ?st a m = sem_value st a m"
    "length (sem_base (sds ?st a)) = length (sem_base (sds st a))" "ip_seq (sem_perm (sds ?st a)) = ip_seq (sem_perm (sds st a))"
    "sma_undo (sds ?st a) = rest"
    by (simp_all add: upd_sma_def sem_value_def)
  have one: "undo_one u w now st = (if adj = 0 then Some (Undo_Next ?st) else undo_adjust a u w now ?st)"
    using u i f by (simp add: undo_one_def unp_set_def)
  obtain st1 where 1: "undo_one u w now st = Some (Undo_Next st1)" "tbl st1 = tbl st" "uns st1 = uns st" "semun st1 = semun st"
    "sma_undo (sds st1 a) = rest" "same_links (sk st) (sk st1)"
    "\<forall>m. sem_value st1 a m = sem_value st a m + (if m = unat n then adj else 0)"
  proof (cases "adj = 0")
    case True
    then show ?thesis using one s that [of ?st] by simp
  next
    case False
    show ?thesis
      using undo_adjust_one [of ?st u rest k adj n a ns zs w now, unfolded s(1) s(2) s(4) s(5) s(6), OF u(3) i(2) n v q]
        one False s that by auto
  qed
  let ?p = "pop_semun u st1"
  have c: "current (sk st1) = current (sk st)" using 1(6) by (simp add: same_links_def)
  have "sem_exit w now st = sem_exit w now ?p" using u(1) 1(1) by (simp add: sem_exit.simps [of w now st])
  also have "\<dots> = Some (Exit_Done (no_semun ?p))"
    using u(3) 1(3) c by (simp add: sem_exit.simps [of w now ?p]) (simp add: pop_semun_def)
  finally show ?thesis
    using 1 c by (intro exI [of _ "no_semun ?p"]) (simp add: no_semun_def pop_semun_def sem_value_def)
qed

end
