(* ===== verification/Ipc_Theorems.thy ===== *)
theory Ipc_Theorems
  imports Ipc_Sem_Laws
begin

text \<open>
  The properties of System V semaphores.  Witnesses run on \<^verbatim>\<open>demo_sems\<close>: one set with two semaphores of value 1 and 0 in
  slot 0, nobody waiting.
\<close>

definition demo_set :: semid_ds where
  "demo_set = \<lparr>sem_perm = \<lparr>ip_key = 7, ip_uid = 0, ip_gid = 0, ip_cuid = 0, ip_cgid = 0, ip_mode = 511, ip_seq = 0\<rparr>,
     sem_otime = 0, sem_ctime = 0,
     sem_base = [\<lparr>sempid = 0, semval = 1, semncnt = 0, semzcnt = 0\<rparr>, \<lparr>sempid = 0, semval = 0, semncnt = 0, semzcnt = 0\<rparr>],
     sma_undo = None, sem_nsems = 2\<rparr>"

definition demo_sems :: sem_state where
  "demo_sems = \<lparr>sk = demo_kernel, semary = (\<lambda>i. if i = 0 then Sma 5 else IPC_UNUSED), sds = (\<lambda>a. demo_set),
     uns = (\<lambda>u. \<lparr>proc_next = None, id_next = None, un_semid = 0, semadj = 0, un_num = 0\<rparr>), semun = (\<lambda>t. None),
     used_sems = 2, used_semids = 1, max_semid = 0, sem_seq = 0\<rparr>"

lemma demo_sems_simps [simp]:
  "sk demo_sems = demo_kernel" "semary demo_sems i = (if i = 0 then Sma 5 else IPC_UNUSED)" "sds demo_sems a = demo_set"
  "max_semid demo_sems = 0" "used_semids demo_sems = 1" "semun demo_sems t = None" "sem_seq demo_sems = 0" "used_sems demo_sems = 2"
  by (simp_all add: demo_sems_def)

lemma demo_set_simps [simp]: "length (sem_base demo_set) = 2" "sem_nsems demo_set = 2" "ip_seq (sem_perm demo_set) = 0"
  by (simp_all add: demo_set_def)

lemma demo_semtab_ok: "semtab_ok demo_sems"
proof -
  have s: "is_set demo_sems i a \<longleftrightarrow> i = 0 \<and> a = 5" for i a by (auto simp: is_set_def)
  then have "set_slots demo_sems = {0}" by (auto simp: set_slots_def)
  then show ?thesis unfolding semtab_ok_def set_slots_def [symmetric] using s by simp
qed

text \<open>C19: whatever calls on semaphores the processes of the system make, in whatever order and with whatever else happens
  between the two halves of a creation, the table keeps its invariant and its identifiers behave as a map: a creation
  adds one entry, a removal deletes one, and every other call leaves all of them what they were.\<close>

theorem sem_ids_refine_map:
  assumes "history sem_step st es st'" "semtab_ok st"
  shows "semtab_ok st' \<and> sem_view st' = foldl id_effect (sem_view st) es"
  using sem_ids.history_invar [OF assms] sem_ids.run_refines [OF assms] by blast

theorem sem_ids_refine_map_witness:
  "\<exists>st'. history sem_step demo_sems [Id_Gone 0] st' \<and> semtab_ok st' \<and> sem_view st' = (sem_view demo_sems)(0 := None)"
proof -
  have "sem_lookup 0 demo_sems = Inr (0, 5)" by (simp add: sem_lookup_def)
  moreover have "\<exists>st'. freeary 0 5 demo_sems = Some (True, st')"
    by (simp add: freeary_def freeary_unlink_def freeary_round_def clear_undo_def upd_sma_def demo_set_def Let_def) (simp add: demo_kernel_def)
  ultimately obtain st' where "sem_step demo_sems (Id_Gone 0) st'" using sem_step.remove by blast
  then have "history sem_step demo_sems [Id_Gone 0] st'" by (simp add: history_Cons)
  then show ?thesis using sem_ids_refine_map [OF _ demo_semtab_ok] by fastforce
qed

text \<open>C20: a \<^verbatim>\<open>semop\<close> on distinct semaphores of a set is atomic: when every operation is possible on the values found, each
  semaphore is changed by exactly its operation and the value of the last one is returned; otherwise no value changes,
  and the call fails with a negative number or sleeps.\<close>

theorem semop_all_or_nothing:
  assumes "uint (ip_seq (sem_perm (sds st a))) = k div 128" "sops \<noteq> []" "in_range st a sops" "distinct (map sem_num sops)"
    and "undo_ok st" "wq_ring (sk st) (eventn a) ns" "wq_ring (sk st) (eventz a) zs" "Some (current (sk st)) \<noteq> task (sk st) 0"
  shows "\<exists>r. semop_round k a sops w now st = Some r
    \<and> (if \<forall>sop\<in>set sops. enabled st a sop
       then r = Sem_Ret (sem_value (result_state r) a (unat (sem_num (last sops)))) (result_state r)
         \<and> (\<forall>m. sem_value (result_state r) a m = sem_value st a m + sop_delta sops m)
       else (\<forall>m. sem_value (result_state r) a m = sem_value st a m) \<and> (\<forall>v st'. r = Sem_Ret v st' \<longrightarrow> v < 0 \<and> st' = st))"
  using assms by (rule semop_round_atomic)

lemma demo_wq_ring: "wq_ring demo_kernel q []"
  by (simp add: wq_ring_def demo_kernel_def)

theorem semop_all_or_nothing_witness:
  "\<exists>r. semop_round 0 5 [\<lparr>sem_num = 0, sem_op = -1, sem_flg = 0\<rparr>, \<lparr>sem_num = 1, sem_op = 3, sem_flg = 0\<rparr>] 9 0 demo_sems = Some r
    \<and> sem_value (result_state r) 5 0 = 0 \<and> sem_value (result_state r) 5 1 = 3"
proof -
  let ?sops = "[\<lparr>sem_num = 0, sem_op = -1, sem_flg = 0\<rparr>, \<lparr>sem_num = 1, sem_op = 3, sem_flg = 0\<rparr>]"
  have e: "\<forall>sop\<in>set ?sops. enabled demo_sems 5 sop" by (simp add: enabled_def sem_value_def demo_set_def)
  have v: "sem_value demo_sems 5 0 = 1" "sem_value demo_sems 5 1 = 0" by (simp_all add: sem_value_def demo_set_def)
  have t: "Some (current demo_kernel) \<noteq> task demo_kernel 0" by (simp add: demo_kernel_def)
  have d: "sop_delta ?sops 0 = -1" "sop_delta ?sops 1 = 3" by (simp_all add: sop_delta_def)
  have u: "undo_ok demo_sems" by (simp add: undo_ok_def)
  have i: "in_range demo_sems 5 ?sops" by (simp add: in_range_def)
  obtain r where "semop_round 0 5 ?sops 9 0 demo_sems = Some r"
    "\<forall>m. sem_value (result_state r) 5 m = sem_value demo_sems 5 m + sop_delta ?sops m"
    using semop_all_or_nothing [of demo_sems 5 0 ?sops "[]" "[]" 9 0, unfolded if_P [OF e]] i u t demo_wq_ring by auto
  then show ?thesis using v d by (intro exI [of _ r]) simp
qed

text \<open>C21: when a process does one operation with \<^verbatim>\<open>SEM_UNDO\<close> and then exits, the semaphore has its old value again, the list
  of undo structures of the set is as before and the process has none left.\<close>

theorem semop_undone_by_exit:
  assumes "sem_lookup k st = Inr (i, a)" "0 \<le> k" "p \<noteq> 0" "get_sops (fsmem (sk st)) p 1 = [sop]"
    and "unat (sem_num sop) < unat (sem_nsems (sds st a))" "length (sem_base (sds st a)) = unat (sem_nsems (sds st a))"
    and "ipcperms (sem_perm (sds st a)) (if sem_op sop \<noteq> 0 then S_IWUGO else S_IRUGO) (sk st) = 0"
    and "semun st (current (sk st)) = None" "wants_undo sop"
    and "enabled st a sop" "sem_value st a (unat (sem_num sop)) \<le> SEMVMX"
    and "wq_ring (sk st) (eventn a) ns" "wq_ring (sk st) (eventz a) zs"
  shows "\<exists>st1 st2. sys_semop k p 1 [u] w now st = Some (Sem_Ret (sem_value st a (unat (sem_num sop)) + sem_op sop) st1)
    \<and> sem_exit w' now' st1 = Some (Exit_Done st2)
    \<and> (\<forall>m. sem_value st2 a m = sem_value st a m) \<and> sma_undo (sds st2 a) = sma_undo (sds st a)
    \<and> semun st2 (current (sk st)) = None"
proof -
  let ?n = "unat (sem_num sop)"
  obtain st1 where 1: "sys_semop k p 1 [u] w now st = Some (Sem_Ret (sem_value st a ?n + sem_op sop) st1)"
    "one_undo st1 k a (sem_num sop) u (- sem_op sop) (sma_undo (sds st a))" "tbl st1 = tbl st" "same_links (sk st) (sk st1)"
    "\<forall>p vs. wq_ring (sk st1) p vs = wq_ring (sk st) p vs"
    "\<forall>m. sem_value st1 a m = sem_value st a m + (if m = ?n then sem_op sop else 0)"
    using semop_one [OF assms] by blast
  have l: "sem_lookup k st1 = Inr (i, a)" using assms(1) sem_lookup_tbl [OF 1(3)] by simp
  have v: "sem_value st1 a ?n + - sem_op sop = sem_value st a ?n" using 1(6) by simp
  have n: "?n < length (sem_base (sds st1 a))" using assms(5,6) tbl_fields(6) [OF 1(3)] by simp
  obtain st2 where 2: "sem_exit w' now' st1 = Some (Exit_Done st2)" "semun st2 (current (sk st1)) = None"
    "sma_undo (sds st2 a) = sma_undo (sds st a)"
    "\<forall>m. sem_value st2 a m = sem_value st1 a m + (if m = ?n then - sem_op sop else 0)"
  proof -
    have "0 \<le> sem_value st a ?n" "sem_value st a ?n \<le> 65535" using assms(11) sem_value_nonneg by simp_all
    moreover have "wq_ring (sk st1) (eventn a) ns" "wq_ring (sk st1) (eventz a) zs" using 1(5) assms(12,13) by simp_all
    ultimately show ?thesis using sem_exit_one [OF 1(2) l n, unfolded v, of ns zs w' now'] that by blast
  qed
  show ?thesis
    using 1(1,6) 2 1(4) by (intro exI [of _ st1] exI [of _ st2]) (simp add: same_links_def)
qed

text \<open>A user memory holding one operation at address 16: semaphore 0, minus one, with \<^verbatim>\<open>SEM_UNDO\<close>.\<close>

definition demo_op_mem :: umem where
  "demo_op_mem = (\<lambda>a. if a = 18 \<or> a = 19 then 255 else if a = 21 then 16 else 0)"

definition demo_op_sems :: sem_state where
  "demo_op_sems = demo_sems\<lparr>sk := demo_kernel\<lparr>fsmem := demo_op_mem, current := 1\<rparr>\<rparr>"

theorem semop_undone_by_exit_witness:
  "\<exists>st1 st2. sys_semop 0 16 1 [3] 9 0 demo_op_sems = Some (Sem_Ret 0 st1)
    \<and> sem_exit 9 0 st1 = Some (Exit_Done st2) \<and> sem_value st2 5 0 = 1"
proof -
  let ?sop = "\<lparr>sem_num = 0, sem_op = -1, sem_flg = 4096\<rparr>"
  have m: "get_sops demo_op_mem 16 1 = [?sop]"
    by (simp add: demo_op_mem_def get_fs_word_def)
  have s: "sk demo_op_sems = demo_kernel\<lparr>fsmem := demo_op_mem, current := 1\<rparr>" "sds demo_op_sems a = demo_set"
    "semun demo_op_sems t = None" "sem_value demo_op_sems 5 0 = 1" for a t
    by (simp_all add: demo_op_sems_def sem_value_def demo_set_def)
  have "sem_lookup 0 demo_op_sems = Inr (0, 5)" by (simp add: sem_lookup_def demo_op_sems_def)
  moreover have "ipcperms (sem_perm demo_set) f (sk demo_op_sems) = 0" for f
    by (simp add: s ipcperms_def suser_def) (simp add: demo_kernel_def demo_task_def INIT_TASK_def)
  moreover have "enabled demo_op_sems 5 ?sop" "wants_undo ?sop"
    by (simp_all add: enabled_def s wants_undo_def)
  moreover have "wq_ring (sk demo_op_sems) q []" for q by (simp add: s wq_ring_def demo_kernel_def)
  ultimately show ?thesis
    using semop_undone_by_exit [of 0 demo_op_sems 0 5 16 ?sop "[]" "[]" 3 9 0 9 0] s m by auto
qed

text \<open>Two operations of one call on the same semaphore are checked separately against the value found: taking the whole
  value away twice passes the check and leaves the semaphore at 65536 minus its value, far above \<^verbatim>\<open>SEMVMX\<close>.\<close>

theorem semop_repeated_wraps:
  assumes "uint (ip_seq (sem_perm (sds st a))) = k div 128" "n = unat (sem_num sop)" "n < length (sem_base (sds st a))"
    and "0 < sem_value st a n" "sem_value st a n \<le> SEMVMX" "sem_op sop = - sem_value st a n" "\<not> wants_undo sop"
    and "wq_ring (sk st) (eventz a) zs"
  shows "\<exists>st'. semop_round k a [sop, sop] w now st = Some (Sem_Ret (65536 - sem_value st a n) st')
    \<and> sem_value st' a n = 65536 - sem_value st a n"
proof -
  let ?v = "sem_value st a n" and ?c = "sem_base (sds st a) ! n"
  let ?f = "\<lambda>x c. c\<lparr>sempid := pid (cur (sk st)), semval := x\<rparr>" and ?m = "word_of_int (- ?v) :: u16"
  let ?st1 = "upd_sem a n (?f 0) st"
  let ?st2 = "upd_sma a (\<lambda>d. d\<lparr>sem_otime := now\<rparr>) (upd_sem a n (?f ?m) ?st1)"
  have m: "uint ?m = 65536 - ?v"
  proof -
    have "uint ?m = (- ?v) mod 65536" by (simp only: uint_word_of_int) simp
    also have "\<dots> = (65536 - ?v) mod 65536" by (simp add: mod_simps)
    also have "\<dots> = 65536 - ?v" using assms(4,5) by (intro mod_pos_pos_trivial) simp_all
    finally show ?thesis .
  qed
  then have "uint ?m \<noteq> 0" using assms(5) by simp
  then have m0: "?m \<noteq> 0" by (metis uint_0_eq)
  have e: "enabled st a sop" using assms(2,4-6) by (simp add: enabled_def)
  have c: "check_sops a [sop, sop] st = Some Sem_Go"
    using check_sops_total [of st a "[sop, sop]"] e assms(2,3) by (auto simp: in_range_def simp del: check_sops.simps)
  have w0: "semval ?c + ?m = 0" by (simp add: sem_value_def)
  have 1: "apply_sop k a sop (0, st) = Some (1, ?st1)"
    using assms(2,3,6,7) w0 by (simp add: apply_sop_def sem_at_def)
  have 2: "apply_sop k a sop (1, ?st1) = Some (1, upd_sem a n (?f ?m) ?st1)"
    using assms(2,3,6,7) m0 by (simp add: apply_sop_def sem_at_def upd_sem_def upd_sma_def Let_def)
  have k: "sk ?st2 = sk st" by (simp add: upd_sma_def upd_sem_def)
  obtain s where s: "wake_if (eventz a) ?st2 = Some (?st2\<lparr>sk := s\<rparr>)" using wake_if_ring [of ?st2, unfolded k, OF assms(8)] by blast
  have v2: "sem_value ?st2 a n = 65536 - ?v" "n < length (sem_base (sds ?st2 a))"
    using assms(3) m by (simp_all add: sem_value_def upd_sma_def upd_sem_def)
  have at: "sem_at a n (?st2\<lparr>sk := s\<rparr>) = Some (sem_base (sds ?st2 a) ! n)" using v2(2) by (simp add: sem_at_def)
  define A where "A = upd_sem a n (?f ?m) ?st1"
  have ap: "apply_sops k a [sop, sop] (0, st) = Some (1, A)" using 1 2 unfolding A_def by simp
  have np: "\<not> (\<exists>sop\<in>set [sop, sop]. sem_op sop > 0)" using assms(4,6) by simp
  let ?B = "upd_sma a (\<lambda>d. d\<lparr>sem_otime := now\<rparr>) A"
  have "semop_round k a [sop, sop] w now st = Some (Sem_Ret (uint (semval (sem_base (sds ?B a) ! n))) (?B\<lparr>sk := s\<rparr>))"
    unfolding semop_round_def c ap if_not_P [OF np] using assms(1,2) s [folded A_def] at [folded A_def] by simp
  then have "semop_round k a [sop, sop] w now st = Some (Sem_Ret (65536 - ?v) (?B\<lparr>sk := s\<rparr>))"
    using v2(1) [folded A_def] by (simp add: sem_value_def)
  then show ?thesis using v2(1) [folded A_def] by (intro exI) (rule conjI, assumption, simp)
qed

theorem semop_repeated_wraps_witness:
  "\<exists>st'. semop_round 0 5 [\<lparr>sem_num = 0, sem_op = -1, sem_flg = 0\<rparr>, \<lparr>sem_num = 0, sem_op = -1, sem_flg = 0\<rparr>] 9 0 demo_sems
      = Some (Sem_Ret 65535 st') \<and> sem_value st' 5 0 = 65535"
proof -
  have "sem_value demo_sems 5 0 = 1" by (simp add: sem_value_def demo_set_def)
  then show ?thesis
    using semop_repeated_wraps [of demo_sems 5 0 0 "\<lparr>sem_num = 0, sem_op = -1, sem_flg = 0\<rparr>" "[]" 9 0] demo_wq_ring
    by (simp add: wants_undo_def)
qed

text \<open>\<^verbatim>\<open>semop\<close> compares the number of a semaphore with the size of the set by \<^verbatim>\<open>>\<close> instead of \<^verbatim>\<open>>=\<close>: an operation on the
  semaphore just past the last one is not refused and accesses memory outside the array.\<close>

theorem semop_reads_past_set:
  assumes "sem_lookup k st = Inr (i, a)" "0 \<le> k" "p \<noteq> 0" "get_sops (fsmem (sk st)) p 1 = [sop]"
    and "sem_num sop = sem_nsems (sds st a)" "length (sem_base (sds st a)) = unat (sem_nsems (sds st a))"
    and "ipcperms (sem_perm (sds st a)) (if sem_op sop \<noteq> 0 then S_IWUGO else S_IRUGO) (sk st) = 0" "\<not> wants_undo sop"
  shows "sys_semop k p 1 fresh w now st = None"
proof -
  have "semary st (nat (k mod 128)) = Sma a" "uint (ip_seq (sem_perm (sds st a))) = k div 128"
    using assms(1) by (auto simp: sem_lookup_def Let_def split: sem_slot.splits if_splits)
  then show ?thesis
    using assms(2-8) by (simp add: sys_semop_def Let_def semop_round_def sem_at_def)
qed

theorem semop_reads_past_set_witness:
  "sys_semop 0 16 1 [] 9 0 (demo_sems\<lparr>sk := demo_kernel\<lparr>fsmem := (\<lambda>a. if a = 16 then 2 else 0), current := 1\<rparr>\<rparr>) = None"
proof (rule semop_reads_past_set)
  let ?s = "demo_sems\<lparr>sk := demo_kernel\<lparr>fsmem := (\<lambda>a. if a = 16 then 2 else 0), current := 1\<rparr>\<rparr>"
  show "sem_lookup 0 ?s = Inr (0, 5)" by (simp add: sem_lookup_def)
  show "get_sops (fsmem (sk ?s)) 16 1 = [\<lparr>sem_num = 2, sem_op = 0, sem_flg = 0\<rparr>]" by (simp add: get_fs_word_def)
qed (simp_all add: wants_undo_def ipcperms_def suser_def, simp add: demo_kernel_def demo_task_def INIT_TASK_def)

end
