(* ===== verification/User_Bytes.thy ===== *)
theory User_Bytes
  imports Kernel_Prelude
begin

text \<open>
  Copies of bytes between the kernel and user memory, which pipes and messages use, with what they preserve.
\<close>

text \<open>\<^verbatim>\<open>memcpy_tofs\<close> and \<^verbatim>\<open>memcpy_fromfs\<close> between the kernel and user memory.\<close>

fun put_bytes :: "u8 list \<Rightarrow> u32 \<Rightarrow> umem \<Rightarrow> umem" where
  "put_bytes [] a m = m"
| "put_bytes (b # bs) a m = put_bytes bs (a + 1) (put_fs_byte b a m)"

fun user_bytes :: "umem \<Rightarrow> u32 \<Rightarrow> nat \<Rightarrow> u8 list" where
  "user_bytes m a 0 = []"
| "user_bytes m a (Suc n) = get_fs_byte m a # user_bytes m (a + 1) n"

lemma put_bytes_append: "put_bytes (xs @ ys) a m = put_bytes ys (a + of_nat (length xs)) (put_bytes xs a m)"
  by (induction xs arbitrary: a m) (auto simp: add.assoc)

lemma user_bytes_append: "user_bytes m a (j + n) = user_bytes m a j @ user_bytes m (a + of_nat j) n"
  by (induction j arbitrary: a) (auto simp: add.assoc)

lemma length_user_bytes [simp]: "length (user_bytes m a n) = n"
  by (induction n arbitrary: a) auto

lemma put_bytes_other: "(\<And>i. i < length bs \<Longrightarrow> b \<noteq> a + of_nat i) \<Longrightarrow> put_bytes bs a m b = m b"
proof (induction bs arbitrary: a m)
  case (Cons x bs)
  have "b \<noteq> a + 1 + of_nat i" if "i < length bs" for i
    using Cons.prems [of "Suc i"] that by (simp add: add.assoc)
  moreover have "b \<noteq> a" using Cons.prems [of 0] by simp
  ultimately show ?case using Cons.IH by (simp add: put_fs_byte_def)
qed simp

lemma small_offset: "0 < i \<Longrightarrow> i \<le> 4096 \<Longrightarrow> a \<noteq> a + of_nat i" for a :: u32
proof -
  assume "0 < i" "i \<le> 4096"
  then have "unat (of_nat i :: u32) = i" by (simp add: unat_of_nat)
  then have "of_nat i \<noteq> (0 :: u32)" using \<open>0 < i\<close> by (metis unat_0 less_irrefl)
  then show ?thesis by simp
qed

lemma user_bytes_put: "length bs \<le> 4096 \<Longrightarrow> user_bytes (put_bytes bs a m) a (length bs) = bs"
proof (induction bs arbitrary: a m)
  case (Cons x bs)
  have "put_bytes bs (a + 1) (put_fs_byte x a m) a = put_fs_byte x a m a"
  proof (rule put_bytes_other)
    fix i
    assume "i < length bs"
    then show "a \<noteq> a + 1 + of_nat i" using small_offset [of "Suc i" a] Cons.prems by (simp add: add.assoc)
  qed
  then show ?case using Cons by (simp add: get_fs_byte_def put_fs_byte_def)
qed simp

end
