(* ===== verification/Ipc_Msg.thy ===== *)
theory Ipc_Msg
  imports Ipc_Sem User_Bytes
begin

text \<open>
  System V message queues: \<^verbatim>\<open>ipc/msg.c\<close>.  As for the semaphores, the \<^verbatim>\<open>msqid_ds\<close> structures and the message headers are in stores
  indexed by address, the answers of \<^verbatim>\<open>kmalloc\<close> and the time of day are arguments, and a function that sleeps is cut there:
  its result says where it sleeps, and another definition goes on from the state it then finds.  \<^verbatim>\<open>kmalloc\<close> may sleep, so it is
  such a place too.  A dereference of \<^verbatim>\<open>NULL\<close> and a chain of messages that does not end are \<^verbatim>\<open>None\<close>.
\<close>

section \<open>Data\<close>

type_synonym maddr = nat
type_synonym qaddr = nat

record msg =
  msg_next :: "maddr option"
  msg_type :: int
  msg_spot :: "u8 list"
  msg_ts :: int

record msqid_ds =
  msg_perm :: ipc_perm
  msg_first :: "maddr option"
  msg_last :: "maddr option"
  msg_stime :: int
  msg_rtime :: int
  msg_ctime :: int
  msg_cbytes :: u16
  msg_qnum :: u16
  msg_qbytes :: u16
  msg_lspid :: u16
  msg_lrpid :: u16

datatype msq_slot = Msq_Unused | Msq_Noid | Msq qaddr

record msg_state =
  mk :: kernel
  msgque :: "nat \<Rightarrow> msq_slot"
  mqs :: "qaddr \<Rightarrow> msqid_ds"
  mhs :: "maddr \<Rightarrow> msg"
  msgbytes :: int
  msghdrs :: int
  msg_seq :: u16
  used_queues :: int
  max_msqid :: nat

abbreviation (input) MSGMNI :: nat where "MSGMNI \<equiv> 128"
abbreviation (input) MSGMAX :: int where "MSGMAX \<equiv> 4056"
abbreviation (input) MSGMNB :: int where "MSGMNB \<equiv> 16384"
abbreviation (input) MSG_NOERROR :: u32 where "MSG_NOERROR \<equiv> 4096"
abbreviation (input) MSG_EXCEPT :: u32 where "MSG_EXCEPT \<equiv> 8192"
abbreviation (input) MSG_NOWAIT :: u32 where "MSG_NOWAIT \<equiv> 2048"
abbreviation (input) MSG_STAT :: int where "MSG_STAT \<equiv> 11"
abbreviation (input) MSG_INFO :: int where "MSG_INFO \<equiv> 12"

definition msg_lock :: wqhead where "msg_lock = Wq 0"
definition wwait :: "qaddr \<Rightarrow> wqhead" where "wwait q = Wq (2 * q + 1)"
definition rwait :: "qaddr \<Rightarrow> wqhead" where "rwait q = Wq (2 * q + 2)"

definition upd_msq :: "qaddr \<Rightarrow> (msqid_ds \<Rightarrow> msqid_ds) \<Rightarrow> msg_state \<Rightarrow> msg_state" where
  "upd_msq q f st = st\<lparr>mqs := (mqs st)(q := f (mqs st q))\<rparr>"

definition upd_msg :: "maddr \<Rightarrow> (msg \<Rightarrow> msg) \<Rightarrow> msg_state \<Rightarrow> msg_state" where
  "upd_msg h f st = st\<lparr>mhs := (mhs st)(h := f (mhs st h))\<rparr>"

definition msg_wake :: "wqhead \<Rightarrow> msg_state \<Rightarrow> msg_state option" where
  "msg_wake q st =
     (if wqh (mk st) q = None then Some st else do { s \<leftarrow> wake_up q (mk st); Some (st\<lparr>mk := s\<rparr>) })"

definition msg_mem :: "(umem \<Rightarrow> umem) \<Rightarrow> msg_state \<Rightarrow> msg_state" where
  "msg_mem f st = st\<lparr>mk := (mk st)\<lparr>fsmem := f (fsmem (mk st))\<rparr>\<rparr>"

text \<open>What a system call does: return, sleep on a queue, wait for \<^verbatim>\<open>kmalloc\<close>, or call \<^verbatim>\<open>schedule()\<close> in the loop of \<^verbatim>\<open>freeque\<close>.\<close>

datatype msg_result = Msg_Ret int | Msg_Sleep wqhead | Msg_Alloc | Msg_Yield qaddr

definition msg_sleep :: "wqhead \<Rightarrow> waddr \<Rightarrow> msg_state \<Rightarrow> (msg_result \<times> msg_state) option" where
  "msg_sleep q w st =
     do { s \<leftarrow> sleep_on_enter q w TASK_INTERRUPTIBLE (mk st); Some (Msg_Sleep q, st\<lparr>mk := s\<rparr>) }"

definition msg_init :: "msg_state \<Rightarrow> msg_state" where
  "msg_init st =
     st\<lparr>mk := set_wq_head msg_lock None (mk st), msgque := (\<lambda>i. if i < MSGMNI then Msq_Unused else msgque st i),
        msgbytes := 0, msghdrs := 0, msg_seq := 0, max_msqid := 0, used_queues := 0\<rparr>"

section \<open>Sending\<close>

text \<open>From the label \<^verbatim>\<open>slept\<close> to the call of \<^verbatim>\<open>kmalloc\<close>, and after it.\<close>

definition snd_round :: "int \<Rightarrow> qaddr \<Rightarrow> int \<Rightarrow> u32 \<Rightarrow> waddr \<Rightarrow> msg_state \<Rightarrow> (msg_result \<times> msg_state) option" where
  "snd_round msqid q msgsz msgflg w st =
    (let d = mqs st q
     in if uint (ip_seq (msg_perm d)) \<noteq> msqid div int MSGMNI then Some (Msg_Ret (- EIDRM), st)
        else if ipcperms (msg_perm d) S_IWUGO (mk st) \<noteq> 0 then Some (Msg_Ret (- EACCES), st)
        else if msgsz + uint (msg_cbytes d) > uint (msg_qbytes d)
        then if msgflg AND MSG_NOWAIT \<noteq> 0 then Some (Msg_Ret (- EAGAIN), st)
             else if signal_pending (cur (mk st)) then Some (Msg_Ret (- EINTR), st)
             else msg_sleep (wwait q) w st
        else Some (Msg_Alloc, st))"

definition snd_link :: "qaddr \<Rightarrow> maddr \<Rightarrow> msg_state \<Rightarrow> msg_state option" where
  "snd_link q h st =
     (case msg_first (mqs st q) of
        None \<Rightarrow> Some (upd_msq q (\<lambda>d. d\<lparr>msg_first := Some h, msg_last := Some h\<rparr>) st)
      | Some _ \<Rightarrow>
          do { l \<leftarrow> msg_last (mqs st q);
               Some (upd_msq q (\<lambda>d. d\<lparr>msg_last := Some h\<rparr>) (upd_msg l (\<lambda>m. m\<lparr>msg_next := Some h\<rparr>) st)) })"

definition snd_install :: "int \<Rightarrow> qaddr \<Rightarrow> u32 \<Rightarrow> int \<Rightarrow> int \<Rightarrow> int \<Rightarrow> maddr option \<Rightarrow> msg_state \<Rightarrow> (msg_result \<times> msg_state) option" where
  "snd_install msqid q msgp mtype msgsz now mem st =
     (case mem of
        None \<Rightarrow> Some (Msg_Ret (- ENOMEM), st)
      | Some h \<Rightarrow>
          let st = upd_msg h (\<lambda>m. m\<lparr>msg_spot := user_bytes (fsmem (mk st)) (msgp + 4) (nat msgsz)\<rparr>) st;
              slot = msgque st (nat (msqid mod int MSGMNI))
          in if slot = Msq_Unused \<or> slot = Msq_Noid \<or> uint (ip_seq (msg_perm (mqs st q))) \<noteq> msqid div int MSGMNI
             then Some (Msg_Ret (- EIDRM), st)
             else do {
               st \<leftarrow> snd_link q h (upd_msg h (\<lambda>m. m\<lparr>msg_next := None\<rparr>) st);
               let st = upd_msg h (\<lambda>m. m\<lparr>msg_ts := msgsz, msg_type := mtype\<rparr>) st;
               let st = upd_msq q (\<lambda>d. d\<lparr>msg_cbytes := msg_cbytes d + word_of_int msgsz, msg_qnum := msg_qnum d + 1,
                          msg_lspid := word_of_int (pid (cur (mk st))), msg_stime := now\<rparr>) st;
               st \<leftarrow> msg_wake (rwait q) (st\<lparr>msgbytes := msgbytes st + msgsz, msghdrs := msghdrs st + 1\<rparr>);
               Some (Msg_Ret msgsz, st) })"

definition sys_msgsnd :: "int \<Rightarrow> u32 \<Rightarrow> int \<Rightarrow> u32 \<Rightarrow> waddr \<Rightarrow> msg_state \<Rightarrow> (msg_result \<times> msg_state) option" where
  "sys_msgsnd msqid msgp msgsz msgflg w st =
     (if msgsz > MSGMAX \<or> msgsz < 0 \<or> msqid < 0 then Some (Msg_Ret (- EINVAL), st)
      else if msgp = 0 then Some (Msg_Ret (- EFAULT), st)
      else let err = verify_area VERIFY_READ (msgp + 4) (to_u32 msgsz)
           in if err \<noteq> 0 then Some (Msg_Ret err, st)
              else if to_s32 (get_fs_long (fsmem (mk st)) msgp) < 1 then Some (Msg_Ret (- EINVAL), st)
              else case msgque st (nat (msqid mod int MSGMNI)) of
                     Msq q \<Rightarrow> snd_round msqid q msgsz msgflg w st
                   | _ \<Rightarrow> Some (Msg_Ret (- EINVAL), st))"

definition snd_resume :: "int \<Rightarrow> qaddr \<Rightarrow> int \<Rightarrow> u32 \<Rightarrow> waddr \<Rightarrow> msg_state \<Rightarrow> (msg_result \<times> msg_state) option" where
  "snd_resume msqid q msgsz msgflg w st =
     do { s \<leftarrow> sleep_on_resume (wwait q) w (mk st); snd_round msqid q msgsz msgflg w (st\<lparr>mk := s\<rparr>) }"

section \<open>Receiving\<close>

definition msg_chain :: "qaddr \<Rightarrow> msg_state \<Rightarrow> maddr list option" where
  "msg_chain q st = undo_walk (\<lambda>h. msg_next (mhs st h)) (msg_first (mqs st q))"

definition least_msg :: "msg_state \<Rightarrow> maddr list \<Rightarrow> maddr option" where
  "least_msg st hs =
     (case hs of [] \<Rightarrow> None
      | h # _ \<Rightarrow> Some (foldl (\<lambda>leastp t. if msg_type (mhs st t) < msg_type (mhs st leastp) then t else leastp) h hs))"

text \<open>The message that is wanted, if there is one.\<close>

definition rcv_find :: "qaddr \<Rightarrow> int \<Rightarrow> u32 \<Rightarrow> msg_state \<Rightarrow> maddr option option" where
  "rcv_find q msgtyp msgflg st =
     (if msgtyp = 0 then Some (msg_first (mqs st q))
      else do {
        hs \<leftarrow> msg_chain q st;
        if msgtyp > 0
        then if msgflg AND MSG_EXCEPT \<noteq> 0 then Some (find (\<lambda>h. msg_type (mhs st h) \<noteq> msgtyp) hs)
             else Some (find (\<lambda>h. msg_type (mhs st h) = msgtyp) hs)
        else case least_msg st hs of
               None \<Rightarrow> Some None
             | Some leastp \<Rightarrow> Some (if msg_type (mhs st leastp) \<le> swrap (- msgtyp) then Some leastp else None) })"

definition rcv_unlink :: "qaddr \<Rightarrow> maddr \<Rightarrow> msg_state \<Rightarrow> msg_state option" where
  "rcv_unlink q n st =
     (if msg_first (mqs st q) = Some n then Some (upd_msq q (\<lambda>d. d\<lparr>msg_first := msg_next (mhs st n)\<rparr>) st)
      else do {
        hs \<leftarrow> msg_chain q st;
        t \<leftarrow> find (\<lambda>t. msg_next (mhs st t) = Some n) hs;
        let st = upd_msg t (\<lambda>m. m\<lparr>msg_next := msg_next (mhs st n)\<rparr>) st;
        Some (if msg_last (mqs st q) = Some n then upd_msq q (\<lambda>d. d\<lparr>msg_last := Some t\<rparr>) st else st) })"

definition rcv_take :: "qaddr \<Rightarrow> maddr \<Rightarrow> u32 \<Rightarrow> int \<Rightarrow> u32 \<Rightarrow> int \<Rightarrow> msg_state \<Rightarrow> (msg_result \<times> msg_state) option" where
  "rcv_take q n msgp msgsz msgflg now st =
    (let ts = msg_ts (mhs st n)
     in if msgsz < ts \<and> msgflg AND MSG_NOERROR = 0 then Some (Msg_Ret (- E2BIG), st)
        else let msgsz = (if msgsz > ts then ts else msgsz)
             in do {
               st \<leftarrow> rcv_unlink q n st;
               let st = upd_msq q (\<lambda>d. d\<lparr>msg_qnum := msg_qnum d - 1\<rparr>) st;
               let st = (if msg_qnum (mqs st q) = 0 then upd_msq q (\<lambda>d. d\<lparr>msg_last := None, msg_first := None\<rparr>) st else st);
               let st = upd_msq q (\<lambda>d. d\<lparr>msg_rtime := now, msg_lrpid := word_of_int (pid (cur (mk st))),
                          msg_cbytes := msg_cbytes d - word_of_int ts\<rparr>) st;
               st \<leftarrow> msg_wake (wwait q) (st\<lparr>msgbytes := msgbytes st - ts, msghdrs := msghdrs st - 1\<rparr>);
               let st = msg_mem (put_fs_long (to_u32 (msg_type (mhs st n))) msgp) st;
               Some (Msg_Ret msgsz, msg_mem (put_bytes (take (nat msgsz) (msg_spot (mhs st n))) (msgp + 4)) st) })"

definition rcv_round :: "int \<Rightarrow> qaddr \<Rightarrow> u32 \<Rightarrow> int \<Rightarrow> int \<Rightarrow> u32 \<Rightarrow> int \<Rightarrow> waddr \<Rightarrow> msg_state \<Rightarrow> (msg_result \<times> msg_state) option" where
  "rcv_round msqid q msgp msgsz msgtyp msgflg now w st =
     (if uint (ip_seq (msg_perm (mqs st q))) \<noteq> msqid div int MSGMNI then Some (Msg_Ret (- EIDRM), st)
      else if ipcperms (msg_perm (mqs st q)) S_IRUGO (mk st) \<noteq> 0 then Some (Msg_Ret (- EACCES), st)
      else do {
        nmsg \<leftarrow> rcv_find q msgtyp msgflg st;
        case nmsg of
          Some n \<Rightarrow> rcv_take q n msgp msgsz msgflg now st
        | None \<Rightarrow>
            if msgflg AND MSG_NOWAIT \<noteq> 0 then Some (Msg_Ret (- ENOMSG), st)
            else if signal_pending (cur (mk st)) then Some (Msg_Ret (- EINTR), st)
            else msg_sleep (rwait q) w st })"

definition sys_msgrcv :: "int \<Rightarrow> u32 \<Rightarrow> int \<Rightarrow> int \<Rightarrow> u32 \<Rightarrow> int \<Rightarrow> waddr \<Rightarrow> msg_state \<Rightarrow> (msg_result \<times> msg_state) option" where
  "sys_msgrcv msqid msgp msgsz msgtyp msgflg now w st =
     (if msqid < 0 \<or> msgsz < 0 then Some (Msg_Ret (- EINVAL), st)
      else if msgp = 0 \<or> msgp + 4 = 0 then Some (Msg_Ret (- EFAULT), st)
      else let err = verify_area VERIFY_WRITE (msgp + 4) (to_u32 msgsz)
           in if err \<noteq> 0 then Some (Msg_Ret err, st)
              else case msgque st (nat (msqid mod int MSGMNI)) of
                     Msq q \<Rightarrow> rcv_round msqid q msgp msgsz msgtyp msgflg now w st
                   | _ \<Rightarrow> Some (Msg_Ret (- EINVAL), st))"

definition rcv_resume :: "int \<Rightarrow> qaddr \<Rightarrow> u32 \<Rightarrow> int \<Rightarrow> int \<Rightarrow> u32 \<Rightarrow> int \<Rightarrow> waddr \<Rightarrow> msg_state \<Rightarrow> (msg_result \<times> msg_state) option" where
  "rcv_resume msqid q msgp msgsz msgtyp msgflg now w st =
     do { s \<leftarrow> sleep_on_resume (rwait q) w (mk st); rcv_round msqid q msgp msgsz msgtyp msgflg now w (st\<lparr>mk := s\<rparr>) }"

section \<open>Creating and finding a queue\<close>

function msg_findkey_from :: "int \<Rightarrow> nat \<Rightarrow> msg_state \<Rightarrow> find_result" where
  "msg_findkey_from key i st =
     (if i \<le> max_msqid st
      then case msgque st i of
             Msq_Noid \<Rightarrow> Sleeps_At i
           | Msq_Unused \<Rightarrow> msg_findkey_from key (Suc i) st
           | Msq q \<Rightarrow> if key = ip_key (msg_perm (mqs st q)) then Found i else msg_findkey_from key (Suc i) st
      else Not_Found)"
  by auto
termination by (relation "measure (\<lambda>(key, i, st). Suc (max_msqid st) - i)") auto

declare msg_findkey_from.simps [simp del]

definition newque_reserve :: "msg_state \<Rightarrow> int + (nat \<times> msg_state)" where
  "newque_reserve st =
     (case find (\<lambda>i. msgque st i = Msq_Unused) [0..<MSGMNI] of
        None \<Rightarrow> Inl (- ENOSPC)
      | Some i \<Rightarrow> Inr (i, st\<lparr>msgque := (msgque st)(i := Msq_Noid)\<rparr>))"

definition fresh_msq :: "int \<Rightarrow> u32 \<Rightarrow> int \<Rightarrow> msg_state \<Rightarrow> msqid_ds" where
  "fresh_msq key msgflg now st =
    (let t = cur (mk st)
     in \<lparr>msg_perm = \<lparr>ip_key = key, ip_uid = euid t, ip_gid = egid t, ip_cuid = euid t, ip_cgid = egid t,
                     ip_mode = ucast (msgflg AND S_IRWXUGO), ip_seq = msg_seq st\<rparr>,
         msg_first = None, msg_last = None, msg_stime = 0, msg_rtime = 0, msg_ctime = now,
         msg_cbytes = 0, msg_qnum = 0, msg_qbytes = word_of_int MSGMNB, msg_lspid = 0, msg_lrpid = 0\<rparr>)"

definition newque_install :: "int \<Rightarrow> u32 \<Rightarrow> int \<Rightarrow> qaddr option \<Rightarrow> nat \<Rightarrow> msg_state \<Rightarrow> (msg_result \<times> msg_state) option" where
  "newque_install key msgflg now mem i st =
     (case mem of
        None \<Rightarrow> do { st \<leftarrow> msg_wake msg_lock (st\<lparr>msgque := (msgque st)(i := Msq_Unused)\<rparr>); Some (Msg_Ret (- ENOMEM), st) }
      | Some q \<Rightarrow>
          let st = st\<lparr>mqs := (mqs st)(q := fresh_msq key msgflg now st),
                      mk := set_wq_head (rwait q) None (set_wq_head (wwait q) None (mk st))\<rparr>;
              st = (if i > max_msqid st then st\<lparr>max_msqid := i\<rparr> else st);
              st = st\<lparr>msgque := (msgque st)(i := Msq q), used_queues := used_queues st + 1\<rparr>
          in do { st \<leftarrow> msg_wake msg_lock st; Some (Msg_Ret (uint (msg_seq st) * int MSGMNI + int i), st) })"

text \<open>\<^verbatim>\<open>newque\<close> up to its call of \<^verbatim>\<open>kmalloc\<close>; the slot is returned with \<^verbatim>\<open>Msg_Alloc\<close>.\<close>

definition newque :: "msg_state \<Rightarrow> (msg_result \<times> nat \<times> msg_state) option" where
  "newque st =
     (case newque_reserve st of
        Inl e \<Rightarrow> Some (Msg_Ret e, 0, st)
      | Inr (i, st) \<Rightarrow> Some (Msg_Alloc, i, st))"

text \<open>\<^verbatim>\<open>sys_msgget\<close> with a key, from the slot \<^verbatim>\<open>i\<close> of the search on; the slot at which the search sleeps is returned too.\<close>

definition msgget_from :: "int \<Rightarrow> u32 \<Rightarrow> waddr \<Rightarrow> nat \<Rightarrow> msg_state \<Rightarrow> (msg_result \<times> nat \<times> msg_state) option" where
  "msgget_from key msgflg w i st =
     (case msg_findkey_from key i st of
        Sleeps_At i \<Rightarrow> do { (r, st) \<leftarrow> msg_sleep msg_lock w st; Some (r, i, st) }
      | Not_Found \<Rightarrow> if msgflg AND IPC_CREAT = 0 then Some (Msg_Ret (- ENOENT), 0, st) else newque st
      | Found i \<Rightarrow>
          if msgflg AND IPC_CREAT \<noteq> 0 \<and> msgflg AND IPC_EXCL \<noteq> 0 then Some (Msg_Ret (- EEXIST), i, st)
          else case msgque st i of
                 Msq q \<Rightarrow>
                   if ipcperms (msg_perm (mqs st q)) msgflg (mk st) \<noteq> 0 then Some (Msg_Ret (- EACCES), i, st)
                   else Some (Msg_Ret (uint (ip_seq (msg_perm (mqs st q))) * int MSGMNI + int i), i, st)
               | _ \<Rightarrow> Some (Msg_Ret (- EIDRM), i, st))"

definition sys_msgget :: "int \<Rightarrow> u32 \<Rightarrow> waddr \<Rightarrow> msg_state \<Rightarrow> (msg_result \<times> nat \<times> msg_state) option" where
  "sys_msgget key msgflg w st = (if key = IPC_PRIVATE then newque st else msgget_from key msgflg w 0 st)"

definition msgget_resume :: "int \<Rightarrow> u32 \<Rightarrow> waddr \<Rightarrow> nat \<Rightarrow> msg_state \<Rightarrow> (msg_result \<times> nat \<times> msg_state) option" where
  "msgget_resume key msgflg w i st =
     do { s \<leftarrow> sleep_on_resume msg_lock w (mk st); msgget_from key msgflg w i (st\<lparr>mk := s\<rparr>) }"

section \<open>Removing and controlling\<close>

fun shrink_msq :: "(nat \<Rightarrow> msq_slot) \<Rightarrow> nat \<Rightarrow> nat" where
  "shrink_msq que 0 = 0"
| "shrink_msq que (Suc m) = (if que m = Msq_Unused then shrink_msq que m else m)"

definition freeque_unlink :: "nat \<Rightarrow> qaddr \<Rightarrow> msg_state \<Rightarrow> msg_state" where
  "freeque_unlink i q st =
    (let st = upd_msq q (\<lambda>d. d\<lparr>msg_perm := (msg_perm d)\<lparr>ip_seq := ip_seq (msg_perm d) + 1\<rparr>\<rparr>) st;
         st = st\<lparr>msg_seq := msg_seq st + 1, msgbytes := msgbytes st - uint (msg_cbytes (mqs st q))\<rparr>;
         st = (if i = max_msqid st then st\<lparr>max_msqid := shrink_msq (msgque st) (max_msqid st)\<rparr> else st)
     in st\<lparr>msgque := (msgque st)(i := Msq_Unused), used_queues := used_queues st - 1\<rparr>)"

text \<open>A round of the loop: the messages are freed once nobody waits any more, otherwise \<^verbatim>\<open>schedule()\<close> is called.\<close>

definition freeque_round :: "qaddr \<Rightarrow> msg_state \<Rightarrow> (msg_result \<times> msg_state) option" where
  "freeque_round q st =
     (if wqh (mk st) (rwait q) = None \<and> wqh (mk st) (wwait q) = None
      then do { hs \<leftarrow> msg_chain q st; Some (Msg_Ret 0, st\<lparr>msghdrs := msghdrs st - int (length hs)\<rparr>) }
      else do { st \<leftarrow> msg_wake (rwait q) st; st \<leftarrow> msg_wake (wwait q) st; Some (Msg_Yield q, st) })"

definition freeque :: "nat \<Rightarrow> qaddr \<Rightarrow> msg_state \<Rightarrow> (msg_result \<times> msg_state) option" where
  "freeque i q st = freeque_round q (freeque_unlink i q st)"

text \<open>The structures copied to the user; the pointers in them and the padding of \<^verbatim>\<open>msginfo\<close> are arguments.\<close>

definition msqid_longs :: "u32 \<Rightarrow> u32 \<Rightarrow> u32 \<Rightarrow> u32 \<Rightarrow> u16 \<Rightarrow> msqid_ds \<Rightarrow> u32 list" where
  "msqid_longs first lst ww rw pad d =
    (let p = msg_perm d
     in [to_u32 (ip_key p), two_words (ip_uid p) (ip_gid p), two_words (ip_cuid p) (ip_cgid p), two_words (ip_mode p) (ip_seq p),
         first, lst, to_u32 (msg_stime d), to_u32 (msg_rtime d), to_u32 (msg_ctime d), ww, rw,
         two_words (msg_cbytes d) (msg_qnum d), two_words (msg_qbytes d) (msg_lspid d), two_words (msg_lrpid d) pad])"

definition msginfo_longs :: "u16 \<Rightarrow> int \<Rightarrow> msg_state \<Rightarrow> u32 list" where
  "msginfo_longs pad cmd st =
     [to_u32 (if cmd = MSG_INFO then used_queues st else 2048), to_u32 (if cmd = MSG_INFO then msghdrs st else MSGMNB),
      to_u32 MSGMAX, to_u32 MSGMNB, to_u32 (int MSGMNI), 16, to_u32 (if cmd = MSG_INFO then msgbytes st else MSGMNB),
      two_words 0xffff pad]"

definition msgctl_info :: "u16 \<Rightarrow> int \<Rightarrow> u32 \<Rightarrow> msg_state \<Rightarrow> int \<times> msg_state" where
  "msgctl_info pad cmd buf st =
    (let err = verify_area VERIFY_WRITE buf 32
     in if buf = 0 then (- EFAULT, st)
        else if err \<noteq> 0 then (err, st)
        else (int (max_msqid st), msg_mem (put_longs (msginfo_longs pad cmd st) buf) st))"

definition msgctl_stat :: "(msqid_ds \<Rightarrow> u32 list) \<Rightarrow> int \<Rightarrow> u32 \<Rightarrow> msg_state \<Rightarrow> int \<times> msg_state" where
  "msgctl_stat longs msqid buf st =
    (let err = verify_area VERIFY_WRITE buf 56
     in if buf = 0 then (- EFAULT, st)
        else if err \<noteq> 0 then (err, st)
        else if msqid > int (max_msqid st) then (- EINVAL, st)
        else case msgque st (nat msqid) of
               Msq q \<Rightarrow>
                 if ipcperms (msg_perm (mqs st q)) S_IRUGO (mk st) \<noteq> 0 then (- EACCES, st)
                 else (msqid + uint (ip_seq (msg_perm (mqs st q))) * int MSGMNI, msg_mem (put_longs (longs (mqs st q)) buf) st)
             | _ \<Rightarrow> (- EINVAL, st))"

definition msg_lookup :: "int \<Rightarrow> msg_state \<Rightarrow> int + (nat \<times> qaddr)" where
  "msg_lookup msqid st =
    (let i = nat (msqid mod int MSGMNI)
     in case msgque st i of
          Msq q \<Rightarrow> if uint (ip_seq (msg_perm (mqs st q))) \<noteq> msqid div int MSGMNI then Inl (- EIDRM) else Inr (i, q)
        | _ \<Rightarrow> Inl (- EINVAL))"

definition msgctl_set :: "u16 \<Rightarrow> u16 \<Rightarrow> u16 \<Rightarrow> u16 \<Rightarrow> int \<Rightarrow> qaddr \<Rightarrow> msg_state \<Rightarrow> int \<times> msg_state" where
  "msgctl_set qbytes nuid ngid mode now q st =
     (if uint qbytes > MSGMNB \<and> \<not> suser (mk st) then (- EPERM, st)
      else (0, upd_msq q (\<lambda>d. d\<lparr>msg_qbytes := qbytes, msg_ctime := now, msg_perm := (msg_perm d)\<lparr>ip_uid := nuid, ip_gid := ngid,
                 ip_mode := (ip_mode (msg_perm d) AND NOT 511) OR (511 AND mode)\<rparr>\<rparr>) st))"

definition sys_msgctl :: "(msqid_ds \<Rightarrow> u32 list) \<Rightarrow> u16 \<Rightarrow> int \<Rightarrow> int \<Rightarrow> u32 \<Rightarrow> int \<Rightarrow> msg_state \<Rightarrow> (msg_result \<times> msg_state) option" where
  "sys_msgctl longs pad msqid cmd buf now st =
    (let m = fsmem (mk st); ret = (\<lambda>(r, st). Some (Msg_Ret r, st)); err = verify_area VERIFY_WRITE buf 56
     in if msqid < 0 \<or> cmd < 0 then Some (Msg_Ret (- EINVAL), st)
        else if cmd = IPC_INFO \<or> cmd = MSG_INFO then ret (msgctl_info pad cmd buf st)
        else if cmd = MSG_STAT then ret (msgctl_stat longs msqid buf st)
        else if (cmd = IPC_SET \<or> cmd = IPC_STAT) \<and> buf = 0 then Some (Msg_Ret (- EFAULT), st)
        else if cmd = IPC_STAT \<and> err \<noteq> 0 then Some (Msg_Ret err, st)
        else case msg_lookup msqid st of
               Inl e \<Rightarrow> Some (Msg_Ret e, st)
             | Inr (i, q) \<Rightarrow>
                 let ipcp = msg_perm (mqs st q)
                 in if cmd = IPC_STAT
                    then if ipcperms ipcp S_IRUGO (mk st) \<noteq> 0 then Some (Msg_Ret (- EACCES), st)
                         else Some (Msg_Ret 0, msg_mem (put_longs (longs (mqs st q)) buf) st)
                    else if cmd = IPC_RMID \<or> cmd = IPC_SET
                    then if \<not> may_own ipcp (mk st) then Some (Msg_Ret (- EPERM), st)
                         else if cmd = IPC_RMID then freeque i q st
                         else ret (msgctl_set (get_fs_word m (buf + 48)) (get_fs_word m (buf + 4)) (get_fs_word m (buf + 6))
                                     (get_fs_word m (buf + 12)) now q st)
                    else Some (Msg_Ret (- EINVAL), st))"

end
