(* ===== verification/Chains.thy ===== *)
theory Chains
  imports Kernel_Prelude
begin

text \<open>
  Singly linked chains: \<^verbatim>\<open>linked nx p hs\<close> says that following the link \<^verbatim>\<open>nx\<close> from \<^verbatim>\<open>p\<close> gives the elements \<^verbatim>\<open>hs\<close> and then ends.  The messages of a
  queue and the free pages and blocks of the allocator are such chains.
\<close>

fun linked :: "('a \<Rightarrow> 'a option) \<Rightarrow> 'a option \<Rightarrow> 'a list \<Rightarrow> bool" where
  "linked nx p [] \<longleftrightarrow> p = None"
| "linked nx p (h # hs) \<longleftrightarrow> p = Some h \<and> linked nx (nx h) hs"

lemma linked_cong: "(\<And>h. h \<in> set hs \<Longrightarrow> nx' h = nx h) \<Longrightarrow> linked nx' p hs = linked nx p hs"
  by (induction hs arbitrary: p) auto

lemma linked_first: "linked nx p hs \<Longrightarrow> p = (if hs = [] then None else Some (hd hs))"
  by (cases hs) auto

text \<open>Appending at the end, and taking out an inner element.\<close>

lemma linked_append:
  assumes "linked nx p hs" "hs \<noteq> []" "distinct hs" "h \<notin> set hs"
  shows "linked (nx(last hs := Some h, h := None)) p (hs @ [h])"
  using assms
proof (induction hs arbitrary: p)
  case (Cons a hs)
  then show ?case
  proof (cases "hs = []")
    case False
    then have "last (a # hs) \<noteq> a" using Cons.prems(3) by auto
    then show ?thesis using Cons False by auto
  qed auto
qed simp

lemma linked_next:
  assumes "linked nx p (xs @ t # n # ys)"
  shows "nx t = Some n" "linked nx (nx n) ys"
  using assms by (induction xs arbitrary: p) auto

lemma linked_remove:
  assumes "linked nx p (xs @ t # n # ys)" "distinct (xs @ t # n # ys)"
  shows "linked (nx(t := nx n)) p (xs @ t # ys)"
  using assms
proof (induction xs arbitrary: p)
  case Nil
  then have "linked (nx(t := nx n)) (nx n) ys = linked nx (nx n) ys" by (intro linked_cong) auto
  then show ?case using Nil by (simp add: fun_upd_def)
qed auto

lemma find_skip: "find P xs = None \<Longrightarrow> find P (xs @ ys) = find P ys"
  by (induction xs) (auto split: if_splits)

lemma linked_pred:
  assumes "linked nx p (xs @ t # n # ys)" "distinct (xs @ t # n # ys)"
  shows "find (\<lambda>h. nx h = Some n) (xs @ t # n # ys) = Some t"
proof -
  have "nx h \<noteq> Some n" if "h \<in> set xs" for h
  proof -
    from split_list [OF that] obtain us vs where xs: "xs = us @ h # vs" by blast
    obtain k ks where k: "vs @ t # n # ys = k # ks" by (cases vs) auto
    have "linked nx p (us @ h # k # ks)" using assms(1) xs k by simp
    then have "nx h = Some k" by (rule linked_next)
    moreover have "k \<noteq> n" using k assms(2) xs by (cases vs) auto
    ultimately show ?thesis by simp
  qed
  then have "find (\<lambda>h. nx h = Some n) xs = None" by (simp add: find_None_iff)
  then show ?thesis using linked_next(1) [OF assms(1)] by (simp add: find_skip)
qed

lemma linked_elem: "linked nx p hs \<Longrightarrow> h \<in> set hs \<Longrightarrow> p = Some h \<or> (\<exists>g\<in>set hs. nx g = Some h)"
  by (induction hs arbitrary: p) auto

lemma linked_next_in: "linked nx p hs \<Longrightarrow> h \<in> set hs \<Longrightarrow> nx h = None \<or> (\<exists>g\<in>set hs. nx h = Some g)"
proof (induction hs arbitrary: p)
  case (Cons a hs)
  then show ?case using linked_first [of nx "nx a" hs] by (cases hs) auto
qed simp

end
