(* ===== verification/Ipc_Msg_Laws.thy ===== *)
theory Ipc_Msg_Laws
  imports Ipc_Msg Ipc_Ids Chains
begin

text \<open>
  A message queue is a list of messages.  \<^verbatim>\<open>msgq_ok\<close> relates the chain of headers of a \<^verbatim>\<open>msqid_ds\<close> to it; sending appends to the
  list and receiving takes out the message the type asks for.
\<close>

lemma linked_walk: "linked nx p hs \<Longrightarrow> undo_walk nx p = Some hs"
proof (induction hs arbitrary: p)
  case Nil
  then show ?case by (simp add: undo_walk.simps)
next
  case (Cons h hs)
  then show ?case by (subst undo_walk.simps) simp
qed

section \<open>A queue as a list of messages\<close>

definition msgs_of :: "msg_state \<Rightarrow> maddr list \<Rightarrow> (int \<times> u8 list) list" where
  "msgs_of st hs = map (\<lambda>h. (msg_type (mhs st h), msg_spot (mhs st h))) hs"

definition msg_ok :: "msg \<Rightarrow> bool" where
  "msg_ok m \<longleftrightarrow> msg_ts m = int (length (msg_spot m)) \<and> msg_ts m \<le> MSGMAX \<and> 1 \<le> msg_type m \<and> fits_s32 (msg_type m)"

lemma msg_ok_next [simp]: "msg_ok (m\<lparr>msg_next := x\<rparr>) = msg_ok m"
  by (simp add: msg_ok_def)

definition msgq_ok :: "msg_state \<Rightarrow> qaddr \<Rightarrow> maddr list \<Rightarrow> bool" where
  "msgq_ok st q hs \<longleftrightarrow>
     linked (\<lambda>h. msg_next (mhs st h)) (msg_first (mqs st q)) hs \<and> distinct hs
     \<and> msg_last (mqs st q) = (if hs = [] then None else Some (last hs))
     \<and> msg_qnum (mqs st q) = of_nat (length hs) \<and> uint (msg_cbytes (mqs st q)) = (\<Sum>h\<leftarrow>hs. msg_ts (mhs st h))
     \<and> (\<forall>h\<in>set hs. msg_ok (mhs st h))"

lemma msgq_okI:
  assumes "linked nx (msg_first (mqs st q)) hs" "(\<lambda>h. msg_next (mhs st h)) = nx" "distinct hs" "msg_last (mqs st q) = (if hs = [] then None else Some (last hs))"
    "msg_qnum (mqs st q) = of_nat (length hs)" "uint (msg_cbytes (mqs st q)) = (\<Sum>h\<leftarrow>hs. msg_ts (mhs st h))" "\<And>h. h \<in> set hs \<Longrightarrow> msg_ok (mhs st h)"
  shows "msgq_ok st q hs"
  using assms unfolding msgq_ok_def by blast

lemma msgq_chain: "msgq_ok st q hs \<Longrightarrow> msg_chain q st = Some hs"
  by (simp add: msgq_ok_def msg_chain_def linked_walk)

lemma msgq_first: "msgq_ok st q hs \<Longrightarrow> msg_first (mqs st q) = (if hs = [] then None else Some (hd hs))"
  unfolding msgq_ok_def using linked_first by blast

lemma msg_upd_simps [simp]:
  "mk (upd_msq q f st) = mk st" "mk (upd_msg h g st) = mk st" "mhs (upd_msq q f st) = mhs st" "mqs (upd_msg h g st) = mqs st"
  "mqs (upd_msq q f st) = (mqs st)(q := f (mqs st q))" "mhs (upd_msg h g st) = (mhs st)(h := g (mhs st h))"
  "msgque (upd_msq q f st) = msgque st" "msgque (upd_msg h g st) = msgque st"
  by (simp_all add: upd_msq_def upd_msg_def)

text \<open>What waking leaves alone.\<close>

definition same_caller :: "kernel \<Rightarrow> kernel \<Rightarrow> bool" where
  "same_caller s s' \<longleftrightarrow> fsmem s' = fsmem s \<and> current s' = current s \<and> task s' = task s \<and> wqh s' = wqh s \<and> wqe s' = wqe s
     \<and> (\<forall>t. euid (tsk s' t) = euid (tsk s t) \<and> egid (tsk s' t) = egid (tsk s t) \<and> groups (tsk s' t) = groups (tsk s t))"

lemma same_caller_refl [simp]: "same_caller s s"
  by (simp add: same_caller_def)

lemma same_callerD:
  assumes "same_caller s s'"
  shows "fsmem s' = fsmem s" "current s' = current s" "task s' = task s" "wq_ring s' p ws = wq_ring s p ws" "ipcperms c f s' = ipcperms c f s"
  using assms by (auto simp: same_caller_def wq_ring_def ipcperms_def suser_def in_group_p_def Let_def)

lemma same_caller_trans: "same_caller s s1 \<Longrightarrow> same_caller s1 s2 \<Longrightarrow> same_caller s s2"
  by (simp add: same_caller_def)

lemma wake_entry_caller: "same_caller s (wake_entry sts s w)"
  by (auto simp: same_caller_def wake_entry_def upd_task_def Let_def split: option.splits)

lemma wake_entries_caller: "same_caller s (foldl (wake_entry sts) s ws)"
  by (induction ws rule: rev_induct) (auto intro: same_caller_trans [OF _ wake_entry_caller])

lemma msg_wake_ring:
  assumes "wq_ring (mk st) p ws"
  shows "\<exists>s. msg_wake p st = Some (st\<lparr>mk := s\<rparr>) \<and> same_caller (mk st) s"
proof (cases "wqh (mk st) p")
  case None
  then show ?thesis by (intro exI [of _ "mk st"]) (simp add: msg_wake_def)
next
  case (Some w)
  let ?s = "foldl (wake_entry {TASK_UNINTERRUPTIBLE, TASK_INTERRUPTIBLE}) (mk st) ws"
  show ?thesis using wake_up_ring [OF assms] Some wake_entries_caller by (intro exI [of _ ?s]) (simp add: msg_wake_def)
qed

section \<open>Sending\<close>

lemma snd_link_effect:
  assumes q: "msgq_ok st q hs" and h: "h \<notin> set hs" "msg_next (mhs st h) = None"
  shows "\<exists>st'. snd_link q h st = Some st' \<and> mk st' = mk st \<and> msgque st' = msgque st
    \<and> msgbytes st' = msgbytes st \<and> msghdrs st' = msghdrs st
    \<and> (\<exists>nx. mhs st' = (\<lambda>x. (mhs st x)\<lparr>msg_next := nx x\<rparr>) \<and> linked nx (msg_first (mqs st' q)) (hs @ [h])
         \<and> (\<forall>x. x \<notin> set hs \<longrightarrow> nx x = msg_next (mhs st x)))
    \<and> mqs st' = (mqs st)(q := (mqs st q)\<lparr>msg_first := msg_first (mqs st' q), msg_last := Some h\<rparr>)"
proof (cases "hs = []")
  case True
  have "(\<lambda>x. (mhs st x)\<lparr>msg_next := msg_next (mhs st x)\<rparr>) = mhs st" by (auto intro!: ext)
  then show ?thesis using True q h
    by (intro exI [of _ "upd_msq q (\<lambda>d. d\<lparr>msg_first := Some h, msg_last := Some h\<rparr>) st"])
      (auto simp: snd_link_def msgq_ok_def upd_msq_def intro!: exI [of _ "\<lambda>x. msg_next (mhs st x)"])
next
  case False
  let ?nx = "(\<lambda>x. msg_next (mhs st x))(last hs := Some h, h := None)"
  have f: "msg_first (mqs st q) = Some (hd hs)" "msg_last (mqs st q) = Some (last hs)"
    using q False linked_first unfolding msgq_ok_def by fastforce+
  have l: "last hs \<noteq> h" using False h by (metis last_in_set)
  have "linked ?nx (msg_first (mqs st q)) (hs @ [h])" using q False h(1) by (intro linked_append) (auto simp: msgq_ok_def)
  moreover have "(mhs st)(last hs := (mhs st (last hs))\<lparr>msg_next := Some h\<rparr>) = (\<lambda>x. (mhs st x)\<lparr>msg_next := ?nx x\<rparr>)"
    using h(2) l by (auto intro!: ext)
  ultimately show ?thesis using f h(2) l False last_in_set [OF False]
    by (intro exI [of _ "upd_msq q (\<lambda>d. d\<lparr>msg_last := Some h\<rparr>) (upd_msg (last hs) (\<lambda>m. m\<lparr>msg_next := Some h\<rparr>) st)"])
      (auto simp: snd_link_def upd_msq_def upd_msg_def intro!: exI [of _ ?nx])
qed

text \<open>The conditions under which a message is accepted.\<close>

definition snd_ready :: "int \<Rightarrow> qaddr \<Rightarrow> int \<Rightarrow> msg_state \<Rightarrow> bool" where
  "snd_ready msqid q msgsz st \<longleftrightarrow>
     msgque st (nat (msqid mod int MSGMNI)) = Msq q \<and> uint (ip_seq (msg_perm (mqs st q))) = msqid div int MSGMNI
     \<and> 0 \<le> msgsz \<and> msgsz \<le> MSGMAX \<and> msgsz + uint (msg_cbytes (mqs st q)) \<le> uint (msg_qbytes (mqs st q))"

lemma uint_u16_add:
  assumes "0 \<le> n" "uint a + n < 65536"
  shows "uint (a + word_of_int n :: u16) = uint a + n"
proof -
  have "uint (a + word_of_int n :: u16) = (uint a + n) mod 65536"
    by (simp add: uint_word_ariths uint_word_of_int mod_simps)
  then show ?thesis using assms by simp
qed

lemma snd_install_effect:
  assumes q: "msgq_ok st q hs" and h: "h \<notin> set hs" and r: "snd_ready msqid q msgsz st" and t: "1 \<le> mtype" "fits_s32 mtype"
    and ring: "wq_ring (mk st) (rwait q) ws"
  shows "\<exists>st'. snd_install msqid q msgp mtype msgsz now (Some h) st = Some (Msg_Ret msgsz, st') \<and> msgq_ok st' q (hs @ [h])
    \<and> msgs_of st' (hs @ [h]) = msgs_of st hs @ [(mtype, user_bytes (fsmem (mk st)) (msgp + 4) (nat msgsz))]
    \<and> same_caller (mk st) (mk st') \<and> msgque st' = msgque st
    \<and> (\<forall>p. p \<noteq> q \<longrightarrow> mqs st' p = mqs st p) \<and> msg_perm (mqs st' q) = msg_perm (mqs st q) \<and> msg_qbytes (mqs st' q) = msg_qbytes (mqs st q)
    \<and> (\<forall>x. x \<notin> set hs \<and> x \<noteq> h \<longrightarrow> mhs st' x = mhs st x)"
proof -
  let ?text = "user_bytes (fsmem (mk st)) (msgp + 4) (nat msgsz)"
  let ?st0 = "upd_msg h (\<lambda>m. m\<lparr>msg_next := None\<rparr>) (upd_msg h (\<lambda>m. m\<lparr>msg_spot := ?text\<rparr>) st)"
  have same: "mhs ?st0 x = mhs st x" if "x \<noteq> h" for x using that by simp
  have q0: "msgq_ok ?st0 q hs"
  proof -
    have "(\<Sum>x\<leftarrow>hs. msg_ts (mhs ?st0 x)) = (\<Sum>x\<leftarrow>hs. msg_ts (mhs st x))" using h by (intro arg_cong [where f = sum_list] map_cong) auto
    moreover have "linked (\<lambda>x. msg_next (mhs ?st0 x)) p hs = linked (\<lambda>x. msg_next (mhs st x)) p hs" for p
      using h by (intro linked_cong) auto
    ultimately show ?thesis using q h unfolding msgq_ok_def by auto
  qed
  obtain st1 nx where st1: "snd_link q h ?st0 = Some st1" "mk st1 = mk st" "msgque st1 = msgque st"
      "mhs st1 = (\<lambda>x. (mhs ?st0 x)\<lparr>msg_next := nx x\<rparr>)" "linked nx (msg_first (mqs st1 q)) (hs @ [h])"
      "\<And>x. x \<notin> set hs \<Longrightarrow> nx x = msg_next (mhs ?st0 x)" "mqs st1 = (mqs st)(q := (mqs st q)\<lparr>msg_first := msg_first (mqs st1 q), msg_last := Some h\<rparr>)"
    using snd_link_effect [OF q0 h] by auto
  let ?st2 = "upd_msq q (\<lambda>d. d\<lparr>msg_cbytes := msg_cbytes d + word_of_int msgsz, msg_qnum := msg_qnum d + 1,
      msg_lspid := word_of_int (pid (cur (mk st))), msg_stime := now\<rparr>) (upd_msg h (\<lambda>m. m\<lparr>msg_ts := msgsz, msg_type := mtype\<rparr>) st1)"
  let ?st3 = "?st2\<lparr>msgbytes := msgbytes ?st2 + msgsz, msghdrs := msghdrs ?st2 + 1\<rparr>"
  have "wq_ring (mk ?st3) (rwait q) ws" using ring st1(2) by simp
  from msg_wake_ring [OF this] obtain s where s: "msg_wake (rwait q) ?st3 = Some (?st3\<lparr>mk := s\<rparr>)" "same_caller (mk st) s"
    using st1(2) by auto
  have run: "snd_install msqid q msgp mtype msgsz now (Some h) st = Some (Msg_Ret msgsz, ?st3\<lparr>mk := s\<rparr>)"
    using r s(1) st1(1,2) unfolding snd_install_def snd_ready_def by (simp add: Let_def)
  define st3 where "st3 = ?st3"
  have d: "mqs st3 q = (mqs st q)\<lparr>msg_first := msg_first (mqs st1 q), msg_last := Some h, msg_cbytes := msg_cbytes (mqs st q) + word_of_int msgsz,
      msg_qnum := msg_qnum (mqs st q) + 1, msg_lspid := word_of_int (pid (cur (mk st))), msg_stime := now\<rparr>"
  proof -
    have "mqs st1 q = (mqs st q)\<lparr>msg_first := msg_first (mqs st1 q), msg_last := Some h\<rparr>" by (subst st1(7)) simp
    then show ?thesis by (cases "mqs st1 q"; cases "mqs st q") (simp add: st3_def)
  qed
  have m: "mhs st3 h = \<lparr>msg_next = nx h, msg_type = mtype, msg_spot = ?text, msg_ts = msgsz\<rparr>"
      "\<And>x. x \<noteq> h \<Longrightarrow> mhs st3 x = (mhs st x)\<lparr>msg_next := nx x\<rparr>" by (simp_all add: st3_def st1(4))
  have nx: "(\<lambda>x. msg_next (mhs st3 x)) = nx"
  proof
    fix x show "msg_next (mhs st3 x) = nx x" using m(1) m(2) [of x] by (cases "x = h") simp_all
  qed
  have mh: "mhs st3 x = (mhs st x)\<lparr>msg_next := nx x\<rparr>" if "x \<in> set hs" for x using m(2) h that by metis
  have sums: "(\<Sum>x\<leftarrow>hs. msg_ts (mhs st3 x)) = (\<Sum>x\<leftarrow>hs. msg_ts (mhs st x))" using mh by (intro arg_cong [where f = sum_list] map_cong) auto
  have ok: "msgq_ok st3 q (hs @ [h])"
  proof (rule msgq_okI [OF _ nx])
    show "linked nx (msg_first (mqs st3 q)) (hs @ [h])" using st1(5) d by simp
    show "msg_qnum (mqs st3 q) = of_nat (length (hs @ [h]))" using q d by (simp add: msgq_ok_def)
    have "uint (msg_cbytes (mqs st3 q)) = uint (msg_cbytes (mqs st q)) + msgsz"
      unfolding d using r uint_lt2p [of "msg_qbytes (mqs st q)"] unfolding snd_ready_def by (simp add: uint_u16_add)
    then show "uint (msg_cbytes (mqs st3 q)) = (\<Sum>x\<leftarrow>hs @ [h]. msg_ts (mhs st3 x))" using q m(1) sums by (simp add: msgq_ok_def)
    show "msg_last (mqs st3 q) = (if hs @ [h] = [] then None else Some (last (hs @ [h])))" "distinct (hs @ [h])"
      using d q h by (simp_all add: msgq_ok_def)
    have "msg_ok (mhs st3 h)" using m(1) t r by (simp add: msg_ok_def snd_ready_def)
    then show "msg_ok (mhs st3 x)" if "x \<in> set (hs @ [h])" for x using that mh q by (auto simp: msgq_ok_def)
  qed
  have "mqs st1 p = mqs st p" if "p \<noteq> q" for p using that by (subst st1(7)) simp
  then have kept: "\<forall>p. p \<noteq> q \<longrightarrow> mqs st3 p = mqs st p" "\<forall>x. x \<notin> set hs \<and> x \<noteq> h \<longrightarrow> mhs st3 x = mhs st x"
    using st1(6) m(2) by (simp add: st3_def, simp)
  have ms: "msgs_of st3 (hs @ [h]) = msgs_of st hs @ [(mtype, ?text)]" using m(1) mh by (simp add: msgs_of_def)
  have "snd_install msqid q msgp mtype msgsz now (Some h) st = Some (Msg_Ret msgsz, st3\<lparr>mk := s\<rparr>)" "msgque st3 = msgque st"
    using run st1(3) by (simp_all add: st3_def)
  then show ?thesis using ok ms kept d s(2) by (intro exI [of _ "st3\<lparr>mk := s\<rparr>"]) (simp add: msgq_ok_def msgs_of_def)
qed

section \<open>Receiving\<close>

text \<open>The message a receiver gets is the first of those it asks for: any, those of a type, those not of a type, or those of
  the least type up to a bound.\<close>

definition asked :: "int \<Rightarrow> bool \<Rightarrow> int \<Rightarrow> bool" where
  "asked typ ex t \<longleftrightarrow> (if typ = 0 then True else if typ > 0 then (if ex then t \<noteq> typ else t = typ) else t \<le> - typ)"

definition selects :: "int \<Rightarrow> bool \<Rightarrow> (int \<times> u8 list) list \<Rightarrow> int \<times> u8 list \<Rightarrow> (int \<times> u8 list) list \<Rightarrow> bool" where
  "selects typ ex xs m ys \<longleftrightarrow> asked typ ex (fst m)
     \<and> (if typ < 0 then (\<forall>x\<in>set xs. fst m < fst x) \<and> (\<forall>y\<in>set ys. fst m \<le> fst y) else (\<forall>x\<in>set xs. \<not> asked typ ex (fst x)))"

lemma find_split:
  assumes "find P hs = Some n"
  shows "\<exists>xs ys. hs = xs @ n # ys \<and> P n \<and> (\<forall>x\<in>set xs. \<not> P x)"
  using assms
proof (induction hs)
  case (Cons a hs)
  show ?case
  proof (cases "P a")
    case True
    then show ?thesis using Cons.prems by (intro exI [of _ "[]"] exI [of _ hs]) auto
  next
    case False
    then obtain xs ys where "hs = xs @ n # ys \<and> P n \<and> (\<forall>x\<in>set xs. \<not> P x)" using Cons by auto
    then have "a # hs = (a # xs) @ n # ys \<and> P n \<and> (\<forall>x\<in>set (a # xs). \<not> P x)" using False by simp
    then show ?thesis by blast
  qed
qed simp

lemma least_split:
  assumes "hs \<noteq> []"
  shows "\<exists>xs n ys. hs = xs @ n # ys \<and> least_msg st hs = Some n
    \<and> (\<forall>x\<in>set xs. msg_type (mhs st n) < msg_type (mhs st x)) \<and> (\<forall>y\<in>set ys. msg_type (mhs st n) \<le> msg_type (mhs st y))"
  using assms
proof (induction hs rule: rev_induct)
  case (snoc a hs)
  show ?case
  proof (cases hs)
    case Nil
    then show ?thesis by (intro exI [of _ "[]"]) (auto simp: least_msg_def)
  next
    case (Cons h hs')
    then obtain xs n ys where ih: "hs = xs @ n # ys" "least_msg st hs = Some n"
      "\<forall>x\<in>set xs. msg_type (mhs st n) < msg_type (mhs st x)" "\<forall>y\<in>set ys. msg_type (mhs st n) \<le> msg_type (mhs st y)" using snoc by auto
    have l: "least_msg st (hs @ [a]) = Some (if msg_type (mhs st a) < msg_type (mhs st n) then a else n)"
      using ih(2) Cons by (auto simp: least_msg_def)
    show ?thesis
    proof (cases "msg_type (mhs st a) < msg_type (mhs st n)")
      case True
      then have "\<forall>x\<in>set hs. msg_type (mhs st a) < msg_type (mhs st x)" using ih by (fastforce simp: ih(1))
      then show ?thesis using l True by (intro exI [of _ hs] exI [of _ a] exI [of _ "[]"]) simp
    next
      case False
      then show ?thesis using l ih by (intro exI [of _ xs] exI [of _ n] exI [of _ "ys @ [a]"]) auto
    qed
  qed
qed simp

lemma rcv_find_cases:
  assumes q: "msgq_ok st q hs" and low: "- (2 ^ 31) < typ"
  shows "rcv_find q typ flg st = Some None \<and> (\<forall>m\<in>set (msgs_of st hs). \<not> asked typ (flg AND MSG_EXCEPT \<noteq> 0) (fst m))
    \<or> (\<exists>xs n ys. rcv_find q typ flg st = Some (Some n) \<and> hs = xs @ n # ys
         \<and> selects typ (flg AND MSG_EXCEPT \<noteq> 0) (msgs_of st xs) (msg_type (mhs st n), msg_spot (mhs st n)) (msgs_of st ys))"
proof -
  let ?ex = "flg AND MSG_EXCEPT \<noteq> 0"
  have c: "msg_chain q st = Some hs" using q by (rule msgq_chain)
  consider (first) "typ = 0" | (exact) "typ > 0" | (least) "typ < 0" by linarith
  then show ?thesis
  proof cases
    case first
    then show ?thesis using msgq_first [OF q] by (cases hs) (auto simp: rcv_find_def msgs_of_def selects_def asked_def)
  next
    case exact
    let ?P = "\<lambda>h. asked typ ?ex (msg_type (mhs st h))"
    have f: "rcv_find q typ flg st = Some (find ?P hs)" using exact c by (simp add: rcv_find_def asked_def)
    show ?thesis
    proof (cases "find ?P hs")
      case None
      then show ?thesis using f by (auto simp: msgs_of_def find_None_iff)
    next
      case (Some n)
      then show ?thesis using f find_split [OF Some] exact by (auto simp: selects_def msgs_of_def)
    qed
  next
    case least
    have sw: "swrap (- typ) = - typ" using least low by (intro swrap_id) (simp add: fits_s32_def)
    show ?thesis
    proof (cases "hs = []")
      case True
      then show ?thesis using least c by (simp add: rcv_find_def least_msg_def msgs_of_def)
    next
      case False
      obtain xs n ys where n: "hs = xs @ n # ys" "least_msg st hs = Some n" "\<forall>x\<in>set xs. msg_type (mhs st n) < msg_type (mhs st x)"
        "\<forall>y\<in>set ys. msg_type (mhs st n) \<le> msg_type (mhs st y)" using least_split [OF False] by blast
      have f: "rcv_find q typ flg st = Some (if msg_type (mhs st n) \<le> - typ then Some n else None)"
        using least c n(2) sw by (simp add: rcv_find_def)
      show ?thesis
      proof (cases "msg_type (mhs st n) \<le> - typ")
        case True
        have "selects typ ?ex (msgs_of st xs) (msg_type (mhs st n), msg_spot (mhs st n)) (msgs_of st ys)"
          using True least n(3,4) by (simp add: selects_def asked_def msgs_of_def)
        then show ?thesis using f True n(1) by auto
      next
        case False
        then have "\<forall>m\<in>set (msgs_of st hs). \<not> asked typ ?ex (fst m)" using least n by (fastforce simp: msgs_of_def asked_def)
        then show ?thesis using f False by simp
      qed
    qed
  qed
qed

lemma rcv_unlink_effect:
  assumes q: "msgq_ok st q (xs @ n # ys)"
  shows "\<exists>st'. rcv_unlink q n st = Some st' \<and> mk st' = mk st \<and> msgque st' = msgque st
    \<and> (\<exists>nx. mhs st' = (\<lambda>x. (mhs st x)\<lparr>msg_next := nx x\<rparr>) \<and> linked nx (msg_first (mqs st' q)) (xs @ ys)
         \<and> (\<forall>x. x \<notin> set (xs @ n # ys) \<longrightarrow> nx x = msg_next (mhs st x)))
    \<and> (\<exists>l. (xs @ ys \<noteq> [] \<longrightarrow> l = Some (last (xs @ ys)))
         \<and> mqs st' = (mqs st)(q := (mqs st q)\<lparr>msg_first := msg_first (mqs st' q), msg_last := l\<rparr>))"
proof -
  let ?nx = "\<lambda>h. msg_next (mhs st h)"
  have l: "linked ?nx (msg_first (mqs st q)) (xs @ n # ys)" "distinct (xs @ n # ys)" "msg_last (mqs st q) = Some (last (n # ys))"
    using q by (simp_all add: msgq_ok_def)
  have same: "(\<lambda>x. (mhs st x)\<lparr>msg_next := msg_next (mhs st x)\<rparr>) = mhs st" by (auto intro!: ext)
  show ?thesis
  proof (cases xs rule: rev_cases)
    case Nil
    then have "msg_first (mqs st q) = Some n" using l(1) by simp
    then have "rcv_unlink q n st = Some (upd_msq q (\<lambda>d. d\<lparr>msg_first := msg_next (mhs st n)\<rparr>) st)" by (simp add: rcv_unlink_def)
    moreover have "(mqs st q)\<lparr>msg_first := f\<rparr> = (mqs st q)\<lparr>msg_first := f, msg_last := Some (last (n # ys))\<rparr>" for f
      using l(3) by (cases "mqs st q") simp
    ultimately show ?thesis using Nil l same
      by (intro exI [of _ "upd_msq q (\<lambda>d. d\<lparr>msg_first := msg_next (mhs st n)\<rparr>) st"])
        (auto intro!: exI [of _ ?nx] exI [of _ "Some (last (n # ys))"])
  next
    case (snoc us t)
    then have l': "linked ?nx (msg_first (mqs st q)) (us @ t # n # ys)" "distinct (us @ t # n # ys)" using l by simp_all
    have f: "msg_first (mqs st q) \<noteq> Some n"
      using linked_first [OF l'(1)] l'(2) by (cases us) auto
    let ?st1 = "upd_msg t (\<lambda>m. m\<lparr>msg_next := msg_next (mhs st n)\<rparr>) st"
    let ?st2 = "if msg_last (mqs st q) = Some n then upd_msq q (\<lambda>d. d\<lparr>msg_last := Some t\<rparr>) ?st1 else ?st1"
    have r: "rcv_unlink q n st = Some ?st2"
      using f msgq_chain [OF q] linked_pred [OF l'] snoc by (simp add: rcv_unlink_def)
    have nx: "mhs ?st2 = (\<lambda>x. (mhs st x)\<lparr>msg_next := (?nx(t := ?nx n)) x\<rparr>)" by (auto intro!: ext)
    have lk: "linked (?nx(t := ?nx n)) (msg_first (mqs ?st2 q)) (xs @ ys)" using linked_remove [OF l'] snoc by simp
    let ?l = "Some (last (t # ys))"
    have e: "msg_last (mqs st q) = Some n \<longleftrightarrow> ys = []" using l(2,3) by (cases ys rule: rev_cases) auto
    have "mqs ?st2 q = (mqs st q)\<lparr>msg_first := msg_first (mqs ?st2 q), msg_last := ?l\<rparr>"
      using e l(3) by (cases "mqs st q") auto
    then have ds: "mqs ?st2 = (mqs st)(q := (mqs st q)\<lparr>msg_first := msg_first (mqs ?st2 q), msg_last := ?l\<rparr>)"
      by (auto simp: fun_eq_iff)
    show ?thesis using r nx lk ds snoc
      by (intro exI [of _ ?st2] conjI exI [of _ "?nx(t := ?nx n)"] exI [of _ ?l]) auto
  qed
qed

lemma sum_remove: "(\<Sum>h\<leftarrow>xs @ n # ys. f h) = f n + (\<Sum>h\<leftarrow>xs @ ys. f h)" for f :: "nat \<Rightarrow> int"
  by simp

lemma uint_u16_sub:
  assumes "0 \<le> n" "n \<le> uint a"
  shows "uint (a - word_of_int n :: u16) = uint a - n"
proof -
  have "uint (a - word_of_int n :: u16) = (uint a - n) mod 65536"
    by (simp add: uint_word_ariths uint_word_of_int mod_simps)
  then show ?thesis using assms uint_lt2p [of a] by simp
qed

lemma unat_u16_small: "n < 65536 \<Longrightarrow> unat (of_nat n :: u16) = n"
  by (simp add: unat_of_nat)

text \<open>What \<^verbatim>\<open>msgrcv\<close> writes to the caller's buffer.\<close>

definition deliver :: "u32 \<Rightarrow> int \<Rightarrow> int \<times> u8 list \<Rightarrow> umem \<Rightarrow> umem" where
  "deliver msgp msgsz m mem = put_bytes (take (nat msgsz) (snd m)) (msgp + 4) (put_fs_long (to_u32 (fst m)) msgp mem)"

lemma deliver_reads:
  assumes "0 \<le> n" "n \<le> MSGMAX" "n \<le> int (length (snd m))" "fits_s32 (fst m)"
  shows "to_s32 (get_fs_long (deliver p n m mem) p) = fst m" "user_bytes (deliver p n m mem) (p + 4) (nat n) = take (nat n) (snd m)"
proof -
  let ?bs = "take (nat n) (snd m)"
  have len: "length ?bs = nat n" using assms by simp
  have "put_bytes ?bs (p + 4) m' b = m' b" if "b \<in> {p, p + 1, p + 2, p + 3}" for m' b
  proof (rule put_bytes_other)
    fix i
    assume "i < length ?bs"
    then have "Suc i \<le> 4096" "Suc (Suc i) \<le> 4096" "i + 3 \<le> 4096" "i + 4 \<le> 4096" using len assms by simp_all
    then show "b \<noteq> p + 4 + of_nat i"
      using that small_offset [of "Suc i" "p + 3"] small_offset [of "i + 2" "p + 2"] small_offset [of "i + 3" "p + 1"] small_offset [of "i + 4" p]
      by (auto simp: algebra_simps)
  qed
  then have "get_fs_long (deliver p n m mem) p = get_fs_long (put_fs_long (to_u32 (fst m)) p mem) p" by (simp add: get_fs_long_def deliver_def)
  then show "to_s32 (get_fs_long (deliver p n m mem) p) = fst m" using assms(4) to_s32_to_u32 by simp
  show "user_bytes (deliver p n m mem) (p + 4) (nat n) = take (nat n) (snd m)"
    using user_bytes_put [of ?bs "p + 4"] len assms by (simp add: deliver_def)
qed

lemma rcv_take_effect:
  assumes q: "msgq_ok st q (xs @ n # ys)" and sz: "0 \<le> msgsz" and len: "length (xs @ ys) < 65535"
    and fit: "msg_ts (mhs st n) \<le> msgsz \<or> flg AND MSG_NOERROR \<noteq> 0" and ring: "wq_ring (mk st) (wwait q) ws"
  shows "\<exists>st'. rcv_take q n msgp msgsz flg now st = Some (Msg_Ret (min msgsz (msg_ts (mhs st n))), st') \<and> msgq_ok st' q (xs @ ys)
    \<and> msgs_of st' (xs @ ys) = msgs_of st (xs @ ys)
    \<and> fsmem (mk st') = deliver msgp (min msgsz (msg_ts (mhs st n))) (msg_type (mhs st n), msg_spot (mhs st n)) (fsmem (mk st))
    \<and> current (mk st') = current (mk st) \<and> msgque st' = msgque st
    \<and> (\<forall>p. p \<noteq> q \<longrightarrow> mqs st' p = mqs st p) \<and> msg_perm (mqs st' q) = msg_perm (mqs st q) \<and> msg_qbytes (mqs st' q) = msg_qbytes (mqs st q)
    \<and> (\<forall>x. x \<notin> set (xs @ n # ys) \<longrightarrow> mhs st' x = mhs st x)"
proof -
  let ?ts = "msg_ts (mhs st n)"
  obtain st1 nx l where st1: "rcv_unlink q n st = Some st1" "mk st1 = mk st" "msgque st1 = msgque st"
      "mhs st1 = (\<lambda>x. (mhs st x)\<lparr>msg_next := nx x\<rparr>)" "linked nx (msg_first (mqs st1 q)) (xs @ ys)"
      "\<And>x. x \<notin> set (xs @ n # ys) \<Longrightarrow> nx x = msg_next (mhs st x)" "xs @ ys \<noteq> [] \<Longrightarrow> l = Some (last (xs @ ys))"
      "mqs st1 = (mqs st)(q := (mqs st q)\<lparr>msg_first := msg_first (mqs st1 q), msg_last := l\<rparr>)"
    using rcv_unlink_effect [OF q] by blast
  define st2 where "st2 = upd_msq q (\<lambda>d. d\<lparr>msg_qnum := msg_qnum d - 1\<rparr>) st1"
  define st3 where "st3 = (if msg_qnum (mqs st2 q) = 0 then upd_msq q (\<lambda>d. d\<lparr>msg_last := None, msg_first := None\<rparr>) st2 else st2)"
  define st4 where "st4 = upd_msq q (\<lambda>d. d\<lparr>msg_rtime := now, msg_lrpid := word_of_int (pid (cur (mk st3))), msg_cbytes := msg_cbytes d - word_of_int ?ts\<rparr>) st3"
  define st5 where "st5 = st4\<lparr>msgbytes := msgbytes st4 - ?ts, msghdrs := msghdrs st4 - 1\<rparr>"
  have k: "mk st5 = mk st" "mhs st5 = mhs st1" "msgque st5 = msgque st" by (simp_all add: st5_def st4_def st3_def st2_def st1(2,3))
  have "wq_ring (mk st5) (wwait q) ws" using ring k(1) by simp
  from msg_wake_ring [OF this] obtain s where s: "msg_wake (wwait q) st5 = Some (st5\<lparr>mk := s\<rparr>)" "fsmem s = fsmem (mk st)" "current s = current (mk st)"
    using k(1) same_callerD(1,2) by auto
  obtain f where d1: "mqs st1 q = (mqs st q)\<lparr>msg_first := f, msg_last := l\<rparr>" using st1(8) by (metis fun_upd_same)
  then have f: "linked nx f (xs @ ys)" using st1(5) by simp
  have oth: "mqs st5 p = mqs st p" if "p \<noteq> q" for p
  proof -
    have "mqs st1 p = mqs st p" using that by (subst st1(8)) simp
    then show ?thesis using that by (simp add: st5_def st4_def st3_def st2_def)
  qed
  have num: "msg_qnum (mqs st q) - 1 = of_nat (length (xs @ ys))" using q by (simp add: msgq_ok_def)
  have un: "unat (of_nat (length (xs @ ys)) :: u16) = length (xs @ ys)" using len by (intro unat_u16_small) simp
  have emp: "msg_qnum (mqs st q) - 1 = 0 \<longleftrightarrow> xs @ ys = []" unfolding num unat_eq_zero [symmetric] un by (rule length_0_conv)
  have d5: "mqs st5 q = (mqs st q)\<lparr>msg_first := (if xs @ ys = [] then None else f), msg_last := (if xs @ ys = [] then None else l),
     msg_qnum := of_nat (length (xs @ ys)), msg_rtime := now, msg_lrpid := word_of_int (pid (cur (mk st))), msg_cbytes := msg_cbytes (mqs st q) - word_of_int ?ts\<rparr>"
    using emp num d1 by (cases "xs @ ys = []") (auto simp: st5_def st4_def st3_def st2_def st1(2))
  have m: "mhs st5 x = (mhs st x)\<lparr>msg_next := nx x\<rparr>" for x by (simp add: k(2) st1(4))
  have ts: "0 \<le> ?ts" "?ts = int (length (msg_spot (mhs st n)))" using q by (simp_all add: msgq_ok_def msg_ok_def)
  have nn: "0 \<le> (\<Sum>h\<leftarrow>xs @ ys. msg_ts (mhs st h))" using q by (intro sum_list_nonneg) (auto simp: msgq_ok_def msg_ok_def)
  have cb: "?ts \<le> uint (msg_cbytes (mqs st q))" using q nn by (simp add: msgq_ok_def)
  have "msgq_ok st5 q (xs @ ys)"
  proof (rule msgq_okI [where nx = nx])
    show "linked nx (msg_first (mqs st5 q)) (xs @ ys)" using f d5 by (cases "xs @ ys = []") simp_all
    have "uint (msg_cbytes (mqs st5 q)) = uint (msg_cbytes (mqs st q)) - ?ts"
      using uint_u16_sub [OF ts(1) cb] by (simp add: d5)
    then show "uint (msg_cbytes (mqs st5 q)) = (\<Sum>h\<leftarrow>xs @ ys. msg_ts (mhs st5 h))" using q m by (simp add: msgq_ok_def)
    show "msg_last (mqs st5 q) = (if xs @ ys = [] then None else Some (last (xs @ ys)))" using d5 st1(7) by simp
    show "msg_ok (mhs st5 h)" if "h \<in> set (xs @ ys)" for h using q that m by (auto simp: msgq_ok_def)
  qed (use q d5 m in \<open>auto simp: msgq_ok_def\<close>)
  moreover have "rcv_take q n msgp msgsz flg now st = Some (Msg_Ret (min msgsz ?ts),
      (st5\<lparr>mk := s\<lparr>fsmem := deliver msgp (min msgsz ?ts) (msg_type (mhs st n), msg_spot (mhs st n)) (fsmem (mk st))\<rparr>\<rparr>))"
  proof -
    have mn: "(if ?ts < msgsz then ?ts else msgsz) = min msgsz ?ts" by simp
    have nf: "\<not> (msgsz < ?ts \<and> flg AND MSG_NOERROR = 0)" using fit by auto
    have mem: "msg_mem g (msg_mem g' (st5\<lparr>mk := s\<rparr>)) = st5\<lparr>mk := s\<lparr>fsmem := g (g' (fsmem (mk st)))\<rparr>\<rparr>" for g g'
      using s(2) by (simp add: msg_mem_def)
    have "rcv_take q n msgp msgsz flg now st = Option.bind (msg_wake (wwait q) st5) (\<lambda>st. Some (Msg_Ret (min msgsz ?ts),
        msg_mem (put_bytes (take (nat (min msgsz ?ts)) (msg_spot (mhs st n))) (msgp + 4)) (msg_mem (put_fs_long (to_u32 (msg_type (mhs st n))) msgp) st)))"
      unfolding rcv_take_def Let_def if_not_P [OF nf] mn st1(1) bind.bind_lunit st2_def [symmetric] st3_def [symmetric] st4_def [symmetric] st5_def [symmetric]
      by (simp add: msg_mem_def)
    then show ?thesis using s(1) mem m by (simp add: deliver_def)
  qed
  ultimately show ?thesis
    using oth d5 s(3) k(3) st1(6) m
    by (intro exI [of _ "st5\<lparr>mk := s\<lparr>fsmem := deliver msgp (min msgsz ?ts) (msg_type (mhs st n), msg_spot (mhs st n)) (fsmem (mk st))\<rparr>\<rparr>"])
      (simp add: msgq_ok_def msgs_of_def)
qed

text \<open>The outcome of a receive on the messages \<^verbatim>\<open>ms\<close>, which leaves \<^verbatim>\<open>ms'\<close>: the message is taken, or it is too long for the buffer, or
  there is none; then the answer is \<^verbatim>\<open>none\<close>.\<close>

definition received :: "int \<Rightarrow> u32 \<Rightarrow> int \<Rightarrow> u32 \<Rightarrow> msg_result \<Rightarrow> umem \<Rightarrow> (int \<times> u8 list) list \<Rightarrow> msg_result \<Rightarrow> umem \<Rightarrow> (int \<times> u8 list) list \<Rightarrow> bool" where
  "received typ flg sz p none mem ms r mem' ms' \<longleftrightarrow>
     (\<exists>xs m ys. ms = xs @ m # ys \<and> selects typ (flg AND MSG_EXCEPT \<noteq> 0) xs m ys \<and>
        (if int (length (snd m)) \<le> sz \<or> flg AND MSG_NOERROR \<noteq> 0
         then r = Msg_Ret (min sz (int (length (snd m)))) \<and> ms' = xs @ ys \<and> mem' = deliver p (min sz (int (length (snd m)))) m mem
         else r = Msg_Ret (- E2BIG) \<and> ms' = ms \<and> mem' = mem))
     \<or> (\<forall>m\<in>set ms. \<not> asked typ (flg AND MSG_EXCEPT \<noteq> 0) (fst m)) \<and> r = none \<and> ms' = ms \<and> mem' = mem"

definition rcv_none :: "u32 \<Rightarrow> qaddr \<Rightarrow> kernel \<Rightarrow> msg_result" where
  "rcv_none flg q s =
     (if flg AND MSG_NOWAIT \<noteq> 0 then Msg_Ret (- ENOMSG) else if signal_pending (cur s) then Msg_Ret (- EINTR) else Msg_Sleep (rwait q))"

lemma msg_sleep_total:
  assumes "Some (current (mk st)) \<noteq> task (mk st) 0"
  shows "\<exists>s. msg_sleep q w st = Some (Msg_Sleep q, st\<lparr>mk := s\<rparr>) \<and> fsmem s = fsmem (mk st)"
proof -
  have "fsmem (add_wait_queue q w s) = fsmem s" for s by (simp add: add_wait_queue_def set_wq_head_def set_wq_next_def split: option.splits)
  then show ?thesis using assms by (auto simp: msg_sleep_def sleep_on_enter_def Let_def)
qed

lemma msgq_ok_kernel [simp]: "msgq_ok (st\<lparr>mk := s\<rparr>) q hs = msgq_ok st q hs" "msgs_of (st\<lparr>mk := s\<rparr>) hs = msgs_of st hs"
  by (simp_all add: msgq_ok_def msgs_of_def)

lemma rcv_round_none:
  assumes "rcv_find q typ flg st = Some None" "uint (ip_seq (msg_perm (mqs st q))) = k div 128"
    "ipcperms (msg_perm (mqs st q)) S_IRUGO (mk st) = 0" "Some (current (mk st)) \<noteq> task (mk st) 0"
  shows "\<exists>s. rcv_round k q p sz typ flg now w st = Some (rcv_none flg q (mk st), st\<lparr>mk := s\<rparr>) \<and> fsmem s = fsmem (mk st)"
proof -
  have "\<exists>s. st = st\<lparr>mk := s\<rparr> \<and> fsmem s = fsmem (mk st)" by (intro exI [of _ "mk st"]) simp
  then show ?thesis using assms msg_sleep_total [OF assms(4), of "rwait q" w] by (auto simp: rcv_round_def rcv_none_def)
qed

lemma rcv_take_too_long:
  "sz < msg_ts (mhs st n) \<Longrightarrow> flg AND MSG_NOERROR = 0 \<Longrightarrow> rcv_take q n p sz flg now st = Some (Msg_Ret (- E2BIG), st)"
  by (simp add: rcv_take_def)

lemma rcv_round_effect:
  assumes q: "msgq_ok st q hs" and len: "length hs \<le> 65535" and low: "- (2 ^ 31) < typ" and sz: "0 \<le> sz"
    and seq: "uint (ip_seq (msg_perm (mqs st q))) = k div 128" and perm: "ipcperms (msg_perm (mqs st q)) S_IRUGO (mk st) = 0"
    and t: "Some (current (mk st)) \<noteq> task (mk st) 0" and ring: "wq_ring (mk st) (wwait q) ws"
  shows "\<exists>r st' hs'. rcv_round k q p sz typ flg now w st = Some (r, st') \<and> msgq_ok st' q hs'
    \<and> received typ flg sz p (rcv_none flg q (mk st)) (fsmem (mk st)) (msgs_of st hs) r (fsmem (mk st')) (msgs_of st' hs')"
  using rcv_find_cases [OF q low, of flg]
proof (elim disjE conjE exE)
  assume n: "rcv_find q typ flg st = Some None" "\<forall>m\<in>set (msgs_of st hs). \<not> asked typ (flg AND MSG_EXCEPT \<noteq> 0) (fst m)"
  obtain s where "rcv_round k q p sz typ flg now w st = Some (rcv_none flg q (mk st), st\<lparr>mk := s\<rparr>)" "fsmem s = fsmem (mk st)"
    using rcv_round_none [OF n(1) seq perm t] by blast
  then show ?thesis using q n(2)
    by (intro exI [of _ "rcv_none flg q (mk st)"] exI [of _ "st\<lparr>mk := s\<rparr>"] exI [of _ hs]) (simp add: received_def)
next
  fix xs n ys
  let ?m = "(msg_type (mhs st n), msg_spot (mhs st n))"
  assume f: "rcv_find q typ flg st = Some (Some n)" and hs: "hs = xs @ n # ys"
    and sel: "selects typ (flg AND MSG_EXCEPT \<noteq> 0) (msgs_of st xs) ?m (msgs_of st ys)"
  have rd: "rcv_round k q p sz typ flg now w st = rcv_take q n p sz flg now st" using f seq perm by (simp add: rcv_round_def)
  have ms: "msgs_of st hs = msgs_of st xs @ ?m # msgs_of st ys" by (simp add: hs msgs_of_def)
  have ts: "msg_ts (mhs st n) = int (length (snd ?m))" using q hs by (simp add: msgq_ok_def msg_ok_def)
  show ?thesis
  proof (cases "int (length (snd ?m)) \<le> sz \<or> flg AND MSG_NOERROR \<noteq> 0")
    case True
    have q': "msgq_ok st q (xs @ n # ys)" and l': "length (xs @ ys) < 65535" using q len hs by simp_all
    obtain st' where st': "rcv_take q n p sz flg now st = Some (Msg_Ret (min sz (msg_ts (mhs st n))), st')" "msgq_ok st' q (xs @ ys)"
        "msgs_of st' (xs @ ys) = msgs_of st (xs @ ys)" "fsmem (mk st') = deliver p (min sz (msg_ts (mhs st n))) ?m (fsmem (mk st))"
      using rcv_take_effect [OF q' sz l' _ ring, of flg p now] True ts by (auto simp del: snd_conv)
    have "received typ flg sz p none (fsmem (mk st)) (msgs_of st hs) (Msg_Ret (min sz (msg_ts (mhs st n)))) (fsmem (mk st')) (msgs_of st' (xs @ ys))" for none
      unfolding received_def using ms sel True ts st'(3,4)
      by (intro disjI1 exI [of _ "msgs_of st xs"] exI [of _ ?m] exI [of _ "msgs_of st ys"]) (simp add: msgs_of_def)
    then show ?thesis using rd st'(1,2) by auto
  next
    case False
    then have "rcv_take q n p sz flg now st = Some (Msg_Ret (- E2BIG), st)" using ts by (intro rcv_take_too_long) auto
    moreover have "received typ flg sz p none (fsmem (mk st)) (msgs_of st hs) (Msg_Ret (- E2BIG)) (fsmem (mk st)) (msgs_of st hs)" for none
      unfolding received_def using ms sel False by (intro disjI1 exI [of _ "msgs_of st xs"] exI [of _ ?m] exI [of _ "msgs_of st ys"]) simp
    ultimately show ?thesis using rd q by auto
  qed
qed

section \<open>The table of queues\<close>

definition msg_slots :: "msg_state \<Rightarrow> nat \<Rightarrow> qaddr option" where
  "msg_slots st i = (if i < MSGMNI then case msgque st i of Msq q \<Rightarrow> Some q | _ \<Rightarrow> None else None)"

definition msq_seq :: "msg_state \<Rightarrow> qaddr \<Rightarrow> u16" where
  "msq_seq st q = ip_seq (msg_perm (mqs st q))"

text \<open>What the identifiers depend on; most calls leave it alone.\<close>

definition mtab :: "msg_state \<Rightarrow> (nat \<Rightarrow> msq_slot) \<times> nat \<times> int \<times> (qaddr \<Rightarrow> u16)" where
  "mtab st = (msgque st, max_msqid st, used_queues st, msq_seq st)"

definition msgtab_ok :: "msg_state \<Rightarrow> bool" where
  "msgtab_ok st \<longleftrightarrow> id_slots_ok (msg_slots st) (max_msqid st) (used_queues st)"

definition msg_view :: "msg_state \<Rightarrow> int \<rightharpoonup> qaddr" where
  "msg_view st k = (case msg_lookup k st of Inl e \<Rightarrow> None | Inr (i, q) \<Rightarrow> Some q)"

lemma msg_lookupD: "msg_lookup k st = Inr (i, q) \<Longrightarrow> i = nat (k mod 128) \<and> msgque st (nat (k mod 128)) = Msq q \<and> uint (ip_seq (msg_perm (mqs st q))) = k div 128"
  by (auto simp: msg_lookup_def Let_def split: msq_slot.splits if_splits)

lemma msgrcv_effect:
  assumes "msg_lookup k st = Inr (i, q)" "0 \<le> k" "0 \<le> sz" "p \<noteq> 0" "p + 4 \<noteq> 0" "verify_area VERIFY_WRITE (p + 4) (to_u32 sz) = 0"
    and "msgq_ok st q hs" "length hs \<le> 65535" "- (2 ^ 31) < typ" "ipcperms (msg_perm (mqs st q)) S_IRUGO (mk st) = 0"
    and "Some (current (mk st)) \<noteq> task (mk st) 0" "wq_ring (mk st) (wwait q) ws"
  shows "\<exists>r st' hs'. sys_msgrcv k p sz typ flg now w st = Some (r, st') \<and> msgq_ok st' q hs'
    \<and> received typ flg sz p (rcv_none flg q (mk st)) (fsmem (mk st)) (msgs_of st hs) r (fsmem (mk st')) (msgs_of st' hs')"
proof -
  have l: "msgque st (nat (k mod 128)) = Msq q" "uint (ip_seq (msg_perm (mqs st q))) = k div 128" using msg_lookupD [OF assms(1)] by simp_all
  then have "sys_msgrcv k p sz typ flg now w st = rcv_round k q p sz typ flg now w st"
    using assms(2-6) by (simp add: sys_msgrcv_def)
  then show ?thesis using rcv_round_effect [OF assms(7-9,3) l(2) assms(10-12)] by simp
qed

lemma msg_view_slots: "msg_view st = slot_view (msg_slots st) (msq_seq st)"
  by (rule ext) (auto simp: msg_view_def msg_lookup_def slot_view_def msg_slots_def msq_seq_def Let_def split: msq_slot.splits)

lemma slots_same:
  assumes "msg_slots st' = msg_slots st" "msq_seq st' = msq_seq st" "max_msqid st' = max_msqid st" "used_queues st' = used_queues st" "msgtab_ok st"
  shows "msgtab_ok st' \<and> msg_view st' = id_effect (msg_view st) Id_Same"
  using assms by (simp add: msgtab_ok_def msg_view_slots)

lemma mtab_same: "mtab st' = mtab st \<Longrightarrow> msgtab_ok st \<Longrightarrow> msgtab_ok st' \<and> msg_view st' = id_effect (msg_view st) Id_Same"
  by (rule slots_same) (simp_all add: mtab_def msg_slots_def fun_eq_iff)

lemma mtab_updates [simp]:
  "mtab (st\<lparr>mk := s\<rparr>) = mtab st" "mtab (st\<lparr>msgbytes := n\<rparr>) = mtab st" "mtab (st\<lparr>msghdrs := n\<rparr>) = mtab st"
  "mtab (upd_msg h g st) = mtab st" "mtab (msg_mem f st) = mtab st"
  by (simp_all add: mtab_def msq_seq_def fun_eq_iff upd_msg_def msg_mem_def)

lemma mtab_upd_msq: "ip_seq (msg_perm (f (mqs st q))) = ip_seq (msg_perm (mqs st q)) \<Longrightarrow> mtab (upd_msq q f st) = mtab st"
  by (auto simp: mtab_def msq_seq_def fun_eq_iff upd_msq_def)

lemma mtab_wake: "msg_wake q st = Some st' \<Longrightarrow> mtab st' = mtab st"
  by (auto simp: msg_wake_def split: if_splits bind_splits)

lemma mtab_sleep: "msg_sleep q w st = Some (r, st') \<Longrightarrow> mtab st' = mtab st"
  by (auto simp: msg_sleep_def split: bind_splits)

lemma mtab_snd_round: "snd_round k q sz flg w st = Some (r, st') \<Longrightarrow> mtab st' = mtab st"
  by (auto simp: snd_round_def Let_def split: if_splits dest: mtab_sleep)

lemma mtab_msgsnd: "sys_msgsnd k p sz flg w st = Some (r, st') \<Longrightarrow> mtab st' = mtab st"
  by (auto simp: sys_msgsnd_def Let_def split: if_splits msq_slot.splits dest: mtab_snd_round)

lemma mtab_snd_resume: "snd_resume k q sz flg w st = Some (r, st') \<Longrightarrow> mtab st' = mtab st"
  by (auto simp: snd_resume_def split: bind_splits dest!: mtab_snd_round)

lemma mtab_snd_link: "snd_link q h st = Some st' \<Longrightarrow> mtab st' = mtab st"
  by (auto simp: snd_link_def mtab_upd_msq split: option.splits bind_splits)

lemma mtab_snd_install: "snd_install k q p t sz now mem st = Some (r, st') \<Longrightarrow> mtab st' = mtab st"
  by (auto simp: snd_install_def Let_def mtab_upd_msq split: option.splits if_splits bind_splits dest!: mtab_snd_link mtab_wake)

lemma mtab_rcv_unlink: "rcv_unlink q n st = Some st' \<Longrightarrow> mtab st' = mtab st"
  by (auto simp: rcv_unlink_def Let_def mtab_upd_msq split: if_splits bind_splits)

lemma mtab_rcv_take: "rcv_take q n p sz flg now st = Some (r, st') \<Longrightarrow> mtab st' = mtab st"
  by (auto simp: rcv_take_def Let_def mtab_upd_msq split: if_splits bind_splits dest!: mtab_rcv_unlink mtab_wake)

lemma mtab_rcv_round: "rcv_round k q p sz t flg now w st = Some (r, st') \<Longrightarrow> mtab st' = mtab st"
  by (auto simp: rcv_round_def split: if_splits bind_splits option.splits dest: mtab_rcv_take mtab_sleep)

lemma mtab_msgrcv: "sys_msgrcv k p sz t flg now w st = Some (r, st') \<Longrightarrow> mtab st' = mtab st"
  by (auto simp: sys_msgrcv_def Let_def split: if_splits msq_slot.splits dest: mtab_rcv_round)

lemma mtab_rcv_resume: "rcv_resume k q p sz t flg now w st = Some (r, st') \<Longrightarrow> mtab st' = mtab st"
  by (auto simp: rcv_resume_def split: bind_splits dest!: mtab_rcv_round)

lemma mtab_freeque_round: "freeque_round q st = Some (r, st') \<Longrightarrow> mtab st' = mtab st"
  by (auto simp: freeque_round_def split: if_splits bind_splits dest!: mtab_wake)

lemma mtab_msgctl: "cmd \<noteq> IPC_RMID \<Longrightarrow> sys_msgctl longs pad k cmd buf now st = Some (r, st') \<Longrightarrow> mtab st' = mtab st"
  by (auto simp: sys_msgctl_def msgctl_info_def msgctl_stat_def msgctl_set_def Let_def mtab_upd_msq split: if_splits sum.splits msq_slot.splits)

lemma shrink_msq_covers: "j < m \<Longrightarrow> que j \<noteq> Msq_Unused \<Longrightarrow> j \<le> shrink_msq que m \<and> shrink_msq que m < m"
  by (induction que m rule: shrink_msq.induct) (auto simp: less_Suc_eq)

lemma shrink_msq_le: "shrink_msq que m \<le> m"
  by (induction que m rule: shrink_msq.induct) auto

lemma newque_reserve_effect:
  assumes "newque_reserve st = Inr (i, st')"
  shows "msg_slots st' = msg_slots st" "msq_seq st' = msq_seq st" "max_msqid st' = max_msqid st" "used_queues st' = used_queues st"
    "i < MSGMNI" "msgque st' i = Msq_Noid"
proof -
  have i: "find (\<lambda>i. msgque st i = Msq_Unused) [0..<MSGMNI] = Some i" and st': "st' = st\<lparr>msgque := (msgque st)(i := Msq_Noid)\<rparr>"
    using assms by (auto simp: newque_reserve_def split: option.splits)
  have "msgque st i = Msq_Unused" "i < MSGMNI" using i by (auto simp: find_Some_iff)
  then show "msg_slots st' = msg_slots st" "msq_seq st' = msq_seq st" "max_msqid st' = max_msqid st" "used_queues st' = used_queues st"
    "i < MSGMNI" "msgque st' i = Msq_Noid" by (auto simp: st' msg_slots_def msq_seq_def fun_eq_iff)
qed

lemma newque_install_effect:
  assumes ok: "msgtab_ok st" and i: "i < MSGMNI" "msgque st i = Msq_Noid" and q: "q \<notin> ran (msg_slots st)"
    and r: "newque_install key flg now (Some q) i st = Some (Msg_Ret k, st')"
  shows "msgtab_ok st'" "msg_view st' = (msg_view st)(k \<mapsto> q)" "mqs st' q = fresh_msq key flg now st"
proof -
  have st': "mqs st' = (mqs st)(q := fresh_msq key flg now st)" "max_msqid st' = max (max_msqid st) i" "used_queues st' = used_queues st + 1"
      "msgque st' = (msgque st)(i := Msq q)" and k: "k = uint (msg_seq st) * 128 + int i"
    using r by (auto simp: newque_install_def Let_def msg_wake_def max_def split: bind_splits if_splits)
  have sl: "msg_slots st i = None" "msg_slots st' = (msg_slots st)(i \<mapsto> q)" using i by (auto simp: msg_slots_def st' fun_eq_iff)
  have sq: "msq_seq st' q = msg_seq st" "\<And>b. b \<noteq> q \<Longrightarrow> msq_seq st' b = msq_seq st b" by (simp_all add: msq_seq_def st' fresh_msq_def Let_def)
  note m = slot_make [OF ok [unfolded msgtab_ok_def] i(1) sl(1) q sq(2)]
  show "msgtab_ok st'" "msg_view st' = (msg_view st)(k \<mapsto> q)" "mqs st' q = fresh_msq key flg now st"
    using m by (simp_all add: msgtab_ok_def msg_view_slots sl st' k sq)
qed

lemma newque_no_memory:
  assumes "msgque st i = Msq_Noid" "newque_install key flg now None i st = Some (r, st')"
  shows "msg_slots st' = msg_slots st" "msq_seq st' = msq_seq st" "max_msqid st' = max_msqid st" "used_queues st' = used_queues st"
proof -
  have "mqs st' = mqs st" "msgque st' = (msgque st)(i := Msq_Unused)" "max_msqid st' = max_msqid st" "used_queues st' = used_queues st"
    using assms(2) by (auto simp: newque_install_def msg_wake_def split: bind_splits if_splits)
  then show "msg_slots st' = msg_slots st" "msq_seq st' = msq_seq st" "max_msqid st' = max_msqid st" "used_queues st' = used_queues st"
    using assms(1) by (auto simp: msg_slots_def msq_seq_def fun_eq_iff)
qed

lemma freeque_effect:
  assumes ok: "msgtab_ok st" and l: "msg_lookup k st = Inr (i, q)" and r: "freeque i q st = Some (b, st')"
  shows "msgtab_ok st'" "msg_view st' = (msg_view st)(k := None)"
proof -
  have i: "i = nat (k mod 128)" "i < 128" "msgque st i = Msq q" "uint (msq_seq st q) = k div 128"
    using l by (auto simp: msg_lookup_def msq_seq_def Let_def split: msq_slot.splits if_splits)
  then have sl: "msg_slots st i = Some q" and k: "k = uint (msq_seq st q) * 128 + int i"
    using id_of_slot [of k i] by (auto simp: msg_slots_def)
  let ?u = "freeque_unlink i q st"
  let ?m = "if i = max_msqid st then shrink_msq (msgque st) (max_msqid st) else max_msqid st"
  have u: "msgque ?u = (msgque st)(i := Msq_Unused)" "max_msqid ?u = ?m" "used_queues ?u = used_queues st - 1" "\<And>b. b \<noteq> q \<Longrightarrow> msq_seq ?u b = msq_seq st b"
    by (auto simp: freeque_unlink_def Let_def upd_msq_def msq_seq_def)
  have su: "msg_slots ?u = (msg_slots st)(i := None)" by (auto simp: msg_slots_def u(1) fun_eq_iff)
  have ok': "id_slots_ok (msg_slots st) (max_msqid st) (used_queues st)" using ok by (simp add: msgtab_ok_def)
  have m: "?m \<le> max_msqid st" "\<And>j b. j \<noteq> i \<Longrightarrow> msg_slots st j = Some b \<Longrightarrow> j \<le> ?m"
  proof -
    show "?m \<le> max_msqid st" using shrink_msq_le by simp
    fix j b assume j: "j \<noteq> i" "msg_slots st j = Some b"
    then have "j \<le> max_msqid st" using ok unfolding msgtab_ok_def id_slots_ok_def by blast
    moreover have "msgque st j \<noteq> Msq_Unused" using j(2) by (auto simp: msg_slots_def split: if_splits)
    ultimately show "j \<le> ?m" using j(1) shrink_msq_covers [of j "max_msqid st" "msgque st"] by auto
  qed
  have "id_slots_ok ((msg_slots st)(i := None)) ?m (used_queues st - 1)"
    using ok' i(2) sl by (rule slot_gone(1)) (use m u(4) in auto)
  then have "msgtab_ok ?u" by (simp add: msgtab_ok_def su u(2,3))
  moreover have "slot_view ((msg_slots st)(i := None)) (msq_seq ?u) = (slot_view (msg_slots st) (msq_seq st))(uint (msq_seq st q) * 128 + int i := None)"
    using ok' i(2) sl by (rule slot_gone(2)) (use m u(4) in auto)
  then have "msg_view ?u = (msg_view st)(k := None)" by (simp add: msg_view_slots su k)
  moreover have "mtab st' = mtab ?u" using r by (auto simp: freeque_def dest: mtab_freeque_round)
  ultimately show "msgtab_ok st'" "msg_view st' = (msg_view st)(k := None)" using mtab_same [of st' ?u] by simp_all
qed

section \<open>Any history of calls\<close>

inductive msg_step :: "msg_state \<Rightarrow> (int, qaddr) id_event \<Rightarrow> msg_state \<Rightarrow> bool" where
  reserve: "newque_reserve st = Inr (i, st') \<Longrightarrow> msg_step st Id_Same st'"
| install: "i < MSGMNI \<Longrightarrow> msgque st i = Msq_Noid \<Longrightarrow> q \<notin> ran (msg_slots st) \<Longrightarrow>
    newque_install key flg now (Some q) i st = Some (Msg_Ret k, st') \<Longrightarrow> msg_step st (Id_Made k q) st'"
| no_memory: "msgque st i = Msq_Noid \<Longrightarrow> newque_install key flg now None i st = Some (r, st') \<Longrightarrow> msg_step st Id_Same st'"
| remove: "msg_lookup k st = Inr (i, q) \<Longrightarrow> freeque i q st = Some (r, st') \<Longrightarrow> msg_step st (Id_Gone k) st'"
| removing: "freeque_round q st = Some (r, st') \<Longrightarrow> msg_step st Id_Same st'"
| msgctl: "cmd \<noteq> IPC_RMID \<Longrightarrow> sys_msgctl longs pad k cmd buf now st = Some (r, st') \<Longrightarrow> msg_step st Id_Same st'"
| msgsnd: "sys_msgsnd k p sz flg w st = Some (r, st') \<Longrightarrow> msg_step st Id_Same st'"
| snd_again: "snd_resume k q sz flg w st = Some (r, st') \<Longrightarrow> msg_step st Id_Same st'"
| snd_done: "snd_install k q p t sz now mem st = Some (r, st') \<Longrightarrow> msg_step st Id_Same st'"
| msgrcv: "sys_msgrcv k p sz t flg now w st = Some (r, st') \<Longrightarrow> msg_step st Id_Same st'"
| rcv_again: "rcv_resume k q p sz t flg now w st = Some (r, st') \<Longrightarrow> msg_step st Id_Same st'"
| other: "msg_step st Id_Same (st\<lparr>mk := s\<rparr>)"

lemmas mtab_calls = mtab_freeque_round mtab_msgctl mtab_msgsnd mtab_snd_resume mtab_snd_install mtab_msgrcv mtab_rcv_resume

lemma msg_step_effect: "msg_step st e st' \<Longrightarrow> msgtab_ok st \<Longrightarrow> msgtab_ok st' \<and> msg_view st' = id_effect (msg_view st) e"
proof (induction rule: msg_step.induct)
  case (reserve st i st')
  show ?case using newque_reserve_effect(1-4) [OF reserve(1)] reserve(2) by (rule slots_same)
next
  case (install i st q key flg now k st')
  show ?case using newque_install_effect(1,2) [OF install(5,1-4)] by simp
next
  case (no_memory st i key flg now r st')
  show ?case using newque_no_memory [OF no_memory(1,2)] no_memory(3) by (rule slots_same)
next
  case (remove k st i q r st')
  show ?case using freeque_effect [OF remove(3,1,2)] by simp
qed (rule mtab_same; simp add: mtab_calls)+

interpretation msg_ids: object_table msgtab_ok msg_step msg_view
  by unfold_locales (auto dest: msg_step_effect)

end
