(* ===== verification/Msg_Theorems.thy ===== *)
theory Msg_Theorems
  imports Ipc_Msg_Laws
begin

text \<open>
  The properties of System V message queues.  Witnesses run on \<^verbatim>\<open>demo_msgs\<close>: one queue in slot 0 with the three bytes 1 2 3 as
  a message of type 5, nobody waiting.
\<close>

definition demo_msq :: msqid_ds where
  "demo_msq = \<lparr>msg_perm = \<lparr>ip_key = 7, ip_uid = 0, ip_gid = 0, ip_cuid = 0, ip_cgid = 0, ip_mode = 511, ip_seq = 0\<rparr>,
     msg_first = Some 0, msg_last = Some 0, msg_stime = 0, msg_rtime = 0, msg_ctime = 0, msg_cbytes = 3, msg_qnum = 1,
     msg_qbytes = 16384, msg_lspid = 0, msg_lrpid = 0\<rparr>"

definition demo_msgs :: msg_state where
  "demo_msgs = \<lparr>mk = demo_kernel\<lparr>current := 1\<rparr>, msgque = (\<lambda>i. if i = 0 then Msq 4 else Msq_Unused), mqs = (\<lambda>q. demo_msq),
     mhs = (\<lambda>h. \<lparr>msg_next = None, msg_type = 5, msg_spot = [1, 2, 3], msg_ts = 3\<rparr>),
     msgbytes = 3, msghdrs = 1, msg_seq = 0, used_queues = 1, max_msqid = 0\<rparr>"

lemma demo_msgs_simps [simp]:
  "mk demo_msgs = demo_kernel\<lparr>current := 1\<rparr>" "msgque demo_msgs i = (if i = 0 then Msq 4 else Msq_Unused)" "mqs demo_msgs q = demo_msq"
  "mhs demo_msgs h = \<lparr>msg_next = None, msg_type = 5, msg_spot = [1, 2, 3], msg_ts = 3\<rparr>" "max_msqid demo_msgs = 0" "used_queues demo_msgs = 1"
  by (simp_all add: demo_msgs_def)

lemma demo_msgtab_ok: "msgtab_ok demo_msgs"
proof -
  have "msg_slots demo_msgs = [0 \<mapsto> 4]" by (auto simp: msg_slots_def)
  then show ?thesis by (simp add: msgtab_ok_def id_slots_ok_def)
qed

lemma demo_msg_lookup: "msg_lookup 0 demo_msgs = Inr (0, 4)"
  by (simp add: msg_lookup_def demo_msq_def)

lemma demo_msgq_ok: "msgq_ok demo_msgs 4 [0]" "msgs_of demo_msgs [0] = [(5, [1, 2, 3])]"
  by (simp_all add: msgq_ok_def msg_ok_def msgs_of_def demo_msq_def fits_s32_def)

lemma demo_msg_perm: "ipcperms (msg_perm demo_msq) f (demo_kernel\<lparr>current := 1\<rparr>) = 0"
  by (simp add: ipcperms_def suser_def) (simp add: demo_kernel_def demo_task_def INIT_TASK_def)

lemma demo_msg_ring: "wq_ring (demo_kernel\<lparr>current := 1\<rparr>) p []"
  by (simp add: wq_ring_def demo_kernel_def)


text \<open>C27: whatever calls on message queues the processes of the system make, in whatever order, and with whatever happens while
  one sleeps, the table keeps its invariant and its identifiers behave as a map: a creation adds one entry, a removal
  deletes one, and sending, receiving and the other controls leave all of them what they were.\<close>

theorem msg_ids_refine_map:
  assumes "history msg_step st es st'" "msgtab_ok st"
  shows "msgtab_ok st' \<and> msg_view st' = foldl id_effect (msg_view st) es"
  using msg_ids.history_invar [OF assms] msg_ids.run_refines [OF assms] by blast

theorem msg_ids_refine_map_witness:
  "\<exists>st'. history msg_step demo_msgs [Id_Gone 0] st' \<and> msgtab_ok st' \<and> msg_view st' = (msg_view demo_msgs)(0 := None)"
proof -
  have w: "wqh (mk (freeque_unlink 0 4 demo_msgs)) p = None" for p by (simp add: freeque_unlink_def Let_def) (simp add: demo_kernel_def)
  have "linked (\<lambda>h. msg_next (mhs (freeque_unlink 0 4 demo_msgs) h)) (msg_first (mqs (freeque_unlink 0 4 demo_msgs) 4)) [0]"
    by (simp add: freeque_unlink_def Let_def upd_msq_def demo_msq_def)
  from linked_walk [OF this] have "\<exists>st'. freeque 0 4 demo_msgs = Some (Msg_Ret 0, st')"
    using w by (simp add: freeque_def freeque_round_def msg_chain_def)
  then obtain st' where "msg_step demo_msgs (Id_Gone 0) st'" using msg_step.remove [OF demo_msg_lookup] by blast
  then have "history msg_step demo_msgs [Id_Gone 0] st'" by (simp add: history_Cons)
  then show ?thesis using msg_ids_refine_map [OF _ demo_msgtab_ok] by fastforce
qed




text \<open>C29: a message that was sent comes back as it was: when \<^verbatim>\<open>msgsnd\<close> finds room and memory, the message is at the end of the
  queue, and a \<^verbatim>\<open>msgrcv\<close> of its type, of which no other message is, returns its length, gives the same type and the same
  bytes and leaves the queue as it was before.\<close>

theorem msgsnd_msgrcv_round_trip:
  assumes "msg_lookup k st = Inr (i, q)" "0 \<le> k" "0 \<le> n" "n \<le> MSGMAX" "p \<noteq> 0" "verify_area VERIFY_READ (p + 4) (to_u32 n) = 0"
    and "mtype = to_s32 (get_fs_long (fsmem (mk st)) p)" "1 \<le> mtype" "\<forall>f. ipcperms (msg_perm (mqs st q)) f (mk st) = 0"
    and "n + uint (msg_cbytes (mqs st q)) \<le> uint (msg_qbytes (mqs st q))"
    and "msgq_ok st q hs" "h \<notin> set hs" "length hs < 65535" "\<forall>m\<in>set (msgs_of st hs). fst m \<noteq> mtype"
    and "wq_ring (mk st) (rwait q) rs" "wq_ring (mk st) (wwait q) ws" "Some (current (mk st)) \<noteq> task (mk st) 0"
    and "n \<le> sz" "p' \<noteq> 0" "p' + 4 \<noteq> 0" "verify_area VERIFY_WRITE (p' + 4) (to_u32 sz) = 0"
  shows "\<exists>st1 st2 hs'. sys_msgsnd k p n flg w st = Some (Msg_Alloc, st)
    \<and> snd_install k q p mtype n now (Some h) st = Some (Msg_Ret n, st1)
    \<and> sys_msgrcv k p' sz mtype 0 now' w st1 = Some (Msg_Ret n, st2)
    \<and> to_s32 (get_fs_long (fsmem (mk st2)) p') = mtype
    \<and> user_bytes (fsmem (mk st2)) (p' + 4) (nat n) = user_bytes (fsmem (mk st)) (p + 4) (nat n)
    \<and> msgq_ok st2 q hs' \<and> msgs_of st2 hs' = msgs_of st hs"
proof -
  let ?m = "(mtype, user_bytes (fsmem (mk st)) (p + 4) (nat n))"
  have l: "msgque st (nat (k mod 128)) = Msq q" "uint (ip_seq (msg_perm (mqs st q))) = k div 128" using msg_lookupD [OF assms(1)] by simp_all
  have snd: "sys_msgsnd k p n flg w st = Some (Msg_Alloc, st)"
    using l assms(2-10) by (simp add: sys_msgsnd_def snd_round_def Let_def)
  have rdy: "snd_ready k q n st" using l assms(3,4,10) by (simp add: snd_ready_def)
  have fits: "fits_s32 mtype" unfolding assms(7) by (rule fits_to_s32)
  obtain st1 where st1: "snd_install k q p mtype n now (Some h) st = Some (Msg_Ret n, st1)" "msgq_ok st1 q (hs @ [h])"
      "msgs_of st1 (hs @ [h]) = msgs_of st hs @ [?m]" "same_caller (mk st) (mk st1)" "msgque st1 = msgque st" "msg_perm (mqs st1 q) = msg_perm (mqs st q)"
    using snd_install_effect [OF assms(11,12) rdy assms(8) fits assms(15)] by blast
  have lk: "msg_lookup k st1 = Inr (nat (k mod 128), q)" using l st1(5,6) by (simp add: msg_lookup_def)
  have c: "ipcperms (msg_perm (mqs st1 q)) S_IRUGO (mk st1) = 0" "Some (current (mk st1)) \<noteq> task (mk st1) 0" "wq_ring (mk st1) (wwait q) ws"
    using same_callerD [OF st1(4)] assms(9,16,17) st1(6) by simp_all
  have "0 \<le> sz" "length (hs @ [h]) \<le> 65535" "- (2 ^ 31) < mtype" using assms(3,8,13,18) by simp_all
  from msgrcv_effect [OF lk assms(2) this(1) assms(19-21) st1(2) this(2,3) c, of 0 now' w]
  obtain r st2 hs' where r: "sys_msgrcv k p' sz mtype 0 now' w st1 = Some (r, st2)" "msgq_ok st2 q hs'"
      "received mtype 0 sz p' (rcv_none 0 q (mk st1)) (fsmem (mk st1)) (msgs_of st hs @ [?m]) r (fsmem (mk st2)) (msgs_of st2 hs')"
    unfolding st1(3) by blast
  have sel: "xs = msgs_of st hs \<and> m = ?m \<and> ys = []" if "selects mtype False xs m ys" "msgs_of st hs @ [?m] = xs @ m # ys" for xs m ys
    using that assms(8,14) by (cases ys rule: rev_cases) (auto simp: selects_def asked_def)
  have "asked mtype False (fst ?m)" using assms(8) by (simp add: asked_def)
  then have "r = Msg_Ret n \<and> msgs_of st2 hs' = msgs_of st hs \<and> fsmem (mk st2) = deliver p' n ?m (fsmem (mk st1))"
    using r(3) sel assms(3,18) unfolding received_def by (fastforce simp: min_absorb2)
  moreover have "to_s32 (get_fs_long (deliver p' n ?m (fsmem (mk st1))) p') = mtype"
    "user_bytes (deliver p' n ?m (fsmem (mk st1))) (p' + 4) (nat n) = snd ?m"
    using deliver_reads [of n ?m p'] assms(3,4) fits by simp_all
  ultimately show ?thesis using snd st1(1) r(1,2) by auto
qed

text \<open>The same with the long 9 at address 16 of the user memory: the type of a message to send.\<close>

definition demo_send :: msg_state where
  "demo_send = demo_msgs\<lparr>mk := demo_kernel\<lparr>current := 1, fsmem := (\<lambda>a. if a = 16 then 9 else if a = 21 then 77 else 0)\<rparr>\<rparr>"

theorem msgsnd_msgrcv_round_trip_witness:
  "\<exists>st1 st2. snd_install 0 4 16 9 3 0 (Some 1) demo_send = Some (Msg_Ret 3, st1)
    \<and> sys_msgrcv 0 4096 10 9 0 0 9 st1 = Some (Msg_Ret 3, st2) \<and> user_bytes (fsmem (mk st2)) 4100 3 = [0, 77, 0]"
proof -
  have s: "msgque demo_send i = msgque demo_msgs i" "mqs demo_send = mqs demo_msgs" "mhs demo_send = mhs demo_msgs" for i
    by (simp_all add: demo_send_def)
  have k: "current (mk demo_send) = 1" "fsmem (mk demo_send) a = (if a = 16 then 9 else if a = 21 then 77 else 0)"
    "wq_ring (mk demo_send) w []" "task (mk demo_send) 0 = Some 0" for a w
    by (simp_all add: demo_send_def wq_ring_def demo_kernel_def)
  have pm: "ipcperms (msg_perm (mqs demo_send 4)) f (mk demo_send) = 0" for f
    by (simp add: demo_send_def ipcperms_def suser_def) (simp add: demo_kernel_def demo_task_def INIT_TASK_def)
  have l: "msg_lookup 0 demo_send = Inr (0, 4)" using demo_msg_lookup by (simp add: msg_lookup_def demo_send_def)
  have q: "msgq_ok demo_send 4 [0]" "msgs_of demo_send [0] = [(5, [1, 2, 3])]" using demo_msgq_ok by (simp_all add: msgq_ok_def msgs_of_def s)
  have v: "verify_area VERIFY_READ (16 + 4) (to_u32 3) = 0" "verify_area VERIFY_WRITE (4096 + 4) (to_u32 10) = 0"
    by (simp_all add: verify_area_def to_u32_def)
  have t: "9 = to_s32 (get_fs_long (fsmem (mk demo_send)) 16)" by (simp add: get_fs_long_def k(2) to_s32_def)
  have b: "user_bytes (fsmem (mk demo_send)) (16 + 4) (nat 3) = [0, 77, 0]"
  proof -
    have "nat 3 = Suc (Suc (Suc 0))" by simp
    then show ?thesis by (simp only: user_bytes.simps) (simp add: get_fs_byte_def k(2))
  qed
  have room: "3 + uint (msg_cbytes (mqs demo_send 4)) \<le> uint (msg_qbytes (mqs demo_send 4))" by (simp add: s demo_msq_def)
  have p: "(4096 + 4 :: u32) \<noteq> 0" by simp
  show ?thesis
    using msgsnd_msgrcv_round_trip [OF l _ _ _ _ v(1) t _ _ room q(1), of 1 "[]" "[]" 10 4096 0 9 0 0] pm q(2) k v(2) p b
    by (simp del: One_nat_def) blast
qed

text \<open>The number of messages of a queue is an \<^verbatim>\<open>unsigned short\<close> and nothing bounds it, since messages of length 0 take no space
  of the queue.  On a queue of 65537 messages it is 1, and receiving one of them empties the queue: all the others are
  lost.\<close>

theorem msgrcv_loses_65536_messages:
  assumes "msgq_ok st q (h # hs)" "length hs = 65536" "uint (ip_seq (msg_perm (mqs st q))) = k div 128"
    and "ipcperms (msg_perm (mqs st q)) S_IRUGO (mk st) = 0" "msg_ts (mhs st h) \<le> sz" "wq_ring (mk st) (wwait q) ws"
  shows "\<exists>st'. rcv_round k q p sz 0 flg now w st = Some (Msg_Ret (msg_ts (mhs st h)), st') \<and> msg_chain q st' = Some []"
proof -
  have f: "msg_first (mqs st q) = Some h" using msgq_first [OF assms(1)] by simp
  have n: "msg_qnum (mqs st q) = 1" using assms(1,2) by (simp add: msgq_ok_def)
  define st1 where "st1 = upd_msq q (\<lambda>d. d\<lparr>msg_first := msg_next (mhs st h)\<rparr>) st"
  define st2 where "st2 = upd_msq q (\<lambda>d. d\<lparr>msg_qnum := msg_qnum d - 1\<rparr>) st1"
  define st3 where "st3 = upd_msq q (\<lambda>d. d\<lparr>msg_last := None, msg_first := None\<rparr>) st2"
  define st4 where "st4 = upd_msq q (\<lambda>d. d\<lparr>msg_rtime := now, msg_lrpid := word_of_int (pid (cur (mk st3))),
      msg_cbytes := msg_cbytes d - word_of_int (msg_ts (mhs st h))\<rparr>) st3"
  let ?st5 = "st4\<lparr>msgbytes := msgbytes st4 - msg_ts (mhs st h), msghdrs := msghdrs st4 - 1\<rparr>"
  have c: "rcv_unlink q h st = Some st1" "msg_qnum (mqs st2 q) = 0" "msg_first (mqs st4 q) = None" "mk ?st5 = mk st"
    using f n by (simp_all add: rcv_unlink_def st1_def st2_def st3_def st4_def)
  have "wq_ring (mk ?st5) (wwait q) ws" using assms(6) c(4) by simp
  from msg_wake_ring [OF this] obtain s where s: "msg_wake (wwait q) ?st5 = Some (?st5\<lparr>mk := s\<rparr>)" by blast
  have "\<exists>st'. rcv_take q h p sz flg now st = Some (Msg_Ret (msg_ts (mhs st h)), st') \<and> msg_first (mqs st' q) = None"
  proof -
    have nf: "\<not> (sz < msg_ts (mhs st h) \<and> flg AND MSG_NOERROR = 0)" and mn: "(if msg_ts (mhs st h) < sz then msg_ts (mhs st h) else sz) = msg_ts (mhs st h)"
      using assms(5) by auto
    show ?thesis
      unfolding rcv_take_def Let_def if_not_P [OF nf] mn c(1) bind.bind_lunit st2_def [symmetric] if_P [OF c(2)] st3_def [symmetric] st4_def [symmetric] s
      by (simp add: msg_mem_def c(3))
  qed
  then show ?thesis using f assms(3,4) by (auto simp: rcv_round_def rcv_find_def msg_chain_def undo_walk.simps)
qed

lemma linked_upt: "(\<And>i. m \<le> i \<Longrightarrow> i < n \<Longrightarrow> nx i = Some (Suc i)) \<Longrightarrow> nx n = None \<Longrightarrow> m \<le> n \<Longrightarrow> linked nx (Some m) [m..<Suc n]"
proof (induction "n - m" arbitrary: m)
  case (Suc d)
  then show ?case by (subst upt_conv_Cons) auto
qed simp

text \<open>A queue with 65537 messages of length 0.\<close>

definition demo_full :: msg_state where
  "demo_full = demo_msgs\<lparr>mqs := (\<lambda>q. demo_msq\<lparr>msg_last := Some 65536, msg_cbytes := 0\<rparr>),
     mhs := (\<lambda>h. \<lparr>msg_next = (if h < 65536 then Some (Suc h) else None), msg_type = 1, msg_spot = [], msg_ts = 0\<rparr>)\<rparr>"

lemma demo_full_ok: "msgq_ok demo_full 4 (0 # [1..<65537])"
proof -
  have e: "0 # [1..<65537] = [0..<Suc 65536]" using upt_conv_Cons [of 0 65537] by simp
  have "linked (\<lambda>h. msg_next (mhs demo_full h)) (Some 0) [0..<Suc 65536]" by (rule linked_upt) (auto simp: demo_full_def)
  moreover have "(\<Sum>h\<leftarrow>hs. msg_ts (mhs demo_full h)) = 0" for hs by (induction hs) (simp_all add: demo_full_def)
  moreover have "msg_ok (mhs demo_full h)" for h by (simp add: demo_full_def msg_ok_def fits_s32_def)
  moreover have "msg_first (mqs demo_full 4) = Some 0" "msg_last (mqs demo_full 4) = Some 65536" "msg_qnum (mqs demo_full 4) = 1" "msg_cbytes (mqs demo_full 4) = 0"
    by (simp_all add: demo_full_def demo_msq_def)
  ultimately show ?thesis unfolding e msgq_ok_def by (simp del: upt_Suc add: last_upt)
qed

theorem msgrcv_loses_65536_messages_witness:
  "\<exists>st'. rcv_round 0 4 4096 10 0 0 0 9 demo_full = Some (Msg_Ret 0, st') \<and> msg_chain 4 st' = Some []"
  using msgrcv_loses_65536_messages [OF demo_full_ok, of 0 10 "[]" 4096 0 0 9] demo_msg_perm [of S_IRUGO] demo_msg_ring
  by (simp add: demo_full_def) (simp add: demo_msq_def)

end
