(* ===== verification/Kmalloc.thy ===== *)
theory Kmalloc
  imports Kernel_Prelude
begin

text \<open>
  The allocator of the kernel: \<^verbatim>\<open>mm/kmalloc.c\<close>.  Pages are cut into blocks of one of eight sizes.  The descriptor at the start of a
  page and the header in front of a block are in stores indexed by their addresses, \<^verbatim>\<open>NULL\<close> is 0, and the union in the header, the
  length of a used block or the next free block, is one word.  The pages that \<^verbatim>\<open>__get_free_page\<close> gave and \<^verbatim>\<open>free_page\<close> has not taken back are
  \<^verbatim>\<open>held\<close>; \<^verbatim>\<open>printk\<close> adds to \<^verbatim>\<open>printed\<close>.  \<^verbatim>\<open>__get_free_page\<close> may sleep, so \<^verbatim>\<open>kmalloc\<close> is cut there, and the page it gets is an argument of the
  continuation.  An access outside the array \<^verbatim>\<open>sizes\<close> and a chain of pages that does not end are \<^verbatim>\<open>None\<close>.
\<close>

section \<open>Data\<close>

record block_header =
  bh_flags :: u32
  bh_vp :: u32

record page_descriptor =
  pg_next :: u32
  pg_firstfree :: u32
  pg_order :: int
  nfree :: int

record size_descriptor =
  sd_firstfree :: u32
  sd_size :: int
  nblocks :: int
  nmallocs :: int
  nfrees :: int
  nbytesmalloced :: int
  npages :: int

datatype km_note = Nonatomic | Refused u32 | Too_Large u32 | Block_Not_Free u32 | No_Page | Very_Funny u32
  | Non_Kmalloced u32 | Wrong_Size u32 u32 u32 | Already_On_Freelist u32 | Not_On_Freelist u32

record km_state =
  bh :: "u32 \<Rightarrow> block_header"
  pd :: "u32 \<Rightarrow> page_descriptor"
  sizes :: "size_descriptor list"
  intr_count :: u32
  held :: "u32 \<Rightarrow> bool"
  printed :: "km_note list"

abbreviation (input) MF_USED :: u32 where "MF_USED \<equiv> 0xffaa0055"
abbreviation (input) MF_FREE :: u32 where "MF_FREE \<equiv> 0x0055ffaa"
abbreviation (input) GFP_ATOMIC :: u32 where "GFP_ATOMIC \<equiv> 1"
abbreviation (input) GFP_LEVEL_MASK :: u32 where "GFP_LEVEL_MASK \<equiv> 0xf"
abbreviation (input) KM_PAGE :: int where "KM_PAGE \<equiv> 4096"
abbreviation (input) MAX_TRIES :: nat where "MAX_TRIES \<equiv> 4"

definition size_class :: "int \<times> int \<Rightarrow> size_descriptor" where
  "size_class = (\<lambda>(sz, n). \<lparr>sd_firstfree = 0, sd_size = sz, nblocks = n, nmallocs = 0, nfrees = 0, nbytesmalloced = 0, npages = 0\<rparr>)"

definition size_table :: "(int \<times> int) list" where
  "size_table = [(32, 127), (64, 63), (128, 31), (252, 16), (508, 8), (1020, 4), (2040, 2), (4080, 1), (0, 0)]"

definition init_sizes :: "size_descriptor list" where
  "init_sizes = map size_class size_table"

definition PAGE_DESC :: "u32 \<Rightarrow> u32" where
  "PAGE_DESC p = p AND 0xfffff000"

definition upd_bh :: "u32 \<Rightarrow> (block_header \<Rightarrow> block_header) \<Rightarrow> km_state \<Rightarrow> km_state" where
  "upd_bh p f st = st\<lparr>bh := (bh st)(p := f (bh st p))\<rparr>"

definition upd_pd :: "u32 \<Rightarrow> (page_descriptor \<Rightarrow> page_descriptor) \<Rightarrow> km_state \<Rightarrow> km_state" where
  "upd_pd p f st = st\<lparr>pd := (pd st)(p := f (pd st p))\<rparr>"

definition upd_sd :: "nat \<Rightarrow> (size_descriptor \<Rightarrow> size_descriptor) \<Rightarrow> km_state \<Rightarrow> km_state" where
  "upd_sd i f st = st\<lparr>sizes := (sizes st)[i := f (sizes st ! i)]\<rparr>"

definition km_printk :: "km_note \<Rightarrow> km_state \<Rightarrow> km_state" where
  "km_printk n st = st\<lparr>printed := printed st @ [n]\<rparr>"

section \<open>The classes of sizes\<close>

fun check_sizes :: "size_descriptor list \<Rightarrow> bool option" where
  "check_sizes [] = None"
| "check_sizes (d # ds) =
     (if sd_size d = 0 then Some True
      else if nblocks d * sd_size d + 16 > KM_PAGE then Some False
      else check_sizes ds)"

text \<open>\<^verbatim>\<open>None\<close> is the panic.\<close>

definition kmalloc_init :: "int \<Rightarrow> int \<Rightarrow> km_state \<Rightarrow> int option" where
  "kmalloc_init start_mem end_mem st = (if check_sizes (sizes st) = Some True then Some start_mem else None)"

fun find_order :: "int \<Rightarrow> size_descriptor list \<Rightarrow> int \<Rightarrow> int option" where
  "find_order sz [] order = None"
| "find_order sz (d # ds) order =
     (if sd_size d = 0 then Some (-1)
      else if sz \<le> sd_size d then Some order
      else find_order sz ds (order + 1))"

definition get_order :: "int \<Rightarrow> km_state \<Rightarrow> int option" where
  "get_order sz st = find_order (swrap (sz + 8)) (sizes st) 0"

section \<open>Allocating\<close>

text \<open>What \<^verbatim>\<open>kmalloc\<close> does: return a pointer, or ask for a page with \<^verbatim>\<open>t\<close> tries left.\<close>

datatype km_result = Km_Ret u32 | Km_Page nat

text \<open>The part with interrupts off: the first free block of the first page, if there is one.\<close>

definition km_take :: "nat \<Rightarrow> u32 \<Rightarrow> km_state \<Rightarrow> (u32 \<times> km_state) option" where
  "km_take order sz st =
    (let page = sd_firstfree (sizes st ! order); p = pg_firstfree (pd st page)
     in if page = 0 \<or> p = 0 then None
        else if bh_flags (bh st p) = MF_FREE
        then let st = upd_pd page (\<lambda>d. d\<lparr>pg_firstfree := bh_vp (bh st p), nfree := nfree d - 1\<rparr>) st;
                 st = (if nfree (pd st page) = 0
                       then upd_pd page (\<lambda>d. d\<lparr>pg_next := 0\<rparr>) (upd_sd order (\<lambda>s. s\<lparr>sd_firstfree := pg_next (pd st page)\<rparr>) st)
                       else st);
                 st = upd_sd order (\<lambda>s. s\<lparr>nmallocs := swrap (nmallocs s + 1), nbytesmalloced := swrap (nbytesmalloced s + uint sz)\<rparr>) st
             in Some (p + 8, upd_bh p (\<lambda>b. b\<lparr>bh_flags := MF_USED, bh_vp := sz\<rparr>) st)
        else Some (0, km_printk (Block_Not_Free p) st))"

text \<open>The loop that makes the chain of free blocks of a new page.\<close>

fun link_blocks :: "nat \<Rightarrow> u32 \<Rightarrow> u32 \<Rightarrow> (u32 \<Rightarrow> block_header) \<Rightarrow> (u32 \<Rightarrow> block_header)" where
  "link_blocks (Suc (Suc i)) p sz h = link_blocks (Suc i) (p + sz) sz (h(p := \<lparr>bh_flags = MF_FREE, bh_vp = p + sz\<rparr>))"
| "link_blocks _ p sz h = h(p := \<lparr>bh_flags = MF_FREE, bh_vp = 0\<rparr>)"

definition km_refill :: "nat \<Rightarrow> u32 \<Rightarrow> km_state \<Rightarrow> km_state" where
  "km_refill order page st =
    (let d = sizes st ! order;
         st = upd_sd order (\<lambda>s. s\<lparr>npages := swrap (npages s + 1)\<rparr>) (st\<lparr>held := (held st)(page := True)\<rparr>);
         st = st\<lparr>bh := link_blocks (nat (nblocks d)) (page + 16) (to_u32 (sd_size d)) (bh st)\<rparr>;
         st = upd_pd page (\<lambda>_. \<lparr>pg_next = sd_firstfree d, pg_firstfree = page + 16, pg_order = int order, nfree = nblocks d\<rparr>) st
     in upd_sd order (\<lambda>s. s\<lparr>sd_firstfree := page\<rparr>) st)"

definition kmalloc_round :: "nat \<Rightarrow> nat \<Rightarrow> u32 \<Rightarrow> km_state \<Rightarrow> km_result \<times> km_state" where
  "kmalloc_round tries order sz st =
     (case tries of
        0 \<Rightarrow> (Km_Ret 0, km_printk (Very_Funny sz) st)
      | Suc t \<Rightarrow>
          (case km_take order sz st of
             Some (p, st) \<Rightarrow> (Km_Ret p, st)
           | None \<Rightarrow> (Km_Page t, st)))"

definition kmalloc_resume :: "nat \<Rightarrow> nat \<Rightarrow> u32 \<Rightarrow> u32 \<Rightarrow> km_state \<Rightarrow> km_result \<times> km_state" where
  "kmalloc_resume tries order sz page st =
     (if page = 0 then (Km_Ret 0, km_printk No_Page st)
      else kmalloc_round tries order sz (km_refill order page st))"

text \<open>\<^verbatim>\<open>kmalloc\<close> up to its first request for a page; the size class and the priority of the request are returned too.\<close>

definition kmalloc :: "u32 \<Rightarrow> u32 \<Rightarrow> km_state \<Rightarrow> (km_result \<times> nat \<times> u32 \<times> km_state) option" where
  "kmalloc sz priority st =
    (let st = (if intr_count st \<noteq> 0 \<and> priority \<noteq> GFP_ATOMIC then km_printk Nonatomic st else st);
         priority = (if intr_count st \<noteq> 0 \<and> priority \<noteq> GFP_ATOMIC then GFP_ATOMIC else priority)
     in if sz > 4096 then Some (Km_Ret 0, 0, priority, km_printk (Refused sz) st)
        else do {
          order \<leftarrow> get_order (to_s32 sz) st;
          if order < 0 then Some (Km_Ret 0, 0, priority, km_printk (Too_Large sz) st)
          else let (r, st) = kmalloc_round MAX_TRIES (nat order) sz st
               in Some (r, nat order, priority AND GFP_LEVEL_MASK, st) })"

section \<open>Freeing\<close>

text \<open>The page before \<^verbatim>\<open>page\<close> on the chain from \<^verbatim>\<open>pg\<close>: \<^verbatim>\<open>Some 0\<close> when the chain ends without it.\<close>

partial_function (option) page_before :: "(u32 \<Rightarrow> page_descriptor) \<Rightarrow> u32 \<Rightarrow> u32 \<Rightarrow> u32 option" where
  "page_before d page pg =
     (if pg = 0 then Some 0 else if pg_next (d pg) = page then Some pg else page_before d page (pg_next (d pg)))"

definition unlink_page :: "nat \<Rightarrow> u32 \<Rightarrow> km_state \<Rightarrow> km_state option" where
  "unlink_page order page st =
     (if sd_firstfree (sizes st ! order) = page
      then Some (upd_sd order (\<lambda>s. s\<lparr>sd_firstfree := pg_next (pd st page)\<rparr>) st)
      else do {
        pg2 \<leftarrow> page_before (pd st) page (sd_firstfree (sizes st ! order));
        Some (if pg2 \<noteq> 0 then upd_pd pg2 (\<lambda>d. d\<lparr>pg_next := pg_next (pd st page)\<rparr>) st else km_printk (Not_On_Freelist page) st) })"

definition free_block :: "u32 \<Rightarrow> u32 \<Rightarrow> km_state \<Rightarrow> km_state" where
  "free_block p page st =
    (let st = upd_bh p (\<lambda>b. b\<lparr>bh_flags := MF_FREE, bh_vp := pg_firstfree (pd st page)\<rparr>) st
     in upd_pd page (\<lambda>d. d\<lparr>pg_firstfree := p, nfree := nfree d + 1\<rparr>) st)"

text \<open>A page that was full goes back on the list of its class.\<close>

definition relist_page :: "nat \<Rightarrow> u32 \<Rightarrow> km_state \<Rightarrow> km_state" where
  "relist_page order page st =
     (if nfree (pd st page) = 1
      then if pg_next (pd st page) \<noteq> 0 then km_printk (Already_On_Freelist page) st
           else upd_sd order (\<lambda>s. s\<lparr>sd_firstfree := page\<rparr>) (upd_pd page (\<lambda>d. d\<lparr>pg_next := sd_firstfree (sizes st ! order)\<rparr>) st)
      else st)"

definition kfree_s :: "u32 \<Rightarrow> u32 \<Rightarrow> km_state \<Rightarrow> km_state option" where
  "kfree_s ptr sz st =
    (let p = ptr - 8; page = PAGE_DESC p; order = pg_order (pd st page)
     in if order < 0 \<or> order > 9 \<or> pg_next (pd st page) AND NOT 0xfffff000 \<noteq> 0 \<or> bh_flags (bh st p) \<noteq> MF_USED
        then Some (km_printk (Non_Kmalloced p) st)
        else if sz \<noteq> 0 \<and> sz \<noteq> bh_vp (bh st p)
        then Some (km_printk (Wrong_Size p sz (bh_vp (bh st p))) st)
        else if nat order \<ge> length (sizes st) then None
        else let sz = bh_vp (bh st p); st = relist_page (nat order) page (free_block p page st)
             in do {
               st \<leftarrow> (if nfree (pd st page) = nblocks (sizes st ! nat order)
                      then do { st \<leftarrow> unlink_page (nat order) page st; Some (st\<lparr>held := (held st)(page := False)\<rparr>) }
                      else Some st);
               Some (upd_sd (nat order) (\<lambda>s. s\<lparr>nfrees := swrap (nfrees s + 1), nbytesmalloced := swrap (nbytesmalloced s - uint sz)\<rparr>) st) })"

end
