(* ===== verification/Kmalloc_Laws.thy ===== *)
theory Kmalloc_Laws
  imports Kmalloc Chains Object_Table
begin

text \<open>
  The free pages of each size and the free blocks of each page are chains (\<^verbatim>\<open>km_inv\<close>); the allocator refines a map from the pointers it
  gave to the sizes asked for, and the blocks behind different pointers do not overlap.
\<close>

section \<open>Pages and blocks\<close>

definition bsize :: "nat \<Rightarrow> int" where
  "bsize i = fst (size_table ! i)"

definition nblk :: "nat \<Rightarrow> nat" where
  "nblk i = nat (snd (size_table ! i))"

definition blk :: "nat \<Rightarrow> u32 \<Rightarrow> nat \<Rightarrow> u32" where
  "blk k P i = P + 16 + of_nat i * to_u32 (bsize k)"

definition blocks :: "nat \<Rightarrow> u32 \<Rightarrow> u32 set" where
  "blocks k P = blk k P ` {..<nblk k}"

definition page_addr :: "u32 \<Rightarrow> bool" where
  "page_addr P \<longleftrightarrow> P \<noteq> 0 \<and> 4096 dvd unat P"

definition ptr :: "u32 \<Rightarrow> u32 option" where
  "ptr a = (if a = 0 then None else Some a)"

lemma ptr_simps [simp]: "ptr 0 = None" "a \<noteq> 0 \<Longrightarrow> ptr a = Some a" "ptr a = None \<longleftrightarrow> a = 0" "ptr a = Some b \<longleftrightarrow> a = b \<and> b \<noteq> 0"
  by (auto simp: ptr_def)

lemma order_cases: "k < 8 \<Longrightarrow> k \<in> {0, 1, 2, 3, 4, 5, 6, 7}" for k :: nat
  by auto

lemma class_facts:
  assumes "k < 8"
  shows "32 \<le> bsize k" "bsize k \<le> 4080" "0 < nblk k" "int (nblk k) * bsize k + 16 \<le> 4096" "int (nblk k) = snd (size_table ! k)"
  using order_cases [OF assms] by (auto simp: bsize_def nblk_def size_table_def)

lemma unat_u32_less: "unat p < 2 ^ 32" for p :: u32
proof -
  have "unat p < 2 ^ LENGTH(32)" by (rule unsigned_less)
  then show ?thesis by simp
qed

lemma unat_PAGE_DESC: "unat (PAGE_DESC p) = unat p div 4096 * 4096"
proof -
  have m: "(0xfffff000 :: u32) = NOT (mask 12)" by (simp add: mask_eq_exp_minus_1)
  have "p AND NOT (mask 12) = push_bit 12 (drop_bit 12 p)" by (intro bit_word_eqI) (auto simp: bit_simps)
  then have "PAGE_DESC p = push_bit 12 (drop_bit 12 p)" unfolding PAGE_DESC_def m .
  moreover have "drop_bit 12 (unat p) * 4096 < 2 ^ 32"
  proof -
    have "drop_bit 12 (unat p) * 4096 \<le> unat p" by (simp add: drop_bit_eq_div)
    then show ?thesis using unat_u32_less [of p] by simp
  qed
  ultimately show ?thesis by (simp add: push_bit_eq_mult drop_bit_eq_div unat_word_ariths unat_div)
qed

lemma unat_blk:
  assumes "page_addr P" "k < 8" "i < nblk k"
  shows "unat (blk k P i) = unat P + 16 + i * nat (bsize k)" "16 + i * nat (bsize k) + nat (bsize k) \<le> 4096" "unat P \<le> 2 ^ 32 - 4096"
proof -
  have f: "32 \<le> bsize k" "int (nblk k) * bsize k + 16 \<le> 4096" using class_facts [OF assms(2)] by simp_all
  have "int i * bsize k + bsize k \<le> int (nblk k) * bsize k"
    using assms(3) f(1) mult_right_mono [of "int i + 1" "int (nblk k)" "bsize k"] by (simp add: algebra_simps)
  then have l: "int i * bsize k + bsize k + 16 \<le> 4096" using f(2) by simp
  then have "int (16 + i * nat (bsize k) + nat (bsize k)) \<le> int 4096" using f(1) by simp
  then show l': "16 + i * nat (bsize k) + nat (bsize k) \<le> 4096" by presburger
  have "\<exists>q. unat P = 4096 * q" using assms(1) by (auto simp: page_addr_def)
  then show p: "unat P \<le> 2 ^ 32 - 4096" using unat_u32_less [of P] by auto
  have w: "to_u32 (bsize k) = of_nat (nat (bsize k))" using f(1) by (simp add: to_u32_def)
  define n where "n = unat P + 16 + i * nat (bsize k)"
  have "blk k P i = of_nat n" by (simp add: blk_def w n_def)
  moreover have "n < 2 ^ 32" using p l' f(1) unfolding n_def by simp
  ultimately show "unat (blk k P i) = unat P + 16 + i * nat (bsize k)" by (simp add: unat_of_nat take_bit_nat_eq_self flip: n_def)
qed

lemma blocksE:
  assumes "b \<in> blocks k P" "page_addr P" "k < 8"
  obtains i where "i < nblk k" "b = blk k P i" "unat b = unat P + 16 + i * nat (bsize k)" "16 + i * nat (bsize k) + nat (bsize k) \<le> 4096"
proof -
  obtain i where i: "i < nblk k" "b = blk k P i" using assms(1) by (auto simp: blocks_def)
  then show thesis using that unat_blk [OF assms(2,3) i(1)] by blast
qed

lemma blk_page:
  assumes "b \<in> blocks k P" "page_addr P" "k < 8"
  shows "PAGE_DESC b = P" "b \<noteq> 0"
proof -
  obtain i where i: "unat b = unat P + 16 + i * nat (bsize k)" "16 + i * nat (bsize k) + nat (bsize k) \<le> 4096"
    using blocksE [OF assms] by blast
  obtain q where "unat P = 4096 * q" using assms(2) by (auto simp: page_addr_def)
  moreover have "16 + i * nat (bsize k) < 4096" using i(2) class_facts(1) [OF assms(3)] by linarith
  ultimately have "unat b div 4096 * 4096 = unat P" using i(1) by (simp add: div_mult_self4)
  then show "PAGE_DESC b = P" using unat_PAGE_DESC [of b] by (metis word_eq_iff_unsigned)
  show "b \<noteq> 0" using i(1) by auto
qed

lemma blk_inj:
  assumes "page_addr P" "k < 8" "i < nblk k" "j < nblk k" "blk k P i = blk k P j"
  shows "i = j"
proof -
  have "i * nat (bsize k) = j * nat (bsize k)" using unat_blk(1) [OF assms(1-3)] unat_blk(1) [OF assms(1,2,4)] assms(5) by (metis add_left_cancel)
  moreover have "nat (bsize k) \<noteq> 0" using class_facts(1) [OF assms(2)] by simp
  ultimately show ?thesis by (metis mult_right_cancel)
qed

text \<open>The blocks of a page do not overlap.\<close>

lemma blocks_apart:
  assumes "page_addr P" "k < 8" "b \<in> blocks k P" "c \<in> blocks k P" "b \<noteq> c"
  shows "unat b + nat (bsize k) \<le> unat c \<or> unat c + nat (bsize k) \<le> unat b"
proof -
  obtain i where i: "b = blk k P i" "unat b = unat P + 16 + i * nat (bsize k)" using blocksE [OF assms(3,1,2)] by blast
  obtain j where j: "c = blk k P j" "unat c = unat P + 16 + j * nat (bsize k)" using blocksE [OF assms(4,1,2)] by blast
  have "i \<noteq> j" using i(1) j(1) assms(5) by auto
  then consider "i + 1 \<le> j" | "j + 1 \<le> i" by linarith
  then show ?thesis
  proof cases
    case 1
    then have "(i + 1) * nat (bsize k) \<le> j * nat (bsize k)" by (rule mult_le_mono1)
    then show ?thesis using i(2) j(2) by simp
  next
    case 2
    then have "(j + 1) * nat (bsize k) \<le> i * nat (bsize k)" by (rule mult_le_mono1)
    then show ?thesis using i(2) j(2) by simp
  qed
qed

lemma pages_apart:
  assumes "page_addr P" "page_addr Q" "k < 8" "l < 8" "b \<in> blocks k P" "c \<in> blocks l Q" "P \<noteq> Q"
  shows "unat b + nat (bsize k) \<le> unat c \<or> unat c + nat (bsize l) \<le> unat b"
proof -
  obtain i where i: "unat b = unat P + 16 + i * nat (bsize k)" "16 + i * nat (bsize k) + nat (bsize k) \<le> 4096" using blocksE [OF assms(5,1,3)] by blast
  obtain j where j: "unat c = unat Q + 16 + j * nat (bsize l)" "16 + j * nat (bsize l) + nat (bsize l) \<le> 4096" using blocksE [OF assms(6,2,4)] by blast
  obtain p q where pq: "unat P = 4096 * p" "unat Q = 4096 * q" using assms(1,2) unfolding page_addr_def by (meson dvdE)
  have "p \<noteq> q" using assms(7) pq by (metis word_eq_iff_unsigned)
  then consider "p + 1 \<le> q" | "q + 1 \<le> p" by linarith
  then show ?thesis using i j pq by cases linarith+
qed

section \<open>The invariant\<close>

definition ord :: "km_state \<Rightarrow> u32 \<Rightarrow> nat" where
  "ord st P = nat (pg_order (pd st P))"

definition page_ok :: "km_state \<Rightarrow> u32 \<Rightarrow> u32 list \<Rightarrow> bool" where
  "page_ok st P fs \<longleftrightarrow>
     page_addr P \<and> ord st P < 8 \<and> pg_order (pd st P) = int (ord st P) \<and> distinct fs \<and> set fs \<subseteq> blocks (ord st P) P
     \<and> linked (\<lambda>b. ptr (bh_vp (bh st b))) (ptr (pg_firstfree (pd st P))) fs \<and> nfree (pd st P) = int (length fs)
     \<and> (\<forall>b\<in>set fs. bh_flags (bh st b) = MF_FREE)
     \<and> (\<forall>b\<in>blocks (ord st P) P - set fs. bh_flags (bh st b) = MF_USED \<and> uint (bh_vp (bh st b)) + 8 \<le> bsize (ord st P))"

definition chain_ok :: "km_state \<Rightarrow> (u32 \<Rightarrow> u32 list) \<Rightarrow> nat \<Rightarrow> u32 list \<Rightarrow> bool" where
  "chain_ok st fl k Ps \<longleftrightarrow>
     linked (\<lambda>P. ptr (pg_next (pd st P))) (ptr (sd_firstfree (sizes st ! k))) Ps \<and> distinct Ps
     \<and> set Ps = {P. held st P \<and> ord st P = k \<and> fl P \<noteq> []}"

definition km_inv :: "km_state \<Rightarrow> (u32 \<Rightarrow> u32 list) \<Rightarrow> (nat \<Rightarrow> u32 list) \<Rightarrow> bool" where
  "km_inv st fl pl \<longleftrightarrow>
     map (\<lambda>d. (sd_size d, nblocks d)) (sizes st) = size_table
     \<and> (\<forall>P. held st P \<longrightarrow> page_ok st P (fl P)) \<and> (\<forall>k<8. chain_ok st fl k (pl k))
     \<and> (\<forall>P. held st P \<and> fl P = [] \<longrightarrow> pg_next (pd st P) = 0)"

definition km_ok :: "km_state \<Rightarrow> bool" where
  "km_ok st \<longleftrightarrow> (\<exists>fl pl. km_inv st fl pl)"

text \<open>The pointers that were given out, with the sizes asked for.\<close>

definition km_view :: "km_state \<Rightarrow> u32 \<rightharpoonup> u32" where
  "km_view st p =
    (let b = p - 8; P = PAGE_DESC b
     in if held st P \<and> b \<in> blocks (ord st P) P \<and> bh_flags (bh st b) = MF_USED then Some (bh_vp (bh st b)) else None)"

lemma page_ok_cong:
  assumes "pg_order (pd st' P) = pg_order (pd st P)" "pg_firstfree (pd st' P) = pg_firstfree (pd st P)" "nfree (pd st' P) = nfree (pd st P)"
    and "\<And>b. b \<in> blocks (ord st P) P \<Longrightarrow> bh st' b = bh st b"
  shows "page_ok st' P fs = page_ok st P fs"
proof -
  have o: "ord st' P = ord st P" using assms(1) by (simp add: ord_def)
  have "linked (\<lambda>b. ptr (bh_vp (bh st' b))) p fs = linked (\<lambda>b. ptr (bh_vp (bh st b))) p fs" if "set fs \<subseteq> blocks (ord st P) P" for p
    using that assms(4) by (intro linked_cong) auto
  then show ?thesis unfolding page_ok_def o using assms by (auto; metis subsetD)
qed

lemma km_invD:
  assumes "km_inv st fl pl"
  shows "held st P \<Longrightarrow> page_ok st P (fl P)" "k < 8 \<Longrightarrow> chain_ok st fl k (pl k)" "held st P \<Longrightarrow> fl P = [] \<Longrightarrow> pg_next (pd st P) = 0"
  using assms by (auto simp: km_inv_def)

lemma page_okD:
  assumes "page_ok st P fs"
  shows "page_addr P" "ord st P < 8" "pg_order (pd st P) = int (ord st P)" "distinct fs" "set fs \<subseteq> blocks (ord st P) P"
    "linked (\<lambda>b. ptr (bh_vp (bh st b))) (ptr (pg_firstfree (pd st P))) fs" "nfree (pd st P) = int (length fs)"
    "b \<in> set fs \<Longrightarrow> bh_flags (bh st b) = MF_FREE"
    "b \<in> blocks (ord st P) P \<Longrightarrow> b \<notin> set fs \<Longrightarrow> bh_flags (bh st b) = MF_USED \<and> uint (bh_vp (bh st b)) + 8 \<le> bsize (ord st P)"
  using assms by (auto simp: page_ok_def)

lemma table_length:
  assumes "km_inv st fl pl"
  shows "length (sizes st) = 9" "k < 9 \<Longrightarrow> sd_size (sizes st ! k) = bsize k" "k < 8 \<Longrightarrow> nblocks (sizes st ! k) = int (nblk k)"
proof -
  have m: "map (\<lambda>d. (sd_size d, nblocks d)) (sizes st) = size_table" using assms by (simp add: km_inv_def)
  then have "length (sizes st) = length size_table" by (metis length_map)
  then show l: "length (sizes st) = 9" by (simp add: size_table_def)
  have n: "(sd_size (sizes st ! k), nblocks (sizes st ! k)) = size_table ! k" if "k < 9" for k
    using m l that by (metis (no_types, lifting) nth_map)
  then show "k < 9 \<Longrightarrow> sd_size (sizes st ! k) = bsize k" by (metis bsize_def fst_conv)
  show "nblocks (sizes st ! k) = int (nblk k)" if "k < 8" using n [of k] class_facts(5) [OF that] that by (metis less_SucI numeral_nat(7) snd_conv eval_nat_numeral(3))
qed

text \<open>What is allocated, in terms of the invariant.\<close>

lemma km_view_iff:
  assumes "km_inv st fl pl"
  shows "km_view st p = Some n \<longleftrightarrow>
    (\<exists>P. held st P \<and> p - 8 \<in> blocks (ord st P) P \<and> p - 8 \<notin> set (fl P) \<and> bh_vp (bh st (p - 8)) = n)"
proof
  assume "km_view st p = Some n"
  then have "held st (PAGE_DESC (p - 8))" "p - 8 \<in> blocks (ord st (PAGE_DESC (p - 8))) (PAGE_DESC (p - 8))" "bh_flags (bh st (p - 8)) = MF_USED" "bh_vp (bh st (p - 8)) = n"
    by (auto simp: km_view_def Let_def split: if_splits)
  moreover from this have "p - 8 \<notin> set (fl (PAGE_DESC (p - 8)))" using page_okD(8) [OF km_invD(1) [OF assms]] by fastforce
  ultimately show "\<exists>P. held st P \<and> p - 8 \<in> blocks (ord st P) P \<and> p - 8 \<notin> set (fl P) \<and> bh_vp (bh st (p - 8)) = n" by blast
next
  assume "\<exists>P. held st P \<and> p - 8 \<in> blocks (ord st P) P \<and> p - 8 \<notin> set (fl P) \<and> bh_vp (bh st (p - 8)) = n"
  then obtain P where P: "held st P" "p - 8 \<in> blocks (ord st P) P" "p - 8 \<notin> set (fl P)" "bh_vp (bh st (p - 8)) = n" by blast
  note ok = km_invD(1) [OF assms P(1)]
  have "PAGE_DESC (p - 8) = P" using P(2) page_okD(1,2) [OF ok] by (rule blk_page)
  then show "km_view st p = Some n" using P page_okD(9) [OF ok P(2,3)] by (simp add: km_view_def)
qed

text \<open>A change of one page, and of the chain of its class, keeps the invariant when the page and the chain are in order afterwards.\<close>

lemma km_inv_step:
  assumes inv: "km_inv st fl pl" and k: "k < 8" and P: "held st P \<Longrightarrow> ord st P = k"
    and tab: "map (\<lambda>d. (sd_size d, nblocks d)) (sizes st') = map (\<lambda>d. (sd_size d, nblocks d)) (sizes st)"
    and oth: "\<And>l. l \<noteq> k \<Longrightarrow> sd_firstfree (sizes st' ! l) = sd_firstfree (sizes st ! l)"
    and hd: "\<And>Q. Q \<noteq> P \<Longrightarrow> held st' Q = held st Q"
    and pds: "\<And>Q. held st Q \<Longrightarrow> Q \<noteq> P \<Longrightarrow> pg_order (pd st' Q) = pg_order (pd st Q) \<and> pg_firstfree (pd st' Q) = pg_firstfree (pd st Q) \<and> nfree (pd st' Q) = nfree (pd st Q)"
    and nxt: "\<And>Q. held st Q \<Longrightarrow> Q \<noteq> P \<Longrightarrow> ord st Q \<noteq> k \<or> fl Q = [] \<Longrightarrow> pg_next (pd st' Q) = pg_next (pd st Q)"
    and bhs: "\<And>Q c. held st Q \<Longrightarrow> Q \<noteq> P \<Longrightarrow> c \<in> blocks (ord st Q) Q \<Longrightarrow> bh st' c = bh st c"
    and P': "held st' P \<Longrightarrow> ord st' P = k \<and> page_ok st' P fs \<and> (fs = [] \<longrightarrow> pg_next (pd st' P) = 0)"
    and ch: "chain_ok st' (fl(P := fs)) k Ps"
  shows "km_inv st' (fl(P := fs)) (pl(k := Ps))"
proof -
  let ?fl = "fl(P := fs)"
  have o: "ord st' Q = ord st Q" if "held st Q" "Q \<noteq> P" for Q using pds [OF that] by (simp add: ord_def)
  have pages: "page_ok st' Q (?fl Q)" if "held st' Q" for Q
  proof (cases "Q = P")
    case False
    then have h: "held st Q" using hd that by simp
    have "page_ok st' Q (fl Q) = page_ok st Q (fl Q)" using pds [OF h False] bhs [OF h False] by (intro page_ok_cong) auto
    then show ?thesis using km_invD(1) [OF inv h] False by simp
  qed (use P' that in simp)
  have chains: "chain_ok st' ?fl l ((pl(k := Ps)) l)" if l: "l < 8" for l
  proof (cases "l = k")
    case False
    note c = km_invD(2) [OF inv l, unfolded chain_ok_def]
    have "{Q. held st' Q \<and> ord st' Q = l \<and> ?fl Q \<noteq> []} = {Q. held st Q \<and> ord st Q = l \<and> fl Q \<noteq> []}" (is "?A = ?B")
    proof (rule set_eqI)
      fix Q
      show "Q \<in> ?A \<longleftrightarrow> Q \<in> ?B" using hd [of Q] o [of Q] P P' False by (cases "Q = P") auto
    qed
    moreover have "ptr (pg_next (pd st' Q)) = ptr (pg_next (pd st Q))" if "Q \<in> set (pl l)" for Q
    proof -
      have Q: "held st Q" "ord st Q = l" using that c by auto
      then have "Q \<noteq> P" using P False by auto
      then show ?thesis using nxt [OF Q(1)] Q(2) False by simp
    qed
    then have "linked (\<lambda>Q. ptr (pg_next (pd st' Q))) p (pl l) = linked (\<lambda>Q. ptr (pg_next (pd st Q))) p (pl l)" for p by (rule linked_cong)
    ultimately show ?thesis using c oth [OF False] False by (simp add: chain_ok_def)
  qed (use ch in simp)
  have full: "pg_next (pd st' Q) = 0" if "held st' Q" "?fl Q = []" for Q
  proof (cases "Q = P")
    case False
    then show ?thesis using that hd [of Q] nxt [of Q] km_invD(3) [OF inv, of Q] by simp
  qed (use P' that in simp)
  have "map (\<lambda>d. (sd_size d, nblocks d)) (sizes st') = size_table" using tab inv unfolding km_inv_def by simp
  then show ?thesis unfolding km_inv_def using pages chains full by blast
qed

lemma chain_ok_first:
  assumes "km_inv st fl pl" "k < 8" "pl k = P # Ps"
  shows "sd_firstfree (sizes st ! k) = P" "P \<noteq> 0" "held st P" "ord st P = k" "fl P \<noteq> []" "linked (\<lambda>P. ptr (pg_next (pd st P))) (ptr (pg_next (pd st P))) Ps"
    "P \<notin> set Ps" "distinct Ps" "set Ps = {Q. held st Q \<and> ord st Q = k \<and> fl Q \<noteq> []} - {P}"
proof -
  have c: "linked (\<lambda>P. ptr (pg_next (pd st P))) (ptr (sd_firstfree (sizes st ! k))) (P # Ps)" "distinct (P # Ps)"
    "set (P # Ps) = {Q. held st Q \<and> ord st Q = k \<and> fl Q \<noteq> []}" using km_invD(2) [OF assms(1,2)] assms(3) by (simp_all add: chain_ok_def)
  show "sd_firstfree (sizes st ! k) = P" "P \<noteq> 0" "linked (\<lambda>P. ptr (pg_next (pd st P))) (ptr (pg_next (pd st P))) Ps" using c(1) by simp_all
  show "held st P" "ord st P = k" "fl P \<noteq> []" using c(3) by auto
  show "P \<notin> set Ps" "distinct Ps" using c(2) by simp_all
  show "set Ps = {Q. held st Q \<and> ord st Q = k \<and> fl Q \<noteq> []} - {P}" using c(2,3) by auto
qed

section \<open>Taking a block\<close>

lemma km_upd_simps [simp]:
  "bh (upd_bh p f st) = (bh st)(p := f (bh st p))" "pd (upd_bh p f st) = pd st" "sizes (upd_bh p f st) = sizes st" "held (upd_bh p f st) = held st"
  "bh (upd_pd p g st) = bh st" "pd (upd_pd p g st) = (pd st)(p := g (pd st p))" "sizes (upd_pd p g st) = sizes st" "held (upd_pd p g st) = held st"
  "bh (upd_sd k h st) = bh st" "pd (upd_sd k h st) = pd st" "sizes (upd_sd k h st) = (sizes st)[k := h (sizes st ! k)]" "held (upd_sd k h st) = held st"
  "bh (km_printk n st) = bh st" "pd (km_printk n st) = pd st" "sizes (km_printk n st) = sizes st" "held (km_printk n st) = held st"
  by (simp_all add: upd_bh_def upd_pd_def upd_sd_def km_printk_def)

lemma same_table:
  "sd_size d = sd_size (xs ! k) \<Longrightarrow> nblocks d = nblocks (xs ! k) \<Longrightarrow>
   map (\<lambda>d. (sd_size d, nblocks d)) (xs[k := d]) = map (\<lambda>d. (sd_size d, nblocks d)) xs"
  by (cases "k < length xs") (simp_all add: map_update list_update_same_conv list_update_beyond)

lemma km_take_none: "km_inv st fl pl \<Longrightarrow> k < 8 \<Longrightarrow> pl k = [] \<Longrightarrow> km_take k sz st = None"
  using km_invD(2) [of st fl pl k] by (simp add: chain_ok_def km_take_def)

text \<open>The state after a block was taken.\<close>

lemma km_take_run:
  assumes "km_inv st fl pl" "k < 8" "pl k = P # Ps" "fl P = b # fs"
  shows "\<exists>st'. km_take k sz st = Some (b + 8, st') \<and> held st' = held st \<and> printed st' = printed st
    \<and> bh st' = (bh st)(b := \<lparr>bh_flags = MF_USED, bh_vp = sz\<rparr>)
    \<and> pd st' = (pd st)(P := (pd st P)\<lparr>pg_firstfree := bh_vp (bh st b), nfree := int (length fs), pg_next := if fs = [] then 0 else pg_next (pd st P)\<rparr>)
    \<and> map (\<lambda>d. (sd_size d, nblocks d)) (sizes st') = map (\<lambda>d. (sd_size d, nblocks d)) (sizes st)
    \<and> (\<forall>l. sd_firstfree (sizes st' ! l) = (if l = k \<and> fs = [] then pg_next (pd st P) else sd_firstfree (sizes st ! l)))"
proof -
  note P = chain_ok_first [OF assms(1-3)]
  note ok = page_okD [OF km_invD(1) [OF assms(1) P(3)], unfolded assms(4)]
  have b: "pg_firstfree (pd st P) = b" "b \<noteq> 0" using ok(6) by simp_all
  have f: "bh_flags (bh st b) = MF_FREE" using ok(8) by simp
  have n: "nfree (pd st P) - 1 = int (length fs)" using ok(7) by simp
  have k: "k < length (sizes st)" using table_length(1) [OF assms(1)] assms(2) by simp
  show ?thesis
  proof (cases "fs = []")
    case True
    then show ?thesis using P(1,2) b f n k unfolding km_take_def Let_def
      by (auto simp: km_printk_def upd_bh_def upd_pd_def upd_sd_def same_table nth_list_update intro!: ext)
  next
    case False
    then show ?thesis using P(1,2) b f n k unfolding km_take_def Let_def
      by (auto simp: upd_bh_def upd_pd_def upd_sd_def same_table nth_list_update intro!: ext)
  qed
qed

lemma km_take_inv:
  assumes inv: "km_inv st fl pl" and k: "k < 8" and pl: "pl k = P # Ps" and fl: "fl P = b # fs" and sz: "uint sz + 8 \<le> bsize k"
    and r: "km_take k sz st = Some (p, st')"
  shows "km_inv st' (fl(P := fs)) (pl(k := if fs = [] then Ps else P # Ps))" "p = b + 8"
proof -
  note P = chain_ok_first [OF inv k pl]
  note ok = page_okD [OF km_invD(1) [OF inv P(3)], unfolded fl P(4)]
  obtain st1 where st1: "km_take k sz st = Some (b + 8, st1)" "held st1 = held st"
    "bh st1 = (bh st)(b := \<lparr>bh_flags = MF_USED, bh_vp = sz\<rparr>)"
    "pd st1 = (pd st)(P := (pd st P)\<lparr>pg_firstfree := bh_vp (bh st b), nfree := int (length fs), pg_next := if fs = [] then 0 else pg_next (pd st P)\<rparr>)"
    "map (\<lambda>d. (sd_size d, nblocks d)) (sizes st1) = map (\<lambda>d. (sd_size d, nblocks d)) (sizes st)"
    "\<And>l. sd_firstfree (sizes st1 ! l) = (if l = k \<and> fs = [] then pg_next (pd st P) else sd_firstfree (sizes st ! l))"
    using km_take_run [OF inv k pl fl, of sz] by blast
  have e: "st1 = st'" "p = b + 8" using r st1(1) by simp_all
  show "p = b + 8" by (rule e(2))
  have bP: "b \<in> blocks k P" using ok(5) by simp
  have o: "ord st1 Q = ord st Q" for Q by (simp add: ord_def st1(4))
  have page: "page_ok st1 P fs"
  proof -
    have l: "linked (\<lambda>c. ptr (bh_vp (bh st1 c))) (ptr (bh_vp (bh st b))) fs = linked (\<lambda>c. ptr (bh_vp (bh st c))) (ptr (bh_vp (bh st b))) fs"
      using ok(4) by (intro linked_cong) (auto simp: st1(3))
    have "\<forall>c\<in>blocks k P - set fs. bh_flags (bh st1 c) = MF_USED \<and> uint (bh_vp (bh st1 c)) + 8 \<le> bsize k"
    proof
      fix c assume "c \<in> blocks k P - set fs"
      then show "bh_flags (bh st1 c) = MF_USED \<and> uint (bh_vp (bh st1 c)) + 8 \<le> bsize k"
        using ok(9) [of c] sz by (cases "c = b") (auto simp: st1(3))
    qed
    moreover have "\<forall>c\<in>set fs. bh_flags (bh st1 c) = MF_FREE" using ok(4,8) by (auto simp: st1(3))
    ultimately show ?thesis unfolding page_ok_def o P(4) using ok l k by (simp add: st1(4))
  qed
  have nxt: "linked (\<lambda>Q. ptr (pg_next (pd st1 Q))) p Ps = linked (\<lambda>Q. ptr (pg_next (pd st Q))) p Ps" for p
    using P(7) by (intro linked_cong) (auto simp: st1(4))
  have chain: "chain_ok st1 (fl(P := fs)) k (if fs = [] then Ps else P # Ps)"
  proof (cases "fs = []")
    case True
    then show ?thesis using P nxt by (auto simp: chain_ok_def o st1(2,6))
  next
    case False
    then have "set (P # Ps) = {Q. held st1 Q \<and> ord st1 Q = k \<and> (fl(P := fs)) Q \<noteq> []}" using P(3,4,9) by (auto simp: o st1(2))
    then show ?thesis using P False nxt by (simp add: chain_ok_def st1(4,6))
  qed
  have "km_inv st1 (fl(P := fs)) (pl(k := if fs = [] then Ps else P # Ps))"
  proof (rule km_inv_step [OF inv k _ st1(5) _ _ _ _ _ _ chain])
    show "bh st1 c = bh st c" if "held st Q" "Q \<noteq> P" "c \<in> blocks (ord st Q) Q" for Q c
    proof -
      have "PAGE_DESC c = Q" using that(3) page_okD(1,2) [OF km_invD(1) [OF inv that(1)]] by (rule blk_page)
      moreover have "PAGE_DESC b = P" using bP ok(1) k by (rule blk_page)
      ultimately show ?thesis using that(2) by (auto simp: st1(3))
    qed
  qed (use P(4) page k in \<open>simp_all add: o st1(2,4,6)\<close>)
  then show "km_inv st' (fl(P := fs)) (pl(k := if fs = [] then Ps else P # Ps))" unfolding e(1) .
qed

text \<open>How the view changes when one block of a page is used or freed.\<close>

lemma view_add:
  assumes "km_inv st fl pl" "km_inv st' (fl(P := fs)) pl'" "fl P = b # fs" "held st P" "b \<in> blocks (ord st P) P" "distinct (b # fs)"
    and "held st' = held st" "\<And>Q. ord st' Q = ord st Q" "bh st' = (bh st)(b := \<lparr>bh_flags = MF_USED, bh_vp = sz\<rparr>)"
  shows "km_view st' = (km_view st)(b + 8 \<mapsto> sz)"
proof
  fix p
  show "km_view st' p = ((km_view st)(b + 8 \<mapsto> sz)) p"
  proof (cases "p = b + 8")
    case True
    then show ?thesis using assms(4-9) by (auto simp: km_view_iff [OF assms(2)])
  next
    case False
    then have c: "p - 8 \<noteq> b" by (simp add: diff_eq_eq)
    have "km_view st' p = Some n \<longleftrightarrow> km_view st p = Some n" for n
      unfolding km_view_iff [OF assms(1)] km_view_iff [OF assms(2)] assms(7-9) using c assms(3) by (auto split: if_splits)
    then show ?thesis using False by (metis fun_upd_other option.exhaust)
  qed
qed

lemma km_take_effect:
  assumes "km_inv st fl pl" "k < 8" "uint sz + 8 \<le> bsize k" "km_take k sz st = Some (p, st')"
  shows "km_ok st'" "km_view st p = None" "km_view st' = (km_view st)(p \<mapsto> sz)" "p \<noteq> 0" "printed st' = printed st"
proof -
  have "pl k \<noteq> []" using km_take_none [OF assms(1,2), of sz] assms(4) by auto
  then obtain P Ps where pl: "pl k = P # Ps" by (cases "pl k") auto
  note P = chain_ok_first [OF assms(1,2) pl]
  obtain b fs where fl: "fl P = b # fs" using P(5) by (cases "fl P") auto
  note ok = page_okD [OF km_invD(1) [OF assms(1) P(3)], unfolded fl]
  note inv' = km_take_inv [OF assms(1,2) pl fl assms(3,4)]
  have run: "held st' = held st" "printed st' = printed st" "bh st' = (bh st)(b := \<lparr>bh_flags = MF_USED, bh_vp = sz\<rparr>)" "ord st' Q = ord st Q" for Q
    using km_take_run [OF assms(1,2) pl fl, of sz] assms(4) by (auto simp: ord_def)
  show "km_ok st'" using inv'(1) unfolding km_ok_def by blast
  show "printed st' = printed st" by (rule run(2))
  have b: "b \<in> blocks (ord st P) P" using ok(5) by simp
  show "km_view st' = (km_view st)(p \<mapsto> sz)"
    unfolding inv'(2) using assms(1) inv'(1) fl P(3) b ok(4) run(1,4,3) by (rule view_add)
  have d: "PAGE_DESC b = P" using b ok(1,2) by (rule blk_page)
  then show "km_view st p = None" using ok(8) [of b] by (simp add: km_view_def inv'(2))
  obtain i where "unat b = unat P + 16 + i * nat (bsize (ord st P))" "16 + i * nat (bsize (ord st P)) + nat (bsize (ord st P)) \<le> 4096"
    using blocksE [OF b ok(1,2)] by blast
  moreover have "unat P \<le> 2 ^ 32 - 4096" using unat_blk(3) [OF ok(1,2), of 0] class_facts(3) [OF ok(2)] by simp
  ultimately have "unat b + 8 < 2 ^ 32" using class_facts(1) [OF ok(2)] by simp
  then have "unat (b + 8) = unat b + 8" by (simp add: unat_word_ariths)
  then show "p \<noteq> 0" unfolding inv'(2) by auto
qed

section \<open>A new page\<close>

lemma link_blocks_other: "(\<And>i. i < n \<Longrightarrow> c \<noteq> p + of_nat i * sz) \<Longrightarrow> 0 < n \<Longrightarrow> link_blocks n p sz h c = h c"
proof (induction n p sz h rule: link_blocks.induct)
  case (1 i p sz h)
  have "c \<noteq> p" using "1.prems"(1) [of 0] by simp
  moreover have "c \<noteq> p + sz + of_nat j * sz" if "j < Suc i" for j using "1.prems"(1) [of "Suc j"] that by (simp add: algebra_simps)
  ultimately show ?case using "1.IH" by (simp add: fun_upd_def)
qed force+

lemma link_blocks_at:
  "inj_on (\<lambda>i. p + of_nat i * sz) {..<n} \<Longrightarrow> i < n \<Longrightarrow>
   link_blocks n p sz h (p + of_nat i * sz) = \<lparr>bh_flags = MF_FREE, bh_vp = if Suc i < n then p + of_nat (Suc i) * sz else 0\<rparr>"
proof (induction n p sz h arbitrary: i rule: link_blocks.induct)
  case (1 m p sz h)
  have step: "p + sz + of_nat j * sz = p + of_nat (Suc j) * sz" for j by (simp add: algebra_simps)
  have inj: "inj_on (\<lambda>i. p + sz + of_nat i * sz) {..<Suc m}"
    unfolding step using inj_on_subset [OF "1.prems"(1), of "Suc ` {..<Suc m}"] by (auto simp: inj_on_def)
  show ?case
  proof (cases i)
    case 0
    have "p \<noteq> p + sz + of_nat j * sz" if "j < Suc m" for j
      unfolding step using inj_onD [OF "1.prems"(1), of 0 "Suc j"] that by auto
    then show ?thesis using 0 by (simp add: link_blocks_other)
  next
    case (Suc j)
    then show ?thesis using "1.IH" [OF inj, of j, unfolded step] "1.prems"(2) by (simp del: of_nat_Suc add: fun_upd_def)
  qed
qed simp_all

lemma linked_map_upt:
  "(\<And>i. m \<le> i \<Longrightarrow> i < n \<Longrightarrow> nx (a i) = (if Suc i < n then Some (a (Suc i)) else None)) \<Longrightarrow> m < n \<Longrightarrow> linked nx (Some (a m)) (map a [m..<n])"
proof (induction "n - m" arbitrary: m)
  case (Suc d)
  then show ?case by (cases "Suc m < n") (auto simp: upt_conv_Cons)
qed simp

lemma blk_is: "blk k P i = P + 16 + of_nat i * to_u32 (bsize k)"
  by (simp add: blk_def)

lemma km_refill_fields:
  assumes "km_inv st fl pl" "k < 8"
  shows "held (km_refill k P st) = (held st)(P := True)" "printed (km_refill k P st) = printed st"
    "bh (km_refill k P st) = link_blocks (nblk k) (P + 16) (to_u32 (bsize k)) (bh st)"
    "pd (km_refill k P st) = (pd st)(P := \<lparr>pg_next = sd_firstfree (sizes st ! k), pg_firstfree = P + 16, pg_order = int k, nfree = int (nblk k)\<rparr>)"
    "map (\<lambda>d. (sd_size d, nblocks d)) (sizes (km_refill k P st)) = map (\<lambda>d. (sd_size d, nblocks d)) (sizes st)"
    "sd_firstfree (sizes (km_refill k P st) ! l) = (if l = k then P else sd_firstfree (sizes st ! l))"
proof -
  have t: "length (sizes st) = 9" "sd_size (sizes st ! k) = bsize k" "nblocks (sizes st ! k) = int (nblk k)" using table_length [OF assms(1)] assms(2) by simp_all
  show "held (km_refill k P st) = (held st)(P := True)" "bh (km_refill k P st) = link_blocks (nblk k) (P + 16) (to_u32 (bsize k)) (bh st)"
    "pd (km_refill k P st) = (pd st)(P := \<lparr>pg_next = sd_firstfree (sizes st ! k), pg_firstfree = P + 16, pg_order = int k, nfree = int (nblk k)\<rparr>)"
    "sd_firstfree (sizes (km_refill k P st) ! l) = (if l = k then P else sd_firstfree (sizes st ! l))"
    using t assms(2) by (simp_all add: km_refill_def Let_def nth_list_update)
  show "printed (km_refill k P st) = printed st" by (simp add: km_refill_def Let_def upd_sd_def upd_pd_def)
  show "map (\<lambda>d. (sd_size d, nblocks d)) (sizes (km_refill k P st)) = map (\<lambda>d. (sd_size d, nblocks d)) (sizes st)"
    using t assms(2) by (simp add: km_refill_def Let_def same_table)
qed

lemma km_refill_inv:
  assumes inv: "km_inv st fl pl" and k: "k < 8" and P: "page_addr P" "\<not> held st P"
  defines "bs \<equiv> map (blk k P) [0..<nblk k]"
  shows "km_inv (km_refill k P st) (fl(P := bs)) (pl(k := P # pl k))" "km_view (km_refill k P st) = km_view st"
proof -
  let ?st = "km_refill k P st"
  note r = km_refill_fields [OF inv k, of P]
  have inj: "inj_on (\<lambda>i. P + 16 + of_nat i * to_u32 (bsize k)) {..<nblk k}"
    using blk_inj [OF P(1) k] unfolding inj_on_def blk_def by blast
  have at: "bh ?st (blk k P i) = \<lparr>bh_flags = MF_FREE, bh_vp = if Suc i < nblk k then blk k P (Suc i) else 0\<rparr>" if "i < nblk k" for i
    unfolding r(3) blk_is by (rule link_blocks_at [OF inj that])
  have other: "bh ?st c = bh st c" if "c \<notin> blocks k P" for c
    unfolding r(3) using that class_facts(3) [OF k] by (intro link_blocks_other) (auto simp: blocks_def blk_def)
  have nz: "blk k P i \<noteq> 0" if "i < nblk k" for i using blk_page(2) [OF _ P(1) k] that by (auto simp: blocks_def)
  have bs: "set bs = blocks k P" "distinct bs" "length bs = nblk k" "bs \<noteq> []"
    using inj class_facts(3) [OF k] by (auto simp: bs_def blocks_def distinct_map inj_on_def blk_is atLeast0LessThan)
  have oP: "ord ?st P = k" and oQ: "Q \<noteq> P \<Longrightarrow> ord ?st Q = ord st Q" for Q by (simp_all add: ord_def r(4))
  have page: "page_ok ?st P bs"
  proof -
    have "linked (\<lambda>b. ptr (bh_vp (bh ?st b))) (Some (blk k P 0)) bs"
      unfolding bs_def using class_facts(3) [OF k] at nz by (intro linked_map_upt) auto
    moreover have "P + 16 = blk k P 0" by (simp add: blk_def)
    moreover have "\<forall>b\<in>set bs. bh_flags (bh ?st b) = MF_FREE" unfolding bs(1) using at by (auto simp: blocks_def)
    ultimately show ?thesis unfolding page_ok_def oP using P(1) k bs nz [OF class_facts(3) [OF k]] by (simp add: r(4))
  qed
  have notin: "P \<notin> set (pl k)" using km_invD(2) [OF inv k] P(2) by (auto simp: chain_ok_def)
  have chain: "chain_ok ?st (fl(P := bs)) k (P # pl k)"
  proof -
    note c = km_invD(2) [OF inv k, unfolded chain_ok_def]
    have "linked (\<lambda>Q. ptr (pg_next (pd ?st Q))) p (pl k) = linked (\<lambda>Q. ptr (pg_next (pd st Q))) p (pl k)" for p
      using notin by (intro linked_cong) (auto simp: r(4))
    moreover have "set (P # pl k) = {Q. held ?st Q \<and> ord ?st Q = k \<and> (fl(P := bs)) Q \<noteq> []}" using c oP oQ bs(4) by (auto simp: r(1))
    ultimately show ?thesis using c notin P(1) unfolding chain_ok_def by (simp add: r(4,6) page_addr_def)
  qed
  show inv': "km_inv ?st (fl(P := bs)) (pl(k := P # pl k))"
  proof (rule km_inv_step [OF inv k _ r(5) _ _ _ _ _ _ chain])
    show "bh ?st c = bh st c" if "held st Q" "Q \<noteq> P" "c \<in> blocks (ord st Q) Q" for Q c
    proof (rule other)
      have "PAGE_DESC c = Q" using that(3) page_okD(1,2) [OF km_invD(1) [OF inv that(1)]] by (rule blk_page)
      then show "c \<notin> blocks k P" using that(2) blk_page(1) [OF _ P(1) k, of c] by auto
    qed
  qed (use P(2) page bs(4) oP in \<open>simp_all add: r(1,4,6)\<close>)
  show "km_view ?st = km_view st"
  proof
    fix p
    have same: "held ?st Q \<and> c \<in> blocks (ord ?st Q) Q \<and> c \<notin> set ((fl(P := bs)) Q) \<and> bh_vp (bh ?st c) = n
        \<longleftrightarrow> held st Q \<and> c \<in> blocks (ord st Q) Q \<and> c \<notin> set (fl Q) \<and> bh_vp (bh st c) = n" for Q c n
    proof (cases "Q = P")
      case True
      then show ?thesis using P(2) by (simp add: oP bs(1))
    next
      case False
      have "bh ?st c = bh st c" if "held st Q" "c \<in> blocks (ord st Q) Q"
      proof (rule other)
        have "PAGE_DESC c = Q" using that(2) page_okD(1,2) [OF km_invD(1) [OF inv that(1)]] by (rule blk_page)
        then show "c \<notin> blocks k P" using False blk_page(1) [OF _ P(1) k, of c] by auto
      qed
      then show ?thesis using False by (auto simp: r(1) oQ)
    qed
    have "km_view ?st p = Some n \<longleftrightarrow> km_view st p = Some n" for n
      unfolding km_view_iff [OF inv] km_view_iff [OF inv'] same ..
    then show "km_view ?st p = km_view st p" by (metis option.exhaust)
  qed
qed

section \<open>Freeing a block\<close>

lemma view_remove:
  assumes "km_inv st fl pl" "km_inv st' (fl(P := b # fl P)) pl'" "held st P" "b \<in> blocks (ord st P) P" "b \<notin> set (fl P)"
    and "held st' = held st" "\<And>Q. ord st' Q = ord st Q" "\<And>c. c \<noteq> b \<Longrightarrow> bh st' c = bh st c"
  shows "km_view st' = (km_view st)(b + 8 := None)"
proof
  fix p
  show "km_view st' p = ((km_view st)(b + 8 := None)) p"
  proof (cases "p = b + 8")
    case True
    have ok: "page_ok st' P (b # fl P)" using km_invD(1) [OF assms(2), of P] assms(3,6) by simp
    have "PAGE_DESC b = P" using assms(4) page_okD(1,2) [OF km_invD(1) [OF assms(1,3)]] by (rule blk_page)
    then show ?thesis using True page_okD(8) [OF ok, of b] by (simp add: km_view_def)
  next
    case False
    then have c: "p - 8 \<noteq> b" by (simp add: diff_eq_eq)
    have "km_view st' p = Some n \<longleftrightarrow> km_view st p = Some n" for n
      unfolding km_view_iff [OF assms(1)] km_view_iff [OF assms(2)] assms(6,7) assms(8) [OF c] using c by (auto split: if_splits)
    then show ?thesis using False by (metis fun_upd_other option.exhaust)
  qed
qed

lemma free_relist_fields:
  fixes b :: u32
  assumes "km_inv st fl pl" "k < 8" "held st P" "ord st P = k"
  defines "st' \<equiv> relist_page k P (free_block b P st)"
  shows "held st' = held st" "printed st' = printed st" "bh st' = (bh st)(b := \<lparr>bh_flags = MF_FREE, bh_vp = pg_firstfree (pd st P)\<rparr>)"
    "pd st' = (pd st)(P := (pd st P)\<lparr>pg_firstfree := b, nfree := int (length (fl P)) + 1, pg_next := if fl P = [] then sd_firstfree (sizes st ! k) else pg_next (pd st P)\<rparr>)"
    "map (\<lambda>d. (sd_size d, nblocks d)) (sizes st') = map (\<lambda>d. (sd_size d, nblocks d)) (sizes st)"
    "sd_firstfree (sizes st' ! l) = (if l = k \<and> fl P = [] then P else sd_firstfree (sizes st ! l))"
proof -
  have n: "nfree (pd st P) = int (length (fl P))" using page_okD(7) [OF km_invD(1) [OF assms(1,3)]] .
  have z: "fl P = [] \<Longrightarrow> pg_next (pd st P) = 0" using km_invD(3) [OF assms(1,3)] .
  have k: "k < length (sizes st)" using table_length(1) [OF assms(1)] assms(2) by simp
  note d = st'_def relist_page_def free_block_def Let_def
  show "held st' = held st" by (simp add: d)
  show "printed st' = printed st" using n z by (simp add: d upd_bh_def upd_pd_def upd_sd_def)
  show "bh st' = (bh st)(b := \<lparr>bh_flags = MF_FREE, bh_vp = pg_firstfree (pd st P)\<rparr>)" by (cases "bh st b") (simp add: d)
  show "pd st' = (pd st)(P := (pd st P)\<lparr>pg_firstfree := b, nfree := int (length (fl P)) + 1, pg_next := if fl P = [] then sd_firstfree (sizes st ! k) else pg_next (pd st P)\<rparr>)"
    using n z by (simp add: d)
  show "map (\<lambda>d. (sd_size d, nblocks d)) (sizes st') = map (\<lambda>d. (sd_size d, nblocks d)) (sizes st)" by (simp add: d same_table)
  show "sd_firstfree (sizes st' ! l) = (if l = k \<and> fl P = [] then P else sd_firstfree (sizes st ! l))"
    using n z k by (simp add: d nth_list_update)
qed

lemma free_relist_inv:
  assumes inv: "km_inv st fl pl" and k: "k < 8" and P: "held st P" "ord st P = k" and b: "b \<in> blocks k P" "b \<notin> set (fl P)"
  defines "st' \<equiv> relist_page k P (free_block b P st)"
  shows "km_inv st' (fl(P := b # fl P)) (pl(k := if fl P = [] then P # pl k else pl k))" "km_view st' = (km_view st)(b + 8 := None)"
proof -
  note r = free_relist_fields [OF inv k P, of b, folded st'_def]
  note ok = page_okD [OF km_invD(1) [OF inv P(1)], unfolded P(2)]
  have o: "ord st' Q = ord st Q" for Q by (simp add: ord_def r(4))
  have bn: "PAGE_DESC b = P" "b \<noteq> 0" using blk_page [OF b(1) ok(1) k] by simp_all
  have page: "page_ok st' P (b # fl P)"
  proof -
    have "linked (\<lambda>c. ptr (bh_vp (bh st' c))) q (fl P) = linked (\<lambda>c. ptr (bh_vp (bh st c))) q (fl P)" for q
      using b(2) by (intro linked_cong) (auto simp: r(3))
    then have "linked (\<lambda>c. ptr (bh_vp (bh st' c))) (ptr (pg_firstfree (pd st' P))) (b # fl P)" using ok(6) bn(2) by (simp add: r(3,4))
    moreover have "\<forall>c\<in>set (b # fl P). bh_flags (bh st' c) = MF_FREE" using ok(8) by (auto simp: r(3))
    moreover have "\<forall>c\<in>blocks k P - set (b # fl P). bh_flags (bh st' c) = MF_USED \<and> uint (bh_vp (bh st' c)) + 8 \<le> bsize k"
      using ok(9) by (auto simp: r(3))
    ultimately show ?thesis unfolding page_ok_def o P(2) using ok(1-5) b k by (simp add: r(4))
  qed
  have chain: "chain_ok st' (fl(P := b # fl P)) k (if fl P = [] then P # pl k else pl k)"
  proof (cases "fl P = []")
    case True
    note c = km_invD(2) [OF inv k, unfolded chain_ok_def]
    have notin: "P \<notin> set (pl k)" using c True by auto
    have "linked (\<lambda>Q. ptr (pg_next (pd st' Q))) q (pl k) = linked (\<lambda>Q. ptr (pg_next (pd st Q))) q (pl k)" for q
      using notin by (intro linked_cong) (auto simp: r(4))
    moreover have "set (P # pl k) = {Q. held st' Q \<and> ord st' Q = k \<and> (fl(P := b # fl P)) Q \<noteq> []}" using c P by (auto simp: r(1) o)
    ultimately show ?thesis using c notin ok(1) True unfolding chain_ok_def by (simp add: r(4,6) page_addr_def)
  next
    case False
    note c = km_invD(2) [OF inv k, unfolded chain_ok_def]
    have "(\<lambda>Q. ptr (pg_next (pd st' Q))) = (\<lambda>Q. ptr (pg_next (pd st Q)))" using False by (auto simp: r(4))
    moreover have "set (pl k) = {Q. held st' Q \<and> ord st' Q = k \<and> (fl(P := b # fl P)) Q \<noteq> []}" using c P False by (auto simp: r(1) o)
    ultimately show ?thesis using c False unfolding chain_ok_def by (simp add: r(6))
  qed
  show inv': "km_inv st' (fl(P := b # fl P)) (pl(k := if fl P = [] then P # pl k else pl k))"
  proof (rule km_inv_step [OF inv k _ r(5) _ _ _ _ _ _ chain])
    show "bh st' c = bh st c" if "held st Q" "Q \<noteq> P" "c \<in> blocks (ord st Q) Q" for Q c
    proof -
      have "PAGE_DESC c = Q" using that(3) page_okD(1,2) [OF km_invD(1) [OF inv that(1)]] by (rule blk_page)
      then show ?thesis using that(2) bn(1) by (auto simp: r(3))
    qed
  qed (use P page k in \<open>simp_all add: o r(1,4,6)\<close>)
  show "km_view st' = (km_view st)(b + 8 := None)"
    using inv inv' P(1) by (rule view_remove) (use b P(2) in \<open>simp_all add: o r(1,3)\<close>)
qed

section \<open>Giving a page back\<close>

lemma page_before_linked:
  "linked (\<lambda>Q. ptr (pg_next (d Q))) (ptr p) (us @ t # P # ys) \<Longrightarrow> distinct (us @ t # P # ys) \<Longrightarrow> page_before d P p = Some t"
proof (induction us arbitrary: p)
  case Nil
  then show ?case by (subst page_before.simps) simp
next
  case (Cons u us)
  then have u: "p = u" "u \<noteq> 0" "linked (\<lambda>Q. ptr (pg_next (d Q))) (ptr (pg_next (d u))) (us @ t # P # ys)" by simp_all
  have "ptr (pg_next (d u)) = Some (hd (us @ [t]))" using linked_first [OF u(3)] by (cases us) auto
  then have "pg_next (d u) \<noteq> P" using Cons.prems(2) by (cases us) auto
  then show ?case using u Cons by (subst page_before.simps) simp
qed

lemma unlink_run:
  assumes inv: "km_inv st fl pl" and k: "k < 8" and pl: "pl k = xs @ P # ys"
  shows "\<exists>st'. unlink_page k P st = Some st' \<and> held st' = held st \<and> printed st' = printed st \<and> bh st' = bh st
    \<and> (\<forall>Q. pg_order (pd st' Q) = pg_order (pd st Q) \<and> pg_firstfree (pd st' Q) = pg_firstfree (pd st Q) \<and> nfree (pd st' Q) = nfree (pd st Q))
    \<and> (\<forall>Q. Q \<notin> set xs \<longrightarrow> pg_next (pd st' Q) = pg_next (pd st Q))
    \<and> map (\<lambda>d. (sd_size d, nblocks d)) (sizes st') = map (\<lambda>d. (sd_size d, nblocks d)) (sizes st)
    \<and> (\<forall>l. l \<noteq> k \<longrightarrow> sd_firstfree (sizes st' ! l) = sd_firstfree (sizes st ! l))
    \<and> linked (\<lambda>Q. ptr (pg_next (pd st' Q))) (ptr (sd_firstfree (sizes st' ! k))) (xs @ ys)"
proof -
  let ?nx = "\<lambda>Q. ptr (pg_next (pd st Q))"
  have c: "linked ?nx (ptr (sd_firstfree (sizes st ! k))) (xs @ P # ys)" "distinct (xs @ P # ys)"
    using km_invD(2) [OF inv k] pl by (simp_all add: chain_ok_def)
  have kl: "k < length (sizes st)" using table_length(1) [OF inv] k by simp
  show ?thesis
  proof (cases xs rule: rev_cases)
    case Nil
    let ?st' = "upd_sd k (\<lambda>s. s\<lparr>sd_firstfree := pg_next (pd st P)\<rparr>) st"
    have "unlink_page k P st = Some ?st'" using c(1) Nil by (simp add: unlink_page_def)
    then show ?thesis using c(1) Nil kl by (intro exI [of _ ?st']) (simp add: same_table, simp add: upd_sd_def)
  next
    case (snoc us t)
    let ?st' = "upd_pd t (\<lambda>d. d\<lparr>pg_next := pg_next (pd st P)\<rparr>) st"
    have c': "linked ?nx (ptr (sd_firstfree (sizes st ! k))) (us @ t # P # ys)" "distinct (us @ t # P # ys)" using c snoc by simp_all
    have "sd_firstfree (sizes st ! k) \<noteq> P" using linked_first [OF c'(1)] c'(2) by (cases us) auto
    moreover have "t \<noteq> 0" using linked_first [OF c'(1)] linked_elem [OF c'(1), of t] by auto
    ultimately have "unlink_page k P st = Some ?st'" using page_before_linked [OF c'] by (simp add: unlink_page_def)
    moreover have "(\<lambda>Q. ptr (pg_next (pd ?st' Q))) = ?nx(t := ?nx P)" by auto
    ultimately show ?thesis using linked_remove [OF c'] snoc by (intro exI [of _ ?st']) (simp, simp add: upd_pd_def)
  qed
qed

lemma unlink_inv:
  assumes inv: "km_inv st fl pl" and k: "k < 8" and P: "held st P" "ord st P = k" "length (fl P) = nblk k"
  shows "\<exists>st'. unlink_page k P st = Some st' \<and> printed st' = printed st
    \<and> km_ok (st'\<lparr>held := (held st')(P := False)\<rparr>) \<and> km_view (st'\<lparr>held := (held st')(P := False)\<rparr>) = km_view st"
proof -
  note ok = page_okD [OF km_invD(1) [OF inv P(1)], unfolded P(2)]
  have ne: "fl P \<noteq> []" using P(3) class_facts(3) [OF k] by auto
  note c = km_invD(2) [OF inv k, unfolded chain_ok_def]
  have "P \<in> set (pl k)" using c P(1,2) ne by simp
  then obtain xs ys where pl: "pl k = xs @ P # ys" by (meson split_list)
  have xs: "held st Q" "ord st Q = k" "fl Q \<noteq> []" if "Q \<in> set xs" for Q using c that pl by auto
  obtain st' where r: "unlink_page k P st = Some st'" "held st' = held st" "printed st' = printed st" "bh st' = bh st"
    "\<And>Q. pg_order (pd st' Q) = pg_order (pd st Q) \<and> pg_firstfree (pd st' Q) = pg_firstfree (pd st Q) \<and> nfree (pd st' Q) = nfree (pd st Q)"
    "\<And>Q. Q \<notin> set xs \<Longrightarrow> pg_next (pd st' Q) = pg_next (pd st Q)"
    "map (\<lambda>d. (sd_size d, nblocks d)) (sizes st') = map (\<lambda>d. (sd_size d, nblocks d)) (sizes st)"
    "\<And>l. l \<noteq> k \<Longrightarrow> sd_firstfree (sizes st' ! l) = sd_firstfree (sizes st ! l)"
    "linked (\<lambda>Q. ptr (pg_next (pd st' Q))) (ptr (sd_firstfree (sizes st' ! k))) (xs @ ys)"
    using unlink_run [OF inv k pl] by blast
  let ?st = "st'\<lparr>held := (held st')(P := False)\<rparr>"
  have o: "ord (st'\<lparr>held := h\<rparr>) Q = ord st Q" for Q h using r(5) by (simp add: ord_def)
  have dst: "distinct (xs @ P # ys)" using c pl by simp
  have "set (xs @ ys) = set (pl k) - {P}" using pl dst by auto
  also have "\<dots> = {Q. held st Q \<and> ord st Q = k \<and> fl Q \<noteq> []} - {P}" using c by blast
  also have "\<dots> = {Q. held ?st Q \<and> ord ?st Q = k \<and> (fl(P := [])) Q \<noteq> []}" by (auto simp: o r(2))
  finally have "set (xs @ ys) = {Q. held ?st Q \<and> ord ?st Q = k \<and> (fl(P := [])) Q \<noteq> []}" .
  then have chain: "chain_ok ?st (fl(P := [])) k (xs @ ys)" using r(9) dst by (simp add: chain_ok_def)
  have tab: "map (\<lambda>d. (sd_size d, nblocks d)) (sizes ?st) = map (\<lambda>d. (sd_size d, nblocks d)) (sizes st)" using r(7) by simp
  have inv': "km_inv ?st (fl(P := [])) (pl(k := xs @ ys))"
  proof (rule km_inv_step [OF inv k _ tab _ _ _ _ _ _ chain])
    show "pg_next (pd ?st Q) = pg_next (pd st Q)" if "held st Q" "Q \<noteq> P" "ord st Q \<noteq> k \<or> fl Q = []" for Q
      using r(6) [of Q] xs [of Q] that(3) by auto
  qed (use P r in \<open>simp_all add: o\<close>)
  have full: "set (fl P) = blocks k P"
  proof (rule card_subset_eq)
    show "finite (blocks k P)" "set (fl P) \<subseteq> blocks k P" using ok(5) by (simp_all add: blocks_def)
    have "card (blocks k P) = nblk k" using blk_inj [OF ok(1) k] unfolding blocks_def by (subst card_image) (auto simp: inj_on_def)
    then show "card (set (fl P)) = card (blocks k P)" using P(3) ok(4) by (simp add: distinct_card)
  qed
  have "km_view ?st p = km_view st p" for p
  proof -
    have "km_view ?st p = Some n \<longleftrightarrow> km_view st p = Some n" for n
      unfolding km_view_iff [OF inv] km_view_iff [OF inv'] o using full P(2) by (auto simp: r(2,4) split: if_splits)
    then show ?thesis by (metis option.exhaust)
  qed
  then show ?thesis using r(1,3) inv' unfolding km_ok_def by (intro exI [of _ st']) auto
qed

section \<open>The effect of the calls\<close>

lemma km_inv_stats:
  assumes "bh st' = bh st" "pd st' = pd st" "held st' = held st" "map (\<lambda>d. (sd_size d, nblocks d)) (sizes st') = map (\<lambda>d. (sd_size d, nblocks d)) (sizes st)"
    and "\<And>l. sd_firstfree (sizes st' ! l) = sd_firstfree (sizes st ! l)"
  shows "km_inv st' fl pl = km_inv st fl pl" "km_view st' = km_view st"
proof -
  have o: "ord st' = ord st" using assms(2) by (simp add: ord_def fun_eq_iff)
  show "km_inv st' fl pl = km_inv st fl pl" unfolding km_inv_def page_ok_def chain_ok_def assms o ..
  show "km_view st' = km_view st" unfolding km_view_def fun_eq_iff assms o by simp
qed

lemma km_printk_same [simp]: "km_ok (km_printk n st) = km_ok st" "km_view (km_printk n st) = km_view st" "get_order s (km_printk n st) = get_order s st"
  using km_inv_stats [of "km_printk n st" st] by (simp_all add: km_ok_def get_order_def)

lemma page_addr_mask: "page_addr Q \<Longrightarrow> Q AND NOT 0xfffff000 = 0"
proof -
  assume "page_addr Q"
  then have "unat Q mod 4096 = 0" by (auto simp: page_addr_def)
  moreover have "unat (Q AND NOT 0xfffff000) = unat Q mod 4096"
  proof -
    have "NOT (0xfffff000 :: u32) = mask 12" by (simp add: mask_eq_exp_minus_1)
    then have "Q AND NOT 0xfffff000 = take_bit 12 Q" by (metis take_bit_eq_mask)
    then show ?thesis by (simp only: unsigned_take_bit_eq) (simp add: take_bit_eq_mod)
  qed
  ultimately have "unat (Q AND NOT 0xfffff000) = 0" by (simp only:)
  then show ?thesis by (simp only: unsigned_eq_0_iff)
qed

lemma next_aligned:
  assumes "km_inv st fl pl" "held st P"
  shows "pg_next (pd st P) AND NOT 0xfffff000 = 0"
proof (cases "fl P = []")
  case True
  then show ?thesis using km_invD(3) [OF assms] by simp
next
  case False
  note ok = page_okD [OF km_invD(1) [OF assms]]
  note c = km_invD(2) [OF assms(1) ok(2), unfolded chain_ok_def]
  have "P \<in> set (pl (ord st P))" using c assms(2) False by simp
  then consider "ptr (pg_next (pd st P)) = None" | Q where "Q \<in> set (pl (ord st P))" "ptr (pg_next (pd st P)) = Some Q"
    using linked_next_in c by meson
  then show ?thesis
  proof cases
    case 2
    then have "page_addr (pg_next (pd st P))" using c page_okD(1) [OF km_invD(1) [OF assms(1)]] by auto
    then show ?thesis by (rule page_addr_mask)
  qed simp
qed

lemma kfree_effect:
  assumes ok: "km_ok st" and v: "km_view st p = Some n" and sz: "sz = 0 \<or> sz = n"
  shows "\<exists>st'. kfree_s p sz st = Some st' \<and> km_ok st' \<and> km_view st' = (km_view st)(p := None) \<and> printed st' = printed st"
proof -
  obtain fl pl where inv: "km_inv st fl pl" using ok by (auto simp: km_ok_def)
  define b where "b = p - 8"
  obtain P where P: "held st P" "b \<in> blocks (ord st P) P" "b \<notin> set (fl P)" "bh_vp (bh st b) = n"
    using v unfolding km_view_iff [OF inv] b_def by blast
  define k where "k = ord st P"
  note pk = page_okD [OF km_invD(1) [OF inv P(1)], folded k_def]
  have d: "PAGE_DESC b = P" using P(2) pk(1,2) unfolding k_def by (rule blk_page)
  have u: "bh_flags (bh st b) = MF_USED" using pk(9) P(2,3) by (simp add: k_def)
  note fr = free_relist_inv [OF inv pk(2) P(1) k_def [symmetric] P(2) [folded k_def] P(3)]
  note ff = free_relist_fields [OF inv pk(2) P(1) k_def [symmetric], of b]
  define st1 where "st1 = relist_page k P (free_block b P st)"
  let ?stats = "upd_sd k (\<lambda>s. s\<lparr>nfrees := swrap (nfrees s + 1), nbytesmalloced := swrap (nbytesmalloced s - uint n)\<rparr>)"
  have stats: "km_ok (?stats s) = km_ok s" "km_view (?stats s) = km_view s" "printed (?stats s) = printed s" for s
  proof -
    have "sd_firstfree (sizes (?stats s) ! l) = sd_firstfree (sizes s ! l)" for l by (cases "k < length (sizes s)") (simp_all add: nth_list_update list_update_beyond)
    moreover have "map (\<lambda>d. (sd_size d, nblocks d)) (sizes (?stats s)) = map (\<lambda>d. (sd_size d, nblocks d)) (sizes s)" by (simp add: same_table)
    ultimately have "km_inv (?stats s) fl pl = km_inv s fl pl" "km_view (?stats s) = km_view s" for fl pl
      using km_inv_stats [of "?stats s" s] by simp_all
    then show "km_ok (?stats s) = km_ok s" "km_view (?stats s) = km_view s" by (simp_all add: km_ok_def)
    show "printed (?stats s) = printed s" by (simp add: upd_sd_def)
  qed
  have len: "length (sizes st) = 9" "nblocks (sizes st1 ! k) = int (nblk k)"
    using table_length(1) [OF inv] table_length(3) [OF fr(1) pk(2)] by (simp_all add: st1_def)
  have guards: "\<not> (int k < 0 \<or> int k > 9 \<or> pg_next (pd st P) AND NOT 0xfffff000 \<noteq> 0 \<or> bh_flags (bh st b) \<noteq> MF_USED)" "\<not> (sz \<noteq> 0 \<and> sz \<noteq> n)"
    "\<not> length (sizes st) \<le> k"
    using pk(2) next_aligned [OF inv P(1)] u sz P(4) len(1) by auto
  have run: "kfree_s p sz st = do {
      st \<leftarrow> (if nfree (pd st1 P) = nblocks (sizes st1 ! k)
             then do { st \<leftarrow> unlink_page k P st1; Some (st\<lparr>held := (held st)(P := False)\<rparr>) } else Some st1);
      Some (?stats st) }"
    unfolding kfree_s_def Let_def b_def [symmetric] d pk(3) if_not_P [OF guards(1)] if_not_P [OF guards(2)] if_not_P [OF guards(3)] P(4) nat_int st1_def ..
  have pb: "b + 8 = p" by (simp add: b_def)
  have st1: "km_ok st1" "km_view st1 = (km_view st)(p := None)" "printed st1 = printed st" "held st1 P" "ord st1 P = k"
  proof -
    show "km_ok st1" using fr(1) unfolding st1_def km_ok_def by blast
    show "km_view st1 = (km_view st)(p := None)" "printed st1 = printed st" "held st1 P" using fr(2) ff(1,2) P(1) by (simp_all add: st1_def pb)
    have "pg_order (pd st1 P) = pg_order (pd st P)" unfolding st1_def ff(4) by simp
    then show "ord st1 P = k" by (simp add: k_def ord_def)
  qed
  show ?thesis
  proof (cases "nfree (pd st1 P) = nblocks (sizes st1 ! k)")
    case True
    then have l: "length ((fl(P := b # fl P)) P) = nblk k" using len(2) ff(4) by (simp add: st1_def)
    obtain st2 where "unlink_page k P st1 = Some st2" "printed st2 = printed st1" "km_ok (st2\<lparr>held := (held st2)(P := False)\<rparr>)"
        "km_view (st2\<lparr>held := (held st2)(P := False)\<rparr>) = km_view st1"
      using unlink_inv [OF fr(1) pk(2) st1(4,5) [unfolded st1_def] l] unfolding st1_def by blast
    then show ?thesis using run True stats st1(2,3) by simp
  next
    case False
    then show ?thesis using run stats st1 by simp
  qed
qed

lemma kfree_wrong_size:
  assumes "km_ok st" "km_view st p = Some n" "sz \<noteq> 0" "sz \<noteq> n"
  shows "kfree_s p sz st = Some (km_printk (Wrong_Size (p - 8) sz n) st)"
proof -
  obtain fl pl where inv: "km_inv st fl pl" using assms(1) by (auto simp: km_ok_def)
  obtain P where P: "held st P" "p - 8 \<in> blocks (ord st P) P" "p - 8 \<notin> set (fl P)" "bh_vp (bh st (p - 8)) = n"
    using assms(2) unfolding km_view_iff [OF inv] by blast
  note pk = page_okD [OF km_invD(1) [OF inv P(1)]]
  have "PAGE_DESC (p - 8) = P" using P(2) pk(1,2) by (rule blk_page)
  then show ?thesis using pk(2,3) pk(9) [OF P(2,3)] next_aligned [OF inv P(1)] P(4) assms(3,4) by (simp add: kfree_s_def Let_def)
qed

section \<open>Allocation\<close>

lemma find_order_some: "find_order s ds j = Some r \<Longrightarrow> r = -1 \<or> j \<le> r \<and> r < j + int (length ds) \<and> s \<le> sd_size (ds ! nat (r - j)) \<and> sd_size (ds ! nat (r - j)) \<noteq> 0"
proof (induction ds arbitrary: j)
  case (Cons d ds)
  show ?case
  proof (cases "sd_size d = 0 \<or> s \<le> sd_size d")
    case True
    then show ?thesis using Cons.prems by (auto split: if_splits)
  next
    case False
    then have "find_order s ds (j + 1) = Some r" using Cons.prems by simp
    from Cons.IH [OF this] show ?thesis
    proof (elim disjE conjE)
      assume r: "j + 1 \<le> r" "r < j + 1 + int (length ds)" "s \<le> sd_size (ds ! nat (r - (j + 1)))" "sd_size (ds ! nat (r - (j + 1))) \<noteq> 0"
      then have "nat (r - j) = Suc (nat (r - (j + 1)))" by simp
      then show ?thesis using r by simp
    qed simp
  qed
qed simp

lemma find_order_total: "\<exists>d\<in>set ds. sd_size d = 0 \<Longrightarrow> \<exists>r. find_order s ds j = Some r"
  by (induction ds arbitrary: j) auto

lemma find_order_fits: "i < length ds \<Longrightarrow> \<forall>l\<le>i. sd_size (ds ! l) \<noteq> 0 \<Longrightarrow> s \<le> sd_size (ds ! i) \<Longrightarrow> 0 \<le> j \<Longrightarrow> find_order s ds j \<noteq> Some (-1)"
proof (induction ds arbitrary: i j)
  case (Cons d ds)
  show ?case
  proof (cases i)
    case 0
    then show ?thesis using Cons.prems by auto
  next
    case (Suc m)
    have "\<forall>l\<le>m. sd_size (ds ! l) \<noteq> 0" using Cons.prems(2) Suc by (metis Suc_le_mono nth_Cons_Suc)
    moreover have "sd_size d \<noteq> 0" using Cons.prems(2) by (metis le0 nth_Cons_0)
    ultimately show ?thesis using Cons.IH [of m "j + 1"] Cons.prems Suc by auto
  qed
qed simp

lemma get_order_cases:
  assumes inv: "km_inv st fl pl" and s: "0 \<le> s" "s \<le> 4096"
  shows "s \<le> 4072 \<and> (\<exists>k<8. get_order s st = Some (int k) \<and> s + 8 \<le> bsize k) \<or> 4072 < s \<and> get_order s st = Some (-1)"
proof -
  note t = table_length [OF inv]
  have sw: "swrap (s + 8) = s + 8" using s by (intro swrap_id) (simp add: fits_s32_def)
  have b8: "bsize 8 = 0" by (simp add: bsize_def size_table_def)
  have "sizes st ! 8 \<in> set (sizes st)" using t(1) by simp
  then have "\<exists>d\<in>set (sizes st). sd_size d = 0" using t(2) [of 8] b8 by auto
  then obtain r where r: "get_order s st = Some r" unfolding get_order_def using find_order_total by blast
  show ?thesis
  proof (cases "r = -1")
    case True
    have "\<forall>l\<le>7. sd_size (sizes st ! l) \<noteq> 0" 
    proof (intro allI impI)
      fix l :: nat assume "l \<le> 7"
      then show "sd_size (sizes st ! l) \<noteq> 0" using t(2) [of l] class_facts(1) [of l] by simp
    qed
    moreover have "sd_size (sizes st ! 7) = 4080" using t(2) [of 7] by (simp add: bsize_def size_table_def)
    ultimately have "\<not> s + 8 \<le> 4080" using find_order_fits [of 7 "sizes st" "s + 8" 0] r True t(1) sw by (auto simp: get_order_def)
    then show ?thesis using r True by simp
  next
    case False
    then have f: "0 \<le> r" "r < 9" "s + 8 \<le> sd_size (sizes st ! nat r)" "sd_size (sizes st ! nat r) \<noteq> 0"
      using find_order_some [of "s + 8" "sizes st" 0 r] r t(1) sw by (auto simp: get_order_def)
    then have n: "sd_size (sizes st ! nat r) = bsize (nat r)" by (intro t(2)) simp
    then have "nat r \<noteq> 8" using f(4) b8 by metis
    then have k: "nat r < 8" using f(2) by linarith
    then show ?thesis using f n class_facts(2) [OF k] r by (intro disjI1 conjI exI [of _ "nat r"]) auto
  qed
qed

text \<open>What a result of \<^verbatim>\<open>kmalloc\<close> means for the map.\<close>

fun km_event :: "u32 \<Rightarrow> km_result \<Rightarrow> (u32, u32) id_event" where
  "km_event sz (Km_Ret p) = (if p = 0 then Id_Same else Id_Made p sz)"
| "km_event sz (Km_Page t) = Id_Same"

lemma round_effect:
  assumes ok: "km_ok st" and k: "k < 8" "uint sz + 8 \<le> bsize k" and r: "kmalloc_round t k sz st = (res, st')"
  shows "km_ok st'" "km_view st' = id_effect (km_view st) (km_event sz res)"
proof -
  obtain fl pl where inv: "km_inv st fl pl" using ok by (auto simp: km_ok_def)
  have "km_ok st' \<and> km_view st' = id_effect (km_view st) (km_event sz res)"
  proof (cases t)
    case 0
    then show ?thesis using r ok by (auto simp: kmalloc_round_def)
  next
    case (Suc m)
    show ?thesis
    proof (cases "km_take k sz st")
      case None
      then show ?thesis using r Suc ok by (auto simp: kmalloc_round_def)
    next
      case (Some a)
      obtain p s where a: "a = (p, s)" by (cases a)
      show ?thesis using km_take_effect [OF inv k Some [unfolded a]] r Suc Some a by (auto simp: kmalloc_round_def)
    qed
  qed
  then show "km_ok st'" "km_view st' = id_effect (km_view st) (km_event sz res)" by simp_all
qed

lemma resume_effect:
  assumes ok: "km_ok st" and k: "k < 8" "uint sz + 8 \<le> bsize k" and P: "P = 0 \<or> page_addr P \<and> \<not> held st P"
    and r: "kmalloc_resume t k sz P st = (res, st')"
  shows "km_ok st'" "km_view st' = id_effect (km_view st) (km_event sz res)"
proof -
  obtain fl pl where inv: "km_inv st fl pl" using ok by (auto simp: km_ok_def)
  have "km_ok st' \<and> km_view st' = id_effect (km_view st) (km_event sz res)"
  proof (cases "P = 0")
    case True
    then show ?thesis using r ok by (auto simp: kmalloc_resume_def)
  next
    case False
    then have P': "page_addr P" "\<not> held st P" using P by simp_all
    note re = km_refill_inv [OF inv k(1) P']
    have "km_ok (km_refill k P st)" using re(1) unfolding km_ok_def by blast
    moreover have "kmalloc_round t k sz (km_refill k P st) = (res, st')" using r False by (simp add: kmalloc_resume_def)
    ultimately show ?thesis using round_effect [OF _ k, of "km_refill k P st" t res st'] re(2) by simp
  qed
  then show "km_ok st'" "km_view st' = id_effect (km_view st) (km_event sz res)" by simp_all
qed

lemma small_sint: "sz \<le> 4096 \<Longrightarrow> to_s32 sz = uint sz \<and> uint sz \<le> 4096" for sz :: u32
proof -
  assume "sz \<le> 4096"
  then have l: "uint sz \<le> 4096" by (simp add: word_le_def)
  have "to_s32 sz = to_s32 (to_u32 (uint sz))" by (simp add: to_u32_def)
  also have "\<dots> = uint sz" 
  proof (rule to_s32_to_u32)
    have "0 \<le> uint sz" by simp
    then have "- (2 ^ 31) \<le> uint sz" by (rule order_trans [rotated]) simp
    then show "fits_s32 (uint sz)" using l by (simp add: fits_s32_def)
  qed
  finally show ?thesis using l by simp
qed

text \<open>\<^verbatim>\<open>kmalloc\<close> always comes to a result; it refuses exactly the sizes over 4072.\<close>

lemma kmalloc_total:
  assumes "km_ok st"
  shows "\<exists>res k pr st'. kmalloc sz prio st = Some (res, k, pr, st')
    \<and> (if sz > 4072 then res = Km_Ret 0 \<and> km_ok st' \<and> km_view st' = km_view st
       else \<exists>st0. k < 8 \<and> uint sz + 8 \<le> bsize k \<and> km_ok st0 \<and> km_view st0 = km_view st \<and> held st0 = held st \<and> kmalloc_round 4 k sz st0 = (res, st'))"
proof -
  let ?at = "intr_count st \<noteq> 0 \<and> prio \<noteq> 1"
  define st0 where "st0 = (if ?at then km_printk Nonatomic st else st)"
  define pr where "pr = (if intr_count st0 \<noteq> 0 \<and> prio \<noteq> 1 then 1 else prio)"
  have st0: "km_ok st0" "km_view st0 = km_view st" "held st0 = held st" using assms by (simp_all add: st0_def)
  obtain fl pl where inv: "km_inv st0 fl pl" using st0(1) by (auto simp: km_ok_def)
  have run: "kmalloc sz prio st = (if sz > 4096 then Some (Km_Ret 0, 0, pr, km_printk (Refused sz) st0)
      else do { order \<leftarrow> get_order (to_s32 sz) st0;
                if order < 0 then Some (Km_Ret 0, 0, pr, km_printk (Too_Large sz) st0)
                else let (r, st) = kmalloc_round 4 (nat order) sz st0 in Some (r, nat order, pr AND 0xf, st) })"
    unfolding kmalloc_def Let_def st0_def [symmetric] pr_def [symmetric] ..
  show ?thesis
  proof (cases "sz > 4096")
    case True
    then have "sz > 4072" by (rule order.strict_trans [rotated]) simp
    then show ?thesis using run True st0 by simp
  next
    case False
    then have s: "to_s32 sz = uint sz" "uint sz \<le> 4096" using small_sint by auto
    have i: "sz > 4072 \<longleftrightarrow> uint sz > 4072" by (simp add: word_less_def)
    from get_order_cases [OF inv uint_ge_0 s(2)] show ?thesis
    proof (elim disjE conjE exE)
      fix k assume k: "uint sz \<le> 4072" "k < 8" "get_order (uint sz) st0 = Some (int k)" "uint sz + 8 \<le> bsize k"
      obtain r st' where "kmalloc_round 4 k sz st0 = (r, st')" by (cases "kmalloc_round 4 k sz st0")
      then show ?thesis using run False s(1) k st0 i by auto
    qed (use run False s(1) st0 i in auto)
  qed
qed

lemma kmalloc_effect:
  assumes "km_ok st" "kmalloc sz prio st = Some (res, k, pr, st')"
  shows "km_ok st' \<and> km_view st' = id_effect (km_view st) (km_event sz res)"
proof (cases "sz > 4072")
  case True
  then show ?thesis using kmalloc_total [OF assms(1), of sz prio] assms(2) by simp
next
  case False
  then obtain st0 where "k < 8" "uint sz + 8 \<le> bsize k" "km_ok st0" "km_view st0 = km_view st" "kmalloc_round 4 k sz st0 = (res, st')"
    using kmalloc_total [OF assms(1), of sz prio] assms(2) by auto
  then show ?thesis using round_effect [of st0 k sz 4 res st'] by simp
qed

section \<open>Any history of calls\<close>

text \<open>A call of \<^verbatim>\<open>kmalloc\<close> that waits for a page goes on when it gets one (a page nobody has) or none.  A pointer that is freed is one that
  was given out.\<close>

inductive km_step :: "km_state \<Rightarrow> (u32, u32) id_event \<Rightarrow> km_state \<Rightarrow> bool" where
  alloc: "kmalloc sz prio st = Some (res, k, pr, st') \<Longrightarrow> km_step st (km_event sz res) st'"
| page: "k < 8 \<Longrightarrow> uint sz + 8 \<le> bsize k \<Longrightarrow> P = 0 \<or> page_addr P \<and> \<not> held st P \<Longrightarrow>
    kmalloc_resume t k sz P st = (res, st') \<Longrightarrow> km_step st (km_event sz res) st'"
| free: "km_view st p = Some n \<Longrightarrow> sz = 0 \<or> sz = n \<Longrightarrow> kfree_s p sz st = Some st' \<Longrightarrow> km_step st (Id_Gone p) st'"
| wrong: "km_view st p = Some n \<Longrightarrow> sz \<noteq> 0 \<Longrightarrow> sz \<noteq> n \<Longrightarrow> kfree_s p sz st = Some st' \<Longrightarrow> km_step st Id_Same st'"
| interrupt: "km_step st Id_Same (st\<lparr>intr_count := n\<rparr>)"

lemma km_step_effect: "km_step st e st' \<Longrightarrow> km_ok st \<Longrightarrow> km_ok st' \<and> km_view st' = id_effect (km_view st) e"
proof (induction rule: km_step.induct)
  case (alloc sz prio st res k pr st')
  show ?case using kmalloc_effect [OF alloc(2,1)] .
next
  case (page k sz P st t res st')
  show ?case using resume_effect [OF page(5,1-4)] by simp
next
  case (free st p n sz st')
  show ?case using kfree_effect [OF free(4,1,2)] free(3) by auto
next
  case (wrong st p n sz st')
  show ?case using kfree_wrong_size [OF wrong(5,1-3)] wrong(4,5) by auto
next
  case (interrupt st n)
  then show ?case using km_inv_stats [of "st\<lparr>intr_count := n\<rparr>" st] by (simp add: km_ok_def)
qed

interpretation km_objects: object_table km_ok km_step km_view
  by unfold_locales (auto dest: km_step_effect)

text \<open>The memory behind two pointers, with the headers in front of it, does not overlap.\<close>

lemma km_blocks_apart:
  assumes ok: "km_ok st" and p: "km_view st p = Some n" and q: "km_view st q = Some m" and ne: "p \<noteq> q"
  shows "unat p + unat n + 8 \<le> unat q \<or> unat q + unat m + 8 \<le> unat p"
proof -
  obtain fl pl where inv: "km_inv st fl pl" using ok by (auto simp: km_ok_def)
  have block: "\<exists>P k. held st P \<and> page_addr P \<and> k = ord st P \<and> k < 8 \<and> r - 8 \<in> blocks k P \<and> unat r = unat (r - 8) + 8 \<and> unat l + 8 \<le> nat (bsize k)"
    if v: "km_view st r = Some l" for r l
  proof -
    obtain P where P: "held st P" "r - 8 \<in> blocks (ord st P) P" "r - 8 \<notin> set (fl P)" "bh_vp (bh st (r - 8)) = l"
      using v unfolding km_view_iff [OF inv] by blast
    note pk = page_okD [OF km_invD(1) [OF inv P(1)]]
    obtain i where i: "unat (r - 8) = unat P + 16 + i * nat (bsize (ord st P))" "16 + i * nat (bsize (ord st P)) + nat (bsize (ord st P)) \<le> 4096"
      using blocksE [OF P(2) pk(1,2)] by blast
    have "unat P \<le> 2 ^ 32 - 4096" using unat_blk(3) [OF pk(1,2), of 0] class_facts(3) [OF pk(2)] by simp
    then have "unat (r - 8) + 8 < 2 ^ 32" using i class_facts(1) [OF pk(2)] by simp
    then have "unat (r - 8 + 8) = unat (r - 8) + 8" by (subst unat_word_ariths) simp
    moreover have "uint l + 8 \<le> bsize (ord st P)" using pk(9) [OF P(2,3)] P(4) by simp
    then have "int (unat l + 8) \<le> bsize (ord st P)" by simp
    then have "unat l + 8 \<le> nat (bsize (ord st P))" using class_facts(1) [OF pk(2)] by (subst le_nat_iff) simp_all
    moreover have "r - 8 + 8 = r" by simp
    ultimately show ?thesis using P(1,2) pk(1,2) by metis
  qed
  obtain P k where P: "held st P" "page_addr P" "k = ord st P" "k < 8" "p - 8 \<in> blocks k P" "unat p = unat (p - 8) + 8" "unat n + 8 \<le> nat (bsize k)"
    using block [OF p] by blast
  obtain Q l where Q: "held st Q" "page_addr Q" "l = ord st Q" "l < 8" "q - 8 \<in> blocks l Q" "unat q = unat (q - 8) + 8" "unat m + 8 \<le> nat (bsize l)"
    using block [OF q] by blast
  have "unat (p - 8) + nat (bsize k) \<le> unat (q - 8) \<or> unat (q - 8) + nat (bsize l) \<le> unat (p - 8)"
  proof (cases "P = Q")
    case True
    then show ?thesis using blocks_apart [OF P(2,4,5), of "q - 8"] P(3) Q(3,5) ne by auto
  next
    case False
    then show ?thesis using pages_apart [OF P(2) Q(2) P(4) Q(4) P(5) Q(5)] by blast
  qed
  then show ?thesis using P(6,7) Q(6,7) by linarith
qed

end
