(* ===== verification/Kmalloc_Theorems.thy ===== *)
theory Kmalloc_Theorems
  imports Kmalloc_Laws
begin

text \<open>
  The properties of \<^verbatim>\<open>kmalloc\<close> and \<^verbatim>\<open>kfree_s\<close>.  \<^verbatim>\<open>km_boot\<close> is the allocator before its first use: no page is held.
\<close>

definition km_boot :: km_state where
  "km_boot = \<lparr>bh = (\<lambda>a. \<lparr>bh_flags = 0, bh_vp = 0\<rparr>), pd = (\<lambda>a. \<lparr>pg_next = 0, pg_firstfree = 0, pg_order = 0, nfree = 0\<rparr>),
     sizes = init_sizes, intr_count = 0, held = (\<lambda>a. False), printed = []\<rparr>"

lemma km_boot_ok: "km_ok km_boot" "km_view km_boot = Map.empty" "held km_boot P = False"
proof -
  have "chain_ok km_boot (\<lambda>P. []) k []" if "k < 8" for k
    using order_cases [OF that] by (auto simp: chain_ok_def km_boot_def init_sizes_def size_table_def size_class_def)
  then have "km_inv km_boot (\<lambda>P. []) (\<lambda>k. [])"
    by (simp add: km_inv_def) (simp add: km_boot_def init_sizes_def size_class_def comp_def case_prod_beta)
  then show "km_ok km_boot" unfolding km_ok_def by blast
  show "km_view km_boot = Map.empty" by (auto simp: km_view_def km_boot_def)
  show "held km_boot P = False" by (simp add: km_boot_def)
qed

text \<open>C30: over any history of allocations and frees, with waits for pages in between, the allocator refines a map from the
  pointers given out to the sizes asked for: an allocation that succeeds adds an entry, a free of a pointer with its size or with 0
  deletes it, and everything else changes none.  \<^verbatim>\<open>kmalloc_init\<close> finds the table of sizes in order.\<close>

theorem kmalloc_refines_map:
  assumes "history km_step km_boot es st"
  shows "km_ok st \<and> km_view st = foldl id_effect Map.empty es \<and> kmalloc_init a b km_boot = Some a"
proof -
  have "kmalloc_init a b km_boot = Some a" by (simp add: kmalloc_init_def km_boot_def init_sizes_def size_table_def size_class_def)
  then show ?thesis
    using km_objects.history_invar [OF assms km_boot_ok(1)] km_objects.run_refines [OF assms km_boot_ok(1)] km_boot_ok(2) by simp
qed

text \<open>C32: \<^verbatim>\<open>kmalloc\<close> of at most 4072 bytes gives memory: from the pages it has, or, when it asks for a page and gets one, from that page.
  A larger size is refused.\<close>

lemma fresh_page_served:
  assumes "km_ok st" "k < 8" "uint sz + 8 \<le> bsize k" "page_addr P" "\<not> held st P"
  shows "\<exists>p st'. kmalloc_resume (Suc t) k sz P st = (Km_Ret p, st') \<and> p \<noteq> 0 \<and> km_ok st' \<and> km_view st' = (km_view st)(p \<mapsto> sz)
    \<and> held st' = (held st)(P := True)"
proof -
  obtain fl pl where inv: "km_inv st fl pl" using assms(1) by (auto simp: km_ok_def)
  note re = km_refill_inv [OF inv assms(2,4,5)]
  obtain b bs where b: "map (blk k P) [0..<nblk k] = b # bs" using class_facts(3) [OF assms(2)] by (cases "nblk k") (auto simp: upt_conv_Cons simp del: upt_Suc)
  obtain st' where st': "km_take k sz (km_refill k P st) = Some (b + 8, st')" and h: "held st' = held (km_refill k P st)"
    using km_take_run [OF re(1) assms(2), of P "pl k" b bs sz] b by auto
  have "kmalloc_resume (Suc t) k sz P st = (Km_Ret (b + 8), st')" using st' assms(4) by (simp add: kmalloc_resume_def kmalloc_round_def page_addr_def)
  then show ?thesis using km_take_effect [OF re(1) assms(2,3) st'] re(2) h km_refill_fields(1) [OF inv assms(2)] by auto
qed

theorem kmalloc_gives_memory:
  assumes "km_ok st" "page_addr P" "\<not> held st P"
  shows "\<exists>res k pr st'. kmalloc sz prio st = Some (res, k, pr, st') \<and>
    (if sz > 4072 then res = Km_Ret 0
     else (\<exists>p. res = Km_Ret p \<and> p \<noteq> 0 \<and> km_view st' = (km_view st)(p \<mapsto> sz))
       \<or> (\<exists>p st''. res = Km_Page 3 \<and> kmalloc_resume 3 k sz P st' = (Km_Ret p, st'') \<and> p \<noteq> 0 \<and> km_view st'' = (km_view st)(p \<mapsto> sz)))"
proof -
  obtain res k pr st' where r: "kmalloc sz prio st = Some (res, k, pr, st')"
    "if sz > 4072 then res = Km_Ret 0 \<and> km_ok st' \<and> km_view st' = km_view st
       else \<exists>st0. k < 8 \<and> uint sz + 8 \<le> bsize k \<and> km_ok st0 \<and> km_view st0 = km_view st \<and> held st0 = held st \<and> kmalloc_round 4 k sz st0 = (res, st')"
    using kmalloc_total [OF assms(1)] by blast
  show ?thesis
  proof (cases "sz > 4072")
    case True
    then show ?thesis using r by auto
  next
    case False
    then obtain st0 where st0: "k < 8" "uint sz + 8 \<le> bsize k" "km_ok st0" "km_view st0 = km_view st" "held st0 = held st" "kmalloc_round 4 k sz st0 = (res, st')"
      using r(2) by auto
    obtain fl pl where inv: "km_inv st0 fl pl" using st0(3) by (auto simp: km_ok_def)
    show ?thesis
    proof (cases "km_take k sz st0")
      case None
      have e: "res = Km_Page 3" "st' = st0" using st0(6) None by (simp_all add: kmalloc_round_def numeral_eq_Suc)
      obtain p st'' where "kmalloc_resume 3 k sz P st0 = (Km_Ret p, st'')" "p \<noteq> 0" "km_view st'' = (km_view st)(p \<mapsto> sz)"
        using fresh_page_served [OF st0(3,1,2) assms(2), of 2] assms(3) st0(4,5) by (auto simp: numeral_3_eq_3 numeral_2_eq_2)
      then show ?thesis using r(1) e False by auto
    next
      case (Some a)
      obtain p s where a: "a = (p, s)" by (cases a)
      have e: "res = Km_Ret p" "st' = s" using st0(6) Some a by (simp_all add: kmalloc_round_def numeral_eq_Suc)
      show ?thesis using km_take_effect(3,4) [OF inv st0(1,2) Some [unfolded a]] r(1) e st0(4) False by auto
    qed
  qed
qed

lemma page_addr_demo: "page_addr 0x100000"
  by (simp add: page_addr_def)

lemma km_boot_100: "kmalloc 100 3 km_boot = Some (Km_Page 3, 2, 3, km_boot)"
proof -
  have "get_order (to_s32 100) km_boot = Some 2"
    by (simp add: get_order_def to_s32_def km_boot_def init_sizes_def size_table_def size_class_def swrap_def)
  moreover have t: "km_take 2 100 km_boot = None" by (simp add: km_take_def km_boot_def init_sizes_def size_table_def size_class_def)
  moreover have "intr_count km_boot = 0" by (simp add: km_boot_def)
  moreover have "kmalloc_round (Suc 3) 2 100 km_boot = (Km_Page 3, km_boot)" using t by (simp add: kmalloc_round_def)
  ultimately show ?thesis by (simp add: kmalloc_def)
qed

theorem kmalloc_gives_memory_witness:
  "\<exists>p st'. kmalloc_resume 3 2 100 0x100000 km_boot = (Km_Ret p, st') \<and> p \<noteq> 0 \<and> km_view st' = [p \<mapsto> 100]"
  using kmalloc_gives_memory [OF km_boot_ok(1) page_addr_demo, of 100 3] km_boot_ok(2,3) km_boot_100 by auto

text \<open>Two pages served in turn, for the witnesses below.\<close>

lemma bsize_2: "uint (100 :: u32) + 8 \<le> bsize 2"
  by (simp add: bsize_def size_table_def)

lemma demo_two_blocks:
  obtains p q st1 st2 where "km_step km_boot (Id_Made p 100) st1" "km_step st1 (Id_Made q 100) st2" "km_ok st1" "km_ok st2"
    "km_view st1 = [p \<mapsto> 100]" "km_view st2 = [p \<mapsto> 100, q \<mapsto> 100]" "p \<noteq> 0" "q \<noteq> 0"
proof -
  obtain p st1 where p: "kmalloc_resume 3 2 100 0x100000 km_boot = (Km_Ret p, st1)" "p \<noteq> 0" "km_ok st1" "km_view st1 = [p \<mapsto> 100]"
      "held st1 = (held km_boot)(0x100000 := True)"
    using fresh_page_served [OF km_boot_ok(1) _ bsize_2 page_addr_demo, of 2] km_boot_ok(2,3) by (auto simp: numeral_3_eq_3 numeral_2_eq_2)
  have P: "page_addr 0x200000" "\<not> held st1 0x200000" using p(5) km_boot_ok(3) by (simp_all add: page_addr_def)
  obtain q st2 where q: "kmalloc_resume 3 2 100 0x200000 st1 = (Km_Ret q, st2)" "q \<noteq> 0" "km_ok st2" "km_view st2 = [p \<mapsto> 100, q \<mapsto> 100]"
    using fresh_page_served [OF p(3) _ bsize_2 P, of 2] p(4) by (auto simp: numeral_3_eq_3 numeral_2_eq_2)
  have "km_step km_boot (km_event 100 (Km_Ret p)) st1" using bsize_2 p(1) page_addr_demo km_boot_ok(3) by (intro km_step.page [of 2]) auto
  moreover have "km_step st1 (km_event 100 (Km_Ret q)) st2" using bsize_2 q(1) P by (intro km_step.page [of 2]) auto
  ultimately show thesis using that p(2-4) q(2-4) by simp
qed

theorem kmalloc_refines_map_witness:
  "\<exists>p st. history km_step km_boot [Id_Made p 100] st \<and> km_view st = [p \<mapsto> 100]"
proof -
  obtain p st where "km_step km_boot (Id_Made p 100) st" by (rule demo_two_blocks)
  then have "history km_step km_boot [Id_Made p 100] st" by (simp add: history_Cons)
  then show ?thesis using kmalloc_refines_map [of "[Id_Made p 100]" st] by auto
qed

text \<open>C31: the memory behind two pointers that are allocated at the same time does not overlap, the headers in front of it included.\<close>

theorem kmalloc_blocks_disjoint:
  assumes "history km_step km_boot es st" "km_view st p = Some n" "km_view st q = Some m" "p \<noteq> q"
  shows "unat p + unat n + 8 \<le> unat q \<or> unat q + unat m + 8 \<le> unat p"
  using km_objects.history_invar [OF assms(1) km_boot_ok(1)] assms(2-4) by (rule km_blocks_apart)

lemma made_fresh:
  assumes "km_step st (Id_Made p sz) st'" "km_ok st"
  shows "km_view st p = None"
proof -
  have round: "km_view s p = None" if "km_ok s" "k < 8" "uint sz + 8 \<le> bsize k" "kmalloc_round t k sz s = (Km_Ret p, s')" "p \<noteq> 0" for s s' t k
  proof -
    note h = that
    obtain fl pl where inv: "km_inv s fl pl" using h(1) by (auto simp: km_ok_def)
    have "km_take k sz s = Some (p, s')" using h(4,5) by (auto simp: kmalloc_round_def split: nat.splits option.splits)
    then show ?thesis by (rule km_take_effect(2) [OF inv h(2,3)])
  qed
  show ?thesis using assms(1)
  proof cases
    case (alloc sz' prio res k pr)
    then have a: "res = Km_Ret p" "p \<noteq> 0" "sz' = sz" by (cases res; simp split: if_splits)+
    have "\<not> sz > 4072" using kmalloc_total [OF assms(2), of sz prio] alloc(2) a by auto
    then obtain st0 where "km_ok st0" "k < 8" "uint sz + 8 \<le> bsize k" "kmalloc_round 4 k sz st0 = (Km_Ret p, st')" "km_view st0 = km_view st"
      using kmalloc_total [OF assms(2), of sz prio] alloc(2) a by auto
    then show ?thesis using round a(2) by metis
  next
    case (page k sz' P t res)
    then have a: "res = Km_Ret p" "p \<noteq> 0" "sz' = sz" by (cases res; simp split: if_splits)+
    obtain fl pl where inv: "km_inv st fl pl" using assms(2) by (auto simp: km_ok_def)
    have P: "P \<noteq> 0" "page_addr P" "\<not> held st P" using page(4,5) a by (auto simp: kmalloc_resume_def split: if_splits)
    note re = km_refill_inv [OF inv page(2) P(2,3)]
    have "km_ok (km_refill k P st)" using re(1) unfolding km_ok_def by blast
    then show ?thesis using round [of "km_refill k P st" k t st'] page(2,3,5) a P(1) re(2) by (simp add: kmalloc_resume_def)
  qed
qed

text \<open>C33: a block that is freed with its size, or with 0, is gone, and after an allocation this gives back the allocator with the
  same pointers in use as before, without a complaint.\<close>

theorem kfree_undoes_kmalloc:
  assumes "km_ok st" "km_step st (Id_Made p sz) st1" "sz' = 0 \<or> sz' = sz"
  shows "\<exists>st2. kfree_s p sz' st1 = Some st2 \<and> km_ok st2 \<and> km_view st2 = km_view st \<and> printed st2 = printed st1"
proof -
  have e: "km_ok st1" "km_view st1 = (km_view st)(p \<mapsto> sz)" using km_step_effect [OF assms(2,1)] by simp_all
  have "km_view st p = None" using made_fresh [OF assms(2,1)] .
  then have "(km_view st1)(p := None) = km_view st" using e(2) by auto
  then show ?thesis using kfree_effect [OF e(1), of p sz sz'] e(2) assms(3) by auto
qed

text \<open>A free with a wrong size frees nothing: the block stays allocated for ever.  The message queues do this when a message is
  cut to the size of the receiver's buffer.\<close>

theorem kfree_wrong_size_leaks:
  assumes "km_ok st" "km_view st p = Some n" "sz \<noteq> 0" "sz \<noteq> n"
  shows "\<exists>st'. kfree_s p sz st = Some st' \<and> km_view st' = km_view st \<and> held st' = held st \<and> printed st' = printed st @ [Wrong_Size (p - 8) sz n]"
  using kfree_wrong_size [OF assms] by (simp, simp add: km_printk_def)

theorem kmalloc_blocks_disjoint_witness:
  "\<exists>p q st. km_view st p = Some 100 \<and> km_view st q = Some 100 \<and> p \<noteq> q \<and> (unat p + 108 \<le> unat q \<or> unat q + 108 \<le> unat p)"
proof -
  obtain p q st1 st2 where d: "km_step km_boot (Id_Made p 100) st1" "km_step st1 (Id_Made q 100) st2" "km_ok st1"
    "km_view st1 = [p \<mapsto> 100]" "km_view st2 = [p \<mapsto> 100, q \<mapsto> 100]" by (rule demo_two_blocks)
  have h: "history km_step km_boot [Id_Made p 100, Id_Made q 100] st2" using d(1,2) by (auto simp: history_Cons)
  have ne: "p \<noteq> q" using made_fresh [OF d(2,3)] d(4) by auto
  then have "unat p + unat (100 :: u32) + 8 \<le> unat q \<or> unat q + unat (100 :: u32) + 8 \<le> unat p"
    using kmalloc_blocks_disjoint [OF h, of p 100 q 100] d(5) by auto
  then show ?thesis using ne d(5) by (intro exI [of _ p] exI [of _ q] exI [of _ st2]) auto
qed

theorem kfree_undoes_kmalloc_witness:
  "\<exists>p st1 st2. km_view st1 = [p \<mapsto> 100] \<and> kfree_s p 100 st1 = Some st2 \<and> km_view st2 = Map.empty"
proof -
  obtain p st1 where d: "km_step km_boot (Id_Made p 100) st1" "km_view st1 = [p \<mapsto> 100]" by (rule demo_two_blocks)
  then show ?thesis using kfree_undoes_kmalloc [OF km_boot_ok(1) d(1), of 100] km_boot_ok(2) by auto
qed

theorem kfree_wrong_size_leaks_witness:
  "\<exists>p st1 st2. kfree_s p 60 st1 = Some st2 \<and> km_view st2 = [p \<mapsto> 100]"
proof -
  obtain p st1 where d: "km_ok st1" "km_view st1 = [p \<mapsto> 100]" by (rule demo_two_blocks)
  then show ?thesis using kfree_wrong_size_leaks [OF d(1), of p 100 60] by auto
qed

end
