(* ===== verification/Vsprintf.thy ===== *)
theory Vsprintf
  imports Kernel_Prelude
begin

text \<open>
  Formatted output and the reading of numbers: \<^verbatim>\<open>kernel/vsprintf.c\<close> with the character classes of \<^verbatim>\<open>lib/ctype.c\<close>.  A C string is the list of
  the characters before its terminating zero, so reading at the end of the list reads 0.  The arguments of \<^verbatim>\<open>vsprintf\<close> are words; the strings
  that pointers among them point to are given by a function.  The result is the text written to the buffer with the values stored by \<^verbatim>\<open>%n\<close>.
  \<^verbatim>\<open>None\<close> is an access outside the table of classes, which a negative \<^verbatim>\<open>char\<close> makes, or a missing argument.
\<close>

section \<open>Character classes\<close>

definition ctype_table :: "nat list" where
  "ctype_table =
     replicate 9 8 @ replicate 5 40 @ replicate 18 8 @ [160] @ replicate 15 16 @ replicate 10 4 @ replicate 7 16 @
     replicate 6 65 @ replicate 20 1 @ replicate 6 16 @ replicate 6 66 @ replicate 20 2 @ replicate 4 16 @ [8]"

text \<open>\<^verbatim>\<open>(_ctype+1)[c]\<close> for a signed \<^verbatim>\<open>char\<close>: from 128 on the index is negative; only \<^verbatim>\<open>-1\<close> is in the table.\<close>

definition ctype :: "char \<Rightarrow> nat option" where
  "ctype c = (let n = of_char c :: nat in if n < 128 then Some (ctype_table ! n) else if n = 255 then Some 0 else None)"

definition has_class :: "nat \<Rightarrow> char \<Rightarrow> bool option" where
  "has_class m c = map_option (\<lambda>f. f AND m \<noteq> 0) (ctype c)"

abbreviation (input) "isdigit \<equiv> has_class 4"
abbreviation (input) "islower \<equiv> has_class 2"
abbreviation (input) "isxdigit \<equiv> has_class 68"

section \<open>Reading a number\<close>

definition digit_value :: "char \<Rightarrow> nat option" where
  "digit_value c =
     do { d \<leftarrow> isdigit c;
          l \<leftarrow> islower c;
          Some (if d then of_char c - 48 else (if l then of_char c - 32 else of_char c) - 65 + 10) }"

fun strtoul_loop :: "string \<Rightarrow> u32 \<Rightarrow> u32 \<Rightarrow> (u32 \<times> string) option" where
  "strtoul_loop [] base result = Some (result, [])"
| "strtoul_loop (c # cp) base result =
     do { x \<leftarrow> isxdigit c;
          if \<not> x then Some (result, c # cp)
          else do {
            value \<leftarrow> digit_value c;
            if of_nat value < base then strtoul_loop cp base (result * base + of_nat value) else Some (result, c # cp) } }"

text \<open>The base that a number of base 0 says, and the rest of it.\<close>

definition strtoul_base :: "string \<Rightarrow> (u32 \<times> string) option" where
  "strtoul_base cp =
     (case cp of
        c # cp' \<Rightarrow>
          if c = CHR ''0''
          then (case cp' of
                  c1 # c2 # cp'' \<Rightarrow>
                    if c1 = CHR ''x'' then do { x \<leftarrow> isxdigit c2; Some (if x then (16, c2 # cp'') else (8, cp')) } else Some (8, cp')
                | _ \<Rightarrow> Some (8, cp'))
          else Some (10, cp)
      | [] \<Rightarrow> Some (10, cp))"

definition simple_strtoul :: "string \<Rightarrow> u32 \<Rightarrow> (u32 \<times> string) option" where
  "simple_strtoul cp base =
     do { (base, cp) \<leftarrow> (if base = 0 then strtoul_base cp else Some (base, cp)); strtoul_loop cp base 0 }"

definition is_digit :: "char \<Rightarrow> bool" where
  "is_digit c \<longleftrightarrow> (let n = of_char c :: nat in 48 \<le> n \<and> n \<le> 57)"

fun skip_atoi :: "string \<Rightarrow> int \<Rightarrow> int \<times> string" where
  "skip_atoi [] i = (i, [])"
| "skip_atoi (c # s) i = (if is_digit c then skip_atoi s (swrap (i * 10 + of_char c - 48)) else (i, c # s))"

section \<open>Printing a number\<close>

abbreviation (input) ZEROPAD :: u32 where "ZEROPAD \<equiv> 1"
abbreviation (input) SIGN :: u32 where "SIGN \<equiv> 2"
abbreviation (input) PLUS :: u32 where "PLUS \<equiv> 4"
abbreviation (input) SPACE :: u32 where "SPACE \<equiv> 8"
abbreviation (input) LEFT :: u32 where "LEFT \<equiv> 16"
abbreviation (input) SPECIAL :: u32 where "SPECIAL \<equiv> 32"
abbreviation (input) SMALL :: u32 where "SMALL \<equiv> 64"

definition digits_of_case :: "bool \<Rightarrow> string" where
  "digits_of_case small = (if small then ''0123456789abcdefghijklmnopqrstuvwxyz'' else ''0123456789ABCDEFGHIJKLMNOPQRSTUVWXYZ'')"

text \<open>The loop over \<^verbatim>\<open>do_div\<close>, an unsigned division; the digits come out from the last one.\<close>

function number_digits :: "u32 \<Rightarrow> u32 \<Rightarrow> nat list" where
  "number_digits num base =
     (if num = 0 \<or> base \<le> 1 then [] else unat (num mod base) # number_digits (num div base) base)"
  by auto
termination
proof (relation "measure (\<lambda>(num, base). unat num)", goal_cases)
  case (2 num base)
  then have "1 < unat base" "0 < unat num" by (simp_all add: word_le_nat_alt unat_gt_0)
  then have "unat num div unat base < unat num" by (rule div_less_dividend)
  then show ?case by (simp add: unat_div)
qed simp

declare number_digits.simps [simp del]

text \<open>\<^verbatim>\<open>while (size-- > 0) *str++ = c\<close>: what is written, and the variable afterwards.\<close>

definition pad :: "int \<Rightarrow> char \<Rightarrow> string \<times> int" where
  "pad n c = (replicate (nat n) c, if n > 0 then -1 else swrap (n - 1))"

definition number :: "int \<Rightarrow> int \<Rightarrow> int \<Rightarrow> int \<Rightarrow> u32 \<Rightarrow> string option" where
  "number num base sz precision ty =
    (let digits = digits_of_case (ty AND SMALL \<noteq> 0);
         ty = (if ty AND LEFT \<noteq> 0 then ty AND NOT ZEROPAD else ty)
     in if base < 2 \<or> base > 36 then None
        else let c = (if ty AND ZEROPAD \<noteq> 0 then CHR ''0'' else CHR '' '');
                 neg = (ty AND SIGN \<noteq> 0 \<and> num < 0);
                 sign = (if neg then ''-'' else if ty AND PLUS \<noteq> 0 then ''+'' else if ty AND SPACE \<noteq> 0 then '' '' else []);
                 num = (if neg then swrap (- num) else num);
                 sz = (if sign \<noteq> [] then swrap (sz - 1) else sz);
                 sz = (if ty AND SPECIAL \<noteq> 0 then if base = 16 then swrap (sz - 2) else if base = 8 then swrap (sz - 1) else sz else sz);
                 tmp = (if num = 0 then ''0'' else map (\<lambda>d. digits ! d) (number_digits (to_u32 num) (to_u32 base)));
                 precision = (if int (length tmp) > precision then int (length tmp) else precision);
                 sz = swrap (sz - precision);
                 (before, sz) = (if ty AND (ZEROPAD + LEFT) = 0 then pad sz (CHR '' '') else ([], sz));
                 prefix = (if ty AND SPECIAL \<noteq> 0 then if base = 8 then ''0'' else if base = 16 then [CHR ''0'', digits ! 33] else [] else []);
                 (middle, sz) = (if ty AND LEFT = 0 then pad sz c else ([], sz));
                 zeros = replicate (nat (precision - int (length tmp))) (CHR ''0'');
                 (after, sz) = pad sz (CHR '' '')
             in Some (before @ sign @ prefix @ middle @ zeros @ rev tmp @ after))"

section \<open>The format\<close>

fun parse_flags :: "string \<Rightarrow> u32 \<Rightarrow> u32 \<times> string" where
  "parse_flags [] flags = (flags, [])"
| "parse_flags (c # fmt) flags =
     (if c = CHR ''-'' then parse_flags fmt (flags OR LEFT)
      else if c = CHR ''+'' then parse_flags fmt (flags OR PLUS)
      else if c = CHR '' '' then parse_flags fmt (flags OR SPACE)
      else if c = CHR ''#'' then parse_flags fmt (flags OR SPECIAL)
      else if c = CHR ''0'' then parse_flags fmt (flags OR ZEROPAD)
      else (flags, c # fmt))"

fun va_arg :: "u32 list \<Rightarrow> (u32 \<times> u32 list) option" where
  "va_arg [] = None"
| "va_arg (a # args) = Some (a, args)"

text \<open>The field width; a \<^verbatim>\<open>*\<close> takes an argument but is not skipped.\<close>

definition parse_width :: "string \<Rightarrow> u32 \<Rightarrow> u32 list \<Rightarrow> (int \<times> u32 \<times> string \<times> u32 list) option" where
  "parse_width fmt flags args =
     (if fmt \<noteq> [] \<and> is_digit (hd fmt) then let (w, fmt) = skip_atoi fmt 0 in Some (w, flags, fmt, args)
      else if fmt \<noteq> [] \<and> hd fmt = CHR ''*''
      then do { (a, args) \<leftarrow> va_arg args;
                Some (if to_s32 a < 0 then (swrap (- to_s32 a), flags OR LEFT, fmt, args) else (to_s32 a, flags, fmt, args)) }
      else Some (-1, flags, fmt, args))"

definition parse_precision :: "string \<Rightarrow> u32 list \<Rightarrow> (int \<times> string \<times> u32 list) option" where
  "parse_precision fmt args =
     (if fmt \<noteq> [] \<and> hd fmt = CHR ''.''
      then let fmt = tl fmt
           in do { (p, fmt, args) \<leftarrow>
                     (if fmt \<noteq> [] \<and> is_digit (hd fmt) then let (p, fmt) = skip_atoi fmt 0 in Some (p, fmt, args)
                      else if fmt \<noteq> [] \<and> hd fmt = CHR ''*'' then do { (a, args) \<leftarrow> va_arg args; Some (to_s32 a, fmt, args) }
                      else Some (-1, fmt, args));
                   Some (if p < 0 then 0 else p, fmt, args) }
      else Some (-1, fmt, args))"

definition skip_qualifier :: "string \<Rightarrow> string" where
  "skip_qualifier fmt = (if fmt \<noteq> [] \<and> (hd fmt = CHR ''h'' \<or> hd fmt = CHR ''l'' \<or> hd fmt = CHR ''L'') then tl fmt else fmt)"

text \<open>\<^verbatim>\<open>%c\<close>: \<^verbatim>\<open>while (--field_width > 0)\<close> before and after the character.\<close>

definition put_char :: "u32 \<Rightarrow> int \<Rightarrow> u32 \<Rightarrow> string" where
  "put_char a w flags =
    (let before = (if flags AND LEFT = 0 then replicate (nat (swrap (w - 1))) (CHR '' '') else []);
         w = (if flags AND LEFT = 0 then if swrap (w - 1) > 0 then 0 else swrap (w - 1) else w)
     in before @ [char_of (unat a mod 256)] @ replicate (nat (swrap (w - 1))) (CHR '' ''))"

text \<open>\<^verbatim>\<open>%s\<close>: \<^verbatim>\<open>while (len < field_width--)\<close> before and after the string.\<close>

definition put_string :: "string \<Rightarrow> int \<Rightarrow> int \<Rightarrow> u32 \<Rightarrow> string" where
  "put_string s w precision flags =
    (let len = (if precision \<ge> 0 \<and> int (length s) > precision then precision else int (length s));
         before = (if flags AND LEFT = 0 then replicate (nat (w - len)) (CHR '' '') else []);
         w = (if flags AND LEFT = 0 then if len < w then swrap (len - 1) else swrap (w - 1) else w)
     in before @ take (nat len) s @ replicate (nat (w - len)) (CHR '' ''))"

text \<open>The conversion of one directive: what it prints, what \<^verbatim>\<open>%n\<close> stores (the count of characters before it), and what is left of the
  format and the arguments.\<close>

definition convert :: "(u32 \<Rightarrow> string) \<Rightarrow> int \<Rightarrow> string \<Rightarrow> int \<Rightarrow> int \<Rightarrow> u32 \<Rightarrow> u32 list \<Rightarrow> (string \<times> (u32 \<times> int) list \<times> string \<times> u32 list) option" where
  "convert ks pos fmt w precision flags args =
     (case fmt of
        [] \<Rightarrow> Some (''%'', [], [], args)
      | c # fmt \<Rightarrow>
          if c = CHR ''c'' then do { (a, args) \<leftarrow> va_arg args; Some (put_char a w flags, [], fmt, args) }
          else if c = CHR ''s''
          then do { (a, args) \<leftarrow> va_arg args; Some (put_string (if a = 0 then ''<NULL>'' else ks a) w precision flags, [], fmt, args) }
          else if c = CHR ''o''
          then do { (a, args) \<leftarrow> va_arg args; s \<leftarrow> number (to_s32 a) 8 w precision flags; Some (s, [], fmt, args) }
          else if c = CHR ''p''
          then do { (a, args) \<leftarrow> va_arg args;
                    s \<leftarrow> number (to_s32 a) 16 (if w = -1 then 8 else w) precision (if w = -1 then flags OR ZEROPAD else flags);
                    Some (s, [], fmt, args) }
          else if c = CHR ''x'' \<or> c = CHR ''X''
          then do { (a, args) \<leftarrow> va_arg args;
                    s \<leftarrow> number (to_s32 a) 16 w precision (if c = CHR ''x'' then flags OR SMALL else flags);
                    Some (s, [], fmt, args) }
          else if c = CHR ''d'' \<or> c = CHR ''i'' \<or> c = CHR ''u''
          then do { (a, args) \<leftarrow> va_arg args;
                    s \<leftarrow> number (to_s32 a) 10 w precision (if c = CHR ''u'' then flags else flags OR SIGN);
                    Some (s, [], fmt, args) }
          else if c = CHR ''n'' then do { (a, args) \<leftarrow> va_arg args; Some ([], [(a, pos)], fmt, args) }
          else Some (if c = CHR ''%'' then [c] else [CHR ''%'', c], [], fmt, args))"

definition directive :: "(u32 \<Rightarrow> string) \<Rightarrow> int \<Rightarrow> string \<Rightarrow> u32 list \<Rightarrow> (string \<times> (u32 \<times> int) list \<times> string \<times> u32 list) option" where
  "directive ks pos fmt args =
    (let (flags, fmt) = parse_flags fmt 0
     in do { (w, flags, fmt, args) \<leftarrow> parse_width fmt flags args;
             (precision, fmt, args) \<leftarrow> parse_precision fmt args;
             convert ks pos (skip_qualifier fmt) w precision flags args })"

lemma parse_flags_shorter: "parse_flags fmt fl = (fl', fmt') \<Longrightarrow> length fmt' \<le> length fmt"
  by (induction fmt fl rule: parse_flags.induct) (auto split: if_splits)

lemma skip_atoi_shorter: "skip_atoi fmt i = (j, fmt') \<Longrightarrow> length fmt' \<le> length fmt"
  by (induction fmt i rule: skip_atoi.induct) (auto split: if_splits)

lemma parse_width_shorter: "parse_width fmt fl args = Some (w, fl', fmt', args') \<Longrightarrow> length fmt' \<le> length fmt"
  by (auto simp: parse_width_def dest: skip_atoi_shorter split: if_splits bind_splits prod.splits)

lemma parse_precision_shorter: "parse_precision fmt args = Some (p, fmt', args') \<Longrightarrow> length fmt' \<le> length fmt"
proof -
  assume a: "parse_precision fmt args = Some (p, fmt', args')"
  have "length fmt' \<le> length (tl fmt) \<or> fmt' = fmt"
    using a by (auto simp: parse_precision_def Let_def dest: skip_atoi_shorter split: if_splits bind_splits prod.splits)
  then show ?thesis by auto
qed

definition leaves :: "string \<Rightarrow> ('a \<times> 'b \<times> string \<times> 'c) option \<Rightarrow> bool" where
  "leaves fmt r \<longleftrightarrow> (\<forall>s wr fmt' args. r = Some (s, wr, fmt', args) \<longrightarrow> length fmt' \<le> length fmt)"

lemma leavesI [intro]:
  "length fmt' \<le> length fmt \<Longrightarrow> leaves fmt (Some (s, wr, fmt', args))"
  "leaves fmt x \<Longrightarrow> leaves fmt y \<Longrightarrow> leaves fmt (if P then x else y)"
  "(\<And>a. leaves fmt (f a)) \<Longrightarrow> leaves fmt (Option.bind v f)"
  "(\<And>i j. leaves fmt (g i j)) \<Longrightarrow> leaves fmt (case z of (i, j) \<Rightarrow> g i j)"
  by (auto simp: leaves_def split: bind_splits prod.splits)

lemma convert_shorter:
  assumes "convert ks pos fmt w p fl args = Some (s, wr, fmt', args')"
  shows "length fmt' \<le> length fmt"
proof -
  have "leaves fmt (convert ks pos fmt w p fl args)"
  proof (cases fmt)
    case (Cons c cs)
    show ?thesis unfolding convert_def Cons list.case by (intro leavesI) simp_all
  qed (simp add: convert_def leaves_def)
  then show ?thesis using assms unfolding leaves_def by blast
qed

lemma directive_shorter:
  assumes "directive ks pos fmt args = Some (s, wr, fmt', args')"
  shows "length fmt' \<le> length fmt"
proof -
  obtain fl f1 where 1: "parse_flags fmt 0 = (fl, f1)" by fastforce
  then obtain w fl' f2 a2 p f3 a3 where "parse_width f1 fl args = Some (w, fl', f2, a2)" "parse_precision f2 a2 = Some (p, f3, a3)"
      "convert ks pos (skip_qualifier f3) w p fl' a3 = Some (s, wr, fmt', args')"
    using assms by (auto simp: directive_def split: bind_splits)
  moreover have "length (skip_qualifier f3) \<le> length f3" by (simp add: skip_qualifier_def)
  ultimately show ?thesis using parse_flags_shorter [OF 1] parse_width_shorter parse_precision_shorter convert_shorter by (meson order_trans)
qed

section \<open>The loop\<close>

function vsprintf_loop :: "(u32 \<Rightarrow> string) \<Rightarrow> string \<Rightarrow> u32 list \<Rightarrow> string \<Rightarrow> (string \<times> (u32 \<times> int) list) option" where
  "vsprintf_loop ks [] args str = Some (str, [])"
| "vsprintf_loop ks (c # fmt) args str =
     (if c \<noteq> CHR ''%'' then vsprintf_loop ks fmt args (str @ [c])
      else case directive ks (int (length str)) fmt args of
             None \<Rightarrow> None
           | Some (s, writes, fmt', args') \<Rightarrow> map_option (\<lambda>(out, more). (out, writes @ more)) (vsprintf_loop ks fmt' args' (str @ s)))"
  by pat_completeness auto
termination
  by (relation "measure (\<lambda>(ks, fmt, args, str). length fmt)") (auto dest: directive_shorter)

text \<open>The result: the number of characters, the text in the buffer and the values stored.\<close>

definition vsprintf :: "(u32 \<Rightarrow> string) \<Rightarrow> string \<Rightarrow> u32 list \<Rightarrow> (int \<times> string \<times> (u32 \<times> int) list) option" where
  "vsprintf ks fmt args = map_option (\<lambda>(out, writes). (int (length out), out, writes)) (vsprintf_loop ks fmt args [])"

definition sprintf :: "(u32 \<Rightarrow> string) \<Rightarrow> string \<Rightarrow> u32 list \<Rightarrow> (int \<times> string \<times> (u32 \<times> int) list) option" where
  "sprintf ks fmt args = vsprintf ks fmt args"

end
