(* ===== verification/Vsprintf_Theorems.thy ===== *)
theory Vsprintf_Theorems
  imports Vsprintf
begin

text \<open>
  The properties of \<^verbatim>\<open>kernel/vsprintf.c\<close>: the layout of a printed number, that a printed number is read back as it was, and the star in
  a format, which does not work.
\<close>

section \<open>Digits\<close>



lemma number_digits_length: "1 < b \<Longrightarrow> n \<noteq> 0 \<Longrightarrow> 2 ^ (length (number_digits n b) - 1) \<le> unat n"
proof (induction n b rule: number_digits.induct)
  case (1 n b)
  have u: "unat n div unat b = unat (n div b)" by (simp add: unat_div)
  have b: "2 \<le> unat b" using "1.prems"(1) by (simp add: word_less_nat_alt)
  show ?case
  proof (cases "n div b = 0")
    case True
    then show ?thesis using "1.prems" by (subst number_digits.simps) (simp add: number_digits.simps Suc_leI unat_gt_0)
  next
    case False
    let ?l = "length (number_digits (n div b) b)"
    have "0 < ?l" using False "1.prems"(1) by (subst number_digits.simps) simp
    moreover have "2 ^ (?l - 1) \<le> unat (n div b)" using 1 False by simp
    ultimately have "2 ^ ?l \<le> 2 * unat (n div b)" by (cases ?l) auto
    also have "\<dots> \<le> unat b * (unat n div unat b)" unfolding u using b by (rule mult_le_mono1)
    also have "\<dots> \<le> unat n" by simp
    finally have "2 ^ ?l \<le> unat n" .
    moreover have "\<not> b \<le> 1" using "1.prems"(1) by simp
    ultimately show ?thesis using "1.prems"(2) by (subst number_digits.simps) simp
  qed
qed

lemma number_digits_short: "1 < b \<Longrightarrow> length (number_digits n b) \<le> 32"
proof (cases "n = 0")
  case False
  assume "1 < b"
  then have "2 ^ (length (number_digits n b) - 1) \<le> unat n" using False by (rule number_digits_length)
  also have "unat n < 2 ^ 32" using unsigned_less [of n] by simp
  finally have "length (number_digits n b) - 1 < 32" by (rule power_less_imp_less_exp [rotated]) simp
  then show ?thesis by simp
qed (simp add: number_digits.simps)








section \<open>The layout of a number\<close>

text \<open>The reference: a text with a sign and a prefix in a field of a width, at the left, at the right after blanks, or filled up with zeros
  after the prefix.\<close>

definition field :: "bool \<Rightarrow> bool \<Rightarrow> int \<Rightarrow> string \<Rightarrow> string \<Rightarrow> string" where
  "field left zero w head body =
    (let n = nat (w - int (length (head @ body)))
     in if left then head @ body @ replicate n (CHR '' '')
        else if zero then head @ replicate n (CHR ''0'') @ body
        else replicate n (CHR '' '') @ head @ body)"

definition digit_text :: "bool \<Rightarrow> u32 \<Rightarrow> u32 \<Rightarrow> string" where
  "digit_text small b n = (if n = 0 then ''0'' else map (\<lambda>d. digits_of_case small ! d) (rev (number_digits n b)))"

definition number_text :: "bool \<Rightarrow> u32 \<Rightarrow> int \<Rightarrow> u32 \<Rightarrow> string" where
  "number_text small b prec n =
    (let t = digit_text small b n in replicate (nat (prec - int (length t))) (CHR ''0'') @ t)"

definition number_sign :: "u32 \<Rightarrow> int \<Rightarrow> string" where
  "number_sign ty i =
     (if ty AND SIGN \<noteq> 0 \<and> i < 0 then ''-'' else if ty AND PLUS \<noteq> 0 then ''+'' else if ty AND SPACE \<noteq> 0 then '' '' else [])"

definition number_prefix :: "u32 \<Rightarrow> int \<Rightarrow> string" where
  "number_prefix ty b =
     (if ty AND SPECIAL = 0 then [] else if b = 8 then ''0''
      else if b = 16 then [CHR ''0'', if ty AND SMALL \<noteq> 0 then CHR ''x'' else CHR ''X''] else [])"

lemma clear_zeropad:
  fixes ty :: u32
  shows "(ty AND NOT 1) AND 1 = 0" "m \<in> {2, 4, 8, 16, 32, 64} \<Longrightarrow> (ty AND NOT 1) AND m = ty AND m" "ty AND 17 = 0 \<longleftrightarrow> ty AND 1 = 0 \<and> ty AND 16 = 0"
proof -
  have b: "bit (1 :: u32) n \<longleftrightarrow> n = 0" "bit (2 ^ k :: u32) n \<longleftrightarrow> n = k \<and> k < 32" for n k by (simp_all add: bit_1_iff bit_exp_iff, auto)
  show "(ty AND NOT 1) AND 1 = 0" by (rule bit_word_eqI) (auto simp: bit_simps b)
  have "(ty AND NOT 1) AND 2 ^ k = ty AND 2 ^ k" if "0 < k" for k by (rule bit_word_eqI) (use that in \<open>auto simp: bit_and_iff bit_not_iff b\<close>)
  from this [of 1] this [of 2] this [of 3] this [of 4] this [of 5] this [of 6]
  show "m \<in> {2, 4, 8, 16, 32, 64} \<Longrightarrow> (ty AND NOT 1) AND m = ty AND m" by auto
  have "(17 :: u32) = 1 OR 16" by simp
  then have "ty AND 17 = (ty AND 1) OR (ty AND 16)" by (metis bit.conj_disj_distrib)
  then show "ty AND 17 = 0 \<longleftrightarrow> ty AND 1 = 0 \<and> ty AND 16 = 0" by (simp add: or_eq_0_iff)
qed

lemma to_u32_swrap: "to_u32 (swrap i) = to_u32 i"
proof -
  have "to_u32 (swrap i) = to_u32 ((i + 2 ^ 31) mod 2 ^ 32) - to_u32 (2 ^ 31)" by (simp add: swrap_def to_u32_def)
  also have "to_u32 ((i + 2 ^ 31) mod 2 ^ 32) = to_u32 (i + 2 ^ 31)" unfolding to_u32_def by (subst word_of_int_eq_iff) (simp add: take_bit_eq_mod)
  finally show ?thesis by (simp add: to_u32_def)
qed

lemma to_u32_eq_0: "fits_s32 i \<Longrightarrow> to_u32 i = 0 \<longleftrightarrow> i = 0"
  using to_s32_to_u32 [of i] by (auto simp: to_s32_def to_u32_def)

text \<open>The three ways to fill a field, as the loops of \<^verbatim>\<open>number\<close> do it.\<close>

lemma pads_make_field:
  assumes w: "w - int (length head) - int (length body) = n" "fits_s32 (n - 2)"
  shows "(let (before, m) = (if \<not> left \<and> \<not> zero then pad n (CHR '' '') else ([], n));
              (middle, m) = (if \<not> left then pad m (if \<not> left \<and> zero then CHR ''0'' else CHR '' '') else ([], m));
              (after, m) = pad m (CHR '' '')
          in before @ head @ middle @ body @ after) = field left zero w head body"
proof -
  have n: "w - int (length (head @ body)) = n" using w(1) by simp
  have f: "fits_s32 (n - 1)" if "n \<le> 0" using w(2) that by (simp add: fits_s32_def)
  show ?thesis unfolding field_def n using w(2) f
    by (cases left; cases zero; cases "n > 0") (simp_all add: pad_def swrap_def [of "- 2"])
qed

lemma field_bounds:
  assumes "\<bar>w\<bar> \<le> 2 ^ 30 - 64" "0 \<le> p" "p \<le> 2 ^ 30" "0 \<le> a" "a \<le> 1" "0 \<le> b" "b \<le> 2"
  shows "fits_s32 (w - 1)" "fits_s32 (w - a - 2)" "fits_s32 (w - a - 1)" "fits_s32 (w - a - b - p)" "fits_s32 (w - a - b - p - 2)"
  using assms by (simp_all add: fits_s32_def abs_le_iff)

lemma number_is_field_core:
  assumes "2 \<le> base" "base \<le> 36" "fits_s32 num" "\<bar>w\<bar> \<le> 2 ^ 30 - 64" "prec \<le> 2 ^ 30"
  shows "number num base w prec ty = Some (field (ty AND LEFT \<noteq> 0) (ty AND ZEROPAD \<noteq> 0) w (number_sign ty num @ number_prefix ty base)
     (number_text (ty AND SMALL \<noteq> 0) (to_u32 base) prec (to_u32 (if ty AND SIGN \<noteq> 0 \<and> num < 0 then - num else num))))"
proof -
  let ?left = "ty AND LEFT \<noteq> 0" and ?zero = "ty AND ZEROPAD \<noteq> 0" and ?neg = "ty AND SIGN \<noteq> 0 \<and> num < 0" and ?D = "digits_of_case (ty AND SMALL \<noteq> 0)"
  define n where "n = to_u32 (if ?neg then - num else num)"
  define tmp where "tmp = (if n = 0 then ''0'' else map (\<lambda>d. ?D ! d) (number_digits n (to_u32 base)))"
  define i where "i = (if ?neg then swrap (- num) else num)"
  define p where "p = max prec (int (length tmp))"
  have i: "to_u32 i = n" "i = 0 \<longleftrightarrow> n = 0"
  proof -
    show e: "to_u32 i = n" by (simp add: i_def n_def to_u32_swrap)
    have "fits_s32 i" using assms(3) by (simp add: i_def)
    then show "i = 0 \<longleftrightarrow> n = 0" using to_u32_eq_0 [of i] e by simp
  qed
  have b: "1 < to_u32 base"
  proof -
    have "uint (to_u32 base) = base" using assms(1,2) by (simp add: to_u32_def uint_word_of_int)
    then show ?thesis using assms(1) by (simp add: word_less_def)
  qed
  have len: "int (length tmp) \<le> 32" using number_digits_short [OF b, of n] by (simp add: tmp_def)
  have rev: "rev tmp = digit_text (ty AND SMALL \<noteq> 0) (to_u32 base) n" by (simp add: tmp_def digit_text_def rev_map)
  have body: "replicate (nat (p - int (length tmp))) (CHR ''0'') @ rev tmp = number_text (ty AND SMALL \<noteq> 0) (to_u32 base) prec n"
    unfolding number_text_def rev [symmetric] p_def by (simp add: Let_def max_def)
  have pfx: "number_prefix ty base = (if ty AND SPECIAL \<noteq> 0 then if base = 8 then ''0'' else if base = 16 then [CHR ''0'', ?D ! 33] else [] else [])"
    by (simp add: number_prefix_def digits_of_case_def)
  let ?s = "number_sign ty num" and ?x = "number_prefix ty base"
  have sl: "length ?s \<le> 1" "length ?x \<le> 2" by (simp_all add: number_sign_def number_prefix_def)
  define m where "m = w - int (length ?s) - int (length ?x) - p"
  have bl: "int (length (number_text (ty AND SMALL \<noteq> 0) (to_u32 base) prec n)) = p"
    unfolding body [symmetric] by (simp add: p_def)
  have m: "w - int (length (?s @ ?x)) - int (length (number_text (ty AND SMALL \<noteq> 0) (to_u32 base) prec n)) = m" by (simp add: bl m_def)
  have ps: "0 \<le> p" "p \<le> 2 ^ 30" using assms(5) len by (simp_all add: p_def)
  have ls: "int (length ?s) \<le> 1" "int (length ?x) \<le> 2" "0 \<le> int (length ?s)" "0 \<le> int (length ?x)" using sl by simp_all
  have bounds: "fits_s32 (w - 1)" "fits_s32 (w - int (length ?s) - 2)" "fits_s32 (w - int (length ?s) - 1)" "fits_s32 m" "fits_s32 (m - 2)"
    using field_bounds [OF assms(4) ps ls(3,1,4,2)] unfolding m_def by simp_all
  define T where "T = (if ?left then ty AND NOT 1 else ty)"
  have T: "T AND 2 = ty AND 2" "T AND 4 = ty AND 4" "T AND 8 = ty AND 8" "T AND 16 = ty AND 16" "T AND 32 = ty AND 32"
    using clear_zeropad(2) [of 2 ty] clear_zeropad(2) [of 4 ty] clear_zeropad(2) [of 8 ty] clear_zeropad(2) [of 16 ty] clear_zeropad(2) [of 32 ty]
    by (simp_all add: T_def)
  have T1: "(T AND 1 \<noteq> 0) = (\<not> ?left \<and> ?zero)" "(T AND (1 + 16) = 0) = (\<not> ?left \<and> \<not> ?zero)"
    using clear_zeropad(1) [of ty] clear_zeropad(3) [of ty] clear_zeropad(3) [of "ty AND NOT 1"] clear_zeropad(2) [of 16 ty] by (auto simp: T_def)
  have ts: "number_sign T num = ?s" unfolding number_sign_def T ..
  have s1: "(if ?s \<noteq> [] then swrap (w - 1) else w) = w - int (length ?s)"
    using bounds(1) by (auto simp: number_sign_def)
  have s2: "(if ty AND 32 \<noteq> 0 then if base = 16 then swrap (w - int (length ?s) - 2) else if base = 8 then swrap (w - int (length ?s) - 1) else w - int (length ?s)
      else w - int (length ?s)) = w - int (length ?s) - int (length ?x)"
    using bounds(2,3) by (simp add: number_prefix_def)
  have s3: "swrap (w - int (length ?s) - int (length ?x) - p) = m" using bounds(4) by (simp add: m_def)
  have pm: "(if int (length tmp) > prec then int (length tmp) else prec) = p" by (simp add: p_def)
  have t: "(if i = 0 then ''0'' else map (\<lambda>d. ?D ! d) (number_digits (to_u32 i) (to_u32 base))) = tmp" unfolding tmp_def i ..
  have nb: "\<not> (base < 2 \<or> base > 36)" using assms(1,2) by simp
  have "number num base w prec ty = Some (let (before, m) = (if \<not> ?left \<and> \<not> ?zero then pad m (CHR '' '') else ([], m));
              (middle, m) = (if \<not> ?left then pad m (if \<not> ?left \<and> ?zero then CHR ''0'' else CHR '' '') else ([], m));
              (after, m) = pad m (CHR '' '')
          in before @ (?s @ ?x) @ middle @ number_text (ty AND SMALL \<noteq> 0) (to_u32 base) prec n @ after)"
    unfolding number_def Let_def T_def [symmetric] T T1 if_not_P [OF nb] number_sign_def [symmetric] ts i_def [symmetric] s1 s2 t pm s3 pfx [symmetric] body [symmetric]
    by (simp add: case_prod_beta)
  then show ?thesis unfolding n_def [symmetric] pads_make_field [OF m bounds(5)] .
qed

text \<open>\<^verbatim>\<open>number\<close> prints the number in its base with at least \<^verbatim>\<open>precision\<close> digits, after the sign and the prefix the flags ask for, in a field
  of at least the width: filled with blanks at the right when \<^verbatim>\<open>LEFT\<close> is set, with zeros before the digits when \<^verbatim>\<open>ZEROPAD\<close> is, and with
  blanks at the left otherwise.\<close>

theorem number_is_field:
  assumes "2 \<le> base" "base \<le> 36" "fits_s32 num" "\<bar>w\<bar> \<le> 2 ^ 30 - 64" "prec \<le> 2 ^ 30"
  shows "number num base w prec ty = Some (field (ty AND LEFT \<noteq> 0) (ty AND ZEROPAD \<noteq> 0) w (number_sign ty num @ number_prefix ty base)
     (number_text (ty AND SMALL \<noteq> 0) (to_u32 base) prec (to_u32 (if ty AND SIGN \<noteq> 0 \<and> num < 0 then - num else num))))"
  using assms by (rule number_is_field_core)

section \<open>Printing and reading back\<close>










theorem number_is_field_witness:
  "number (- 42) 10 6 4 2 = Some (field False False 6 ''-'' (number_text False 10 4 42))"
  using number_is_field [of 10 "- 42" 6 4 2] by (simp add: fits_s32_def number_sign_def number_prefix_def to_u32_def)

text \<open>A \<^verbatim>\<open>*\<close> for the width takes its argument from the list but is not skipped in the format, so it is itself taken for the
  conversion: the directive is printed instead of the number, and the number is never converted.\<close>

theorem star_width_not_skipped:
  "vsprintf ks ''%*d'' (w # args) = Some (3, ''%*d'', [])"
proof -
  have "directive ks 0 ''*d'' (w # args) = Some (''%*'', [], ''d'', args)"
    by (simp add: directive_def parse_width_def parse_precision_def skip_qualifier_def is_digit_def convert_def)
  then show ?thesis by (simp add: vsprintf_def)
qed

end
