(* ===== verification/Pipe.thy ===== *)
theory Pipe
  imports Sched User_Bytes
begin

text \<open>
  Pipes and FIFOs: \<^verbatim>\<open>fs/pipe.c\<close>, \<^verbatim>\<open>fs/fifo.c\<close> and the macros of \<^verbatim>\<open>include/linux/pipe_fs_i.h\<close>.  The buffer is a page used as a ring:
  the bytes are the \<^verbatim>\<open>len\<close> ones from \<^verbatim>\<open>start\<close> on, modulo \<^verbatim>\<open>PIPE_BUF\<close>.  The unsigned fields are integers with the wrap-around
  written out.  A function that sleeps is cut at the call of \<^verbatim>\<open>interruptible_sleep_on\<close>; an access through a \<^verbatim>\<open>NULL\<close> base or
  outside the page is \<^verbatim>\<open>None\<close>.

  The lemmas show that the transfer loops move the bytes of a queue, in order and without loss, although they copy in
  chunks that stop at the end of the page.
\<close>

abbreviation (input) PIPE_BUF :: int where "PIPE_BUF \<equiv> 4096"

definition uwrap :: "int \<Rightarrow> int" where
  "uwrap i = i mod 4294967296"

record pipe_inode_info =
  p_base :: "u8 list option"
  p_start :: int
  p_len :: int
  p_lock :: int
  p_rd_openers :: int
  p_wr_openers :: int
  p_readers :: int
  p_writers :: int

definition PIPE_FREE :: "pipe_inode_info \<Rightarrow> int" where
  "PIPE_FREE p = uwrap (PIPE_BUF - p_len p)"

definition PIPE_END :: "pipe_inode_info \<Rightarrow> int" where
  "PIPE_END p = uwrap (p_start p + p_len p) AND (PIPE_BUF - 1)"

definition PIPE_MAX_RCHUNK :: "pipe_inode_info \<Rightarrow> int" where
  "PIPE_MAX_RCHUNK p = uwrap (PIPE_BUF - p_start p)"

definition PIPE_MAX_WCHUNK :: "pipe_inode_info \<Rightarrow> int" where
  "PIPE_MAX_WCHUNK p = uwrap (PIPE_BUF - PIPE_END p)"

definition pipe_load :: "pipe_inode_info \<Rightarrow> int \<Rightarrow> int \<Rightarrow> u8 list option" where
  "pipe_load p off n =
     (case p_base p of
        None \<Rightarrow> None
      | Some b \<Rightarrow> if 0 \<le> off \<and> 0 \<le> n \<and> off + n \<le> int (length b) then Some (take (nat n) (drop (nat off) b)) else None)"

definition pipe_store :: "int \<Rightarrow> int \<Rightarrow> u8 list \<Rightarrow> pipe_inode_info \<Rightarrow> pipe_inode_info option" where
  "pipe_store off n bs p =
     (case p_base p of
        None \<Rightarrow> None
      | Some b \<Rightarrow> if 0 \<le> off \<and> 0 \<le> n \<and> off + n \<le> int (length b)
                  then Some (p\<lparr>p_base := Some (take (nat off) b @ bs @ drop (nat off + nat n) b)\<rparr>) else None)"

section \<open>Reading and writing\<close>

definition read_chars :: "int \<Rightarrow> pipe_inode_info \<Rightarrow> int" where
  "read_chars count p =
    (let chars = swrap (PIPE_MAX_RCHUNK p);
         chars = (if chars > count then count else chars);
         size = swrap (p_len p)
     in if chars > size then size else chars)"

partial_function (option) read_loop :: "int \<Rightarrow> u32 \<Rightarrow> int \<Rightarrow> pipe_inode_info \<Rightarrow> umem \<Rightarrow> (int \<times> pipe_inode_info \<times> umem) option" where
  "read_loop count buf rd p m =
     (if count > 0 \<and> p_len p \<noteq> 0
      then let chars = read_chars count p
           in Option.bind (pipe_load p (p_start p) chars) (\<lambda>bs.
                read_loop (count - chars) (buf + word_of_int chars) (rd + chars)
                  (p\<lparr>p_start := uwrap (p_start p + chars) AND (PIPE_BUF - 1), p_len := uwrap (p_len p - chars)\<rparr>)
                  (put_bytes bs buf m))
      else Some (rd, p, m))"

record pipe_state =
  pk :: kernel
  pin :: pipe_inode_info

text \<open>The wait queue of a pipe is the argument \<^verbatim>\<open>q\<close>, the wait-queue entry on the stack of a sleeper the argument \<^verbatim>\<open>w\<close>.\<close>

datatype pipe_result = P_Ret int | P_Sleep

definition pipe_wake :: "wqhead \<Rightarrow> pipe_state \<Rightarrow> pipe_state option" where
  "pipe_wake q st = do { s \<leftarrow> wake_up_interruptible q (pk st); Some (st\<lparr>pk := s\<rparr>) }"

definition pipe_sleep :: "wqhead \<Rightarrow> waddr \<Rightarrow> pipe_state \<Rightarrow> pipe_state option" where
  "pipe_sleep q w st = do { s \<leftarrow> sleep_on_enter q w TASK_INTERRUPTIBLE (pk st); Some (st\<lparr>pk := s\<rparr>) }"

definition pipe_mem :: "umem \<Rightarrow> pipe_state \<Rightarrow> pipe_state" where
  "pipe_mem m st = st\<lparr>pk := (pk st)\<lparr>fsmem := m\<rparr>\<rparr>"

text \<open>From \<^verbatim>\<open>PIPE_LOCK(*inode)++\<close> to the end of \<^verbatim>\<open>pipe_read\<close>.\<close>

definition pipe_take :: "wqhead \<Rightarrow> u32 \<Rightarrow> int \<Rightarrow> pipe_state \<Rightarrow> (pipe_result \<times> pipe_state) option" where
  "pipe_take q buf count st =
     do { let p = (pin st)\<lparr>p_lock := uwrap (p_lock (pin st) + 1)\<rparr>;
          (rd, p, m) \<leftarrow> read_loop count buf 0 p (fsmem (pk st));
          let p = p\<lparr>p_lock := uwrap (p_lock p - 1)\<rparr>;
          st \<leftarrow> pipe_wake q (pipe_mem m (st\<lparr>pin := p\<rparr>));
          Some (P_Ret (if rd \<noteq> 0 then rd else if p_writers p \<noteq> 0 then - EAGAIN else 0), st) }"

definition pipe_read :: "wqhead \<Rightarrow> bool \<Rightarrow> u32 \<Rightarrow> int \<Rightarrow> waddr \<Rightarrow> pipe_state \<Rightarrow> (pipe_result \<times> pipe_state) option" where
  "pipe_read q nonblock buf count w st =
    (let p = pin st
     in if nonblock
        then if p_lock p \<noteq> 0 then Some (P_Ret (- EAGAIN), st)
             else if p_len p = 0 then Some (P_Ret (if p_writers p \<noteq> 0 then - EAGAIN else 0), st)
             else pipe_take q buf count st
        else if p_len p = 0 \<or> p_lock p \<noteq> 0
        then if p_len p = 0 \<and> p_writers p = 0 then Some (P_Ret 0, st)
             else if signal_pending (cur (pk st)) then Some (P_Ret (- ERESTARTSYS), st)
             else do { st \<leftarrow> pipe_sleep q w st; Some (P_Sleep, st) }
        else pipe_take q buf count st)"

text \<open>After the sleep: off the queue and back to the test.\<close>

definition pipe_read_resume :: "wqhead \<Rightarrow> u32 \<Rightarrow> int \<Rightarrow> waddr \<Rightarrow> pipe_state \<Rightarrow> (pipe_result \<times> pipe_state) option" where
  "pipe_read_resume q buf count w st =
     do { s \<leftarrow> sleep_on_resume q w (pk st); pipe_read q False buf count w (st\<lparr>pk := s\<rparr>) }"

definition write_chars :: "int \<Rightarrow> pipe_inode_info \<Rightarrow> int" where
  "write_chars count p =
    (let chars = swrap (PIPE_MAX_WCHUNK p);
         chars = (if chars > count then count else chars);
         free = swrap (PIPE_FREE p)
     in if chars > free then free else chars)"

partial_function (option) write_loop :: "int \<Rightarrow> u32 \<Rightarrow> int \<Rightarrow> umem \<Rightarrow> pipe_inode_info \<Rightarrow> (int \<times> u32 \<times> int \<times> pipe_inode_info) option" where
  "write_loop count buf written m p =
     (if count > 0 \<and> PIPE_FREE p \<noteq> 0
      then let chars = write_chars count p
           in Option.bind (pipe_store (PIPE_END p) chars (user_bytes m buf (nat chars)) p) (\<lambda>p'.
                write_loop (count - chars) (buf + word_of_int chars) (written + chars) m
                  (p'\<lparr>p_len := uwrap (p_len p' + chars)\<rparr>))
      else Some (count, buf, written, p))"

text \<open>The locals of \<^verbatim>\<open>pipe_write\<close> at the top of its outer loop.\<close>

record write_locals =
  w_count :: int
  w_buf :: u32
  w_free :: int
  w_written :: int

datatype write_result = W_Ret int | W_Sleep write_locals

definition written_or :: "int \<Rightarrow> int \<Rightarrow> int" where
  "written_or written err = (if written \<noteq> 0 then written else err)"

partial_function (option) write_outer :: "wqhead \<Rightarrow> bool \<Rightarrow> waddr \<Rightarrow> write_locals \<Rightarrow> pipe_state \<Rightarrow> (write_result \<times> pipe_state) option" where
  "write_outer q nonblock w lc st =
    (if \<not> w_count lc > 0 then Some (W_Ret (w_written lc), st)
     else if PIPE_FREE (pin st) < uwrap (w_free lc) \<or> p_lock (pin st) \<noteq> 0
     then if p_readers (pin st) = 0
          then Some (W_Ret (written_or (w_written lc) (- EPIPE)),
                     st\<lparr>pk := snd (send_sig SIGPIPE (Some (current (pk st))) False (pk st))\<rparr>)
          else if signal_pending (cur (pk st)) then Some (W_Ret (written_or (w_written lc) (- ERESTARTSYS)), st)
          else if nonblock then Some (W_Ret (written_or (w_written lc) (- EAGAIN)), st)
          else Option.bind (pipe_sleep q w st) (\<lambda>st. Some (W_Sleep lc, st))
     else let p = (pin st)\<lparr>p_lock := uwrap (p_lock (pin st) + 1)\<rparr>
          in Option.bind (write_loop (w_count lc) (w_buf lc) (w_written lc) (fsmem (pk st)) p) (\<lambda>(count, buf, written, p).
               Option.bind (pipe_wake q (st\<lparr>pin := p\<lparr>p_lock := uwrap (p_lock p - 1)\<rparr>\<rparr>)) (\<lambda>st.
                 write_outer q nonblock w \<lparr>w_count = count, w_buf = buf, w_free = 1, w_written = written\<rparr> st)))"

definition pipe_write :: "wqhead \<Rightarrow> bool \<Rightarrow> u32 \<Rightarrow> int \<Rightarrow> waddr \<Rightarrow> pipe_state \<Rightarrow> (write_result \<times> pipe_state) option" where
  "pipe_write q nonblock buf count w st =
     (if p_readers (pin st) = 0
      then Some (W_Ret (- EPIPE), st\<lparr>pk := snd (send_sig SIGPIPE (Some (current (pk st))) False (pk st))\<rparr>)
      else write_outer q nonblock w
             \<lparr>w_count = count, w_buf = buf, w_free = (if count \<le> PIPE_BUF then count else 1), w_written = 0\<rparr> st)"

definition pipe_write_resume :: "wqhead \<Rightarrow> waddr \<Rightarrow> write_locals \<Rightarrow> pipe_state \<Rightarrow> (write_result \<times> pipe_state) option" where
  "pipe_write_resume q w lc st =
     do { s \<leftarrow> sleep_on_resume q w (pk st); write_outer q False w lc (st\<lparr>pk := s\<rparr>) }"

section \<open>The other file operations\<close>

abbreviation (input) ENXIO :: int where "ENXIO \<equiv> 6"
abbreviation (input) ENOTDIR :: int where "ENOTDIR \<equiv> 20"
abbreviation (input) ENFILE :: int where "ENFILE \<equiv> 23"
abbreviation (input) EMFILE :: int where "EMFILE \<equiv> 24"
abbreviation (input) FIONREAD :: u32 where "FIONREAD \<equiv> 0x541B"
abbreviation (input) O_NONBLOCK :: u16 where "O_NONBLOCK \<equiv> 2048"

text \<open>The operations a file may have: the names of the tables of functions.\<close>

datatype fops = connecting_fifo_fops | read_fifo_fops | write_fifo_fops | rdwr_fifo_fops
  | read_pipe_fops | write_pipe_fops | rdwr_pipe_fops

record pipe_file =
  f_mode :: int
  f_flags :: u16
  f_op :: "fops option"

definition nonblocking :: "pipe_file \<Rightarrow> bool" where
  "nonblocking f \<longleftrightarrow> f_flags f AND O_NONBLOCK \<noteq> 0"

definition pipe_lseek :: int where "pipe_lseek = - ESPIPE"
definition pipe_readdir :: int where "pipe_readdir = - ENOTDIR"
definition bad_pipe_rw :: int where "bad_pipe_rw = - EBADF"

definition pipe_ioctl :: "u32 \<Rightarrow> u32 \<Rightarrow> pipe_state \<Rightarrow> int \<times> pipe_state" where
  "pipe_ioctl cmd arg st =
     (if cmd = FIONREAD
      then let error = verify_area VERIFY_WRITE arg 4
           in (error, if error = 0 then pipe_mem (put_fs_long (to_u32 (p_len (pin st))) arg (fsmem (pk st))) st else st)
      else (- EINVAL, st))"

text \<open>\<^verbatim>\<open>select_wait\<close>: the table has room for 341 entries, the page divided by the 12 bytes of an entry; the address of
  entry \<^verbatim>\<open>n\<close> is \<^verbatim>\<open>sel_entry tab n\<close>.\<close>

record select_table =
  sel_nr :: nat
  sel_entry :: "nat \<Rightarrow> waddr"
  sel_address :: "nat \<Rightarrow> wqhead option"

definition select_wait :: "wqhead \<Rightarrow> select_table option \<Rightarrow> kernel \<Rightarrow> select_table option \<times> kernel" where
  "select_wait q tab s =
     (case tab of
        None \<Rightarrow> (None, s)
      | Some t \<Rightarrow>
          if sel_nr t \<ge> 341 then (Some t, s)
          else let e = sel_entry t (sel_nr t);
                   s = s\<lparr>wqe := (wqe s)(e := \<lparr>wq_task = Some (current s), wq_next = None\<rparr>)\<rparr>
               in (Some (t\<lparr>sel_address := (sel_address t)(sel_nr t := Some q), sel_nr := Suc (sel_nr t)\<rparr>), add_wait_queue q e s))"

datatype sel_type = SEL_IN | SEL_OUT | SEL_EX

text \<open>The three select functions differ in whether \<^verbatim>\<open>SEL_IN\<close> is ready when there is no writer (pipes) and whether \<^verbatim>\<open>SEL_OUT\<close>
  is ready when there is no reader (all but a connecting FIFO).  The queue \<^verbatim>\<open>iw\<close> is \<^verbatim>\<open>inode->i_wait\<close>.\<close>

definition sel_ready :: "bool \<Rightarrow> bool \<Rightarrow> pipe_inode_info \<Rightarrow> sel_type \<Rightarrow> bool" where
  "sel_ready eof broken p t =
     (case t of
        SEL_IN \<Rightarrow> p_len p \<noteq> 0 \<or> eof \<and> p_writers p = 0
      | SEL_OUT \<Rightarrow> p_len p \<noteq> PIPE_BUF \<or> broken \<and> p_readers p = 0
      | SEL_EX \<Rightarrow> p_readers p = 0 \<or> p_writers p = 0)"

definition sel_result :: "wqhead \<Rightarrow> wqhead \<Rightarrow> bool \<Rightarrow> sel_type \<Rightarrow> select_table option \<Rightarrow> pipe_state \<Rightarrow> int \<times> select_table option \<times> pipe_state" where
  "sel_result q iw ready t tab st =
     (if ready then (1, tab, st)
      else let (tab, s) = select_wait (if t = SEL_EX then iw else q) tab (pk st) in (0, tab, st\<lparr>pk := s\<rparr>))"

definition pipe_select :: "wqhead \<Rightarrow> wqhead \<Rightarrow> sel_type \<Rightarrow> select_table option \<Rightarrow> pipe_state \<Rightarrow> int \<times> select_table option \<times> pipe_state" where
  "pipe_select q iw t tab st = sel_result q iw (sel_ready True True (pin st) t) t tab st"

definition fifo_select :: "wqhead \<Rightarrow> wqhead \<Rightarrow> sel_type \<Rightarrow> select_table option \<Rightarrow> pipe_state \<Rightarrow> int \<times> select_table option \<times> pipe_state" where
  "fifo_select q iw t tab st = sel_result q iw (sel_ready False True (pin st) t) t tab st"

definition connect_select :: "wqhead \<Rightarrow> wqhead \<Rightarrow> sel_type \<Rightarrow> select_table option \<Rightarrow> pipe_file \<Rightarrow> pipe_state \<Rightarrow>
    (int \<times> select_table option \<times> pipe_state) \<times> pipe_file" where
  "connect_select q iw t tab f st =
    (let ready = sel_ready False False (pin st) t
     in (sel_result q iw ready t tab st, if t = SEL_IN \<and> ready then f\<lparr>f_op := Some read_fifo_fops\<rparr> else f))"

text \<open>\<^verbatim>\<open>connect_read\<close>: one pass of the loop; a sleep is continued by \<^verbatim>\<open>connect_read_resume\<close> when it was in this loop (the file
  still has the connecting operations) and by \<^verbatim>\<open>pipe_read_resume\<close> otherwise.\<close>

definition connect_read :: "wqhead \<Rightarrow> pipe_file \<Rightarrow> u32 \<Rightarrow> int \<Rightarrow> waddr \<Rightarrow> pipe_state \<Rightarrow> (pipe_result \<times> pipe_file \<times> pipe_state) option" where
  "connect_read q f buf count w st =
     (if p_len (pin st) = 0 \<and> p_writers (pin st) = 0
      then if nonblocking f then Some (P_Ret (- EAGAIN), f, st)
           else do { st \<leftarrow> pipe_wake q st;
                     if signal_pending (cur (pk st)) then Some (P_Ret (- ERESTARTSYS), f, st)
                     else do { st \<leftarrow> pipe_sleep q w st; Some (P_Sleep, f, st) } }
      else do { (r, st) \<leftarrow> pipe_read q (nonblocking f) buf count w st; Some (r, f\<lparr>f_op := Some read_fifo_fops\<rparr>, st) })"

definition connect_read_resume :: "wqhead \<Rightarrow> pipe_file \<Rightarrow> u32 \<Rightarrow> int \<Rightarrow> waddr \<Rightarrow> pipe_state \<Rightarrow> (pipe_result \<times> pipe_file \<times> pipe_state) option" where
  "connect_read_resume q f buf count w st =
     do { s \<leftarrow> sleep_on_resume q w (pk st); connect_read q f buf count w (st\<lparr>pk := s\<rparr>) }"

definition add_readers :: "int \<Rightarrow> pipe_state \<Rightarrow> pipe_state" where
  "add_readers d st = st\<lparr>pin := (pin st)\<lparr>p_readers := uwrap (p_readers (pin st) + d)\<rparr>\<rparr>"

definition add_writers :: "int \<Rightarrow> pipe_state \<Rightarrow> pipe_state" where
  "add_writers d st = st\<lparr>pin := (pin st)\<lparr>p_writers := uwrap (p_writers (pin st) + d)\<rparr>\<rparr>"

definition pipe_read_release :: "wqhead \<Rightarrow> pipe_state \<Rightarrow> pipe_state option" where
  "pipe_read_release q st = pipe_wake q (add_readers (-1) st)"

definition pipe_write_release :: "wqhead \<Rightarrow> pipe_state \<Rightarrow> pipe_state option" where
  "pipe_write_release q st = pipe_wake q (add_writers (-1) st)"

definition pipe_rdwr_release :: "wqhead \<Rightarrow> pipe_state \<Rightarrow> pipe_state option" where
  "pipe_rdwr_release q st = pipe_wake q (add_writers (-1) (add_readers (-1) st))"

section \<open>Opening a FIFO\<close>

definition init_fifo :: "wqhead \<Rightarrow> pipe_state \<Rightarrow> pipe_state" where
  "init_fifo q st =
     st\<lparr>pin := \<lparr>p_base = None, p_start = 0, p_len = 0, p_lock = 0, p_rd_openers = 0, p_wr_openers = 0, p_readers = 0, p_writers = 0\<rparr>,
        pk := set_wq_head q None (pk st)\<rparr>"

text \<open>\<^verbatim>\<open>fifo_open\<close> sleeps in four kinds of loops.  \<^verbatim>\<open>Open_Sleep\<close> says in which one, with the value of \<^verbatim>\<open>retval\<close>; \<^verbatim>\<open>Open_Alloc\<close> is the
  call of \<^verbatim>\<open>__get_free_page\<close>, which may sleep too and is continued by \<^verbatim>\<open>fifo_install\<close>.\<close>

datatype open_loop = Rd_Wait_Writers | Rd_Wait_Openers int | Wr_Wait_Readers | Wr_Wait_Openers int | Rw_Wait_Wr | Rw_Wait_Rd

datatype open_result = Open_Ret int | Open_Alloc | Open_Sleep open_loop

type_synonym open_state = "open_result \<times> pipe_file \<times> pipe_state"

definition wake_when :: "bool \<Rightarrow> wqhead \<Rightarrow> pipe_state \<Rightarrow> pipe_state option" where
  "wake_when b q st = (if b then pipe_wake q st else Some st)"

definition fifo_end :: "int \<Rightarrow> pipe_file \<Rightarrow> pipe_state \<Rightarrow> open_state option" where
  "fifo_end retval f st =
     Some (if retval \<noteq> 0 \<or> p_base (pin st) \<noteq> None then Open_Ret retval else Open_Alloc, f, st)"

definition fifo_sleep :: "wqhead \<Rightarrow> waddr \<Rightarrow> open_loop \<Rightarrow> pipe_file \<Rightarrow> pipe_state \<Rightarrow> open_state option" where
  "fifo_sleep q w l f st = do { st \<leftarrow> pipe_sleep q w st; Some (Open_Sleep l, f, st) }"

definition rd_openers :: "wqhead \<Rightarrow> waddr \<Rightarrow> int \<Rightarrow> pipe_file \<Rightarrow> pipe_state \<Rightarrow> open_state option" where
  "rd_openers q w retval f st =
     (if p_wr_openers (pin st) \<noteq> 0 then fifo_sleep q w (Rd_Wait_Openers retval) f st
      else let f = (if p_writers (pin st) \<noteq> 0 then f\<lparr>f_op := Some read_fifo_fops\<rparr> else f)
           in if retval \<noteq> 0
              then let st = add_readers (-1) st
                   in do { st \<leftarrow> wake_when (p_readers (pin st) = 0) q st; fifo_end retval f st }
              else fifo_end retval f st)"

definition rd_writers :: "wqhead \<Rightarrow> waddr \<Rightarrow> pipe_file \<Rightarrow> pipe_state \<Rightarrow> open_state option" where
  "rd_writers q w f st =
     (if p_writers (pin st) = 0 \<and> \<not> signal_pending (cur (pk st)) then fifo_sleep q w Rd_Wait_Writers f st
      else let retval = (if p_writers (pin st) = 0 then - ERESTARTSYS else 0);
               st = st\<lparr>pin := (pin st)\<lparr>p_rd_openers := uwrap (p_rd_openers (pin st) - 1)\<rparr>\<rparr>
           in do { st \<leftarrow> wake_when (p_rd_openers (pin st) = 0) q st; rd_openers q w retval f st })"

definition wr_openers :: "wqhead \<Rightarrow> waddr \<Rightarrow> int \<Rightarrow> pipe_file \<Rightarrow> pipe_state \<Rightarrow> open_state option" where
  "wr_openers q w retval f st =
     (if p_rd_openers (pin st) \<noteq> 0 then fifo_sleep q w (Wr_Wait_Openers retval) f st
      else if retval \<noteq> 0
      then let st = add_writers (-1) st
           in do { st \<leftarrow> wake_when (p_writers (pin st) = 0) q st; fifo_end retval f st }
      else fifo_end retval f st)"

definition wr_readers :: "wqhead \<Rightarrow> waddr \<Rightarrow> pipe_file \<Rightarrow> pipe_state \<Rightarrow> open_state option" where
  "wr_readers q w f st =
     (if p_readers (pin st) = 0 \<and> \<not> signal_pending (cur (pk st)) then fifo_sleep q w Wr_Wait_Readers f st
      else let retval = (if p_readers (pin st) = 0 then - ERESTARTSYS else 0);
               st = st\<lparr>pin := (pin st)\<lparr>p_wr_openers := uwrap (p_wr_openers (pin st) - 1)\<rparr>\<rparr>
           in do { st \<leftarrow> wake_when (p_wr_openers (pin st) = 0) q st; wr_openers q w retval f st })"

definition rw_rd :: "wqhead \<Rightarrow> waddr \<Rightarrow> pipe_file \<Rightarrow> pipe_state \<Rightarrow> open_state option" where
  "rw_rd q w f st = (if p_rd_openers (pin st) \<noteq> 0 then fifo_sleep q w Rw_Wait_Rd f st else fifo_end 0 f st)"

definition rw_wr :: "wqhead \<Rightarrow> waddr \<Rightarrow> pipe_file \<Rightarrow> pipe_state \<Rightarrow> open_state option" where
  "rw_wr q w f st =
     (if p_wr_openers (pin st) \<noteq> 0 then fifo_sleep q w Rw_Wait_Wr f st
      else do { st \<leftarrow> wake_when (p_writers (pin st) = 0) q (add_writers 1 st); rw_rd q w f st })"

definition fifo_open :: "wqhead \<Rightarrow> waddr \<Rightarrow> pipe_file \<Rightarrow> pipe_state \<Rightarrow> open_state option" where
  "fifo_open q w f st =
     (if f_mode f = 1
      then do { let f = f\<lparr>f_op := Some connecting_fifo_fops\<rparr>;
                let first = (p_readers (pin st) = 0);
                st \<leftarrow> wake_when first q (add_readers 1 st);
                if \<not> nonblocking f \<and> p_writers (pin st) = 0
                then rd_writers q w f (st\<lparr>pin := (pin st)\<lparr>p_rd_openers := uwrap (p_rd_openers (pin st) + 1)\<rparr>\<rparr>)
                else rd_openers q w 0 f st }
      else if f_mode f = 2
      then if nonblocking f \<and> p_readers (pin st) = 0 then fifo_end (- ENXIO) f st
           else do { let f = f\<lparr>f_op := Some write_fifo_fops\<rparr>;
                     let first = (p_writers (pin st) = 0);
                     st \<leftarrow> wake_when first q (add_writers 1 st);
                     if p_readers (pin st) = 0
                     then wr_readers q w f (st\<lparr>pin := (pin st)\<lparr>p_wr_openers := uwrap (p_wr_openers (pin st) + 1)\<rparr>\<rparr>)
                     else wr_openers q w 0 f st }
      else if f_mode f = 3
      then do { st \<leftarrow> wake_when (p_readers (pin st) = 0) q (add_readers 1 st);
                rw_wr q w (f\<lparr>f_op := Some rdwr_fifo_fops\<rparr>) st }
      else fifo_end (- EINVAL) f st)"

definition fifo_resume :: "wqhead \<Rightarrow> waddr \<Rightarrow> open_loop \<Rightarrow> pipe_file \<Rightarrow> pipe_state \<Rightarrow> open_state option" where
  "fifo_resume q w l f st =
     do { s \<leftarrow> sleep_on_resume q w (pk st);
          let st = st\<lparr>pk := s\<rparr>;
          case l of
            Rd_Wait_Writers \<Rightarrow> rd_writers q w f st
          | Rd_Wait_Openers retval \<Rightarrow> rd_openers q w retval f st
          | Wr_Wait_Readers \<Rightarrow> wr_readers q w f st
          | Wr_Wait_Openers retval \<Rightarrow> wr_openers q w retval f st
          | Rw_Wait_Wr \<Rightarrow> rw_wr q w f st
          | Rw_Wait_Rd \<Rightarrow> rw_rd q w f st }"

definition fifo_install :: "u8 list option \<Rightarrow> pipe_state \<Rightarrow> int \<times> pipe_state" where
  "fifo_install page st =
     (if p_base (pin st) \<noteq> None then (0, st)
      else case page of
             None \<Rightarrow> (- ENOMEM, st)
           | Some b \<Rightarrow> (0, st\<lparr>pin := (pin st)\<lparr>p_lock := 0, p_start := 0, p_len := 0, p_base := Some b\<rparr>\<rparr>))"

section \<open>sys_pipe\<close>

type_synonym faddr = nat

record open_file = pipe_file +
  f_count :: u16
  f_pos :: int
  f_inode :: "nat option"

record fd_state =
  fk :: kernel
  filp :: "nat \<Rightarrow> faddr option"
  fil :: "faddr \<Rightarrow> open_file"

abbreviation (input) NR_OPEN :: nat where "NR_OPEN \<equiv> 256"

definition put_filp :: "faddr \<Rightarrow> fd_state \<Rightarrow> fd_state" where
  "put_filp a st = st\<lparr>fil := (fil st)(a := (fil st a)\<lparr>f_count := f_count (fil st a) - 1\<rparr>)\<rparr>"

text \<open>The first two free descriptors.  The loop fills in \<^verbatim>\<open>filp\<close> as it goes, with increasing indices, and takes the first entry
  back when there is no second one.\<close>

definition free_fds :: "fd_state \<Rightarrow> nat list" where
  "free_fds st = take 2 (filter (\<lambda>i. filp st i = None) [0..<NR_OPEN])"

definition pipe_end_file :: "nat \<Rightarrow> u16 \<Rightarrow> fops \<Rightarrow> int \<Rightarrow> open_file \<Rightarrow> open_file" where
  "pipe_end_file ino fl ops mode f = f\<lparr>f_inode := Some ino, f_pos := 0, f_flags := fl, f_op := Some ops, f_mode := mode\<rparr>"

text \<open>The results of \<^verbatim>\<open>get_empty_filp\<close> and \<^verbatim>\<open>get_pipe_inode\<close> are arguments; the second file is only asked for when there is
  a first one.\<close>

definition sys_pipe :: "faddr option \<Rightarrow> faddr option \<Rightarrow> nat option \<Rightarrow> u32 \<Rightarrow> fd_state \<Rightarrow> int \<times> fd_state" where
  "sys_pipe f0 f1 inode fildes st =
    (let j = verify_area VERIFY_WRITE fildes 8
     in if j \<noteq> 0 then (j, st)
        else case f0 of
          None \<Rightarrow> (- ENFILE, st)
        | Some a \<Rightarrow> (case f1 of
            None \<Rightarrow> (- ENFILE, put_filp a st)
          | Some b \<Rightarrow> (case free_fds st of
              [i, j] \<Rightarrow> (case inode of
                None \<Rightarrow> (- ENFILE, put_filp b (put_filp a st))
              | Some n \<Rightarrow>
                  (0, st\<lparr>filp := (filp st)(i := Some a, j := Some b),
                         fil := (fil st)(a := pipe_end_file n 0 read_pipe_fops 1 (fil st a),
                                         b := pipe_end_file n 1 write_pipe_fops 2 (fil st b)),
                         fk := (fk st)\<lparr>fsmem := put_fs_long (of_nat j) (fildes + 4)
                                              (put_fs_long (of_nat i) fildes (fsmem (fk st)))\<rparr>\<rparr>))
            | _ \<Rightarrow> (- EMFILE, put_filp b (put_filp a st)))))"

section \<open>The ring as a queue of bytes\<close>

definition pipe_ok :: "pipe_inode_info \<Rightarrow> bool" where
  "pipe_ok p \<longleftrightarrow> (\<exists>b. p_base p = Some b \<and> length b = 4096) \<and> 0 \<le> p_start p \<and> p_start p < PIPE_BUF
     \<and> 0 \<le> p_len p \<and> p_len p \<le> PIPE_BUF"

definition pipe_bytes :: "pipe_inode_info \<Rightarrow> u8 list" where
  "pipe_bytes p = (case p_base p of None \<Rightarrow> [] | Some b \<Rightarrow> take (nat (p_len p)) (rotate (nat (p_start p)) b))"

lemma pipe_bytes_length: "pipe_ok p \<Longrightarrow> int (length (pipe_bytes p)) = p_len p"
  by (auto simp: pipe_ok_def pipe_bytes_def)

lemma uwrap_id [simp]: "0 \<le> i \<Longrightarrow> i < 4294967296 \<Longrightarrow> uwrap i = i"
  by (simp add: uwrap_def)

lemma and_4095: "0 \<le> i \<Longrightarrow> i AND 4095 = i mod 4096" for i :: int
  using take_bit_eq_mask [of 12 i] by (simp add: take_bit_eq_mod mask_eq_exp_minus_1)

lemma pipe_ok_macros:
  assumes "pipe_ok p"
  shows "PIPE_FREE p = PIPE_BUF - p_len p" "PIPE_MAX_RCHUNK p = PIPE_BUF - p_start p"
    "PIPE_END p = (p_start p + p_len p) mod PIPE_BUF" "PIPE_MAX_WCHUNK p = PIPE_BUF - PIPE_END p"
proof -
  have b: "0 \<le> p_start p" "p_start p < 4096" "0 \<le> p_len p" "p_len p \<le> 4096" using assms by (auto simp: pipe_ok_def)
  then show "PIPE_FREE p = PIPE_BUF - p_len p" "PIPE_MAX_RCHUNK p = PIPE_BUF - p_start p"
    by (simp_all add: PIPE_FREE_def PIPE_MAX_RCHUNK_def)
  show e: "PIPE_END p = (p_start p + p_len p) mod PIPE_BUF" using b by (simp add: PIPE_END_def and_4095)
  show "PIPE_MAX_WCHUNK p = PIPE_BUF - PIPE_END p"
    unfolding PIPE_MAX_WCHUNK_def e using pos_mod_bound [of 4096 "p_start p + p_len p"] pos_mod_sign [of 4096 "p_start p + p_len p"] by simp
qed

lemma read_chars_eq:
  assumes "pipe_ok p" "0 < count"
  shows "read_chars count p = min (min (PIPE_BUF - p_start p) count) (p_len p)"
  using assms pipe_ok_macros(2) [OF assms(1)]
  by (auto simp: read_chars_def pipe_ok_def Let_def fits_s32_def min_def)

lemma rotate_take_drop:
  assumes "s \<le> length b" "c \<le> length b - s" "c \<le> n" "n \<le> length b"
  shows "take c (drop s b) = take c (take n (rotate s b))"
    "take (n - c) (rotate ((s + c) mod length b) b) = drop c (take n (rotate s b))"
proof -
  show "take c (drop s b) = take c (take n (rotate s b))"
  proof (cases "s = length b")
    case False
    then have "rotate s b = drop s b @ take s b" using assms(1) by (simp add: rotate_drop_take)
    then show ?thesis using assms by simp
  qed (use assms in auto)
  have "rotate ((s + c) mod length b) b = rotate c (rotate s b)"
    by (simp add: rotate_conv_mod [symmetric] rotate_rotate add.commute)
  also have "\<dots> = drop c (rotate s b) @ take c (rotate s b)"
  proof (cases "c = length b")
    case True
    then show ?thesis using rotate_id [of c "rotate s b"] by simp
  next
    case False
    then have "c mod length (rotate s b) = c" using assms by simp
    then show ?thesis by (metis rotate_drop_take)
  qed
  finally show "take (n - c) (rotate ((s + c) mod length b) b) = drop c (take n (rotate s b))"
    using assms by (simp add: drop_take)
qed

lemma pipe_load_ok:
  assumes "pipe_ok p" "0 \<le> c" "c \<le> PIPE_BUF - p_start p" "c \<le> p_len p"
  shows "pipe_load p (p_start p) c = Some (take (nat c) (pipe_bytes p))"
proof -
  obtain b where b: "p_base p = Some b" "length b = 4096" and r: "0 \<le> p_start p" "p_start p < 4096" "p_len p \<le> 4096"
    using assms(1) by (auto simp: pipe_ok_def)
  have "take (nat c) (drop (nat (p_start p)) b) = take (nat c) (take (nat (p_len p)) (rotate (nat (p_start p)) b))"
    by (rule rotate_take_drop(1)) (use assms b r in auto)
  then show ?thesis using assms b r by (simp add: pipe_load_def pipe_bytes_def)
qed

lemma pipe_take_bytes:
  assumes "pipe_ok p" "0 \<le> c" "c \<le> PIPE_BUF - p_start p" "c \<le> p_len p"
  shows "pipe_ok (p\<lparr>p_start := uwrap (p_start p + c) AND (PIPE_BUF - 1), p_len := uwrap (p_len p - c)\<rparr>)"
    "pipe_bytes (p\<lparr>p_start := uwrap (p_start p + c) AND (PIPE_BUF - 1), p_len := uwrap (p_len p - c)\<rparr>) = drop (nat c) (pipe_bytes p)"
proof -
  let ?p = "p\<lparr>p_start := uwrap (p_start p + c) AND (PIPE_BUF - 1), p_len := uwrap (p_len p - c)\<rparr>"
  obtain b where b: "p_base p = Some b" "length b = 4096" and r: "0 \<le> p_start p" "p_start p < 4096" "p_len p \<le> 4096"
    using assms(1) by (auto simp: pipe_ok_def)
  have w: "uwrap (p_start p + c) AND 4095 = (p_start p + c) mod 4096" "uwrap (p_len p - c) = p_len p - c"
    using assms r by (simp_all add: and_4095)
  show "pipe_ok ?p" using assms b by (simp add: pipe_ok_def w)
  have 1: "pipe_bytes ?p = take (nat (p_len p - c)) (rotate (nat ((p_start p + c) mod 4096)) b)"
    using b w by (simp only: pipe_bytes_def pipe_inode_info.simps pipe_inode_info.update_convs option.case) simp
  have 2: "nat ((p_start p + c) mod 4096) = (nat (p_start p) + nat c) mod length b"
    using assms r b by (simp add: nat_mod_distrib nat_add_distrib)
  have 3: "nat (p_len p - c) = nat (p_len p) - nat c" using assms by (simp add: nat_diff_distrib)
  have 4: "pipe_bytes p = take (nat (p_len p)) (rotate (nat (p_start p)) b)" using b by (simp add: pipe_bytes_def)
  show "pipe_bytes ?p = drop (nat c) (pipe_bytes p)"
    unfolding 1 2 3 4 by (rule rotate_take_drop(2)) (use assms r b in linarith)+
qed

lemma mod_4096_cases: "x < 8192 \<Longrightarrow> x mod 4096 = (if x < 4096 then x else x - 4096)" for x :: nat
  by (simp add: le_mod_geq)

lemma splice_rotate:
  assumes b: "length b = 4096" and s: "s < 4096" "l + c \<le> 4096" "c = length bs" and e: "e = (s + l) mod 4096" "e + c \<le> 4096"
  shows "take (l + c) (rotate s (take e b @ bs @ drop (e + c) b)) = take l (rotate s b) @ bs"
proof (rule nth_equalityI)
  let ?b = "take e b @ bs @ drop (e + c) b"
  have len: "length ?b = 4096" using b e s(3) by simp
  show "length (take (l + c) (rotate s ?b)) = length (take l (rotate s b) @ bs)" using b s len by simp
  fix i
  assume "i < length (take (l + c) (rotate s ?b))"
  then have i: "i < l + c" "i < 4096" using len by simp_all
  have b': "?b ! j = (if e \<le> j \<and> j < e + c then bs ! (j - e) else b ! j)" if "j < 4096" for j
    using that b s(3) e(2) by (auto simp: nth_append)
  have "take (l + c) (rotate s ?b) ! i = ?b ! ((s + i) mod 4096)" using i len by (simp add: nth_rotate)
  also have "\<dots> = (if e \<le> (s + i) mod 4096 \<and> (s + i) mod 4096 < e + c then bs ! ((s + i) mod 4096 - e) else b ! ((s + i) mod 4096))"
    by (rule b') simp
  also have "\<dots> = (if i < l then b ! ((s + i) mod 4096) else bs ! (i - l))"
    using i s e by (auto simp: mod_4096_cases split: if_splits)
  also have "\<dots> = (take l (rotate s b) @ bs) ! i"
    using i b s by (auto simp: nth_append nth_rotate)
  finally show "take (l + c) (rotate s ?b) ! i = (take l (rotate s b) @ bs) ! i" .
qed

lemma word_of_nat_nat: "0 \<le> i \<Longrightarrow> word_of_nat (nat i) = (word_of_int i :: u32)"
  by (simp add: of_nat_nat)

lemma read_loop_effect:
  assumes "pipe_ok p"
  shows "\<exists>s l p'. read_loop count buf rd p m =
      Some (rd + max 0 (min count (p_len p)), p', put_bytes (take (nat count) (pipe_bytes p)) buf m)
    \<and> p' = p\<lparr>p_start := s, p_len := l\<rparr> \<and> pipe_ok p' \<and> pipe_bytes p' = drop (nat count) (pipe_bytes p)"
  using assms
proof (induction "nat count" arbitrary: count buf rd p m rule: less_induct)
  case less
  note len = pipe_bytes_length [OF less.prems]
  have l0: "0 \<le> p_len p" using less.prems by (simp add: pipe_ok_def)
  show ?case
  proof (cases "count > 0 \<and> p_len p \<noteq> 0")
    case False
    then consider "count \<le> 0" | "p_len p = 0" by linarith
    then have e: "take (nat count) (pipe_bytes p) = []" "drop (nat count) (pipe_bytes p) = pipe_bytes p"
        "max 0 (min count (p_len p)) = 0"
      using len l0 by (cases; auto)+
    have "read_loop count buf rd p m = Some (rd, p, m)" unfolding read_loop.simps [of count] if_not_P [OF False] ..
    moreover have "p = p\<lparr>p_start := p_start p, p_len := p_len p\<rparr>" by simp
    ultimately show ?thesis unfolding e add_0_right put_bytes.simps using less.prems by blast
  next
    case True
    define c where "c = read_chars count p"
    let ?p = "p\<lparr>p_start := uwrap (p_start p + c) AND (PIPE_BUF - 1), p_len := uwrap (p_len p - c)\<rparr>"
    have c: "c = min (min (PIPE_BUF - p_start p) count) (p_len p)" using c_def read_chars_eq [OF less.prems] True by simp
    then have cb: "0 < c" "c \<le> PIPE_BUF - p_start p" "c \<le> p_len p" "c \<le> count"
      using True less.prems by (auto simp: pipe_ok_def)
    note load = pipe_load_ok [OF less.prems, of c] and step = pipe_take_bytes [OF less.prems, of c]
    have "nat (count - c) < nat count" using cb by simp
    from less.hyps [OF this, of ?p "buf + word_of_int c" "rd + c" "put_bytes (take (nat c) (pipe_bytes p)) buf m"] step cb
    obtain s l p' where IH: "read_loop (count - c) (buf + word_of_int c) (rd + c) ?p (put_bytes (take (nat c) (pipe_bytes p)) buf m)
        = Some (rd + c + max 0 (min (count - c) (p_len p - c)), p',
            put_bytes (take (nat (count - c)) (drop (nat c) (pipe_bytes p))) (buf + word_of_int c) (put_bytes (take (nat c) (pipe_bytes p)) buf m))"
      "p' = ?p\<lparr>p_start := s, p_len := l\<rparr>" "pipe_ok p'" "pipe_bytes p' = drop (nat (count - c)) (drop (nat c) (pipe_bytes p))"
      using less.prems by (auto simp: pipe_ok_def)
    have n: "rd + c + max 0 (min (count - c) (p_len p - c)) = rd + max 0 (min count (p_len p))" using cb by simp
    have d: "nat (count - c) + nat c = nat count" using cb by simp
    have lt: "of_nat (length (take (nat c) (pipe_bytes p))) = (word_of_int c :: u32)"
      using cb len by (simp add: word_of_nat_nat min_absorb2)
    have put: "put_bytes (take (nat (count - c)) (drop (nat c) (pipe_bytes p))) (buf + word_of_int c) (put_bytes (take (nat c) (pipe_bytes p)) buf m)
        = put_bytes (take (nat count) (pipe_bytes p)) buf m"
      unfolding lt [symmetric] put_bytes_append [symmetric] using d by (simp add: take_add [symmetric] add.commute)
    have "read_loop count buf rd p m
        = read_loop (count - c) (buf + word_of_int c) (rd + c) ?p (put_bytes (take (nat c) (pipe_bytes p)) buf m)"
      using True load cb by (simp add: read_loop.simps [of count] Let_def c_def [symmetric])
    then have "read_loop count buf rd p m = Some (rd + max 0 (min count (p_len p)), p', put_bytes (take (nat count) (pipe_bytes p)) buf m)"
      unfolding IH(1) n put .
    moreover have "pipe_bytes p' = drop (nat count) (pipe_bytes p)" using IH(4) d by (simp add: add.commute)
    ultimately show ?thesis using IH(2,3) by auto
  qed
qed

lemma write_chars_eq:
  assumes "pipe_ok p" "0 < count"
  shows "write_chars count p = min (min (PIPE_BUF - PIPE_END p) count) (PIPE_BUF - p_len p)"
proof -
  have "0 \<le> PIPE_END p" "PIPE_END p < 4096" using pipe_ok_macros(3) [OF assms(1)] by simp_all
  then show ?thesis
    using assms pipe_ok_macros(1,4) [OF assms(1)]
    by (auto simp: write_chars_def pipe_ok_def Let_def fits_s32_def min_def)
qed

lemma pipe_append_bytes:
  assumes ok: "pipe_ok p" and c: "0 \<le> c" "c \<le> PIPE_BUF - PIPE_END p" "c \<le> PIPE_BUF - p_len p" "length bs = nat c"
  shows "\<exists>b'. pipe_store (PIPE_END p) c bs p = Some (p\<lparr>p_base := Some b'\<rparr>)
    \<and> pipe_ok (p\<lparr>p_base := Some b', p_len := uwrap (p_len p + c)\<rparr>)
    \<and> pipe_bytes (p\<lparr>p_base := Some b', p_len := uwrap (p_len p + c)\<rparr>) = pipe_bytes p @ bs"
proof -
  obtain b where b: "p_base p = Some b" "length b = 4096" and r: "0 \<le> p_start p" "p_start p < 4096" "0 \<le> p_len p" "p_len p \<le> 4096"
    using ok by (auto simp: pipe_ok_def)
  let ?e = "nat (PIPE_END p)"
  let ?b = "take ?e b @ bs @ drop (?e + nat c) b"
  have e: "0 \<le> PIPE_END p" "PIPE_END p < 4096" using pipe_ok_macros(3) [OF ok] by simp_all
  have en: "?e = (nat (p_start p) + nat (p_len p)) mod 4096"
    using pipe_ok_macros(3) [OF ok] r by (simp add: nat_mod_distrib nat_add_distrib)
  have w: "uwrap (p_len p + c) = p_len p + c" "nat (p_len p + c) = nat (p_len p) + nat c"
    using r c by (simp_all add: nat_add_distrib)
  have len: "length ?b = 4096" using b e c by simp
  have "pipe_store (PIPE_END p) c bs p = Some (p\<lparr>p_base := Some ?b\<rparr>)" using b c e by (simp add: pipe_store_def)
  moreover have "pipe_ok (p\<lparr>p_base := Some ?b, p_len := uwrap (p_len p + c)\<rparr>)"
    using r c b(2) e by (simp add: pipe_ok_def)
  moreover have "take (nat (p_len p) + nat c) (rotate (nat (p_start p)) ?b) = take (nat (p_len p)) (rotate (nat (p_start p)) b) @ bs"
    using b(2) r c e en by (intro splice_rotate) simp_all
  then have "pipe_bytes (p\<lparr>p_base := Some ?b, p_len := uwrap (p_len p + c)\<rparr>) = pipe_bytes p @ bs"
    using b(1) by (simp add: pipe_bytes_def w)
  ultimately show ?thesis by blast
qed

lemma write_loop_effect:
  assumes "pipe_ok p"
  shows "\<exists>b l p'. write_loop count buf written m p =
      Some (count - max 0 (min count (PIPE_BUF - p_len p)), buf + word_of_int (max 0 (min count (PIPE_BUF - p_len p))),
            written + max 0 (min count (PIPE_BUF - p_len p)), p')
    \<and> p' = p\<lparr>p_base := b, p_len := l\<rparr> \<and> pipe_ok p'
    \<and> pipe_bytes p' = pipe_bytes p @ user_bytes m buf (nat (min count (PIPE_BUF - p_len p)))"
  using assms
proof (induction "nat count" arbitrary: count buf written p rule: less_induct)
  case less
  have l0: "0 \<le> p_len p" "p_len p \<le> 4096" using less.prems by (auto simp: pipe_ok_def)
  note free = pipe_ok_macros(1) [OF less.prems]
  show ?case
  proof (cases "count > 0 \<and> PIPE_FREE p \<noteq> 0")
    case False
    then have e: "max 0 (min count (PIPE_BUF - p_len p)) = 0" "nat (min count (PIPE_BUF - p_len p)) = 0"
      using l0 free by auto
    have "write_loop count buf written m p = Some (count, buf, written, p)" unfolding write_loop.simps [of count] if_not_P [OF False] ..
    moreover have "p = p\<lparr>p_base := p_base p, p_len := p_len p\<rparr>" by simp
    moreover have "word_of_int 0 = (0 :: u32)" by simp
    ultimately show ?thesis unfolding e add_0_right diff_0_right user_bytes.simps append_Nil2 using less.prems by (metis add_0_right)
  next
    case True
    define c where "c = write_chars count p"
    have c: "c = min (min (PIPE_BUF - PIPE_END p) count) (PIPE_BUF - p_len p)" using c_def write_chars_eq [OF less.prems] True by simp
    have "PIPE_END p < 4096" using pipe_ok_macros(3) [OF less.prems] by simp
    then have cb: "0 < c" "c \<le> PIPE_BUF - PIPE_END p" "c \<le> PIPE_BUF - p_len p" "c \<le> count"
      using c True free l0 by auto
    let ?bs = "user_bytes m buf (nat c)"
    obtain b' where st: "pipe_store (PIPE_END p) c ?bs p = Some (p\<lparr>p_base := Some b'\<rparr>)"
      and ok: "pipe_ok (p\<lparr>p_base := Some b', p_len := uwrap (p_len p + c)\<rparr>)"
      and byt: "pipe_bytes (p\<lparr>p_base := Some b', p_len := uwrap (p_len p + c)\<rparr>) = pipe_bytes p @ ?bs"
      using pipe_append_bytes [OF less.prems, of c ?bs] cb by auto
    let ?p = "p\<lparr>p_base := Some b', p_len := uwrap (p_len p + c)\<rparr>"
    have l: "p_len ?p = p_len p + c" using l0 cb by simp
    have "nat (count - c) < nat count" using cb by simp
    from less.hyps [OF this ok, of "buf + word_of_int c" "written + c", unfolded l byt]
    obtain b l p' where IH: "write_loop (count - c) (buf + word_of_int c) (written + c) m ?p
        = Some (count - c - max 0 (min (count - c) (PIPE_BUF - (p_len p + c))),
            buf + word_of_int c + word_of_int (max 0 (min (count - c) (PIPE_BUF - (p_len p + c)))),
            written + c + max 0 (min (count - c) (PIPE_BUF - (p_len p + c))), p')"
      "p' = ?p\<lparr>p_base := b, p_len := l\<rparr>" "pipe_ok p'"
      "pipe_bytes p' = (pipe_bytes p @ ?bs) @ user_bytes m (buf + word_of_int c) (nat (min (count - c) (PIPE_BUF - (p_len p + c))))"
      by blast
    have n: "c + max 0 (min (count - c) (PIPE_BUF - (p_len p + c))) = max 0 (min count (PIPE_BUF - p_len p))" using cb by simp
    have n': "nat (min count (PIPE_BUF - p_len p)) = nat c + nat (min (count - c) (PIPE_BUF - (p_len p + c)))" using cb by simp
    have 1: "write_loop count buf written m p = write_loop (count - c) (buf + word_of_int c) (written + c) m ?p"
      using True st by (simp add: write_loop.simps [of count] Let_def c_def [symmetric])
    have 2: "count - c - max 0 (min (count - c) (PIPE_BUF - (p_len p + c))) = count - max 0 (min count (PIPE_BUF - p_len p))"
      "written + c + max 0 (min (count - c) (PIPE_BUF - (p_len p + c))) = written + max 0 (min count (PIPE_BUF - p_len p))"
      "buf + word_of_int c + word_of_int (max 0 (min (count - c) (PIPE_BUF - (p_len p + c)))) = buf + word_of_int (max 0 (min count (PIPE_BUF - p_len p)))"
      unfolding n [symmetric] by (simp_all add: add.assoc)
    have 3: "user_bytes m buf (nat (min count (PIPE_BUF - p_len p))) = ?bs @ user_bytes m (buf + word_of_int c) (nat (min (count - c) (PIPE_BUF - (p_len p + c))))"
      unfolding n' user_bytes_append using cb by (simp add: word_of_nat_nat)
    show ?thesis
      unfolding 1 IH(1) 2 3 using IH(2-4) by auto
  qed
qed

end
