(* ===== verification/Pipe_Laws.thy ===== *)
theory Pipe_Laws
  imports Pipe
begin

text \<open>
  Pipes as streams of bytes.  The interface \<^verbatim>\<open>byte_stream\<close> states what a buffer between writers and readers promises; from
  it follows that, over any history, what has been read and what is still in the buffer is exactly what was in it and
  what has been written, in that order.  Reading and writing a pipe, with all their error returns and sleeps, and opening and
  closing a FIFO are shown to keep the promise.
\<close>

datatype 'b stream_event = Stream_In "'b list" | Stream_Out "'b list" | Stream_Idle

fun stream_in :: "'b stream_event \<Rightarrow> 'b list" where
  "stream_in (Stream_In bs) = bs"
| "stream_in _ = []"

fun stream_out :: "'b stream_event \<Rightarrow> 'b list" where
  "stream_out (Stream_Out bs) = bs"
| "stream_out _ = []"

locale byte_stream = component invar step
  for invar :: "'s \<Rightarrow> bool" and step :: "'s \<Rightarrow> 'b stream_event \<Rightarrow> 's \<Rightarrow> bool" +
  fixes contents :: "'s \<Rightarrow> 'b list" and capacity :: nat
  assumes step_contents: "step s e s' \<Longrightarrow> invar s \<Longrightarrow> contents s @ stream_in e = stream_out e @ contents s'"
    and bounded: "invar s \<Longrightarrow> length (contents s) \<le> capacity"
begin

lemma conserved:
  "history step s es s' \<Longrightarrow> invar s \<Longrightarrow>
    contents s @ concat (map stream_in es) = concat (map stream_out es) @ contents s'"
proof (induction rule: history.induct)
  case (history_cons s e s' es s'')
  have "contents s @ stream_in e @ concat (map stream_in es) = stream_out e @ contents s' @ concat (map stream_in es)"
    using step_contents [OF history_cons(1,4)] by (metis append_assoc)
  also have "\<dots> = stream_out e @ concat (map stream_out es) @ contents s''"
    using history_cons.IH step_invar [OF history_cons(1,4)] by simp
  finally show ?case by simp
qed simp

text \<open>At most \<^verbatim>\<open>capacity\<close> bytes are ever under way.\<close>

lemma in_flight:
  assumes "history step s es s'" "invar s" "contents s = []"
  shows "\<exists>bs. concat (map stream_in es) = concat (map stream_out es) @ bs \<and> length bs \<le> capacity"
  using conserved [OF assms(1,2)] assms(3) bounded [OF history_invar [OF assms(1,2)]] by auto

end

section \<open>Waking\<close>

lemma wake_walk_frame: "wake_walk sts q w s = Some s' \<Longrightarrow> fsmem s' = fsmem s \<and> current s' = current s"
proof (rule wake_walk.raw_induct [of "\<lambda>sts q w s s'. fsmem s' = fsmem s \<and> current s' = current s"])
  fix self :: "task_state set \<Rightarrow> wqhead \<Rightarrow> waddr \<Rightarrow> kernel \<Rightarrow> kernel option" and sts q w s s'
  assume "\<And>sts q w s s'. self sts q w s = Some s' \<Longrightarrow> fsmem s' = fsmem s \<and> current s' = current s"
    and "(let s = wake_entry sts s w
      in case wq_next (wqe s w) of None \<Rightarrow> Some s | Some n \<Rightarrow> if wqh s q = Some n then Some s else self sts q n s) = Some s'"
  then show "fsmem s' = fsmem s \<and> current s' = current s" by (fastforce simp: Let_def split: option.splits if_splits)
qed

lemma pipe_wake_Some: "pipe_wake q st = Some st' \<Longrightarrow> pin st' = pin st \<and> fsmem (pk st') = fsmem (pk st)"
  by (auto simp: pipe_wake_def wake_up_interruptible_def split: option.splits bind_splits dest: wake_walk_frame)

lemma pipe_sleep_Some: "pipe_sleep q w st = Some st' \<Longrightarrow> pin st' = pin st"
  by (auto simp: pipe_sleep_def split: bind_splits)

section \<open>What reading and writing do to the stream\<close>

lemma pipe_lock_frame [simp]:
  "pipe_ok (p\<lparr>p_lock := x\<rparr>) = pipe_ok p" "pipe_bytes (p\<lparr>p_lock := x\<rparr>) = pipe_bytes p"
  by (simp_all add: pipe_ok_def pipe_bytes_def cong: option.case_cong)

lemma pipe_bytes_bound: "pipe_ok p \<Longrightarrow> length (pipe_bytes p) \<le> 4096"
  using pipe_bytes_length [of p] by (simp add: pipe_ok_def)

lemma pipe_take_effect:
  assumes ok: "pipe_ok (pin st)" and t: "pipe_take q buf count st = Some (r, st')"
  shows "\<exists>n. r = P_Ret n \<and> pipe_ok (pin st') \<and> pipe_bytes (pin st) = user_bytes (fsmem (pk st')) buf (nat n) @ pipe_bytes (pin st')
    \<and> (0 < count \<longrightarrow> 0 < p_len (pin st) \<longrightarrow> n = min count (p_len (pin st)))"
proof -
  let ?p = "(pin st)\<lparr>p_lock := uwrap (p_lock (pin st) + 1)\<rparr>"
  let ?k = "max 0 (min count (p_len (pin st)))"
  have okp: "pipe_ok ?p" using ok by simp
  obtain p' where l: "read_loop count buf 0 ?p (fsmem (pk st))
      = Some (?k, p', put_bytes (take (nat count) (pipe_bytes (pin st))) buf (fsmem (pk st)))"
    and p': "pipe_ok p'" "pipe_bytes p' = drop (nat count) (pipe_bytes (pin st))"
    using read_loop_effect [OF okp, of count buf 0 "fsmem (pk st)"] by auto
  let ?bs = "take (nat count) (pipe_bytes (pin st))"
  let ?q = "p'\<lparr>p_lock := uwrap (p_lock p' - 1)\<rparr>"
  obtain st1 where w: "pipe_wake q (pipe_mem (put_bytes ?bs buf (fsmem (pk st))) (st\<lparr>pin := ?q\<rparr>)) = Some st1"
    and r: "r = P_Ret (if ?k \<noteq> 0 then ?k else if p_writers ?q \<noteq> 0 then - EAGAIN else 0)" "st' = st1"
    using t l by (auto simp: pipe_take_def Let_def split: bind_splits)
  have st1: "pin st1 = ?q" "fsmem (pk st1) = put_bytes ?bs buf (fsmem (pk st))"
    using pipe_wake_Some [OF w] by (simp_all add: pipe_mem_def)
  have len: "length ?bs = nat ?k" using pipe_bytes_length [OF ok] by (auto simp: min_def max_def)
  have "length ?bs \<le> 4096" using pipe_bytes_bound [OF ok] by simp
  then have "user_bytes (fsmem (pk st1)) buf (nat ?k) = ?bs" using user_bytes_put [of ?bs buf] len st1(2) by simp
  moreover define n where "n = (if ?k \<noteq> 0 then ?k else if p_writers ?q \<noteq> 0 then - EAGAIN else 0)"
  moreover have "nat n = nat ?k" "0 < count \<longrightarrow> 0 < p_len (pin st) \<longrightarrow> n = min count (p_len (pin st))" by (auto simp: n_def min_def)
  ultimately show ?thesis using r st1 p' by (intro exI [of _ n]) simp
qed

lemma pipe_read_cases:
  assumes "pipe_read q nb buf count w st = Some (r, st')"
  obtains (take) "pipe_take q buf count st = Some (r, st')" | (ret) n where "r = P_Ret n" "n \<le> 0" "st' = st"
    | (sleep) "r = P_Sleep" "pipe_sleep q w st = Some st'"
  using assms by (auto simp: pipe_read_def Let_def split: if_splits bind_splits)

lemma pipe_read_effect:
  assumes ok: "pipe_ok (pin st)" and t: "pipe_read q nb buf count w st = Some (r, st')"
  shows "pipe_ok (pin st')"
    "r = P_Ret n \<Longrightarrow> pipe_bytes (pin st) = user_bytes (fsmem (pk st')) buf (nat n) @ pipe_bytes (pin st')"
    "r = P_Sleep \<Longrightarrow> pin st' = pin st"
proof (atomize (full), use t in \<open>cases rule: pipe_read_cases\<close>)
  case take
  then show "pipe_ok (pin st') \<and> (r = P_Ret n \<longrightarrow> pipe_bytes (pin st) = user_bytes (fsmem (pk st')) buf (nat n) @ pipe_bytes (pin st'))
      \<and> (r = P_Sleep \<longrightarrow> pin st' = pin st)"
    using pipe_take_effect [OF ok take] by auto
next
  case ret
  then show "pipe_ok (pin st') \<and> (r = P_Ret n \<longrightarrow> pipe_bytes (pin st) = user_bytes (fsmem (pk st')) buf (nat n) @ pipe_bytes (pin st'))
      \<and> (r = P_Sleep \<longrightarrow> pin st' = pin st)"
    using ok by auto
next
  case sleep
  then show "pipe_ok (pin st') \<and> (r = P_Ret n \<longrightarrow> pipe_bytes (pin st) = user_bytes (fsmem (pk st')) buf (nat n) @ pipe_bytes (pin st'))
      \<and> (r = P_Sleep \<longrightarrow> pin st' = pin st)"
    using ok pipe_sleep_Some [OF sleep(2)] by auto
qed

text \<open>The three ways through the outer loop of \<^verbatim>\<open>pipe_write\<close>.\<close>

lemma write_outer_done: "\<not> w_count lc > 0 \<Longrightarrow> write_outer q nb w lc st = Some (W_Ret (w_written lc), st)"
  by (subst write_outer.simps) simp

lemma write_outer_go:
  assumes "w_count lc > 0" "\<not> (PIPE_FREE (pin st) < uwrap (w_free lc) \<or> p_lock (pin st) \<noteq> 0)"
    and "write_loop (w_count lc) (w_buf lc) (w_written lc) (fsmem (pk st)) ((pin st)\<lparr>p_lock := uwrap (p_lock (pin st) + 1)\<rparr>)
      = Some (count, buf, written, p)"
    and "pipe_wake q (st\<lparr>pin := p\<lparr>p_lock := uwrap (p_lock p - 1)\<rparr>\<rparr>) = Some st1"
  shows "write_outer q nb w lc st = write_outer q nb w \<lparr>w_count = count, w_buf = buf, w_free = 1, w_written = written\<rparr> st1"
  by (subst write_outer.simps) (use assms in \<open>simp add: Let_def\<close>)

lemma write_outer_stop:
  assumes "w_count lc > 0" "PIPE_FREE (pin st) < uwrap (w_free lc) \<or> p_lock (pin st) \<noteq> 0"
    and "write_outer q nb w lc st = Some (r, st')"
  shows "pin st' = pin st \<and> (r = W_Sleep lc \<or> (\<exists>e<0. r = W_Ret (written_or (w_written lc) e)))"
proof -
  have "write_outer q nb w lc st =
     (if p_readers (pin st) = 0
      then Some (W_Ret (written_or (w_written lc) (- EPIPE)), st\<lparr>pk := snd (send_sig SIGPIPE (Some (current (pk st))) False (pk st))\<rparr>)
      else if signal_pending (cur (pk st)) then Some (W_Ret (written_or (w_written lc) (- ERESTARTSYS)), st)
      else if nb then Some (W_Ret (written_or (w_written lc) (- EAGAIN)), st)
      else Option.bind (pipe_sleep q w st) (\<lambda>st. Some (W_Sleep lc, st)))"
    by (subst write_outer.simps) (use assms(1,2) in auto)
  moreover have "\<exists>e<0. W_Ret (written_or x n) = W_Ret (written_or x e)" if "n < 0" for x n using that by blast
  ultimately show ?thesis using assms(3) by (auto split: if_splits bind_splits dest!: pipe_sleep_Some)
qed

text \<open>The progress of a write: \<^verbatim>\<open>written\<close> bytes so far, the next one at \<^verbatim>\<open>buf\<close>.\<close>

fun write_done :: "write_result \<Rightarrow> int" where
  "write_done (W_Ret n) = max 0 n"
| "write_done (W_Sleep lc) = w_written lc"

definition write_effect :: "write_locals \<Rightarrow> pipe_state \<Rightarrow> write_result \<Rightarrow> pipe_state \<Rightarrow> bool" where
  "write_effect lc st r st' \<longleftrightarrow>
    (0 \<le> w_written lc \<and> pipe_ok (pin st) \<longrightarrow> pipe_ok (pin st') \<and> w_written lc \<le> write_done r
      \<and> pipe_bytes (pin st') = pipe_bytes (pin st) @ user_bytes (fsmem (pk st)) (w_buf lc) (nat (write_done r - w_written lc))
      \<and> (\<forall>lc'. r = W_Sleep lc' \<longrightarrow> w_buf lc' = w_buf lc + word_of_int (w_written lc' - w_written lc)))"

lemma write_step_effect:
  assumes l: "write_loop (w_count lc) (w_buf lc) (w_written lc) (fsmem (pk st)) ((pin st)\<lparr>p_lock := uwrap (p_lock (pin st) + 1)\<rparr>)
      = Some (count, buf, written, p)"
    and w: "pipe_wake q (st\<lparr>pin := p\<lparr>p_lock := uwrap (p_lock p - 1)\<rparr>\<rparr>) = Some st1"
    and e: "write_effect \<lparr>w_count = count, w_buf = buf, w_free = 1, w_written = written\<rparr> st1 r st'"
  shows "write_effect lc st r st'"
  unfolding write_effect_def
proof (intro impI)
  assume pre: "0 \<le> w_written lc \<and> pipe_ok (pin st)"
  let ?p = "(pin st)\<lparr>p_lock := uwrap (p_lock (pin st) + 1)\<rparr>" and ?m = "fsmem (pk st)"
  define k where "k = max 0 (min (w_count lc) (PIPE_BUF - p_len (pin st)))"
  have okp: "pipe_ok ?p" using pre by simp
  have kn: "nat (min (w_count lc) (PIPE_BUF - p_len (pin st))) = nat k" by (simp add: k_def)
  have eq: "count = w_count lc - k" "buf = w_buf lc + word_of_int k" "written = w_written lc + k" and p: "pipe_ok p"
    "pipe_bytes p = pipe_bytes (pin st) @ user_bytes ?m (w_buf lc) (nat k)"
    using write_loop_effect [OF okp, of "w_count lc" "w_buf lc" "w_written lc" ?m] l kn by (auto simp: k_def)
  have k0: "0 \<le> k" by (simp add: k_def)
  have st1: "pin st1 = p\<lparr>p_lock := uwrap (p_lock p - 1)\<rparr>" "fsmem (pk st1) = ?m" using pipe_wake_Some [OF w] by simp_all
  have r: "pipe_ok (pin st')" "written \<le> write_done r"
    "pipe_bytes (pin st') = pipe_bytes p @ user_bytes ?m buf (nat (write_done r - written))"
    "\<And>lc'. r = W_Sleep lc' \<Longrightarrow> w_buf lc' = buf + word_of_int (w_written lc' - written)"
    using e pre p st1 k0 eq(3) by (auto simp: write_effect_def)
  have "nat (write_done r - w_written lc) = nat k + nat (write_done r - written)" using r(2) k0 eq(3) by simp
  then have "pipe_bytes (pin st') = pipe_bytes (pin st) @ user_bytes ?m (w_buf lc) (nat (write_done r - w_written lc))"
    using r(3) p(2) k0 eq(2) by (simp add: user_bytes_append word_of_nat_nat)
  moreover have "w_buf lc' = w_buf lc + word_of_int (w_written lc' - w_written lc)" if "r = W_Sleep lc'" for lc'
    using r(4) [OF that] eq(2,3) by simp
  ultimately show "pipe_ok (pin st') \<and> w_written lc \<le> write_done r
      \<and> pipe_bytes (pin st') = pipe_bytes (pin st) @ user_bytes (fsmem (pk st)) (w_buf lc) (nat (write_done r - w_written lc))
      \<and> (\<forall>lc'. r = W_Sleep lc' \<longrightarrow> w_buf lc' = w_buf lc + word_of_int (w_written lc' - w_written lc))"
    using r(1,2) k0 eq(3) by simp
qed

lemma write_outer_effect: "write_outer q nb w lc st = Some (r, st') \<Longrightarrow> write_effect lc st r st'"
proof -
  have "write_outer q nb w lc st = Some x \<Longrightarrow> write_effect lc st (fst x) (snd x)" for x
  proof (rule write_outer.raw_induct [of "\<lambda>q nb w lc st x. write_effect lc st (fst x) (snd x)"])
    fix self :: "wqhead \<Rightarrow> bool \<Rightarrow> waddr \<Rightarrow> write_locals \<Rightarrow> pipe_state \<Rightarrow> (write_result \<times> pipe_state) option" and q nb w lc st x
    assume IH: "\<And>q nb w lc st x. self q nb w lc st = Some x \<Longrightarrow> write_effect lc st (fst x) (snd x)"
      and b: "(if \<not> w_count lc > 0 then Some (W_Ret (w_written lc), st)
     else if PIPE_FREE (pin st) < uwrap (w_free lc) \<or> p_lock (pin st) \<noteq> 0
     then if p_readers (pin st) = 0
          then Some (W_Ret (written_or (w_written lc) (- EPIPE)),
                     st\<lparr>pk := snd (send_sig SIGPIPE (Some (current (pk st))) False (pk st))\<rparr>)
          else if signal_pending (cur (pk st)) then Some (W_Ret (written_or (w_written lc) (- ERESTARTSYS)), st)
          else if nb then Some (W_Ret (written_or (w_written lc) (- EAGAIN)), st)
          else Option.bind (pipe_sleep q w st) (\<lambda>st. Some (W_Sleep lc, st))
     else let p = (pin st)\<lparr>p_lock := uwrap (p_lock (pin st) + 1)\<rparr>
          in Option.bind (write_loop (w_count lc) (w_buf lc) (w_written lc) (fsmem (pk st)) p) (\<lambda>(count, buf, written, p).
               Option.bind (pipe_wake q (st\<lparr>pin := p\<lparr>p_lock := uwrap (p_lock p - 1)\<rparr>\<rparr>)) (\<lambda>st.
                 self q nb w \<lparr>w_count = count, w_buf = buf, w_free = 1, w_written = written\<rparr> st))) = Some x"
    show "write_effect lc st (fst x) (snd x)"
    proof (cases "w_count lc > 0 \<and> \<not> (PIPE_FREE (pin st) < uwrap (w_free lc) \<or> p_lock (pin st) \<noteq> 0)")
      case True
      then obtain count buf written p st1 where
        "write_loop (w_count lc) (w_buf lc) (w_written lc) (fsmem (pk st)) ((pin st)\<lparr>p_lock := uwrap (p_lock (pin st) + 1)\<rparr>) = Some (count, buf, written, p)"
        "pipe_wake q (st\<lparr>pin := p\<lparr>p_lock := uwrap (p_lock p - 1)\<rparr>\<rparr>) = Some st1"
        "self q nb w \<lparr>w_count = count, w_buf = buf, w_free = 1, w_written = written\<rparr> st1 = Some x"
        using b by (auto simp: Let_def split: bind_splits)
      then show ?thesis using write_step_effect IH by blast
    next
      case False
      then show ?thesis
        using b by (auto simp: write_effect_def written_or_def split: if_splits bind_splits dest!: pipe_sleep_Some)
    qed
  qed
  then show "write_outer q nb w lc st = Some (r, st') \<Longrightarrow> write_effect lc st r st'" by fastforce
qed

section \<open>Opening and closing leave the stream alone\<close>

definition ring_of :: "pipe_inode_info \<Rightarrow> u8 list option \<times> int \<times> int" where
  "ring_of p = (p_base p, p_start p, p_len p)"

lemma ring_of_stream: "ring_of p' = ring_of p \<Longrightarrow> pipe_ok p' = pipe_ok p \<and> pipe_bytes p' = pipe_bytes p"
  by (simp add: ring_of_def pipe_ok_def pipe_bytes_def cong: option.case_cong)

lemma ring_of_updates [simp]:
  "ring_of (p\<lparr>p_lock := x\<rparr>) = ring_of p" "ring_of (p\<lparr>p_rd_openers := x\<rparr>) = ring_of p" "ring_of (p\<lparr>p_wr_openers := x\<rparr>) = ring_of p"
  "ring_of (p\<lparr>p_readers := x\<rparr>) = ring_of p" "ring_of (p\<lparr>p_writers := x\<rparr>) = ring_of p"
  "ring_of (pin (add_readers d st)) = ring_of (pin st)" "ring_of (pin (add_writers d st)) = ring_of (pin st)"
  by (simp_all add: ring_of_def add_readers_def add_writers_def)

lemma ring_wake: "pipe_wake q st = Some st' \<Longrightarrow> ring_of (pin st') = ring_of (pin st)"
  using pipe_wake_Some by metis

lemma ring_wake_when: "wake_when b q st = Some st' \<Longrightarrow> ring_of (pin st') = ring_of (pin st)"
  by (auto simp: wake_when_def ring_wake split: if_splits)

lemma ring_release:
  "pipe_read_release q st = Some st' \<Longrightarrow> ring_of (pin st') = ring_of (pin st)"
  "pipe_write_release q st = Some st' \<Longrightarrow> ring_of (pin st') = ring_of (pin st)"
  "pipe_rdwr_release q st = Some st' \<Longrightarrow> ring_of (pin st') = ring_of (pin st)"
  by (auto simp: pipe_read_release_def pipe_write_release_def pipe_rdwr_release_def dest!: ring_wake)

definition ring_kept :: "pipe_state \<Rightarrow> open_state option \<Rightarrow> bool" where
  "ring_kept st r \<longleftrightarrow> (\<forall>x f st'. r = Some (x, f, st') \<longrightarrow> ring_of (pin st') = ring_of (pin st))"

lemma ring_kept_bind:
  "ring_of (pin st2) = ring_of (pin st) \<Longrightarrow> (\<And>st1. ring_kept st1 (g st1)) \<Longrightarrow> ring_kept st (Option.bind (wake_when b q st2) g)"
  by (cases "wake_when b q st2") (auto simp: ring_kept_def dest: ring_wake_when)

lemma ring_kept_cong: "ring_of (pin st') = ring_of (pin st) \<Longrightarrow> ring_kept st' r \<Longrightarrow> ring_kept st r"
  by (simp add: ring_kept_def)

lemma ring_kept_end [simp]: "ring_kept st (fifo_end retval f st)" "ring_kept st (fifo_sleep q w l f st)"
  by (auto simp: ring_kept_def fifo_end_def fifo_sleep_def split: bind_splits dest!: pipe_sleep_Some)

lemma ring_kept_loops [simp]:
  "ring_kept st (rd_openers q w retval f st)" "ring_kept st (wr_openers q w retval f st)"
  "ring_kept st (rw_rd q w f st)" "ring_kept st (rw_wr q w f st)"
  "ring_kept st (rd_writers q w f st)" "ring_kept st (wr_readers q w f st)"
proof -
  show rd: "ring_kept st (rd_openers q w retval f st)" for retval st
    by (auto simp: rd_openers_def Let_def intro!: ring_kept_bind)
  show wr: "ring_kept st (wr_openers q w retval f st)" for retval st
    by (auto simp: wr_openers_def Let_def intro!: ring_kept_bind)
  show rw: "ring_kept st (rw_rd q w f st)" for st by (simp add: rw_rd_def)
  show "ring_kept st (rw_wr q w f st)" by (auto simp: rw_wr_def rw intro!: ring_kept_bind)
  show "ring_kept st (rd_writers q w f st)" by (auto simp: rd_writers_def Let_def rd intro!: ring_kept_bind)
  show "ring_kept st (wr_readers q w f st)" by (auto simp: wr_readers_def Let_def wr intro!: ring_kept_bind)
qed

lemma ring_kept_waiting [simp]:
  "ring_kept st (rd_writers q w f (st\<lparr>pin := (pin st)\<lparr>p_rd_openers := x\<rparr>\<rparr>))"
  "ring_kept st (wr_readers q w f (st\<lparr>pin := (pin st)\<lparr>p_wr_openers := x\<rparr>\<rparr>))"
  by (rule ring_kept_cong [OF _ ring_kept_loops(5)], simp) (rule ring_kept_cong [OF _ ring_kept_loops(6)], simp)

lemma ring_kept_open: "ring_kept st (fifo_open q w f st)"
  unfolding fifo_open_def Let_def by (auto intro!: ring_kept_bind)

lemma ring_kept_resume: "ring_kept st (fifo_resume q w l f st)"
proof (cases "sleep_on_resume q w (pk st)")
  case (Some s)
  have "ring_kept (st\<lparr>pk := s\<rparr>) (case l of Rd_Wait_Writers \<Rightarrow> rd_writers q w f (st\<lparr>pk := s\<rparr>)
      | Rd_Wait_Openers retval \<Rightarrow> rd_openers q w retval f (st\<lparr>pk := s\<rparr>) | Wr_Wait_Readers \<Rightarrow> wr_readers q w f (st\<lparr>pk := s\<rparr>)
      | Wr_Wait_Openers retval \<Rightarrow> wr_openers q w retval f (st\<lparr>pk := s\<rparr>) | Rw_Wait_Wr \<Rightarrow> rw_wr q w f (st\<lparr>pk := s\<rparr>)
      | Rw_Wait_Rd \<Rightarrow> rw_rd q w f (st\<lparr>pk := s\<rparr>))"
    by (cases l) simp_all
  then show ?thesis using Some by (simp add: fifo_resume_def ring_kept_def Let_def)
qed (simp add: fifo_resume_def ring_kept_def)

section \<open>Any history of calls\<close>

text \<open>The steps of the processes that use one pipe.  A reader's bytes are those in its memory after the call, a writer's
  those in its memory before; a write that sleeps has moved the first \<^verbatim>\<open>written\<close> bytes, and goes on with the next ones.\<close>

inductive pipe_step :: "pipe_state \<Rightarrow> u8 stream_event \<Rightarrow> pipe_state \<Rightarrow> bool" where
  read: "pipe_read q nb buf count w st = Some (P_Ret n, st') \<Longrightarrow>
    pipe_step st (Stream_Out (user_bytes (fsmem (pk st')) buf (nat n))) st'"
| read_sleeps: "pipe_read q nb buf count w st = Some (P_Sleep, st') \<Longrightarrow> pipe_step st Stream_Idle st'"
| read_on: "pipe_read_resume q buf count w st = Some (P_Ret n, st') \<Longrightarrow>
    pipe_step st (Stream_Out (user_bytes (fsmem (pk st')) buf (nat n))) st'"
| read_sleeps_on: "pipe_read_resume q buf count w st = Some (P_Sleep, st') \<Longrightarrow> pipe_step st Stream_Idle st'"
| put: "pipe_write q nb buf count w st = Some (r, st') \<Longrightarrow>
    pipe_step st (Stream_In (user_bytes (fsmem (pk st)) buf (nat (write_done r)))) st'"
| put_on: "0 \<le> w_written lc \<Longrightarrow> sleep_on_resume q w (pk st) = Some s \<Longrightarrow> write_outer q False w lc (st\<lparr>pk := s\<rparr>) = Some (r, st') \<Longrightarrow>
    pipe_step st (Stream_In (user_bytes (fsmem s) (w_buf lc) (nat (write_done r - w_written lc)))) st'"
| opens: "fifo_open q w f st = Some (x, f', st') \<Longrightarrow> pipe_step st Stream_Idle st'"
| opens_on: "fifo_resume q w l f st = Some (x, f', st') \<Longrightarrow> pipe_step st Stream_Idle st'"
| page: "fifo_install b st = (n, st') \<Longrightarrow> pipe_step st Stream_Idle st'"
| close_read: "pipe_read_release q st = Some st' \<Longrightarrow> pipe_step st Stream_Idle st'"
| close_write: "pipe_write_release q st = Some st' \<Longrightarrow> pipe_step st Stream_Idle st'"
| close_both: "pipe_rdwr_release q st = Some st' \<Longrightarrow> pipe_step st Stream_Idle st'"
| other: "pipe_step st Stream_Idle (st\<lparr>pk := s\<rparr>)"

definition stream_kept :: "pipe_state \<Rightarrow> u8 stream_event \<Rightarrow> pipe_state \<Rightarrow> bool" where
  "stream_kept st e st' \<longleftrightarrow> pipe_ok (pin st')
     \<and> pipe_bytes (pin st) @ stream_in e = stream_out e @ pipe_bytes (pin st')"

lemma ring_stream_kept: "pipe_ok (pin st) \<Longrightarrow> ring_of (pin st') = ring_of (pin st) \<Longrightarrow> stream_kept st Stream_Idle st'"
  using ring_of_stream [of "pin st'" "pin st"] by (simp add: stream_kept_def)

lemma read_stream_kept:
  assumes "pipe_ok (pin st)" "pipe_read q nb buf count w st = Some (r, st')"
  shows "r = P_Ret n \<Longrightarrow> stream_kept st (Stream_Out (user_bytes (fsmem (pk st')) buf (nat n))) st'"
    "r = P_Sleep \<Longrightarrow> stream_kept st Stream_Idle st'"
  using pipe_read_effect(1) [OF assms] pipe_read_effect(2) [OF assms, of n] pipe_read_effect(3) [OF assms]
  by (auto simp: stream_kept_def)

lemma write_stream_kept:
  assumes "pipe_ok (pin st)" "0 \<le> w_written lc" "write_outer q nb w lc st = Some (r, st')"
  shows "stream_kept st (Stream_In (user_bytes (fsmem (pk st)) (w_buf lc) (nat (write_done r - w_written lc)))) st'"
  using write_outer_effect [OF assms(3)] assms(1,2) by (simp add: write_effect_def stream_kept_def)

lemma pipe_step_stream: "pipe_step st e st' \<Longrightarrow> pipe_ok (pin st) \<Longrightarrow> stream_kept st e st'"
proof (induction rule: pipe_step.induct)
  case (read q nb buf count w st n st')
  then show ?case using read_stream_kept(1) by blast
next
  case (read_sleeps q nb buf count w st st')
  then show ?case using read_stream_kept(2) by blast
next
  case (read_on q buf count w st n st')
  then obtain s where "pipe_read q False buf count w (st\<lparr>pk := s\<rparr>) = Some (P_Ret n, st')"
    by (auto simp: pipe_read_resume_def split: bind_splits)
  then show ?case using read_stream_kept(1) [of "st\<lparr>pk := s\<rparr>"] read_on(2) by (auto simp: stream_kept_def)
next
  case (read_sleeps_on q buf count w st st')
  then obtain s where "pipe_read q False buf count w (st\<lparr>pk := s\<rparr>) = Some (P_Sleep, st')"
    by (auto simp: pipe_read_resume_def split: bind_splits)
  then show ?case using read_stream_kept(2) [of "st\<lparr>pk := s\<rparr>"] read_sleeps_on(2) by (auto simp: stream_kept_def)
next
  case (put q nb buf count w st r st')
  show ?case
  proof (cases "p_readers (pin st) = 0")
    case True
    then show ?thesis using put by (auto simp: pipe_write_def stream_kept_def)
  next
    case False
    let ?lc = "\<lparr>w_count = count, w_buf = buf, w_free = (if count \<le> PIPE_BUF then count else 1), w_written = 0\<rparr>"
    show ?thesis using write_stream_kept [of st ?lc q nb w r st'] put False by (simp add: pipe_write_def)
  qed
next
  case (put_on lc q w st s r st')
  then show ?case using write_stream_kept [of "st\<lparr>pk := s\<rparr>" lc q False w r st'] by (simp add: stream_kept_def)
next
  case (opens q w f st x f' st')
  then show ?case using ring_kept_open [of st q w f] ring_stream_kept by (simp add: ring_kept_def)
next
  case (opens_on q w l f st x f' st')
  then show ?case using ring_kept_resume [of st q w l f] ring_stream_kept by (simp add: ring_kept_def)
next
  case (page b st n st')
  then have "st' = st" by (auto simp: fifo_install_def pipe_ok_def)
  then show ?case using page ring_stream_kept by simp
qed (auto intro: ring_stream_kept dest: ring_release)

interpretation pipe: byte_stream "\<lambda>st. pipe_ok (pin st)" pipe_step "\<lambda>st. pipe_bytes (pin st)" 4096
proof
  fix st st' :: pipe_state and e
  show "pipe_step st e st' \<Longrightarrow> pipe_ok (pin st) \<Longrightarrow> pipe_ok (pin st')"
    using pipe_step_stream by (auto simp: stream_kept_def)
  show "pipe_step st e st' \<Longrightarrow> pipe_ok (pin st) \<Longrightarrow> pipe_bytes (pin st) @ stream_in e = stream_out e @ pipe_bytes (pin st')"
    using pipe_step_stream by (auto simp: stream_kept_def)
  show "pipe_ok (pin st) \<Longrightarrow> length (pipe_bytes (pin st)) \<le> 4096" by (rule pipe_bytes_bound)
qed

end
