(* ===== verification/Pipe_Theorems.thy ===== *)
theory Pipe_Theorems
  imports Pipe_Laws
begin

text \<open>
  The properties of pipes and FIFOs.  Witnesses run on \<^verbatim>\<open>demo_pipe\<close>: three bytes in the buffer, two of them before its end and
  one after the wrap.
\<close>

definition demo_pipe :: pipe_state where
  "demo_pipe = \<lparr>pk = demo_kernel\<lparr>fsmem := (\<lambda>a. ucast a)\<rparr>,
     pin = \<lparr>p_base = Some ([3] @ replicate 4093 0 @ [1, 2]), p_start = 4094, p_len = 3, p_lock = 0,
            p_rd_openers = 0, p_wr_openers = 0, p_readers = 1, p_writers = 1\<rparr>\<rparr>"

lemma demo_pipe_ok: "pipe_ok (pin demo_pipe)"
  by (simp add: pipe_ok_def demo_pipe_def)

lemma demo_pipe_bytes: "pipe_bytes (pin demo_pipe) = [1, 2, 3]"
proof -
  have "rotate 4094 ([3] @ replicate 4093 0 @ [1, 2]) = ([1, 2] @ [3] @ replicate 4093 0 :: u8 list)"
    using rotate_append [of "[3] @ replicate 4093 (0 :: u8)" "[1, 2]"] by simp
  then show ?thesis by (simp add: pipe_bytes_def demo_pipe_def)
qed

lemma user_bytes_two: "user_bytes m a 2 = [m a, m (a + 1)]"
  by (simp add: numeral_2_eq_2 get_fs_byte_def)

lemma demo_pipe_fields: "p_len (pin demo_pipe) = 3" "p_lock (pin demo_pipe) = 0" "p_readers (pin demo_pipe) = 1"
  "user_bytes (fsmem (pk demo_pipe)) 65 2 = [65, 66]"
  by (simp_all add: demo_pipe_def user_bytes_two)

lemma demo_pipe_ring: "wq_ring (pk demo_pipe) q []"
  by (simp add: demo_pipe_def wq_ring_def demo_kernel_def)

lemma pipe_write_room:
  assumes "pipe_ok (pin st)" "0 < count" "count \<le> PIPE_BUF" "p_readers (pin st) \<noteq> 0" "wq_ring (pk st) q ws"
    and room: "p_lock (pin st) = 0" "count \<le> PIPE_BUF - p_len (pin st)"
  shows "\<exists>st'. pipe_write q nb buf count w st = Some (W_Ret count, st')
    \<and> pipe_bytes (pin st') = pipe_bytes (pin st) @ user_bytes (fsmem (pk st)) buf (nat count) \<and> p_lock (pin st') = 0"
proof -
  let ?p = "(pin st)\<lparr>p_lock := uwrap (p_lock (pin st) + 1)\<rparr>" and ?m = "fsmem (pk st)"
  have "pipe_ok ?p" using assms(1) by simp
  from write_loop_effect [OF this, of count buf 0 ?m]
  obtain b l p' where l: "write_loop count buf 0 ?m ?p = Some (0, buf + word_of_int count, count, p')"
    and p': "p' = ?p\<lparr>p_base := b, p_len := l\<rparr>" "pipe_bytes p' = pipe_bytes (pin st) @ user_bytes ?m buf (nat count)"
    using room(2) assms(2) by auto
  let ?q = "p'\<lparr>p_lock := uwrap (p_lock p' - 1)\<rparr>"
  have lock: "p_lock ?q = 0" using p'(1) room(1) by simp
  obtain st1 where w: "pipe_wake q (st\<lparr>pin := ?q\<rparr>) = Some st1"
    using wake_up_interruptible_ring [OF assms(5)] by (auto simp: pipe_wake_def)
  have st1: "pin st1 = ?q" using pipe_wake_Some [OF w] by simp
  let ?lc = "\<lparr>w_count = 0, w_buf = buf + word_of_int count, w_free = 1, w_written = count\<rparr>"
  have fin: "write_outer q nb w ?lc st1 = Some (W_Ret count, st1)" by (simp add: write_outer_done)
  have go: "\<not> (PIPE_FREE (pin st) < uwrap count \<or> p_lock (pin st) \<noteq> 0)"
    using room assms(2,3) pipe_ok_macros(1) [OF assms(1)] by simp
  let ?la = "\<lparr>w_count = count, w_buf = buf, w_free = count, w_written = 0\<rparr>"
  have "write_outer q nb w ?la st = write_outer q nb w ?lc st1"
    using write_outer_go [of ?la st 0 "buf + word_of_int count" count p' q st1 nb w] assms(2) go l w by simp
  then have "pipe_write q nb buf count w st = Some (W_Ret count, st1)"
    using fin assms(3,4) by (simp add: pipe_write_def)
  then show ?thesis using st1 p'(2) lock by simp
qed

text \<open>C22: whatever reads, writes, opens and closes the processes using a pipe do, in whatever order and with whatever sleeps,
  interruptions and errors, the bytes that were in the pipe followed by those written are the bytes read followed by
  those still in the pipe: nothing is lost, repeated or reordered.  The pipe never holds more than 4096.\<close>

theorem pipe_conserves_bytes:
  assumes "history pipe_step st es st'" "pipe_ok (pin st)"
  shows "pipe_bytes (pin st) @ concat (map stream_in es) = concat (map stream_out es) @ pipe_bytes (pin st')
    \<and> pipe_ok (pin st') \<and> length (pipe_bytes (pin st')) \<le> 4096"
  using pipe.conserved [OF assms] pipe.history_invar [OF assms] pipe.bounded [OF pipe.history_invar [OF assms]] by blast

theorem pipe_conserves_bytes_witness:
  "\<exists>st'. history pipe_step demo_pipe [Stream_In [65, 66]] st' \<and> pipe_bytes (pin st') = [1, 2, 3, 65, 66]"
proof -
  obtain st' where "pipe_write (Wq 1) True 65 2 9 demo_pipe = Some (W_Ret 2, st')"
    using pipe_write_room [OF demo_pipe_ok _ _ _ demo_pipe_ring, of 2 "Wq 1" True 65 9] by (auto simp: demo_pipe_fields)
  then have "pipe_step demo_pipe (Stream_In [65, 66]) st'" using pipe_step.put [of "Wq 1" True 65 2 9 demo_pipe] demo_pipe_fields(4) by fastforce
  then have "history pipe_step demo_pipe [Stream_In [65, 66]] st'" by (simp add: history_Cons)
  then show ?thesis using pipe_conserves_bytes [OF _ demo_pipe_ok] demo_pipe_bytes by fastforce
qed

text \<open>C23: a write of at most \<^verbatim>\<open>PIPE_BUF\<close> bytes to a pipe with readers is atomic: if the pipe is not locked and has room for all
  of them it returns after appending exactly these bytes; otherwise it writes none of them.\<close>

theorem pipe_write_atomic:
  assumes "pipe_ok (pin st)" "0 < count" "count \<le> PIPE_BUF" "p_readers (pin st) \<noteq> 0" "wq_ring (pk st) q ws"
  shows "if p_lock (pin st) = 0 \<and> count \<le> PIPE_BUF - p_len (pin st)
    then \<exists>st'. pipe_write q nb buf count w st = Some (W_Ret count, st')
      \<and> pipe_bytes (pin st') = pipe_bytes (pin st) @ user_bytes (fsmem (pk st)) buf (nat count) \<and> p_lock (pin st') = 0
    else \<forall>r st'. pipe_write q nb buf count w st = Some (r, st') \<longrightarrow> pin st' = pin st \<and> write_done r = 0"
proof (cases "p_lock (pin st) = 0 \<and> count \<le> PIPE_BUF - p_len (pin st)")
  case True
  then show ?thesis using pipe_write_room [OF assms, of nb buf w] by simp
next
  case False
  let ?la = "\<lparr>w_count = count, w_buf = buf, w_free = count, w_written = 0\<rparr>"
  have stop: "PIPE_FREE (pin st) < uwrap count \<or> p_lock (pin st) \<noteq> 0"
    using False assms(2,3) pipe_ok_macros(1) [OF assms(1)] by auto
  have "pin st' = pin st \<and> write_done r = 0" if "pipe_write q nb buf count w st = Some (r, st')" for r st'
    using write_outer_stop [of ?la st q nb w r st'] that assms(2-4) stop by (auto simp: pipe_write_def written_or_def)
  then show ?thesis unfolding if_not_P [OF False] by blast
qed

theorem pipe_write_atomic_witness:
  "\<exists>st'. pipe_write (Wq 1) True 65 2 9 demo_pipe = Some (W_Ret 2, st') \<and> pipe_bytes (pin st') = [1, 2, 3, 65, 66]"
  using pipe_write_atomic [OF demo_pipe_ok _ _ _ demo_pipe_ring, of 2 "Wq 1" True 65 9] demo_pipe_bytes
  by (auto simp: demo_pipe_fields)

end
