(* ===== verification/File_Locks.thy ===== *)
theory File_Locks
  imports Sched
begin

text \<open>
  Record locks on files: \<^verbatim>\<open>fs/locks.c\<close>.  The table \<^verbatim>\<open>file_lock_table\<close> is a store of \<^verbatim>\<open>file_lock\<close> structures indexed by address, so that
  \<^verbatim>\<open>caller\<close>, \<^verbatim>\<open>left\<close> and \<^verbatim>\<open>right\<close> of \<^verbatim>\<open>lock_it\<close> may point to the same one.  The chains through \<^verbatim>\<open>fl_next\<close>, one per inode and the
  free list, are the lists of addresses on them; the pointer \<^verbatim>\<open>before\<close> of the code is a position in such a list, given by what
  is before it and what is from it on.  The structure on the stack of a caller is at an address of its own.  Signed
  additions wrap around.  A panic is \<^verbatim>\<open>None\<close>.
\<close>

abbreviation (input) NR_FILE_LOCKS :: nat where "NR_FILE_LOCKS \<equiv> 64"
abbreviation (input) OFFSET_MAX :: int where "OFFSET_MAX \<equiv> 2147483647"
abbreviation (input) F_RDLCK :: int where "F_RDLCK \<equiv> 0"
abbreviation (input) F_WRLCK :: int where "F_WRLCK \<equiv> 1"
abbreviation (input) F_UNLCK :: int where "F_UNLCK \<equiv> 2"
abbreviation (input) F_EXLCK :: int where "F_EXLCK \<equiv> 4"
abbreviation (input) F_SHLCK :: int where "F_SHLCK \<equiv> 8"
abbreviation (input) F_SETLKW :: int where "F_SETLKW \<equiv> 7"
abbreviation (input) MAX_FD :: nat where "MAX_FD \<equiv> 256"

type_synonym laddr = nat

record file_lock =
  fl_owner :: "tid option"
  fl_fd :: nat
  fl_type :: int
  fl_whence :: int
  fl_start :: int
  fl_end :: int

record flock =
  l_type :: int
  l_whence :: int
  l_start :: int
  l_len :: int
  l_pid :: int

text \<open>What the functions use of \<^verbatim>\<open>struct file\<close> and its inode.\<close>

record lock_file =
  lf_inode :: "nat option"
  lf_reg :: bool
  lf_size :: int
  lf_pos :: int
  lf_mode :: u16

record lock_state =
  lk :: kernel
  lck :: "laddr \<Rightarrow> file_lock"
  lock_free_list :: "laddr list"
  i_flock :: "nat \<Rightarrow> laddr list"

definition fl_wait :: "laddr \<Rightarrow> wqhead" where
  "fl_wait a = Wq a"

definition upd_lock :: "laddr \<Rightarrow> (file_lock \<Rightarrow> file_lock) \<Rightarrow> lock_state \<Rightarrow> lock_state" where
  "upd_lock a f st = st\<lparr>lck := (lck st)(a := f (lck st a))\<rparr>"

definition fcntl_init_locks :: "lock_state \<Rightarrow> lock_state" where
  "fcntl_init_locks st =
     st\<lparr>lck := (\<lambda>a. if a < NR_FILE_LOCKS then (lck st a)\<lparr>fl_owner := None\<rparr> else lck st a),
        lock_free_list := [0..<NR_FILE_LOCKS]\<rparr>"

section \<open>Conflicts\<close>

definition overlap :: "file_lock \<Rightarrow> file_lock \<Rightarrow> bool" where
  "overlap fl1 fl2 \<longleftrightarrow> fl_end fl1 \<ge> fl_start fl2 \<and> fl_end fl2 \<ge> fl_start fl1"

definition conflict :: "file_lock \<Rightarrow> file_lock \<Rightarrow> bool" where
  "conflict caller_fl sys_fl =
     (if fl_owner caller_fl = fl_owner sys_fl \<and> fl_fd caller_fl = fl_fd sys_fl then False
      else if \<not> overlap caller_fl sys_fl then False
      else if fl_type caller_fl = F_RDLCK then fl_type sys_fl \<noteq> F_RDLCK
      else if fl_type caller_fl = F_WRLCK then True
      else False)"

section \<open>Arguments\<close>

definition get_flock :: "umem \<Rightarrow> u32 \<Rightarrow> flock" where
  "get_flock m a =
     \<lparr>l_type = sint (get_fs_word m a), l_whence = sint (get_fs_word m (a + 2)), l_start = to_s32 (get_fs_long m (a + 4)),
      l_len = to_s32 (get_fs_long m (a + 8)), l_pid = to_s32 (get_fs_long m (a + 12))\<rparr>"

definition put_flock :: "flock \<Rightarrow> u32 \<Rightarrow> umem \<Rightarrow> umem" where
  "put_flock l a m =
     put_fs_long (to_u32 (l_pid l)) (a + 12) (put_fs_long (to_u32 (l_len l)) (a + 8) (put_fs_long (to_u32 (l_start l)) (a + 4)
       (put_fs_word (word_of_int (l_whence l)) (a + 2) (put_fs_word (word_of_int (l_type l)) a m))))"

definition lock_base :: "lock_file \<Rightarrow> int \<Rightarrow> int option" where
  "lock_base f whence =
     (if whence = 0 then Some 0 else if whence = 1 then Some (lf_pos f) else if whence = 2 then Some (lf_size f) else None)"

text \<open>\<^verbatim>\<open>copy_flock\<close>: the \<^verbatim>\<open>file_lock\<close> for a \<^verbatim>\<open>flock\<close>, or \<^verbatim>\<open>None\<close> where it returns 0.\<close>

definition copy_flock :: "tid \<Rightarrow> lock_file \<Rightarrow> flock \<Rightarrow> nat \<Rightarrow> file_lock option" where
  "copy_flock c f l fd =
     (if lf_inode f = None \<or> \<not> lf_reg f then None
      else if l_type l \<notin> {F_UNLCK, F_RDLCK, F_WRLCK, F_SHLCK, F_EXLCK} then None
      else do {
        base \<leftarrow> lock_base f (l_whence l);
        let start = swrap (base + l_start l);
        let stop = swrap (start + l_len l - 1);
        if start < 0 \<or> l_len l < 0 then None
        else Some \<lparr>fl_owner = Some c, fl_fd = fd, fl_type = l_type l, fl_whence = 0, fl_start = start,
                   fl_end = (if l_len l = 0 \<or> stop < 0 then OFFSET_MAX else stop)\<rparr> })"

section \<open>Changing the list of an inode\<close>

text \<open>\<^verbatim>\<open>alloc_lock\<close>: a fresh structure with the contents of \<^verbatim>\<open>fl\<close>, to be put at the position by the caller; the inner option is
  \<^verbatim>\<open>NULL\<close>.\<close>

definition alloc_lock :: "laddr \<Rightarrow> nat \<Rightarrow> lock_state \<Rightarrow> (laddr \<times> lock_state) option option" where
  "alloc_lock fl fd st =
     (case lock_free_list st of
        [] \<Rightarrow> Some None
      | tmp # free \<Rightarrow>
          if fl_owner (lck st tmp) \<noteq> None then None
          else let st = st\<lparr>lock_free_list := free, lck := (lck st)(tmp := lck st fl)\<rparr>;
                   st = upd_lock tmp (\<lambda>x. x\<lparr>fl_owner := Some (current (lk st)), fl_fd := fd\<rparr>) st
               in Some (Some (tmp, st\<lparr>lk := set_wq_head (fl_wait tmp) None (lk st)\<rparr>)))"

text \<open>\<^verbatim>\<open>free_lock\<close> of the structure \<^verbatim>\<open>fl\<close>, which the caller takes off its list.\<close>

definition free_lock :: "laddr \<Rightarrow> lock_state \<Rightarrow> lock_state option" where
  "free_lock fl st =
     (if fl_owner (lck st fl) = None then None
      else let st = upd_lock fl (\<lambda>x. x\<lparr>fl_owner := None\<rparr>) (st\<lparr>lock_free_list := fl # lock_free_list st\<rparr>)
           in do { s \<leftarrow> wake_up (fl_wait fl) (lk st); Some (st\<lparr>lk := s\<rparr>) })"

definition same_holder :: "file_lock \<Rightarrow> file_lock \<Rightarrow> bool" where
  "same_holder x y \<longleftrightarrow> fl_owner x = fl_owner y \<and> fl_fd x = fl_fd y"

text \<open>The locals of \<^verbatim>\<open>lock_it\<close>: the pointers and the flag, and the list before and from \<^verbatim>\<open>*before\<close> on.\<close>

record lock_locals =
  lc_caller :: laddr
  lc_left :: "laddr option"
  lc_right :: "laddr option"
  lc_added :: bool
  lc_pre :: "laddr list"
  lc_post :: "laddr list"

definition next_lock :: "laddr \<Rightarrow> lock_locals \<Rightarrow> lock_locals" where
  "next_lock fl lc = lc\<lparr>lc_pre := lc_pre lc @ [fl]\<rparr>"

text \<open>Adjacent or overlapping locks of the same type become one.\<close>

definition merge_locks :: "laddr \<Rightarrow> laddr \<Rightarrow> lock_state \<Rightarrow> lock_state" where
  "merge_locks caller fl st =
    (let c = lck st caller; f = lck st fl;
         st = (if fl_start f > fl_start c then upd_lock fl (\<lambda>x. x\<lparr>fl_start := fl_start c\<rparr>) st
               else upd_lock caller (\<lambda>x. x\<lparr>fl_start := fl_start f\<rparr>) st);
         c = lck st caller; f = lck st fl
     in if fl_end f < fl_end c then upd_lock fl (\<lambda>x. x\<lparr>fl_end := fl_end c\<rparr>) st
        else upd_lock caller (\<lambda>x. x\<lparr>fl_end := fl_end f\<rparr>) st)"

fun lock_loop :: "laddr list \<Rightarrow> lock_locals \<Rightarrow> lock_state \<Rightarrow> (lock_locals \<times> lock_state) option" where
  "lock_loop [] lc st = Some (lc\<lparr>lc_post := []\<rparr>, st)"
| "lock_loop (fl # rest) lc st =
    (let f = lck st fl; caller = lc_caller lc; c = lck st caller; stop = Some (lc\<lparr>lc_post := fl # rest\<rparr>, st)
     in if \<not> same_holder c f then stop
        else if fl_type c = fl_type f
        then if fl_end f < swrap (fl_start c - 1) then lock_loop rest (next_lock fl lc) st
             else if fl_start f > swrap (fl_end c + 1) then stop
             else let st = merge_locks caller fl st
                  in if lc_added lc then Option.bind (free_lock fl st) (lock_loop rest lc)
                     else lock_loop rest (next_lock fl (lc\<lparr>lc_caller := fl, lc_added := True\<rparr>)) st
        else if fl_end f < fl_start c then lock_loop rest (next_lock fl lc) st
        else if fl_start f > fl_end c then stop
        else let lc = (if fl_type c = F_UNLCK then lc\<lparr>lc_added := True\<rparr> else lc);
                 lc = (if fl_start f < fl_start c then lc\<lparr>lc_left := Some fl\<rparr> else lc)
             in if fl_end f > fl_end c then Some (lc\<lparr>lc_right := Some fl, lc_post := fl # rest\<rparr>, st)
                else if fl_start f \<ge> fl_start c
                then if lc_added lc then Option.bind (free_lock fl st) (lock_loop rest lc)
                     else Option.bind (wake_up (fl_wait fl) (lk st)) (\<lambda>s.
                            lock_loop rest (next_lock fl (lc\<lparr>lc_caller := fl, lc_added := True\<rparr>))
                              (upd_lock fl (\<lambda>x. x\<lparr>fl_start := fl_start c, fl_end := fl_end c, fl_type := fl_type c\<rparr>) (st\<lparr>lk := s\<rparr>)))
                else lock_loop rest (next_lock fl lc) st)"

text \<open>What follows the loop: insert the new lock unless it has become part of an old one, split an old lock that surrounds it,
  and cut those that overlap its ends.  The lists before and from \<^verbatim>\<open>*before\<close> on change as structures are inserted.\<close>

definition trim_locks :: "laddr \<Rightarrow> laddr option \<Rightarrow> laddr option \<Rightarrow> lock_state \<Rightarrow> lock_state" where
  "trim_locks caller left right st =
    (let st = (case right of None \<Rightarrow> st
               | Some r \<Rightarrow> upd_lock r (\<lambda>x. x\<lparr>fl_start := swrap (fl_end (lck st caller) + 1)\<rparr>) st)
     in case left of None \<Rightarrow> st
        | Some l \<Rightarrow> upd_lock l (\<lambda>x. x\<lparr>fl_end := swrap (fl_start (lck st caller) - 1)\<rparr>) st)"

definition set_locks :: "nat \<Rightarrow> laddr list \<Rightarrow> lock_state \<Rightarrow> lock_state" where
  "set_locks ino ls st = st\<lparr>i_flock := (i_flock st)(ino := ls)\<rparr>"

definition split_lock :: "nat \<Rightarrow> nat \<Rightarrow> laddr \<Rightarrow> bool \<Rightarrow> lock_locals \<Rightarrow> lock_state \<Rightarrow> (int \<times> lock_state) option" where
  "split_lock ino fd caller added lc st =
    (if lc_right lc \<noteq> None \<and> lc_left lc = lc_right lc
     then do {
       r \<leftarrow> alloc_lock (the (lc_right lc)) fd st;
       case r of
         None \<Rightarrow>
           if added then Some (- ENOLCK, set_locks ino (lc_pre lc @ lc_post lc) st)
           else do { st \<leftarrow> free_lock caller st; Some (- ENOLCK, set_locks ino (lc_pre lc @ tl (lc_post lc)) st) }
       | Some (l, st) \<Rightarrow>
           Some (0, set_locks ino (lc_pre lc @ l # lc_post lc) (trim_locks caller (Some l) (lc_right lc) st)) }
     else Some (0, set_locks ino (lc_pre lc @ lc_post lc) (trim_locks caller (lc_left lc) (lc_right lc) st)))"

definition finish_lock :: "nat \<Rightarrow> nat \<Rightarrow> lock_locals \<Rightarrow> lock_state \<Rightarrow> (int \<times> lock_state) option" where
  "finish_lock ino fd lc st =
    (if lc_added lc then split_lock ino fd (lc_caller lc) True lc st
     else if fl_type (lck st (lc_caller lc)) = F_UNLCK then Some (- EINVAL, set_locks ino (lc_pre lc @ lc_post lc) st)
     else do {
       r \<leftarrow> alloc_lock (lc_caller lc) fd st;
       case r of
         None \<Rightarrow> Some (- ENOLCK, set_locks ino (lc_pre lc @ lc_post lc) st)
       | Some (a, st) \<Rightarrow> split_lock ino fd a False (lc\<lparr>lc_post := a # lc_post lc\<rparr>) st })"

text \<open>\<^verbatim>\<open>lock_it\<close>: the new lock is in the structure \<^verbatim>\<open>cl\<close> of the caller.\<close>

definition lock_it :: "nat \<Rightarrow> laddr \<Rightarrow> nat \<Rightarrow> lock_state \<Rightarrow> (int \<times> lock_state) option" where
  "lock_it ino cl fd st =
    (let other = (\<lambda>fl. \<not> same_holder (lck st cl) (lck st fl));
         ls = i_flock st ino
     in do {
       (lc, st) \<leftarrow> lock_loop (dropWhile other ls)
         \<lparr>lc_caller = cl, lc_left = None, lc_right = None, lc_added = False, lc_pre = takeWhile other ls, lc_post = []\<rparr> st;
       finish_lock ino fd lc st })"

section \<open>The system calls\<close>

text \<open>The open files of the current process are the argument \<^verbatim>\<open>filp\<close>.\<close>

definition fcntl_getlk :: "(nat \<Rightarrow> lock_file option) \<Rightarrow> nat \<Rightarrow> u32 \<Rightarrow> lock_state \<Rightarrow> int \<times> lock_state" where
  "fcntl_getlk filp fd l st =
     (case (if fd \<ge> MAX_FD then None else filp fd) of
        None \<Rightarrow> (- EBADF, st)
      | Some f \<Rightarrow>
          let error = verify_area VERIFY_WRITE l 16; m = fsmem (lk st); fk = get_flock m l;
              put = (\<lambda>fk. st\<lparr>lk := (lk st)\<lparr>fsmem := put_flock fk l m\<rparr>\<rparr>)
          in if error \<noteq> 0 then (error, st)
             else if l_type fk = F_UNLCK then (- EINVAL, st)
             else case copy_flock (current (lk st)) f fk fd of
                    None \<Rightarrow> (- EINVAL, st)
                  | Some file_lock \<Rightarrow>
                      (case find (\<lambda>a. conflict file_lock (lck st a)) (i_flock st (the (lf_inode f))) of
                         None \<Rightarrow> (0, put (fk\<lparr>l_type := F_UNLCK\<rparr>))
                       | Some a \<Rightarrow>
                           let b = lck st a
                           in (0, put \<lparr>l_type = fl_type b, l_whence = fl_whence b, l_start = fl_start b,
                                l_len = (if fl_end b = OFFSET_MAX then 0 else swrap (fl_end b - fl_start b + 1)),
                                l_pid = pid (tsk (lk st) (the (fl_owner b)))\<rparr>)))"

text \<open>The access the mode of the file must give, and the type that is used for the lock.\<close>

definition lock_mode :: "file_lock \<Rightarrow> u16 \<Rightarrow> file_lock option" where
  "lock_mode fl mode =
     (if fl_type fl = F_RDLCK then if mode AND 1 = 0 then None else Some fl
      else if fl_type fl = F_WRLCK then if mode AND 2 = 0 then None else Some fl
      else if fl_type fl = F_SHLCK then if mode AND 3 = 0 then None else Some (fl\<lparr>fl_type := F_RDLCK\<rparr>)
      else if fl_type fl = F_EXLCK then if mode AND 3 = 0 then None else Some (fl\<lparr>fl_type := F_WRLCK\<rparr>)
      else Some fl)"

datatype setlk_result = Setlk_Ret int | Setlk_Sleep laddr

text \<open>From the label \<^verbatim>\<open>repeat\<close> on; the new lock is in the caller's structure \<^verbatim>\<open>cl\<close>.\<close>

definition setlk_round :: "nat \<Rightarrow> laddr \<Rightarrow> nat \<Rightarrow> int \<Rightarrow> waddr \<Rightarrow> lock_state \<Rightarrow> (setlk_result \<times> lock_state) option" where
  "setlk_round ino cl fd cmd w st =
     (case (if fl_type (lck st cl) = F_UNLCK then None else find (\<lambda>a. conflict (lck st cl) (lck st a)) (i_flock st ino)) of
        None \<Rightarrow> do { (r, st) \<leftarrow> lock_it ino cl fd st; Some (Setlk_Ret r, st) }
      | Some a \<Rightarrow>
          if cmd = F_SETLKW
          then if signal_pending (cur (lk st)) then Some (Setlk_Ret (- ERESTARTSYS), st)
               else do { s \<leftarrow> sleep_on_enter (fl_wait a) w TASK_INTERRUPTIBLE (lk st); Some (Setlk_Sleep a, st\<lparr>lk := s\<rparr>) }
          else Some (Setlk_Ret (- EAGAIN), st))"

definition fcntl_setlk :: "(nat \<Rightarrow> lock_file option) \<Rightarrow> nat \<Rightarrow> int \<Rightarrow> u32 \<Rightarrow> laddr \<Rightarrow> waddr \<Rightarrow> lock_state \<Rightarrow> (setlk_result \<times> lock_state) option" where
  "fcntl_setlk filp fd cmd l cl w st =
     (case (if fd \<ge> MAX_FD then None else filp fd) of
        None \<Rightarrow> Some (Setlk_Ret (- EBADF), st)
      | Some f \<Rightarrow>
          let error = verify_area VERIFY_WRITE l 16
          in if error \<noteq> 0 then Some (Setlk_Ret error, st)
             else case copy_flock (current (lk st)) f (get_flock (fsmem (lk st)) l) fd of
                    None \<Rightarrow> Some (Setlk_Ret (- EINVAL), st)
                  | Some fl \<Rightarrow>
                      (case lock_mode fl (lf_mode f) of
                         None \<Rightarrow> Some (Setlk_Ret (- EBADF), st)
                       | Some fl \<Rightarrow> setlk_round (the (lf_inode f)) cl fd cmd w (upd_lock cl (\<lambda>_. fl) st)))"

definition setlk_resume :: "nat \<Rightarrow> laddr \<Rightarrow> nat \<Rightarrow> int \<Rightarrow> laddr \<Rightarrow> waddr \<Rightarrow> lock_state \<Rightarrow> (setlk_result \<times> lock_state) option" where
  "setlk_resume ino cl fd cmd a w st =
     do { s \<leftarrow> sleep_on_resume (fl_wait a) w (lk st);
          let st = st\<lparr>lk := s\<rparr>;
          if signal_pending (cur s) then Some (Setlk_Ret (- ERESTARTSYS), st)
          else setlk_round ino cl fd cmd w st }"

fun free_locks :: "laddr list \<Rightarrow> lock_state \<Rightarrow> lock_state option" where
  "free_locks [] st = Some st"
| "free_locks (a # ls) st = Option.bind (free_lock a st) (free_locks ls)"

definition fcntl_remove_locks :: "tid \<Rightarrow> nat \<Rightarrow> nat \<Rightarrow> lock_state \<Rightarrow> lock_state option" where
  "fcntl_remove_locks t ino fd st =
    (let mine = (\<lambda>a. fl_owner (lck st a) = Some t \<and> fl_fd (lck st a) = fd);
         ls = i_flock st ino; rest = dropWhile (Not \<circ> mine) ls
     in do { st \<leftarrow> free_locks (takeWhile mine rest) st;
             Some (set_locks ino (takeWhile (Not \<circ> mine) ls @ dropWhile mine rest) st) })"

end
