(* ===== verification/File_Locks_Laws.thy ===== *)
theory File_Locks_Laws
  imports File_Locks
begin

text \<open>
  \<^verbatim>\<open>lock_it\<close> works on a sorted list of intervals, merging, cutting, splitting and dropping them.  The lemmas show what this means byte
  by byte: afterwards the holder of the new lock holds the bytes of its interval with its type (or not at all, for an
  unlock) and all other bytes as before.  The proof is an invariant of the loop over the list.
\<close>

section \<open>Bytes held\<close>

definition holder :: "file_lock \<Rightarrow> tid option \<times> nat" where
  "holder f = (fl_owner f, fl_fd f)"

lemma same_holder_iff: "same_holder x y \<longleftrightarrow> holder x = holder y"
  by (auto simp: same_holder_def holder_def)

definition covers :: "file_lock \<Rightarrow> int \<Rightarrow> bool" where
  "covers f x \<longleftrightarrow> fl_start f \<le> x \<and> x \<le> fl_end f"

text \<open>Some lock among those at \<^verbatim>\<open>A\<close> gives the holder \<^verbatim>\<open>h\<close> the byte \<^verbatim>\<open>x\<close> with type \<^verbatim>\<open>t\<close>.\<close>

definition holds :: "(laddr \<Rightarrow> file_lock) \<Rightarrow> laddr set \<Rightarrow> tid option \<times> nat \<Rightarrow> int \<Rightarrow> int \<Rightarrow> bool" where
  "holds L A h x t \<longleftrightarrow> (\<exists>a\<in>A. holder (L a) = h \<and> fl_type (L a) = t \<and> covers (L a) x)"

lemma holds_Un: "holds L (A \<union> B) h x t \<longleftrightarrow> holds L A h x t \<or> holds L B h x t"
  by (auto simp: holds_def)

lemma holds_insert: "holds L (insert a A) h x t \<longleftrightarrow> (holder (L a) = h \<and> fl_type (L a) = t \<and> covers (L a) x) \<or> holds L A h x t"
  by (auto simp: holds_def)

lemma holds_empty [simp]: "\<not> holds L {} h x t"
  by (simp add: holds_def)

lemma holds_cong: "(\<And>a. a \<in> A \<Longrightarrow> L' a = L a) \<Longrightarrow> holds L' A h x t = holds L A h x t"
  by (auto simp: holds_def)

lemma holds_other: "(\<And>a. a \<in> A \<Longrightarrow> holder (L a) \<noteq> h) \<Longrightarrow> \<not> holds L A h x t"
  by (auto simp: holds_def)

text \<open>A list of locks of one holder: proper intervals of a lock type, in increasing order and disjoint.\<close>

definition lock_entry :: "file_lock \<Rightarrow> bool" where
  "lock_entry f \<longleftrightarrow> 0 \<le> fl_start f \<and> fl_start f \<le> fl_end f \<and> fl_end f \<le> OFFSET_MAX \<and> (fl_type f = F_RDLCK \<or> fl_type f = F_WRLCK)"

definition ordered :: "(laddr \<Rightarrow> file_lock) \<Rightarrow> laddr list \<Rightarrow> bool" where
  "ordered L os \<longleftrightarrow> (\<forall>a\<in>set os. lock_entry (L a)) \<and> sorted_wrt (\<lambda>a b. fl_end (L a) < fl_start (L b)) os"

lemma ordered_Cons: "ordered L (a # os) \<longleftrightarrow> lock_entry (L a) \<and> (\<forall>b\<in>set os. fl_end (L a) < fl_start (L b)) \<and> ordered L os"
  by (auto simp: ordered_def)

lemma ordered_append:
  "ordered L (xs @ ys) \<longleftrightarrow> ordered L xs \<and> ordered L ys \<and> (\<forall>a\<in>set xs. \<forall>b\<in>set ys. fl_end (L a) < fl_start (L b))"
  by (auto simp: ordered_def sorted_wrt_append)

lemma ordered_cong: "(\<And>a. a \<in> set os \<Longrightarrow> L' a = L a) \<Longrightarrow> ordered L' os = ordered L os"
proof (induction os)
  case (Cons a os)
  then show ?case by (auto simp: ordered_Cons)
qed (simp add: ordered_def)

section \<open>Waking and freeing\<close>

definition rings_ok :: "kernel \<Rightarrow> bool" where
  "rings_ok s \<longleftrightarrow> (\<forall>a. \<exists>ws. wq_ring s (fl_wait a) ws)"

lemma wake_rings:
  assumes "rings_ok s"
  shows "\<exists>s'. wake_up (fl_wait a) s = Some s' \<and> rings_ok s' \<and> current s' = current s"
proof -
  obtain ws where ws: "wq_ring s (fl_wait a) ws" using assms by (auto simp: rings_ok_def)
  let ?s = "foldl (wake_entry {TASK_UNINTERRUPTIBLE, TASK_INTERRUPTIBLE}) s ws"
  have "wqe ?s = wqe s \<and> wqh ?s = wqh s \<and> current ?s = current s" by (induction ws rule: rev_induct) simp_all
  then show ?thesis using wake_up_ring [OF ws] assms by (auto simp: rings_ok_def wq_ring_def)
qed

lemma free_lock_effect:
  assumes "rings_ok (lk st)" "fl_owner (lck st a) \<noteq> None"
  shows "\<exists>st'. free_lock a st = Some st' \<and> lck st' = (lck st)(a := (lck st a)\<lparr>fl_owner := None\<rparr>)
    \<and> lock_free_list st' = a # lock_free_list st \<and> i_flock st' = i_flock st \<and> rings_ok (lk st') \<and> current (lk st') = current (lk st)"
  using wake_rings [OF assms(1), of a] assms(2) by (auto simp: free_lock_def Let_def upd_lock_def)

section \<open>The invariant of the loop\<close>

text \<open>The holder is \<^verbatim>\<open>h\<close>, the new lock of type \<^verbatim>\<open>t\<close> was for the bytes \<^verbatim>\<open>s0\<close> to \<^verbatim>\<open>e0\<close>, \<^verbatim>\<open>st0\<close> is the state before and \<^verbatim>\<open>old\<close> tells
  what \<^verbatim>\<open>h\<close> held in it.  The list consists of locks of others (\<^verbatim>\<open>A\<close>), locks of \<^verbatim>\<open>h\<close> passed (\<^verbatim>\<open>ow\<close>), the new lock when it is in
  the list, locks of \<^verbatim>\<open>h\<close> still to come (\<^verbatim>\<open>os\<close>), and locks of others (\<^verbatim>\<open>B\<close>).\<close>

definition in_list :: "laddr \<Rightarrow> lock_locals \<Rightarrow> laddr list" where
  "in_list cl lc = (if lc_caller lc = cl then [] else [lc_caller lc])"

definition walk_lists :: "tid option \<times> nat \<Rightarrow> laddr \<Rightarrow> laddr list \<Rightarrow> laddr list \<Rightarrow> laddr list \<Rightarrow> laddr list \<Rightarrow> lock_locals \<Rightarrow> lock_state \<Rightarrow> bool" where
  "walk_lists h cl A ow os B lc st \<longleftrightarrow>
     rings_ok (lk st) \<and> fst h \<noteq> None \<and> lc_pre lc = A @ ow @ in_list cl lc
     \<and> distinct (lock_free_list st @ A @ ow @ in_list cl lc @ os @ B) \<and> cl \<notin> set (lock_free_list st @ A @ ow @ os @ B)
     \<and> (\<forall>a\<in>set (lock_free_list st). fl_owner (lck st a) = None)
     \<and> (\<forall>a\<in>set A \<union> set B. holder (lck st a) \<noteq> h) \<and> (\<forall>a\<in>set ow \<union> set os. holder (lck st a) = h)
     \<and> ordered (lck st) (ow @ os)"

definition walk_caller :: "tid option \<times> nat \<Rightarrow> int \<Rightarrow> int \<Rightarrow> int \<Rightarrow> laddr \<Rightarrow> laddr list \<Rightarrow> laddr list \<Rightarrow> lock_locals \<Rightarrow> (laddr \<Rightarrow> file_lock) \<Rightarrow> bool" where
  "walk_caller h t s0 e0 cl ow os lc L \<longleftrightarrow>
    (let c = L (lc_caller lc)
     in holder c = h \<and> fl_type c = t \<and> 0 \<le> fl_start c \<and> fl_start c \<le> s0 \<and> s0 \<le> e0 \<and> e0 \<le> fl_end c \<and> fl_end c \<le> OFFSET_MAX
      \<and> e0 < OFFSET_MAX \<and> t \<in> {F_RDLCK, F_WRLCK, F_UNLCK} \<and> lc_right lc = None \<and> (t = F_UNLCK \<and> lc_left lc \<noteq> None \<longrightarrow> lc_added lc)
      \<and> (lc_caller lc = cl \<longleftrightarrow> \<not> (lc_added lc \<and> t \<noteq> F_UNLCK)) \<and> (lc_caller lc = cl \<longrightarrow> fl_start c = s0 \<and> fl_end c = e0)
      \<and> (fl_end c = e0 \<or> (\<forall>a\<in>set os. fl_end c < fl_start (L a)))
      \<and> (lc_left lc \<noteq> None \<or> lc_added lc \<longrightarrow> (\<forall>a\<in>set os. fl_start c < fl_start (L a)))
      \<and> (\<forall>a\<in>set ow. fl_end (L a) < fl_start c \<or> lc_left lc = Some a)
      \<and> (\<forall>l. lc_left lc = Some l \<longrightarrow> l \<in> set ow \<and> fl_type (L l) \<noteq> t \<and> fl_start (L l) < fl_start c
           \<and> fl_start c \<le> fl_end (L l) \<and> fl_end (L l) \<le> fl_end c))"

definition walk_bytes :: "tid option \<times> nat \<Rightarrow> int \<Rightarrow> int \<Rightarrow> int \<Rightarrow> (int \<Rightarrow> int \<Rightarrow> bool) \<Rightarrow> laddr set \<Rightarrow> file_lock \<Rightarrow> (laddr \<Rightarrow> file_lock) \<Rightarrow> bool" where
  "walk_bytes h t s0 e0 old own c L \<longleftrightarrow>
     (\<forall>x t'. \<not> covers c x \<longrightarrow> (holds L own h x t' \<longleftrightarrow> old x t'))
     \<and> (\<forall>x t'. covers c x \<and> \<not> (s0 \<le> x \<and> x \<le> e0) \<longrightarrow> (old x t' \<longleftrightarrow> t' = t))"

definition walk_inv :: "tid option \<times> nat \<Rightarrow> int \<Rightarrow> int \<Rightarrow> int \<Rightarrow> lock_state \<Rightarrow> (int \<Rightarrow> int \<Rightarrow> bool) \<Rightarrow> laddr \<Rightarrow> laddr list \<Rightarrow> laddr list \<Rightarrow> laddr list \<Rightarrow>
    laddr list \<Rightarrow> lock_locals \<Rightarrow> lock_state \<Rightarrow> bool" where
  "walk_inv h t s0 e0 st0 old cl A ow os B lc st \<longleftrightarrow>
     walk_lists h cl A ow os B lc st \<and> walk_caller h t s0 e0 cl ow os lc (lck st)
     \<and> walk_bytes h t s0 e0 old (set ow \<union> set os) (lck st (lc_caller lc)) (lck st)
     \<and> (lc_added lc \<or> st = st0 \<and> (\<forall>x t'. holds (lck st) (set ow \<union> set os) h x t' \<longleftrightarrow> old x t'))
     \<and> (\<forall>a\<in>set A \<union> set B. lck st a = lck st0 a) \<and> i_flock st = i_flock st0 \<and> current (lk st) = current (lk st0)"

lemmas walk_defs = walk_inv_def walk_lists_def walk_caller_def Let_def

lemma walk_callerD:
  assumes "walk_caller h t s0 e0 cl ow os lc L"
  shows "holder (L (lc_caller lc)) = h" "fl_type (L (lc_caller lc)) = t" "0 \<le> fl_start (L (lc_caller lc))"
    "fl_start (L (lc_caller lc)) \<le> s0" "s0 \<le> e0" "e0 \<le> fl_end (L (lc_caller lc))" "fl_end (L (lc_caller lc)) \<le> OFFSET_MAX"
    "e0 < OFFSET_MAX" "lc_caller lc = cl \<longleftrightarrow> \<not> (lc_added lc \<and> t \<noteq> F_UNLCK)"
    "fl_end (L (lc_caller lc)) = e0 \<or> (\<forall>a\<in>set os. fl_end (L (lc_caller lc)) < fl_start (L a))"
    "lc_left lc \<noteq> None \<or> lc_added lc \<longrightarrow> (\<forall>a\<in>set os. fl_start (L (lc_caller lc)) < fl_start (L a))"
    "t = F_RDLCK \<or> t = F_WRLCK \<or> t = F_UNLCK" "lc_right lc = None"
    "lc_caller lc = cl \<Longrightarrow> fl_start (L (lc_caller lc)) = s0" "lc_caller lc = cl \<Longrightarrow> fl_end (L (lc_caller lc)) = e0"
    "\<And>a. a \<in> set ow \<Longrightarrow> fl_end (L a) < fl_start (L (lc_caller lc)) \<or> lc_left lc = Some a"
    "\<And>l. lc_left lc = Some l \<Longrightarrow> l \<in> set ow \<and> fl_type (L l) \<noteq> t \<and> fl_start (L l) < fl_start (L (lc_caller lc))
           \<and> fl_start (L (lc_caller lc)) \<le> fl_end (L l) \<and> fl_end (L l) \<le> fl_end (L (lc_caller lc))"
    "t = F_UNLCK \<Longrightarrow> lc_left lc \<noteq> None \<Longrightarrow> lc_added lc"
  using assms unfolding walk_caller_def Let_def by blast+

text \<open>A lock entirely before the new one is passed.\<close>

lemma walk_pass:
  assumes inv: "walk_inv h t s0 e0 st0 old cl A ow (f # os) B lc st" and f: "fl_end (lck st f) < fl_start (lck st (lc_caller lc))"
  shows "walk_inv h t s0 e0 st0 old cl A (ow @ [f]) os B (next_lock f lc) st"
proof -
  have "fl_start (lck st f) \<le> fl_end (lck st f)" using inv by (simp add: walk_defs ordered_append ordered_Cons lock_entry_def)
  then have c: "\<not> lc_added lc" "lc_left lc = None" "lc_caller lc = cl" using inv f by (auto simp: walk_defs)
  have "walk_lists h cl A (ow @ [f]) os B (next_lock f lc) st"
    using inv c by (auto simp: walk_inv_def walk_lists_def next_lock_def in_list_def)
  moreover have "walk_caller h t s0 e0 cl (ow @ [f]) os (next_lock f lc) (lck st)"
    using inv c f by (auto simp: walk_inv_def walk_caller_def next_lock_def Let_def)
  ultimately show ?thesis using inv by (simp add: walk_inv_def next_lock_def Un_commute)
qed

text \<open>A lock of another type that the new one cuts on the right becomes \<^verbatim>\<open>left\<close>.\<close>

lemma walk_left:
  assumes inv: "walk_inv h t s0 e0 st0 old cl A ow (f # os) B lc st"
    and f: "fl_type (lck st f) \<noteq> t" "fl_start (lck st f) < fl_start (lck st (lc_caller lc))"
      "fl_start (lck st (lc_caller lc)) \<le> fl_end (lck st f)" "fl_end (lck st f) \<le> fl_end (lck st (lc_caller lc))"
  shows "walk_inv h t s0 e0 st0 old cl A (ow @ [f]) os B (next_lock f (lc\<lparr>lc_added := lc_added lc \<or> t = F_UNLCK, lc_left := Some f\<rparr>)) st"
proof -
  let ?lc = "next_lock f (lc\<lparr>lc_added := lc_added lc \<or> t = F_UNLCK, lc_left := Some f\<rparr>)"
  have c: "\<not> lc_added lc" "lc_left lc = None" "lc_caller lc = cl" using inv f by (auto simp: walk_defs)
  have o: "\<forall>b\<in>set os. fl_end (lck st f) < fl_start (lck st b)" using inv by (simp add: walk_defs ordered_append ordered_Cons)
  have "walk_lists h cl A (ow @ [f]) os B ?lc st"
    using inv c by (auto simp: walk_inv_def walk_lists_def next_lock_def in_list_def)
  moreover have "walk_caller h t s0 e0 cl (ow @ [f]) os ?lc (lck st)"
    using inv c f o by (fastforce simp: walk_inv_def walk_caller_def next_lock_def Let_def)
  ultimately show ?thesis using inv c by (auto simp: walk_inv_def next_lock_def Un_commute)
qed

text \<open>The new lock takes over the bytes of a lock that it covers, or touches and has the type of.\<close>

lemma ordered_unique:
  assumes "ordered L os" "a \<in> set os" "b \<in> set os" "covers (L a) x" "covers (L b) x"
  shows "a = b"
  using assms
proof (induction os)
  case (Cons d os)
  then show ?case by (fastforce simp: ordered_Cons covers_def)
qed simp

lemma holds_one:
  assumes "ordered L os" "f \<in> set os" "covers (L f) x" "holder (L f) = h"
  shows "holds L (set os) h x t' \<longleftrightarrow> t' = fl_type (L f)"
  using assms by (auto simp: holds_def dest: ordered_unique)

lemma walk_bytes_absorb:
  assumes w: "walk_bytes h t s0 e0 old (insert f own) c L"
    and c: "\<And>x. covers c' x \<longleftrightarrow> covers c x \<or> covers (L f) x"
    and t: "\<And>x t'. covers (L f) x \<Longrightarrow> \<not> covers c x \<Longrightarrow> holds L (insert f own) h x t' \<longleftrightarrow> t' = t"
    and L: "\<And>a. a \<in> own \<Longrightarrow> L' a = L a"
  shows "walk_bytes h t s0 e0 old own c' L'"
proof -
  have "holds L' own h x t' \<longleftrightarrow> old x t'" if x: "\<not> covers c' x" for x t'
  proof -
    have "holds L' own h x t' \<longleftrightarrow> holds L own h x t'" using L by (rule holds_cong)
    also have "\<dots> \<longleftrightarrow> holds L (insert f own) h x t'" using x c by (simp add: holds_insert)
    also have "\<dots> \<longleftrightarrow> old x t'" using x c w by (simp add: walk_bytes_def)
    finally show ?thesis .
  qed
  moreover have "old x t' \<longleftrightarrow> t' = t" if "covers c' x" "\<not> (s0 \<le> x \<and> x \<le> e0)" for x t'
    using that c [of x] w t [of x t'] unfolding walk_bytes_def by blast
  ultimately show ?thesis by (simp add: walk_bytes_def)
qed

lemma merge_locks_effect:
  assumes "c \<noteq> f"
  shows "merge_locks c f st = st\<lparr>lck := (lck st)
    (f := (lck st f)\<lparr>fl_start := min (fl_start (lck st c)) (fl_start (lck st f)), fl_end := max (fl_end (lck st c)) (fl_end (lck st f))\<rparr>,
     c := (lck st c)\<lparr>fl_start := min (fl_start (lck st c)) (fl_start (lck st f)), fl_end := max (fl_end (lck st c)) (fl_end (lck st f))\<rparr>)\<rparr>"
  using assms by (auto simp: merge_locks_def upd_lock_def Let_def fun_eq_iff min_def max_def intro!: lock_state.equality)

lemma touching_covers:
  assumes "s \<le> e" "s' \<le> e'" "s - 1 \<le> e'" "s' \<le> e + (1 :: int)"
  shows "min s s' \<le> x \<and> x \<le> max e e' \<longleftrightarrow> s \<le> x \<and> x \<le> e \<or> s' \<le> x \<and> x \<le> e'"
  using assms by linarith

text \<open>Facts of the invariant about the next lock \<^verbatim>\<open>f\<close>.\<close>

lemma walk_next:
  assumes "walk_inv h t s0 e0 st0 old cl A ow (f # os) B lc st"
  shows "f \<noteq> cl" "f \<noteq> lc_caller lc" "lc_caller lc \<notin> set ow \<union> set os \<union> set A \<union> set B" "f \<notin> set ow \<union> set os \<union> set A \<union> set B"
    "lock_entry (lck st f)" "holder (lck st f) = h" "fl_owner (lck st f) \<noteq> None" "\<And>a. a \<in> set ow \<Longrightarrow> fl_end (lck st a) < fl_start (lck st f)"
    "\<And>a. a \<in> set os \<Longrightarrow> fl_end (lck st f) < fl_start (lck st a)" "ordered (lck st) (ow @ os)" "rings_ok (lk st)" "fst h \<noteq> None"
    "cl \<notin> set ow \<union> set os \<union> set A \<union> set B" "lc_caller lc \<notin> set (lock_free_list st)" "f \<notin> set (lock_free_list st)"
  using assms by (auto simp: walk_inv_def walk_lists_def in_list_def ordered_append ordered_Cons holder_def split: if_splits)

lemma walk_held:
  assumes inv: "walk_inv h t s0 e0 st0 old cl A ow (f # os) B lc st" and x: "covers (lck st f) x"
  shows "holds (lck st) (insert f (set ow \<union> set os)) h x t' \<longleftrightarrow> t' = fl_type (lck st f)"
proof -
  have "ordered (lck st) (ow @ f # os)" using inv by (simp add: walk_defs)
  from holds_one [OF this, of f x h t'] show ?thesis using x walk_next(6) [OF inv] by simp
qed

lemma walk_lists_take:
  assumes "walk_lists h cl A ow (f # os) B lc st" "lc_caller lc = cl" "lc_caller lc' = f" "lc_pre lc' = lc_pre lc @ [f]"
    "rings_ok (lk st')" "lock_free_list st' = lock_free_list st" "\<And>a. a \<noteq> f \<Longrightarrow> a \<noteq> cl \<Longrightarrow> lck st' a = lck st a"
  shows "walk_lists h cl A ow os B lc' st'"
proof -
  have "f \<noteq> cl" "f \<notin> set (ow @ os @ A @ B @ lock_free_list st)" "cl \<notin> set (ow @ os @ A @ B @ lock_free_list st)"
    using assms(1) by (auto simp: walk_lists_def)
  then have same: "\<forall>a\<in>set (ow @ os @ A @ B @ lock_free_list st). lck st' a = lck st a" using assms(7) by metis
  then have "ordered (lck st') (ow @ os) = ordered (lck st) (ow @ os)" by (intro ordered_cong) auto
  moreover have "ordered (lck st) (ow @ os)" using assms(1) by (simp add: walk_lists_def ordered_append ordered_Cons)
  ultimately have "ordered (lck st') (ow @ os)" by blast
  then show ?thesis using assms(1-6) same \<open>f \<noteq> cl\<close> by (simp add: walk_lists_def in_list_def Ball_def)
qed

lemma walk_lists_free:
  assumes "walk_lists h cl A ow (f # os) B lc st" "f \<noteq> lc_caller lc" "lc_caller lc' = lc_caller lc" "lc_pre lc' = lc_pre lc"
    "rings_ok (lk st')" "lock_free_list st' = f # lock_free_list st" "\<And>a. a \<noteq> f \<Longrightarrow> a \<noteq> lc_caller lc \<Longrightarrow> lck st' a = lck st a"
    "fl_owner (lck st' f) = None"
  shows "walk_lists h cl A ow os B lc' st'"
proof -
  have "f \<noteq> cl" "f \<notin> set (ow @ os @ A @ B @ lock_free_list st)" "lc_caller lc \<notin> set (ow @ os @ A @ B @ lock_free_list st)"
    using assms(1) by (auto simp: walk_lists_def in_list_def split: if_splits)
  then have same: "\<forall>a\<in>set (ow @ os @ A @ B @ lock_free_list st). lck st' a = lck st a" using assms(7) by metis
  then have "ordered (lck st') (ow @ os) = ordered (lck st) (ow @ os)" by (intro ordered_cong) auto
  moreover have "ordered (lck st) (ow @ os)" using assms(1) by (simp add: walk_lists_def ordered_append ordered_Cons)
  ultimately have "ordered (lck st') (ow @ os)" by blast
  then show ?thesis using assms(1-6,8) same \<open>f \<noteq> cl\<close> by (simp add: walk_lists_def in_list_def Ball_def split: if_splits)
qed

lemma walk_caller_take:
  assumes w: "walk_caller h t s0 e0 cl ow (f # os) lc L" and c: "lc_caller lc = cl" and tu: "t \<noteq> F_UNLCK" and f: "f \<noteq> cl"
    and lc: "lc_caller lc' = f" "lc_added lc'" "lc_left lc' = lc_left lc" "lc_right lc' = lc_right lc"
    and L: "\<And>a. a \<in> set ow \<union> set os \<Longrightarrow> L' a = L a" and hf: "holder (L' f) = h" "fl_type (L' f) = t"
    and fb: "fl_start (L' f) = min s0 (fl_start (L f))" "fl_end (L' f) = max e0 (fl_end (L f))"
      "0 \<le> fl_start (L f)" "fl_start (L f) \<le> fl_end (L f)" "fl_end (L f) \<le> OFFSET_MAX"
    and ow: "\<And>a. a \<in> set ow \<Longrightarrow> fl_end (L a) < fl_start (L f)" and os: "\<And>a. a \<in> set os \<Longrightarrow> fl_end (L f) < fl_start (L a)"
  shows "walk_caller h t s0 e0 cl ow os lc' L'"
proof -
  have b: "fl_start (L cl) = s0" "fl_end (L cl) = e0" "0 \<le> s0" "s0 \<le> e0" "e0 < OFFSET_MAX" "t \<in> {F_RDLCK, F_WRLCK, F_UNLCK}" "lc_right lc = None"
    using w c by (auto simp: walk_caller_def Let_def)
  have l: "l \<in> set ow \<and> fl_type (L l) \<noteq> t \<and> fl_start (L l) < s0 \<and> s0 \<le> fl_end (L l) \<and> fl_end (L l) \<le> e0 \<and> s0 < fl_start (L f)"
    if "lc_left lc = Some l" for l using w c b that by (auto simp: walk_caller_def Let_def)
  have o: "fl_end (L a) < s0 \<or> lc_left lc = Some a" if "a \<in> set ow" for a using w c b that by (auto simp: walk_caller_def Let_def)
  have "fl_end (L' f) = e0 \<or> (\<forall>a\<in>set os. fl_end (L' f) < fl_start (L' a))" using fb os L by (fastforce simp: max_def)
  moreover have "\<forall>a\<in>set os. fl_start (L' f) < fl_start (L' a)" using fb os L by (fastforce simp: min_def)
  moreover have "\<forall>a\<in>set ow. fl_end (L' a) < fl_start (L' f) \<or> lc_left lc = Some a" using o ow L fb(1) by (simp add: min_def)
  moreover have "fl_type (L' l) \<noteq> t \<and> fl_start (L' l) < fl_start (L' f) \<and> fl_start (L' f) \<le> fl_end (L' l) \<and> fl_end (L' l) \<le> fl_end (L' f)"
    if "lc_left lc = Some l" for l using l [OF that] L [of l] fb by (simp add: min_def max_def)
  ultimately show ?thesis using b lc tu f hf fb l unfolding walk_caller_def Let_def by (simp add: min_def max_def)
qed

lemma walk_merge:
  assumes inv: "walk_inv h t s0 e0 st0 old cl A ow (f # os) B lc st" and a: "\<not> lc_added lc"
    and f: "fl_type (lck st f) = t" "fl_start (lck st cl) - 1 \<le> fl_end (lck st f)" "fl_start (lck st f) \<le> fl_end (lck st cl) + 1"
  shows "walk_inv h t s0 e0 st0 old cl A ow os B (next_lock f (lc\<lparr>lc_caller := f, lc_added := True\<rparr>)) (merge_locks cl f st)"
    (is "walk_inv _ _ _ _ _ _ _ _ _ _ _ ?lc ?st")
proof -
  note n = walk_next [OF inv]
  have c: "lc_caller lc = cl" using inv a by (simp add: walk_defs)
  have tu: "t \<noteq> F_UNLCK" using n(5) f(1) by (auto simp: lock_entry_def)
  note L = merge_locks_effect [of cl f st, OF n(1) [symmetric]]
  have cb: "fl_start (lck st cl) = s0" "fl_end (lck st cl) = e0" "s0 \<le> e0" "0 \<le> s0" "e0 < OFFSET_MAX" using inv c by (auto simp: walk_defs)
  have fb: "0 \<le> fl_start (lck st f)" "fl_start (lck st f) \<le> fl_end (lck st f)" "fl_end (lck st f) \<le> OFFSET_MAX"
    using n(5) by (simp_all add: lock_entry_def)
  have same: "\<And>a. a \<in> set ow \<union> set os \<union> set A \<union> set B \<Longrightarrow> lck ?st a = lck st a" using n(4,13) by (auto simp: L)
  have "walk_lists h cl A ow os B ?lc ?st"
    by (rule walk_lists_take [of _ _ _ _ _ _ _ lc st]) (use inv c n(11) in \<open>auto simp: walk_inv_def next_lock_def L\<close>)
  moreover have "walk_caller h t s0 e0 cl ow os ?lc (lck ?st)"
  proof -
    have lf: "lck ?st f = (lck st f)\<lparr>fl_start := min s0 (fl_start (lck st f)), fl_end := max e0 (fl_end (lck st f))\<rparr>"
      using n(1) cb by (simp add: L)
    have w: "walk_caller h t s0 e0 cl ow (f # os) lc (lck st)" using inv by (simp add: walk_inv_def)
    show ?thesis
      by (rule walk_caller_take [OF w c]) (use n same lf f(1) tu fb cb in \<open>auto simp: next_lock_def holder_def\<close>)
  qed
  moreover have "walk_bytes h t s0 e0 old (set ow \<union> set os) (lck ?st f) (lck ?st)"
  proof (rule walk_bytes_absorb)
    show "walk_bytes h t s0 e0 old (insert f (set ow \<union> set os)) (lck st cl) (lck st)" using inv c by (simp add: walk_inv_def)
    show "covers (lck ?st f) x \<longleftrightarrow> covers (lck st cl) x \<or> covers (lck st f) x" for x
      using touching_covers [of s0 e0 "fl_start (lck st f)" "fl_end (lck st f)"] cb fb f n(1) by (simp add: L covers_def)
    show "holds (lck st) (insert f (set ow \<union> set os)) h x t' \<longleftrightarrow> t' = t" if "covers (lck st f) x" for x t'
      using walk_held [OF inv that] f(1) by simp
  qed (use same in auto)
  ultimately show ?thesis using inv same by (simp add: walk_inv_def next_lock_def L)
qed

lemma walk_caller_free:
  assumes w: "walk_caller h t s0 e0 cl ow (f # os) lc L" and cl: "lc_caller lc = cl \<longleftrightarrow> t = F_UNLCK"
    and lc: "lc_caller lc' = lc_caller lc" "lc_added lc'" "lc_left lc' = lc_left lc" "lc_right lc' = lc_right lc"
    and L: "\<And>a. a \<in> set ow \<union> set os \<Longrightarrow> L' a = L a"
    and c: "L' (lc_caller lc) = (L (lc_caller lc))\<lparr>fl_end := max (fl_end (L (lc_caller lc))) (fl_end (L f))\<rparr>"
    and f: "fl_start (L (lc_caller lc)) \<le> fl_start (L f)" "fl_start (L f) \<le> fl_end (L f)" "fl_end (L f) \<le> OFFSET_MAX"
      "lc_caller lc = cl \<longrightarrow> fl_end (L f) \<le> fl_end (L (lc_caller lc))"
    and os: "\<And>a. a \<in> set os \<Longrightarrow> fl_end (L f) < fl_start (L a)"
  shows "walk_caller h t s0 e0 cl ow os lc' L'"
proof -
  let ?c = "L (lc_caller lc)"
  have "fl_end (L' (lc_caller lc)) = e0 \<or> (\<forall>a\<in>set os. fl_end (L' (lc_caller lc)) < fl_start (L' a))"
    using w c os L by (fastforce simp: walk_caller_def Let_def max_def)
  moreover have "\<forall>a\<in>set os. fl_start ?c < fl_start (L' a)" using f os L by fastforce
  moreover have "\<forall>l. lc_left lc = Some l \<longrightarrow> l \<in> set ow \<and> fl_type (L' l) \<noteq> t \<and> fl_start (L' l) < fl_start ?c
      \<and> fl_start ?c \<le> fl_end (L' l) \<and> fl_end (L' l) \<le> fl_end (L' (lc_caller lc))"
    using walk_callerD(17) [OF w] c L by (fastforce simp: max_def)
  moreover have "fl_end (L' (lc_caller lc)) \<le> OFFSET_MAX" "fl_end ?c \<le> fl_end (L' (lc_caller lc))"
      "lc_caller lc = cl \<longrightarrow> fl_end (L' (lc_caller lc)) = fl_end ?c"
    using walk_callerD(7) [OF w] c f(3,4) by (auto simp: max_def)
  moreover have "holder (L' (lc_caller lc)) = holder ?c" "fl_type (L' (lc_caller lc)) = fl_type ?c" "fl_start (L' (lc_caller lc)) = fl_start ?c"
    using c by (simp_all add: holder_def)
  ultimately show ?thesis using w lc cl L unfolding walk_caller_def Let_def by (simp add: order_trans [of e0 "fl_end ?c"])
qed

text \<open>When the new lock is in the list already, a lock of the same type that it touches is joined to it and freed.\<close>

lemma walk_merge_free:
  assumes inv: "walk_inv h t s0 e0 st0 old cl A ow (f # os) B lc st" and a: "lc_added lc"
    and f: "fl_type (lck st f) = t" "fl_start (lck st f) \<le> fl_end (lck st (lc_caller lc)) + 1"
  shows "\<exists>st'. free_lock f (merge_locks (lc_caller lc) f st) = Some st' \<and> walk_inv h t s0 e0 st0 old cl A ow os B lc st'"
proof -
  let ?c = "lc_caller lc"
  note n = walk_next [OF inv]
  have tu: "t \<noteq> F_UNLCK" using n(5) f(1) by (auto simp: lock_entry_def)
  have c: "?c \<noteq> cl" "fl_start (lck st ?c) < fl_start (lck st f)" "fl_start (lck st ?c) \<le> fl_end (lck st ?c)"
    using inv a tu by (auto simp: walk_defs)
  have fb: "fl_start (lck st f) \<le> fl_end (lck st f)" "fl_end (lck st f) \<le> OFFSET_MAX" using n(5) by (simp_all add: lock_entry_def)
  note L = merge_locks_effect [of ?c f st, OF n(2) [symmetric]]
  have m: "rings_ok (lk (merge_locks ?c f st))" "fl_owner (lck (merge_locks ?c f st) f) \<noteq> None"
    using n(7,11) n(2) by (simp_all add: L)
  obtain st' where st': "free_lock f (merge_locks ?c f st) = Some st'"
    "lck st' = (lck (merge_locks ?c f st))(f := (lck (merge_locks ?c f st) f)\<lparr>fl_owner := None\<rparr>)"
    "lock_free_list st' = f # lock_free_list st" "i_flock st' = i_flock st" "rings_ok (lk st')" "current (lk st') = current (lk st)"
    using free_lock_effect [OF m] by (auto simp: L)
  have lc: "lck st' ?c = (lck st ?c)\<lparr>fl_end := max (fl_end (lck st ?c)) (fl_end (lck st f))\<rparr>"
    using n(2) c(2) by (simp add: st'(2) L min_def)
  have eq: "\<And>a. a \<noteq> f \<Longrightarrow> a \<noteq> ?c \<Longrightarrow> lck st' a = lck st a" by (simp add: st'(2) L)
  have same: "\<And>a. a \<in> set ow \<union> set os \<union> set A \<union> set B \<Longrightarrow> lck st' a = lck st a" using n(3,4) eq by metis
  have "walk_lists h cl A ow os B lc st'"
    by (rule walk_lists_free [of _ _ _ _ f _ _ lc st]) (use inv n eq in \<open>simp_all add: walk_inv_def st'\<close>)
  moreover have "walk_caller h t s0 e0 cl ow os lc (lck st')"
    by (rule walk_caller_free [of _ _ _ _ _ _ f _ lc "lck st"]) (use inv n same lc tu a c fb in \<open>auto simp: walk_inv_def\<close>)
  moreover have "walk_bytes h t s0 e0 old (set ow \<union> set os) (lck st' ?c) (lck st')"
  proof (rule walk_bytes_absorb)
    show "walk_bytes h t s0 e0 old (insert f (set ow \<union> set os)) (lck st ?c) (lck st)" using inv by (simp add: walk_inv_def)
    show "covers (lck st' ?c) x \<longleftrightarrow> covers (lck st ?c) x \<or> covers (lck st f) x" for x
      using lc c fb f(2) by (auto simp: covers_def)
    show "holds (lck st) (insert f (set ow \<union> set os)) h x t' \<longleftrightarrow> t' = t" if "covers (lck st f) x" for x t'
      using walk_held [OF inv that] f(1) by simp
  qed (use same in auto)
  ultimately show ?thesis using inv same a st' by (auto simp: walk_inv_def)
qed

text \<open>A lock of another type that lies within the new one is replaced by it, or freed.\<close>

lemma walk_replace:
  assumes inv: "walk_inv h t s0 e0 st0 old cl A ow (f # os) B lc st" and a: "\<not> lc_added lc" "t \<noteq> F_UNLCK"
    and f: "fl_start (lck st cl) \<le> fl_start (lck st f)" "fl_end (lck st f) \<le> fl_end (lck st cl)"
  shows "\<exists>s. wake_up (fl_wait f) (lk st) = Some s
    \<and> walk_inv h t s0 e0 st0 old cl A ow os B (next_lock f (lc\<lparr>lc_caller := f, lc_added := True\<rparr>))
        (upd_lock f (\<lambda>x. x\<lparr>fl_start := fl_start (lck st cl), fl_end := fl_end (lck st cl), fl_type := t\<rparr>) (st\<lparr>lk := s\<rparr>))"
proof -
  note n = walk_next [OF inv]
  obtain s where s: "wake_up (fl_wait f) (lk st) = Some s" "rings_ok s" "current s = current (lk st)" using wake_rings [OF n(11)] by blast
  let ?lc = "next_lock f (lc\<lparr>lc_caller := f, lc_added := True\<rparr>)"
  let ?st = "upd_lock f (\<lambda>x. x\<lparr>fl_start := fl_start (lck st cl), fl_end := fl_end (lck st cl), fl_type := t\<rparr>) (st\<lparr>lk := s\<rparr>)"
  have c: "lc_caller lc = cl" using inv a by (simp add: walk_defs)
  have cb: "fl_start (lck st cl) = s0" "fl_end (lck st cl) = e0" using inv c by (auto simp: walk_defs)
  have fb: "0 \<le> fl_start (lck st f)" "fl_start (lck st f) \<le> fl_end (lck st f)" "fl_end (lck st f) \<le> OFFSET_MAX"
    using n(5) by (simp_all add: lock_entry_def)
  have same: "\<And>a. a \<in> set ow \<union> set os \<union> set A \<union> set B \<Longrightarrow> lck ?st a = lck st a" using n(4) by (auto simp: upd_lock_def)
  have "walk_lists h cl A ow os B ?lc ?st"
    by (rule walk_lists_take [of _ _ _ _ _ _ _ lc st]) (use inv c s in \<open>auto simp: walk_inv_def next_lock_def upd_lock_def\<close>)
  moreover have "walk_caller h t s0 e0 cl ow os ?lc (lck ?st)"
  proof -
    have lf: "lck ?st f = (lck st f)\<lparr>fl_start := s0, fl_end := e0, fl_type := t\<rparr>" using cb by (simp add: upd_lock_def)
    have w: "walk_caller h t s0 e0 cl ow (f # os) lc (lck st)" using inv by (simp add: walk_inv_def)
    show ?thesis
      by (rule walk_caller_take [OF w c]) (use n same lf a fb cb f in \<open>auto simp: next_lock_def holder_def\<close>)
  qed
  moreover have "walk_bytes h t s0 e0 old (set ow \<union> set os) (lck ?st f) (lck ?st)"
    by (rule walk_bytes_absorb [of _ _ _ _ _ f _ "lck st cl" "lck st"])
      (use inv c n(4) f in \<open>auto simp: walk_inv_def covers_def upd_lock_def\<close>)
  ultimately have "walk_inv h t s0 e0 st0 old cl A ow os B ?lc ?st"
    using inv same s by (simp add: walk_inv_def next_lock_def upd_lock_def)
  then show ?thesis using s(1) by blast
qed

lemma walk_free:
  assumes inv: "walk_inv h t s0 e0 st0 old cl A ow (f # os) B lc st" and a: "lc_added lc \<or> t = F_UNLCK"
    and f: "fl_start (lck st (lc_caller lc)) \<le> fl_start (lck st f)" "fl_end (lck st f) \<le> fl_end (lck st (lc_caller lc))"
  shows "\<exists>st'. free_lock f st = Some st' \<and> walk_inv h t s0 e0 st0 old cl A ow os B (lc\<lparr>lc_added := True\<rparr>) st'"
proof -
  let ?c = "lc_caller lc"
  let ?lc = "lc\<lparr>lc_added := True\<rparr>"
  note n = walk_next [OF inv]
  have fb: "fl_start (lck st f) \<le> fl_end (lck st f)" "fl_end (lck st f) \<le> OFFSET_MAX" using n(5) by (simp_all add: lock_entry_def)
  have cu: "?c = cl \<longleftrightarrow> t = F_UNLCK" using inv a by (auto simp: walk_defs)
  obtain st' where st': "free_lock f st = Some st'" "lck st' = (lck st)(f := (lck st f)\<lparr>fl_owner := None\<rparr>)"
    "lock_free_list st' = f # lock_free_list st" "i_flock st' = i_flock st" "rings_ok (lk st')" "current (lk st') = current (lk st)"
    using free_lock_effect [OF n(11,7)] by auto
  have lc: "lck st' ?c = lck st ?c" using n(2) by (simp add: st'(2))
  have same: "\<And>a. a \<in> set ow \<union> set os \<union> set A \<union> set B \<Longrightarrow> lck st' a = lck st a" using n(4) by (auto simp: st'(2))
  have "walk_lists h cl A ow os B ?lc st'"
    by (rule walk_lists_free [of _ _ _ _ f _ _ lc st]) (use inv n in \<open>simp_all add: walk_inv_def st'\<close>)
  moreover have "walk_caller h t s0 e0 cl ow os ?lc (lck st')"
    by (rule walk_caller_free [of _ _ _ _ _ _ f _ lc "lck st"]) (use inv n same lc a f fb cu in \<open>auto simp: walk_inv_def max_def\<close>)
  moreover have "walk_bytes h t s0 e0 old (set ow \<union> set os) (lck st' ?c) (lck st')"
    by (rule walk_bytes_absorb [of _ _ _ _ _ f _ "lck st ?c" "lck st"])
      (use inv same lc f in \<open>auto simp: walk_inv_def covers_def\<close>)
  ultimately show ?thesis using inv same st' by (auto simp: walk_inv_def)
qed

section \<open>The loop\<close>

text \<open>The loop stops at the end of the holder's locks, at one behind the new lock, or at one that the new lock cuts on the left,
  which becomes \<^verbatim>\<open>right\<close> (and \<^verbatim>\<open>left\<close> too when it surrounds the new lock).\<close>

definition walk_end :: "tid option \<times> nat \<Rightarrow> int \<Rightarrow> int \<Rightarrow> int \<Rightarrow> lock_state \<Rightarrow> (int \<Rightarrow> int \<Rightarrow> bool) \<Rightarrow> laddr \<Rightarrow> laddr list \<Rightarrow> laddr list \<Rightarrow> laddr list \<Rightarrow>
    laddr list \<Rightarrow> lock_locals \<Rightarrow> lock_state \<Rightarrow> bool" where
  "walk_end h t s0 e0 st0 old cl A ow os B lc' st \<longleftrightarrow>
    (\<exists>lc. walk_inv h t s0 e0 st0 old cl A ow os B lc st
       \<and> (lc' = lc\<lparr>lc_post := os @ B\<rparr> \<and> (\<forall>a\<in>set os. fl_end (lck st (lc_caller lc)) < fl_start (lck st a))
          \<or> (\<exists>r os'. os = r # os' \<and> fl_type (lck st r) \<noteq> t \<and> fl_start (lck st r) \<le> fl_end (lck st (lc_caller lc))
               \<and> fl_end (lck st (lc_caller lc)) < fl_end (lck st r)
               \<and> lc' = lc\<lparr>lc_added := lc_added lc \<or> t = F_UNLCK,
                          lc_left := (if fl_start (lck st r) < fl_start (lck st (lc_caller lc)) then Some r else lc_left lc),
                          lc_right := Some r, lc_post := os @ B\<rparr>)))"

lemma walk_stop:
  assumes inv: "walk_inv h t s0 e0 st0 old cl A ow (f # os) B lc st" and f: "fl_end (lck st (lc_caller lc)) < fl_start (lck st f)"
  shows "walk_end h t s0 e0 st0 old cl A ow (f # os) B (lc\<lparr>lc_post := f # os @ B\<rparr>) st"
proof -
  have "\<forall>a\<in>set (f # os). fl_end (lck st (lc_caller lc)) < fl_start (lck st a)"
    using walk_next(5,9) [OF inv] f by (fastforce simp: lock_entry_def)
  then show ?thesis using inv unfolding walk_end_def by (intro exI [of _ lc]) simp
qed

lemma walk_right:
  assumes inv: "walk_inv h t s0 e0 st0 old cl A ow (r # os) B lc st" and r: "fl_type (lck st r) \<noteq> t"
      "fl_start (lck st r) \<le> fl_end (lck st (lc_caller lc))" "fl_end (lck st (lc_caller lc)) < fl_end (lck st r)"
  shows "walk_end h t s0 e0 st0 old cl A ow (r # os) B (lc\<lparr>lc_added := lc_added lc \<or> t = F_UNLCK,
            lc_left := (if fl_start (lck st r) < fl_start (lck st (lc_caller lc)) then Some r else lc_left lc),
            lc_right := Some r, lc_post := r # os @ B\<rparr>) st"
  using assms unfolding walk_end_def by (intro exI [of _ lc]) simp

lemma walk_bounds:
  assumes "walk_inv h t s0 e0 st0 old cl A ow (f # os) B lc st"
  shows "swrap (fl_start (lck st (lc_caller lc)) - 1) = fl_start (lck st (lc_caller lc)) - 1"
    "swrap (fl_end (lck st (lc_caller lc)) + 1) = fl_end (lck st (lc_caller lc)) + 1"
    "same_holder (lck st (lc_caller lc)) (lck st f)" "fl_type (lck st (lc_caller lc)) = t" "lc_added lc \<Longrightarrow> \<not> fl_start (lck st f) < fl_start (lck st (lc_caller lc))"
    "\<not> lc_added lc \<Longrightarrow> lc_caller lc = cl"
proof -
  let ?c = "lck st (lc_caller lc)"
  have "walk_caller h t s0 e0 cl ow (f # os) lc (lck st)" using assms by (simp add: walk_inv_def)
  note d = walk_callerD [OF this]
  have "fl_start (lck st f) \<le> OFFSET_MAX" using walk_next(5) [OF assms] by (simp add: lock_entry_def)
  then have "fl_end ?c < OFFSET_MAX" using d(8,10) by fastforce
  then show "swrap (fl_start ?c - 1) = fl_start ?c - 1" "swrap (fl_end ?c + 1) = fl_end ?c + 1"
    using d(3-6) by (simp_all add: fits_s32_def)
  show "same_holder ?c (lck st f)" "fl_type ?c = t" using d(1,2) walk_next(6) [OF assms] by (simp_all add: same_holder_iff)
  show "lc_added lc \<Longrightarrow> \<not> fl_start (lck st f) < fl_start ?c" using d(11) by fastforce
  show "\<not> lc_added lc \<Longrightarrow> lc_caller lc = cl" using d(9) by blast
qed

lemma set_added: "lc_added lc \<Longrightarrow> lc\<lparr>lc_added := True\<rparr> = lc"
  by (cases lc) simp

lemma lock_loop_ends:
  assumes "walk_inv h t s0 e0 st0 old cl A ow os B lc st"
  shows "\<exists>lc' st' ow' os'. lock_loop (os @ B) lc st = Some (lc', st') \<and> walk_end h t s0 e0 st0 old cl A ow' os' B lc' st'"
  using assms
proof (induction os arbitrary: ow lc st)
  case Nil
  have "lock_loop B lc st = Some (lc\<lparr>lc_post := B\<rparr>, st)"
  proof (cases B)
    case (Cons b bs)
    have "holder (lck st b) \<noteq> h" "holder (lck st (lc_caller lc)) = h"
      using Nil Cons unfolding walk_inv_def walk_lists_def walk_caller_def Let_def by (meson list.set_intros(1) UnI2, meson)
    then show ?thesis using Cons by (simp add: same_holder_iff Let_def)
  qed simp
  moreover have "walk_end h t s0 e0 st0 old cl A ow [] B (lc\<lparr>lc_post := B\<rparr>) st"
    using Nil unfolding walk_end_def by (intro exI [of _ lc]) simp
  ultimately show ?case by auto
next
  case (Cons f os)
  note inv = Cons.prems and IH = Cons.IH
  let ?c = "lck st (lc_caller lc)" and ?f = "lck st f"
  note b = walk_bounds [OF inv]
  have fb: "fl_start ?f \<le> fl_end ?f" using walk_next(5) [OF inv] by (simp add: lock_entry_def)
  consider (pass) "fl_end ?f < fl_start ?c" "fl_type ?f = t \<longrightarrow> fl_end ?f < fl_start ?c - 1"
    | (stop) "fl_end ?c < fl_start ?f" "fl_type ?f = t \<longrightarrow> fl_end ?c + 1 < fl_start ?f" "fl_start ?c - 1 \<le> fl_end ?f"
        "fl_type ?f \<noteq> t \<longrightarrow> fl_start ?c \<le> fl_end ?f"
    | (merge) "fl_type ?f = t" "fl_start ?c - 1 \<le> fl_end ?f" "fl_start ?f \<le> fl_end ?c + 1"
    | (right) "fl_type ?f \<noteq> t" "fl_start ?c \<le> fl_end ?f" "fl_start ?f \<le> fl_end ?c" "fl_end ?c < fl_end ?f"
    | (left) "fl_type ?f \<noteq> t" "fl_start ?c \<le> fl_end ?f" "fl_end ?f \<le> fl_end ?c" "fl_start ?f < fl_start ?c"
    | (within) "fl_type ?f \<noteq> t" "fl_end ?f \<le> fl_end ?c" "fl_start ?c \<le> fl_start ?f"
  proof (cases "fl_type ?f = t")
    case True
    consider "fl_end ?f < fl_start ?c - 1" | "fl_end ?c + 1 < fl_start ?f" "fl_start ?c - 1 \<le> fl_end ?f"
      | "fl_start ?c - 1 \<le> fl_end ?f" "fl_start ?f \<le> fl_end ?c + 1" by (meson not_less)
    then show ?thesis using True that(1-3) by cases auto
  next
    case False
    consider "fl_end ?f < fl_start ?c" | "fl_end ?c < fl_start ?f" "fl_start ?c \<le> fl_end ?f"
      | "fl_start ?c \<le> fl_end ?f" "fl_start ?f \<le> fl_end ?c" "fl_end ?c < fl_end ?f"
      | "fl_start ?c \<le> fl_end ?f" "fl_end ?f \<le> fl_end ?c" "fl_start ?f < fl_start ?c"
      | "fl_end ?f \<le> fl_end ?c" "fl_start ?c \<le> fl_start ?f" by (meson not_less)
    then show ?thesis using False that(1,2,4-6) by cases auto
  qed
  then show ?case
  proof cases
    case pass
    then have "lock_loop ((f # os) @ B) lc st = lock_loop (os @ B) (next_lock f lc) st" using b by (auto simp: Let_def)
    moreover have "walk_inv h t s0 e0 st0 old cl A (ow @ [f]) os B (next_lock f lc) st"
      using pass(1) by (rule walk_pass [OF inv])
    ultimately show ?thesis using IH by metis
  next
    case stop
    then have "lock_loop ((f # os) @ B) lc st = Some (lc\<lparr>lc_post := f # os @ B\<rparr>, st)" using b fb by (auto simp: Let_def)
    then show ?thesis using walk_stop [OF inv stop(1)] by blast
  next
    case right
    then have "lock_loop ((f # os) @ B) lc st = Some (lc\<lparr>lc_added := lc_added lc \<or> t = F_UNLCK,
        lc_left := (if fl_start ?f < fl_start ?c then Some f else lc_left lc), lc_right := Some f, lc_post := f # os @ B\<rparr>, st)"
      using b by (auto simp: Let_def)
    then show ?thesis using walk_right [OF inv] right by blast
  next
    case left
    then have "lock_loop ((f # os) @ B) lc st = lock_loop (os @ B) (next_lock f (lc\<lparr>lc_added := lc_added lc \<or> t = F_UNLCK, lc_left := Some f\<rparr>)) st"
      using b by (auto simp: Let_def)
    moreover have "walk_inv h t s0 e0 st0 old cl A (ow @ [f]) os B (next_lock f (lc\<lparr>lc_added := lc_added lc \<or> t = F_UNLCK, lc_left := Some f\<rparr>)) st"
      using left by (intro walk_left [OF inv]) simp_all
    ultimately show ?thesis using IH by metis
  next
    case merge
    show ?thesis
    proof (cases "lc_added lc")
      case True
      then show ?thesis using merge b walk_merge_free [OF inv True merge(1,3)] IH by (auto simp: Let_def)
    next
      case False
      then have "lock_loop ((f # os) @ B) lc st
          = lock_loop (os @ B) (next_lock f (lc\<lparr>lc_caller := f, lc_added := True\<rparr>)) (merge_locks cl f st)"
        using merge b by (auto simp: Let_def)
      then show ?thesis using walk_merge [OF inv False merge(1)] merge b(6) [OF False] IH by metis
    qed
  next
    case within
    show ?thesis
    proof (cases "lc_added lc \<or> t = F_UNLCK")
      case True
      then have "lock_loop ((f # os) @ B) lc st = Option.bind (free_lock f st) (lock_loop (os @ B) (lc\<lparr>lc_added := True\<rparr>))"
        using within b fb by (auto simp: Let_def set_added)
      then show ?thesis using walk_free [OF inv True within(3,2)] IH by auto
    next
      case False
      then have "lock_loop ((f # os) @ B) lc st = Option.bind (wake_up (fl_wait f) (lk st)) (\<lambda>s.
          lock_loop (os @ B) (next_lock f (lc\<lparr>lc_caller := f, lc_added := True\<rparr>))
            (upd_lock f (\<lambda>x. x\<lparr>fl_start := fl_start ?c, fl_end := fl_end ?c, fl_type := t\<rparr>) (st\<lparr>lk := s\<rparr>)))"
        using within b fb by (auto simp: Let_def)
      then show ?thesis using walk_replace [OF inv, of] within b(6) False IH by auto
    qed
  qed
qed

section \<open>Placing the new lock and cutting the old ones\<close>

lemma rings_new:
  assumes "rings_ok s"
  shows "rings_ok (set_wq_head (fl_wait a) None s)"
proof -
  have "\<exists>ws. wq_ring (set_wq_head (fl_wait a) None s) (fl_wait b) ws" for b
  proof (cases "b = a")
    case True
    have "wq_ring (set_wq_head (fl_wait a) None s) (fl_wait a) []" by (simp add: wq_ring_def)
    then show ?thesis using True by blast
  next
    case False
    then show ?thesis using assms by (auto simp: rings_ok_def wq_ring_def fl_wait_def)
  qed
  then show ?thesis by (simp add: rings_ok_def)
qed

lemma alloc_lock_effect:
  assumes "lock_free_list st = tmp # free" "fl_owner (lck st tmp) = None" "rings_ok (lk st)" "holder (lck st fl) = (Some (current (lk st)), fd)"
  shows "\<exists>st'. alloc_lock fl fd st = Some (Some (tmp, st')) \<and> lck st' = (lck st)(tmp := lck st fl) \<and> lock_free_list st' = free
    \<and> i_flock st' = i_flock st \<and> rings_ok (lk st') \<and> current (lk st') = current (lk st)"
proof -
  have "(lck st fl)\<lparr>fl_owner := Some (current (lk st)), fl_fd := fd\<rparr> = lck st fl" using assms(4) by (auto simp: holder_def)
  then show ?thesis using assms rings_new by (simp add: alloc_lock_def Let_def upd_lock_def)
qed

text \<open>Cutting: intervals become smaller but stay proper.\<close>

definition cut_to :: "file_lock \<Rightarrow> file_lock \<Rightarrow> bool" where
  "cut_to f g \<longleftrightarrow> holder g = holder f \<and> fl_type g = fl_type f \<and> fl_start f \<le> fl_start g \<and> fl_start g \<le> fl_end g \<and> fl_end g \<le> fl_end f"

lemma cut_refl: "lock_entry f \<Longrightarrow> cut_to f f"
  by (simp add: cut_to_def lock_entry_def)

lemma cut_ordered:
  assumes "ordered L os" "\<And>a. a \<in> set os \<Longrightarrow> cut_to (L a) (L' a)"
  shows "ordered L' os"
  using assms
proof (induction os)
  case (Cons a os)
  then have "lock_entry (L' a)" by (fastforce simp: ordered_Cons cut_to_def lock_entry_def)
  moreover have "fl_end (L' a) < fl_start (L' b)" if "b \<in> set os" for b
    using Cons.prems(1) Cons.prems(2) [of a] Cons.prems(2) [of b] that by (fastforce simp: ordered_Cons cut_to_def)
  ultimately show ?case using Cons by (simp add: ordered_Cons)
qed (simp add: ordered_def)

lemma holds_cut:
  assumes "\<And>a x. a \<in> A \<Longrightarrow> covers (L' a) x \<longleftrightarrow> covers (L a) x \<and> \<not> covers c x" "\<And>a. a \<in> A \<Longrightarrow> cut_to (L a) (L' a)"
  shows "holds L' A h x t \<longleftrightarrow> holds L A h x t \<and> \<not> covers c x"
  using assms by (auto simp: holds_def cut_to_def)

lemma trim_locks_lck:
  "lck (trim_locks n left right st) a =
     (let f = (if right = Some a then (lck st a)\<lparr>fl_start := swrap (fl_end (lck st n) + 1)\<rparr> else lck st a);
          st1 = (case right of None \<Rightarrow> st | Some r \<Rightarrow> upd_lock r (\<lambda>x. x\<lparr>fl_start := swrap (fl_end (lck st n) + 1)\<rparr>) st)
      in if left = Some a then f\<lparr>fl_end := swrap (fl_start (lck st1 n) - 1)\<rparr> else f)"
  by (auto simp: trim_locks_def upd_lock_def Let_def split: option.splits)

lemma trim_locks_rest [simp]:
  "lk (trim_locks n left right st) = lk st" "lock_free_list (trim_locks n left right st) = lock_free_list st"
  "i_flock (trim_locks n left right st) = i_flock st"
  by (simp_all add: trim_locks_def upd_lock_def Let_def split: option.splits)

text \<open>The pieces when the new lock does not lie inside a single old one.\<close>

lemma trim_pieces:
  assumes w: "walk_caller h t s0 e0 cl ow os lc L" and o: "ordered L (ow @ os)"
    and L: "\<And>a. a \<in> set ow \<union> set os \<Longrightarrow> lck st a = L a" and n: "lck st n = L (lc_caller lc)" "n \<notin> set ow \<union> set os"
    and r: "right = None \<and> (\<forall>a\<in>set os. fl_end (L (lc_caller lc)) < fl_start (L a))
      \<or> (\<exists>r os'. right = Some r \<and> os = r # os' \<and> fl_start (L (lc_caller lc)) \<le> fl_start (L r) \<and> fl_start (L r) \<le> fl_end (L (lc_caller lc))
           \<and> fl_end (L (lc_caller lc)) < fl_end (L r))"
  defines "L' \<equiv> lck (trim_locks n (lc_left lc) right st)"
  shows "\<And>a. a \<in> set ow \<Longrightarrow> cut_to (L a) (L' a) \<and> fl_end (L' a) < fl_start (L (lc_caller lc))
      \<and> (\<forall>x. covers (L' a) x \<longleftrightarrow> covers (L a) x \<and> \<not> covers (L (lc_caller lc)) x)"
    "\<And>a. a \<in> set os \<Longrightarrow> cut_to (L a) (L' a) \<and> fl_end (L (lc_caller lc)) < fl_start (L' a)
      \<and> (\<forall>x. covers (L' a) x \<longleftrightarrow> covers (L a) x \<and> \<not> covers (L (lc_caller lc)) x)"
    "\<And>a. a \<notin> set ow \<union> set os \<Longrightarrow> L' a = lck st a"
proof -
  let ?c = "L (lc_caller lc)"
  note d = walk_callerD [OF w]
  have l: "lc_left lc = Some l \<Longrightarrow> l \<in> set ow" for l using d(17) by blast
  have e: "lock_entry (L a)" if "a \<in> set ow \<union> set os" for a using o that by (auto simp: ordered_def)
  have dis: "a \<notin> set os" if "a \<in> set ow" for a
  proof
    assume "a \<in> set os"
    then have "fl_end (L a) < fl_start (L a)" using o that by (simp add: ordered_append)
    then show False using e [of a] that by (simp add: lock_entry_def)
  qed
  have rn: "right = Some r \<Longrightarrow> r \<in> set os" for r using r by auto
  have sw: "swrap (fl_start ?c - 1) = fl_start ?c - 1" using d(3,7) d(4,5,6) by (simp add: fits_s32_def)
  have st1: "lck (case right of None \<Rightarrow> st | Some r \<Rightarrow> upd_lock r f st) n = ?c" for f
    using n rn by (auto simp: upd_lock_def split: option.splits)
  have ow: "L' a = (if lc_left lc = Some a then (L a)\<lparr>fl_end := fl_start ?c - 1\<rparr> else L a)" if "a \<in> set ow" for a
    using that dis [OF that] rn [of a] L [of a] st1 sw by (auto simp: L'_def trim_locks_lck Let_def)
  show "cut_to (L a) (L' a) \<and> fl_end (L' a) < fl_start ?c \<and> (\<forall>x. covers (L' a) x \<longleftrightarrow> covers (L a) x \<and> \<not> covers ?c x)" if a: "a \<in> set ow" for a
    using ow [OF a] d(16) [OF a] d(17) [of a] e [of a] a by (auto simp: cut_to_def holder_def covers_def lock_entry_def)
  have os: "L' a = (if right = Some a then (L a)\<lparr>fl_start := fl_end ?c + 1\<rparr> else L a)" if "a \<in> set os" for a
  proof -
    have "lc_left lc \<noteq> Some a" using that l dis by auto
    moreover have "right = Some a \<Longrightarrow> swrap (fl_end ?c + 1) = fl_end ?c + 1" using r e [of a] that d(3-6) by (auto simp: lock_entry_def fits_s32_def)
    ultimately show ?thesis using that L [of a] n(1) by (auto simp: L'_def trim_locks_lck Let_def)
  qed
  show "cut_to (L a) (L' a) \<and> fl_end ?c < fl_start (L' a) \<and> (\<forall>x. covers (L' a) x \<longleftrightarrow> covers (L a) x \<and> \<not> covers ?c x)" if a: "a \<in> set os" for a
    using r
  proof
    assume "right = None \<and> (\<forall>a\<in>set os. fl_end ?c < fl_start (L a))"
    then show ?thesis using os [OF a] e [of a] a by (auto simp: cut_refl covers_def)
  next
    assume "\<exists>r os'. right = Some r \<and> os = r # os' \<and> fl_start ?c \<le> fl_start (L r) \<and> fl_start (L r) \<le> fl_end ?c \<and> fl_end ?c < fl_end (L r)"
    then obtain r os' where r: "right = Some r" "os = r # os'" "fl_start ?c \<le> fl_start (L r)" "fl_start (L r) \<le> fl_end ?c" "fl_end ?c < fl_end (L r)" by blast
    show ?thesis
    proof (cases "a = r")
      case True
      then show ?thesis using os [OF a] r by (auto simp: cut_to_def holder_def covers_def)
    next
      case False
      then have "fl_end (L r) < fl_start (L a)" using a r(2) o by (auto simp: ordered_append ordered_Cons)
      then show ?thesis using False os [OF a] r e [of a] a by (auto simp: cut_refl covers_def)
    qed
  qed
  show "L' a = lck st a" if "a \<notin> set ow \<union> set os" for a
    using that l [of a] rn [of a] by (auto simp: L'_def trim_locks_lck Let_def)
qed

section \<open>The result\<close>

text \<open>The list of an inode seen by a holder: its own locks, in order, between those of others.\<close>

definition lock_list :: "tid option \<times> nat \<Rightarrow> laddr \<Rightarrow> nat \<Rightarrow> laddr list \<Rightarrow> laddr list \<Rightarrow> laddr list \<Rightarrow> lock_state \<Rightarrow> bool" where
  "lock_list h cl ino A own B st \<longleftrightarrow>
     rings_ok (lk st) \<and> fst h \<noteq> None \<and> i_flock st ino = A @ own @ B \<and> distinct (lock_free_list st @ A @ own @ B)
     \<and> cl \<notin> set (lock_free_list st @ A @ own @ B) \<and> (\<forall>a\<in>set (lock_free_list st). fl_owner (lck st a) = None)
     \<and> (\<forall>a\<in>set A \<union> set B. holder (lck st a) \<noteq> h) \<and> (\<forall>a\<in>set own. holder (lck st a) = h) \<and> ordered (lck st) own"

text \<open>What a call leaves behind: the holder now holds the bytes given by \<^verbatim>\<open>new\<close>, and nothing else has changed.\<close>

definition lock_result :: "tid option \<times> nat \<Rightarrow> (int \<Rightarrow> int \<Rightarrow> bool) \<Rightarrow> laddr \<Rightarrow> nat \<Rightarrow> laddr list \<Rightarrow> laddr list \<Rightarrow> lock_state \<Rightarrow> lock_state \<Rightarrow> bool" where
  "lock_result h new cl ino A B st0 st' \<longleftrightarrow>
    (\<exists>own'. lock_list h cl ino A own' B st' \<and> (\<forall>x t'. holds (lck st') (set own') h x t' \<longleftrightarrow> new x t'))
    \<and> (\<forall>a\<in>set A \<union> set B. lck st' a = lck st0 a) \<and> (\<forall>i. i \<noteq> ino \<longrightarrow> i_flock st' i = i_flock st0 i) \<and> current (lk st') = current (lk st0)"

definition lock_bytes :: "int \<Rightarrow> int \<Rightarrow> int \<Rightarrow> (int \<Rightarrow> int \<Rightarrow> bool) \<Rightarrow> int \<Rightarrow> int \<Rightarrow> bool" where
  "lock_bytes t s0 e0 old x t' \<longleftrightarrow> (if s0 \<le> x \<and> x \<le> e0 then t' = t \<and> t \<noteq> F_UNLCK else old x t')"

lemma set_locks_simps [simp]:
  "lk (set_locks ino ls st) = lk st" "lck (set_locks ino ls st) = lck st" "lock_free_list (set_locks ino ls st) = lock_free_list st"
  "i_flock (set_locks ino ls st) = (i_flock st)(ino := ls)"
  by (simp_all add: set_locks_def)

lemma bytes_done:
  assumes w: "walk_bytes h t s0 e0 old own c L" and cut: "\<And>x t'. holds L' own h x t' \<longleftrightarrow> holds L own h x t' \<and> \<not> covers c x"
    and c: "holder c = h" "fl_type c = t" "fl_start c \<le> s0" "e0 \<le> fl_end c" "s0 \<le> e0"
    and N: "t = F_UNLCK \<Longrightarrow> N = {} \<and> fl_start c = s0 \<and> fl_end c = e0" "t \<noteq> F_UNLCK \<Longrightarrow> N = {n} \<and> L' n = c"
  shows "holds L' (own \<union> N) h x t' \<longleftrightarrow> lock_bytes t s0 e0 old x t'"
proof -
  have "holds L' N h x t' \<longleftrightarrow> t \<noteq> F_UNLCK \<and> t' = t \<and> covers c x" using N c by (cases "t = F_UNLCK") (auto simp: holds_insert)
  moreover have "s0 \<le> x \<and> x \<le> e0 \<Longrightarrow> covers c x" using c by (simp add: covers_def)
  moreover have "covers c x \<Longrightarrow> t = F_UNLCK \<Longrightarrow> s0 \<le> x \<and> x \<le> e0" using N(1) by (simp add: covers_def)
  moreover have "\<not> covers c x \<Longrightarrow> holds L own h x t' \<longleftrightarrow> old x t'" "covers c x \<Longrightarrow> \<not> (s0 \<le> x \<and> x \<le> e0) \<Longrightarrow> old x t' \<longleftrightarrow> t' = t"
    using w by (simp_all add: walk_bytes_def)
  ultimately show ?thesis using cut [of x t'] unfolding lock_bytes_def holds_Un if_bool_eq_conj by blast
qed

text \<open>The new lock has its place (\<^verbatim>\<open>N\<close>) between \<^verbatim>\<open>ow\<close> and \<^verbatim>\<open>os\<close>, and these have been cut.\<close>

lemma lock_done_pieces:
  assumes o: "ordered L (ow @ os)" and w: "walk_bytes h t s0 e0 old (set ow \<union> set os) c L"
    and c: "holder c = h" "fl_type c = t" "0 \<le> fl_start c" "fl_start c \<le> s0" "s0 \<le> e0" "e0 \<le> fl_end c" "fl_end c \<le> OFFSET_MAX"
      "t = F_RDLCK \<or> t = F_WRLCK \<or> t = F_UNLCK" "fst h \<noteq> None"
    and ow: "\<And>a. a \<in> set ow \<Longrightarrow> cut_to (L a) (lck st' a) \<and> fl_end (lck st' a) < fl_start c
      \<and> (\<forall>x. covers (lck st' a) x \<longleftrightarrow> covers (L a) x \<and> \<not> covers c x)"
    and os: "\<And>a. a \<in> set os \<Longrightarrow> cut_to (L a) (lck st' a) \<and> fl_end c < fl_start (lck st' a)
      \<and> (\<forall>x. covers (lck st' a) x \<longleftrightarrow> covers (L a) x \<and> \<not> covers c x)"
    and h: "\<And>a. a \<in> set ow \<union> set os \<Longrightarrow> holder (L a) = h"
    and N: "t = F_UNLCK \<Longrightarrow> N = [] \<and> fl_start c = s0 \<and> fl_end c = e0" "t \<noteq> F_UNLCK \<Longrightarrow> N = [n] \<and> lck st' n = c"
    and l: "rings_ok (lk st')" "distinct (lock_free_list st' @ A @ ow @ N @ os @ B)" "cl \<notin> set (lock_free_list st' @ A @ ow @ N @ os @ B)"
      "\<forall>a\<in>set (lock_free_list st'). fl_owner (lck st' a) = None" "\<forall>a\<in>set A \<union> set B. lck st' a = lck st0 a \<and> holder (lck st' a) \<noteq> h"
      "i_flock st' = (i_flock st0)(ino := A @ ow @ N @ os @ B)" "current (lk st') = current (lk st0)"
  shows "lock_result h (lock_bytes t s0 e0 old) cl ino A B st0 st'"
proof -
  have cut: "cut_to (L a) (lck st' a)" "covers (lck st' a) x \<longleftrightarrow> covers (L a) x \<and> \<not> covers c x" if "a \<in> set ow \<union> set os" for a x
    using ow [of a] os [of a] that by blast+
  have ends: "\<forall>a\<in>set ow. fl_end (lck st' a) < fl_start c" "\<forall>a\<in>set os. fl_end c < fl_start (lck st' a)" using ow os by blast+
  have oo: "ordered (lck st') (ow @ os)" using cut(1) by (intro cut_ordered [OF o]) simp
  have "lock_entry c" if "t \<noteq> F_UNLCK" using that c by (auto simp: lock_entry_def)
  then have "ordered (lck st') N" using N by (cases "t = F_UNLCK") (auto simp: ordered_def)
  then have "ordered (lck st') (ow @ N @ os)" using oo ends N by (cases "t = F_UNLCK") (auto simp: ordered_append ordered_Cons)
  moreover have "\<forall>a\<in>set (ow @ N @ os). holder (lck st' a) = h"
    using h cut(1) N c(1) by (cases "t = F_UNLCK") (auto simp: cut_to_def)
  moreover have "\<forall>a\<in>set A \<union> set B. holder (lck st' a) \<noteq> h" using l(5) by blast
  ultimately have "lock_list h cl ino A (ow @ N @ os) B st'" using l(1-4,6) c(9) unfolding lock_list_def by simp
  moreover have "holds (lck st') (set (ow @ N @ os)) h x t' \<longleftrightarrow> lock_bytes t s0 e0 old x t'" for x t'
  proof -
    have "holds (lck st') (set ow \<union> set os) h x t' \<longleftrightarrow> holds L (set ow \<union> set os) h x t' \<and> \<not> covers c x" for x t'
      using cut by (intro holds_cut)
    then have "holds (lck st') ((set ow \<union> set os) \<union> set N) h x t' \<longleftrightarrow> lock_bytes t s0 e0 old x t'"
      using N c by (intro bytes_done [OF w, where n = n]) auto
    moreover have "set (ow @ N @ os) = (set ow \<union> set os) \<union> set N" by auto
    ultimately show ?thesis by simp
  qed
  ultimately show ?thesis using l(5-7) unfolding lock_result_def by auto
qed

section \<open>After the loop\<close>

lemma walk_ends:
  assumes "walk_inv h t s0 e0 st0 old cl A ow os B lc st"
  shows "walk_caller h t s0 e0 cl ow os lc (lck st)" "ordered (lck st) (ow @ os)"
    "walk_bytes h t s0 e0 old (set ow \<union> set os) (lck st (lc_caller lc)) (lck st)" "rings_ok (lk st)" "fst h \<noteq> None"
    "distinct (lock_free_list st @ A @ ow @ in_list cl lc @ os @ B)" "cl \<notin> set (lock_free_list st @ A @ ow @ os @ B)"
    "\<And>a. a \<in> set (lock_free_list st) \<Longrightarrow> fl_owner (lck st a) = None" "\<And>a. a \<in> set A \<union> set B \<Longrightarrow> holder (lck st a) \<noteq> h"
    "\<And>a. a \<in> set ow \<union> set os \<Longrightarrow> holder (lck st a) = h" "lc_pre lc = A @ ow @ in_list cl lc"
    "\<And>a. a \<in> set A \<union> set B \<Longrightarrow> lck st a = lck st0 a" "i_flock st = i_flock st0" "current (lk st) = current (lk st0)"
    "lc_added lc \<or> st = st0 \<and> (\<forall>x t'. holds (lck st) (set ow \<union> set os) h x t' \<longleftrightarrow> old x t')"
proof -
  have "walk_lists h cl A ow os B lc st" using assms by (simp add: walk_inv_def)
  then show "ordered (lck st) (ow @ os)" "rings_ok (lk st)" "fst h \<noteq> None" "lc_pre lc = A @ ow @ in_list cl lc"
    "distinct (lock_free_list st @ A @ ow @ in_list cl lc @ os @ B)" "cl \<notin> set (lock_free_list st @ A @ ow @ os @ B)"
    "\<And>a. a \<in> set (lock_free_list st) \<Longrightarrow> fl_owner (lck st a) = None" "\<And>a. a \<in> set A \<union> set B \<Longrightarrow> holder (lck st a) \<noteq> h"
    "\<And>a. a \<in> set ow \<union> set os \<Longrightarrow> holder (lck st a) = h"
    by (simp_all add: walk_lists_def)
qed (use assms in \<open>simp_all add: walk_inv_def\<close>)

text \<open>The position of \<^verbatim>\<open>right\<close> when it does not surround the new lock.\<close>

definition right_ok :: "laddr option \<Rightarrow> laddr list \<Rightarrow> file_lock \<Rightarrow> (laddr \<Rightarrow> file_lock) \<Rightarrow> bool" where
  "right_ok right os c L \<longleftrightarrow>
     right = None \<and> (\<forall>a\<in>set os. fl_end c < fl_start (L a))
     \<or> (\<exists>r os'. right = Some r \<and> os = r # os' \<and> fl_start c \<le> fl_start (L r) \<and> fl_start (L r) \<le> fl_end c \<and> fl_end c < fl_end (L r))"

lemma trim_done:
  assumes inv: "walk_inv h t s0 e0 st0 old cl A ow os B lc st" and r: "right_ok right os (lck st (lc_caller lc)) (lck st)"
    and st1: "\<And>a. a \<in> set ow \<union> set os \<union> set A \<union> set B \<Longrightarrow> lck st1 a = lck st a" "lck st1 n = lck st (lc_caller lc)"
      "n \<notin> set ow \<union> set os \<union> set A \<union> set B \<union> set (lock_free_list st1)" "t \<noteq> F_UNLCK \<Longrightarrow> n \<noteq> cl"
      "rings_ok (lk st1)" "current (lk st1) = current (lk st)" "i_flock st1 = i_flock st"
      "set (lock_free_list st1) \<subseteq> set (lock_free_list st)" "distinct (lock_free_list st1)"
      "\<And>a. a \<in> set (lock_free_list st1) \<Longrightarrow> lck st1 a = lck st a"
    and N: "N = (if t = F_UNLCK then [] else [n])"
  shows "lock_result h (lock_bytes t s0 e0 old) cl ino A B st0 (set_locks ino (A @ ow @ N @ os @ B) (trim_locks n (lc_left lc) right st1))"
    (is "lock_result _ _ _ _ _ _ _ ?st")
proof -
  note w = walk_ends [OF inv] and d = walk_callerD [OF walk_ends(1) [OF inv]]
  have dis: "a \<notin> set ow \<union> set os" if "a \<in> set A \<union> set B \<union> set (lock_free_list st)" for a using w(6) that by auto
  note tp = trim_pieces [OF w(1,2), of st1 n right, OF st1(1) st1(2) _ r [unfolded right_ok_def]]
  show ?thesis
  proof (rule lock_done_pieces [where L = "lck st" and c = "lck st (lc_caller lc)" and ow = ow and os = os and N = N and n = n])
    show "cut_to (lck st a) (lck ?st a) \<and> fl_end (lck ?st a) < fl_start (lck st (lc_caller lc))
      \<and> (\<forall>x. covers (lck ?st a) x \<longleftrightarrow> covers (lck st a) x \<and> \<not> covers (lck st (lc_caller lc)) x)" if "a \<in> set ow" for a
      using tp(1) that st1(3) by simp
    show "cut_to (lck st a) (lck ?st a) \<and> fl_end (lck st (lc_caller lc)) < fl_start (lck ?st a)
      \<and> (\<forall>x. covers (lck ?st a) x \<longleftrightarrow> covers (lck st a) x \<and> \<not> covers (lck st (lc_caller lc)) x)" if "a \<in> set os" for a
      using tp(2) that st1(3) by simp
    have rest: "lck ?st a = lck st1 a" if "a \<notin> set ow \<union> set os" for a using tp(3) that st1(3) by simp
    show "t = F_UNLCK \<Longrightarrow> N = [] \<and> fl_start (lck st (lc_caller lc)) = s0 \<and> fl_end (lck st (lc_caller lc)) = e0" using N d(9,14,15) by simp
    show "t \<noteq> F_UNLCK \<Longrightarrow> N = [n] \<and> lck ?st n = lck st (lc_caller lc)" using N rest [of n] st1(2,3) by simp
    show "distinct (lock_free_list ?st @ A @ ow @ N @ os @ B)" using w(6) st1(3,8,9) N by auto
    show "cl \<notin> set (lock_free_list ?st @ A @ ow @ N @ os @ B)" using w(7) st1(4,8) N by auto
    show "\<forall>a\<in>set (lock_free_list ?st). fl_owner (lck ?st a) = None"
      using rest dis w(8) st1(8,10) by (auto simp: subset_iff)
    show "\<forall>a\<in>set A \<union> set B. lck ?st a = lck st0 a \<and> holder (lck ?st a) \<noteq> h"
    proof
      fix a assume a: "a \<in> set A \<union> set B"
      then have "a \<notin> set ow \<union> set os" using dis by blast
      then have "lck ?st a = lck st a" using rest [of a] st1(1) [of a] a by simp
      then show "lck ?st a = lck st0 a \<and> holder (lck ?st a) \<noteq> h" using w(9,12) a by simp
    qed
  qed (use w(2,3,5,10,13,14) d(1-7,12) st1(5-7) in \<open>simp_all\<close>)
qed

end
