(* ===== verification/File_Locks_Result.thy ===== *)
theory File_Locks_Result
  imports File_Locks_Laws
begin

text \<open>
  The result of \<^verbatim>\<open>lock_it\<close> on every path, from what the loop leaves: the new lock is placed between the holder's locks and
  these are cut, a surrounding lock is split, or the call fails and the holder keeps what it had.
\<close>

section \<open>Splitting a surrounding lock\<close>

text \<open>The lock \<^verbatim>\<open>r\<close> surrounds the new one.  Splitting it just before the new one with the free structure \<^verbatim>\<open>l\<close> changes no byte
  and leads to the case where \<^verbatim>\<open>r\<close> begins within the new lock.\<close>

definition split_at :: "laddr \<Rightarrow> laddr \<Rightarrow> int \<Rightarrow> laddr list \<Rightarrow> lock_state \<Rightarrow> lock_state" where
  "split_at l r s free st =
     st\<lparr>lock_free_list := free, lck := (lck st)(l := (lck st r)\<lparr>fl_end := s - 1\<rparr>, r := (lck st r)\<lparr>fl_start := s\<rparr>)\<rparr>"

lemma split_at_simps [simp]:
  "lk (split_at l r s free st) = lk st" "lock_free_list (split_at l r s free st) = free" "i_flock (split_at l r s free st) = i_flock st"
  "lck (split_at l r s free st) = (lck st)(l := (lck st r)\<lparr>fl_end := s - 1\<rparr>, r := (lck st r)\<lparr>fl_start := s\<rparr>)"
  by (simp_all add: split_at_def)

lemma walk_surround:
  assumes inv: "walk_inv h t s0 e0 st0 old cl A ow (r # os) B lc st" and r: "fl_start (lck st r) < fl_start (lck st (lc_caller lc))"
  shows "\<not> lc_added lc" "lc_left lc = None" "lc_caller lc = cl" "fl_start (lck st cl) = s0" "fl_end (lck st cl) = e0" "st = st0"
proof -
  note d = walk_callerD [OF walk_ends(1) [OF inv]]
  show a: "\<not> lc_added lc" "lc_left lc = None" using d(11) r by fastforce+
  then show "lc_caller lc = cl" using d(9) by blast
  then show "fl_start (lck st cl) = s0" "fl_end (lck st cl) = e0" using d(14,15) by simp_all
  show "st = st0" using walk_ends(15) [OF inv] a by blast
qed

lemma walk_split:
  assumes inv: "walk_inv h t s0 e0 st0 old cl A ow (r # os) B lc st" and r: "fl_start (lck st r) < s0" "e0 < fl_end (lck st r)"
      "fl_start (lck st r) < fl_start (lck st (lc_caller lc))"
    and l: "l \<in> set (lock_free_list st)" "set free \<subseteq> set (lock_free_list st) - {l}" "distinct free"
  defines "stv \<equiv> split_at l r s0 free st"
  shows "walk_inv h t s0 e0 stv old cl A (ow @ [l]) (r # os) B (lc\<lparr>lc_pre := A @ ow @ [l]\<rparr>) stv"
proof -
  note w = walk_ends [OF inv] and d = walk_callerD [OF walk_ends(1) [OF inv]] and n = walk_next [OF inv] and c = walk_surround [OF inv r(3)]
  have ln: "l \<notin> set ow \<union> set os \<union> set A \<union> set B" "l \<noteq> r" "l \<noteq> cl" using w(6,7) l(1) by auto
  have same: "lck stv a = lck st a" if "a \<noteq> l" "a \<noteq> r" for a using that by (simp add: stv_def)
  have lr: "lck stv l = (lck st r)\<lparr>fl_end := s0 - 1\<rparr>" "lck stv r = (lck st r)\<lparr>fl_start := s0\<rparr>" using ln by (simp_all add: stv_def)
  have others: "lck stv a = lck st a" if "a \<in> set ow \<union> set os \<union> set A \<union> set B \<union> {cl} \<union> set free" for a
    using that ln n(1,4,15) l(2) by (intro same) auto
  have b: "lock_entry (lck st r)" "0 \<le> s0" "s0 \<le> e0" using n(5) d(3-5) by auto
  have "ordered (lck stv) (ow @ [l] @ r # os)"
  proof -
    have "ordered (lck stv) (ow @ os) = ordered (lck st) (ow @ os)" using others by (intro ordered_cong) auto
    moreover have "\<forall>a\<in>set ow. fl_end (lck stv a) < fl_start (lck st r)" "\<forall>a\<in>set os. fl_end (lck st r) < fl_start (lck stv a)"
      using n(8,9) others by simp_all
    ultimately show ?thesis using n(10) b r lr
      by (fastforce simp: ordered_append ordered_Cons lock_entry_def)
  qed
  moreover have "distinct (free @ A @ (ow @ [l]) @ (r # os) @ B)" "cl \<notin> set (free @ A @ (ow @ [l]) @ (r # os) @ B)"
    using w(6,7) l ln by auto
  moreover have "\<forall>a\<in>set free. fl_owner (lck stv a) = None" using others w(8) l(2) by auto
  moreover have "\<forall>a\<in>set A \<union> set B. holder (lck stv a) \<noteq> h"
  proof
    fix a assume "a \<in> set A \<union> set B"
    then show "holder (lck stv a) \<noteq> h" using others [of a] w(9) [of a] by auto
  qed
  moreover have "\<forall>a\<in>set (ow @ [l]) \<union> set (r # os). holder (lck stv a) = h" using others w(10) lr by (auto simp: holder_def)
  ultimately have "walk_lists h cl A (ow @ [l]) (r # os) B (lc\<lparr>lc_pre := A @ ow @ [l]\<rparr>) stv"
    using w(4,5) c(3) unfolding walk_lists_def by (simp add: in_list_def stv_def)
  moreover have "walk_caller h t s0 e0 cl (ow @ [l]) (r # os) (lc\<lparr>lc_pre := A @ ow @ [l]\<rparr>) (lck stv)"
    using d c others [of cl] others lr unfolding walk_caller_def Let_def by (auto simp: c(2,3))
  moreover have hb: "holds (lck stv) (set (ow @ [l]) \<union> set (r # os)) h x t' \<longleftrightarrow> holds (lck st) (set ow \<union> set (r # os)) h x t'" for x t'
  proof -
    have "holds (lck stv) (set ow \<union> set os) h x t' \<longleftrightarrow> holds (lck st) (set ow \<union> set os) h x t'" using others by (intro holds_cong) auto
    moreover have "set (ow @ [l]) \<union> set (r # os) = insert l (insert r (set ow \<union> set os))" by auto
    moreover have "set ow \<union> set (r # os) = insert r (set ow \<union> set os)" by auto
    moreover have "covers (lck stv l) x \<or> covers (lck stv r) x \<longleftrightarrow> covers (lck st r) x" using lr r b by (auto simp: covers_def)
    ultimately show ?thesis using lr by (auto simp: holds_insert holder_def)
  qed
  moreover have "walk_bytes h t s0 e0 old (set (ow @ [l]) \<union> set (r # os)) (lck stv cl) (lck stv)"
    using w(3) c(3) others [of cl] unfolding walk_bytes_def hb by simp
  moreover have "holds (lck st) (set ow \<union> set (r # os)) h x t' \<longleftrightarrow> old x t'" for x t' using w(15) c(1) by blast
  ultimately show ?thesis using c(3) unfolding walk_inv_def hb by simp
qed

section \<open>What follows the loop\<close>

definition lock_outcome :: "tid option \<times> nat \<Rightarrow> int \<Rightarrow> int \<Rightarrow> int \<Rightarrow> (int \<Rightarrow> int \<Rightarrow> bool) \<Rightarrow> laddr \<Rightarrow> nat \<Rightarrow> laddr list \<Rightarrow> laddr list \<Rightarrow>
    lock_state \<Rightarrow> int \<times> lock_state \<Rightarrow> bool" where
  "lock_outcome h t s0 e0 old cl ino A B st0 res \<longleftrightarrow>
     (case res of (r, st') \<Rightarrow>
        r = 0 \<and> lock_result h (lock_bytes t s0 e0 old) cl ino A B st0 st'
        \<or> r = - EINVAL \<and> t = F_UNLCK \<and> (\<forall>x t'. s0 \<le> x \<and> x \<le> e0 \<longrightarrow> \<not> old x t') \<and> lock_result h old cl ino A B st0 st'
        \<or> r = - ENOLCK \<and> length (lock_free_list st0) < 2 \<and> lock_result h old cl ino A B st0 st')"

lemma lock_kept:
  assumes inv: "walk_inv h t s0 e0 st0 old cl A ow os B lc st" and a: "\<not> lc_added lc"
    and st': "rings_ok (lk st')" "current (lk st') = current (lk st)" "lock_free_list st' = lock_free_list st"
      "\<And>a. a \<notin> set (lock_free_list st) \<Longrightarrow> lck st' a = lck st a" "\<And>a. a \<in> set (lock_free_list st) \<Longrightarrow> fl_owner (lck st' a) = None"
      "i_flock st' = (i_flock st)(ino := A @ (ow @ os) @ B)"
  shows "lock_result h old cl ino A B st0 st'"
proof -
  note w = walk_ends [OF inv]
  have "lc_caller lc = cl" using walk_callerD(9) [OF w(1)] a by blast
  then have i: "in_list cl lc = []" by (simp add: in_list_def)
  have same: "lck st' a = lck st a" if "a \<in> set A \<union> set B \<union> set ow \<union> set os" for a
    using w(6) that by (intro st'(4)) auto
  then have "ordered (lck st') (ow @ os) = ordered (lck st) (ow @ os)" by (intro ordered_cong) auto
  moreover have "\<forall>a\<in>set A \<union> set B. holder (lck st' a) \<noteq> h"
  proof
    fix a assume "a \<in> set A \<union> set B"
    then show "holder (lck st' a) \<noteq> h" using same [of a] w(9) [of a] by auto
  qed
  moreover have "\<forall>a\<in>set (ow @ os). holder (lck st' a) = h" using same w(10) by auto
  ultimately have "lock_list h cl ino A (ow @ os) B st'"
    unfolding lock_list_def using w(2,5,6,7) i st'(1-3,5,6) by simp
  moreover have "holds (lck st') (set (ow @ os)) h x t' \<longleftrightarrow> old x t'" for x t'
  proof -
    have "holds (lck st') (set ow \<union> set os) h x t' \<longleftrightarrow> holds (lck st) (set ow \<union> set os) h x t'" using same by (intro holds_cong) auto
    moreover have "holds (lck st) (set ow \<union> set os) h x t' \<longleftrightarrow> old x t'" using w(15) a by blast
    ultimately show ?thesis by simp
  qed
  ultimately show ?thesis unfolding lock_result_def using same w(12-14) st'(2,6) by auto
qed

lemma lock_kept_same:
  assumes inv: "walk_inv h t s0 e0 st0 old cl A ow os B lc st" and a: "\<not> lc_added lc"
  shows "lock_result h old cl ino A B st0 (set_locks ino (A @ ow @ os @ B) st)"
  by (rule lock_kept [OF inv a]) (use walk_ends(4,8) [OF inv] in auto)

text \<open>The new lock does not lie inside a single old one.\<close>

lemma finish_plain:
  assumes inv: "walk_inv h t s0 e0 st0 old cl A ow os B lc st" and r: "right_ok right os (lck st (lc_caller lc)) (lck st)"
    and ad: "ad \<longleftrightarrow> lc_added lc \<or> right \<noteq> None \<and> t = F_UNLCK" and h: "h = (Some (current (lk st0)), fd)"
  shows "\<exists>res. finish_lock ino fd (lc\<lparr>lc_added := ad, lc_right := right, lc_post := os @ B\<rparr>) st = Some res
    \<and> lock_outcome h t s0 e0 old cl ino A B st0 res"
proof -
  let ?lc = "lc\<lparr>lc_added := ad, lc_right := right, lc_post := os @ B\<rparr>"
  note w = walk_ends [OF inv] and d = walk_callerD [OF walk_ends(1) [OF inv]]
  have lr: "\<not> (right \<noteq> None \<and> lc_left lc = right)"
  proof
    assume "right \<noteq> None \<and> lc_left lc = right"
    then obtain x os' where "lc_left lc = Some x" "os = x # os'" using r unfolding right_ok_def by auto
    then have "x \<in> set ow" "x \<in> set os" using d(17) by auto
    then show False using w(6) by auto
  qed
  have fin: "split_lock ino fd n b lc' st1 = Some (0, set_locks ino (lc_pre lc' @ lc_post lc') (trim_locks n (lc_left lc) right st1))"
    if "lc_left lc' = lc_left lc" "lc_right lc' = right" for n b lc' st1 using lr that by (auto simp: split_lock_def)
  consider (added) "ad" | (unlock) "\<not> ad" "t = F_UNLCK" | (new) "\<not> ad" "t \<noteq> F_UNLCK" by blast
  then show ?thesis
  proof cases
    case added
    have c: "in_list cl lc = (if t = F_UNLCK then [] else [lc_caller lc])" using d(9) added ad by (auto simp: in_list_def)
    have n: "lc_caller lc \<notin> set ow \<union> set os \<union> set A \<union> set B \<union> set (lock_free_list st)"
      using w(6,7) by (auto simp: in_list_def split: if_splits)
    have "finish_lock ino fd ?lc st = Some (0, set_locks ino (A @ ow @ in_list cl lc @ os @ B) (trim_locks (lc_caller lc) (lc_left lc) right st))"
      using added w(11) by (simp add: finish_lock_def fin)
    moreover have "lock_result h (lock_bytes t s0 e0 old) cl ino A B st0
        (set_locks ino (A @ ow @ in_list cl lc @ os @ B) (trim_locks (lc_caller lc) (lc_left lc) right st))"
      by (rule trim_done [OF inv r]) (use n c w d(9) added ad in auto)
    ultimately show ?thesis unfolding lock_outcome_def by simp
  next
    case unlock
    then have a: "\<not> lc_added lc" "right = None" using ad by auto
    then have c: "lc_caller lc = cl" "in_list cl lc = []" using d(9) by (auto simp: in_list_def)
    have "finish_lock ino fd ?lc st = Some (- EINVAL, set_locks ino (A @ ow @ os @ B) st)"
      using unlock d(2) w(11) c by (simp add: finish_lock_def)
    moreover have "\<not> old x t'" if "s0 \<le> x \<and> x \<le> e0" for x t'
    proof
      assume "old x t'"
      then have "holds (lck st) (set ow \<union> set os) h x t'" using w(15) a(1) by blast
      then obtain b where b: "b \<in> set ow \<union> set os" "covers (lck st b) x" unfolding holds_def by blast
      have "lc_left lc = None" using d(18) unlock(2) a(1) by blast
      then have "b \<in> set ow \<Longrightarrow> fl_end (lck st b) < s0" using d(14,16) c by fastforce
      moreover have "b \<in> set os \<Longrightarrow> e0 < fl_start (lck st b)" using r a(2) d(15) c by (simp add: right_ok_def)
      ultimately show False using b that by (auto simp: covers_def)
    qed
    ultimately show ?thesis using lock_kept_same [OF inv a(1)] unlock unfolding lock_outcome_def by simp
  next
    case new
    then have a: "\<not> lc_added lc" using ad by auto
    then have c: "lc_caller lc = cl" "in_list cl lc = []" "st = st0" using d(9) w(15) by (auto simp: in_list_def)
    show ?thesis
    proof (cases "lock_free_list st")
      case Nil
      then have "finish_lock ino fd ?lc st = Some (- ENOLCK, set_locks ino (A @ ow @ os @ B) st)"
        using new d(2) w(11) c by (simp add: finish_lock_def alloc_lock_def)
      then show ?thesis using lock_kept_same [OF inv a(1)] Nil c unfolding lock_outcome_def by simp
    next
      case (Cons n free)
      obtain st1 where st1: "alloc_lock cl fd st = Some (Some (n, st1))" "lck st1 = (lck st)(n := lck st cl)" "lock_free_list st1 = free"
          "i_flock st1 = i_flock st" "rings_ok (lk st1)" "current (lk st1) = current (lk st)"
        using alloc_lock_effect [OF Cons, of cl fd] w(4,8,14) d(1) c h Cons by auto
      have n: "n \<notin> set ow \<union> set os \<union> set A \<union> set B \<union> set free" "n \<noteq> cl" using w(6,7) Cons by auto
      have "finish_lock ino fd ?lc st = Some (0, set_locks ino (A @ ow @ [n] @ os @ B) (trim_locks n (lc_left lc) right st1))"
        using new d(2) w(11) c st1(1) by (simp add: finish_lock_def fin)
      moreover have "lock_result h (lock_bytes t s0 e0 old) cl ino A B st0 (set_locks ino (A @ ow @ [n] @ os @ B) (trim_locks n (lc_left lc) right st1))"
        by (rule trim_done [OF inv r]) (use n c w st1 Cons new in auto)
      ultimately show ?thesis unfolding lock_outcome_def by simp
    qed
  qed
qed

text \<open>The new lock lies inside the old lock \<^verbatim>\<open>r\<close>, which is split: the part before the new lock gets a structure of its own.\<close>

lemma lock_result_from:
  assumes "lock_result h new cl ino A B st1 st'" "\<And>a. a \<in> set A \<union> set B \<Longrightarrow> lck st1 a = lck st0 a"
    "i_flock st1 = i_flock st0" "current (lk st1) = current (lk st0)"
  shows "lock_result h new cl ino A B st0 st'"
  using assms unfolding lock_result_def by metis

lemma trim_split:
  assumes inv: "walk_inv h t s0 e0 st0 old cl A ow (r # os) B lc st"
    and r: "fl_start (lck st r) < fl_start (lck st (lc_caller lc))" "fl_end (lck st (lc_caller lc)) < fl_end (lck st r)"
    and st1: "lock_free_list st1 = free" "lck st1 = L(l := lck st r)" "rings_ok (lk st1)" "i_flock st1 = i_flock st" "current (lk st1) = current (lk st)"
    and L: "L = lck st \<and> n = cl \<and> t = F_UNLCK \<and> lock_free_list st = l # free
      \<or> L = (lck st)(n := lck st cl) \<and> t \<noteq> F_UNLCK \<and> lock_free_list st = n # l # free"
    and N: "N = (if t = F_UNLCK then [] else [n])"
  shows "lock_result h (lock_bytes t s0 e0 old) cl ino A B st0
    (set_locks ino (A @ ow @ l # N @ r # os @ B) (trim_locks n (Some l) (Some r) st1))"
proof -
  note w = walk_ends [OF inv] and d = walk_callerD [OF walk_ends(1) [OF inv]] and nx = walk_next [OF inv] and c = walk_surround [OF inv r(1)]
  let ?fv = "(if t = F_UNLCK then [] else [n]) @ free"
  let ?v = "split_at l r s0 ?fv st"
  let ?v1 = "st1\<lparr>lck := (lck st1)(l := (lck st r)\<lparr>fl_end := s0 - 1\<rparr>, r := (lck st r)\<lparr>fl_start := s0\<rparr>)\<rparr>"
  have f: "l \<in> set (lock_free_list st)" "set ?fv \<subseteq> set (lock_free_list st) - {l}" "distinct ?fv" using L w(6) by auto
  have ln: "l \<notin> set ow \<union> set os \<union> set A \<union> set B \<union> set free" "l \<noteq> r" "l \<noteq> cl" "r \<noteq> cl"
      "n \<notin> set ow \<union> set os \<union> set A \<union> set B \<union> set free" "n \<noteq> r" "n \<noteq> l" "t \<noteq> F_UNLCK \<Longrightarrow> n \<noteq> cl"
  proof -
    show "l \<notin> set ow \<union> set os \<union> set A \<union> set B \<union> set free" "l \<noteq> r" "l \<noteq> cl" "r \<noteq> cl" using f(1,2) w(6,7) by auto
    have "n = cl \<or> n \<in> set (lock_free_list st) - {l}" "n = cl \<or> n \<notin> set free" "n \<noteq> cl \<longleftrightarrow> t \<noteq> F_UNLCK" using L w(6,7) by auto
    moreover have "cl \<noteq> l" "set free \<subseteq> set (lock_free_list st)" using f(1,2) w(7) by auto
    ultimately show "n \<notin> set ow \<union> set os \<union> set A \<union> set B \<union> set free" "n \<noteq> r" "n \<noteq> l" "t \<noteq> F_UNLCK \<Longrightarrow> n \<noteq> cl"
      using w(6,7) by auto
  qed
  have b: "0 \<le> s0" "s0 \<le> e0" "e0 < OFFSET_MAX" "fl_start (lck st r) < s0" "e0 < fl_end (lck st r)" using d(3-5,8) r c by auto
  have invv: "walk_inv h t s0 e0 ?v old cl A (ow @ [l]) (r # os) B (lc\<lparr>lc_pre := A @ ow @ [l]\<rparr>) ?v"
    by (rule walk_split [OF inv _ _ r(1) f]) (use b in auto)
  have vc: "lck ?v (lc_caller (lc\<lparr>lc_pre := A @ ow @ [l]\<rparr>)) = lck st cl" using c(3) ln by simp
  have ro: "right_ok (Some r) (r # os) (lck ?v (lc_caller (lc\<lparr>lc_pre := A @ ow @ [l]\<rparr>))) (lck ?v)"
    unfolding vc right_ok_def using b c(4,5) ln(2) by simp
  have v1: "lck ?v1 a = lck ?v a" if "a \<noteq> n" for a using that L st1(2) by auto
  have "lock_result h (lock_bytes t s0 e0 old) cl ino A B ?v
    (set_locks ino (A @ (ow @ [l]) @ N @ (r # os) @ B) (trim_locks n (lc_left (lc\<lparr>lc_pre := A @ ow @ [l]\<rparr>)) (Some r) ?v1))"
  proof (rule trim_done [OF invv ro])
    show "lck ?v1 n = lck ?v (lc_caller (lc\<lparr>lc_pre := A @ ow @ [l]\<rparr>))" using vc L ln st1(2) by auto
    show "lck ?v1 a = lck ?v a" if "a \<in> set (ow @ [l]) \<union> set (r # os) \<union> set A \<union> set B" for a
      by (rule v1) (use that ln(5-7) in auto)
    show "lck ?v1 a = lck ?v a" if "a \<in> set (lock_free_list ?v1)" for a
      by (rule v1) (use that ln(5) st1(1) in auto)
  qed (use ln st1 f N w L in auto)
  moreover have "trim_locks n (lc_left (lc\<lparr>lc_pre := A @ ow @ [l]\<rparr>)) (Some r) ?v1 = trim_locks n (Some l) (Some r) st1"
  proof -
    have "lck st1 n = lck st cl" using L ln(7) st1(2) by auto
    then show ?thesis using c(2,4,5) ln b st1(2) L
      by (auto simp: trim_locks_def upd_lock_def Let_def fun_eq_iff fits_s32_def intro!: lock_state.equality)
  qed
  ultimately have "lock_result h (lock_bytes t s0 e0 old) cl ino A B ?v
    (set_locks ino (A @ ow @ l # N @ r # os @ B) (trim_locks n (Some l) (Some r) st1))" by simp
  then show ?thesis by (rule lock_result_from) (use ln nx(4) w(12-14) in auto)
qed

lemma alloc_lock_none: "lock_free_list st = [] \<Longrightarrow> alloc_lock fl fd st = Some None"
  by (simp add: alloc_lock_def)

lemma finish_surround:
  assumes inv: "walk_inv h t s0 e0 st0 old cl A ow (r # os) B lc st"
    and r: "fl_start (lck st r) < fl_start (lck st (lc_caller lc))" "fl_end (lck st (lc_caller lc)) < fl_end (lck st r)"
    and h: "h = (Some (current (lk st0)), fd)"
  shows "\<exists>res. finish_lock ino fd (lc\<lparr>lc_added := lc_added lc \<or> t = F_UNLCK, lc_left := Some r, lc_right := Some r, lc_post := r # os @ B\<rparr>) st = Some res
    \<and> lock_outcome h t s0 e0 old cl ino A B st0 res"
proof -
  let ?lc = "lc\<lparr>lc_added := lc_added lc \<or> t = F_UNLCK, lc_left := Some r, lc_right := Some r, lc_post := r # os @ B\<rparr>"
  note w = walk_ends [OF inv] and d = walk_callerD [OF walk_ends(1) [OF inv]] and nx = walk_next [OF inv] and c = walk_surround [OF inv r(1)]
  have pre: "lc_pre lc = A @ ow" using w(11) c(3) by (simp add: in_list_def)
  have hc: "holder (lck st cl) = (Some (current (lk st)), fd)" "holder (lck st r) = (Some (current (lk st)), fd)"
    using d(1) nx(6) c(3) h w(14) by simp_all
  have kept: "lock_result h old cl ino A B st0 (set_locks ino (A @ ow @ r # os @ B) st)" using lock_kept_same [OF inv c(1)] by simp
  show ?thesis
  proof (cases "t = F_UNLCK")
    case True
    show ?thesis
    proof (cases "lock_free_list st")
      case Nil
      then have "finish_lock ino fd ?lc st = Some (- ENOLCK, set_locks ino (A @ ow @ r # os @ B) st)"
        using True pre by (simp add: finish_lock_def split_lock_def alloc_lock_none)
      then show ?thesis using kept Nil c(6) unfolding lock_outcome_def by simp
    next
      case (Cons l free)
      obtain st1 where st1: "alloc_lock r fd st = Some (Some (l, st1))" "lck st1 = (lck st)(l := lck st r)" "lock_free_list st1 = free"
          "i_flock st1 = i_flock st" "rings_ok (lk st1)" "current (lk st1) = current (lk st)"
        using alloc_lock_effect [OF Cons _ w(4) hc(2)] w(8) Cons by auto
      have "finish_lock ino fd ?lc st = Some (0, set_locks ino (A @ ow @ l # [] @ r # os @ B) (trim_locks cl (Some l) (Some r) st1))"
        using True pre c(3) st1(1) by (simp add: finish_lock_def split_lock_def)
      moreover have "lock_result h (lock_bytes t s0 e0 old) cl ino A B st0
          (set_locks ino (A @ ow @ l # [] @ r # os @ B) (trim_locks cl (Some l) (Some r) st1))"
        by (rule trim_split [OF inv r]) (use True st1 Cons in auto)
      ultimately show ?thesis unfolding lock_outcome_def by simp
    qed
  next
    case False
    have fin: "finish_lock ino fd ?lc st = Option.bind (alloc_lock cl fd st) (\<lambda>q. case q of
        None \<Rightarrow> Some (- ENOLCK, set_locks ino (A @ ow @ r # os @ B) st)
      | Some (a, st) \<Rightarrow> split_lock ino fd a False (lc\<lparr>lc_added := False, lc_left := Some r, lc_right := Some r, lc_post := a # r # os @ B\<rparr>) st)"
      using False pre c(1,3) d(2) by (simp add: finish_lock_def)
    show ?thesis
    proof (cases "lock_free_list st")
      case Nil
      then have "finish_lock ino fd ?lc st = Some (- ENOLCK, set_locks ino (A @ ow @ r # os @ B) st)"
        unfolding fin by (simp add: alloc_lock_none)
      then show ?thesis using kept Nil c(6) unfolding lock_outcome_def by simp
    next
      case (Cons n free1)
      obtain st1 where st1: "alloc_lock cl fd st = Some (Some (n, st1))" "lck st1 = (lck st)(n := lck st cl)" "lock_free_list st1 = free1"
          "i_flock st1 = i_flock st" "rings_ok (lk st1)" "current (lk st1) = current (lk st)"
        using alloc_lock_effect [OF Cons _ w(4) hc(1)] w(8) Cons by auto
      have n: "n \<noteq> r" "n \<noteq> cl" using w(6,7) Cons by auto
      show ?thesis
      proof (cases free1)
        case Nil
        have "fl_owner (lck st1 n) \<noteq> None" using hc(1) st1(2) by (simp add: holder_def)
        from free_lock_effect [OF st1(5) this] obtain st2 where st2: "free_lock n st1 = Some st2"
            "lck st2 = (lck st1)(n := (lck st1 n)\<lparr>fl_owner := None\<rparr>)" "lock_free_list st2 = [n]" "i_flock st2 = i_flock st"
            "rings_ok (lk st2)" "current (lk st2) = current (lk st)"
          using st1 Nil by auto
        have "finish_lock ino fd ?lc st = Some (- ENOLCK, set_locks ino (A @ ow @ r # os @ B) st2)"
          unfolding fin using pre st1(1,3) st2(1) Nil by (simp add: split_lock_def alloc_lock_none)
        moreover have "lock_result h old cl ino A B st0 (set_locks ino (A @ ow @ r # os @ B) st2)"
          by (rule lock_kept [OF inv c(1)]) (use st1 st2 Cons Nil in auto)
        ultimately show ?thesis using Cons Nil c(6) unfolding lock_outcome_def by simp
      next
        case (Cons l free)
        have f: "lock_free_list st = n # l # free" using \<open>lock_free_list st = n # free1\<close> Cons by simp
        then have ln: "l \<noteq> n" "l \<noteq> r" "fl_owner (lck st l) = None" using w(6,8) by auto
        have "lock_free_list st1 = l # free" "fl_owner (lck st1 l) = None" "holder (lck st1 r) = (Some (current (lk st1)), fd)"
          using st1 Cons ln n hc(2) by auto
        from alloc_lock_effect [OF this(1,2) st1(5) this(3)] obtain st2 where st2: "alloc_lock r fd st1 = Some (Some (l, st2))"
            "lck st2 = (lck st1)(l := lck st r)" "lock_free_list st2 = free" "i_flock st2 = i_flock st" "rings_ok (lk st2)" "current (lk st2) = current (lk st)"
          using st1 n by auto
        have "finish_lock ino fd ?lc st = Some (0, set_locks ino (A @ ow @ l # [n] @ r # os @ B) (trim_locks n (Some l) (Some r) st2))"
          unfolding fin using pre st1(1) st2(1) by (simp add: split_lock_def)
        moreover have "lock_result h (lock_bytes t s0 e0 old) cl ino A B st0
            (set_locks ino (A @ ow @ l # [n] @ r # os @ B) (trim_locks n (Some l) (Some r) st2))"
          by (rule trim_split [OF inv r, where L = "lck st1"]) (use False st1 st2 f in auto)
        ultimately show ?thesis unfolding lock_outcome_def by simp
      qed
    qed
  qed
qed

lemma finish_lock_ok:
  assumes e: "walk_end h t s0 e0 st0 old cl A ow os B lc st" and h: "h = (Some (current (lk st0)), fd)"
  shows "\<exists>res. finish_lock ino fd lc st = Some res \<and> lock_outcome h t s0 e0 old cl ino A B st0 res"
proof -
  obtain lc0 where inv: "walk_inv h t s0 e0 st0 old cl A ow os B lc0 st"
    and lc: "lc = lc0\<lparr>lc_post := os @ B\<rparr> \<and> (\<forall>a\<in>set os. fl_end (lck st (lc_caller lc0)) < fl_start (lck st a))
        \<or> (\<exists>r os'. os = r # os' \<and> fl_type (lck st r) \<noteq> t \<and> fl_start (lck st r) \<le> fl_end (lck st (lc_caller lc0))
             \<and> fl_end (lck st (lc_caller lc0)) < fl_end (lck st r)
             \<and> lc = lc0\<lparr>lc_added := lc_added lc0 \<or> t = F_UNLCK,
                        lc_left := (if fl_start (lck st r) < fl_start (lck st (lc_caller lc0)) then Some r else lc_left lc0),
                        lc_right := Some r, lc_post := os @ B\<rparr>)"
    using e unfolding walk_end_def by blast
  have keep: "lc0\<lparr>lc_post := os @ B\<rparr> = lc0\<lparr>lc_added := lc_added lc0, lc_right := None, lc_post := os @ B\<rparr>"
    using walk_callerD(13) [OF walk_ends(1) [OF inv]] by (cases lc0) simp
  from lc show ?thesis
  proof
    assume a: "lc = lc0\<lparr>lc_post := os @ B\<rparr> \<and> (\<forall>a\<in>set os. fl_end (lck st (lc_caller lc0)) < fl_start (lck st a))"
    then show ?thesis using finish_plain [OF inv _ _ h, of None "lc_added lc0" ino] unfolding keep by (simp add: right_ok_def)
  next
    assume "\<exists>r os'. os = r # os' \<and> fl_type (lck st r) \<noteq> t \<and> fl_start (lck st r) \<le> fl_end (lck st (lc_caller lc0))
      \<and> fl_end (lck st (lc_caller lc0)) < fl_end (lck st r)
      \<and> lc = lc0\<lparr>lc_added := lc_added lc0 \<or> t = F_UNLCK,
           lc_left := (if fl_start (lck st r) < fl_start (lck st (lc_caller lc0)) then Some r else lc_left lc0),
           lc_right := Some r, lc_post := os @ B\<rparr>"
    then obtain r os' where r: "os = r # os'" "fl_start (lck st r) \<le> fl_end (lck st (lc_caller lc0))" "fl_end (lck st (lc_caller lc0)) < fl_end (lck st r)"
      and l: "lc = lc0\<lparr>lc_added := lc_added lc0 \<or> t = F_UNLCK,
           lc_left := (if fl_start (lck st r) < fl_start (lck st (lc_caller lc0)) then Some r else lc_left lc0),
           lc_right := Some r, lc_post := os @ B\<rparr>" by blast
    show ?thesis
    proof (cases "fl_start (lck st r) < fl_start (lck st (lc_caller lc0))")
      case True
      then show ?thesis using finish_surround [OF inv [unfolded r(1)] True r(3) h, of ino] l r(1) by simp
    next
      case False
      then have "lc = lc0\<lparr>lc_added := lc_added lc0 \<or> t = F_UNLCK, lc_right := Some r, lc_post := os @ B\<rparr>" using l by (cases lc0) simp
      moreover have "right_ok (Some r) os (lck st (lc_caller lc0)) (lck st)" unfolding right_ok_def using r False by simp
      ultimately show ?thesis using finish_plain [OF inv _ _ h, of "Some r" "lc_added lc0 \<or> t = F_UNLCK" ino] by simp
    qed
  qed
qed

section \<open>The whole call\<close>

lemma lock_list_walk:
  assumes l: "lock_list h cl ino A own B st" and c: "holder (lck st cl) = h" "fl_type (lck st cl) \<in> {F_RDLCK, F_WRLCK, F_UNLCK}"
    "0 \<le> fl_start (lck st cl)" "fl_start (lck st cl) \<le> fl_end (lck st cl)" "fl_end (lck st cl) < OFFSET_MAX"
  shows "walk_inv h (fl_type (lck st cl)) (fl_start (lck st cl)) (fl_end (lck st cl)) st (holds (lck st) (set own) h) cl A [] own B
    \<lparr>lc_caller = cl, lc_left = None, lc_right = None, lc_added = False, lc_pre = A, lc_post = []\<rparr> st"
  using assms unfolding walk_inv_def walk_lists_def walk_caller_def walk_bytes_def lock_list_def
  by (simp add: in_list_def covers_def) (metis not_less)

lemma lock_it_ok:
  assumes l: "lock_list h cl ino A own B st" and c: "holder (lck st cl) = h" "fl_type (lck st cl) \<in> {F_RDLCK, F_WRLCK, F_UNLCK}"
    "0 \<le> fl_start (lck st cl)" "fl_start (lck st cl) \<le> fl_end (lck st cl)" "fl_end (lck st cl) < OFFSET_MAX"
    and h: "h = (Some (current (lk st)), fd)" and B: "own = [] \<Longrightarrow> B = []"
  shows "\<exists>res. lock_it ino cl fd st = Some res
    \<and> lock_outcome h (fl_type (lck st cl)) (fl_start (lck st cl)) (fl_end (lck st cl)) (holds (lck st) (set own) h) cl ino A B st res"
proof -
  let ?lc = "\<lparr>lc_caller = cl, lc_left = None, lc_right = None, lc_added = False, lc_pre = A, lc_post = []\<rparr>"
  let ?other = "\<lambda>fl. \<not> same_holder (lck st cl) (lck st fl)"
  have ls: "i_flock st ino = A @ own @ B" "\<forall>a\<in>set A. ?other a" "\<forall>a\<in>set own. \<not> ?other a"
    using l c(1) by (auto simp: lock_list_def same_holder_iff)
  have tw: "takeWhile ?other (i_flock st ino) = A" "dropWhile ?other (i_flock st ino) = own @ B"
    using ls B by (cases own; simp)+
  obtain lc' st' ow' os' where loop: "lock_loop (own @ B) ?lc st = Some (lc', st')"
      and e: "walk_end h (fl_type (lck st cl)) (fl_start (lck st cl)) (fl_end (lck st cl)) st (holds (lck st) (set own) h) cl A ow' os' B lc' st'"
    using lock_loop_ends [OF lock_list_walk [OF l c]] by blast
  have "lock_it ino cl fd st = finish_lock ino fd lc' st'" unfolding lock_it_def Let_def tw using loop by simp
  then show ?thesis using finish_lock_ok [OF e h] by simp
qed

end
