(* ===== verification/Lock_Theorems.thy ===== *)
theory Lock_Theorems
  imports File_Locks_Result
begin

text \<open>
  The properties of record locks.  Witnesses run on \<^verbatim>\<open>demo_locks\<close>: process 2 has a read lock on the bytes 10 to 19 through
  its descriptor 3 and process 3 one on the bytes 15 to 30.
\<close>

section \<open>Exclusion\<close>


lemma lock_list_holds:
  assumes "lock_list h cl ino A own B st"
  shows "holds (lck st) (set (i_flock st ino)) h x t \<longleftrightarrow> holds (lck st) (set own) h x t"
    "k \<noteq> h \<Longrightarrow> holds (lck st) (set (i_flock st ino)) k x t \<longleftrightarrow> holds (lck st) (set A \<union> set B) k x t"
  using assms unfolding lock_list_def holds_def by auto





text \<open>The list as the process sees it; when it has no lock all others are taken to be before the place of a new one.\<close>

definition own_list :: "laddr \<Rightarrow> nat \<Rightarrow> nat \<Rightarrow> laddr list \<Rightarrow> laddr list \<Rightarrow> laddr list \<Rightarrow> lock_state \<Rightarrow> bool" where
  "own_list cl fd ino A own B st \<longleftrightarrow> lock_list (Some (current (lk st)), fd) cl ino A own B st \<and> (own = [] \<longrightarrow> B = [])"




section \<open>Releasing all locks\<close>

lemma free_locks_effect:
  assumes "rings_ok (lk st)" "distinct ls" "\<forall>a\<in>set ls. fl_owner (lck st a) \<noteq> None"
  shows "\<exists>st'. free_locks ls st = Some st' \<and> lock_free_list st' = rev ls @ lock_free_list st \<and> i_flock st' = i_flock st \<and> rings_ok (lk st')
    \<and> lck st' = (\<lambda>a. if a \<in> set ls then (lck st a)\<lparr>fl_owner := None\<rparr> else lck st a) \<and> current (lk st') = current (lk st)"
  using assms
proof (induction ls arbitrary: st)
  case (Cons a ls)
  have "fl_owner (lck st a) \<noteq> None" using Cons.prems(3) by simp
  from free_lock_effect [OF Cons.prems(1) this] obtain st1 where st1: "free_lock a st = Some st1" "lck st1 = (lck st)(a := (lck st a)\<lparr>fl_owner := None\<rparr>)"
    "lock_free_list st1 = a # lock_free_list st" "i_flock st1 = i_flock st" "rings_ok (lk st1)" "current (lk st1) = current (lk st)" by blast
  have "\<forall>b\<in>set ls. fl_owner (lck st1 b) \<noteq> None" using Cons.prems(2,3) st1(2) by auto
  with Cons.IH [OF st1(5)] Cons.prems(2) obtain st' where "free_locks ls st1 = Some st'" "lock_free_list st' = rev ls @ a # lock_free_list st"
    "i_flock st' = i_flock st" "rings_ok (lk st')" "current (lk st') = current (lk st)"
    "lck st' = (\<lambda>b. if b \<in> set ls then (lck st1 b)\<lparr>fl_owner := None\<rparr> else lck st1 b)" using st1 by auto
  then show ?case using st1 Cons.prems(2) by (auto simp: fun_eq_iff)
qed simp

lemma remove_locks_list:
  assumes l: "lock_list (Some t, fd) cl ino A own B st" and B: "own = [] \<Longrightarrow> B = []"
  shows "\<exists>st'. fcntl_remove_locks t ino fd st = Some st' \<and> lock_list (Some t, fd) cl ino (A @ B) [] [] st'
    \<and> lock_free_list st' = rev own @ lock_free_list st \<and> (\<forall>a\<in>set A \<union> set B. lck st' a = lck st a) \<and> (\<forall>i. i \<noteq> ino \<longrightarrow> i_flock st' i = i_flock st i)"
proof -
  let ?mine = "\<lambda>a. fl_owner (lck st a) = Some t \<and> fl_fd (lck st a) = fd"
  have m: "?mine a \<longleftrightarrow> holder (lck st a) = (Some t, fd)" for a by (auto simp: holder_def)
  have ls: "i_flock st ino = A @ own @ B" "\<forall>a\<in>set A. \<not> ?mine a" "\<forall>a\<in>set own. ?mine a" "\<forall>a\<in>set B. \<not> ?mine a"
    using l unfolding lock_list_def m by auto
  have tw: "takeWhile (Not \<circ> ?mine) (i_flock st ino) = A" "dropWhile (Not \<circ> ?mine) (i_flock st ino) = own @ B"
    using ls B by (cases own; simp)+
  have own: "takeWhile ?mine (own @ B) = own" "dropWhile ?mine (own @ B) = B" using ls(3,4) by (cases B; simp)+
  have "rings_ok (lk st)" "distinct own" "\<forall>a\<in>set own. fl_owner (lck st a) \<noteq> None" using l ls(3) by (simp_all add: lock_list_def)
  from free_locks_effect [OF this] obtain st1 where st1: "free_locks own st = Some st1" "lock_free_list st1 = rev own @ lock_free_list st"
    "i_flock st1 = i_flock st" "rings_ok (lk st1)" "lck st1 = (\<lambda>a. if a \<in> set own then (lck st a)\<lparr>fl_owner := None\<rparr> else lck st a)" by blast
  have "fcntl_remove_locks t ino fd st = Some (set_locks ino (A @ B) st1)"
    unfolding fcntl_remove_locks_def Let_def tw own using st1(1) by simp
  moreover have same: "\<forall>a\<in>set A \<union> set B. lck st1 a = lck st a" using l st1(5) by (auto simp: lock_list_def)
  moreover have "lock_list (Some t, fd) cl ino (A @ B) [] [] (set_locks ino (A @ B) st1)"
    using l same st1 unfolding lock_list_def by (auto simp: ordered_def)
  ultimately show ?thesis using st1 by (intro exI [of _ "set_locks ino (A @ B) st1"]) simp
qed

section \<open>The properties\<close>

definition demo_lock :: "tid \<Rightarrow> nat \<Rightarrow> int \<Rightarrow> int \<Rightarrow> int \<Rightarrow> file_lock" where
  "demo_lock t fd ty s e = \<lparr>fl_owner = Some t, fl_fd = fd, fl_type = ty, fl_whence = 0, fl_start = s, fl_end = e\<rparr>"

definition no_lock :: file_lock where
  "no_lock = \<lparr>fl_owner = None, fl_fd = 0, fl_type = 0, fl_whence = 0, fl_start = 0, fl_end = 0\<rparr>"

definition demo_locks :: "file_lock \<Rightarrow> lock_state" where
  "demo_locks c = \<lparr>lk = demo_kernel, lck = (\<lambda>a. no_lock)(0 := demo_lock 2 3 F_RDLCK 10 19, 1 := demo_lock 3 4 F_RDLCK 15 30, 64 := c),
     lock_free_list = [2, 3, 4], i_flock = (\<lambda>_. [])(7 := [0, 1])\<rparr>"

lemma demo_rings: "rings_ok demo_kernel"
  by (auto simp: rings_ok_def wq_ring_def demo_kernel_def intro: exI [of _ "[]"])

lemma demo_own_list: "own_list 64 3 7 [] [0] [1] (demo_locks c)"
  using demo_rings by (simp add: own_list_def lock_list_def demo_locks_def demo_lock_def no_lock_def holder_def ordered_def lock_entry_def demo_kernel_def)







text \<open>C26: closing a file releases every lock the process has through the descriptor: afterwards it holds no byte, all its
  structures are back on the free list and the locks of others are unchanged.\<close>

theorem remove_locks_releases_all:
  assumes "lock_list (Some t, fd) cl ino A own B st" "own = [] \<longrightarrow> B = []"
  shows "\<exists>st'. fcntl_remove_locks t ino fd st = Some st' \<and> (\<forall>x ty. \<not> holds (lck st') (set (i_flock st' ino)) (Some t, fd) x ty)
    \<and> i_flock st' ino = A @ B \<and> lock_free_list st' = rev own @ lock_free_list st \<and> (\<forall>a\<in>set A \<union> set B. lck st' a = lck st a)"
proof -
  obtain st' where st': "fcntl_remove_locks t ino fd st = Some st'" "lock_list (Some t, fd) cl ino (A @ B) [] [] st'"
    "lock_free_list st' = rev own @ lock_free_list st" "\<forall>a\<in>set A \<union> set B. lck st' a = lck st a" using remove_locks_list [OF assms(1)] assms(2) by blast
  have "\<not> holds (lck st') (set (i_flock st' ino)) (Some t, fd) x ty" for x ty using lock_list_holds(1) [OF st'(2)] by simp
  then show ?thesis using st' by (auto simp: lock_list_def)
qed

theorem remove_locks_releases_all_witness:
  "\<exists>st'. fcntl_remove_locks 2 7 3 (demo_locks no_lock) = Some st' \<and> i_flock st' 7 = [1] \<and> lock_free_list st' = [0, 2, 3, 4]"
proof -
  have "lock_list (Some 2, 3) 64 7 [] [0] [1] (demo_locks no_lock)" using demo_own_list [of no_lock] by (simp add: own_list_def demo_locks_def demo_kernel_def)
  from remove_locks_releases_all [OF this] show ?thesis by (auto simp: demo_locks_def)
qed

text \<open>A lock that reaches to the end of the file is not merged with the one the process has, because the end plus one
  overflows.  Two such locks and an unlock of the bytes 5 to 9 all succeed, but byte 7 is still locked.\<close>

definition set_lock :: "file_lock \<Rightarrow> lock_state \<Rightarrow> (setlk_result \<times> lock_state) option" where
  "set_lock c st = setlk_round 7 64 3 F_SETLKW 0 (upd_lock 64 (\<lambda>_. c) st)"

definition demo_no_locks :: lock_state where
  "demo_no_locks = \<lparr>lk = demo_kernel, lck = (\<lambda>a. no_lock), lock_free_list = [0, 1, 2], i_flock = (\<lambda>_. [])\<rparr>"

theorem unlock_after_eof_lock:
  "\<exists>st1 st2 st3. set_lock (demo_lock 2 3 F_RDLCK 0 OFFSET_MAX) demo_no_locks = Some (Setlk_Ret 0, st1)
    \<and> set_lock (demo_lock 2 3 F_RDLCK 5 OFFSET_MAX) st1 = Some (Setlk_Ret 0, st2)
    \<and> set_lock (demo_lock 2 3 F_UNLCK 5 9) st2 = Some (Setlk_Ret 0, st3)
    \<and> holds (lck st3) (set (i_flock st3 7)) (Some 2, 3) 7 F_RDLCK"
  by (simp add: set_lock_def setlk_round_def lock_it_def finish_lock_def split_lock_def alloc_lock_def trim_locks_def set_locks_def upd_lock_def
      demo_no_locks_def demo_lock_def no_lock_def same_holder_def conflict_def overlap_def holds_def holder_def covers_def next_lock_def
      swrap_def demo_kernel_def set_wq_head_def)

end
