(* ===== verification/Ring_Lists.thy ===== *)
theory Ring_Lists
  imports Kernel_Prelude
begin

text \<open>
  Circular doubly linked lists: \<^verbatim>\<open>ring nx pv xs\<close> says that from each element of \<^verbatim>\<open>xs\<close> the link \<^verbatim>\<open>nx\<close> leads to the following one and from
  the last to the first, and that \<^verbatim>\<open>pv\<close> leads back.  A ring can be read from any of its elements.  The queues of socket buffers and the
  list of least recently used disk buffers are such rings.
\<close>

section \<open>Rings\<close>

fun seg :: "('a \<Rightarrow> 'a option) \<Rightarrow> ('a \<Rightarrow> 'a option) \<Rightarrow> 'a \<Rightarrow> 'a list \<Rightarrow> 'a \<Rightarrow> bool" where
  "seg nx pv a [] b \<longleftrightarrow> nx a = Some b \<and> pv b = Some a"
| "seg nx pv a (x # xs) b \<longleftrightarrow> nx a = Some x \<and> pv x = Some a \<and> seg nx pv x xs b"

fun ring :: "('a \<Rightarrow> 'a option) \<Rightarrow> ('a \<Rightarrow> 'a option) \<Rightarrow> 'a list \<Rightarrow> bool" where
  "ring nx pv [] \<longleftrightarrow> True"
| "ring nx pv (h # xs) \<longleftrightarrow> distinct (h # xs) \<and> seg nx pv h xs h"

lemma seg_append: "seg nx pv a (xs @ x # ys) b \<longleftrightarrow> seg nx pv a xs x \<and> seg nx pv x ys b"
  by (induction xs arbitrary: a) auto

lemma seg_cong:
  "(\<And>x. x = a \<or> x \<in> set xs \<Longrightarrow> nx' x = nx x) \<Longrightarrow> (\<And>x. x = b \<or> x \<in> set xs \<Longrightarrow> pv' x = pv x) \<Longrightarrow> seg nx' pv' a xs b = seg nx pv a xs b"
  by (induction xs arbitrary: a) auto

lemma ring_cong: "(\<And>x. x \<in> set xs \<Longrightarrow> nx' x = nx x) \<Longrightarrow> (\<And>x. x \<in> set xs \<Longrightarrow> pv' x = pv x) \<Longrightarrow> ring nx' pv' xs = ring nx pv xs"
  using seg_cong [of "hd xs" "tl xs" nx' nx "hd xs" pv' pv] by (cases xs) auto

lemma ring_distinct: "ring nx pv xs \<Longrightarrow> distinct xs"
  by (cases xs) auto

lemma ring_rotate: "ring nx pv (xs @ ys) \<longleftrightarrow> ring nx pv (ys @ xs)"
  by (cases xs; cases ys) (auto simp: seg_append)

lemma ring_rotate1: "ring nx pv (h # xs) \<longleftrightarrow> ring nx pv (xs @ [h])"
  using ring_rotate [of nx pv "[h]" xs] by simp

text \<open>The neighbours of an element.\<close>

lemma seg_ends:
  assumes "seg nx pv a xs b"
  shows "nx a = Some (hd (xs @ [b]))" "pv b = Some (last (a # xs))"
  using assms by (induction xs arbitrary: a) auto

lemma ring_ends:
  assumes "ring nx pv (h # xs)"
  shows "nx h = Some (hd (xs @ [h]))" "pv h = Some (last (h # xs))"
  using seg_ends [of nx pv h xs h] assms by auto

lemma ring_links:
  assumes "ring nx pv xs" "x \<in> set xs"
  obtains n p where "nx x = Some n" "pv x = Some p" "n \<in> set xs" "p \<in> set xs"
proof -
  from split_list [OF assms(2)] obtain us vs where xs: "xs = us @ x # vs" by blast
  have r: "ring nx pv (x # vs @ us)" using assms(1) xs ring_rotate [of nx pv us "x # vs"] by simp
  have "hd ((vs @ us) @ [x]) \<in> set xs" using hd_in_set [of "(vs @ us) @ [x]"] xs by auto
  moreover have "last (x # vs @ us) \<in> set xs" using last_in_set [of "x # vs @ us"] xs by auto
  ultimately show ?thesis using that ring_ends [OF r] by blast
qed

lemma ring_next_nth:
  assumes "ring nx pv xs" "i < length xs"
  shows "nx (xs ! i) = Some (xs ! (Suc i mod length xs))"
proof -
  have xs: "xs = take i xs @ xs ! i # drop (Suc i) xs" using assms(2) by (simp add: id_take_nth_drop)
  have "ring nx pv (xs ! i # drop (Suc i) xs @ take i xs)"
    using assms(1) ring_rotate [of nx pv "take i xs" "xs ! i # drop (Suc i) xs"] xs by simp
  from ring_ends(1) [OF this] have *: "nx (xs ! i) = Some (hd (drop (Suc i) xs @ take i xs @ [xs ! i]))" by simp
  show ?thesis
  proof (cases "Suc i < length xs")
    case True
    then show ?thesis using * by (simp add: hd_append hd_drop_conv_nth)
  next
    case False
    then have i: "Suc i = length xs" using assms(2) by simp
    have "hd (take i xs @ [xs ! i]) = xs ! 0" by (cases i) (use assms(2) in \<open>auto simp: hd_append hd_take hd_conv_nth\<close>)
    then show ?thesis using * i by simp
  qed
qed

section \<open>Inserting and removing\<close>

lemma ring_insert:
  assumes "ring nx pv (h # xs)" "n \<notin> set (h # xs)" "l = last (h # xs)"
  shows "ring (nx(n := Some h, l := Some n)) (pv(n := Some l, h := Some n)) (h # xs @ [n])"
proof -
  let ?nx = "nx(n := Some h, l := Some n)" and ?pv = "pv(n := Some l, h := Some n)"
  have d: "distinct (h # xs @ [n])" using assms by auto
  show ?thesis
  proof (cases xs rule: rev_cases)
    case Nil
    then show ?thesis using assms by auto
  next
    case (snoc ys y)
    have s: "seg nx pv h ys y" "l = y" "seg nx pv y [] h" using assms snoc by (auto simp: seg_append)
    have "seg ?nx ?pv h ys y"
      by (rule seg_cong [THEN iffD2, OF _ _ s(1)]) (use d s(2) snoc in auto)
    then show ?thesis using d s snoc by (auto simp: seg_append)
  qed
qed

lemma ring_remove:
  assumes "ring nx pv (h # x # xs)" "n = x" "p = last (x # xs)"
  shows "ring (nx(p := Some n)) (pv(n := Some p)) (x # xs)"
proof -
  have s: "seg nx pv x xs h" and d: "distinct (h # x # xs)" using assms(1) by auto
  show ?thesis
  proof (cases xs rule: rev_cases)
    case Nil
    then show ?thesis using assms by auto
  next
    case (snoc ys y)
    have y: "seg nx pv x ys y" "p = y" using s snoc assms by (auto simp: seg_append)
    have "seg (nx(p := Some n)) (pv(n := Some p)) x ys y"
      by (rule seg_cong [THEN iffD2, OF _ _ y(1)]) (use d y(2) snoc assms(2) in auto)
    then show ?thesis using d y snoc assms(2) by (auto simp: seg_append)
  qed
qed

end
