(* ===== verification/Skbuff.thy ===== *)
theory Skbuff
  imports Ring_Lists
begin

text \<open>
  Socket buffers: \<^verbatim>\<open>net/inet/skbuff.c\<close>, the buffer accounting of \<^verbatim>\<open>net/inet/sock.c\<close> and the release of a datagram of
  \<^verbatim>\<open>net/inet/datagram.c\<close>.  Buffers and sockets are in stores indexed by their addresses, and the variable that holds the first buffer
  of a queue (the \<^verbatim>\<open>list\<close> of the code) is a cell of the store \<^verbatim>\<open>qheads\<close>; \<^verbatim>\<open>NULL\<close> is \<^verbatim>\<open>None\<close>, and an operation that dereferences it is
  \<^verbatim>\<open>None\<close>.  The memory that \<^verbatim>\<open>kmalloc\<close> returns is an argument; \<^verbatim>\<open>live\<close> tells which buffers \<^verbatim>\<open>kfree_s\<close> has not taken back.  \<^verbatim>\<open>printk\<close> and the
  call-backs of a socket add to \<^verbatim>\<open>net_log\<close>.  All protocols of the kernel have \<^verbatim>\<open>sock_rfree\<close> and \<^verbatim>\<open>sock_wfree\<close> as their \<^verbatim>\<open>rfree\<close> and \<^verbatim>\<open>wfree\<close>, so
  \<^verbatim>\<open>prot\<close> only tells whether there is one.
\<close>

section \<open>Data\<close>

record sk_buff =
  skb_cookie :: u32
  skb_next :: "nat option"
  skb_prev :: "nat option"
  skb_list :: "nat option"
  skb_sk :: "nat option"
  skb_mem_addr :: nat
  skb_mem_len :: u32
  skb_truesize :: u32
  skb_fraglist :: "nat option"
  skb_magic :: int
  skb_free :: int
  skb_lock :: u8
  skb_users :: u16

record sock =
  wmem_alloc :: u32
  rmem_alloc :: u32
  sndbuf :: u16
  rcvbuf :: u16
  sk_shutdown :: u16
  sk_dead :: bool
  sk_prot :: bool

datatype net_note = Found_Freed nat | Non_Skb nat | Dubious_Size nat | Suspicious_Head nat | Suspicious_Tail nat | Invalid_List nat
  | Before_Unlisted nat | Insert_On_List nat | After_Unlisted nat | Append_On_List nat | Null_Skb | Forgot_Free nat | Still_On_List nat
  | Alloc_Nonatomic | Write_Space nat | Wake_Sleepers nat

record net_state =
  skbs :: "nat \<Rightarrow> sk_buff"
  qheads :: "nat \<Rightarrow> nat option"
  socks :: "nat \<Rightarrow> sock"
  net_memory :: u32
  net_skbcount :: u32
  net_intr_count :: u32
  live :: "nat \<Rightarrow> bool"
  net_log :: "net_note list"

abbreviation (input) SK_FREED_SKB :: u32 where "SK_FREED_SKB \<equiv> 0x0DE2C0DE"
abbreviation (input) SK_GOOD_SKB :: u32 where "SK_GOOD_SKB \<equiv> 0xDEC0DED1"

definition upd_skb :: "nat \<Rightarrow> (sk_buff \<Rightarrow> sk_buff) \<Rightarrow> net_state \<Rightarrow> net_state" where
  "upd_skb a f s = s\<lparr>skbs := (skbs s)(a := f (skbs s a))\<rparr>"

definition upd_sock :: "nat \<Rightarrow> (sock \<Rightarrow> sock) \<Rightarrow> net_state \<Rightarrow> net_state" where
  "upd_sock a f s = s\<lparr>socks := (socks s)(a := f (socks s a))\<rparr>"

definition set_head :: "nat \<Rightarrow> nat option \<Rightarrow> net_state \<Rightarrow> net_state" where
  "set_head l h s = s\<lparr>qheads := (qheads s)(l := h)\<rparr>"

definition note_if :: "bool \<Rightarrow> net_note \<Rightarrow> net_state \<Rightarrow> net_state" where
  "note_if b n s = (if b then s\<lparr>net_log := net_log s @ [n]\<rparr> else s)"

section \<open>Queues\<close>

definition skb_check :: "nat \<Rightarrow> net_state \<Rightarrow> net_state" where
  "skb_check a s =
    (let k = skbs s a;
         s = note_if (skb_cookie k = SK_FREED_SKB) (Found_Freed a) s;
         s = note_if (skb_cookie k \<noteq> SK_GOOD_SKB) (Non_Skb a) s
     in note_if (skb_mem_len k \<noteq> skb_truesize k) (Dubious_Size a) s)"

definition skb_queue_head :: "nat \<Rightarrow> nat \<Rightarrow> net_state \<Rightarrow> net_state option" where
  "skb_queue_head l n s =
    (let s = skb_check n s;
         s = note_if (skb_list (skbs s n) \<noteq> None) (Suspicious_Head n) s;
         s = upd_skb n (\<lambda>k. k\<lparr>skb_list := Some l\<rparr>) s;
         s = upd_skb n (\<lambda>k. k\<lparr>skb_next := qheads s l\<rparr>) s;
         s = (case qheads s l of
                Some h \<Rightarrow> upd_skb n (\<lambda>k. k\<lparr>skb_prev := skb_prev (skbs s h)\<rparr>) s
              | None \<Rightarrow> upd_skb n (\<lambda>k. k\<lparr>skb_prev := Some n\<rparr>) s)
     in do {
       p \<leftarrow> skb_prev (skbs s n);
       let s = upd_skb p (\<lambda>k. k\<lparr>skb_next := Some n\<rparr>) s;
       x \<leftarrow> skb_next (skbs s n);
       let s = upd_skb x (\<lambda>k. k\<lparr>skb_prev := Some n\<rparr>) s;
       p \<leftarrow> skb_prev (skbs s n);
       let s = skb_check p s;
       x \<leftarrow> skb_next (skbs s n);
       let s = skb_check x s;
       Some (set_head l (Some n) s) })"

definition skb_queue_tail :: "nat \<Rightarrow> nat \<Rightarrow> net_state \<Rightarrow> net_state option" where
  "skb_queue_tail l n s =
    (let s = note_if (skb_list (skbs s n) \<noteq> None) (Suspicious_Tail n) s;
         s = skb_check n s;
         s = upd_skb n (\<lambda>k. k\<lparr>skb_list := Some l\<rparr>) s
     in do {
       s \<leftarrow> (case qheads s l of
           Some h \<Rightarrow> do {
             p \<leftarrow> skb_prev (skbs s h);
             let s = upd_skb p (\<lambda>k. k\<lparr>skb_next := Some n\<rparr>) s;
             let s = upd_skb n (\<lambda>k. k\<lparr>skb_prev := skb_prev (skbs s h)\<rparr>) s;
             let s = upd_skb n (\<lambda>k. k\<lparr>skb_next := Some h\<rparr>) s;
             Some (upd_skb h (\<lambda>k. k\<lparr>skb_prev := Some n\<rparr>) s) }
         | None \<Rightarrow> do {
             let s = upd_skb n (\<lambda>k. k\<lparr>skb_next := Some n\<rparr>) s;
             let s = upd_skb n (\<lambda>k. k\<lparr>skb_prev := Some n\<rparr>) s;
             Some (set_head l (Some n) s) });
       p \<leftarrow> skb_prev (skbs s n);
       let s = skb_check p s;
       x \<leftarrow> skb_next (skbs s n);
       Some (skb_check x s) })"

definition skb_dequeue :: "nat \<Rightarrow> net_state \<Rightarrow> (nat option \<times> net_state) option" where
  "skb_dequeue l s =
    (case qheads s l of
       None \<Rightarrow> Some (None, s)
     | Some r \<Rightarrow> do {
         s \<leftarrow> (if skb_next (skbs s r) = Some r then Some (set_head l None s)
               else do {
                 n \<leftarrow> skb_next (skbs s r);
                 let s = upd_skb n (\<lambda>k. k\<lparr>skb_prev := skb_prev (skbs s r)\<rparr>) s;
                 p \<leftarrow> skb_prev (skbs s r);
                 let s = upd_skb p (\<lambda>k. k\<lparr>skb_next := skb_next (skbs s r)\<rparr>) s;
                 Some (set_head l (skb_next (skbs s r)) s) });
         let s = skb_check r s;
         let s = note_if (skb_list (skbs s r) \<noteq> Some l) (Invalid_List r) s;
         Some (Some r, upd_skb r (\<lambda>k. k\<lparr>skb_list := None, skb_next := None, skb_prev := None\<rparr>) s) })"

definition skb_insert :: "nat \<Rightarrow> nat \<Rightarrow> net_state \<Rightarrow> net_state option" where
  "skb_insert old n s =
    (let s = skb_check old s;
         s = skb_check n s;
         s = note_if (skb_list (skbs s old) = None) (Before_Unlisted old) s;
         s = note_if (skb_list (skbs s n) \<noteq> None) (Insert_On_List n) s;
         s = upd_skb n (\<lambda>k. k\<lparr>skb_list := skb_list (skbs s old)\<rparr>) s;
         s = upd_skb n (\<lambda>k. k\<lparr>skb_next := Some old\<rparr>) s;
         s = upd_skb n (\<lambda>k. k\<lparr>skb_prev := skb_prev (skbs s old)\<rparr>) s
     in do {
       x \<leftarrow> skb_next (skbs s n);
       let s = upd_skb x (\<lambda>k. k\<lparr>skb_prev := Some n\<rparr>) s;
       p \<leftarrow> skb_prev (skbs s n);
       Some (upd_skb p (\<lambda>k. k\<lparr>skb_next := Some n\<rparr>) s) })"

definition skb_append :: "nat \<Rightarrow> nat \<Rightarrow> net_state \<Rightarrow> net_state option" where
  "skb_append old n s =
    (let s = skb_check old s;
         s = skb_check n s;
         s = note_if (skb_list (skbs s old) = None) (After_Unlisted old) s;
         s = note_if (skb_list (skbs s n) \<noteq> None) (Append_On_List n) s;
         s = upd_skb n (\<lambda>k. k\<lparr>skb_list := skb_list (skbs s old)\<rparr>) s;
         s = upd_skb n (\<lambda>k. k\<lparr>skb_prev := Some old\<rparr>) s;
         s = upd_skb n (\<lambda>k. k\<lparr>skb_next := skb_next (skbs s old)\<rparr>) s
     in do {
       x \<leftarrow> skb_next (skbs s n);
       let s = upd_skb x (\<lambda>k. k\<lparr>skb_prev := Some n\<rparr>) s;
       p \<leftarrow> skb_prev (skbs s n);
       Some (upd_skb p (\<lambda>k. k\<lparr>skb_next := Some n\<rparr>) s) })"

definition skb_unlink :: "nat \<Rightarrow> net_state \<Rightarrow> net_state option" where
  "skb_unlink a s =
    (let s = skb_check a s
     in case skb_list (skbs s a) of
          None \<Rightarrow> Some s
        | Some l \<Rightarrow> do {
            n \<leftarrow> skb_next (skbs s a);
            let s = upd_skb n (\<lambda>k. k\<lparr>skb_prev := skb_prev (skbs s a)\<rparr>) s;
            p \<leftarrow> skb_prev (skbs s a);
            let s = upd_skb p (\<lambda>k. k\<lparr>skb_next := skb_next (skbs s a)\<rparr>) s;
            let s = (if qheads s l = Some a
                     then set_head l (if skb_next (skbs s a) = Some a then None else skb_next (skbs s a)) s else s);
            Some (upd_skb a (\<lambda>k. k\<lparr>skb_next := None, skb_prev := None, skb_list := None\<rparr>) s) })"

definition skb_peek :: "nat \<Rightarrow> net_state \<Rightarrow> nat option" where
  "skb_peek l s = qheads s l"

text \<open>The loop of \<^verbatim>\<open>skb_new_list_head\<close>; \<^verbatim>\<open>fuel\<close> bounds the number of buffers it visits, and running out of it is \<^verbatim>\<open>None\<close>.\<close>

fun new_list_loop :: "nat \<Rightarrow> nat \<Rightarrow> nat option \<Rightarrow> net_state \<Rightarrow> net_state option" where
  "new_list_loop 0 l k s = None"
| "new_list_loop (Suc fuel) l k s =
    do {
      a \<leftarrow> k;
      let s = skb_check a s;
      let s = upd_skb a (\<lambda>k. k\<lparr>skb_list := Some l\<rparr>) s;
      if skb_next (skbs s a) = qheads s l then Some s else new_list_loop fuel l (skb_next (skbs s a)) s }"

definition skb_new_list_head :: "nat \<Rightarrow> nat \<Rightarrow> net_state \<Rightarrow> net_state option" where
  "skb_new_list_head fuel l s = (if skb_peek l s = None then Some s else new_list_loop fuel l (skb_peek l s) s)"

section \<open>Memory\<close>

abbreviation (input) SKB_GFP_ATOMIC :: int where "SKB_GFP_ATOMIC \<equiv> 1"

text \<open>The priority that \<^verbatim>\<open>alloc_skb\<close> passes to \<^verbatim>\<open>kmalloc\<close>, and what it does with the memory it gets.\<close>

definition alloc_skb_priority :: "int \<Rightarrow> net_state \<Rightarrow> int" where
  "alloc_skb_priority priority s = (if net_intr_count s \<noteq> 0 \<and> priority \<noteq> SKB_GFP_ATOMIC then SKB_GFP_ATOMIC else priority)"

definition alloc_skb :: "u32 \<Rightarrow> int \<Rightarrow> nat option \<Rightarrow> net_state \<Rightarrow> nat option \<times> net_state" where
  "alloc_skb sz priority mem s =
    (let s = note_if (net_intr_count s \<noteq> 0 \<and> priority \<noteq> SKB_GFP_ATOMIC) Alloc_Nonatomic s
     in case mem of
          None \<Rightarrow> (None, s)
        | Some a \<Rightarrow>
            let s = s\<lparr>live := (live s)(a := True)\<rparr>;
                s = upd_skb a (\<lambda>k. k\<lparr>skb_free := 2, skb_list := None, skb_lock := 0, skb_truesize := sz, skb_mem_len := sz,
                      skb_mem_addr := a, skb_fraglist := None\<rparr>) s;
                s = s\<lparr>net_memory := net_memory s + sz, net_skbcount := net_skbcount s + 1\<rparr>
            in (Some a, upd_skb a (\<lambda>k. k\<lparr>skb_cookie := SK_GOOD_SKB, skb_users := 0\<rparr>) s))"

definition kfree_skbmem :: "nat \<Rightarrow> u32 \<Rightarrow> net_state \<Rightarrow> net_state" where
  "kfree_skbmem mem sz s =
    (let s = skb_check mem s
     in if skb_cookie (skbs s mem) = SK_GOOD_SKB
        then let s = upd_skb mem (\<lambda>k. k\<lparr>skb_cookie := SK_FREED_SKB\<rparr>) s;
                 s = s\<lparr>live := (live s)(mem := False)\<rparr>
             in s\<lparr>net_skbcount := net_skbcount s - 1, net_memory := net_memory s - sz\<rparr>
        else s)"

definition sock_wmalloc :: "nat option \<Rightarrow> u32 \<Rightarrow> bool \<Rightarrow> int \<Rightarrow> nat option \<Rightarrow> net_state \<Rightarrow> nat option \<times> net_state" where
  "sock_wmalloc sk sz force priority mem s =
    (case sk of
       None \<Rightarrow> alloc_skb sz priority mem s
     | Some k \<Rightarrow>
         if wmem_alloc (socks s k) + sz < ucast (sndbuf (socks s k)) \<or> force
         then let (c, s) = alloc_skb sz priority mem s
              in (c, if c = None then s else upd_sock k (\<lambda>x. x\<lparr>wmem_alloc := wmem_alloc x + sz\<rparr>) s)
         else (None, s))"

definition sock_rmalloc :: "nat option \<Rightarrow> u32 \<Rightarrow> bool \<Rightarrow> int \<Rightarrow> nat option \<Rightarrow> net_state \<Rightarrow> nat option \<times> net_state" where
  "sock_rmalloc sk sz force priority mem s =
    (case sk of
       None \<Rightarrow> alloc_skb sz priority mem s
     | Some k \<Rightarrow>
         if rmem_alloc (socks s k) + sz < ucast (rcvbuf (socks s k)) \<or> force
         then let (c, s) = alloc_skb sz priority mem s
              in (c, if c = None then s else upd_sock k (\<lambda>x. x\<lparr>rmem_alloc := rmem_alloc x + sz\<rparr>) s)
         else (None, s))"

definition sock_wfree :: "nat option \<Rightarrow> nat \<Rightarrow> u32 \<Rightarrow> net_state \<Rightarrow> net_state" where
  "sock_wfree sk mem sz s =
    (let s = skb_check mem s;
         s = kfree_skbmem mem sz s
     in case sk of
          None \<Rightarrow> s
        | Some k \<Rightarrow> let s = upd_sock k (\<lambda>x. x\<lparr>wmem_alloc := wmem_alloc x - sz\<rparr>) s
                    in note_if (\<not> sk_dead (socks s k)) (Write_Space k) s)"

definition sock_rfree :: "nat option \<Rightarrow> nat \<Rightarrow> u32 \<Rightarrow> net_state \<Rightarrow> net_state" where
  "sock_rfree sk mem sz s =
    (let s = skb_check mem s;
         s = kfree_skbmem mem sz s
     in case sk of
          None \<Rightarrow> s
        | Some k \<Rightarrow> upd_sock k (\<lambda>x. x\<lparr>rmem_alloc := rmem_alloc x - sz\<rparr>) s)"

datatype free_rw = FREE_READ | FREE_WRITE

definition kfree_skb :: "nat option \<Rightarrow> free_rw \<Rightarrow> net_state \<Rightarrow> net_state" where
  "kfree_skb skb rw s =
    (case skb of
       None \<Rightarrow> note_if True Null_Skb s
     | Some a \<Rightarrow>
         let s = skb_check a s
         in if skb_lock (skbs s a) \<noteq> 0 then upd_skb a (\<lambda>k. k\<lparr>skb_free := 1\<rparr>) s
            else
              let s = note_if (skb_free (skbs s a) = 2) (Forgot_Free a) s;
                  s = note_if (skb_list (skbs s a) \<noteq> None) (Still_On_List a) s;
                  s = upd_skb a (\<lambda>k. k\<lparr>skb_magic := 0\<rparr>) s;
                  mem = skb_mem_addr (skbs s a);
                  sz = skb_mem_len (skbs s a)
              in case skb_sk (skbs s a) of
                   None \<Rightarrow> kfree_skbmem mem sz s
                 | Some k \<Rightarrow>
                     if sk_prot (socks s k)
                     then (if rw = FREE_READ then sock_rfree (Some k) mem sz s else sock_wfree (Some k) mem sz s)
                     else
                       let s = (if rw = FREE_READ then upd_sock k (\<lambda>x. x\<lparr>rmem_alloc := rmem_alloc x - sz\<rparr>) s
                                else upd_sock k (\<lambda>x. x\<lparr>wmem_alloc := wmem_alloc x - sz\<rparr>) s);
                           s = note_if (\<not> sk_dead (socks s k)) (Wake_Sleepers k) s
                       in kfree_skbmem mem sz s)"

definition skb_kept_by_device :: "nat \<Rightarrow> net_state \<Rightarrow> net_state" where
  "skb_kept_by_device a s = upd_skb a (\<lambda>k. k\<lparr>skb_lock := skb_lock k + 1\<rparr>) s"

definition skb_device_release :: "nat \<Rightarrow> free_rw \<Rightarrow> net_state \<Rightarrow> net_state" where
  "skb_device_release a mode s =
    (let s = upd_skb a (\<lambda>k. k\<lparr>skb_lock := skb_lock k - 1\<rparr>) s
     in if skb_lock (skbs s a) = 0 \<and> skb_free (skbs s a) = 1 then kfree_skb (Some a) mode s else s)"

definition skb_device_locked :: "nat \<Rightarrow> net_state \<Rightarrow> bool" where
  "skb_device_locked a s \<longleftrightarrow> skb_lock (skbs s a) \<noteq> 0"

definition skb_free_datagram :: "nat \<Rightarrow> net_state \<Rightarrow> net_state" where
  "skb_free_datagram a s =
    (let s = upd_skb a (\<lambda>k. k\<lparr>skb_users := skb_users k - 1\<rparr>) s
     in if 0 < skb_users (skbs s a) then s
        else if skb_list (skbs s a) = None then kfree_skb (Some a) FREE_READ s else s)"

text \<open>\<^verbatim>\<open>skb_peek_copy\<close> is cut at the allocation, which may sleep: \<^verbatim>\<open>orig\<close> is the first buffer seen before, \<^verbatim>\<open>c\<close> what \<^verbatim>\<open>alloc_skb\<close> returned.  The
  \<^verbatim>\<open>continue\<close> of its \<^verbatim>\<open>do ... while(0)\<close> leaves the loop.\<close>

definition skb_peek_copy_begin :: "nat \<Rightarrow> net_state \<Rightarrow> (nat \<times> u32) option \<times> net_state" where
  "skb_peek_copy_begin l s =
    (case skb_peek l s of
       None \<Rightarrow> (None, s)
     | Some orig \<Rightarrow> (Some (orig, skb_truesize (skbs s orig)), skb_check orig s))"

definition skb_peek_copy_end :: "nat \<Rightarrow> nat \<Rightarrow> u32 \<Rightarrow> nat option \<Rightarrow> net_state \<Rightarrow> nat option \<times> net_state" where
  "skb_peek_copy_end l orig len c s =
    (case c of
       None \<Rightarrow> (None, s)
     | Some n \<Rightarrow>
         if skb_peek l s \<noteq> Some orig
         then let s = upd_skb n (\<lambda>k. k\<lparr>skb_sk := None, skb_free := 1, skb_mem_addr := n, skb_mem_len := len\<rparr>) s
              in (Some n, kfree_skb (Some n) FREE_WRITE s)
         else let s = skb_check orig s;
                  s = skb_check n s
              in (Some n, upd_skb n (\<lambda>_. (skbs s orig)\<lparr>skb_list := None, skb_magic := 0, skb_next := None, skb_prev := None,
                    skb_mem_addr := n, skb_sk := None, skb_free := 1\<rparr>) s))"

section \<open>Space left\<close>

abbreviation (input) MAX_WINDOW :: u32 where "MAX_WINDOW \<equiv> 4096"
abbreviation (input) MIN_WINDOW :: u32 where "MIN_WINDOW \<equiv> 2048"
abbreviation (input) SEND_SHUTDOWN :: u16 where "SEND_SHUTDOWN \<equiv> 2"

text \<open>\<^verbatim>\<open>rcvbuf - 2*MIN_WINDOW\<close> is computed with sign and then compared, and the rest computed, without one.\<close>

definition sock_rspace :: "nat option \<Rightarrow> net_state \<Rightarrow> u32" where
  "sock_rspace sk s =
    (case sk of
       None \<Rightarrow> 0
     | Some k \<Rightarrow>
         let x = socks s k
         in if to_u32 (uint (rcvbuf x) - 2 * 2048) \<le> rmem_alloc x then 0
            else let a = (ucast (rcvbuf x) - rmem_alloc x) div 2 - MIN_WINDOW;
                     amt = to_s32 (if a < MAX_WINDOW then a else MAX_WINDOW)
                 in if amt < 0 then 0 else to_u32 amt)"

definition sock_wspace :: "nat option \<Rightarrow> net_state \<Rightarrow> u32" where
  "sock_wspace sk s =
    (case sk of
       None \<Rightarrow> 0
     | Some k \<Rightarrow>
         let x = socks s k
         in if sk_shutdown x AND SEND_SHUTDOWN \<noteq> 0 then 0
            else if ucast (sndbuf x) \<le> wmem_alloc x then 0
            else ucast (sndbuf x) - wmem_alloc x)"

end
