(* ===== verification/Simulations.thy ===== *)
theory Simulations
  imports Kernel_Prelude
begin

text \<open>
  Two ways in which an implementation follows a specification over a sequence of operations.  In a \<^verbatim>\<open>simulation\<close> the specification determines the result of each
  operation; with \<^verbatim>\<open>outcomes\<close> it says what an operation does to the abstract state for the result that it had.
\<close>

section \<open>Results that the specification determines\<close>

fun run_ops :: "('op \<Rightarrow> 's \<Rightarrow> ('r \<times> 's) option) \<Rightarrow> 'op list \<Rightarrow> 's \<Rightarrow> ('r list \<times> 's) option" where
  "run_ops f [] s = Some ([], s)"
| "run_ops f (x # xs) s = do { (r, s) \<leftarrow> f x s; (rs, s) \<leftarrow> run_ops f xs s; Some (r # rs, s) }"

fun spec_ops :: "('op \<Rightarrow> 'a \<Rightarrow> 'r \<times> 'a) \<Rightarrow> 'op list \<Rightarrow> 'a \<Rightarrow> 'r list \<times> 'a" where
  "spec_ops f [] a = ([], a)"
| "spec_ops f (x # xs) a = (let (r, a) = f x a; (rs, a) = spec_ops f xs a in (r # rs, a))"

fun pre_ops :: "('op \<Rightarrow> 'a \<Rightarrow> 'r \<times> 'a) \<Rightarrow> ('op \<Rightarrow> 'a \<Rightarrow> bool) \<Rightarrow> 'op list \<Rightarrow> 'a \<Rightarrow> bool" where
  "pre_ops f pre [] a \<longleftrightarrow> True"
| "pre_ops f pre (x # xs) a \<longleftrightarrow> pre x a \<and> pre_ops f pre xs (snd (f x a))"

locale simulation =
  fixes impl :: "'op \<Rightarrow> 's \<Rightarrow> ('r \<times> 's) option" and spec :: "'op \<Rightarrow> 'a \<Rightarrow> 'r \<times> 'a"
    and pre :: "'op \<Rightarrow> 'a \<Rightarrow> bool" and rel :: "'s \<Rightarrow> 'a \<Rightarrow> bool"
  assumes sim: "rel s a \<Longrightarrow> pre x a \<Longrightarrow> \<exists>s'. impl x s = Some (fst (spec x a), s') \<and> rel s' (snd (spec x a))"
begin

lemma sim_ops:
  "rel s a \<Longrightarrow> pre_ops spec pre xs a \<Longrightarrow> \<exists>s'. run_ops impl xs s = Some (fst (spec_ops spec xs a), s') \<and> rel s' (snd (spec_ops spec xs a))"
proof (induction xs arbitrary: s a)
  case (Cons x xs)
  from sim [OF Cons.prems(1)] Cons.prems(2) obtain t where t: "impl x s = Some (fst (spec x a), t)" "rel t (snd (spec x a))" by auto
  from Cons.IH [OF t(2)] Cons.prems(2) show ?case using t(1) by (auto simp: Let_def split_beta)
qed simp

end

section \<open>Results that the specification allows\<close>

text \<open>\<^verbatim>\<open>spec x r a\<close> is \<^verbatim>\<open>None\<close> when the result \<^verbatim>\<open>r\<close> of \<^verbatim>\<open>x\<close> is not possible in \<^verbatim>\<open>a\<close>.\<close>

fun explain :: "('op \<Rightarrow> 'r \<Rightarrow> 'a \<Rightarrow> 'a option) \<Rightarrow> 'op list \<Rightarrow> 'r list \<Rightarrow> 'a \<Rightarrow> 'a option" where
  "explain spec [] [] a = Some a"
| "explain spec (x # xs) (r # rs) a = do { a \<leftarrow> spec x r a; explain spec xs rs a }"
| "explain spec _ _ _ = None"

fun allowed :: "('op \<Rightarrow> 'r \<Rightarrow> 'a \<Rightarrow> 'a option) \<Rightarrow> ('op \<Rightarrow> 'a \<Rightarrow> bool) \<Rightarrow> 'op list \<Rightarrow> 'a \<Rightarrow> bool" where
  "allowed spec pre [] a \<longleftrightarrow> True"
| "allowed spec pre (x # xs) a \<longleftrightarrow> pre x a \<and> (\<forall>r b. spec x r a = Some b \<longrightarrow> allowed spec pre xs b)"

locale outcomes =
  fixes impl :: "'op \<Rightarrow> 's \<Rightarrow> ('r \<times> 's) option" and spec :: "'op \<Rightarrow> 'r \<Rightarrow> 'a \<Rightarrow> 'a option" and pre :: "'op \<Rightarrow> 'a \<Rightarrow> bool" and rel :: "'s \<Rightarrow> 'a \<Rightarrow> bool"
  assumes sim: "rel s a \<Longrightarrow> pre x a \<Longrightarrow> \<exists>r s' a'. impl x s = Some (r, s') \<and> spec x r a = Some a' \<and> rel s' a'"
begin

lemma run_explained:
  "rel s a \<Longrightarrow> allowed spec pre xs a \<Longrightarrow> \<exists>rs s' a'. run_ops impl xs s = Some (rs, s') \<and> explain spec xs rs a = Some a' \<and> rel s' a'"
proof (induction xs arbitrary: s a)
  case Nil
  then show ?case using explain.simps(1) [of spec a] by fastforce
next
  case (Cons x xs)
  from sim [OF Cons.prems(1), of x] Cons.prems(2) obtain r s1 a1 where 1: "impl x s = Some (r, s1)" "spec x r a = Some a1" "rel s1 a1" by auto
  with Cons.prems(2) Cons.IH [OF 1(3)] obtain rs s2 a2 where "run_ops impl xs s1 = Some (rs, s2)" "explain spec xs rs a1 = Some a2" "rel s2 a2" by auto
  then show ?case using 1 explain.simps(2) [of spec x xs r rs a] by fastforce
qed

end

text \<open>A determined result is the only one that is allowed.\<close>

sublocale simulation \<subseteq> determined: outcomes impl "\<lambda>x r a. if r = fst (spec x a) then Some (snd (spec x a)) else None" pre rel
  by unfold_locales (use sim in auto)

end
