(* ===== verification/Skbuff_Laws.thy ===== *)
theory Skbuff_Laws
  imports Skbuff Simulations
begin

text \<open>
  The queues of socket buffers as sequences.  \<^verbatim>\<open>skb_rel fr s (qs, F)\<close> says that in the state \<^verbatim>\<open>s\<close> each list \<^verbatim>\<open>l\<close> is the ring \<^verbatim>\<open>qs l\<close>, that the
  buffers of \<^verbatim>\<open>F\<close> are sound and on no list, and that everything but the links is \<^verbatim>\<open>fr\<close>.  Each operation returns and does on \<^verbatim>\<open>qs\<close> what
  \<^verbatim>\<open>skb_spec\<close> says, so that the interface \<^verbatim>\<open>simulation\<close> applies to any sequence of them.
\<close>

section \<open>The relation\<close>

definition good_skb :: "net_state \<Rightarrow> nat \<Rightarrow> bool" where
  "good_skb s a \<longleftrightarrow> skb_cookie (skbs s a) = SK_GOOD_SKB \<and> skb_mem_len (skbs s a) = skb_truesize (skbs s a)"

abbreviation nx :: "net_state \<Rightarrow> nat \<Rightarrow> nat option" where "nx s \<equiv> (\<lambda>a. skb_next (skbs s a))"
abbreviation pv :: "net_state \<Rightarrow> nat \<Rightarrow> nat option" where "pv s \<equiv> (\<lambda>a. skb_prev (skbs s a))"

definition first :: "'a list \<Rightarrow> 'a option" where
  "first xs = (case xs of [] \<Rightarrow> None | x # _ \<Rightarrow> Some x)"

lemma first_simps [simp]: "first [] = None" "first (x # xs) = Some x" "first (x # xs @ ys) = Some x"
  by (simp_all add: first_def)

definition queue_ok :: "net_state \<Rightarrow> nat \<Rightarrow> nat list \<Rightarrow> bool" where
  "queue_ok s l xs \<longleftrightarrow> qheads s l = first xs \<and> ring (nx s) (pv s) xs \<and> (\<forall>a. skb_list (skbs s a) = Some l \<longleftrightarrow> a \<in> set xs)
     \<and> (\<forall>a\<in>set xs. good_skb s a)"

type_synonym skb_frame = "(nat \<Rightarrow> sock) \<times> u32 \<times> u32 \<times> (nat \<Rightarrow> bool) \<times> net_note list"

definition skb_frame_of :: "net_state \<Rightarrow> skb_frame" where
  "skb_frame_of s = (socks s, net_memory s, net_skbcount s, live s, net_log s)"

definition skb_rel :: "skb_frame \<Rightarrow> net_state \<Rightarrow> (nat \<Rightarrow> nat list) \<times> nat set \<Rightarrow> bool" where
  "skb_rel fr s = (\<lambda>(qs, F). (\<forall>l. queue_ok s l (qs l)) \<and> (\<forall>a\<in>F. good_skb s a \<and> skb_list (skbs s a) = None) \<and> skb_frame_of s = fr)"

section \<open>What the primitive updates leave alone\<close>

lemma upd_skb_simps [simp]:
  "skbs (upd_skb a f s) = (skbs s)(a := f (skbs s a))" "qheads (upd_skb a f s) = qheads s" "skb_frame_of (upd_skb a f s) = skb_frame_of s"
  "skbs (set_head l h s) = skbs s" "qheads (set_head l h s) = (qheads s)(l := h)" "skb_frame_of (set_head l h s) = skb_frame_of s"
  "note_if False n s = s"
  by (simp_all add: upd_skb_def set_head_def note_if_def skb_frame_of_def)

lemma good_upd_skb [simp]:
  "skb_cookie (f (skbs s a)) = skb_cookie (skbs s a) \<Longrightarrow> skb_mem_len (f (skbs s a)) = skb_mem_len (skbs s a)
    \<Longrightarrow> skb_truesize (f (skbs s a)) = skb_truesize (skbs s a) \<Longrightarrow> good_skb (upd_skb a f s) = good_skb s"
  "good_skb (set_head l h s) = good_skb s"
  by (auto simp: good_skb_def fun_eq_iff)

lemma skb_check_good [simp]: "good_skb s a \<Longrightarrow> skb_check a s = s"
  by (simp add: good_skb_def skb_check_def note_if_def)

lemma skb_check_skbs [simp]: "skbs (skb_check a s) = skbs s" "qheads (skb_check a s) = qheads s" "live (skb_check a s) = live s"
  "net_memory (skb_check a s) = net_memory s" "net_skbcount (skb_check a s) = net_skbcount s" "socks (skb_check a s) = socks s"
  by (simp_all add: skb_check_def note_if_def Let_def)

section \<open>One queue changes\<close>

text \<open>The other queues stay when only buffers of one queue, or loose ones, are touched.\<close>

lemma skb_rel_change:
  assumes "skb_rel fr s (qs, F)"
    and touched: "\<And>a. a \<notin> set (qs l) \<Longrightarrow> a \<notin> F \<Longrightarrow> skbs s' a = skbs s a"
    and lists: "\<And>a. a \<in> set (qs l) \<or> a \<in> F \<Longrightarrow> skb_list (skbs s' a) = (if a \<in> set xs then Some l else None)"
    and heads: "qheads s' = (qheads s)(l := first xs)"
    and ring: "ring (nx s') (pv s') xs" and sub: "set xs \<subseteq> set (qs l) \<union> F"
    and good: "good_skb s' = good_skb s" and fr: "skb_frame_of s' = skb_frame_of s"
    and loose: "F' \<subseteq> (set (qs l) \<union> F) - set xs"
  shows "skb_rel fr s' (qs(l := xs), F')"
proof -
  have ok: "queue_ok s k (qs k)" for k using assms(1) by (simp add: skb_rel_def)
  have free: "a \<in> F \<Longrightarrow> good_skb s a \<and> skb_list (skbs s a) = None" for a using assms(1) by (auto simp: skb_rel_def)
  have lst: "a \<in> set (qs k) \<longleftrightarrow> skb_list (skbs s a) = Some k" for a k using ok [of k] by (simp add: queue_ok_def)
  have gd: "a \<in> set (qs l) \<union> F \<Longrightarrow> good_skb s' a" for a using ok [of l] free by (auto simp: good queue_ok_def)
  have "queue_ok s' k ((qs(l := xs)) k)" for k
  proof (cases "k = l")
    case True
    have "skb_list (skbs s' a) = Some l \<longleftrightarrow> a \<in> set xs" for a
      using lists [of a] touched [of a] sub ok [of l] by (cases "a \<in> set (qs l) \<union> F") (auto simp: queue_ok_def)
    then show ?thesis using True heads ring sub gd by (auto simp: queue_ok_def)
  next
    case False
    have other: "skbs s' a = skbs s a" "a \<notin> set (qs l) \<union> F" if "a \<in> set (qs k)" for a
      using that touched [of a] free [of a] False by (auto simp: lst)
    have "skb_list (skbs s' a) = Some k \<longleftrightarrow> a \<in> set (qs k)" for a
      using other [of a] touched [of a] lists [of a] ok [of k] False by (cases "a \<in> set (qs l) \<union> F") (auto simp: queue_ok_def)
    moreover have "ring (nx s') (pv s') (qs k)"
      by (rule ring_cong [THEN iffD2]) (use other ok [of k] in \<open>auto simp: queue_ok_def\<close>)
    ultimately show ?thesis using False heads ok [of k] good by (auto simp: queue_ok_def)
  qed
  moreover have "good_skb s' a \<and> skb_list (skbs s' a) = None" if "a \<in> F'" for a
    using loose that gd [of a] lists [of a] by auto
  ultimately show ?thesis using assms(1) fr by (auto simp: skb_rel_def)
qed

lemma skb_relD:
  assumes "skb_rel fr s (qs, F)"
  shows "qheads s l = first (qs l)" "ring (nx s) (pv s) (qs l)" "a \<in> set (qs l) \<Longrightarrow> good_skb s a" "a \<in> F \<Longrightarrow> good_skb s a"
    "a \<in> F \<Longrightarrow> skb_list (skbs s a) = None" "a \<in> set (qs l) \<Longrightarrow> skb_list (skbs s a) = Some l" "a \<in> F \<Longrightarrow> a \<notin> set (qs l)"
  using assms by (simp_all add: skb_rel_def queue_ok_def) (metis option.distinct(1))

lemma ring_to: "ring n p xs \<Longrightarrow> (\<And>a. n' a = n a) \<Longrightarrow> (\<And>a. p' a = p a) \<Longrightarrow> ring n' p' xs"
  using ring_cong [of xs n' n p' p] by simp


section \<open>The operations\<close>

text \<open>A loose buffer \<^verbatim>\<open>n\<close> linked in before the first and behind the last buffer of the ring \<^verbatim>\<open>h # xs\<close>.\<close>

definition link_in :: "nat \<Rightarrow> nat \<Rightarrow> nat \<Rightarrow> nat \<Rightarrow> net_state \<Rightarrow> net_state" where
  "link_in l n h p s = s\<lparr>skbs := \<lambda>a. (skbs s a)\<lparr>skb_next := (if a = p then Some n else if a = n then Some h else skb_next (skbs s a)),
     skb_prev := (if a = h then Some n else if a = n then Some p else skb_prev (skbs s a)),
     skb_list := (if a = n then Some l else skb_list (skbs s a))\<rparr>\<rparr>"

lemma good_link_in [simp]: "good_skb (link_in l n h p s) = good_skb s"
  by (simp add: link_in_def good_skb_def fun_eq_iff)

lemma link_in_simps [simp]: "qheads (link_in l n h p s) = qheads s" "skb_frame_of (link_in l n h p s) = skb_frame_of s"
  by (simp_all add: link_in_def skb_frame_of_def)

lemma link_in_rel:
  assumes "skb_rel fr s (qs, F)" "n \<in> F" "set (qs l) = set (h # xs)" "ring (nx s) (pv s) (h # xs)" "p = last (h # xs)"
    and "\<And>nx pv. ring nx pv (h # xs @ [n]) = ring nx pv ys" "set ys = insert n (set (qs l))"
    and "s' = set_head l (first ys) (link_in l n h p s)"
  shows "skb_rel fr s' (qs(l := ys), F - {n})"
proof (rule skb_rel_change [OF assms(1)])
  note r = skb_relD [OF assms(1)]
  note st = assms(3)
  have n: "n \<notin> set (h # xs)" using r(7) [OF assms(2), of l] st by simp
  have in_q: "h \<in> set (qs l)" "p \<in> set (qs l)" using st assms(5) last_in_set [of "h # xs"] by auto
  have "ring ((nx s)(n := Some h, p := Some n)) ((pv s)(n := Some p, h := Some n)) (h # xs @ [n])"
    by (rule ring_insert [OF assms(4) n assms(5)])
  then have "ring (nx s') (pv s') (h # xs @ [n])"
    by (rule ring_to) (use n in_q assms(2) in \<open>auto simp: assms(8) link_in_def\<close>)
  then show "ring (nx s') (pv s') ys" using assms(6) by simp
  show "skbs s' a = skbs s a" if "a \<notin> set (qs l)" "a \<notin> F" for a
    using that in_q assms(2) by (auto simp: assms(8) link_in_def)
  show "skb_list (skbs s' a) = (if a \<in> set ys then Some l else None)" if "a \<in> set (qs l) \<or> a \<in> F" for a
    using that r(5,6,7) assms(7) by (auto simp: assms(8) link_in_def)
qed (use assms(2,7,8) in \<open>auto simp: skb_relD(7) [OF assms(1)]\<close>)


lemma net_eqI:
  fixes s t :: net_state
  assumes "\<And>a. skbs s a = skbs t a" "qheads s = qheads t" "skb_frame_of s = skb_frame_of t" "net_intr_count s = net_intr_count t"
  shows "s = t"
  using assms by (intro net_state.equality) (auto simp: skb_frame_of_def fun_eq_iff)

lemma intr_count_simps [simp]: "net_intr_count (upd_skb a f s) = net_intr_count s" "net_intr_count (set_head l h s) = net_intr_count s"
  "net_intr_count (link_in l n h' p s) = net_intr_count s"
  by (simp_all add: upd_skb_def set_head_def link_in_def)

lemma skbs_link_in [simp]: "skbs (link_in l n h p s) a = (skbs s a)\<lparr>skb_next := (if a = p then Some n else if a = n then Some h else skb_next (skbs s a)),
     skb_prev := (if a = h then Some n else if a = n then Some p else skb_prev (skbs s a)),
     skb_list := (if a = n then Some l else skb_list (skbs s a))\<rparr>"
  by (simp add: link_in_def)

lemma link_alone_rel:
  assumes "skb_rel fr s (qs, F)" "n \<in> F" "qs l = []"
  shows "skb_rel fr (set_head l (Some n) (link_in l n n n s)) (qs(l := [n]), F - {n})"
  by (rule skb_rel_change [OF assms(1)]) (use assms skb_relD(5) [OF assms(1)] in auto)

text \<open>The first and the last buffer of a queue that is not empty.\<close>

lemma queue_ends:
  assumes "skb_rel fr s (qs, F)" "n \<in> F" "set (qs l) = set (h # xs)" "ring (nx s) (pv s) (h # xs)"
  shows "pv s h = Some (last (h # xs))" "nx s (last (h # xs)) = Some h" "n \<noteq> h" "n \<noteq> last (h # xs)"
    "good_skb s h" "good_skb s (last (h # xs))" "good_skb s n" "skb_list (skbs s n) = None"
    "skb_list (skbs s h) = Some l" "skb_list (skbs s (last (h # xs))) = Some l"
proof -
  note r = skb_relD [OF assms(1)]
  have p: "last (h # xs) \<in> set (qs l)" "h \<in> set (qs l)" using last_in_set [of "h # xs"] assms(3) by auto
  show "good_skb s h" "good_skb s (last (h # xs))" using p r(3) by auto
  show "skb_list (skbs s h) = Some l" "skb_list (skbs s (last (h # xs))) = Some l" using p r(6) by auto
  show "n \<noteq> h" "n \<noteq> last (h # xs)" using r(7) [OF assms(2)] p by auto
  show "good_skb s n" "skb_list (skbs s n) = None" using r(4,5) [OF assms(2)] by auto
  show "pv s h = Some (last (h # xs))" by (rule ring_ends(2) [OF assms(4)])
  show "nx s (last (h # xs)) = Some h"
    using assms(4) by (cases xs rule: rev_cases) (auto simp: seg_append)
qed

text \<open>The runs of the operations that link a buffer in between \<^verbatim>\<open>p\<close> and \<^verbatim>\<open>h\<close>, which may be the same.\<close>

lemma skb_queue_tail_runs:
  assumes "qheads s l = Some h" "pv s h = Some p" "n \<noteq> h" "n \<noteq> p" "good_skb s h" "good_skb s p" "good_skb s n" "skb_list (skbs s n) = None"
  shows "skb_queue_tail l n s = Some (link_in l n h p s)"
  using assms by (cases "h = p") (auto simp: skb_queue_tail_def Let_def intro!: net_eqI)

lemma skb_queue_head_runs:
  assumes "qheads s l = Some h" "pv s h = Some p" "n \<noteq> h" "n \<noteq> p" "good_skb s h" "good_skb s p" "good_skb s n" "skb_list (skbs s n) = None"
  shows "skb_queue_head l n s = Some (set_head l (Some n) (link_in l n h p s))"
  using assms by (cases "h = p") (auto simp: skb_queue_head_def Let_def intro!: net_eqI)

lemma skb_insert_runs:
  assumes "pv s h = Some p" "n \<noteq> h" "n \<noteq> p" "good_skb s h" "good_skb s n" "skb_list (skbs s n) = None" "skb_list (skbs s h) = Some l"
  shows "skb_insert h n s = Some (link_in l n h p s)"
  using assms by (cases "h = p") (auto simp: skb_insert_def Let_def intro!: net_eqI)

lemma skb_append_runs:
  assumes "nx s p = Some h" "n \<noteq> h" "n \<noteq> p" "good_skb s p" "good_skb s n" "skb_list (skbs s n) = None" "skb_list (skbs s p) = Some l"
  shows "skb_append p n s = Some (link_in l n h p s)"
  using assms by (cases "h = p") (auto simp: skb_append_def Let_def intro!: net_eqI)

lemma skb_queue_tail_rel:
  assumes "skb_rel fr s (qs, F)" "n \<in> F"
  shows "\<exists>s'. skb_queue_tail l n s = Some s' \<and> skb_rel fr s' (qs(l := qs l @ [n]), F - {n})"
proof (cases "qs l")
  case Nil
  note r = skb_relD [OF assms(1)]
  have "skb_queue_tail l n s = Some (set_head l (Some n) (link_in l n n n s))"
    using r(1) [of l] r(4,5) [OF assms(2)] Nil by (auto simp: skb_queue_tail_def Let_def intro!: net_eqI)
  then show ?thesis using link_alone_rel [OF assms Nil] Nil by simp
next
  case (Cons h xs)
  note r = skb_relD [OF assms(1)]
  have ring: "ring (nx s) (pv s) (h # xs)" using r(2) [of l] Cons by simp
  note e = queue_ends [OF assms, of l h xs, unfolded Cons, OF refl ring]
  have "skb_queue_tail l n s = Some (link_in l n h (last (h # xs)) s)"
    by (rule skb_queue_tail_runs) (use r(1) [of l] e Cons in auto)
  then have "skb_queue_tail l n s = Some (set_head l (first (h # xs @ [n])) (link_in l n h (last (h # xs)) s))"
    using r(1) [of l] Cons by (auto intro!: net_eqI)
  moreover have "skb_rel fr (set_head l (first (h # xs @ [n])) (link_in l n h (last (h # xs)) s)) (qs(l := h # xs @ [n]), F - {n})"
    by (rule link_in_rel [OF assms, of l h xs "last (h # xs)" "h # xs @ [n]"]) (use ring Cons in auto)
  ultimately show ?thesis using Cons by simp
qed

lemma skb_queue_head_rel:
  assumes "skb_rel fr s (qs, F)" "n \<in> F"
  shows "\<exists>s'. skb_queue_head l n s = Some s' \<and> skb_rel fr s' (qs(l := n # qs l), F - {n})"
proof (cases "qs l")
  case Nil
  note r = skb_relD [OF assms(1)]
  have "skb_queue_head l n s = Some (set_head l (Some n) (link_in l n n n s))"
    using r(1) [of l] r(4,5) [OF assms(2)] Nil by (auto simp: skb_queue_head_def Let_def intro!: net_eqI)
  then show ?thesis using link_alone_rel [OF assms Nil] Nil by simp
next
  case (Cons h xs)
  note r = skb_relD [OF assms(1)]
  have ring: "ring (nx s) (pv s) (h # xs)" using r(2) [of l] Cons by simp
  note e = queue_ends [OF assms, of l h xs, unfolded Cons, OF refl ring]
  have "skb_queue_head l n s = Some (set_head l (first (n # h # xs)) (link_in l n h (last (h # xs)) s))"
    unfolding first_simps by (rule skb_queue_head_runs) (use r(1) [of l] e Cons in auto)
  moreover have "skb_rel fr (set_head l (first (n # h # xs)) (link_in l n h (last (h # xs)) s)) (qs(l := n # h # xs), F - {n})"
    by (rule link_in_rel [OF assms, of l h xs "last (h # xs)" "n # h # xs"])
      (use ring Cons in \<open>auto simp del: ring.simps simp: ring_rotate1 [of _ _ n "h # xs"]\<close>)
  ultimately show ?thesis using Cons by simp
qed


lemma first_append: "us \<noteq> [] \<Longrightarrow> first (us @ vs) = first us"
  by (cases us) auto

lemma skb_insert_rel:
  assumes "skb_rel fr s (qs, F)" "n \<in> F" "qs l = us @ old # vs" "us \<noteq> []"
  shows "\<exists>s'. skb_insert old n s = Some s' \<and> skb_rel fr s' (qs(l := us @ n # old # vs), F - {n})"
proof -
  note r = skb_relD [OF assms(1)]
  have ring: "ring (nx s) (pv s) (old # vs @ us)" using r(2) [of l] ring_rotate [of _ _ us "old # vs"] assms(3) by simp
  have st: "set (qs l) = set (old # vs @ us)" using assms(3) by auto
  note e = queue_ends [OF assms(1,2) st ring]
  let ?t = "link_in l n old (last (old # vs @ us)) s"
  have "skb_insert old n s = Some ?t" by (rule skb_insert_runs) (use e in auto)
  moreover have "?t = set_head l (first (us @ n # old # vs)) ?t" by (rule net_eqI) (use r(1) [of l] assms(3,4) in \<open>auto simp: first_append\<close>)
  moreover have "skb_rel fr (set_head l (first (us @ n # old # vs)) ?t) (qs(l := us @ n # old # vs), F - {n})"
    by (rule link_in_rel [OF assms(1,2), of l old "vs @ us" "last (old # vs @ us)" "us @ n # old # vs"])
      (use ring assms(3) ring_rotate [of _ _ "us @ [n]" "old # vs"] ring_rotate [of _ _ "old # vs @ us" "[n]"] in \<open>auto simp del: ring.simps simp: ring_rotate [of _ _ us "n # old # vs"]\<close>)
  ultimately show ?thesis by metis
qed

text \<open>Before the first buffer the new one ends up as the last of the queue.\<close>

lemma skb_insert_first_rel:
  assumes "skb_rel fr s (qs, F)" "n \<in> F" "qs l = old # vs"
  shows "\<exists>s'. skb_insert old n s = Some s' \<and> skb_rel fr s' (qs(l := old # vs @ [n]), F - {n})"
proof -
  note r = skb_relD [OF assms(1)]
  have ring: "ring (nx s) (pv s) (old # vs)" using r(2) [of l] assms(3) by simp
  have st: "set (qs l) = set (old # vs)" using assms(3) by auto
  note e = queue_ends [OF assms(1,2) st ring]
  let ?t = "link_in l n old (last (old # vs)) s"
  have "skb_insert old n s = Some ?t" by (rule skb_insert_runs) (use e in auto)
  moreover have "?t = set_head l (first (old # vs @ [n])) ?t" by (rule net_eqI) (use r(1) [of l] assms(3) in auto)
  moreover have "skb_rel fr (set_head l (first (old # vs @ [n])) ?t) (qs(l := old # vs @ [n]), F - {n})"
    by (rule link_in_rel [OF assms(1,2), of l old vs "last (old # vs)"]) (use ring assms(3) in auto)
  ultimately show ?thesis by metis
qed

lemma skb_append_rel:
  assumes "skb_rel fr s (qs, F)" "n \<in> F" "qs l = us @ old # vs"
  shows "\<exists>s'. skb_append old n s = Some s' \<and> skb_rel fr s' (qs(l := us @ old # n # vs), F - {n})"
proof -
  note r = skb_relD [OF assms(1)]
  obtain h xs where h: "vs @ us @ [old] = h # xs" by (cases "vs @ us @ [old]") auto
  have ring: "ring (nx s) (pv s) (h # xs)" using r(2) [of l] ring_rotate [of _ _ vs "us @ [old]"] assms(3) h by simp
  have lst: "last (h # xs) = old" using h by (metis append.assoc last_snoc)
  have st: "set (qs l) = set (h # xs)" using assms(3) arg_cong [OF h, of set] by auto
  note e = queue_ends [OF assms(1,2) st ring, unfolded lst]
  let ?t = "link_in l n h old s"
  have "skb_append old n s = Some ?t" by (rule skb_append_runs) (use e in auto)
  moreover have "?t = set_head l (first (us @ old # n # vs)) ?t"
    by (cases us; rule net_eqI) (use r(1) [of l] assms(3) in auto)
  moreover have eq: "h # xs @ [n] = vs @ us @ [old, n]" using arg_cong [OF h, of "\<lambda>ys. ys @ [n]"] by simp
  have rot: "ring nx pv (h # xs @ [n]) = ring nx pv (us @ old # n # vs)" for nx pv
    unfolding eq using ring_rotate [of nx pv vs "us @ [old, n]"] by simp
  have "skb_rel fr (set_head l (first (us @ old # n # vs)) ?t) (qs(l := us @ old # n # vs), F - {n})"
    by (rule link_in_rel [OF assms(1,2) st ring lst [symmetric] rot]) (use assms(3) in auto)
  ultimately show ?thesis by metis
qed

text \<open>Taking a buffer out.\<close>

definition link_out :: "nat \<Rightarrow> nat \<Rightarrow> nat \<Rightarrow> net_state \<Rightarrow> net_state" where
  "link_out x n p s = s\<lparr>skbs := \<lambda>a. (skbs s a)\<lparr>skb_next := (if a = x then None else if a = p then Some n else skb_next (skbs s a)),
     skb_prev := (if a = x then None else if a = n then Some p else skb_prev (skbs s a)),
     skb_list := (if a = x then None else skb_list (skbs s a))\<rparr>\<rparr>"

lemma link_out_simps [simp]: "qheads (link_out x n p s) = qheads s" "skb_frame_of (link_out x n p s) = skb_frame_of s"
  "net_intr_count (link_out x n p s) = net_intr_count s" "good_skb (link_out x n p s) = good_skb s"
  "skbs (link_out x n p s) a = (skbs s a)\<lparr>skb_next := (if a = x then None else if a = p then Some n else skb_next (skbs s a)),
     skb_prev := (if a = x then None else if a = n then Some p else skb_prev (skbs s a)),
     skb_list := (if a = x then None else skb_list (skbs s a))\<rparr>"
  by (simp_all add: link_out_def skb_frame_of_def good_skb_def fun_eq_iff)

lemma skb_unlink_runs:
  assumes "nx s x = Some n" "pv s x = Some p" "n = x \<longleftrightarrow> p = x" "good_skb s x" "skb_list (skbs s x) = Some l"
  shows "skb_unlink x s = Some (if qheads s l = Some x then set_head l (if n = x then None else Some n) (link_out x n p s) else link_out x n p s)"
  using assms by (cases "n = x"; cases "n = p") (auto simp: skb_unlink_def Let_def intro!: net_eqI)

lemma skb_dequeue_runs:
  assumes "nx s x = Some n" "pv s x = Some p" "n = x \<longleftrightarrow> p = x" "good_skb s x" "skb_list (skbs s x) = Some l" "qheads s l = Some x"
  shows "skb_dequeue l s = Some (Some x, set_head l (if n = x then None else Some n) (link_out x n p s))"
  using assms by (cases "n = x"; cases "n = p") (auto simp: skb_dequeue_def Let_def intro!: net_eqI)


lemma link_out_rel:
  assumes "skb_rel fr s (qs, F)" "qs l = us @ x # vs" "hd (vs @ us @ [x]) = n" "last (x # vs @ us) = p"
    and "s' = set_head l (first (us @ vs)) (link_out x n p s)"
  shows "skb_rel fr s' (qs(l := us @ vs), insert x F)"
proof (rule skb_rel_change [OF assms(1)])
  note r = skb_relD [OF assms(1)]
  have ring: "ring (nx s) (pv s) (x # vs @ us)" using r(2) [of l] ring_rotate [of _ _ us "x # vs"] assms(2) by simp
  have d: "distinct (us @ x # vs)" using ring_distinct [OF r(2) [of l]] assms(2) by simp
  have in_q: "n \<in> set (qs l)" "p \<in> set (qs l)"
    using assms(2-4) hd_in_set [of "vs @ us @ [x]"] last_in_set [of "x # vs @ us"] by auto
  show "ring (nx s') (pv s') (us @ vs)"
  proof (cases "vs @ us")
    case (Cons y ys)
    have np: "n = y" "p = last (y # ys)" using Cons assms(3,4) by (metis append.assoc append_Cons list.sel(1), metis last_ConsR list.distinct(1))
    have "ring ((nx s)(p := Some n)) ((pv s)(n := Some p)) (y # ys)" by (rule ring_remove [OF ring [unfolded Cons] np])
    moreover have "x \<notin> set (y # ys)" using d unfolding Cons [symmetric] by auto
    then have "ring (nx s') (pv s') (y # ys) = ring ((nx s)(p := Some n)) ((pv s)(n := Some p)) (y # ys)"
      by (intro ring_cong) (auto simp: assms(5))
    ultimately show ?thesis unfolding Cons [symmetric] using ring_rotate by blast
  qed simp
  show "skbs s' a = skbs s a" if "a \<notin> set (qs l)" "a \<notin> F" for a
    using that in_q assms(2) by (auto simp: assms(5))
  show "skb_list (skbs s' a) = (if a \<in> set (us @ vs) then Some l else None)" if "a \<in> set (qs l) \<or> a \<in> F" for a
    using that d r(5,6,7) assms(2) by (auto simp: assms(5))
  show "insert x F \<subseteq> set (qs l) \<union> F - set (us @ vs)" using d r(7) [where l = l] assms(2) by auto
qed (use assms(2,5) in auto)

lemma queue_neighbours:
  assumes "skb_rel fr s (qs, F)" "qs l = us @ x # vs"
  shows "nx s x = Some (hd (vs @ us @ [x]))" "pv s x = Some (last (x # vs @ us))" "good_skb s x" "skb_list (skbs s x) = Some l"
    "hd (vs @ us @ [x]) = x \<longleftrightarrow> vs @ us = []" "last (x # vs @ us) = x \<longleftrightarrow> vs @ us = []" "qheads s l = Some x \<longleftrightarrow> us = []"
    "us = [] \<Longrightarrow> first (us @ vs) = (if hd (vs @ us @ [x]) = x then None else Some (hd (vs @ us @ [x])))"
proof -
  note r = skb_relD [OF assms(1)]
  have ring: "ring (nx s) (pv s) (x # vs @ us)" using r(2) [of l] ring_rotate [of _ _ us "x # vs"] assms(2) by simp
  show "nx s x = Some (hd (vs @ us @ [x]))" "pv s x = Some (last (x # vs @ us))" using ring_ends [OF ring] by simp_all
  show "good_skb s x" "skb_list (skbs s x) = Some l" using r(3,6) [of x l] assms(2) by auto
  have d: "distinct (x # vs @ us)" by (rule ring_distinct [OF ring])
  show *: "hd (vs @ us @ [x]) = x \<longleftrightarrow> vs @ us = []" using d by (cases vs; cases us) auto
  show "last (x # vs @ us) = x \<longleftrightarrow> vs @ us = []" using d last_in_set [of "vs @ us"] by auto
  show "qheads s l = Some x \<longleftrightarrow> us = []" using r(1) [of l] assms(2) d by (cases us) auto
  show "us = [] \<Longrightarrow> first (us @ vs) = (if hd (vs @ us @ [x]) = x then None else Some (hd (vs @ us @ [x])))"
    using d by (cases vs) auto
qed

lemma skb_unlink_rel:
  assumes "skb_rel fr s (qs, F)" "qs l = us @ x # vs"
  shows "\<exists>s'. skb_unlink x s = Some s' \<and> skb_rel fr s' (qs(l := us @ vs), insert x F)"
proof -
  note r = skb_relD [OF assms(1)] and q = queue_neighbours [OF assms]
  let ?n = "hd (vs @ us @ [x])" and ?p = "last (x # vs @ us)"
  have run: "skb_unlink x s = Some (if qheads s l = Some x then set_head l (if ?n = x then None else Some ?n) (link_out x ?n ?p s) else link_out x ?n ?p s)"
    by (rule skb_unlink_runs) (use q in auto)
  have "link_out x ?n ?p s = set_head l (first (us @ vs)) (link_out x ?n ?p s)" if "us \<noteq> []"
    by (rule net_eqI) (use that r(1) [of l] assms(2) in \<open>auto simp: first_append\<close>)
  then have "skb_unlink x s = Some (set_head l (first (us @ vs)) (link_out x ?n ?p s))"
    unfolding run using q(7,8) by (cases "us = []") (simp_all del: last.simps)
  then show ?thesis using link_out_rel [OF assms refl refl refl] by blast
qed

lemma skb_dequeue_rel:
  assumes "skb_rel fr s (qs, F)"
  shows "\<exists>s'. skb_dequeue l s = Some (first (qs l), s') \<and> skb_rel fr s' (qs(l := tl (qs l)), set (take 1 (qs l)) \<union> F)"
proof (cases "qs l")
  case Nil
  then have "qs(l := tl (qs l)) = qs" by (simp add: fun_upd_idem)
  then show ?thesis using Nil skb_relD(1) [OF assms, of l] assms by (simp add: skb_dequeue_def)
next
  case (Cons x vs)
  then have c: "qs l = [] @ x # vs" by simp
  note q = queue_neighbours [OF assms c]
  let ?n = "hd (vs @ [x])" and ?p = "last (x # vs)"
  have "skb_dequeue l s = Some (Some x, set_head l (if ?n = x then None else Some ?n) (link_out x ?n ?p s))"
    by (rule skb_dequeue_runs) (use q in auto)
  then have "skb_dequeue l s = Some (Some x, set_head l (first vs) (link_out x ?n ?p s))" using q(8) by simp
  then show ?thesis using link_out_rel [OF assms c refl refl refl] Cons by simp
qed

section \<open>Sequences of operations\<close>

datatype skb_op = Queue_Head nat nat | Queue_Tail nat nat | Dequeue nat | Insert_Before nat nat nat | Append_After nat nat nat | Unlink nat nat

text \<open>The queue an operation is about is its first argument; the last three do not need it and find the links in the buffers.\<close>

fun skb_impl :: "skb_op \<Rightarrow> net_state \<Rightarrow> (nat option \<times> net_state) option" where
  "skb_impl (Queue_Head l n) s = map_option (Pair None) (skb_queue_head l n s)"
| "skb_impl (Queue_Tail l n) s = map_option (Pair None) (skb_queue_tail l n s)"
| "skb_impl (Dequeue l) s = skb_dequeue l s"
| "skb_impl (Insert_Before l old n) s = map_option (Pair None) (skb_insert old n s)"
| "skb_impl (Append_After l old n) s = map_option (Pair None) (skb_append old n s)"
| "skb_impl (Unlink l n) s = map_option (Pair None) (skb_unlink n s)"

fun insert_before :: "'a \<Rightarrow> 'a \<Rightarrow> 'a list \<Rightarrow> 'a list" where
  "insert_before old n [] = []"
| "insert_before old n (x # xs) = (if x = old then n # x # xs else x # insert_before old n xs)"

fun insert_after :: "'a \<Rightarrow> 'a \<Rightarrow> 'a list \<Rightarrow> 'a list" where
  "insert_after old n [] = []"
| "insert_after old n (x # xs) = (if x = old then x # n # xs else x # insert_after old n xs)"

fun skb_spec :: "skb_op \<Rightarrow> (nat \<Rightarrow> nat list) \<times> nat set \<Rightarrow> nat option \<times> (nat \<Rightarrow> nat list) \<times> nat set" where
  "skb_spec (Queue_Head l n) (qs, F) = (None, qs(l := n # qs l), F - {n})"
| "skb_spec (Queue_Tail l n) (qs, F) = (None, qs(l := qs l @ [n]), F - {n})"
| "skb_spec (Dequeue l) (qs, F) = (first (qs l), qs(l := tl (qs l)), set (take 1 (qs l)) \<union> F)"
| "skb_spec (Insert_Before l old n) (qs, F) = (None, qs(l := insert_before old n (qs l)), F - {n})"
| "skb_spec (Append_After l old n) (qs, F) = (None, qs(l := insert_after old n (qs l)), F - {n})"
| "skb_spec (Unlink l n) (qs, F) = (None, qs(l := remove1 n (qs l)), insert n F)"

fun skb_pre :: "skb_op \<Rightarrow> (nat \<Rightarrow> nat list) \<times> nat set \<Rightarrow> bool" where
  "skb_pre (Queue_Head l n) (qs, F) \<longleftrightarrow> n \<in> F"
| "skb_pre (Queue_Tail l n) (qs, F) \<longleftrightarrow> n \<in> F"
| "skb_pre (Dequeue l) (qs, F) \<longleftrightarrow> True"
| "skb_pre (Insert_Before l old n) (qs, F) \<longleftrightarrow> n \<in> F \<and> old \<in> set (tl (qs l))"
| "skb_pre (Append_After l old n) (qs, F) \<longleftrightarrow> n \<in> F \<and> old \<in> set (qs l)"
| "skb_pre (Unlink l n) (qs, F) \<longleftrightarrow> n \<in> set (qs l)"

lemma insert_before_split: "x \<notin> set us \<Longrightarrow> insert_before x n (us @ x # vs) = us @ n # x # vs"
  by (induction us) auto

lemma insert_after_split: "x \<notin> set us \<Longrightarrow> insert_after x n (us @ x # vs) = us @ x # n # vs"
  by (induction us) auto

lemma skb_sim:
  assumes "skb_rel fr s a" "skb_pre x a"
  shows "\<exists>s'. skb_impl x s = Some (fst (skb_spec x a), s') \<and> skb_rel fr s' (snd (skb_spec x a))"
proof -
  obtain qs F where a: "a = (qs, F)" by (cases a)
  have rel: "skb_rel fr s (qs, F)" using assms(1) a by simp
  have d: "distinct (qs l)" for l using skb_relD(2) [OF rel] by (rule ring_distinct)
  show ?thesis
  proof (cases x)
    case (Insert_Before l old n)
    then have "old \<in> set (tl (qs l))" using assms(2) a by simp
    from split_list [OF this] obtain us vs where t: "tl (qs l) = us @ old # vs" by blast
    then have q: "qs l = (hd (qs l) # us) @ old # vs" by (cases "qs l") auto
    have "old \<notin> set (hd (qs l) # us)" using d [of l] q by (metis distinct_append disjoint_iff list.set_intros(1))
    then have "insert_before old n (qs l) = (hd (qs l) # us) @ n # old # vs" using q by (metis insert_before_split)
    then show ?thesis using skb_insert_rel [OF rel _ q, of n] Insert_Before assms(2) a by force
  next
    case (Append_After l old n)
    then have "old \<in> set (qs l)" using assms(2) a by simp
    from split_list_first [OF this] obtain us vs where q: "qs l = us @ old # vs" "old \<notin> set us" by blast
    then show ?thesis using skb_append_rel [OF rel _ q(1), of n] Append_After assms(2) a by (force simp: insert_after_split)
  next
    case (Unlink l n)
    then have "n \<in> set (qs l)" using assms(2) a by simp
    from split_list_first [OF this] obtain us vs where q: "qs l = us @ n # vs" "n \<notin> set us" by blast
    then show ?thesis using skb_unlink_rel [OF rel q(1)] Unlink a by (force simp: remove1_append)
  qed (use assms(2) a skb_queue_head_rel [OF rel] skb_queue_tail_rel [OF rel] skb_dequeue_rel [OF rel] in \<open>force+\<close>)
qed

interpretation skbq: simulation skb_impl skb_spec skb_pre "skb_rel fr" for fr
  by unfold_locales (rule skb_sim)

end
