(* ===== verification/Skbuff_Memory.thy ===== *)
theory Skbuff_Memory
  imports Skbuff_Laws
begin

text \<open>
  The memory of socket buffers.  \<^verbatim>\<open>mem_rel s M\<close> says that the live buffers of \<^verbatim>\<open>s\<close> are those of the map \<^verbatim>\<open>M\<close>, that each is charged to the socket \<^verbatim>\<open>M\<close>
  names, and that all counters are the sums over \<^verbatim>\<open>M\<close>.  Allocating, freeing and lending a buffer to a device and taking it back act on
  \<^verbatim>\<open>M\<close> as \<^verbatim>\<open>mem_spec\<close> says.
\<close>

record skb_entry =
  kind :: free_rw
  owner :: nat
  esize :: u32
  elock :: u8
  pending :: bool

definition sum_over :: "(skb_entry \<Rightarrow> u32) \<Rightarrow> (nat \<rightharpoonup> skb_entry) \<Rightarrow> u32" where
  "sum_over f M = (\<Sum>a\<in>dom M. f (the (M a)))"

definition charge :: "free_rw \<Rightarrow> nat \<Rightarrow> skb_entry \<Rightarrow> u32" where
  "charge rw k e = (if kind e = rw \<and> owner e = k then esize e else 0)"

definition mem_rel :: "net_state \<Rightarrow> (nat \<rightharpoonup> skb_entry) \<Rightarrow> bool" where
  "mem_rel s M \<longleftrightarrow> finite (dom M) \<and> (\<forall>a. live s a \<longleftrightarrow> a \<in> dom M)
     \<and> (\<forall>a e. M a = Some e \<longrightarrow> good_skb s a \<and> skb_mem_addr (skbs s a) = a \<and> skb_truesize (skbs s a) = esize e \<and> skb_lock (skbs s a) = elock e
          \<and> (skb_free (skbs s a) = 1 \<longleftrightarrow> pending e) \<and> skb_sk (skbs s a) = Some (owner e))
     \<and> net_memory s = sum_over esize M \<and> net_skbcount s = sum_over (\<lambda>_. 1) M
     \<and> (\<forall>k. wmem_alloc (socks s k) = sum_over (charge FREE_WRITE k) M \<and> rmem_alloc (socks s k) = sum_over (charge FREE_READ k) M)"

section \<open>Sums over the buffers\<close>

lemma sum_over_add: "finite (dom M) \<Longrightarrow> M a = None \<Longrightarrow> sum_over f (M(a \<mapsto> e)) = sum_over f M + f e"
proof -
  assume "finite (dom M)" "M a = None"
  then have "sum_over f (M(a \<mapsto> e)) = f e + (\<Sum>b\<in>dom M. f (the ((M(a \<mapsto> e)) b)))" by (simp add: sum_over_def domIff)
  also have "(\<Sum>b\<in>dom M. f (the ((M(a \<mapsto> e)) b))) = sum_over f M"
    unfolding sum_over_def by (rule sum.cong) (use \<open>M a = None\<close> in auto)
  finally show ?thesis by (simp only: add.commute)
qed

lemma sum_over_drop: "finite (dom M) \<Longrightarrow> M a = Some e \<Longrightarrow> sum_over f (M(a := None)) = sum_over f M - f e"
  using sum_over_add [of "M(a := None)" a f e] by (simp add: fun_upd_idem)

lemma sum_over_change: "finite (dom M) \<Longrightarrow> M a = Some e \<Longrightarrow> f e' = f e \<Longrightarrow> sum_over f (M(a \<mapsto> e')) = sum_over f M"
  using sum_over_add [of "M(a := None)" a f e'] sum_over_drop [of M a e f] by simp

section \<open>Operations\<close>

text \<open>A caller that allocates a buffer for a socket stores the socket and the flag \<^verbatim>\<open>free\<close> in it, as for instance \<^verbatim>\<open>udp_send\<close> does.\<close>

datatype mem_op = Sock_Alloc free_rw nat u32 bool int bool "nat option" | Free_Skb nat free_rw | Keep nat | Device_Release nat free_rw

definition sock_alloc :: "free_rw \<Rightarrow> nat \<Rightarrow> u32 \<Rightarrow> bool \<Rightarrow> int \<Rightarrow> bool \<Rightarrow> nat option \<Rightarrow> net_state \<Rightarrow> nat option \<times> net_state" where
  "sock_alloc rw k sz force priority fr mem s =
    (let (c, s) = (if rw = FREE_READ then sock_rmalloc (Some k) sz force priority mem s else sock_wmalloc (Some k) sz force priority mem s)
     in (c, case c of None \<Rightarrow> s | Some a \<Rightarrow> upd_skb a (\<lambda>x. x\<lparr>skb_sk := Some k, skb_free := (if fr then 1 else 0)\<rparr>) s))"

fun mem_impl :: "mem_op \<Rightarrow> net_state \<Rightarrow> (nat option \<times> net_state) option" where
  "mem_impl (Sock_Alloc rw k sz force priority fr mem) s = Some (sock_alloc rw k sz force priority fr mem s)"
| "mem_impl (Free_Skb a rw) s = Some (None, kfree_skb (Some a) rw s)"
| "mem_impl (Keep a) s = Some (None, skb_kept_by_device a s)"
| "mem_impl (Device_Release a rw) s = Some (None, skb_device_release a rw s)"

text \<open>The space test of an allocation reads the counter and the limit \<^verbatim>\<open>lim k rw\<close> of the socket.\<close>

fun mem_spec :: "(nat \<Rightarrow> free_rw \<Rightarrow> u16) \<Rightarrow> mem_op \<Rightarrow> (nat \<rightharpoonup> skb_entry) \<Rightarrow> nat option \<times> (nat \<rightharpoonup> skb_entry)" where
  "mem_spec lim (Sock_Alloc rw k sz force priority fr mem) M =
    (case mem of
       Some a \<Rightarrow> if sum_over (charge rw k) M + sz < ucast (lim k rw) \<or> force
                  then (Some a, M(a \<mapsto> \<lparr>kind = rw, owner = k, esize = sz, elock = 0, pending = fr\<rparr>)) else (None, M)
     | None \<Rightarrow> (None, M))"
| "mem_spec lim (Free_Skb a rw) M =
    (None, case M a of Some e \<Rightarrow> if elock e = 0 then M(a := None) else M(a \<mapsto> e\<lparr>pending := True\<rparr>) | None \<Rightarrow> M)"
| "mem_spec lim (Keep a) M = (None, case M a of Some e \<Rightarrow> M(a \<mapsto> e\<lparr>elock := elock e + 1\<rparr>) | None \<Rightarrow> M)"
| "mem_spec lim (Device_Release a rw) M =
    (None, case M a of Some e \<Rightarrow> if elock e = 1 \<and> pending e then M(a := None) else M(a \<mapsto> e\<lparr>elock := elock e - 1\<rparr>) | None \<Rightarrow> M)"

fun mem_pre :: "mem_op \<Rightarrow> (nat \<rightharpoonup> skb_entry) \<Rightarrow> bool" where
  "mem_pre (Sock_Alloc rw k sz force priority fr mem) M \<longleftrightarrow> (\<forall>a. mem = Some a \<longrightarrow> M a = None)"
| "mem_pre (Free_Skb a rw) M \<longleftrightarrow> (\<exists>e. M a = Some e \<and> kind e = rw)"
| "mem_pre (Keep a) M \<longleftrightarrow> a \<in> dom M"
| "mem_pre (Device_Release a rw) M \<longleftrightarrow> (\<exists>e. M a = Some e \<and> kind e = rw)"

definition limits :: "net_state \<Rightarrow> nat \<Rightarrow> free_rw \<Rightarrow> u16" where
  "limits s = (\<lambda>k rw. if rw = FREE_READ then rcvbuf (socks s k) else sndbuf (socks s k))"

section \<open>The simulation\<close>

lemma mem_simps [simp]:
  "live (upd_skb a f s) = live s" "net_memory (upd_skb a f s) = net_memory s" "net_skbcount (upd_skb a f s) = net_skbcount s"
  "socks (upd_skb a f s) = socks s" "skbs (upd_sock k g s) = skbs s" "live (upd_sock k g s) = live s" "net_memory (upd_sock k g s) = net_memory s"
  "net_skbcount (upd_sock k g s) = net_skbcount s" "socks (upd_sock k g s) = (socks s)(k := g (socks s k))"
  "skbs (note_if b m s) = skbs s" "live (note_if b m s) = live s" "net_memory (note_if b m s) = net_memory s"
  "net_skbcount (note_if b m s) = net_skbcount s" "socks (note_if b m s) = socks s"
  by (simp_all add: upd_skb_def upd_sock_def note_if_def)

lemma good_simps [simp]: "good_skb (upd_sock k g s) = good_skb s" "good_skb (note_if b m s) = good_skb s" "good_skb (skb_check a s) = good_skb s"
  by (simp_all add: good_skb_def fun_eq_iff)

lemma limits_simps [simp]: "limits (upd_skb a f s) = limits s" "limits (note_if b m s) = limits s" "limits (skb_check a s) = limits s"
  by (simp_all add: limits_def fun_eq_iff)

lemma mem_relD:
  assumes "mem_rel s M" "M a = Some e"
  shows "good_skb s a" "skb_mem_addr (skbs s a) = a" "skb_truesize (skbs s a) = esize e" "skb_mem_len (skbs s a) = esize e"
    "skb_lock (skbs s a) = elock e" "skb_free (skbs s a) = 1 \<longleftrightarrow> pending e" "skb_sk (skbs s a) = Some (owner e)" "skb_cookie (skbs s a) = SK_GOOD_SKB"
  using assms by (auto simp: mem_rel_def good_skb_def)

text \<open>A buffer leaves the map.\<close>

lemma mem_rel_drop:
  assumes "mem_rel s M" "M a = Some e"
    and "live s' = (live s)(a := False)" "\<And>b. b \<noteq> a \<Longrightarrow> skbs s' b = skbs s b" "net_memory s' = net_memory s - esize e" "net_skbcount s' = net_skbcount s - 1"
    and "\<And>k. wmem_alloc (socks s' k) = wmem_alloc (socks s k) - charge FREE_WRITE k e"
    and "\<And>k. rmem_alloc (socks s' k) = rmem_alloc (socks s k) - charge FREE_READ k e"
  shows "mem_rel s' (M(a := None))"
proof -
  have fin: "finite (dom M)" using assms(1) by (simp add: mem_rel_def)
  show ?thesis using assms unfolding mem_rel_def by (auto simp: sum_over_drop [OF fin assms(2)] good_skb_def)
qed

lemma mem_rel_add:
  assumes "mem_rel s M" "M a = None"
    and "live s' = (live s)(a := True)" "\<And>b. b \<noteq> a \<Longrightarrow> skbs s' b = skbs s b" "net_memory s' = net_memory s + esize e" "net_skbcount s' = net_skbcount s + 1"
    and "\<And>k. wmem_alloc (socks s' k) = wmem_alloc (socks s k) + charge FREE_WRITE k e"
    and "\<And>k. rmem_alloc (socks s' k) = rmem_alloc (socks s k) + charge FREE_READ k e"
    and "good_skb s' a" "skb_mem_addr (skbs s' a) = a" "skb_truesize (skbs s' a) = esize e" "skb_lock (skbs s' a) = elock e"
      "skb_free (skbs s' a) = 1 \<longleftrightarrow> pending e" "skb_sk (skbs s' a) = Some (owner e)"
  shows "mem_rel s' (M(a \<mapsto> e))"
proof -
  have fin: "finite (dom M)" using assms(1) by (simp add: mem_rel_def)
  have "good_skb s' b = good_skb s b" if "b \<noteq> a" for b using assms(4) [OF that] by (simp add: good_skb_def)
  then show ?thesis using assms unfolding mem_rel_def by (auto simp: sum_over_add [OF fin assms(2)])
qed

lemma mem_rel_change:
  assumes "mem_rel s M" "M a = Some e" "live s' = live s" "\<And>b. b \<noteq> a \<Longrightarrow> skbs s' b = skbs s b" "net_memory s' = net_memory s"
    "net_skbcount s' = net_skbcount s" "socks s' = socks s" "kind e' = kind e" "owner e' = owner e" "esize e' = esize e"
    "skbs s' a = (skbs s a)\<lparr>skb_lock := l, skb_free := f\<rparr>" "l = elock e'" "f = 1 \<longleftrightarrow> pending e'"
  shows "mem_rel s' (M(a \<mapsto> e'))"
proof -
  have fin: "finite (dom M)" using assms(1) by (simp add: mem_rel_def)
  have "sum_over g (M(a \<mapsto> e')) = sum_over g M" if "g e' = g e" for g using sum_over_change [OF fin assms(2) that] .
  moreover have "charge rw k e' = charge rw k e" for rw k using assms(8,9,10) by (simp add: charge_def)
  ultimately show ?thesis using assms unfolding mem_rel_def by (auto simp: good_skb_def)
qed

lemma kfree_skb_drops:
  assumes "mem_rel s M" "M a = Some e" "elock e = 0" "kind e = rw"
  shows "mem_rel (kfree_skb (Some a) rw s) (M(a := None))"
  by (rule mem_rel_drop [OF assms(1,2)]; cases "kind e")
    (use mem_relD [OF assms(1,2)] assms(3,4) in
      \<open>auto simp: kfree_skb_def Let_def kfree_skbmem_def sock_rfree_def sock_wfree_def charge_def\<close>)


lemma alloc_skb_runs:
  "alloc_skb sz priority None s = (None, note_if (net_intr_count s \<noteq> 0 \<and> priority \<noteq> SKB_GFP_ATOMIC) Alloc_Nonatomic s)"
  "\<exists>t. alloc_skb sz priority (Some a) s = (Some a, t) \<and> live t = (live s)(a := True) \<and> (\<forall>b. b \<noteq> a \<longrightarrow> skbs t b = skbs s b)
     \<and> skbs t a = (skbs s a)\<lparr>skb_free := 2, skb_list := None, skb_lock := 0, skb_truesize := sz, skb_mem_len := sz,
         skb_mem_addr := a, skb_fraglist := None, skb_cookie := SK_GOOD_SKB, skb_users := 0\<rparr>
     \<and> net_memory t = net_memory s + sz \<and> net_skbcount t = net_skbcount s + 1 \<and> socks t = socks s"
  by (simp_all add: alloc_skb_def Let_def)

lemma mem_rel_note: "mem_rel s M \<Longrightarrow> mem_rel (note_if b m s) M"
  by (simp add: mem_rel_def)

lemma sock_alloc_rel:
  assumes "mem_rel s M" "\<forall>a. mem = Some a \<longrightarrow> M a = None"
  shows "\<exists>s'. sock_alloc rw k sz force priority fr mem s = (fst (mem_spec (limits s) (Sock_Alloc rw k sz force priority fr mem) M), s')
    \<and> mem_rel s' (snd (mem_spec (limits s) (Sock_Alloc rw k sz force priority fr mem) M)) \<and> limits s' = limits s"
proof -
  have cnt: "wmem_alloc (socks s k) = sum_over (charge FREE_WRITE k) M" "rmem_alloc (socks s k) = sum_over (charge FREE_READ k) M"
    and fin: "finite (dom M)" using assms(1) by (auto simp: mem_rel_def)
  show ?thesis
  proof (cases mem)
    case None
    then show ?thesis using assms(1) cnt
      by (cases rw) (auto simp: sock_alloc_def sock_rmalloc_def sock_wmalloc_def alloc_skb_runs mem_rel_note)
  next
    case (Some a)
    obtain t where t: "alloc_skb sz priority (Some a) s = (Some a, t)" "live t = (live s)(a := True)" "\<forall>b. b \<noteq> a \<longrightarrow> skbs t b = skbs s b"
      "skbs t a = (skbs s a)\<lparr>skb_free := 2, skb_list := None, skb_lock := 0, skb_truesize := sz, skb_mem_len := sz,
         skb_mem_addr := a, skb_fraglist := None, skb_cookie := SK_GOOD_SKB, skb_users := 0\<rparr>"
      "net_memory t = net_memory s + sz" "net_skbcount t = net_skbcount s + 1" "socks t = socks s"
      using alloc_skb_runs(2) by blast
    have a: "M a = None" using assms(2) Some by simp
    let ?e = "\<lparr>kind = rw, owner = k, esize = sz, elock = 0, pending = fr\<rparr>"
    let ?u = "upd_skb a (\<lambda>x. x\<lparr>skb_sk := Some k, skb_free := (if fr then 1 else 0)\<rparr>)
      (upd_sock k (\<lambda>x. if rw = FREE_READ then x\<lparr>rmem_alloc := rmem_alloc x + sz\<rparr> else x\<lparr>wmem_alloc := wmem_alloc x + sz\<rparr>) t)"
    have rel: "mem_rel ?u (M(a \<mapsto> ?e))"
      by (rule mem_rel_add [OF assms(1) a]; cases rw) (simp_all add: t charge_def good_skb_def)
    have lim: "limits ?u = limits s" by (simp add: limits_def t fun_eq_iff)
    show ?thesis
    proof (cases "sum_over (charge rw k) M + sz < ucast (limits s k rw) \<or> force")
      case True
      then have "sock_alloc rw k sz force priority fr mem s = (Some a, ?u)"
        using Some t(1) cnt by (cases rw) (auto simp: sock_alloc_def sock_rmalloc_def sock_wmalloc_def limits_def)
      then show ?thesis using rel lim True Some by simp
    next
      case False
      then have "sock_alloc rw k sz force priority fr mem s = (None, s)"
        using Some cnt by (cases rw) (auto simp: sock_alloc_def sock_rmalloc_def sock_wmalloc_def limits_def)
      then show ?thesis using assms(1) False Some by simp
    qed
  qed
qed

lemma kfree_skb_limits: "limits (kfree_skb (Some a) rw s) = limits s"
  by (auto simp: kfree_skb_def Let_def limits_def fun_eq_iff kfree_skbmem_def sock_rfree_def sock_wfree_def split: option.splits)

lemma kfree_skb_rel:
  assumes "mem_rel s M" "M a = Some e" "kind e = rw"
  shows "mem_rel (kfree_skb (Some a) rw s) (if elock e = 0 then M(a := None) else M(a \<mapsto> e\<lparr>pending := True\<rparr>))"
proof (cases "elock e = 0")
  case False
  have "kfree_skb (Some a) rw s = upd_skb a (\<lambda>k. k\<lparr>skb_free := 1\<rparr>) s"
    using mem_relD [OF assms(1,2)] False by (simp add: kfree_skb_def)
  moreover have "mem_rel (upd_skb a (\<lambda>k. k\<lparr>skb_free := 1\<rparr>) s) (M(a \<mapsto> e\<lparr>pending := True\<rparr>))"
    by (rule mem_rel_change [OF assms(1,2), where f = 1 and l = "elock e"]) (use mem_relD [OF assms(1,2)] in auto)
  ultimately show ?thesis using False by simp
qed (use kfree_skb_drops [OF assms(1,2)] assms(3) in simp)

lemma lock_rel:
  assumes "mem_rel s M" "M a = Some e"
  shows "mem_rel (upd_skb a (\<lambda>k. k\<lparr>skb_lock := l\<rparr>) s) (M(a \<mapsto> e\<lparr>elock := l\<rparr>))"
  by (rule mem_rel_change [OF assms, where f = "skb_free (skbs s a)" and l = l]) (use mem_relD [OF assms] in auto)

lemma device_release_rel:
  assumes "mem_rel s M" "M a = Some e" "kind e = rw"
  shows "mem_rel (skb_device_release a rw s) (if elock e = 1 \<and> pending e then M(a := None) else M(a \<mapsto> e\<lparr>elock := elock e - 1\<rparr>))"
proof -
  note d = mem_relD [OF assms(1,2)]
  let ?t = "upd_skb a (\<lambda>k. k\<lparr>skb_lock := elock e - 1\<rparr>) s"
  have t: "mem_rel ?t (M(a \<mapsto> e\<lparr>elock := elock e - 1\<rparr>))" by (rule lock_rel [OF assms(1,2)])
  have u: "upd_skb a (\<lambda>k. k\<lparr>skb_lock := skb_lock k - 1\<rparr>) s = ?t" using d(5) by (simp add: upd_skb_def)
  have "mem_rel (kfree_skb (Some a) rw ?t) (M(a := None))" if "elock e = 1"
    using kfree_skb_drops [OF t, of a "e\<lparr>elock := 0\<rparr>"] that assms(3) by simp
  then show ?thesis using t d(6) unfolding skb_device_release_def Let_def u by auto
qed

lemma mem_sim:
  assumes "mem_rel s M \<and> limits s = lim" "mem_pre x M"
  shows "\<exists>s'. mem_impl x s = Some (fst (mem_spec lim x M), s') \<and> mem_rel s' (snd (mem_spec lim x M)) \<and> limits s' = lim"
proof (cases x)
  case (Sock_Alloc rw k sz force priority fr mem)
  then show ?thesis using sock_alloc_rel [of s M mem] assms by (auto simp del: mem_spec.simps)
next
  case (Free_Skb a rw)
  then show ?thesis using kfree_skb_rel [of s M a] assms kfree_skb_limits by auto
next
  case (Keep a)
  then obtain e where e: "M a = Some e" using assms(2) by auto
  have "skb_kept_by_device a s = upd_skb a (\<lambda>k. k\<lparr>skb_lock := elock e + 1\<rparr>) s"
    using mem_relD(5) [of s M a e] e assms(1) by (auto simp: skb_kept_by_device_def upd_skb_def)
  then show ?thesis using lock_rel [of s M a e] e Keep assms by auto
next
  case (Device_Release a rw)
  have "limits (skb_device_release a rw s) = limits s" by (simp add: skb_device_release_def Let_def kfree_skb_limits)
  then show ?thesis using Device_Release device_release_rel [of s M a] assms by auto
qed

interpretation skbm: simulation mem_impl "mem_spec lim" mem_pre "\<lambda>s M. mem_rel s M \<and> limits s = lim" for lim
  by unfold_locales (rule mem_sim)

end
