(* ===== verification/Net_Theorems.thy ===== *)
theory Net_Theorems
  imports Skbuff_Memory
begin

text \<open>
  The properties of socket buffers.  Witnesses run on \<^verbatim>\<open>demo_net\<close>: no queue holds a buffer, the buffers 5, 6 and 7 are allocated and belong to nobody's queue,
  all counters are zero.
\<close>

definition demo_skb :: sk_buff where
  "demo_skb = \<lparr>skb_cookie = SK_GOOD_SKB, skb_next = None, skb_prev = None, skb_list = None, skb_sk = None, skb_mem_addr = 0, skb_mem_len = 64,
     skb_truesize = 64, skb_fraglist = None, skb_magic = 0, skb_free = 0, skb_lock = 0, skb_users = 0\<rparr>"

definition demo_net :: net_state where
  "demo_net = \<lparr>skbs = (\<lambda>_. demo_skb), qheads = (\<lambda>_. None),
     socks = (\<lambda>_. \<lparr>wmem_alloc = 0, rmem_alloc = 0, sndbuf = 8192, rcvbuf = 8192, sk_shutdown = 0, sk_dead = False, sk_prot = True\<rparr>),
     net_memory = 0, net_skbcount = 0, net_intr_count = 0, live = (\<lambda>_. False), net_log = []\<rparr>"

lemma demo_net_rel: "skb_rel (skb_frame_of demo_net) demo_net (\<lambda>_. [], {5, 6, 7})"
  by (simp add: skb_rel_def queue_ok_def good_skb_def demo_net_def demo_skb_def)

lemma demo_net_mem: "mem_rel demo_net Map.empty"
  by (simp add: mem_rel_def sum_over_def demo_net_def)

text \<open>C37: the queues of socket buffers are sequences.  Any number of queues share the buffers.  Whatever of \<^verbatim>\<open>skb_queue_head\<close>,
  \<^verbatim>\<open>skb_queue_tail\<close>, \<^verbatim>\<open>skb_dequeue\<close>, \<^verbatim>\<open>skb_insert\<close> (not before the first buffer), \<^verbatim>\<open>skb_append\<close> and \<^verbatim>\<open>skb_unlink\<close> are called, in whatever
  order, on buffers that are on no queue, or in the queue the operation is about: each call returns, each dequeue gives the first buffer
  of its sequence, every queue is the sequence that the same operations on lists give, and the circular links, the back links, the
  heads and the list fields agree with it.  Nothing is printed, and sockets and counters are as before.\<close>

theorem skb_queues_are_sequences:
  assumes "skb_rel fr s (qs, F)" "pre_ops skb_spec skb_pre ops (qs, F)"
  shows "\<exists>s'. run_ops skb_impl ops s = Some (fst (spec_ops skb_spec ops (qs, F)), s') \<and> skb_rel fr s' (snd (spec_ops skb_spec ops (qs, F)))"
  by (rule skbq.sim_ops [OF assms])

theorem skb_queues_are_sequences_witness:
  "\<exists>s'. run_ops skb_impl [Queue_Tail 0 5, Queue_Tail 0 6, Insert_Before 0 6 7, Dequeue 0] demo_net = Some ([None, None, None, Some 5], s')
     \<and> skb_rel (skb_frame_of demo_net) s' ((\<lambda>_. [])(0 := [7, 6]), {5})"
proof -
  let ?ops = "[Queue_Tail 0 5, Queue_Tail 0 6, Insert_Before 0 6 7, Dequeue 0]"
  have "{5, 6, 7} - {5} - {6} - {7} = ({} :: nat set)" by auto
  then have "fst (spec_ops skb_spec ?ops (\<lambda>_. [], {5, 6, 7})) = [None, None, None, Some 5]"
    "snd (spec_ops skb_spec ?ops (\<lambda>_. [], {5, 6, 7})) = ((\<lambda>_. [])(0 := [7, 6]), {5})" by simp_all
  then show ?thesis using skb_queues_are_sequences [OF demo_net_rel, of ?ops] by simp
qed

text \<open>C38: the memory of socket buffers is accounted for.  Whatever buffers are allocated for sockets, for reading or for writing, freed,
  lent to a device and taken back: the buffers that are live are those allocated and not yet freed, \<^verbatim>\<open>net_memory\<close> and \<^verbatim>\<open>net_skbcount\<close> are
  the sum of their sizes and their number, and the counters of every socket are the sums of what is charged to it.  An allocation
  succeeds exactly when it is forced or below the limit of the socket.  Freeing a buffer that a device holds takes effect when the
  device gives it back.\<close>

theorem skb_memory_accounted:
  assumes "mem_rel s M" "pre_ops (mem_spec (limits s)) mem_pre ops M"
  shows "\<exists>s'. run_ops mem_impl ops s = Some (fst (spec_ops (mem_spec (limits s)) ops M), s') \<and> mem_rel s' (snd (spec_ops (mem_spec (limits s)) ops M))"
  using skbm.sim_ops [of s M "limits s" ops] assms by blast

theorem skb_memory_accounted_witness:
  "\<exists>s'. run_ops mem_impl [Sock_Alloc FREE_WRITE 1 100 False 3 False (Some 5), Keep 5, Free_Skb 5 FREE_WRITE, Device_Release 5 FREE_WRITE] demo_net
       = Some ([Some 5, None, None, None], s') \<and> mem_rel s' Map.empty"
proof -
  let ?ops = "[Sock_Alloc FREE_WRITE 1 100 False 3 False (Some 5), Keep 5, Free_Skb 5 FREE_WRITE, Device_Release 5 FREE_WRITE]"
  have l: "limits demo_net = (\<lambda>k rw. 8192)" by (simp add: limits_def demo_net_def fun_eq_iff)
  have c: "sum_over (charge FREE_WRITE k) Map.empty = 0" for k by (simp add: sum_over_def)
  have "fst (spec_ops (mem_spec (limits demo_net)) ?ops Map.empty) = [Some 5, None, None, None]"
    "snd (spec_ops (mem_spec (limits demo_net)) ?ops Map.empty) = Map.empty" "pre_ops (mem_spec (limits demo_net)) mem_pre ?ops Map.empty"
    unfolding l by (simp_all add: c fun_upd_idem)
  then show ?thesis using skb_memory_accounted [OF demo_net_mem, of ?ops] by simp
qed

text \<open>\<^verbatim>\<open>skb_insert\<close> before the first buffer of a queue leaves the head of the queue where it is, so that the new buffer becomes the last of the
  queue instead of the first.\<close>

theorem skb_insert_before_first_goes_last:
  assumes "skb_rel fr s (qs, F)" "n \<in> F" "qs l = old # vs"
  shows "\<exists>s'. skb_insert old n s = Some s' \<and> skb_rel fr s' (qs(l := old # vs @ [n]), F - {n})"
  by (rule skb_insert_first_rel [OF assms])

theorem skb_insert_before_first_goes_last_witness:
  "\<exists>s s'. skb_queue_tail 0 5 demo_net = Some s \<and> skb_insert 5 6 s = Some s' \<and> skb_dequeue 0 s' \<noteq> None
     \<and> skb_rel (skb_frame_of demo_net) s' ((\<lambda>_. [])(0 := [5, 6]), {7})"
proof -
  obtain s where s: "skb_queue_tail 0 5 demo_net = Some s" "skb_rel (skb_frame_of demo_net) s ((\<lambda>_. [])(0 := [5]), {6, 7})"
    using skb_queue_tail_rel [OF demo_net_rel, of 5 0] by auto
  obtain s' where "skb_insert 5 6 s = Some s'" "skb_rel (skb_frame_of demo_net) s' ((\<lambda>_. [])(0 := [5, 6]), {7})"
    using skb_insert_before_first_goes_last [OF s(2), of 6 0 5 "[]"] by auto
  then show ?thesis using s(1) skb_dequeue_rel [of _ s'] by blast
qed

text \<open>The test that the first buffer has changed while \<^verbatim>\<open>skb_peek_copy\<close> was waiting for memory does not go around another time: the new buffer is
  freed and then returned.\<close>

theorem skb_peek_copy_returns_freed:
  assumes "skb_peek l s \<noteq> Some orig" "good_skb s n" "skb_lock (skbs s n) = 0" "len = skb_truesize (skbs s n)"
  shows "\<exists>s'. skb_peek_copy_end l orig len (Some n) s = (Some n, s') \<and> \<not> live s' n \<and> skb_cookie (skbs s' n) = SK_FREED_SKB"
  using assms by (simp add: skb_peek_copy_end_def kfree_skb_def kfree_skbmem_def Let_def good_skb_def)

text \<open>The window a socket may announce is at most half of the free space less \<^verbatim>\<open>MIN_WINDOW\<close>, when the buffer has at least twice \<^verbatim>\<open>MIN_WINDOW\<close>;
  with a smaller buffer, which \<^verbatim>\<open>SO_RCVBUF\<close> allows, an empty buffer of 256 bytes announces 4096.\<close>

theorem sock_rspace_small_buffer: "sock_rspace (Some 0) (demo_net\<lparr>socks := (\<lambda>_. (socks demo_net 0)\<lparr>rcvbuf := 256\<rparr>)\<rparr>) = 4096"
  by code_simp

end
