(* ===== verification/Page_Tables.thy ===== *)
theory Page_Tables
  imports Kernel_Prelude
begin

text \<open>
  Physical pages and page tables: \<^verbatim>\<open>free_page\<close>, \<^verbatim>\<open>__get_free_page\<close> and the reference counts of swapped pages of \<^verbatim>\<open>mm/swap.c\<close>, and the page
  tables of \<^verbatim>\<open>mm/memory.c\<close>.  Physical memory is seen through two stores, both indexed by the address of a page: \<^verbatim>\<open>tbl\<close> has the 1024
  entries of a page used as a page directory or page table, \<^verbatim>\<open>frame\<close> the bytes of a page of data.  \<^verbatim>\<open>mem_map\<close> counts the users of a page.
  The lists of free pages, chained through the pages themselves, are lists of addresses.  \<^verbatim>\<open>printk\<close> and signals to a process add to
  \<^verbatim>\<open>vm_log\<close>.  Left out: swapping pages out to get a free one (\<^verbatim>\<open>try_to_free_page\<close>, taken to free nothing), and the wait in \<^verbatim>\<open>swap_free\<close> for a swap
  page that is being read or written.
\<close>

section \<open>Data\<close>

record swap_info =
  swp_flags :: u32
  swap_map :: "nat \<Rightarrow> u8"
  lowest_bit :: int
  highest_bit :: int
  swp_max :: u32

datatype vm_note = Bad_Free u32 | Free_List_Bad u32 | Queue_Empty | Bad_Swap_Free u32 | Bad_Swap_Dup u32 | Bad_Table u32 | Kernel_Dir | Swapper_Panic
  | Copy_Bad_Table | Wrong_Alignment | Bad_Dir | Bad_Mask u32 | Bad_Put u32 | Page_Exists | Bogus_Page u32 | Bogus_Table u32 | Mem_Map_Disagrees u32
  | Oom nat | Segv nat | Kill nat | Gfp_Nonatomic

record vm_state =
  tbl :: "u32 \<Rightarrow> nat \<Rightarrow> u32"
  frame :: "u32 \<Rightarrow> nat \<Rightarrow> u8"
  mem_map :: "nat \<Rightarrow> u16"
  high_memory :: u32
  free_page_list :: "u32 list"
  nr_free_pages :: int
  secondary_page_list :: "u32 list"
  nr_secondary_pages :: int
  cr3 :: "nat \<Rightarrow> u32"
  rss :: "nat \<Rightarrow> u16"
  min_flt :: "nat \<Rightarrow> u32"
  swap_files :: "swap_info list"
  nr_swap_pages :: int
  vm_intr_count :: u32
  vm_current :: nat
  swapper_pg_dir :: u32
  zero_page :: u32
  bad_page :: u32
  bad_pagetable :: u32
  vm_log :: "vm_note list"

abbreviation (input) PAGE_MASK :: u32 where "PAGE_MASK \<equiv> 0xfffff000"
abbreviation (input) PAGE_PRESENT :: u32 where "PAGE_PRESENT \<equiv> 0x001"
abbreviation (input) PAGE_RW :: u32 where "PAGE_RW \<equiv> 0x002"
abbreviation (input) PAGE_DIRTY :: u32 where "PAGE_DIRTY \<equiv> 0x040"
abbreviation (input) PAGE_COW :: u32 where "PAGE_COW \<equiv> 0x200"
abbreviation (input) PAGE_PRIVATE :: u32 where "PAGE_PRIVATE \<equiv> 0x227"
abbreviation (input) PAGE_SHARED :: u32 where "PAGE_SHARED \<equiv> 0x027"
abbreviation (input) PAGE_TABLE :: u32 where "PAGE_TABLE \<equiv> 0x027"
abbreviation (input) MAP_PAGE_RESERVED :: u16 where "MAP_PAGE_RESERVED \<equiv> 0x8000"
abbreviation (input) MAX_SECONDARY_PAGES :: int where "MAX_SECONDARY_PAGES \<equiv> 20"
abbreviation (input) PTRS_PER_PAGE :: nat where "PTRS_PER_PAGE \<equiv> 1024"
abbreviation (input) SHM_SWP_TYPE :: nat where "SHM_SWP_TYPE \<equiv> 0x41"

text \<open>The parts of an address and the bits of an entry: \<^verbatim>\<open>e & PAGE_MASK\<close>, \<^verbatim>\<open>e & ~PAGE_MASK\<close>, \<^verbatim>\<open>e & PAGE_PRESENT\<close>, \<^verbatim>\<open>e & PAGE_RW\<close> and \<^verbatim>\<open>e & PAGE_COW\<close>.\<close>

definition page_of :: "u32 \<Rightarrow> u32" where
  "page_of e = e AND PAGE_MASK"

definition page_bits :: "u32 \<Rightarrow> u32" where
  "page_bits e = e AND NOT PAGE_MASK"

definition present :: "u32 \<Rightarrow> bool" where
  "present e \<longleftrightarrow> e AND PAGE_PRESENT \<noteq> 0"

definition writable :: "u32 \<Rightarrow> bool" where
  "writable e \<longleftrightarrow> e AND PAGE_RW \<noteq> 0"

definition cow :: "u32 \<Rightarrow> bool" where
  "cow e \<longleftrightarrow> e AND PAGE_COW \<noteq> 0"

definition is_table :: "u32 \<Rightarrow> bool" where
  "is_table e \<longleftrightarrow> e AND PAGE_TABLE = PAGE_TABLE"

text \<open>\<^verbatim>\<open>e | f\<close> and \<^verbatim>\<open>e & ~PAGE_RW\<close>.\<close>

definition add_flags :: "u32 \<Rightarrow> u32 \<Rightarrow> u32" where
  "add_flags e f = e OR f"

definition protect :: "u32 \<Rightarrow> u32" where
  "protect e = e AND NOT PAGE_RW"

definition MAP_NR :: "u32 \<Rightarrow> nat" where
  "MAP_NR a = unat (drop_bit 12 a)"

definition dir_index :: "u32 \<Rightarrow> nat" where
  "dir_index a = unat (drop_bit 22 a)"

definition pt_index :: "u32 \<Rightarrow> nat" where
  "pt_index a = unat (drop_bit 12 a AND 1023)"

definition reserved :: "vm_state \<Rightarrow> u32 \<Rightarrow> bool" where
  "reserved s a \<longleftrightarrow> mem_map s (MAP_NR a) AND MAP_PAGE_RESERVED \<noteq> 0"

definition set_entry :: "u32 \<Rightarrow> nat \<Rightarrow> u32 \<Rightarrow> vm_state \<Rightarrow> vm_state" where
  "set_entry t j v s = s\<lparr>tbl := (tbl s)(t := (tbl s t)(j := v))\<rparr>"

definition set_map :: "u32 \<Rightarrow> u16 \<Rightarrow> vm_state \<Rightarrow> vm_state" where
  "set_map a c s = s\<lparr>mem_map := (mem_map s)(MAP_NR a := c)\<rparr>"

definition vm_note :: "vm_note \<Rightarrow> vm_state \<Rightarrow> vm_state" where
  "vm_note n s = s\<lparr>vm_log := vm_log s @ [n]\<rparr>"

section \<open>Pages\<close>

definition free_page :: "u32 \<Rightarrow> vm_state \<Rightarrow> vm_state" where
  "free_page addr s =
    (if addr < high_memory s
     then let c = mem_map s (MAP_NR addr)
          in if c \<noteq> 0
             then if c AND MAP_PAGE_RESERVED = 0
                  then let s = set_map addr (c - 1) s
                       in if c - 1 = 0
                          then if nr_secondary_pages s < MAX_SECONDARY_PAGES
                               then s\<lparr>secondary_page_list := (page_of addr) # secondary_page_list s, nr_secondary_pages := nr_secondary_pages s + 1\<rparr>
                               else s\<lparr>free_page_list := (page_of addr) # free_page_list s, nr_free_pages := nr_free_pages s + 1\<rparr>
                          else s
                  else s
             else vm_note (Bad_Free addr) s
     else s)"

text \<open>The macro \<^verbatim>\<open>REMOVE_FROM_MEM_QUEUE\<close> on the list of free pages and on the secondary list; the first component is the page, 0 for none.\<close>

definition usable_page :: "u32 \<Rightarrow> vm_state \<Rightarrow> bool" where
  "usable_page r s \<longleftrightarrow> page_bits r = 0 \<and> r < high_memory s \<and> mem_map s (MAP_NR r) = 0"

definition remove_free :: "vm_state \<Rightarrow> u32 \<times> vm_state" where
  "remove_free s =
    (case free_page_list s of
       [] \<Rightarrow> (0, if nr_free_pages s \<noteq> 0 then vm_note Queue_Empty (s\<lparr>nr_free_pages := 0\<rparr>) else s)
     | r # rs \<Rightarrow> if usable_page r s
                 then (r, set_map r 1 (s\<lparr>free_page_list := rs, nr_free_pages := nr_free_pages s - 1\<rparr>))
                 else (0, vm_note (Free_List_Bad r) (s\<lparr>free_page_list := [], nr_free_pages := 0\<rparr>)))"

definition remove_secondary :: "vm_state \<Rightarrow> u32 \<times> vm_state" where
  "remove_secondary s =
    (case secondary_page_list s of
       [] \<Rightarrow> (0, if nr_secondary_pages s \<noteq> 0 then vm_note Queue_Empty (s\<lparr>nr_secondary_pages := 0\<rparr>) else s)
     | r # rs \<Rightarrow> if usable_page r s
                 then (r, set_map r 1 (s\<lparr>secondary_page_list := rs, nr_secondary_pages := nr_secondary_pages s - 1\<rparr>))
                 else (0, vm_note (Free_List_Bad r) (s\<lparr>secondary_page_list := [], nr_secondary_pages := 0\<rparr>)))"

datatype gfp = GFP_BUFFER | GFP_ATOMIC | GFP_USER | GFP_KERNEL

definition get_free_page_raw :: "gfp \<Rightarrow> vm_state \<Rightarrow> u32 \<times> vm_state" where
  "get_free_page_raw priority s =
    (let s = (if vm_intr_count s \<noteq> 0 \<and> priority \<noteq> GFP_ATOMIC then vm_note Gfp_Nonatomic s else s);
         priority = (if vm_intr_count s \<noteq> 0 \<and> priority \<noteq> GFP_ATOMIC then GFP_ATOMIC else priority);
         (r, s) = remove_free s
     in if r \<noteq> 0 then (r, s) else if priority = GFP_BUFFER then (0, s) else remove_secondary s)"

text \<open>\<^verbatim>\<open>get_free_page\<close> clears the page, whatever it will be used for.\<close>

definition get_free_page :: "gfp \<Rightarrow> vm_state \<Rightarrow> u32 \<times> vm_state" where
  "get_free_page priority s =
    (let (r, s) = get_free_page_raw priority s
     in (r, if r \<noteq> 0 then s\<lparr>tbl := (tbl s)(r := \<lambda>_. 0), frame := (frame s)(r := \<lambda>_. 0)\<rparr> else s))"

text \<open>The pages that stand for a page that cannot be had, for its table, and for zeros.  Each use fills them again.\<close>

definition fill_page :: "u32 \<Rightarrow> vm_state \<Rightarrow> vm_state" where
  "fill_page a s = s\<lparr>tbl := (tbl s)(a := \<lambda>_. 0), frame := (frame s)(a := \<lambda>_. 0)\<rparr>"

definition BAD_PAGE :: "vm_state \<Rightarrow> u32 \<times> vm_state" where
  "BAD_PAGE s = (bad_page s, fill_page (bad_page s) s)"

definition ZERO_PAGE :: "vm_state \<Rightarrow> u32 \<times> vm_state" where
  "ZERO_PAGE s = (zero_page s, fill_page (zero_page s) s)"

definition BAD_PAGETABLE :: "vm_state \<Rightarrow> u32 \<times> vm_state" where
  "BAD_PAGETABLE s = (let (a, s) = BAD_PAGE s in (bad_pagetable s, s\<lparr>tbl := (tbl s)(bad_pagetable s := \<lambda>_. a + PAGE_TABLE)\<rparr>))"

text \<open>\<^verbatim>\<open>*p = BAD_PAGETABLE | PAGE_TABLE\<close> and \<^verbatim>\<open>*p = BAD_PAGE | prot\<close>.\<close>

definition set_bad_table :: "u32 \<Rightarrow> nat \<Rightarrow> vm_state \<Rightarrow> vm_state" where
  "set_bad_table d i s = (let (a, s) = BAD_PAGETABLE s in set_entry d i (add_flags a PAGE_TABLE) s)"

definition set_bad_page :: "u32 \<Rightarrow> nat \<Rightarrow> u32 \<Rightarrow> vm_state \<Rightarrow> vm_state" where
  "set_bad_page p j prot s = (let (a, s) = BAD_PAGE s in set_entry p j (add_flags a prot) s)"

section \<open>Swapped pages\<close>

definition SWP_TYPE :: "u32 \<Rightarrow> nat" where
  "SWP_TYPE e = unat (drop_bit 1 (e AND 0xfe))"

definition SWP_OFFSET :: "u32 \<Rightarrow> nat" where
  "SWP_OFFSET e = unat (drop_bit 12 e)"

definition swap_duplicate :: "u32 \<Rightarrow> vm_state \<Rightarrow> u32 \<times> vm_state" where
  "swap_duplicate e s =
    (let ty = SWP_TYPE e; off = SWP_OFFSET e
     in if e = 0 then (0, s)
        else if ty = SHM_SWP_TYPE then (e, s)
        else if length (swap_files s) \<le> ty then (0, vm_note (Bad_Swap_Dup e) s)
        else let p = swap_files s ! ty
             in if unat (swp_max p) \<le> off then (0, vm_note (Bad_Swap_Dup e) s)
                else if swap_map p off = 0 then (0, vm_note (Bad_Swap_Dup e) s)
                else (e, s\<lparr>swap_files := (swap_files s)[ty := p\<lparr>swap_map := (swap_map p)(off := swap_map p off + 1)\<rparr>]\<rparr>))"

definition swap_free :: "u32 \<Rightarrow> vm_state \<Rightarrow> vm_state" where
  "swap_free e s =
    (let ty = SWP_TYPE e; off = SWP_OFFSET e
     in if e = 0 \<or> ty = SHM_SWP_TYPE then s
        else if length (swap_files s) \<le> ty then vm_note (Bad_Swap_Free e) s
        else let p = swap_files s ! ty
             in if unat (swp_max p) \<le> off then vm_note (Bad_Swap_Free e) s
                else if swp_flags p AND 1 = 0 then vm_note (Bad_Swap_Free e) s
                else let p = p\<lparr>lowest_bit := min (int off) (lowest_bit p), highest_bit := max (int off) (highest_bit p)\<rparr>
                     in if swap_map p off = 0 then vm_note (Bad_Swap_Free e) (s\<lparr>swap_files := (swap_files s)[ty := p]\<rparr>)
                        else let s = s\<lparr>swap_files := (swap_files s)[ty := p\<lparr>swap_map := (swap_map p)(off := swap_map p off - 1)\<rparr>]\<rparr>
                             in if swap_map p off = 1 then s\<lparr>nr_swap_pages := nr_swap_pages s + 1\<rparr> else s)"

section \<open>Whole address spaces\<close>

definition clear_pte :: "u32 \<Rightarrow> vm_state \<Rightarrow> nat \<Rightarrow> vm_state" where
  "clear_pte t s j =
    (let pg = tbl s t j
     in if pg = 0 then s
        else let s = set_entry t j 0 s
             in if present pg then free_page (page_of pg) s else swap_free pg s)"

definition free_one_table :: "u32 \<Rightarrow> vm_state \<Rightarrow> nat \<Rightarrow> vm_state" where
  "free_one_table d s i =
    (let pt = tbl s d i
     in if pt = 0 then s
        else let s = set_entry d i 0 s
             in if high_memory s \<le> pt \<or> \<not> present pt then vm_note (Bad_Table pt) s
                else if reserved s pt then s
                else free_page (page_of pt) (foldl (clear_pte (page_of pt)) s [0..<PTRS_PER_PAGE]))"

definition oom :: "nat \<Rightarrow> vm_state \<Rightarrow> vm_state" where
  "oom t s = vm_note (Oom t) s"

text \<open>\<^verbatim>\<open>None\<close> is the panic for the swapper.\<close>

definition clear_page_tables :: "nat \<Rightarrow> vm_state \<Rightarrow> vm_state option" where
  "clear_page_tables t s =
    (if t = 0 then None
     else let d = cr3 s t
          in if d = 0 \<or> d = swapper_pg_dir s then Some (vm_note Kernel_Dir s)
             else if 1 < mem_map s (MAP_NR d)
             then let (n, s) = get_free_page GFP_KERNEL s
                  in if n = 0 then Some (oom t s)
                     else let s = foldl (\<lambda>s i. set_entry n i (tbl s d i) s) s [768..<1024];
                              s = free_page d s
                          in Some (s\<lparr>cr3 := (cr3 s)(t := n)\<rparr>)
             else Some (foldl (free_one_table d) s [0..<768]))"

definition free_page_tables :: "nat \<Rightarrow> vm_state \<Rightarrow> vm_state option" where
  "free_page_tables t s =
    (if t = 0 then None
     else let d = cr3 s t
          in if d = 0 \<or> d = swapper_pg_dir s then Some (vm_note Kernel_Dir s)
             else let s = s\<lparr>cr3 := (cr3 s)(t := swapper_pg_dir s)\<rparr>
                  in if 1 < mem_map s (MAP_NR d) then Some (free_page d s)
                     else Some (free_page d (foldl (free_one_table d) s [0..<PTRS_PER_PAGE])))"

definition clone_page_tables :: "nat \<Rightarrow> vm_state \<Rightarrow> vm_state" where
  "clone_page_tables t s =
    (let d = cr3 s (vm_current s);
         s = set_map d (mem_map s (MAP_NR d) + 1) s
     in s\<lparr>cr3 := (cr3 s)(t := d)\<rparr>)"

definition copy_pte :: "u32 \<Rightarrow> u32 \<Rightarrow> vm_state \<Rightarrow> nat \<Rightarrow> vm_state" where
  "copy_pte old new s j =
    (let pg = tbl s old j
     in if pg = 0 then s
        else if \<not> present pg then (let (e, s) = swap_duplicate pg s in set_entry new j e s)
        else let pg = (if writable pg \<and> cow pg then protect pg else pg);
                 s = set_entry new j pg s
             in if reserved s pg then s
                else let s = set_entry old j pg s in set_map pg (mem_map s (MAP_NR pg) + 1) s)"

text \<open>One step of the outer loop of \<^verbatim>\<open>copy_page_tables\<close>; it fails when there is no page for a new table.\<close>

definition copy_table :: "u32 \<Rightarrow> u32 \<Rightarrow> nat \<Rightarrow> vm_state \<Rightarrow> vm_state + vm_state" where
  "copy_table d n i s =
    (let pt = tbl s d i
     in if pt = 0 then Inr s
        else if high_memory s \<le> pt \<or> \<not> present pt then Inr (set_entry d i 0 (vm_note Copy_Bad_Table s))
        else if reserved s pt then Inr (set_entry n i pt s)
        else let (new, s) = get_free_page GFP_KERNEL s
             in if new = 0 then Inl s
                else let s = foldl (copy_pte (page_of pt) (page_of new)) s [0..<PTRS_PER_PAGE]
                     in Inr (set_entry n i (add_flags new PAGE_TABLE) s))"

fun copy_tables :: "u32 \<Rightarrow> u32 \<Rightarrow> nat list \<Rightarrow> vm_state \<Rightarrow> vm_state + vm_state" where
  "copy_tables d n [] s = Inr s"
| "copy_tables d n (i # is) s = (case copy_table d n i s of Inl s \<Rightarrow> Inl s | Inr s \<Rightarrow> copy_tables d n is s)"

definition copy_page_tables :: "nat \<Rightarrow> vm_state \<Rightarrow> (int \<times> vm_state) option" where
  "copy_page_tables t s =
    (let (n, s) = get_free_page GFP_KERNEL s
     in if n = 0 then Some (- ENOMEM, s)
        else let d = cr3 s (vm_current s);
                 s = s\<lparr>cr3 := (cr3 s)(t := n)\<rparr>
             in case copy_tables d n [0..<PTRS_PER_PAGE] s of
                  Inr s \<Rightarrow> Some (0, s)
                | Inl s \<Rightarrow> map_option (Pair (- ENOMEM)) (free_page_tables t s))"

section \<open>Ranges\<close>

definition drop_pte :: "nat \<Rightarrow> u32 \<Rightarrow> nat \<Rightarrow> vm_state \<Rightarrow> vm_state" where
  "drop_pte t tab j s =
    (let page = tbl s tab j
     in if page = 0 then s
        else let s = set_entry tab j 0 s
             in if present page
                then let s = (if \<not> reserved s page \<and> 0 < rss s t then s\<lparr>rss := (rss s)(t := rss s t - 1)\<rparr> else s)
                     in free_page (page_of page) s
                else swap_free page s)"

text \<open>The loop over the directory of \<^verbatim>\<open>unmap_page_range\<close>, with the entry \<^verbatim>\<open>i\<close>, the first index \<^verbatim>\<open>poff\<close> and the number \<^verbatim>\<open>pcnt\<close> of entries in its table, and \<^verbatim>\<open>n\<close>
  pages to go; \<^verbatim>\<open>pcnt\<close> is 0 only with \<^verbatim>\<open>n\<close>.\<close>

function unmap_dirs :: "nat \<Rightarrow> nat \<Rightarrow> nat \<Rightarrow> nat \<Rightarrow> nat \<Rightarrow> vm_state \<Rightarrow> vm_state" where
  "unmap_dirs t i poff pcnt n s =
    (if n = 0 \<or> pcnt = 0 then s
     else let d = cr3 s t; e = tbl s d i; n' = n - pcnt; pcnt' = min n' PTRS_PER_PAGE
          in if e = 0 then unmap_dirs t (Suc i) 0 pcnt' n' s
             else if \<not> present e then unmap_dirs t (Suc i) poff pcnt' n' (vm_note Bad_Dir s)
             else let s = foldl (\<lambda>s j. drop_pte t (page_of e) j s) s [poff..<poff + pcnt];
                      s = (if pcnt = PTRS_PER_PAGE then free_page (page_of e) (set_entry d i 0 s) else s)
                  in unmap_dirs t (Suc i) 0 pcnt' n' s)"
  by pat_completeness auto
termination by (relation "measure (\<lambda>(t, i, poff, pcnt, n, s). n)") auto

declare unmap_dirs.simps [simp del]

definition pages_of :: "u32 \<Rightarrow> nat" where
  "pages_of sz = unat (drop_bit 12 (sz + NOT PAGE_MASK))"

definition unmap_page_range :: "u32 \<Rightarrow> u32 \<Rightarrow> vm_state \<Rightarrow> int \<times> vm_state" where
  "unmap_page_range from sz s =
    (if page_bits from \<noteq> 0 then (- EINVAL, vm_note Wrong_Alignment s)
     else let n = pages_of sz; poff = pt_index from
          in (0, unmap_dirs (vm_current s) (dir_index from) poff (min (PTRS_PER_PAGE - poff) n) n s))"

text \<open>The table of a directory entry in \<^verbatim>\<open>zeromap_page_range\<close> and \<^verbatim>\<open>remap_page_range\<close>, made when there is none; \<^verbatim>\<open>None\<close> when there is no page for it.  Between the two
  tests of the entry in \<^verbatim>\<open>zeromap_page_range\<close> only a swapped page could have changed it.\<close>

definition range_table :: "u32 \<Rightarrow> nat \<Rightarrow> vm_state \<Rightarrow> u32 option \<times> vm_state" where
  "range_table d i s =
    (if \<not> present (tbl s d i)
     then let (p, s) = get_free_page GFP_KERNEL s
          in if p = 0 then (None, s) else (Some p, set_entry d i (add_flags p PAGE_TABLE) s)
     else (Some (page_of (tbl s d i)), s))"

function zeromap_dirs :: "nat \<Rightarrow> u32 \<Rightarrow> nat \<Rightarrow> nat \<Rightarrow> nat \<Rightarrow> nat \<Rightarrow> vm_state \<Rightarrow> int \<times> vm_state" where
  "zeromap_dirs t msk i poff pcnt n s =
    (if n = 0 \<or> pcnt = 0 then (0, s)
     else case range_table (cr3 s t) i s of
         (None, s) \<Rightarrow> (- ENOMEM, s)
       | (Some p, s) \<Rightarrow> let s = foldl (\<lambda>s j. set_entry p j msk (drop_pte t p j s)) s [poff..<poff + pcnt]; n' = n - pcnt
                       in zeromap_dirs t msk (Suc i) 0 (min n' PTRS_PER_PAGE) n' s)"
  by pat_completeness auto
termination by (relation "measure (\<lambda>(t, msk, i, poff, pcnt, n, s). n)") auto

declare zeromap_dirs.simps [simp del]

definition zeromap_page_range :: "u32 \<Rightarrow> u32 \<Rightarrow> u32 \<Rightarrow> vm_state \<Rightarrow> int \<times> vm_state" where
  "zeromap_page_range from sz msk s =
    (if msk \<noteq> 0 \<and> msk AND (PAGE_MASK OR PAGE_PRESENT) \<noteq> PAGE_PRESENT then (- EINVAL, vm_note (Bad_Mask msk) s)
     else if page_bits from \<noteq> 0 then (- EINVAL, vm_note Wrong_Alignment s)
     else let (msk, s) = (if msk \<noteq> 0 then (let (z, s) = ZERO_PAGE s in (add_flags msk z, s)) else (0, s)); n = pages_of sz; poff = pt_index from
          in zeromap_dirs (vm_current s) msk (dir_index from) poff (min (PTRS_PER_PAGE - poff) n) n s)"

definition remap_pte :: "nat \<Rightarrow> u32 \<Rightarrow> u32 \<Rightarrow> nat \<Rightarrow> u32 \<Rightarrow> vm_state \<Rightarrow> vm_state" where
  "remap_pte t msk p j to s =
    (let s = drop_pte t p j s
     in if msk = 0 then set_entry p j 0 s
        else if high_memory s \<le> to then set_entry p j (add_flags to msk) s
        else if mem_map s (MAP_NR to) = 0 then set_entry p j 0 s
        else let s = set_entry p j (add_flags to msk) s
             in if reserved s to then s
                else set_map to (mem_map s (MAP_NR to) + 1) (s\<lparr>rss := (rss s)(t := rss s t + 1)\<rparr>))"

function remap_dirs :: "nat \<Rightarrow> u32 \<Rightarrow> nat \<Rightarrow> nat \<Rightarrow> nat \<Rightarrow> nat \<Rightarrow> u32 \<Rightarrow> vm_state \<Rightarrow> int \<times> vm_state" where
  "remap_dirs t msk i poff pcnt n to s =
    (if n = 0 \<or> pcnt = 0 then (0, s)
     else case range_table (cr3 s t) i s of
         (None, s) \<Rightarrow> (- 1, s)
       | (Some p, s) \<Rightarrow> let s = foldl (\<lambda>s k. remap_pte t msk p (poff + k) (to + 4096 * of_nat k) s) s [0..<pcnt]; n' = n - pcnt
                  in remap_dirs t msk (Suc i) 0 (min n' PTRS_PER_PAGE) n' (to + 4096 * of_nat pcnt) s)"
  by pat_completeness auto
termination by (relation "measure (\<lambda>(t, msk, i, poff, pcnt, n, to, s). n)") auto

declare remap_dirs.simps [simp del]

definition remap_page_range :: "u32 \<Rightarrow> u32 \<Rightarrow> u32 \<Rightarrow> u32 \<Rightarrow> vm_state \<Rightarrow> int \<times> vm_state" where
  "remap_page_range from to sz msk s =
    (if msk \<noteq> 0 \<and> msk AND (PAGE_MASK OR PAGE_PRESENT) \<noteq> PAGE_PRESENT then (- EINVAL, vm_note (Bad_Mask msk) s)
     else if page_bits from \<noteq> 0 \<or> page_bits to \<noteq> 0 then (- EINVAL, vm_note Wrong_Alignment s)
     else let n = pages_of sz; poff = pt_index from
          in remap_dirs (vm_current s) msk (dir_index from) poff (min (PTRS_PER_PAGE - poff) n) n to s)"

section \<open>Single pages\<close>

definition put_page :: "nat \<Rightarrow> u32 \<Rightarrow> u32 \<Rightarrow> u32 \<Rightarrow> vm_state \<Rightarrow> u32 \<times> vm_state" where
  "put_page t page addr prot s =
    (let s = (if prot AND (PAGE_MASK OR PAGE_PRESENT) \<noteq> PAGE_PRESENT then vm_note (Bad_Mask prot) s else s);
         d = cr3 s t; i = dir_index addr
     in if high_memory s \<le> page then (0, vm_note (Bad_Put page) s)
        else if \<not> present (tbl s d i) then (0, set_bad_table d i (oom t (vm_note Bad_Dir s)))
        else let p = page_of (tbl s d i); j = pt_index addr;
                 s = (if tbl s p j \<noteq> 0 then set_entry p j 0 (vm_note Page_Exists s) else s)
             in (page, set_entry p j (add_flags page prot) s))"

definition put_dirty_page :: "nat \<Rightarrow> u32 \<Rightarrow> u32 \<Rightarrow> vm_state \<Rightarrow> u32 \<times> vm_state" where
  "put_dirty_page t page addr s =
    (let s = (if high_memory s \<le> page then vm_note (Bad_Put page) s else s);
         s = (if mem_map s (MAP_NR page) \<noteq> 1 then vm_note (Mem_Map_Disagrees page) s else s);
         (po, s) = range_table (cr3 s t) (dir_index addr) s
     in case po of
          None \<Rightarrow> (0, s)
        | Some p \<Rightarrow> let j = pt_index addr;
                        s = (if tbl s p j \<noteq> 0 then set_entry p j 0 (vm_note Page_Exists s) else s)
                    in (page, set_entry p j (add_flags page (PAGE_DIRTY OR PAGE_PRIVATE)) s))"

text \<open>\<^verbatim>\<open>do_wp_page_slow\<close> is \<^verbatim>\<open>__do_wp_page\<close>.\<close>

definition end_wp_page :: "u32 \<Rightarrow> vm_state \<Rightarrow> vm_state" where
  "end_wp_page new s = (if new \<noteq> 0 then free_page new s else s)"

definition do_wp_page_slow :: "u32 \<Rightarrow> nat \<Rightarrow> vm_state \<Rightarrow> vm_state" where
  "do_wp_page_slow addr t s =
    (let (new, s) = get_free_page_raw GFP_KERNEL s; d = cr3 s t; i = dir_index addr; pde = tbl s d i
     in if \<not> present pde then end_wp_page new s
        else if \<not> is_table pde \<or> high_memory s \<le> pde
        then end_wp_page new (vm_note (Kill t) (set_bad_table d i (vm_note (Bogus_Table pde) s)))
        else let p = page_of pde; j = pt_index addr; old = tbl s p j
             in if \<not> present old then end_wp_page new s
                else if high_memory s \<le> old
                then end_wp_page new (vm_note (Kill t) (set_bad_page p j PAGE_SHARED (vm_note (Bogus_Page old) s)))
                else if writable old then end_wp_page new s
                else let s = s\<lparr>min_flt := (min_flt s)(t := min_flt s t + 1)\<rparr>;
                         prot = add_flags (page_bits old) PAGE_RW;
                         old = page_of old
                     in if mem_map s (MAP_NR old) \<noteq> 1
                        then if new \<noteq> 0
                             then let s = (if reserved s old then s\<lparr>rss := (rss s)(t := rss s t + 1)\<rparr> else s);
                                      s = s\<lparr>frame := (frame s)(new := frame s old)\<rparr>;
                                      s = set_entry p j (add_flags new prot) s
                                  in free_page old s
                             else set_bad_page p j prot (oom t (free_page old s))
                        else end_wp_page new (set_entry p j (add_flags (tbl s p j) PAGE_RW) s))"

text \<open>\<^verbatim>\<open>user_esp\<close> tells whether the fault is one of user mode.\<close>

definition do_wp_page :: "u32 \<Rightarrow> nat \<Rightarrow> bool \<Rightarrow> vm_state \<Rightarrow> vm_state" where
  "do_wp_page addr t user_esp s =
    (let d = cr3 s t; i = dir_index addr; pde = tbl s d i
     in if pde = 0 then s
        else if present pde \<and> pde < high_memory s
        then let p = page_of pde; j = pt_index addr; page = tbl s p j
             in if \<not> present page then s
                else if writable page then s
                else if \<not> cow page \<and> user_esp \<and> t = vm_current s then vm_note (Segv t) s
                else if mem_map s (MAP_NR page) = 1 then set_entry p j (add_flags (tbl s p j) (PAGE_RW OR PAGE_DIRTY)) s
                else do_wp_page_slow addr t s
        else set_entry d i 0 (vm_note (Bogus_Table pde) s))"

definition get_empty_pgtable :: "nat \<Rightarrow> u32 \<Rightarrow> vm_state \<Rightarrow> u32 \<times> vm_state" where
  "get_empty_pgtable t addr s =
    (let d = cr3 s t; i = dir_index addr
     in if present (tbl s d i) then (tbl s d i, s)
        else let s = (if tbl s d i \<noteq> 0 then set_entry d i 0 (vm_note Bad_Dir s) else s);
                 (page, s) = get_free_page GFP_KERNEL s
             in if page \<noteq> 0 then (add_flags page PAGE_TABLE, set_entry d i (add_flags page PAGE_TABLE) s)
                else (0, set_bad_table d i (oom (vm_current s) s)))"

definition get_empty_page :: "nat \<Rightarrow> u32 \<Rightarrow> vm_state \<Rightarrow> vm_state" where
  "get_empty_page t addr s =
    (let (tmp, s) = get_free_page GFP_KERNEL s;
         (tmp, s) = (if tmp = 0 then BAD_PAGE (oom t s) else (tmp, s));
         (r, s) = put_page t tmp addr PAGE_PRIVATE s
     in if r = 0 then free_page tmp s else s)"

fun verify_write_pages :: "nat \<Rightarrow> u32 \<Rightarrow> vm_state \<Rightarrow> vm_state" where
  "verify_write_pages 0 start s = do_wp_page start (vm_current s) False s"
| "verify_write_pages (Suc n) start s = verify_write_pages n (start + 4096) (do_wp_page start (vm_current s) False s)"

definition verify_write :: "u32 \<Rightarrow> u32 \<Rightarrow> vm_state \<Rightarrow> int \<times> vm_state" where
  "verify_write start sz s =
    (0, verify_write_pages (unat (drop_bit 12 (sz - 1 + page_bits start))) (page_of start) s)"

end
