(* ===== verification/Mmap.thy ===== *)
theory Mmap
  imports Page_Tables "HOL-Library.Monad_Syntax"
begin

text \<open>
  Memory maps of a process: \<^verbatim>\<open>mm/mmap.c\<close>.  The list \<^verbatim>\<open>current->mmap\<close> of areas, linked by \<^verbatim>\<open>vm_next\<close>, is a list of records; a loop that follows the links is recursion
  over it.  The page tables are those of \<^verbatim>\<open>Page_Tables\<close>.  \<^verbatim>\<open>i_count\<close> has the references to inodes, which \<^verbatim>\<open>iput\<close> gives back.  The answers of \<^verbatim>\<open>kmalloc\<close> are the list
  \<^verbatim>\<open>km_answers\<close>, \<^verbatim>\<open>False\<close> for \<^verbatim>\<open>NULL\<close>; when it is used up every call gives memory.  \<^verbatim>\<open>None\<close> means that a \<^verbatim>\<open>NULL\<close> pointer is dereferenced or that a loop does not end.
\<close>

section \<open>Data\<close>

datatype vm_ops = file_mmap | nfs_file_mmap

record vm_area =
  vm_start :: u32
  vm_end :: u32
  vm_page_prot :: u16
  vm_share :: "nat option"
  vm_inode :: "nat option"
  vm_offset :: u32
  vm_opsp :: "vm_ops option"

datatype mmap_note = Bad_Fixup vm_area u32 u32 | Insert_In_Area vm_area vm_area

record mm_state =
  vm :: vm_state
  mmap :: "vm_area list"
  i_count :: "nat \<Rightarrow> int"
  km_answers :: "bool list"
  mm_errno :: int
  mm_log :: "mmap_note list"

abbreviation (input) ENOEXEC :: int where "ENOEXEC \<equiv> 8"
abbreviation (input) ENODEV :: int where "ENODEV \<equiv> 19"
abbreviation (input) PAGE_READONLY :: u32 where "PAGE_READONLY \<equiv> 0x025"
abbreviation (input) PAGE_COPY :: u32 where "PAGE_COPY \<equiv> 0x225"
abbreviation (input) SHM_RANGE_START :: u32 where "SHM_RANGE_START \<equiv> 0x40000000"
abbreviation (input) SHM_RANGE_END :: u32 where "SHM_RANGE_END \<equiv> 0x60000000"

definition PAGE_ALIGN :: "u32 \<Rightarrow> u32" where
  "PAGE_ALIGN a = page_of (a + 4096 - 1)"

definition km_area :: "mm_state \<Rightarrow> bool \<times> mm_state" where
  "km_area s = (case km_answers s of [] \<Rightarrow> (True, s) | b # bs \<Rightarrow> (b, s\<lparr>km_answers := bs\<rparr>))"

definition iput :: "nat \<Rightarrow> mm_state \<Rightarrow> mm_state" where
  "iput i s = s\<lparr>i_count := (i_count s)(i := i_count s i - 1)\<rparr>"

definition igrab :: "nat option \<Rightarrow> mm_state \<Rightarrow> mm_state" where
  "igrab io s = (case io of None \<Rightarrow> s | Some i \<Rightarrow> s\<lparr>i_count := (i_count s)(i := i_count s i + 1)\<rparr>)"

definition unmap_range :: "u32 \<Rightarrow> u32 \<Rightarrow> mm_state \<Rightarrow> mm_state" where
  "unmap_range addr len s = s\<lparr>vm := snd (unmap_page_range addr len (vm s))\<rparr>"

section \<open>The list of areas\<close>

fun insert_area :: "vm_area \<Rightarrow> vm_area list \<Rightarrow> mmap_note list \<times> vm_area list" where
  "insert_area v [] = ([], [v])"
| "insert_area v (m # ms) =
    (if vm_start v < vm_start m then ([], v # m # ms)
     else let (ns, ms') = insert_area v ms
          in ((if vm_start m \<le> vm_start v \<and> vm_start v < vm_end m \<or> vm_start m \<le> vm_end v \<and> vm_end v < vm_end m
               then [Insert_In_Area v m] else []) @ ns, m # ms'))"

definition insert_vm_struct :: "vm_area \<Rightarrow> mm_state \<Rightarrow> mm_state" where
  "insert_vm_struct v s = (let (ns, ms) = insert_area v (mmap s) in s\<lparr>mmap := ms, mm_log := mm_log s @ ns\<rparr>)"

definition ignoff_mergep :: "vm_area \<Rightarrow> vm_area \<Rightarrow> nat option \<Rightarrow> bool" where
  "ignoff_mergep m1 m2 data = (if vm_inode m1 \<noteq> vm_inode m2 then False else data = vm_inode m1)"

definition offsets_meet :: "vm_area \<Rightarrow> vm_area \<Rightarrow> bool" where
  "offsets_meet prev m \<longleftrightarrow> vm_offset prev + (vm_end prev - vm_start prev) = vm_offset m"

definition mergeable :: "(vm_area \<Rightarrow> vm_area \<Rightarrow> bool) option \<Rightarrow> vm_area \<Rightarrow> vm_area \<Rightarrow> bool" where
  "mergeable mergep prev m \<longleftrightarrow> vm_opsp prev = vm_opsp m \<and> vm_page_prot prev = vm_page_prot m \<and> vm_inode prev = vm_inode m \<and> vm_end prev = vm_start m
     \<and> (case mergep of None \<Rightarrow> offsets_meet prev m | Some f \<Rightarrow> f prev m) \<and> vm_share prev = vm_share m"

fun merge_loop :: "(vm_area \<Rightarrow> vm_area \<Rightarrow> bool) option \<Rightarrow> vm_area \<Rightarrow> vm_area list \<Rightarrow> vm_area list" where
  "merge_loop mergep prev [] = [prev]"
| "merge_loop mergep prev (m # ms) =
    (if mergeable mergep prev m then merge_loop mergep (prev\<lparr>vm_end := vm_end m\<rparr>) ms else prev # merge_loop mergep m ms)"

definition merge_segments :: "(vm_area \<Rightarrow> vm_area \<Rightarrow> bool) option \<Rightarrow> mm_state \<Rightarrow> mm_state" where
  "merge_segments mergep s = (case mmap s of [] \<Rightarrow> s | m # ms \<Rightarrow> s\<lparr>mmap := merge_loop mergep m ms\<rparr>)"

section \<open>Unmapping\<close>

text \<open>\<^verbatim>\<open>file_mmap_free\<close> closes an area of either kind.\<close>

definition file_mmap_free :: "vm_area \<Rightarrow> mm_state \<Rightarrow> mm_state" where
  "file_mmap_free area s = (case vm_inode area of None \<Rightarrow> s | Some i \<Rightarrow> iput i s)"

definition unmap_fixup :: "vm_area \<Rightarrow> u32 \<Rightarrow> u32 \<Rightarrow> mm_state \<Rightarrow> mm_state option" where
  "unmap_fixup area addr len s =
    (let end = addr + len
     in if addr < vm_start area \<or> vm_end area \<le> addr \<or> end \<le> vm_start area \<or> vm_end area < end \<or> end < addr
        then Some (s\<lparr>mm_log := mm_log s @ [Bad_Fixup area addr end]\<rparr>)
        else if addr = vm_start area \<and> end = vm_end area
        then Some (if vm_opsp area \<noteq> None then file_mmap_free area s else s)
        else let area = (if vm_start area \<le> addr \<and> end = vm_end area then area\<lparr>vm_end := addr\<rparr> else area);
                 area = (if addr = vm_start area \<and> end \<le> vm_end area
                         then area\<lparr>vm_offset := vm_offset area + (end - vm_start area), vm_start := end\<rparr> else area)
             in do {
               (area, s) \<leftarrow> (if vm_start area < addr \<and> end < vm_end area
                 then let (got, s) = km_area s
                      in if \<not> got then None
                         else let m = area\<lparr>vm_offset := vm_offset area + (end - vm_start area), vm_start := end\<rparr>
                              in Some (area\<lparr>vm_end := addr\<rparr>, insert_vm_struct m (igrab (vm_inode m) s))
                 else Some (area, s));
               let (got, s) = km_area s;
               if got then Some (insert_vm_struct area s) else None })"

definition untouched :: "u32 \<Rightarrow> u32 \<Rightarrow> vm_area \<Rightarrow> bool" where
  "untouched addr end m \<longleftrightarrow> addr < vm_start m \<and> end \<le> vm_start m \<or> vm_end m \<le> addr \<and> vm_end m < end"

fun unmap_areas :: "u32 \<Rightarrow> u32 \<Rightarrow> vm_area list \<Rightarrow> mm_state \<Rightarrow> mm_state option" where
  "unmap_areas addr len [] s = Some s"
| "unmap_areas addr len (m # ms) s =
    (let st = (if addr < vm_start m then vm_start m else addr); end = addr + len; end = (if vm_end m < end then vm_end m else end)
     in do { s \<leftarrow> unmap_fixup m st (end - st) s; unmap_areas addr len ms s })"

definition do_munmap :: "u32 \<Rightarrow> u32 \<Rightarrow> mm_state \<Rightarrow> (int \<times> mm_state) option" where
  "do_munmap addr len s =
    (if page_bits addr \<noteq> 0 \<or> TASK_SIZE < addr \<or> TASK_SIZE - addr < len then Some (- EINVAL, s)
     else let len = PAGE_ALIGN len
          in if len = 0 then Some (0, s)
             else let hit = rev (filter (\<lambda>m. \<not> untouched addr (addr + len) m) (mmap s));
                      s = s\<lparr>mmap := filter (untouched addr (addr + len)) (mmap s)\<rparr>
                  in if hit = [] then Some (0, s)
                     else do { s \<leftarrow> unmap_areas addr len hit s; Some (0, unmap_range addr len s) })"

definition sys_munmap :: "u32 \<Rightarrow> u32 \<Rightarrow> mm_state \<Rightarrow> (int \<times> mm_state) option" where
  "sys_munmap addr len s = do_munmap addr len s"

definition sys_mprotect :: "u32 \<Rightarrow> u32 \<Rightarrow> u32 \<Rightarrow> mm_state \<Rightarrow> int \<times> mm_state" where
  "sys_mprotect addr len prot s = (- EINVAL, s)"

section \<open>Mapping\<close>

definition anon_map :: "u32 \<Rightarrow> u32 \<Rightarrow> u32 \<Rightarrow> mm_state \<Rightarrow> int \<times> mm_state" where
  "anon_map addr len msk s =
    (let (r, v) = zeromap_page_range addr len msk (vm s); s = s\<lparr>vm := v\<rparr>
     in if r \<noteq> 0 then (- ENOMEM, s)
        else let (got, s) = km_area s
             in if \<not> got then (- ENOMEM, s)
                else let m = \<lparr>vm_start = addr, vm_end = addr + len, vm_page_prot = ucast msk, vm_share = None, vm_inode = None, vm_offset = 0, vm_opsp = None\<rparr>
                     in (0, merge_segments (Some (\<lambda>m1 m2. ignoff_mergep m1 m2 None)) (insert_vm_struct m s)))"

text \<open>What \<^verbatim>\<open>generic_mmap\<close> reads of the inode; \<^verbatim>\<open>first_block\<close> tells whether \<^verbatim>\<open>bread\<close> of its first block succeeds.\<close>

record map_inode =
  ino_has_sb :: bool
  s_blocksize :: u32
  ino_regular :: bool
  ino_bmap :: bool
  first_block :: bool

definition generic_mmap :: "nat \<Rightarrow> map_inode \<Rightarrow> u32 \<Rightarrow> u32 \<Rightarrow> u32 \<Rightarrow> u32 \<Rightarrow> mm_state \<Rightarrow> (int \<times> mm_state) option" where
  "generic_mmap i ino addr len prot off s =
    (if writable prot then Some (- EINVAL, s)
     else if \<not> ino_has_sb ino then None
     else if off AND (s_blocksize ino - 1) \<noteq> 0 then Some (- EINVAL, s)
     else if \<not> ino_regular ino then Some (- EACCES, s)
     else if \<not> ino_bmap ino then Some (- ENOEXEC, s)
     else if \<not> first_block ino then Some (- EACCES, s)
     else let (got, s) = km_area s
          in if \<not> got then Some (- ENOMEM, s)
             else let s = unmap_range addr len s;
                      m = \<lparr>vm_start = addr, vm_end = addr + len, vm_page_prot = ucast prot, vm_share = None, vm_inode = Some i, vm_offset = off, vm_opsp = Some file_mmap\<rparr>
                  in Some (0, merge_segments None (insert_vm_struct m (igrab (Some i) s))))"

text \<open>The search of \<^verbatim>\<open>do_mmap\<close> for room.\<close>

fun first_clash :: "u32 \<Rightarrow> u32 \<Rightarrow> vm_area list \<Rightarrow> vm_area option" where
  "first_clash addr len [] = None"
| "first_clash addr len (m # ms) = (if vm_end m \<le> addr then first_clash addr len ms else if addr + len \<le> vm_start m then first_clash addr len ms else Some m)"

partial_function (option) find_room :: "u32 \<Rightarrow> vm_area list \<Rightarrow> u32 \<Rightarrow> u32 option" where
  "find_room len ms addr =
    (if addr + len < SHM_RANGE_END
     then case first_clash addr len ms of None \<Rightarrow> Some addr | Some m \<Rightarrow> find_room len ms (PAGE_ALIGN (vm_end m))
     else Some addr)"

text \<open>A file as \<^verbatim>\<open>do_mmap\<close> sees it: its mode and the \<^verbatim>\<open>mmap\<close> operation, if it has one.\<close>

record map_file =
  mf_mode :: u16
  mf_mmap :: "(u32 \<Rightarrow> u32 \<Rightarrow> u32 \<Rightarrow> u32 \<Rightarrow> mm_state \<Rightarrow> (int \<times> mm_state) option) option"

definition map_error :: "int \<Rightarrow> u32" where
  "map_error e = word_of_int (- e)"

definition check_file :: "map_file option \<Rightarrow> u32 \<Rightarrow> u32 \<Rightarrow> u32 option" where
  "check_file file prot flags =
    (case file of
       None \<Rightarrow> None
     | Some f \<Rightarrow>
         if flags AND 0xf = 1
         then if prot AND 2 \<noteq> 0 \<and> mf_mode f AND 2 = 0 then Some (map_error EACCES) else if mf_mode f AND 1 = 0 then Some (map_error EACCES) else None
         else if flags AND 0xf = 2 then if mf_mode f AND 1 = 0 then Some (map_error EACCES) else None
         else Some (map_error EINVAL))"

definition prot_mask :: "u32 \<Rightarrow> u32 \<Rightarrow> u32" where
  "prot_mask prot flags =
    (let m = (if prot AND 5 \<noteq> 0 then PAGE_READONLY else 0)
     in if prot AND 2 \<noteq> 0 then m OR (if flags AND 0xf = 2 then PAGE_COPY else PAGE_SHARED) else m)"

definition do_mmap :: "map_file option \<Rightarrow> u32 \<Rightarrow> u32 \<Rightarrow> u32 \<Rightarrow> u32 \<Rightarrow> u32 \<Rightarrow> mm_state \<Rightarrow> (u32 \<times> mm_state) option" where
  "do_mmap file addr len prot flags off s =
    (let len = PAGE_ALIGN len
     in if len = 0 then Some (addr, s)
        else if TASK_SIZE < addr \<or> TASK_SIZE < len \<or> TASK_SIZE - len < addr then Some (map_error EINVAL, s)
        else case check_file file prot flags of
          Some e \<Rightarrow> Some (e, s)
        | None \<Rightarrow> do {
            place \<leftarrow> (if flags AND 0x10 \<noteq> 0
                     then Some (if page_bits addr \<noteq> 0 \<or> TASK_SIZE < len \<or> TASK_SIZE - len < addr then Inl (map_error EINVAL) else Inr addr)
                     else do { addr \<leftarrow> find_room len (mmap s) SHM_RANGE_START;
                               Some (if SHM_RANGE_END \<le> addr + len then Inl (map_error ENOMEM) else Inr addr) });
            case place of
              Inl e \<Rightarrow> Some (e, s)
            | Inr addr \<Rightarrow>
                if (case file of None \<Rightarrow> False | Some f \<Rightarrow> mf_mmap f = None) then Some (map_error ENODEV, s)
                else let msk = prot_mask prot flags
                     in if msk = 0 then Some (map_error EINVAL, s)
                        else do {
                          (_, s) \<leftarrow> do_munmap addr len s;
                          (error, s) \<leftarrow> (case file of None \<Rightarrow> Some (anon_map addr len msk s) | Some f \<Rightarrow> the (mf_mmap f) addr len msk off s);
                          if error = 0 then Some (addr, s)
                          else Some (map_error 1, if mm_errno s = 0 then s\<lparr>mm_errno := - error\<rparr> else s) } })"

text \<open>The arguments of \<^verbatim>\<open>sys_mmap\<close> are six words at \<^verbatim>\<open>buffer\<close> in the memory \<^verbatim>\<open>mem\<close> of the caller; \<^verbatim>\<open>filp\<close> has its open files.\<close>

definition sys_mmap :: "umem \<Rightarrow> (nat \<Rightarrow> map_file option) \<Rightarrow> u32 \<Rightarrow> mm_state \<Rightarrow> (u32 \<times> mm_state) option" where
  "sys_mmap mem filp buffer s =
    (let error = verify_area VERIFY_READ buffer (6 * 4); arg = (\<lambda>k. get_fs_long mem (buffer + 4 * k)); flags = arg 3
     in if error \<noteq> 0 then Some (word_of_int error, s)
        else if flags AND 0x20 = 0
        then let fd = arg 4
             in if 256 \<le> fd \<or> filp (unat fd) = None then Some (map_error EBADF, s)
                else do_mmap (filp (unat fd)) (arg 0) (arg 1) (arg 2) flags (arg 5) s
        else do_mmap None (arg 0) (arg 1) (arg 2) flags (arg 5) s)"

end
