(* ===== verification/Page_Laws.thy ===== *)
theory Page_Laws
  imports Page_Tables
begin

text \<open>
  What the page tables promise.  \<^verbatim>\<open>mm_ok s P Q\<close> is the invariant of the physical pages: \<^verbatim>\<open>P\<close> are the pages used as page tables and \<^verbatim>\<open>Q\<close> those used as page
  directories, each with one user; a page of data has at least as many users counted in \<^verbatim>\<open>mem_map\<close> as page table entries that map it; an entry
  that may be written is the only one for its page and is marked copy-on-write; and the pages on the free lists have no user.
\<close>

section \<open>Addresses and entries\<close>

abbreviation aligned :: "u32 \<Rightarrow> bool" where "aligned a \<equiv> page_bits a = 0"

lemma entry_bits: "present e \<longleftrightarrow> bit e 0" "writable e \<longleftrightarrow> bit e 1" "cow e \<longleftrightarrow> bit e 9"
  using and_exp_eq_0_iff_not_bit [of e 0] and_exp_eq_0_iff_not_bit [of e 1] and_exp_eq_0_iff_not_bit [of e 9]
  by (simp_all add: present_def writable_def cow_def)

lemma PAGE_MASK_eq: "(PAGE_MASK :: u32) = NOT (mask 12)"
  by (simp add: mask_eq_exp_minus_1)

lemma page_of_bits: "page_of e = push_bit 12 (drop_bit 12 e)"
  unfolding page_of_def PAGE_MASK_eq by (rule bit_word_eqI) (auto simp: bit_simps)

lemma page_bits_bits: "page_bits e = take_bit 12 e"
  unfolding page_bits_def PAGE_MASK_eq by (simp add: take_bit_eq_mask)

lemma aligned_iff: "aligned a \<longleftrightarrow> page_of a = a"
proof -
  have "page_of a + page_bits a = a" unfolding page_of_bits page_bits_bits by (rule bits_ident)
  then show ?thesis by (metis add.right_neutral add_left_cancel)
qed

lemma drop_push: "drop_bit 12 (push_bit 12 (drop_bit 12 e)) = drop_bit 12 e" for e :: u32
  by (rule bit_word_eqI) (auto simp: bit_simps dest: bit_imp_le_length)

lemma MAP_NR_page_of [simp]: "MAP_NR (page_of e) = MAP_NR e"
  by (simp only: MAP_NR_def page_of_bits drop_push)

lemma page_of_eq_iff: "page_of a = page_of b \<longleftrightarrow> MAP_NR a = MAP_NR b"
  unfolding MAP_NR_def page_of_bits by (metis drop_push word_eq_iff_unsigned)

lemma page_of_page_of [simp]: "page_of (page_of e) = page_of e"
  by (simp add: page_of_eq_iff)

lemma aligned_page_of [simp]: "aligned (page_of e)"
  unfolding aligned_iff by simp

lemma aligned_eq_iff: "aligned a \<Longrightarrow> aligned b \<Longrightarrow> MAP_NR a = MAP_NR b \<longleftrightarrow> a = b"
  using page_of_eq_iff [of a b] by (simp add: aligned_iff)

lemma MAP_NR_div: "MAP_NR a = unat a div 4096"
  unfolding MAP_NR_def unat_drop_bit_eq by (simp add: drop_bit_eq_div)

lemma unat_aligned: "aligned h \<Longrightarrow> unat h = 4096 * MAP_NR h"
proof -
  assume "aligned h"
  then have "unat (take_bit 12 h) = 0" by (simp add: page_bits_bits)
  then have "unat h mod 4096 = 0" unfolding unsigned_take_bit_eq by (simp add: take_bit_eq_mod)
  then show ?thesis unfolding MAP_NR_div by auto
qed

lemma less_high: "aligned h \<Longrightarrow> a < h \<longleftrightarrow> MAP_NR a < MAP_NR h"
  using unat_aligned [of h] unfolding MAP_NR_div [of a] by (simp add: word_less_nat_alt) linarith

text \<open>The flags of an entry do not change its page.\<close>

definition small :: "u32 \<Rightarrow> bool" where
  "small f \<longleftrightarrow> drop_bit 12 f = 0"

lemma MAP_NR_add_flags [simp]: "small f \<Longrightarrow> MAP_NR (add_flags e f) = MAP_NR e"
  by (simp add: MAP_NR_def add_flags_def drop_bit_or small_def)

lemma small_flags [simp]: "small 2" "small 0x40" "small 0x27" "small 0x227" "small 0x42" "small 0x267"
  by (simp_all add: small_def)

lemma small_page_bits [simp]: "small (page_bits e)"
  unfolding small_def page_bits_bits by (rule bit_word_eqI) (auto simp: bit_simps)

lemma small_add_flags [simp]: "small e \<Longrightarrow> small f \<Longrightarrow> small (add_flags e f)"
  by (simp add: small_def add_flags_def drop_bit_or)

lemma MAP_NR_protect [simp]: "MAP_NR (protect e) = MAP_NR e"
proof -
  have m: "drop_bit 12 (NOT 2 :: u32) = mask 20" by (simp add: mask_eq_exp_minus_1)
  have "drop_bit 12 (e AND NOT 2) = drop_bit 12 e"
    unfolding drop_bit_and m by (rule bit_word_eqI) (auto simp: bit_simps dest: bit_imp_le_length)
  then show ?thesis by (simp add: MAP_NR_def protect_def)
qed


section \<open>The invariant\<close>

definition own_page :: "vm_state \<Rightarrow> u32 \<Rightarrow> bool" where
  "own_page s a \<longleftrightarrow> aligned a \<and> a \<noteq> 0 \<and> a < high_memory s \<and> mem_map s (MAP_NR a) = 1"

definition sites :: "vm_state \<Rightarrow> u32 set \<Rightarrow> nat \<Rightarrow> (u32 \<times> nat) set" where
  "sites s P n = {(p, j). p \<in> P \<and> j < 1024 \<and> present (tbl s p j) \<and> MAP_NR (tbl s p j) = n}"

definition pte_ok :: "vm_state \<Rightarrow> u32 set \<Rightarrow> u32 \<Rightarrow> bool" where
  "pte_ok s R e \<longleftrightarrow> (present e \<longrightarrow> e < high_memory s \<and> MAP_NR e \<notin> MAP_NR ` R \<and> (writable e \<longrightarrow> cow e \<and> mem_map s (MAP_NR e) = 1))"

definition free_ok :: "vm_state \<Rightarrow> bool" where
  "free_ok s \<longleftrightarrow> distinct (free_page_list s @ secondary_page_list s)
     \<and> (\<forall>a\<in>set (free_page_list s @ secondary_page_list s). aligned a \<and> a \<noteq> 0 \<and> a < high_memory s \<and> mem_map s (MAP_NR a) = 0)"

definition mm_ok :: "vm_state \<Rightarrow> u32 set \<Rightarrow> u32 set \<Rightarrow> bool" where
  "mm_ok s P Q \<longleftrightarrow> finite P \<and> finite Q \<and> P \<inter> Q = {} \<and> (\<forall>a\<in>P \<union> Q. own_page s a) \<and> (\<forall>p\<in>P. \<forall>j<1024. pte_ok s (P \<union> Q) (tbl s p j))
     \<and> (\<forall>n. mem_map s n < MAP_PAGE_RESERVED \<longrightarrow> card (sites s P n) \<le> unat (mem_map s n)) \<and> free_ok s \<and> aligned (high_memory s) \<and> \<not> mem_map s 0 < MAP_PAGE_RESERVED"

lemma mm_okD:
  assumes "mm_ok s P Q"
  shows "finite P" "finite Q" "P \<inter> Q = {}" "a \<in> P \<union> Q \<Longrightarrow> own_page s a" "p \<in> P \<Longrightarrow> j < 1024 \<Longrightarrow> pte_ok s (P \<union> Q) (tbl s p j)"
    "mem_map s n < MAP_PAGE_RESERVED \<Longrightarrow> card (sites s P n) \<le> unat (mem_map s n)" "free_ok s" "aligned (high_memory s)"
    "\<not> mem_map s 0 < MAP_PAGE_RESERVED"
  using assms unfolding mm_ok_def by blast+

lemma finite_sites: "finite P \<Longrightarrow> finite (sites s P n)"
  by (rule finite_subset [of _ "P \<times> {..<1024}"]) (auto simp: sites_def)

lemma reserved_iff: "reserved s a \<longleftrightarrow> \<not> mem_map s (MAP_NR a) < MAP_PAGE_RESERVED"
proof -
  have "c AND 0x8000 = 0 \<longleftrightarrow> c < 0x8000" for c :: u16
  proof -
    have "c AND 0x8000 = 0 \<longleftrightarrow> \<not> bit c 15" using and_exp_eq_0_iff_not_bit [of c 15] by simp
    also have "\<dots> \<longleftrightarrow> take_bit 15 c = c"
    proof
      assume "\<not> bit c 15"
      then have "bit (take_bit 15 c) n = bit c n" if "n < 16" for n using that by (cases "n = 15") (auto simp: bit_simps)
      then show "take_bit 15 c = c" by (intro bit_word_eqI) simp
    qed (metis bit_take_bit_iff less_irrefl)
    also have "\<dots> \<longleftrightarrow> unat c mod 2 ^ 15 = unat c"
      using word_unat_eq_iff [of "take_bit 15 c" c] unfolding unsigned_take_bit_eq by (simp only: take_bit_eq_mod)
    also have "\<dots> \<longleftrightarrow> unat c < 2 ^ 15" by (metis mod_less mod_less_divisor zero_less_numeral zero_less_power)
    finally show ?thesis by (simp add: word_less_nat_alt)
  qed
  then show ?thesis by (simp add: reserved_def)
qed

text \<open>What the invariant reads of a state.\<close>

definition core :: "vm_state \<Rightarrow> (u32 \<Rightarrow> nat \<Rightarrow> u32) \<times> (nat \<Rightarrow> u16) \<times> u32 \<times> u32 list \<times> u32 list" where
  "core s = (tbl s, mem_map s, high_memory s, free_page_list s, secondary_page_list s)"

lemma mm_ok_core: "core s' = core s \<Longrightarrow> mm_ok s' P Q = mm_ok s P Q"
  unfolding core_def mm_ok_def own_page_def pte_ok_def sites_def free_ok_def by simp

lemma core_simps [simp]: "core (vm_note n s) = core s" "core (swap_free e s) = core s" "core (s\<lparr>rss := r\<rparr>) = core s" "core (s\<lparr>cr3 := c\<rparr>) = core s"
  "core (s\<lparr>frame := f\<rparr>) = core s" "core (s\<lparr>min_flt := m\<rparr>) = core s" "core (snd (swap_duplicate e s)) = core s" "core (oom t s) = core s"
  by (simp_all add: core_def vm_note_def swap_free_def swap_duplicate_def oom_def Let_def)

lemma free_page_simps [simp]: "tbl (free_page a s) = tbl s" "frame (free_page a s) = frame s" "high_memory (free_page a s) = high_memory s"
  "cr3 (free_page a s) = cr3 s" "vm_current (free_page a s) = vm_current s" "swapper_pg_dir (free_page a s) = swapper_pg_dir s"
  by (simp_all add: free_page_def Let_def set_map_def vm_note_def)

lemma free_page_core:
  assumes "a < high_memory s" "mem_map s (MAP_NR a) \<noteq> 0" "mem_map s (MAP_NR a) < MAP_PAGE_RESERVED"
  shows "mem_map (free_page a s) = (mem_map s)(MAP_NR a := mem_map s (MAP_NR a) - 1)"
    "set (free_page_list (free_page a s) @ secondary_page_list (free_page a s)) =
       (if mem_map s (MAP_NR a) = 1 then insert (page_of a) else id) (set (free_page_list s @ secondary_page_list s))"
    "mem_map s (MAP_NR a) = 1 \<longrightarrow> page_of a \<notin> set (free_page_list s @ secondary_page_list s) \<Longrightarrow>
       distinct (free_page_list s @ secondary_page_list s) \<Longrightarrow> distinct (free_page_list (free_page a s) @ secondary_page_list (free_page a s))"
proof -
  have r: "mem_map s (MAP_NR a) AND MAP_PAGE_RESERVED = 0" using assms(3) reserved_iff [of s a] by (simp add: reserved_def)
  have one: "mem_map s (MAP_NR a) - 1 = 0 \<longleftrightarrow> mem_map s (MAP_NR a) = 1" by simp
  show "mem_map (free_page a s) = (mem_map s)(MAP_NR a := mem_map s (MAP_NR a) - 1)"
    "set (free_page_list (free_page a s) @ secondary_page_list (free_page a s)) =
       (if mem_map s (MAP_NR a) = 1 then insert (page_of a) else id) (set (free_page_list s @ secondary_page_list s))"
    using assms(1,2) r by (auto simp: free_page_def Let_def set_map_def)
  show "mem_map s (MAP_NR a) = 1 \<longrightarrow> page_of a \<notin> set (free_page_list s @ secondary_page_list s) \<Longrightarrow>
       distinct (free_page_list s @ secondary_page_list s) \<Longrightarrow> distinct (free_page_list (free_page a s) @ secondary_page_list (free_page a s))"
    using assms(1,2) r by (auto simp: free_page_def Let_def set_map_def)
qed

lemma free_page_reserved: "\<not> mem_map s (MAP_NR a) < MAP_PAGE_RESERVED \<Longrightarrow> free_page a s = s"
  using reserved_iff [of s a] by (auto simp: free_page_def reserved_def Let_def)

text \<open>Giving up one user of a page keeps the free lists sound.\<close>

lemma free_ok_free_page:
  assumes "free_ok s" "a < high_memory s" "mem_map s (MAP_NR a) \<noteq> 0" "page_of a \<noteq> 0" "mem_map s (MAP_NR a) < MAP_PAGE_RESERVED" "page_of a < high_memory s"
  shows "free_ok (free_page a s)"
proof -
  note c = free_page_core [OF assms(2,3,5)]
  have nin: "b \<in> set (free_page_list s @ secondary_page_list s) \<Longrightarrow> MAP_NR b \<noteq> MAP_NR a" for b
    using assms(1,3) unfolding free_ok_def by metis
  then have "mem_map s (MAP_NR a) = 1 \<longrightarrow> page_of a \<notin> set (free_page_list s @ secondary_page_list s)" by (metis MAP_NR_page_of)
  moreover have "distinct (free_page_list s @ secondary_page_list s)" using assms(1) unfolding free_ok_def by blast
  ultimately have "distinct (free_page_list (free_page a s) @ secondary_page_list (free_page a s))" by (rule c(3))
  moreover have "aligned b \<and> b \<noteq> 0 \<and> b < high_memory s \<and> mem_map (free_page a s) (MAP_NR b) = 0"
    if "b \<in> set (free_page_list (free_page a s) @ secondary_page_list (free_page a s))" for b
  proof (cases "b \<in> set (free_page_list s @ secondary_page_list s)")
    case True
    then show ?thesis using assms(1) nin [OF True] unfolding free_ok_def c(1) by simp
  next
    case False
    then have "b = page_of a" "mem_map s (MAP_NR a) = 1" using that unfolding c(2) by (auto split: if_splits)
    then show ?thesis using assms(4,6) unfolding c(1) by simp
  qed
  ultimately show ?thesis unfolding free_ok_def by simp
qed


section \<open>Entries change\<close>

lemma set_entry_simps [simp]: "tbl (set_entry p j v s) = (tbl s)(p := (tbl s p)(j := v))" "mem_map (set_entry p j v s) = mem_map s"
  "high_memory (set_entry p j v s) = high_memory s" "free_page_list (set_entry p j v s) = free_page_list s"
  "secondary_page_list (set_entry p j v s) = secondary_page_list s" "frame (set_entry p j v s) = frame s" "cr3 (set_entry p j v s) = cr3 s"
  "vm_current (set_entry p j v s) = vm_current s" "swapper_pg_dir (set_entry p j v s) = swapper_pg_dir s"
  by (simp_all add: set_entry_def)

lemma own_set_entry [simp]: "own_page (set_entry p j v s) = own_page s" "free_ok (set_entry p j v s) = free_ok s" "pte_ok (set_entry p j v s) = pte_ok s"
  "reserved (set_entry p j v s) = reserved s"
  by (simp_all add: own_page_def free_ok_def pte_ok_def reserved_def fun_eq_iff)

lemma sites_set_entry:
  "p \<in> P \<Longrightarrow> j < 1024 \<Longrightarrow>
   sites (set_entry p j v s) P n = (if present v \<and> MAP_NR v = n then insert (p, j) (sites s P n) else sites s P n - {(p, j)})"
  by (auto simp: sites_def split: if_splits)

lemma present_0 [simp]: "\<not> present 0"
  by (simp add: present_def)

text \<open>An entry goes, or is replaced by one for the same page or for a page nobody else maps.\<close>

lemma mm_ok_clear:
  assumes "mm_ok s P Q" "p \<in> P" "j < 1024" "\<not> present v"
  shows "mm_ok (set_entry p j v s) P Q"
proof -
  note d = mm_okD [OF assms(1)]
  have "card (sites (set_entry p j v s) P n) \<le> card (sites s P n)" for n
    using assms(4) card_Diff1_le [of "sites s P n" "(p, j)"] by (simp add: sites_set_entry [OF assms(2,3)])
  then have "mem_map s n < MAP_PAGE_RESERVED \<Longrightarrow> card (sites (set_entry p j v s) P n) \<le> unat (mem_map s n)" for n
    using d(6) [of n] le_trans by blast
  then show ?thesis using d assms(4) by (auto simp: mm_ok_def pte_ok_def)
qed

lemma mm_ok_set:
  assumes "mm_ok s P Q" "p \<in> P" "j < 1024" "pte_ok s (P \<union> Q) v" "present v"
    and "mem_map s (MAP_NR v) < MAP_PAGE_RESERVED \<Longrightarrow> card (insert (p, j) (sites s P (MAP_NR v))) \<le> unat (mem_map s (MAP_NR v))"
  shows "mm_ok (set_entry p j v s) P Q"
proof -
  note d = mm_okD [OF assms(1)]
  have "mem_map s n < MAP_PAGE_RESERVED \<Longrightarrow> card (sites (set_entry p j v s) P n) \<le> unat (mem_map s n)" for n
    using d(6) [of n] assms(5,6) card_Diff1_le [of "sites s P n" "(p, j)"] by (auto simp: sites_set_entry [OF assms(2,3)])
  then show ?thesis using d assms(4) by (auto simp: mm_ok_def)
qed

lemma mm_ok_dir: "mm_ok s P Q \<Longrightarrow> q \<in> Q \<Longrightarrow> mm_ok (set_entry q i v s) P Q"
proof -
  assume ok: "mm_ok s P Q" and q: "q \<in> Q"
  have "tbl (set_entry q i v s) p = tbl s p" if "p \<in> P" for p using that q mm_okD(3) [OF ok] by auto
  moreover from this have "sites (set_entry q i v s) P n = sites s P n" for n unfolding sites_def by auto
  ultimately show ?thesis using ok by (auto simp: mm_ok_def)
qed

text \<open>One user of a page goes, when there are more users than entries that map it.\<close>

lemma mm_ok_release:
  assumes "mm_ok s P Q" "a < high_memory s" "MAP_NR a \<notin> MAP_NR ` (P \<union> Q)"
    and "mem_map s (MAP_NR a) < MAP_PAGE_RESERVED \<Longrightarrow> card (sites s P (MAP_NR a)) < unat (mem_map s (MAP_NR a))"
    and "\<And>p j. (p, j) \<in> sites s P (MAP_NR a) \<Longrightarrow> \<not> writable (tbl s p j)"
  shows "mm_ok (free_page a s) P Q"
proof (cases "mem_map s (MAP_NR a) < MAP_PAGE_RESERVED")
  case True
  note d = mm_okD [OF assms(1)]
  have nz: "mem_map s (MAP_NR a) \<noteq> 0" using assms(4) [OF True] by auto
  note c = free_page_core [OF assms(2) nz True]
  have "MAP_NR a \<noteq> 0" using True d(9) by metis
  then have a0: "page_of a \<noteq> 0" by (metis MAP_NR_div MAP_NR_page_of div_0 unat_0)
  have pg: "page_of a < high_memory s" using assms(2) less_high [OF d(8)] by simp
  have "sites (free_page a s) P n = sites s P n" for n by (simp add: sites_def)
  moreover have "card (sites s P n) \<le> unat (mem_map (free_page a s) n)" if "mem_map (free_page a s) n < MAP_PAGE_RESERVED" for n
  proof (cases "n = MAP_NR a")
    case True
    have "unat (mem_map s (MAP_NR a) - 1) = unat (mem_map s (MAP_NR a)) - 1" using nz by (simp add: unat_minus_one)
    then show ?thesis using True assms(4) \<open>mem_map s (MAP_NR a) < MAP_PAGE_RESERVED\<close> unfolding c(1) by simp
  qed (use that d(6) [of n] in \<open>simp add: c(1)\<close>)
  moreover have "own_page (free_page a s) b" if "b \<in> P \<union> Q" for b
    using d(4) [OF that] imageI [OF that, of MAP_NR] assms(3) by (auto simp: own_page_def c(1) simp del: image_Un)
  moreover have "pte_ok (free_page a s) (P \<union> Q) (tbl s p j)" if "p \<in> P" "j < 1024" for p j
    using d(5) [OF that] assms(5) [of p j] that by (auto simp: pte_ok_def c(1) sites_def)
  moreover have "free_ok (free_page a s)" by (rule free_ok_free_page) (use d(7) assms(2) a0 nz True pg in auto)
  moreover have "\<not> mem_map (free_page a s) 0 < MAP_PAGE_RESERVED" using d(9) \<open>MAP_NR a \<noteq> 0\<close> unfolding c(1) by simp
  ultimately show ?thesis using d by (auto simp: mm_ok_def)
qed (simp add: assms(1) free_page_reserved)

text \<open>An entry is cleared and its page released.\<close>

lemma mm_ok_drop:
  assumes "mm_ok s P Q" "p \<in> P" "j < 1024" "present (tbl s p j)"
  shows "mm_ok (free_page (page_of (tbl s p j)) (set_entry p j 0 s)) P Q"
proof -
  note d = mm_okD [OF assms(1)]
  let ?e = "tbl s p j" and ?t = "set_entry p j 0 s"
  have e: "?e < high_memory s" "MAP_NR ?e \<notin> MAP_NR ` (P \<union> Q)" using d(5) [OF assms(2,3)] assms(4) by (auto simp: pte_ok_def)
  have site: "(p, j) \<in> sites s P (MAP_NR ?e)" using assms(2-4) by (simp add: sites_def)
  have "sites ?t P (MAP_NR ?e) = sites s P (MAP_NR ?e) - {(p, j)}" using sites_set_entry [OF assms(2,3), of 0 s] by simp
  then have less: "card (sites ?t P (MAP_NR ?e)) < card (sites s P (MAP_NR ?e))"
    using site finite_sites [OF d(1)] by (metis card_Diff1_less)
  show ?thesis
  proof (rule mm_ok_release)
    show "mm_ok ?t P Q" by (rule mm_ok_clear) (use assms in auto)
    show "page_of ?e < high_memory ?t" using e(1) less_high [OF d(8)] by simp
    show "card (sites ?t P (MAP_NR (page_of ?e))) < unat (mem_map ?t (MAP_NR (page_of ?e)))" if "mem_map ?t (MAP_NR (page_of ?e)) < MAP_PAGE_RESERVED"
      using d(6) [of "MAP_NR ?e"] that less by simp
    show "\<not> writable (tbl ?t q k)" if "(q, k) \<in> sites ?t P (MAP_NR (page_of ?e))" for q k
    proof
      assume w: "writable (tbl ?t q k)"
      have "(q, k) \<noteq> (p, j)" "q \<in> P" "k < 1024" "present (tbl s q k)" "MAP_NR (tbl s q k) = MAP_NR ?e"
        using that by (auto simp: sites_def split: if_splits)
      moreover from this have "writable (tbl s q k)" using w by (auto split: if_splits)
      ultimately have "mem_map s (MAP_NR ?e) = 1" "(q, k) \<in> sites s P (MAP_NR ?e)" "(q, k) \<noteq> (p, j)"
        using d(5) [of q k] by (auto simp: pte_ok_def sites_def)
      moreover from this have "card {(q, k), (p, j)} \<le> card (sites s P (MAP_NR ?e))"
        by (intro card_mono) (use site finite_sites [OF d(1)] in auto)
      ultimately show False using d(6) [of "MAP_NR ?e"] by simp
    qed
  qed (use e in auto)
qed


section \<open>Pages come and go\<close>

text \<open>A page that was free: nobody maps it or uses it as a table.\<close>

definition fresh :: "vm_state \<Rightarrow> u32 set \<Rightarrow> u32 set \<Rightarrow> u32 \<Rightarrow> bool" where
  "fresh s P Q r \<longleftrightarrow> own_page s r \<and> r \<notin> P \<union> Q \<and> MAP_NR r \<notin> MAP_NR ` (P \<union> Q) \<and> sites s P (MAP_NR r) = {}"

lemma mm_ok_take:
  assumes "mm_ok s P Q" "r \<in> set (free_page_list s @ secondary_page_list s)" "tbl s' = tbl s" "high_memory s' = high_memory s"
    and "mem_map s' = (mem_map s)(MAP_NR r := 1)"
    and "set (free_page_list s' @ secondary_page_list s') = set (free_page_list s @ secondary_page_list s) - {r}" "distinct (free_page_list s' @ secondary_page_list s')"
  shows "mm_ok s' P Q" "fresh s' P Q r"
proof -
  note d = mm_okD [OF assms(1)]
  have r: "aligned r" "r \<noteq> 0" "r < high_memory s" "mem_map s (MAP_NR r) = 0" using d(7) assms(2) unfolding free_ok_def by blast+
  have used: "MAP_NR a \<noteq> MAP_NR r" if "a \<in> P \<union> Q" for a
  proof
    assume "MAP_NR a = MAP_NR r"
    then show False using d(4) [OF that] r(4) by (simp add: own_page_def)
  qed
  have st: "sites s' P n = sites s P n" for n by (simp add: sites_def assms(3))
  have none: "sites s P (MAP_NR r) = {}" using d(6) [of "MAP_NR r"] r(4) finite_sites [OF d(1)] by simp
  have own: "own_page s' a" if "a \<in> P \<union> Q" for a using d(4) [OF that] used [OF that] by (simp add: own_page_def assms(4,5))
  have pte: "pte_ok s' (P \<union> Q) (tbl s p j)" if "p \<in> P" "j < 1024" for p j
    using d(5) [OF that] none that by (auto simp: pte_ok_def assms(4,5) sites_def)
  have others: "MAP_NR a \<noteq> MAP_NR r" if "a \<in> set (free_page_list s' @ secondary_page_list s')" for a
  proof -
    have "a \<in> set (free_page_list s @ secondary_page_list s)" "a \<noteq> r" using that unfolding assms(6) by blast+
    then have "aligned a" "a \<noteq> r" using d(7) unfolding free_ok_def by blast+
    then show ?thesis using aligned_eq_iff [OF _ r(1)] by blast
  qed
  have "aligned a \<and> a \<noteq> 0 \<and> a < high_memory s' \<and> mem_map s' (MAP_NR a) = 0" if "a \<in> set (free_page_list s' @ secondary_page_list s')" for a
    using others [OF that] that d(7) unfolding free_ok_def assms(4,5,6) by simp
  then have free: "free_ok s'" unfolding free_ok_def using assms(7) by blast
  have n0: "MAP_NR r \<noteq> 0"
  proof
    assume "MAP_NR r = 0"
    then show False using d(9) r(4) by simp
  qed
  have "card (sites s P n) \<le> unat (mem_map s' n)" if "mem_map s' n < MAP_PAGE_RESERVED" for n
    using that d(6) [of n] none unfolding assms(5) by (cases "n = MAP_NR r") auto
  then show "mm_ok s' P Q" using d own pte free n0 by (auto simp: mm_ok_def st assms(3-5))
  have "MAP_NR r \<notin> MAP_NR ` (P \<union> Q)" using used by (metis imageE)
  then show "fresh s' P Q r" using r none by (auto simp: fresh_def own_page_def st assms(4,5))
qed

lemma remove_free_take:
  assumes "mm_ok s P Q" "remove_free s = (r, s')"
  shows "mm_ok s' P Q \<and> (r = 0 \<and> core s' = core s \<or> r \<noteq> 0 \<and> fresh s' P Q r)" "r = 0 \<longleftrightarrow> free_page_list s = []"
    "tbl s' = tbl s" "frame s' = frame s" "cr3 s' = cr3 s" "vm_current s' = vm_current s" "high_memory s' = high_memory s" "swapper_pg_dir s' = swapper_pg_dir s"
    "r = 0 \<Longrightarrow> secondary_page_list s' = secondary_page_list s"
proof -
  note d = mm_okD [OF assms(1)]
  have *: "a \<in> set (free_page_list s) \<Longrightarrow> usable_page a s \<and> a \<noteq> 0" for a using d(7) by (auto simp: free_ok_def usable_page_def)
  show "r = 0 \<longleftrightarrow> free_page_list s = []" "tbl s' = tbl s" "frame s' = frame s" "cr3 s' = cr3 s" "vm_current s' = vm_current s" "high_memory s' = high_memory s"
    "swapper_pg_dir s' = swapper_pg_dir s" "r = 0 \<Longrightarrow> secondary_page_list s' = secondary_page_list s"
    using assms(2) * by (auto simp: remove_free_def set_map_def vm_note_def split: list.splits if_splits)
  show "mm_ok s' P Q \<and> (r = 0 \<and> core s' = core s \<or> r \<noteq> 0 \<and> fresh s' P Q r)"
  proof (cases "free_page_list s")
    case Nil
    then have "r = 0" "core s' = core s" using assms(2) by (auto simp: remove_free_def core_def vm_note_def split: if_splits)
    then show ?thesis using mm_ok_core [of s' s P Q] assms(1) by simp
  next
    case (Cons a as)
    then have s': "r = a" "s' = set_map a 1 (s\<lparr>free_page_list := as, nr_free_pages := nr_free_pages s - 1\<rparr>)" "a \<noteq> 0"
      using assms(2) * by (auto simp: remove_free_def split: if_splits)
    have "distinct (free_page_list s @ secondary_page_list s)" using d(7) by (simp add: free_ok_def)
    then show ?thesis using mm_ok_take [OF assms(1), of a s'] Cons s' by (auto simp: set_map_def)
  qed
qed

lemma remove_secondary_take:
  assumes "mm_ok s P Q" "remove_secondary s = (r, s')"
  shows "mm_ok s' P Q \<and> (r = 0 \<and> core s' = core s \<or> r \<noteq> 0 \<and> fresh s' P Q r)" "r = 0 \<longleftrightarrow> secondary_page_list s = []"
    "tbl s' = tbl s" "frame s' = frame s" "cr3 s' = cr3 s" "vm_current s' = vm_current s" "high_memory s' = high_memory s" "swapper_pg_dir s' = swapper_pg_dir s"
proof -
  note d = mm_okD [OF assms(1)]
  have *: "a \<in> set (secondary_page_list s) \<Longrightarrow> usable_page a s \<and> a \<noteq> 0" for a using d(7) by (auto simp: free_ok_def usable_page_def)
  show "r = 0 \<longleftrightarrow> secondary_page_list s = []" "tbl s' = tbl s" "frame s' = frame s" "cr3 s' = cr3 s" "vm_current s' = vm_current s" "high_memory s' = high_memory s"
    "swapper_pg_dir s' = swapper_pg_dir s"
    using assms(2) * by (auto simp: remove_secondary_def set_map_def vm_note_def split: list.splits if_splits)
  show "mm_ok s' P Q \<and> (r = 0 \<and> core s' = core s \<or> r \<noteq> 0 \<and> fresh s' P Q r)"
  proof (cases "secondary_page_list s")
    case Nil
    then have "r = 0" "core s' = core s" using assms(2) by (auto simp: remove_secondary_def core_def vm_note_def split: if_splits)
    then show ?thesis using mm_ok_core [of s' s P Q] assms(1) by simp
  next
    case (Cons a as)
    then have s': "r = a" "s' = set_map a 1 (s\<lparr>secondary_page_list := as, nr_secondary_pages := nr_secondary_pages s - 1\<rparr>)" "a \<noteq> 0"
      using assms(2) * by (auto simp: remove_secondary_def split: if_splits)
    have "distinct (free_page_list s @ secondary_page_list s)" using d(7) by (simp add: free_ok_def)
    then show ?thesis using mm_ok_take [OF assms(1), of a s'] Cons s' by (auto simp: set_map_def)
  qed
qed

lemma get_free_page_raw_take:
  assumes "mm_ok s P Q" "get_free_page_raw GFP_KERNEL s = (r, s')"
  shows "mm_ok s' P Q" "r \<noteq> 0 \<Longrightarrow> fresh s' P Q r" "r = 0 \<Longrightarrow> core s' = core s" "r = 0 \<longleftrightarrow> free_page_list s = [] \<and> secondary_page_list s = []"
    "tbl s' = tbl s" "frame s' = frame s" "cr3 s' = cr3 s" "vm_current s' = vm_current s" "high_memory s' = high_memory s" "swapper_pg_dir s' = swapper_pg_dir s"
proof -
  define s0 where "s0 = (if vm_intr_count s \<noteq> 0 then vm_note Gfp_Nonatomic s else s)"
  have c0: "core s0 = core s" and f0: "frame s0 = frame s" "cr3 s0 = cr3 s" "vm_current s0 = vm_current s" "swapper_pg_dir s0 = swapper_pg_dir s"
    by (simp_all add: s0_def vm_note_def core_def)
  have ok0: "mm_ok s0 P Q" using mm_ok_core [OF c0] assms(1) by simp
  obtain r1 s1 where 1: "remove_free s0 = (r1, s1)" by fastforce
  note t1 = remove_free_take [OF ok0 1]
  have run: "(if r1 \<noteq> 0 then (r1, s1) else remove_secondary s1) = (r, s')"
    using assms(2) 1 by (auto simp: get_free_page_raw_def s0_def Let_def split: if_splits)
  have cc: "tbl s0 = tbl s" "high_memory s0 = high_memory s" "free_page_list s0 = free_page_list s" "secondary_page_list s0 = secondary_page_list s"
    using c0 by (simp_all add: core_def)
  have all: "mm_ok s' P Q \<and> (r \<noteq> 0 \<longrightarrow> fresh s' P Q r) \<and> (r = 0 \<longrightarrow> core s' = core s) \<and> (r = 0 \<longleftrightarrow> free_page_list s = [] \<and> secondary_page_list s = [])
    \<and> tbl s' = tbl s \<and> frame s' = frame s \<and> cr3 s' = cr3 s \<and> vm_current s' = vm_current s \<and> high_memory s' = high_memory s \<and> swapper_pg_dir s' = swapper_pg_dir s"
  proof (cases "r1 = 0")
    case False
    then show ?thesis using run t1 cc f0 by simp
  next
    case True
    then have 2: "remove_secondary s1 = (r, s')" using run by simp
    have ok1: "mm_ok s1 P Q" using t1(1) by blast
    note t2 = remove_secondary_take [OF ok1 2]
    show ?thesis using t1 t2 True cc c0 f0 by auto
  qed
  then show "mm_ok s' P Q" "r \<noteq> 0 \<Longrightarrow> fresh s' P Q r" "r = 0 \<Longrightarrow> core s' = core s" "r = 0 \<longleftrightarrow> free_page_list s = [] \<and> secondary_page_list s = []"
    "tbl s' = tbl s" "frame s' = frame s" "cr3 s' = cr3 s" "vm_current s' = vm_current s" "high_memory s' = high_memory s" "swapper_pg_dir s' = swapper_pg_dir s"
    by blast+
qed


lemma get_free_page_take:
  assumes "mm_ok s P Q" "get_free_page GFP_KERNEL s = (r, s')"
  shows "mm_ok s' P Q" "r \<noteq> 0 \<Longrightarrow> fresh s' P Q r" "r = 0 \<Longrightarrow> core s' = core s" "r = 0 \<longleftrightarrow> free_page_list s = [] \<and> secondary_page_list s = []"
    "a \<noteq> r \<or> r = 0 \<Longrightarrow> tbl s' a = tbl s a" "r \<noteq> 0 \<Longrightarrow> tbl s' r = (\<lambda>_. 0)" "r \<noteq> 0 \<Longrightarrow> frame s' r = (\<lambda>_. 0)" "a \<noteq> r \<or> r = 0 \<Longrightarrow> frame s' a = frame s a"
    "cr3 s' = cr3 s" "vm_current s' = vm_current s" "high_memory s' = high_memory s" "swapper_pg_dir s' = swapper_pg_dir s"
proof -
  obtain s1 where 1: "get_free_page_raw GFP_KERNEL s = (r, s1)"
    and s': "s' = (if r \<noteq> 0 then s1\<lparr>tbl := (tbl s1)(r := \<lambda>_. 0), frame := (frame s1)(r := \<lambda>_. 0)\<rparr> else s1)"
    using assms(2) by (auto simp: get_free_page_def split: prod.splits if_splits)
  note t = get_free_page_raw_take [OF assms(1) 1]
  show "r = 0 \<Longrightarrow> core s' = core s" "r = 0 \<longleftrightarrow> free_page_list s = [] \<and> secondary_page_list s = []"
    "a \<noteq> r \<or> r = 0 \<Longrightarrow> tbl s' a = tbl s a" "r \<noteq> 0 \<Longrightarrow> tbl s' r = (\<lambda>_. 0)" "r \<noteq> 0 \<Longrightarrow> frame s' r = (\<lambda>_. 0)" "a \<noteq> r \<or> r = 0 \<Longrightarrow> frame s' a = frame s a"
    "cr3 s' = cr3 s" "vm_current s' = vm_current s" "high_memory s' = high_memory s" "swapper_pg_dir s' = swapper_pg_dir s"
    using t s' by auto
  have eq: "sites s' P n = sites s1 P n" "own_page s' = own_page s1" "pte_ok s' = pte_ok s1" "free_ok s' = free_ok s1" "mem_map s' = mem_map s1"
    "high_memory s' = high_memory s1" "p \<in> P \<Longrightarrow> tbl s' p = tbl s1 p" for n p
    using t(2) s' by (auto simp: fresh_def sites_def own_page_def pte_ok_def free_ok_def fun_eq_iff split: if_splits)
  show "mm_ok s' P Q" using t(1) unfolding mm_ok_def by (simp add: eq)
  show "r \<noteq> 0 \<Longrightarrow> fresh s' P Q r" using t(2) by (simp add: fresh_def eq)
qed

lemma sites_insert: "\<forall>j<1024. \<not> present (tbl s r j) \<Longrightarrow> sites s (insert r P) n = sites s P n"
  by (auto simp: sites_def)

lemma sites_remove: "\<forall>j<1024. \<not> present (tbl s r j) \<Longrightarrow> sites s (P - {r}) n = sites s P n"
  by (auto simp: sites_def)

text \<open>A fresh page becomes an empty table or a directory.\<close>

lemma mm_ok_add_table:
  assumes "mm_ok s P Q" "fresh s P Q r" "\<forall>j<1024. \<not> present (tbl s r j)"
  shows "mm_ok s (insert r P) Q"
proof -
  note d = mm_okD [OF assms(1)]
  have "pte_ok s (insert r P \<union> Q) (tbl s p j)" if "p \<in> insert r P" "j < 1024" for p j
    using that d(5) [of p j] assms(2,3) by (auto simp: pte_ok_def fresh_def sites_def)
  then show ?thesis using d assms(2) by (auto simp: mm_ok_def sites_insert [OF assms(3)] fresh_def)
qed

lemma mm_ok_add_dir:
  assumes "mm_ok s P Q" "fresh s P Q r"
  shows "mm_ok s P (insert r Q)"
proof -
  note d = mm_okD [OF assms(1)]
  have "pte_ok s (P \<union> insert r Q) (tbl s p j)" if "p \<in> P" "j < 1024" for p j
    using that d(5) [of p j] assms(2) by (auto simp: pte_ok_def fresh_def sites_def)
  then show ?thesis using d assms(2) by (auto simp: mm_ok_def fresh_def)
qed

text \<open>An empty table or a directory is given back.\<close>

lemma own_pages_differ:
  assumes "mm_ok s P Q" "a \<in> P \<union> Q" "b \<in> P \<union> Q" "MAP_NR a = MAP_NR b"
  shows "a = b"
  using mm_okD(4) [OF assms(1)] assms(2-4) aligned_eq_iff by (metis own_page_def)

lemma pte_ok_mono: "pte_ok s R e \<Longrightarrow> R' \<subseteq> R \<Longrightarrow> pte_ok s R' e"
  by (auto simp: pte_ok_def)

lemma mm_ok_free_own:
  assumes "mm_ok s P Q" "a \<in> P \<union> Q" "a \<in> P \<Longrightarrow> \<forall>j<1024. \<not> present (tbl s a j)"
  shows "mm_ok (free_page a s) (P - {a}) (Q - {a})"
proof -
  note d = mm_okD [OF assms(1)]
  have own: "own_page s a" by (rule d(4) [OF assms(2)])
  have none: "sites s P (MAP_NR a) = {}" using d(5) assms(2) by (auto simp: sites_def pte_ok_def)
  have ok: "mm_ok s (P - {a}) (Q - {a})"
  proof -
    have "sites s (P - {a}) n \<subseteq> sites s P n" for n by (auto simp: sites_def)
    then have "card (sites s (P - {a}) n) \<le> card (sites s P n)" for n by (intro card_mono finite_sites d(1))
    then have "card (sites s (P - {a}) n) \<le> unat (mem_map s n)" if "mem_map s n < MAP_PAGE_RESERVED" for n
      using d(6) [OF that] le_trans by blast
    moreover have "pte_ok s (P - {a} \<union> (Q - {a})) (tbl s p j)" if "p \<in> P" "j < 1024" for p j using d(5) [OF that] by (rule pte_ok_mono) blast
    ultimately show ?thesis using d by (auto simp: mm_ok_def)
  qed
  show ?thesis
  proof (rule mm_ok_release [OF ok])
    show "a < high_memory s" using own by (simp add: own_page_def)
    show "MAP_NR a \<notin> MAP_NR ` (P - {a} \<union> (Q - {a}))" using own_pages_differ [OF assms(1,2)] by auto
    have "sites s (P - {a}) (MAP_NR a) = {}" using none by (auto simp: sites_def)
    then show "card (sites s (P - {a}) (MAP_NR a)) < unat (mem_map s (MAP_NR a))" "\<And>p j. (p, j) \<in> sites s (P - {a}) (MAP_NR a) \<Longrightarrow> \<not> writable (tbl s p j)"
      using own by (simp_all add: own_page_def)
  qed
qed


section \<open>Steps on one entry\<close>

text \<open>What a step on the entry \<^verbatim>\<open>j\<close> of the table \<^verbatim>\<open>p\<close> leaves alone.\<close>

definition only_entry :: "u32 \<Rightarrow> nat \<Rightarrow> vm_state \<Rightarrow> vm_state \<Rightarrow> bool" where
  "only_entry p j s s' \<longleftrightarrow> tbl s' = (tbl s)(p := (tbl s p)(j := tbl s' p j)) \<and> high_memory s' = high_memory s \<and> cr3 s' = cr3 s
     \<and> vm_current s' = vm_current s \<and> swapper_pg_dir s' = swapper_pg_dir s"

lemma swap_free_simps [simp]: "tbl (swap_free e s) = tbl s" "high_memory (swap_free e s) = high_memory s" "cr3 (swap_free e s) = cr3 s"
  "vm_current (swap_free e s) = vm_current s" "swapper_pg_dir (swap_free e s) = swapper_pg_dir s" "frame (swap_free e s) = frame s"
  by (simp_all add: swap_free_def Let_def vm_note_def)

lemma swap_duplicate_simps:
  assumes "swap_duplicate e s = (e', s')"
  shows "tbl s' = tbl s" "high_memory s' = high_memory s" "cr3 s' = cr3 s" "vm_current s' = vm_current s" "swapper_pg_dir s' = swapper_pg_dir s"
    "frame s' = frame s" "core s' = core s" "e' = e \<or> e' = 0"
  using assms by (auto simp: swap_duplicate_def Let_def vm_note_def core_def split: if_splits)

lemma clear_pte_step:
  assumes "mm_ok s P Q" "p \<in> P" "j < 1024"
  shows "mm_ok (clear_pte p s j) P Q" "only_entry p j s (clear_pte p s j)" "tbl (clear_pte p s j) p j = 0" "frame (clear_pte p s j) = frame s"
proof -
  have "mm_ok (swap_free e (set_entry p j 0 s)) P Q" for e using mm_ok_clear [OF assms, of 0] mm_ok_core by (metis core_simps(2) present_0)
  then show "mm_ok (clear_pte p s j) P Q" using mm_ok_drop [OF assms] assms(1) by (simp add: clear_pte_def Let_def)
  show "only_entry p j s (clear_pte p s j)" "tbl (clear_pte p s j) p j = 0" "frame (clear_pte p s j) = frame s"
    by (auto simp: only_entry_def clear_pte_def Let_def fun_upd_idem)
qed

lemma drop_pte_step:
  assumes "mm_ok s P Q" "p \<in> P" "j < 1024"
  shows "mm_ok (drop_pte t p j s) P Q" "only_entry p j s (drop_pte t p j s)" "tbl (drop_pte t p j s) p j = 0" "frame (drop_pte t p j s) = frame s"
proof -
  have 1: "mm_ok (swap_free e (set_entry p j 0 s)) P Q" for e using mm_ok_clear [OF assms, of 0] mm_ok_core by (metis core_simps(2) present_0)
  have "core (free_page a (u\<lparr>rss := x\<rparr>)) = core (free_page a u)" for a u x
    by (simp add: core_def free_page_def Let_def set_map_def vm_note_def)
  then have 2: "present (tbl s p j) \<Longrightarrow> mm_ok (free_page (page_of (tbl s p j)) ((set_entry p j 0 s)\<lparr>rss := x\<rparr>)) P Q" for x
    using mm_ok_drop [OF assms] mm_ok_core by metis
  show "mm_ok (drop_pte t p j s) P Q" using 1 2 mm_ok_drop [OF assms] assms(1) by (simp add: drop_pte_def Let_def)
  show "only_entry p j s (drop_pte t p j s)" "tbl (drop_pte t p j s) p j = 0" "frame (drop_pte t p j s) = frame s"
    by (auto simp: only_entry_def drop_pte_def Let_def fun_upd_idem)
qed

text \<open>\<^verbatim>\<open>copy_pte\<close> makes the two entries equal but for the write bit, which both lose when the page is private.\<close>

lemma protect_bits [simp]: "present (protect e) = present e" "\<not> writable (protect e)" "cow (protect e) = cow e"
proof -
  have "bit (NOT 2 :: u32) 0" "\<not> bit (NOT 2 :: u32) 1" "bit (NOT 2 :: u32) 9" by (simp_all add: bit_not_iff bit_numeral_iff)
  then show "present (protect e) = present e" "\<not> writable (protect e)" "cow (protect e) = cow e"
    by (simp_all add: entry_bits protect_def bit_and_iff)
qed

lemma page_of_protect [simp]: "page_of (protect e) = page_of e"
  by (simp add: page_of_eq_iff)

text \<open>One more user of a page that no entry can write.\<close>

lemma mm_ok_more:
  assumes "mm_ok s P Q" "mem_map s (MAP_NR a) \<noteq> 0" "mem_map s (MAP_NR a) < MAP_PAGE_RESERVED" "MAP_NR a \<notin> MAP_NR ` (P \<union> Q)"
    and "\<And>p j. (p, j) \<in> sites s P (MAP_NR a) \<Longrightarrow> \<not> writable (tbl s p j)"
  shows "mm_ok (set_map a (mem_map s (MAP_NR a) + 1) s) P Q"
proof -
  note d = mm_okD [OF assms(1)]
  let ?s = "set_map a (mem_map s (MAP_NR a) + 1) s"
  have m: "mem_map ?s = (mem_map s)(MAP_NR a := mem_map s (MAP_NR a) + 1)" "tbl ?s = tbl s" "high_memory ?s = high_memory s"
    "free_page_list ?s = free_page_list s" "secondary_page_list ?s = secondary_page_list s" by (simp_all add: set_map_def)
  have up: "unat (mem_map s (MAP_NR a) + 1) = unat (mem_map s (MAP_NR a)) + 1"
    using assms(3) by (simp add: unat_word_ariths word_less_nat_alt)
  have "sites ?s P n = sites s P n" for n by (simp add: sites_def m)
  moreover have "card (sites s P n) \<le> unat (mem_map ?s n)" if "mem_map ?s n < MAP_PAGE_RESERVED" for n
    using d(6) [of n] that assms(3) up by (cases "n = MAP_NR a") (auto simp: m)
  moreover have "own_page ?s b" if "b \<in> P \<union> Q" for b
    using d(4) [OF that] imageI [OF that, of MAP_NR] assms(4) by (auto simp: own_page_def m simp del: image_Un)
  moreover have "pte_ok ?s (P \<union> Q) (tbl s p j)" if "p \<in> P" "j < 1024" for p j
    using d(5) [OF that] assms(5) [of p j] that by (auto simp: pte_ok_def m sites_def)
  moreover have "b \<in> set (free_page_list s @ secondary_page_list s) \<Longrightarrow> MAP_NR b \<noteq> MAP_NR a" for b
    using d(7) assms(2) unfolding free_ok_def by metis
  then have "free_ok ?s" using d(7) by (simp add: free_ok_def m)
  moreover have "MAP_NR a \<noteq> 0" using d(9) assms(3) by metis
  ultimately show ?thesis using d by (auto simp: mm_ok_def m)
qed

lemma copy_pte_step:
  assumes "mm_ok s P Q" "old \<in> P" "new \<in> P" "old \<noteq> new" "j < 1024" "tbl s new j = 0"
  defines "s' \<equiv> copy_pte old new s j"
  shows "mm_ok s' P Q"
proof -
  note d = mm_okD [OF assms(1)]
  define pg where "pg = tbl s old j"
  consider "pg = 0" | "pg \<noteq> 0" "\<not> present pg" | "present pg" by (cases "pg = 0") auto
  then show ?thesis
  proof cases
    case 1
    then show ?thesis using assms(1) by (simp add: s'_def copy_pte_def pg_def)
  next
    case 2
    obtain e u where u: "swap_duplicate pg s = (e, u)" by fastforce
    note sd = swap_duplicate_simps [OF u]
    have "mm_ok u P Q" using mm_ok_core [OF sd(7)] assms(1) by simp
    then have "mm_ok (set_entry new j e u) P Q" using mm_ok_clear assms(3,5) sd(8) 2(2) by fastforce
    then show ?thesis using 2 u by (simp add: s'_def copy_pte_def pg_def)
  next
    case 3
    define pg' where "pg' = (if writable pg \<and> cow pg then protect pg else pg)"
    have ok: "pte_ok s (P \<union> Q) pg" unfolding pg_def by (rule d(5) [OF assms(2,5)])
    have pg': "present pg'" "\<not> writable pg'" "MAP_NR pg' = MAP_NR pg" using ok 3 by (auto simp: pg'_def pte_ok_def)
    have hi: "pg' < high_memory s" using ok 3 pg'(3) less_high [OF d(8)] by (simp add: pte_ok_def)
    have ok': "pte_ok s (P \<union> Q) pg'" using ok 3 pg' hi by (auto simp: pte_ok_def)
    have res: "reserved (set_entry new j pg' s) pg' = reserved s pg" by (simp add: reserved_def pg'(3))
    have pg0: "pg \<noteq> 0" using 3 by auto
    show ?thesis
    proof (cases "reserved s pg")
      case True
      have "mm_ok (set_entry new j pg' s) P Q"
        by (rule mm_ok_set) (use assms(1,3,5) ok' pg' True in \<open>auto simp: reserved_iff\<close>)
      then show ?thesis using True 3 pg0 res by (simp add: s'_def copy_pte_def Let_def pg_def [symmetric] pg'_def [symmetric])
    next
      case False
      let ?n = "MAP_NR pg" and ?A = "set_entry old j pg' s"
      have c: "mem_map s ?n < MAP_PAGE_RESERVED" using False by (simp add: reserved_iff)
      have site: "(old, j) \<in> sites s P ?n" using assms(2,5) 3 by (simp add: sites_def pg_def)
      have card: "card (sites s P ?n) \<le> unat (mem_map s ?n)" by (rule d(6) [OF c])
      then have nz: "mem_map s ?n \<noteq> 0" using site finite_sites [OF d(1)] by (metis card_0_eq empty_iff le_zero_eq unat_0)
      have A: "mm_ok ?A P Q" by (rule mm_ok_set) (use assms(1,2,5) ok' pg' site card in \<open>auto simp: insert_absorb\<close>)
      have sA: "sites ?A P ?n = sites s P ?n" using sites_set_entry [OF assms(2,5), of pg' s ?n] pg' site by (auto simp: insert_absorb)
      have now: "\<not> writable (tbl ?A p k)" if "(p, k) \<in> sites ?A P ?n" for p k
      proof
        assume w: "writable (tbl ?A p k)"
        then have ne: "(p, k) \<noteq> (old, j)" using pg'(2) by auto
        have "mem_map ?A ?n = 1" using mm_okD(5) [OF A, of p k] that w by (auto simp: pte_ok_def sites_def)
        moreover have "card {(p, k), (old, j)} \<le> card (sites s P ?n)" by (intro card_mono finite_sites d(1)) (use site that sA in auto)
        ultimately show False using card ne by simp
      qed
      define B where "B = set_map pg' (mem_map s ?n + 1) ?A"
      have B: "mm_ok B P Q" unfolding B_def
        using mm_ok_more [OF A, of pg'] nz c now ok 3 by (simp add: pg'(3) pte_ok_def)
      have b: "mem_map B ?n = mem_map s ?n + 1" "sites B P ?n = sites s P ?n" "pte_ok B (P \<union> Q) pg'"
        using sA pg' hi ok 3 by (auto simp: B_def set_map_def sites_def pte_ok_def)
      have "unat (mem_map s ?n + 1) = unat (mem_map s ?n) + 1" using c by (simp add: unat_word_ariths word_less_nat_alt)
      then have "card (insert (new, j) (sites B P ?n)) \<le> unat (mem_map B ?n)"
        using b card card_insert_le_m1 [of "unat (mem_map s ?n) + 1" "sites s P ?n" "(new, j)"] by simp
      then have "mm_ok (set_entry new j pg' B) P Q" by (intro mm_ok_set) (use B assms(3,5) b pg' in auto)
      moreover have "s' = set_entry new j pg' B"
        using False 3 pg0 res assms(4) unfolding s'_def copy_pte_def Let_def pg_def [symmetric] pg'_def [symmetric] B_def
        by (simp add: pg'(3)) (simp add: set_entry_def set_map_def fun_upd_twist)
      ultimately show ?thesis by simp
    qed
  qed
qed


lemma copy_pte_effect:
  assumes "old \<noteq> new" "tbl s new j = 0"
  defines "s' \<equiv> copy_pte old new s j"
  shows "tbl s' = (tbl s)(old := (tbl s old)(j := tbl s' old j), new := (tbl s new)(j := tbl s' new j))"
    "present (tbl s' old j) = present (tbl s old j)" "MAP_NR (tbl s' old j) = MAP_NR (tbl s old j)"
    "present (tbl s' new j) = present (tbl s old j)" "present (tbl s old j) \<Longrightarrow> MAP_NR (tbl s' new j) = MAP_NR (tbl s old j)"
    "frame s' = frame s" "cr3 s' = cr3 s" "vm_current s' = vm_current s" "high_memory s' = high_memory s" "swapper_pg_dir s' = swapper_pg_dir s"
    "cow (tbl s' old j) = cow (tbl s old j)" "present (tbl s old j) \<Longrightarrow> cow (tbl s' new j) = cow (tbl s old j)"
proof -
  obtain e u where u: "swap_duplicate (tbl s old j) s = (e, u)" by fastforce
  note sd = swap_duplicate_simps [OF u]
  show "tbl s' = (tbl s)(old := (tbl s old)(j := tbl s' old j), new := (tbl s new)(j := tbl s' new j))"
    "present (tbl s' old j) = present (tbl s old j)" "MAP_NR (tbl s' old j) = MAP_NR (tbl s old j)"
    "present (tbl s' new j) = present (tbl s old j)" "present (tbl s old j) \<Longrightarrow> MAP_NR (tbl s' new j) = MAP_NR (tbl s old j)"
    "frame s' = frame s" "cr3 s' = cr3 s" "vm_current s' = vm_current s" "high_memory s' = high_memory s" "swapper_pg_dir s' = swapper_pg_dir s"
    "cow (tbl s' old j) = cow (tbl s old j)" "present (tbl s old j) \<Longrightarrow> cow (tbl s' new j) = cow (tbl s old j)"
    using assms(1,2) sd u by (auto simp: s'_def copy_pte_def Let_def set_map_def fun_eq_iff split: if_splits)
qed

section \<open>Write faults\<close>

lemma add_flags_bits:
  "present (add_flags e f) \<longleftrightarrow> present e \<or> present f" "writable (add_flags e f) \<longleftrightarrow> writable e \<or> writable f" "cow (add_flags e f) \<longleftrightarrow> cow e \<or> cow f"
  by (simp_all add: entry_bits add_flags_def bit_or_iff)

lemma page_bits_flags [simp]: "present (page_bits e) = present e" "writable (page_bits e) = writable e" "cow (page_bits e) = cow e"
  unfolding entry_bits page_bits_bits by (simp_all add: bit_take_bit_iff)

lemma flag_simps [simp]: "\<not> present 2" "writable 2" "\<not> cow 2" "\<not> present 0x42" "writable 0x42" "\<not> cow 0x42" "present 0x227" "writable 0x227" "cow 0x227"
  by (simp_all add: present_def writable_def cow_def)

lemma mm_ok_unprotect:
  assumes "mm_ok s P Q" "p \<in> P" "j < 1024" "present (tbl s p j)" "cow (tbl s p j)" "mem_map s (MAP_NR (tbl s p j)) = 1" "small f" "\<not> present f" "\<not> cow f"
  shows "mm_ok (set_entry p j (add_flags (tbl s p j) f) s) P Q"
proof (rule mm_ok_set [OF assms(1-3)])
  note d = mm_okD [OF assms(1)]
  let ?e = "tbl s p j"
  have ok: "pte_ok s (P \<union> Q) ?e" by (rule d(5) [OF assms(2,3)])
  have "add_flags ?e f < high_memory s" using ok assms(4,7) less_high [OF d(8)] by (simp add: pte_ok_def)
  then show "pte_ok s (P \<union> Q) (add_flags ?e f)" using ok assms(4-7) by (auto simp: pte_ok_def add_flags_bits)
  show "present (add_flags ?e f)" using assms(4) by (simp add: add_flags_bits)
  have "(p, j) \<in> sites s P (MAP_NR ?e)" using assms(2-4) by (simp add: sites_def)
  then show "card (insert (p, j) (sites s P (MAP_NR (add_flags ?e f)))) \<le> unat (mem_map s (MAP_NR (add_flags ?e f)))"
    if "mem_map s (MAP_NR (add_flags ?e f)) < MAP_PAGE_RESERVED" using d(6) that assms(7) by (simp add: insert_absorb)
qed

text \<open>A private copy: the entry moves to a fresh page, and the old one loses a user.\<close>

lemma mm_ok_private:
  assumes "mm_ok s P Q" "p \<in> P" "j < 1024" "present (tbl s p j)" "cow (tbl s p j)" "\<not> writable (tbl s p j)" "fresh s P Q new"
    and "mem_map s (MAP_NR (tbl s p j)) \<noteq> 1" "core t = core (set_entry p j (add_flags new (add_flags (page_bits (tbl s p j)) 2)) s)"
  shows "mm_ok (free_page (page_of (tbl s p j)) t) P Q"
proof -
  note d = mm_okD [OF assms(1)]
  let ?e = "tbl s p j" and ?v = "add_flags new (add_flags (page_bits (tbl s p j)) 2)"
  let ?u = "set_entry p j ?v s"
  have new: "own_page s new" "MAP_NR new \<notin> MAP_NR ` (P \<union> Q)" "sites s P (MAP_NR new) = {}" using assms(7) by (auto simp: fresh_def)
  have v: "present ?v" "cow ?v" "writable ?v" "MAP_NR ?v = MAP_NR new" using assms(4,5) by (auto simp: add_flags_bits)
  have e: "?e < high_memory s" "MAP_NR ?e \<notin> MAP_NR ` (P \<union> Q)" using d(5) [OF assms(2,3)] assms(4) by (auto simp: pte_ok_def)
  have ne: "MAP_NR new \<noteq> MAP_NR ?e" using new(1) assms(8) by (auto simp: own_page_def)
  have vh: "?v < high_memory s" using new(1) v(4) less_high [OF d(8)] by (simp add: own_page_def)
  have u: "mm_ok ?u P Q"
    by (rule mm_ok_set) (use assms(1-3) new v vh in \<open>auto simp: pte_ok_def own_page_def\<close>)
  have site: "(p, j) \<in> sites s P (MAP_NR ?e)" using assms(2-4) by (simp add: sites_def)
  have su: "sites ?u P (MAP_NR ?e) = sites s P (MAP_NR ?e) - {(p, j)}" using sites_set_entry [OF assms(2,3), of ?v s] v(4) ne by simp
  have less: "card (sites ?u P (MAP_NR ?e)) < card (sites s P (MAP_NR ?e))" unfolding su using site finite_sites [OF d(1)] by (metis card_Diff1_less)
  have t: "mm_ok t P Q" "tbl t = tbl ?u" "mem_map t = mem_map s" "high_memory t = high_memory s" using mm_ok_core [OF assms(9)] u assms(9) by (auto simp: core_def)
  have st: "sites t P n = sites ?u P n" for n by (simp add: sites_def t(2) del: set_entry_simps(1))
  show ?thesis
  proof (rule mm_ok_release [OF t(1)])
    show "page_of ?e < high_memory t" using e(1) less_high [OF d(8)] t(4) by simp
    show "card (sites t P (MAP_NR (page_of ?e))) < unat (mem_map t (MAP_NR (page_of ?e)))" if "mem_map t (MAP_NR (page_of ?e)) < MAP_PAGE_RESERVED"
      using d(6) [of "MAP_NR ?e"] that less by (simp add: st t(3))
    show "\<not> writable (tbl t q k)" if "(q, k) \<in> sites t P (MAP_NR (page_of ?e))" for q k
    proof
      assume w: "writable (tbl t q k)"
      have q: "(q, k) \<noteq> (p, j)" "(q, k) \<in> sites s P (MAP_NR ?e)" using that unfolding st by (auto simp: su)
      then have "tbl t q k = tbl s q k" by (auto simp: t(2))
      then have "mem_map s (MAP_NR ?e) = 1" using d(5) [of q k] w q(2) by (auto simp: pte_ok_def sites_def)
      then show False using assms(8) by simp
    qed
  qed (use e in auto)
qed


section \<open>Counts that stay\<close>

lemma free_page_map: "n \<noteq> MAP_NR a \<Longrightarrow> mem_map (free_page a s) n = mem_map s n"
  by (simp add: free_page_def Let_def set_map_def vm_note_def)

lemma reserved_free_page: "reserved s a \<Longrightarrow> reserved (free_page b s) a"
proof (cases "MAP_NR a = MAP_NR b")
  case True
  assume "reserved s a"
  then have "\<not> mem_map s (MAP_NR b) < MAP_PAGE_RESERVED" using True by (simp add: reserved_iff)
  then show ?thesis using \<open>reserved s a\<close> by (simp add: free_page_reserved)
qed (simp add: reserved_def free_page_map)

lemma remove_map:
  "remove_free s = (r, s') \<Longrightarrow> mem_map s' = mem_map s \<or> mem_map s (MAP_NR r) = 0 \<and> mem_map s' = (mem_map s)(MAP_NR r := 1)"
  "remove_secondary s = (r, s') \<Longrightarrow> mem_map s' = mem_map s \<or> mem_map s (MAP_NR r) = 0 \<and> mem_map s' = (mem_map s)(MAP_NR r := 1)"
  by (auto simp: remove_free_def remove_secondary_def usable_page_def set_map_def vm_note_def split: if_splits list.splits)

lemma get_free_page_raw_map:
  assumes "mm_ok s P Q" "get_free_page_raw GFP_KERNEL s = (r, s')"
  shows "mem_map s' = mem_map s \<or> mem_map s (MAP_NR r) = 0 \<and> mem_map s' = (mem_map s)(MAP_NR r := 1)" (is ?map)
    "n \<noteq> MAP_NR r \<Longrightarrow> mem_map s' n = mem_map s n" "reserved s a \<Longrightarrow> reserved s' a"
proof -
  define s0 where "s0 = (if vm_intr_count s \<noteq> 0 then vm_note Gfp_Nonatomic s else s)"
  have c0: "core s0 = core s" by (simp add: s0_def core_def vm_note_def)
  have ok0: "mm_ok s0 P Q" using mm_ok_core [OF c0] assms(1) by simp
  obtain r1 s1 where 1: "remove_free s0 = (r1, s1)" by fastforce
  have run: "(if r1 \<noteq> 0 then (r1, s1) else remove_secondary s1) = (r, s')"
    using assms(2) 1 by (auto simp: get_free_page_raw_def s0_def Let_def split: if_splits)
  show map: ?map
  proof (cases "r1 = 0")
    case True
    then have "mem_map s1 = mem_map s0" using remove_free_take(1) [OF ok0 1] by (simp add: core_def)
    then show ?thesis using remove_map(2) [of s1 r s'] run True c0 by (simp add: core_def)
  next
    case False
    then show ?thesis using remove_map(1) [OF 1] run c0 by (simp add: core_def)
  qed
  then show "n \<noteq> MAP_NR r \<Longrightarrow> mem_map s' n = mem_map s n" by auto
  show "reserved s a \<Longrightarrow> reserved s' a" using map by (cases "MAP_NR a = MAP_NR r") (auto simp: reserved_def)
qed

lemma get_free_page_map:
  assumes "mm_ok s P Q" "get_free_page GFP_KERNEL s = (r, s')"
  shows "n \<noteq> MAP_NR r \<Longrightarrow> mem_map s' n = mem_map s n" "reserved s a \<Longrightarrow> reserved s' a"
proof -
  obtain s1 where 1: "get_free_page_raw GFP_KERNEL s = (r, s1)" and "mem_map s' = mem_map s1"
    using assms(2) by (auto simp: get_free_page_def split: prod.splits if_splits)
  then show "n \<noteq> MAP_NR r \<Longrightarrow> mem_map s' n = mem_map s n" "reserved s a \<Longrightarrow> reserved s' a"
    using get_free_page_raw_map [OF assms(1) 1] by (simp_all add: reserved_def)
qed

end
