(* ===== verification/Mmap_Laws.thy ===== *)
theory Mmap_Laws
  imports Mmap Page_Laws
begin

text \<open>
  The list of areas as a map from addresses to what is mapped there: the page protection, the operations, and for a file the inode and the position.
\<close>

section \<open>Areas\<close>

definition covers :: "u32 \<Rightarrow> vm_area \<Rightarrow> bool" where
  "covers va m \<longleftrightarrow> vm_start m \<le> va \<and> va < vm_end m"

type_synonym mapping = "u16 \<times> nat option \<times> vm_ops option \<times> (nat \<times> u32) option"

definition mapped_as :: "vm_area \<Rightarrow> u32 \<Rightarrow> mapping" where
  "mapped_as m va = (vm_page_prot m, vm_share m, vm_opsp m, map_option (\<lambda>i. (i, vm_offset m + (va - vm_start m))) (vm_inode m))"

definition amap :: "vm_area list \<Rightarrow> u32 \<Rightarrow> mapping option" where
  "amap ms va = map_option (\<lambda>m. mapped_as m va) (find (covers va) ms)"

definition area_ok :: "vm_area \<Rightarrow> bool" where
  "area_ok m \<longleftrightarrow> vm_start m < vm_end m \<and> vm_end m \<le> TASK_SIZE \<and> aligned (vm_start m) \<and> aligned (vm_end m)"

definition mmap_ok :: "vm_area list \<Rightarrow> bool" where
  "mmap_ok ms \<longleftrightarrow> sorted_wrt (\<lambda>a b. vm_end a \<le> vm_start b) ms \<and> (\<forall>m\<in>set ms. area_ok m)"

definition apart :: "vm_area \<Rightarrow> vm_area \<Rightarrow> bool" where
  "apart a b \<longleftrightarrow> vm_end a \<le> vm_start b \<or> vm_end b \<le> vm_start a"

lemma apart_sym: "apart a b \<longleftrightarrow> apart b a"
  by (auto simp: apart_def)

lemma apart_covers: "apart a b \<Longrightarrow> covers va a \<Longrightarrow> \<not> covers va b"
  by (auto simp: apart_def covers_def)

lemma mmap_ok_Nil [simp]: "mmap_ok []"
  by (simp add: mmap_ok_def)

lemma mmap_ok_Cons [simp]: "mmap_ok (m # ms) \<longleftrightarrow> area_ok m \<and> (\<forall>n\<in>set ms. vm_end m \<le> vm_start n) \<and> mmap_ok ms"
  by (auto simp: mmap_ok_def)

lemma mmap_ok_apart: "mmap_ok ms \<Longrightarrow> a \<in> set ms \<Longrightarrow> b \<in> set ms \<Longrightarrow> a = b \<or> apart a b"
  by (induction ms) (auto simp: apart_def)

lemma mmap_ok_filter: "mmap_ok ms \<Longrightarrow> mmap_ok (filter P ms)"
  by (auto simp: mmap_ok_def sorted_wrt_filter)

lemma amap_iff:
  assumes "mmap_ok ms"
  shows "amap ms va = Some w \<longleftrightarrow> (\<exists>m\<in>set ms. covers va m \<and> mapped_as m va = w)"
proof
  assume "amap ms va = Some w"
  then show "\<exists>m\<in>set ms. covers va m \<and> mapped_as m va = w" by (auto simp: amap_def find_Some_iff)
next
  assume "\<exists>m\<in>set ms. covers va m \<and> mapped_as m va = w"
  then obtain m where m: "m \<in> set ms" "covers va m" "mapped_as m va = w" by blast
  obtain n where n: "find (covers va) ms = Some n" using m(1,2) by (cases "find (covers va) ms") (auto simp: find_None_iff)
  then have "n \<in> set ms" "covers va n" by (auto simp: find_Some_iff)
  then have "n = m" using mmap_ok_apart [OF assms m(1)] m(2) apart_covers by blast
  then show "amap ms va = Some w" using n m(3) by (simp add: amap_def)
qed

lemma find_in: "find P xs = Some x \<Longrightarrow> x \<in> set xs \<and> P x"
  by (induction xs) (auto split: if_splits)

lemma amap_None: "\<not> (\<exists>m\<in>set ms. covers va m) \<Longrightarrow> amap ms va = None"
  by (auto simp: amap_def find_None_iff)

lemma option_eqI: "(\<And>w. x = Some w \<longleftrightarrow> y = Some w) \<Longrightarrow> x = y"
  by (cases x; cases y) auto

text \<open>The meaning of a list depends on its areas only.\<close>

lemma amap_cong:
  assumes "mmap_ok ms" "mmap_ok ms'" "\<And>w. (\<exists>m\<in>set ms'. covers va m \<and> mapped_as m va = w) \<longleftrightarrow> (\<exists>m\<in>set ms. covers va m \<and> mapped_as m va = w)"
  shows "amap ms' va = amap ms va"
  by (rule option_eqI) (simp add: amap_iff assms)

lemma amap_Nil [simp]: "amap [] va = None"
  by (simp add: amap_def)

lemma amap_Cons [simp]: "amap (m # ms) va = (if covers va m then Some (mapped_as m va) else amap ms va)"
  by (simp add: amap_def)

section \<open>Insertion and merging\<close>

lemma insert_area_ok:
  assumes "mmap_ok ms" "area_ok v" "\<forall>m\<in>set ms. apart v m"
  shows "mmap_ok (snd (insert_area v ms)) \<and> set (snd (insert_area v ms)) = insert v (set ms) \<and> fst (insert_area v ms) = []"
  using assms
proof (induction ms)
  case (Cons m ms)
  have m: "area_ok m" "apart v m" using Cons.prems by auto
  show ?case
  proof (cases "vm_start v < vm_start m")
    case True
    then have "vm_end v \<le> vm_start m" using m Cons.prems(2) by (auto simp: apart_def area_ok_def)
    moreover have "vm_start m \<le> vm_start n" if "n \<in> set ms" for n using Cons.prems(1) that by (auto simp: area_ok_def)
    ultimately show ?thesis using True Cons.prems by (auto simp: area_ok_def)
  next
    case False
    then have "vm_end m \<le> vm_start v" using m Cons.prems(2) by (auto simp: apart_def area_ok_def)
    moreover from this have "\<not> (vm_start m \<le> vm_end v \<and> vm_end v < vm_end m)" "\<not> vm_start v < vm_end m" using Cons.prems(2) by (auto simp: area_ok_def)
    ultimately show ?thesis using False Cons by (auto simp: Let_def split: prod.splits)
  qed
qed simp

lemma insert_vm_struct_simps [simp]: "vm (insert_vm_struct v s) = vm s" "i_count (insert_vm_struct v s) = i_count s" "km_answers (insert_vm_struct v s) = km_answers s"
  "mmap (insert_vm_struct v s) = snd (insert_area v (mmap s))" "mm_errno (insert_vm_struct v s) = mm_errno s"
  by (simp_all add: insert_vm_struct_def Let_def split: prod.splits)

lemma amap_insert:
  assumes "mmap_ok ms" "area_ok v" "\<forall>m\<in>set ms. apart v m"
  shows "amap (snd (insert_area v ms)) va = (if covers va v then Some (mapped_as v va) else amap ms va)"
proof -
  note i = insert_area_ok [OF assms]
  have i: "mmap_ok (snd (insert_area v ms))" "set (snd (insert_area v ms)) = insert v (set ms)" using i by auto
  show ?thesis
  proof (cases "covers va v")
    case True
    then show ?thesis using amap_iff [OF i(1), of va "mapped_as v va"] i(2) by auto
  next
    case False
    have "amap (snd (insert_area v ms)) va = amap ms va" by (rule amap_cong [OF assms(1) i(1)]) (use i(2) False in auto)
    then show ?thesis using False by simp
  qed
qed

text \<open>The two ways in which \<^verbatim>\<open>merge_segments\<close> is called.\<close>

abbreviation anon_merge :: "(vm_area \<Rightarrow> vm_area \<Rightarrow> bool) option" where
  "anon_merge \<equiv> Some (\<lambda>m1 m2. ignoff_mergep m1 m2 None)"

lemma merged_area:
  assumes "mergep = None \<or> mergep = anon_merge" "mergeable mergep prev m" "area_ok prev" "area_ok m"
  shows "covers va (prev\<lparr>vm_end := vm_end m\<rparr>) \<longleftrightarrow> covers va prev \<or> covers va m" "covers va m \<Longrightarrow> mapped_as prev va = mapped_as m va"
    "mapped_as (prev\<lparr>vm_end := vm_end m\<rparr>) va = mapped_as prev va"
proof -
  show "covers va (prev\<lparr>vm_end := vm_end m\<rparr>) \<longleftrightarrow> covers va prev \<or> covers va m" using assms(2-4) by (auto simp: covers_def mergeable_def area_ok_def)
  show "mapped_as (prev\<lparr>vm_end := vm_end m\<rparr>) va = mapped_as prev va" by (simp add: mapped_as_def)
  have "vm_inode m = None \<or> vm_offset prev + (va - vm_start prev) = vm_offset m + (va - vm_start m)"
  proof (cases mergep)
    case None
    then have "vm_offset m = vm_offset prev + (vm_start m - vm_start prev)" using assms(2) by (auto simp: mergeable_def offsets_meet_def)
    then show ?thesis by simp
  next
    case (Some f)
    then show ?thesis using assms(1,2) by (auto simp: mergeable_def ignoff_mergep_def split: if_splits)
  qed
  then show "mapped_as prev va = mapped_as m va" using assms(2) by (cases "vm_inode m") (auto simp: mapped_as_def mergeable_def)
qed

lemma merge_loop_ok:
  assumes "mergep = None \<or> mergep = anon_merge" "mmap_ok (prev # ms)"
  shows "mmap_ok (merge_loop mergep prev ms) \<and> amap (merge_loop mergep prev ms) = amap (prev # ms)
    \<and> (\<forall>n\<in>set (merge_loop mergep prev ms). vm_start prev \<le> vm_start n)"
  using assms(2)
proof (induction ms arbitrary: prev)
  case (Cons m ms)
  have ok: "area_ok prev" "area_ok m" "vm_end prev \<le> vm_start m" using Cons.prems by auto
  show ?case
  proof (cases "mergeable mergep prev m")
    case True
    let ?p = "prev\<lparr>vm_end := vm_end m\<rparr>"
    note a = merged_area [OF assms(1) True ok(1,2)]
    have "area_ok ?p" using ok by (auto simp: area_ok_def)
    then have p: "mmap_ok (?p # ms)" using Cons.prems by auto
    have "amap (?p # ms) va = amap (prev # m # ms) va" for va by (rule amap_cong) (use Cons.prems p a in auto)
    then show ?thesis using Cons.IH [OF p] True by auto
  next
    case False
    have m: "mmap_ok (m # ms)" using Cons.prems by simp
    note ih = Cons.IH [OF m]
    have low: "\<forall>n\<in>set (merge_loop mergep m ms). vm_end prev \<le> vm_start n" using ih ok(3) by (meson order_trans)
    then have "mmap_ok (prev # merge_loop mergep m ms)" using ih ok(1) by simp
    moreover have "amap (prev # merge_loop mergep m ms) va = amap (prev # m # ms) va" for va using ih by simp
    moreover have "vm_start prev \<le> vm_end prev" using ok(1) by (auto simp: area_ok_def)
    ultimately show ?thesis using False low by (auto simp: order_trans)
  qed
qed (simp add: area_ok_def)

lemma merge_segments_simps [simp]: "vm (merge_segments p s) = vm s" "i_count (merge_segments p s) = i_count s" "km_answers (merge_segments p s) = km_answers s"
  "mm_errno (merge_segments p s) = mm_errno s"
  by (simp_all add: merge_segments_def split: list.splits)

lemma merge_segments_ok:
  assumes "mergep = None \<or> mergep = anon_merge" "mmap_ok (mmap s)"
  shows "mmap_ok (mmap (merge_segments mergep s))" "amap (mmap (merge_segments mergep s)) = amap (mmap s)"
proof -
  have "mmap_ok (mmap (merge_segments mergep s)) \<and> amap (mmap (merge_segments mergep s)) = amap (mmap s)"
  proof (cases "mmap s")
    case (Cons m ms)
    then show ?thesis using merge_loop_ok [OF assms(1), of m ms] assms(2) by (simp add: merge_segments_def)
  qed (simp add: merge_segments_def)
  then show "mmap_ok (mmap (merge_segments mergep s))" "amap (mmap (merge_segments mergep s)) = amap (mmap s)" by auto
qed

section \<open>Unmapping\<close>

text \<open>The references to an inode that the areas hold.\<close>

definition refs :: "vm_area list \<Rightarrow> nat \<Rightarrow> int" where
  "refs ms i = int (length (filter (\<lambda>m. vm_inode m = Some i) ms))"

lemma refs_simps [simp]: "refs [] i = 0" "refs (m # ms) i = (if vm_inode m = Some i then 1 else 0) + refs ms i" "refs (xs @ ys) i = refs xs i + refs ys i" "refs (rev xs) i = refs xs i"
  by (simp_all add: refs_def rev_filter [symmetric])

lemma refs_insert [simp]: "refs (snd (insert_area v ms)) i = (if vm_inode v = Some i then 1 else 0) + refs ms i"
  by (induction ms) (auto simp: Let_def split: prod.splits)

lemma refs_split: "refs (filter P ms) i + refs (filter (\<lambda>m. \<not> P m) ms) i = refs ms i"
  by (induction ms) auto

definition file_ok :: "vm_area \<Rightarrow> bool" where
  "file_ok m \<longleftrightarrow> (vm_inode m \<noteq> None \<longrightarrow> vm_opsp m \<noteq> None)"

definition within :: "vm_area \<Rightarrow> vm_area \<Rightarrow> bool" where
  "within n m \<longleftrightarrow> vm_start m \<le> vm_start n \<and> vm_end n \<le> vm_end m \<and> (file_ok m \<longrightarrow> file_ok n)"

lemma within_apart: "within n m \<Longrightarrow> apart m k \<Longrightarrow> apart n k"
  by (auto simp: within_def apart_def)

lemma km_area_more [simp]: "km_answers s = [] \<Longrightarrow> km_area s = (True, s)"
  by (simp add: km_area_def)

lemma igrab_simps [simp]: "vm (igrab io s) = vm s" "mmap (igrab io s) = mmap s" "km_answers (igrab io s) = km_answers s" "mm_errno (igrab io s) = mm_errno s"
  "i_count (igrab io s) i = i_count s i + (if io = Some i then 1 else 0)"
  by (simp_all add: igrab_def split: option.splits)

lemma file_mmap_free_simps [simp]: "vm (file_mmap_free m s) = vm s" "mmap (file_mmap_free m s) = mmap s" "km_answers (file_mmap_free m s) = km_answers s"
  "mm_errno (file_mmap_free m s) = mm_errno s" "i_count (file_mmap_free m s) i = i_count s i - (if vm_inode m = Some i then 1 else 0)"
  by (simp_all add: file_mmap_free_def iput_def split: option.splits)

definition left_part :: "vm_area \<Rightarrow> u32 \<Rightarrow> vm_area" where
  "left_part m st = m\<lparr>vm_end := st\<rparr>"

definition right_part :: "vm_area \<Rightarrow> u32 \<Rightarrow> vm_area" where
  "right_part m e = m\<lparr>vm_offset := vm_offset m + (e - vm_start m), vm_start := e\<rparr>"

lemma parts:
  assumes "area_ok m" "vm_start m \<le> st" "st < e" "e \<le> vm_end m" "aligned st" "aligned e"
  shows "vm_start m < st \<Longrightarrow> area_ok (left_part m st)" "e < vm_end m \<Longrightarrow> area_ok (right_part m e)"
    "within (left_part m st) m" "within (right_part m e) m" "apart (left_part m st) (right_part m e)"
    "covers va (left_part m st) \<longleftrightarrow> covers va m \<and> va < st" "covers va (right_part m e) \<longleftrightarrow> covers va m \<and> e \<le> va"
    "mapped_as (left_part m st) va = mapped_as m va" "mapped_as (right_part m e) va = mapped_as m va"
    "vm_inode (left_part m st) = vm_inode m" "vm_inode (right_part m e) = vm_inode m"
  using assms by (auto simp: left_part_def right_part_def area_ok_def within_def file_ok_def apart_def covers_def mapped_as_def)

text \<open>What is left of an area is put back.\<close>

definition put_back :: "vm_area \<Rightarrow> u32 \<Rightarrow> u32 \<Rightarrow> vm_area list" where
  "put_back m st e = (if e < vm_end m then [right_part m e] else []) @ (if vm_start m < st then [left_part m st] else [])"

lemma unmap_fixup_runs:
  assumes "km_answers s = []" "area_ok m" "vm_start m \<le> st" "st < e" "e \<le> vm_end m" "file_ok m"
  obtains s' where "unmap_fixup m st (e - st) s = Some s'" "mmap s' = foldl (\<lambda>ms v. snd (insert_area v ms)) (mmap s) (put_back m st e)" "km_answers s' = []" "vm s' = vm s"
    "\<And>i. i_count s' i = i_count s i + refs (put_back m st e) i - refs [m] i" "mm_errno s' = mm_errno s"
proof -
  have e: "st + (e - st) = e" by simp
  have no: "\<not> (st < vm_start m \<or> vm_end m \<le> st \<or> e \<le> vm_start m \<or> vm_end m < e \<or> e < st)" using assms by auto
  consider "st = vm_start m" "e = vm_end m" | "st = vm_start m" "e < vm_end m" | "vm_start m < st" "e = vm_end m" | "vm_start m < st" "e < vm_end m"
    using assms(3,5) by fastforce
  then show thesis
  proof cases
    case 1
    show ?thesis by (rule that [of "if vm_opsp m \<noteq> None then file_mmap_free m s else s"])
        (use 1 no assms in \<open>auto simp: unmap_fixup_def Let_def put_back_def file_ok_def\<close>)
  next
    case 2
    show ?thesis by (rule that [of "insert_vm_struct (right_part m e) s"])
        (use 2 no assms in \<open>auto simp: unmap_fixup_def Let_def put_back_def right_part_def\<close>)
  next
    case 3
    show ?thesis by (rule that [of "insert_vm_struct (left_part m st) s"])
        (use 3 no assms in \<open>auto simp: unmap_fixup_def Let_def put_back_def left_part_def\<close>)
  next
    case 4
    show ?thesis by (rule that [of "insert_vm_struct (left_part m st) (insert_vm_struct (right_part m e) (igrab (vm_inode m) s))"])
        (use 4 no assms in \<open>auto simp: unmap_fixup_def Let_def put_back_def left_part_def right_part_def\<close>)
  qed
qed

lemma insert_areas_ok:
  assumes "mmap_ok ms" "\<forall>v\<in>set vs. area_ok v \<and> (\<forall>m\<in>set ms. apart v m)" "sorted_wrt apart vs"
  shows "mmap_ok (foldl (\<lambda>ms v. snd (insert_area v ms)) ms vs) \<and> set (foldl (\<lambda>ms v. snd (insert_area v ms)) ms vs) = set vs \<union> set ms
    \<and> (\<forall>i. refs (foldl (\<lambda>ms v. snd (insert_area v ms)) ms vs) i = refs vs i + refs ms i)"
  using assms
proof (induction vs arbitrary: ms)
  case (Cons v vs)
  note i = insert_area_ok [of ms v]
  have i: "mmap_ok (snd (insert_area v ms))" "set (snd (insert_area v ms)) = insert v (set ms)" using i Cons.prems by auto
  have "\<forall>w\<in>set vs. area_ok w \<and> (\<forall>m\<in>set (snd (insert_area v ms)). apart w m)" using Cons.prems(2,3) i(2) apart_sym by auto
  then show ?case using Cons.IH [OF i(1)] Cons.prems(3) i(2) by auto
qed simp

lemma unmap_fixup_ok:
  assumes "km_answers s = []" "area_ok m" "vm_start m \<le> st" "st < e" "e \<le> vm_end m" "file_ok m" "aligned st" "aligned e" "mmap_ok (mmap s)" "\<forall>n\<in>set (mmap s). apart m n"
  obtains s' where "unmap_fixup m st (e - st) s = Some s'" "mmap_ok (mmap s')" "km_answers s' = []" "vm s' = vm s" "mm_errno s' = mm_errno s"
    "\<And>n. n \<in> set (mmap s') \<Longrightarrow> n \<in> set (mmap s) \<or> within n m"
    "\<And>va. amap (mmap s') va = (if covers va m \<and> \<not> (st \<le> va \<and> va < e) then Some (mapped_as m va) else amap (mmap s) va)"
    "\<And>i. i_count s' i - refs (mmap s') i = i_count s i - refs (m # mmap s) i"
proof -
  note P = parts [OF assms(2-5,7,8)]
  have pb: "\<forall>v\<in>set (put_back m st e). area_ok v \<and> within v m" using P(1-4) by (auto simp: put_back_def)
  have ap: "sorted_wrt apart (put_back m st e)" using P(5) apart_sym by (auto simp: put_back_def)
  note ins = insert_areas_ok [OF assms(9) _ ap]
  have ins: "mmap_ok (foldl (\<lambda>ms v. snd (insert_area v ms)) (mmap s) (put_back m st e))"
    "set (foldl (\<lambda>ms v. snd (insert_area v ms)) (mmap s) (put_back m st e)) = set (put_back m st e) \<union> set (mmap s)"
    "refs (foldl (\<lambda>ms v. snd (insert_area v ms)) (mmap s) (put_back m st e)) i = refs (put_back m st e) i + refs (mmap s) i" for i
    using ins pb within_apart assms(10) by blast+
  from unmap_fixup_runs [OF assms(1-6)] show thesis
  proof cases
    case (1 s')
    note ok = ins(1) [folded 1(2)] and st = ins(2) [folded 1(2)]
    have "amap (mmap s') va = (if covers va m \<and> \<not> (st \<le> va \<and> va < e) then Some (mapped_as m va) else amap (mmap s) va)" for va
    proof (cases "covers va m")
      case True
      then have "\<not> (\<exists>n\<in>set (mmap s). covers va n)" using assms(10) apart_covers by blast
      then have none: "amap (mmap s) va = None" by (rule amap_None)
      consider "va < st" | "e \<le> va" | "st \<le> va" "va < e" by fastforce
      then show ?thesis
      proof cases
        case 1
        have "vm_start m < st" using 1 True by (auto simp: covers_def)
        then have "left_part m st \<in> set (mmap s')" "covers va (left_part m st)" using 1 True P(6) st by (simp_all add: put_back_def)
        then have "amap (mmap s') va = Some (mapped_as m va)" using amap_iff [OF ok, of va "mapped_as m va"] P(8) by blast
        then show ?thesis using 1 True by auto
      next
        case 2
        have "e < vm_end m" using 2 True by (auto simp: covers_def)
        then have "right_part m e \<in> set (mmap s')" "covers va (right_part m e)" using 2 True P(7) st by (simp_all add: put_back_def)
        then have "amap (mmap s') va = Some (mapped_as m va)" using amap_iff [OF ok, of va "mapped_as m va"] P(9) by blast
        then show ?thesis using 2 True by auto
      next
        case 3
        then have "\<not> (\<exists>n\<in>set (mmap s'). covers va n)" using P(6,7) st \<open>\<not> (\<exists>n\<in>set (mmap s). covers va n)\<close> by (auto simp: put_back_def split: if_splits)
        then show ?thesis using amap_None 3 none by simp
      qed
    next
      case False
      have "amap (mmap s') va = amap (mmap s) va" by (rule amap_cong [OF assms(9) ok]) (use False P(6,7) st in \<open>auto simp: put_back_def\<close>)
      then show ?thesis using False by simp
    qed
    moreover have "n \<in> set (mmap s') \<Longrightarrow> n \<in> set (mmap s) \<or> within n m" for n using st pb by auto
    moreover have "i_count s' i - refs (mmap s') i = i_count s i - refs (m # mmap s) i" for i using 1(5) [of i] ins(3) [of i] unfolding 1(2) by simp
    ultimately show ?thesis using that 1(1,3,4,6) ok by blast
  qed
qed

lemma unmap_areas_ok:
  assumes "km_answers s = []" "mmap_ok (mmap s)" "\<forall>m\<in>set hs. area_ok m \<and> file_ok m \<and> (\<forall>n\<in>set (mmap s). apart m n) \<and> \<not> untouched addr (addr + len) m" "sorted_wrt apart hs"
    and "aligned addr" "aligned (addr + len)" "addr < addr + len" "\<forall>n\<in>set (mmap s). file_ok n"
  shows "\<exists>s'. unmap_areas addr len hs s = Some s' \<and> mmap_ok (mmap s') \<and> km_answers s' = [] \<and> vm s' = vm s \<and> mm_errno s' = mm_errno s \<and> (\<forall>n\<in>set (mmap s'). file_ok n)
    \<and> (\<forall>va. amap (mmap s') va = (if \<exists>m\<in>set hs. covers va m then (if addr \<le> va \<and> va < addr + len then None else amap hs va) else amap (mmap s) va))
    \<and> (\<forall>i. i_count s' i - refs (mmap s') i = i_count s i - refs (hs @ mmap s) i)"
  using assms(1-4,8)
proof (induction hs arbitrary: s)
  case (Cons m hs)
  define st where "st = (if addr < vm_start m then vm_start m else addr)"
  define e where "e = (if vm_end m < addr + len then vm_end m else addr + len)"
  have m: "area_ok m" "file_ok m" "\<forall>n\<in>set (mmap s). apart m n" "\<not> untouched addr (addr + len) m" using Cons.prems(3) by auto
  have b: "vm_start m \<le> st" "st < e" "e \<le> vm_end m" "aligned st" "aligned e"
    using m(1,4) assms(5-7) by (auto simp: st_def e_def untouched_def area_ok_def)
  have inr: "covers va m \<Longrightarrow> st \<le> va \<and> va < e \<longleftrightarrow> addr \<le> va \<and> va < addr + len" for va by (auto simp: st_def e_def covers_def)
  from unmap_fixup_ok [OF Cons.prems(1) m(1) b(1-3) m(2) b(4,5) Cons.prems(2) m(3)] show ?case
  proof cases
    case (1 s1)
    have ap: "\<forall>h\<in>set hs. area_ok h \<and> file_ok h \<and> (\<forall>n\<in>set (mmap s1). apart h n) \<and> \<not> untouched addr (addr + len) h"
      using Cons.prems(3,4) 1(6) within_apart apart_sym by (metis list.set_intros(2) sorted_wrt.simps(2))
    have fo: "\<forall>n\<in>set (mmap s1). file_ok n" using 1(6) Cons.prems(5) m(2) by (auto simp: within_def)
    from Cons.IH [OF 1(3,2) ap _ fo] Cons.prems(4) obtain s2 where 2: "unmap_areas addr len hs s1 = Some s2" "mmap_ok (mmap s2)" "km_answers s2 = []" "vm s2 = vm s1"
      "mm_errno s2 = mm_errno s1" "\<forall>n\<in>set (mmap s2). file_ok n"
      "\<forall>va. amap (mmap s2) va = (if \<exists>m\<in>set hs. covers va m then (if addr \<le> va \<and> va < addr + len then None else amap hs va) else amap (mmap s1) va)"
      "\<forall>i. i_count s2 i - refs (mmap s2) i = i_count s1 i - refs (hs @ mmap s1) i" by auto
    have run: "unmap_areas addr len (m # hs) s = Some s2" using 1(1) 2(1) unfolding unmap_areas.simps Let_def st_def [symmetric] e_def [symmetric] by simp
    have none: "covers va m \<Longrightarrow> \<not> (\<exists>h\<in>set hs. covers va h)" for va using Cons.prems(4) apart_covers by auto
    have av: "amap (mmap s2) va = (if \<exists>h\<in>set (m # hs). covers va h then (if addr \<le> va \<and> va < addr + len then None else amap (m # hs) va) else amap (mmap s) va)" for va
    proof (cases "covers va m")
      case True
      have "\<not> (\<exists>n\<in>set (mmap s). covers va n)" using m(3) True apart_covers by blast
      then have "amap (mmap s) va = None" by (rule amap_None)
      then show ?thesis using True none [OF True] 2(7) 1(7) [of va] inr [OF True] by auto
    qed (use 2(7) 1(7) [of va] in auto)
    have "i_count s2 i - refs (mmap s2) i = i_count s i - refs ((m # hs) @ mmap s) i" for i using 2(8) [rule_format, of i] 1(8) [of i] by simp
    then show ?thesis using run 2(2-6) 1(4,5) av by auto
  qed
qed simp

section \<open>Whole calls\<close>

definition maps_ok :: "mm_state \<Rightarrow> bool" where
  "maps_ok s \<longleftrightarrow> mmap_ok (mmap s) \<and> (\<forall>n\<in>set (mmap s). file_ok n) \<and> km_answers s = []"

definition outside :: "u32 \<Rightarrow> u32 \<Rightarrow> (u32 \<Rightarrow> mapping option) \<Rightarrow> u32 \<Rightarrow> mapping option" where
  "outside addr len A va = (if addr \<le> va \<and> va < addr + len then None else A va)"

lemma outside_0 [simp]: "outside addr 0 A = A"
  by (auto simp: outside_def fun_eq_iff)

lemma PAGE_ALIGN_aligned [simp]: "aligned (PAGE_ALIGN a)"
  by (simp add: PAGE_ALIGN_def)

lemma aligned_dvd: "aligned a \<longleftrightarrow> 4096 dvd unat a"
proof
  assume "aligned a"
  then show "4096 dvd unat a" using unat_aligned by (metis dvd_triv_left)
next
  assume "4096 dvd unat a"
  then have "unat (page_bits a) = 0" unfolding page_bits_bits unsigned_take_bit_eq by (simp add: take_bit_eq_mod)
  then show "aligned a" by (simp only: unat_eq_0)
qed

lemma aligned_add: "aligned a \<Longrightarrow> aligned b \<Longrightarrow> unat a + unat b < 2 ^ 32 \<Longrightarrow> aligned (a + b)"
  by (simp add: aligned_dvd unat_word_ariths)

lemma align_range:
  assumes "aligned addr" "addr \<le> TASK_SIZE" "len \<le> TASK_SIZE - addr"
  shows "unat (addr + PAGE_ALIGN len) = unat addr + unat (PAGE_ALIGN len)" "addr + PAGE_ALIGN len \<le> TASK_SIZE" "aligned (addr + PAGE_ALIGN len)"
    "PAGE_ALIGN len \<noteq> 0 \<Longrightarrow> addr < addr + PAGE_ALIGN len"
proof -
  have "unat (TASK_SIZE - addr) = unat TASK_SIZE - unat addr" using assms(2) by (intro unat_sub) simp
  then have l: "unat len + unat addr \<le> 3221225472" "unat addr \<le> 3221225472" using assms(2,3) by (simp_all add: word_le_nat_alt)
  have "unat (len + 4096 - 1) = unat len + 4095" using l by (simp add: unat_word_ariths)
  then have "unat (PAGE_ALIGN len) = 4096 * ((unat len + 4095) div 4096)"
    using unat_aligned [of "page_of (len + 4096 - 1)"] MAP_NR_div [of "len + 4096 - 1"] by (simp only: PAGE_ALIGN_def MAP_NR_page_of aligned_page_of)
  moreover obtain k where k: "unat addr = 4096 * k" using unat_aligned [OF assms(1)] by blast
  moreover have "unat len + 4095 < 4096 * (786433 - k)" using l k by simp
  then have "(unat len + 4095) div 4096 < 786433 - k" by (simp add: less_mult_imp_div_less mult.commute)
  ultimately have b: "unat addr + unat (PAGE_ALIGN len) \<le> 3221225472" by simp
  then show u: "unat (addr + PAGE_ALIGN len) = unat addr + unat (PAGE_ALIGN len)" by (simp add: unat_word_ariths)
  show "addr + PAGE_ALIGN len \<le> TASK_SIZE" using b by (simp add: word_le_nat_alt u)
  show "aligned (addr + PAGE_ALIGN len)" using b by (intro aligned_add assms(1)) simp_all
  show "addr < addr + PAGE_ALIGN len" if "PAGE_ALIGN len \<noteq> 0" using that by (simp add: word_less_nat_alt u unat_gt_0)
qed

lemma do_munmap_ok:
  assumes "maps_ok s" "aligned addr" "addr \<le> TASK_SIZE" "len \<le> TASK_SIZE - addr"
  obtains s' where "do_munmap addr len s = Some (0, s')" "maps_ok s'" "amap (mmap s') = outside addr (PAGE_ALIGN len) (amap (mmap s))"
    "\<And>i. i_count s' i - refs (mmap s') i = i_count s i - refs (mmap s) i" "mm_errno s' = mm_errno s"
proof (cases "PAGE_ALIGN len = 0")
  case True
  have "do_munmap addr len s = Some (0, s)" using assms(2-4) True by (simp add: do_munmap_def not_less)
  then show thesis using that [of s] assms(1) True by simp
next
  case False
  have ng: "\<not> TASK_SIZE < addr" "\<not> TASK_SIZE - addr < len" using assms(3,4) by (simp_all only: not_less)
  let ?l = "PAGE_ALIGN len"
  let ?P = "untouched addr (addr + ?l)"
  note r = align_range [OF assms(2-4)]
  have s: "mmap_ok (mmap s)" "\<forall>n\<in>set (mmap s). file_ok n" "km_answers s = []" using assms(1) by (auto simp: maps_ok_def)
  define h where "h = rev (filter (\<lambda>m. \<not> ?P m) (mmap s))"
  define s1 where "s1 = s\<lparr>mmap := filter ?P (mmap s)\<rparr>"
  have run: "do_munmap addr len s = (if h = [] then Some (0, s1) else do { s \<leftarrow> unmap_areas addr ?l h s1; Some (0, unmap_range addr ?l s) })"
    using assms(2) ng False unfolding do_munmap_def h_def s1_def Let_def by (simp only: simp_thms if_False)
  have ap: "\<forall>m\<in>set h. area_ok m \<and> file_ok m \<and> (\<forall>n\<in>set (mmap s1). apart m n) \<and> \<not> ?P m"
    using s mmap_ok_apart [OF s(1)] by (auto simp: h_def s1_def mmap_ok_def)
  have so: "sorted_wrt apart h" using mmap_ok_filter [OF s(1), of "\<lambda>m. \<not> ?P m"]
    by (auto simp: h_def mmap_ok_def sorted_wrt_rev apart_def intro: sorted_wrt_mono_rel)
  have k1: "km_answers s1 = []" "mmap_ok (mmap s1)" "\<forall>n\<in>set (mmap s1). file_ok n" using s mmap_ok_filter by (auto simp: s1_def)
  obtain s2 where 2: "unmap_areas addr ?l h s1 = Some s2" "mmap_ok (mmap s2)" "km_answers s2 = []" "mm_errno s2 = mm_errno s1" "\<forall>n\<in>set (mmap s2). file_ok n"
    "\<forall>va. amap (mmap s2) va = (if \<exists>m\<in>set h. covers va m then (if addr \<le> va \<and> va < addr + ?l then None else amap h va) else amap (mmap s1) va)"
    "\<forall>i. i_count s2 i - refs (mmap s2) i = i_count s1 i - refs (h @ mmap s1) i"
    using unmap_areas_ok [OF k1(1,2) ap so assms(2) r(3) r(4) [OF False] k1(3)] by blast
  have "do_munmap addr len s = Some (0, if h = [] then s2 else unmap_range addr ?l s2)" using run 2(1) by auto
  moreover have "maps_ok (if h = [] then s2 else unmap_range addr ?l s2)" using 2(2,3,5) by (auto simp: maps_ok_def unmap_range_def)
  moreover have "amap (mmap s2) va = outside addr ?l (amap (mmap s)) va" for va
  proof (cases "\<exists>m\<in>set h. covers va m")
    case True
    then obtain m where m: "m \<in> set (mmap s)" "covers va m" "m \<in> set h" by (auto simp: h_def)
    have "amap h va = amap (mmap s) va"
    proof -
      obtain n where "find (covers va) h = Some n" using m(2,3) by (cases "find (covers va) h") (auto simp: find_None_iff)
      then have "n \<in> set h" "covers va n" "amap h va = Some (mapped_as n va)" by (simp_all add: find_in amap_def)
      moreover from this have "n \<in> set (mmap s)" by (simp add: h_def)
      ultimately show ?thesis using amap_iff [OF s(1)] by metis
    qed
    then show ?thesis using 2(6) True by (simp add: outside_def)
  next
    case False
    then have "amap (mmap s1) va = amap (mmap s) va" by (intro amap_cong s(1) k1(2)) (auto simp: h_def s1_def)
    moreover have "amap (mmap s) va = None" if "addr \<le> va" "va < addr + ?l"
    proof (rule amap_None, safe)
      fix m assume m: "m \<in> set (mmap s)" "covers va m"
      then have "?P m" using False by (auto simp: h_def)
      then show False using m(2) that by (auto simp: untouched_def covers_def)
    qed
    ultimately show ?thesis using 2(6) False by (auto simp: outside_def)
  qed
  moreover have "i_count s2 i - refs (mmap s2) i = i_count s i - refs (mmap s) i" for i
    using 2(7) [rule_format, of i] refs_split [of ?P "mmap s" i] by (simp add: s1_def h_def)
  ultimately show thesis using that [of "if h = [] then s2 else unmap_range addr ?l s2"] 2(4) by (auto simp: unmap_range_def s1_def fun_eq_iff)
qed

end
