(* ===== verification/Mmap_Events.thy ===== *)
theory Mmap_Events
  imports Mmap_Laws Simulations
begin

text \<open>
  \<^verbatim>\<open>do_mmap\<close> and \<^verbatim>\<open>do_munmap\<close> as operations on a map from addresses to what is mapped there.
\<close>

section \<open>The search for room\<close>

lemma PAGE_ALIGN_id: "aligned a \<Longrightarrow> a \<le> TASK_SIZE \<Longrightarrow> PAGE_ALIGN a = a"
proof -
  assume a: "aligned a" "a \<le> TASK_SIZE"
  have "unat (a + 4096 - 1) = unat a + 4095" using a(2) by (simp add: unat_word_ariths word_le_nat_alt)
  then have "MAP_NR (a + 4096 - 1) = MAP_NR a" using unat_aligned [OF a(1)] unfolding MAP_NR_div by simp
  then show ?thesis using a(1) by (simp add: PAGE_ALIGN_def aligned_iff page_of_eq_iff [symmetric])
qed

definition free_at :: "(u32 \<Rightarrow> mapping option) \<Rightarrow> u32 \<Rightarrow> u32 \<Rightarrow> bool" where
  "free_at A len c \<longleftrightarrow> SHM_RANGE_START \<le> c \<and> unat c + unat len < unat SHM_RANGE_END \<and> (\<forall>va. c \<le> va \<and> va < c + len \<longrightarrow> A va = None)"

lemma free_at_apart:
  assumes "mmap_ok ms" "free_at (amap ms) len c" "m \<in> set ms" "len \<noteq> 0"
  shows "vm_end m \<le> c \<or> c + len \<le> vm_start m"
proof (rule ccontr)
  assume "\<not> ?thesis"
  then have o: "c < vm_end m" "vm_start m < c + len" by auto
  have m: "vm_start m < vm_end m" using assms(1,3) by (auto simp: mmap_ok_def area_ok_def)
  define va where "va = max c (vm_start m)"
  have l: "unat (c + len) = unat c + unat len" using assms(2) by (simp add: free_at_def unat_word_ariths)
  have "covers va m" using o m by (auto simp: va_def covers_def max_def)
  then have "amap ms va = Some (mapped_as m va)" using amap_iff [OF assms(1)] assms(3) by blast
  moreover have "c \<le> va" "va < c + len" using o l assms(4) by (auto simp: va_def max_def word_less_nat_alt word_le_nat_alt unat_gt_0)
  ultimately show False using assms(2) by (auto simp: free_at_def)
qed

lemma first_clash_None: "first_clash a len ms = None \<longleftrightarrow> (\<forall>m\<in>set ms. vm_end m \<le> a \<or> a + len \<le> vm_start m)"
  by (induction ms) auto

lemma first_clash_Some: "first_clash a len ms = Some m \<Longrightarrow> m \<in> set ms \<and> a < vm_end m \<and> vm_start m < a + len"
  by (induction ms) (auto split: if_splits)

text \<open>The search ends, at the lowest room there is.\<close>

lemma find_room_finds:
  assumes "mmap_ok ms" "len < 0x20000000" "len \<noteq> 0" "aligned a" "SHM_RANGE_START \<le> a" "a \<le> TASK_SIZE" "\<forall>c. free_at (amap ms) len c \<longrightarrow> a \<le> c"
  shows "\<exists>b. find_room len ms a = Some b \<and> aligned b \<and> b \<le> TASK_SIZE \<and> (if b + len < SHM_RANGE_END then free_at (amap ms) len b \<and> (\<forall>c. free_at (amap ms) len c \<longrightarrow> b \<le> c)
    else \<not> (\<exists>c. free_at (amap ms) len c))"
  using assms(4-7)
proof (induction "unat TASK_SIZE - unat a" arbitrary: a rule: less_induct)
  case less
  have s: "unat (a + len) = unat a + unat len" using less.prems(3) assms(2) by (simp add: unat_word_ariths word_le_nat_alt word_less_nat_alt)
  show ?case
  proof (cases "a + len < SHM_RANGE_END")
    case False
    have "\<not> free_at (amap ms) len c" for c
    proof
      assume f: "free_at (amap ms) len c"
      then have "a \<le> c" "unat c + unat len < 1610612736" using less.prems(4) by (auto simp: free_at_def)
      then show False using False s by (simp add: word_less_nat_alt word_le_nat_alt)
    qed
    then show ?thesis using False less.prems by (subst find_room.simps) auto
  next
    case True
    show ?thesis
    proof (cases "first_clash a len ms")
      case None
      have "amap ms va = None" if "a \<le> va" "va < a + len" for va
      proof (rule amap_None, safe)
        fix m assume "m \<in> set ms" "covers va m"
        then show False using None that by (auto simp: first_clash_None covers_def)
      qed
      then have "free_at (amap ms) len a" using True less.prems(2) s by (simp add: free_at_def word_less_nat_alt)
      then show ?thesis using True None less.prems by (subst find_room.simps) auto
    next
      case (Some m)
      then have m: "m \<in> set ms" "a < vm_end m" "vm_start m < a + len" using first_clash_Some by auto
      then have e: "aligned (vm_end m)" "vm_end m \<le> TASK_SIZE" using assms(1) by (auto simp: mmap_ok_def area_ok_def)
      have up: "\<forall>c. free_at (amap ms) len c \<longrightarrow> vm_end m \<le> c"
      proof (intro allI impI)
        fix c assume f: "free_at (amap ms) len c"
        then have "unat (c + len) = unat c + unat len" by (simp add: free_at_def unat_word_ariths)
        then show "vm_end m \<le> c" using free_at_apart [OF assms(1) f m(1) assms(3)] m(3) less.prems(4) f s by (auto simp: word_less_nat_alt word_le_nat_alt)
      qed
      have "unat TASK_SIZE - unat (vm_end m) < unat TASK_SIZE - unat a" using m(2) e(2) by (simp add: word_less_nat_alt word_le_nat_alt)
      from less.hyps [OF this e(1) _ e(2) up] less.prems(2) m(2) have "\<exists>b. find_room len ms (vm_end m) = Some b \<and> aligned b \<and> b \<le> TASK_SIZE
        \<and> (if b + len < SHM_RANGE_END then free_at (amap ms) len b \<and> (\<forall>c. free_at (amap ms) len c \<longrightarrow> b \<le> c) else \<not> (\<exists>c. free_at (amap ms) len c))" by auto
      moreover have "find_room len ms a = find_room len ms (vm_end m)" using True Some PAGE_ALIGN_id [OF e] by (subst find_room.simps) simp
      ultimately show ?thesis by simp
    qed
  qed
qed

section \<open>Mapping\<close>

definition onto :: "u32 \<Rightarrow> u32 \<Rightarrow> (u32 \<Rightarrow> mapping) \<Rightarrow> (u32 \<Rightarrow> mapping option) \<Rightarrow> u32 \<Rightarrow> mapping option" where
  "onto addr len w A va = (if addr \<le> va \<and> va < addr + len then Some (w va) else A va)"

lemma area_range: "vm_start m \<le> va \<and> va < vm_start m + (vm_end m - vm_start m) \<longleftrightarrow> covers va m"
  by (simp add: covers_def)

text \<open>A new area in a range that is free.\<close>

lemma new_area:
  assumes "maps_ok s" "area_ok m" "amap (mmap s) = outside (vm_start m) (vm_end m - vm_start m) A" "file_ok m" "mergep = None \<or> mergep = anon_merge"
  defines "s' \<equiv> merge_segments mergep (insert_vm_struct m s)"
  shows "mmap_ok (mmap s')" "amap (mmap s') = onto (vm_start m) (vm_end m - vm_start m) (mapped_as m) A"
proof -
  have ok: "mmap_ok (mmap s)" using assms(1) by (simp add: maps_ok_def)
  have ap: "\<forall>n\<in>set (mmap s). apart m n"
  proof (rule ccontr)
    assume "\<not> ?thesis"
    then obtain n where n: "n \<in> set (mmap s)" "\<not> apart m n" by blast
    have "area_ok n" using ok n(1) by (simp add: mmap_ok_def)
    then have "covers (max (vm_start m) (vm_start n)) n" "covers (max (vm_start m) (vm_start n)) m" using n(2) assms(2) by (auto simp: covers_def apart_def area_ok_def max_def)
    moreover from this have "amap (mmap s) (max (vm_start m) (vm_start n)) \<noteq> None" using amap_iff [OF ok] n(1) by blast
    ultimately show False unfolding assms(3) outside_def area_range by simp
  qed
  note i = insert_area_ok [OF ok assms(2) ap] and a = amap_insert [OF ok assms(2) ap]
  have m: "mmap_ok (mmap (insert_vm_struct m s))" using i by simp
  show "mmap_ok (mmap s')" unfolding s'_def by (rule merge_segments_ok(1) [OF assms(5) m])
  show "amap (mmap s') = onto (vm_start m) (vm_end m - vm_start m) (mapped_as m) A"
    unfolding s'_def merge_segments_ok(2) [OF assms(5) m] unfolding fun_eq_iff onto_def area_range by (simp add: a assms(3) outside_def area_range [symmetric])
qed

lemma merge_file_ok: "list_all file_ok (prev # ms) \<Longrightarrow> list_all file_ok (merge_loop mergep prev ms)"
proof (induction ms arbitrary: prev)
  case (Cons m ms)
  have "file_ok (prev\<lparr>vm_end := vm_end m\<rparr>)" using Cons.prems by (simp add: file_ok_def)
  then show ?case using Cons.IH [of m] Cons.IH [of "prev\<lparr>vm_end := vm_end m\<rparr>"] Cons.prems by (cases "mergeable mergep prev m") simp_all
qed simp

lemma insert_file_ok: "file_ok v \<Longrightarrow> list_all file_ok ms \<Longrightarrow> list_all file_ok (snd (insert_area v ms))"
  by (induction ms) (simp_all add: Let_def split_beta)

lemma new_area_files:
  assumes "maps_ok s" "file_ok m" "mmap_ok (mmap (merge_segments mergep (insert_vm_struct m s)))"
  shows "maps_ok (merge_segments mergep (insert_vm_struct m s))"
proof -
  have "list_all file_ok (mmap s)" using assms(1) by (simp add: maps_ok_def list_all_iff)
  then have l: "list_all file_ok (mmap (insert_vm_struct m s))" using insert_file_ok [OF assms(2)] by simp
  have "list_all file_ok (mmap (merge_segments mergep (insert_vm_struct m s)))"
  proof (cases "mmap (insert_vm_struct m s)")
    case Nil
    then show ?thesis by (simp add: merge_segments_def del: insert_vm_struct_simps(4))
  next
    case (Cons n ns)
    then show ?thesis using merge_file_ok [of n ns mergep] l by (simp add: merge_segments_def del: insert_vm_struct_simps(4))
  qed
  then show ?thesis using assms(1,3) by (simp add: maps_ok_def list_all_iff)
qed

section \<open>What a mapping does\<close>

text \<open>\<^verbatim>\<open>denied\<close> is the error for a file that may not be mapped so, \<^verbatim>\<open>works\<close> whether the file can be mapped at all, if that is known; \<^verbatim>\<open>w a\<close> is what an area at \<^verbatim>\<open>a\<close>
  maps.\<close>

definition mmap_spec :: "u32 option \<Rightarrow> bool option \<Rightarrow> (u32 \<Rightarrow> u32 \<Rightarrow> mapping) \<Rightarrow> u32 \<Rightarrow> u32 \<Rightarrow> u32 \<Rightarrow> u32 \<Rightarrow> u32 \<Rightarrow> (u32 \<Rightarrow> mapping option) \<Rightarrow> (u32 \<Rightarrow> mapping option) option" where
  "mmap_spec denied works w addr len prot flags r A =
    (let len = PAGE_ALIGN len; fixed = (flags AND 0x10 \<noteq> 0); only = (\<lambda>e. if r = e then Some A else None)
     in if len = 0 then only addr
        else if TASK_SIZE < addr \<or> TASK_SIZE < len \<or> TASK_SIZE - len < addr then only (map_error EINVAL)
        else if denied \<noteq> None then only (the denied)
        else if fixed \<and> page_bits addr \<noteq> 0 then only (map_error EINVAL)
        else if \<not> fixed \<and> \<not> (\<exists>c. free_at A len c) then only (map_error ENOMEM)
        else if prot_mask prot flags = 0 then only (map_error EINVAL)
        else if r = map_error 1 then (if works = Some True then None else Some (if fixed then outside addr len A else A))
        else if works = Some False then None
        else if (if fixed then r = addr else free_at A len r \<and> (\<forall>c. free_at A len c \<longrightarrow> r \<le> c)) then Some (onto r len (w r) A)
        else None)"

definition maps_rel :: "mm_state \<Rightarrow> (u32 \<Rightarrow> mapping option) \<Rightarrow> bool" where
  "maps_rel s A \<longleftrightarrow> maps_ok s \<and> amap (mmap s) = A"

text \<open>What \<^verbatim>\<open>do_mmap\<close> asks of \<^verbatim>\<open>anon_map\<close> and of the \<^verbatim>\<open>mmap\<close> operation of a file.\<close>

definition good_mapper :: "bool option \<Rightarrow> (u32 \<Rightarrow> u32 \<Rightarrow> mapping) \<Rightarrow> (u32 \<Rightarrow> u32 \<Rightarrow> mm_state \<Rightarrow> (int \<times> mm_state) option) \<Rightarrow> bool" where
  "good_mapper works w f \<longleftrightarrow> (\<forall>s A a l. maps_ok s \<and> amap (mmap s) = outside a l A \<and> aligned a \<and> aligned l \<and> l \<noteq> 0 \<and> l \<le> TASK_SIZE \<and> a \<le> TASK_SIZE - l \<longrightarrow>
     (\<exists>e s'. f a l s = Some (e, s') \<and> maps_ok s' \<and> (if e = 0 then works \<noteq> Some False \<and> amap (mmap s') = onto a l (w a) A
        else works \<noteq> Some True \<and> amap (mmap s') = outside a l A)))"

lemma map_range:
  assumes "aligned a" "aligned l" "l \<le> TASK_SIZE" "a \<le> TASK_SIZE - l"
  shows "a \<le> TASK_SIZE" "l \<le> TASK_SIZE - a" "PAGE_ALIGN l = l" "unat (a + l) = unat a + unat l" "a + l \<le> TASK_SIZE" "aligned (a + l)" "l \<noteq> 0 \<Longrightarrow> a < a + l"
proof -
  have "unat (TASK_SIZE - l) = unat TASK_SIZE - unat l" using assms(3) by (intro unat_sub) simp
  then have b: "unat a + unat l \<le> 3221225472" using assms(3,4) by (simp add: word_le_nat_alt)
  show a: "a \<le> TASK_SIZE" using b by (simp add: word_le_nat_alt)
  have "unat (TASK_SIZE - a) = unat TASK_SIZE - unat a" using a by (intro unat_sub) simp
  then show l: "l \<le> TASK_SIZE - a" using b by (simp add: word_le_nat_alt)
  show p: "PAGE_ALIGN l = l" by (rule PAGE_ALIGN_id [OF assms(2,3)])
  note r = align_range [OF assms(1) a l, unfolded p]
  show "unat (a + l) = unat a + unat l" "a + l \<le> TASK_SIZE" "aligned (a + l)" "l \<noteq> 0 \<Longrightarrow> a < a + l" using r by auto
qed

lemma map_at:
  assumes "maps_ok s" "good_mapper works w f" "aligned a" "aligned l" "l \<noteq> 0" "l \<le> TASK_SIZE" "a \<le> TASK_SIZE - l"
  shows "\<exists>e s1 s2. do_munmap a l s = Some (0, s1) \<and> f a l s1 = Some (e, s2) \<and> maps_ok s2 \<and> (if e = 0 then works \<noteq> Some False \<and> amap (mmap s2) = onto a l (w a) (amap (mmap s))
        else works \<noteq> Some True \<and> amap (mmap s2) = outside a l (amap (mmap s)))"
proof -
  note r = map_range [OF assms(3,4,6,7)]
  from do_munmap_ok [OF assms(1,3) r(1,2)] show ?thesis
  proof cases
    case (1 s1)
    then have "amap (mmap s1) = outside a l (amap (mmap s))" using r(3) by simp
    then show ?thesis using assms(2) [unfolded good_mapper_def, rule_format, of s1 a l "amap (mmap s)"] 1(1,2) assms(3-7) by auto
  qed
qed

lemma find_room_start:
  assumes "mmap_ok ms" "l \<noteq> 0" "l < TASK_SIZE" "aligned l"
  shows "\<exists>b. find_room l ms SHM_RANGE_START = Some b \<and> (if b + l < SHM_RANGE_END then free_at (amap ms) l b \<and> (\<forall>c. free_at (amap ms) l c \<longrightarrow> b \<le> c) \<and> aligned b
     else \<not> (\<exists>c. free_at (amap ms) l c))"
proof (cases "l < 0x20000000")
  case True
  have "aligned SHM_RANGE_START" by (simp add: page_bits_def)
  then show ?thesis using find_room_finds [OF assms(1) True assms(2), of SHM_RANGE_START] by (auto simp: free_at_def)
next
  case False
  have "unat (SHM_RANGE_START + l) = unat SHM_RANGE_START + unat l" using assms(3) by (simp add: unat_word_ariths word_less_nat_alt)
  then have "\<not> SHM_RANGE_START + l < SHM_RANGE_END" using False by (simp add: word_less_nat_alt)
  moreover have "\<not> free_at (amap ms) l c" for c using False by (auto simp: free_at_def word_less_nat_alt word_le_nat_alt)
  ultimately show ?thesis by (subst find_room.simps) simp
qed

lemma free_at_range:
  assumes "free_at A l c" "aligned l"
  shows "l \<le> TASK_SIZE" "c \<le> TASK_SIZE - l" "outside c l A = A"
proof -
  have "unat c + unat l < 1610612736" using assms(1) by (simp add: free_at_def)
  then show l: "l \<le> TASK_SIZE" by (simp add: word_le_nat_alt)
  have "unat (TASK_SIZE - l) = unat TASK_SIZE - unat l" using l by (intro unat_sub) simp
  then show "c \<le> TASK_SIZE - l" using \<open>unat c + unat l < 1610612736\<close> by (simp add: word_le_nat_alt)
  show "outside c l A = A" using assms(1) by (auto simp: free_at_def outside_def fun_eq_iff)
qed

lemma low_not_error: "a \<le> TASK_SIZE \<Longrightarrow> a \<noteq> map_error 1"
  by (auto simp: map_error_def word_le_nat_alt unsigned_minus_1_eq_mask mask_eq_exp_minus_1)

lemma do_mmap_sim:
  assumes "maps_rel s A" "case file of None \<Rightarrow> True | Some f \<Rightarrow> mf_mmap f \<noteq> None" "flags AND 0x10 \<noteq> 0 \<or> PAGE_ALIGN len < TASK_SIZE"
    and "prot_mask prot flags \<noteq> 0 \<Longrightarrow>
      good_mapper works w (\<lambda>a l s. case file of None \<Rightarrow> Some (anon_map a l (prot_mask prot flags) s) | Some f \<Rightarrow> the (mf_mmap f) a l (prot_mask prot flags) off s)"
  shows "\<exists>r s' A'. do_mmap file addr len prot flags off s = Some (r, s') \<and> mmap_spec (check_file file prot flags) works w addr len prot flags r A = Some A' \<and> maps_rel s' A'"
proof -
  let ?l = "PAGE_ALIGN len" and ?msk = "prot_mask prot flags"
  let ?f = "\<lambda>a l s. case file of None \<Rightarrow> Some (anon_map a l ?msk s) | Some f \<Rightarrow> the (mf_mmap f) a l ?msk off s"
  have s: "maps_ok s" "amap (mmap s) = A" using assms(1) by (auto simp: maps_rel_def)
  have nodev: "\<not> (case file of None \<Rightarrow> False | Some f \<Rightarrow> mf_mmap f = None)" using assms(2) by (auto split: option.splits)
  consider (empty) "?l = 0" | (range) "?l \<noteq> 0" "TASK_SIZE < addr \<or> TASK_SIZE < ?l \<or> TASK_SIZE - ?l < addr"
    | (denied) e where "?l \<noteq> 0" "\<not> (TASK_SIZE < addr \<or> TASK_SIZE < ?l \<or> TASK_SIZE - ?l < addr)" "check_file file prot flags = Some e"
    | (good) "?l \<noteq> 0" "\<not> (TASK_SIZE < addr \<or> TASK_SIZE < ?l \<or> TASK_SIZE - ?l < addr)" "check_file file prot flags = None" by fastforce
  then show ?thesis
  proof cases
    case empty
    then show ?thesis using assms(1) by (simp add: do_mmap_def mmap_spec_def)
  next
    case range
    then show ?thesis using assms(1) by (auto simp: do_mmap_def mmap_spec_def Let_def)
  next
    case denied
    then show ?thesis using assms(1) by (auto simp: do_mmap_def mmap_spec_def Let_def)
  next
    case good
    define place :: "u32 + u32 \<Rightarrow> (u32 \<times> mm_state) option" where "place p = (case p of Inl e \<Rightarrow> Some (e, s)
        | Inr a \<Rightarrow> if ?msk = 0 then Some (map_error EINVAL, s)
                else do { (_, s) \<leftarrow> do_munmap a ?l s; (error, s) \<leftarrow> ?f a ?l s;
                     if error = 0 then Some (a, s) else Some (map_error 1, if mm_errno s = 0 then s\<lparr>mm_errno := - error\<rparr> else s) })" for p
    have run: "do_mmap file addr len prot flags off s = do { p \<leftarrow> (if flags AND 0x10 \<noteq> 0
                     then Some (if page_bits addr \<noteq> 0 \<or> TASK_SIZE < ?l \<or> TASK_SIZE - ?l < addr then Inl (map_error EINVAL) else Inr addr)
                     else do { a \<leftarrow> find_room ?l (mmap s) SHM_RANGE_START; Some (if SHM_RANGE_END \<le> a + ?l then Inl (map_error ENOMEM) else Inr a) }); place p }"
      using good nodev unfolding do_mmap_def place_def Let_def by (simp only: if_False option.case simp_thms)
    have at: "\<exists>r s'. place (Inr a) = Some (r, s') \<and> maps_ok s' \<and> (if ?msk = 0 then r = map_error EINVAL \<and> amap (mmap s') = A
        else if r = map_error 1 then works \<noteq> Some True \<and> amap (mmap s') = outside a ?l A else works \<noteq> Some False \<and> r = a \<and> amap (mmap s') = onto a ?l (w a) A)"
      if a: "aligned a" "?l \<le> TASK_SIZE" "a \<le> TASK_SIZE - ?l" for a
    proof (cases "?msk = 0")
      case True
      then show ?thesis using s by (simp add: place_def)
    next
      case False
      have "a \<noteq> map_error 1" using map_range(1) [OF a(1) _ a(2,3)] low_not_error by simp
      moreover obtain e s1 s2 where "do_munmap a ?l s = Some (0, s1)" "?f a ?l s1 = Some (e, s2)" "maps_ok s2"
        "if e = 0 then works \<noteq> Some False \<and> amap (mmap s2) = onto a ?l (w a) A else works \<noteq> Some True \<and> amap (mmap s2) = outside a ?l A"
        using map_at [OF s(1) assms(4) [OF False] a(1) _ good(1) a(2,3)] s(2) by auto
      ultimately show ?thesis using False by (auto simp: place_def maps_ok_def split: if_splits)
    qed
    show ?thesis
    proof (cases "flags AND 0x10 \<noteq> 0")
      case fixed: True
      show ?thesis
      proof (cases "aligned addr")
        case True
        have "?l \<le> TASK_SIZE" "addr \<le> TASK_SIZE - ?l" using good(2) by (auto simp: not_less)
        from at [OF True this] obtain r s' where r: "place (Inr addr) = Some (r, s')" "maps_ok s'" "if ?msk = 0 then r = map_error EINVAL \<and> amap (mmap s') = A
          else if r = map_error 1 then works \<noteq> Some True \<and> amap (mmap s') = outside addr ?l A else works \<noteq> Some False \<and> r = addr \<and> amap (mmap s') = onto addr ?l (w addr) A" by blast
        have "do_mmap file addr len prot flags off s = Some (r, s')" using run fixed True good(2) r(1) by simp
        moreover have "mmap_spec (check_file file prot flags) works w addr len prot flags r A = Some (amap (mmap s'))"
          using good fixed True r(3) unfolding mmap_spec_def Let_def by (auto split: if_splits)
        ultimately show ?thesis using r(2) by (auto simp: maps_rel_def)
      next
        case False
        then show ?thesis using run fixed good assms(1) by (simp add: place_def mmap_spec_def Let_def)
      qed
    next
      case loose: False
      have "?l < TASK_SIZE" using assms(3) loose by simp
      from find_room_start [OF _ good(1) this] s obtain b where b: "find_room ?l (mmap s) SHM_RANGE_START = Some b"
        "if b + ?l < SHM_RANGE_END then free_at A ?l b \<and> (\<forall>c. free_at A ?l c \<longrightarrow> b \<le> c) \<and> aligned b else \<not> (\<exists>c. free_at A ?l c)" by (auto simp: maps_ok_def)
      show ?thesis
      proof (cases "b + ?l < SHM_RANGE_END")
        case False
        then have "do_mmap file addr len prot flags off s = Some (map_error ENOMEM, s)" using run loose b(1) by (simp add: place_def not_less)
        then show ?thesis using False b(2) good loose assms(1) by (auto simp: mmap_spec_def Let_def)
      next
        case True
        then have f: "free_at A ?l b" "\<forall>c. free_at A ?l c \<longrightarrow> b \<le> c" "aligned b" using b(2) by auto
        note fr = free_at_range [OF f(1)]
        from at [OF f(3) fr(1,2)] obtain r s' where r: "place (Inr b) = Some (r, s')" "maps_ok s'" "if ?msk = 0 then r = map_error EINVAL \<and> amap (mmap s') = A
          else if r = map_error 1 then works \<noteq> Some True \<and> amap (mmap s') = outside b ?l A else works \<noteq> Some False \<and> r = b \<and> amap (mmap s') = onto b ?l (w b) A" by auto
        have "\<not> SHM_RANGE_END \<le> b + ?l" using True by (simp only: not_le)
        then have "do_mmap file addr len prot flags off s = Some (r, s')" using run loose b(1) r(1) by simp
        moreover have "mmap_spec (check_file file prot flags) works w addr len prot flags r A = Some (amap (mmap s'))"
          using good loose f r(3) fr(3) unfolding mmap_spec_def Let_def by (auto split: if_splits)
        ultimately show ?thesis using r(2) by (auto simp: maps_rel_def)
      qed
    qed
  qed
qed

lemma anon_mapper: "good_mapper None (\<lambda>a va. (ucast msk, None, None, None)) (\<lambda>a l s. Some (anon_map a l msk s))"
proof (unfold good_mapper_def, intro allI impI, elim conjE)
  fix s :: mm_state and A a l
  assume s: "maps_ok s" "amap (mmap s) = outside a l A" and r: "aligned a" "aligned l" "l \<noteq> 0" "l \<le> TASK_SIZE" "a \<le> TASK_SIZE - l"
  note mr = map_range [OF r(1,2,4,5)]
  obtain z v where z: "zeromap_page_range a l msk (vm s) = (z, v)" by fastforce
  define u where "u = s\<lparr>vm := v\<rparr>"
  define m where "m = \<lparr>vm_start = a, vm_end = a + l, vm_page_prot = ucast msk, vm_share = None, vm_inode = None, vm_offset = 0, vm_opsp = None\<rparr>"
  have u: "maps_ok u" "amap (mmap u) = outside a l A" "km_answers u = []" using s by (auto simp: u_def maps_ok_def)
  have run: "anon_map a l msk s = (if z \<noteq> 0 then (- ENOMEM, u) else (0, merge_segments anon_merge (insert_vm_struct m u)))"
    using z u(3) by (simp add: anon_map_def Let_def u_def [symmetric] m_def)
  have m: "area_ok m" "file_ok m" "amap (mmap u) = outside (vm_start m) (vm_end m - vm_start m) A" using r mr u(2) by (auto simp: m_def area_ok_def file_ok_def)
  note n = new_area [OF u(1) m(1,3,2), of anon_merge]
  have w: "mapped_as m = (\<lambda>va. (ucast msk, None, None, None))" by (simp add: mapped_as_def m_def fun_eq_iff)
  show "\<exists>e s'. Some (anon_map a l msk s) = Some (e, s') \<and> maps_ok s' \<and> (if e = 0 then None \<noteq> Some False \<and> amap (mmap s') = onto a l (\<lambda>va. (ucast msk, None, None, None)) A
      else None \<noteq> Some True \<and> amap (mmap s') = outside a l A)"
  proof (cases "z = 0")
    case True
    then show ?thesis using run n new_area_files [OF u(1) m(2) n(1)] w by (simp add: m_def)
  qed (use run u in simp)
qed

definition generic_ok :: "map_inode \<Rightarrow> u32 \<Rightarrow> u32 \<Rightarrow> bool" where
  "generic_ok ino prot off \<longleftrightarrow> \<not> writable prot \<and> off AND (s_blocksize ino - 1) = 0 \<and> ino_regular ino \<and> ino_bmap ino \<and> first_block ino"

lemma generic_mapper:
  assumes "ino_has_sb ino"
  shows "good_mapper (Some (generic_ok ino msk off)) (\<lambda>a va. (ucast msk, None, Some file_mmap, Some (i, off + (va - a)))) (\<lambda>a l s. generic_mmap i ino a l msk off s)"
proof (unfold good_mapper_def, intro allI impI, elim conjE)
  fix s :: mm_state and A a l
  assume s: "maps_ok s" "amap (mmap s) = outside a l A" and r: "aligned a" "aligned l" "l \<noteq> 0" "l \<le> TASK_SIZE" "a \<le> TASK_SIZE - l"
  note mr = map_range [OF r(1,2,4,5)]
  define u where "u = igrab (Some i) (unmap_range a l s)"
  define m where "m = \<lparr>vm_start = a, vm_end = a + l, vm_page_prot = ucast msk, vm_share = None, vm_inode = Some i, vm_offset = off, vm_opsp = Some file_mmap\<rparr>"
  have u: "maps_ok u" "amap (mmap u) = outside a l A" using s by (auto simp: u_def maps_ok_def unmap_range_def)
  have k: "km_area s = (True, s)" using s(1) by (simp add: maps_ok_def)
  have run: "generic_ok ino msk off \<Longrightarrow> generic_mmap i ino a l msk off s = Some (0, merge_segments None (insert_vm_struct m u))"
    "\<not> generic_ok ino msk off \<Longrightarrow> \<exists>e. e \<noteq> 0 \<and> generic_mmap i ino a l msk off s = Some (e, s)"
    using assms k by (auto simp: generic_mmap_def generic_ok_def Let_def u_def m_def)
  have m: "area_ok m" "file_ok m" "amap (mmap u) = outside (vm_start m) (vm_end m - vm_start m) A" using r mr u(2) by (auto simp: m_def area_ok_def file_ok_def)
  note n = new_area [OF u(1) m(1,3,2), of None]
  have w: "mapped_as m = (\<lambda>va. (ucast msk, None, Some file_mmap, Some (i, off + (va - a))))" by (simp add: mapped_as_def m_def fun_eq_iff)
  show "\<exists>e s'. generic_mmap i ino a l msk off s = Some (e, s') \<and> maps_ok s' \<and>
      (if e = 0 then Some (generic_ok ino msk off) \<noteq> Some False \<and> amap (mmap s') = onto a l (\<lambda>va. (ucast msk, None, Some file_mmap, Some (i, off + (va - a)))) A
       else Some (generic_ok ino msk off) \<noteq> Some True \<and> amap (mmap s') = outside a l A)"
  proof (cases "generic_ok ino msk off")
    case True
    then show ?thesis using run(1) n new_area_files [OF u(1) m(2) n(1)] w by (simp add: m_def)
  qed (use run(2) s in auto)
qed

section \<open>Sequences of calls\<close>

datatype mm_op = Munmap u32 u32 | Map_Anon u32 u32 u32 u32 | Map_File nat map_inode u16 u32 u32 u32 u32 u32

fun mm_impl :: "mm_op \<Rightarrow> mm_state \<Rightarrow> (u32 \<times> mm_state) option" where
  "mm_impl (Munmap addr len) s = map_option (\<lambda>(r, s). (word_of_int r, s)) (sys_munmap addr len s)"
| "mm_impl (Map_Anon addr len prot flags) s = do_mmap None addr len prot flags 0 s"
| "mm_impl (Map_File i ino mode addr len prot flags off) s = do_mmap (Some \<lparr>mf_mode = mode, mf_mmap = Some (generic_mmap i ino)\<rparr>) addr len prot flags off s"

fun mm_spec :: "mm_op \<Rightarrow> u32 \<Rightarrow> (u32 \<Rightarrow> mapping option) \<Rightarrow> (u32 \<Rightarrow> mapping option) option" where
  "mm_spec (Munmap addr len) r A =
    (if page_bits addr \<noteq> 0 \<or> TASK_SIZE < addr \<or> TASK_SIZE - addr < len then if r = map_error EINVAL then Some A else None
     else if r = 0 then Some (outside addr (PAGE_ALIGN len) A) else None)"
| "mm_spec (Map_Anon addr len prot flags) r A = mmap_spec None None (\<lambda>a va. (ucast (prot_mask prot flags), None, None, None)) addr len prot flags r A"
| "mm_spec (Map_File i ino mode addr len prot flags off) r A =
    mmap_spec (check_file (Some \<lparr>mf_mode = mode, mf_mmap = Some (generic_mmap i ino)\<rparr>) prot flags) (Some (generic_ok ino (prot_mask prot flags) off))
      (\<lambda>a va. (ucast (prot_mask prot flags), None, Some file_mmap, Some (i, off + (va - a)))) addr len prot flags r A"

fun mm_pre :: "mm_op \<Rightarrow> (u32 \<Rightarrow> mapping option) \<Rightarrow> bool" where
  "mm_pre (Munmap addr len) A \<longleftrightarrow> True"
| "mm_pre (Map_Anon addr len prot flags) A \<longleftrightarrow> flags AND 0x10 \<noteq> 0 \<or> PAGE_ALIGN len < TASK_SIZE"
| "mm_pre (Map_File i ino mode addr len prot flags off) A \<longleftrightarrow> ino_has_sb ino \<and> (flags AND 0x10 \<noteq> 0 \<or> PAGE_ALIGN len < TASK_SIZE)"

lemma munmap_sim:
  assumes "maps_rel s A"
  shows "\<exists>r s' A'. mm_impl (Munmap addr len) s = Some (r, s') \<and> mm_spec (Munmap addr len) r A = Some A' \<and> maps_rel s' A'"
proof (cases "page_bits addr \<noteq> 0 \<or> TASK_SIZE < addr \<or> TASK_SIZE - addr < len")
  case True
  then have "do_munmap addr len s = Some (- EINVAL, s)" unfolding do_munmap_def by (simp only: if_True)
  then show ?thesis using True assms by (simp add: sys_munmap_def map_error_def)
next
  case False
  have s: "maps_ok s" "amap (mmap s) = A" using assms by (auto simp: maps_rel_def)
  have "aligned addr" "addr \<le> TASK_SIZE" "len \<le> TASK_SIZE - addr" using False by (auto simp: not_less)
  from do_munmap_ok [OF s(1) this] show ?thesis
  proof cases
    case (1 s')
    then show ?thesis using False s(2) by (simp add: sys_munmap_def maps_rel_def)
  qed
qed

interpretation maps: outcomes mm_impl mm_spec mm_pre maps_rel
proof
  show "\<exists>r s' A'. mm_impl x s = Some (r, s') \<and> mm_spec x r A = Some A' \<and> maps_rel s' A'" if "maps_rel s A" "mm_pre x A" for x s A
  proof (cases x)
    case (Munmap addr len)
    then show ?thesis using munmap_sim [OF that(1)] by simp
  next
    case (Map_Anon addr len prot flags)
    then show ?thesis using do_mmap_sim [OF that(1), of None flags len prot None _ 0 addr] anon_mapper that(2) by (simp add: check_file_def)
  next
    case (Map_File i ino mode addr len prot flags off)
    let ?f = "\<lparr>mf_mode = mode, mf_mmap = Some (generic_mmap i ino)\<rparr>"
    show ?thesis using do_mmap_sim [OF that(1), of "Some ?f" flags len prot _ _ off addr] generic_mapper [of ino] that(2) Map_File by simp
  qed
qed

end
