(* ===== verification/Address_Spaces.thy ===== *)
theory Address_Spaces
  imports Page_Laws
begin

text \<open>
  The address spaces that the page tables give to processes.  \<^verbatim>\<open>view s t va\<close> is the byte that the process \<^verbatim>\<open>t\<close> reads at the address \<^verbatim>\<open>va\<close> and whether its page
  is a private one, which \<^verbatim>\<open>t\<close> may write; it is \<^verbatim>\<open>None\<close> when no page in memory is mapped there.  \<^verbatim>\<open>spaces_ok s T P Q\<close> says that each process of \<^verbatim>\<open>T\<close> has a directory of its own, whose user entries lead to tables of their
  own and whose kernel entries lead to reserved tables that all share.  No page is mapped shared and writable.
\<close>

section \<open>What a process sees\<close>

definition pte :: "vm_state \<Rightarrow> nat \<Rightarrow> u32 \<Rightarrow> u32" where
  "pte s t va = tbl s (page_of (tbl s (cr3 s t) (dir_index va))) (pt_index va)"

definition mapped :: "vm_state \<Rightarrow> nat \<Rightarrow> u32 \<Rightarrow> bool" where
  "mapped s t va \<longleftrightarrow> tbl s (cr3 s t) (dir_index va) \<noteq> 0 \<and> present (pte s t va)"

definition page_offset :: "u32 \<Rightarrow> nat" where
  "page_offset va = unat (page_bits va)"

definition view :: "vm_state \<Rightarrow> nat \<Rightarrow> u32 \<Rightarrow> (u8 \<times> bool) option" where
  "view s t va = (if mapped s t va then Some (frame s (page_of (pte s t va)) (page_offset va), cow (pte s t va)) else None)"

lemma pt_index_mod: "pt_index va = MAP_NR va mod 1024"
proof -
  have "(1023 :: u32) = mask 10" by (simp add: mask_eq_exp_minus_1)
  then have "drop_bit 12 va AND 1023 = take_bit 10 (drop_bit 12 va)" by (simp only: take_bit_eq_mask)
  then have "pt_index va = take_bit 10 (unat (drop_bit 12 va))" by (simp only: pt_index_def unsigned_take_bit_eq)
  then show ?thesis by (simp only: MAP_NR_def take_bit_eq_mod) simp
qed

lemma dir_index_div: "dir_index va = unat va div 4194304"
  unfolding dir_index_def unat_drop_bit_eq by (simp add: drop_bit_eq_div)

lemma index_bounds [simp]: "pt_index va < 1024" "va < TASK_SIZE \<Longrightarrow> dir_index va < 768"
  by (simp_all add: pt_index_mod dir_index_div word_less_nat_alt)

lemma MAP_NR_index: "MAP_NR va = 1024 * dir_index va + pt_index va"
proof -
  have "dir_index va = MAP_NR va div 1024" unfolding dir_index_div MAP_NR_div by (simp add: div_mult2_eq [symmetric])
  then show ?thesis by (simp add: pt_index_mod mult.commute)
qed

lemma address_eq_iff: "va = wa \<longleftrightarrow> dir_index va = dir_index wa \<and> pt_index va = pt_index wa \<and> page_offset va = page_offset wa"
proof
  assume "dir_index va = dir_index wa \<and> pt_index va = pt_index wa \<and> page_offset va = page_offset wa"
  then have "page_of va = page_of wa" "unat (page_bits va) = unat (page_bits wa)" by (simp_all add: page_of_eq_iff MAP_NR_index page_offset_def)
  moreover from this have "page_bits va = page_bits wa" by (simp only: word_unat_eq_iff)
  moreover have "page_of a + page_bits a = a" for a unfolding page_of_bits page_bits_bits by (rule bits_ident)
  ultimately show "va = wa" by metis
qed simp

lemma is_table_present: "is_table e \<Longrightarrow> present e"
proof -
  assume "is_table e"
  then have "bit (e AND 0x27) 0" by (simp add: is_table_def)
  then show "present e" by (simp add: entry_bits bit_and_iff)
qed

section \<open>The invariant of the spaces\<close>

definition spaces_ok :: "vm_state \<Rightarrow> nat set \<Rightarrow> u32 set \<Rightarrow> u32 set \<Rightarrow> bool" where
  "spaces_ok s T P Q \<longleftrightarrow> mm_ok s P Q \<and> 0 \<notin> T \<and> inj_on (cr3 s) T \<and> cr3 s ` T \<subseteq> Q \<and> reserved s (swapper_pg_dir s)
     \<and> (\<forall>t\<in>T. \<forall>i<768. tbl s (cr3 s t) i \<noteq> 0 \<longrightarrow>
          is_table (tbl s (cr3 s t) i) \<and> tbl s (cr3 s t) i < high_memory s \<and> page_of (tbl s (cr3 s t) i) \<in> P)
     \<and> (\<forall>t\<in>T. \<forall>i. 768 \<le> i \<and> i < 1024 \<and> tbl s (cr3 s t) i \<noteq> 0 \<longrightarrow>
          present (tbl s (cr3 s t) i) \<and> tbl s (cr3 s t) i < high_memory s \<and> reserved s (tbl s (cr3 s t) i))
     \<and> (\<forall>t\<in>T. \<forall>u\<in>T. \<forall>i<768. \<forall>j<768. tbl s (cr3 s t) i \<noteq> 0 \<and> tbl s (cr3 s u) j \<noteq> 0 \<and> page_of (tbl s (cr3 s t) i) = page_of (tbl s (cr3 s u) j)
          \<longrightarrow> t = u \<and> i = j)"

lemma spaces_okD:
  assumes "spaces_ok s T P Q"
  shows "mm_ok s P Q" "0 \<notin> T" "inj_on (cr3 s) T" "t \<in> T \<Longrightarrow> cr3 s t \<in> Q" "reserved s (swapper_pg_dir s)"
    "t \<in> T \<Longrightarrow> i < 768 \<Longrightarrow> tbl s (cr3 s t) i \<noteq> 0 \<Longrightarrow> is_table (tbl s (cr3 s t) i)"
    "t \<in> T \<Longrightarrow> i < 768 \<Longrightarrow> tbl s (cr3 s t) i \<noteq> 0 \<Longrightarrow> tbl s (cr3 s t) i < high_memory s"
    "t \<in> T \<Longrightarrow> i < 768 \<Longrightarrow> tbl s (cr3 s t) i \<noteq> 0 \<Longrightarrow> page_of (tbl s (cr3 s t) i) \<in> P"
    "t \<in> T \<Longrightarrow> 768 \<le> i \<Longrightarrow> i < 1024 \<Longrightarrow> tbl s (cr3 s t) i \<noteq> 0 \<Longrightarrow>
       present (tbl s (cr3 s t) i) \<and> tbl s (cr3 s t) i < high_memory s \<and> reserved s (tbl s (cr3 s t) i)"
    "t \<in> T \<Longrightarrow> u \<in> T \<Longrightarrow> i < 768 \<Longrightarrow> j < 768 \<Longrightarrow> tbl s (cr3 s t) i \<noteq> 0 \<Longrightarrow> tbl s (cr3 s u) j \<noteq> 0 \<Longrightarrow>
       page_of (tbl s (cr3 s t) i) = page_of (tbl s (cr3 s u) j) \<Longrightarrow> t = u \<and> i = j"
  using assms unfolding spaces_ok_def by blast+

lemma own_not_reserved: "own_page s a \<Longrightarrow> \<not> reserved s a"
  by (simp add: own_page_def reserved_iff)

text \<open>Changes below the directories.\<close>

definition keeps_dirs :: "u32 set \<Rightarrow> vm_state \<Rightarrow> vm_state \<Rightarrow> bool" where
  "keeps_dirs Q s s' \<longleftrightarrow> (\<forall>q\<in>Q. tbl s' q = tbl s q) \<and> cr3 s' = cr3 s \<and> high_memory s' = high_memory s \<and> swapper_pg_dir s' = swapper_pg_dir s
     \<and> vm_current s' = vm_current s \<and> (\<forall>a. reserved s a \<longrightarrow> reserved s' a)"

lemma keeps_dirs_refl [simp]: "keeps_dirs Q s s"
  by (simp add: keeps_dirs_def)

lemma keeps_dirs_trans: "keeps_dirs Q s s' \<Longrightarrow> keeps_dirs Q s' s'' \<Longrightarrow> keeps_dirs Q s s''"
  by (simp add: keeps_dirs_def)

lemma spaces_ok_below:
  assumes "spaces_ok s T P Q" "keeps_dirs Q s s'" "mm_ok s' P' Q" "P \<subseteq> P'"
  shows "spaces_ok s' T P' Q"
proof -
  note d = spaces_okD [OF assms(1)]
  have e: "t \<in> T \<Longrightarrow> tbl s' (cr3 s t) i = tbl s (cr3 s t) i" for t i using d(4) [of t] assms(2) by (simp add: keeps_dirs_def)
  have k: "cr3 s' = cr3 s" "high_memory s' = high_memory s" "swapper_pg_dir s' = swapper_pg_dir s" "reserved s a \<Longrightarrow> reserved s' a" for a
    using assms(2) by (auto simp: keeps_dirs_def)
  show ?thesis unfolding spaces_ok_def k(1-3) using d assms(3,4) e k(4) by (auto simp: image_subset_iff)
qed

lemma view_eq:
  assumes "tbl s' (cr3 s' t) (dir_index va) = tbl s (cr3 s t) (dir_index va)"
    and "tbl s (cr3 s t) (dir_index va) \<noteq> 0 \<Longrightarrow> present (pte s' t va) = present (pte s t va)"
    and "mapped s t va \<Longrightarrow> frame s' (page_of (pte s' t va)) = frame s (page_of (pte s t va)) \<and> cow (pte s' t va) = cow (pte s t va)"
  shows "view s' t va = view s t va"
  using assms by (auto simp: view_def mapped_def)


section \<open>Write faults\<close>

lemma site_of:
  assumes "spaces_ok s T P Q" "t \<in> T" "va < TASK_SIZE" "mapped s t va"
  shows "page_of (tbl s (cr3 s t) (dir_index va)) \<in> P" "(page_of (tbl s (cr3 s t) (dir_index va)), pt_index va) \<in> sites s P (MAP_NR (pte s t va))"
    "pte_ok s (P \<union> Q) (pte s t va)"
proof -
  note d = spaces_okD [OF assms(1)]
  show p: "page_of (tbl s (cr3 s t) (dir_index va)) \<in> P" using d(8) [OF assms(2), of "dir_index va"] assms(3,4) by (auto simp: mapped_def)
  then show "(page_of (tbl s (cr3 s t) (dir_index va)), pt_index va) \<in> sites s P (MAP_NR (pte s t va))" using assms(4) by (auto simp: sites_def mapped_def pte_def)
  show "pte_ok s (P \<union> Q) (pte s t va)" unfolding pte_def by (rule mm_okD(5) [OF d(1) p]) simp
qed

text \<open>Two mapped addresses with one entry are in one page of one process.\<close>

lemma same_site:
  assumes "spaces_ok s T P Q" "t \<in> T" "va < TASK_SIZE" "mapped s t va" "u \<in> T" "wa < TASK_SIZE" "mapped s u wa"
    and "page_of (tbl s (cr3 s u) (dir_index wa)) = page_of (tbl s (cr3 s t) (dir_index va))" "pt_index wa = pt_index va"
  shows "u = t" "dir_index wa = dir_index va"
  using spaces_okD(10) [OF assms(1,5,2), of "dir_index wa" "dir_index va"] assms by (auto simp: mapped_def)

lemma view_set_entry_same:
  assumes "spaces_ok s T P Q" "p \<in> P" "present v = present (tbl s p j)" "MAP_NR v = MAP_NR (tbl s p j)" "cow v = cow (tbl s p j)" "t \<in> T"
  shows "view (set_entry p j v s) t wa = view s t wa"
proof (rule view_eq)
  have "cr3 s t \<noteq> p" using spaces_okD(4) [OF assms(1,6)] mm_okD(3) [OF spaces_okD(1) [OF assms(1)]] assms(2) by auto
  then show "tbl (set_entry p j v s) (cr3 (set_entry p j v s) t) (dir_index wa) = tbl s (cr3 s t) (dir_index wa)" by simp
  have *: "pte (set_entry p j v s) t wa = (if page_of (tbl s (cr3 s t) (dir_index wa)) = p \<and> pt_index wa = j then v else pte s t wa)"
    using \<open>cr3 s t \<noteq> p\<close> by (auto simp: pte_def)
  show "present (pte (set_entry p j v s) t wa) = present (pte s t wa)" using assms(3) unfolding * by (auto simp: pte_def)
  have "page_of (pte (set_entry p j v s) t wa) = page_of (pte s t wa)" using assms(4) unfolding * by (auto simp: pte_def page_of_eq_iff)
  moreover have "cow (pte (set_entry p j v s) t wa) = cow (pte s t wa)" using assms(5) unfolding * by (auto simp: pte_def)
  ultimately show "frame (set_entry p j v s) (page_of (pte (set_entry p j v s) t wa)) = frame s (page_of (pte s t wa)) \<and> cow (pte (set_entry p j v s) t wa) = cow (pte s t wa)"
    by simp
qed

lemma keeps_dirs_set_entry: "mm_ok s P Q \<Longrightarrow> p \<in> P \<Longrightarrow> keeps_dirs Q s (set_entry p j v s)"
  using mm_okD(3) by (auto simp: keeps_dirs_def)


text \<open>The copy of \<^verbatim>\<open>__do_wp_page\<close> for a page with several users.\<close>

lemma do_wp_page_slow_runs:
  fixes s :: vm_state and va :: u32 and t :: nat
  defines "p \<equiv> page_of (tbl s (cr3 s t) (dir_index va))" and "j \<equiv> pt_index va"
  assumes "spaces_ok s T P Q" "t \<in> T" "va < TASK_SIZE" "mapped s t va" "\<not> writable (pte s t va)"
    and "mem_map s (MAP_NR (pte s t va)) \<noteq> 1" "free_page_list s \<noteq> [] \<or> secondary_page_list s \<noteq> []"
  shows "\<exists>new s1 s2. mm_ok s1 P Q \<and> fresh s1 P Q new \<and> tbl s1 = tbl s \<and> frame s1 = frame s \<and> keeps_dirs Q s s1
    \<and> mem_map s1 (MAP_NR (pte s t va)) \<noteq> 1
    \<and> core s2 = core (set_entry p j (add_flags new (add_flags (page_bits (pte s t va)) 2)) s1)
    \<and> frame s2 = (frame s)(new := frame s (page_of (pte s t va))) \<and> keeps_dirs Q s s2
    \<and> do_wp_page_slow va t s = free_page (page_of (pte s t va)) s2"
proof -
  note d = spaces_okD [OF assms(3)]
  let ?pde = "tbl s (cr3 s t) (dir_index va)" and ?e = "pte s t va"
  obtain new s1 where g: "get_free_page_raw GFP_KERNEL s = (new, s1)" by fastforce
  note k = get_free_page_raw_take [OF d(1) g] and km = get_free_page_raw_map [OF d(1) g]
  have new: "new \<noteq> 0" using k(4) assms(9) by auto
  have fr: "fresh s1 P Q new" by (rule k(2) [OF new])
  have pde: "?pde \<noteq> 0" "is_table ?pde" "present ?pde" "?pde < high_memory s" and e: "present ?e"
    using d(6,7) [OF assms(4), of "dir_index va"] assms(5,6) by (auto simp: mapped_def is_table_present)
  have site: "(p, j) \<in> sites s P (MAP_NR ?e)" "?e < high_memory s" "p \<in> P" "tbl s p j = ?e"
    using site_of [OF assms(3-6)] e by (auto simp: p_def j_def pte_ok_def pte_def)
  have ne: "MAP_NR ?e \<noteq> MAP_NR new" using fr site(1) by (auto simp: fresh_def sites_def k(5))
  have m1: "mem_map s1 (MAP_NR ?e) = mem_map s (MAP_NR ?e)" by (rule km(2) [OF ne])
  define u where "u = s1\<lparr>min_flt := (min_flt s1)(t := min_flt s1 t + 1)\<rparr>"
  define v where "v = (if reserved u (page_of ?e) then u\<lparr>rss := (rss u)(t := rss u t + 1)\<rparr> else u)"
  define w where "w = v\<lparr>frame := (frame v)(new := frame v (page_of ?e))\<rparr>"
  define s2 where "s2 = set_entry p j (add_flags new (add_flags (page_bits ?e) 2)) w"
  have "mem_map u (MAP_NR (page_of ?e)) \<noteq> 1" "tbl s1 = tbl s" "cr3 s1 = cr3 s" "high_memory s1 = high_memory s"
    using m1 assms(8) k by (simp_all add: u_def)
  then have run: "do_wp_page_slow va t s = free_page (page_of ?e) s2"
    using g pde e new assms(7) site(2) unfolding do_wp_page_slow_def s2_def w_def v_def u_def p_def j_def pte_def by (simp add: Let_def not_le)
  have kd: "keeps_dirs Q s s1" using k km(3) by (simp add: keeps_dirs_def)
  have w: "core w = core s1" "frame w = (frame s)(new := frame s (page_of ?e))" "keeps_dirs Q s w"
    using kd k by (auto simp: w_def v_def u_def core_def keeps_dirs_def reserved_def)
  have "core s2 = core (set_entry p j (add_flags new (add_flags (page_bits ?e) 2)) s1)" using w(1) by (simp add: s2_def core_def)
  moreover have "mm_ok w P Q" using mm_ok_core [OF w(1)] k(1) by simp
  then have "keeps_dirs Q s s2" unfolding s2_def by (intro keeps_dirs_trans [OF w(3)] keeps_dirs_set_entry [OF _ site(3)])
  ultimately show ?thesis using k(1,5,6) fr kd run m1 assms(8) w(2) unfolding s2_def by (metis set_entry_simps(6))
qed

lemma do_wp_page_cow:
  fixes user :: bool
  assumes "spaces_ok s T P Q" "t \<in> T" "va < TASK_SIZE" "mapped s t va" "cow (pte s t va)" "free_page_list s \<noteq> [] \<or> secondary_page_list s \<noteq> []"
  defines "s' \<equiv> do_wp_page va t user s"
  shows "spaces_ok s' T P Q" "mapped s' t va \<and> writable (pte s' t va)" "\<And>u wa. u \<in> T \<Longrightarrow> wa < TASK_SIZE \<Longrightarrow> view s' u wa = view s u wa"
proof -
  note d = spaces_okD [OF assms(1)] and st = site_of [OF assms(1-4)]
  define p where "p = page_of (tbl s (cr3 s t) (dir_index va))"
  define j where "j = pt_index va"
  let ?pde = "tbl s (cr3 s t) (dir_index va)" and ?e = "pte s t va"
  have j: "j < 1024" by (simp add: j_def)
  have p: "p \<in> P" "tbl s p j = ?e" "present ?e" using st(1) assms(4) by (auto simp: p_def j_def pte_def mapped_def)
  have pde: "?pde \<noteq> 0" "present ?pde" "?pde < high_memory s"
    using d(6,7) [OF assms(2), of "dir_index va"] assms(3,4) by (auto simp: mapped_def is_table_present)
  have npq: "cr3 s u \<noteq> p" if "u \<in> T" for u using d(4) [OF that] p(1) mm_okD(3) [OF d(1)] by auto
  have run: "s' = (if writable ?e then s else if mem_map s (MAP_NR ?e) = 1 then set_entry p j (add_flags ?e 0x42) s else do_wp_page_slow va t s)"
    using pde p assms(5) unfolding s'_def do_wp_page_def p_def j_def pte_def by (simp add: Let_def)
  consider "writable ?e" | "\<not> writable ?e" "mem_map s (MAP_NR ?e) = 1" | "\<not> writable ?e" "mem_map s (MAP_NR ?e) \<noteq> 1" by blast
  then have "spaces_ok s' T P Q \<and> (mapped s' t va \<and> writable (pte s' t va)) \<and> (\<forall>u wa. u \<in> T \<longrightarrow> wa < TASK_SIZE \<longrightarrow> view s' u wa = view s u wa)"
  proof cases
    case 1
    then show ?thesis using run assms(1,4) by simp
  next
    case 2
    then have s': "s' = set_entry p j (add_flags ?e 0x42) s" using run by simp
    have "mm_ok s' P Q" unfolding s' using mm_ok_unprotect [OF d(1) p(1) j, where f = "0x42"] p(2,3) assms(5) 2(2) by simp
    then have "spaces_ok s' T P Q" using spaces_ok_below [OF assms(1)] keeps_dirs_set_entry [OF d(1) p(1)] s' by blast
    moreover have "pte s' t va = add_flags ?e 0x42" "tbl s' (cr3 s' t) (dir_index va) = ?pde"
      using npq [OF assms(2)] by (simp_all add: s' pte_def p_def j_def)
    ultimately show ?thesis using view_set_entry_same [OF assms(1) p(1), of "add_flags ?e 0x42" j] p s' pde(1) by (auto simp: mapped_def add_flags_bits)
  next
    case 3
    from do_wp_page_slow_runs [OF assms(1-4) 3 assms(6)]
    obtain new s1 s2 where n: "mm_ok s1 P Q" "fresh s1 P Q new" "tbl s1 = tbl s" "frame s1 = frame s" "keeps_dirs Q s s1" "mem_map s1 (MAP_NR ?e) \<noteq> 1"
      "core s2 = core (set_entry p j (add_flags new (add_flags (page_bits ?e) 2)) s1)" "frame s2 = (frame s)(new := frame s (page_of ?e))" "keeps_dirs Q s s2"
      "do_wp_page_slow va t s = free_page (page_of ?e) s2" unfolding p_def j_def by blast
    let ?v = "add_flags new (add_flags (page_bits ?e) 2)"
    have s': "s' = free_page (page_of ?e) s2" using run 3 n(10) by simp
    have tb: "tbl s' = (tbl s)(p := (tbl s p)(j := ?v))" using n(3,7) by (simp add: s' core_def)
    have fr: "frame s' = (frame s)(new := frame s (page_of ?e))" by (simp add: s' n(8))
    have kd: "keeps_dirs Q s s'" using n(9) reserved_free_page unfolding s' keeps_dirs_def by simp
    have "mm_ok s' P Q" unfolding s'
      using mm_ok_private [OF n(1) p(1) j _ _ _ n(2), of s2] p n(3,6,7) assms(5) 3(1) by simp
    then have sp: "spaces_ok s' T P Q" using spaces_ok_below [OF assms(1) kd] by blast
    have cr: "cr3 s' = cr3 s" using kd by (simp add: keeps_dirs_def)
    have "page_of ?v = page_of new" by (simp add: page_of_eq_iff)
    then have v: "present ?v" "writable ?v" "page_of ?v = new" "cow ?v" using p(3) n(2) assms(5) by (auto simp: add_flags_bits fresh_def own_page_def aligned_iff)
    have now: "pte s' u wa = (if page_of (tbl s (cr3 s u) (dir_index wa)) = p \<and> pt_index wa = j then ?v else pte s u wa)"
      "tbl s' (cr3 s' u) i = tbl s (cr3 s u) i" if "u \<in> T" for u wa i
      using npq [OF that] by (auto simp: pte_def tb cr)
    have "view s' u wa = view s u wa" if "u \<in> T" "wa < TASK_SIZE" for u wa
    proof (rule view_eq)
      show "tbl s' (cr3 s' u) (dir_index wa) = tbl s (cr3 s u) (dir_index wa)" by (rule now(2) [OF that(1)])
      show "present (pte s' u wa) = present (pte s u wa)" unfolding now(1) [OF that(1)] using v(1) p by (auto simp: pte_def)
      assume m: "mapped s u wa"
      show "frame s' (page_of (pte s' u wa)) = frame s (page_of (pte s u wa)) \<and> cow (pte s' u wa) = cow (pte s u wa)"
      proof (cases "page_of (tbl s (cr3 s u) (dir_index wa)) = p \<and> pt_index wa = j")
        case True
        then have "pte s u wa = ?e" using p(2) by (simp add: pte_def)
        then show ?thesis using True now(1) [OF that(1)] v(3,4) fr assms(5) by simp
      next
        case False
        have "MAP_NR (pte s u wa) \<noteq> MAP_NR new" using site_of(2) [OF assms(1) that m] n(2,3) by (auto simp: fresh_def sites_def)
        then have "page_of (pte s u wa) \<noteq> new" by auto
        then show ?thesis using now(1) [OF that(1)] False fr by auto
      qed
    qed
    moreover have "mapped s' t va \<and> writable (pte s' t va)" using now [OF assms(2)] v pde(1) by (simp add: mapped_def p_def j_def)
    ultimately show ?thesis using sp by blast
  qed
  then show "spaces_ok s' T P Q" "mapped s' t va \<and> writable (pte s' t va)" "\<And>u wa. u \<in> T \<Longrightarrow> wa < TASK_SIZE \<Longrightarrow> view s' u wa = view s u wa" by blast+
qed


section \<open>Fork\<close>

lemma reserved_copy_pte: "reserved s a \<Longrightarrow> reserved (copy_pte old new s j) a"
proof -
  obtain e u where u: "swap_duplicate (tbl s old j) s = (e, u)" by fastforce
  have "mem_map u = mem_map s" using swap_duplicate_simps(7) [OF u] by (simp add: core_def)
  moreover assume "reserved s a"
  ultimately show ?thesis using u by (auto simp: copy_pte_def Let_def reserved_def set_map_def)
qed

text \<open>The inner loop: the first \<^verbatim>\<open>m\<close> entries of the table \<^verbatim>\<open>old\<close> are copied into the empty table \<^verbatim>\<open>new\<close>.\<close>

lemma copy_ptes:
  fixes s :: vm_state
  assumes "mm_ok s P Q" "old \<in> P" "new \<in> P" "old \<noteq> new" "\<And>j. j < 1024 \<Longrightarrow> tbl s new j = 0" "m \<le> 1024"
  defines "s' \<equiv> foldl (copy_pte old new) s [0..<m]"
  shows "mm_ok s' P Q \<and> (\<forall>a. a \<noteq> old \<and> a \<noteq> new \<longrightarrow> tbl s' a = tbl s a)
    \<and> (\<forall>j<1024. present (tbl s' old j) = present (tbl s old j) \<and> MAP_NR (tbl s' old j) = MAP_NR (tbl s old j) \<and> cow (tbl s' old j) = cow (tbl s old j))
    \<and> (\<forall>j<m. present (tbl s' new j) = present (tbl s old j)
        \<and> (present (tbl s old j) \<longrightarrow> MAP_NR (tbl s' new j) = MAP_NR (tbl s old j) \<and> cow (tbl s' new j) = cow (tbl s old j)))
    \<and> (\<forall>j<1024. m \<le> j \<longrightarrow> tbl s' new j = 0) \<and> frame s' = frame s \<and> cr3 s' = cr3 s \<and> high_memory s' = high_memory s
    \<and> swapper_pg_dir s' = swapper_pg_dir s \<and> vm_current s' = vm_current s \<and> (\<forall>a. reserved s a \<longrightarrow> reserved s' a)"
  unfolding s'_def using assms(6)
proof (induction m)
  case 0
  then show ?case using assms(1,5) by simp
next
  case (Suc m)
  let ?s = "foldl (copy_pte old new) s [0..<m]"
  note ih = Suc.IH [OF Suc_leD [OF Suc.prems]]
  have m: "m < 1024" using Suc.prems by simp
  have z: "tbl ?s new m = 0" using ih m by blast
  note ef = copy_pte_effect [OF assms(4) z]
  have ok: "mm_ok (copy_pte old new ?s m) P Q" by (rule copy_pte_step) (use ih assms(2-4) m z in auto)
  have t: "tbl (copy_pte old new ?s m) a j = (if a = new \<and> j = m then tbl (copy_pte old new ?s m) new m
      else if a = old \<and> j = m then tbl (copy_pte old new ?s m) old m else tbl ?s a j)" for a j
    using assms(4) by (subst ef(1)) (auto simp: fun_upd_def)
  have "foldl (copy_pte old new) s [0..<Suc m] = copy_pte old new ?s m" by simp
  moreover have "tbl (copy_pte old new ?s m) a = tbl s a" if "a \<noteq> old" "a \<noteq> new" for a using t [of a] that ih by (auto simp: fun_eq_iff)
  moreover have "present (tbl (copy_pte old new ?s m) old j) = present (tbl s old j)
      \<and> MAP_NR (tbl (copy_pte old new ?s m) old j) = MAP_NR (tbl s old j) \<and> cow (tbl (copy_pte old new ?s m) old j) = cow (tbl s old j)" if "j < 1024" for j
    using t [of old j] that ih ef(2,3,11) assms(4) by auto
  moreover have "present (tbl (copy_pte old new ?s m) new j) = present (tbl s old j)
      \<and> (present (tbl s old j) \<longrightarrow> MAP_NR (tbl (copy_pte old new ?s m) new j) = MAP_NR (tbl s old j) \<and> cow (tbl (copy_pte old new ?s m) new j) = cow (tbl s old j))"
    if "j < Suc m" for j
    using t [of new j] that ih ef(4,5,12) m by (auto simp: less_Suc_eq)
  moreover have "tbl (copy_pte old new ?s m) new j = 0" if "j < 1024" "Suc m \<le> j" for j using t [of new j] that ih by auto
  ultimately show ?case using ok ih ef(6-10) reserved_copy_pte by auto
qed

end
