(* ===== verification/Address_Fork.thy ===== *)
theory Address_Fork
  imports Address_Spaces
begin

text \<open>
  \<^verbatim>\<open>copy_page_tables\<close> and \<^verbatim>\<open>free_page_tables\<close> on address spaces: the loops over a page directory, and what the child of a fork and the other processes
  see afterwards.
\<close>

section \<open>Directory entries\<close>

lemma keeps_dirs_rest:
  assumes "keeps_dirs Q s s'"
  shows "cr3 s' = cr3 s" "high_memory s' = high_memory s" "swapper_pg_dir s' = swapper_pg_dir s" "vm_current s' = vm_current s" "reserved s a \<Longrightarrow> reserved s' a"
    "q \<in> Q \<Longrightarrow> tbl s' q = tbl s q"
  using assms by (auto simp: keeps_dirs_def)

lemma user_entry:
  assumes "spaces_ok s T P Q" "t \<in> T" "i < 768" "tbl s (cr3 s t) i \<noteq> 0"
  shows "present (tbl s (cr3 s t) i)" "tbl s (cr3 s t) i < high_memory s" "\<not> reserved s (tbl s (cr3 s t) i)" "page_of (tbl s (cr3 s t) i) \<in> P"
proof -
  note d = spaces_okD [OF assms(1)]
  show p: "page_of (tbl s (cr3 s t) i) \<in> P" "present (tbl s (cr3 s t) i)" "tbl s (cr3 s t) i < high_memory s"
    using d(6-8) [OF assms(2-4)] by (auto dest: is_table_present)
  show "\<not> reserved s (tbl s (cr3 s t) i)" using own_not_reserved [OF mm_okD(4) [OF d(1)], of "page_of (tbl s (cr3 s t) i)"] p(1) by (simp add: reserved_def)
qed

lemma dirs_differ: "spaces_ok s T P Q \<Longrightarrow> t \<in> T \<Longrightarrow> u \<in> T \<Longrightarrow> cr3 s u = cr3 s t \<longleftrightarrow> u = t"
  using inj_on_eq_iff [OF spaces_okD(3)] by blast

lemma dir_not_table: "spaces_ok s T P Q \<Longrightarrow> t \<in> T \<Longrightarrow> p \<in> P \<Longrightarrow> cr3 s t \<noteq> p"
  using spaces_okD(1,4) mm_okD(3) by blast

text \<open>An entry of a directory is cleared, leads to a table nobody uses yet, or shares a reserved table.\<close>

lemma spaces_ok_dir:
  assumes "spaces_ok s T P Q" "t \<in> T"
    and "i < 768 \<Longrightarrow> v \<noteq> 0 \<Longrightarrow> is_table v \<and> v < high_memory s \<and> page_of v \<in> P"
    and "768 \<le> i \<Longrightarrow> i < 1024 \<Longrightarrow> v \<noteq> 0 \<Longrightarrow> present v \<and> v < high_memory s \<and> reserved s v"
    and "\<And>u k. i < 768 \<Longrightarrow> v \<noteq> 0 \<Longrightarrow> u \<in> T \<Longrightarrow> k < 768 \<Longrightarrow> tbl s (cr3 s u) k \<noteq> 0 \<Longrightarrow> page_of (tbl s (cr3 s u) k) = page_of v \<Longrightarrow> u = t \<and> k = i"
  shows "spaces_ok (set_entry (cr3 s t) i v s) T P Q"
proof -
  note d = spaces_okD [OF assms(1)]
  let ?s = "set_entry (cr3 s t) i v s"
  have e: "tbl ?s (cr3 s u) k = (if u = t \<and> k = i then v else tbl s (cr3 s u) k)" if "u \<in> T" for u k
    using dirs_differ [OF assms(1,2) that] by auto
  have inj: "u = w \<and> k = l" if "u \<in> T" "w \<in> T" "k < 768" "l < 768" "tbl ?s (cr3 s u) k \<noteq> 0" "tbl ?s (cr3 s w) l \<noteq> 0"
    "page_of (tbl ?s (cr3 s u) k) = page_of (tbl ?s (cr3 s w) l)" for u w k l
  proof (cases "u = t \<and> k = i")
    case True
    then have "i < 768" "v \<noteq> 0" "page_of (tbl ?s (cr3 s w) l) = page_of v" using that(3,5,7) e [OF that(1), of k] by auto
    then show ?thesis using True that(2,4,6) e [OF that(2), of l] assms(5) [of w l] by metis
  next
    case False
    then have k: "tbl ?s (cr3 s u) k = tbl s (cr3 s u) k" using e [OF that(1), of k] by auto
    show ?thesis
    proof (cases "w = t \<and> l = i")
      case True
      then have "i < 768" "v \<noteq> 0" "tbl ?s (cr3 s w) l = v" using that(4,6) e [OF that(2), of l] by auto
      then show ?thesis using assms(5) [of u k] that(1,3,5,7) k True by metis
    next
      case False
      then show ?thesis using d(10) [OF that(1-4)] that(5-7) k e [OF that(2), of l] by metis
    qed
  qed
  have "mm_ok ?s P Q" by (rule mm_ok_dir [OF d(1) d(4) [OF assms(2)]])
  moreover have "is_table (tbl ?s (cr3 s u) k) \<and> tbl ?s (cr3 s u) k < high_memory s \<and> page_of (tbl ?s (cr3 s u) k) \<in> P"
    if "u \<in> T" "k < 768" "tbl ?s (cr3 s u) k \<noteq> 0" for u k
    using that(2,3) d(6-8) [OF that(1,2)] assms(3) unfolding e [OF that(1)] by (auto split: if_splits)
  moreover have "present (tbl ?s (cr3 s u) k) \<and> tbl ?s (cr3 s u) k < high_memory s \<and> reserved s (tbl ?s (cr3 s u) k)"
    if "u \<in> T" "768 \<le> k" "k < 1024" "tbl ?s (cr3 s u) k \<noteq> 0" for u k
    using that(2-4) d(9) [OF that(1-3)] assms(4) unfolding e [OF that(1)] by (auto split: if_splits)
  ultimately show ?thesis unfolding spaces_ok_def using d(2-5) inj by (auto simp del: set_entry_simps(1))
qed

lemma view_other_dir:
  assumes "spaces_ok s T P Q" "t \<in> T" "u \<in> T" "u \<noteq> t \<or> dir_index wa \<noteq> i" "wa < TASK_SIZE"
  shows "view (set_entry (cr3 s t) i v s) u wa = view s u wa"
proof -
  let ?s = "set_entry (cr3 s t) i v s"
  have e: "tbl ?s (cr3 s u) (dir_index wa) = tbl s (cr3 s u) (dir_index wa)" using dirs_differ [OF assms(1-3)] assms(4) by auto
  moreover have "pte ?s u wa = pte s u wa" if "tbl s (cr3 s u) (dir_index wa) \<noteq> 0"
  proof -
    have "page_of (tbl s (cr3 s u) (dir_index wa)) \<in> P" using user_entry(4) [OF assms(1,3) index_bounds(2) [OF assms(5)] that] .
    then have "cr3 s t \<noteq> page_of (tbl s (cr3 s u) (dir_index wa))" by (rule dir_not_table [OF assms(1,2)])
    then show ?thesis using e unfolding pte_def by simp
  qed
  ultimately show ?thesis by (auto simp: view_def mapped_def simp del: set_entry_simps(1))
qed

section \<open>Copying\<close>

text \<open>What one step of the outer loop promises: the child \<^verbatim>\<open>c\<close> gets the part of the space of \<^verbatim>\<open>t\<close> under the entry \<^verbatim>\<open>i\<close>.\<close>

definition same_globals :: "vm_state \<Rightarrow> vm_state \<Rightarrow> bool" where
  "same_globals s s' \<longleftrightarrow> cr3 s' = cr3 s \<and> high_memory s' = high_memory s \<and> swapper_pg_dir s' = swapper_pg_dir s \<and> vm_current s' = vm_current s"

lemma same_globals_refl [simp]: "same_globals s s"
  by (simp add: same_globals_def)

lemma same_globals_trans: "same_globals s s' \<Longrightarrow> same_globals s' s'' \<Longrightarrow> same_globals s s''"
  by (simp add: same_globals_def)

lemma keeps_dirs_globals: "keeps_dirs Q s s' \<Longrightarrow> same_globals s s'"
  by (simp add: keeps_dirs_def same_globals_def)

definition copies_dir :: "nat set \<Rightarrow> nat \<Rightarrow> nat \<Rightarrow> nat \<Rightarrow> vm_state \<Rightarrow> vm_state \<Rightarrow> bool" where
  "copies_dir T t c i s s' \<longleftrightarrow> same_globals s s' \<and> (\<forall>k. k \<noteq> i \<longrightarrow> tbl s' (cr3 s c) k = tbl s (cr3 s c) k) \<and> (\<forall>u\<in>T. u \<noteq> c \<longrightarrow> tbl s' (cr3 s u) = tbl s (cr3 s u))
     \<and> (\<forall>u\<in>T. \<forall>wa<TASK_SIZE. u \<noteq> c \<or> dir_index wa \<noteq> i \<longrightarrow> view s' u wa = view s u wa)
     \<and> (\<forall>wa<TASK_SIZE. dir_index wa = i \<longrightarrow> view s' c wa = view s t wa)"

lemma get_free_page_keeps:
  assumes "spaces_ok s T P Q" "get_free_page GFP_KERNEL s = (r, s')"
  shows "keeps_dirs Q s s'" "u \<in> T \<Longrightarrow> wa < TASK_SIZE \<Longrightarrow> view s' u wa = view s u wa" "spaces_ok s' T P Q"
proof -
  note d = spaces_okD [OF assms(1)]
  note k = get_free_page_take [OF d(1) assms(2)]
  have fr: "r \<noteq> 0 \<Longrightarrow> r \<notin> P \<union> Q" using k(2) by (auto simp: fresh_def)
  have t: "a \<in> P \<union> Q \<Longrightarrow> tbl s' a = tbl s a" for a using k(5) [of a] fr by blast
  show kd: "keeps_dirs Q s s'" using t k(9-12) get_free_page_map(2) [OF d(1) assms(2)] by (simp add: keeps_dirs_def)
  show "spaces_ok s' T P Q" by (rule spaces_ok_below [OF assms(1) kd k(1)]) simp
  show "view s' u wa = view s u wa" if "u \<in> T" "wa < TASK_SIZE"
  proof (rule view_eq)
    have e: "tbl s' (cr3 s' u) = tbl s (cr3 s u)" using t [of "cr3 s u"] d(4) [OF that(1)] k(9) by simp
    then show "tbl s' (cr3 s' u) (dir_index wa) = tbl s (cr3 s u) (dir_index wa)" by simp
    have p: "pte s' u wa = pte s u wa" if "tbl s (cr3 s u) (dir_index wa) \<noteq> 0"
      using t user_entry(4) [OF assms(1) \<open>u \<in> T\<close> index_bounds(2) [OF \<open>wa < TASK_SIZE\<close>] that] e unfolding pte_def by simp
    then show "tbl s (cr3 s u) (dir_index wa) \<noteq> 0 \<Longrightarrow> present (pte s' u wa) = present (pte s u wa)" by simp
    assume m: "mapped s u wa"
    have "page_of (pte s u wa) \<noteq> r \<or> r = 0"
    proof (rule disjCI)
      assume "r \<noteq> 0"
      have "page_of (tbl s (cr3 s u) (dir_index wa)) \<in> P" using site_of(1) [OF assms(1) that m] .
      then have "(page_of (tbl s (cr3 s u) (dir_index wa)), pt_index wa) \<in> sites s' P (MAP_NR (pte s u wa))"
        using site_of(2) [OF assms(1) that m] t by (auto simp: sites_def)
      then have "MAP_NR (pte s u wa) \<noteq> MAP_NR r" using k(2) [OF \<open>r \<noteq> 0\<close>] by (auto simp: fresh_def)
      then show "page_of (pte s u wa) \<noteq> r" by auto
    qed
    then show "frame s' (page_of (pte s' u wa)) = frame s (page_of (pte s u wa)) \<and> cow (pte s' u wa) = cow (pte s u wa)" using p m k(8) by (auto simp: mapped_def)
  qed
qed

text \<open>A table is copied into the fresh page \<^verbatim>\<open>new\<close>: nothing that a process sees changes, and the copy maps what the table maps.\<close>

lemma copy_ptes_views:
  assumes "spaces_ok s T P Q" "fresh s P Q new" "tbl s new = (\<lambda>_. 0)" "old \<in> P"
  defines "s' \<equiv> foldl (copy_pte old new) s [0..<1024]"
  shows "spaces_ok s' T (insert new P) Q" "keeps_dirs Q s s'" "u \<in> T \<Longrightarrow> wa < TASK_SIZE \<Longrightarrow> view s' u wa = view s u wa"
    "j < 1024 \<Longrightarrow> present (tbl s' new j) = present (tbl s old j)" "j < 1024 \<Longrightarrow> present (tbl s old j) \<Longrightarrow> page_of (tbl s' new j) = page_of (tbl s old j)"
    "frame s' = frame s" "j < 1024 \<Longrightarrow> present (tbl s old j) \<Longrightarrow> cow (tbl s' new j) = cow (tbl s old j)"
proof -
  note d = spaces_okD [OF assms(1)]
  have new: "new \<notin> P" "new \<notin> Q" "old \<noteq> new" using assms(2,4) by (auto simp: fresh_def)
  have ok: "mm_ok s (insert new P) Q" using mm_ok_add_table [OF d(1) assms(2)] assms(3) by simp
  note c = copy_ptes [OF ok _ _ new(3), of 1024, folded s'_def]
  have c: "mm_ok s' (insert new P) Q" "a \<noteq> old \<Longrightarrow> a \<noteq> new \<Longrightarrow> tbl s' a = tbl s a"
    "k < 1024 \<Longrightarrow> present (tbl s' old k) = present (tbl s old k) \<and> MAP_NR (tbl s' old k) = MAP_NR (tbl s old k) \<and> cow (tbl s' old k) = cow (tbl s old k)"
    "k < 1024 \<Longrightarrow> present (tbl s' new k) = present (tbl s old k)
      \<and> (present (tbl s old k) \<longrightarrow> MAP_NR (tbl s' new k) = MAP_NR (tbl s old k) \<and> cow (tbl s' new k) = cow (tbl s old k))"
    "frame s' = frame s" "cr3 s' = cr3 s" "high_memory s' = high_memory s" "swapper_pg_dir s' = swapper_pg_dir s" "vm_current s' = vm_current s"
    "reserved s b \<Longrightarrow> reserved s' b" for a k b
    using c assms(3,4) by auto
  have "old \<notin> Q" using mm_okD(3) [OF d(1)] assms(4) by auto
  then have "q \<in> Q \<Longrightarrow> tbl s' q = tbl s q" for q using c(2) [of q] new(2) by blast
  then show kd: "keeps_dirs Q s s'" using c(6-10) by (simp add: keeps_dirs_def)
  show "spaces_ok s' T (insert new P) Q" by (rule spaces_ok_below [OF assms(1) kd c(1)]) auto
  show "frame s' = frame s" "j < 1024 \<Longrightarrow> present (tbl s' new j) = present (tbl s old j)"
    "j < 1024 \<Longrightarrow> present (tbl s old j) \<Longrightarrow> page_of (tbl s' new j) = page_of (tbl s old j)"
    "j < 1024 \<Longrightarrow> present (tbl s old j) \<Longrightarrow> cow (tbl s' new j) = cow (tbl s old j)" using c(4,5) by (auto simp: page_of_eq_iff)
  show "view s' u wa = view s u wa" if "u \<in> T" "wa < TASK_SIZE"
  proof (rule view_eq)
    have e: "tbl s' (cr3 s' u) = tbl s (cr3 s u)" using keeps_dirs_rest(1,6) [OF kd] d(4) [OF that(1)] by simp
    then show "tbl s' (cr3 s' u) (dir_index wa) = tbl s (cr3 s u) (dir_index wa)" by simp
    have *: "present (pte s' u wa) = present (pte s u wa) \<and> MAP_NR (pte s' u wa) = MAP_NR (pte s u wa) \<and> cow (pte s' u wa) = cow (pte s u wa)" if "tbl s (cr3 s u) (dir_index wa) \<noteq> 0"
    proof (cases "page_of (tbl s (cr3 s u) (dir_index wa)) = old")
      case True
      then show ?thesis using c(3) [of "pt_index wa"] e by (simp add: pte_def)
    next
      case False
      have "page_of (tbl s (cr3 s u) (dir_index wa)) \<noteq> new" using user_entry(4) [OF assms(1) \<open>u \<in> T\<close> index_bounds(2) [OF \<open>wa < TASK_SIZE\<close>] that] new(1) by auto
      then show ?thesis using c(2) [OF False] e by (simp add: pte_def)
    qed
    then show "tbl s (cr3 s u) (dir_index wa) \<noteq> 0 \<Longrightarrow> present (pte s' u wa) = present (pte s u wa)" by simp
    assume "mapped s u wa"
    then show "frame s' (page_of (pte s' u wa)) = frame s (page_of (pte s u wa)) \<and> cow (pte s' u wa) = cow (pte s u wa)" using * c(5) by (simp add: mapped_def page_of_eq_iff [symmetric])
  qed
qed

lemma new_table_entry:
  assumes "fresh s P Q new" "aligned (high_memory s)"
  shows "page_of (add_flags new PAGE_TABLE) = new" "is_table (add_flags new PAGE_TABLE)" "add_flags new PAGE_TABLE < high_memory s" "add_flags new PAGE_TABLE \<noteq> 0"
proof -
  have n: "own_page s new" using assms(1) by (simp add: fresh_def)
  show "page_of (add_flags new PAGE_TABLE) = new" using n page_of_eq_iff [of "add_flags new PAGE_TABLE" new] by (simp add: own_page_def aligned_iff)
  show t: "is_table (add_flags new PAGE_TABLE)" by (simp add: is_table_def add_flags_def bit.conj_disj_distrib2)
  show "add_flags new PAGE_TABLE < high_memory s" using n less_high [OF assms(2)] by (simp add: own_page_def)
  show "add_flags new PAGE_TABLE \<noteq> 0" using is_table_present [OF t] by auto
qed

lemma copy_table_user:
  assumes "spaces_ok s T P Q" "t \<in> T" "c \<in> T" "t \<noteq> c" "i < 768" "tbl s (cr3 s c) i = 0"
  shows "\<And>s'. copy_table (cr3 s t) (cr3 s c) i s = Inl s' \<Longrightarrow>
      spaces_ok s' T P Q \<and> same_globals s s' \<and> (\<forall>u\<in>T. \<forall>wa<TASK_SIZE. view s' u wa = view s u wa)"
    "\<And>s'. copy_table (cr3 s t) (cr3 s c) i s = Inr s' \<Longrightarrow> \<exists>P'. spaces_ok s' T P' Q \<and> copies_dir T t c i s s'"
proof -
  let ?pt = "tbl s (cr3 s t) i"
  obtain new s1 where g: "get_free_page GFP_KERNEL s = (new, s1)" by fastforce
  note d = spaces_okD [OF assms(1)] and k = get_free_page_take [OF spaces_okD(1) [OF assms(1)] g] and gk = get_free_page_keeps [OF assms(1) g]
  define s2 where "s2 = foldl (copy_pte (page_of ?pt) (page_of new)) s1 [0..<1024]"
  have run: "copy_table (cr3 s t) (cr3 s c) i s = (if ?pt = 0 then Inr s else if new = 0 then Inl s1 else Inr (set_entry (cr3 s c) i (add_flags new PAGE_TABLE) s2))"
    using user_entry [OF assms(1,2,5)] g by (cases "?pt = 0") (simp_all add: copy_table_def Let_def s2_def linorder_not_le [symmetric])
  show "spaces_ok s' T P Q \<and> same_globals s s' \<and> (\<forall>u\<in>T. \<forall>wa<TASK_SIZE. view s' u wa = view s u wa)"
    if "copy_table (cr3 s t) (cr3 s c) i s = Inl s'" for s'
    using that run gk keeps_dirs_globals [OF gk(1)] by (auto split: if_splits)
  show "\<exists>P'. spaces_ok s' T P' Q \<and> copies_dir T t c i s s'" if r: "copy_table (cr3 s t) (cr3 s c) i s = Inr s'" for s'
  proof (cases "?pt = 0")
    case True
    then have "s' = s" "copies_dir T t c i s s" using r run assms(6) by (auto simp: copies_dir_def view_def mapped_def)
    then show ?thesis using assms(1) by auto
  next
    case False
    then have new: "new \<noteq> 0" and s': "s' = set_entry (cr3 s c) i (add_flags new PAGE_TABLE) s2" using r run by (auto split: if_splits)
    have fr: "fresh s1 P Q new" by (rule k(2) [OF new])
    have "page_of new = new" using fr by (simp add: fresh_def own_page_def aligned_iff)
    then have s2: "s2 = foldl (copy_pte (page_of ?pt) new) s1 [0..<1024]" by (simp add: s2_def)
    note old = user_entry(4) [OF assms(1,2,5) False]
    note c = copy_ptes_views [OF gk(3) fr k(6) [OF new] old, folded s2]
    have kd: "keeps_dirs Q s s2" using keeps_dirs_trans [OF gk(1) c(2)] .
    note kr = keeps_dirs_rest [OF kd]
    have h: "high_memory s2 = high_memory s1" using kr(2) k(11) by simp
    note nt = new_table_entry [OF fr mm_okD(8) [OF k(1)]]
    have s'2: "s' = set_entry (cr3 s2 c) i (add_flags new PAGE_TABLE) s2" using s' kr(1) by simp
    have dirs: "tbl s2 (cr3 s2 u) = tbl s (cr3 s u)" if "u \<in> T" for u using kr(1,6) d(4) [OF that] by simp
    have "spaces_ok s' T (insert new P) Q" unfolding s'2
    proof (rule spaces_ok_dir [OF c(1) assms(3)])
      show "u = c \<and> l = i" if "u \<in> T" "l < 768" "tbl s2 (cr3 s2 u) l \<noteq> 0" "page_of (tbl s2 (cr3 s2 u) l) = page_of (add_flags new PAGE_TABLE)" for u l
        using that dirs [OF that(1)] user_entry(4) [OF assms(1) that(1,2)] nt(1) fr by (auto simp: fresh_def)
    qed (use nt h assms(5) in auto)
    moreover have "copies_dir T t c i s s'" unfolding copies_dir_def
    proof (intro conjI allI ballI impI)
      show "same_globals s s'" using keeps_dirs_globals [OF kd] by (simp add: s' same_globals_def)
      show "tbl s' (cr3 s c) l = tbl s (cr3 s c) l" if "l \<noteq> i" for l using that dirs [OF assms(3)] kr(1) by (simp add: s')
      show "tbl s' (cr3 s u) = tbl s (cr3 s u)" if "u \<in> T" "u \<noteq> c" for u using dirs [OF that(1)] dirs_differ [OF assms(1,3) that(1)] that(2) kr(1) by (simp add: s')
      show "view s' u wa = view s u wa" if "u \<in> T" "wa < TASK_SIZE" "u \<noteq> c \<or> dir_index wa \<noteq> i" for u wa
        unfolding s'2 using view_other_dir [OF c(1) assms(3) that(1) that(3,2)] c(3) [OF that(1,2)] gk(2) [OF that(1,2)] by simp
      show "view s' c wa = view s t wa" if wa: "wa < TASK_SIZE" "dir_index wa = i" for wa
      proof -
        have ne: "cr3 s2 c \<noteq> new" using dir_not_table [OF c(1) assms(3), of new] by simp
        have 1: "tbl s' (cr3 s' c) (dir_index wa) = add_flags new PAGE_TABLE" "pte s' c wa = tbl s2 new (pt_index wa)"
          using wa(2) nt(1) ne by (simp_all add: s'2 pte_def)
        have "tbl s1 (cr3 s1 t) = tbl s (cr3 s t)" using keeps_dirs_rest(1,6) [OF gk(1)] d(4) [OF assms(2)] by simp
        then have 2: "tbl s1 (cr3 s1 t) (dir_index wa) \<noteq> 0" "pte s1 t wa = tbl s1 (page_of ?pt) (pt_index wa)" using False wa(2) by (simp_all add: pte_def)
        have "view s' c wa = view s1 t wa" using 1 2 nt(4) c(4-7) by (auto simp: view_def mapped_def s')
        then show ?thesis using gk(2) [OF assms(2) wa(1)] by simp
      qed
    qed
    ultimately show ?thesis by blast
  qed
qed

lemma copy_table_kernel:
  assumes "spaces_ok s T P Q" "t \<in> T" "c \<in> T" "768 \<le> i" "i < 1024"
  shows "\<exists>s'. copy_table (cr3 s t) (cr3 s c) i s = Inr s' \<and> spaces_ok s' T P Q \<and> copies_dir T t c i s s'"
proof (cases "tbl s (cr3 s t) i = 0")
  case True
  then show ?thesis using assms(1,4) index_bounds(2) by (auto simp: copy_table_def Let_def copies_dir_def dest: leD)
next
  case False
  let ?pt = "tbl s (cr3 s t) i"
  let ?s = "set_entry (cr3 s c) i ?pt s"
  have pt: "present ?pt" "?pt < high_memory s" "reserved s ?pt" using spaces_okD(9) [OF assms(1,2,4,5) False] by auto
  then have "copy_table (cr3 s t) (cr3 s c) i s = Inr ?s" using False by (simp add: copy_table_def Let_def linorder_not_le [symmetric])
  moreover have "spaces_ok ?s T P Q" by (rule spaces_ok_dir [OF assms(1,3)]) (use pt assms(4) in auto)
  moreover have "copies_dir T t c i s ?s" unfolding copies_dir_def same_globals_def
    using view_other_dir [OF assms(1,3)] index_bounds(2) assms(4) dirs_differ [OF assms(1,3)] by (auto dest: leD)
  ultimately show ?thesis by blast
qed

lemma copy_table_step:
  assumes "spaces_ok s T P Q" "t \<in> T" "c \<in> T" "t \<noteq> c" "i < 1024" "tbl s (cr3 s c) i = 0"
  shows "case copy_table (cr3 s t) (cr3 s c) i s of
      Inl s' \<Rightarrow> spaces_ok s' T P Q \<and> same_globals s s' \<and> (\<forall>u\<in>T. \<forall>wa<TASK_SIZE. view s' u wa = view s u wa)
    | Inr s' \<Rightarrow> \<exists>P'. spaces_ok s' T P' Q \<and> copies_dir T t c i s s'"
proof (cases "i < 768")
  case True
  show ?thesis using copy_table_user [OF assms(1-4) True assms(6)] by (auto split: sum.split)
next
  case False
  then show ?thesis using copy_table_kernel [OF assms(1-3) _ assms(5)] by auto
qed

lemma copy_tables_views:
  assumes "spaces_ok s T P Q" "t \<in> T" "c \<in> T" "t \<noteq> c" "distinct is" "\<forall>i\<in>set is. i < 1024 \<and> tbl s (cr3 s c) i = 0"
  shows "case copy_tables (cr3 s t) (cr3 s c) is s of
      Inl s' \<Rightarrow> \<exists>P'. spaces_ok s' T P' Q \<and> same_globals s s' \<and> (\<forall>u\<in>T - {c}. \<forall>wa<TASK_SIZE. view s' u wa = view s u wa)
    | Inr s' \<Rightarrow> \<exists>P'. spaces_ok s' T P' Q \<and> same_globals s s' \<and> (\<forall>u\<in>T - {c}. \<forall>wa<TASK_SIZE. view s' u wa = view s u wa)
        \<and> (\<forall>wa<TASK_SIZE. view s' c wa = (if dir_index wa \<in> set is then view s t wa else view s c wa))"
  using assms(1,5,6)
proof (induction "is" arbitrary: s P)
  case (Cons i ks)
  note step = copy_table_step [OF Cons.prems(1) assms(2-4), of i]
  show ?case
  proof (cases "copy_table (cr3 s t) (cr3 s c) i s")
    case (Inl s')
    then show ?thesis using step Cons.prems(3) by auto
  next
    case (Inr s1)
    then obtain P1 where 1: "spaces_ok s1 T P1 Q" "copies_dir T t c i s s1" using step Cons.prems(3) by auto
    note c = 1(2) [unfolded copies_dir_def]
    have g: "cr3 s1 = cr3 s" using c by (simp add: same_globals_def)
    have z: "\<forall>k\<in>set ks. k < 1024 \<and> tbl s1 (cr3 s1 c) k = 0" using Cons.prems(2,3) c g by auto
    have run: "copy_tables (cr3 s t) (cr3 s c) (i # ks) s = copy_tables (cr3 s1 t) (cr3 s1 c) ks s1" using Inr g by simp
    note ih = Cons.IH [OF 1(1) _ z]
    have tr: "same_globals s1 s' \<Longrightarrow> same_globals s s'" for s' using c same_globals_trans by blast
    have v: "view s1 u wa = view s u wa" if "u \<in> T - {c}" "wa < TASK_SIZE" for u wa using c that by auto
    have w: "view s1 c wa = (if dir_index wa = i then view s t wa else view s c wa)" if "wa < TASK_SIZE" for wa using c that assms(3) by auto
    show ?thesis
    proof (cases "copy_tables (cr3 s1 t) (cr3 s1 c) ks s1")
      case (Inl s')
      with ih Cons.prems(2) obtain P' where "spaces_ok s' T P' Q" "same_globals s1 s'" "\<forall>u\<in>T - {c}. \<forall>wa<TASK_SIZE. view s' u wa = view s1 u wa" by auto
      then show ?thesis unfolding run Inl using tr v by auto
    next
      case (Inr s')
      with ih Cons.prems(2) obtain P' where 2: "spaces_ok s' T P' Q" "same_globals s1 s'" "\<forall>u\<in>T - {c}. \<forall>wa<TASK_SIZE. view s' u wa = view s1 u wa"
        "\<forall>wa<TASK_SIZE. view s' c wa = (if dir_index wa \<in> set ks then view s1 t wa else view s1 c wa)" by auto
      have "view s' c wa = (if dir_index wa \<in> set (i # ks) then view s t wa else view s c wa)" if "wa < TASK_SIZE" for wa
        using 2(4) w [OF that] v [OF _ that, of t] that assms(2,4) by auto
      then show ?thesis unfolding run Inr using 2 tr v by auto
    qed
  qed
qed auto

section \<open>Freeing\<close>

lemma spaces_ok_tables:
  assumes "spaces_ok s T P Q" "keeps_dirs Q s s'" "mm_ok s' P' Q"
    and "\<And>u k. u \<in> T \<Longrightarrow> k < 768 \<Longrightarrow> tbl s (cr3 s u) k \<noteq> 0 \<Longrightarrow> page_of (tbl s (cr3 s u) k) \<in> P'"
  shows "spaces_ok s' T P' Q"
proof -
  note d = spaces_okD [OF assms(1)] and k = keeps_dirs_rest [OF assms(2)]
  have e: "t \<in> T \<Longrightarrow> tbl s' (cr3 s t) i = tbl s (cr3 s t) i" for t i using d(4) [of t] k(6) by simp
  show ?thesis unfolding spaces_ok_def k(1-3) using d(2-7,9,10) assms(3,4) e k(5) by (auto simp: image_subset_iff)
qed

lemma reserved_clear_pte: "reserved s a \<Longrightarrow> reserved (clear_pte p s j) a"
proof -
  have "mem_map (swap_free e u) = mem_map u" for e u using core_simps(2) [of e u] by (simp add: core_def del: core_simps)
  then have "reserved (swap_free e u) a = reserved u a" for e u by (simp add: reserved_def)
  moreover assume "reserved s a"
  ultimately show ?thesis by (simp add: clear_pte_def Let_def reserved_free_page)
qed

lemma clear_ptes:
  fixes s :: vm_state
  assumes "mm_ok s P Q" "p \<in> P" "m \<le> 1024"
  defines "s' \<equiv> foldl (clear_pte p) s [0..<m]"
  shows "mm_ok s' P Q \<and> (\<forall>a. a \<noteq> p \<longrightarrow> tbl s' a = tbl s a) \<and> (\<forall>j<m. tbl s' p j = 0) \<and> frame s' = frame s \<and> same_globals s s' \<and> (\<forall>a. reserved s a \<longrightarrow> reserved s' a)"
  unfolding s'_def using assms(3)
proof (induction m)
  case (Suc m)
  let ?s = "foldl (clear_pte p) s [0..<m]"
  note ih = Suc.IH [OF Suc_leD [OF Suc.prems]]
  have "m < 1024" using Suc.prems by simp
  note c = clear_pte_step [OF _ assms(2) this, of ?s Q]
  have t: "tbl (clear_pte p ?s m) = (tbl ?s)(p := (tbl ?s p)(m := 0))" using c ih by (simp add: only_entry_def)
  then have "tbl (clear_pte p ?s m) p j = 0" if "j < Suc m" for j using that ih by (auto simp: less_Suc_eq)
  then show ?case using c ih t reserved_clear_pte by (auto simp: only_entry_def same_globals_def)
qed (simp add: assms(1))

text \<open>What the processes see under the other entries does not depend on a table nobody uses.\<close>

lemma view_unlinked:
  assumes "spaces_ok s T P Q" "keeps_dirs Q s s'" "u \<in> T" "wa < TASK_SIZE" "frame s' = frame s"
    and "\<And>a. a \<noteq> p \<Longrightarrow> tbl s' a = tbl s a" "tbl s (cr3 s u) (dir_index wa) \<noteq> 0 \<Longrightarrow> page_of (tbl s (cr3 s u) (dir_index wa)) \<noteq> p"
  shows "view s' u wa = view s u wa"
proof (rule view_eq)
  have e: "tbl s' (cr3 s' u) = tbl s (cr3 s u)" using keeps_dirs_rest(1,6) [OF assms(2)] spaces_okD(4) [OF assms(1,3)] by simp
  then show "tbl s' (cr3 s' u) (dir_index wa) = tbl s (cr3 s u) (dir_index wa)" by simp
  have p: "pte s' u wa = pte s u wa" if "tbl s (cr3 s u) (dir_index wa) \<noteq> 0" using assms(6) [OF assms(7) [OF that]] e by (simp add: pte_def)
  then show "tbl s (cr3 s u) (dir_index wa) \<noteq> 0 \<Longrightarrow> present (pte s' u wa) = present (pte s u wa)" by simp
  show "mapped s u wa \<Longrightarrow> frame s' (page_of (pte s' u wa)) = frame s (page_of (pte s u wa)) \<and> cow (pte s' u wa) = cow (pte s u wa)" using p assms(5) by (simp add: mapped_def)
qed

definition drops_dir :: "nat set \<Rightarrow> nat \<Rightarrow> nat \<Rightarrow> vm_state \<Rightarrow> vm_state \<Rightarrow> bool" where
  "drops_dir T t i s s' \<longleftrightarrow> same_globals s s' \<and> tbl s' (cr3 s t) = (tbl s (cr3 s t))(i := 0)
     \<and> (\<forall>u\<in>T. \<forall>wa<TASK_SIZE. u \<noteq> t \<or> dir_index wa \<noteq> i \<longrightarrow> view s' u wa = view s u wa)"

lemma free_one_table_step:
  assumes "spaces_ok s T P Q" "t \<in> T" "i < 1024"
  shows "\<exists>P'. spaces_ok (free_one_table (cr3 s t) s i) T P' Q \<and> drops_dir T t i s (free_one_table (cr3 s t) s i)"
proof -
  let ?pt = "tbl s (cr3 s t) i" and ?s = "set_entry (cr3 s t) i 0 s"
  have cl: "spaces_ok ?s T P Q" by (rule spaces_ok_dir [OF assms(1,2)]) auto
  have dr: "drops_dir T t i s ?s" unfolding drops_dir_def same_globals_def using view_other_dir [OF assms(1,2)] by auto
  consider "?pt = 0" | "?pt \<noteq> 0" "768 \<le> i" | "?pt \<noteq> 0" "i < 768" by linarith
  then show ?thesis
  proof cases
    case 1
    then have "drops_dir T t i s s" by (auto simp: drops_dir_def)
    then show ?thesis using 1 assms(1) by (auto simp: free_one_table_def)
  next
    case 2
    then have "present ?pt" "?pt < high_memory s" "reserved s ?pt" using spaces_okD(9) [OF assms(1,2) 2(2) assms(3) 2(1)] by auto
    then have "free_one_table (cr3 s t) s i = ?s" using 2(1) by (simp add: free_one_table_def Let_def linorder_not_le [symmetric])
    then show ?thesis using cl dr by auto
  next
    case 3
    let ?p = "page_of ?pt"
    define s1 where "s1 = foldl (clear_pte ?p) ?s [0..<1024]"
    define s2 where "s2 = free_page ?p s1"
    note pt = user_entry [OF assms(1,2) 3(2,1)]
    have run: "free_one_table (cr3 s t) s i = s2" using 3(1) pt(1-3) by (simp add: free_one_table_def Let_def linorder_not_le [symmetric] s1_def s2_def)
    note c = clear_ptes [OF spaces_okD(1) [OF cl] pt(4), of 1024, folded s1_def]
    have c: "mm_ok s1 P Q" "a \<noteq> ?p \<Longrightarrow> tbl s1 a = tbl ?s a" "j < 1024 \<Longrightarrow> tbl s1 ?p j = 0" "frame s1 = frame ?s" "same_globals ?s s1" "reserved ?s a \<Longrightarrow> reserved s1 a" for a j
      using c by auto
    have nq: "?p \<notin> Q" using mm_okD(3) [OF spaces_okD(1) [OF assms(1)]] pt(4) by auto
    have "mm_ok s2 (P - {?p}) (Q - {?p})" unfolding s2_def by (rule mm_ok_free_own [OF c(1)]) (use pt(4) c(3) in auto)
    then have ok: "mm_ok s2 (P - {?p}) Q" using nq by simp
    have "q \<in> Q \<Longrightarrow> tbl s2 q = tbl ?s q" for q using c(2) [of q] nq unfolding s2_def by (metis free_page_simps(1))
    then have kd: "keeps_dirs Q ?s s2" using c(5) reserved_free_page c(6) unfolding keeps_dirs_def same_globals_def s2_def by (simp del: set_entry_simps(1))
    have un: "page_of (tbl ?s (cr3 ?s u) k) \<in> P - {?p}" if "u \<in> T" "k < 768" "tbl ?s (cr3 ?s u) k \<noteq> 0" for u k
      using spaces_okD(10) [OF assms(1) that(1) assms(2) that(2) 3(2) _ 3(1)] user_entry(4) [OF cl that] that(3) dirs_differ [OF assms(1,2) that(1)] by (auto split: if_splits)
    have "spaces_ok s2 T (P - {?p}) Q" by (rule spaces_ok_tables [OF cl kd ok un])
    moreover have "view s2 u wa = view ?s u wa" if "u \<in> T" "wa < TASK_SIZE" for u wa
      by (rule view_unlinked [OF cl kd that, of ?p]) (use c(2,4) un [OF that(1) index_bounds(2) [OF that(2)]] in \<open>auto simp: s2_def simp del: set_entry_simps(1)\<close>)
    moreover have "tbl s2 (cr3 s t) = tbl ?s (cr3 s t)" using keeps_dirs_rest(6) [OF kd] spaces_okD(4) [OF assms(1,2)] by simp
    ultimately show ?thesis unfolding run using dr same_globals_trans [OF _ keeps_dirs_globals [OF kd]] by (auto simp: drops_dir_def simp del: set_entry_simps(1))
  qed
qed

text \<open>The loop over the first \<^verbatim>\<open>m\<close> entries.\<close>

lemma free_tables_views:
  fixes s :: vm_state
  assumes "spaces_ok s T P Q" "t \<in> T" "m \<le> 1024"
  defines "s' \<equiv> foldl (free_one_table (cr3 s t)) s [0..<m]"
  shows "\<exists>P'. spaces_ok s' T P' Q \<and> same_globals s s' \<and> (\<forall>i<m. tbl s' (cr3 s t) i = 0)
    \<and> (\<forall>u\<in>T. \<forall>wa<TASK_SIZE. u \<noteq> t \<or> m \<le> dir_index wa \<longrightarrow> view s' u wa = view s u wa)"
  unfolding s'_def using assms(3)
proof (induction m)
  case 0
  show ?case using assms(1) by auto
next
  case (Suc m)
  let ?s = "foldl (free_one_table (cr3 s t)) s [0..<m]"
  obtain P1 where 1: "spaces_ok ?s T P1 Q" "same_globals s ?s" "\<forall>i<m. tbl ?s (cr3 s t) i = 0"
    "\<forall>u\<in>T. \<forall>wa<TASK_SIZE. u \<noteq> t \<or> m \<le> dir_index wa \<longrightarrow> view ?s u wa = view s u wa" using Suc.IH Suc.prems by (meson Suc_leD)
  let ?u = "free_one_table (cr3 s t) ?s m"
  have cr: "cr3 ?s = cr3 s" using 1(2) by (simp add: same_globals_def)
  obtain P2 where 2: "spaces_ok ?u T P2 Q" "drops_dir T t m ?s ?u" using free_one_table_step [OF 1(1) assms(2), of m] Suc.prems cr by auto
  note d = 2(2) [unfolded drops_dir_def cr]
  have "\<forall>i<Suc m. tbl ?u (cr3 s t) i = 0" using d 1(3) by (auto simp: less_Suc_eq)
  moreover have "same_globals s ?u" using d 1(2) same_globals_trans by blast
  moreover have "\<forall>u\<in>T. \<forall>wa<TASK_SIZE. u \<noteq> t \<or> Suc m \<le> dir_index wa \<longrightarrow> view ?u u wa = view s u wa" using d 1(4) by auto
  ultimately show ?case using 2(1) by auto
qed

lemma free_one_table_cr3: "free_one_table d (s\<lparr>cr3 := f\<rparr>) i = (free_one_table d s i)\<lparr>cr3 := f\<rparr>"
proof -
  have f: "free_page a (s\<lparr>cr3 := f\<rparr>) = (free_page a s)\<lparr>cr3 := f\<rparr>" for a s by (simp add: free_page_def Let_def set_map_def vm_note_def)
  have e: "set_entry p j v (s\<lparr>cr3 := f\<rparr>) = (set_entry p j v s)\<lparr>cr3 := f\<rparr>" for p j v s by (simp add: set_entry_def)
  have w: "swap_free e (s\<lparr>cr3 := f\<rparr>) = (swap_free e s)\<lparr>cr3 := f\<rparr>" for e s by (simp add: swap_free_def Let_def vm_note_def)
  have c: "clear_pte p (s\<lparr>cr3 := f\<rparr>) j = (clear_pte p s j)\<lparr>cr3 := f\<rparr>" for p s j by (simp add: clear_pte_def Let_def f e w)
  have "foldl (clear_pte p) (s\<lparr>cr3 := f\<rparr>) js = (foldl (clear_pte p) s js)\<lparr>cr3 := f\<rparr>" for p s js by (induction js arbitrary: s) (simp_all add: c)
  then show ?thesis by (simp add: free_one_table_def Let_def e f vm_note_def reserved_def)
qed

lemma free_tables_cr3: "foldl (free_one_table d) (s\<lparr>cr3 := f\<rparr>) js = (foldl (free_one_table d) s js)\<lparr>cr3 := f\<rparr>"
  by (induction js arbitrary: s) (simp_all add: free_one_table_cr3)

lemma own_dir:
  assumes "spaces_ok s T P Q" "t \<in> T"
  shows "cr3 s t \<noteq> 0" "cr3 s t \<noteq> swapper_pg_dir s" "mem_map s (MAP_NR (cr3 s t)) = 1" "t \<noteq> 0"
proof -
  have "own_page s (cr3 s t)" using mm_okD(4) [OF spaces_okD(1)] spaces_okD(4) assms by blast
  then show "cr3 s t \<noteq> 0" "mem_map s (MAP_NR (cr3 s t)) = 1" "cr3 s t \<noteq> swapper_pg_dir s"
    using spaces_okD(5) [OF assms(1)] own_not_reserved by (auto simp: own_page_def)
  show "t \<noteq> 0" using spaces_okD(2) [OF assms(1)] assms(2) by metis
qed

text \<open>A process leaves with its directory, which no entry of another directory leads to.\<close>

lemma spaces_ok_leave:
  fixes x :: u32
  assumes "spaces_ok s T P Q" "t \<in> T"
  defines "s' \<equiv> free_page (cr3 s t) (s\<lparr>cr3 := (cr3 s)(t := x)\<rparr>)"
  shows "spaces_ok s' (T - {t}) P (Q - {cr3 s t})" "u \<in> T - {t} \<Longrightarrow> view s' u wa = view s u wa"
proof -
  let ?d = "cr3 s t" and ?s = "s\<lparr>cr3 := (cr3 s)(t := x)\<rparr>"
  note d = spaces_okD [OF assms(1)]
  have core: "core ?s = core s" by simp
  have "?d \<notin> P" using dir_not_table [OF assms(1,2)] by blast
  have "mm_ok s' (P - {?d}) (Q - {?d})" unfolding s'_def
    by (rule mm_ok_free_own) (use mm_ok_core [OF core] d(1,4) assms(2) \<open>?d \<notin> P\<close> in auto)
  then have ok: "mm_ok s' P (Q - {?d})" using \<open>?d \<notin> P\<close> by simp
  have k: "tbl s' = tbl s" "high_memory s' = high_memory s" "swapper_pg_dir s' = swapper_pg_dir s" "frame s' = frame s" "cr3 s' = (cr3 s)(t := x)"
    by (simp_all add: s'_def)
  have "reserved s a \<Longrightarrow> reserved ?s a" for a by (simp add: reserved_def)
  then have r: "reserved s a \<Longrightarrow> reserved s' a" for a unfolding s'_def using reserved_free_page by blast
  have c: "u \<in> T - {t} \<Longrightarrow> cr3 s' u = cr3 s u" for u by (simp add: k)
  have "inj_on (cr3 s') (T - {t})" using d(3) by (auto simp: inj_on_def k)
  moreover have "cr3 s' ` (T - {t}) \<subseteq> Q - {?d}" using d(4) dirs_differ [OF assms(1,2)] by (auto simp: k)
  ultimately show "spaces_ok s' (T - {t}) P (Q - {?d})" unfolding spaces_ok_def k(1-3) using ok d(2,5-10) r c by auto
  show "view s' u wa = view s u wa" if "u \<in> T - {t}" using c [OF that] by (simp add: view_def mapped_def pte_def k(1,4))
qed

lemma free_page_tables_leaves:
  assumes "spaces_ok s T P Q" "t \<in> T"
  shows "\<exists>s' P' Q'. free_page_tables t s = Some s' \<and> spaces_ok s' (T - {t}) P' Q' \<and> vm_current s' = vm_current s
    \<and> (\<forall>u\<in>T - {t}. \<forall>wa<TASK_SIZE. view s' u wa = view s u wa)"
proof -
  let ?x = "swapper_pg_dir s" and ?d = "cr3 s t"
  define s1 where "s1 = foldl (free_one_table ?d) s [0..<1024]"
  obtain P1 where 1: "spaces_ok s1 T P1 Q" "same_globals s s1" "\<forall>u\<in>T. \<forall>wa<TASK_SIZE. u \<noteq> t \<longrightarrow> view s1 u wa = view s u wa"
    using free_tables_views [OF assms, of 1024] unfolding s1_def by auto
  have g: "cr3 s1 = cr3 s" "vm_current s1 = vm_current s" using 1(2) by (simp_all add: same_globals_def)
  have "free_page_tables t s = Some (free_page (cr3 s1 t) (s1\<lparr>cr3 := (cr3 s1)(t := ?x)\<rparr>))"
    using own_dir [OF assms] by (simp add: free_page_tables_def Let_def free_tables_cr3 g s1_def [symmetric])
  then show ?thesis using spaces_ok_leave [OF 1(1) assms(2), where x = ?x] 1(3) g by auto
qed

text \<open>A process joins with an empty directory in a fresh page.\<close>

lemma spaces_ok_join:
  assumes "spaces_ok s T P Q" "fresh s P Q n" "tbl s n = (\<lambda>_. 0)" "c \<notin> T" "c \<noteq> 0"
  defines "s' \<equiv> s\<lparr>cr3 := (cr3 s)(c := n)\<rparr>"
  shows "spaces_ok s' (insert c T) P (insert n Q)" "u \<in> T \<Longrightarrow> view s' u wa = view s u wa"
proof -
  note d = spaces_okD [OF assms(1)]
  have ok: "mm_ok s' P (insert n Q)" using mm_ok_add_dir [OF d(1) assms(2)] mm_ok_core [of s' s] by (simp add: s'_def)
  have k: "tbl s' = tbl s" "high_memory s' = high_memory s" "swapper_pg_dir s' = swapper_pg_dir s" "frame s' = frame s" "cr3 s' = (cr3 s)(c := n)"
    "reserved s' = reserved s" by (simp_all add: s'_def reserved_def fun_eq_iff)
  have c: "u \<in> T \<Longrightarrow> cr3 s' u = cr3 s u" for u using assms(4) by (auto simp: k)
  have n: "tbl s (cr3 s' c) i = 0" for i by (simp add: k assms(3))
  have "n \<notin> Q" using assms(2) by (simp add: fresh_def)
  then have "inj_on (cr3 s') (insert c T)" using d(3,4) assms(4) by (auto simp: inj_on_def k)
  moreover have "cr3 s' ` insert c T \<subseteq> insert n Q" using d(4) by (auto simp: k)
  ultimately show "spaces_ok s' (insert c T) P (insert n Q)" unfolding spaces_ok_def k(1-3,6) using ok d(2,5-10) c n assms(5) by auto
  show "view s' u wa = view s u wa" if "u \<in> T" using c [OF that] by (simp add: view_def mapped_def pte_def k(1,4))
qed

lemma copy_page_tables_fork:
  assumes "spaces_ok s T P Q" "vm_current s \<in> T" "c \<notin> T" "c \<noteq> 0"
  obtains s' P' Q' where "copy_page_tables c s = Some (0, s')" "spaces_ok s' (insert c T) P' Q'" "vm_current s' = vm_current s"
      "\<And>u wa. u \<in> T \<Longrightarrow> wa < TASK_SIZE \<Longrightarrow> view s' u wa = view s u wa" "\<And>wa. wa < TASK_SIZE \<Longrightarrow> view s' c wa = view s (vm_current s) wa"
  | s' P' Q' where "copy_page_tables c s = Some (- ENOMEM, s')" "spaces_ok s' T P' Q'" "vm_current s' = vm_current s"
      "\<And>u wa. u \<in> T \<Longrightarrow> wa < TASK_SIZE \<Longrightarrow> view s' u wa = view s u wa"
proof -
  let ?t = "vm_current s"
  obtain n s1 where g: "get_free_page GFP_KERNEL s = (n, s1)" by fastforce
  note k = get_free_page_take [OF spaces_okD(1) [OF assms(1)] g] and gk = get_free_page_keeps [OF assms(1) g]
  show thesis
  proof (cases "n = 0")
    case True
    then have "copy_page_tables c s = Some (- ENOMEM, s1)" using g by (simp add: copy_page_tables_def)
    then show ?thesis using that(2) gk k(10) by blast
  next
    case False
    define s2 where "s2 = s1\<lparr>cr3 := (cr3 s1)(c := n)\<rparr>"
    note j = spaces_ok_join [OF gk(3) k(2) [OF False] k(6) [OF False] assms(3,4), folded s2_def]
    have ne: "?t \<noteq> c" using assms(2,3) by auto
    have d: "cr3 s1 ?t = cr3 s2 ?t" "cr3 s2 c = n" "vm_current s2 = ?t" using ne k(10) by (simp_all add: s2_def)
    have run: "copy_page_tables c s = (case copy_tables (cr3 s2 ?t) (cr3 s2 c) [0..<1024] s2 of
        Inr s \<Rightarrow> Some (0, s) | Inl s \<Rightarrow> map_option (Pair (- ENOMEM)) (free_page_tables c s))"
      using g False d(1,2) by (simp add: copy_page_tables_def Let_def s2_def k(10))
    have z: "tbl s2 (cr3 s2 c) i = 0" for i using k(6) [OF False] by (simp add: s2_def)
    note ct = copy_tables_views [OF j(1) insertI2 [OF assms(2)] insertI1 ne, of "[0..<1024]"]
    have v: "u \<in> T \<Longrightarrow> wa < TASK_SIZE \<Longrightarrow> view s2 u wa = view s u wa" for u wa using j(2) gk(2) by simp
    have di: "wa < TASK_SIZE \<Longrightarrow> dir_index wa \<in> set [0..<1024]" for wa using order_less_trans [OF index_bounds(2) [of wa], of 1024] by simp
    have cn: "u \<in> T \<Longrightarrow> u \<in> insert c T - {c}" for u using assms(3) by auto
    show ?thesis
    proof (cases "copy_tables (cr3 s2 ?t) (cr3 s2 c) [0..<1024] s2")
      case (Inr s3)
      then obtain P' where 3: "spaces_ok s3 (insert c T) P' (insert n Q)" "same_globals s2 s3"
        "\<forall>u\<in>insert c T - {c}. \<forall>wa<TASK_SIZE. view s3 u wa = view s2 u wa" "\<forall>wa<TASK_SIZE. view s3 c wa = view s2 ?t wa" using ct z di by auto
      have "copy_page_tables c s = Some (0, s3)" using run Inr by simp
      moreover have "vm_current s3 = ?t" using 3(2) d(3) by (simp add: same_globals_def)
      ultimately show ?thesis using that(1) [OF _ 3(1)] 3(3,4) v cn assms(2) by (metis (no_types))
    next
      case (Inl s3)
      then obtain P' where 3: "spaces_ok s3 (insert c T) P' (insert n Q)" "same_globals s2 s3"
        "\<forall>u\<in>insert c T - {c}. \<forall>wa<TASK_SIZE. view s3 u wa = view s2 u wa" using ct z by auto
      obtain s4 P4 Q4 where 4: "free_page_tables c s3 = Some s4" "spaces_ok s4 (insert c T - {c}) P4 Q4" "vm_current s4 = vm_current s3"
        "\<forall>u\<in>insert c T - {c}. \<forall>wa<TASK_SIZE. view s4 u wa = view s3 u wa" using free_page_tables_leaves [OF 3(1) insertI1] by blast
      have "copy_page_tables c s = Some (- ENOMEM, s4)" using run Inl 4(1) by simp
      moreover have "vm_current s4 = ?t" using 3(2) d(3) 4(3) by (simp add: same_globals_def)
      moreover have "insert c T - {c} = T" using assms(3) by auto
      ultimately show ?thesis using that(2) 4(2,4) 3(3) v cn by (metis (no_types))
    qed
  qed
qed

section \<open>Memory for a fork\<close>

definition nfree :: "vm_state \<Rightarrow> nat" where
  "nfree s = length (free_page_list s) + length (secondary_page_list s)"

lemma get_free_page_length:
  assumes "mm_ok s P Q" "get_free_page GFP_KERNEL s = (r, s')"
  shows "nfree s \<le> Suc (nfree s')" "r = 0 \<Longrightarrow> nfree s = 0"
proof -
  have u: "a \<in> set (free_page_list s @ secondary_page_list s) \<Longrightarrow> usable_page a s \<and> a \<noteq> 0" for a
    using mm_okD(7) [OF assms(1)] by (auto simp: free_ok_def usable_page_def)
  then show "nfree s \<le> Suc (nfree s')" using assms(2)
    by (auto simp: nfree_def get_free_page_def get_free_page_raw_def remove_free_def remove_secondary_def Let_def usable_page_def vm_note_def set_map_def
        split: list.splits if_splits prod.splits)
  show "r = 0 \<Longrightarrow> nfree s = 0" using get_free_page_take(4) [OF assms] by (simp add: nfree_def)
qed

lemma copy_ptes_free: "nfree (foldl (copy_pte old new) s js) = nfree s"
proof (induction js arbitrary: s)
  case (Cons j js)
  obtain e u where u: "swap_duplicate (tbl s old j) s = (e, u)" by fastforce
  have "nfree (copy_pte old new s j) = nfree s" using u swap_duplicate_simps(7) [OF u] by (auto simp: copy_pte_def Let_def nfree_def set_map_def core_def)
  then show ?case using Cons.IH by simp
qed simp

lemma copy_table_free:
  assumes "spaces_ok s T P Q" "t \<in> T" "i < 1024"
  shows "copy_table (cr3 s t) n i s = Inl s' \<Longrightarrow> nfree s = 0 \<and> i < 768 \<and> tbl s (cr3 s t) i \<noteq> 0"
    "copy_table (cr3 s t) n i s = Inr s' \<Longrightarrow> nfree s \<le> (if i < 768 \<and> tbl s (cr3 s t) i \<noteq> 0 then 1 else 0) + nfree s'"
proof -
  obtain new s1 where g: "get_free_page GFP_KERNEL s = (new, s1)" by fastforce
  note l = get_free_page_length [OF spaces_okD(1) [OF assms(1)] g]
  have kern: "i < 768 \<or> tbl s (cr3 s t) i = 0 \<or> reserved s (tbl s (cr3 s t) i)" using spaces_okD(9) [OF assms(1,2) _ assms(3)] by (meson leI)
  have good: "tbl s (cr3 s t) i \<noteq> 0 \<Longrightarrow> \<not> (high_memory s \<le> tbl s (cr3 s t) i \<or> \<not> present (tbl s (cr3 s t) i))"
    using spaces_okD(9) [OF assms(1,2) _ assms(3)] user_entry(1,2) [OF assms(1,2)] by (meson leI leD)
  have e: "nfree (set_entry d k v u) = nfree u" for d k v u by (simp add: nfree_def)
  show "copy_table (cr3 s t) n i s = Inl s' \<Longrightarrow> nfree s = 0 \<and> i < 768 \<and> tbl s (cr3 s t) i \<noteq> 0"
    using kern good g l(2) by (auto simp: copy_table_def Let_def split: if_splits)
  show "copy_table (cr3 s t) n i s = Inr s' \<Longrightarrow> nfree s \<le> (if i < 768 \<and> tbl s (cr3 s t) i \<noteq> 0 then 1 else 0) + nfree s'"
    using kern good g l(1) by (auto simp: copy_table_def Let_def e copy_ptes_free split: if_splits)
qed

definition tables_of :: "vm_state \<Rightarrow> nat \<Rightarrow> nat list \<Rightarrow> nat" where
  "tables_of s t is = length (filter (\<lambda>i. i < 768 \<and> tbl s (cr3 s t) i \<noteq> 0) is)"

lemma copy_tables_enough:
  assumes "spaces_ok s T P Q" "t \<in> T" "c \<in> T" "t \<noteq> c" "distinct is" "\<forall>i\<in>set is. i < 1024 \<and> tbl s (cr3 s c) i = 0" "tables_of s t is \<le> nfree s"
  shows "\<exists>s'. copy_tables (cr3 s t) (cr3 s c) is s = Inr s'"
  using assms(1,5-7)
proof (induction "is" arbitrary: s P)
  case (Cons i ks)
  note step = copy_table_step [OF Cons.prems(1) assms(2-4), of i]
  have i: "i < 1024" using Cons.prems(3) by simp
  show ?case
  proof (cases "copy_table (cr3 s t) (cr3 s c) i s")
    case (Inl s')
    then show ?thesis using copy_table_free(1) [OF Cons.prems(1) assms(2) i Inl] Cons.prems(4) by (simp add: tables_of_def)
  next
    case (Inr s1)
    then obtain P1 where 1: "spaces_ok s1 T P1 Q" "copies_dir T t c i s s1" using step Cons.prems(3) by auto
    note d = 1(2) [unfolded copies_dir_def]
    have g: "cr3 s1 = cr3 s" using d by (simp add: same_globals_def)
    have z: "\<forall>k\<in>set ks. k < 1024 \<and> tbl s1 (cr3 s1 c) k = 0" using Cons.prems(2,3) d g by auto
    have par: "tbl s1 (cr3 s1 t) = tbl s (cr3 s t)" using d assms(2,4) g by simp
    have "tables_of s1 t ks \<le> nfree s1" using copy_table_free(2) [OF Cons.prems(1) assms(2) i Inr] Cons.prems(4) par by (auto simp: tables_of_def split: if_splits)
    then show ?thesis using Cons.IH [OF 1(1) _ z] Cons.prems(2) Inr g by simp
  qed
qed simp

lemma copy_page_tables_enough:
  assumes "spaces_ok s T P Q" "vm_current s \<in> T" "c \<notin> T" "c \<noteq> 0" "tables_of s (vm_current s) [0..<1024] < nfree s"
  shows "\<exists>s'. copy_page_tables c s = Some (0, s')"
proof -
  let ?t = "vm_current s"
  obtain n s1 where g: "get_free_page GFP_KERNEL s = (n, s1)" by fastforce
  note k = get_free_page_take [OF spaces_okD(1) [OF assms(1)] g] and gk = get_free_page_keeps [OF assms(1) g]
    and l = get_free_page_length [OF spaces_okD(1) [OF assms(1)] g]
  have n: "n \<noteq> 0" using l(2) assms(5) by auto
  define s2 where "s2 = s1\<lparr>cr3 := (cr3 s1)(c := n)\<rparr>"
  note j = spaces_ok_join(1) [OF gk(3) k(2) [OF n] k(6) [OF n] assms(3,4), folded s2_def]
  have ne: "?t \<noteq> c" using assms(2,3) by auto
  have d: "cr3 s1 ?t = cr3 s2 ?t" "cr3 s2 c = n" "cr3 s2 ?t = cr3 s ?t" "tbl s1 (cr3 s ?t) = tbl s (cr3 s ?t)"
    using ne k(9) keeps_dirs_rest(6) [OF gk(1) spaces_okD(4) [OF assms(1,2)]] by (simp_all add: s2_def)
  have z: "tbl s2 (cr3 s2 c) i = 0" for i using k(6) [OF n] by (simp add: s2_def)
  have "tables_of s2 ?t [0..<1024] = tables_of s ?t [0..<1024]" using d(3,4) by (simp add: tables_of_def s2_def)
  moreover have "nfree s2 = nfree s1" by (simp add: nfree_def s2_def)
  ultimately have "tables_of s2 ?t [0..<1024] \<le> nfree s2" using l(1) assms(5) by simp
  then obtain s3 where "copy_tables (cr3 s2 ?t) (cr3 s2 c) [0..<1024] s2 = Inr s3"
    using copy_tables_enough [OF j insertI2 [OF assms(2)] insertI1 ne, of "[0..<1024]"] z by auto
  then show ?thesis using g n d(1,2) by (simp add: copy_page_tables_def Let_def s2_def k(10))
qed

end
