(* ===== verification/Address_Writes.thy ===== *)
theory Address_Writes
  imports Address_Fork
begin

text \<open>
  Stores, fresh zeroed pages, unmapped ranges and \<^verbatim>\<open>execve\<close> on address spaces.
\<close>

section \<open>Stores\<close>

definition store_byte :: "nat \<Rightarrow> u32 \<Rightarrow> u8 \<Rightarrow> vm_state \<Rightarrow> vm_state" where
  "store_byte t va b s = (let a = page_of (pte s t va) in s\<lparr>frame := (frame s)(a := (frame s a)(page_offset va := b))\<rparr>)"

text \<open>A page that an entry can write has no other entry.\<close>

lemma writable_alone:
  assumes "spaces_ok s T P Q" "t \<in> T" "va < TASK_SIZE" "mapped s t va" "writable (pte s t va)"
    and "u \<in> T" "wa < TASK_SIZE" "mapped s u wa" "page_of (pte s u wa) = page_of (pte s t va)"
  shows "u = t" "dir_index wa = dir_index va" "pt_index wa = pt_index va"
proof -
  note a = site_of [OF assms(1-4)] and b = site_of [OF assms(1,6-8)]
  let ?n = "MAP_NR (pte s t va)"
  have n: "MAP_NR (pte s u wa) = ?n" using assms(9) by (simp add: page_of_eq_iff)
  have one: "mem_map s ?n = 1" using a(3) assms(4,5) by (simp add: pte_ok_def mapped_def)
  note ok = spaces_okD(1) [OF assms(1)]
  let ?S = "{(page_of (tbl s (cr3 s t) (dir_index va)), pt_index va), (page_of (tbl s (cr3 s u) (dir_index wa)), pt_index wa)}"
  have "card ?S \<le> card (sites s P ?n)" using a(2) b(2) n finite_sites [OF mm_okD(1) [OF ok]] by (intro card_mono) auto
  then have "card ?S \<le> 1" using mm_okD(6) [OF ok, of ?n] one by simp
  then have eq: "page_of (tbl s (cr3 s u) (dir_index wa)) = page_of (tbl s (cr3 s t) (dir_index va))" and p: "pt_index wa = pt_index va"
    by (auto simp: card_insert_if split: if_splits)
  show "pt_index wa = pt_index va" by (rule p)
  show "u = t" "dir_index wa = dir_index va" using same_site [OF assms(1-4,6-8) eq p] by auto
qed

lemma store_byte_views:
  assumes "spaces_ok s T P Q" "t \<in> T" "va < TASK_SIZE" "mapped s t va" "writable (pte s t va)"
  shows "spaces_ok (store_byte t va b s) T P Q"
    "u \<in> T \<Longrightarrow> wa < TASK_SIZE \<Longrightarrow> view (store_byte t va b s) u wa = (if u = t \<and> wa = va then Some (b, True) else view s u wa)"
proof -
  let ?s = "store_byte t va b s"
  have k: "core ?s = core s" "keeps_dirs Q s ?s" by (simp_all add: store_byte_def Let_def keeps_dirs_def reserved_def)
  show "spaces_ok ?s T P Q" by (rule spaces_ok_below [OF assms(1) k(2)]) (use mm_ok_core [OF k(1)] spaces_okD(1) [OF assms(1)] in auto)
  have c: "cow (pte s t va)" using site_of(3) [OF assms(1-4)] assms(4,5) by (simp add: pte_ok_def mapped_def)
  have p: "pte ?s = pte s" "mapped ?s = mapped s" by (simp_all add: store_byte_def Let_def pte_def mapped_def fun_eq_iff)
  have f: "frame ?s a = (if a = page_of (pte s t va) then (frame s a)(page_offset va := b) else frame s a)" for a by (simp add: store_byte_def Let_def)
  show "view ?s u wa = (if u = t \<and> wa = va then Some (b, True) else view s u wa)" if "u \<in> T" "wa < TASK_SIZE"
  proof (cases "mapped s u wa \<and> page_of (pte s u wa) = page_of (pte s t va)")
    case True
    then have "u = t" "wa = va \<longleftrightarrow> page_offset wa = page_offset va" using writable_alone [OF assms that] address_eq_iff [of wa va] by auto
    then show ?thesis using True c by (auto simp: view_def p f)
  qed (use assms(4) in \<open>auto simp: view_def p f\<close>)
qed

text \<open>A store of a process: the fault first, when the entry does not allow it.  Without a free page the fault would kill the process; such stores are left out, with
  the result \<^verbatim>\<open>-ENOMEM\<close>.\<close>

definition user_store :: "nat \<Rightarrow> u32 \<Rightarrow> u8 \<Rightarrow> vm_state \<Rightarrow> int \<times> vm_state" where
  "user_store t va b s =
    (if free_page_list s = [] \<and> secondary_page_list s = [] then (- ENOMEM, s)
     else if \<not> mapped s t va then (- EFAULT, s)
     else let s = (if writable (pte s t va) then s else do_wp_page va t True (s\<lparr>vm_current := t\<rparr>))
          in if writable (pte s t va) then (0, store_byte t va b s) else (- EFAULT, s))"

lemma spaces_ok_current [simp]: "spaces_ok (s\<lparr>vm_current := t\<rparr>) T P Q = spaces_ok s T P Q" "view (s\<lparr>vm_current := t\<rparr>) = view s"
  "mapped (s\<lparr>vm_current := t\<rparr>) = mapped s" "pte (s\<lparr>vm_current := t\<rparr>) = pte s"
  by (simp_all add: spaces_ok_def mm_ok_def own_page_def pte_ok_def sites_def free_ok_def reserved_def view_def mapped_def pte_def fun_eq_iff)

lemma view_vm_note [simp]: "spaces_ok (vm_note n s) T P Q = spaces_ok s T P Q" "view (vm_note n s) = view s" "pte (vm_note n s) = pte s" "mapped (vm_note n s) = mapped s"
  by (simp_all add: vm_note_def spaces_ok_def mm_ok_def own_page_def pte_ok_def sites_def free_ok_def reserved_def view_def mapped_def pte_def fun_eq_iff)

lemma user_store_views:
  fixes b :: u8
  assumes "spaces_ok s T P Q" "t \<in> T" "va < TASK_SIZE"
  defines "r \<equiv> fst (user_store t va b s)" and "s' \<equiv> snd (user_store t va b s)"
  shows "spaces_ok s' T P Q" "r = - ENOMEM \<or> r = (case view s t va of Some (_, True) \<Rightarrow> 0 | _ \<Rightarrow> - EFAULT)"
    "u \<in> T \<Longrightarrow> wa < TASK_SIZE \<Longrightarrow> view s' u wa = (if r = 0 \<and> u = t \<and> wa = va then Some (b, True) else view s u wa)"
proof -
  consider (no_memory) "free_page_list s = []" "secondary_page_list s = []" | (unmapped) "\<not> (free_page_list s = [] \<and> secondary_page_list s = [])" "\<not> mapped s t va"
    | (shared) "\<not> (free_page_list s = [] \<and> secondary_page_list s = [])" "mapped s t va" "\<not> cow (pte s t va)"
    | (mine) "\<not> (free_page_list s = [] \<and> secondary_page_list s = [])" "mapped s t va" "cow (pte s t va)" by blast
  then have "spaces_ok s' T P Q \<and> (r = - ENOMEM \<or> r = (case view s t va of Some (_, True) \<Rightarrow> 0 | _ \<Rightarrow> - EFAULT))
    \<and> (\<forall>u\<in>T. \<forall>wa<TASK_SIZE. view s' u wa = (if r = 0 \<and> u = t \<and> wa = va then Some (b, True) else view s u wa))"
  proof cases
    case no_memory
    then show ?thesis using assms(1) by (simp add: r_def s'_def user_store_def)
  next
    case unmapped
    then show ?thesis using assms(1) by (auto simp: r_def s'_def user_store_def view_def)
  next
    case shared
    let ?c = "s\<lparr>vm_current := t\<rparr>" and ?pde = "tbl s (cr3 s t) (dir_index va)"
    have w: "\<not> writable (pte s t va)" using site_of(3) [OF assms(1-3) shared(2)] shared(2,3) by (auto simp: pte_ok_def mapped_def)
    have "present ?pde" "?pde < high_memory s" "?pde \<noteq> 0" using user_entry [OF assms(1,2) index_bounds(2) [OF assms(3)]] shared(2) by (auto simp: mapped_def)
    then have "do_wp_page va t True ?c = vm_note (Segv t) ?c" using shared w by (simp add: do_wp_page_def Let_def mapped_def pte_def)
    then have "user_store t va b s = (- EFAULT, vm_note (Segv t) ?c)" using shared(1,2) w by (auto simp: user_store_def Let_def)
    then show ?thesis using assms(1) shared by (auto simp: r_def s'_def view_def)
  next
    case mine
    define s1 where "s1 = (if writable (pte s t va) then s else do_wp_page va t True (s\<lparr>vm_current := t\<rparr>))"
    have "spaces_ok s1 T P Q \<and> mapped s1 t va \<and> writable (pte s1 t va) \<and> (\<forall>u\<in>T. \<forall>wa<TASK_SIZE. view s1 u wa = view s u wa)"
      using do_wp_page_cow [of "s\<lparr>vm_current := t\<rparr>" T P Q t va, where user = True] assms(1-3) mine unfolding s1_def by auto
    then have 1: "spaces_ok s1 T P Q" "mapped s1 t va" "writable (pte s1 t va)" "\<forall>u\<in>T. \<forall>wa<TASK_SIZE. view s1 u wa = view s u wa" by auto
    have run: "user_store t va b s = (0, store_byte t va b s1)" using mine(1,2) 1(3) unfolding user_store_def s1_def [symmetric] Let_def by auto
    show ?thesis using store_byte_views [OF 1(1) assms(2,3) 1(2,3)] 1(4) mine(2,3) run by (auto simp: r_def s'_def view_def [of s])
  qed
  then show "spaces_ok s' T P Q" "r = - ENOMEM \<or> r = (case view s t va of Some (_, True) \<Rightarrow> 0 | _ \<Rightarrow> - EFAULT)"
    "u \<in> T \<Longrightarrow> wa < TASK_SIZE \<Longrightarrow> view s' u wa = (if r = 0 \<and> u = t \<and> wa = va then Some (b, True) else view s u wa)" by blast+
qed

section \<open>Fresh pages\<close>

lemma view_new_table:
  assumes "spaces_ok s T P Q" "t \<in> T" "i < 768" "tbl s (cr3 s t) i = 0" "fresh s P Q p" "tbl s p = (\<lambda>_. 0)"
  defines "s' \<equiv> set_entry (cr3 s t) i (add_flags p PAGE_TABLE) s"
  shows "spaces_ok s' T (insert p P) Q" "u \<in> T \<Longrightarrow> wa < TASK_SIZE \<Longrightarrow> view s' u wa = view s u wa"
proof -
  note d = spaces_okD [OF assms(1)] and nt = new_table_entry [OF assms(5) mm_okD(8) [OF spaces_okD(1) [OF assms(1)]]]
  have "mm_ok s (insert p P) Q" using mm_ok_add_table [OF d(1) assms(5)] assms(6) by simp
  then have sp: "spaces_ok s T (insert p P) Q" by (rule spaces_ok_below [OF assms(1) keeps_dirs_refl]) auto
  show "spaces_ok s' T (insert p P) Q" unfolding s'_def
  proof (rule spaces_ok_dir [OF sp assms(2)])
    show "u = t \<and> k = i" if "u \<in> T" "k < 768" "tbl s (cr3 s u) k \<noteq> 0" "page_of (tbl s (cr3 s u) k) = page_of (add_flags p PAGE_TABLE)" for u k
      using that user_entry(4) [OF assms(1) that(1-3)] nt(1) assms(5) by (auto simp: fresh_def)
  qed (use nt assms(3) in auto)
  show "view s' u wa = view s u wa" if "u \<in> T" "wa < TASK_SIZE"
  proof (cases "u = t \<and> dir_index wa = i")
    case True
    have "cr3 s t \<noteq> p" using dir_not_table [OF sp assms(2), of p] by simp
    then have "pte s' u wa = 0" using True nt(1) assms(6) by (simp add: s'_def pte_def)
    then show ?thesis using True assms(4) by (simp add: view_def mapped_def)
  qed (use view_other_dir [OF assms(1,2) that(1) _ that(2)] in \<open>auto simp: s'_def\<close>)
qed

text \<open>\<^verbatim>\<open>get_empty_pgtable\<close> and \<^verbatim>\<open>get_empty_page\<close> as \<^verbatim>\<open>do_no_page\<close> calls them for an address that has no page: the page that contains it becomes a private page of
  zeros, and nothing else changes.  The two free pages that this may need are asked for here.\<close>

definition same_page :: "u32 \<Rightarrow> u32 \<Rightarrow> bool" where
  "same_page va wa \<longleftrightarrow> page_of va = page_of wa"

lemma same_page_iff: "same_page va wa \<longleftrightarrow> dir_index va = dir_index wa \<and> pt_index va = pt_index wa"
proof -
  have "dir_index va = dir_index wa \<and> pt_index va = pt_index wa" if "MAP_NR va = MAP_NR wa" for va wa :: u32
  proof -
    have "dir_index a = MAP_NR a div 1024" for a unfolding dir_index_div MAP_NR_div by (simp add: div_mult2_eq [symmetric])
    then show ?thesis using that by (simp add: pt_index_mod)
  qed
  then show ?thesis by (auto simp: same_page_def page_of_eq_iff MAP_NR_index)
qed

lemma get_empty_pgtable_views:
  assumes "spaces_ok s T P Q" "t \<in> T" "va < TASK_SIZE" "free_page_list s \<noteq> [] \<or> secondary_page_list s \<noteq> []" "get_empty_pgtable t va s = (r, s')"
  shows "\<exists>P'. spaces_ok s' T P' Q \<and> same_globals s s' \<and> r \<noteq> 0 \<and> r = tbl s' (cr3 s t) (dir_index va) \<and> (\<forall>u\<in>T. \<forall>wa<TASK_SIZE. view s' u wa = view s u wa)"
proof (cases "tbl s (cr3 s t) (dir_index va) = 0")
  case False
  then have "s' = s" "r = tbl s (cr3 s t) (dir_index va)" using user_entry(1) [OF assms(1,2) index_bounds(2) [OF assms(3)]] assms(5) by (auto simp: get_empty_pgtable_def)
  then show ?thesis using assms(1) False by auto
next
  case True
  obtain p s1 where g: "get_free_page GFP_KERNEL s = (p, s1)" by fastforce
  note k = get_free_page_take [OF spaces_okD(1) [OF assms(1)] g] and gk = get_free_page_keeps [OF assms(1) g]
  have p: "p \<noteq> 0" using k(4) assms(4) by auto
  have z: "tbl s1 (cr3 s1 t) (dir_index va) = 0" using keeps_dirs_rest(1,6) [OF gk(1)] spaces_okD(4) [OF assms(1,2)] True by simp
  note nt = view_new_table [OF gk(3) assms(2) index_bounds(2) [OF assms(3)] z k(2) [OF p] k(6) [OF p]]
  have s': "s' = set_entry (cr3 s1 t) (dir_index va) (add_flags p PAGE_TABLE) s1" "r = add_flags p PAGE_TABLE"
    using assms(5) g True p k(9) by (auto simp: get_empty_pgtable_def Let_def)
  then have "r = tbl s' (cr3 s t) (dir_index va)" "same_globals s s'" using keeps_dirs_globals [OF gk(1)] k(9) by (auto simp: same_globals_def)
  moreover have "r \<noteq> 0" using new_table_entry(4) [OF k(2) [OF p] mm_okD(8) [OF k(1)]] s'(2) by simp
  ultimately show ?thesis using nt gk(2) s' by auto
qed

lemma get_empty_page_views:
  assumes "spaces_ok s T P Q" "t \<in> T" "va < TASK_SIZE" "free_page_list s \<noteq> [] \<or> secondary_page_list s \<noteq> []"
    and "tbl s (cr3 s t) (dir_index va) \<noteq> 0" "pte s t va = 0"
  defines "s' \<equiv> get_empty_page t va s"
  shows "spaces_ok s' T P Q" "u \<in> T \<Longrightarrow> wa < TASK_SIZE \<Longrightarrow> view s' u wa = (if u = t \<and> same_page va wa then Some (0, True) else view s u wa)" "same_globals s s'"
proof -
  obtain r s1 where g: "get_free_page GFP_KERNEL s = (r, s1)" by fastforce
  note k = get_free_page_take [OF spaces_okD(1) [OF assms(1)] g] and gk = get_free_page_keeps [OF assms(1) g]
  have r: "r \<noteq> 0" using k(4) assms(4) by auto
  note fr = k(2) [OF r]
  define i j p e where "i = dir_index va" and "j = pt_index va" and "p = page_of (tbl s (cr3 s t) (dir_index va))" and "e = add_flags r PAGE_PRIVATE"
  have i: "i < 768" and j: "j < 1024" using assms(3) by (simp_all add: i_def j_def)
  have d1: "tbl s1 (cr3 s1 u) = tbl s (cr3 s u)" if "u \<in> T" for u using keeps_dirs_rest(1,6) [OF gk(1)] spaces_okD(4) [OF assms(1) that] by simp
  note ue = user_entry [OF assms(1,2) i, unfolded i_def, OF assms(5)]
  have p: "p \<in> P" using ue(4) by (simp add: p_def)
  have "p \<noteq> r" using p fr by (auto simp: fresh_def)
  then have z: "tbl s1 p j = 0" using k(5) [of p] assms(6) by (simp add: pte_def p_def j_def)
  have "r < high_memory s1" using fr by (simp add: fresh_def own_page_def)
  then have run: "s' = set_entry p j e s1" using g r d1 [OF assms(2)] ue(1) z fr
    by (auto simp: s'_def get_empty_page_def put_page_def Let_def p_def j_def e_def fresh_def own_page_def)
  have e: "present e" "cow e" "MAP_NR e = MAP_NR r" "page_of e = r" using fr page_of_eq_iff [of e r]
    by (simp_all add: e_def add_flags_bits fresh_def own_page_def aligned_iff)
  have one: "mem_map s1 (MAP_NR r) = 1" "MAP_NR r \<notin> MAP_NR ` (P \<union> Q)" "sites s1 P (MAP_NR r) = {}" using fr by (auto simp: fresh_def own_page_def)
  have "mm_ok s' P Q" unfolding run
  proof (rule mm_ok_set [OF k(1) p j _ e(1)])
    show "pte_ok s1 (P \<union> Q) e" using one e fr less_high [OF mm_okD(8) [OF k(1)]] by (simp add: pte_ok_def fresh_def own_page_def)
  qed (simp add: one e)
  then show "spaces_ok s' T P Q" unfolding run by (rule spaces_ok_below [OF gk(3) keeps_dirs_set_entry [OF k(1) p]]) simp
  show "same_globals s s'" using keeps_dirs_globals [OF gk(1)] by (simp add: run same_globals_def)
  show "view s' u wa = (if u = t \<and> same_page va wa then Some (0, True) else view s u wa)" if u: "u \<in> T" "wa < TASK_SIZE"
  proof -
    have cr: "cr3 s1 u \<noteq> p" using dir_not_table [OF gk(3) u(1) p] .
    have now: "tbl s' (cr3 s' u) = tbl s1 (cr3 s1 u)" "pte s' u wa = (if page_of (tbl s1 (cr3 s1 u) (dir_index wa)) = p \<and> pt_index wa = j then e else pte s1 u wa)"
      using cr by (auto simp: run pte_def)
    show ?thesis
    proof (cases "u = t \<and> same_page va wa")
      case True
      then have "page_of (tbl s1 (cr3 s1 u) (dir_index wa)) = p" "pt_index wa = j" "dir_index wa = dir_index va" using d1 [OF u(1)] by (auto simp: same_page_iff p_def j_def)
      then show ?thesis using True now e k(7) [OF r] d1 [OF u(1)] assms(5) by (auto simp: view_def mapped_def run)
    next
      case False
      have "\<not> (page_of (tbl s1 (cr3 s1 u) (dir_index wa)) = p \<and> pt_index wa = j)" if "tbl s1 (cr3 s1 u) (dir_index wa) \<noteq> 0"
        using False spaces_okD(10) [OF assms(1) u(1) assms(2) index_bounds(2) [OF u(2)] index_bounds(2) [OF assms(3)] _ assms(5)] that
        unfolding d1 [OF u(1)] p_def j_def same_page_iff by auto
      then have "pte s' u wa = pte s1 u wa" if "tbl s1 (cr3 s1 u) (dir_index wa) \<noteq> 0" using now(2) that by auto
      then have "view s' u wa = view s1 u wa" by (intro view_eq) (simp_all add: now(1) mapped_def, simp add: run)
      then show ?thesis using gk(2) [OF u] False by auto
    qed
  qed
qed

end
