(* ===== verification/Address_Ranges.thy ===== *)
theory Address_Ranges
  imports Address_Writes
begin

text \<open>
  \<^verbatim>\<open>unmap_page_range\<close> and \<^verbatim>\<open>clear_page_tables\<close> on address spaces.
\<close>

section \<open>One table\<close>

lemma reserved_drop_pte: "reserved s a \<Longrightarrow> reserved (drop_pte t p j s) a"
proof -
  have "mem_map (swap_free e u) = mem_map u" for e u using core_simps(2) [of e u] by (simp add: core_def del: core_simps)
  then have "reserved (swap_free e u) a = reserved u a" "reserved (u\<lparr>rss := r\<rparr>) a = reserved u a" for e u r by (simp_all add: reserved_def)
  moreover assume "reserved s a"
  ultimately show ?thesis by (simp add: drop_pte_def Let_def reserved_free_page)
qed

lemma drop_ptes:
  fixes s :: vm_state and t :: nat
  assumes "mm_ok s P Q" "p \<in> P" "set js \<subseteq> {..<1024}"
  defines "s' \<equiv> foldl (\<lambda>s j. drop_pte t p j s) s js"
  shows "mm_ok s' P Q \<and> (\<forall>a. a \<noteq> p \<longrightarrow> tbl s' a = tbl s a) \<and> (\<forall>j. tbl s' p j = (if j \<in> set js then 0 else tbl s p j)) \<and> frame s' = frame s
    \<and> same_globals s s' \<and> (\<forall>a. reserved s a \<longrightarrow> reserved s' a)"
  unfolding s'_def using assms(3)
proof (induction js rule: rev_induct)
  case (snoc j js)
  let ?s = "foldl (\<lambda>s j. drop_pte t p j s) s js"
  have ih: "mm_ok ?s P Q" "\<forall>a. a \<noteq> p \<longrightarrow> tbl ?s a = tbl s a" "\<forall>j. tbl ?s p j = (if j \<in> set js then 0 else tbl s p j)" "frame ?s = frame s" "same_globals s ?s"
    "\<forall>a. reserved s a \<longrightarrow> reserved ?s a" using snoc by auto
  have "j < 1024" using snoc.prems by simp
  note c = drop_pte_step [OF ih(1) assms(2) this, of t]
  have t: "tbl (drop_pte t p j ?s) = (tbl ?s)(p := (tbl ?s p)(j := 0))" using c by (simp add: only_entry_def)
  then have "\<forall>k. tbl (drop_pte t p j ?s) p k = (if k \<in> set (js @ [j]) then 0 else tbl s p k)" using ih(3) by auto
  moreover have "same_globals s (drop_pte t p j ?s)" using c(2) ih(5) by (simp add: only_entry_def same_globals_def)
  ultimately show ?case using c ih t reserved_drop_pte by auto
qed (simp add: assms(1))

text \<open>An emptied table is unlinked and freed.\<close>

lemma unlink_table:
  assumes "spaces_ok s T P Q" "t \<in> T" "i < 768" "tbl s (cr3 s t) i \<noteq> 0" "\<forall>j<1024. tbl s (page_of (tbl s (cr3 s t) i)) j = 0"
  defines "s' \<equiv> free_page (page_of (tbl s (cr3 s t) i)) (set_entry (cr3 s t) i 0 s)"
  shows "\<exists>P'. spaces_ok s' T P' Q \<and> same_globals s s' \<and> (\<forall>u\<in>T. \<forall>wa<TASK_SIZE. view s' u wa = view s u wa)"
proof -
  let ?p = "page_of (tbl s (cr3 s t) i)" and ?s = "set_entry (cr3 s t) i 0 s"
  have cl: "spaces_ok ?s T P Q" by (rule spaces_ok_dir [OF assms(1,2)]) auto
  note p = user_entry(4) [OF assms(1-4)]
  have ne: "cr3 s t \<noteq> ?p" using dir_not_table [OF assms(1,2) p] .
  have nq: "?p \<notin> Q" using mm_okD(3) [OF spaces_okD(1) [OF assms(1)]] p by auto
  have "mm_ok s' (P - {?p}) (Q - {?p})" unfolding s'_def by (rule mm_ok_free_own [OF spaces_okD(1) [OF cl]]) (use p assms(5) ne in auto)
  then have ok: "mm_ok s' (P - {?p}) Q" using nq by simp
  have kd: "keeps_dirs Q ?s s'" using reserved_free_page unfolding keeps_dirs_def s'_def by (simp del: set_entry_simps(1))
  have un: "page_of (tbl ?s (cr3 ?s u) k) \<in> P - {?p}" if "u \<in> T" "k < 768" "tbl ?s (cr3 ?s u) k \<noteq> 0" for u k
    using spaces_okD(10) [OF assms(1) that(1) assms(2) that(2) assms(3) _ assms(4)] user_entry(4) [OF cl that] that(3) dirs_differ [OF assms(1,2) that(1)]
    by (auto split: if_splits)
  have "spaces_ok s' T (P - {?p}) Q" by (rule spaces_ok_tables [OF cl kd ok un])
  moreover have "view s' u wa = view s u wa" if "u \<in> T" "wa < TASK_SIZE" for u wa
  proof -
    have "view s' u wa = view ?s u wa" by (simp add: s'_def view_def mapped_def pte_def)
    moreover have "view ?s u wa = view s u wa"
    proof (cases "u = t \<and> dir_index wa = i")
      case True
      then show ?thesis using assms(5) by (simp add: view_def mapped_def pte_def)
    qed (use view_other_dir [OF assms(1,2) that(1) _ that(2)] in auto)
    ultimately show ?thesis by simp
  qed
  moreover have "same_globals s s'" by (simp add: s'_def same_globals_def)
  ultimately show ?thesis by blast
qed

section \<open>Ranges\<close>

lemma page_index_range:
  assumes "lo + m \<le> 1024"
  shows "dir_index wa = i \<and> lo \<le> pt_index wa \<and> pt_index wa < lo + m \<longleftrightarrow> 1024 * i + lo \<le> MAP_NR wa \<and> MAP_NR wa < 1024 * i + lo + m"
proof -
  have "a = i" if "1024 * i + lo \<le> 1024 * a + b" "1024 * a + b < 1024 * i + lo + m" "b < 1024" for a b using that assms by linarith
  then have "1024 * i + lo \<le> 1024 * a + b \<and> 1024 * a + b < 1024 * i + lo + m \<longleftrightarrow> a = i \<and> lo \<le> b \<and> b < lo + m" if "b < 1024" for a b using that by fastforce
  then show ?thesis unfolding MAP_NR_index [of wa] by simp
qed

lemma unmap_table:
  fixes t :: nat and s :: vm_state
  assumes "spaces_ok s T P Q" "t \<in> T" "i < 768" "lo + m \<le> 1024" "tbl s (cr3 s t) i \<noteq> 0"
  defines "e \<equiv> tbl s (cr3 s t) i"
  defines "s1 \<equiv> foldl (\<lambda>s j. drop_pte t (page_of e) j s) s [lo..<lo + m]"
  defines "s2 \<equiv> (if m = 1024 then free_page (page_of e) (set_entry (cr3 s t) i 0 s1) else s1)"
  shows "\<exists>P'. spaces_ok s2 T P' Q \<and> same_globals s s2
    \<and> (\<forall>u\<in>T. \<forall>wa<TASK_SIZE. view s2 u wa = (if u = t \<and> 1024 * i + lo \<le> MAP_NR wa \<and> MAP_NR wa < 1024 * i + lo + m then None else view s u wa))"
proof -
  note ue = user_entry [OF assms(1-3,5), folded e_def]
  have "set [lo..<lo + m] \<subseteq> {..<1024}" using assms(4) by auto
  note d = drop_ptes [OF spaces_okD(1) [OF assms(1)] ue(4) this, of t, folded s1_def]
  have d: "mm_ok s1 P Q" "a \<noteq> page_of e \<Longrightarrow> tbl s1 a = tbl s a" "tbl s1 (page_of e) j = (if j \<in> set [lo..<lo + m] then 0 else tbl s (page_of e) j)"
    "frame s1 = frame s" "same_globals s s1" "reserved s a \<Longrightarrow> reserved s1 a" for a j using d by blast+
  have "page_of e \<notin> Q" using mm_okD(3) [OF spaces_okD(1) [OF assms(1)]] ue(4) by auto
  then have "q \<in> Q \<Longrightarrow> tbl s1 q = tbl s q" for q using d(2) [of q] by metis
  then have kd: "keeps_dirs Q s s1" using d(5,6) by (simp add: keeps_dirs_def same_globals_def)
  have sp: "spaces_ok s1 T P Q" by (rule spaces_ok_below [OF assms(1) kd d(1)]) simp
  have dirs: "tbl s1 (cr3 s1 u) = tbl s (cr3 s u)" if "u \<in> T" for u using keeps_dirs_rest(1,6) [OF kd] spaces_okD(4) [OF assms(1) that] by simp
  have v1: "view s1 u wa = (if u = t \<and> 1024 * i + lo \<le> MAP_NR wa \<and> MAP_NR wa < 1024 * i + lo + m then None else view s u wa)" if u: "u \<in> T" "wa < TASK_SIZE" for u wa
  proof (cases "u = t \<and> dir_index wa = i")
    case True
    then have "pte s1 u wa = (if pt_index wa \<in> {lo..<lo + m} then 0 else pte s u wa)" using d(3) dirs [OF u(1)] by (simp add: pte_def e_def)
    then show ?thesis using True page_index_range [OF assms(4), where wa = wa and i = i] dirs [OF u(1)] d(4) by (auto simp: view_def mapped_def)
  next
    case False
    have "view s1 u wa = view s u wa"
    proof (rule view_unlinked [OF assms(1) kd u d(4), of "page_of e"])
      show "page_of (tbl s (cr3 s u) (dir_index wa)) \<noteq> page_of e" if "tbl s (cr3 s u) (dir_index wa) \<noteq> 0"
        using False spaces_okD(10) [OF assms(1) u(1) assms(2) index_bounds(2) [OF u(2)] assms(3) that assms(5)] unfolding e_def by auto
    qed (use d(2) in auto)
    then show ?thesis using False page_index_range [OF assms(4), where wa = wa and i = i] by auto
  qed
  show ?thesis
  proof (cases "m = 1024")
    case False
    then show ?thesis using sp d(5) v1 by (auto simp: s2_def)
  next
    case True
    then have z: "\<forall>j<1024. tbl s1 (page_of e) j = 0" using assms(4) d(3) by auto
    have e1: "tbl s1 (cr3 s1 t) i = e" using dirs [OF assms(2)] by (simp add: e_def)
    have ne: "e \<noteq> 0" using assms(5) by (simp add: e_def)
    have "cr3 s1 = cr3 s" using keeps_dirs_rest(1) [OF kd] .
    then obtain P' where "spaces_ok s2 T P' Q" "same_globals s1 s2" "\<forall>u\<in>T. \<forall>wa<TASK_SIZE. view s2 u wa = view s1 u wa"
      using unlink_table [OF sp assms(2,3)] e1 z ne True by (auto simp: s2_def)
    then show ?thesis using v1 same_globals_trans [OF d(5)] by auto
  qed
qed

lemma unmap_dirs_views:
  assumes "spaces_ok s T P Q" "t \<in> T" "poff < 1024" "pcnt = min (1024 - poff) n" "1024 * i + poff + n \<le> 786432"
  shows "\<exists>P'. spaces_ok (unmap_dirs t i poff pcnt n s) T P' Q \<and> same_globals s (unmap_dirs t i poff pcnt n s)
    \<and> (\<forall>u\<in>T. \<forall>wa<TASK_SIZE. view (unmap_dirs t i poff pcnt n s) u wa =
         (if u = t \<and> 1024 * i + poff \<le> MAP_NR wa \<and> MAP_NR wa < 1024 * i + poff + n then None else view s u wa))"
  using assms(1,3-5)
proof (induction n arbitrary: s P i poff pcnt rule: less_induct)
  case (less n)
  show ?case
  proof (cases "n = 0")
    case True
    then have "unmap_dirs t i poff pcnt n s = s" by (simp add: unmap_dirs.simps)
    then show ?thesis using less.prems(1) True by auto
  next
    case False
    define n' where "n' = n - pcnt"
    have pc: "pcnt \<noteq> 0" "pcnt \<le> n" "n' < n" "poff + pcnt \<le> 1024" using less.prems(2,3) False by (auto simp: n'_def)
    have i: "i < 768" using less.prems(4) False by linarith
    let ?e = "tbl s (cr3 s t) i"
    let ?next = "\<lambda>s. unmap_dirs t (Suc i) 0 (min n' 1024) n' s"
    have ent: "present ?e" if "?e \<noteq> 0" using user_entry(1) [OF less.prems(1) assms(2) i that] .
    define s2 where "s2 = (if ?e = 0 then s else let s1 = foldl (\<lambda>s j. drop_pte t (page_of ?e) j s) s [poff..<poff + pcnt]
        in if pcnt = 1024 then free_page (page_of ?e) (set_entry (cr3 s t) i 0 s1) else s1)"
    have run: "unmap_dirs t i poff pcnt n s = ?next s2"
      using False pc(1) ent unfolding s2_def n'_def by (subst unmap_dirs.simps) (simp add: Let_def)
    have "\<exists>P'. spaces_ok s2 T P' Q \<and> same_globals s s2
      \<and> (\<forall>u\<in>T. \<forall>wa<TASK_SIZE. view s2 u wa = (if u = t \<and> 1024 * i + poff \<le> MAP_NR wa \<and> MAP_NR wa < 1024 * i + poff + pcnt then None else view s u wa))"
    proof (cases "?e = 0")
      case True
      have "view s t wa = None" if "1024 * i + poff \<le> MAP_NR wa" "MAP_NR wa < 1024 * i + poff + pcnt" for wa
        using page_index_range [OF pc(4), where wa = wa and i = i] that True by (auto simp: view_def mapped_def)
      then show ?thesis using True less.prems(1) by (auto simp: s2_def)
    next
      case False
      then show ?thesis using unmap_table [OF less.prems(1) assms(2) i pc(4) False] by (simp add: s2_def Let_def)
    qed
    then obtain P2 where 2: "spaces_ok s2 T P2 Q" "same_globals s s2"
      "\<forall>u\<in>T. \<forall>wa<TASK_SIZE. view s2 u wa = (if u = t \<and> 1024 * i + poff \<le> MAP_NR wa \<and> MAP_NR wa < 1024 * i + poff + pcnt then None else view s u wa)" by blast
    have nxt: "n' = 0 \<or> 1024 * Suc i = 1024 * i + poff + pcnt" using less.prems(3) pc by (auto simp: n'_def min_def)
    have b: "1024 * Suc i + 0 + n' \<le> 786432 \<or> n' = 0" using nxt less.prems(4) pc by (auto simp: n'_def)
    show ?thesis
    proof (cases "n' = 0")
      case True
      then have "?next s2 = s2" "pcnt = n" using pc by (simp_all add: unmap_dirs.simps n'_def)
      then show ?thesis unfolding run using 2 by auto
    next
      case False
      then obtain P3 where 3: "spaces_ok (?next s2) T P3 Q" "same_globals s2 (?next s2)"
        "\<forall>u\<in>T. \<forall>wa<TASK_SIZE. view (?next s2) u wa = (if u = t \<and> 1024 * Suc i + 0 \<le> MAP_NR wa \<and> MAP_NR wa < 1024 * Suc i + 0 + n' then None else view s2 u wa)"
        using less.IH [OF pc(3) 2(1), of 0 "min n' 1024" "Suc i"] b by (auto simp: min.commute)
      have "1024 * Suc i = 1024 * i + poff + pcnt" "1024 * Suc i + n' = 1024 * i + poff + n" using nxt False pc by (auto simp: n'_def)
      then show ?thesis unfolding run using 3 2 same_globals_trans [OF 2(2) 3(2)] pc(2) by (intro exI [of _ P3]) auto
    qed
  qed
qed

lemma pages_of_sum:
  assumes "aligned from" "unat from + unat sz \<le> unat TASK_SIZE"
  shows "1024 * dir_index from + pt_index from + pages_of sz \<le> 786432"
    "MAP_NR from \<le> MAP_NR wa \<and> MAP_NR wa < MAP_NR from + pages_of sz \<longleftrightarrow> from \<le> wa \<and> unat wa div 4096 * 4096 < unat from + unat sz"
proof -
  have m: "NOT PAGE_MASK = (4095 :: u32)" by simp
  have "unat (sz + NOT PAGE_MASK) = unat sz + 4095" unfolding m using assms(2) by (simp add: unat_word_ariths)
  then have p: "pages_of sz = (unat sz + 4095) div 4096" unfolding pages_of_def unat_drop_bit_eq by (simp add: drop_bit_eq_div)
  have f: "unat from = 4096 * MAP_NR from" by (rule unat_aligned [OF assms(1)])
  have up: "4096 * m < k \<longleftrightarrow> m < (k + 4095) div 4096" for m k :: nat by linarith
  have "MAP_NR from + pages_of sz \<le> 786432" using assms(2) unfolding p f by simp
  then show "1024 * dir_index from + pt_index from + pages_of sz \<le> 786432" using MAP_NR_index [of "from"] by simp
  have "MAP_NR from \<le> MAP_NR wa \<longleftrightarrow> from \<le> wa" unfolding word_le_nat_alt f MAP_NR_div [of wa] by linarith
  moreover have "MAP_NR wa < MAP_NR from + pages_of sz \<longleftrightarrow> unat wa div 4096 * 4096 < unat from + unat sz" if "MAP_NR from \<le> MAP_NR wa"
    using that up [of "MAP_NR wa - MAP_NR from" "unat sz"] unfolding p f MAP_NR_div [of wa] by linarith
  ultimately show "MAP_NR from \<le> MAP_NR wa \<and> MAP_NR wa < MAP_NR from + pages_of sz \<longleftrightarrow> from \<le> wa \<and> unat wa div 4096 * 4096 < unat from + unat sz" by blast
qed

text \<open>The pages that overlap the range lose their contents.\<close>

definition in_pages :: "u32 \<Rightarrow> u32 \<Rightarrow> u32 \<Rightarrow> bool" where
  "in_pages from sz wa \<longleftrightarrow> from \<le> wa \<and> unat (page_of wa) < unat from + unat sz"

lemma unmap_page_range_views:
  assumes "spaces_ok s T P Q" "vm_current s \<in> T" "aligned from" "unat from + unat sz \<le> unat TASK_SIZE"
  obtains s' P' where "unmap_page_range from sz s = (0, s')" "spaces_ok s' T P' Q" "same_globals s s'"
    "\<And>u wa. u \<in> T \<Longrightarrow> wa < TASK_SIZE \<Longrightarrow> view s' u wa = (if u = vm_current s \<and> in_pages from sz wa then None else view s u wa)"
proof -
  let ?n = "pages_of sz" and ?t = "vm_current s"
  let ?s = "unmap_dirs ?t (dir_index from) (pt_index from) (min (1024 - pt_index from) ?n) ?n s"
  have run: "unmap_page_range from sz s = (0, ?s)" using assms(3) by (simp add: unmap_page_range_def Let_def)
  obtain P' where "spaces_ok ?s T P' Q" "same_globals s ?s" "\<forall>u\<in>T. \<forall>wa<TASK_SIZE. view ?s u wa =
      (if u = ?t \<and> 1024 * dir_index from + pt_index from \<le> MAP_NR wa \<and> MAP_NR wa < 1024 * dir_index from + pt_index from + ?n then None else view s u wa)"
    using unmap_dirs_views [OF assms(1,2) _ _ pages_of_sum(1) [OF assms(3,4)], of "min (1024 - pt_index from) ?n"] by auto
  moreover have "in_pages from sz wa \<longleftrightarrow> MAP_NR from \<le> MAP_NR wa \<and> MAP_NR wa < MAP_NR from + ?n" for wa
    unfolding pages_of_sum(2) [OF assms(3,4)] in_pages_def using unat_aligned [of "page_of wa"] MAP_NR_div [of wa] by (simp add: mult.commute)
  ultimately show thesis using that [OF run] MAP_NR_index [of "from"] by simp
qed

section \<open>Exec\<close>

lemma clear_page_tables_views:
  assumes "spaces_ok s T P Q" "t \<in> T"
  obtains s' P' where "clear_page_tables t s = Some s'" "spaces_ok s' T P' Q" "same_globals s s'"
    "\<And>u wa. u \<in> T \<Longrightarrow> wa < TASK_SIZE \<Longrightarrow> view s' u wa = (if u = t then None else view s u wa)"
proof -
  let ?s = "foldl (free_one_table (cr3 s t)) s [0..<768]"
  have run: "clear_page_tables t s = Some ?s" using own_dir [OF assms] by (simp add: clear_page_tables_def Let_def)
  obtain P' where 1: "spaces_ok ?s T P' Q" "same_globals s ?s" "\<forall>i<768. tbl ?s (cr3 s t) i = 0"
    "\<forall>u\<in>T. \<forall>wa<TASK_SIZE. u \<noteq> t \<or> 768 \<le> dir_index wa \<longrightarrow> view ?s u wa = view s u wa" using free_tables_views [OF assms, of 768] by auto
  have "view ?s t wa = None" if "wa < TASK_SIZE" for wa using 1(2,3) index_bounds(2) [OF that] by (simp add: view_def mapped_def same_globals_def)
  then show thesis using that [OF run 1(1,2)] 1(4) by auto
qed

end
