(* ===== verification/Address_Events.thy ===== *)
theory Address_Events
  imports Address_Ranges Simulations
begin

text \<open>
  The calls of \<^verbatim>\<open>mm/memory.c\<close> as events of processes, and their meaning on independent address spaces: a function from addresses to bytes for each process.
  An event has a result; what it does to the spaces depends on it.
\<close>

section \<open>Events\<close>

datatype vm_op = Fork nat nat | Store nat u32 u8 | Touch nat u32 | Unmap nat u32 u32 | Exec nat | Exit nat

text \<open>A process touches an address that may have no page.  Like \<^verbatim>\<open>do_no_page\<close> for memory that no file backs; pages in swap and faults without two free pages are left
  out, with the results \<^verbatim>\<open>-EAGAIN\<close> and \<^verbatim>\<open>-ENOMEM\<close>.\<close>

definition user_touch :: "nat \<Rightarrow> u32 \<Rightarrow> vm_state \<Rightarrow> int \<times> vm_state" where
  "user_touch t va s =
    (if nfree s < 2 then (- ENOMEM, s)
     else let (r, s) = get_empty_pgtable t va s
          in if present (pte s t va) then (0, s) else if pte s t va \<noteq> 0 then (- EAGAIN, s) else (0, get_empty_page t va s))"

fun vm_impl :: "vm_op \<Rightarrow> vm_state \<Rightarrow> (int \<times> vm_state) option" where
  "vm_impl (Fork t c) s = copy_page_tables c (s\<lparr>vm_current := t\<rparr>)"
| "vm_impl (Store t va b) s = Some (user_store t va b s)"
| "vm_impl (Touch t va) s = Some (user_touch t va s)"
| "vm_impl (Unmap t from sz) s = Some (unmap_page_range from sz (s\<lparr>vm_current := t\<rparr>))"
| "vm_impl (Exec t) s = map_option (Pair 0) (clear_page_tables t s)"
| "vm_impl (Exit t) s = map_option (Pair 0) (free_page_tables t s)"

type_synonym space = "u32 \<Rightarrow> (u8 \<times> bool) option"

fun vm_spec :: "vm_op \<Rightarrow> int \<Rightarrow> (nat \<rightharpoonup> space) \<Rightarrow> (nat \<rightharpoonup> space) option" where
  "vm_spec (Fork t c) r A = (if r = 0 then Some (A(c := A t)) else if r = - ENOMEM then Some A else None)"
| "vm_spec (Store t va b) r A =
    (if r = - ENOMEM then Some A
     else case the (A t) va of
       Some (x, True) \<Rightarrow> if r = 0 then Some (A(t \<mapsto> (the (A t))(va \<mapsto> (b, True)))) else None
     | _ \<Rightarrow> if r = - EFAULT then Some A else None)"
| "vm_spec (Touch t va) r A =
    (if r = - ENOMEM then Some A
     else if r = - EAGAIN then (if the (A t) va = None then Some A else None)
     else if r \<noteq> 0 then None
     else if the (A t) va \<noteq> None then Some A
     else Some (A(t \<mapsto> \<lambda>wa. if same_page va wa then Some (0, True) else the (A t) wa)))"
| "vm_spec (Unmap t from sz) r A = (if r = 0 then Some (A(t \<mapsto> \<lambda>wa. if in_pages from sz wa then None else the (A t) wa)) else None)"
| "vm_spec (Exec t) r A = (if r = 0 then Some (A(t \<mapsto> \<lambda>_. None)) else None)"
| "vm_spec (Exit t) r A = (if r = 0 then Some (A(t := None)) else None)"

fun vm_pre :: "vm_op \<Rightarrow> (nat \<rightharpoonup> space) \<Rightarrow> bool" where
  "vm_pre (Fork t c) A \<longleftrightarrow> t \<in> dom A \<and> c \<notin> dom A \<and> c \<noteq> 0"
| "vm_pre (Store t va b) A \<longleftrightarrow> t \<in> dom A \<and> va < TASK_SIZE"
| "vm_pre (Touch t va) A \<longleftrightarrow> t \<in> dom A \<and> va < TASK_SIZE"
| "vm_pre (Unmap t from sz) A \<longleftrightarrow> t \<in> dom A \<and> page_bits from = 0 \<and> unat from + unat sz \<le> unat TASK_SIZE"
| "vm_pre (Exec t) A \<longleftrightarrow> t \<in> dom A"
| "vm_pre (Exit t) A \<longleftrightarrow> t \<in> dom A"

definition vm_rel :: "vm_state \<Rightarrow> (nat \<rightharpoonup> space) \<Rightarrow> bool" where
  "vm_rel s A \<longleftrightarrow> (\<exists>P Q. spaces_ok s (dom A) P Q) \<and> (\<forall>t\<in>dom A. \<forall>va<TASK_SIZE. view s t va = the (A t) va)"

lemma vm_relI: "spaces_ok s T P Q \<Longrightarrow> T = dom A \<Longrightarrow> (\<And>t va. t \<in> T \<Longrightarrow> va < TASK_SIZE \<Longrightarrow> view s t va = the (A t) va) \<Longrightarrow> vm_rel s A"
  unfolding vm_rel_def by blast

section \<open>Each event\<close>

lemma sim_Fork:
  assumes "vm_rel s A" "vm_pre (Fork t c) A"
  shows "\<exists>r s' A'. vm_impl (Fork t c) s = Some (r, s') \<and> vm_spec (Fork t c) r A = Some A' \<and> vm_rel s' A'"
proof -
  obtain P Q where ok: "spaces_ok (s\<lparr>vm_current := t\<rparr>) (dom A) P Q" and v: "\<And>u va. u \<in> dom A \<Longrightarrow> va < TASK_SIZE \<Longrightarrow> view (s\<lparr>vm_current := t\<rparr>) u va = the (A u) va"
    using assms(1) by (auto simp: vm_rel_def)
  have p: "vm_current (s\<lparr>vm_current := t\<rparr>) \<in> dom A" "c \<notin> dom A" "c \<noteq> 0" using assms(2) by auto
  from copy_page_tables_fork [OF ok p] show ?thesis
  proof cases
    case (1 s' P' Q')
    have "vm_rel s' (A(c := A t))" by (rule vm_relI [OF 1(2)]) (use p assms(2) 1(4,5) v in auto)
    then show ?thesis using 1(1) by auto
  next
    case (2 s' P' Q')
    have "vm_rel s' A" by (rule vm_relI [OF 2(2)]) (use 2(4) v in auto)
    then show ?thesis using 2(1) by auto
  qed
qed

lemma sim_Store:
  assumes "vm_rel s A" "vm_pre (Store t va b) A"
  shows "\<exists>r s' A'. vm_impl (Store t va b) s = Some (r, s') \<and> vm_spec (Store t va b) r A = Some A' \<and> vm_rel s' A'"
proof -
  obtain P Q where ok: "spaces_ok s (dom A) P Q" and v: "\<And>u va. u \<in> dom A \<Longrightarrow> va < TASK_SIZE \<Longrightarrow> view s u va = the (A u) va"
    using assms(1) by (auto simp: vm_rel_def)
  have p: "t \<in> dom A" "va < TASK_SIZE" using assms(2) by auto
  note u = user_store_views [OF ok p, where b = b]
  obtain r s' where r: "user_store t va b s = (r, s')" by fastforce
  note u = u [unfolded r fst_conv snd_conv]
  let ?B = "A(t \<mapsto> (the (A t))(va \<mapsto> (b, True)))"
  have "vm_rel s' (if r = 0 then ?B else A)" by (rule vm_relI [OF u(1)]) (use p u(3) v in auto)
  moreover have "vm_spec (Store t va b) r A = Some (if r = 0 then ?B else A)" using u(2) v [OF p] by (auto split: option.splits bool.splits)
  ultimately show ?thesis using r by auto
qed

lemma get_empty_pgtable_memory:
  assumes "mm_ok s P Q" "get_empty_pgtable t va s = (r, s')" "2 \<le> nfree s" "tbl s (cr3 s t) (dir_index va) = 0 \<or> present (tbl s (cr3 s t) (dir_index va))"
  shows "free_page_list s' \<noteq> [] \<or> secondary_page_list s' \<noteq> []"
proof -
  obtain p s1 where g: "get_free_page GFP_KERNEL s = (p, s1)" by fastforce
  have "free_page_list s1 \<noteq> [] \<or> secondary_page_list s1 \<noteq> []" "free_page_list s \<noteq> [] \<or> secondary_page_list s \<noteq> []"
    using get_free_page_length [OF assms(1) g] assms(3) by (auto simp: nfree_def)
  moreover from this have "p \<noteq> 0" using get_free_page_take(4) [OF assms(1) g] by auto
  ultimately show ?thesis using assms(2,4) g by (auto simp: get_empty_pgtable_def Let_def split: if_splits)
qed

lemma sim_Touch:
  assumes "vm_rel s A" "vm_pre (Touch t va) A"
  shows "\<exists>r s' A'. vm_impl (Touch t va) s = Some (r, s') \<and> vm_spec (Touch t va) r A = Some A' \<and> vm_rel s' A'"
proof (cases "nfree s < 2")
  case True
  then show ?thesis using assms(1) by (simp add: user_touch_def)
next
  case False
  obtain P Q where ok: "spaces_ok s (dom A) P Q" and v: "\<And>u va. u \<in> dom A \<Longrightarrow> va < TASK_SIZE \<Longrightarrow> view s u va = the (A u) va"
    using assms(1) by (auto simp: vm_rel_def)
  have p: "t \<in> dom A" "va < TASK_SIZE" using assms(2) by auto
  have m: "free_page_list s \<noteq> [] \<or> secondary_page_list s \<noteq> []" using False by (auto simp: nfree_def)
  obtain r s1 where g: "get_empty_pgtable t va s = (r, s1)" by fastforce
  obtain P1 where 1: "spaces_ok s1 (dom A) P1 Q" "same_globals s s1" "r \<noteq> 0" "r = tbl s1 (cr3 s t) (dir_index va)"
    "\<forall>u\<in>dom A. \<forall>wa<TASK_SIZE. view s1 u wa = view s u wa" using get_empty_pgtable_views [OF ok p m g] by blast
  have m1: "free_page_list s1 \<noteq> [] \<or> secondary_page_list s1 \<noteq> []"
    by (rule get_empty_pgtable_memory [OF spaces_okD(1) [OF ok] g]) (use False user_entry(1) [OF ok p(1) index_bounds(2) [OF p(2)]] in auto)
  have e: "tbl s1 (cr3 s1 t) (dir_index va) \<noteq> 0" using 1(2-4) by (simp add: same_globals_def)
  have rel1: "vm_rel s1 A" by (rule vm_relI [OF 1(1)]) (use 1(5) v in auto)
  have here: "the (A t) va = view s1 t va" using 1(5) v [OF p] p by simp
  show ?thesis
  proof (cases "pte s1 t va = 0")
    case True
    note z = get_empty_page_views [OF 1(1) p m1 e True]
    have none: "the (A t) va = None" using here True by (simp add: view_def mapped_def)
    have "vm_rel (get_empty_page t va s1) (A(t \<mapsto> \<lambda>wa. if same_page va wa then Some (0, True) else the (A t) wa))"
      by (rule vm_relI [OF z(1)]) (use p z(2) 1(5) v in auto)
    then show ?thesis using False g True none by (simp add: user_touch_def)
  next
    case nz: False
    then show ?thesis using False g rel1 here e by (auto simp: user_touch_def view_def mapped_def)
  qed
qed

lemma sim_Unmap:
  assumes "vm_rel s A" "vm_pre (Unmap t from sz) A"
  shows "\<exists>r s' A'. vm_impl (Unmap t from sz) s = Some (r, s') \<and> vm_spec (Unmap t from sz) r A = Some A' \<and> vm_rel s' A'"
proof -
  obtain P Q where ok: "spaces_ok (s\<lparr>vm_current := t\<rparr>) (dom A) P Q" and v: "\<And>u va. u \<in> dom A \<Longrightarrow> va < TASK_SIZE \<Longrightarrow> view (s\<lparr>vm_current := t\<rparr>) u va = the (A u) va"
    using assms(1) by (auto simp: vm_rel_def)
  have p: "vm_current (s\<lparr>vm_current := t\<rparr>) \<in> dom A" "page_bits from = 0" "unat from + unat sz \<le> unat TASK_SIZE" using assms(2) by auto
  from unmap_page_range_views [OF ok p] show ?thesis
  proof cases
    case (1 s' P')
    have "vm_rel s' (A(t \<mapsto> \<lambda>wa. if in_pages from sz wa then None else the (A t) wa))" by (rule vm_relI [OF 1(2)]) (use p(1) 1(4) v in auto)
    then show ?thesis using 1(1) by simp
  qed
qed

lemma sim_Exec:
  assumes "vm_rel s A" "vm_pre (Exec t) A"
  shows "\<exists>r s' A'. vm_impl (Exec t) s = Some (r, s') \<and> vm_spec (Exec t) r A = Some A' \<and> vm_rel s' A'"
proof -
  obtain P Q where ok: "spaces_ok s (dom A) P Q" and v: "\<And>u va. u \<in> dom A \<Longrightarrow> va < TASK_SIZE \<Longrightarrow> view s u va = the (A u) va"
    using assms(1) by (auto simp: vm_rel_def)
  have t: "t \<in> dom A" using assms(2) by simp
  from clear_page_tables_views [OF ok t] show ?thesis
  proof cases
    case (1 s' P')
    have "vm_rel s' (A(t \<mapsto> \<lambda>_. None))" by (rule vm_relI [OF 1(2)]) (use t 1(4) v in auto)
    then show ?thesis using 1(1) by simp
  qed
qed

lemma sim_Exit:
  assumes "vm_rel s A" "vm_pre (Exit t) A"
  shows "\<exists>r s' A'. vm_impl (Exit t) s = Some (r, s') \<and> vm_spec (Exit t) r A = Some A' \<and> vm_rel s' A'"
proof -
  obtain P Q where ok: "spaces_ok s (dom A) P Q" and v: "\<And>u va. u \<in> dom A \<Longrightarrow> va < TASK_SIZE \<Longrightarrow> view s u va = the (A u) va"
    using assms(1) by (auto simp: vm_rel_def)
  have t: "t \<in> dom A" using assms(2) by simp
  from free_page_tables_leaves [OF ok t] obtain s' P' Q' where 1: "free_page_tables t s = Some s'" "spaces_ok s' (dom A - {t}) P' Q'"
    "\<forall>u\<in>dom A - {t}. \<forall>wa<TASK_SIZE. view s' u wa = view s u wa" by blast
  have "vm_rel s' (A(t := None))" by (rule vm_relI [OF 1(2)]) (use 1(3) v in auto)
  then show ?thesis using 1(1) by simp
qed

interpretation vms: outcomes vm_impl vm_spec vm_pre vm_rel
proof
  show "\<exists>r s' A'. vm_impl x s = Some (r, s') \<and> vm_spec x r A = Some A' \<and> vm_rel s' A'" if "vm_rel s A" "vm_pre x A" for x s A
    by (cases x) (use that sim_Fork sim_Store sim_Touch sim_Unmap sim_Exec sim_Exit in \<open>auto simp only:\<close>)
qed

end
