(* ===== verification/Vm_Theorems.thy ===== *)
theory Vm_Theorems
  imports Address_Events
begin

text \<open>The results on page tables, and a small memory on which they are instantiated.\<close>

section \<open>A machine with sixteen pages\<close>

text \<open>Pages 0 and 1 are reserved, page 1 is the directory of the kernel, page 2 the empty directory of process 1, and the pages 3 to 9 are free.\<close>

definition vm_example :: vm_state where
  "vm_example = \<lparr>tbl = \<lambda>_ _. 0, frame = \<lambda>_ _. 0, mem_map = \<lambda>n. if n < 2 then 0x8000 else if n = 2 then 1 else 0, high_memory = 0x10000,
     free_page_list = [0x3000, 0x4000, 0x5000, 0x6000, 0x7000, 0x8000, 0x9000], nr_free_pages = 7, secondary_page_list = [], nr_secondary_pages = 0,
     cr3 = \<lambda>t. if t = 1 then 0x2000 else 0x1000, rss = \<lambda>_. 0, min_flt = \<lambda>_. 0, swap_files = [], nr_swap_pages = 0, vm_intr_count = 0, vm_current = 1,
     swapper_pg_dir = 0x1000, zero_page = 0, bad_page = 0, bad_pagetable = 0, vm_log = []\<rparr>"

lemma vm_example_ok: "spaces_ok vm_example {1} {} {0x2000}"
  by (simp add: vm_example_def spaces_ok_def mm_ok_def own_page_def sites_def free_ok_def page_bits_def MAP_NR_def reserved_def)

lemma vm_example_rel: "vm_rel vm_example [1 \<mapsto> \<lambda>_. None]"
  by (rule vm_relI [OF vm_example_ok]) (simp_all add: view_def mapped_def vm_example_def)

section \<open>Results\<close>

text \<open>C35: The page tables, with pages shared between processes until one of them writes, behave like address spaces that are independent of each other.  For every
  sequence of forks, stores, first touches of a page, unmapped ranges, execs and exits, \<^verbatim>\<open>copy_page_tables\<close>, \<^verbatim>\<open>do_wp_page\<close>, \<^verbatim>\<open>get_empty_pgtable\<close>, \<^verbatim>\<open>get_empty_page\<close>,
  \<^verbatim>\<open>unmap_page_range\<close>, \<^verbatim>\<open>clear_page_tables\<close> and \<^verbatim>\<open>free_page_tables\<close> run to the end, their results are ones that the independent spaces allow, and at the end every process
  reads in every page exactly the bytes that its own space has: a child starts with the bytes of its parent, a store is seen only by the process that
  made it, and a fork that fails for lack of memory changes nothing.\<close>

theorem page_tables_are_address_spaces:
  assumes "vm_rel s A" "allowed vm_spec vm_pre ops A"
  shows "\<exists>rs s' A'. run_ops vm_impl ops s = Some (rs, s') \<and> explain vm_spec ops rs A = Some A' \<and> (\<forall>t m. A' t = Some m \<longrightarrow> (\<forall>va<TASK_SIZE. view s' t va = m va))"
proof -
  from vms.run_explained [OF assms] obtain rs s' A' where "run_ops vm_impl ops s = Some (rs, s')" "explain vm_spec ops rs A = Some A'" "vm_rel s' A'" by blast
  then show ?thesis unfolding vm_rel_def by (metis domI option.sel)
qed

theorem page_tables_are_address_spaces_witness:
  "\<exists>rs s' A'. run_ops vm_impl [Touch 1 0x8000000, Store 1 0x8000004 7, Fork 1 2, Store 1 0x8000004 9, Exit 1] vm_example = Some (rs, s')
     \<and> explain vm_spec [Touch 1 0x8000000, Store 1 0x8000004 7, Fork 1 2, Store 1 0x8000004 9, Exit 1] rs [1 \<mapsto> \<lambda>_. None] = Some A'
     \<and> (\<forall>t m. A' t = Some m \<longrightarrow> (\<forall>va<TASK_SIZE. view s' t va = m va))"
  by (rule page_tables_are_address_spaces [OF vm_example_rel]) (auto split: if_splits option.splits bool.splits)

text \<open>C36: A fork does not fail without reason.  When the free pages are more than the page tables of the parent, \<^verbatim>\<open>copy_page_tables\<close> returns 0, the child
  reads at every user address what the parent reads there, and nothing changes for the parent and for the other processes.\<close>

theorem fork_copies_the_space:
  assumes "spaces_ok s T P Q" "vm_current s \<in> T" "c \<notin> T" "c \<noteq> 0" "tables_of s (vm_current s) [0..<1024] < nfree s"
  shows "\<exists>s'. copy_page_tables c s = Some (0, s') \<and> (\<forall>va<TASK_SIZE. view s' c va = view s (vm_current s) va) \<and> (\<forall>u\<in>T. \<forall>va<TASK_SIZE. view s' u va = view s u va)"
  using copy_page_tables_fork [OF assms(1-4)]
proof cases
  case (2 s' P' Q')
  then show ?thesis using copy_page_tables_enough [OF assms] by simp
qed blast

theorem fork_copies_the_space_witness:
  "\<exists>s'. copy_page_tables 2 vm_example = Some (0, s') \<and> (\<forall>va<TASK_SIZE. view s' 2 va = view vm_example (vm_current vm_example) va)
     \<and> (\<forall>u\<in>{1}. \<forall>va<TASK_SIZE. view s' u va = view vm_example u va)"
proof (rule fork_copies_the_space [OF vm_example_ok])
  have "tables_of vm_example (vm_current vm_example) js = 0" for js by (simp add: tables_of_def vm_example_def)
  then show "tables_of vm_example (vm_current vm_example) [0..<1024] < nfree vm_example" by (simp add: nfree_def vm_example_def)
qed (simp_all add: vm_example_def)

end
