(* ===== verification/Mmap_Theorems.thy ===== *)
theory Mmap_Theorems
  imports Mmap_Events Vm_Theorems
begin

text \<open>The results on memory maps.\<close>

definition mmap_example :: mm_state where
  "mmap_example = \<lparr>vm = vm_example, mmap = [], i_count = \<lambda>_. 0, km_answers = [], mm_errno = 0, mm_log = []\<rparr>"





text \<open>C40: A shared writable mapping without a file maps the page of zeros that all processes share, and maps it writable.  With \<^verbatim>\<open>PROT_READ | PROT_WRITE\<close> and a type other than
  \<^verbatim>\<open>MAP_PRIVATE\<close>, \<^verbatim>\<open>anon_map\<close> of one page whose table is present leaves in the table an entry with the address of that page and the right to write it.\<close>

theorem anon_shared_maps_zero_page_writable:
  assumes "present (tbl (vm s) (cr3 (vm s) (vm_current (vm s))) (dir_index a))" "page_bits a = 0" "flags AND 0xf \<noteq> 2" "page_of (tbl (vm s) (cr3 (vm s) (vm_current (vm s))) (dir_index a)) \<noteq> zero_page (vm s)"
    and "cr3 (vm s) (vm_current (vm s)) \<noteq> zero_page (vm s)"
  shows "\<exists>e. tbl (vm (snd (anon_map a 4096 (prot_mask 3 flags) s))) (page_of (tbl (vm s) (cr3 (vm s) (vm_current (vm s))) (dir_index a))) (pt_index a) = e
    \<and> e = add_flags 0x27 (zero_page (vm s)) \<and> writable e"
proof -
  let ?v = "vm s" and ?t = "vm_current (vm s)"
  have msk: "prot_mask 3 flags = 0x27" using assms(3) by (simp add: prot_mask_def)
  have n: "pages_of 4096 = 1" by (simp add: pages_of_def)
  let ?z = "fill_page (zero_page ?v) ?v"
  have z: "tbl ?z (cr3 ?v ?t) = tbl ?v (cr3 ?v ?t)" "cr3 ?z = cr3 ?v" "vm_current ?z = ?t" "zero_page ?z = zero_page ?v" using assms(5) by (simp_all add: fill_page_def)
  have mn: "min (1024 - pt_index a) (Suc 0) = Suc 0" using index_bounds(1) [of a] by linarith
  have "snd (zeromap_page_range a 4096 0x27 ?v) = set_entry (page_of (tbl ?v (cr3 ?v ?t) (dir_index a))) (pt_index a) (add_flags 0x27 (zero_page ?v))
      (drop_pte ?t (page_of (tbl ?v (cr3 ?v ?t) (dir_index a))) (pt_index a) ?z)"
    using assms(1,2) z n mn by (simp add: zeromap_page_range_def ZERO_PAGE_def Let_def zeromap_dirs.simps range_table_def)
  moreover have "vm (snd (anon_map a 4096 0x27 s)) = snd (zeromap_page_range a 4096 0x27 ?v)"
    by (auto simp: anon_map_def Let_def km_area_def split: prod.splits list.splits)
  moreover have "writable 0x27" by (simp add: writable_def)
  then have "writable (add_flags 0x27 (zero_page ?v))" by (simp add: add_flags_bits)
  ultimately show ?thesis by (simp add: msk)
qed

theorem anon_shared_maps_zero_page_writable_witness:
  "\<exists>s e. tbl (vm (snd (anon_map 0x8000000 4096 (prot_mask 3 1) s))) 0x3000 0 = e \<and> e = add_flags 0x27 (zero_page (vm s)) \<and> writable e"
proof -
  define s where "s = mmap_example\<lparr>vm := vm_example\<lparr>tbl := \<lambda>t i. if t = 0x2000 \<and> i = 32 then 0x3027 else 0\<rparr>\<rparr>"
  have i: "dir_index 0x8000000 = 32" "pt_index 0x8000000 = 0" "page_of 0x3027 = 0x3000" by (simp_all add: dir_index_def pt_index_def page_of_def)
  have "tbl (vm s) (cr3 (vm s) (vm_current (vm s))) (dir_index 0x8000000) = 0x3027" by (simp add: s_def vm_example_def i)
  moreover have "zero_page (vm s) = 0" "cr3 (vm s) (vm_current (vm s)) = 0x2000" by (simp_all add: s_def vm_example_def)
  moreover have "page_bits 0x8000000 = 0" "present 0x3027" "(1 AND 0xf :: u32) \<noteq> 2" by (simp_all add: page_bits_def present_def)
  ultimately show ?thesis using anon_shared_maps_zero_page_writable [of s "0x8000000" 1] i by (intro exI [of _ s]) auto
qed

text \<open>The reference that an area holds to its inode is lost when the area is joined to its neighbour.\<close>

theorem merge_loses_reference:
  assumes "mmap s = [p, m]" "mergeable None p m" "vm_inode p = Some i"
  shows "i_count (merge_segments None s) i - refs (mmap (merge_segments None s)) i = i_count s i - refs (mmap s) i + 1"
  using assms by (simp add: merge_segments_def mergeable_def)

text \<open>The check of \<^verbatim>\<open>do_mmap\<close> for room overflows for a length of 3 GB: the whole upper part of the address space, the kernel included, is mapped over.\<close>

theorem mmap_of_3GB_maps_the_kernel:
  assumes "mm_errno s = 0"
  shows "do_mmap None 0 0xC0000000 1 2 0 s = (let (e, s') = anon_map 0x40000000 0xC0000000 PAGE_READONLY s
     in Some (if e = 0 then (0x40000000, s') else (map_error 1, if mm_errno s' = 0 then s'\<lparr>mm_errno := - e\<rparr> else s')))"
proof -
  have "(0x40000000 + 0xC0000000 :: u32) = 0" by (simp add: word_unat_eq_iff)
  then have "first_clash 0x40000000 0xC0000000 ms = None" for ms by (simp only: first_clash_None) simp
  then have r: "find_room 0xC0000000 ms 0x40000000 = Some 0x40000000" for ms by (subst find_room.simps) simp
  have l: "PAGE_ALIGN 0xC0000000 = 0xC0000000" by (simp add: PAGE_ALIGN_def page_of_def)
  have m: "do_munmap 0x40000000 0xC0000000 s = Some (- EINVAL, s)" by (simp add: do_munmap_def)
  show ?thesis by (simp add: do_mmap_def l r m check_file_def prot_mask_def Let_def split: prod.splits)
qed

end
