(* ===== verification/Spec2Isabelle.thy ===== *)
theory Spec2Isabelle
  imports Process_Theorems Signal_Theorems Time_Theorems Access_Theorems Ipc_Theorems Msg_Theorems Kmalloc_Theorems Vsprintf_Theorems Pipe_Theorems Lock_Theorems Net_Theorems Mmap_Theorems
begin

text \<open>
  A verification development for the Linux 1.0 kernel (\<^verbatim>\<open>src/Linux1.0\<close>): the process, signal, time and resource
  core of the kernel, System V semaphores and message queues, pipes, file locks, the kernel's allocator, page tables and memory
  maps, the buffers of the network and the kernel's formatted output.

  \<^bold>\<open>The program.\<close>  Linux 1.0 is a monolithic kernel for the i386.  Its core is a table of processes
  (\<^verbatim>\<open>task[]\<close> with a ring through all tasks and a tree of parents, children and siblings); system calls and the timer
  interrupt act on it.  \<^verbatim>\<open>fork\<close> links a task in, \<^verbatim>\<open>do_exit\<close> hands its children over and makes it a zombie, \<^verbatim>\<open>wait4\<close>
  takes it out.  Tasks sleep on wait queues and are woken from them; \<^verbatim>\<open>schedule\<close> chooses who runs.  Signals are bits
  of a mask in the task, sent by \<^verbatim>\<open>kernel/exit.c\<close> and delivered by \<^verbatim>\<open>kernel/signal.c\<close>.  The timer interrupt drives the
  clock, the accounting and three kinds of timers.  The means by which processes communicate (semaphores, messages, pipes,
  locks on files) are tables and queues on top of this: a call checks a condition and sleeps on a wait queue until it holds.
  \<^verbatim>\<open>kmalloc\<close> gives them memory.  A process sees memory through its page directory: \<^verbatim>\<open>mm/memory.c\<close> copies it on a fork, shares pages until
  one is written, and answers the faults; \<^verbatim>\<open>mm/mmap.c\<close> keeps the list of the areas a process has mapped.  Packets of the
  network wait in rings of \<^verbatim>\<open>sk_buff\<close>s, charged to the socket they belong to.  File systems, drivers and protocols call these routines.

  \<^bold>\<open>State.\<close>  The core is one record \<^verbatim>\<open>kernel\<close> (\<^verbatim>\<open>Task_Table\<close>): stores of \<^verbatim>\<open>task_struct\<close>s and of wait-queue entries
  indexed by address, the array \<^verbatim>\<open>task[]\<close>, \<^verbatim>\<open>current\<close>, the global variables of \<^verbatim>\<open>kernel/sched.c\<close> and the memory of the
  current process.  Pointers are addresses, a pointer that may be \<^verbatim>\<open>NULL\<close> is an option, so aliasing is as in the code.
  The clock (\<^verbatim>\<open>Clock\<close>), the kernel timers (\<^verbatim>\<open>Timer_List\<close>), the I/O bit maps (\<^verbatim>\<open>Io_Resources\<close>), semaphores (\<^verbatim>\<open>Ipc_Sem\<close>), messages
  (\<^verbatim>\<open>Ipc_Msg\<close>), pipes (\<^verbatim>\<open>Pipe\<close>), locks (\<^verbatim>\<open>File_Locks\<close>), the allocator (\<^verbatim>\<open>Kmalloc\<close>), physical pages (\<^verbatim>\<open>Page_Tables\<close>), memory areas (\<^verbatim>\<open>Mmap\<close>) and
  socket buffers (\<^verbatim>\<open>Skbuff\<close>) have records of their own; those whose calls sleep
  hold the kernel in a field.  \<^verbatim>\<open>int\<close> and \<^verbatim>\<open>long\<close> fields that are compared as signed numbers are HOL integers, with the wrap-around
  written out (\<^verbatim>\<open>swrap\<close>) where the code can overflow; masks and unsigned quantities are 32-bit words, identities and the counters of
  the queues 16-bit words.

  \<^bold>\<open>Errors and non-termination.\<close>  A negative error number is a negative result, as in the code.  \<^verbatim>\<open>None\<close> means that
  the code dereferences \<^verbatim>\<open>NULL\<close>, accesses an array out of bounds or does not return; a theorem that a call succeeds says
  \<^verbatim>\<open>= Some\<close>.  A loop over a linked list is a \<^verbatim>\<open>partial_function\<close> or recursion over the finitely many entries; there is no
  fuel.  A function that calls \<^verbatim>\<open>schedule()\<close> in its middle is cut there: the first part returns a value saying that the
  task sleeps and a second definition continues when it runs again, from whatever state it then finds.

  \<^bold>\<open>Theories and sources.\<close>
  \<^item> \<^verbatim>\<open>Kernel_Prelude\<close>: words, C arithmetic, options, the access to user memory (\<^verbatim>\<open>include/asm/segment.h\<close>,
    \<^verbatim>\<open>verify_area\<close>), the named collections of simplification rules, histories of steps.  \<^verbatim>\<open>User_Bytes\<close>: copies of bytes to and from
    user memory.  \<^verbatim>\<open>Chains\<close>: singly linked chains.  \<^verbatim>\<open>Ring_Lists\<close>: doubly linked rings.  \<^verbatim>\<open>Object_Table\<close>: tables of objects
    found by a key.  \<^verbatim>\<open>Simulations\<close>: sequences of operations against an abstract state.
  \<^item> \<^verbatim>\<open>Task_Table\<close>, \<^verbatim>\<open>Process_Tree\<close>: \<^verbatim>\<open>task_struct\<close>, \<^verbatim>\<open>SET_LINKS\<close>, \<^verbatim>\<open>REMOVE_LINKS\<close>, \<^verbatim>\<open>for_each_task\<close>
    (\<^verbatim>\<open>include/linux/sched.h\<close>), \<^verbatim>\<open>release\<close>, \<^verbatim>\<open>forget_original_parent\<close>, \<^verbatim>\<open>audit_ptree\<close> (\<^verbatim>\<open>kernel/exit.c\<close>); the
    invariant \<^verbatim>\<open>ptable_ok\<close> and its preservation.
  \<^item> \<^verbatim>\<open>Wait_Queue\<close>: \<^verbatim>\<open>add_wait_queue\<close>, \<^verbatim>\<open>remove_wait_queue\<close>, \<^verbatim>\<open>wake_up\<close> and \<^verbatim>\<open>wake_up_interruptible\<close>.
  \<^item> \<^verbatim>\<open>Signals\<close>, \<^verbatim>\<open>Exit_Wait\<close>, \<^verbatim>\<open>Wait_Calls\<close>: \<^verbatim>\<open>kernel/exit.c\<close>, with \<^verbatim>\<open>getrusage\<close>.
  \<^item> \<^verbatim>\<open>Fork\<close>: \<^verbatim>\<open>kernel/fork.c\<close>.
  \<^item> \<^verbatim>\<open>Signal_Calls\<close>: \<^verbatim>\<open>kernel/signal.c\<close>.
  \<^item> \<^verbatim>\<open>Clock\<close>, \<^verbatim>\<open>Timer_List\<close>, \<^verbatim>\<open>Sched\<close>, \<^verbatim>\<open>Itimer\<close>: \<^verbatim>\<open>kernel/sched.c\<close>, \<^verbatim>\<open>kernel/time.c\<close>, \<^verbatim>\<open>kernel/mktime.c\<close> and
    \<^verbatim>\<open>kernel/itimer.c\<close>.
  \<^item> \<^verbatim>\<open>Sys_Calls\<close>: \<^verbatim>\<open>kernel/sys.c\<close>.
  \<^item> \<^verbatim>\<open>Io_Resources\<close>: \<^verbatim>\<open>kernel/ioport.c\<close> and \<^verbatim>\<open>kernel/dma.c\<close>.
  \<^item> \<^verbatim>\<open>Ipc_Sem\<close>, \<^verbatim>\<open>Ipc_Sem_Laws\<close>: \<^verbatim>\<open>ipc/sem.c\<close> and \<^verbatim>\<open>ipcperms\<close> of \<^verbatim>\<open>ipc/util.c\<close>.  \<^verbatim>\<open>Ipc_Msg\<close>, \<^verbatim>\<open>Ipc_Msg_Laws\<close>: \<^verbatim>\<open>ipc/msg.c\<close>.  \<^verbatim>\<open>Ipc_Ids\<close>: what the tables
    of identifiers of both share.
  \<^item> \<^verbatim>\<open>Pipe\<close>, \<^verbatim>\<open>Pipe_Laws\<close>: \<^verbatim>\<open>fs/pipe.c\<close> and \<^verbatim>\<open>fs/fifo.c\<close>.
  \<^item> \<^verbatim>\<open>File_Locks\<close>, \<^verbatim>\<open>File_Locks_Laws\<close>, \<^verbatim>\<open>File_Locks_Result\<close>: \<^verbatim>\<open>fs/locks.c\<close>; the loop of \<^verbatim>\<open>lock_it\<close> over the list of locks and what it
    leaves on every path.
  \<^item> \<^verbatim>\<open>Kmalloc\<close>, \<^verbatim>\<open>Kmalloc_Laws\<close>: \<^verbatim>\<open>mm/kmalloc.c\<close>.
  \<^item> \<^verbatim>\<open>Page_Tables\<close>, \<^verbatim>\<open>Page_Laws\<close>: the free pages and \<^verbatim>\<open>mm/memory.c\<close> (page tables, copy on write, faults).  \<^verbatim>\<open>Address_Spaces\<close>, \<^verbatim>\<open>Address_Fork\<close>,
    \<^verbatim>\<open>Address_Writes\<close>, \<^verbatim>\<open>Address_Ranges\<close>, \<^verbatim>\<open>Address_Events\<close>: what a process sees of memory, and what every operation does to it.
  \<^item> \<^verbatim>\<open>Mmap\<close>, \<^verbatim>\<open>Mmap_Laws\<close>, \<^verbatim>\<open>Mmap_Events\<close>: \<^verbatim>\<open>mm/mmap.c\<close>.
  \<^item> \<^verbatim>\<open>Skbuff\<close>, \<^verbatim>\<open>Skbuff_Laws\<close>, \<^verbatim>\<open>Skbuff_Memory\<close>: \<^verbatim>\<open>net/inet/skbuff.c\<close> and the memory accounting of \<^verbatim>\<open>net/inet/sock.c\<close>.
  \<^item> \<^verbatim>\<open>Vsprintf\<close>: \<^verbatim>\<open>kernel/vsprintf.c\<close> and the character classes of \<^verbatim>\<open>lib/ctype.c\<close>.
  \<^item> \<^verbatim>\<open>Process_Theorems\<close>, \<^verbatim>\<open>Signal_Theorems\<close>, \<^verbatim>\<open>Time_Theorems\<close>, \<^verbatim>\<open>Access_Theorems\<close>, \<^verbatim>\<open>Ipc_Theorems\<close>, \<^verbatim>\<open>Msg_Theorems\<close>, \<^verbatim>\<open>Pipe_Theorems\<close>,
    \<^verbatim>\<open>Lock_Theorems\<close>, \<^verbatim>\<open>Kmalloc_Theorems\<close>, \<^verbatim>\<open>Vm_Theorems\<close>, \<^verbatim>\<open>Mmap_Theorems\<close>, \<^verbatim>\<open>Net_Theorems\<close>, \<^verbatim>\<open>Vsprintf_Theorems\<close>: the properties, numbered C1 on, each with an instance at a concrete state.

  \<^bold>\<open>Interfaces.\<close>  \<^verbatim>\<open>component\<close> (\<^verbatim>\<open>Kernel_Prelude\<close>): an invariant that every step keeps, hence every history; \<^verbatim>\<open>object_table\<close>
  extends it by a map that every step changes as its event says, and is interpreted for the identifiers of semaphores
  and of message queues and for the blocks of \<^verbatim>\<open>kmalloc\<close>; \<^verbatim>\<open>byte_stream\<close> extends it for the pipes; \<^verbatim>\<open>link_preserving\<close> is what
  the operations that leave the process tree alone promise, interpreted for waking, for recharging and for sending signals.  \<^verbatim>\<open>simulation\<close> (\<^verbatim>\<open>Simulations\<close>) is a component whose operations are
  those of an abstract state, \<^verbatim>\<open>outcomes\<close> one whose operations have an outcome the abstract state explains, and gives the former's
  runs; the queues of socket buffers and the socket's memory interpret \<^verbatim>\<open>simulation\<close>, the page tables and the memory maps \<^verbatim>\<open>outcomes\<close>.

  \<^bold>\<open>What is shown.\<close>  The process table stays a ring with a consistent tree through fork, exit and wait, and the
  kernel's own audit accepts exactly the consistent tables; the scheduler picks the right task and always
  returns; wait queues behave as lists (\<^verbatim>\<open>Process_Theorems\<close>).  \<^verbatim>\<open>SIGKILL\<close> and \<^verbatim>\<open>SIGSTOP\<close> can never be masked, a signal
  frame round trips, the permission rule of \<^verbatim>\<open>kill\<close> (\<^verbatim>\<open>Signal_Theorems\<close>).  The delta lists of timers refine
  sorted lists of deadlines; interval timers, calendar and clock discipline (\<^verbatim>\<open>Time_Theorems\<close>).  Identities only shrink, I/O
  permissions open exactly the ports asked for (\<^verbatim>\<open>Access_Theorems\<close>).  Identifiers of semaphores and queues
  refine maps under any interleaving of calls; a \<^verbatim>\<open>semop\<close> is all or nothing and is undone by an exit; \<^verbatim>\<open>msgrcv\<close> takes exactly the
  message it asks for (\<^verbatim>\<open>Ipc_Theorems\<close>, \<^verbatim>\<open>Msg_Theorems\<close>).  A pipe is a byte stream with atomic small writes (\<^verbatim>\<open>Pipe_Theorems\<close>).
  \<^verbatim>\<open>lock_it\<close> sets exactly the bytes of its request, and locks exclude each other (\<^verbatim>\<open>Lock_Theorems\<close>).  \<^verbatim>\<open>kmalloc\<close> refines a map from pointers
  to sizes, its blocks never overlap, and it gives memory whenever a page can be had (\<^verbatim>\<open>Kmalloc_Theorems\<close>).  Under any sequence
  of forks, faults, writes and frees the page tables of all processes are separate address spaces, and a fork copies the space
  (\<^verbatim>\<open>Vm_Theorems\<close>).  The list of memory areas is a map from addresses to what is mapped there (\<^verbatim>\<open>Mmap_Theorems\<close>).  Rings of
  socket buffers are sequences and a socket's charges are the sum of its buffers (\<^verbatim>\<open>Net_Theorems\<close>).  What is
  printed is laid out as the format says and is read back as it was (\<^verbatim>\<open>Vsprintf_Theorems\<close>).  Where the code does not do
  what it means to, a theorem states what it does: the wrap of a semaphore and of the count of messages, the locks to the end
  of a file that are not merged, the shared anonymous page that is
  writable, the width given by a star, the free with a wrong size, and others without a number.

  \<^bold>\<open>Parameters.\<close>  Code outside the modelled files is an argument: the page allocator's answers in \<^verbatim>\<open>sys_fork\<close> and \<^verbatim>\<open>kmalloc\<close>, what
  \<^verbatim>\<open>do_exit\<close> asks of the file system, memory and terminal code, \<^verbatim>\<open>core_dump\<close> and \<^verbatim>\<open>schedule\<close> in \<^verbatim>\<open>do_signal\<close>, the
  hardware's counter and clock registers, the memory statistics of \<^verbatim>\<open>sys_brk\<close>, the addresses at which \<^verbatim>\<open>kmalloc\<close> gives memory to
  the IPC calls, the answers of \<^verbatim>\<open>kmalloc\<close> to the
  memory maps and the socket buffers, the \<^verbatim>\<open>mmap\<close> operation of a file, the open files of a process in the file locks, and the strings that arguments of \<^verbatim>\<open>vsprintf\<close> point to.

  \<^bold>\<open>Not modelled.\<close>  Assembly and hardware set-up (interrupt entry, TSS and descriptor tables, FPU), the swap device and the
  reading of pages from files (a page is swapped nowhere, \<^verbatim>\<open>try_to_free_page\<close> frees nothing, and a fault that finds no memory is left
  out), shared memory, the name space and caches of the file systems, drivers, the protocols of the network and the host
  tools: they rest on hardware state or on on-disk and on-wire formats.  The dispatcher \<^verbatim>\<open>sys_ipc\<close> is left out with shared memory, the
  log ring of \<^verbatim>\<open>printk\<close> with the console.
\<close>

end
